(* ===== verification/Prelude.thy ===== *)
theory Prelude
  imports Main "HOL-Library.Word"
begin

unbundle bit_operations_syntax

text \<open>
  Shared material of the development: the C integer types, byte arrays and the writes into
  them, big-endian and little-endian values, and the result-and-state shape that every C
  function returning an error code takes here.
  The platform is the one the library is built for on iOS: 64-bit \<open>size_t\<close> and
  \<open>crypto_word_t\<close>, 32-bit \<open>unsigned\<close> and \<open>int\<close>, little-endian, no assembly.
\<close>

section \<open>Types\<close>

type_synonym u8 = "8 word"
type_synonym u16 = "16 word"
type_synonym u32 = "32 word"
type_synonym u64 = "64 word"
type_synonym bytes = "8 word list"

abbreviation (input) SIZE_MAX :: nat where
  "SIZE_MAX \<equiv> 18446744073709551615"

abbreviation (input) INT_MAX :: nat where
  "INT_MAX \<equiv> 2147483647"

named_theorems bytes_simps \<open>lengths and contents of byte arrays\<close>
named_theorems op_simps \<open>evaluation of error-returning operations\<close>
named_theorems word_nat \<open>word operations read as natural numbers\<close>

section \<open>Operations on a state that may fail\<close>

text \<open>
  A C function that changes an object and returns one or zero is a function from the object
  to an optional result (\<open>None\<close> for the zero) and the object afterwards: what a failing
  call has already done to its object is part of the model.
\<close>

type_synonym ('s, 'a) op = "'s \<Rightarrow> 'a option \<times> 's"

definition ok :: "'a \<Rightarrow> ('s, 'a) op" where
  "ok a = (\<lambda>s. (Some a, s))"

definition fail :: "('s, 'a) op" where
  "fail = (\<lambda>s. (None, s))"

definition and_then :: "('s, 'a) op \<Rightarrow> ('a \<Rightarrow> ('s, 'b) op) \<Rightarrow> ('s, 'b) op" where
  "and_then m f = (\<lambda>s. case m s of (None, s') \<Rightarrow> (None, s') | (Some a, s') \<Rightarrow> f a s')"

definition check :: "bool \<Rightarrow> ('s, unit) op" where
  "check b = (if b then ok () else fail)"

lemma ok_apply [simp, op_simps]: "ok a s = (Some a, s)"
  by (simp add: ok_def)

lemma fail_apply [simp, op_simps]: "fail s = (None, s)"
  by (simp add: fail_def)

lemma check_True [simp, op_simps]: "check True = ok ()"
  by (simp add: check_def)

lemma check_False [simp, op_simps]: "check False = fail"
  by (simp add: check_def)

lemma and_then_Some [simp, op_simps]: "m s = (Some a, s') \<Longrightarrow> and_then m f s = f a s'"
  by (simp add: and_then_def)

lemma and_then_None [simp, op_simps]: "m s = (None, s') \<Longrightarrow> and_then m f s = (None, s')"
  by (simp add: and_then_def)

lemma and_then_eq_Some:
  "and_then m f s = (Some b, t) \<longleftrightarrow> (\<exists>a s'. m s = (Some a, s') \<and> f a s' = (Some b, t))"
  by (auto simp: and_then_def split: prod.splits option.splits)

lemma and_then_eq_SomeE:
  assumes "and_then m f s = (Some b, t)"
  obtains a s' where "m s = (Some a, s')" and "f a s' = (Some b, t)"
  using assms by (auto simp: and_then_eq_Some)

lemma check_eq_Some [simp]: "check b s = (Some u, t) \<longleftrightarrow> b \<and> t = s"
  by (auto simp: check_def)

section \<open>Byte arrays\<close>

text \<open>
  \<open>mem_write buf pos data\<close> is \<open>memcpy(buf + pos, data, n)\<close>. A write inside the array
  keeps its length; a write past its end would show as a longer list, so an invariant that
  fixes the length of an array also shows that no operation writes outside it.
\<close>

definition mem_write :: "'a list \<Rightarrow> nat \<Rightarrow> 'a list \<Rightarrow> 'a list" where
  "mem_write buf pos data = take pos buf @ data @ drop (pos + length data) buf"

lemma length_mem_write [simp, bytes_simps]:
  "pos + length data \<le> length buf \<Longrightarrow> length (mem_write buf pos data) = length buf"
  by (simp add: mem_write_def)

lemma mem_write_Nil [simp]: "mem_write buf pos [] = buf"
  by (simp add: mem_write_def)

lemma take_mem_write_before [simp, bytes_simps]:
  "n \<le> pos \<Longrightarrow> pos \<le> length buf \<Longrightarrow> take n (mem_write buf pos data) = take n buf"
  by (simp add: mem_write_def min_def)

lemma take_mem_write_all [bytes_simps]:
  "pos \<le> length buf \<Longrightarrow> n = pos + length data \<Longrightarrow>
    take n (mem_write buf pos data) = take pos buf @ data"
  by (simp add: mem_write_def)

lemma drop_mem_write_after [bytes_simps]:
  "pos + length data \<le> n \<Longrightarrow> pos \<le> length buf \<Longrightarrow>
    drop n (mem_write buf pos data) = drop n buf"
  by (simp add: mem_write_def drop_append)

lemma mem_write_full: "length data = length buf \<Longrightarrow> mem_write buf 0 data = data"
  by (simp add: mem_write_def)

section \<open>Big-endian and little-endian values\<close>

definition be_val :: "bytes \<Rightarrow> nat" where
  "be_val bs = foldl (\<lambda>v b. v * 256 + unat b) 0 bs"

fun be_bytes :: "nat \<Rightarrow> nat \<Rightarrow> bytes" where
  "be_bytes 0 v = []"
| "be_bytes (Suc n) v = be_bytes n (v div 256) @ [of_nat v]"

lemma be_val_Nil [simp]: "be_val [] = 0"
  by (simp add: be_val_def)

lemma be_val_snoc [simp]: "be_val (bs @ [b]) = be_val bs * 256 + unat b"
  by (simp add: be_val_def)

lemma be_val_append: "be_val (xs @ ys) = be_val xs * 256 ^ length ys + be_val ys"
proof (induction ys rule: rev_induct)
  case (snoc y ys)
  have "be_val (xs @ ys @ [y]) = be_val ((xs @ ys) @ [y])" by simp
  also have "\<dots> = (be_val xs * 256 ^ length ys + be_val ys) * 256 + unat y"
    by (simp only: be_val_snoc snoc.IH)
  finally show ?case by (simp add: algebra_simps)
qed simp

lemma be_val_Cons: "be_val (x # ys) = unat x * 256 ^ length ys + be_val ys"
  using be_val_append [of "[x]" ys] be_val_snoc [of "[]" x] by simp

lemma unat_u8_bound [simp]: "unat (b :: u8) < 256"
  using unsigned_less [of b, where ?'a = nat] by simp

lemma unat_u64_bound: "unat (v :: u64) < 2 ^ 64"
  using unsigned_less [of v, where ?'a = nat] by simp

lemma be_val_bound: "be_val bs < 256 ^ length bs"
proof (induction bs rule: rev_induct)
  case (snoc b bs)
  have "unat b < 256" by simp
  with snoc have "be_val bs * 256 + unat b < 256 ^ length bs * 256" by linarith
  then show ?case by (simp add: mult.commute)
qed simp

lemma length_be_bytes [simp, bytes_simps]: "length (be_bytes n v) = n"
  by (induction n v rule: be_bytes.induct) auto

lemma be_bytes_eq_Nil [simp]: "be_bytes n v = [] \<longleftrightarrow> n = 0"
  by (metis length_be_bytes length_0_conv)

lemma be_val_be_bytes [simp]: "be_val (be_bytes n v) = v mod 256 ^ n"
proof (induction n v rule: be_bytes.induct)
  case (2 n v)
  have "be_val (be_bytes (Suc n) v) = (v div 256) mod 256 ^ n * 256 + unat (of_nat v :: u8)"
    using 2 by simp
  also have "unat (of_nat v :: u8) = v mod 256" by (simp add: unat_of_nat)
  also have "(v div 256) mod 256 ^ n * 256 + v mod 256 = v mod (256 * 256 ^ n)"
    by (simp add: mod_mult2_eq mult.commute)
  finally show ?case by simp
qed simp

lemma be_bytes_be_val: "length bs = n \<Longrightarrow> be_bytes n (be_val bs) = bs"
proof (induction bs arbitrary: n rule: rev_induct)
  case (snoc b bs)
  then obtain m where m: "n = Suc m" "length bs = m" by auto
  have "(be_val bs * 256 + unat b) div 256 = be_val bs" by simp
  moreover have "(of_nat (be_val bs * 256 + unat b) :: u8) = b"
    by (simp only: word_unat_eq_iff unat_of_nat) simp
  ultimately show ?case using m snoc.IH [of m] by simp
qed simp

lemma be_bytes_inj: "v < 256 ^ n \<Longrightarrow> w < 256 ^ n \<Longrightarrow> be_bytes n v = be_bytes n w \<Longrightarrow> v = w"
  by (metis be_val_be_bytes mod_less)

definition le_val :: "bytes \<Rightarrow> nat" where
  "le_val bs = be_val (rev bs)"

definition le_bytes :: "nat \<Rightarrow> nat \<Rightarrow> bytes" where
  "le_bytes n v = rev (be_bytes n v)"

lemma length_le_bytes [simp, bytes_simps]: "length (le_bytes n v) = n"
  by (simp add: le_bytes_def)

lemma le_val_le_bytes [simp]: "le_val (le_bytes n v) = v mod 256 ^ n"
  by (simp add: le_val_def le_bytes_def)

lemma le_bytes_le_val: "length bs = n \<Longrightarrow> le_bytes n (le_val bs) = bs"
  by (simp add: le_val_def le_bytes_def be_bytes_be_val)

lemma le_val_Nil [simp]: "le_val [] = 0"
  by (simp add: le_val_def)

lemma le_val_Cons [simp]: "le_val (b # bs) = unat b + 256 * le_val bs"
  by (simp add: le_val_def)

lemma le_bytes_0 [simp]: "le_bytes 0 v = []"
  by (simp add: le_bytes_def)

lemma le_bytes_Suc [simp]: "le_bytes (Suc n) v = of_nat v # le_bytes n (v div 256)"
  by (simp add: le_bytes_def)

section \<open>Words read as numbers\<close>

text \<open>
  \<open>x << 8 | b\<close>, \<open>x << 7 | (b & 0x7f)\<close> and the like: a shift that leaves room for the
  low bits makes the \<open>|\<close> an addition.
\<close>

lemma push_bit_or_nat:
  fixes a b :: nat
  assumes "b < 2 ^ n"
  shows "push_bit n a OR b = a * 2 ^ n + b"
proof -
  have "push_bit n a AND b = 0"
  proof (rule bit_eqI)
    fix i
    have "\<not> bit b i" if "n \<le> i"
    proof -
      have "b < 2 ^ i"
        using assms that by (meson less_le_trans one_le_numeral power_increasing)
      then show ?thesis by (simp add: bit_iff_odd)
    qed
    then show "bit (push_bit n a AND b) i \<longleftrightarrow> bit (0 :: nat) i"
      by (auto simp: bit_and_iff bit_push_bit_iff)
  qed
  then show ?thesis by (simp add: disjunctive_add_eq_or [symmetric] push_bit_eq_mult)
qed

lemma unat_push_bit [word_nat]:
  "unat (push_bit n x :: 'a::len word) = unat x * 2 ^ n mod 2 ^ LENGTH('a)"
  by (simp only: unsigned_push_bit_eq take_bit_nat_def push_bit_nat_def)

lemma unat_or_shift:
  fixes x y :: "'a::len word"
  assumes "unat y < 2 ^ n" and "unat x * 2 ^ n < 2 ^ LENGTH('a)"
  shows "unat (push_bit n x OR y) = unat x * 2 ^ n + unat y"
proof -
  have "unat (push_bit n x OR y) = push_bit n (unat x) OR unat y"
    using assms(2) by (simp only: unsigned_or_eq unat_push_bit push_bit_nat_def mod_less)
  also have "\<dots> = unat x * 2 ^ n + unat y" by (rule push_bit_or_nat [OF assms(1)])
  finally show ?thesis .
qed

lemma unat_ucast_up [simp]: "LENGTH('b) \<le> LENGTH('a) \<Longrightarrow>
    unat (ucast (x :: 'b::len word) :: 'a::len word) = unat x"
  by (metis unsigned_ucast_eq take_bit_nat_eq_self_iff unsigned_less less_le_trans
      one_le_numeral power_increasing)

lemma unat_ucast_mod [word_nat]:
  "unat (ucast (x :: 'b::len word) :: 'a::len word) = unat x mod 2 ^ LENGTH('a)"
  by (simp only: unsigned_ucast_eq take_bit_nat_def)

lemma unat_drop_bit [word_nat]: "unat (drop_bit n (x :: 'a::len word)) = unat x div 2 ^ n"
  by (simp only: unat_drop_bit_eq drop_bit_nat_def)

lemma unat_and_mask [word_nat]: "unat (x AND mask n :: 'a::len word) = unat x mod 2 ^ n"
  by (simp only: take_bit_eq_mask [symmetric] unsigned_take_bit_eq take_bit_nat_def)

text \<open>The byte masks the parsers and encoders use, as arithmetic.\<close>

lemma and_not_mask_eq: "x AND NOT (mask n) = push_bit n (drop_bit n (x :: 'a::len word))"
  by (rule bit_word_eqI) (auto simp: bit_simps)

lemma unat_and_not_mask: "unat (x AND NOT (mask n) :: 'a::len word) = unat x div 2 ^ n * 2 ^ n"
proof -
  have "unat x div 2 ^ n * 2 ^ n < 2 ^ LENGTH('a)"
    by (meson div_times_less_eq_dividend le_less_trans unsigned_less)
  then show ?thesis by (simp only: and_not_mask_eq unat_push_bit unat_drop_bit mod_less)
qed

lemma u8_not_mask: "NOT (mask 5) = (0xe0 :: u8)" "NOT (mask 7) = (0x80 :: u8)"
   "NOT (mask 6) = (0xc0 :: u8)" "NOT (mask 4) = (0xf0 :: u8)" "NOT (mask 3) = (0xf8 :: u8)"
  by (simp_all add: mask_eq_exp_minus_1 word_unat_eq_iff)

lemma u8_and_7f [word_nat]: "unat (b AND 0x7f :: u8) = unat b mod 128"
  using unat_and_mask [of b 7] by (simp add: mask_eq_exp_minus_1)

lemma u8_and_1f [word_nat]: "unat (b AND 0x1f :: u8) = unat b mod 32"
  using unat_and_mask [of b 5] by (simp add: mask_eq_exp_minus_1)

lemma u8_and_80 [word_nat]: "unat (b AND 0x80 :: u8) = unat b div 128 * 128"
  using unat_and_not_mask [of b 7] by (simp add: u8_not_mask)

lemma u8_and_e0 [word_nat]: "unat (b AND 0xe0 :: u8) = unat b div 32 * 32"
  using unat_and_not_mask [of b 5] by (simp add: u8_not_mask)

lemma u8_high_bit: "(b AND 0x80 = (0 :: u8)) \<longleftrightarrow> unat b < 128"
proof -
  have "(b AND 0x80 = (0 :: u8)) \<longleftrightarrow> unat (b AND 0x80) = 0" by (simp add: unat_eq_0)
  then show ?thesis unfolding u8_and_80 by (simp add: div_eq_0_iff)
qed
lemma u8_or_80: "unat x < 128 \<Longrightarrow> unat (x OR 0x80 :: u8) = unat x + 128"
  using unat_or_shift [of x 7 1] by (simp add: or.commute)
text \<open>Accumulating bytes into a 64-bit value, \<open>result <<= 8; result |= data[i]\<close>.\<close>

lemma unat_foldl_shift_or_word:
  "8 * length bs \<le> LENGTH('a) \<Longrightarrow>
    unat (foldl (\<lambda>(r :: 'a::len word) b. push_bit 8 r OR ucast b) 0 bs) = be_val bs"
proof (induction bs rule: rev_induct)
  case (snoc b bs)
  let ?r = "foldl (\<lambda>(r :: 'a word) b. push_bit 8 r OR ucast b) 0 bs"
  have r: "unat ?r = be_val bs" using snoc by simp
  have "be_val bs * 2 ^ 8 < 256 ^ length bs * 2 ^ 8" using be_val_bound by simp
  also have "\<dots> = 2 ^ (8 * length (bs @ [b]))" by (simp add: power_mult power_add)
  also have "\<dots> \<le> (2 :: nat) ^ LENGTH('a)" using snoc.prems by (intro power_increasing) auto
  finally have lt: "unat ?r * 2 ^ 8 < 2 ^ LENGTH('a)" using r by simp
  have "8 \<le> LENGTH('a)" using snoc.prems by simp
  then have "unat (push_bit 8 ?r OR ucast b) = unat ?r * 2 ^ 8 + unat (ucast b :: 'a word)"
    using lt by (intro unat_or_shift) simp_all
  then show ?case using r \<open>8 \<le> LENGTH('a)\<close> by simp
qed simp

lemma unat_foldl_shift_or:
  "length bs \<le> 8 \<Longrightarrow> unat (foldl (\<lambda>(r :: u64) b. push_bit 8 r OR ucast b) 0 bs) = be_val bs"
  by (rule unat_foldl_shift_or_word) simp

text \<open>The bytes of a word are slices of it; two bytes are equal when their eight bits are.\<close>

lemma u8_of_nat_div: "(of_nat (unat x div 2 ^ k) :: u8) = ucast (drop_bit k (x :: 'a::len word))"
  by (simp flip: unat_drop_bit)

lemma be_bytes_numeral:
  "be_bytes (numeral k) v = be_bytes (pred_numeral k) (v div 256) @ [of_nat v]"
  unfolding numeral_eq_Suc [of k] by (rule be_bytes.simps)

lemma be_bytes_words:
  "be_bytes 2 (unat x) = [ucast (drop_bit 8 x), ucast x]"
  "be_bytes 4 (unat x) = [ucast (drop_bit 24 x), ucast (drop_bit 16 x), ucast (drop_bit 8 x), ucast x]"
  "be_bytes 8 (unat x) = [ucast (drop_bit 56 x), ucast (drop_bit 48 x), ucast (drop_bit 40 x),
     ucast (drop_bit 32 x), ucast (drop_bit 24 x), ucast (drop_bit 16 x), ucast (drop_bit 8 x), ucast x]"
  using u8_of_nat_div [of x 8] u8_of_nat_div [of x 16] u8_of_nat_div [of x 24]
    u8_of_nat_div [of x 32] u8_of_nat_div [of x 40] u8_of_nat_div [of x 48] u8_of_nat_div [of x 56]
  by (simp_all add: be_bytes_numeral div_mult2_eq [symmetric])

lemma u8_bits_eqI:
  "bit a 0 = bit b 0 \<Longrightarrow> bit a 1 = bit b 1 \<Longrightarrow> bit a 2 = bit b 2 \<Longrightarrow> bit a 3 = bit b 3 \<Longrightarrow>
   bit a 4 = bit b 4 \<Longrightarrow> bit a 5 = bit b 5 \<Longrightarrow> bit a 6 = bit b 6 \<Longrightarrow> bit a 7 = bit b 7 \<Longrightarrow> a = (b :: u8)"
proof (rule bit_word_eqI)
  fix n assume "bit a 0 = bit b 0" "bit a 1 = bit b 1" "bit a 2 = bit b 2" "bit a 3 = bit b 3"
   "bit a 4 = bit b 4" "bit a 5 = bit b 5" "bit a 6 = bit b 6" "bit a 7 = bit b 7" "n < LENGTH(8)"
  then show "bit a n = bit b n" by (auto simp: less_Suc_eq numeral_eq_Suc)
qed
lemma not_bit_length: "LENGTH('a::len) \<le> n \<Longrightarrow> \<not> bit (x :: 'a word) n"
  using bit_imp_le_length leD by blast

lemma unat_eq_of_nat: "unat w = n \<Longrightarrow> w = of_nat n"
  by auto

lemma unat_of_nat_small: "n < 2 ^ LENGTH('a) \<Longrightarrow> unat (of_nat n :: 'a::len word) = n"
  by (simp only: unat_of_nat mod_less)

lemma mod_128_upper: "128 \<le> n \<Longrightarrow> n < 256 \<Longrightarrow> n = 128 + n mod (128 :: nat)"
  by (simp add: le_mod_geq)

section \<open>Byte swapping (\<open>crypto/internal.h\<close>)\<close>

definition CRYPTO_bswap2 :: "u16 \<Rightarrow> u16" where
  "CRYPTO_bswap2 x = drop_bit 8 x OR push_bit 8 x"

definition CRYPTO_bswap4 :: "u32 \<Rightarrow> u32" where
  "CRYPTO_bswap4 x =
     (let x = drop_bit 16 x OR push_bit 16 x
      in drop_bit 8 (x AND 0xff00ff00) OR push_bit 8 (x AND 0x00ff00ff))"

definition CRYPTO_bswap8 :: "u64 \<Rightarrow> u64" where
  "CRYPTO_bswap8 x =
     ucast (CRYPTO_bswap4 (ucast (drop_bit 32 x))) OR
     push_bit 32 (ucast (CRYPTO_bswap4 (ucast x)))"

text \<open>Byte swapping reverses the bytes of the value.\<close>

lemma be_bytes_bswap2: "be_bytes 2 (unat (CRYPTO_bswap2 x)) = le_bytes 2 (unat x)"
  unfolding le_bytes_def be_bytes_words CRYPTO_bswap2_def
  by (auto intro!: bit_word_eqI simp: bit_simps)

lemma be_bytes_bswap4: "be_bytes 4 (unat (CRYPTO_bswap4 x)) = le_bytes 4 (unat x)"
  unfolding le_bytes_def be_bytes_words CRYPTO_bswap4_def Let_def
  by (simp, intro conjI; rule u8_bits_eqI) (simp_all add: bit_simps not_bit_length)

lemma be_bytes_bswap8: "be_bytes 8 (unat (CRYPTO_bswap8 x)) = le_bytes 8 (unat x)"
  unfolding le_bytes_def be_bytes_words CRYPTO_bswap8_def CRYPTO_bswap4_def Let_def
  by (simp, intro conjI; rule u8_bits_eqI) (simp_all add: bit_simps not_bit_length)

lemma le_bytes_bswap8: "le_bytes 8 (unat (CRYPTO_bswap8 x)) = be_bytes 8 (unat x)"
  using be_bytes_bswap8 [of x] by (simp add: le_bytes_def)

lemma upt_16: "[0..<16] = [0, 1, 2, 3, 4, 5, 6, 7, 8, 9, 10, 11, 12, 13, 14, 15 :: nat]"
  by (simp add: upt_rec)

end
