(* ===== verification/Codec.thy ===== *)
theory Codec
  imports Prelude
begin

text \<open>
  The contract between the readers of \<open>cbs.c\<close> and \<open>unicode.c\<close> and the byte strings the
  writers of \<open>cbb.c\<close> and \<open>unicode.c\<close> produce. A reader is a codec for an encoding when it
  decodes every encoded value in front of any further bytes, and accepts nothing else: what
  it consumes is the one encoding of what it returns (the "D" of DER).
\<close>

locale codec =
  fixes rd :: "(bytes, 'a) op"
    and enc :: "'a \<Rightarrow> bytes"
    and valid :: "'a \<Rightarrow> bool"
  assumes rd_enc: "valid a \<Longrightarrow> rd (enc a @ t) = (Some a, t)"
    and rd_Some: "rd s = (Some a, s') \<Longrightarrow> valid a \<and> s = enc a @ s'"
begin

lemma rd_iff: "rd s = (Some a, s') \<longleftrightarrow> valid a \<and> s = enc a @ s'"
  using rd_enc rd_Some by blast

lemma enc_append_inject:
  "valid a \<Longrightarrow> valid b \<Longrightarrow> enc a @ s = enc b @ t \<longleftrightarrow> a = b \<and> s = t"
  by (metis rd_enc prod.inject option.inject)

lemma enc_inject: "valid a \<Longrightarrow> valid b \<Longrightarrow> enc a = enc b \<longleftrightarrow> a = b"
  using enc_append_inject [of a b "[]" "[]"] by simp

lemma enc_prefix_free: "valid a \<Longrightarrow> valid b \<Longrightarrow> enc a = enc b @ t \<Longrightarrow> t = []"
  using enc_append_inject [of a b "[]" t] by simp

lemma rd_extend: "rd s = (Some a, s') \<Longrightarrow> rd (s @ t) = (Some a, s' @ t)"
  by (auto simp: rd_iff)

lemma rd_local: "rd (p @ t) = (Some a, t) \<Longrightarrow> rd p = (Some a, [])"
  by (auto simp: rd_iff)

end

text \<open>
  Reading elements until the input is used up, as the loops
  \<open>while (CBS_len(&cbs) != 0)\<close> do; \<open>None\<close> when an element does not parse. The fuel
  is the length of the input: an element has at least one byte.
\<close>

fun read_all_fuel :: "nat \<Rightarrow> (bytes, 'a) op \<Rightarrow> bytes \<Rightarrow> 'a list option" where
  "read_all_fuel fuel rd s =
     (if s = [] then Some []
      else case fuel of
             0 \<Rightarrow> None
           | Suc fuel \<Rightarrow>
               (case rd s of
                  (None, _) \<Rightarrow> None
                | (Some a, s') \<Rightarrow> map_option ((#) a) (read_all_fuel fuel rd s')))"

declare read_all_fuel.simps [simp del]

definition read_all :: "(bytes, 'a) op \<Rightarrow> bytes \<Rightarrow> 'a list option" where
  "read_all rd s = read_all_fuel (length s) rd s"

locale element_codec = codec +
  assumes enc_nonempty: "valid a \<Longrightarrow> enc a \<noteq> []"
begin

lemma read_all_fuel_concat:
  assumes "\<forall>a \<in> set as. valid a" and "length (concat (map enc as)) \<le> fuel"
  shows "read_all_fuel fuel rd (concat (map enc as)) = Some as"
  using assms
proof (induction "as" arbitrary: fuel)
  case Nil
  then show ?case by (simp add: read_all_fuel.simps)
next
  case (Cons a "as")
  then have ne: "enc a \<noteq> []" by (simp add: enc_nonempty)
  with Cons.prems obtain k where k: "fuel = Suc k" by (cases fuel) auto
  have "length (concat (map enc as)) \<le> k"
    using Cons.prems k ne by (cases "enc a") auto
  then have "read_all_fuel k rd (concat (map enc as)) = Some as"
    using Cons by simp
  then show ?case
    using Cons.prems ne by (simp add: read_all_fuel.simps [of "Suc k"] k rd_enc)
qed

lemma read_all_concat:
  "\<forall>a \<in> set as. valid a \<Longrightarrow> read_all rd (concat (map enc as)) = Some as"
  by (simp add: read_all_def read_all_fuel_concat)

lemma read_all_fuel_Some:
  "read_all_fuel fuel rd s = Some as \<Longrightarrow> (\<forall>a \<in> set as. valid a) \<and> s = concat (map enc as)"
proof (induction fuel arbitrary: s "as")
  case 0
  then show ?case by (simp add: read_all_fuel.simps split: if_splits)
next
  case (Suc fuel)
  show ?case
  proof (cases "s = []")
    case True
    with Suc.prems show ?thesis by (simp add: read_all_fuel.simps)
  next
    case False
    then obtain a s' bs where rd: "rd s = (Some a, s')" and "as = a # bs"
      and "read_all_fuel fuel rd s' = Some bs"
      using Suc.prems by (auto simp: read_all_fuel.simps [of "Suc fuel"]
          split: prod.splits option.splits)
    then show ?thesis using Suc.IH [of s' bs] rd_Some [OF rd] by simp
  qed
qed

lemma read_all_iff:
  "read_all rd s = Some as \<longleftrightarrow> (\<forall>a \<in> set as. valid a) \<and> s = concat (map enc as)"
proof
  assume "read_all rd s = Some as"
  then show "(\<forall>a \<in> set as. valid a) \<and> s = concat (map enc as)"
    unfolding read_all_def by (rule read_all_fuel_Some)
next
  assume "(\<forall>a \<in> set as. valid a) \<and> s = concat (map enc as)"
  then show "read_all rd s = Some as" by (blast intro: read_all_concat)
qed

lemma concat_enc_inject:
  assumes "\<forall>a \<in> set as. valid a" and "\<forall>a \<in> set bs. valid a"
    and "concat (map enc as) = concat (map enc bs)"
  shows "as = bs"
  by (metis read_all_concat assms option.inject)

end

end
