(* ===== verification/Mem.thy ===== *)
theory Mem
  imports Prelude
begin

text \<open>
  \<open>crypto/mem.c\<close>: the allocator front end and the byte and string helpers the other
  components call. libc's \<open>malloc\<close> is a parameter of the model: \<open>can_alloc\<close> says which
  requests it serves and \<open>junk\<close> what the bytes of a fresh block are, so a theorem that
  holds for every \<open>heap_env\<close> holds whatever uninitialised memory contains and whichever
  allocation fails.
\<close>

section \<open>Allocation\<close>

record heap_env =
  can_alloc :: "nat \<Rightarrow> bool"
  junk :: "nat \<Rightarrow> u8"

abbreviation (input) OPENSSL_MALLOC_PREFIX :: nat where
  "OPENSSL_MALLOC_PREFIX \<equiv> 8"

text \<open>
  \<open>malloc_block\<close> is the block \<open>malloc\<close> returned once \<open>OPENSSL_malloc\<close> has stored the
  requested size in its first eight bytes; the size asked of \<open>malloc\<close> is a \<open>size_t\<close> sum.
  When that sum wraps, the block has fewer than eight bytes and the store runs past its end:
  the array then comes out longer than what was asked for. The caller gets what lies behind
  the header. \<open>junk\<close> counts the uninitialised bytes from there.
\<close>

definition malloc_block :: "heap_env \<Rightarrow> nat \<Rightarrow> bytes option" where
  "malloc_block env sz =
     (let n = (sz + OPENSSL_MALLOC_PREFIX) mod 2 ^ 64
      in if can_alloc env n
         then Some (mem_write (map (\<lambda>i. junk env (i - OPENSSL_MALLOC_PREFIX)) [0 ..< n]) 0 (le_bytes 8 sz))
         else None)"

definition OPENSSL_malloc :: "heap_env \<Rightarrow> nat \<Rightarrow> bytes option" where
  "OPENSSL_malloc env sz = map_option (drop OPENSSL_MALLOC_PREFIX) (malloc_block env sz)"

lemma OPENSSL_malloc_eq:
  "OPENSSL_malloc env sz =
     (let n = (sz + 8) mod 2 ^ 64
      in if can_alloc env n then Some (map (junk env) [0 ..< n - 8]) else None)"
proof -
  have junk: "drop 8 (map (\<lambda>i. junk env (i - 8)) [0 ..< n]) = map (junk env) [0 ..< n - 8]" for n
    by (rule nth_equalityI) (simp_all add: less_diff_conv add.commute)
  have "drop 8 (mem_write xs 0 (le_bytes 8 sz)) = drop 8 xs" for xs :: bytes
    by (simp add: mem_write_def)
  then show ?thesis by (simp add: OPENSSL_malloc_def malloc_block_def Let_def junk)
qed

definition OPENSSL_realloc :: "heap_env \<Rightarrow> bytes option \<Rightarrow> nat \<Rightarrow> bytes option" where
  "OPENSSL_realloc env orig new_size =
     (case orig of
        None \<Rightarrow> OPENSSL_malloc env new_size
      | Some old \<Rightarrow>
          (case OPENSSL_malloc env new_size of
             None \<Rightarrow> None
           | Some ret \<Rightarrow>
               (let to_copy = (if length old < new_size then length old else new_size)
                in Some (mem_write ret 0 (take to_copy old)))))"

definition OPENSSL_cleanse :: "bytes \<Rightarrow> nat \<Rightarrow> bytes" where
  "OPENSSL_cleanse ptr len = mem_write ptr 0 (replicate len 0)"

definition OPENSSL_memdup :: "heap_env \<Rightarrow> bytes \<Rightarrow> bytes option" where
  "OPENSSL_memdup env data =
     (if length data = 0 then None
      else case OPENSSL_malloc env (length data) of
             None \<Rightarrow> None
           | Some ret \<Rightarrow> Some (mem_write ret 0 data))"

text \<open>
  A real allocator serves no request of $2^{62}$ bytes or more; then a capacity never gets
  near the wrap of \<open>size_t\<close>.
\<close>

definition heap_bounded :: "heap_env \<Rightarrow> bool" where
  "heap_bounded env \<longleftrightarrow> (\<forall>n. can_alloc env n \<longrightarrow> n < 2 ^ 62)"

lemma OPENSSL_malloc_bounded:
  assumes "heap_bounded env" "n < 2 ^ 63"
  shows "OPENSSL_malloc env n = Some blk \<Longrightarrow> n < 2 ^ 62"
  using assms by (auto simp: OPENSSL_malloc_eq heap_bounded_def Let_def split: if_splits)

section \<open>Sorting\<close>

text \<open>
  libc's \<open>qsort\<close> with a comparison function; an insertion sort stands for it where elements
  that compare equal are equal, so that every sorting routine has this result.
\<close>

fun insert_by :: "('a \<Rightarrow> 'a \<Rightarrow> int) \<Rightarrow> 'a \<Rightarrow> 'a list \<Rightarrow> 'a list" where
  "insert_by cmp x [] = [x]"
| "insert_by cmp x (y # ys) = (if cmp x y \<le> 0 then x # y # ys else y # insert_by cmp x ys)"

definition qsort :: "('a \<Rightarrow> 'a \<Rightarrow> int) \<Rightarrow> 'a list \<Rightarrow> 'a list" where
  "qsort cmp xs = foldr (insert_by cmp) xs []"

section \<open>Comparison and hashing\<close>

definition CRYPTO_memcmp :: "bytes \<Rightarrow> bytes \<Rightarrow> nat \<Rightarrow> u8" where
  "CRYPTO_memcmp a b len = fold (\<lambda>i x. x OR (a ! i XOR b ! i)) [0 ..< len] 0"

definition OPENSSL_hash32 :: "bytes \<Rightarrow> u32" where
  "OPENSSL_hash32 inp = fold (\<lambda>b h. (h XOR ucast b) * 16777619) inp 2166136261"

section \<open>Strings\<close>

text \<open>
  A C string is the array of bytes its pointer reaches; the string itself ends before the
  first zero byte. \<open>strlen\<close> on an array without one reads past its end, which here is
  \<open>None\<close>.
\<close>

definition c_string :: "bytes \<Rightarrow> bytes" where
  "c_string s = takeWhile (\<lambda>b. b \<noteq> 0) s"

definition c_strlen :: "bytes \<Rightarrow> nat option" where
  "c_strlen s = (if 0 \<in> set s then Some (length (c_string s)) else None)"

function OPENSSL_strnlen_from :: "nat \<Rightarrow> bytes \<Rightarrow> nat \<Rightarrow> nat" where
  "OPENSSL_strnlen_from i s len =
     (if i < len then (if s ! i = 0 then i else OPENSSL_strnlen_from (Suc i) s len) else len)"
  by pat_completeness auto
termination
  by (relation "measure (\<lambda>(i, s, len). len - i)") auto

declare OPENSSL_strnlen_from.simps [simp del]

definition OPENSSL_strnlen :: "bytes \<Rightarrow> nat \<Rightarrow> nat" where
  "OPENSSL_strnlen s len = OPENSSL_strnlen_from 0 s len"

definition OPENSSL_strdup :: "heap_env \<Rightarrow> bytes option \<Rightarrow> bytes option" where
  "OPENSSL_strdup env s =
     (case s of
        None \<Rightarrow> None
      | Some str \<Rightarrow>
          (case c_strlen str of
             None \<Rightarrow> None
           | Some n \<Rightarrow>
               (case OPENSSL_malloc env (n + 1) of
                  None \<Rightarrow> None
                | Some ret \<Rightarrow> Some (mem_write ret 0 (take (n + 1) str)))))"

definition OPENSSL_strndup :: "heap_env \<Rightarrow> bytes option \<Rightarrow> nat \<Rightarrow> bytes option" where
  "OPENSSL_strndup env s max_size =
     (case s of
        None \<Rightarrow> None
      | Some str \<Rightarrow>
          (let sz = OPENSSL_strnlen str max_size;
               alloc_size = (sz + 1) mod 2 ^ 64
           in if alloc_size < sz then None
              else case OPENSSL_malloc env alloc_size of
                     None \<Rightarrow> None
                   | Some ret \<Rightarrow>
                       Some (mem_write (mem_write ret 0 (take sz str)) sz [0])))"

definition OPENSSL_tolower :: "int \<Rightarrow> int" where
  "OPENSSL_tolower c = (if 65 \<le> c \<and> c \<le> 90 then c + (97 - 65) else c)"

text \<open>\<open>char\<close> is signed on this platform, so a byte above 0x7f compares as negative.\<close>

fun OPENSSL_strcasecmp :: "bytes \<Rightarrow> bytes \<Rightarrow> int option" where
  "OPENSSL_strcasecmp (x # a) (y # b) =
     (let aa = OPENSSL_tolower (sint x); bb = OPENSSL_tolower (sint y)
      in if aa < bb then Some (-1)
         else if aa > bb then Some 1
         else if aa = 0 then Some 0
         else OPENSSL_strcasecmp a b)"
| "OPENSSL_strcasecmp _ _ = None"

fun OPENSSL_strncasecmp :: "bytes \<Rightarrow> bytes \<Rightarrow> nat \<Rightarrow> int option" where
  "OPENSSL_strncasecmp a b 0 = Some 0"
| "OPENSSL_strncasecmp (x # a) (y # b) (Suc n) =
     (let aa = OPENSSL_tolower (sint x); bb = OPENSSL_tolower (sint y)
      in if aa < bb then Some (-1)
         else if aa > bb then Some 1
         else if aa = 0 then Some 0
         else OPENSSL_strncasecmp a b n)"
| "OPENSSL_strncasecmp _ _ (Suc n) = None"

text \<open>
  \<open>strlcpy_loop\<close> is the copying loop: the destination array, the position written next,
  the remaining \<open>dst_size\<close>, the remaining source and \<open>l\<close>; its result is the state in
  which the loop ends.
\<close>

fun strlcpy_loop :: "bytes \<Rightarrow> nat \<Rightarrow> nat \<Rightarrow> bytes \<Rightarrow> nat \<Rightarrow> bytes \<times> nat \<times> nat \<times> bytes \<times> nat" where
  "strlcpy_loop dst pos dst_size [] l = (dst, pos, dst_size, [], l)"
| "strlcpy_loop dst pos dst_size (c # src) l =
     (if dst_size > 1 \<and> c \<noteq> 0
      then strlcpy_loop (mem_write dst pos [c]) (pos + 1) (dst_size - 1) src (l + 1)
      else (dst, pos, dst_size, c # src, l))"

definition strlcpy_at :: "bytes \<Rightarrow> nat \<Rightarrow> bytes \<Rightarrow> nat \<Rightarrow> nat option \<times> bytes" where
  "strlcpy_at dst pos src dst_size =
     (case strlcpy_loop dst pos dst_size src 0 of
        (dst', pos', n, rest, l) \<Rightarrow>
          (map_option (\<lambda>k. l + k) (c_strlen rest),
           if n \<noteq> 0 then mem_write dst' pos' [0] else dst'))"

definition OPENSSL_strlcpy :: "bytes \<Rightarrow> bytes \<Rightarrow> nat \<Rightarrow> nat option \<times> bytes" where
  "OPENSSL_strlcpy dst src dst_size = strlcpy_at dst 0 src dst_size"

fun strlcat_skip :: "bytes \<Rightarrow> nat \<Rightarrow> nat \<Rightarrow> nat \<times> nat" where
  "strlcat_skip dst pos 0 = (pos, 0)"
| "strlcat_skip dst pos (Suc n) =
     (if dst ! pos \<noteq> 0 then strlcat_skip dst (Suc pos) n else (pos, Suc n))"

definition OPENSSL_strlcat :: "bytes \<Rightarrow> bytes \<Rightarrow> nat \<Rightarrow> nat option \<times> bytes" where
  "OPENSSL_strlcat dst src dst_size =
     (case strlcat_skip dst 0 dst_size of
        (l, n) \<Rightarrow>
          (case strlcpy_at dst l src n of
             (r, dst') \<Rightarrow> (map_option (\<lambda>k. l + k) r, dst')))"

section \<open>Allocation facts\<close>

lemma OPENSSL_malloc_Some:
  assumes "OPENSSL_malloc env n = Some blk" and "n + 8 < 2 ^ 64"
  shows "length blk = n"
  using assms by (auto simp: OPENSSL_malloc_eq Let_def split: if_splits)

lemma OPENSSL_realloc_Some:
  assumes "OPENSSL_realloc env (Some old) n = Some blk" and "n + 8 < 2 ^ 64"
    and "length old \<le> n"
  shows "length blk = n \<and> take (length old) blk = old"
  using assms OPENSSL_malloc_Some [of env n]
  by (auto simp: OPENSSL_realloc_def Let_def mem_write_def split: option.splits if_splits)

lemma OPENSSL_realloc_None_Some:
  "OPENSSL_realloc env None n = Some blk \<Longrightarrow> n + 8 < 2 ^ 64 \<Longrightarrow> length blk = n"
  by (auto simp: OPENSSL_realloc_def dest: OPENSSL_malloc_Some)

lemma OPENSSL_memdup_Some:
  assumes "OPENSSL_memdup env data = Some blk" and "length data + 8 < 2 ^ 64"
  shows "blk = data"
  using assms OPENSSL_malloc_Some [of env "length data"]
  by (auto simp: OPENSSL_memdup_def mem_write_full split: if_splits option.splits)

text \<open>
  The sum in \<open>OPENSSL_malloc\<close> is not checked: for the eight largest sizes it wraps, and
  the caller is handed a block far smaller than it asked for.
\<close>

lemma OPENSSL_malloc_no_overflow_check:
  "can_alloc env 7 \<Longrightarrow> OPENSSL_malloc env SIZE_MAX = Some []"
  by (simp add: OPENSSL_malloc_eq)

section \<open>Comparison\<close>

lemma fold_or_eq_0:
  "fold (\<lambda>i x. x OR f i) is x0 = (0 :: u8) \<longleftrightarrow> x0 = 0 \<and> (\<forall>i \<in> set is. f i = 0)"
proof (induction "is" arbitrary: x0)
  case (Cons i "is")
  have "(x0 OR f i = 0) = (x0 = 0 \<and> f i = 0)" by (fact or_eq_0_iff)
  then show ?case using Cons by auto
qed simp

lemma CRYPTO_memcmp_eq_0:
  assumes "len \<le> length a" and "len \<le> length b"
  shows "CRYPTO_memcmp a b len = 0 \<longleftrightarrow> take len a = take len b"
proof -
  have "CRYPTO_memcmp a b len = 0 \<longleftrightarrow> (\<forall>i < len. a ! i XOR b ! i = 0)"
    by (auto simp: CRYPTO_memcmp_def fold_or_eq_0)
  also have "\<dots> \<longleftrightarrow> (\<forall>i < len. a ! i = b ! i)" by (simp add: bit_eq_iff bit_simps)
  also have "\<dots> \<longleftrightarrow> take len a = take len b"
    using assms by (auto simp: list_eq_iff_nth_eq)
  finally show ?thesis .
qed

section \<open>Strings\<close>

lemma OPENSSL_strnlen_from_bounds:
  "i \<le> len \<Longrightarrow> len \<le> length s \<Longrightarrow> (\<forall>j < i. s ! j \<noteq> 0) \<Longrightarrow>
    OPENSSL_strnlen_from i s len = length (c_string (take len s))"
proof (induction i s len rule: OPENSSL_strnlen_from.induct)
  case (1 i s len)
  consider "i < len" "s ! i = 0" | "i < len" "s ! i \<noteq> 0" | "i = len"
    using "1.prems" by linarith
  then show ?case
  proof cases
    case 1
    have "takeWhile (\<lambda>b. b \<noteq> 0) (take len s) = take i (take len s)"
      using 1 "1.prems" by (intro takeWhile_eq_take_P_nth) auto
    then show ?thesis
      using 1 "1.prems" by (simp add: OPENSSL_strnlen_from.simps [of i s len] c_string_def)
  next
    case 2
    then have "\<forall>j < Suc i. s ! j \<noteq> 0" using "1.prems" by (auto simp: less_Suc_eq)
    then show ?thesis
      using 2 "1.IH" "1.prems" by (simp add: OPENSSL_strnlen_from.simps [of i s len])
  next
    case 3
    have "\<And>b. b \<in> set (take len s) \<Longrightarrow> b \<noteq> 0"
      using 3 "1.prems" by (auto simp: in_set_conv_nth)
    then have tw: "takeWhile (\<lambda>b. b \<noteq> 0) (take len s) = take len s"
      by (simp add: takeWhile_eq_all_conv)
    show ?thesis
      using 3 "1.prems"
      by (simp add: OPENSSL_strnlen_from.simps [of len s len] c_string_def tw)
  qed
qed

lemma OPENSSL_strnlen_eq:
  "len \<le> length s \<Longrightarrow> OPENSSL_strnlen s len = length (c_string (take len s))"
  by (simp add: OPENSSL_strnlen_def OPENSSL_strnlen_from_bounds)

lemma OPENSSL_strnlen_le: "len \<le> length s \<Longrightarrow> OPENSSL_strnlen s len \<le> len"
  using length_takeWhile_le [of "\<lambda>b. b \<noteq> 0" "take len s"]
  by (simp add: OPENSSL_strnlen_eq c_string_def)

lemma length_c_string_le: "length (c_string s) \<le> length s"
  by (simp add: c_string_def length_takeWhile_le)

lemma take_c_string: "take (length (c_string s)) s = c_string s"
  by (metis c_string_def takeWhile_eq_take)

lemma OPENSSL_strndup_Some:
  assumes "OPENSSL_strndup env (Some s) n = Some blk"
    and "n \<le> length s" and "length s + 9 < 2 ^ 64"
  shows "blk = c_string (take n s) @ [0]"
proof -
  let ?k = "OPENSSL_strnlen s n"
  have k: "?k = length (c_string (take n s))" using assms by (simp add: OPENSSL_strnlen_eq)
  have le: "?k \<le> n" using assms by (simp only: OPENSSL_strnlen_le)
  have "take ?k s = take ?k (take n s)" using le by simp
  also have "\<dots> = c_string (take n s)" unfolding k by (rule take_c_string)
  finally have t: "take ?k s = c_string (take n s)" .
  have m: "(?k + 1) mod 2 ^ 64 = ?k + 1" using assms le by simp
  then obtain ret where ret: "OPENSSL_malloc env (?k + 1) = Some ret"
    and blk: "blk = mem_write (mem_write ret 0 (take ?k s)) ?k [0]"
    using assms(1) by (auto simp: OPENSSL_strndup_def Let_def m split: option.splits if_splits)
  have "length ret = ?k + 1" using OPENSSL_malloc_Some [OF ret] assms le by simp
  then show ?thesis using le assms(2) unfolding blk by (simp add: mem_write_def t [unfolded k] k)
qed

text \<open>The copying loop stops at the terminator or when one byte of room is left.\<close>

lemma strlcpy_loop_result:
  assumes "0 \<in> set src" and "pos + n \<le> length dst"
    and "strlcpy_loop dst pos n src l = (dst', pos', n', rest, l')"
  shows "let k = min (length (c_string src)) (n - 1) in
    dst' = mem_write dst pos (take k src) \<and> pos' = pos + k \<and> n' = n - k \<and>
    rest = drop k src \<and> l' = l + k"
  using assms
proof (induction dst pos n src l rule: strlcpy_loop.induct)
  case (2 dst pos n c src l)
  show ?case
  proof (cases "n > 1 \<and> c \<noteq> 0")
    case True
    let ?k = "min (length (c_string src)) (n - 1 - 1)"
    have kl: "?k \<le> length src"
      using length_c_string_le [of src] by linarith
    have kk: "min (length (c_string (c # src))) (n - 1) = Suc ?k"
      using True by (auto simp: c_string_def)
    have IH: "dst' = mem_write (mem_write dst pos [c]) (pos + 1) (take ?k src)"
      "pos' = pos + 1 + ?k" "n' = n - 1 - ?k" "rest = drop ?k src" "l' = l + 1 + ?k"
      using 2 True by (auto simp: Let_def)
    have "mem_write (mem_write dst pos [c]) (pos + 1) (take ?k src) =
        mem_write dst pos (c # take ?k src)"
      using "2.prems"(2) True kl by (simp add: mem_write_def drop_append add.commute)
    then show ?thesis unfolding kk using IH by (simp add: Let_def)
  next
    case False
    then have "min (length (c_string (c # src))) (n - 1) = 0"
      by (auto simp: c_string_def)
    then show ?thesis using 2 False by (auto simp: Let_def split: if_splits)
  qed
qed simp

lemma c_strlen_drop:
  assumes "0 \<in> set s" and "k \<le> length (c_string s)"
  shows "c_strlen (drop k s) = Some (length (c_string s) - k)"
  using assms
proof (induction s arbitrary: k)
  case (Cons a s)
  show ?case
  proof (cases k)
    case 0
    then show ?thesis using Cons.prems by (simp add: c_strlen_def)
  next
    case (Suc j)
    then have "a \<noteq> 0" "j \<le> length (c_string s)" "0 \<in> set s"
      using Cons.prems by (auto simp: c_string_def split: if_splits)
    then show ?thesis using Cons.IH [of j] Suc by (simp add: c_string_def)
  qed
qed simp

lemma strlcpy_at_result:
  assumes "0 \<in> set src" and "pos + n \<le> length dst" and "0 < n"
  shows "strlcpy_at dst pos src n =
    (Some (length (c_string src)), mem_write dst pos (take (n - 1) (c_string src) @ [0]))"
proof -
  obtain dst' pos' n' rest l' where
    loop: "strlcpy_loop dst pos n src 0 = (dst', pos', n', rest, l')" by (cases "strlcpy_loop dst pos n src 0") auto
  let ?k = "min (length (c_string src)) (n - 1)"
  have tk: "take ?k src = take (n - 1) (c_string src)"
    by (metis take_c_string take_take min.commute)
  have r: "dst' = mem_write dst pos (take ?k src)" "pos' = pos + ?k" "n' = n - ?k"
    "rest = drop ?k src" "l' = ?k"
    using strlcpy_loop_result [OF assms(1,2) loop] by (auto simp: Let_def)
  have len: "length (take ?k src) = ?k"
    using length_c_string_le [of src] by simp
  have "mem_write (mem_write dst pos (take ?k src)) (pos + ?k) [0] =
      mem_write dst pos (take ?k src @ [0])"
    using assms(2,3) len by (simp add: mem_write_def drop_append)
  moreover have "0 < n - ?k" using assms(3) by simp
  ultimately show ?thesis
    using c_strlen_drop [OF assms(1), of ?k] unfolding tk [symmetric]
    by (simp add: strlcpy_at_def loop r)
qed

section \<open>Properties\<close>

text \<open>\<open>OPENSSL_strlcpy\<close> with a destination of \<open>n > 0\<close> bytes writes only inside it: the
  longest prefix of the string that fits with its terminator, the terminator, and nothing
  behind it; the result is the length of the whole source string, so truncation shows.\<close>

theorem OPENSSL_strlcpy_bounded:
  assumes "0 \<in> set src" and "0 < n" and "n \<le> length dst"
  shows "OPENSSL_strlcpy dst src n =
    (Some (length (c_string src)), mem_write dst 0 (take (n - 1) (c_string src) @ [0]))"
  using strlcpy_at_result [of src 0 n dst] assms by (simp add: OPENSSL_strlcpy_def)

theorem OPENSSL_strlcpy_bounded_witness:
  "OPENSSL_strlcpy [9, 9, 9, 9] [1, 2, 3, 0, 5] 3 = (Some 3, [1, 2, 0, 9])"
  using OPENSSL_strlcpy_bounded [of "[1, 2, 3, 0, 5]" 3 "[9, 9, 9, 9]"]
  by (simp add: c_string_def mem_write_def)

text \<open>\<open>CRYPTO_memcmp\<close> returns zero exactly when the two arrays agree on the given length;
  its loop visits every index whatever the bytes are.\<close>

theorem CRYPTO_memcmp_exact:
  assumes "len \<le> length a" and "len \<le> length b"
  shows "CRYPTO_memcmp a b len = 0 \<longleftrightarrow> take len a = take len b"
  by (rule CRYPTO_memcmp_eq_0 [OF assms])

theorem CRYPTO_memcmp_exact_witness:
  "CRYPTO_memcmp [1, 2, 3] [1, 2, 4] 2 = 0 \<longleftrightarrow> take 2 [1 :: u8, 2, 3] = take 2 [1, 2, 4]"
  by (rule CRYPTO_memcmp_exact) simp_all

end
