(* ===== verification/Cbs.thy ===== *)
theory Cbs
  imports Mem Codec "HOL-Library.Sublist"
begin

text \<open>
  \<open>crypto/bytestring/cbs.c\<close>: the reader. A \<open>CBS\<close> is a pointer and a length into memory it
  does not own; its value is the list of bytes it spans, \<open>CBS_len\<close> their number. A reading
  function takes the \<open>CBS\<close> to its optional result and the \<open>CBS\<close> afterwards, so how far
  a failing call has advanced is kept. Where a function works on a copy (\<open>CBS header = *cbs\<close>),
  a failure leaves the original where it was. The value an out parameter holds after a
  failing call is not modelled. \<open>CBS_asn1_oid_to_text\<close> is in theory \<open>Oid\<close>, after the
  writer it uses.
\<close>

section \<open>The object and its primitive\<close>

type_synonym cbs = bytes
type_synonym 'a reader = "(cbs, 'a) op"

definition CBS_init :: "bytes \<Rightarrow> nat \<Rightarrow> cbs" where
  "CBS_init data len = take len data"

definition CBS_data :: "cbs \<Rightarrow> bytes" where
  "CBS_data cbs = cbs"

definition CBS_len :: "cbs \<Rightarrow> nat" where
  "CBS_len cbs = length cbs"

definition cbs_get :: "nat \<Rightarrow> bytes reader" where
  "cbs_get n = (\<lambda>cbs. if length cbs < n then (None, cbs) else (Some (take n cbs), drop n cbs))"

definition CBS_skip :: "nat \<Rightarrow> unit reader" where
  "CBS_skip len = and_then (cbs_get len) (\<lambda>_. ok ())"

definition CBS_stow :: "heap_env \<Rightarrow> cbs \<Rightarrow> bytes option option" where
  "CBS_stow env cbs =
     (if length cbs = 0 then Some None
      else case OPENSSL_memdup env cbs of None \<Rightarrow> None | Some p \<Rightarrow> Some (Some p))"

definition CBS_strdup :: "heap_env \<Rightarrow> cbs \<Rightarrow> bytes option" where
  "CBS_strdup env cbs = OPENSSL_strndup env (Some cbs) (length cbs)"

definition CBS_contains_zero_byte :: "cbs \<Rightarrow> bool" where
  "CBS_contains_zero_byte cbs = List.member cbs 0"

definition CBS_mem_equal :: "cbs \<Rightarrow> bytes \<Rightarrow> nat \<Rightarrow> bool" where
  "CBS_mem_equal cbs data len =
     (if len \<noteq> length cbs then False else CRYPTO_memcmp cbs data len = 0)"

section \<open>Fixed-width integers\<close>

definition cbs_get_u :: "nat \<Rightarrow> u64 reader" where
  "cbs_get_u len =
     and_then (cbs_get len)
       (\<lambda>data. ok (foldl (\<lambda>result b. push_bit 8 result OR ucast b) 0 data))"

definition CBS_get_u8 :: "u8 reader" where
  "CBS_get_u8 = and_then (cbs_get 1) (\<lambda>v. ok (hd v))"

definition CBS_get_u16 :: "u16 reader" where
  "CBS_get_u16 = and_then (cbs_get_u 2) (\<lambda>v. ok (ucast v))"

definition CBS_get_u16le :: "u16 reader" where
  "CBS_get_u16le = and_then CBS_get_u16 (\<lambda>v. ok (CRYPTO_bswap2 v))"

definition CBS_get_u24 :: "u32 reader" where
  "CBS_get_u24 = and_then (cbs_get_u 3) (\<lambda>v. ok (ucast v))"

definition CBS_get_u32 :: "u32 reader" where
  "CBS_get_u32 = and_then (cbs_get_u 4) (\<lambda>v. ok (ucast v))"

definition CBS_get_u32le :: "u32 reader" where
  "CBS_get_u32le = and_then CBS_get_u32 (\<lambda>v. ok (CRYPTO_bswap4 v))"

definition CBS_get_u64 :: "u64 reader" where
  "CBS_get_u64 = cbs_get_u 8"

definition CBS_get_u64le :: "u64 reader" where
  "CBS_get_u64le = and_then (cbs_get_u 8) (\<lambda>v. ok (CRYPTO_bswap8 v))"

definition CBS_get_last_u8 :: "u8 reader" where
  "CBS_get_last_u8 =
     (\<lambda>cbs. if length cbs = 0 then (None, cbs)
            else (Some (cbs ! (length cbs - 1)), take (length cbs - 1) cbs))"

definition CBS_get_bytes :: "nat \<Rightarrow> cbs reader" where
  "CBS_get_bytes len = and_then (cbs_get len) (\<lambda>v. ok (CBS_init v len))"

definition CBS_copy_bytes :: "bytes \<Rightarrow> nat \<Rightarrow> bytes reader" where
  "CBS_copy_bytes out len = and_then (cbs_get len) (\<lambda>v. ok (mem_write out 0 v))"

definition cbs_get_length_prefixed :: "nat \<Rightarrow> cbs reader" where
  "cbs_get_length_prefixed len_len =
     and_then (cbs_get_u len_len) (\<lambda>len. CBS_get_bytes (unat len))"

definition CBS_get_u8_length_prefixed :: "cbs reader" where
  "CBS_get_u8_length_prefixed = cbs_get_length_prefixed 1"

definition CBS_get_u16_length_prefixed :: "cbs reader" where
  "CBS_get_u16_length_prefixed = cbs_get_length_prefixed 2"

definition CBS_get_u24_length_prefixed :: "cbs reader" where
  "CBS_get_u24_length_prefixed = cbs_get_length_prefixed 3"

section \<open>Tags and elements\<close>

abbreviation (input) CBS_ASN1_TAG_SHIFT :: nat where "CBS_ASN1_TAG_SHIFT \<equiv> 24"
abbreviation (input) CBS_ASN1_CONSTRUCTED :: u32 where "CBS_ASN1_CONSTRUCTED \<equiv> 0x20000000"
abbreviation (input) CBS_ASN1_TAG_NUMBER_MASK :: u32 where "CBS_ASN1_TAG_NUMBER_MASK \<equiv> 0x1fffffff"
abbreviation (input) CBS_ASN1_BOOLEAN :: u32 where "CBS_ASN1_BOOLEAN \<equiv> 0x1"
abbreviation (input) CBS_ASN1_INTEGER :: u32 where "CBS_ASN1_INTEGER \<equiv> 0x2"
abbreviation (input) CBS_ASN1_OCTETSTRING :: u32 where "CBS_ASN1_OCTETSTRING \<equiv> 0x4"

fun parse_base128_loop :: "u64 \<Rightarrow> u64 reader" where
  "parse_base128_loop v [] = (None, [])"
| "parse_base128_loop v (b # cbs) =
     (if drop_bit (64 - 7) v \<noteq> 0 then (None, cbs)
      else if v = 0 \<and> b = 0x80 then (None, cbs)
      else let v = push_bit 7 v OR ucast (b AND 0x7f)
           in if b AND 0x80 \<noteq> 0 then parse_base128_loop v cbs else (Some v, cbs))"

definition parse_base128_integer :: "u64 reader" where
  "parse_base128_integer = parse_base128_loop 0"

definition parse_asn1_tag :: "u32 reader" where
  "parse_asn1_tag =
     and_then CBS_get_u8 (\<lambda>tag_byte.
       let tag = push_bit CBS_ASN1_TAG_SHIFT (ucast tag_byte AND 0xe0);
           tag_number = ucast (tag_byte AND 0x1f)
       in if tag_number = 0x1f then
            and_then parse_base128_integer (\<lambda>v.
              if v > ucast CBS_ASN1_TAG_NUMBER_MASK \<or> v < 0x1f then fail
              else ok (tag OR ucast v))
          else ok (tag OR tag_number))"

text \<open>The result is the element (header included), its tag and the length of its header.\<close>

definition cbs_get_any_asn1_element :: "bool \<Rightarrow> (cbs \<times> u32 \<times> nat) reader" where
  "cbs_get_any_asn1_element ber_ok cbs =
     (case parse_asn1_tag cbs of
        (None, _) \<Rightarrow> (None, cbs)
      | (Some tag, header) \<Rightarrow>
          (case CBS_get_u8 header of
             (None, _) \<Rightarrow> (None, cbs)
           | (Some length_byte, header) \<Rightarrow>
               (let header_len = CBS_len cbs - CBS_len header
                in if length_byte AND 0x80 = 0 then
                     and_then (CBS_get_bytes (unat length_byte + header_len))
                       (\<lambda>out. ok (out, tag, header_len)) cbs
                   else
                     (let num_bytes = unat (length_byte AND 0x7f)
                      in if ber_ok \<and> tag AND CBS_ASN1_CONSTRUCTED \<noteq> 0 \<and> num_bytes = 0 then
                           and_then (CBS_get_bytes header_len)
                             (\<lambda>out. ok (out, tag, header_len)) cbs
                         else if num_bytes = 0 \<or> num_bytes > 4 then (None, cbs)
                         else
                           (case cbs_get_u num_bytes header of
                              (None, _) \<Rightarrow> (None, cbs)
                            | (Some len64, _) \<Rightarrow>
                                if len64 < 128 then (None, cbs)
                                else if drop_bit ((num_bytes - 1) * 8) len64 = 0 then (None, cbs)
                                else
                                  (let len = unat len64;
                                       total = (len + header_len + num_bytes) mod 2 ^ 64
                                   in if total < len then (None, cbs)
                                      else and_then (CBS_get_bytes total)
                                             (\<lambda>out. ok (out, tag, header_len + num_bytes))
                                             cbs))))))"

definition CBS_get_any_asn1_element :: "(cbs \<times> u32 \<times> nat) reader" where
  "CBS_get_any_asn1_element = cbs_get_any_asn1_element False"

definition CBS_get_any_ber_asn1_element :: "(cbs \<times> u32 \<times> nat) reader" where
  "CBS_get_any_ber_asn1_element = cbs_get_any_asn1_element True"

definition CBS_get_any_asn1 :: "(cbs \<times> u32) reader" where
  "CBS_get_any_asn1 =
     and_then CBS_get_any_asn1_element (\<lambda>(out, tag, header_len).
       case CBS_skip header_len out of
         (None, _) \<Rightarrow> fail
       | (Some _, out) \<Rightarrow> ok (out, tag))"

definition cbs_get_asn1 :: "u32 \<Rightarrow> bool \<Rightarrow> cbs reader" where
  "cbs_get_asn1 tag_value skip_header =
     and_then CBS_get_any_asn1_element (\<lambda>(out, tag, header_len).
       if tag \<noteq> tag_value then fail
       else if skip_header then
         (case CBS_skip header_len out of (None, _) \<Rightarrow> fail | (Some _, out) \<Rightarrow> ok out)
       else ok out)"

definition CBS_get_asn1 :: "u32 \<Rightarrow> cbs reader" where
  "CBS_get_asn1 tag_value = cbs_get_asn1 tag_value True"

definition CBS_get_asn1_element :: "u32 \<Rightarrow> cbs reader" where
  "CBS_get_asn1_element tag_value = cbs_get_asn1 tag_value False"

definition CBS_peek_asn1_tag :: "cbs \<Rightarrow> u32 \<Rightarrow> bool" where
  "CBS_peek_asn1_tag cbs tag_value =
     (if CBS_len cbs < 1 then False
      else case fst (parse_asn1_tag cbs) of
             None \<Rightarrow> False
           | Some actual_tag \<Rightarrow> tag_value = actual_tag)"

section \<open>Typed elements\<close>

fun asn1_uint64_loop :: "u64 \<Rightarrow> bytes \<Rightarrow> u64 option" where
  "asn1_uint64_loop out [] = Some out"
| "asn1_uint64_loop out (b # data) =
     (if drop_bit 56 out \<noteq> 0 then None
      else asn1_uint64_loop (push_bit 8 out OR ucast b) data)"

definition CBS_get_asn1_uint64 :: "u64 reader" where
  "CBS_get_asn1_uint64 =
     and_then (CBS_get_asn1 CBS_ASN1_INTEGER) (\<lambda>data.
       let len = length data
       in if len = 0 then fail
          else if data ! 0 AND 0x80 \<noteq> 0 then fail
          else if data ! 0 = 0 \<and> len > 1 \<and> data ! 1 AND 0x80 = 0 then fail
          else case asn1_uint64_loop 0 data of None \<Rightarrow> fail | Some v \<Rightarrow> ok v)"

definition CBS_get_asn1_int64 :: "u64 reader" where
  "CBS_get_asn1_int64 =
     and_then (CBS_get_asn1 CBS_ASN1_INTEGER) (\<lambda>data.
       let len = length data
       in if len = 0 \<or> len > 8 then fail
          else if len > 1 \<and> data ! 0 = 0 \<and> data ! 1 AND 0x80 = 0 then fail
          else if len > 1 \<and> data ! 0 = 0xff \<and> data ! 1 AND 0x80 \<noteq> 0 then fail
          else
            let is_negative = data ! 0 AND 0x80 \<noteq> 0;
                u = replicate 8 (if is_negative then 0xff else 0);
                u = fold (\<lambda>i u. u[i := data ! (len - i - 1)]) [0 ..< len] u
            in ok (of_nat (le_val u)))"

definition CBS_get_asn1_bool :: "bool reader" where
  "CBS_get_asn1_bool =
     and_then (CBS_get_asn1 CBS_ASN1_BOOLEAN) (\<lambda>data.
       if CBS_len data \<noteq> 1 then fail
       else let v = hd data
            in if v \<noteq> 0 \<and> v \<noteq> 0xff then fail else ok (v \<noteq> 0))"

definition CBS_get_optional_asn1 :: "u32 \<Rightarrow> cbs option reader" where
  "CBS_get_optional_asn1 tag =
     (\<lambda>cbs. if CBS_peek_asn1_tag cbs tag
            then and_then (CBS_get_asn1 tag) (\<lambda>out. ok (Some out)) cbs
            else ok None cbs)"

definition CBS_get_optional_asn1_octet_string :: "u32 \<Rightarrow> (cbs \<times> bool) reader" where
  "CBS_get_optional_asn1_octet_string tag =
     and_then (CBS_get_optional_asn1 tag) (\<lambda>child.
       case child of
         Some child \<Rightarrow>
           (case CBS_get_asn1 CBS_ASN1_OCTETSTRING child of
              (None, _) \<Rightarrow> fail
            | (Some out, child) \<Rightarrow> if CBS_len child \<noteq> 0 then fail else ok (out, True))
       | None \<Rightarrow> ok ([], False))"

definition CBS_get_optional_asn1_uint64 :: "u32 \<Rightarrow> u64 \<Rightarrow> u64 reader" where
  "CBS_get_optional_asn1_uint64 tag default_value =
     and_then (CBS_get_optional_asn1 tag) (\<lambda>child.
       case child of
         Some child \<Rightarrow>
           (case CBS_get_asn1_uint64 child of
              (None, _) \<Rightarrow> fail
            | (Some out, child) \<Rightarrow> if CBS_len child \<noteq> 0 then fail else ok out)
       | None \<Rightarrow> ok default_value)"

definition CBS_get_optional_asn1_bool :: "u32 \<Rightarrow> bool \<Rightarrow> bool reader" where
  "CBS_get_optional_asn1_bool tag default_value =
     and_then (CBS_get_optional_asn1 tag) (\<lambda>child.
       case child of
         Some child \<Rightarrow>
           (case CBS_get_asn1 CBS_ASN1_BOOLEAN child of
              (None, _) \<Rightarrow> fail
            | (Some child2, child) \<Rightarrow>
                if CBS_len child2 \<noteq> 1 \<or> CBS_len child \<noteq> 0 then fail
                else let boolean = hd child2
                     in if boolean = 0 then ok False
                        else if boolean = 0xff then ok True
                        else fail)
       | None \<Rightarrow> ok default_value)"

definition CBS_is_valid_asn1_bitstring :: "cbs \<Rightarrow> bool" where
  "CBS_is_valid_asn1_bitstring cbs =
     (case CBS_get_u8 cbs of
        (None, _) \<Rightarrow> False
      | (Some num_unused_bits, inp) \<Rightarrow>
          if num_unused_bits > 7 then False
          else if num_unused_bits = 0 then True
          else (case CBS_get_last_u8 inp of
                  (None, _) \<Rightarrow> False
                | (Some last_byte, _) \<Rightarrow>
                    last_byte AND (push_bit (unat num_unused_bits) 1 - 1) = 0))"

definition CBS_asn1_bitstring_has_bit :: "cbs \<Rightarrow> u32 \<Rightarrow> bool" where
  "CBS_asn1_bitstring_has_bit cbs b =
     (if \<not> CBS_is_valid_asn1_bitstring cbs then False
      else let byte_num = unat (drop_bit 3 b + 1);
               bit_num = unat (7 - (b AND 7))
           in byte_num < CBS_len cbs \<and> (cbs ! byte_num) AND push_bit bit_num 1 \<noteq> 0)"

section \<open>Reading fixed-width integers\<close>

lemma cbs_get_append [simp]: "length p = n \<Longrightarrow> cbs_get n (p @ t) = (Some p, t)"
  by (simp add: cbs_get_def)

lemma cbs_get_Some: "cbs_get n s = (Some p, s') \<longleftrightarrow> length p = n \<and> s = p @ s'"
  by (auto simp: cbs_get_def split: if_splits)

lemma cbs_get_None: "cbs_get n s = (None, s') \<longleftrightarrow> length s < n \<and> s' = s"
  by (auto simp: cbs_get_def)

lemma cbs_get_u_Some:
  assumes "n \<le> 8"
  shows "cbs_get_u n s = (Some v, s') \<longleftrightarrow> s = be_bytes n (unat v) @ s' \<and> unat v < 256 ^ n"
proof
  assume "cbs_get_u n s = (Some v, s')"
  then obtain p where p: "length p = n" "s = p @ s'"
    and v: "v = foldl (\<lambda>r b. push_bit 8 r OR ucast b) 0 p"
    by (auto simp: cbs_get_u_def and_then_eq_Some cbs_get_Some)
  have "unat v = be_val p" using v p assms by (simp add: unat_foldl_shift_or)
  then show "s = be_bytes n (unat v) @ s' \<and> unat v < 256 ^ n"
    using p be_val_bound [of p] by (simp add: be_bytes_be_val)
next
  assume r: "s = be_bytes n (unat v) @ s' \<and> unat v < 256 ^ n"
  have "unat (foldl (\<lambda>(r :: u64) b. push_bit 8 r OR ucast b) 0 (be_bytes n (unat v))) = unat v"
    using assms r by (simp add: unat_foldl_shift_or)
  then have "foldl (\<lambda>(r :: u64) b. push_bit 8 r OR ucast b) 0 (be_bytes n (unat v)) = v"
    by (simp add: word_unat_eq_iff)
  then show "cbs_get_u n s = (Some v, s')"
    using r by (simp add: cbs_get_u_def)
qed

text \<open>
  The narrower getters store the 64-bit value into their out parameter; the width of the
  out parameter is at least the number of bytes read.
\<close>

lemma codec_get_u:
  assumes "n \<le> 8" and "(256::nat) ^ n \<le> 2 ^ LENGTH('a::len)"
  shows "codec (and_then (cbs_get_u n) (\<lambda>v. ok (ucast v :: 'a word)))
    (\<lambda>v. be_bytes n (unat v)) (\<lambda>v. unat v < 256 ^ n)"
proof
  fix a :: "'a word" and t assume a: "unat a < 256 ^ n"
  have "(256::nat) ^ n \<le> 256 ^ 8" using assms(1) by (intro power_increasing) auto
  then have u: "unat (ucast a :: u64) = unat a"
    using a by (simp add: unat_ucast_mod)
  have "cbs_get_u n (be_bytes n (unat a) @ t) = (Some (ucast a), t)"
    using assms(1) a u by (simp add: cbs_get_u_Some)
  moreover have "ucast (ucast a :: u64) = a"
    using u by (simp add: word_unat_eq_iff unat_ucast_mod)
  ultimately show "and_then (cbs_get_u n) (\<lambda>v. ok (ucast v)) (be_bytes n (unat a) @ t) = (Some a, t)"
    by simp
next
  fix s s' and a :: "'a word"
  assume "and_then (cbs_get_u n) (\<lambda>v. ok (ucast v)) s = (Some a, s')"
  then obtain v where v: "cbs_get_u n s = (Some v, s')" and a: "a = ucast v"
    by (auto simp: and_then_eq_Some)
  have "unat v < 256 ^ n" using v assms(1) by (simp add: cbs_get_u_Some)
  then have "unat a = unat v"
    using a assms(2) by (simp add: unat_ucast_mod)
  then show "unat a < 256 ^ n \<and> s = be_bytes n (unat a) @ s'"
    using v assms(1) by (simp add: cbs_get_u_Some)
qed

lemma CBS_get_u8_simps [simp]:
  "CBS_get_u8 [] = (None, [])"
  "CBS_get_u8 (b # s) = (Some b, s)"
  by (simp_all add: CBS_get_u8_def cbs_get_def and_then_def)

interpretation u8: codec CBS_get_u8 "\<lambda>b. [b]" "\<lambda>_. True"
proof
  fix s s' :: bytes and a assume "CBS_get_u8 s = (Some a, s')"
  then show "True \<and> s = [a] @ s'" by (cases s) auto
qed simp

interpretation u16: codec CBS_get_u16 "\<lambda>v. be_bytes 2 (unat v)" "\<lambda>v. unat v < (256::nat) ^ 2"
  unfolding CBS_get_u16_def by (rule codec_get_u) simp_all

interpretation u24: codec CBS_get_u24 "\<lambda>v. be_bytes 3 (unat v)" "\<lambda>v. unat v < (256::nat) ^ 3"
  unfolding CBS_get_u24_def by (rule codec_get_u) simp_all

interpretation u32: codec CBS_get_u32 "\<lambda>v. be_bytes 4 (unat v)" "\<lambda>v. unat v < (256::nat) ^ 4"
  unfolding CBS_get_u32_def by (rule codec_get_u) simp_all

interpretation u64: codec CBS_get_u64 "\<lambda>v. be_bytes 8 (unat v)" "\<lambda>v. unat v < (256::nat) ^ 8"
  by unfold_locales (auto simp: CBS_get_u64_def cbs_get_u_Some)

lemma rev_swap_codec:
  fixes swap :: "'a::len word \<Rightarrow> 'a word"
  assumes rd: "codec rd (\<lambda>v. be_bytes n (unat v)) valid"
    and all: "\<And>v. valid v"
    and swap: "\<And>v. be_bytes n (unat (swap v)) = le_bytes n (unat v)"
    and n: "\<And>v :: 'a word. unat v < 256 ^ n"
  shows "codec (and_then rd (\<lambda>v. ok (swap v))) (\<lambda>v. le_bytes n (unat v)) (\<lambda>_. True)"
proof -
  have unswap: "be_bytes n (unat v) = le_bytes n (unat (swap v))" for v
    using swap [of v] by (metis le_bytes_def rev_rev_ident)
  have invol: "swap (swap v) = v" for v
  proof -
    have "be_bytes n (unat (swap (swap v))) = be_bytes n (unat v)"
      using swap [of "swap v"] unswap [of v] by simp
    then have "unat (swap (swap v)) = unat v" using be_bytes_inj [OF n n] by blast
    then show ?thesis by (simp add: word_unat_eq_iff)
  qed
  show ?thesis
  proof
    fix a t
    have "rd (be_bytes n (unat (swap a)) @ t) = (Some (swap a), t)"
      by (rule codec.rd_enc [OF rd all])
    then show "and_then rd (\<lambda>v. ok (swap v)) (le_bytes n (unat a) @ t) = (Some a, t)"
      by (simp add: swap invol)
  next
    fix s s' a assume "and_then rd (\<lambda>v. ok (swap v)) s = (Some a, s')"
    then obtain v where "rd s = (Some v, s')" and "a = swap v" by (auto simp: and_then_eq_Some)
    then show "True \<and> s = le_bytes n (unat a) @ s'"
      using codec.rd_Some [OF rd] by (auto simp: unswap)
  qed
qed

interpretation u16le: codec CBS_get_u16le "\<lambda>v. le_bytes 2 (unat v)" "\<lambda>_. True"
  unfolding CBS_get_u16le_def
proof (rule rev_swap_codec [OF u16.codec_axioms _ be_bytes_bswap2])
  show "unat (v :: u16) < 256 ^ 2" for v using unsigned_less [of v, where ?'a = nat] by simp
  then show "unat (v :: u16) < 256 ^ 2" for v .
qed

interpretation u32le: codec CBS_get_u32le "\<lambda>v. le_bytes 4 (unat v)" "\<lambda>_. True"
  unfolding CBS_get_u32le_def
proof (rule rev_swap_codec [OF u32.codec_axioms _ be_bytes_bswap4])
  show "unat (v :: u32) < 256 ^ 4" for v using unsigned_less [of v, where ?'a = nat] by simp
  then show "unat (v :: u32) < 256 ^ 4" for v .
qed

interpretation u64le: codec CBS_get_u64le "\<lambda>v. le_bytes 8 (unat v)" "\<lambda>_. True"
  unfolding CBS_get_u64le_def CBS_get_u64_def [symmetric]
proof (rule rev_swap_codec [OF u64.codec_axioms _ be_bytes_bswap8])
  show "unat (v :: u64) < 256 ^ 8" for v using unsigned_less [of v, where ?'a = nat] by simp
  then show "unat (v :: u64) < 256 ^ 8" for v .
qed

section \<open>Base-128 integers\<close>

text \<open>
  The encoding \<open>add_base128_integer\<close> writes: seven bits per byte, most significant first,
  the high bit set on every byte but the last. \<open>base128_high n\<close> are the bytes in front of
  the last one, which carry the number \<open>n\<close>.
\<close>

fun base128_high :: "nat \<Rightarrow> bytes" where
  "base128_high n =
     (if n = 0 then [] else base128_high (n div 128) @ [of_nat (128 + n mod 128)])"

declare base128_high.simps [simp del]

definition base128_bytes :: "nat \<Rightarrow> bytes" where
  "base128_bytes n = base128_high (n div 128) @ [of_nat (n mod 128)]"

lemma base128_high_0 [simp]: "base128_high 0 = []"
  by (simp add: base128_high.simps)

lemma base128_high_step:
  "0 < 128 * q + r \<Longrightarrow> r < 128 \<Longrightarrow> base128_high (128 * q + r) = base128_high q @ [of_nat (128 + r)]"
  by (simp add: base128_high.simps [of "128 * q + r"])

lemma base128_bytes_nonempty [simp]: "base128_bytes n \<noteq> []"
  by (simp add: base128_bytes_def)

lemma u8_top_bit_clear: "(b AND 0x80 \<noteq> (0 :: u8)) \<longleftrightarrow> 128 \<le> unat b"
  by (simp add: u8_high_bit not_less)

text \<open>One round of the loop, in numbers.\<close>

lemma parse_base128_loop_Cons:
  assumes "unat v < 2 ^ 57"
  shows "parse_base128_loop v (b # s) =
    (if unat v = 0 \<and> unat b = 128 then (None, s)
     else if 128 \<le> unat b then parse_base128_loop (of_nat (128 * unat v + unat b mod 128)) s
     else (Some (of_nat (128 * unat v + unat b)), s))"
proof -
  let ?w = "push_bit 7 v OR ucast (b AND 0x7f)"
  have "unat (ucast (b AND 0x7f) :: u64) = unat b mod 128" by (simp add: u8_and_7f)
  then have "unat ?w = 128 * unat v + unat b mod 128"
    using assms by (subst unat_or_shift) simp_all
  then have w: "?w = of_nat (128 * unat v + unat b mod 128)" by (rule unat_eq_of_nat)
  have d: "drop_bit 57 v = 0" using assms by (simp add: word_unat_eq_iff unat_drop_bit)
  show ?thesis
    using w d by (simp add: u8_top_bit_clear unat_eq_0 word_unat_eq_iff [of b])
qed

lemma parse_base128_high:
  "n < 2 ^ 57 \<Longrightarrow>
    parse_base128_loop 0 (base128_high n @ s) = parse_base128_loop (of_nat n) s"
proof (induction n arbitrary: s rule: less_induct)
  case (less n)
  show ?case
  proof (cases "n = 0")
    case False
    let ?q = "n div 128" and ?r = "n mod 128"
    have n: "n = 128 * ?q + ?r" by simp
    have q: "?q < 2 ^ 50" using less.prems by simp
    have uq: "unat (of_nat ?q :: u64) = ?q" using q by (simp add: unat_of_nat)
    have ur: "unat (of_nat (128 + ?r) :: u8) = 128 + ?r" by (rule unat_of_nat_small) simp
    have "parse_base128_loop 0 (base128_high n @ s) =
        parse_base128_loop 0 (base128_high ?q @ of_nat (128 + ?r) # s)"
      using False by (simp add: base128_high.simps [of n])
    also have "\<dots> = parse_base128_loop (of_nat ?q) (of_nat (128 + ?r) # s)"
      using less.IH [of ?q] q False by simp
    also have "\<dots> = parse_base128_loop (of_nat n) s"
    proof (subst parse_base128_loop_Cons)
      show "unat (of_nat ?q :: u64) < 2 ^ 57" using q uq by simp
      have "\<not> (?q = 0 \<and> 128 + ?r = 128)" using False n by (metis add_cancel_left_right mult_0_right)
      moreover have "128 * ?q + (128 + ?r) mod 128 = n" using n by simp
      ultimately show "(if unat (of_nat ?q :: u64) = 0 \<and> unat (of_nat (128 + ?r) :: u8) = 128 then (None, s)
          else if 128 \<le> unat (of_nat (128 + ?r) :: u8)
          then parse_base128_loop (of_nat (128 * unat (of_nat ?q :: u64) + unat (of_nat (128 + ?r) :: u8) mod 128)) s
          else (Some (of_nat (128 * unat (of_nat ?q :: u64) + unat (of_nat (128 + ?r) :: u8))), s)) =
          parse_base128_loop (of_nat n) s"
        unfolding uq ur by auto
    qed
    finally show ?thesis .
  qed simp
qed

lemma parse_base128_loop_Some:
  "parse_base128_loop v s = (Some w, s') \<Longrightarrow>
    base128_high (unat v) @ s = base128_bytes (unat w) @ s'"
proof (induction s arbitrary: v)
  case (Cons b s)
  note prem = Cons.prems
  have v: "unat v < 2 ^ 57"
    using prem by (auto simp: word_unat_eq_iff unat_drop_bit div_eq_0_iff split: if_splits)
  have b: "unat b < 256" by simp
  have nz: "\<not> (unat v = 0 \<and> unat b = 128)"
    using prem by (auto simp: parse_base128_loop_Cons [OF v] simp del: parse_base128_loop.simps)
  show ?case
  proof (cases "128 \<le> unat b")
    case True
    let ?n = "128 * unat v + unat b mod 128"
    have un: "unat (of_nat ?n :: u64) = ?n" using v by (intro unat_of_nat_small) simp
    have rest: "parse_base128_loop (of_nat ?n) s = (Some w, s')"
      using prem True nz by (simp add: parse_base128_loop_Cons [OF v] del: parse_base128_loop.simps)
    have r: "unat b = 128 + unat b mod 128" by (rule mod_128_upper [OF True b])
    have "0 < ?n" using nz r by (metis add_gr_0 add.right_neutral gr0I mult_pos_pos zero_less_numeral)
    then have "base128_high ?n = base128_high (unat v) @ [of_nat (128 + unat b mod 128)]"
      by (intro base128_high_step) simp_all
    also have "of_nat (128 + unat b mod 128) = b" using r by (metis unat_eq_of_nat)
    finally have "base128_high ?n @ s = base128_high (unat v) @ b # s" by simp
    moreover have "base128_high (unat (of_nat ?n :: u64)) @ s = base128_bytes (unat w) @ s'"
      using Cons.IH [OF rest] .
    ultimately show ?thesis using un by simp
  next
    case False
    then have w: "w = of_nat (128 * unat v + unat b)" and s: "s' = s"
      using prem nz by (simp_all add: parse_base128_loop_Cons [OF v] del: parse_base128_loop.simps)
    have uw: "unat w = 128 * unat v + unat b"
      unfolding w by (rule unat_of_nat_small) (use v False in simp)
    have "of_nat (unat b) = b" by simp
    then show ?thesis using False uw s by (simp add: base128_bytes_def)
  qed
qed simp

text \<open>\<open>base128\<close>: every 64-bit value, and only its minimal encoding, is read.\<close>

interpretation base128: codec parse_base128_integer "\<lambda>v. base128_bytes (unat v)" "\<lambda>_. True"
proof
  fix a :: u64 and t
  let ?q = "unat a div 128" and ?r = "unat a mod 128"
  have "unat a < 2 ^ 64" using unsigned_less [of a, where ?'a = nat] by simp
  then have q: "?q < 2 ^ 57" by simp
  have uq: "unat (of_nat ?q :: u64) = ?q" using q by (intro unat_of_nat_small) simp
  have ur: "unat (of_nat ?r :: u8) = ?r" by (rule unat_of_nat_small) simp
  have nr: "\<not> 128 \<le> ?r" "?r \<noteq> 128" using mod_less_divisor [of 128 "unat a"] by linarith+
  have "parse_base128_loop 0 (base128_bytes (unat a) @ t) =
      parse_base128_loop (of_nat ?q) (of_nat ?r # t)"
    using parse_base128_high [OF q] by (simp add: base128_bytes_def)
  also have "\<dots> = (Some a, t)"
  proof (subst parse_base128_loop_Cons)
    show "unat (of_nat ?q :: u64) < 2 ^ 57" using q uq by simp
    show "(if unat (of_nat ?q :: u64) = 0 \<and> unat (of_nat ?r :: u8) = 128 then (None, t)
       else if 128 \<le> unat (of_nat ?r :: u8)
       then parse_base128_loop (of_nat (128 * unat (of_nat ?q :: u64) + unat (of_nat ?r :: u8) mod 128)) t
       else (Some (of_nat (128 * unat (of_nat ?q :: u64) + unat (of_nat ?r :: u8))), t)) = (Some a, t)"
      unfolding uq ur using nr by simp
  qed
  finally show "parse_base128_integer (base128_bytes (unat a) @ t) = (Some a, t)"
    by (simp add: parse_base128_integer_def)
next
  fix s s' and a :: u64 assume "parse_base128_integer s = (Some a, s')"
  then show "True \<and> s = base128_bytes (unat a) @ s'"
    using parse_base128_loop_Some [of 0 s a s'] by (simp add: parse_base128_integer_def)
qed

section \<open>Tags\<close>

text \<open>The identifier octets of a tag: class and constructed bits, then the number.\<close>

definition tag_class :: "u32 \<Rightarrow> nat" where
  "tag_class tag = unat tag div 2 ^ 29"

definition tag_number :: "u32 \<Rightarrow> nat" where
  "tag_number tag = unat tag mod 2 ^ 29"

definition tag_bytes :: "u32 \<Rightarrow> bytes" where
  "tag_bytes tag =
     (if tag_number tag < 31 then [of_nat (32 * tag_class tag + tag_number tag)]
      else of_nat (32 * tag_class tag + 31) # base128_bytes (tag_number tag))"

lemma tag_class_bound: "tag_class tag < 8"
  using unsigned_less [of tag, where ?'a = nat] by (simp add: tag_class_def)

lemma tag_eqI: "tag_class a = tag_class b \<Longrightarrow> tag_number a = tag_number b \<Longrightarrow> a = b"
  unfolding tag_class_def tag_number_def word_unat_eq_iff by (metis div_mult_mod_eq)

definition tag_join :: "u8 \<Rightarrow> u32 \<Rightarrow> u32" where
  "tag_join b n = push_bit 24 (ucast b AND 0xe0) OR n"

lemma tag_compose:
  assumes "unat n < 2 ^ 29"
  shows "tag_class (tag_join b n) = unat (b :: u8) div 32"
    and "tag_number (tag_join b n) = unat n"
proof -
  have m: "(0xe0 :: u32) = push_bit 5 (mask 3)" by (simp add: mask_eq_exp_minus_1)
  have "ucast b AND push_bit 5 (mask 3) = push_bit 5 (ucast (drop_bit 5 b) :: u32)"
    by (rule bit_word_eqI) (auto simp: bit_simps dest: bit_imp_le_length)
  then have c: "ucast b AND (0xe0 :: u32) = push_bit 5 (ucast (drop_bit 5 b))"
    by (simp only: m)
  let ?c = "ucast (drop_bit 5 b) :: u32"
  have uc: "unat ?c = unat b div 32" by (simp add: unat_drop_bit)
  have lt: "unat b div 32 < 8" using unat_u8_bound [of b] by linarith
  have "unat (push_bit 29 ?c OR n) = unat ?c * 2 ^ 29 + unat n"
    by (rule unat_or_shift) (use assms lt uc in simp_all)
  then have u: "unat (tag_join b n) = unat b div 32 * 2 ^ 29 + unat n"
    by (simp add: tag_join_def c uc push_bit_push_bit)
  show "tag_class (tag_join b n) = unat (b :: u8) div 32"
    and "tag_number (tag_join b n) = unat n"
    unfolding tag_class_def tag_number_def u using assms by simp_all
qed

lemma tag_byte_parts:
  "c < 8 \<Longrightarrow> k < 32 \<Longrightarrow> unat (of_nat (32 * c + k) :: u8) = 32 * c + k"
  by (rule unat_of_nat_small) simp

lemma parse_asn1_tag_Cons:
  "parse_asn1_tag (b # s) =
    (if unat b mod 32 = 31
     then and_then parse_base128_integer (\<lambda>v.
       if unat v \<ge> 2 ^ 29 \<or> unat v < 31 then fail
       else ok (tag_join b (ucast v))) s
     else ok (tag_join b (ucast (b AND 0x1f))) s)"
proof -
  have "(ucast (b AND 0x1f) = (0x1f :: u32)) \<longleftrightarrow> unat b mod 32 = 31"
  proof -
    have "(ucast (b AND 0x1f) = (0x1f :: u32)) \<longleftrightarrow> unat (ucast (b AND 0x1f) :: u32) = 31"
      by (simp add: word_unat_eq_iff)
    then show ?thesis by (simp add: u8_and_1f)
  qed
  moreover have "(v > ucast CBS_ASN1_TAG_NUMBER_MASK \<or> v < 0x1f) \<longleftrightarrow> (unat v \<ge> 2 ^ 29 \<or> unat v < 31)"
    for v :: u64 by (auto simp: word_less_nat_alt)
  ultimately show ?thesis unfolding tag_join_def
    by (simp add: parse_asn1_tag_def Let_def del: push_bit_and)
qed

interpretation tag: codec parse_asn1_tag tag_bytes "\<lambda>_. True"
proof
  fix tag :: u32 and t
  have cl: "tag_class tag < 8" by (rule tag_class_bound)
  have nb: "tag_number tag < 2 ^ 29" by (simp add: tag_number_def)
  show "parse_asn1_tag (tag_bytes tag @ t) = (Some tag, t)"
  proof (cases "tag_number tag < 31")
    case True
    let ?b = "of_nat (32 * tag_class tag + tag_number tag) :: u8"
    have b: "unat ?b = 32 * tag_class tag + tag_number tag"
      using cl True by (intro tag_byte_parts) simp_all
    have n: "unat (ucast (?b AND 0x1f) :: u32) = tag_number tag"
      using True b by (simp add: u8_and_1f)
    then have lt: "unat (ucast (?b AND 0x1f) :: u32) < 2 ^ 29" using True by simp
    have "tag_join ?b (ucast (?b AND 0x1f)) = tag"
      by (rule tag_eqI; subst tag_compose [OF lt]; use True in \<open>simp add: b n del: of_nat_add of_nat_mult\<close>)
    then show ?thesis using True b
      by (simp add: tag_bytes_def parse_asn1_tag_Cons del: of_nat_add of_nat_mult)
  next
    case False
    let ?b = "of_nat (32 * tag_class tag + 31) :: u8"
    let ?v = "of_nat (tag_number tag) :: u64"
    have b: "unat ?b = 32 * tag_class tag + 31" using cl by (intro tag_byte_parts) simp_all
    have v: "unat ?v = tag_number tag" using nb by (intro unat_of_nat_small) simp
    have n: "unat (ucast ?v :: u32) = tag_number tag" using nb v by (simp add: unat_ucast_mod)
    then have lt: "unat (ucast ?v :: u32) < 2 ^ 29" using nb by simp
    have "tag_join ?b (ucast ?v) = tag"
      by (rule tag_eqI; subst tag_compose [OF lt]; simp add: b n del: of_nat_add of_nat_mult)
    moreover have "parse_base128_integer (base128_bytes (tag_number tag) @ t) = (Some ?v, t)"
      using base128.rd_enc [of ?v t] v by simp
    ultimately show ?thesis using False b v nb
      by (simp add: tag_bytes_def parse_asn1_tag_Cons del: of_nat_add of_nat_mult)
  qed
next
  fix s s' and tag :: u32 assume r: "parse_asn1_tag s = (Some tag, s')"
  then obtain b u where s: "s = b # u" by (cases s) (auto simp: parse_asn1_tag_def and_then_def)
  have bb: "(of_nat (32 * (unat b div 32) + unat b mod 32) :: u8) = b" by simp
  show "True \<and> s = tag_bytes tag @ s'"
  proof (cases "unat b mod 32 = 31")
    case True
    then obtain v where v: "parse_base128_integer u = (Some v, s')"
      and rng: "unat v < 2 ^ 29" "31 \<le> unat v"
      and tag: "tag = tag_join b (ucast v)"
      using r s by (auto simp: parse_asn1_tag_Cons and_then_eq_Some split: if_splits)
    have n: "unat (ucast v :: u32) = unat v" using rng by (simp add: unat_ucast_mod)
    have "tag_class tag = unat b div 32" "tag_number tag = unat v"
      unfolding tag by (subst tag_compose; use rng n in simp)+
    then show ?thesis using base128.rd_Some [OF v] rng s True bb
      by (simp add: tag_bytes_def del: of_nat_add of_nat_mult)
  next
    case False
    have n: "unat (ucast (b AND 0x1f) :: u32) = unat b mod 32" by (simp add: u8_and_1f)
    have tag: "tag = tag_join b (ucast (b AND 0x1f))" and u: "s' = u"
      using r s False by (auto simp: parse_asn1_tag_Cons)
    have "unat b mod 32 < 31" using False mod_less_divisor [of 32 "unat b"] by linarith
    moreover have "tag_class tag = unat b div 32" "tag_number tag = unat b mod 32"
      unfolding tag by (subst tag_compose; use n calculation in simp)+
    ultimately show ?thesis using s u bb by (simp add: tag_bytes_def del: of_nat_add of_nat_mult)
  qed
qed

section \<open>Elements\<close>

text \<open>
  DER (X.690, clauses 8.1 and 10.1): identifier octets, the length in the fewest octets,
  the contents. The reader accepts lengths of up to four octets.
\<close>

definition len_octets :: "nat \<Rightarrow> nat" where
  "len_octets n = (if n \<le> 0xff then 1 else if n \<le> 0xffff then 2 else if n \<le> 0xffffff then 3 else 4)"

definition der_length :: "nat \<Rightarrow> bytes" where
  "der_length n =
     (if n < 128 then [of_nat n] else of_nat (128 + len_octets n) # be_bytes (len_octets n) n)"

definition der_header :: "u32 \<Rightarrow> nat \<Rightarrow> bytes" where
  "der_header tag n = tag_bytes tag @ der_length n"

definition der_element :: "u32 \<Rightarrow> bytes \<Rightarrow> bytes" where
  "der_element tag contents = der_header tag (length contents) @ contents"

lemma len_octets_range: "1 \<le> len_octets n \<and> len_octets n \<le> 4"
  by (simp add: len_octets_def)

lemma len_octets_upper: "n < 2 ^ 32 \<Longrightarrow> n < 256 ^ len_octets n"
  by (auto simp: len_octets_def)

lemma len_octets_lower: "0 < n \<Longrightarrow> 256 ^ (len_octets n - 1) \<le> n"
  by (auto simp: len_octets_def)

lemma len_octets_eqI:
  assumes "1 \<le> k" "k \<le> 4" "n < 256 ^ k" "256 ^ (k - 1) \<le> n"
  shows "len_octets n = k"
proof -
  consider "k = 1" | "k = 2" | "k = 3" | "k = 4" using assms(1,2) by linarith
  then show ?thesis using assms(3,4) by cases (auto simp: len_octets_def)
qed

lemma tag_bytes_nonempty [simp]: "tag_bytes tag \<noteq> []"
  by (simp add: tag_bytes_def)

lemma der_element_nonempty [simp]: "der_element tag c \<noteq> []"
  by (simp add: der_element_def der_header_def)

lemma CBS_get_bytes_Some [simp]:
  "CBS_get_bytes n s = (Some out, s') \<longleftrightarrow> length out = n \<and> s = out @ s'"
  by (auto simp: CBS_get_bytes_def and_then_eq_Some cbs_get_Some CBS_init_def)

lemma CBS_skip_Some [simp]: "CBS_skip n s = (Some u, s') \<longleftrightarrow> n \<le> length s \<and> s' = drop n s"
  by (auto simp: CBS_skip_def and_then_eq_Some cbs_get_def)

lemma drop_bit_eq_0_iff_less: "drop_bit n v = 0 \<longleftrightarrow> unat (v :: 'a::len word) < 2 ^ n"
  by (simp add: unat_eq_0 [symmetric] unat_drop_bit div_eq_0_iff)

lemma u8_low_bits_upper: "128 \<le> unat b \<Longrightarrow> unat (b AND 0x7f :: u8) = unat b - 128"
  using mod_128_upper [of "unat b"] by (simp add: u8_and_7f)

lemma split_prefix:
  assumes "h @ rest = out @ s'" and "length out = length h + n"
  obtains c where "out = h @ c" and "length c = n"
proof
  have "take (length h) (h @ rest) = take (length h) out"
    unfolding assms(1) using assms(2) by simp
  then show "out = h @ drop (length h) out" by (metis append_eq_conv_conj append_take_drop_id)
  show "length (drop (length h) out) = n" using assms(2) by simp
qed

lemma der_element_intro:
  assumes "h @ rest = out @ s'" and "length out = n + length h" and "h = der_header tag n"
    and "n < 2 ^ 32" and "hl = length h"
  shows "\<exists>c. length c < 2 ^ 32 \<and> out = der_element tag c \<and>
    hl = length (der_header tag (length c)) \<and> h @ rest = out @ s'"
proof -
  obtain c where "out = h @ c" and "length c = n"
    using split_prefix [OF assms(1), of n] assms(2) by auto
  then show ?thesis using assms by (intro exI [of _ c]) (simp add: der_element_def)
qed

lemma length_base128_high: "n < 128 ^ k \<Longrightarrow> length (base128_high n) \<le> k"
proof (induction k arbitrary: n)
  case (Suc k)
  then have "n div 128 < 128 ^ k" by (simp add: div_less_iff_less_mult mult.commute)
  then show ?case using Suc.IH by (simp add: base128_high.simps [of n])
qed simp

lemma length_tag_bytes: "length (tag_bytes tag) \<le> 6"
proof -
  have "tag_number tag div 128 < 128 ^ 4" by (simp add: tag_number_def div_less_iff_less_mult)
  then show ?thesis
    using length_base128_high [of "tag_number tag div 128" 4]
    by (simp add: tag_bytes_def base128_bytes_def)
qed

text \<open>The function on an input that begins with a tag and a length byte, in numbers.\<close>

lemma any_element_Cons:
  "cbs_get_any_asn1_element False (tag_bytes tag @ lb # h) =
    (let s = tag_bytes tag @ lb # h; hl = length (tag_bytes tag) + 1; k = unat lb - 128
     in if unat lb < 128 then
          and_then (CBS_get_bytes (unat lb + hl)) (\<lambda>out. ok (out, tag, hl)) s
        else if k = 0 \<or> 4 < k then (None, s)
        else case cbs_get_u k h of
               (None, _) \<Rightarrow> (None, s)
             | (Some v, _) \<Rightarrow>
                 if unat v < 128 \<or> unat v < 256 ^ (k - 1) then (None, s)
                 else (let total = (unat v + hl + k) mod 2 ^ 64
                       in if total < unat v then (None, s)
                          else and_then (CBS_get_bytes total) (\<lambda>out. ok (out, tag, hl + k)) s))"
proof -
  let ?s = "tag_bytes tag @ lb # h"
  have t: "parse_asn1_tag ?s = (Some tag, lb # h)" by (simp add: tag.rd_enc)
  have l: "CBS_len ?s - CBS_len h = length (tag_bytes tag) + 1" by (simp add: CBS_len_def)
  have p: "(2::nat) ^ ((k - 1) * 8) = 256 ^ (k - 1)" for k by (simp add: power_mult mult.commute [of _ 8])
  show ?thesis
  proof (cases "unat lb < 128")
    case True
    then show ?thesis
      unfolding cbs_get_any_asn1_element_def t l by (simp add: Let_def u8_high_bit l)
  next
    case False
    then have hb: "(lb AND 0x80 = 0) = False" by (simp add: u8_high_bit)
    define K where "K = unat lb - 128"
    have k: "unat (lb AND 0x7f) = K" using False by (simp add: u8_low_bits_upper K_def)
    have w: "v < 128 \<longleftrightarrow> unat v < 128" for v :: u64 by (simp add: word_less_nat_alt)
    obtain r h3 where g: "cbs_get_u K h = (r, h3)" by (cases "cbs_get_u K h")
    show ?thesis
      unfolding cbs_get_any_asn1_element_def t l prod.case option.case CBS_get_u8_simps Let_def
        hb k w drop_bit_eq_0_iff_less p if_False simp_thms if_not_P [OF False] K_def [symmetric] g
      by (cases r) simp_all
  qed
qed

text \<open>A header that parses is the DER header of the tag and the length it announces.\<close>

lemma any_element_Some:
  assumes "cbs_get_any_asn1_element False s = (Some (out, tag, hl), s')"
  shows "\<exists>c. length c < 2 ^ 32 \<and> out = der_element tag c \<and>
    hl = length (der_header tag (length c)) \<and> s = out @ s'"
proof -
  obtain tg h where tag: "parse_asn1_tag s = (Some tg, h)"
    using assms by (auto simp: cbs_get_any_asn1_element_def split: prod.splits option.splits)
  obtain lb h2 where h: "h = lb # h2"
    using assms tag by (cases h) (auto simp: cbs_get_any_asn1_element_def)
  have s: "s = tag_bytes tg @ lb # h2" using tag.rd_Some [OF tag] h by simp
  note run = assms [unfolded s any_element_Cons Let_def]
  show ?thesis
  proof (cases "unat lb < 128")
    case True
    then have r: "tg = tag" "hl = length (tag_bytes tag) + 1" "s = out @ s'"
      "length out = unat lb + (length (tag_bytes tag) + 1)"
      using run s by (auto simp: and_then_eq_Some)
    have s1: "(tag_bytes tag @ [lb]) @ h2 = s" using r(1) s by simp
    have "der_header tag (unat lb) = tag_bytes tag @ [lb]"
      using True by (simp add: der_header_def der_length_def)
    then show ?thesis
      by (intro der_element_intro [of "tag_bytes tag @ [lb]" h2 out s' "unat lb", unfolded s1])
        (use True r in simp_all)
  next
    case False
    define k where "k = unat lb - 128"
    have lb: "lb = of_nat (128 + k)" using False by (auto simp: k_def)
    note run1 = run [unfolded k_def [symmetric] if_not_P [OF False]]
    have kr: "\<not> (k = 0 \<or> 4 < k)" using run1 by (cases "k = 0 \<or> 4 < k") auto
    note run2 = run1 [unfolded if_not_P [OF kr]]
    obtain r h3 where rh: "cbs_get_u k h2 = (r, h3)" by (cases "cbs_get_u k h2")
    then obtain v where r: "r = Some v" using run2 by (cases r) auto
    then have v: "cbs_get_u k h2 = (Some v, h3)" using rh by simp
    have h2: "h2 = be_bytes k (unat v) @ h3" and vk: "unat v < 256 ^ k"
      using v kr by (simp_all add: cbs_get_u_Some)
    have "(256::nat) ^ k \<le> 256 ^ 4" using kr by (intro power_increasing) auto
    then have v32: "unat v < 2 ^ 32" using vk by simp
    let ?hl = "length (tag_bytes tg) + 1"
    let ?total = "(unat v + ?hl + k) mod 2 ^ 64"
    note run3 = run2 [unfolded v prod.case option.case]
    have ge: "\<not> (unat v < 128 \<or> unat v < 256 ^ (k - 1))"
      using run3 by (cases "unat v < 128 \<or> unat v < 256 ^ (k - 1)") auto
    note run4 = run3 [unfolded if_not_P [OF ge]]
    have nt: "\<not> ?total < unat v" using run4 by (cases "?total < unat v") auto
    have r: "tg = tag" "hl = ?hl + k" "s = out @ s'" "length out = ?total"
      using run4 [unfolded if_not_P [OF nt] and_then_eq_Some] s by auto
    have "len_octets (unat v) = k" using kr vk ge by (intro len_octets_eqI) auto
    then have hd: "der_header tag (unat v) = tag_bytes tag @ lb # be_bytes k (unat v)"
      using ge by (simp add: der_header_def der_length_def lb del: of_nat_add)
    have total: "?total = unat v + length (der_header tag (unat v))"
      using v32 kr length_tag_bytes [of tag] hd r(1) by simp
    have s1: "der_header tag (unat v) @ h3 = s" using hd h2 r(1) s by simp
    show ?thesis
      by (rule der_element_intro [of "der_header tag (unat v)" h3 out s' "unat v", unfolded s1])
        (use r total v32 hd in simp_all)
  qed
qed

lemma CBS_get_bytes_append: "n = length p \<Longrightarrow> CBS_get_bytes n (p @ t) = (Some p, t)"
  by simp

lemma any_element_der:
  assumes "length c < 2 ^ 32"
  shows "cbs_get_any_asn1_element False (der_element tag c @ t) =
    (Some (der_element tag c, tag, length (der_header tag (length c))), t)"
proof (cases "length c < 128")
  case True
  let ?lb = "of_nat (length c) :: u8"
  have lb: "unat ?lb = length c" using True by (intro unat_of_nat_small) simp
  have s: "der_element tag c @ t = tag_bytes tag @ ?lb # c @ t"
    and hl: "length (der_header tag (length c)) = length (tag_bytes tag) + 1"
    using True by (simp_all add: der_element_def der_header_def der_length_def)
  have "length c + (length (tag_bytes tag) + 1) = length (der_element tag c)"
    using hl by (simp add: der_element_def)
  from CBS_get_bytes_append [OF this, of t] show ?thesis
    unfolding s any_element_Cons Let_def lb if_P [OF True] hl
    by (simp add: s [symmetric])
next
  case False
  let ?n = "length c" and ?k = "len_octets (length c)"
  let ?lb = "of_nat (128 + ?k) :: u8" and ?v = "of_nat (length c) :: u64"
  have k: "1 \<le> ?k" "?k \<le> 4" using len_octets_range by auto
  have lb: "unat ?lb = 128 + ?k" using k by (intro unat_of_nat_small) simp
  have v: "unat ?v = ?n" using assms by (intro unat_of_nat_small) simp
  have up: "?n < 256 ^ ?k" using assms by (rule len_octets_upper)
  have low: "256 ^ (?k - 1) \<le> ?n" using False by (intro len_octets_lower) linarith
  have s: "der_element tag c @ t = tag_bytes tag @ ?lb # be_bytes ?k ?n @ c @ t"
    and hl: "length (der_header tag ?n) = length (tag_bytes tag) + 1 + ?k"
    using False by (simp_all add: der_element_def der_header_def der_length_def del: of_nat_add)
  have get: "cbs_get_u ?k (be_bytes ?k ?n @ c @ t) = (Some ?v, c @ t)"
    using k v up by (simp add: cbs_get_u_Some)
  have total: "(?n + (length (tag_bytes tag) + 1) + ?k) mod 2 ^ 64 = length (der_element tag c)"
    using assms k length_tag_bytes [of tag] hl by (simp add: der_element_def)
  have nt: "\<not> length (der_element tag c) < ?n" by (simp add: der_element_def)
  have c1: "\<not> 128 + ?k < 128" "128 + ?k - 128 = ?k" "\<not> (?k = 0 \<or> 4 < ?k)"
    "\<not> (?n < 128 \<or> ?n < 256 ^ (?k - 1))" using k False low by auto
  show ?thesis
    unfolding s any_element_Cons Let_def lb c1(2) if_not_P [OF c1(1)] if_not_P [OF c1(3)] get
      prod.case option.case v if_not_P [OF c1(4)] total if_not_P [OF nt] hl
    by (simp add: s [symmetric] del: of_nat_add)
qed

lemma CBS_skip_header:
  "CBS_skip (length (der_header tag (length c))) (der_element tag c) = (Some (), c)"
  by (simp add: der_element_def)

text \<open>The element readers, exactly.\<close>

lemma any_element_iff:
  "CBS_get_any_asn1_element s = (Some (out, tag, hl), s') \<longleftrightarrow>
    (\<exists>c. length c < 2 ^ 32 \<and> out = der_element tag c \<and>
      hl = length (der_header tag (length c)) \<and> s = out @ s')"
  unfolding CBS_get_any_asn1_element_def using any_element_Some any_element_der by blast

interpretation any_asn1: element_codec CBS_get_any_asn1
  "\<lambda>(c, tag). der_element tag c" "\<lambda>(c, tag). length c < 2 ^ 32"
proof
  fix a :: "cbs \<times> u32" and t
  assume "case a of (c, tag) \<Rightarrow> length c < 2 ^ 32"
  then show "CBS_get_any_asn1 ((case a of (c, tag) \<Rightarrow> der_element tag c) @ t) = (Some a, t)"
    by (cases a) (simp add: CBS_get_any_asn1_def CBS_get_any_asn1_element_def any_element_der
        CBS_skip_header)
next
  fix s s' and a :: "cbs \<times> u32"
  assume "CBS_get_any_asn1 s = (Some a, s')"
  then show "(case a of (c, tag) \<Rightarrow> length c < 2 ^ 32) \<and> s = (case a of (c, tag) \<Rightarrow> der_element tag c) @ s'"
    by (cases a) (auto simp: CBS_get_any_asn1_def and_then_eq_Some any_element_iff CBS_skip_header)
qed (auto split: prod.splits)

lemma CBS_get_asn1_iff:
  "CBS_get_asn1 tag s = (Some c, s') \<longleftrightarrow> length c < 2 ^ 32 \<and> s = der_element tag c @ s'"
proof -
  have "CBS_get_asn1 tag s = (Some c, s') \<longleftrightarrow>
      (\<exists>d. length d < 2 ^ 32 \<and> s = der_element tag d @ s' \<and> d = c)" (is "?l \<longleftrightarrow> ?r")
  proof
    assume ?l
    then obtain out hl where "CBS_get_any_asn1_element s = (Some (out, tag, hl), s')"
      and "hl \<le> length out" and "c = drop hl out"
      by (auto simp: CBS_get_asn1_def cbs_get_asn1_def and_then_eq_Some
          split: if_splits option.splits prod.splits)
    then show ?r by (auto simp: any_element_iff der_element_def)
  next
    assume ?r
    then show ?l
      by (auto simp: CBS_get_asn1_def cbs_get_asn1_def CBS_get_any_asn1_element_def
          any_element_der CBS_skip_header)
  qed
  then show ?thesis by auto
qed

lemma CBS_get_asn1_element_iff:
  "CBS_get_asn1_element tag s = (Some out, s') \<longleftrightarrow>
    (\<exists>c. length c < 2 ^ 32 \<and> out = der_element tag c \<and> s = out @ s')"
  unfolding CBS_get_asn1_element_def cbs_get_asn1_def and_then_eq_Some
  by (auto simp: any_element_iff split: if_splits)

interpretation asn1: element_codec "CBS_get_asn1 tag" "der_element tag" "\<lambda>c. length c < 2 ^ 32"
  by unfold_locales (auto simp: CBS_get_asn1_iff)

lemma CBS_peek_asn1_tag_iff:
  "CBS_peek_asn1_tag s tag \<longleftrightarrow> (\<exists>t. s = tag_bytes tag @ t)"
proof
  assume p: "CBS_peek_asn1_tag s tag"
  obtain r s' where r: "parse_asn1_tag s = (r, s')" by (cases "parse_asn1_tag s")
  with p have "r = Some tag" by (auto simp: CBS_peek_asn1_tag_def split: if_splits option.splits)
  then show "\<exists>t. s = tag_bytes tag @ t" using tag.rd_Some r by blast
next
  assume "\<exists>t. s = tag_bytes tag @ t"
  then obtain t where "s = tag_bytes tag @ t" ..
  then show "CBS_peek_asn1_tag s tag"
    by (simp add: CBS_peek_asn1_tag_def tag.rd_enc CBS_len_def Suc_le_eq)
qed

text \<open>An absent element is one whose tag does not come next; it consumes nothing.\<close>

lemma CBS_get_optional_asn1_iff:
  "CBS_get_optional_asn1 tag s = (Some r, s') \<longleftrightarrow>
    (case r of
       Some c \<Rightarrow> length c < 2 ^ 32 \<and> s = der_element tag c @ s'
     | None \<Rightarrow> s' = s \<and> \<not> CBS_peek_asn1_tag s tag)"
proof -
  have "CBS_peek_asn1_tag (der_element tag c @ s') tag" for c
    by (auto simp: CBS_peek_asn1_tag_iff der_element_def der_header_def)
  then show ?thesis
    by (auto simp: CBS_get_optional_asn1_def and_then_eq_Some CBS_get_asn1_iff split: option.splits)
qed

section \<open>Typed elements\<close>

text \<open>
  The contents octets of an INTEGER (X.690, clause 8.3): two's complement in the fewest
  octets. \<open>int_octets\<close> drops the leading octets that only repeat the sign.
\<close>

fun int_octets :: "bytes \<Rightarrow> bytes" where
  "int_octets (a # b # bs) =
     (if (a = 0 \<and> unat b < 128) \<or> (a = 0xff \<and> 128 \<le> unat b) then int_octets (b # bs)
      else a # b # bs)"
| "int_octets bs = bs"

definition sign_octet :: "bytes \<Rightarrow> u8" where
  "sign_octet bs = (if unat (hd bs) < 128 then 0 else 0xff)"

definition sign_extend :: "nat \<Rightarrow> bytes \<Rightarrow> bytes" where
  "sign_extend n bs = replicate (n - length bs) (sign_octet bs) @ bs"

lemma int_octets_eq_Nil [simp]: "int_octets bs = [] \<longleftrightarrow> bs = []"
  by (induction bs rule: int_octets.induct) auto

lemma length_int_octets: "length (int_octets bs) \<le> length bs"
  by (induction bs rule: int_octets.induct) auto

lemma hd_int_octets: "unat (hd (int_octets bs)) < 128 \<longleftrightarrow> unat (hd bs) < 128"
  by (induction bs rule: int_octets.induct) auto

lemma sign_octet_int_octets [simp]: "sign_octet (int_octets bs) = sign_octet bs"
  using hd_int_octets [of bs] by (simp add: sign_octet_def)

lemma int_octets_idem [simp]: "int_octets (int_octets bs) = int_octets bs"
  by (induction bs rule: int_octets.induct) auto

lemma sign_extend_int_octets: "sign_extend (length bs) (int_octets bs) = bs"
proof (induction bs rule: int_octets.induct)
  case (1 a b bs)
  show ?case
  proof (cases "(a = 0 \<and> unat b < 128) \<or> (a = 0xff \<and> 128 \<le> unat b)")
    case True
    let ?c = "int_octets (b # bs)"
    have l: "length ?c \<le> length (b # bs)" by (rule length_int_octets)
    have "sign_octet ?c = a" using True unfolding sign_octet_int_octets by (auto simp: sign_octet_def)
    then have "sign_extend (Suc (length (b # bs))) ?c = a # sign_extend (length (b # bs)) ?c"
      using l by (simp add: sign_extend_def Suc_diff_le)
    then show ?thesis using True 1 by simp
  next
    case False
    then have "int_octets (a # b # bs) = a # b # bs" by auto
    then show ?thesis by (simp add: sign_extend_def)
  qed
qed (simp_all add: sign_extend_def)

lemma int_octets_replicate:
  "bs \<noteq> [] \<Longrightarrow> int_octets (replicate k (sign_octet bs) @ bs) = int_octets bs"
proof (induction k)
  case (Suc k)
  have "hd (replicate k (sign_octet bs) @ bs) = (if k = 0 then hd bs else sign_octet bs)"
    using Suc.prems by (cases k) auto
  then obtain b r where r: "replicate k (sign_octet bs) @ bs = b # r"
    and b: "b = (if k = 0 then hd bs else sign_octet bs)"
    using Suc.prems by (cases "replicate k (sign_octet bs) @ bs") auto
  have "(sign_octet bs = 0 \<and> unat b < 128) \<or> (sign_octet bs = 0xff \<and> 128 \<le> unat b)"
    using b by (auto simp: sign_octet_def)
  then show ?case using Suc r by simp
qed simp

lemma int_octets_sign_extend: "bs \<noteq> [] \<Longrightarrow> int_octets (sign_extend n bs) = int_octets bs"
  by (simp add: sign_extend_def int_octets_replicate)

lemma length_sign_extend [simp]: "length bs \<le> n \<Longrightarrow> length (sign_extend n bs) = n"
  by (simp add: sign_extend_def)

text \<open>The reader's checks on the contents octets are minimality.\<close>

lemma minimal_int_iff:
  "int_octets bs = bs \<longleftrightarrow>
    \<not> (length bs > 1 \<and> bs ! 0 = 0 \<and> bs ! 1 AND 0x80 = 0) \<and>
    \<not> (length bs > 1 \<and> bs ! 0 = 0xff \<and> bs ! 1 AND 0x80 \<noteq> 0)"
proof (cases bs rule: int_octets.cases)
  case (1 a b r)
  have "int_octets (b # r) \<noteq> a # b # r"
    using length_int_octets [of "b # r"] by (metis Suc_n_not_le_n length_Cons)
  then show ?thesis using 1 by (auto simp: u8_high_bit not_less)
qed simp_all

section \<open>Unsigned INTEGER\<close>

lemma asn1_uint64_loop_eq:
  "asn1_uint64_loop out data =
    (if unat out * 256 ^ length data + be_val data < 2 ^ 64
     then Some (of_nat (unat out * 256 ^ length data + be_val data)) else None)"
proof (induction data arbitrary: out)
  case Nil
  have "unat out < 2 ^ 64" using unsigned_less [of out, where ?'a = nat] by simp
  then show ?case by simp
next
  case (Cons b data)
  let ?n = "unat out * 256 ^ length (b # data) + be_val (b # data)"
  show ?case
  proof (cases "unat out < 2 ^ 56")
    case True
    let ?o = "push_bit 8 out OR ucast b"
    have "unat ?o = unat out * 2 ^ 8 + unat (ucast b :: u64)"
      by (rule unat_or_shift) (use True in simp_all)
    then have o: "unat ?o * 256 ^ length data + be_val data = ?n"
      by (simp add: be_val_Cons algebra_simps)
    have "drop_bit 56 out = 0" using True by (simp add: drop_bit_eq_0_iff_less)
    then have "asn1_uint64_loop out (b # data) = asn1_uint64_loop ?o data" by simp
    then show ?thesis unfolding Cons.IH o .
  next
    case False
    have "(2::nat) ^ 56 * 256 ^ 1 \<le> unat out * 256 ^ length (b # data)"
      using False by (intro mult_mono power_increasing) auto
    then have "\<not> ?n < 2 ^ 64" by simp
    moreover have "drop_bit 56 out \<noteq> 0" using False by (simp add: drop_bit_eq_0_iff_less)
    ultimately show ?thesis by simp
  qed
qed


lemma be_val_replicate_0: "be_val (replicate k 0 @ bs) = be_val bs"
  by (induction k) (simp_all add: be_val_Cons)

lemma be_val_lower: "bs \<noteq> [] \<Longrightarrow> unat (hd bs) * 256 ^ (length bs - 1) \<le> be_val bs"
  by (cases bs) (simp_all add: be_val_Cons)

text \<open>
  Contents octets of a non-negative INTEGER below $2^{64}$: at most nine, and recovered
  from the value.
\<close>

lemma uint_octets_length:
  assumes "int_octets bs = bs" "be_val bs < 2 ^ 64"
  shows "length bs \<le> 9"
proof (rule ccontr)
  assume "\<not> length bs \<le> 9"
  then obtain a b r where bs: "bs = a # b # r" and l: "8 \<le> length r"
    by (cases bs rule: int_octets.cases) auto
  have "1 * 256 ^ 8 \<le> unat b * 256 ^ length r + unat a * 256 ^ (length r + 1)"
  proof (cases "a = 0")
    case True
    then have "128 \<le> unat b" using assms(1) length_int_octets [of "b # r"]
      by (cases "unat b < 128") (auto simp: bs dest: arg_cong [where f = length])
    then have "1 * 256 ^ 8 \<le> unat b * 256 ^ length r"
      using l by (intro mult_mono power_increasing) auto
    then show ?thesis by simp
  next
    case False
    then have "1 \<le> unat a" by (simp add: unat_gt_0 Suc_le_eq)
    then have "1 * 256 ^ 8 \<le> unat a * 256 ^ (length r + 1)"
      using l bs by (intro mult_mono power_increasing) auto
    then show ?thesis by simp
  qed
  moreover have "be_val bs = unat a * 256 ^ (length r + 1) + unat b * 256 ^ length r + be_val r"
    by (simp add: bs be_val_Cons)
  ultimately show False using assms(2) by simp
qed

definition uint64_octets :: "u64 \<Rightarrow> bytes" where
  "uint64_octets v = int_octets (0 # be_bytes 8 (unat v))"

lemma be_bytes_9: "n < 2 ^ 64 \<Longrightarrow> be_bytes 9 n = 0 # be_bytes 8 n"
  using be_bytes_be_val [of "0 # be_bytes 8 n" 9] by (simp add: be_val_Cons)

lemma uint64_octets_facts:
  "uint64_octets v \<noteq> []" "unat (hd (uint64_octets v)) < 128"
  "int_octets (uint64_octets v) = uint64_octets v" "be_val (uint64_octets v) = unat v"
  "length (uint64_octets v) \<le> 9"
proof -
  let ?z = "0 # be_bytes 8 (unat v)"
  show "uint64_octets v \<noteq> []" "int_octets (uint64_octets v) = uint64_octets v"
    "length (uint64_octets v) \<le> 9"
    using length_int_octets [of ?z] by (simp_all add: uint64_octets_def)
  show "unat (hd (uint64_octets v)) < 128" by (simp add: uint64_octets_def hd_int_octets)
  have "sign_extend (length ?z) (uint64_octets v) = ?z"
    unfolding uint64_octets_def by (rule sign_extend_int_octets)
  moreover have "sign_octet (uint64_octets v) = 0"
    unfolding uint64_octets_def sign_octet_int_octets by (simp add: sign_octet_def)
  ultimately have "be_val (uint64_octets v) = be_val ?z"
    by (metis be_val_replicate_0 sign_extend_def)
  then show "be_val (uint64_octets v) = unat v"
    using unat_u64_bound [of v] by (simp add: be_val_Cons)
qed

lemma uint64_octets_unique:
  assumes "bs \<noteq> []" "unat (hd bs) < 128" "int_octets bs = bs" "be_val bs < 2 ^ 64"
  shows "uint64_octets (of_nat (be_val bs)) = bs"
proof -
  have l: "length bs \<le> 9" using assms by (intro uint_octets_length)
  have v: "unat (of_nat (be_val bs) :: u64) = be_val bs"
    using assms(4) by (intro unat_of_nat_small) simp
  have "be_val (sign_extend 9 bs) = be_val bs"
    using assms(2) by (simp add: sign_extend_def sign_octet_def be_val_replicate_0)
  then have "be_bytes 9 (be_val bs) = sign_extend 9 bs"
    using be_bytes_be_val [of "sign_extend 9 bs" 9] l by simp
  then have "0 # be_bytes 8 (be_val bs) = sign_extend 9 bs"
    using be_bytes_9 [OF assms(4)] by simp
  then show ?thesis
    using assms int_octets_sign_extend [OF assms(1), of 9]
    by (simp add: uint64_octets_def v)
qed

interpretation asn1_uint64: codec CBS_get_asn1_uint64
  "\<lambda>v. der_element CBS_ASN1_INTEGER (uint64_octets v)" "\<lambda>_. True"
proof
  fix v :: u64 and t
  let ?d = "uint64_octets v"
  have nth: "?d ! 0 = hd ?d" by (simp add: hd_conv_nth uint64_octets_facts(1))
  have "asn1_uint64_loop 0 ?d = Some v"
    using unat_u64_bound [of v] by (simp add: asn1_uint64_loop_eq uint64_octets_facts)
  then show "CBS_get_asn1_uint64 (der_element CBS_ASN1_INTEGER ?d @ t) = (Some v, t)"
    using uint64_octets_facts [of v] minimal_int_iff [of ?d]
    by (simp add: CBS_get_asn1_uint64_def asn1.rd_enc Let_def u8_high_bit nth)
next
  fix s s' and v :: u64 assume "CBS_get_asn1_uint64 s = (Some v, s')"
  then obtain d where d: "CBS_get_asn1 CBS_ASN1_INTEGER s = (Some d, s')"
    and ne: "d \<noteq> []" and h: "d ! 0 AND 0x80 = 0"
    and z: "\<not> (d ! 0 = 0 \<and> 1 < length d \<and> d ! 1 AND 0x80 = 0)"
    and loop: "asn1_uint64_loop 0 d = Some v"
    by (auto simp: CBS_get_asn1_uint64_def and_then_eq_Some Let_def split: if_splits option.splits)
  have hd: "unat (hd d) < 128" using h ne by (simp add: u8_high_bit hd_conv_nth)
  have "d ! 0 \<noteq> 0xff" using hd ne by (auto simp: hd_conv_nth)
  then have "int_octets d = d" using z by (auto simp: minimal_int_iff)
  moreover have "be_val d < 2 ^ 64" and v: "v = of_nat (be_val d)"
    using loop by (auto simp: asn1_uint64_loop_eq split: if_splits)
  ultimately have "uint64_octets v = d" using ne hd by (simp add: uint64_octets_unique)
  then show "True \<and> s = der_element CBS_ASN1_INTEGER (uint64_octets v) @ s'"
    using asn1.rd_Some [OF d] by simp
qed

section \<open>Signed INTEGER and BOOLEAN\<close>

definition int64_octets :: "u64 \<Rightarrow> bytes" where
  "int64_octets v = int_octets (be_bytes 8 (unat v))"

lemma fold_list_update_rev:
  "n \<le> length d \<Longrightarrow> length d \<le> length u \<Longrightarrow>
    fold (\<lambda>i u. u[i := d ! (length d - i - 1)]) [0 ..< n] u = take n (rev d) @ drop n u"
proof (induction n)
  case (Suc n)
  have u: "drop n u = u ! n # drop (Suc n) u"
    using Suc.prems by (intro Cons_nth_drop_Suc [symmetric]) simp
  have l: "length (take n (rev d)) = n" using Suc.prems by simp
  have "(take n (rev d) @ drop n u)[n := d ! (length d - n - 1)] =
      take n (rev d) @ d ! (length d - n - 1) # drop (Suc n) u"
    unfolding u using list_update_length [of "take n (rev d)"] l by metis
  also have "\<dots> = take (Suc n) (rev d) @ drop (Suc n) u"
    using Suc.prems by (simp add: take_Suc_conv_app_nth rev_nth)
  finally show ?case using Suc by simp
qed simp

lemma int64_from_octets:
  assumes "d \<noteq> []" "length d \<le> 8"
  shows "le_val (fold (\<lambda>i u. u[i := d ! (length d - i - 1)]) [0 ..< length d]
      (replicate 8 (if d ! 0 AND 0x80 \<noteq> 0 then 0xff else 0))) = be_val (sign_extend 8 d)"
proof -
  have s: "(if d ! 0 AND 0x80 \<noteq> 0 then 0xff else 0) = sign_octet d"
    using assms(1) by (simp add: sign_octet_def u8_high_bit hd_conv_nth)
  have "fold (\<lambda>i u. u[i := d ! (length d - i - 1)]) [0 ..< length d] (replicate 8 (sign_octet d)) =
      rev (sign_extend 8 d)"
    using assms(2) by (subst fold_list_update_rev) (simp_all add: sign_extend_def)
  then show ?thesis unfolding s by (simp add: le_val_def)
qed

interpretation asn1_int64: codec CBS_get_asn1_int64
  "\<lambda>v. der_element CBS_ASN1_INTEGER (int64_octets v)" "\<lambda>_. True"
proof
  fix v :: u64 and t
  let ?d = "int64_octets v"
  have ne: "?d \<noteq> []" and min: "int_octets ?d = ?d" and l: "length ?d \<le> 8"
    using length_int_octets [of "be_bytes 8 (unat v)"] length_be_bytes [of 8 "unat v"]
    by (auto simp: int64_octets_def)
  have "sign_extend 8 ?d = be_bytes 8 (unat v)"
    using sign_extend_int_octets [of "be_bytes 8 (unat v)"]
    by (simp add: int64_octets_def)
  then have "be_val (sign_extend 8 ?d) = unat v"
    using unat_u64_bound [of v] by simp
  then have val: "le_val (fold (\<lambda>i u. u[i := ?d ! (length ?d - i - 1)]) [0 ..< length ?d]
      (replicate 8 (if ?d ! 0 AND 0x80 \<noteq> 0 then 0xff else 0))) = unat v"
    using int64_from_octets [OF ne l] by simp
  have g: "CBS_get_asn1 CBS_ASN1_INTEGER (der_element CBS_ASN1_INTEGER ?d @ t) = (Some ?d, t)"
    by (rule asn1.rd_enc) (use l in simp)
  show "CBS_get_asn1_int64 (der_element CBS_ASN1_INTEGER ?d @ t) = (Some v, t)"
    using ne l min minimal_int_iff [of ?d]
    by (auto simp: CBS_get_asn1_int64_def g Let_def val [simplified])
next
  fix s s' and v :: u64 assume "CBS_get_asn1_int64 s = (Some v, s')"
  then obtain d where d: "CBS_get_asn1 CBS_ASN1_INTEGER s = (Some d, s')"
    and ne: "d \<noteq> []" and l: "length d \<le> 8" and min: "int_octets d = d"
    and v: "v = of_nat (le_val (fold (\<lambda>i u. u[i := d ! (length d - i - 1)]) [0 ..< length d]
      (replicate 8 (if d ! 0 AND 0x80 \<noteq> 0 then 0xff else 0))))"
    by (auto simp: CBS_get_asn1_int64_def and_then_eq_Some Let_def minimal_int_iff split: if_splits)
  have "be_val (sign_extend 8 d) < 256 ^ length (sign_extend 8 d)" by (rule be_val_bound)
  then have u: "unat v = be_val (sign_extend 8 d)"
    unfolding v int64_from_octets [OF ne l] using l by (intro unat_of_nat_small) simp
  have "be_bytes 8 (unat v) = sign_extend 8 d"
    unfolding u using l by (intro be_bytes_be_val) simp
  then have "int64_octets v = d"
    using int_octets_sign_extend [OF ne, of 8] min by (simp add: int64_octets_def)
  then show "True \<and> s = der_element CBS_ASN1_INTEGER (int64_octets v) @ s'"
    using asn1.rd_Some [OF d] by simp
qed

interpretation asn1_bool: codec CBS_get_asn1_bool
  "\<lambda>b. der_element CBS_ASN1_BOOLEAN [if b then 0xff else 0]" "\<lambda>_. True"
proof
  fix b t
  show "CBS_get_asn1_bool (der_element CBS_ASN1_BOOLEAN [if b then 0xff else 0] @ t) = (Some b, t)"
    by (simp add: CBS_get_asn1_bool_def asn1.rd_enc CBS_len_def Let_def)
next
  fix s s' b assume "CBS_get_asn1_bool s = (Some b, s')"
  then obtain d where d: "CBS_get_asn1 CBS_ASN1_BOOLEAN s = (Some d, s')"
    and l: "length d = 1" and v: "hd d = 0 \<or> hd d = 0xff" "b = (hd d \<noteq> 0)"
    by (auto simp: CBS_get_asn1_bool_def and_then_eq_Some Let_def CBS_len_def split: if_splits)
  have "d = [hd d]" using l by (cases d) auto
  then have "d = [if b then 0xff else 0]" using v by auto
  then show "True \<and> s = der_element CBS_ASN1_BOOLEAN [if b then 0xff else 0] @ s'"
    using asn1.rd_Some [OF d] by simp
qed

section \<open>Length-prefixed strings and BIT STRINGs\<close>

lemma codec_length_prefixed:
  assumes "n \<le> 3"
  shows "codec (cbs_get_length_prefixed n) (\<lambda>c. be_bytes n (length c) @ c) (\<lambda>c. length c < 256 ^ n)"
proof
  fix c :: cbs and t assume c: "length c < 256 ^ n"
  have "(256::nat) ^ n \<le> 256 ^ 3" using assms by (intro power_increasing) auto
  then have u: "unat (of_nat (length c) :: u64) = length c" using c by (intro unat_of_nat_small) simp
  then have "cbs_get_u n (be_bytes n (length c) @ c @ t) = (Some (of_nat (length c)), c @ t)"
    using assms c by (simp add: cbs_get_u_Some)
  then show "cbs_get_length_prefixed n ((be_bytes n (length c) @ c) @ t) = (Some c, t)"
    using u by (simp add: cbs_get_length_prefixed_def)
next
  fix s s' and c :: cbs assume "cbs_get_length_prefixed n s = (Some c, s')"
  then show "length c < 256 ^ n \<and> s = (be_bytes n (length c) @ c) @ s'"
    using assms by (auto simp: cbs_get_length_prefixed_def and_then_eq_Some cbs_get_u_Some)
qed

interpretation u8_prefixed: codec CBS_get_u8_length_prefixed
  "\<lambda>c. be_bytes 1 (length c) @ c" "\<lambda>c. length c < 256 ^ 1"
  unfolding CBS_get_u8_length_prefixed_def by (rule codec_length_prefixed) simp

interpretation u16_prefixed: codec CBS_get_u16_length_prefixed
  "\<lambda>c. be_bytes 2 (length c) @ c" "\<lambda>c. length c < 256 ^ 2"
  unfolding CBS_get_u16_length_prefixed_def by (rule codec_length_prefixed) simp

interpretation u24_prefixed: codec CBS_get_u24_length_prefixed
  "\<lambda>c. be_bytes 3 (length c) @ c" "\<lambda>c. length c < 256 ^ 3"
  unfolding CBS_get_u24_length_prefixed_def by (rule codec_length_prefixed) simp

text \<open>
  The bits of a BIT STRING's contents: the first octet counts the unused bits of the last
  one, bit 0 is the high bit of the first octet that follows.
\<close>

definition bitstring_bit :: "cbs \<Rightarrow> nat \<Rightarrow> bool" where
  "bitstring_bit cbs k \<longleftrightarrow> k < 8 * (length cbs - 1) \<and> bit (tl cbs ! (k div 8)) (7 - k mod 8)"

lemma and_single_bit: "(x AND push_bit k 1 \<noteq> (0 :: 'a::len word)) \<longleftrightarrow> bit x k"
proof -
  have "x AND push_bit k 1 = of_bool (bit x k) * push_bit k 1"
    by (rule bit_word_eqI) (auto simp: bit_simps bit_1_iff)
  moreover have "k < LENGTH('a) \<Longrightarrow> push_bit k (1 :: 'a word) \<noteq> 0"
    by (simp add: push_bit_eq_mult)
  ultimately show ?thesis using bit_imp_le_length [of x k] by auto
qed

lemma bitstring_has_bit_iff:
  assumes "CBS_is_valid_asn1_bitstring cbs"
  shows "CBS_asn1_bitstring_has_bit cbs b \<longleftrightarrow> bitstring_bit cbs (unat b)"
proof -
  have q: "unat (drop_bit 3 b + 1) = unat b div 8 + 1"
  proof -
    have "unat b div 8 < 2 ^ 29" using unsigned_less [of b, where ?'a = nat] by simp
    then show ?thesis by (subst unat_add_lem [THEN iffD1]) (simp_all add: unat_drop_bit)
  qed
  have r: "unat (7 - (b AND 7)) = 7 - unat b mod 8"
  proof -
    have m: "unat (b AND 7) = unat b mod 8"
      using unat_and_mask [of b 3] by (simp add: mask_eq_exp_minus_1)
    have "unat b mod 8 \<le> 7" using mod_less_divisor [of 8 "unat b"] by linarith
    then have "b AND 7 \<le> 7" using m by (simp add: word_le_nat_alt)
    then show ?thesis using m by (simp add: unat_sub)
  qed
  obtain x xs where c: "cbs = x # xs"
    using assms by (cases cbs) (auto simp: CBS_is_valid_asn1_bitstring_def)
  have "unat b div 8 < length xs \<longleftrightarrow> unat b < 8 * length xs"
    by (simp add: div_less_iff_less_mult mult.commute)
  then show ?thesis
    using assms unfolding CBS_asn1_bitstring_has_bit_def bitstring_bit_def Let_def q r and_single_bit
    by (simp add: c CBS_len_def)
qed

lemma valid_bitstring_iff:
  "CBS_is_valid_asn1_bitstring cbs \<longleftrightarrow>
    (\<exists>u bits. cbs = u # bits \<and> unat u \<le> 7 \<and>
      (unat u = 0 \<or> bits \<noteq> [] \<and> unat (last bits) mod 2 ^ unat u = 0))"
proof (cases cbs)
  case (Cons u bits)
  have z: "x AND (2 ^ k - 1) = 0 \<longleftrightarrow> unat x mod 2 ^ k = 0" for x :: u8 and k
    by (metis unat_and_mask unat_eq_0 mask_eq_exp_minus_1)
  have g: "u > 7 \<longleftrightarrow> \<not> unat u \<le> 7" by (simp add: word_less_nat_alt not_le)
  show ?thesis
  proof (cases bits rule: rev_cases)
    case Nil
    then show ?thesis using Cons
      by (simp add: CBS_is_valid_asn1_bitstring_def CBS_get_last_u8_def g unat_eq_0)
  next
    case (snoc ys y)
    then show ?thesis using Cons
      by (simp add: CBS_is_valid_asn1_bitstring_def CBS_get_last_u8_def g unat_eq_0 z)
  qed
qed (simp add: CBS_is_valid_asn1_bitstring_def)

section \<open>Properties\<close>

text \<open>C4. The element reader accepts exactly DER: an element comes back, with its tag and the
  length of its header, if and only if the input begins with the DER encoding (minimal tag,
  minimal definite length below $2^{32}$) of that tag and some contents.\<close>

theorem CBS_get_any_asn1_element_exact:
  "CBS_get_any_asn1_element s = (Some (out, tag, hl), s') \<longleftrightarrow>
    (\<exists>c. length c < 2 ^ 32 \<and> out = der_element tag c \<and>
      hl = length (der_header tag (length c)) \<and> s = out @ s')"
  by (rule any_element_iff)

text \<open>Identifier octets: \<open>parse_asn1_tag\<close> reads each 32-bit tag (three class and
  constructed bits, a number below $2^{29}$) from its one encoding, and nothing else.\<close>

theorem parse_asn1_tag_exact:
  "parse_asn1_tag s = (Some tag, s') \<longleftrightarrow> s = tag_bytes tag @ s'"
  by (simp add: tag.rd_iff)

text \<open>A loop that takes elements off the input until it is empty succeeds exactly on a
  concatenation of DER elements, and what it has read determines the input.\<close>

theorem read_elements_exact:
  "read_all CBS_get_any_asn1 s = Some es \<longleftrightarrow>
    (\<forall>(c, tag) \<in> set es. length c < 2 ^ 32) \<and> s = concat (map (\<lambda>(c, tag). der_element tag c) es)"
  using any_asn1.read_all_iff [of s es] by (simp add: case_prod_unfold)

theorem read_elements_exact_witness:
  "read_all CBS_get_any_asn1 [4, 1, 7, 5, 0] = Some [([7], 4), ([], 5)] \<longleftrightarrow>
    (\<forall>(c, tag) \<in> set [([7 :: u8], 4 :: u32), ([], 5)]. length c < 2 ^ 32) \<and>
    [4, 1, 7, 5, 0] = concat (map (\<lambda>(c, tag). der_element tag c) [([7], 4), ([], 5)])"
  by (rule read_elements_exact)

text \<open>An optional element: present exactly when the next identifier octets are those of
  the tag, absent without consuming anything otherwise; a present one that is cut short or
  not DER is an error, not an absence.\<close>

theorem CBS_get_optional_asn1_exact:
  "CBS_get_optional_asn1 tag s = (Some r, s') \<longleftrightarrow>
    (case r of
       Some c \<Rightarrow> length c < 2 ^ 32 \<and> s = der_element tag c @ s'
     | None \<Rightarrow> s' = s \<and> (\<nexists>t. s = tag_bytes tag @ t))"
  by (cases r) (simp_all add: CBS_get_optional_asn1_iff CBS_peek_asn1_tag_iff)

text \<open>A failing element reader leaves its input where it was.\<close>

theorem CBS_get_any_asn1_element_fails:
  assumes "CBS_get_any_asn1_element s = (None, s')"
  shows "s' = s"
  using assms
  by (auto simp: CBS_get_any_asn1_element_def cbs_get_any_asn1_element_def CBS_get_bytes_def
      and_then_def cbs_get_def Let_def split: prod.splits option.splits if_splits)

theorem CBS_get_any_asn1_element_fails_witness:
  "CBS_get_any_asn1_element [0x30, 0x80, 0, 0] = (None, [0x30, 0x80, 0, 0])"
proof -
  have "fst (CBS_get_any_asn1_element [0x30, 0x80, 0, 0]) = None"
    by (simp add: CBS_get_any_asn1_element_def cbs_get_any_asn1_element_def parse_asn1_tag_def Let_def)
  then obtain s' where s: "CBS_get_any_asn1_element [0x30, 0x80, 0, 0] = (None, s')"
    by (cases "CBS_get_any_asn1_element [0x30, 0x80, 0, 0]") auto
  then show ?thesis using CBS_get_any_asn1_element_fails [OF s] by simp
qed

text \<open>Bits of a valid BIT STRING: \<open>CBS_asn1_bitstring_has_bit\<close> is the bit at that
  position, most significant first, and false past the end.\<close>

theorem CBS_asn1_bitstring_has_bit_exact:
  assumes "CBS_is_valid_asn1_bitstring cbs"
  shows "CBS_asn1_bitstring_has_bit cbs b \<longleftrightarrow>
    unat b < 8 * (length cbs - 1) \<and> bit (tl cbs ! (unat b div 8)) (7 - unat b mod 8)"
  using bitstring_has_bit_iff [OF assms] by (simp add: bitstring_bit_def)

theorem CBS_asn1_bitstring_has_bit_exact_witness:
  "CBS_asn1_bitstring_has_bit [4, 0xa0] 2 \<longleftrightarrow>
    unat (2 :: u32) < 8 * (length [4 :: u8, 0xa0] - 1) \<and>
    bit (tl [4 :: u8, 0xa0] ! (unat (2 :: u32) div 8)) (7 - unat (2 :: u32) mod 8)"
proof (rule CBS_asn1_bitstring_has_bit_exact)
  show "CBS_is_valid_asn1_bitstring [4, 0xa0]" by (simp add: valid_bitstring_iff)
qed

end
