(* ===== verification/Cbb.thy ===== *)
theory Cbb
  imports Cbs "HOL-Library.List_Lexorder"
begin

text \<open>
  \<open>crypto/bytestring/cbb.c\<close>: the writer. A top-level \<open>CBB\<close> owns a buffer; each pending
  child is reached from its parent's \<open>child\<close> pointer, so at any time the objects that share
  one buffer form a chain. The state of the model is the buffer with that chain, and a
  \<open>CBB *\<close> is its depth in the chain: 0 the top-level object, \<open>d + 1\<close> the child of the
  object at depth \<open>d\<close>. An object whose \<open>base\<close> has been reset to \<open>NULL\<close> is one deeper than
  the chain.
  \<open>CBB_discard_child\<close> resets only the immediate child; a deeper descendant then keeps a
  \<open>base\<close> the header forbids using, and is not part of the model's chain.
  A \<open>NULL\<close> buffer and a block of no bytes behave alike and are both \<open>[]\<close>.
\<close>

section \<open>State\<close>

record cbb_buffer =
  cb_buf :: bytes
  cb_len :: nat
  cb_cap :: nat
  cb_can_resize :: bool
  cb_error :: bool

record cbb_child =
  ch_offset :: nat
  ch_pending_len_len :: nat
  ch_pending_is_asn1 :: bool

record cbb =
  cbb_base :: "cbb_buffer option"
  cbb_children :: "cbb_child list"

type_synonym 'a writer = "(cbb, 'a) op"

section \<open>Operations on the buffer\<close>

definition CBB_zero :: cbb where
  "CBB_zero = \<lparr> cbb_base = None, cbb_children = [] \<rparr>"

abbreviation (input) sizeof_cbb_buffer_st :: nat where
  "sizeof_cbb_buffer_st \<equiv> 32"

definition cbb_init :: "heap_env \<Rightarrow> bytes \<Rightarrow> nat \<Rightarrow> unit writer" where
  "cbb_init env buf cap = (\<lambda>cbb.
     case OPENSSL_malloc env sizeof_cbb_buffer_st of
       None \<Rightarrow> (None, cbb)
     | Some _ \<Rightarrow>
         (Some (), cbb \<lparr> cbb_base := Some \<lparr> cb_buf = buf, cb_len = 0, cb_cap = cap,
            cb_can_resize = True, cb_error = False \<rparr> \<rparr>))"

definition CBB_init :: "heap_env \<Rightarrow> nat \<Rightarrow> unit writer" where
  "CBB_init env initial_capacity = (\<lambda>_.
     case OPENSSL_malloc env initial_capacity of
       None \<Rightarrow> if initial_capacity > 0 then (None, CBB_zero)
               else cbb_init env [] initial_capacity CBB_zero
     | Some buf \<Rightarrow> cbb_init env buf initial_capacity CBB_zero)"

definition CBB_init_fixed :: "heap_env \<Rightarrow> bytes \<Rightarrow> nat \<Rightarrow> unit writer" where
  "CBB_init_fixed env buf len = (\<lambda>_.
     case cbb_init env buf len CBB_zero of
       (None, cbb) \<Rightarrow> (None, cbb)
     | (Some _, cbb) \<Rightarrow>
         (Some (), cbb \<lparr> cbb_base := map_option (\<lambda>b. b \<lparr> cb_can_resize := False \<rparr>) (cbb_base cbb) \<rparr>))"

definition CBB_cleanup :: "nat \<Rightarrow> cbb \<Rightarrow> cbb" where
  "CBB_cleanup d cbb = (if d \<noteq> 0 then cbb else cbb \<lparr> cbb_base := None \<rparr>)"

text \<open>The result of \<open>cbb_buffer_reserve\<close> is where \<open>*out\<close> points in the buffer.\<close>

definition cbb_buffer_reserve :: "heap_env \<Rightarrow> nat \<Rightarrow> (cbb_buffer, nat) op" where
  "cbb_buffer_reserve env len = (\<lambda>base.
     let newlen = (cb_len base + len) mod 2 ^ 64
     in if newlen < cb_len base then (None, base \<lparr> cb_error := True \<rparr>)
        else if newlen > cb_cap base then
          (let newcap = cb_cap base * 2 mod 2 ^ 64
           in if \<not> cb_can_resize base then (None, base \<lparr> cb_error := True \<rparr>)
              else
                let newcap = (if newcap < cb_cap base \<or> newcap < newlen then newlen else newcap)
                in case OPENSSL_realloc env (Some (cb_buf base)) newcap of
                     None \<Rightarrow> (None, base \<lparr> cb_error := True \<rparr>)
                   | Some newbuf \<Rightarrow>
                       (Some (cb_len base), base \<lparr> cb_buf := newbuf, cb_cap := newcap \<rparr>))
        else (Some (cb_len base), base))"

definition cbb_buffer_add :: "heap_env \<Rightarrow> nat \<Rightarrow> (cbb_buffer, nat) op" where
  "cbb_buffer_add env len =
     and_then (cbb_buffer_reserve env len)
       (\<lambda>out base. (Some out, base \<lparr> cb_len := cb_len base + len \<rparr>))"

text \<open>The loops that store a length or an integer, from the last byte to the first.\<close>

fun put_be :: "bytes \<Rightarrow> nat \<Rightarrow> nat \<Rightarrow> nat \<Rightarrow> bytes \<times> nat" where
  "put_be buf pos 0 v = (buf, v)"
| "put_be buf pos (Suc i) v = put_be (mem_write buf (pos + i) [of_nat v]) pos i (v div 256)"

definition cbb_buffer_add_u :: "heap_env \<Rightarrow> u64 \<Rightarrow> nat \<Rightarrow> (cbb_buffer, unit) op" where
  "cbb_buffer_add_u env v len_len =
     (if len_len = 0 then ok ()
      else and_then (cbb_buffer_add env len_len) (\<lambda>pos base.
        case put_be (cb_buf base) pos len_len (unat v) of
          (buf, v) \<Rightarrow>
            if v \<noteq> 0 then (None, base \<lparr> cb_buf := buf, cb_error := True \<rparr>)
            else (Some (), base \<lparr> cb_buf := buf \<rparr>)))"

section \<open>Flushing\<close>

text \<open>
  \<open>on_base d m\<close> runs \<open>m\<close> on \<open>cbb->base\<close> of the object at depth \<open>d\<close>, and fails when that
  pointer is \<open>NULL\<close>.
\<close>

definition base_of :: "nat \<Rightarrow> cbb \<Rightarrow> cbb_buffer option" where
  "base_of d cbb = (if d \<le> length (cbb_children cbb) then cbb_base cbb else None)"

definition on_base :: "nat \<Rightarrow> (cbb_buffer, 'a) op \<Rightarrow> 'a writer" where
  "on_base d m = (\<lambda>cbb.
     case base_of d cbb of
       None \<Rightarrow> (None, cbb)
     | Some base \<Rightarrow> (case m base of (r, base) \<Rightarrow> (r, cbb \<lparr> cbb_base := Some base \<rparr>)))"

definition set_error :: "cbb \<Rightarrow> cbb" where
  "set_error cbb = cbb \<lparr> cbb_base := map_option (\<lambda>b. b \<lparr> cb_error := True \<rparr>) (cbb_base cbb) \<rparr>"

text \<open>
  The part of \<open>CBB_flush\<close> after the child has been flushed: \<open>child_start\<close> is where the
  contents begin. The result is whether the length was written.
\<close>

definition asn1_len_len :: "nat \<Rightarrow> nat" where
  "asn1_len_len len =
     (if len > 0xffffff then 5 else if len > 0xffff then 4 else if len > 0xff then 3
      else if len > 0x7f then 2 else 1)"

definition write_length :: "nat \<Rightarrow> nat \<Rightarrow> nat \<Rightarrow> (cbb_buffer, unit) op" where
  "write_length offset pending_len_len len = (\<lambda>base.
     case put_be (cb_buf base) offset pending_len_len len of
       (buf, len) \<Rightarrow>
         if len \<noteq> 0 then (None, base \<lparr> cb_buf := buf \<rparr>)
         else (Some (), base \<lparr> cb_buf := buf \<rparr>))"

definition flush_child :: "heap_env \<Rightarrow> cbb_child \<Rightarrow> nat \<Rightarrow> (cbb_buffer, unit) op" where
  "flush_child env child child_start = (\<lambda>base.
     let len = cb_len base - child_start
     in if ch_pending_is_asn1 child then
          (if len > 0xfffffffe then (None, base)
           else
             let len_len = asn1_len_len len;
                 initial_length_byte = (if len_len = 1 then of_nat len else 0x80 OR of_nat (len_len - 1));
                 len' = (if len_len = 1 then 0 else len);
                 extra_bytes = len_len - 1;
                 set_len = (\<lambda>base.
                   write_length (ch_offset child + 1) (len_len - 1) len'
                     (base \<lparr> cb_buf := mem_write (cb_buf base) (ch_offset child) [initial_length_byte] \<rparr>))
             in if len_len \<noteq> 1 then
                  and_then (cbb_buffer_add env extra_bytes) (\<lambda>_ base.
                    set_len (base \<lparr> cb_buf := mem_write (cb_buf base) (child_start + extra_bytes)
                                (take len (drop child_start (cb_buf base))) \<rparr>)) base
                else set_len base)
        else write_length (ch_offset child) (ch_pending_len_len child) len base)"

function CBB_flush :: "heap_env \<Rightarrow> nat \<Rightarrow> unit writer" where
  "CBB_flush env d cbb =
     (case base_of d cbb of
        None \<Rightarrow> (None, cbb)
      | Some base \<Rightarrow>
          if cb_error base then (None, cbb)
          else if length (cbb_children cbb) \<le> d then (Some (), cbb)
          else
            (let child = cbb_children cbb ! d
             in if ch_pending_len_len child = 0 then (Some (), cbb)
                else
                  let child_start = (ch_offset child + ch_pending_len_len child) mod 2 ^ 64
                  in case CBB_flush env (Suc d) cbb of
                       (None, cbb) \<Rightarrow> (None, set_error cbb)
                     | (Some _, cbb) \<Rightarrow>
                         if child_start < ch_offset child
                            \<or> (case cbb_base cbb of None \<Rightarrow> True | Some b \<Rightarrow> cb_len b < child_start)
                         then (None, set_error cbb)
                         else (case on_base d (flush_child env child child_start) cbb of
                                 (None, cbb) \<Rightarrow> (None, set_error cbb)
                               | (Some _, cbb) \<Rightarrow>
                                   (Some (), cbb \<lparr> cbb_children := take d (cbb_children cbb) \<rparr>))))"
  by pat_completeness auto
termination
  by (relation "measure (\<lambda>(env, d, cbb). length (cbb_children cbb) - d)") auto

declare CBB_flush.simps [simp del]

definition CBB_data_pos :: "nat \<Rightarrow> cbb \<Rightarrow> nat" where
  "CBB_data_pos d cbb =
     (if d = 0 then 0
      else ch_offset (cbb_children cbb ! (d - 1)) + ch_pending_len_len (cbb_children cbb ! (d - 1)))"

definition CBB_len :: "nat \<Rightarrow> cbb \<Rightarrow> nat option" where
  "CBB_len d cbb = map_option (\<lambda>b. cb_len b - CBB_data_pos d cbb) (base_of d cbb)"

definition CBB_data :: "nat \<Rightarrow> cbb \<Rightarrow> bytes option" where
  "CBB_data d cbb =
     map_option (\<lambda>b. take (cb_len b - CBB_data_pos d cbb) (drop (CBB_data_pos d cbb) (cb_buf b)))
       (base_of d cbb)"

text \<open>
  \<open>want_data\<close> and \<open>want_len\<close> say whether \<open>out_data\<close> and \<open>out_len\<close> are given.
\<close>

definition CBB_finish :: "heap_env \<Rightarrow> nat \<Rightarrow> bool \<Rightarrow> bool \<Rightarrow> (bytes \<times> nat) writer" where
  "CBB_finish env d want_data want_len =
     (if d \<noteq> 0 then fail
      else and_then (CBB_flush env d) (\<lambda>_ cbb.
        case cbb_base cbb of
          None \<Rightarrow> (None, cbb)
        | Some base \<Rightarrow>
            if cb_can_resize base \<and> (\<not> want_data \<or> \<not> want_len) then (None, cbb)
            else (Some (cb_buf base, cb_len base), CBB_cleanup d cbb)))"

section \<open>Children\<close>

definition push_child :: "nat \<Rightarrow> nat \<Rightarrow> bool \<Rightarrow> cbb \<Rightarrow> cbb" where
  "push_child offset len_len is_asn1 cbb =
     cbb \<lparr> cbb_children := cbb_children cbb @
       [\<lparr> ch_offset = offset, ch_pending_len_len = len_len, ch_pending_is_asn1 = is_asn1 \<rparr>] \<rparr>"

text \<open>\<open>CBB_flush\<close> has cut the chain at \<open>cbb\<close>, so the new child is its last object.\<close>

definition cbb_add_length_prefixed :: "heap_env \<Rightarrow> nat \<Rightarrow> nat \<Rightarrow> unit writer" where
  "cbb_add_length_prefixed env d len_len =
     and_then (CBB_flush env d) (\<lambda>_.
       and_then (on_base d (and_then (cbb_buffer_add env len_len)
           (\<lambda>pos base. (Some pos, base \<lparr> cb_buf := mem_write (cb_buf base) pos (replicate len_len 0) \<rparr>))))
         (\<lambda>offset cbb. (Some (), push_child offset len_len False cbb)))"

definition CBB_add_u8_length_prefixed :: "heap_env \<Rightarrow> nat \<Rightarrow> unit writer" where
  "CBB_add_u8_length_prefixed env d = cbb_add_length_prefixed env d 1"

definition CBB_add_u16_length_prefixed :: "heap_env \<Rightarrow> nat \<Rightarrow> unit writer" where
  "CBB_add_u16_length_prefixed env d = cbb_add_length_prefixed env d 2"

definition CBB_add_u24_length_prefixed :: "heap_env \<Rightarrow> nat \<Rightarrow> unit writer" where
  "CBB_add_u24_length_prefixed env d = cbb_add_length_prefixed env d 3"

definition CBB_discard_child :: "nat \<Rightarrow> cbb \<Rightarrow> cbb" where
  "CBB_discard_child d cbb =
     (if length (cbb_children cbb) \<le> d then cbb
      else cbb \<lparr> cbb_base := map_option (\<lambda>b. b \<lparr> cb_len := ch_offset (cbb_children cbb ! d) \<rparr>) (cbb_base cbb),
                 cbb_children := take d (cbb_children cbb) \<rparr>)"

section \<open>Appending\<close>

definition CBB_add_bytes :: "heap_env \<Rightarrow> nat \<Rightarrow> bytes \<Rightarrow> unit writer" where
  "CBB_add_bytes env d data =
     and_then (CBB_flush env d) (\<lambda>_. on_base d (and_then (cbb_buffer_add env (length data))
       (\<lambda>dest base. (Some (), base \<lparr> cb_buf := mem_write (cb_buf base) dest data \<rparr>))))"

definition CBB_add_space :: "heap_env \<Rightarrow> nat \<Rightarrow> nat \<Rightarrow> nat writer" where
  "CBB_add_space env d len =
     and_then (CBB_flush env d) (\<lambda>_. on_base d (cbb_buffer_add env len))"

definition CBB_reserve :: "heap_env \<Rightarrow> nat \<Rightarrow> nat \<Rightarrow> nat writer" where
  "CBB_reserve env d len =
     and_then (CBB_flush env d) (\<lambda>_. on_base d (cbb_buffer_reserve env len))"

definition CBB_did_write :: "nat \<Rightarrow> nat \<Rightarrow> unit writer" where
  "CBB_did_write d len = (\<lambda>cbb.
     on_base d (\<lambda>base.
       let newlen = (cb_len base + len) mod 2 ^ 64
       in if d < length (cbb_children cbb) \<or> newlen < cb_len base \<or> newlen > cb_cap base
          then (None, base)
          else (Some (), base \<lparr> cb_len := newlen \<rparr>)) cbb)"

definition CBB_add_u8 :: "heap_env \<Rightarrow> nat \<Rightarrow> u8 \<Rightarrow> unit writer" where
  "CBB_add_u8 env d value =
     and_then (CBB_flush env d) (\<lambda>_. on_base d (cbb_buffer_add_u env (ucast value) 1))"

definition CBB_add_u16 :: "heap_env \<Rightarrow> nat \<Rightarrow> u16 \<Rightarrow> unit writer" where
  "CBB_add_u16 env d value =
     and_then (CBB_flush env d) (\<lambda>_. on_base d (cbb_buffer_add_u env (ucast value) 2))"

definition CBB_add_u16le :: "heap_env \<Rightarrow> nat \<Rightarrow> u16 \<Rightarrow> unit writer" where
  "CBB_add_u16le env d value = CBB_add_u16 env d (CRYPTO_bswap2 value)"

definition CBB_add_u24 :: "heap_env \<Rightarrow> nat \<Rightarrow> u32 \<Rightarrow> unit writer" where
  "CBB_add_u24 env d value =
     and_then (CBB_flush env d) (\<lambda>_. on_base d (cbb_buffer_add_u env (ucast value) 3))"

definition CBB_add_u32 :: "heap_env \<Rightarrow> nat \<Rightarrow> u32 \<Rightarrow> unit writer" where
  "CBB_add_u32 env d value =
     and_then (CBB_flush env d) (\<lambda>_. on_base d (cbb_buffer_add_u env (ucast value) 4))"

definition CBB_add_u32le :: "heap_env \<Rightarrow> nat \<Rightarrow> u32 \<Rightarrow> unit writer" where
  "CBB_add_u32le env d value = CBB_add_u32 env d (CRYPTO_bswap4 value)"

definition CBB_add_u64 :: "heap_env \<Rightarrow> nat \<Rightarrow> u64 \<Rightarrow> unit writer" where
  "CBB_add_u64 env d value =
     and_then (CBB_flush env d) (\<lambda>_. on_base d (cbb_buffer_add_u env value 8))"

definition CBB_add_u64le :: "heap_env \<Rightarrow> nat \<Rightarrow> u64 \<Rightarrow> unit writer" where
  "CBB_add_u64le env d value = CBB_add_u64 env d (CRYPTO_bswap8 value)"

section \<open>ASN.1\<close>

text \<open>\<open>base128_len copy\<close> is the loop that counts the seven-bit groups of \<open>copy\<close>.\<close>

function base128_len :: "u64 \<Rightarrow> nat" where
  "base128_len copy = (if copy > 0 then Suc (base128_len (drop_bit 7 copy)) else 0)"
  by pat_completeness auto
termination
proof (relation "measure unat")
  fix copy :: u64 assume "copy > 0"
  then have "0 < unat copy" by (simp add: word_less_nat_alt)
  then show "(drop_bit 7 copy, copy) \<in> measure unat" by (simp add: unat_drop_bit)
qed simp

declare base128_len.simps [simp del]

fun add_base128_loop :: "heap_env \<Rightarrow> nat \<Rightarrow> u64 \<Rightarrow> nat \<Rightarrow> unit writer" where
  "add_base128_loop env d v 0 = ok ()"
| "add_base128_loop env d v (Suc i) =
     (let byte = ucast (drop_bit (7 * i) v) AND 0x7f;
          byte = (if i \<noteq> 0 then byte OR 0x80 else byte)
      in and_then (CBB_add_u8 env d byte) (\<lambda>_. add_base128_loop env d v i))"

definition add_base128_integer :: "heap_env \<Rightarrow> nat \<Rightarrow> u64 \<Rightarrow> unit writer" where
  "add_base128_integer env d v =
     (let len_len = base128_len v;
          len_len = (if len_len = 0 then 1 else len_len)
      in add_base128_loop env d v len_len)"

definition CBB_add_asn1 :: "heap_env \<Rightarrow> nat \<Rightarrow> u32 \<Rightarrow> unit writer" where
  "CBB_add_asn1 env d tag =
     and_then (CBB_flush env d) (\<lambda>_.
       let tag_bits = ucast (drop_bit CBS_ASN1_TAG_SHIFT tag AND 0xe0) :: u8;
           tag_number = tag AND CBS_ASN1_TAG_NUMBER_MASK
       in and_then
            (if tag_number \<ge> 0x1f then
               and_then (CBB_add_u8 env d (tag_bits OR 0x1f))
                 (\<lambda>_. add_base128_integer env d (ucast tag_number))
             else CBB_add_u8 env d (tag_bits OR ucast tag_number))
            (\<lambda>_ cbb.
               case base_of d cbb of
                 None \<Rightarrow> (None, cbb)
               | Some base \<Rightarrow>
                   and_then (CBB_add_u8 env d 0)
                     (\<lambda>_ cbb. (Some (), push_child (cb_len base) 1 True cbb)) cbb))"

fun add_asn1_uint64_loop :: "heap_env \<Rightarrow> nat \<Rightarrow> u64 \<Rightarrow> nat list \<Rightarrow> bool \<Rightarrow> bool writer" where
  "add_asn1_uint64_loop env d value [] started = ok started"
| "add_asn1_uint64_loop env d value (i # is) started =
     (let byte = ucast (drop_bit (8 * (7 - i)) value) :: u8
      in if \<not> started \<and> byte = 0 then add_asn1_uint64_loop env d value is started
         else
           and_then
             (if \<not> started \<and> byte AND 0x80 \<noteq> 0 then CBB_add_u8 env d 0 else ok ())
             (\<lambda>_. and_then (CBB_add_u8 env d byte)
               (\<lambda>_. add_asn1_uint64_loop env d value is True)))"

definition CBB_add_asn1_uint64 :: "heap_env \<Rightarrow> nat \<Rightarrow> u64 \<Rightarrow> unit writer" where
  "CBB_add_asn1_uint64 env d value =
     and_then (CBB_add_asn1 env d CBS_ASN1_INTEGER) (\<lambda>_.
       and_then (add_asn1_uint64_loop env (Suc d) value [0 ..< 8] False) (\<lambda>started.
         and_then (if \<not> started then CBB_add_u8 env (Suc d) 0 else ok ())
           (\<lambda>_. CBB_flush env d)))"

text \<open>\<open>u.bytes\<close> of the union is the value's little-endian bytes.\<close>

fun int64_start :: "bytes \<Rightarrow> nat \<Rightarrow> nat" where
  "int64_start u 0 = 0"
| "int64_start u (Suc start) =
     (if u ! Suc start = 0xff \<and> u ! start AND 0x80 \<noteq> 0 then int64_start u start else Suc start)"

fun add_bytes_down :: "heap_env \<Rightarrow> nat \<Rightarrow> bytes \<Rightarrow> nat \<Rightarrow> unit writer" where
  "add_bytes_down env d u 0 = CBB_add_u8 env d (u ! 0)"
| "add_bytes_down env d u (Suc i) =
     and_then (CBB_add_u8 env d (u ! Suc i)) (\<lambda>_. add_bytes_down env d u i)"

definition CBB_add_asn1_int64 :: "heap_env \<Rightarrow> nat \<Rightarrow> u64 \<Rightarrow> unit writer" where
  "CBB_add_asn1_int64 env d value =
     (if sint value \<ge> 0 then CBB_add_asn1_uint64 env d value
      else
        let u = le_bytes 8 (unat value);
            start = int64_start u 7
        in and_then (CBB_add_asn1 env d CBS_ASN1_INTEGER) (\<lambda>_.
             and_then (add_bytes_down env (Suc d) u start) (\<lambda>_. CBB_flush env d)))"

definition CBB_add_asn1_octet_string :: "heap_env \<Rightarrow> nat \<Rightarrow> bytes \<Rightarrow> unit writer" where
  "CBB_add_asn1_octet_string env d data =
     and_then (CBB_add_asn1 env d CBS_ASN1_OCTETSTRING) (\<lambda>_.
       and_then (CBB_add_bytes env (Suc d) data) (\<lambda>_. CBB_flush env d))"

definition CBB_add_asn1_bool :: "heap_env \<Rightarrow> nat \<Rightarrow> bool \<Rightarrow> unit writer" where
  "CBB_add_asn1_bool env d value =
     and_then (CBB_add_asn1 env d CBS_ASN1_BOOLEAN) (\<lambda>_.
       and_then (CBB_add_u8 env (Suc d) (if value then 0xff else 0)) (\<lambda>_. CBB_flush env d))"

text \<open>
  \<open>parse_dotted_decimal\<close>: the \<open>CBS\<close> and \<open>*out\<close> are the state of the loop. \<open>None\<close> is the
  return of 0; a loop that breaks returns whether it saw a digit.
\<close>

fun parse_dotted_decimal_loop :: "u64 \<Rightarrow> bool \<Rightarrow> u64 reader" where
  "parse_dotted_decimal_loop out seen_digit [] = (if seen_digit then (Some out, []) else (None, []))"
| "parse_dotted_decimal_loop out seen_digit (u # cbs) =
     (if u = 0x2e \<and> CBS_len cbs > 0 then (if seen_digit then (Some out, cbs) else (None, cbs))
      else if u < 0x30 \<or> u > 0x39 \<or> (seen_digit \<and> out = 0)
              \<or> out > (- 1) div 10 \<or> out * 10 > (- 1) - (ucast u - 0x30)
      then (None, cbs)
      else parse_dotted_decimal_loop (out * 10 + (ucast u - 0x30)) True cbs)"

definition parse_dotted_decimal :: "u64 reader" where
  "parse_dotted_decimal = parse_dotted_decimal_loop 0 False"

text \<open>The loop over the remaining components; each consumes at least one byte.\<close>

fun add_oid_components :: "nat \<Rightarrow> heap_env \<Rightarrow> nat \<Rightarrow> cbs \<Rightarrow> unit writer" where
  "add_oid_components fuel env d text =
     (if CBS_len text = 0 then ok ()
      else case fuel of
             0 \<Rightarrow> fail
           | Suc fuel \<Rightarrow>
               (case parse_dotted_decimal text of
                  (None, _) \<Rightarrow> fail
                | (Some a, rest) \<Rightarrow>
                    and_then (add_base128_integer env d a)
                      (\<lambda>_. add_oid_components fuel env d rest)))"

declare add_oid_components.simps [simp del]

definition CBB_add_asn1_oid_from_text :: "heap_env \<Rightarrow> nat \<Rightarrow> bytes \<Rightarrow> unit writer" where
  "CBB_add_asn1_oid_from_text env d text =
     and_then (CBB_flush env d) (\<lambda>_.
       case parse_dotted_decimal text of
         (None, _) \<Rightarrow> fail
       | (Some a, rest) \<Rightarrow>
           (case parse_dotted_decimal rest of
              (None, _) \<Rightarrow> fail
            | (Some b, rest) \<Rightarrow>
                if a > 2 \<or> (a < 2 \<and> b > 39) \<or> b > (- 1) - 80 then fail
                else and_then (add_base128_integer env d (40 * a + b))
                       (\<lambda>_. add_oid_components (length rest) env d rest)))"

section \<open>SET OF\<close>

fun mem_compare :: "bytes \<Rightarrow> bytes \<Rightarrow> int" where
  "mem_compare (a # as) (b # bs) =
     (if a < b then -1 else if b < a then 1 else mem_compare as bs)"
| "mem_compare _ _ = 0"

definition compare_set_of_element :: "cbs \<Rightarrow> cbs \<Rightarrow> int" where
  "compare_set_of_element a b =
     (let min_len = (if CBS_len a < CBS_len b then CBS_len a else CBS_len b);
          ret = mem_compare (take min_len a) (take min_len b)
      in if ret \<noteq> 0 then ret
         else if CBS_len a = CBS_len b then 0
         else if CBS_len a < CBS_len b then -1 else 1)"

fun add_all :: "heap_env \<Rightarrow> nat \<Rightarrow> bytes list \<Rightarrow> unit writer" where
  "add_all env d [] = ok ()"
| "add_all env d (c # cs) = and_then (CBB_add_bytes env d c) (\<lambda>_. add_all env d cs)"

abbreviation (input) sizeof_CBS :: nat where "sizeof_CBS \<equiv> 16"

definition CBB_flush_asn1_set_of :: "heap_env \<Rightarrow> nat \<Rightarrow> unit writer" where
  "CBB_flush_asn1_set_of env d =
     and_then (CBB_flush env d) (\<lambda>_ cbb.
       case CBB_data d cbb of
         None \<Rightarrow> (None, cbb)
       | Some data \<Rightarrow>
           (case read_all CBS_get_any_asn1_element data of
              None \<Rightarrow> (None, cbb)
            | Some elements \<Rightarrow>
                let num_children = length elements
                in if num_children < 2 then (Some (), cbb)
                   else if num_children > SIZE_MAX div sizeof_CBS then (None, cbb)
                   else
                     (case (OPENSSL_memdup env data, OPENSSL_malloc env (num_children * sizeof_CBS)) of
                        (Some buf, Some _) \<Rightarrow>
                          (case read_all CBS_get_any_asn1_element buf of
                             None \<Rightarrow> (None, cbb)
                           | Some elements \<Rightarrow>
                               add_all env d (qsort compare_set_of_element (map fst elements))
                                 (cbb \<lparr> cbb_base := map_option (\<lambda>b. b \<lparr> cb_len := CBB_data_pos d cbb \<rparr>)
                                                   (cbb_base cbb) \<rparr>))
                      | _ \<Rightarrow> (None, cbb))))"

section \<open>The buffer's contract\<close>

definition buffer_ok :: "cbb_buffer \<Rightarrow> bool" where
  "buffer_ok b \<longleftrightarrow> length (cb_buf b) = cb_cap b \<and> cb_len b \<le> cb_cap b \<and> cb_cap b < 2 ^ 62 \<and>
     \<not> cb_error b"

definition contents :: "cbb_buffer \<Rightarrow> bytes" where
  "contents b = take (cb_len b) (cb_buf b)"

text \<open>\<open>room env b n\<close>: the buffer can come to hold \<open>n\<close> bytes.\<close>

definition room :: "heap_env \<Rightarrow> cbb_buffer \<Rightarrow> nat \<Rightarrow> bool" where
  "room env b n \<longleftrightarrow>
     n \<le> cb_cap b \<or> (cb_can_resize b \<and> n < 2 ^ 60 \<and> (\<forall>m \<le> 2 * n + 8. can_alloc env m))"

definition grown :: "cbb_buffer \<Rightarrow> cbb_buffer \<Rightarrow> bool" where
  "grown b b' \<longleftrightarrow> cb_can_resize b' = cb_can_resize b \<and> cb_cap b \<le> cb_cap b'"

lemma grown_refl [simp]: "grown b b"
  by (simp add: grown_def)

lemma grown_trans: "grown a b \<Longrightarrow> grown b c \<Longrightarrow> grown a c"
  by (auto simp: grown_def)

lemma room_mono: "room env b n \<Longrightarrow> m \<le> n \<Longrightarrow> room env b m"
  by (auto simp: room_def)

lemma room_grown: "room env b n \<Longrightarrow> grown b b' \<Longrightarrow> room env b' n"
  by (auto simp: room_def grown_def)

lemma length_contents: "buffer_ok b \<Longrightarrow> length (contents b) = cb_len b"
  by (simp add: buffer_ok_def contents_def)

lemma cbb_buffer_reserve_cases:
  assumes b: "buffer_ok b" and h: "heap_bounded env" and n: "n < 2 ^ 62"
  obtains (Room) b' where "cbb_buffer_reserve env n b = (Some (cb_len b), b')"
      "buffer_ok b'" "grown b b'" "contents b' = contents b" "cb_len b' = cb_len b"
      "cb_len b + n \<le> cb_cap b'"
  | (Full) "cbb_buffer_reserve env n b = (None, b \<lparr> cb_error := True \<rparr>)"
      "\<not> room env b (cb_len b + n)"
proof -
  have B: "length (cb_buf b) = cb_cap b" "cb_len b \<le> cb_cap b" "cb_cap b < 2 ^ 62" "\<not> cb_error b"
    using b by (simp_all add: buffer_ok_def)
  have w: "(cb_len b + n) mod 2 ^ 64 = cb_len b + n" using B n by simp
  consider "cb_len b + n \<le> cb_cap b"
    | "cb_cap b < cb_len b + n" "\<not> cb_can_resize b" | "cb_cap b < cb_len b + n" "cb_can_resize b"
    by linarith
  then show ?thesis
  proof cases
    case 1
    then show ?thesis using B b w by (intro Room [of b]) (simp_all add: cbb_buffer_reserve_def)
  next
    case 2
    then show ?thesis using B w by (intro Full) (simp_all add: cbb_buffer_reserve_def room_def)
  next
    case 3
    let ?cap = "max (cb_cap b * 2) (cb_len b + n)"
    have w2: "cb_cap b * 2 mod 2 ^ 64 = cb_cap b * 2" using B by simp
    have cap: "(if cb_cap b * 2 < cb_cap b \<or> cb_cap b * 2 < cb_len b + n then cb_len b + n else cb_cap b * 2) = ?cap"
      by auto
    have c63: "?cap < 2 ^ 63" using B n by simp
    show ?thesis
    proof (cases "OPENSSL_realloc env (Some (cb_buf b)) ?cap")
      case None
      have "\<not> room env b (cb_len b + n)"
      proof
        assume "room env b (cb_len b + n)"
        then have "can_alloc env (?cap + 8)" using 3 by (auto simp: room_def)
        then show False using None c63
          by (simp add: OPENSSL_realloc_def OPENSSL_malloc_eq Let_def)
      qed
      moreover have "cbb_buffer_reserve env n b = (None, b \<lparr> cb_error := True \<rparr>)"
        using 3 None unfolding cbb_buffer_reserve_def Let_def w w2 cap by simp
      ultimately show ?thesis by (rule Full [rotated])
    next
      case (Some nb)
      then obtain blk where "OPENSSL_malloc env ?cap = Some blk"
        by (auto simp: OPENSSL_realloc_def split: option.splits)
      then have c62: "?cap < 2 ^ 62" using h c63 by (rule OPENSSL_malloc_bounded [rotated 2])
      then have nb: "length nb = ?cap" "take (cb_cap b) nb = cb_buf b"
        using OPENSSL_realloc_Some [OF Some] B by simp_all
      have t: "take (cb_len b) nb = take (cb_len b) (cb_buf b)"
        using nb(2) B(2) by (metis min.absorb1 take_take)
      let ?b = "b \<lparr> cb_buf := nb, cb_cap := ?cap \<rparr>"
      have "cbb_buffer_reserve env n b = (Some (cb_len b), ?b)"
        using 3 Some unfolding cbb_buffer_reserve_def Let_def w w2 cap by simp
      then show ?thesis
        by (rule Room) (use B nb c62 t in \<open>auto simp: buffer_ok_def grown_def contents_def\<close>)
    qed
  qed
qed

lemma cbb_buffer_add_cases:
  assumes b: "buffer_ok b" and h: "heap_bounded env" and n: "n < 2 ^ 62"
  obtains (Room) b' where "cbb_buffer_add env n b = (Some (cb_len b), b')"
      "buffer_ok b'" "grown b b'" "take (cb_len b) (cb_buf b') = contents b" "cb_len b' = cb_len b + n"
  | (Full) "cbb_buffer_add env n b = (None, b \<lparr> cb_error := True \<rparr>)"
      "\<not> room env b (cb_len b + n)"
proof (cases rule: cbb_buffer_reserve_cases [OF assms])
  case (1 b')
  show ?thesis
    by (rule Room [of "b' \<lparr> cb_len := cb_len b + n \<rparr>"])
      (use 1 in \<open>auto simp: cbb_buffer_add_def buffer_ok_def grown_def contents_def\<close>)
next
  case 2
  then show ?thesis by (intro Full) (simp_all add: cbb_buffer_add_def)
qed

text \<open>
  An operation on the buffer appends \<open>x\<close>: it does when it succeeds, and it fails only for
  want of room.
\<close>

definition appends :: "heap_env \<Rightarrow> (cbb_buffer, 'a) op \<Rightarrow> bytes \<Rightarrow> bool" where
  "appends env m x \<longleftrightarrow> (\<forall>b. buffer_ok b \<longrightarrow>
     (case m b of
        (Some _, b') \<Rightarrow> buffer_ok b' \<and> grown b b' \<and> contents b' = contents b @ x
      | (None, b') \<Rightarrow> cb_error b' \<and> \<not> room env b (cb_len b + length x)))"

lemma put_be_eq:
  "pos + n \<le> length buf \<Longrightarrow> put_be buf pos n v = (mem_write buf pos (be_bytes n v), v div 256 ^ n)"
proof (induction n arbitrary: buf v)
  case (Suc n)
  have "mem_write (mem_write buf (pos + n) [of_nat v]) pos (be_bytes n (v div 256)) =
      mem_write buf pos (be_bytes n (v div 256) @ [of_nat v])"
    using Suc.prems by (simp add: mem_write_def min_def drop_append)
  then show ?case using Suc by (simp add: div_mult2_eq)
qed simp

lemma appends_write:
  assumes h: "heap_bounded env" and x: "length x < 2 ^ 62"
  shows "appends env (and_then (cbb_buffer_add env (length x))
    (\<lambda>pos base. (Some (f pos base), base \<lparr> cb_buf := mem_write (cb_buf base) pos x \<rparr>))) x"
  unfolding appends_def
proof (intro allI impI)
  fix b assume b: "buffer_ok b"
  show "case and_then (cbb_buffer_add env (length x))
      (\<lambda>pos base. (Some (f pos base), base \<lparr> cb_buf := mem_write (cb_buf base) pos x \<rparr>)) b of
      (Some _, b') \<Rightarrow> buffer_ok b' \<and> grown b b' \<and> contents b' = contents b @ x
    | (None, b') \<Rightarrow> cb_error b' \<and> \<not> room env b (cb_len b + length x)"
  proof (cases rule: cbb_buffer_add_cases [OF b h x])
    case (1 b')
    then show ?thesis
      by (auto simp: buffer_ok_def grown_def contents_def take_mem_write_all)
  qed simp
qed

lemma cbb_buffer_add_u_eq:
  assumes h: "heap_bounded env" and n: "0 < n" "n \<le> 8" and v: "unat v < 256 ^ n" and b: "buffer_ok b"
  shows "cbb_buffer_add_u env v n b =
    and_then (cbb_buffer_add env n)
      (\<lambda>pos base. (Some (), base \<lparr> cb_buf := mem_write (cb_buf base) pos (be_bytes n (unat v)) \<rparr>)) b"
proof (cases rule: cbb_buffer_add_cases [OF b h, of n])
  case (2 b')
  then have "cb_len b + n \<le> length (cb_buf b')" by (simp add: buffer_ok_def)
  then show ?thesis using 2 n v by (simp add: cbb_buffer_add_u_def put_be_eq)
qed (use n in \<open>simp_all add: cbb_buffer_add_u_def\<close>)

lemma appends_add_u:
  assumes h: "heap_bounded env" and n: "0 < n" "n \<le> 8" and v: "unat v < 256 ^ n"
  shows "appends env (cbb_buffer_add_u env v n) (be_bytes n (unat v))"
  using appends_write [OF h, of "be_bytes n (unat v)" "\<lambda>_ _. ()"] n cbb_buffer_add_u_eq [OF h n v]
  by (simp add: appends_def)


section \<open>Pending prefixes\<close>

text \<open>
  The abstract writer: the bytes in front, then one frame for each pending child, with its
  kind of prefix and the bytes written to it so far. Flushing closes frames from the
  innermost outwards; it fails when some contents are too long for their prefix.
\<close>

datatype pending_prefix = Fixed nat | Asn1

type_synonym frames = "(pending_prefix \<times> bytes) list"

fun prefix_len :: "pending_prefix \<Rightarrow> nat" where
  "prefix_len (Fixed n) = n"
| "prefix_len Asn1 = 1"

fun close_frame :: "pending_prefix \<Rightarrow> bytes \<Rightarrow> bytes option" where
  "close_frame (Fixed n) c = (if length c < 256 ^ n then Some (be_bytes n (length c) @ c) else None)"
| "close_frame Asn1 c = (if length c \<le> 0xfffffffe then Some (der_length (length c) @ c) else None)"

fun close_frames :: "frames \<Rightarrow> bytes option" where
  "close_frames [] = Some []"
| "close_frames ((p, y) # fs) =
     (case close_frames fs of None \<Rightarrow> None | Some t \<Rightarrow> close_frame p (y @ t))"

fun frames_bytes :: "frames \<Rightarrow> bytes" where
  "frames_bytes [] = []"
| "frames_bytes ((p, y) # fs) = replicate (prefix_len p) 0 @ y @ frames_bytes fs"

definition child_record :: "nat \<Rightarrow> pending_prefix \<Rightarrow> cbb_child" where
  "child_record offset p =
     \<lparr> ch_offset = offset, ch_pending_len_len = prefix_len p, ch_pending_is_asn1 = (p = Asn1) \<rparr>"

fun child_records :: "nat \<Rightarrow> frames \<Rightarrow> cbb_child list" where
  "child_records offset [] = []"
| "child_records offset ((p, y) # fs) =
     child_record offset p # child_records (offset + prefix_len p + length y) fs"

text \<open>
  \<open>writer_at d cbb P fs\<close>: the object at depth \<open>d\<close> is valid, \<open>P\<close> are the bytes in the
  buffer up to its pending children and \<open>fs\<close> are those children.
\<close>

definition writer_at :: "nat \<Rightarrow> cbb \<Rightarrow> bytes \<Rightarrow> frames \<Rightarrow> bool" where
  "writer_at d cbb P fs \<longleftrightarrow>
     (case cbb_base cbb of
        None \<Rightarrow> False
      | Some b \<Rightarrow> buffer_ok b \<and> contents b = P @ frames_bytes fs) \<and>
     d \<le> length (cbb_children cbb) \<and>
     drop d (cbb_children cbb) = child_records (length P) fs \<and>
     (\<forall>(p, y) \<in> set fs. 0 < prefix_len p)"

definition cbb_room :: "heap_env \<Rightarrow> cbb \<Rightarrow> nat \<Rightarrow> bool" where
  "cbb_room env cbb n = (case cbb_base cbb of None \<Rightarrow> False | Some b \<Rightarrow> room env b n)"

definition cbb_grown :: "cbb \<Rightarrow> cbb \<Rightarrow> bool" where
  "cbb_grown cbb cbb' =
     (case (cbb_base cbb, cbb_base cbb') of (Some b, Some b') \<Rightarrow> grown b b' | _ \<Rightarrow> False)"

definition cbb_failed :: "cbb \<Rightarrow> bool" where
  "cbb_failed cbb = (case cbb_base cbb of None \<Rightarrow> True | Some b \<Rightarrow> cb_error b)"

text \<open>
  The contract of every operation that adds \<open>x\<close> to the object at depth \<open>d\<close>: it closes the
  pending children and puts \<open>x\<close> behind them; it fails only when a child's contents do not
  fit its prefix or there is no room, and then the error is recorded.
\<close>

definition writes :: "heap_env \<Rightarrow> nat \<Rightarrow> 'a writer \<Rightarrow> bytes \<Rightarrow> bool" where
  "writes env d m x \<longleftrightarrow> (\<forall>cbb P fs. writer_at d cbb P fs \<longrightarrow>
     (case m cbb of
        (Some _, cbb') \<Rightarrow>
          (\<exists>t. close_frames fs = Some t \<and> writer_at d cbb' (P @ t @ x) [] \<and>
             cbb_children cbb' = take d (cbb_children cbb) \<and> cbb_grown cbb cbb')
      | (None, cbb') \<Rightarrow>
          cbb_failed cbb' \<and>
          (\<forall>t. close_frames fs = Some t \<longrightarrow> \<not> cbb_room env cbb (length (P @ t @ x)))))"

lemma asn1_len_len_eq: "n < 2 ^ 32 \<Longrightarrow> asn1_len_len n = (if n < 128 then 1 else Suc (len_octets n))"
  by (simp add: asn1_len_len_def len_octets_def)

lemma der_length_initial:
  "\<not> n < 128 \<Longrightarrow> der_length n = (0x80 OR of_nat (len_octets n)) # be_bytes (len_octets n) n"
proof -
  assume n: "\<not> n < 128"
  have "len_octets n \<in> {1, 2, 3, 4}" by (simp add: len_octets_def)
  then have "(0x80 OR of_nat (len_octets n)) = (of_nat (128 + len_octets n) :: u8)" by auto
  then show ?thesis using n by (simp add: der_length_def)
qed

lemma mem_write_middle:
  "length A = pos \<Longrightarrow> length x = length m \<Longrightarrow> mem_write (A @ m @ z) pos x = A @ x @ z"
  by (simp add: mem_write_def)

lemma flush_child_result:
  assumes h: "heap_bounded env" and b: "buffer_ok b"
    and c: "contents b = P @ replicate (prefix_len p) 0 @ c"
  shows "case flush_child env (child_record (length P) p) (length P + prefix_len p) b of
      (Some _, b') \<Rightarrow> \<exists>e. close_frame p c = Some e \<and> buffer_ok b' \<and> grown b b' \<and> contents b' = P @ e
    | (None, b') \<Rightarrow> \<forall>e. close_frame p c = Some e \<longrightarrow> \<not> room env b (length P + length e)"
proof -
  define z where "z = drop (cb_len b) (cb_buf b)"
  have buf: "cb_buf b = P @ replicate (prefix_len p) 0 @ c @ z"
    using c unfolding z_def contents_def by (metis append_take_drop_id append.assoc)
  have len: "cb_len b = length P + prefix_len p + length c"
    using length_contents [OF b] c by simp
  show ?thesis
  proof (cases p)
    case (Fixed n)
    have l: "cb_len b - (length P + n) = length c" using len Fixed by simp
    have p: "put_be (cb_buf b) (length P) n (length c) =
        (P @ be_bytes n (length c) @ c @ z, length c div 256 ^ n)"
      using buf Fixed by (subst put_be_eq) (simp_all add: mem_write_middle)
    have z: "length c div 256 ^ n = 0 \<longleftrightarrow> length c < 256 ^ n" by (simp add: div_eq_0_iff)
    have fl: "flush_child env (child_record (length P) p) (length P + prefix_len p) b =
        (if length c < 256 ^ n then Some () else None,
         b \<lparr> cb_buf := P @ be_bytes n (length c) @ c @ z \<rparr>)"
      using Fixed by (simp add: flush_child_def child_record_def write_length_def l p z del: length_greater_0_conv)
    show ?thesis
      using b len buf Fixed unfolding fl
      by (auto simp: buffer_ok_def grown_def contents_def)
  next
    case Asn1
    have l: "cb_len b - (length P + 1) = length c" using len Asn1 by simp
    consider "length c > 0xfffffffe" | "length c < 128" | "length c \<le> 0xfffffffe" "\<not> length c < 128"
      by linarith
    then show ?thesis
    proof cases
      case 1
      then show ?thesis using Asn1 l by (simp add: flush_child_def child_record_def)
    next
      case 2
      then have a: "asn1_len_len (length c) = 1" by (simp add: asn1_len_len_def)
      show ?thesis using 2 b len buf Asn1 l a
        by (auto simp: flush_child_def child_record_def write_length_def buffer_ok_def
            grown_def contents_def der_length_def mem_write_def Let_def)
    next
      case 3
      let ?k = "len_octets (length c)"
      have a: "asn1_len_len (length c) = Suc ?k" using 3 by (simp add: asn1_len_len_eq)
      have k: "1 \<le> ?k" "?k \<le> 4" using len_octets_range by auto
      have up: "length c div 256 ^ ?k = 0" using len_octets_upper [of "length c"] 3 by (simp add: div_eq_0_iff)
      have e: "close_frame p c = Some ((0x80 OR of_nat ?k) # be_bytes ?k (length c) @ c)"
        using 3 Asn1 by (simp add: der_length_initial)
      have k62: "?k < 2 ^ 62" using k by simp
      have fl: "flush_child env (child_record (length P) p) (length P + prefix_len p) b =
          and_then (cbb_buffer_add env ?k) (\<lambda>_ base. write_length (length P + 1) ?k (length c)
            (base \<lparr> cb_buf := mem_write (mem_write (cb_buf base) (length P + 1 + ?k)
                (take (length c) (drop (length P + 1) (cb_buf base)))) (length P)
                [0x80 OR of_nat ?k] \<rparr>)) b"
        using 3 k l unfolding flush_child_def Let_def by (simp add: child_record_def Asn1 a)
      show ?thesis
      proof (cases rule: cbb_buffer_add_cases [OF b h k62])
        case (1 b')
        define w where "w = drop (cb_len b) (cb_buf b')"
        have buf': "cb_buf b' = P @ [0] @ c @ w"
          using append_take_drop_id [of "cb_len b" "cb_buf b'"] 1(4) c Asn1 unfolding w_def by simp
        have w: "?k \<le> length w" using 1(2,5) unfolding w_def buffer_ok_def by (simp add: le_diff_conv2)
        define u where "u = drop ?k w"
        define q where "q = take ?k (c @ w)"
        have q: "length q = ?k" using w by (simp add: q_def)
        have t: "take (length c) (drop (length P + 1) (cb_buf b')) = c" by (simp add: buf')
        have mv: "mem_write (cb_buf b') (length P + 1 + ?k) c = P @ [0] @ q @ c @ u"
          unfolding mem_write_def u_def q_def buf' by (simp add: add.commute)
        have "mem_write (P @ [0] @ q @ c @ u) (length P) [0x80 OR of_nat ?k] =
            P @ [0x80 OR of_nat ?k] @ q @ c @ u"
          by (rule mem_write_middle) simp_all
        moreover have "mem_write ((P @ [0x80 OR of_nat ?k]) @ q @ c @ u) (length P + 1)
              (be_bytes ?k (length c)) = (P @ [0x80 OR of_nat ?k]) @ be_bytes ?k (length c) @ c @ u"
          using q by (intro mem_write_middle) simp_all
        moreover have "length P + 1 + ?k \<le> length (P @ [0x80 OR of_nat ?k] @ q @ c @ u)"
          using q by simp
        ultimately have pb: "put_be (mem_write (mem_write (cb_buf b') (length P + 1 + ?k) c) (length P)
              [0x80 OR of_nat ?k]) (length P + 1) ?k (length c) =
            (P @ [0x80 OR of_nat ?k] @ be_bytes ?k (length c) @ c @ u, 0)"
          unfolding mv using up by (simp add: put_be_eq)
        have lu: "length (P @ [0x80 OR of_nat ?k] @ be_bytes ?k (length c) @ c @ u) = length (cb_buf b')"
          using w unfolding u_def buf' by simp
        have "flush_child env (child_record (length P) p) (length P + prefix_len p) b =
            (Some (), b' \<lparr> cb_buf := P @ [0x80 OR of_nat ?k] @ be_bytes ?k (length c) @ c @ u \<rparr>)"
          using 1(1) unfolding fl by (simp add: t [simplified] pb [simplified] write_length_def)
        then show ?thesis using 1 lu e len Asn1
          by (auto simp: buffer_ok_def grown_def contents_def)
      next
        case 2
        have "room env b (length P + length ((0x80 OR of_nat ?k) # be_bytes ?k (length c) @ c)) \<Longrightarrow> False"
          using 2(2) len Asn1 by (simp add: add_ac)
        then show ?thesis using 2(1) e unfolding fl by auto
      qed
    qed
  qed
qed


lemma CBB_flush_here:
  "writer_at d cbb P [] \<Longrightarrow> CBB_flush env d cbb = (Some (), cbb)"
  by (auto simp: CBB_flush.simps [of env d] writer_at_def base_of_def buffer_ok_def split: option.splits)

lemma CBB_flush_child:
  assumes w: "writer_at d cbb P ((p, y) # fs)"
  shows "CBB_flush env d cbb =
    (case CBB_flush env (Suc d) cbb of
       (None, cbb) \<Rightarrow> (None, set_error cbb)
     | (Some _, cbb) \<Rightarrow>
         if (case cbb_base cbb of None \<Rightarrow> True | Some b \<Rightarrow> cb_len b < length P + prefix_len p)
         then (None, set_error cbb)
         else (case on_base d (flush_child env (child_record (length P) p) (length P + prefix_len p)) cbb of
                 (None, cbb) \<Rightarrow> (None, set_error cbb)
               | (Some _, cbb) \<Rightarrow> (Some (), cbb \<lparr> cbb_children := take d (cbb_children cbb) \<rparr>)))"
proof -
  obtain b where b: "cbb_base cbb = Some b" "buffer_ok b"
    and c: "contents b = P @ frames_bytes ((p, y) # fs)"
    and d: "d \<le> length (cbb_children cbb)"
    and ch: "drop d (cbb_children cbb) = child_records (length P) ((p, y) # fs)" and p: "0 < prefix_len p"
    using w by (auto simp: writer_at_def split: option.splits)
  have lt: "\<not> length (cbb_children cbb) \<le> d" using ch d by (metis child_records.simps(2) drop_all list.distinct(1))
  have rec: "cbb_children cbb ! d = child_record (length P) p"
    using ch lt by (metis Cons_nth_drop_Suc child_records.simps(2) linorder_not_le list.inject)
  have "length P + prefix_len p \<le> cb_len b" using length_contents [OF b(2)] c by simp
  then have m: "(length P + prefix_len p) mod 2 ^ 64 = length P + prefix_len p"
    using b(2) by (simp add: buffer_ok_def)
  have f: "ch_offset (child_record (length P) p) = length P"
    "ch_pending_len_len (child_record (length P) p) = prefix_len p" by (simp_all add: child_record_def)
  have bo: "base_of d cbb = Some b" "\<not> cb_error b" using b d by (simp_all add: base_of_def buffer_ok_def)
  show ?thesis
    using lt p bo unfolding CBB_flush.simps [of env d cbb] bo option.case Let_def rec f m
    by (simp split: prod.splits)
qed

lemma length_child_records [simp]: "length (child_records off fs) = length fs"
  by (induction off fs rule: child_records.induct) auto

lemma cbb_failed_set_error [simp]: "cbb_failed (set_error cbb)"
  by (simp add: cbb_failed_def set_error_def split: option.splits)

lemma length_close_frame: "close_frame p y = Some e \<Longrightarrow> length y \<le> length e"
  by (cases p) (auto split: if_splits)

lemma CBB_flush_writes:
  assumes h: "heap_bounded env"
  shows "writes env d (CBB_flush env d) []"
proof -
  have "case CBB_flush env d cbb of
        (Some _, cbb') \<Rightarrow>
          (\<exists>t. close_frames fs = Some t \<and> writer_at d cbb' (P @ t) [] \<and>
             cbb_children cbb' = take d (cbb_children cbb) \<and> cbb_grown cbb cbb')
      | (None, cbb') \<Rightarrow>
          cbb_failed cbb' \<and>
          (\<forall>t. close_frames fs = Some t \<longrightarrow> \<not> cbb_room env cbb (length (P @ t)))"
    if "writer_at d cbb P fs" for cbb P fs
    using that
  proof (induction fs arbitrary: d P)
    case Nil
    then have "take d (cbb_children cbb) = cbb_children cbb" by (simp add: writer_at_def)
    moreover have "cbb_grown cbb cbb"
      using Nil by (auto simp: cbb_grown_def writer_at_def split: option.splits)
    ultimately show ?case using Nil by (simp add: CBB_flush_here)
  next
    case (Cons f fs)
    obtain p y where f: "f = (p, y)" by (cases f)
    note w = Cons.prems [unfolded f]
    obtain b where b: "cbb_base cbb = Some b" "buffer_ok b"
      and c: "contents b = P @ replicate (prefix_len p) 0 @ y @ frames_bytes fs"
      and ch: "drop d (cbb_children cbb) = child_records (length P) ((p, y) # fs)"
      using w by (auto simp: writer_at_def split: option.splits)
    have lt: "d < length (cbb_children cbb)"
      using w ch by (metis child_records.simps(2) drop_all linorder_not_le list.distinct(1))
    have ch2: "cbb_children cbb ! d = child_record (length P) p"
      "drop (Suc d) (cbb_children cbb) = child_records (length P + prefix_len p + length y) fs"
      using ch lt by (metis Cons_nth_drop_Suc child_records.simps(2) list.inject)+
    have w': "writer_at (Suc d) cbb (P @ replicate (prefix_len p) 0 @ y) fs"
      using w b c lt ch2 by (simp add: writer_at_def add.assoc)
    note IH = Cons.IH [OF w']
    obtain r cbb1 where r: "CBB_flush env (Suc d) cbb = (r, cbb1)" by (cases "CBB_flush env (Suc d) cbb")
    show ?case
    proof (cases r)
      case None
      have len: "length (P @ replicate (prefix_len p) 0 @ y @ t) \<le> length (P @ e)"
        if "close_frame p (y @ t) = Some e" for t e
        using that by (cases p) (auto simp: der_length_def split: if_splits)
      have "\<not> cbb_room env cbb (length (P @ e))" if e: "close_frames (f # fs) = Some e" for e
      proof -
        obtain t where t: "close_frames fs = Some t" "close_frame p (y @ t) = Some e"
          using e f by (auto split: option.splits)
        then have "\<not> cbb_room env cbb (length (P @ replicate (prefix_len p) 0 @ y @ t))"
          using IH r None by simp
        then show ?thesis using len [OF t(2)] b(1) by (auto simp: cbb_room_def intro: room_mono)
      qed
      then show ?thesis using r None unfolding CBB_flush_child [OF w] by simp
    next
      case (Some u)
      then obtain t where t: "close_frames fs = Some t"
        and w1: "writer_at (Suc d) cbb1 (P @ replicate (prefix_len p) 0 @ y @ t) []"
        and ch1: "cbb_children cbb1 = take (Suc d) (cbb_children cbb)" and g1: "cbb_grown cbb cbb1"
        using IH r by auto
      obtain b1 where b1: "cbb_base cbb1 = Some b1" "buffer_ok b1"
        and c1: "contents b1 = P @ replicate (prefix_len p) 0 @ (y @ t)"
        using w1 by (auto simp: writer_at_def split: option.splits)
      have ge: "\<not> cb_len b1 < length P + prefix_len p"
        using length_contents [OF b1(2)] c1 by simp
      have bo: "base_of d cbb1 = Some b1" using b1 ch1 lt by (simp add: base_of_def)
      obtain r2 b2 where f2: "flush_child env (child_record (length P) p) (length P + prefix_len p) b1 = (r2, b2)"
        by (cases "flush_child env (child_record (length P) p) (length P + prefix_len p) b1")
      note res = flush_child_result [OF h b1(2) c1, unfolded f2]
      have fl: "CBB_flush env d cbb = (case r2 of
          None \<Rightarrow> (None, set_error (cbb1 \<lparr> cbb_base := Some b2 \<rparr>))
        | Some _ \<Rightarrow> (Some (), cbb1 \<lparr> cbb_base := Some b2, cbb_children := take d (cbb_children cbb) \<rparr>))"
        using r Some ge b1 ch1 unfolding CBB_flush_child [OF w]
        by (simp add: on_base_def bo f2 min_def split: option.splits)
      show ?thesis
      proof (cases r2)
        case None
        have g: "grown b b1" using g1 b b1 by (simp add: cbb_grown_def)
        have "\<not> cbb_room env cbb (length (P @ e))" if "close_frames (f # fs) = Some e" for e
        proof -
          have "\<not> room env b1 (length P + length e)" using that res None t f by simp
          then show ?thesis using b g by (auto simp: cbb_room_def dest: room_grown)
        qed
        then show ?thesis using None fl by simp
      next
        case (Some v)
        have g: "grown b b1" using g1 b b1 by (simp add: cbb_grown_def)
        then show ?thesis using Some fl res t f lt b
          by (auto simp: writer_at_def cbb_grown_def intro: grown_trans)
      qed
    qed
  qed
  then show ?thesis unfolding writes_def append_Nil2 by blast
qed

section \<open>What the operations write\<close>

lemma cbb_room_mono: "cbb_room env cbb n \<Longrightarrow> k \<le> n \<Longrightarrow> cbb_room env cbb k"
  by (auto simp: cbb_room_def split: option.splits intro: room_mono)

lemma cbb_room_grown: "cbb_room env cbb n \<Longrightarrow> cbb_grown cbb cbb' \<Longrightarrow> cbb_room env cbb' n"
  by (auto simp: cbb_room_def cbb_grown_def split: option.splits intro: room_grown)

lemma cbb_grown_trans: "cbb_grown a b \<Longrightarrow> cbb_grown b c \<Longrightarrow> cbb_grown a c"
  by (auto simp: cbb_grown_def split: option.splits intro: grown_trans)

lemma writes_Some:
  assumes "writes env d m x" and "writer_at d cbb P fs" and "m cbb = (Some a, cbb')"
  obtains t where "close_frames fs = Some t" "writer_at d cbb' (P @ t @ x) []"
    "cbb_children cbb' = take d (cbb_children cbb)" "cbb_grown cbb cbb'"
  using assms(1) [unfolded writes_def, rule_format, OF assms(2)] assms(3) by auto

lemma writes_None:
  assumes "writes env d m x" and "writer_at d cbb P fs" and "m cbb = (None, cbb')"
  shows "cbb_failed cbb'" "close_frames fs = Some t \<Longrightarrow> \<not> cbb_room env cbb (length (P @ t @ x))"
  using assms(1) [unfolded writes_def, rule_format, OF assms(2)] assms(3) by auto

lemma writesI:
  assumes "\<And>cbb P fs a cbb'. writer_at d cbb P fs \<Longrightarrow> m cbb = (Some a, cbb') \<Longrightarrow>
      \<exists>t. close_frames fs = Some t \<and> writer_at d cbb' (P @ t @ x) [] \<and>
        cbb_children cbb' = take d (cbb_children cbb) \<and> cbb_grown cbb cbb'"
    and "\<And>cbb P fs cbb'. writer_at d cbb P fs \<Longrightarrow> m cbb = (None, cbb') \<Longrightarrow>
      cbb_failed cbb' \<and> (\<forall>t. close_frames fs = Some t \<longrightarrow> \<not> cbb_room env cbb (length (P @ t @ x)))"
  shows "writes env d m x"
  unfolding writes_def using assms by (auto split: prod.splits option.splits)

lemma and_then_eq_None:
  "and_then m f s = (None, s') \<longleftrightarrow>
    m s = (None, s') \<or> (\<exists>a s1. m s = (Some a, s1) \<and> f a s1 = (None, s'))"
  by (auto simp: and_then_def split: prod.splits option.splits)

lemma writes_and_then [intro]:
  assumes m: "writes env d m x" and f: "\<And>a. writes env d (f a) y"
  shows "writes env d (and_then m f) (x @ y)"
proof (rule writesI)
  fix cbb P fs b cbb' assume w: "writer_at d cbb P fs" and r: "and_then m f cbb = (Some b, cbb')"
  then obtain a cbb1 where a: "m cbb = (Some a, cbb1)" "f a cbb1 = (Some b, cbb')"
    by (auto simp: and_then_eq_Some)
  obtain t where t: "close_frames fs = Some t" "writer_at d cbb1 (P @ t @ x) []"
      "cbb_children cbb1 = take d (cbb_children cbb)" "cbb_grown cbb cbb1"
    by (rule writes_Some [OF m w a(1)])
  show "\<exists>t. close_frames fs = Some t \<and> writer_at d cbb' (P @ t @ x @ y) [] \<and>
        cbb_children cbb' = take d (cbb_children cbb) \<and> cbb_grown cbb cbb'"
    by (rule writes_Some [OF f t(2) a(2)]) (use t in \<open>auto intro: cbb_grown_trans\<close>)
next
  fix cbb P fs cbb' assume w: "writer_at d cbb P fs" and r: "and_then m f cbb = (None, cbb')"
  consider "m cbb = (None, cbb')" | a cbb1 where "m cbb = (Some a, cbb1)" "f a cbb1 = (None, cbb')"
    using r by (auto simp: and_then_eq_None)
  then show "cbb_failed cbb' \<and>
      (\<forall>t. close_frames fs = Some t \<longrightarrow> \<not> cbb_room env cbb (length (P @ t @ x @ y)))"
  proof cases
    case 1
    have "\<not> cbb_room env cbb (length (P @ t @ x @ y))" if "close_frames fs = Some t" for t
      using writes_None(2) [OF m w 1 that]
        cbb_room_mono [of env cbb "length (P @ t @ x @ y)" "length (P @ t @ x)"] by auto
    then show ?thesis using writes_None(1) [OF m w 1] by blast
  next
    case 2
    obtain t where t: "close_frames fs = Some t" "writer_at d cbb1 (P @ t @ x) []" "cbb_grown cbb cbb1"
      by (rule writes_Some [OF m w 2(1)])
    then show ?thesis using writes_None [OF f t(2) 2(2)] by (auto dest: cbb_room_grown)
  qed
qed

lemma writes_on_base:
  assumes m: "appends env m x" and h: "heap_bounded env"
  shows "writes env d (and_then (CBB_flush env d) (\<lambda>_. on_base d m)) x"
proof (rule writesI)
  let ?op = "and_then (CBB_flush env d) (\<lambda>_. on_base d m)"
  note fl = CBB_flush_writes [OF h, of d]
  have run: "\<exists>b. cbb_base cbb1 = Some b \<and> buffer_ok b \<and> contents b = P \<and>
      on_base d m cbb1 = (fst (m b), cbb1 \<lparr> cbb_base := Some (snd (m b)) \<rparr>)"
    if "writer_at d cbb1 P []" for cbb1 P
    using that by (auto simp: writer_at_def base_of_def on_base_def split: option.splits prod.splits)
  {
    fix cbb P fs a cbb' assume w: "writer_at d cbb P fs" and r: "?op cbb = (Some a, cbb')"
    then obtain u cbb1 where u: "CBB_flush env d cbb = (Some u, cbb1)" "on_base d m cbb1 = (Some a, cbb')"
      by (auto simp: and_then_eq_Some)
    obtain t where t: "close_frames fs = Some t" "writer_at d cbb1 (P @ t @ []) []"
      "cbb_children cbb1 = take d (cbb_children cbb)" "cbb_grown cbb cbb1"
      by (rule writes_Some [OF fl w u(1)])
    obtain b where b: "cbb_base cbb1 = Some b" "buffer_ok b" "contents b = P @ t" and
      ob: "on_base d m cbb1 = (fst (m b), cbb1 \<lparr> cbb_base := Some (snd (m b)) \<rparr>)"
      using run [OF t(2)] by auto
    have "cbb_grown cbb1 cbb' \<and> writer_at d cbb' (P @ t @ x) [] \<and> cbb_children cbb' = cbb_children cbb1"
      using m [unfolded appends_def, rule_format, OF b(2)] b t(2) u(2) ob
      by (cases "m b") (auto simp: writer_at_def cbb_grown_def)
    then show "\<exists>t. close_frames fs = Some t \<and> writer_at d cbb' (P @ t @ x) [] \<and>
        cbb_children cbb' = take d (cbb_children cbb) \<and> cbb_grown cbb cbb'"
      using t by (auto intro: cbb_grown_trans)
  }
  fix cbb P fs cbb' assume w: "writer_at d cbb P fs" and r: "?op cbb = (None, cbb')"
  consider "CBB_flush env d cbb = (None, cbb')"
    | u cbb1 where "CBB_flush env d cbb = (Some u, cbb1)" "on_base d m cbb1 = (None, cbb')"
    using r by (auto simp: and_then_eq_None)
  then show "cbb_failed cbb' \<and>
      (\<forall>t. close_frames fs = Some t \<longrightarrow> \<not> cbb_room env cbb (length (P @ t @ x)))"
  proof cases
    case 1
    have "\<not> cbb_room env cbb (length (P @ t @ x))" if "close_frames fs = Some t" for t
      using writes_None(2) [OF fl w 1 that]
        cbb_room_mono [of env cbb "length (P @ t @ x)" "length (P @ t @ [])"] by auto
    then show ?thesis using writes_None(1) [OF fl w 1] by blast
  next
    case 2
    obtain t where t: "close_frames fs = Some t" "writer_at d cbb1 (P @ t @ []) []"
      "cbb_grown cbb cbb1"
      by (rule writes_Some [OF fl w 2(1)])
    obtain b where b: "cbb_base cbb1 = Some b" "buffer_ok b" "contents b = P @ t" and
      ob: "on_base d m cbb1 = (fst (m b), cbb1 \<lparr> cbb_base := Some (snd (m b)) \<rparr>)"
      using run [OF t(2)] by auto
    have l: "cb_len b = length P + length t" using length_contents [OF b(2)] b(3) by simp
    have "cbb_failed cbb' \<and> \<not> cbb_room env cbb1 (length (P @ t @ x))"
      using m [unfolded appends_def, rule_format, OF b(2)] b(1) 2(2) ob l
      by (cases "m b") (auto simp: cbb_failed_def cbb_room_def add.assoc)
    then show ?thesis using t by (auto dest: cbb_room_grown)
  qed
qed

lemma writes_add_u:
  assumes h: "heap_bounded env" and n: "0 < n" "n \<le> 8" and v: "unat v < 256 ^ n"
  shows "writes env d (and_then (CBB_flush env d) (\<lambda>_. on_base d (cbb_buffer_add_u env v n)))
    (be_bytes n (unat v))"
  by (intro writes_on_base appends_add_u assms)


text \<open>Children: the header goes out at once, the contents when the parent is flushed.\<close>

definition opens :: "heap_env \<Rightarrow> nat \<Rightarrow> 'a writer \<Rightarrow> bytes \<Rightarrow> pending_prefix \<Rightarrow> bool" where
  "opens env d m hdr p \<longleftrightarrow> (\<forall>cbb P fs. writer_at d cbb P fs \<longrightarrow>
     (case m cbb of
        (Some _, cbb') \<Rightarrow>
          (\<exists>t. close_frames fs = Some t \<and> writer_at d cbb' (P @ t @ hdr) [(p, [])] \<and>
             take d (cbb_children cbb') = take d (cbb_children cbb) \<and> cbb_grown cbb cbb')
      | (None, cbb') \<Rightarrow>
          cbb_failed cbb' \<and>
          (\<forall>t. close_frames fs = Some t \<longrightarrow>
             \<not> cbb_room env cbb (length (P @ t @ hdr) + prefix_len p))))"

lemma writer_at_child:
  "writer_at d cbb P [(p, y)] \<longleftrightarrow>
    0 < prefix_len p \<and> d < length (cbb_children cbb) \<and>
    cbb_children cbb ! d = child_record (length P) p \<and>
    writer_at (Suc d) cbb (P @ replicate (prefix_len p) 0 @ y) []"
proof -
  have "drop d cs = [r] \<longleftrightarrow> d < length cs \<and> cs ! d = r \<and> drop (Suc d) cs = []"
    for cs :: "cbb_child list" and r
    by (cases "d < length cs") (auto simp: Cons_nth_drop_Suc [symmetric])
  then show ?thesis by (auto simp: writer_at_def split: option.splits)
qed

lemma writes_element:
  assumes op: "opens env d m hdr p" and body: "\<And>a. writes env (Suc d) (body a) y"
    and h: "heap_bounded env" and e: "close_frame p y = Some e"
  shows "writes env d (and_then m (\<lambda>a. and_then (body a) (\<lambda>_. CBB_flush env d))) (hdr @ e)"
proof (rule writesI)
  let ?op = "and_then m (\<lambda>a. and_then (body a) (\<lambda>_. CBB_flush env d))"
  note fl = CBB_flush_writes [OF h, of d]
  have opened: "\<exists>t. close_frames fs = Some t \<and> writer_at d cbb1 (P @ t @ hdr) [(p, [])] \<and>
      take d (cbb_children cbb1) = take d (cbb_children cbb) \<and> cbb_grown cbb cbb1"
    if "writer_at d cbb P fs" "m cbb = (Some a, cbb1)" for cbb P fs a cbb1
    using op [unfolded opens_def, rule_format, OF that(1)] that(2) by simp
  have filled: "writer_at d cbb2 Q [(p, y)] \<and> cbb_grown cbb1 cbb2 \<and>
      take d (cbb_children cbb2) = take d (cbb_children cbb1)"
    if "writer_at d cbb1 Q [(p, [])]" "body a cbb1 = (Some u, cbb2)" for cbb1 Q a u cbb2
  proof -
    have w: "writer_at (Suc d) cbb1 (Q @ replicate (prefix_len p) 0) []"
      using that(1) by (simp add: writer_at_child)
    show ?thesis
      by (rule writes_Some [OF body w that(2)])
        (use that(1) in \<open>auto simp: writer_at_child min_def nth_append\<close>)
  qed
  have le: "prefix_len p + length y \<le> length e"
    using e by (cases p) (auto simp: der_length_def split: if_splits)
  {
    fix cbb P fs b cbb' assume w: "writer_at d cbb P fs" and r: "?op cbb = (Some b, cbb')"
    then obtain a cbb1 u cbb2 where a: "m cbb = (Some a, cbb1)" "body a cbb1 = (Some u, cbb2)"
      "CBB_flush env d cbb2 = (Some b, cbb')"
      by (auto simp: and_then_eq_Some)
    obtain t where t: "close_frames fs = Some t" "writer_at d cbb1 (P @ t @ hdr) [(p, [])]"
      "take d (cbb_children cbb1) = take d (cbb_children cbb)" "cbb_grown cbb cbb1"
      using opened [OF w a(1)] by blast
    note f = filled [OF t(2) a(2)]
    obtain t2 where t2: "close_frames [(p, y)] = Some t2" "writer_at d cbb' ((P @ t @ hdr) @ t2 @ []) []"
      "cbb_children cbb' = take d (cbb_children cbb2)" "cbb_grown cbb2 cbb'"
      by (rule writes_Some [OF fl conjunct1 [OF f] a(3)])
    then show "\<exists>t. close_frames fs = Some t \<and> writer_at d cbb' (P @ t @ hdr @ e) [] \<and>
        cbb_children cbb' = take d (cbb_children cbb) \<and> cbb_grown cbb cbb'"
      using t f e by (auto intro: cbb_grown_trans)
  }
  fix cbb P fs cbb' assume w: "writer_at d cbb P fs" and r: "?op cbb = (None, cbb')"
  consider "m cbb = (None, cbb')"
    | a cbb1 where "m cbb = (Some a, cbb1)" "body a cbb1 = (None, cbb')"
    | a cbb1 u cbb2 where "m cbb = (Some a, cbb1)" "body a cbb1 = (Some u, cbb2)"
      "CBB_flush env d cbb2 = (None, cbb')"
    using r by (auto simp: and_then_eq_None)
  then show "cbb_failed cbb' \<and>
      (\<forall>t. close_frames fs = Some t \<longrightarrow> \<not> cbb_room env cbb (length (P @ t @ hdr @ e)))"
  proof cases
    case 1
    have "\<not> cbb_room env cbb (length (P @ t @ hdr @ e))" if "close_frames fs = Some t" for t
      using op [unfolded opens_def, rule_format, OF w] 1 that le
        cbb_room_mono [of env cbb "length (P @ t @ hdr @ e)" "length (P @ t @ hdr) + prefix_len p"] by auto
    then show ?thesis using op [unfolded opens_def, rule_format, OF w] 1 by auto
  next
    case (2 a cbb1)
    obtain t where t: "close_frames fs = Some t" "writer_at d cbb1 (P @ t @ hdr) [(p, [])]"
      "cbb_grown cbb cbb1"
      using opened [OF w 2(1)] by blast
    have w1: "writer_at (Suc d) cbb1 ((P @ t @ hdr) @ replicate (prefix_len p) 0) []"
      using t(2) by (simp add: writer_at_child)
    have "\<not> cbb_room env cbb1 (length (((P @ t @ hdr) @ replicate (prefix_len p) 0) @ [] @ y))"
      and "cbb_failed cbb'"
      using writes_None [OF body w1 2(2)] by simp_all
    then show ?thesis using t le by (auto dest: cbb_room_grown intro: cbb_room_mono)
  next
    case (3 a cbb1 u cbb2)
    obtain t where t: "close_frames fs = Some t" "writer_at d cbb1 (P @ t @ hdr) [(p, [])]"
      "cbb_grown cbb cbb1"
      using opened [OF w 3(1)] by blast
    note f = filled [OF t(2) 3(2)]
    have "\<not> cbb_room env cbb2 (length ((P @ t @ hdr) @ e @ []))" and "cbb_failed cbb'"
      using writes_None [OF fl conjunct1 [OF f] 3(3)] e by simp_all
    then show ?thesis using t f by (auto dest: cbb_room_grown)
  qed
qed

lemma CBB_add_bytes_writes:
  "heap_bounded env \<Longrightarrow> length data < 2 ^ 62 \<Longrightarrow> writes env d (CBB_add_bytes env d data) data"
  unfolding CBB_add_bytes_def by (intro writes_on_base appends_write)

lemma be_bytes_1: "be_bytes 1 v = [of_nat v]"
  by simp

lemma CBB_add_u8_writes:
  assumes "heap_bounded env"
  shows "writes env d (CBB_add_u8 env d v) [v]"
proof -
  have u: "unat (ucast v :: u64) = unat v" by simp
  have "unat (ucast v :: u64) < 256 ^ 1" unfolding u by simp
  from writes_add_u [OF assms _ _ this, of d] show ?thesis
    unfolding CBB_add_u8_def u be_bytes_1 by simp
qed

lemma CBB_add_word_writes:
  fixes v :: "'a::len word"
  assumes h: "heap_bounded env" and n: "0 < n" "n \<le> 8" and l: "LENGTH('a) \<le> 64" and v: "unat v < 256 ^ n"
  shows "writes env d (and_then (CBB_flush env d) (\<lambda>_. on_base d (cbb_buffer_add_u env (ucast v) n)))
    (be_bytes n (unat v))"
proof -
  have u: "unat (ucast v :: u64) = unat v" using l by simp
  show ?thesis using writes_add_u [OF h n, of "ucast v" d] v unfolding u by blast
qed

lemma CBB_add_u16_writes:
  assumes "heap_bounded env" shows "writes env d (CBB_add_u16 env d v) (be_bytes 2 (unat v))"
  unfolding CBB_add_u16_def
  using unsigned_less [of v, where ?'a = nat] by (intro CBB_add_word_writes assms) simp_all

lemma CBB_add_u24_writes:
  assumes "heap_bounded env" "unat v < 256 ^ 3"
  shows "writes env d (CBB_add_u24 env d v) (be_bytes 3 (unat v))"
  unfolding CBB_add_u24_def using assms by (intro CBB_add_word_writes) simp_all

lemma CBB_add_u32_writes:
  assumes "heap_bounded env" shows "writes env d (CBB_add_u32 env d v) (be_bytes 4 (unat v))"
  unfolding CBB_add_u32_def
  using unsigned_less [of v, where ?'a = nat] by (intro CBB_add_word_writes assms) simp_all

lemma CBB_add_u64_writes:
  assumes "heap_bounded env" shows "writes env d (CBB_add_u64 env d v) (be_bytes 8 (unat v))"
  unfolding CBB_add_u64_def
  using unsigned_less [of v, where ?'a = nat] by (intro writes_add_u assms) simp_all

lemma CBB_add_u16le_writes:
  "heap_bounded env \<Longrightarrow> writes env d (CBB_add_u16le env d v) (le_bytes 2 (unat v))"
  using CBB_add_u16_writes [of env d "CRYPTO_bswap2 v"] by (simp only: CBB_add_u16le_def be_bytes_bswap2)

lemma CBB_add_u32le_writes:
  "heap_bounded env \<Longrightarrow> writes env d (CBB_add_u32le env d v) (le_bytes 4 (unat v))"
  using CBB_add_u32_writes [of env d "CRYPTO_bswap4 v"] by (simp only: CBB_add_u32le_def be_bytes_bswap4)

lemma CBB_add_u64le_writes:
  "heap_bounded env \<Longrightarrow> writes env d (CBB_add_u64le env d v) (le_bytes 8 (unat v))"
  using CBB_add_u64_writes [of env d "CRYPTO_bswap8 v"] by (simp only: CBB_add_u64le_def be_bytes_bswap8)

text \<open>Operations that push a child.\<close>

lemma opensI:
  assumes m: "writes env d m hdr" and w: "\<And>a. writes env d (w a) (replicate (prefix_len p) 0)"
    and f: "\<And>a cbb P. writer_at d cbb P [] \<Longrightarrow>
      f a cbb = and_then (w a) (\<lambda>_ c. (Some (), push_child (length P) (prefix_len p) (p = Asn1) c)) cbb"
    and p: "0 < prefix_len p"
  shows "opens env d (and_then m f) hdr p"
  unfolding opens_def
proof (intro allI impI)
  fix cbb P fs assume wr: "writer_at d cbb P fs"
  obtain r cbb' where r: "and_then m f cbb = (r, cbb')" by (cases "and_then m f cbb")
  show "case and_then m f cbb of
        (Some _, cbb') \<Rightarrow>
          (\<exists>t. close_frames fs = Some t \<and> writer_at d cbb' (P @ t @ hdr) [(p, [])] \<and>
             take d (cbb_children cbb') = take d (cbb_children cbb) \<and> cbb_grown cbb cbb')
      | (None, cbb') \<Rightarrow>
          cbb_failed cbb' \<and>
          (\<forall>t. close_frames fs = Some t \<longrightarrow> \<not> cbb_room env cbb (length (P @ t @ hdr) + prefix_len p))"
  proof (cases r)
    case None
    consider "m cbb = (None, cbb')"
      | a cbb1 where "m cbb = (Some a, cbb1)" "f a cbb1 = (None, cbb')"
      using r None by (auto simp: and_then_eq_None)
    then have "cbb_failed cbb' \<and>
        (\<forall>t. close_frames fs = Some t \<longrightarrow> \<not> cbb_room env cbb (length (P @ t @ hdr) + prefix_len p))"
    proof cases
      case 1
      have "\<not> cbb_room env cbb (length (P @ t @ hdr) + prefix_len p)" if "close_frames fs = Some t" for t
        using writes_None(2) [OF m wr 1 that]
          cbb_room_mono [of env cbb "length (P @ t @ hdr) + prefix_len p" "length (P @ t @ hdr)"] by auto
      then show ?thesis using writes_None(1) [OF m wr 1] by blast
    next
      case 2
      obtain t where t: "close_frames fs = Some t" "writer_at d cbb1 (P @ t @ hdr) []" "cbb_grown cbb cbb1"
        by (rule writes_Some [OF m wr 2(1)])
      have "w a cbb1 = (None, cbb')" using 2(2) f [OF t(2)] by (auto simp: and_then_eq_None)
      from writes_None [OF w t(2) this] show ?thesis
        using t cbb_room_grown [OF _ t(3)] by (auto simp: add.assoc)
    qed
    then show ?thesis using r None by simp
  next
    case (Some b)
    obtain a cbb1 where a: "m cbb = (Some a, cbb1)" "f a cbb1 = (Some b, cbb')"
      using r Some by (auto simp: and_then_eq_Some)
    obtain t where t: "close_frames fs = Some t" "writer_at d cbb1 (P @ t @ hdr) []"
        "cbb_children cbb1 = take d (cbb_children cbb)" "cbb_grown cbb cbb1"
      by (rule writes_Some [OF m wr a(1)])
    obtain u cbb2 where u: "w a cbb1 = (Some u, cbb2)"
      and c: "cbb' = push_child (length (P @ t @ hdr)) (prefix_len p) (p = Asn1) cbb2"
      using a(2) f [OF t(2)] by (auto simp: and_then_eq_Some)
    obtain t2 where t2: "close_frames [] = Some t2"
      "writer_at d cbb2 ((P @ t @ hdr) @ t2 @ replicate (prefix_len p) 0) []"
      "cbb_children cbb2 = take d (cbb_children cbb1)" "cbb_grown cbb1 cbb2"
      by (rule writes_Some [OF w t(2) u])
    have l: "length (cbb_children cbb2) = d" using t2(2,3) by (auto simp: writer_at_def)
    have "writer_at d cbb' (P @ t @ hdr) [(p, [])]"
      using t2(1,2) l p c by (simp add: writer_at_def push_child_def child_record_def split: option.splits)
    moreover have "cbb_grown cbb cbb'"
      using t(4) t2(4) c by (auto simp: push_child_def cbb_grown_def split: option.splits intro: grown_trans)
    moreover have "take d (cbb_children cbb') = take d (cbb_children cbb)"
      using t(3) t2(3) c l by (simp add: push_child_def)
    ultimately show ?thesis using r Some t(1) by auto
  qed
qed

lemma length_prefixed_opens:
  assumes h: "heap_bounded env" and n: "0 < n" "n < 2 ^ 62"
  shows "opens env d (cbb_add_length_prefixed env d n) [] (Fixed n)"
proof -
  define X :: "(cbb_buffer, nat) op" where
    "X = and_then (cbb_buffer_add env n)
       (\<lambda>pos base. (Some pos, base \<lparr> cb_buf := mem_write (cb_buf base) pos (replicate n 0) \<rparr>))"
  have "appends env X (replicate n 0)"
    unfolding X_def using appends_write [OF h, of "replicate n 0" "\<lambda>pos _. pos"] n by simp
  then have w: "writes env d (and_then (CBB_flush env d) (\<lambda>_. on_base d X)) (replicate n 0)"
    using h by (rule writes_on_base)
  have pos: "pos = cb_len b" if "X b = (Some pos, b')" "buffer_ok b" for b b' pos
    using that(1) unfolding X_def
    by (cases rule: cbb_buffer_add_cases [OF that(2) h n(2)]) auto
  show ?thesis
    unfolding cbb_add_length_prefixed_def X_def [symmetric]
  proof (rule opensI [OF CBB_flush_writes [OF h], where w = "\<lambda>_. and_then (CBB_flush env d) (\<lambda>_. on_base d X)"])
    fix cbb P assume wr: "writer_at d cbb P []"
    then obtain b where b: "base_of d cbb = Some b" "buffer_ok b" "contents b = P"
      by (auto simp: writer_at_def base_of_def split: option.splits)
    have l: "cb_len b = length P" using length_contents [OF b(2)] b(3) by simp
    show "and_then (on_base d X) (\<lambda>offset cbb. (Some (), push_child offset n False cbb)) cbb =
        and_then (and_then (CBB_flush env d) (\<lambda>_. on_base d X))
          (\<lambda>_ c. (Some (), push_child (length P) (prefix_len (Fixed n)) (Fixed n = Asn1) c)) cbb"
      using pos [of b] b l CBB_flush_here [OF wr, of env]
      by (cases "X b") (auto simp: and_then_def on_base_def split: option.splits)
  qed (use w n in simp_all)
qed

lemma and_then_ok [simp]: "and_then m ok = m"
  by (auto simp: and_then_def fun_eq_iff split: prod.splits option.splits)

lemma writes_Cons:
  assumes "heap_bounded env" and "\<And>a. writes env d (f a) bs"
  shows "writes env d (and_then (CBB_add_u8 env d b) f) (b # bs)"
  using writes_and_then [OF CBB_add_u8_writes [OF assms(1)] assms(2)] by simp

section \<open>Base-128 integers and elements\<close>

fun base128_digits :: "nat \<Rightarrow> nat" where
  "base128_digits n = (if n = 0 then 0 else Suc (base128_digits (n div 128)))"

declare base128_digits.simps [simp del]

lemma base128_len_eq: "base128_len v = base128_digits (unat v)"
proof (induction v rule: base128_len.induct)
  case (1 v)
  have "v > 0 \<longleftrightarrow> unat v \<noteq> 0" by (metis unat_eq_0 word_gt_0)
  then show ?case
    using 1 by (simp add: base128_len.simps [of v] base128_digits.simps [of "unat v"] unat_drop_bit)
qed

lemma base128_high_eq:
  "base128_high n = map (\<lambda>i. of_nat (128 + n div 128 ^ i mod 128)) (rev [0 ..< base128_digits n])"
proof (induction n rule: base128_digits.induct)
  case (1 n)
  show ?case
  proof (cases "n = 0")
    case False
    let ?f = "\<lambda>n i. of_nat (128 + n div 128 ^ i mod 128) :: u8"
    have "[0 ..< base128_digits n] = 0 # map Suc [0 ..< base128_digits (n div 128)]"
      using False by (simp add: base128_digits.simps [of n] upt_conv_Cons map_Suc_upt del: upt_Suc)
    then have "map (?f n) (rev [0 ..< base128_digits n]) =
        map (\<lambda>i. ?f n (Suc i)) (rev [0 ..< base128_digits (n div 128)]) @ [of_nat (128 + n mod 128)]"
      by (simp add: rev_map o_def)
    moreover have "?f n (Suc i) = ?f (n div 128) i" for i by (simp add: div_mult2_eq)
    ultimately show ?thesis
      using False 1 by (simp add: base128_high.simps [of n] del: of_nat_add)
  qed (simp add: base128_digits.simps [of 0])
qed

lemma base128_byte: "unat (ucast (drop_bit (7 * i) v) AND 0x7f :: u8) = unat (v :: u64) div 128 ^ i mod 128"
proof -
  have "unat (ucast (drop_bit (7 * i) v) AND 0x7f :: u8) = unat v div 2 ^ (7 * i) mod 256 mod 128"
    by (simp add: u8_and_7f unat_ucast_mod unat_drop_bit)
  also have "\<dots> = unat v div 2 ^ (7 * i) mod 128" by (rule mod_mod_cancel) simp
  finally show ?thesis by (simp add: power_mult)
qed

lemma base128_loop_writes:
  assumes h: "heap_bounded env"
  shows "writes env d (add_base128_loop env d v (Suc n))
    (map (\<lambda>i. of_nat (128 + unat v div 128 ^ Suc i mod 128)) (rev [0 ..< n]) @ [of_nat (unat v mod 128)])"
proof (induction n)
  case 0
  have "ucast v AND 0x7f = (of_nat (unat v mod 128) :: u8)"
    using base128_byte [of 0 v] by (intro unat_eq_of_nat) simp
  then have "add_base128_loop env d v (Suc 0) = CBB_add_u8 env d (of_nat (unat v mod 128))"
    by (simp add: Let_def)
  then show ?case using CBB_add_u8_writes [OF h, of d "of_nat (unat v mod 128)"]
    by (simp del: of_nat_mod add_base128_loop.simps)
next
  case (Suc n)
  let ?b = "ucast (drop_bit (7 * Suc n) v) AND 0x7f :: u8"
  have u: "unat ?b = unat v div 128 ^ Suc n mod 128" by (rule base128_byte)
  then have "unat (?b OR 0x80) = 128 + unat v div 128 ^ Suc n mod 128"
    using u8_or_80 [of ?b] by simp
  then have b: "?b OR 0x80 = of_nat (128 + unat v div 128 ^ Suc n mod 128)" by (rule unat_eq_of_nat)
  have "add_base128_loop env d v (Suc (Suc n)) =
      and_then (CBB_add_u8 env d (?b OR 0x80)) (\<lambda>_. add_base128_loop env d v (Suc n))"
    by (simp only: add_base128_loop.simps(2) Let_def nat.distinct not_False_eq_True if_True)
  then show ?case unfolding b using writes_Cons [OF h Suc] by simp
qed

lemma add_base128_integer_writes:
  assumes h: "heap_bounded env"
  shows "writes env d (add_base128_integer env d v) (base128_bytes (unat v))"
proof -
  let ?n = "base128_digits (unat v div 128)"
  have "(if base128_len v = 0 then 1 else base128_len v) = Suc ?n"
    by (simp add: base128_len_eq base128_digits.simps [of "unat v"] base128_digits.simps [of 0])
  then have "add_base128_integer env d v = add_base128_loop env d v (Suc ?n)"
    by (simp only: add_base128_integer_def Let_def)
  then show ?thesis
    using base128_loop_writes [OF h, of d v ?n]
    by (simp add: base128_bytes_def base128_high_eq div_mult2_eq del: add_base128_loop.simps)
qed


lemma tag_bits_eq: "unat (ucast (drop_bit 24 tag AND 0xe0) :: u8) = 32 * tag_class tag"
proof -
  have m: "(0xe0 :: u32) = push_bit 5 (mask 3)" by (simp add: mask_eq_exp_minus_1)
  have "drop_bit 24 tag AND push_bit 5 (mask 3) = push_bit 5 (drop_bit 29 tag)"
    by (rule bit_word_eqI) (auto simp: bit_simps dest: bit_imp_le_length)
  then have e: "drop_bit 24 tag AND 0xe0 = push_bit 5 (drop_bit 29 tag)" by (simp only: m)
  have c: "unat (drop_bit 29 tag) = tag_class tag" by (simp add: unat_drop_bit tag_class_def)
  have "unat (push_bit 5 (drop_bit 29 tag)) = 32 * tag_class tag"
    using tag_class_bound [of tag] by (simp add: unat_push_bit c)
  then show ?thesis
    using tag_class_bound [of tag] unfolding e by (simp add: unat_ucast_mod del: unat_ucast_up)
qed

lemma u8_or_low: "unat a = 32 * c \<Longrightarrow> unat b < 32 \<Longrightarrow> c < 8 \<Longrightarrow> unat (a OR b :: u8) = 32 * c + unat b"
proof -
  assume a: "unat a = 32 * c" and b: "unat b < 32" and c: "c < 8"
  have "a = push_bit 5 (of_nat c)"
    using a c by (intro word_unat_eq_iff [THEN iffD2]) (simp add: unat_push_bit unat_of_nat_small)
  then show "unat (a OR b) = 32 * c + unat b"
    using unat_or_shift [of b 5 "of_nat c"] b c by (simp add: unat_of_nat_small)
qed

lemma tag_number_eq: "unat (tag AND CBS_ASN1_TAG_NUMBER_MASK) = tag_number tag"
  using unat_and_mask [of tag 29] by (simp add: mask_eq_exp_minus_1 tag_number_def)

text \<open>The identifier octets \<open>CBB_add_asn1\<close> writes are the ones the reader reads.\<close>

lemma tag_writes:
  assumes h: "heap_bounded env"
  shows "writes env d
    (let tag_bits = ucast (drop_bit CBS_ASN1_TAG_SHIFT tag AND 0xe0) :: u8;
         tag_number = tag AND CBS_ASN1_TAG_NUMBER_MASK
     in if tag_number \<ge> 0x1f then
          and_then (CBB_add_u8 env d (tag_bits OR 0x1f)) (\<lambda>_. add_base128_integer env d (ucast tag_number))
        else CBB_add_u8 env d (tag_bits OR ucast tag_number)) (tag_bytes tag)"
proof -
  let ?c = "ucast (drop_bit 24 tag AND 0xe0) :: u8" and ?n = "tag AND CBS_ASN1_TAG_NUMBER_MASK"
  have ge: "?n \<ge> 0x1f \<longleftrightarrow> \<not> tag_number tag < 31" by (simp add: word_le_nat_alt tag_number_eq not_less)
  have hi: "?c OR 0x1f = of_nat (32 * tag_class tag + 31)"
    using u8_or_low [OF tag_bits_eq _ tag_class_bound, of "0x1f" tag] by (intro unat_eq_of_nat) simp
  have n64: "unat (ucast ?n :: u64) = tag_number tag" using tag_number_eq [of tag] by simp
  have lo: "?c OR ucast ?n = of_nat (32 * tag_class tag + tag_number tag)" if "tag_number tag < 31"
  proof -
    have "unat (ucast ?n :: u8) = tag_number tag"
      using that tag_number_eq [of tag] by (simp add: unat_ucast_mod del: unat_ucast_up)
    then show ?thesis
      using u8_or_low [OF tag_bits_eq _ tag_class_bound, of "ucast ?n" tag] that
      by (intro unat_eq_of_nat) simp
  qed
  show ?thesis
  proof (cases "tag_number tag < 31")
    case True
    then show ?thesis using CBB_add_u8_writes [OF h] lo unfolding Let_def ge by (simp add: tag_bytes_def)
  next
    case False
    then show ?thesis
      using writes_Cons [OF h add_base128_integer_writes [OF h], of d "?c OR 0x1f" "ucast ?n"]
      unfolding Let_def ge hi n64 by (simp add: tag_bytes_def)
  qed
qed

lemma CBB_add_asn1_opens:
  assumes h: "heap_bounded env"
  shows "opens env d (CBB_add_asn1 env d tag) (tag_bytes tag) Asn1"
proof -
  let ?tag = "let tag_bits = ucast (drop_bit CBS_ASN1_TAG_SHIFT tag AND 0xe0) :: u8;
         tag_number = tag AND CBS_ASN1_TAG_NUMBER_MASK
     in if tag_number \<ge> 0x1f then
          and_then (CBB_add_u8 env d (tag_bits OR 0x1f)) (\<lambda>_. add_base128_integer env d (ucast tag_number))
        else CBB_add_u8 env d (tag_bits OR ucast tag_number)"
  let ?rest = "\<lambda>_ :: unit. \<lambda>cbb. case base_of d cbb of
                 None \<Rightarrow> (None, cbb)
               | Some base \<Rightarrow>
                   and_then (CBB_add_u8 env d 0)
                     (\<lambda>_ cbb. (Some (), push_child (cb_len base) 1 True cbb)) cbb"
  have eq: "CBB_add_asn1 env d tag =
      and_then (and_then (CBB_flush env d) (\<lambda>_. ?tag)) ?rest"
    by (auto simp: CBB_add_asn1_def Let_def and_then_def fun_eq_iff split: prod.splits option.splits)
  have w: "writes env d (and_then (CBB_flush env d) (\<lambda>_. ?tag)) (tag_bytes tag)"
    using writes_and_then [OF CBB_flush_writes [OF h] tag_writes [OF h]] by simp
  show ?thesis unfolding eq
  proof (rule opensI [OF w, where w = "\<lambda>_. CBB_add_u8 env d 0"])
    show "writes env d (CBB_add_u8 env d 0) (replicate (prefix_len Asn1) 0)"
      using CBB_add_u8_writes [OF h, of d 0] by simp
    fix a cbb P assume "writer_at d cbb P []"
    then obtain b where b: "base_of d cbb = Some b" "buffer_ok b" "contents b = P"
      by (auto simp: writer_at_def base_of_def split: option.splits)
    have "cb_len b = length P" using length_contents [OF b(2)] b(3) by simp
    then show "?rest a cbb = and_then (CBB_add_u8 env d 0)
        (\<lambda>_ c. (Some (), push_child (length P) (prefix_len Asn1) (Asn1 = Asn1) c)) cbb"
      using b by simp
  qed simp
qed

text \<open>
  An element: \<open>CBB_add_asn1\<close>, the contents written to the child, and a flush of the parent.
\<close>

lemma asn1_element_writes:
  assumes "heap_bounded env" and "\<And>a. writes env (Suc d) (body a) y" and "length y \<le> 0xfffffffe"
  shows "writes env d (and_then (CBB_add_asn1 env d tag) (\<lambda>a. and_then (body a) (\<lambda>_. CBB_flush env d)))
    (der_element tag y)"
  using writes_element [OF CBB_add_asn1_opens [OF assms(1)] assms(2,1), of "der_length (length y) @ y"]
    assms(3) by (simp add: der_element_def der_header_def)

section \<open>Typed elements\<close>

lemma and_then_assoc: "and_then (and_then m f) g = and_then m (\<lambda>a. and_then (f a) g)"
  by (auto simp: and_then_def fun_eq_iff split: prod.splits option.splits)

lemma ok_and_then [simp]: "and_then (ok a) f = f a"
  by (simp add: and_then_def fun_eq_iff)

lemma writes_octet_string:
  "heap_bounded env \<Longrightarrow> length data \<le> 0xfffffffe \<Longrightarrow>
    writes env d (CBB_add_asn1_octet_string env d data) (der_element CBS_ASN1_OCTETSTRING data)"
  unfolding CBB_add_asn1_octet_string_def by (intro asn1_element_writes CBB_add_bytes_writes) auto

lemma writes_bool:
  "heap_bounded env \<Longrightarrow>
    writes env d (CBB_add_asn1_bool env d b) (der_element CBS_ASN1_BOOLEAN [if b then 0xff else 0])"
  unfolding CBB_add_asn1_bool_def by (intro asn1_element_writes CBB_add_u8_writes) auto

fun add_u8s :: "heap_env \<Rightarrow> nat \<Rightarrow> bytes \<Rightarrow> unit writer" where
  "add_u8s env d [] = ok ()"
| "add_u8s env d (b # bs) = and_then (CBB_add_u8 env d b) (\<lambda>_. add_u8s env d bs)"

lemma add_u8s_writes:
  assumes "heap_bounded env" shows "bs \<noteq> [] \<Longrightarrow> writes env d (add_u8s env d bs) bs"
proof (induction bs)
  case (Cons b bs)
  show ?case
  proof (cases bs)
    case Nil
    then show ?thesis using CBB_add_u8_writes [OF assms] by simp
  next
    case (Cons c cs)
    then show ?thesis using writes_Cons [OF assms Cons.IH] by simp
  qed
qed simp

fun uint_contents :: "bytes \<Rightarrow> bool \<Rightarrow> bytes" where
  "uint_contents [] started = (if started then [] else [0])"
| "uint_contents (b # bs) started =
     (if \<not> started \<and> b = 0 then uint_contents bs started
      else (if \<not> started \<and> b AND 0x80 \<noteq> 0 then [0] else []) @ b # uint_contents bs True)"

lemma uint_contents_started [simp]: "uint_contents bs True = bs"
  by (induction bs) auto

lemma uint_contents_eq: "uint_contents bs False = int_octets (0 # bs)"
proof (induction bs)
  case (Cons b bs)
  have "b \<noteq> 0 \<Longrightarrow> unat b < 128 \<Longrightarrow> int_octets (b # bs) = b # bs"
    by (cases bs) auto
  then show ?case using Cons by (auto simp: u8_high_bit)
qed simp

lemma add_asn1_uint64_loop_eq:
  "and_then (add_asn1_uint64_loop env d v is started)
     (\<lambda>started. if \<not> started then CBB_add_u8 env d 0 else ok ()) =
   add_u8s env d (uint_contents (map (\<lambda>i. ucast (drop_bit (8 * (7 - i)) v)) is) started)"
proof (induction "is" arbitrary: started)
  case (Cons i "is")
  let ?b = "ucast (drop_bit (8 * (7 - i)) v) :: u8"
  note step = add_asn1_uint64_loop.simps(2) uint_contents.simps(2) list.map(2) Let_def
  show ?case
  proof (cases "started \<or> ?b AND 0x80 = 0")
    case True
    then show ?thesis using Cons [of True] Cons [of started] unfolding step
      by (cases "\<not> started \<and> ?b = 0") (auto simp: and_then_assoc)
  next
    case False
    then have "?b \<noteq> 0" by auto
    with False show ?thesis using Cons [of True] unfolding step by (simp add: and_then_assoc)
  qed
qed auto

lemma writes_uint64:
  assumes h: "heap_bounded env"
  shows "writes env d (CBB_add_asn1_uint64 env d v) (der_element CBS_ASN1_INTEGER (uint64_octets v))"
proof -
  let ?body = "and_then (add_asn1_uint64_loop env (Suc d) v [0 ..< 8] False)
     (\<lambda>started. if \<not> started then CBB_add_u8 env (Suc d) 0 else ok ())"
  have m: "map (\<lambda>i. ucast (drop_bit (8 * (7 - i)) v)) [0 ..< 8] = be_bytes 8 (unat v)"
    by (simp add: be_bytes_words upt_conv_Cons)
  have "?body = add_u8s env (Suc d) (uint64_octets v)"
    unfolding add_asn1_uint64_loop_eq m uint_contents_eq uint64_octets_def ..
  then have "writes env (Suc d) ?body (uint64_octets v)"
    using add_u8s_writes [OF h uint64_octets_facts(1)] by simp
  moreover have "length (uint64_octets v) \<le> 0xfffffffe" using uint64_octets_facts(5) [of v] by simp
  moreover have "CBB_add_asn1_uint64 env d v =
      and_then (CBB_add_asn1 env d CBS_ASN1_INTEGER) (\<lambda>_. and_then ?body (\<lambda>_. CBB_flush env d))"
    unfolding CBB_add_asn1_uint64_def and_then_assoc ..
  ultimately show ?thesis using asn1_element_writes [OF h, of d "\<lambda>_. ?body"] by simp
qed

lemma sint_nonneg_iff: "sint (v :: u64) \<ge> 0 \<longleftrightarrow> unat v < 2 ^ 63"
proof -
  have "sint v < 0 \<longleftrightarrow> bit v 63" using bit_last_iff [of v] by simp
  also have "\<dots> \<longleftrightarrow> bit (unat v) 63" by (simp add: bit_unsigned_iff)
  also have "\<dots> \<longleftrightarrow> odd (unat v div 2 ^ 63)" by (rule bit_iff_odd)
  also have "\<dots> \<longleftrightarrow> 2 ^ 63 \<le> unat v"
  proof -
    have "unat v div 2 ^ 63 < 2" using unat_u64_bound [of v] by (simp add: div_less_iff_less_mult)
    then have "unat v div 2 ^ 63 \<in> {0, 1}" by auto
    then have "odd (unat v div 2 ^ 63) \<longleftrightarrow> unat v div 2 ^ 63 \<noteq> 0" by fastforce
    then show ?thesis by (simp add: div_eq_0_iff not_less)
  qed
  finally show ?thesis by auto
qed

lemma hd_be_bytes_8: "unat (hd (be_bytes 8 (unat (v :: u64)))) = unat v div 2 ^ 56"
proof -
  have "unat v div 2 ^ 56 < 256" using unat_u64_bound [of v] by (simp add: div_less_iff_less_mult)
  then show ?thesis by (simp add: be_bytes_words unat_ucast_mod unat_drop_bit del: unat_ucast_up)
qed

lemma int64_octets_nonneg: "sint v \<ge> 0 \<Longrightarrow> int64_octets v = uint64_octets v"
proof -
  assume "sint v \<ge> 0"
  then have "unat v div 2 ^ 56 < 128" by (simp add: sint_nonneg_iff div_less_iff_less_mult)
  moreover obtain b bs where "be_bytes 8 (unat v) = b # bs" by (cases "be_bytes 8 (unat v)") auto
  ultimately show ?thesis
    using hd_be_bytes_8 [of v] by (simp add: int64_octets_def uint64_octets_def)
qed

lemma int64_start_octets:
  "n < length u \<Longrightarrow> 128 \<le> unat (u ! n) \<Longrightarrow>
    int64_start u n < length u \<and>
    rev (take (Suc (int64_start u n)) u) = int_octets (rev (take (Suc n) u))"
proof (induction n)
  case 0
  then show ?case by (cases u) auto
next
  case (Suc n)
  have r: "rev (take (Suc (Suc n)) u) = u ! Suc n # u ! n # rev (take n u)"
    and r1: "rev (take (Suc n) u) = u ! n # rev (take n u)"
    using Suc.prems by (simp_all add: take_Suc_conv_app_nth)
  show ?case
  proof (cases "u ! Suc n = 0xff \<and> 128 \<le> unat (u ! n)")
    case True
    then have "int64_start u (Suc n) = int64_start u n" by (simp add: u8_high_bit)
    then show ?thesis using Suc.IH Suc.prems True unfolding r r1 by simp
  next
    case False
    then have s: "int64_start u (Suc n) = Suc n" by (auto simp: u8_high_bit)
    have "u ! Suc n \<noteq> 0" using Suc.prems(2) by auto
    then have i: "int_octets (rev (take (Suc (Suc n)) u)) = rev (take (Suc (Suc n)) u)"
      using False unfolding r by auto
    show ?thesis unfolding s i using Suc.prems(1) by simp
  qed
qed

lemma add_bytes_down_eq: "n < length u \<Longrightarrow> add_bytes_down env d u n = add_u8s env d (rev (take (Suc n) u))"
  by (induction n) (simp_all add: take_Suc_conv_app_nth)

lemma writes_int64:
  assumes h: "heap_bounded env"
  shows "writes env d (CBB_add_asn1_int64 env d v) (der_element CBS_ASN1_INTEGER (int64_octets v))"
proof (cases "sint v \<ge> 0")
  case True
  then show ?thesis using writes_uint64 [OF h] by (simp add: CBB_add_asn1_int64_def int64_octets_nonneg)
next
  case False
  let ?u = "le_bytes 8 (unat v)"
  have "128 \<le> unat v div 2 ^ 56"
    using False by (simp add: sint_nonneg_iff not_less less_eq_div_iff_mult_less_eq)
  then have "128 \<le> unat (hd (be_bytes 8 (unat v)))" by (simp add: hd_be_bytes_8)
  then have "128 \<le> unat (?u ! 7)" by (simp add: le_bytes_def rev_nth hd_conv_nth [symmetric])
  then have s: "int64_start ?u 7 < 8" "rev (take (Suc (int64_start ?u 7)) ?u) = int64_octets v"
    using int64_start_octets [of 7 ?u] by (simp_all add: int64_octets_def le_bytes_def)
  have "add_bytes_down env (Suc d) ?u (int64_start ?u 7) = add_u8s env (Suc d) (int64_octets v)"
    using s add_bytes_down_eq [of "int64_start ?u 7" ?u] by simp
  moreover have "int64_octets v \<noteq> []" by (simp add: int64_octets_def)
  moreover have "length (int64_octets v) \<le> 8"
    using length_int_octets [of "be_bytes 8 (unat v)"] by (simp add: int64_octets_def)
  ultimately show ?thesis
    using asn1_element_writes [OF h add_u8s_writes [OF h], of "int64_octets v" d CBS_ASN1_INTEGER] False
    by (simp add: CBB_add_asn1_int64_def Let_def)
qed

section \<open>The contract of an operation that adds a value\<close>

text \<open>
  \<open>appender\<close>: an operation that writes the encoding of a value to the object it is called
  on, at any depth. \<open>serialiser\<close>: one whose encoding a reader of \<open>cbs.c\<close> takes apart.
\<close>

definition serialise :: "heap_env \<Rightarrow> nat \<Rightarrow> unit writer \<Rightarrow> bytes option" where
  "serialise env initial_capacity m =
     (case and_then (CBB_init env initial_capacity) (\<lambda>_. and_then m (\<lambda>_. CBB_finish env 0 True True)) CBB_zero of
        (None, _) \<Rightarrow> None
      | (Some (data, len), _) \<Rightarrow> Some (take len data))"

lemma CBB_init_Some:
  assumes "heap_bounded env" "cap < 2 ^ 62" "CBB_init env cap s = (Some u, cbb)"
  shows "writer_at 0 cbb [] []" "\<exists>b. cbb_base cbb = Some b \<and> cb_can_resize b \<and> cb_cap b = cap"
proof -
  obtain buf where b: "cbb = CBB_zero \<lparr> cbb_base := Some \<lparr> cb_buf = buf, cb_len = 0, cb_cap = cap,
      cb_can_resize = True, cb_error = False \<rparr> \<rparr>" and l: "length buf = cap"
    using assms OPENSSL_malloc_Some [of env cap]
    by (auto simp: CBB_init_def cbb_init_def split: option.splits if_splits)
  show "writer_at 0 cbb [] []" "\<exists>b. cbb_base cbb = Some b \<and> cb_can_resize b \<and> cb_cap b = cap"
    using b l assms(2) by (simp_all add: writer_at_def buffer_ok_def contents_def CBB_zero_def)
qed

lemma CBB_init_None:
  assumes "\<forall>n \<le> max cap 32 + 8. can_alloc env n" "cap < 2 ^ 62"
  shows "CBB_init env cap s \<noteq> (None, cbb)"
  using assms by (auto simp: CBB_init_def cbb_init_def OPENSSL_malloc_eq Let_def split: option.splits if_splits)

lemma CBB_finish_at_end:
  assumes "writer_at 0 cbb P []"
  obtains buf n where "CBB_finish env 0 True True cbb = (Some (buf, n), CBB_cleanup 0 cbb)" "take n buf = P"
proof -
  obtain b where "cbb_base cbb = Some b" "contents b = P"
    using assms by (auto simp: writer_at_def split: option.splits)
  then show ?thesis
    using that CBB_flush_here [OF assms, of env] by (auto simp: CBB_finish_def contents_def)
qed

lemma serialise_writes:
  assumes h: "heap_bounded env" and m: "writes env 0 m x" and cap: "cap < 2 ^ 62"
  shows "serialise env cap m \<in> {None, Some x}"
    and "length x < 2 ^ 60 \<Longrightarrow> \<forall>n \<le> 2 * length x + cap + 40. can_alloc env n \<Longrightarrow> serialise env cap m = Some x"
proof -
  have fin: "serialise env cap m = Some x"
    if i: "CBB_init env cap CBB_zero = (Some u, cbb)" and i2: "m cbb = (Some v, cbb')" for u cbb v cbb'
  proof -
    have w: "writer_at 0 cbb [] []" by (rule CBB_init_Some [OF h cap i])
    obtain t where "close_frames [] = Some t" "writer_at 0 cbb' ([] @ t @ x) []"
      by (rule writes_Some [OF m w i2])
    then have "writer_at 0 cbb' x []" by simp
    from CBB_finish_at_end [OF this, of env] obtain buf n
      where "CBB_finish env 0 True True cbb' = (Some (buf, n), CBB_cleanup 0 cbb')" "take n buf = x" .
    then show ?thesis using i i2 by (simp add: serialise_def)
  qed
  obtain r cbb where i: "CBB_init env cap CBB_zero = (r, cbb)" by (cases "CBB_init env cap CBB_zero")
  obtain r2 cbb' where i2: "m cbb = (r2, cbb')" by (cases "m cbb")
  show "serialise env cap m \<in> {None, Some x}"
  proof (cases r)
    case None
    then show ?thesis using i by (simp add: serialise_def)
  next
    case (Some u)
    note r = Some
    show ?thesis
    proof (cases r2)
      case None
      then show ?thesis using i i2 Some by (simp add: serialise_def)
    next
      case (Some v)
      then show ?thesis using fin i i2 r by simp
    qed
  qed
  assume x: "length x < 2 ^ 60" and a: "\<forall>n \<le> 2 * length x + cap + 40. can_alloc env n"
  have "r \<noteq> None" using CBB_init_None [OF _ cap, of env CBB_zero cbb] a i by auto
  then obtain u where r: "r = Some u" by auto
  note init = CBB_init_Some [OF h cap i [unfolded r]]
  have "r2 \<noteq> None"
  proof
    assume "r2 = None"
    then have "\<not> cbb_room env cbb (length ([] @ [] @ x))"
      using writes_None(2) [OF m init(1), of cbb' "[]"] i2 by simp
    then show False using init(2) x a by (auto simp: cbb_room_def room_def)
  qed
  then show "serialise env cap m = Some x" using fin i i2 r by auto
qed

locale appender =
  fixes add :: "heap_env \<Rightarrow> nat \<Rightarrow> 'a \<Rightarrow> unit writer"
    and enc :: "'a \<Rightarrow> bytes"
    and valid :: "'a \<Rightarrow> bool"
  assumes add_writes: "heap_bounded env \<Longrightarrow> valid a \<Longrightarrow> writes env d (add env d a) (enc a)"
begin

lemma serialise_add:
  "heap_bounded env \<Longrightarrow> valid a \<Longrightarrow> cap < 2 ^ 62 \<Longrightarrow> length (enc a) < 2 ^ 60 \<Longrightarrow>
    \<forall>n \<le> 2 * length (enc a) + cap + 40. can_alloc env n \<Longrightarrow>
    serialise env cap (add env 0 a) = Some (enc a)"
  by (rule serialise_writes(2) [OF _ add_writes])

lemma serialise_add_Some:
  "heap_bounded env \<Longrightarrow> valid a \<Longrightarrow> cap < 2 ^ 62 \<Longrightarrow> serialise env cap (add env 0 a) = Some x \<Longrightarrow> x = enc a"
  using serialise_writes(1) [OF _ add_writes, of env a cap] by auto

end

locale serialiser = codec rd enc valid + appender add enc valid
  for rd :: "(bytes, 'a) op" and enc :: "'a \<Rightarrow> bytes" and valid :: "'a \<Rightarrow> bool"
    and add :: "heap_env \<Rightarrow> nat \<Rightarrow> 'a \<Rightarrow> unit writer"
begin

text \<open>Whatever a successful run of the writer produced, the reader gives the value back.\<close>

lemma read_back:
  "heap_bounded env \<Longrightarrow> valid a \<Longrightarrow> cap < 2 ^ 62 \<Longrightarrow> serialise env cap (add env 0 a) = Some x \<Longrightarrow>
    rd (x @ t) = (Some a, t)"
  using serialise_add_Some rd_enc by blast

text \<open>And what the reader accepts is what the writer writes: the encoding is canonical.\<close>

lemma write_back:
  "heap_bounded env \<Longrightarrow> rd s = (Some a, s') \<Longrightarrow> cap < 2 ^ 62 \<Longrightarrow>
    serialise env cap (add env 0 a) = Some x \<Longrightarrow> s = x @ s'"
  using serialise_add_Some rd_Some by blast

end

interpretation w_u8: serialiser CBS_get_u8 "\<lambda>b. [b]" "\<lambda>_. True" CBB_add_u8
  by unfold_locales (rule CBB_add_u8_writes)

interpretation w_u16: serialiser CBS_get_u16 "\<lambda>v. be_bytes 2 (unat v)" "\<lambda>v. unat v < (256::nat) ^ 2" CBB_add_u16
  by unfold_locales (rule CBB_add_u16_writes)

interpretation w_u24: serialiser CBS_get_u24 "\<lambda>v. be_bytes 3 (unat v)" "\<lambda>v. unat v < (256::nat) ^ 3" CBB_add_u24
  by unfold_locales (rule CBB_add_u24_writes)

interpretation w_u32: serialiser CBS_get_u32 "\<lambda>v. be_bytes 4 (unat v)" "\<lambda>v. unat v < (256::nat) ^ 4" CBB_add_u32
  by unfold_locales (rule CBB_add_u32_writes)

interpretation w_u64: serialiser CBS_get_u64 "\<lambda>v. be_bytes 8 (unat v)" "\<lambda>v. unat v < (256::nat) ^ 8" CBB_add_u64
  by unfold_locales (rule CBB_add_u64_writes)

interpretation w_u16le: serialiser CBS_get_u16le "\<lambda>v. le_bytes 2 (unat v)" "\<lambda>_. True" CBB_add_u16le
  by unfold_locales (rule CBB_add_u16le_writes)

interpretation w_u32le: serialiser CBS_get_u32le "\<lambda>v. le_bytes 4 (unat v)" "\<lambda>_. True" CBB_add_u32le
  by unfold_locales (rule CBB_add_u32le_writes)

interpretation w_u64le: serialiser CBS_get_u64le "\<lambda>v. le_bytes 8 (unat v)" "\<lambda>_. True" CBB_add_u64le
  by unfold_locales (rule CBB_add_u64le_writes)

interpretation w_base128: serialiser parse_base128_integer "\<lambda>v. base128_bytes (unat v)" "\<lambda>_. True" add_base128_integer
  by unfold_locales (rule add_base128_integer_writes)

interpretation w_uint64: serialiser CBS_get_asn1_uint64
  "\<lambda>v. der_element CBS_ASN1_INTEGER (uint64_octets v)" "\<lambda>_. True" CBB_add_asn1_uint64
  by unfold_locales (rule writes_uint64)

interpretation w_int64: serialiser CBS_get_asn1_int64
  "\<lambda>v. der_element CBS_ASN1_INTEGER (int64_octets v)" "\<lambda>_. True" CBB_add_asn1_int64
  by unfold_locales (rule writes_int64)

interpretation w_bool: serialiser CBS_get_asn1_bool
  "\<lambda>b. der_element CBS_ASN1_BOOLEAN [if b then 0xff else 0]" "\<lambda>_. True" CBB_add_asn1_bool
  by unfold_locales (rule writes_bool)

interpretation octet_string: appender CBB_add_asn1_octet_string
  "der_element CBS_ASN1_OCTETSTRING" "\<lambda>c. length c \<le> 0xfffffffe"
  by unfold_locales (rule writes_octet_string)

interpretation raw_bytes: appender CBB_add_bytes "\<lambda>c. c" "\<lambda>c. length c < 2 ^ 62"
  by unfold_locales (rule CBB_add_bytes_writes)

section \<open>Errors are sticky\<close>

lemma CBB_flush_failed: "cbb_failed cbb \<Longrightarrow> CBB_flush env d cbb = (None, cbb)"
  by (auto simp: CBB_flush.simps [of env d] cbb_failed_def base_of_def split: option.splits)


section \<open>SET OF\<close>

text \<open>
  The comparison is the lexicographic order on octet strings, which is a linear order: the
  order the library gives to lists of bytes.
\<close>

lemma compare_set_of_element_Cons:
  "compare_set_of_element (x # a) (y # b) =
    (if x < y then -1 else if y < x then 1 else compare_set_of_element a b)"
  by (simp add: compare_set_of_element_def CBS_len_def Let_def)

lemma compare_set_of_element_eq:
  "compare_set_of_element a b = (if a = b then 0 else if a < b then -1 else 1)"
proof (induction a arbitrary: b)
  case Nil
  then show ?case by (cases b) (simp_all add: compare_set_of_element_def CBS_len_def)
next
  case (Cons x a)
  note IH = Cons.IH
  show ?case
  proof (cases b)
    case (Cons y c)
    then show ?thesis using IH [of c] by (auto simp: compare_set_of_element_Cons)
  qed (simp add: compare_set_of_element_def CBS_len_def)
qed

lemma insert_by_compare: "insert_by compare_set_of_element x ys = insort x ys"
  by (induction ys) (auto simp: compare_set_of_element_eq)

lemma qsort_compare: "qsort compare_set_of_element xs = sort xs"
proof -
  have "insert_by compare_set_of_element = insort" by (intro ext) (rule insert_by_compare)
  then show ?thesis by (simp add: qsort_def sort_key_def)
qed

interpretation any_element: element_codec CBS_get_any_asn1_element fst
  "\<lambda>(out, tag, hl). \<exists>c. length c < 2 ^ 32 \<and> out = der_element tag c \<and>
     hl = length (der_header tag (length c))"
  by unfold_locales (auto simp: any_element_iff)

lemma add_all_writes:
  assumes "heap_bounded env" and "\<forall>c \<in> set cs. length c < 2 ^ 62" and "writer_at d cbb P []"
    and "cbb_base cbb = Some b" and "length (P @ concat cs) \<le> cb_cap b"
  shows "\<exists>cbb'. add_all env d cs cbb = (Some (), cbb') \<and> writer_at d cbb' (P @ concat cs) [] \<and>
    cbb_children cbb' = cbb_children cbb"
  using assms(2-)
proof (induction cs arbitrary: cbb P b)
  case (Cons c cs)
  note w = Cons.prems(2)
  have wr: "writes env d (CBB_add_bytes env d c) c"
    using assms(1) Cons.prems(1) by (intro CBB_add_bytes_writes) auto
  have ch: "take d (cbb_children cbb) = cbb_children cbb" using w by (simp add: writer_at_def)
  obtain r cbb1 where r: "CBB_add_bytes env d c cbb = (r, cbb1)" by (cases "CBB_add_bytes env d c cbb")
  have "r \<noteq> None"
  proof
    assume "r = None"
    then have "\<not> cbb_room env cbb (length (P @ [] @ c))"
      using writes_None(2) [OF wr w, of cbb1 "[]"] r by simp
    then show False using Cons.prems(3,4) by (simp add: cbb_room_def room_def)
  qed
  then have r1: "CBB_add_bytes env d c cbb = (Some (), cbb1)" using r by auto
  obtain t where "close_frames [] = Some t" "writer_at d cbb1 (P @ t @ c) []"
      and ch1: "cbb_children cbb1 = take d (cbb_children cbb)" and g: "cbb_grown cbb cbb1"
    by (rule writes_Some [OF wr w r1])
  then have w1: "writer_at d cbb1 (P @ c) []" by simp
  then obtain b1 where b1: "cbb_base cbb1 = Some b1" by (auto simp: writer_at_def split: option.splits)
  have "cb_cap b \<le> cb_cap b1" using g b1 Cons.prems(3) by (simp add: cbb_grown_def grown_def)
  then have "length ((P @ c) @ concat cs) \<le> cb_cap b1" using Cons.prems(4) by simp
  from Cons.IH [OF _ w1 b1 this] Cons.prems(1)
  show ?case using r1 ch1 ch by auto
qed auto


lemma any_element_lengths:
  "concat (map fst es) = c \<Longrightarrow> e \<in> set es \<Longrightarrow> length (fst e) \<le> length c"
  by (induction es arbitrary: c) auto

lemma length_concat_insort: "length (concat (insort x xs)) = length x + length (concat xs)"
  by (induction xs) auto

lemma length_concat_sort: "length (concat (sort xs)) = length (concat xs)"
  by (induction xs) (simp_all add: length_concat_insort)

lemma sort_short: "length xs < 2 \<Longrightarrow> sort xs = xs"
  by (cases xs; cases "tl xs") auto

lemma CBB_data_at:
  assumes "writer_at d cbb (Q @ c) []" and "CBB_data_pos d cbb = length Q"
  shows "CBB_data d cbb = Some c"
proof -
  obtain b where b: "cbb_base cbb = Some b" "buffer_ok b" "contents b = Q @ c" "d \<le> length (cbb_children cbb)"
    using assms(1) by (auto simp: writer_at_def split: option.splits)
  have "take (cb_len b - length Q) (drop (length Q) (cb_buf b)) = drop (length Q) (contents b)"
    by (simp add: contents_def drop_take)
  then show ?thesis using b assms(2) by (simp add: CBB_data_def base_of_def)
qed

text \<open>
  \<open>CBB_flush_asn1_set_of\<close> on a flushed object whose contents are \<open>c\<close>: it succeeds when
  \<open>c\<close> is a sequence of DER elements and its two scratch blocks can be allocated, and
  leaves those elements in ascending order.
\<close>

lemma set_of_flushed:
  assumes h: "heap_bounded env" and w: "writer_at d cbb (Q @ c) []" and pos: "CBB_data_pos d cbb = length Q"
  shows "case CBB_flush_asn1_set_of env d cbb of
      (Some _, cbb') \<Rightarrow> \<exists>es. read_all CBS_get_any_asn1_element c = Some es \<and>
        (2 \<le> length es \<longrightarrow> \<not> (length es > SIZE_MAX div 16 \<or> OPENSSL_memdup env c = None \<or>
          OPENSSL_malloc env (length es * 16) = None)) \<and>
        writer_at d cbb' (Q @ concat (sort (map fst es))) [] \<and> cbb_children cbb' = cbb_children cbb
    | (None, cbb') \<Rightarrow> cbb' = cbb \<and> (read_all CBS_get_any_asn1_element c = None \<or>
        (\<exists>es. read_all CBS_get_any_asn1_element c = Some es \<and> 2 \<le> length es \<and>
          (length es > SIZE_MAX div 16 \<or> OPENSSL_memdup env c = None \<or>
           OPENSSL_malloc env (length es * 16) = None)))"
proof -
  note data = CBB_data_at [OF w pos]
  obtain b where b: "cbb_base cbb = Some b" "buffer_ok b" "contents b = Q @ c"
    and ch: "d \<le> length (cbb_children cbb)" "drop d (cbb_children cbb) = []"
    using w by (auto simp: writer_at_def split: option.splits)
  have len: "cb_len b = length Q + length c" using length_contents [OF b(2)] b(3) by simp
  have lc: "length c < 2 ^ 62" using len b(2) by (simp add: buffer_ok_def)
  have fl: "CBB_flush env d cbb = (Some (), cbb)" by (rule CBB_flush_here [OF w])
  show ?thesis
  proof (cases "read_all CBS_get_any_asn1_element c")
    case None
    then show ?thesis by (simp add: CBB_flush_asn1_set_of_def fl data)
  next
    case (Some es)
    have c: "c = concat (map fst es)" using Some any_element.read_all_iff [of c es] by simp
    show ?thesis
    proof (cases "length es < 2")
      case True
      have run: "CBB_flush_asn1_set_of env d cbb = (Some (), cbb)"
        using True Some by (simp add: CBB_flush_asn1_set_of_def fl data)
      have "sort (map fst es) = map fst es" using True by (intro sort_short) simp
      then show ?thesis unfolding run using Some True w c by simp
    next
      case False
      let ?big = "length es > SIZE_MAX div 16"
      let ?rew = "cbb \<lparr> cbb_base := map_option (\<lambda>b. b \<lparr> cb_len := CBB_data_pos d cbb \<rparr>) (cbb_base cbb) \<rparr>"
      show ?thesis
      proof (cases "?big \<or> OPENSSL_memdup env c = None \<or> OPENSSL_malloc env (length es * 16) = None")
        case True
        then have "CBB_flush_asn1_set_of env d cbb = (None, cbb)"
          using False Some by (auto simp: CBB_flush_asn1_set_of_def fl data Let_def split: option.splits)
        then show ?thesis using Some True False by simp
      next
        case ok: False
        then obtain buf m where m: "OPENSSL_memdup env c = Some buf" "OPENSSL_malloc env (length es * 16) = Some m"
          by auto
        have buf: "buf = c" using OPENSSL_memdup_Some [OF m(1)] lc by simp
        have run: "CBB_flush_asn1_set_of env d cbb = add_all env d (sort (map fst es)) ?rew"
          using False ok Some m buf by (simp add: CBB_flush_asn1_set_of_def fl data Let_def qsort_compare)
        have "writer_at d ?rew Q []"
          using b ch pos len by (simp add: writer_at_def buffer_ok_def contents_def)
             (metis append_eq_conv_conj min.absorb1 le_add1 take_take)
        moreover have "\<forall>x \<in> set (sort (map fst es)). length x < 2 ^ 62"
          using any_element_lengths [OF c [symmetric]] lc by fastforce
        moreover have "length (Q @ concat (sort (map fst es))) \<le> cb_cap b"
          using len b(2) by (simp add: length_concat_sort c [symmetric] buffer_ok_def)
        ultimately obtain cbb' where "add_all env d (sort (map fst es)) ?rew = (Some (), cbb')"
          "writer_at d cbb' (Q @ concat (sort (map fst es))) []" "cbb_children cbb' = cbb_children cbb"
          using add_all_writes [OF h, of "sort (map fst es)" d ?rew Q "b \<lparr> cb_len := length Q \<rparr>"] b pos by auto
        then show ?thesis unfolding run using Some ok by simp
      qed
    qed
  qed
qed

text \<open>The two scratch blocks a set of two or more elements needs.\<close>

lemma OPENSSL_memdup_None:
  assumes "2 \<le> length c" and "length c < 2 ^ 62"
  shows "OPENSSL_memdup env c = None \<longleftrightarrow> \<not> can_alloc env (length c + 8)"
  using assms by (auto simp: OPENSSL_memdup_def OPENSSL_malloc_eq Let_def)

lemma set_of_array_None:
  assumes h: "heap_bounded env" and n: "n < 2 ^ 62"
  shows "n > SIZE_MAX div 16 \<or> OPENSSL_malloc env (n * 16) = None \<longleftrightarrow> \<not> can_alloc env (16 * n + 8)"
proof (cases "n > SIZE_MAX div 16")
  case True
  then have "\<not> 16 * n + 8 < 2 ^ 62" by simp
  then have "\<not> can_alloc env (16 * n + 8)" using h by (auto simp: heap_bounded_def)
  then show ?thesis using True by simp
next
  case False
  then have "16 * n + 8 < 2 ^ 64" by simp
  then show ?thesis using False by (simp add: OPENSSL_malloc_eq Let_def mult.commute)
qed

text \<open>A list of DER elements; it is determined by what its elements spell together.\<close>

definition der_elements :: "bytes list \<Rightarrow> bool" where
  "der_elements es \<longleftrightarrow> (\<forall>e \<in> set es. \<exists>tag c. length c < 2 ^ 32 \<and> e = der_element tag c)"

lemma der_elements_read_all:
  "der_elements es \<and> c = concat es \<longleftrightarrow> (\<exists>as. read_all CBS_get_any_asn1_element c = Some as \<and> es = map fst as)"
proof
  assume r: "der_elements es \<and> c = concat es"
  then have "\<forall>e \<in> set es. \<exists>a. (case a of (out, tag, hl) \<Rightarrow> \<exists>c. length c < 2 ^ 32 \<and> out = der_element tag c \<and>
     hl = length (der_header tag (length c))) \<and> e = fst a"
    unfolding der_elements_def by fastforce
  then obtain as where "\<forall>a \<in> set as. (case a of (out, tag, hl) \<Rightarrow> \<exists>c. length c < 2 ^ 32 \<and> out = der_element tag c \<and>
     hl = length (der_header tag (length c)))" "es = map fst as"
  proof (induction es arbitrary: thesis)
    case (Cons e es)
    then obtain as where as: "\<forall>a \<in> set as. (case a of (out, tag, hl) \<Rightarrow> \<exists>c. length c < 2 ^ 32 \<and> out = der_element tag c \<and>
     hl = length (der_header tag (length c)))" "es = map fst as" by auto
    obtain a where a: "(case a of (out, tag, hl) \<Rightarrow> \<exists>c. length c < 2 ^ 32 \<and> out = der_element tag c \<and>
     hl = length (der_header tag (length c)))" "e = fst a" using Cons.prems(2) by (auto simp del: split_paired_Ex)
    show ?case by (rule Cons.prems(1) [of "a # as"]) (use as a in auto)
  qed simp
  then show "\<exists>as. read_all CBS_get_any_asn1_element c = Some as \<and> es = map fst as"
    using r by (auto simp: any_element.read_all_iff)
next
  assume "\<exists>as. read_all CBS_get_any_asn1_element c = Some as \<and> es = map fst as"
  then show "der_elements es \<and> c = concat es"
    by (fastforce simp: any_element.read_all_iff der_elements_def)
qed

lemma der_elements_unique:
  "der_elements es \<Longrightarrow> der_elements es' \<Longrightarrow> concat es = concat es' \<Longrightarrow> es = es'"
  by (metis der_elements_read_all option.inject)

lemma der_element_two_bytes: "2 \<le> length (der_element tag c)"
  using tag_bytes_nonempty [of tag] by (cases "tag_bytes tag") (simp_all add: der_element_def der_header_def der_length_def)

lemma der_elements_length: "der_elements es \<Longrightarrow> 2 * length es \<le> length (concat es)"
proof (induction es)
  case (Cons e es)
  then have "2 \<le> length e" using der_element_two_bytes by (auto simp: der_elements_def)
  then show ?case using Cons by (simp add: der_elements_def)
qed simp

section \<open>Fixed buffers\<close>

text \<open>
  \<open>fixed_kept cap P b\<close>: the buffer is still the fixed array of \<open>cap\<close> bytes, none of
  them added by a write past its end, and begins with \<open>P\<close>.
\<close>

definition fixed_kept :: "nat \<Rightarrow> bytes \<Rightarrow> cbb_buffer \<Rightarrow> bool" where
  "fixed_kept cap P b \<longleftrightarrow>
     \<not> cb_can_resize b \<and> cb_cap b = cap \<and> length (cb_buf b) = cap \<and> take (length P) (cb_buf b) = P"

lemma fixed_kept_len [simp]: "fixed_kept cap P (b \<lparr> cb_len := n \<rparr>) = fixed_kept cap P b"
  by (simp add: fixed_kept_def)

lemma fixed_kept_error [simp]: "fixed_kept cap P (b \<lparr> cb_error := e \<rparr>) = fixed_kept cap P b"
  by (simp add: fixed_kept_def)

lemma fixed_kept_write:
  "fixed_kept cap P b \<Longrightarrow> length P \<le> pos \<Longrightarrow> pos + length x \<le> cap \<Longrightarrow>
    fixed_kept cap P (b \<lparr> cb_buf := mem_write (cb_buf b) pos x \<rparr>)"
  by (auto simp: fixed_kept_def mem_write_def min_def)

lemma fixed_kept_take:
  assumes "fixed_kept cap (P @ Q) b" shows "fixed_kept cap P b"
proof -
  have "take (length P) (take (length (P @ Q)) (cb_buf b)) = take (length P) (P @ Q)"
    using assms unfolding fixed_kept_def by argo
  then show ?thesis using assms unfolding fixed_kept_def by (simp add: min_def)
qed

lemma fixed_kept_write_length:
  assumes "fixed_kept cap P b" and "length P \<le> pos" and "pos + n \<le> cap"
  shows "fixed_kept cap P (snd (write_length pos n v b))"
  using fixed_kept_write [OF assms(1,2), of "be_bytes n v"] assms
  by (auto simp: write_length_def put_be_eq fixed_kept_def)

lemma fixed_kept_add:
  assumes "fixed_kept cap P b" and "buffer_ok b" and "n < 2 ^ 62"
  shows "cbb_buffer_add env n b =
    (if cb_len b + n \<le> cap then (Some (cb_len b), b \<lparr> cb_len := cb_len b + n \<rparr>)
     else (None, b \<lparr> cb_error := True \<rparr>))"
proof -
  have B: "cb_len b \<le> cap" "cap < 2 ^ 62" "cb_cap b = cap" "\<not> cb_can_resize b"
    using assms by (simp_all add: buffer_ok_def fixed_kept_def)
  then have m: "(cb_len b + n) mod 2 ^ 64 = cb_len b + n" using assms(3) by simp
  show ?thesis
    using B unfolding cbb_buffer_add_def and_then_def cbb_buffer_reserve_def m Let_def by simp
qed

lemma flush_child_fixed:
  assumes k: "fixed_kept cap P b" and b: "buffer_ok b"
    and c: "contents b = P @ replicate (prefix_len p) 0 @ c" and p: "0 < prefix_len p"
  shows "fixed_kept cap P (snd (flush_child env (child_record (length P) p) (length P + prefix_len p) b))"
proof -
  have len: "cb_len b = length P + prefix_len p + length c" using length_contents [OF b] c by simp
  have cap: "cb_len b \<le> cap" using k b by (simp add: fixed_kept_def buffer_ok_def)
  show ?thesis
  proof (cases p)
    case (Fixed n)
    then show ?thesis using fixed_kept_write_length [OF k, of "length P" n] len cap
      by (simp add: flush_child_def child_record_def)
  next
    case Asn1
    have l: "cb_len b - Suc (length P) = length c" using len Asn1 by simp
    define k where "k = asn1_len_len (length c) - 1"
    have k5: "k < 2 ^ 62" and kk: "asn1_len_len (length c) = Suc k" by (simp_all add: k_def asn1_len_len_def)
    show ?thesis
    proof (cases "length c > 0xfffffffe")
      case True
      then show ?thesis using assms(1) Asn1 l by (simp add: flush_child_def child_record_def)
    next
      case False
      show ?thesis
      proof (cases "k = 0")
        case True
        then show ?thesis
          using False len Asn1 l cap kk fixed_kept_write [OF assms(1), of "length P" "[of_nat (length c)]"]
          by (simp add: flush_child_def child_record_def Let_def fixed_kept_write_length)
      next
        case k0: False
        show ?thesis
        proof (cases "cb_len b + k \<le> cap")
          case True
          then show ?thesis
            using False k0 len Asn1 l cap kk assms(1) unfolding flush_child_def Let_def
            by (simp add: child_record_def fixed_kept_add [OF assms(1) b k5] and_then_def)
              (intro fixed_kept_write_length, auto simp: fixed_kept_def mem_write_def min_def)
        next
          case full: False
          then show ?thesis
            using False k0 len Asn1 l kk assms(1) unfolding flush_child_def Let_def
            by (simp add: child_record_def fixed_kept_add [OF assms(1) b k5] and_then_def)
        qed
      qed
    qed
  qed
qed

text \<open>What \<open>CBB_flush\<close> leaves of a fixed buffer, whether it succeeds or not.\<close>

definition base_kept :: "nat \<Rightarrow> bytes \<Rightarrow> cbb \<Rightarrow> bool" where
  "base_kept cap P cbb \<longleftrightarrow> (\<exists>b. cbb_base cbb = Some b \<and> fixed_kept cap P b)"

lemma base_kept_simps [simp]:
  "base_kept cap P (set_error cbb) = base_kept cap P cbb"
  "base_kept cap P (cbb \<lparr> cbb_children := cs \<rparr>) = base_kept cap P cbb"
  by (auto simp: base_kept_def set_error_def fixed_kept_def)

lemma writer_at_inner:
  assumes w: "writer_at d cbb P ((p, y) # fs)"
  shows "writer_at (Suc d) cbb (P @ replicate (prefix_len p) 0 @ y) fs"
proof -
  have ch: "drop d (cbb_children cbb) = child_record (length P) p # child_records (length P + prefix_len p + length y) fs"
    using w by (simp add: writer_at_def)
  then have "d < length (cbb_children cbb)" by (metis drop_all linorder_not_le list.distinct(1))
  moreover from this have "drop (Suc d) (cbb_children cbb) = child_records (length P + prefix_len p + length y) fs"
    using ch by (metis Cons_nth_drop_Suc list.inject)
  ultimately show ?thesis using w by (auto simp: writer_at_def add.assoc split: option.splits)
qed

lemma base_kept_front:
  assumes "writer_at d cbb Q fs" and "base_kept cap P cbb"
  shows "base_kept cap Q cbb"
proof -
  obtain b where b: "cbb_base cbb = Some b" "contents b = Q @ frames_bytes fs"
    using assms(1) by (auto simp: writer_at_def split: option.splits)
  have "take (length Q) (contents b) = Q" using b by simp
  then have "take (length Q) (cb_buf b) = Q"
    using b(2) unfolding contents_def by (metis append_eq_conv_conj append_take_drop_id append_assoc)
  then show ?thesis using assms(2) b(1) by (simp add: base_kept_def fixed_kept_def)
qed

lemma CBB_flush_fixed:
  assumes h: "heap_bounded env"
  shows "writer_at d cbb P fs \<Longrightarrow> base_kept cap P cbb \<Longrightarrow> base_kept cap P (snd (CBB_flush env d cbb))"
proof (induction fs arbitrary: d P)
  case Nil
  then show ?case by (simp add: CBB_flush_here)
next
  case (Cons f fs)
  obtain p y where f: "f = (p, y)" by (cases f)
  note w = Cons.prems(1) [unfolded f]
  let ?P = "P @ replicate (prefix_len p) 0 @ y"
  have p: "0 < prefix_len p" using w by (auto simp: writer_at_def)
  note w1 = writer_at_inner [OF w]
  have k1: "base_kept cap ?P cbb" by (rule base_kept_front [OF w1 Cons.prems(2)])
  obtain r cbb1 where r: "CBB_flush env (Suc d) cbb = (r, cbb1)" by (cases "CBB_flush env (Suc d) cbb")
  have k: "base_kept cap ?P cbb1" using Cons.IH [OF w1 k1] r by simp
  then have kP: "base_kept cap P cbb1" by (auto simp: base_kept_def intro: fixed_kept_take)
  show ?case
  proof (cases r)
    case None
    then show ?thesis using kP r by (simp add: CBB_flush_child [OF w])
  next
    case (Some u)
    obtain t where "writer_at (Suc d) cbb1 (?P @ t) []"
      using writes_Some [OF CBB_flush_writes [OF h] w1] r Some by fastforce
    then obtain b1 where b1: "cbb_base cbb1 = Some b1" "buffer_ok b1" "contents b1 = P @ replicate (prefix_len p) 0 @ (y @ t)"
      by (auto simp: writer_at_def split: option.splits)
    have "fixed_kept cap P b1" using kP b1 by (simp add: base_kept_def)
    note fc = flush_child_fixed [OF this b1(2,3) p, of env]
    have "base_kept cap P (snd (on_base d (flush_child env (child_record (length P) p) (length P + prefix_len p)) cbb1))"
      using fc kP b1 by (auto simp: on_base_def base_of_def base_kept_def split: prod.splits)
    then show ?thesis using kP r Some unfolding CBB_flush_child [OF w]
      by (auto split: option.splits prod.splits)
  qed
qed

lemma CBB_add_bytes_at:
  assumes w: "writer_at d cbb1 Q []" and k: "base_kept cap Q cbb1" and data: "length data < 2 ^ 62"
    and fl: "CBB_flush env d cbb = (Some (), cbb1)"
  shows "length (Q @ data) \<le> cap \<Longrightarrow>
      \<exists>cbb'. CBB_add_bytes env d data cbb = (Some (), cbb') \<and> base_kept cap Q cbb' \<and> writer_at d cbb' (Q @ data) []"
    and "length (Q @ data) > cap \<Longrightarrow> CBB_add_bytes env d data cbb = (None, set_error cbb1)"
proof -
  obtain b where b: "cbb_base cbb1 = Some b" "buffer_ok b" "contents b = Q" "d \<le> length (cbb_children cbb1)"
    and f: "fixed_kept cap Q b"
    using w k by (auto simp: writer_at_def base_kept_def split: option.splits)
  have len: "cb_len b = length Q" using length_contents [OF b(2)] b(3) by simp
  note add = fixed_kept_add [OF f b(2) data, unfolded len]
  {
    assume room: "length (Q @ data) \<le> cap"
    let ?b = "b \<lparr> cb_len := length Q + length data, cb_buf := mem_write (cb_buf b) (length Q) data \<rparr>"
    have "CBB_add_bytes env d data cbb = (Some (), cbb1 \<lparr> cbb_base := Some ?b \<rparr>)"
      using room b by (simp add: CBB_add_bytes_def and_then_def fl on_base_def base_of_def add)
    moreover have "base_kept cap Q (cbb1 \<lparr> cbb_base := Some ?b \<rparr>)"
      using f room by (auto simp: base_kept_def fixed_kept_def mem_write_def min_def)
    moreover have "writer_at d (cbb1 \<lparr> cbb_base := Some ?b \<rparr>) (Q @ data) []"
      using w f room b by (simp add: writer_at_def buffer_ok_def contents_def fixed_kept_def take_mem_write_all)
    ultimately show "\<exists>cbb'. CBB_add_bytes env d data cbb = (Some (), cbb') \<and> base_kept cap Q cbb' \<and>
        writer_at d cbb' (Q @ data) []" by blast
  next
    assume "length (Q @ data) > cap"
    then show "CBB_add_bytes env d data cbb = (None, set_error cbb1)"
      using b by (simp add: CBB_add_bytes_def and_then_def fl on_base_def base_of_def add set_error_def)
  }
qed

section \<open>Properties\<close>

text \<open>A heap that serves requests below one mebibyte, and one that has nothing left.\<close>

definition small_heap :: heap_env where
  "small_heap = \<lparr> can_alloc = (\<lambda>n. n < 0x100000), junk = (\<lambda>_. 0xaa) \<rparr>"

lemma small_heap_bounded [simp]: "heap_bounded small_heap"
  by (simp add: small_heap_def heap_bounded_def)

lemma small_heap_alloc [simp]: "can_alloc small_heap n \<longleftrightarrow> n < 0x100000"
  by (simp add: small_heap_def)

text \<open>C1. Flushing an object closes all its pending children, however deeply nested, from
  the innermost outwards: each length prefix is patched in (an ASN.1 length in the fewest
  octets, the contents being moved to make room), every byte in front is kept, and the chain
  is cut at the object. The call fails only when some contents do not fit their prefix or the
  buffer cannot grow, and then the error flag is set.\<close>

theorem CBB_flush_closes_children:
  assumes "heap_bounded env" and "writer_at d cbb P fs"
  shows "case CBB_flush env d cbb of
      (Some _, cbb') \<Rightarrow>
        (\<exists>t. close_frames fs = Some t \<and> writer_at d cbb' (P @ t) [] \<and>
           cbb_children cbb' = take d (cbb_children cbb))
    | (None, cbb') \<Rightarrow>
        cbb_failed cbb' \<and>
        (close_frames fs = None \<or>
         (\<exists>t. close_frames fs = Some t \<and> \<not> cbb_room env cbb (length (P @ t))))"
  using CBB_flush_writes [OF assms(1), of d, unfolded writes_def, rule_format, OF assms(2)]
  by (auto split: option.splits prod.splits)

text \<open>A \<open>CBB\<close> with an open element of tag 0x30 in which an 8-bit prefix is open.\<close>

definition nested_cbb :: cbb where
  "nested_cbb = \<lparr> cbb_base = Some \<lparr> cb_buf = [0x30, 0, 0, 7, 8, 0xaa], cb_len = 5, cb_cap = 6,
       cb_can_resize = True, cb_error = False \<rparr>,
     cbb_children = [child_record 1 Asn1, child_record 2 (Fixed 1)] \<rparr>"

theorem CBB_flush_closes_children_witness:
  "\<exists>cbb'. CBB_flush small_heap 0 nested_cbb = (Some (), cbb') \<and>
     writer_at 0 cbb' [0x30, 3, 2, 7, 8] [] \<and> cbb_children cbb' = []"
proof -
  have close: "close_frames [(Asn1, []), (Fixed 1, [7, 8])] = Some [3, 2, 7, 8]"
    by (simp add: der_length_def)
  have "writer_at 0 nested_cbb [0x30] [(Asn1, []), (Fixed 1, [7, 8])]"
    by (simp add: writer_at_def nested_cbb_def buffer_ok_def contents_def flip: numeral_2_eq_2)
  note result = CBB_flush_closes_children [OF small_heap_bounded this, unfolded close]
  have "cbb_room small_heap nested_cbb (length ([0x30 :: u8] @ [3, 2, 7, 8]))"
    by (simp add: cbb_room_def room_def nested_cbb_def)
  then show ?thesis using result by (auto split: prod.splits option.splits)
qed

definition add_element :: "heap_env \<Rightarrow> nat \<Rightarrow> u32 \<times> bytes \<Rightarrow> unit writer" where
  "add_element env d = (\<lambda>(tag, data).
     and_then (CBB_add_asn1 env d tag) (\<lambda>_.
       and_then (CBB_add_bytes env (Suc d) data) (\<lambda>_. CBB_flush env d)))"

interpretation elements: appender add_element "\<lambda>(tag, c). der_element tag c"
  "\<lambda>(tag, c). length c \<le> 0xfffffffe"
  by unfold_locales (auto simp: add_element_def intro!: asn1_element_writes CBB_add_bytes_writes)

text \<open>C2. What the writer makes of an element the reader takes apart: with memory enough,
  \<open>CBB_init\<close>, \<open>CBB_add_asn1\<close>, the contents, and \<open>CBB_finish\<close> produce the DER element, and
  \<open>CBS_get_asn1\<close> returns the contents and stops right behind the element.\<close>

theorem CBB_add_asn1_round_trip:
  assumes "heap_bounded env" and "length data \<le> 0xfffffffe" and "cap < 2 ^ 62"
    and "\<forall>n \<le> 2 * length (der_element tag data) + cap + 40. can_alloc env n"
  shows "\<exists>out. serialise env cap (add_element env 0 (tag, data)) = Some out \<and>
    CBS_get_asn1 tag (out @ rest) = (Some data, rest)"
proof -
  have "length (der_element tag data) < 2 ^ 60"
    using assms(2) length_tag_bytes [of tag] len_octets_range [of "length data"]
    by (simp add: der_element_def der_header_def der_length_def)
  then have "serialise env cap (add_element env 0 (tag, data)) = Some (der_element tag data)"
    using elements.serialise_add [of env "(tag, data)" cap] assms by simp
  moreover have "CBS_get_asn1 tag (der_element tag data @ rest) = (Some data, rest)"
    using assms(2) by (intro asn1.rd_enc) simp
  ultimately show ?thesis by blast
qed

theorem CBB_add_asn1_round_trip_witness:
  "\<exists>out. serialise small_heap 4 (add_element small_heap 0 (0x3fffffff, [1, 2, 3])) = Some out \<and>
    CBS_get_asn1 0x3fffffff (out @ [9]) = (Some [1, 2, 3], [9])"
proof (rule CBB_add_asn1_round_trip)
  have "length (der_element 0x3fffffff [1, 2, 3]) \<le> 10"
    using length_tag_bytes [of "0x3fffffff"] by (simp add: der_element_def der_header_def der_length_def)
  then show "\<forall>n \<le> 2 * length (der_element 0x3fffffff [1, 2, 3]) + 4 + 40. can_alloc small_heap n" by simp
qed simp_all

text \<open>C3. INTEGERs of unsigned 64-bit values: \<open>CBB_add_asn1_uint64\<close> always produces the
  shortest encoding, \<open>CBS_get_asn1_uint64\<close> reads it back in front of any further bytes, and
  whatever the reader accepts is byte for byte what the writer writes for that value.\<close>

theorem CBB_add_asn1_uint64_round_trip:
  assumes "heap_bounded env" and "cap < 2 ^ 62" and "\<forall>n \<le> cap + 80. can_alloc env n"
  shows "\<exists>out. serialise env cap (CBB_add_asn1_uint64 env 0 v) = Some out \<and>
    (\<forall>rest. CBS_get_asn1_uint64 (out @ rest) = (Some v, rest)) \<and>
    (\<forall>s s'. CBS_get_asn1_uint64 s = (Some v, s') \<longrightarrow> s = out @ s')"
proof -
  let ?e = "der_element CBS_ASN1_INTEGER (uint64_octets v)"
  have "length ?e \<le> 20"
    using uint64_octets_facts(5) [of v] length_tag_bytes [of CBS_ASN1_INTEGER]
    by (simp add: der_element_def der_header_def der_length_def)
  then have "serialise env cap (CBB_add_asn1_uint64 env 0 v) = Some ?e"
    using w_uint64.serialise_add [OF assms(1) _ assms(2)] assms(3) by simp
  then show ?thesis using asn1_uint64.rd_enc asn1_uint64.rd_Some by blast
qed

theorem CBB_add_asn1_uint64_round_trip_witness:
  "\<exists>out. serialise small_heap 16 (CBB_add_asn1_uint64 small_heap 0 0x80) = Some out \<and>
    (\<forall>rest. CBS_get_asn1_uint64 (out @ rest) = (Some 0x80, rest)) \<and>
    (\<forall>s s'. CBS_get_asn1_uint64 s = (Some 0x80, s') \<longrightarrow> s = out @ s')"
  by (rule CBB_add_asn1_uint64_round_trip) simp_all

text \<open>The same for signed values in two's complement, negative ones included.\<close>

theorem CBB_add_asn1_int64_round_trip:
  assumes "heap_bounded env" and "cap < 2 ^ 62" and "\<forall>n \<le> cap + 80. can_alloc env n"
  shows "\<exists>out. serialise env cap (CBB_add_asn1_int64 env 0 v) = Some out \<and>
    (\<forall>rest. CBS_get_asn1_int64 (out @ rest) = (Some v, rest)) \<and>
    (\<forall>s s'. CBS_get_asn1_int64 s = (Some v, s') \<longrightarrow> s = out @ s')"
proof -
  let ?e = "der_element CBS_ASN1_INTEGER (int64_octets v)"
  have "length (int64_octets v) \<le> 8"
    using length_int_octets [of "be_bytes 8 (unat v)"] by (simp add: int64_octets_def)
  then have "length ?e \<le> 20"
    using length_tag_bytes [of CBS_ASN1_INTEGER]
    by (simp add: der_element_def der_header_def der_length_def)
  then have "serialise env cap (CBB_add_asn1_int64 env 0 v) = Some ?e"
    using w_int64.serialise_add [OF assms(1) _ assms(2)] assms(3) by simp
  then show ?thesis using asn1_int64.rd_enc asn1_int64.rd_Some by blast
qed

theorem CBB_add_asn1_int64_round_trip_witness:
  "\<exists>out. serialise small_heap 0 (CBB_add_asn1_int64 small_heap 0 (- 129)) = Some out \<and>
    (\<forall>rest. CBS_get_asn1_int64 (out @ rest) = (Some (- 129), rest)) \<and>
    (\<forall>s s'. CBS_get_asn1_int64 s = (Some (- 129), s') \<longrightarrow> s = out @ s')"
  by (rule CBB_add_asn1_int64_round_trip) simp_all

text \<open>C5. \<open>CBB_flush_asn1_set_of\<close> on a flushed object with contents \<open>c\<close>: it succeeds
  exactly when \<open>c\<close> is a sequence of DER elements and, if there are two or more, its two
  scratch blocks (a copy of \<open>c\<close>, and sixteen bytes an element) are allocated; then the
  object holds those same elements in ascending order of their encodings (X.690, clause
  11.6), everything in front of them untouched. When it fails, the object is as it was.\<close>

theorem CBB_flush_asn1_set_of_sorts:
  assumes "heap_bounded env" and "writer_at d cbb (Q @ c) []" and "CBB_data_pos d cbb = length Q"
  shows "case CBB_flush_asn1_set_of env d cbb of
      (Some _, cbb') \<Rightarrow> \<exists>elements. der_elements elements \<and> c = concat elements \<and>
        (2 \<le> length elements \<longrightarrow>
          can_alloc env (length c + 8) \<and> can_alloc env (16 * length elements + 8)) \<and>
        CBB_data d cbb' = Some (concat (sort elements)) \<and> writer_at d cbb' (Q @ concat (sort elements)) []
    | (None, cbb') \<Rightarrow> cbb' = cbb \<and>
        (\<forall>elements. der_elements elements \<and> c = concat elements \<longrightarrow> 2 \<le> length elements \<and>
          (\<not> can_alloc env (length c + 8) \<or> \<not> can_alloc env (16 * length elements + 8)))"
proof -
  obtain r cbb' where r: "CBB_flush_asn1_set_of env d cbb = (r, cbb')"
    by (cases "CBB_flush_asn1_set_of env d cbb")
  note res = set_of_flushed [OF assms, unfolded r]
  obtain b where b: "cbb_base cbb = Some b" "buffer_ok b" "contents b = Q @ c"
    using assms(2) by (auto simp: writer_at_def split: option.splits)
  have c62: "length c < 2 ^ 62" using length_contents [OF b(2)] b by (simp add: buffer_ok_def)
  have blocks: "(length es > SIZE_MAX div 16 \<or> OPENSSL_memdup env c = None \<or> OPENSSL_malloc env (length es * 16) = None)
      \<longleftrightarrow> (\<not> can_alloc env (length c + 8) \<or> \<not> can_alloc env (16 * length es + 8))"
    if "2 \<le> length es" "read_all CBS_get_any_asn1_element c = Some es" for es
  proof -
    have "der_elements (map fst es)" "c = concat (map fst es)" using that(2) der_elements_read_all by blast+
    then have "2 * length es \<le> length c" using der_elements_length [of "map fst es"] by simp
    then show ?thesis
      using OPENSSL_memdup_None [of c env] set_of_array_None [OF assms(1), of "length es"] that(1) c62 by auto
  qed
  show ?thesis
  proof (cases r)
    case None
    have "2 \<le> length es \<and> (\<not> can_alloc env (length c + 8) \<or> \<not> can_alloc env (16 * length es + 8))"
      if es: "der_elements es \<and> c = concat es" for es
    proof -
      obtain as where as: "read_all CBS_get_any_asn1_element c = Some as" "es = map fst as"
        using es der_elements_read_all by blast
      then show ?thesis using res None blocks [of as] by simp
    qed
    then show ?thesis using r None res by simp
  next
    case (Some u)
    then obtain es where es: "read_all CBS_get_any_asn1_element c = Some es"
      and room: "2 \<le> length es \<longrightarrow> \<not> (length es > SIZE_MAX div 16 \<or> OPENSSL_memdup env c = None \<or>
          OPENSSL_malloc env (length es * 16) = None)"
      and w: "writer_at d cbb' (Q @ concat (sort (map fst es))) []" and ch: "cbb_children cbb' = cbb_children cbb"
      using res by auto
    have "CBB_data_pos d cbb' = length Q" using assms(3) unfolding CBB_data_pos_def ch .
    note data = CBB_data_at [OF w this]
    have der: "der_elements (map fst es)" "c = concat (map fst es)" using es der_elements_read_all by blast+
    have "2 \<le> length (map fst es) \<longrightarrow> can_alloc env (length c + 8) \<and> can_alloc env (16 * length (map fst es) + 8)"
      unfolding length_map
    proof (rule impI)
      assume two: "2 \<le> length es"
      show "can_alloc env (length c + 8) \<and> can_alloc env (16 * length es + 8)"
        using room [rule_format, OF two] unfolding blocks [OF two es] by simp
    qed
    then show ?thesis using r Some data w der by (simp del: set_map length_map) blast
  qed
qed

definition set_cbb :: cbb where
  "set_cbb = \<lparr> cbb_base = Some \<lparr> cb_buf = [2, 1, 7, 2, 1, 5, 0xaa], cb_len = 6, cb_cap = 7,
       cb_can_resize = True, cb_error = False \<rparr>, cbb_children = [] \<rparr>"

theorem CBB_flush_asn1_set_of_sorts_witness:
  "\<exists>cbb'. CBB_flush_asn1_set_of small_heap 0 set_cbb = (Some (), cbb') \<and>
    CBB_data 0 cbb' = Some [2, 1, 5, 2, 1, 7] \<and> writer_at 0 cbb' [2, 1, 5, 2, 1, 7] []"
proof -
  let ?c = "[2, 1, 7, 2, 1, 5] :: bytes" and ?es = "[[2, 1, 7], [2, 1, 5]] :: bytes list"
  have "writer_at 0 set_cbb ([] @ ?c) []"
    by (simp add: set_cbb_def writer_at_def buffer_ok_def contents_def)
  from CBB_flush_asn1_set_of_sorts [OF small_heap_bounded this]
  have res: "case CBB_flush_asn1_set_of small_heap 0 set_cbb of
      (Some _, cbb') \<Rightarrow> \<exists>elements. der_elements elements \<and> ?c = concat elements \<and>
        (2 \<le> length elements \<longrightarrow>
          can_alloc small_heap (length ?c + 8) \<and> can_alloc small_heap (16 * length elements + 8)) \<and>
        CBB_data 0 cbb' = Some (concat (sort elements)) \<and> writer_at 0 cbb' ([] @ concat (sort elements)) []
    | (None, cbb') \<Rightarrow> cbb' = set_cbb \<and>
        (\<forall>elements. der_elements elements \<and> ?c = concat elements \<longrightarrow> 2 \<le> length elements \<and>
          (\<not> can_alloc small_heap (length ?c + 8) \<or> \<not> can_alloc small_heap (16 * length elements + 8)))"
    by (simp add: CBB_data_pos_def)
  have "der_element 2 [7] = [2, 1, 7]" "der_element 2 [5] = [2, 1, 5]"
    by (simp_all add: der_element_def der_header_def der_length_def tag_bytes_def tag_number_def tag_class_def)
  then have es: "der_elements ?es"
    unfolding der_elements_def by (auto intro!: exI [of _ 2] exI [of _ "[_]"] dest: sym)
  have "sort ?es = [[2, 1, 5], [2, 1, 7]]" by code_simp
  then have srt: "concat (sort elements) = [2, 1, 5, 2, 1, 7]" if "der_elements elements" "?c = concat elements" for elements
    using der_elements_unique [OF that(1) es] that(2) by simp
  obtain r cbb' where r: "CBB_flush_asn1_set_of small_heap 0 set_cbb = (r, cbb')"
    by (cases "CBB_flush_asn1_set_of small_heap 0 set_cbb")
  show ?thesis
  proof (cases r)
    case None
    then have "\<not> (can_alloc small_heap (length ?c + 8) \<and> can_alloc small_heap (16 * length ?es + 8))"
      using res r es by fastforce
    then show ?thesis by simp
  next
    case (Some u)
    then show ?thesis using res r srt by auto
  qed
qed

text \<open>C8. \<open>CBB_add_bytes\<close> never writes outside a fixed buffer (\<open>CBB_init_fixed\<close>), at any
  depth and whatever children are pending: whether it succeeds or fails the array has the
  length it had and still begins with the bytes in front of those children. It succeeds
  exactly when the children can be closed and the closed contents with the new bytes fit,
  and appends them; when it fails, nothing has changed since the children were closed but
  the error flag, which is set.\<close>

theorem CBB_add_bytes_fixed:
  assumes "heap_bounded env" and "length data < 2 ^ 62"
    and "writer_at d cbb P fs" and "cbb_base cbb = Some b" and "\<not> cb_can_resize b"
  shows "\<exists>b'. cbb_base (snd (CBB_add_bytes env d data cbb)) = Some b' \<and>
      length (cb_buf b') = length (cb_buf b) \<and> take (length P) (cb_buf b') = P \<and>
      (case CBB_add_bytes env d data cbb of
         (Some _, cbb') \<Rightarrow> \<exists>t. close_frames fs = Some t \<and> length (P @ t @ data) \<le> length (cb_buf b) \<and>
           writer_at d cbb' (P @ t @ data) []
       | (None, cbb') \<Rightarrow> (\<forall>t. close_frames fs = Some t \<longrightarrow> length (P @ t @ data) > length (cb_buf b)) \<and>
           cbb' = set_error (snd (CBB_flush env d cbb)))"
proof -
  let ?cap = "length (cb_buf b)"
  have ok: "buffer_ok b" using assms(3,4) by (simp add: writer_at_def)
  then have "base_kept ?cap (take 0 P) cbb" using assms(4,5) by (simp add: base_kept_def fixed_kept_def buffer_ok_def)
  note k = base_kept_front [OF assms(3) this]
  obtain r cbb1 where r: "CBB_flush env d cbb = (r, cbb1)" by (cases "CBB_flush env d cbb")
  have k1: "base_kept ?cap P cbb1" using CBB_flush_fixed [OF assms(1,3) k] r by simp
  have room: "cbb_room env cbb n \<longleftrightarrow> n \<le> ?cap" for n
    using assms(4,5) ok by (simp add: cbb_room_def room_def buffer_ok_def)
  show ?thesis
  proof (cases r)
    case None
    have add: "CBB_add_bytes env d data cbb = (None, cbb1)" using r None by (simp add: CBB_add_bytes_def and_then_def)
    have long: "length (P @ t @ []) > ?cap" if "close_frames fs = Some t" for t
      using writes_None [OF CBB_flush_writes [OF assms(1)] assms(3)] r None that room by fastforce
    have "set_error cbb1 = cbb1"
      using writes_None(1) [OF CBB_flush_writes [OF assms(1)] assms(3)] r None k1
      by (auto simp: set_error_def cbb_failed_def base_kept_def)
    then show ?thesis using add r k1 long by (fastforce simp: base_kept_def fixed_kept_def)
  next
    case (Some u)
    have fl: "CBB_flush env d cbb = (Some (), cbb1)" using r Some by simp
    obtain t where "close_frames fs = Some t" "writer_at d cbb1 (P @ t @ []) []"
      by (rule writes_Some [OF CBB_flush_writes [OF assms(1)] assms(3) fl])
    then have t: "close_frames fs = Some t" "writer_at d cbb1 (P @ t) []" by simp_all
    note k2 = base_kept_front [OF t(2) k1]
    note at = CBB_add_bytes_at [OF t(2) k2 assms(2), of env cbb]
    show ?thesis
    proof (cases "length ((P @ t) @ data) \<le> ?cap")
      case True
      then obtain cbb' where c: "CBB_add_bytes env d data cbb = (Some (), cbb')" "base_kept ?cap (P @ t) cbb'"
        "writer_at d cbb' ((P @ t) @ data) []" using at(1) [OF fl] by auto
      then obtain b' where b': "cbb_base cbb' = Some b'" "fixed_kept ?cap (P @ t) b'" by (auto simp: base_kept_def)
      have "fixed_kept ?cap P b'" by (rule fixed_kept_take [OF b'(2)])
      then have "length (cb_buf b') = ?cap \<and> take (length P) (cb_buf b') = P" by (simp add: fixed_kept_def)
      then show ?thesis using True t(1) c b'(1) by simp
    next
      case False
      then have "CBB_add_bytes env d data cbb = (None, set_error cbb1)" using at(2) [OF fl] by simp
      then show ?thesis using False t(1) k1 fl by (auto simp: base_kept_def set_error_def fixed_kept_def)
    qed
  qed
qed

definition fixed_buffer :: cbb_buffer where
  "fixed_buffer = \<lparr> cb_buf = [9, 0, 0], cb_len = 1, cb_cap = 3, cb_can_resize = False, cb_error = False \<rparr>"

theorem CBB_add_bytes_fixed_witness:
  "\<exists>cbb'. CBB_add_bytes small_heap 0 [1, 2] \<lparr> cbb_base = Some fixed_buffer, cbb_children = [] \<rparr> =
      (Some (), cbb') \<and> writer_at 0 cbb' [9, 1, 2] []"
proof -
  have "writer_at 0 \<lparr> cbb_base = Some fixed_buffer, cbb_children = [] \<rparr> [9] []"
    by (simp add: writer_at_def fixed_buffer_def buffer_ok_def contents_def)
  from CBB_add_bytes_fixed [OF small_heap_bounded _ this, of "[1, 2]" fixed_buffer]
  show ?thesis by (auto simp: fixed_buffer_def split: prod.splits option.splits)
qed

text \<open>An error is permanent: once the error flag is set, every operation fails and changes
  nothing.\<close>

theorem cbb_errors_are_sticky:
  assumes "cbb_failed cbb"
  shows "CBB_flush env d cbb = (None, cbb) \<and> CBB_add_bytes env d data cbb = (None, cbb) \<and>
    CBB_add_u8 env d b cbb = (None, cbb) \<and> CBB_add_u64 env d v cbb = (None, cbb) \<and>
    CBB_add_space env d n cbb = (None, cbb) \<and> CBB_add_asn1 env d tag cbb = (None, cbb) \<and>
    CBB_add_u16_length_prefixed env d cbb = (None, cbb) \<and>
    CBB_flush_asn1_set_of env d cbb = (None, cbb) \<and> CBB_finish env 0 x y cbb = (None, cbb)"
  using CBB_flush_failed [OF assms]
  by (simp add: CBB_add_bytes_def CBB_add_u8_def CBB_add_u64_def CBB_add_space_def
      CBB_add_asn1_def CBB_add_u16_length_prefixed_def cbb_add_length_prefixed_def
      CBB_flush_asn1_set_of_def CBB_finish_def)

theorem cbb_errors_are_sticky_witness:
  "CBB_flush small_heap 0 CBB_zero = (None, CBB_zero) \<and> CBB_add_bytes small_heap 0 [1] CBB_zero = (None, CBB_zero)"
  using cbb_errors_are_sticky [of CBB_zero small_heap 0 "[1]"] by (simp add: cbb_failed_def CBB_zero_def)

text \<open>C9. \<open>CBB_add_space\<close> on a growable buffer, with a length that brings the sum to one of
  the last eight values of \<open>size_t\<close>: the check in \<open>cbb_buffer_reserve\<close> passes and the sum in
  \<open>OPENSSL_malloc\<close> wraps. Whenever the allocator serves a request of fewer than eight
  bytes, the size header is stored past the end of the block, and the call reports success
  with a capacity and a length of nearly $2^{64}$ bytes for an array that has not grown.\<close>

theorem CBB_add_space_overflow:
  assumes "writer_at d cbb P []" and "cbb_base cbb = Some b" and "cb_can_resize b" and "len < 2 ^ 64"
    and "2 ^ 64 - 8 \<le> length P + len" and "length P + len < 2 ^ 64"
    and "can_alloc env (length P + len + 8 - 2 ^ 64)"
  shows "(\<exists>blk. malloc_block env (length P + len) = Some blk \<and>
        length blk > (length P + len + OPENSSL_MALLOC_PREFIX) mod 2 ^ 64) \<and>
      CBB_add_space env d len cbb = (Some (length P),
        cbb \<lparr> cbb_base := Some (b \<lparr> cb_len := length P + len, cb_cap := length P + len \<rparr>) \<rparr>) \<and>
      length (cb_buf b) < 2 ^ 62"
proof -
  let ?n = "length P + len"
  have b: "buffer_ok b" "contents b = P" "d \<le> length (cbb_children cbb)"
    using assms(1,2) by (simp_all add: writer_at_def)
  have B: "length (cb_buf b) = cb_cap b" "cb_cap b < 2 ^ 62" "cb_len b = length P" "length P < 2 ^ 62"
    using b(1) length_contents [OF b(1)] b(2) by (simp_all add: buffer_ok_def)
  have wrap: "(k + 8) mod 2 ^ 64 = k + 8 - 2 ^ 64" if "2 ^ 64 - 8 \<le> k" "k < 2 ^ 64" for k :: nat
  proof -
    have "k + 8 = (k + 8 - 2 ^ 64) + 2 ^ 64" using that by simp
    then have "(k + 8) mod 2 ^ 64 = (k + 8 - 2 ^ 64) mod 2 ^ 64" by (metis mod_add_self2)
    also have "\<dots> = k + 8 - 2 ^ 64" using that by (intro mod_less) simp
    finally show ?thesis .
  qed
  note w = wrap [OF assms(5,6)]
  have small: "?n + 8 - 2 ^ 64 < 8" using assms(6) by simp
  have blk: "\<exists>blk. malloc_block env ?n = Some blk \<and> length blk > (?n + 8) mod 2 ^ 64"
    using small assms(7) unfolding malloc_block_def Let_def w by (simp add: mem_write_def)
  have ret: "OPENSSL_malloc env ?n = Some []"
    using small assms(7) unfolding OPENSSL_malloc_eq Let_def w by simp
  have m: "?n mod 2 ^ 64 = ?n" "cb_cap b * 2 mod 2 ^ 64 = cb_cap b * 2"
    using assms(6) B by simp_all
  have big: "cb_cap b < ?n" "cb_cap b * 2 < ?n" "length P \<le> ?n" using assms(5) B by simp_all
  have "OPENSSL_realloc env (Some (cb_buf b)) ?n = Some (cb_buf b)"
    using B big by (simp add: OPENSSL_realloc_def ret mem_write_def)
  then have "cbb_buffer_reserve env len b = (Some (length P), b \<lparr> cb_cap := ?n \<rparr>)"
    using assms(3) B big unfolding cbb_buffer_reserve_def Let_def B(3) m by simp
  then have "CBB_add_space env d len cbb = (Some (length P),
      cbb \<lparr> cbb_base := Some (b \<lparr> cb_len := ?n, cb_cap := ?n \<rparr>) \<rparr>)"
    using assms(2) b(3) B(3)
    by (simp add: CBB_add_space_def CBB_flush_here [OF assms(1)] on_base_def base_of_def cbb_buffer_add_def)
  then show ?thesis using blk B by simp
qed

definition growable_buffer :: cbb_buffer where
  "growable_buffer = \<lparr> cb_buf = [7, 0], cb_len = 1, cb_cap = 2, cb_can_resize = True, cb_error = False \<rparr>"

theorem CBB_add_space_overflow_witness:
  "(\<exists>blk. malloc_block small_heap (2 ^ 64 - 4) = Some blk \<and> length blk > 4) \<and>
    CBB_add_space small_heap 0 (2 ^ 64 - 5) \<lparr> cbb_base = Some growable_buffer, cbb_children = [] \<rparr> =
      (Some 1, \<lparr> cbb_base = Some (growable_buffer \<lparr> cb_len := 2 ^ 64 - 4, cb_cap := 2 ^ 64 - 4 \<rparr>),
         cbb_children = [] \<rparr>)"
proof -
  have "writer_at 0 \<lparr> cbb_base = Some growable_buffer, cbb_children = [] \<rparr> [7] []"
    by (simp add: writer_at_def growable_buffer_def buffer_ok_def contents_def)
  from CBB_add_space_overflow [OF this, of growable_buffer "2 ^ 64 - 5" small_heap]
  show ?thesis by (simp add: growable_buffer_def)
qed

text \<open>\<open>CBB_discard_child\<close> takes the length prefix and the contents of the pending child
  away, but the identifier octets \<open>CBB_add_asn1\<close> wrote in front of them stay.\<close>

theorem CBB_discard_child_keeps_tag:
  assumes "heap_bounded env" and "writer_at d cbb P []"
  shows "case CBB_add_asn1 env d tag cbb of
      (Some _, cbb') \<Rightarrow> writer_at d (CBB_discard_child d cbb') (P @ tag_bytes tag) []
    | (None, cbb') \<Rightarrow> cbb_failed cbb'"
proof -
  obtain r cbb' where r: "CBB_add_asn1 env d tag cbb = (r, cbb')" by (cases "CBB_add_asn1 env d tag cbb")
  note op = CBB_add_asn1_opens [OF assms(1), of d tag, unfolded opens_def, rule_format, OF assms(2)]
  show ?thesis
  proof (cases r)
    case None
    then show ?thesis using r op by simp
  next
    case (Some u)
    then have w: "writer_at d cbb' (P @ tag_bytes tag) [(Asn1, [])]" using r op by auto
    then obtain b where b: "cbb_base cbb' = Some b" "buffer_ok b" "contents b = (P @ tag_bytes tag) @ [0]"
      and ch: "d < length (cbb_children cbb')" "ch_offset (cbb_children cbb' ! d) = length (P @ tag_bytes tag)"
      unfolding writer_at_child by (auto simp: writer_at_def child_record_def split: option.splits)
    have l: "cb_len b = length (P @ tag_bytes tag) + 1" using length_contents [OF b(2)] b(3) by simp
    have "take (length (P @ tag_bytes tag)) (cb_buf b) = take (length (P @ tag_bytes tag)) (contents b)"
      unfolding contents_def l by simp
    then have "take (length (P @ tag_bytes tag)) (cb_buf b) = P @ tag_bytes tag" unfolding b(3) by simp
    then have "writer_at d (CBB_discard_child d cbb') (P @ tag_bytes tag) []"
      using b(1,2) ch l by (auto simp: writer_at_def CBB_discard_child_def buffer_ok_def contents_def)
    then show ?thesis using r Some by simp
  qed
qed

theorem CBB_discard_child_keeps_tag_witness:
  "case CBB_add_asn1 small_heap 0 0x20000010 \<lparr> cbb_base = Some fixed_buffer, cbb_children = [] \<rparr> of
      (Some _, cbb') \<Rightarrow> writer_at 0 (CBB_discard_child 0 cbb') ([9] @ tag_bytes 0x20000010) []
    | (None, cbb') \<Rightarrow> cbb_failed cbb'"
  by (rule CBB_discard_child_keeps_tag)
     (simp_all add: fixed_buffer_def writer_at_def buffer_ok_def contents_def)

end
