(* ===== verification/Oid.thy ===== *)
theory Oid
  imports Cbb
begin

text \<open>
  Object identifiers between their dotted text and their DER contents:
  \<open>CBB_add_asn1_oid_from_text\<close> of \<open>cbb.c\<close> and \<open>CBS_asn1_oid_to_text\<close> of \<open>cbs.c\<close>,
  with the abstract identifier, its list of components, between them.
\<close>

section \<open>From contents to text\<close>

fun decimal :: "nat \<Rightarrow> bytes" where
  "decimal n = (if n < 10 then [of_nat (0x30 + n)] else decimal (n div 10) @ [of_nat (0x30 + n mod 10)])"

declare decimal.simps [simp del]

definition add_decimal :: "heap_env \<Rightarrow> nat \<Rightarrow> u64 \<Rightarrow> unit writer" where
  "add_decimal env d v = CBB_add_bytes env d (decimal (unat v))"

fun oid_text_loop :: "nat \<Rightarrow> heap_env \<Rightarrow> nat \<Rightarrow> cbs \<Rightarrow> unit writer" where
  "oid_text_loop fuel env d copy =
     (if CBS_len copy = 0 then ok ()
      else case fuel of
             0 \<Rightarrow> fail
           | Suc fuel \<Rightarrow>
               (case parse_base128_integer copy of
                  (None, _) \<Rightarrow> fail
                | (Some v, copy) \<Rightarrow>
                    and_then (CBB_add_u8 env d 0x2e) (\<lambda>_.
                      and_then (add_decimal env d v) (\<lambda>_. oid_text_loop fuel env d copy))))"

declare oid_text_loop.simps [simp del]

definition CBS_asn1_oid_to_text :: "heap_env \<Rightarrow> cbs \<Rightarrow> bytes option" where
  "CBS_asn1_oid_to_text env cbs =
     (case and_then (CBB_init env 32) (\<lambda>_.
             case parse_base128_integer cbs of
               (None, _) \<Rightarrow> fail
             | (Some v, copy) \<Rightarrow>
                 and_then
                   (if v \<ge> 80 then
                      and_then (CBB_add_bytes env 0 [0x32, 0x2e]) (\<lambda>_. add_decimal env 0 (v - 80))
                    else
                      and_then (add_decimal env 0 (v div 40)) (\<lambda>_.
                        and_then (CBB_add_u8 env 0 0x2e) (\<lambda>_. add_decimal env 0 (v mod 40))))
                   (\<lambda>_. and_then (oid_text_loop (length copy) env 0 copy) (\<lambda>_.
                      and_then (CBB_add_u8 env 0 0) (\<lambda>_. CBB_finish env 0 True True)))) CBB_zero of
        (None, _) \<Rightarrow> None
      | (Some (txt, txt_len), _) \<Rightarrow> Some (take txt_len txt))"

section \<open>Decimal components\<close>

lemma decimal_nonempty [simp]: "decimal n \<noteq> []"
  by (simp add: decimal.simps [of n])

lemma decimal_snoc: "n \<noteq> 0 \<Longrightarrow> k < 10 \<Longrightarrow> decimal (10 * n + k) = decimal n @ [of_nat (0x30 + k)]"
  by (simp add: decimal.simps [of "10 * n + k"])

lemma decimal_digit: "k < 10 \<Longrightarrow> decimal k = [of_nat (0x30 + k)]"
  by (simp add: decimal.simps [of k])

lemma parse_step:
  "parse_dotted_decimal_loop out seen (u # cbs) =
    (if unat u = 46 \<and> cbs \<noteq> [] then (if seen then (Some out, cbs) else (None, cbs))
     else if unat u < 48 \<or> 57 < unat u \<or> (seen \<and> unat out = 0) \<or> 2 ^ 64 \<le> 10 * unat out + (unat u - 48)
     then (None, cbs)
     else parse_dotted_decimal_loop (of_nat (10 * unat out + (unat u - 48))) True cbs)"
proof -
  have dot: "u = 0x2e \<longleftrightarrow> unat u = 46" by (simp add: word_unat_eq_iff)
  have rng: "u < 0x30 \<longleftrightarrow> unat u < 48" "u > 0x39 \<longleftrightarrow> 57 < unat u" by (simp_all add: word_less_nat_alt)
  have z: "out = 0 \<longleftrightarrow> unat out = 0" by (simp add: unat_eq_0)
  have m1: "unat (- 1 :: u64) = 2 ^ 64 - 1" by (simp add: unsigned_minus_1_eq_mask mask_eq_exp_minus_1)
  have d: "out > (- 1) div 10 \<longleftrightarrow> unat out > (2 ^ 64 - 1) div 10"
    by (simp add: word_less_nat_alt unat_div m1)
  show ?thesis
  proof (cases "48 \<le> unat u \<and> unat u \<le> 57 \<and> unat out \<le> (2 ^ 64 - 1) div 10")
    case True
    let ?k = "ucast u - 0x30 :: u64"
    have k: "unat ?k = unat u - 48"
      using True by (subst unat_sub) (simp_all add: word_le_nat_alt)
    have t: "unat (out * 10) = unat out * 10" using True by (subst unat_mult_lem [THEN iffD1]) simp_all
    have s: "unat (- 1 - ?k) = 2 ^ 64 - 1 - (unat u - 48)"
      using True by (subst unat_sub) (auto simp: word_le_nat_alt k m1)
    have o: "out * 10 > - 1 - ?k \<longleftrightarrow> 2 ^ 64 \<le> 10 * unat out + (unat u - 48)"
      unfolding word_less_nat_alt t s using True by auto
    have v: "out * 10 + ?k = of_nat (10 * unat out + (unat u - 48))"
      by (simp only: k [symmetric] of_nat_add of_nat_mult of_nat_unat ucast_id of_nat_numeral mult.commute [of out])
    show ?thesis using True
      by (simp only: parse_dotted_decimal_loop.simps dot rng z d o v CBS_len_def) auto
  next
    case False
    have "2 ^ 64 \<le> 10 * unat out" if "\<not> unat out \<le> (2 ^ 64 - 1) div 10"
      using that by simp
    then show ?thesis using False
      by (simp only: parse_dotted_decimal_loop.simps dot rng z d CBS_len_def) auto
  qed
qed

lemma unat_digit: "k < 10 \<Longrightarrow> unat (of_nat (0x30 + k) :: u8) = 48 + k"
  by (intro unat_of_nat_small) simp

lemma parse_decimal:
  "n < 2 ^ 64 \<Longrightarrow>
    parse_dotted_decimal_loop 0 False (decimal n @ s) = parse_dotted_decimal_loop (of_nat n) True s"
proof (induction n arbitrary: s rule: decimal.induct)
  case (1 n)
  show ?case
  proof (cases "n < 10")
    case True
    then show ?thesis
      by (simp add: decimal_digit parse_step unat_digit del: parse_dotted_decimal_loop.simps of_nat_add)
  next
    case False
    let ?q = "n div 10" and ?r = "n mod 10"
    have n: "n = 10 * ?q + ?r" by simp
    have q: "?q \<noteq> 0" using False by simp
    have "parse_dotted_decimal_loop 0 False (decimal n @ s) =
        parse_dotted_decimal_loop 0 False (decimal ?q @ of_nat (0x30 + ?r) # s)"
      using False by (simp add: decimal.simps [of n] del: parse_dotted_decimal_loop.simps)
    also have "\<dots> = parse_dotted_decimal_loop (of_nat ?q) True (of_nat (0x30 + ?r) # s)"
      using 1 False by (simp del: parse_dotted_decimal_loop.simps)
    also have "\<dots> = parse_dotted_decimal_loop (of_nat (10 * ?q + ?r)) True s"
    proof -
      have uq: "unat (of_nat ?q :: u64) = ?q" using "1.prems" by (intro unat_of_nat_small) simp
      have ur: "unat (of_nat (0x30 + ?r) :: u8) = 48 + ?r" by (rule unat_digit) simp
      have "?r < 10" by simp
      then have "\<not> 57 < 48 + ?r" by linarith
      then show ?thesis using q "1.prems" unfolding parse_step uq ur
        by (simp del: parse_dotted_decimal_loop.simps of_nat_add of_nat_mult)
    qed
    finally show ?thesis using n by simp
  qed
qed

lemma parse_dotted_decimal_loop_Some:
  "parse_dotted_decimal_loop out seen s = (Some v, r) \<Longrightarrow> (\<not> seen \<longrightarrow> out = 0) \<Longrightarrow>
    (\<exists>sep. (if seen then decimal (unat out) else []) @ s = decimal (unat v) @ sep \<and>
       (sep = [] \<and> r = [] \<or> sep = 0x2e # r \<and> r \<noteq> []))"
proof (induction s arbitrary: out seen)
  case Nil
  then show ?case by (auto split: if_splits)
next
  case (Cons u s)
  note run = Cons.prems(1) [unfolded parse_step]
  show ?case
  proof (cases "unat u = 46 \<and> s \<noteq> []")
    case True
    then have "u = 0x2e" using unat_eq_of_nat [of u 46] by simp
    then show ?thesis using run True by (auto split: if_splits)
  next
    case False
    note run2 = run [unfolded if_not_P [OF False]]
    let ?k = "unat u - 48" and ?o = "10 * unat out + (unat u - 48)"
    have c: "48 \<le> unat u" "unat u \<le> 57" "\<not> (seen \<and> unat out = 0)" "?o < 2 ^ 64"
      and rest: "parse_dotted_decimal_loop (of_nat ?o) True s = (Some v, r)"
      using run2 by (auto split: if_splits simp del: parse_dotted_decimal_loop.simps of_nat_add of_nat_mult of_nat_diff)
    have k: "?k < 10" "of_nat (0x30 + ?k) = u" using c by auto
    have uo: "unat (of_nat ?o :: u64) = ?o" using c(4) by (intro unat_of_nat_small) simp
    have "decimal ?o = (if seen then decimal (unat out) else []) @ [u]"
    proof (cases seen)
      case True
      then show ?thesis using c(3) k decimal_snoc [of "unat out" ?k] by simp
    next
      case False
      then show ?thesis using Cons.prems(2) k decimal_digit [of ?k] by simp
    qed
    then show ?thesis using Cons.IH [OF rest] uo by simp
  qed
qed

text \<open>A component is read off the text exactly when it is its decimal numeral.\<close>

lemma parse_dotted_decimal_iff:
  "parse_dotted_decimal s = (Some v, r) \<longleftrightarrow>
    (s = decimal (unat v) \<and> r = [] \<or> s = decimal (unat v) @ 0x2e # r \<and> r \<noteq> [])"
proof
  assume "parse_dotted_decimal s = (Some v, r)"
  then show "s = decimal (unat v) \<and> r = [] \<or> s = decimal (unat v) @ 0x2e # r \<and> r \<noteq> []"
    using parse_dotted_decimal_loop_Some [of 0 False s v r] by (auto simp: parse_dotted_decimal_def)
next
  assume s: "s = decimal (unat v) \<and> r = [] \<or> s = decimal (unat v) @ 0x2e # r \<and> r \<noteq> []"
  have "parse_dotted_decimal_loop 0 False (decimal (unat v) @ t) = parse_dotted_decimal_loop v True t" for t
    using parse_decimal [of "unat v" t] unat_u64_bound [of v] by simp
  from this [of "[]"] this [of "0x2e # r"] s
  show "parse_dotted_decimal s = (Some v, r)"
    unfolding parse_dotted_decimal_def by (auto simp: CBS_len_def)
qed


section \<open>Identifiers\<close>

text \<open>
  An identifier of at least two components, the first two within the ranges the combined
  first subidentifier allows; \<open>oid_text\<close> and \<open>oid_contents\<close> are its two forms.
\<close>

definition valid_oid :: "u64 list \<Rightarrow> bool" where
  "valid_oid cs \<longleftrightarrow> 2 \<le> length cs \<and> unat (cs ! 0) \<le> 2 \<and> (unat (cs ! 0) < 2 \<longrightarrow> unat (cs ! 1) \<le> 39) \<and>
     unat (cs ! 1) < 2 ^ 64 - 80"

fun oid_text :: "u64 list \<Rightarrow> bytes" where
  "oid_text [] = []"
| "oid_text [c] = decimal (unat c)"
| "oid_text (c # cs) = decimal (unat c) @ 0x2e # oid_text cs"

fun oid_contents :: "u64 list \<Rightarrow> bytes" where
  "oid_contents (a # b # cs) =
     base128_bytes (40 * unat a + unat b) @ concat (map (\<lambda>c. base128_bytes (unat c)) cs)"
| "oid_contents _ = []"

interpretation base128s: element_codec parse_base128_integer "\<lambda>v. base128_bytes (unat v)" "\<lambda>_. True"
  by unfold_locales simp

lemma oid_text_eq_Nil [simp]: "oid_text cs = [] \<longleftrightarrow> cs = []"
  by (cases cs rule: oid_text.cases) auto

lemma Nil_eq_oid_text [simp]: "[] = oid_text cs \<longleftrightarrow> cs = []"
  by (metis oid_text_eq_Nil)

text \<open>The loop over the components reads a list of numerals, and writes their base-128 forms.\<close>

fun parse_components :: "nat \<Rightarrow> cbs \<Rightarrow> u64 list option" where
  "parse_components fuel text =
     (if text = [] then Some []
      else case fuel of
             0 \<Rightarrow> None
           | Suc fuel \<Rightarrow>
               (case parse_dotted_decimal text of
                  (None, _) \<Rightarrow> None
                | (Some a, rest) \<Rightarrow> map_option ((#) a) (parse_components fuel rest)))"

declare parse_components.simps [simp del]

lemma parse_dotted_decimal_shorter: "parse_dotted_decimal s = (Some v, r) \<Longrightarrow> length r < length s"
  by (auto simp: parse_dotted_decimal_iff)

lemma parse_components_iff:
  "length text \<le> fuel \<Longrightarrow> parse_components fuel text = Some cs \<longleftrightarrow> text = oid_text cs"
proof (induction fuel arbitrary: "text" cs)
  case 0
  then show ?case by (auto simp: parse_components.simps)
next
  case (Suc fuel)
  show ?case
  proof (cases "text = []")
    case True
    then show ?thesis by (auto simp: parse_components.simps [of "Suc fuel"])
  next
    case False
    have IH: "parse_components fuel r = Some ds \<longleftrightarrow> r = oid_text ds"
      if "parse_dotted_decimal text = (Some a, r)" for a r ds
      using Suc.IH [of r ds] Suc.prems parse_dotted_decimal_shorter [OF that] by simp
    have "parse_components (Suc fuel) text = Some cs \<longleftrightarrow>
        (\<exists>a r ds. parse_dotted_decimal text = (Some a, r) \<and> parse_components fuel r = Some ds \<and> cs = a # ds)"
      using False by (auto simp: parse_components.simps [of "Suc fuel"] split: prod.splits option.splits)
    also have "\<dots> \<longleftrightarrow>
        (\<exists>a r ds. parse_dotted_decimal text = (Some a, r) \<and> r = oid_text ds \<and> cs = a # ds)"
      using IH by blast
    also have "\<dots> \<longleftrightarrow> text = oid_text cs"
    proof (cases cs rule: oid_text.cases)
      case (3 c d ds)
      then show ?thesis by (auto simp: parse_dotted_decimal_iff)
    qed (use False in \<open>auto simp: parse_dotted_decimal_iff\<close>)
    finally show ?thesis .
  qed
qed

fun add_each :: "(heap_env \<Rightarrow> nat \<Rightarrow> 'a \<Rightarrow> unit writer) \<Rightarrow> heap_env \<Rightarrow> nat \<Rightarrow> 'a list \<Rightarrow> unit writer" where
  "add_each add env d [] = ok ()"
| "add_each add env d (a # as) = and_then (add env d a) (\<lambda>_. add_each add env d as)"

lemma add_oid_components_eq:
  "parse_components fuel text = Some cs \<Longrightarrow>
    add_oid_components fuel env d text = add_each add_base128_integer env d cs"
proof (induction fuel arbitrary: "text" cs)
  case 0
  then show ?case by (auto simp: parse_components.simps add_oid_components.simps CBS_len_def split: if_splits)
next
  case (Suc fuel)
  show ?case
  proof (cases "text = []")
    case True
    then show ?thesis using Suc.prems
      by (simp add: parse_components.simps [of "Suc fuel"] add_oid_components.simps CBS_len_def)
  next
    case False
    then obtain a r ds where "parse_dotted_decimal text = (Some a, r)" "parse_components fuel r = Some ds"
      "cs = a # ds"
      using Suc.prems by (auto simp: parse_components.simps [of "Suc fuel"] split: prod.splits option.splits)
    then show ?thesis using False Suc.IH
      by (simp add: add_oid_components.simps [of "Suc fuel"] CBS_len_def)
  qed
qed

lemma add_oid_components_fails:
  "parse_components fuel text = None \<Longrightarrow> fst (add_oid_components fuel env d text cbb) = None"
proof (induction fuel arbitrary: "text" cbb)
  case 0
  then show ?case by (auto simp: parse_components.simps add_oid_components.simps CBS_len_def split: if_splits)
next
  case (Suc fuel)
  have ne: "text \<noteq> []" using Suc.prems by (auto simp: parse_components.simps [of "Suc fuel"])
  show ?case
  proof (cases "parse_dotted_decimal text")
    case (Pair a r)
    show ?thesis
    proof (cases a)
      case None
      then show ?thesis using ne Pair by (simp add: add_oid_components.simps [of "Suc fuel"] CBS_len_def)
    next
      case (Some v)
      then have "parse_components fuel r = None"
        using Suc.prems ne Pair by (simp add: parse_components.simps [of "Suc fuel"])
      then show ?thesis using Suc.IH ne Pair Some
        by (auto simp: add_oid_components.simps [of "Suc fuel"] CBS_len_def and_then_def
            split: prod.splits option.splits)
    qed
  qed
qed

context appender
begin

lemma add_each_writes:
  fixes m :: "unit writer"
  shows "heap_bounded env \<Longrightarrow> \<forall>a \<in> set as. valid a \<Longrightarrow> writes env d m x \<Longrightarrow>
    writes env d (and_then m (\<lambda>_. add_each add env d as)) (x @ concat (map enc as))"
proof (induction "as" arbitrary: m x)
  case (Cons a "as")
  have w: "writes env d (and_then m (\<lambda>_. add env d a)) (x @ enc a)"
    by (intro writes_and_then add_writes) (use Cons.prems in auto)
  have "writes env d (and_then (and_then m (\<lambda>_. add env d a)) (\<lambda>_. add_each add env d as))
      ((x @ enc a) @ concat (map enc as))"
    by (rule Cons.IH [OF Cons.prems(1) _ w]) (use Cons.prems(2) in auto)
  then show ?case by (simp add: and_then_assoc)
qed simp

end


lemma oid_first:
  assumes "unat a \<le> 2" "unat a < 2 \<longrightarrow> unat b \<le> 39" "unat b < 2 ^ 64 - 80"
  shows "unat (40 * a + b :: u64) = 40 * unat a + unat b"
  using assms by (subst unat_add_lem [THEN iffD1]; subst unat_mult_lem [THEN iffD1]) simp_all

lemma valid_oid_check:
  "(a > 2 \<or> (a < 2 \<and> b > 39) \<or> b > (- 1) - (80 :: u64)) \<longleftrightarrow>
    \<not> (unat a \<le> 2 \<and> (unat (a :: u64) < 2 \<longrightarrow> unat b \<le> 39) \<and> unat b < 2 ^ 64 - 80)"
proof -
  have "(- 1) - 80 = (of_nat (2 ^ 64 - 81) :: u64)" by simp
  then have u: "unat ((- 1) - 80 :: u64) = 2 ^ 64 - 81" by (simp only: unat_of_nat) simp
  show ?thesis unfolding word_less_nat_alt u by auto
qed

lemma from_text_writes:
  assumes h: "heap_bounded env" and v: "valid_oid cs"
  shows "writes env d (CBB_add_asn1_oid_from_text env d (oid_text cs)) (oid_contents cs)"
proof -
  obtain a b ds where cs: "cs = a # b # ds" using v by (cases cs rule: oid_contents.cases) (auto simp: valid_oid_def)
  have c: "unat a \<le> 2" "unat a < 2 \<longrightarrow> unat b \<le> 39" "unat b < 2 ^ 64 - 80"
    using v cs by (auto simp: valid_oid_def)
  have p1: "parse_dotted_decimal (oid_text cs) = (Some a, oid_text (b # ds))"
    using cs by (simp add: parse_dotted_decimal_iff)
  have p2: "parse_dotted_decimal (oid_text (b # ds)) = (Some b, oid_text ds)"
    by (cases ds) (simp_all add: parse_dotted_decimal_iff)
  have "CBB_add_asn1_oid_from_text env d (oid_text cs) =
      and_then (and_then (CBB_flush env d) (\<lambda>_. add_base128_integer env d (40 * a + b)))
        (\<lambda>_. add_each add_base128_integer env d ds)"
    using c add_oid_components_eq [of "length (oid_text ds)" "oid_text ds" ds env d]
    unfolding CBB_add_asn1_oid_from_text_def p1 p2 prod.case option.case valid_oid_check and_then_assoc
    by (simp add: parse_components_iff)
  moreover have "writes env d (and_then (CBB_flush env d) (\<lambda>_. add_base128_integer env d (40 * a + b)))
      ([] @ base128_bytes (40 * unat a + unat b))"
    using writes_and_then [OF CBB_flush_writes [OF h] add_base128_integer_writes [OF h, of d "40 * a + b"]]
    by (simp add: oid_first [OF c])
  ultimately show ?thesis
    using w_base128.add_each_writes [OF h, of ds d] cs by simp
qed

text \<open>Any other text is refused.\<close>

lemma from_text_invalid:
  assumes "\<nexists>cs. valid_oid cs \<and> text = oid_text cs"
  shows "fst (CBB_add_asn1_oid_from_text env d text cbb) = None"
proof (rule ccontr)
  assume "fst (CBB_add_asn1_oid_from_text env d text cbb) \<noteq> None"
  then obtain u cbb' where "CBB_add_asn1_oid_from_text env d text cbb = (Some u, cbb')"
    by (cases "CBB_add_asn1_oid_from_text env d text cbb") auto
  then obtain a r b r2 cbb1 where p: "parse_dotted_decimal text = (Some a, r)" "parse_dotted_decimal r = (Some b, r2)"
    and c: "\<not> (a > 2 \<or> (a < 2 \<and> b > 39) \<or> b > (- 1) - 80)"
    and rest: "add_oid_components (length r2) env d r2 cbb1 = (Some u, cbb')"
    by (auto simp: CBB_add_asn1_oid_from_text_def and_then_eq_Some split: prod.splits option.splits if_splits)
  have "parse_components (length r2) r2 \<noteq> None"
    using add_oid_components_fails [of "length r2" r2 env d cbb1] rest by auto
  then obtain ds where ds: "r2 = oid_text ds" using parse_components_iff [of r2 "length r2"] by auto
  have "r = oid_text (b # ds)" using p(2) ds by (cases ds) (auto simp: parse_dotted_decimal_iff)
  then have "text = oid_text (a # b # ds)" using p(1) by (auto simp: parse_dotted_decimal_iff)
  moreover have "valid_oid (a # b # ds)" using c unfolding valid_oid_check by (simp add: valid_oid_def)
  ultimately show False using assms by blast
qed

section \<open>From contents to text, exactly\<close>

lemma length_decimal: "n < 10 ^ Suc k \<Longrightarrow> length (decimal n) \<le> Suc k"
proof (induction k arbitrary: n)
  case (Suc k)
  then have "n div 10 < 10 ^ Suc k" by (simp add: div_less_iff_less_mult mult.commute)
  then show ?case using Suc.IH by (simp add: decimal.simps [of n])
qed (simp add: decimal.simps)

lemma add_decimal_writes:
  assumes "heap_bounded env"
  shows "writes env d (add_decimal env d v) (decimal (unat v))"
proof -
  have "unat v < 10 ^ Suc 19" using unat_u64_bound [of v] by simp
  then have "length (decimal (unat v)) \<le> Suc 19" by (rule length_decimal)
  then show ?thesis unfolding add_decimal_def by (intro CBB_add_bytes_writes assms) simp
qed

definition add_component :: "heap_env \<Rightarrow> nat \<Rightarrow> u64 \<Rightarrow> unit writer" where
  "add_component env d v = and_then (CBB_add_u8 env d 0x2e) (\<lambda>_. add_decimal env d v)"

interpretation text_components: appender add_component "\<lambda>v. 0x2e # decimal (unat v)" "\<lambda>_. True"
  by unfold_locales (simp add: add_component_def writes_Cons add_decimal_writes)

lemma oid_text_loop_eq:
  "read_all_fuel fuel parse_base128_integer copy = Some ds \<Longrightarrow>
    oid_text_loop fuel env d copy = add_each add_component env d ds"
proof (induction fuel arbitrary: copy ds)
  case 0
  then show ?case by (auto simp: read_all_fuel.simps oid_text_loop.simps CBS_len_def split: if_splits)
next
  case (Suc fuel)
  show ?case
  proof (cases "copy = []")
    case True
    then show ?thesis using Suc.prems
      by (simp add: read_all_fuel.simps [of "Suc fuel"] oid_text_loop.simps CBS_len_def)
  next
    case False
    then obtain a r as where "parse_base128_integer copy = (Some a, r)"
      "read_all_fuel fuel parse_base128_integer r = Some as" "ds = a # as"
      using Suc.prems by (auto simp: read_all_fuel.simps [of "Suc fuel"] split: prod.splits option.splits)
    then show ?thesis using False Suc.IH
      by (simp add: oid_text_loop.simps [of "Suc fuel"] CBS_len_def add_component_def and_then_assoc)
  qed
qed

lemma oid_text_loop_fails:
  "read_all_fuel fuel parse_base128_integer copy = None \<Longrightarrow> fst (oid_text_loop fuel env d copy cbb) = None"
proof (induction fuel arbitrary: copy cbb)
  case 0
  then show ?case by (auto simp: read_all_fuel.simps oid_text_loop.simps CBS_len_def split: if_splits)
next
  case (Suc fuel)
  have ne: "copy \<noteq> []" using Suc.prems by (auto simp: read_all_fuel.simps [of "Suc fuel"])
  obtain a r where a: "parse_base128_integer copy = (a, r)" by (cases "parse_base128_integer copy")
  show ?case
  proof (cases a)
    case None
    then show ?thesis using ne a by (simp add: oid_text_loop.simps [of "Suc fuel"] CBS_len_def)
  next
    case (Some v)
    then have "read_all_fuel fuel parse_base128_integer r = None"
      using Suc.prems ne a by (simp add: read_all_fuel.simps [of "Suc fuel"])
    then show ?thesis using Suc.IH ne a Some
      by (auto simp: oid_text_loop.simps [of "Suc fuel"] CBS_len_def and_then_def
          split: prod.splits option.splits)
  qed
qed

text \<open>The components of a first subidentifier.\<close>

definition oid_split :: "u64 \<Rightarrow> u64 \<times> u64" where
  "oid_split v = (if v \<ge> 80 then (2, v - 80) else (v div 40, v mod 40))"

lemma oid_split_valid:
  assumes "oid_split v = (a, b)"
  shows "unat a \<le> 2" "unat a < 2 \<longrightarrow> unat b \<le> 39" "unat b < 2 ^ 64 - 80" "40 * unat a + unat b = unat v"
proof -
  have g: "v \<ge> 80 \<longleftrightarrow> 80 \<le> unat v" by (simp add: word_le_nat_alt)
  consider "80 \<le> unat v" "a = 2" "unat b = unat v - 80"
    | "unat v < 80" "unat a = unat v div 40" "unat b = unat v mod 40"
    using assms g by (cases "v \<ge> 80") (auto simp: oid_split_def unat_sub unat_div unat_mod)
  then have "unat a \<le> 2 \<and> (unat a < 2 \<longrightarrow> unat b \<le> 39) \<and> unat b < 2 ^ 64 - 80 \<and> 40 * unat a + unat b = unat v"
  proof cases
    case 1
    then show ?thesis using unat_u64_bound [of v] by simp
  next
    case 2
    have "unat v div 40 < 2" using 2 by (simp add: div_less_iff_less_mult)
    moreover have "unat v mod 40 < 40" by simp
    moreover have "40 * (unat v div 40) + unat v mod 40 = unat v" by simp
    ultimately show ?thesis unfolding 2(2,3) by auto
  qed
  then show "unat a \<le> 2" "unat a < 2 \<longrightarrow> unat b \<le> 39" "unat b < 2 ^ 64 - 80" "40 * unat a + unat b = unat v"
    by blast+
qed

lemma first_two_unique:
  fixes x y z w :: nat
  assumes "x \<le> 2" "z \<le> 2" "x < 2 \<longrightarrow> y \<le> 39" "z < 2 \<longrightarrow> w \<le> 39" "40 * x + y = 40 * z + w"
  shows "z = x \<and> w = y"
proof -
  have "x = 0 \<or> x = 1 \<or> x = 2" "z = 0 \<or> z = 1 \<or> z = 2" using assms(1,2) by auto
  then show ?thesis using assms(3-5) by (elim disjE) simp_all
qed

lemma oid_split_unique:
  assumes "unat a \<le> 2" "unat a < 2 \<longrightarrow> unat b \<le> 39" "unat b < 2 ^ 64 - 80"
  shows "oid_split (40 * a + b) = (a, b)"
proof -
  obtain c e where s: "oid_split (40 * a + b) = (c, e)" by (cases "oid_split (40 * a + b)")
  note v = oid_split_valid [OF s, unfolded oid_first [OF assms]]
  have "unat c = unat a \<and> unat e = unat b"
    using first_two_unique [OF assms(1) v(1) assms(2) v(2)] v(4) by simp
  then show ?thesis using s by (simp add: word_unat_eq_iff)
qed

lemma oid_text_Cons2: "oid_text (a # b # ds) = (decimal (unat a) @ 0x2e # decimal (unat b)) @ concat (map (\<lambda>c. 0x2e # decimal (unat c)) ds)"
  by (induction ds arbitrary: a b) auto

definition oid_text_body :: "heap_env \<Rightarrow> u64 \<Rightarrow> cbs \<Rightarrow> unit writer" where
  "oid_text_body env v copy =
     and_then
       (if v \<ge> 80 then
          and_then (CBB_add_bytes env 0 [0x32, 0x2e]) (\<lambda>_. add_decimal env 0 (v - 80))
        else
          and_then (add_decimal env 0 (v div 40)) (\<lambda>_.
            and_then (CBB_add_u8 env 0 0x2e) (\<lambda>_. add_decimal env 0 (v mod 40))))
       (\<lambda>_. and_then (oid_text_loop (length copy) env 0 copy) (\<lambda>_. CBB_add_u8 env 0 0))"

lemma oid_to_text_eq:
  "CBS_asn1_oid_to_text env cbs =
    (case parse_base128_integer cbs of
       (None, _) \<Rightarrow> None
     | (Some v, copy) \<Rightarrow> serialise env 32 (oid_text_body env v copy))"
  unfolding CBS_asn1_oid_to_text_def serialise_def oid_text_body_def and_then_assoc
  by (cases "parse_base128_integer cbs") (auto simp: and_then_def split: option.splits prod.splits)

lemma oid_text_body_writes:
  assumes h: "heap_bounded env" and s: "oid_split v = (a, b)" and r: "read_all parse_base128_integer copy = Some ds"
  shows "writes env 0 (oid_text_body env v copy) (oid_text (a # b # ds) @ [0])"
proof -
  let ?first = "if v \<ge> 80 then
          and_then (CBB_add_bytes env 0 [0x32, 0x2e]) (\<lambda>_. add_decimal env 0 (v - 80))
        else
          and_then (add_decimal env 0 (v div 40)) (\<lambda>_.
            and_then (CBB_add_u8 env 0 0x2e) (\<lambda>_. add_decimal env 0 (v mod 40)))"
  have first: "writes env 0 ?first (decimal (unat a) @ 0x2e # decimal (unat b))"
  proof (cases "v \<ge> 80")
    case True
    have "decimal (unat (2 :: u64)) = [0x32]" by (simp add: decimal.simps)
    moreover have "writes env 0 (and_then (CBB_add_bytes env 0 [0x32, 0x2e]) (\<lambda>_. add_decimal env 0 (v - 80)))
        ([0x32, 0x2e] @ decimal (unat (v - 80)))"
      by (intro writes_and_then CBB_add_bytes_writes add_decimal_writes h) simp
    ultimately show ?thesis using True s by (auto simp: oid_split_def)
  next
    case False
    have "writes env 0 (and_then (add_decimal env 0 (v div 40)) (\<lambda>_.
            and_then (CBB_add_u8 env 0 0x2e) (\<lambda>_. add_decimal env 0 (v mod 40))))
        (decimal (unat (v div 40)) @ 0x2e # decimal (unat (v mod 40)))"
      by (intro writes_and_then writes_Cons add_decimal_writes h)
    then show ?thesis using False s by (auto simp: oid_split_def)
  qed
  have loop: "oid_text_loop (length copy) env 0 copy = add_each add_component env 0 ds"
    using r unfolding read_all_def by (rule oid_text_loop_eq)
  have "writes env 0 (and_then ?first (\<lambda>_. add_each add_component env 0 ds)) (oid_text (a # b # ds))"
    using text_components.add_each_writes [OF h _ first, of ds] by (simp only: oid_text_Cons2) simp
  from writes_and_then [OF this CBB_add_u8_writes [OF h, of 0 0]]
  show ?thesis unfolding oid_text_body_def loop and_then_assoc .
qed

lemma oid_text_body_fails:
  assumes r: "read_all parse_base128_integer copy = None"
  shows "fst (oid_text_body env v copy cbb) = None"
  using oid_text_loop_fails [of "length copy" copy env 0] r
  by (auto simp: oid_text_body_def and_then_def read_all_def split: prod.splits option.splits)
     (metis fst_conv option.distinct(1))+

lemma serialise_fails: "(\<And>cbb. fst (m cbb) = None) \<Longrightarrow> serialise env cap m = None"
  by (auto simp: serialise_def and_then_def split: prod.splits option.splits) (metis fst_conv option.distinct(1))

text \<open>The contents that have a text are those of a valid identifier.\<close>

lemma oid_contents_iff:
  "(\<exists>v copy ds. parse_base128_integer s = (Some v, copy) \<and> read_all parse_base128_integer copy = Some ds \<and>
      cs = fst (oid_split v) # snd (oid_split v) # ds) \<longleftrightarrow>
    valid_oid cs \<and> s = oid_contents cs"
proof
  assume "\<exists>v copy ds. parse_base128_integer s = (Some v, copy) \<and> read_all parse_base128_integer copy = Some ds \<and>
      cs = fst (oid_split v) # snd (oid_split v) # ds"
  then obtain v copy ds a b where p: "parse_base128_integer s = (Some v, copy)"
    and r: "read_all parse_base128_integer copy = Some ds" and sp: "oid_split v = (a, b)" and cs: "cs = a # b # ds"
    by (metis prod.collapse)
  show "valid_oid cs \<and> s = oid_contents cs"
    using oid_split_valid [OF sp] base128.rd_Some [OF p] r cs
    by (simp add: valid_oid_def base128s.read_all_iff)
next
  assume v: "valid_oid cs \<and> s = oid_contents cs"
  then obtain a b ds where cs: "cs = a # b # ds" by (cases cs rule: oid_contents.cases) (auto simp: valid_oid_def)
  have c: "unat a \<le> 2" "unat a < 2 \<longrightarrow> unat b \<le> 39" "unat b < 2 ^ 64 - 80"
    using v cs by (auto simp: valid_oid_def)
  have "parse_base128_integer s = (Some (40 * a + b), concat (map (\<lambda>c. base128_bytes (unat c)) ds))"
    using v cs base128.rd_enc [of "40 * a + b"] by (simp add: oid_first [OF c])
  then show "\<exists>v copy ds. parse_base128_integer s = (Some v, copy) \<and> read_all parse_base128_integer copy = Some ds \<and>
      cs = fst (oid_split v) # snd (oid_split v) # ds"
    using cs base128s.read_all_concat [of ds] by (simp add: oid_split_unique [OF c])
qed

section \<open>Properties\<close>

lemma length_base128_bytes: "n < 2 ^ 64 \<Longrightarrow> length (base128_bytes n) \<le> 10"
proof -
  assume "n < 2 ^ 64"
  then have "n div 128 < 128 ^ 9" by (simp add: div_less_iff_less_mult)
  then show ?thesis using length_base128_high [of "n div 128" 9] by (simp add: base128_bytes_def)
qed

lemma length_decimal_pos: "1 \<le> length (decimal n)"
  using decimal_nonempty [of n] by (cases "decimal n") (auto simp del: decimal_nonempty)

lemma length_oid_contents: "valid_oid cs \<Longrightarrow> length (oid_contents cs) \<le> 10 * length (oid_text cs)"
proof -
  assume v: "valid_oid cs"
  then obtain a b ds where cs: "cs = a # b # ds" by (cases cs rule: oid_contents.cases) (auto simp: valid_oid_def)
  have "40 * unat a + unat b < 2 ^ 64" using v cs by (auto simp: valid_oid_def)
  then have "length (base128_bytes (40 * unat a + unat b)) \<le> 10" by (rule length_base128_bytes)
  moreover have "length (concat (map (\<lambda>c. base128_bytes (unat c)) ds)) \<le>
      10 * length (concat (map (\<lambda>c. 0x2e # decimal (unat c)) ds))"
  proof (induction ds)
    case (Cons c ds)
    then show ?case using length_base128_bytes [OF unat_u64_bound [of c]] by simp
  qed simp
  ultimately show ?thesis
    using length_decimal_pos [of "unat a"] unfolding cs oid_text_Cons2 by simp
qed

text \<open>C6. Object identifiers from text: given memory, \<open>CBB_add_asn1_oid_from_text\<close> accepts
  exactly the dotted decimal texts of valid identifiers (at least two components, the first
  two in range, every component a 64-bit number without leading zeros, no empty component),
  and writes their DER contents.\<close>

theorem CBB_add_asn1_oid_from_text_exact:
  assumes "heap_bounded env" and "cap < 2 ^ 62" and "length text < 2 ^ 56"
    and "\<forall>n \<le> 20 * length text + cap + 40. can_alloc env n"
  shows "serialise env cap (CBB_add_asn1_oid_from_text env 0 text) = Some out \<longleftrightarrow>
    (\<exists>cs. valid_oid cs \<and> text = oid_text cs \<and> out = oid_contents cs)"
proof (cases "\<exists>cs. valid_oid cs \<and> text = oid_text cs")
  case True
  then obtain cs where cs: "valid_oid cs" "text = oid_text cs" by blast
  have run: "serialise env cap (CBB_add_asn1_oid_from_text env 0 text) = Some (oid_contents cs)"
    using length_oid_contents [OF cs(1)] assms(3,4) cs(2)
    by (intro serialise_writes(2) [OF assms(1) _ assms(2)])
       (auto intro: from_text_writes [OF assms(1) cs(1)])
  have p: "parse_components (length text) text = Some c" if "text = oid_text c" for c
    using parse_components_iff [OF order_refl] that by blast
  have "cs' = cs" if "text = oid_text cs'" for cs'
    using p [OF cs(2)] p [OF that] by simp
  then show ?thesis using cs run by (metis option.inject)
next
  case False
  then have "serialise env cap (CBB_add_asn1_oid_from_text env 0 text) = None"
    by (intro serialise_fails from_text_invalid) blast
  then show ?thesis using False by auto
qed

text \<open>The text of rsadsi, \<open>1.2.840.113549\<close>.\<close>

definition rsadsi :: bytes where
  "rsadsi = [0x31, 0x2e, 0x32, 0x2e, 0x38, 0x34, 0x30, 0x2e, 0x31, 0x31, 0x33, 0x35, 0x34, 0x39]"

theorem CBB_add_asn1_oid_from_text_exact_witness:
  "serialise small_heap 0 (CBB_add_asn1_oid_from_text small_heap 0 rsadsi) =
      Some [0x2a, 0x86, 0x48, 0x86, 0xf7, 0x0d] \<longleftrightarrow>
    (\<exists>cs. valid_oid cs \<and> rsadsi = oid_text cs \<and> [0x2a, 0x86, 0x48, 0x86, 0xf7, 0x0d] = oid_contents cs)"
  by (rule CBB_add_asn1_oid_from_text_exact) (simp_all add: rsadsi_def)

text \<open>C7. \<open>CBS_asn1_oid_to_text\<close> is its inverse: the text it returns, zero-terminated, is that
  of the one identifier with these contents, and given memory it returns one for every
  valid identifier.\<close>

theorem CBS_asn1_oid_to_text_exact:
  assumes "heap_bounded env"
  shows "(\<forall>text. CBS_asn1_oid_to_text env der = Some text \<longrightarrow>
      (\<exists>cs. valid_oid cs \<and> der = oid_contents cs \<and> text = oid_text cs @ [0])) \<and>
    (\<forall>cs. valid_oid cs \<and> length (oid_text cs) < 2 ^ 56 \<and>
      (\<forall>n \<le> 2 * length (oid_text cs) + 80. can_alloc env n) \<and> der = oid_contents cs \<longrightarrow>
      CBS_asn1_oid_to_text env der = Some (oid_text cs @ [0]))"
proof (intro conjI allI impI)
  fix out assume out: "CBS_asn1_oid_to_text env der = Some out"
  then obtain v copy where p: "parse_base128_integer der = (Some v, copy)"
    and s: "serialise env 32 (oid_text_body env v copy) = Some out"
    by (auto simp: oid_to_text_eq split: prod.splits option.splits)
  have "read_all parse_base128_integer copy \<noteq> None"
    using s serialise_fails [of "oid_text_body env v copy" env 32] oid_text_body_fails [of copy] by force
  then obtain ds where ds: "read_all parse_base128_integer copy = Some ds" by auto
  obtain a b where ab: "oid_split v = (a, b)" by (cases "oid_split v")
  have "out = oid_text (a # b # ds) @ [0]"
    using serialise_writes(1) [OF assms oid_text_body_writes [OF assms ab ds], of 32] s by simp
  moreover have "valid_oid (a # b # ds) \<and> der = oid_contents (a # b # ds)"
    using p ds ab oid_contents_iff [of der "a # b # ds"] by auto
  ultimately show "\<exists>cs. valid_oid cs \<and> der = oid_contents cs \<and> out = oid_text cs @ [0]" by blast
next
  fix cs assume cs: "valid_oid cs \<and> length (oid_text cs) < 2 ^ 56 \<and>
      (\<forall>n \<le> 2 * length (oid_text cs) + 80. can_alloc env n) \<and> der = oid_contents cs"
  then obtain v copy ds where p: "parse_base128_integer der = (Some v, copy)"
    and ds: "read_all parse_base128_integer copy = Some ds" and c: "cs = fst (oid_split v) # snd (oid_split v) # ds"
    using oid_contents_iff [of der cs] by blast
  have w: "writes env 0 (oid_text_body env v copy) (oid_text cs @ [0])"
    unfolding c by (rule oid_text_body_writes [OF assms _ ds]) simp
  have "serialise env 32 (oid_text_body env v copy) = Some (oid_text cs @ [0])"
    using cs by (intro serialise_writes(2) [OF assms w]) auto
  then show "CBS_asn1_oid_to_text env der = Some (oid_text cs @ [0])"
    by (simp add: oid_to_text_eq p)
qed

theorem CBS_asn1_oid_to_text_exact_witness:
  "CBS_asn1_oid_to_text small_heap [0x2a, 0x03] = Some (oid_text [1, 2, 3] @ [0])"
proof -
  have l: "length (oid_text [1, 2, 3]) = 5" by (simp add: decimal.simps)
  have c: "oid_contents [1, 2, 3] = [0x2a, 0x03]" by (simp add: base128_bytes_def)
  have "valid_oid [1, 2, 3] \<and> length (oid_text [1, 2, 3]) < 2 ^ 56 \<and>
      (\<forall>n \<le> 2 * length (oid_text [1, 2, 3]) + 80. can_alloc small_heap n) \<and> [0x2a, 0x03] = oid_contents [1, 2, 3]"
    unfolding l c by (simp add: valid_oid_def)
  then show ?thesis
    using CBS_asn1_oid_to_text_exact [OF small_heap_bounded, of "[0x2a, 0x03]"] by blast
qed

end
