(* ===== verification/Unicode.thy ===== *)
theory Unicode
  imports Cbb
begin

text \<open>
  \<open>crypto/bytestring/unicode.c\<close>: reading and writing one code point in UTF-8, Latin-1,
  UCS-2 and UTF-32. The two operations of each encoding are a \<open>serialiser\<close>: they interpret
  the contract the DER readers and writers share.
\<close>

section \<open>Code\<close>

definition is_valid_code_point :: "u32 \<Rightarrow> bool" where
  "is_valid_code_point v =
     (if v > 0x10ffff \<or> v AND 0xfffe = 0xfffe \<or> (v \<ge> 0xfdd0 \<and> v \<le> 0xfdef) \<or>
         (v \<ge> 0xd800 \<and> v \<le> 0xdfff)
      then False else True)"

definition BOTTOM_BITS :: "nat \<Rightarrow> u8" where
  "BOTTOM_BITS n = push_bit n 1 - 1"

definition TOP_BITS :: "nat \<Rightarrow> u8" where
  "TOP_BITS n = NOT (BOTTOM_BITS (8 - n))"

fun utf8_continuation :: "nat \<Rightarrow> u32 \<Rightarrow> u32 reader" where
  "utf8_continuation 0 v = ok v"
| "utf8_continuation (Suc n) v =
     and_then CBS_get_u8 (\<lambda>c.
       if c AND TOP_BITS 2 \<noteq> TOP_BITS 1 then fail
       else utf8_continuation n (push_bit 6 v OR ucast (c AND BOTTOM_BITS 6)))"

declare utf8_continuation.simps [simp del]

definition cbs_get_utf8 :: "u32 reader" where
  "cbs_get_utf8 =
     and_then CBS_get_u8 (\<lambda>c.
       if c \<le> 0x7f then ok (ucast c)
       else
         case (if c AND TOP_BITS 3 = TOP_BITS 2 then Some (ucast (c AND BOTTOM_BITS 5), 1, 0x80)
               else if c AND TOP_BITS 4 = TOP_BITS 3 then Some (ucast (c AND BOTTOM_BITS 4), 2, 0x800)
               else if c AND TOP_BITS 5 = TOP_BITS 4 then Some (ucast (c AND BOTTOM_BITS 3), 3, 0x10000)
               else None) of
           None \<Rightarrow> fail
         | Some (v, len, lower_bound) \<Rightarrow>
             and_then (utf8_continuation len v) (\<lambda>v.
               if \<not> is_valid_code_point v \<or> v < lower_bound then fail else ok v))"

definition cbs_get_latin1 :: "u32 reader" where
  "cbs_get_latin1 = and_then CBS_get_u8 (\<lambda>c. ok (ucast c))"

definition cbs_get_ucs2_be :: "u32 reader" where
  "cbs_get_ucs2_be =
     and_then CBS_get_u16 (\<lambda>c. if \<not> is_valid_code_point (ucast c) then fail else ok (ucast c))"

definition cbs_get_utf32_be :: "u32 reader" where
  "cbs_get_utf32_be =
     and_then CBS_get_u32 (\<lambda>v. if is_valid_code_point v then ok v else fail)"

definition cbb_get_utf8_len :: "u32 \<Rightarrow> nat" where
  "cbb_get_utf8_len u = (if u \<le> 0x7f then 1 else if u \<le> 0x7ff then 2 else if u \<le> 0xffff then 3 else 4)"

definition cbb_add_utf8 :: "heap_env \<Rightarrow> nat \<Rightarrow> u32 \<Rightarrow> unit writer" where
  "cbb_add_utf8 env d u =
     (if \<not> is_valid_code_point u then fail
      else if u \<le> 0x7f then CBB_add_u8 env d (ucast u)
      else if u \<le> 0x7ff then
        and_then (CBB_add_u8 env d (TOP_BITS 2 OR ucast (drop_bit 6 u))) (\<lambda>_.
          CBB_add_u8 env d (TOP_BITS 1 OR (ucast u AND BOTTOM_BITS 6)))
      else if u \<le> 0xffff then
        and_then (CBB_add_u8 env d (TOP_BITS 3 OR ucast (drop_bit 12 u))) (\<lambda>_.
          and_then (CBB_add_u8 env d (TOP_BITS 1 OR (ucast (drop_bit 6 u) AND BOTTOM_BITS 6))) (\<lambda>_.
            CBB_add_u8 env d (TOP_BITS 1 OR (ucast u AND BOTTOM_BITS 6))))
      else if u \<le> 0x10ffff then
        and_then (CBB_add_u8 env d (TOP_BITS 4 OR ucast (drop_bit 18 u))) (\<lambda>_.
          and_then (CBB_add_u8 env d (TOP_BITS 1 OR (ucast (drop_bit 12 u) AND BOTTOM_BITS 6))) (\<lambda>_.
            and_then (CBB_add_u8 env d (TOP_BITS 1 OR (ucast (drop_bit 6 u) AND BOTTOM_BITS 6))) (\<lambda>_.
              CBB_add_u8 env d (TOP_BITS 1 OR (ucast u AND BOTTOM_BITS 6)))))
      else fail)"

definition cbb_add_latin1 :: "heap_env \<Rightarrow> nat \<Rightarrow> u32 \<Rightarrow> unit writer" where
  "cbb_add_latin1 env d u = (if u \<le> 0xff then CBB_add_u8 env d (ucast u) else fail)"

definition cbb_add_ucs2_be :: "heap_env \<Rightarrow> nat \<Rightarrow> u32 \<Rightarrow> unit writer" where
  "cbb_add_ucs2_be env d u =
     (if u \<le> 0xffff \<and> is_valid_code_point u then CBB_add_u16 env d (ucast u) else fail)"

definition cbb_add_utf32_be :: "heap_env \<Rightarrow> nat \<Rightarrow> u32 \<Rightarrow> unit writer" where
  "cbb_add_utf32_be env d u = (if is_valid_code_point u then CBB_add_u32 env d u else fail)"

section \<open>UTF-8 in numbers\<close>

text \<open>The encoding of a code point (Unicode 9.0.0, table 3-6).\<close>

definition utf8_bytes :: "u32 \<Rightarrow> bytes" where
  "utf8_bytes u =
     (let n = unat u
      in if n < 0x80 then [of_nat n]
         else if n < 0x800 then [of_nat (0xc0 + n div 2 ^ 6), of_nat (0x80 + n mod 64)]
         else if n < 0x10000 then
           [of_nat (0xe0 + n div 2 ^ 12), of_nat (0x80 + n div 2 ^ 6 mod 64), of_nat (0x80 + n mod 64)]
         else [of_nat (0xf0 + n div 2 ^ 18), of_nat (0x80 + n div 2 ^ 12 mod 64),
               of_nat (0x80 + n div 2 ^ 6 mod 64), of_nat (0x80 + n mod 64)])"

lemma bits_eqs:
  "BOTTOM_BITS 3 = mask 3" "BOTTOM_BITS 4 = mask 4" "BOTTOM_BITS 5 = mask 5" "BOTTOM_BITS 6 = mask 6"
  "TOP_BITS 1 = 0x80" "TOP_BITS 2 = 0xc0" "TOP_BITS 3 = 0xe0" "TOP_BITS 4 = 0xf0" "TOP_BITS 5 = 0xf8"
  by (simp_all add: BOTTOM_BITS_def TOP_BITS_def mask_eq_exp_minus_1 word_unat_eq_iff)

lemma unat_top_bits:
  "unat (c AND 0xc0 :: u8) = unat c div 64 * 64" "unat (c AND 0xf0 :: u8) = unat c div 16 * 16"
  "unat (c AND 0xf8 :: u8) = unat c div 8 * 8"
  using unat_and_not_mask [of c 6] unat_and_not_mask [of c 4] unat_and_not_mask [of c 3]
  by (simp_all add: u8_not_mask)

lemma lead_tests:
  "c AND 0xc0 = 0x80 \<longleftrightarrow> unat c div 64 = 2" "c AND 0xe0 = 0xc0 \<longleftrightarrow> unat c div 32 = 6"
  "c AND 0xf0 = 0xe0 \<longleftrightarrow> unat c div 16 = 14" "c AND 0xf8 = 0xf0 \<longleftrightarrow> unat (c :: u8) div 8 = 30"
  unfolding word_unat_eq_iff [of "c AND _"] unat_top_bits u8_and_e0 by auto

lemma utf8_continuation_Cons:
  assumes "unat v < 2 ^ 26"
  shows "utf8_continuation (Suc n) v (c # s) =
    (if unat c div 64 = 2 then utf8_continuation n (of_nat (unat v * 64 + unat c mod 64)) s else (None, s))"
proof -
  have m: "unat (ucast (c AND mask 6) :: u32) = unat c mod 64" by (simp add: unat_and_mask)
  have "unat (push_bit 6 v OR ucast (c AND mask 6)) = unat v * 64 + unat c mod 64"
    using unat_or_shift [of "ucast (c AND mask 6) :: u32" 6 v] assms m by simp
  then have "push_bit 6 v OR ucast (c AND mask 6) = of_nat (unat v * 64 + unat c mod 64)"
    by (rule unat_eq_of_nat)
  then show ?thesis
    unfolding utf8_continuation.simps bits_eqs lead_tests by (simp del: of_nat_add of_nat_mult)
qed

lemma utf8_continuation_Nil: "utf8_continuation (Suc n) v [] = (None, [])"
  by (simp add: utf8_continuation.simps and_then_def)

lemma get_u8_then: "and_then CBS_get_u8 f (c # s) = f c s"
  by simp

lemma utf8_continuation_0 [simp]: "utf8_continuation 0 v = ok v"
  by (rule utf8_continuation.simps)


lemma valid_code_point_bound: "is_valid_code_point v \<Longrightarrow> unat v \<le> 0x10ffff"
  by (auto simp: is_valid_code_point_def word_less_nat_alt split: if_splits)

lemma utf8_continuation_step:
  assumes "v < 2 ^ 26" and "k < 64"
  shows "utf8_continuation (Suc n) (of_nat v) (of_nat (0x80 + k) # s) =
    utf8_continuation n (of_nat (v * 64 + k)) s"
proof -
  have v: "unat (of_nat v :: u32) = v" using assms(1) by (intro unat_of_nat_small) simp
  have k: "unat (of_nat (0x80 + k) :: u8) = 128 + k" using assms(2) by (intro unat_of_nat_small) simp
  have "(128 + k) div 64 = 2" "(128 + k) mod 64 = k" using assms(2) mod_mult_self2 [of k 64 2] by (auto simp: add.commute)
  then show ?thesis
    using assms(1) by (subst utf8_continuation_Cons) (simp_all add: v k del: of_nat_add of_nat_mult)
qed

lemma utf8_continuation_Some:
  assumes "utf8_continuation (Suc n) (of_nat v) s = (Some w, s')" and "v < 2 ^ 26"
  obtains k r where "k < 64" "s = of_nat (0x80 + k) # r"
    "utf8_continuation n (of_nat (v * 64 + k)) r = (Some w, s')"
proof (cases s)
  case Nil
  then show ?thesis using assms(1) by (simp only: utf8_continuation_Nil) simp
next
  case (Cons c r)
  have v: "unat (of_nat v :: u32) = v" using assms(2) by (intro unat_of_nat_small) simp
  then have lt: "unat (of_nat v :: u32) < 2 ^ 26" using assms(2) by simp
  have c: "unat c div 64 = 2" "utf8_continuation n (of_nat (v * 64 + unat c mod 64)) r = (Some w, s')"
    using assms(1) unfolding Cons utf8_continuation_Cons [OF lt] v by (auto split: if_splits)
  have "unat c = 0x80 + unat c mod 64" using c(1) div_mult_mod_eq [of "unat c" 64] by simp
  then have "c = of_nat (0x80 + unat c mod 64)" by (rule unat_eq_of_nat)
  then show ?thesis using that [of "unat c mod 64" r] c(2) Cons by simp
qed

definition utf8_tail :: "nat \<Rightarrow> nat \<Rightarrow> nat \<Rightarrow> u32 reader" where
  "utf8_tail n v lower = and_then (utf8_continuation n (of_nat v)) (\<lambda>v.
     if is_valid_code_point v \<and> lower \<le> unat v then ok v else fail)"

lemma cbs_get_utf8_Cons:
  "cbs_get_utf8 (c # s) =
    (if unat c < 128 then (Some (ucast c), s)
     else if unat c div 32 = 6 then utf8_tail (Suc 0) (unat c mod 32) 0x80 s
     else if unat c div 16 = 14 then utf8_tail (Suc (Suc 0)) (unat c mod 16) 0x800 s
     else if unat c div 8 = 30 then utf8_tail (Suc (Suc (Suc 0))) (unat c mod 8) 0x10000 s
     else (None, s))"
proof -
  have "ucast (c AND mask k) = (of_nat (unat c mod 2 ^ k) :: u32)" for k
    using unat_and_mask [of c k] by (intro unat_eq_of_nat) simp
  from this [of 3] this [of 4] this [of 5]
  have m: "ucast (c AND mask 3) = (of_nat (unat c mod 8) :: u32)"
    "ucast (c AND mask 4) = (of_nat (unat c mod 16) :: u32)"
    "ucast (c AND mask 5) = (of_nat (unat c mod 32) :: u32)" by simp_all
  have ascii: "c \<le> 0x7f \<longleftrightarrow> unat c < 128" by (auto simp: word_le_nat_alt)
  have tail: "and_then (utf8_continuation n (of_nat v))
        (\<lambda>v. if \<not> is_valid_code_point v \<or> v < lower then fail else ok v) = utf8_tail n v (unat lower)"
    for n v and lower :: u32
    unfolding utf8_tail_def
    by (rule arg_cong [where f = "and_then _"]) (auto simp: fun_eq_iff word_less_nat_alt)
  have nums: "unat (0x80 :: u32) = 0x80" "unat (0x800 :: u32) = 0x800" "unat (0x10000 :: u32) = 0x10000"
    "(1 :: nat) = Suc 0" "(2 :: nat) = Suc (Suc 0)" "(3 :: nat) = Suc (Suc (Suc 0))" by simp_all
  note step = cbs_get_utf8_def get_u8_then bits_eqs lead_tests ascii m if_True if_False option.case
    prod.case ok_apply fail_apply tail nums(1-3)
  consider "unat c < 128" | "\<not> unat c < 128" "unat c div 32 = 6"
    | "\<not> unat c < 128" "unat c div 32 \<noteq> 6" "unat c div 16 = 14"
    | "\<not> unat c < 128" "unat c div 32 \<noteq> 6" "unat c div 16 \<noteq> 14" "unat c div 8 = 30"
    | "\<not> unat c < 128" "unat c div 32 \<noteq> 6" "unat c div 16 \<noteq> 14" "unat c div 8 \<noteq> 30" by blast
  then show ?thesis
    by (cases; simp only: step simp_thms; simp only: nums(4-6))
qed

lemma cbs_get_utf8_lead:
  "v < 32 \<Longrightarrow> cbs_get_utf8 (of_nat (0xc0 + v) # s) = utf8_tail (Suc 0) v 0x80 s"
  "v < 16 \<Longrightarrow> cbs_get_utf8 (of_nat (0xe0 + v) # s) = utf8_tail (Suc (Suc 0)) v 0x800 s"
  "v < 8 \<Longrightarrow> cbs_get_utf8 (of_nat (0xf0 + v) # s) = utf8_tail (Suc (Suc (Suc 0))) v 0x10000 s"
proof -
  have c: "v < 32 \<Longrightarrow> unat (of_nat (0xc0 + v) :: u8) = 192 + v"
    "v < 16 \<Longrightarrow> unat (of_nat (0xe0 + v) :: u8) = 224 + v"
    "v < 8 \<Longrightarrow> unat (of_nat (0xf0 + v) :: u8) = 240 + v"
    by (intro unat_of_nat_small; simp)+
  have d: "r < m \<Longrightarrow> (m * q + r) div m = q" "r < m \<Longrightarrow> (m * q + r) mod m = r" for m q r :: nat
    by simp_all
  have a: "v < 32 \<Longrightarrow> (192 + v) div 32 = 6" "v < 32 \<Longrightarrow> (192 + v) mod 32 = v"
    "v < 16 \<Longrightarrow> (224 + v) div 32 = 7" "v < 16 \<Longrightarrow> (224 + v) div 16 = 14" "v < 16 \<Longrightarrow> (224 + v) mod 16 = v"
    "v < 8 \<Longrightarrow> (240 + v) div 32 = 7" "v < 8 \<Longrightarrow> (240 + v) div 16 = 15"
    "v < 8 \<Longrightarrow> (240 + v) div 8 = 30" "v < 8 \<Longrightarrow> (240 + v) mod 8 = v"
    using d(1) [of v 32 6] d(2) [of v 32 6] d(1) [of v 32 7] d(1) [of v 16 14] d(2) [of v 16 14]
      d(1) [of "16 + v" 32 7] d(1) [of v 16 15] d(1) [of v 8 30] d(2) [of v 8 30] by simp_all
  show "v < 32 \<Longrightarrow> cbs_get_utf8 (of_nat (0xc0 + v) # s) = utf8_tail (Suc 0) v 0x80 s"
    "v < 16 \<Longrightarrow> cbs_get_utf8 (of_nat (0xe0 + v) # s) = utf8_tail (Suc (Suc 0)) v 0x800 s"
    "v < 8 \<Longrightarrow> cbs_get_utf8 (of_nat (0xf0 + v) # s) = utf8_tail (Suc (Suc (Suc 0))) v 0x10000 s"
    by (simp_all add: cbs_get_utf8_Cons c a del: of_nat_add)
qed

lemma utf8_tail_iff:
  "utf8_tail n v lower s = (Some w, s') \<longleftrightarrow>
    utf8_continuation n (of_nat v) s = (Some w, s') \<and> is_valid_code_point w \<and> lower \<le> unat w"
  by (auto simp: utf8_tail_def and_then_eq_Some split: if_splits)

lemma utf8_lead_cases:
  fixes c :: u8
  obtains "unat c < 128" | v where "v < 32" "c = of_nat (0xc0 + v)" | v where "v < 16" "c = of_nat (0xe0 + v)"
  | v where "v < 8" "c = of_nat (0xf0 + v)"
  | "\<not> unat c < 128" "unat c div 32 \<noteq> 6" "unat c div 16 \<noteq> 14" "unat c div 8 \<noteq> 30"
proof -
  have "unat c div 32 = 6 \<Longrightarrow> unat c = 0xc0 + unat c mod 32" using div_mult_mod_eq [of "unat c" 32] by simp
  moreover have "unat c div 16 = 14 \<Longrightarrow> unat c = 0xe0 + unat c mod 16" using div_mult_mod_eq [of "unat c" 16] by simp
  moreover have "unat c div 8 = 30 \<Longrightarrow> unat c = 0xf0 + unat c mod 8" using div_mult_mod_eq [of "unat c" 8] by simp
  moreover have "unat c mod 32 < 32" "unat c mod 16 < 16" "unat c mod 8 < 8" by simp_all
  ultimately show ?thesis using that by (metis unat_eq_of_nat)
qed

lemma utf8_bytes_digits:
  "unat u = v * 64 + k \<Longrightarrow> v < 32 \<Longrightarrow> k < 64 \<Longrightarrow> 0x80 \<le> unat u \<Longrightarrow>
    utf8_bytes u = [of_nat (0xc0 + v), of_nat (0x80 + k)]"
  "unat u = (v * 64 + j) * 64 + k \<Longrightarrow> v < 16 \<Longrightarrow> j < 64 \<Longrightarrow> k < 64 \<Longrightarrow> 0x800 \<le> unat u \<Longrightarrow>
    utf8_bytes u = [of_nat (0xe0 + v), of_nat (0x80 + j), of_nat (0x80 + k)]"
  "unat u = ((v * 64 + i) * 64 + j) * 64 + k \<Longrightarrow> v < 8 \<Longrightarrow> i < 64 \<Longrightarrow> j < 64 \<Longrightarrow> k < 64 \<Longrightarrow>
    0x10000 \<le> unat u \<Longrightarrow>
    utf8_bytes u = [of_nat (0xf0 + v), of_nat (0x80 + i), of_nat (0x80 + j), of_nat (0x80 + k)]"
proof -
  have step: "(q * 64 + r) div 64 = q" "(q * 64 + r) mod 64 = r" if "r < 64" for q r :: nat
    using that by auto
  have p: "n div 2 ^ 6 = n div 64" "n div 2 ^ 12 = n div 64 div 64" "n div 2 ^ 18 = n div 64 div 64 div 64" for n :: nat
    by (simp_all add: div_mult2_eq [symmetric])
  {
    assume u: "unat u = v * 64 + k" and b: "v < 32" "k < 64" "0x80 \<le> unat u"
    have "\<not> unat u < 0x80" "unat u < 0x800" using u b by simp_all
    moreover have "unat u div 64 = v" "unat u mod 64 = k" unfolding u using b step by simp_all
    ultimately show "utf8_bytes u = [of_nat (0xc0 + v), of_nat (0x80 + k)]"
      unfolding utf8_bytes_def Let_def p by (simp only: if_True if_False)
  next
    assume u: "unat u = (v * 64 + j) * 64 + k" and b: "v < 16" "j < 64" "k < 64" "0x800 \<le> unat u"
    have "\<not> unat u < 0x80" "\<not> unat u < 0x800" "unat u < 0x10000" using u b by simp_all
    moreover have "unat u div 64 = v * 64 + j" "unat u mod 64 = k"
      by (simp_all only: u step [OF b(3)])
    ultimately show "utf8_bytes u = [of_nat (0xe0 + v), of_nat (0x80 + j), of_nat (0x80 + k)]"
      unfolding utf8_bytes_def Let_def p by (simp only: if_True if_False step [OF b(2)])
  next
    assume u: "unat u = ((v * 64 + i) * 64 + j) * 64 + k"
      and b: "v < 8" "i < 64" "j < 64" "k < 64" "0x10000 \<le> unat u"
    have "\<not> unat u < 0x80" "\<not> unat u < 0x800" "\<not> unat u < 0x10000" using b(5) by simp_all
    moreover have "unat u div 64 = (v * 64 + i) * 64 + j" "unat u mod 64 = k"
      by (simp_all only: u step [OF b(4)])
    ultimately show "utf8_bytes u = [of_nat (0xf0 + v), of_nat (0x80 + i), of_nat (0x80 + j), of_nat (0x80 + k)]"
      unfolding utf8_bytes_def Let_def p by (simp only: if_True if_False step [OF b(2)] step [OF b(3)])
  }
qed

lemma unat_u32_small: "n \<le> 0x1fffff \<Longrightarrow> unat (of_nat n :: u32) = n"
  by (intro unat_of_nat_small) simp

lemma high_bits_set:
  assumes "v AND 0xfffe = (0xfffe :: u32)"
  shows "0xe000 \<le> unat v"
proof (rule ccontr)
  assume "\<not> 0xe000 \<le> unat v"
  then have q: "unat v div 2 ^ 13 < 7" by (simp add: div_less_iff_less_mult)
  have b: "bit v k" if k: "bit (0xfffe :: u32) k" for k
  proof -
    have "bit (v AND 0xfffe) k" using k assms by (simp only:)
    then show ?thesis by (simp add: bit_and_iff)
  qed
  have "bit v 13" "bit v 14" "bit v 15" by (rule b, simp)+
  then have "bit (unat v) 13" "bit (unat v) 14" "bit (unat v) 15" by (simp_all add: bit_unsigned_iff)
  then have o: "odd (unat v div 2 ^ 13)" "odd (unat v div 2 ^ 14)" "odd (unat v div 2 ^ 15)"
    by (simp_all only: bit_iff_odd not_False_eq_True)
  have "unat v div 2 ^ 14 = unat v div 2 ^ 13 div 2" "unat v div 2 ^ 15 = unat v div 2 ^ 13 div 4"
    by (simp_all add: div_mult2_eq [symmetric])
  then obtain r :: nat where r: "r < 7" "odd r" "odd (r div 2)" "odd (r div 4)" using o q by metis
  from r(1) have "r \<in> {0, 1, 2, 3, 4, 5, 6}" by auto
  then show False using r(2-) by auto
qed

lemma valid_small: "unat v < 0xd800 \<Longrightarrow> is_valid_code_point v"
  using high_bits_set [of v] by (auto simp: is_valid_code_point_def word_less_nat_alt word_le_nat_alt)

lemma cbs_get_utf8_Some:
  assumes r: "cbs_get_utf8 s = (Some u, s')"
  shows "is_valid_code_point u \<and> s = utf8_bytes u @ s'"
proof -
  obtain c t where s: "s = c # t" using r by (cases s) (auto simp: cbs_get_utf8_def and_then_def)
  show ?thesis
  proof (cases c rule: utf8_lead_cases)
    case 1
    then have u: "u = ucast c" "s' = t" using r s by (simp_all add: cbs_get_utf8_Cons)
    have n: "unat u = unat c" unfolding u(1) by simp
    have "is_valid_code_point u" using 1 n by (intro valid_small) simp
    then show ?thesis using 1 s u(2) unfolding utf8_bytes_def Let_def n by simp
  next
    case (2 v)
    have g: "is_valid_code_point u" "0x80 \<le> unat u" and c1: "utf8_continuation (Suc 0) (of_nat v) t = (Some u, s')"
      using r unfolding s 2(2) cbs_get_utf8_lead(1) [OF 2(1)] utf8_tail_iff by blast+
    obtain k r1 where k1: "k < 64" "t = of_nat (0x80 + k) # r1" "utf8_continuation 0 (of_nat (v * 64 + k)) r1 = (Some u, s')"
      by (rule utf8_continuation_Some [OF c1]) (use 2(1) in simp)
    then have k: "k < 64" "t = of_nat (0x80 + k) # s'" "u = of_nat (v * 64 + k)" by simp_all
    have n: "unat u = v * 64 + k" unfolding k(3) using 2(1) k(1) by (intro unat_u32_small) simp
    from utf8_bytes_digits(1) [OF n 2(1) k(1) g(2)] show ?thesis using g(1) k(2) 2(2) s by simp
  next
    case (3 v)
    have g: "is_valid_code_point u" "0x800 \<le> unat u" and c1: "utf8_continuation (Suc (Suc 0)) (of_nat v) t = (Some u, s')"
      using r unfolding s 3(2) cbs_get_utf8_lead(2) [OF 3(1)] utf8_tail_iff by blast+
    obtain j r1 where k1: "j < 64" "t = of_nat (0x80 + j) # r1" "utf8_continuation (Suc 0) (of_nat (v * 64 + j)) r1 = (Some u, s')"
      by (rule utf8_continuation_Some [OF c1]) (use 3(1) in simp)
    obtain k r2 where k2: "k < 64" "r1 = of_nat (0x80 + k) # r2" "utf8_continuation 0 (of_nat ((v * 64 + j) * 64 + k)) r2 = (Some u, s')"
      by (rule utf8_continuation_Some [OF k1(3)]) (use 3(1) k1(1) in simp)
    have k: "j < 64" "k < 64" "t = of_nat (0x80 + j) # of_nat (0x80 + k) # s'" "u = of_nat ((v * 64 + j) * 64 + k)"
      using k1(1,2) k2 by simp_all
    have n: "unat u = (v * 64 + j) * 64 + k" unfolding k(4) using 3(1) k(1,2) by (intro unat_u32_small) simp
    from utf8_bytes_digits(2) [OF n 3(1) k(1,2) g(2)] show ?thesis using g(1) k(3) 3(2) s by simp
  next
    case (4 v)
    have g: "is_valid_code_point u" "0x10000 \<le> unat u"
      and c1: "utf8_continuation (Suc (Suc (Suc 0))) (of_nat v) t = (Some u, s')"
      using r unfolding s 4(2) cbs_get_utf8_lead(3) [OF 4(1)] utf8_tail_iff by blast+
    obtain i r1 where k1: "i < 64" "t = of_nat (0x80 + i) # r1" "utf8_continuation (Suc (Suc 0)) (of_nat (v * 64 + i)) r1 = (Some u, s')"
      by (rule utf8_continuation_Some [OF c1]) (use 4(1) in simp)
    obtain j r2 where k2: "j < 64" "r1 = of_nat (0x80 + j) # r2" "utf8_continuation (Suc 0) (of_nat ((v * 64 + i) * 64 + j)) r2 = (Some u, s')"
      by (rule utf8_continuation_Some [OF k1(3)]) (use 4(1) k1(1) in simp)
    obtain k r3 where k3: "k < 64" "r2 = of_nat (0x80 + k) # r3" "utf8_continuation 0 (of_nat (((v * 64 + i) * 64 + j) * 64 + k)) r3 = (Some u, s')"
      by (rule utf8_continuation_Some [OF k2(3)]) (use 4(1) k1(1) k2(1) in simp)
    have k: "i < 64" "j < 64" "k < 64" "t = of_nat (0x80 + i) # of_nat (0x80 + j) # of_nat (0x80 + k) # s'"
      "u = of_nat (((v * 64 + i) * 64 + j) * 64 + k)"
      using k1(1,2) k2(1,2) k3 by simp_all
    have n: "unat u = ((v * 64 + i) * 64 + j) * 64 + k"
      unfolding k(5) using 4(1) k(1-3) by (intro unat_u32_small) simp
    from utf8_bytes_digits(3) [OF n 4(1) k(1,2,3) g(2)] show ?thesis using g(1) k(4) 4(2) s by simp
  next
    case 5
    then show ?thesis using r s by (simp add: cbs_get_utf8_Cons)
  qed
qed


lemma cbs_get_utf8_bytes:
  assumes valid: "is_valid_code_point u"
  shows "cbs_get_utf8 (utf8_bytes u @ t) = (Some u, t)"
proof -
  define n where "n = unat u"
  have b: "n \<le> 0x10ffff" unfolding n_def by (rule valid_code_point_bound [OF valid])
  have u: "u = of_nat n" by (simp add: n_def)
  consider "n < 0x80" | "0x80 \<le> n" "n < 0x800" | "0x800 \<le> n" "n < 0x10000" | "0x10000 \<le> n"
    by linarith
  then show ?thesis
  proof cases
    case 1
    have c: "unat (of_nat n :: u8) = n" using 1 by (intro unat_of_nat_small) simp
    then have "unat (ucast (of_nat n :: u8) :: u32) = unat u" by (simp add: n_def)
    then have "ucast (of_nat n :: u8) = u" by (simp only: word_unat_eq_iff)
    then show ?thesis
      using 1 c unfolding utf8_bytes_def n_def [symmetric] Let_def by (simp add: cbs_get_utf8_Cons)
  next
    case 2
    define v k where "v = n div 64" and "k = n mod 64"
    have vk: "v < 32" "k < 64" "n = v * 64 + k" using 2 by (auto simp: v_def k_def div_less_iff_less_mult)
    have bs: "utf8_bytes u = [of_nat (0xc0 + v), of_nat (0x80 + k)]"
      using vk 2 by (intro utf8_bytes_digits) (simp_all add: n_def)
    have "utf8_continuation (Suc 0) (of_nat v) (of_nat (0x80 + k) # t) = (Some u, t)"
      using vk u by (subst utf8_continuation_step) simp_all
    then show ?thesis using 2 valid vk(1)
      by (simp add: bs cbs_get_utf8_lead utf8_tail_iff n_def del: of_nat_add)
  next
    case 3
    define v j k where "v = n div 4096" and "j = n div 64 mod 64" and "k = n mod 64"
    have "n div 64 = v * 64 + j" by (simp add: v_def j_def div_mult2_eq [of n 64 64, simplified])
    then have vk: "v < 16" "j < 64" "k < 64" "n = (v * 64 + j) * 64 + k"
      using 3 div_mult_mod_eq [of n 64] by (auto simp: v_def j_def k_def div_less_iff_less_mult)
    have bs: "utf8_bytes u = [of_nat (0xe0 + v), of_nat (0x80 + j), of_nat (0x80 + k)]"
      using vk 3 by (intro utf8_bytes_digits) (simp_all add: n_def)
    have "utf8_continuation (Suc (Suc 0)) (of_nat v) (of_nat (0x80 + j) # of_nat (0x80 + k) # t) = (Some u, t)"
      using vk u by (simp add: utf8_continuation_step del: of_nat_add of_nat_mult)
    then show ?thesis using 3 valid vk(1)
      by (simp add: bs cbs_get_utf8_lead utf8_tail_iff n_def del: of_nat_add)
  next
    case 4
    define v i j k where "v = n div 262144" and "i = n div 4096 mod 64" and "j = n div 64 mod 64" and "k = n mod 64"
    have "n div 4096 = v * 64 + i" by (simp add: v_def i_def div_mult2_eq [of n 4096 64, simplified])
    moreover have "n div 64 = n div 4096 * 64 + j" by (simp add: j_def div_mult2_eq [of n 64 64, simplified])
    ultimately have vk: "v < 8" "i < 64" "j < 64" "k < 64" "n = ((v * 64 + i) * 64 + j) * 64 + k"
      using b div_mult_mod_eq [of n 64] by (auto simp: v_def i_def j_def k_def div_less_iff_less_mult)
    have bs: "utf8_bytes u = [of_nat (0xf0 + v), of_nat (0x80 + i), of_nat (0x80 + j), of_nat (0x80 + k)]"
      using vk 4 by (intro utf8_bytes_digits) (simp_all add: n_def)
    have "utf8_continuation (Suc (Suc (Suc 0))) (of_nat v)
        (of_nat (0x80 + i) # of_nat (0x80 + j) # of_nat (0x80 + k) # t) = (Some u, t)"
      using vk u by (simp add: utf8_continuation_step del: of_nat_add of_nat_mult)
    then show ?thesis using 4 valid vk(1)
      by (simp add: bs cbs_get_utf8_lead utf8_tail_iff n_def del: of_nat_add)
  qed
qed

interpretation utf8: codec cbs_get_utf8 utf8_bytes is_valid_code_point
  using cbs_get_utf8_bytes cbs_get_utf8_Some by unfold_locales blast+

section \<open>The writers\<close>

lemma lead_byte:
  assumes "unat v < 2 ^ k" and "unat h * 2 ^ k + unat v < 256"
  shows "(push_bit k h OR ucast v :: u8) = of_nat (unat h * 2 ^ k + unat (v :: u32))"
proof -
  have v: "unat (ucast v :: u8) = unat v" using assms(2) by (simp add: unsigned_ucast_eq take_bit_nat_eq_self)
  show ?thesis
    by (rule unat_eq_of_nat) (use unat_or_shift [of "ucast v :: u8" k h] assms v in simp)
qed

lemma trail_byte:
  "(0x80 OR (ucast v AND mask 6) :: u8) = of_nat (0x80 + unat (v :: u32) mod 64)"
proof -
  have v: "unat (ucast v AND mask 6 :: u8) = unat v mod 64"
    by (simp add: unat_and_mask unsigned_ucast_eq take_bit_eq_mod mod_mod_cancel)
  have "(push_bit 6 2 OR (ucast v AND mask 6) :: u8) = of_nat (unat (2 :: u8) * 2 ^ 6 + unat v mod 64)"
    by (rule unat_eq_of_nat) (use unat_or_shift [of "ucast v AND mask 6 :: u8" 6 2] v in simp)
  then show ?thesis by simp
qed


lemma lead_bytes:
  "unat v < 32 \<Longrightarrow> (0xc0 OR ucast v :: u8) = of_nat (0xc0 + unat (v :: u32))"
  "unat v < 16 \<Longrightarrow> (0xe0 OR ucast v :: u8) = of_nat (0xe0 + unat v)"
  "unat v < 8 \<Longrightarrow> (0xf0 OR ucast v :: u8) = of_nat (0xf0 + unat v)"
  using lead_byte [of v 5 6] lead_byte [of v 4 14] lead_byte [of v 3 30] by simp_all

lemma ucast_of_nat: "(ucast u :: u8) = of_nat (unat (u :: u32))"
  by simp

lemma cbb_get_utf8_len_exact:
  "is_valid_code_point u \<Longrightarrow> cbb_get_utf8_len u = length (utf8_bytes u)"
  by (auto simp: cbb_get_utf8_len_def utf8_bytes_def Let_def word_le_nat_alt)

lemma cbb_add_utf8_writes:
  assumes h: "heap_bounded env" and valid: "is_valid_code_point u"
  shows "writes env d (cbb_add_utf8 env d u) (utf8_bytes u)"
proof -
  let ?n = "unat u"
  note w = CBB_add_u8_writes [OF h]
  have w2: "writes env d (and_then (CBB_add_u8 env d a) (\<lambda>_. CBB_add_u8 env d b)) [a, b]" for a b
    using writes_and_then [OF w w] by simp
  have w3: "writes env d (and_then (CBB_add_u8 env d a) (\<lambda>_. and_then (CBB_add_u8 env d b) (\<lambda>_.
      CBB_add_u8 env d c))) [a, b, c]" for a b c
    using writes_and_then [OF w w2] by simp
  have w4: "writes env d (and_then (CBB_add_u8 env d a) (\<lambda>_. and_then (CBB_add_u8 env d b) (\<lambda>_.
      and_then (CBB_add_u8 env d c) (\<lambda>_. CBB_add_u8 env d e)))) [a, b, c, e]" for a b c e
    using writes_and_then [OF w w3] by simp
  have bound: "?n \<le> 0x10ffff" by (rule valid_code_point_bound [OF valid])
  have le: "u \<le> 0x7f \<longleftrightarrow> ?n < 0x80" "u \<le> 0x7ff \<longleftrightarrow> ?n < 0x800" "u \<le> 0xffff \<longleftrightarrow> ?n < 0x10000"
    "u \<le> 0x10ffff \<longleftrightarrow> True"
    using bound by (auto simp: word_le_nat_alt)
  have d: "unat (drop_bit k u) = ?n div 2 ^ k" for k by (simp add: unat_drop_bit)
  have m: "?n div 2 ^ k mod 64 = unat (drop_bit k u) mod 64" for k by (simp add: d)
  note bs = utf8_bytes_def Let_def
  consider "?n < 0x80" | "\<not> ?n < 0x80" "?n < 0x800" | "\<not> ?n < 0x80" "\<not> ?n < 0x800" "?n < 0x10000"
    | "\<not> ?n < 0x80" "\<not> ?n < 0x800" "\<not> ?n < 0x10000" by blast
  then show ?thesis
  proof cases
    case 1
    then show ?thesis using w [of d "ucast u"] by (simp add: cbb_add_utf8_def valid le bs)
  next
    case 2
    have e: "(0xc0 OR ucast (drop_bit 6 u) :: u8) = of_nat (0xc0 + ?n div 2 ^ 6)"
      using 2 by (subst lead_bytes) (simp_all add: d div_less_iff_less_mult)
    show ?thesis
      unfolding cbb_add_utf8_def le bits_eqs e trail_byte bs
      using 2 valid by (simp only: if_False if_True simp_thms w2)
  next
    case 3
    have e: "(0xe0 OR ucast (drop_bit 12 u) :: u8) = of_nat (0xe0 + ?n div 2 ^ 12)"
      using 3 by (subst lead_bytes) (simp_all add: d div_less_iff_less_mult)
    show ?thesis
      unfolding cbb_add_utf8_def le bits_eqs e trail_byte bs d
      using 3 valid by (simp only: if_False if_True simp_thms w3)
  next
    case 4
    have e: "(0xf0 OR ucast (drop_bit 18 u) :: u8) = of_nat (0xf0 + ?n div 2 ^ 18)"
      using 4 bound by (subst lead_bytes) (simp_all add: d div_less_iff_less_mult)
    show ?thesis
      unfolding cbb_add_utf8_def le bits_eqs e trail_byte bs d
      using 4 valid by (simp only: if_False if_True simp_thms w4)
  qed
qed

interpretation w_utf8: serialiser cbs_get_utf8 utf8_bytes is_valid_code_point cbb_add_utf8
  by unfold_locales (rule cbb_add_utf8_writes)

interpretation utf8s: element_codec cbs_get_utf8 utf8_bytes is_valid_code_point
  by unfold_locales (simp add: utf8_bytes_def Let_def)


section \<open>The fixed-width encodings\<close>

lemma cbs_get_latin1_iff:
  "cbs_get_latin1 s = (Some u, s') \<longleftrightarrow> u \<le> 0xff \<and> s = ucast u # s'"
proof -
  have eq: "u = ucast c \<longleftrightarrow> u \<le> 0xff \<and> c = ucast u" for c :: u8
  proof
    assume "u = ucast c"
    then have n: "unat u = unat c" by simp
    moreover have "unat c \<le> 255" using unat_u8_bound [of c] by linarith
    ultimately show "u \<le> 0xff \<and> c = ucast u"
      by (auto simp: word_le_nat_alt word_unat_eq_iff [of c] unsigned_ucast_eq take_bit_nat_eq_self)
  next
    assume r: "u \<le> 0xff \<and> c = ucast u"
    then have "unat u < 256" by (simp add: word_le_nat_alt)
    then have "unat (ucast u :: u8) = unat u" by (simp add: unsigned_ucast_eq take_bit_nat_eq_self)
    then show "u = ucast c" using r by (simp add: word_unat_eq_iff)
  qed
  have "cbs_get_latin1 s = (Some u, s') \<longleftrightarrow> (\<exists>c. s = c # s' \<and> u = ucast c)"
    by (auto simp: cbs_get_latin1_def and_then_eq_Some u8.rd_iff)
  then show ?thesis unfolding eq by blast
qed

lemma cbs_get_ucs2_be_iff:
  "cbs_get_ucs2_be s = (Some u, s') \<longleftrightarrow>
    (u \<le> 0xffff \<and> is_valid_code_point u) \<and> s = be_bytes 2 (unat u) @ s'"
proof
  assume "cbs_get_ucs2_be s = (Some u, s')"
  then obtain c where c: "CBS_get_u16 s = (Some c, s')" "u = ucast c" "is_valid_code_point u"
    by (auto simp: cbs_get_ucs2_be_def and_then_eq_Some split: if_splits)
  have "unat u = unat c" by (simp add: c(2))
  then show "(u \<le> 0xffff \<and> is_valid_code_point u) \<and> s = be_bytes 2 (unat u) @ s'"
    using c(1,3) unsigned_less [of c, where ?'a = nat] by (simp add: u16.rd_iff word_le_nat_alt)
next
  assume r: "(u \<le> 0xffff \<and> is_valid_code_point u) \<and> s = be_bytes 2 (unat u) @ s'"
  have c: "unat (ucast u :: u16) = unat u"
    using r by (simp add: word_le_nat_alt unsigned_ucast_eq take_bit_nat_eq_self)
  then have "ucast (ucast u :: u16) = u" by (simp add: word_unat_eq_iff)
  moreover have "CBS_get_u16 s = (Some (ucast u), s')"
    using r c unsigned_less [of "ucast u :: u16", where ?'a = nat] by (simp add: u16.rd_iff)
  ultimately show "cbs_get_ucs2_be s = (Some u, s')"
    using r by (simp add: cbs_get_ucs2_be_def)
qed

lemma cbs_get_utf32_be_iff:
  "cbs_get_utf32_be s = (Some u, s') \<longleftrightarrow> is_valid_code_point u \<and> s = be_bytes 4 (unat u) @ s'"
  using unsigned_less [of u, where ?'a = nat]
  by (auto simp: cbs_get_utf32_be_def and_then_eq_Some u32.rd_iff split: if_splits)

lemma cbb_add_latin1_writes:
  "heap_bounded env \<Longrightarrow> u \<le> 0xff \<Longrightarrow> writes env d (cbb_add_latin1 env d u) [ucast u]"
  by (simp add: cbb_add_latin1_def CBB_add_u8_writes)

lemma cbb_add_ucs2_be_writes:
  assumes "heap_bounded env" "u \<le> 0xffff \<and> is_valid_code_point u"
  shows "writes env d (cbb_add_ucs2_be env d u) (be_bytes 2 (unat u))"
proof -
  have "unat (ucast u :: u16) = unat u"
    using assms(2) by (simp add: word_le_nat_alt unsigned_ucast_eq take_bit_nat_eq_self)
  then show ?thesis using CBB_add_u16_writes [OF assms(1), of d "ucast u"] assms(2)
    by (simp add: cbb_add_ucs2_be_def)
qed

lemma cbb_add_utf32_be_writes:
  "heap_bounded env \<Longrightarrow> is_valid_code_point u \<Longrightarrow> writes env d (cbb_add_utf32_be env d u) (be_bytes 4 (unat u))"
  by (simp add: cbb_add_utf32_be_def CBB_add_u32_writes)

interpretation w_latin1: serialiser cbs_get_latin1 "\<lambda>u. [ucast u]" "\<lambda>u. u \<le> 0xff" cbb_add_latin1
  by unfold_locales (simp_all add: cbs_get_latin1_iff cbb_add_latin1_writes)

interpretation w_ucs2: serialiser cbs_get_ucs2_be "\<lambda>u. be_bytes 2 (unat u)"
    "\<lambda>u. u \<le> 0xffff \<and> is_valid_code_point u" cbb_add_ucs2_be
  by unfold_locales (simp_all only: cbs_get_ucs2_be_iff cbb_add_ucs2_be_writes simp_thms)

interpretation w_utf32: serialiser cbs_get_utf32_be "\<lambda>u. be_bytes 4 (unat u)" is_valid_code_point cbb_add_utf32_be
  by unfold_locales (simp_all only: cbs_get_utf32_be_iff cbb_add_utf32_be_writes simp_thms)

section \<open>Properties\<close>

text \<open>C13. \<open>cbs_get_utf8\<close> accepts exactly the one well-formed UTF-8 encoding of each valid code
  point: no surrogate, no noncharacter, nothing beyond U+10FFFF, no overlong form, no stray or
  missing continuation byte.\<close>

theorem cbs_get_utf8_exact:
  "cbs_get_utf8 s = (Some u, s') \<longleftrightarrow> is_valid_code_point u \<and> s = utf8_bytes u @ s'"
  by (rule utf8.rd_iff)

lemma cbb_add_utf8_invalid: "\<not> is_valid_code_point u \<Longrightarrow> serialise env cap (cbb_add_utf8 env 0 u) = None"
  by (auto simp: cbb_add_utf8_def serialise_def and_then_def split: prod.splits option.splits)

text \<open>Whatever \<open>cbb_add_utf8\<close> puts into a fresh buffer is the encoding of a valid code
  point, of the length \<open>cbb_get_utf8_len\<close> announces, and \<open>cbs_get_utf8\<close> reads the code
  point back.\<close>

theorem cbb_add_utf8_round_trip:
  assumes "heap_bounded env" and "cap < 2 ^ 62" and "serialise env cap (cbb_add_utf8 env 0 u) = Some x"
  shows "is_valid_code_point u \<and> x = utf8_bytes u \<and> length x = cbb_get_utf8_len u \<and>
    cbs_get_utf8 (x @ t) = (Some u, t)"
proof -
  have v: "is_valid_code_point u" using assms(3) cbb_add_utf8_invalid by fastforce
  then have x: "x = utf8_bytes u" using w_utf8.serialise_add_Some assms by blast
  show ?thesis using v x cbb_get_utf8_len_exact [OF v] utf8.rd_enc [OF v] by simp
qed

theorem cbb_add_utf8_round_trip_witness:
  "cbs_get_utf8 ([0xe2, 0x82, 0xac] @ [1]) = (Some 0x20ac, [1])"
proof -
  have v: "is_valid_code_point 0x20ac" by (simp add: is_valid_code_point_def)
  have b: "utf8_bytes 0x20ac = [0xe2, 0x82, 0xac]" by (simp add: utf8_bytes_def Let_def)
  have "serialise small_heap 8 (cbb_add_utf8 small_heap 0 0x20ac) = Some [0xe2, 0x82, 0xac]"
    using w_utf8.serialise_add [OF small_heap_bounded v, of 8] by (simp add: b)
  from cbb_add_utf8_round_trip [OF small_heap_bounded _ this, of "[1]"] show ?thesis by (simp add: b)
qed

end
