(* ===== verification/Ber.thy ===== *)
theory Ber
  imports Cbs Cbb
begin

text \<open>
  \<open>crypto/bytestring/ber.c\<close>: the conversion of BER to DER, and strings tagged implicitly.
  A \<open>CBS *\<close> and a \<open>CBB *\<close> that one function both changes are a pair in its state; the CBB
  passed down is, as in the writer, a depth in the chain of children.
\<close>

section \<open>Elements of indefinite length\<close>

lemma any_element_indefinite:
  "cbs_get_any_asn1_element True (tag_bytes tag @ 0x80 # h) =
    (if tag AND CBS_ASN1_CONSTRUCTED \<noteq> 0
     then (Some (tag_bytes tag @ [0x80], tag, length (tag_bytes tag) + 1), h)
     else (None, tag_bytes tag @ 0x80 # h))"
proof -
  have t: "parse_asn1_tag (tag_bytes tag @ 0x80 # h) = (Some tag, 0x80 # h)" by (simp add: tag.rd_enc)
  have b: "CBS_get_bytes (Suc (length (tag_bytes tag))) (tag_bytes tag @ 0x80 # h) = (Some (tag_bytes tag @ [0x80]), h)"
    by simp
  show ?thesis by (simp add: cbs_get_any_asn1_element_def t CBS_len_def and_then_Some [where m = "CBS_get_bytes (Suc (length (tag_bytes tag)))", OF b])
qed

lemma any_element_definite:
  assumes "\<nexists>tag h. s = tag_bytes tag @ 0x80 # h"
  shows "cbs_get_any_asn1_element True s = cbs_get_any_asn1_element False s"
proof (cases "parse_asn1_tag s")
  case (Pair r h)
  show ?thesis
  proof (cases r)
    case None
    then show ?thesis using Pair by (simp add: cbs_get_any_asn1_element_def)
  next
    case (Some tag)
    then have s: "s = tag_bytes tag @ h" using tag.rd_Some Pair by blast
    show ?thesis
    proof (cases h)
      case Nil
      then show ?thesis using Pair Some by (simp add: cbs_get_any_asn1_element_def)
    next
      case (Cons b h')
      have "b \<noteq> 0x80" using assms s Cons by blast
      have "unat (b AND 0x7f) \<noteq> 0" if "b AND 0x80 \<noteq> 0"
      proof
        assume "unat (b AND 0x7f) = 0"
        then have "unat b = 128" using that by (simp add: u8_high_bit u8_low_bits_upper)
        then have "b = 0x80" by (simp add: word_unat_eq_iff)
        then show False using \<open>b \<noteq> 0x80\<close> by simp
      qed
      then show ?thesis using Pair Some Cons unfolding cbs_get_any_asn1_element_def
        by (cases "b AND 0x80 = 0") (simp_all add: Let_def)
    qed
  qed
qed

lemma ber_element_iff:
  "CBS_get_any_ber_asn1_element s = (Some (out, tag, hl), s') \<longleftrightarrow>
    (\<exists>c. length c < 2 ^ 32 \<and> out = der_element tag c \<and> hl = length (der_header tag (length c)) \<and> s = out @ s') \<or>
    (tag AND CBS_ASN1_CONSTRUCTED \<noteq> 0 \<and> out = tag_bytes tag @ [0x80] \<and> hl = length out \<and> s = out @ s')"
proof (cases "\<exists>tag h. s = tag_bytes tag @ 0x80 # h")
  case True
  then obtain tg h where s: "s = tag_bytes tg @ 0x80 # h" by blast
  have no: "\<not> (\<exists>c. length c < 2 ^ 32 \<and> s = der_element tag c @ s')"
  proof
    assume "\<exists>c. length c < 2 ^ 32 \<and> s = der_element tag c @ s'"
    then obtain c where c: "length c < 2 ^ 32" "s = der_element tag c @ s'" by blast
    then have "tag_bytes tg @ 0x80 # h = tag_bytes tag @ der_length (length c) @ c @ s'"
      using s by (simp add: der_element_def der_header_def)
    then have "0x80 # h = der_length (length c) @ c @ s'" by (simp only: tag.enc_append_inject TrueI)
    then show False
    proof (cases "length c < 128")
      case True
      then have "unat (of_nat (length c) :: u8) = length c" by (intro unat_of_nat_small) simp
      moreover have "of_nat (length c) = (0x80 :: u8)"
        using \<open>0x80 # h = _\<close> True by (simp add: der_length_def)
      ultimately show False using True by simp
    next
      case False
      have "unat (of_nat (128 + len_octets (length c)) :: u8) = 128 + len_octets (length c)"
        using len_octets_range [of "length c"] by (intro unat_of_nat_small) simp
      moreover have "of_nat (128 + len_octets (length c)) = (0x80 :: u8)"
        using \<open>0x80 # h = _\<close> False by (simp add: der_length_def del: of_nat_add)
      ultimately show False using len_octets_range [of "length c"] by simp
    qed
  qed
  show ?thesis
  proof
    assume "CBS_get_any_ber_asn1_element s = (Some (out, tag, hl), s')"
    then show "(\<exists>c. length c < 2 ^ 32 \<and> out = der_element tag c \<and> hl = length (der_header tag (length c)) \<and> s = out @ s') \<or>
      (tag AND CBS_ASN1_CONSTRUCTED \<noteq> 0 \<and> out = tag_bytes tag @ [0x80] \<and> hl = length out \<and> s = out @ s')"
      by (auto simp: CBS_get_any_ber_asn1_element_def s any_element_indefinite split: if_splits)
  next
    assume "(\<exists>c. length c < 2 ^ 32 \<and> out = der_element tag c \<and> hl = length (der_header tag (length c)) \<and> s = out @ s') \<or>
      (tag AND CBS_ASN1_CONSTRUCTED \<noteq> 0 \<and> out = tag_bytes tag @ [0x80] \<and> hl = length out \<and> s = out @ s')"
    then have t: "tag AND CBS_ASN1_CONSTRUCTED \<noteq> 0" "out = tag_bytes tag @ [0x80]" "hl = length out" "s = out @ s'"
      using no by blast+
    then have "s = tag_bytes tag @ 0x80 # s'" by simp
    then show "CBS_get_any_ber_asn1_element s = (Some (out, tag, hl), s')"
      using t(1-3) by (simp add: CBS_get_any_ber_asn1_element_def any_element_indefinite)
  qed
next
  case False
  then have "s \<noteq> (tag_bytes tag @ [0x80]) @ s'" by auto
  then show ?thesis
    unfolding CBS_get_any_ber_asn1_element_def any_element_definite [OF False]
    using any_element_iff [unfolded CBS_get_any_asn1_element_def] by auto
qed

section \<open>Finding BER\<close>

definition kMaxDepth :: nat where "kMaxDepth = 2048"

text \<open>The tags of \<open>include/openssl/bytestring.h\<close> named by the switch, in its order.\<close>

definition is_string_type :: "u32 \<Rightarrow> bool" where
  "is_string_type tag =
     (tag AND NOT CBS_ASN1_CONSTRUCTED \<in>
        {0x3, 0x4, 0xc, 0x12, 0x13, 0x14, 0x15, 0x16, 0x19, 0x1a, 0x1b, 0x1c, 0x1e})"

lemma ber_element_shorter:
  assumes "CBS_get_any_ber_asn1_element s = (Some (out, tag, hl), s')"
  shows "length s' < length s" "hl \<le> length out" "length out \<le> length s" "0 < hl"
  using assms by (auto simp: ber_element_iff der_element_def der_header_def)

lemma ber_element_None:
  "CBS_get_any_ber_asn1_element s = (None, s') \<Longrightarrow> s' = s"
  by (auto simp: CBS_get_any_ber_asn1_element_def cbs_get_any_asn1_element_def Let_def CBS_get_bytes_def CBS_init_def
      cbs_get_def and_then_def split: prod.splits option.splits if_splits)

lemma ber_body_shorter:
  assumes "(Some (out, tag, hl), s') = CBS_get_any_ber_asn1_element s" "(Some u, body) = CBS_skip hl out"
  shows "length body < length s"
proof -
  have "CBS_skip hl out = (Some (), body)" using assms(2) by simp
  then have "body = drop hl out" by simp
  then show ?thesis using ber_element_shorter [OF assms(1) [symmetric]] by simp
qed

text \<open>The test for an indefinite length that \<open>cbs_find_ber\<close> and \<open>cbs_convert_ber\<close> share.\<close>

definition is_indefinite :: "nat \<Rightarrow> cbs \<Rightarrow> bool" where
  "is_indefinite header_len element =
     (CBS_len element = header_len \<and> header_len > 0 \<and> CBS_data element ! (header_len - 1) = 0x80)"

text \<open>
  The result is \<open>*ber_found\<close>, \<open>None\<close> on an error. Every call of \<open>cbs_find_ber\<close>, the nested
  ones too, first clears the flag; \<open>find_ber_loop\<close> is its loop.
\<close>

function (sequential) find_ber_loop :: "nat \<Rightarrow> cbs \<Rightarrow> bool \<Rightarrow> bool option"
  and cbs_find_ber :: "nat \<Rightarrow> cbs \<Rightarrow> bool option" where
  "find_ber_loop depth cbs_in ber_found =
     (if CBS_len cbs_in > 0 then
        (case CBS_get_any_ber_asn1_element cbs_in of
           (None, _) \<Rightarrow> None
         | (Some (element, tag, header_len), cbs_in) \<Rightarrow>
             if is_indefinite header_len element then Some True
             else if tag AND CBS_ASN1_CONSTRUCTED \<noteq> 0 then
               (if is_string_type tag then Some True
                else (case CBS_skip header_len element of
                        (None, _) \<Rightarrow> None
                      | (Some _, body) \<Rightarrow>
                          (case cbs_find_ber (depth + 1) body of
                             None \<Rightarrow> None
                           | Some ber_found \<Rightarrow> find_ber_loop depth cbs_in ber_found)))
             else find_ber_loop depth cbs_in ber_found)
      else Some ber_found)"
| "cbs_find_ber depth orig_in =
     (if depth > kMaxDepth then None
      else find_ber_loop depth (CBS_init (CBS_data orig_in) (CBS_len orig_in)) False)"
  by pat_completeness auto
termination
  by (relation "measure (\<lambda>x. case x of Inl (_, s, _) \<Rightarrow> 2 * length s | Inr (_, s) \<Rightarrow> 2 * length s + 1)")
    (auto simp: CBS_init_def CBS_data_def CBS_len_def dest: ber_element_shorter ber_body_shorter sym)

declare find_ber_loop.simps [simp del] cbs_find_ber.simps [simp del]

section \<open>Conversion\<close>

definition is_eoc :: "nat \<Rightarrow> cbs \<Rightarrow> bool" where
  "is_eoc header_len element =
     (header_len = 2 \<and> CBS_len element = 2 \<and> CRYPTO_memcmp (CBS_data element) [0, 0] 2 = 0)"

text \<open>The tests and choices \<open>cbs_convert_ber\<close> makes for an element, by their names in the code.\<close>

definition ber_out_tag :: "u32 \<Rightarrow> u32" where
  "ber_out_tag tag = (if tag AND CBS_ASN1_CONSTRUCTED \<noteq> 0 \<and> is_string_type tag then tag AND NOT CBS_ASN1_CONSTRUCTED else tag)"

definition ber_child_string_tag :: "u32 \<Rightarrow> u32 \<Rightarrow> u32" where
  "ber_child_string_tag string_tag tag =
     (if string_tag = 0 \<and> tag AND CBS_ASN1_CONSTRUCTED \<noteq> 0 \<and> is_string_type tag then ber_out_tag tag else string_tag)"

definition ber_out_contents :: "u32 \<Rightarrow> nat \<Rightarrow> nat" where
  "ber_out_contents string_tag d = (if string_tag \<noteq> 0 then d else Suc d)"

definition ber_add_contents :: "heap_env \<Rightarrow> nat \<Rightarrow> u32 \<Rightarrow> u32 \<Rightarrow> unit writer" where
  "ber_add_contents env d string_tag tag =
     (if string_tag \<noteq> 0 then check (tag AND NOT CBS_ASN1_CONSTRUCTED = string_tag)
      else CBB_add_asn1 env d (ber_out_tag tag))"

lemma cbs_convert_ber_body:
  assumes "(x, y) = CBS_get_any_ber_asn1_element cs" "x = Some x2" "(el, th) = x2" "(tag, hl) = th" "(u, body) = CBS_skip hl el" "u = Some v"
  shows "length body < length cs"
  using assms ber_body_shorter [of el tag hl y cs v body] by simp

text \<open>
  \<open>cbs_convert_ber\<close>: the loop is the call that follows each element, with the arguments of
  the first. \<open>d\<close> is the depth of \<open>out\<close>; \<open>out_contents\<close> is \<open>out\<close> itself inside a constructed
  string and its new child otherwise.
\<close>

function (sequential) cbs_convert_ber :: "heap_env \<Rightarrow> nat \<Rightarrow> u32 \<Rightarrow> bool \<Rightarrow> nat \<Rightarrow> (cbs \<times> cbb, unit) op" where
  "cbs_convert_ber env d string_tag looking_for_eoc depth (cbs_in, out) =
     (if depth > kMaxDepth then (None, cbs_in, out)
      else if CBS_len cbs_in = 0 then (if looking_for_eoc then None else Some (), cbs_in, out)
      else
        (case CBS_get_any_ber_asn1_element cbs_in of
           (None, cbs_in) \<Rightarrow> (None, cbs_in, out)
         | (Some (element, tag, header_len), cbs_in) \<Rightarrow>
             if is_eoc header_len element then (if looking_for_eoc then Some () else None, cbs_in, out)
             else
               (case ber_add_contents env d string_tag tag out of
                  (None, out) \<Rightarrow> (None, cbs_in, out)
                | (Some _, out) \<Rightarrow>
                    if is_indefinite header_len element then
                      (case cbs_convert_ber env (ber_out_contents string_tag d) (ber_child_string_tag string_tag tag)
                              True (depth + 1) (cbs_in, out) of
                         (None, cbs_in, out) \<Rightarrow> (None, cbs_in, out)
                       | (Some _, cbs_in, out) \<Rightarrow>
                           (case CBB_flush env d out of
                              (None, out) \<Rightarrow> (None, cbs_in, out)
                            | (Some _, out) \<Rightarrow>
                                cbs_convert_ber env d string_tag looking_for_eoc depth (cbs_in, out)))
                    else
                      (case CBS_skip header_len element of
                         (None, _) \<Rightarrow> (None, cbs_in, out)
                       | (Some _, body) \<Rightarrow>
                           (case (if tag AND CBS_ASN1_CONSTRUCTED \<noteq> 0
                                  then (case cbs_convert_ber env (ber_out_contents string_tag d)
                                               (ber_child_string_tag string_tag tag) False (depth + 1) (body, out) of
                                          (r, _, out) \<Rightarrow> (r, out))
                                  else CBB_add_bytes env (ber_out_contents string_tag d) (CBS_data body) out) of
                              (None, out) \<Rightarrow> (None, cbs_in, out)
                            | (Some _, out) \<Rightarrow>
                                (case CBB_flush env d out of
                                   (None, out) \<Rightarrow> (None, cbs_in, out)
                                 | (Some _, out) \<Rightarrow>
                                     cbs_convert_ber env d string_tag looking_for_eoc depth (cbs_in, out)))))))"
  by pat_completeness auto

termination
proof -
  have shortens: "length (fst (snd (cbs_convert_ber env d st eoc depth s))) \<le> length (fst s)"
    if "cbs_convert_ber_dom (env, d, st, eoc, depth, s)" for env d st eoc depth s
    using that
  proof (induction rule: cbs_convert_ber.pinduct)
    case (1 env d st eoc depth cbs_in out)
    obtain r y where gy: "CBS_get_any_ber_asn1_element cbs_in = (r, y)" by (cases "CBS_get_any_ber_asn1_element cbs_in")
    show ?case
    proof (cases "kMaxDepth < depth \<or> CBS_len cbs_in = 0")
      case True
      then show ?thesis by (auto simp: cbs_convert_ber.psimps [OF 1(1)])
    next
      case False
      then have c: "\<not> kMaxDepth < depth" "CBS_len cbs_in \<noteq> 0" by simp_all
      show ?thesis
      proof (cases r)
        case None
        then show ?thesis using gy c ber_element_None [of cbs_in y] by (simp add: cbs_convert_ber.psimps [OF 1(1)])
      next
        case (Some x)
        obtain el tag hl where x: "x = (el, tag, hl)" by (cases x)
        note g = gy [unfolded Some x]
        note lt = ber_element_shorter(1) [OF g]
        note IH1 = 1(2) [OF c g [symmetric] refl refl refl]
        note IH2 = 1(3) [OF c g [symmetric] refl refl refl]
        note IH4 = 1(5) [OF c g [symmetric] refl refl refl]
        note run = cbs_convert_ber.psimps [OF 1(1)] g prod.case option.case if_not_P [OF c(1)] if_not_P [OF c(2)]
        show ?thesis
        proof (cases "is_eoc hl el")
          case True
          then show ?thesis using lt by (simp add: run)
        next
          case noteoc: False
          obtain r1 o1 where a: "ber_add_contents env d st tag out = (r1, o1)" by fastforce
          show ?thesis
          proof (cases r1)
            case None
            then show ?thesis using lt noteoc a by (simp add: run)
          next
            case (Some u)
            note a = a [unfolded Some]
            show ?thesis
            proof (cases "is_indefinite hl el")
              case True
              obtain r2 i2 o2 where b: "cbs_convert_ber env (ber_out_contents st d) (ber_child_string_tag st tag) True
                  (depth + 1) (y, o1) = (r2, i2, o2)" by (metis prod_cases3)
              have l2: "length i2 \<le> length y" using IH1 [OF noteoc a [symmetric] refl True] b by simp
              obtain r3 o3 where f: "CBB_flush env d o2 = (r3, o3)" by fastforce
              show ?thesis
                using IH2 [OF noteoc a [symmetric] refl True b [symmetric] _ refl f [symmetric]] lt l2 noteoc True a b f
                by (cases r2; cases r3) (simp_all add: run)
            next
              case False
              obtain r2 z where b: "CBS_skip hl el = (r2, z)" by fastforce
              obtain r3 o3 where w: "(if tag AND CBS_ASN1_CONSTRUCTED \<noteq> 0
                  then (case cbs_convert_ber env (ber_out_contents st d) (ber_child_string_tag st tag) False (depth + 1) (z, o1) of
                          (r, _, out) \<Rightarrow> (r, out))
                  else CBB_add_bytes env (ber_out_contents st d) (CBS_data z) o1) = (r3, o3)" by fastforce
              obtain r4 o4 where f: "CBB_flush env d o3 = (r4, o4)" by fastforce
              show ?thesis
                using IH4 [OF noteoc a [symmetric] refl False b [symmetric] _ w [symmetric] _ f [symmetric]] lt noteoc False a b f
                by (cases r2; cases r3; cases r4) (simp_all add: run w del: CBS_skip_Some)
            qed
          qed
        qed
      qed
    qed
  qed
  have rest: "length i < length cs"
    if assms: "(x, y) = CBS_get_any_ber_asn1_element cs" "x = Some x2"
      "(r, io) = cbs_convert_ber env d st eoc depth (y, o1)" "(i, o2) = io"
      "cbs_convert_ber_dom (env, d, st, eoc, depth, (y, o1))"
    for x y cs x2 r io env d st eoc depth o1 i o2
    using shortens [OF assms(5)] assms(1,2) arg_cong [OF assms(3), of "\<lambda>x. fst (snd x)"]
      arg_cong [OF assms(4), of fst] ber_element_shorter(1) [of cs "fst x2" "fst (snd x2)" "snd (snd x2)" y] by simp
  show ?thesis
  proof (relation "measure (\<lambda>(env, d, st, eoc, depth, s). length (fst s))", goal_cases)
    case 1
    show ?case by simp
  next
    case 2
    then show ?case by (auto simp: ber_element_shorter(1) [OF sym])
  next
    case 3
    show ?case using rest [OF 3(3,4,11,13,16)] by simp
  next
    case 4
    then show ?case using cbs_convert_ber_body [OF 4(3-6,11,12)] by simp
  next
    case 5
    then show ?case by (auto simp: ber_element_shorter(1) [OF sym])
  qed
qed

declare cbs_convert_ber.simps [simp del]

text \<open>\<open>out_storage\<close> is \<open>None\<close> for \<open>NULL\<close>; the result is \<open>*out\<close> and \<open>*out_storage\<close>.\<close>

definition CBS_asn1_ber_to_der :: "heap_env \<Rightarrow> (cbs \<times> bytes option) reader" where
  "CBS_asn1_ber_to_der env cbs_in =
     (case cbs_find_ber 0 cbs_in of
        None \<Rightarrow> (None, cbs_in)
      | Some conversion_needed \<Rightarrow>
          if \<not> conversion_needed then
            (case CBS_get_any_asn1_element cbs_in of
               (None, cbs_in) \<Rightarrow> (None, cbs_in)
             | (Some (out, _), cbs_in) \<Rightarrow> (Some (out, None), cbs_in))
          else
            (case CBB_init env (CBS_len cbs_in) CBB_zero of
               (None, _) \<Rightarrow> (None, cbs_in)
             | (Some _, cbb) \<Rightarrow>
                 (case cbs_convert_ber env 0 0 False 0 (cbs_in, cbb) of
                    (None, cbs_in, _) \<Rightarrow> (None, cbs_in)
                  | (Some _, cbs_in, cbb) \<Rightarrow>
                      (case CBB_finish env 0 True True cbb of
                         (None, _) \<Rightarrow> (None, cbs_in)
                       | (Some (out_storage, len), _) \<Rightarrow>
                           (Some (CBS_init out_storage len, Some out_storage), cbs_in)))))"

text \<open>The loop of \<open>CBS_get_asn1_implicit_string\<close> over the chunks of \<open>child\<close>.\<close>

function implicit_string_loop :: "heap_env \<Rightarrow> u32 \<Rightarrow> cbs \<Rightarrow> unit writer" where
  "implicit_string_loop env inner_tag child =
     (if CBS_len child > 0 then
        (case CBS_get_asn1 inner_tag child of
           (None, _) \<Rightarrow> fail
         | (Some chunk, child) \<Rightarrow>
             and_then (CBB_add_bytes env 0 (CBS_data chunk)) (\<lambda>_. implicit_string_loop env inner_tag child))
      else ok ())"
  by pat_completeness auto
termination
proof (relation "measure (\<lambda>(env, inner_tag, child). length child)", goal_cases)
  case (2 env inner_tag child x child' chunk)
  then have "CBS_get_asn1 inner_tag child = (Some chunk, child')" by simp
  then show ?case by (auto simp: CBS_get_asn1_iff)
qed simp

declare implicit_string_loop.simps [simp del]

definition CBS_get_asn1_implicit_string :: "heap_env \<Rightarrow> u32 \<Rightarrow> u32 \<Rightarrow> (cbs \<times> bytes option) reader" where
  "CBS_get_asn1_implicit_string env outer_tag inner_tag cbs_in =
     (if CBS_peek_asn1_tag cbs_in outer_tag then
        (case CBS_get_asn1 outer_tag cbs_in of
           (None, cbs_in) \<Rightarrow> (None, cbs_in)
         | (Some out, cbs_in) \<Rightarrow> (Some (out, None), cbs_in))
      else
        (case CBB_init env (CBS_len cbs_in) CBB_zero of
           (None, _) \<Rightarrow> (None, cbs_in)
         | (Some _, result) \<Rightarrow>
             (case CBS_get_asn1 (outer_tag OR CBS_ASN1_CONSTRUCTED) cbs_in of
                (None, cbs_in) \<Rightarrow> (None, cbs_in)
              | (Some child, cbs_in) \<Rightarrow>
                  (case and_then (implicit_string_loop env inner_tag child) (\<lambda>_. CBB_finish env 0 True True) result of
                     (None, _) \<Rightarrow> (None, cbs_in)
                   | (Some (data, len), _) \<Rightarrow> (Some (CBS_init data len, Some data), cbs_in)))))"

section \<open>BER as trees\<close>

text \<open>
  An element is a primitive or a constructed one, of definite or indefinite length. \<open>ber_bytes\<close>
  is its encoding, with the shortest lengths the reader asks for.
\<close>

datatype ber = Primitive u32 bytes | Definite u32 "ber list" | Indefinite u32 "ber list"

fun ber_bytes :: "ber \<Rightarrow> bytes" where
  "ber_bytes (Primitive tag c) = der_element tag c"
| "ber_bytes (Definite tag xs) = der_element tag (concat (map ber_bytes xs))"
| "ber_bytes (Indefinite tag xs) = tag_bytes tag @ 0x80 # concat (map ber_bytes xs) @ [0, 0]"

fun ber_depth :: "ber \<Rightarrow> nat" where
  "ber_depth (Primitive tag c) = 0"
| "ber_depth (Definite tag xs) = Suc (fold max (map ber_depth xs) 0)"
| "ber_depth (Indefinite tag xs) = Suc (fold max (map ber_depth xs) 0)"

abbreviation (input) constructed :: "u32 \<Rightarrow> bool" where
  "constructed tag \<equiv> tag AND CBS_ASN1_CONSTRUCTED \<noteq> 0"

text \<open>
  Well-formed elements: the constructed bit tells the kind, a primitive is not an
  end-of-contents mark, lengths fit four octets, and the parts of a constructed string are
  strings of the same type. \<open>string_tag\<close> is that type, zero outside a constructed string.
\<close>

fun ber_wf :: "u32 \<Rightarrow> ber \<Rightarrow> bool" where
  "ber_wf string_tag (Primitive tag c) \<longleftrightarrow>
     \<not> constructed tag \<and> length c < 2 ^ 32 \<and> \<not> (tag = 0 \<and> c = []) \<and>
     (string_tag \<noteq> 0 \<longrightarrow> tag AND NOT CBS_ASN1_CONSTRUCTED = string_tag)"
| "ber_wf string_tag (Definite tag xs) \<longleftrightarrow>
     constructed tag \<and> length (concat (map ber_bytes xs)) < 2 ^ 32 \<and>
     (string_tag \<noteq> 0 \<longrightarrow> tag AND NOT CBS_ASN1_CONSTRUCTED = string_tag) \<and>
     (\<forall>x \<in> set xs. ber_wf (ber_child_string_tag string_tag tag) x)"
| "ber_wf string_tag (Indefinite tag xs) \<longleftrightarrow>
     constructed tag \<and>
     (string_tag \<noteq> 0 \<longrightarrow> tag AND NOT CBS_ASN1_CONSTRUCTED = string_tag) \<and>
     (\<forall>x \<in> set xs. ber_wf (ber_child_string_tag string_tag tag) x)"

text \<open>The DER of an element: definite lengths, and every string in one piece.\<close>

fun string_bytes :: "ber \<Rightarrow> bytes" where
  "string_bytes (Primitive tag c) = c"
| "string_bytes (Definite tag xs) = concat (map string_bytes xs)"
| "string_bytes (Indefinite tag xs) = concat (map string_bytes xs)"

fun der_tree :: "ber \<Rightarrow> ber" where
  "der_tree (Primitive tag c) = Primitive tag c"
| "der_tree (Definite tag xs) =
     (if is_string_type tag then Primitive (tag AND NOT CBS_ASN1_CONSTRUCTED) (concat (map string_bytes xs))
      else Definite tag (map der_tree xs))"
| "der_tree (Indefinite tag xs) =
     (if is_string_type tag then Primitive (tag AND NOT CBS_ASN1_CONSTRUCTED) (concat (map string_bytes xs))
      else Definite tag (map der_tree xs))"

definition der_bytes :: "u32 \<Rightarrow> ber \<Rightarrow> bytes" where
  "der_bytes string_tag x = (if string_tag \<noteq> 0 then string_bytes x else ber_bytes (der_tree x))"

fun is_der :: "ber \<Rightarrow> bool" where
  "is_der (Primitive tag c) = True"
| "is_der (Definite tag xs) \<longleftrightarrow> \<not> is_string_type tag \<and> (\<forall>x \<in> set xs. is_der x)"
| "is_der (Indefinite tag xs) = False"

lemma is_der_der_tree: "is_der (der_tree x)"
  by (induction x) auto

lemma der_tree_is_der: "is_der x \<Longrightarrow> der_tree x = x"
  by (induction x) (auto intro: map_idI)

lemma fold_max: "fold max ns (n :: nat) \<le> m \<longleftrightarrow> n \<le> m \<and> (\<forall>k \<in> set ns. k \<le> m)"
  by (induction ns arbitrary: n) auto

lemma is_string_type_base: "is_string_type (tag AND NOT CBS_ASN1_CONSTRUCTED) = is_string_type tag"
  by (simp add: is_string_type_def and.assoc)

text \<open>DER is at most twice as long.\<close>

lemma length_der_element: "length (der_element tag c) = length (tag_bytes tag) + (if length c < 128 then 1 else 1 + len_octets (length c)) + length c"
  by (simp add: der_element_def der_header_def der_length_def)

lemma der_element_growth:
  assumes "length c \<le> 2 * length c'" and tag: "length (tag_bytes tag) = length (tag_bytes tag')"
  shows "length (der_element tag c) \<le> 2 * length (der_element tag' c')"
    and "length (der_element tag c) \<le> 2 * (length (tag_bytes tag') + 3 + length c')"
proof -
  let ?n = "length c'"
  have t: "1 \<le> length (tag_bytes tag)" by (simp add: Suc_le_eq)
  have l: "len_octets (length c) \<le> 4" using len_octets_range by auto
  have "length (der_element tag c) \<le> 2 * length (der_element tag' c') \<and>
    length (der_element tag c) \<le> 2 * (length (tag_bytes tag') + 3 + length c')"
  proof -
    consider "length c < 128" | "128 \<le> length c" "length c \<le> 255" | "256 \<le> length c" by linarith
    then show ?thesis
    proof cases
      case 1
      then show ?thesis using assms by (simp add: length_der_element)
    next
      case 2
      then show ?thesis using assms t by (simp add: length_der_element len_octets_def)
    next
      case 3
      then have "1 \<le> len_octets ?n" "128 \<le> ?n" using assms len_octets_range by auto
      then show ?thesis using assms t l 3 by (simp add: length_der_element)
    qed
  qed
  then show "length (der_element tag c) \<le> 2 * length (der_element tag' c')"
    and "length (der_element tag c) \<le> 2 * (length (tag_bytes tag') + 3 + length c')" by blast+
qed

lemma length_concat_map_le:
  "(\<And>x. x \<in> set xs \<Longrightarrow> length (f x) \<le> 2 * length (g x)) \<Longrightarrow> length (concat (map f xs)) \<le> 2 * length (concat (map g xs))"
  by (induction xs) force+

lemma string_bytes_length: "length (string_bytes x) \<le> length (ber_bytes x)"
proof (induction x)
  case (Definite tag xs)
  then have "length (concat (map string_bytes xs)) \<le> length (concat (map ber_bytes xs))" by (induction xs) (auto intro!: add_mono)
  then show ?case by (simp add: length_der_element)
next
  case (Indefinite tag xs)
  then have "length (concat (map string_bytes xs)) \<le> length (concat (map ber_bytes xs))" by (induction xs) (auto intro!: add_mono)
  then show ?case by simp
qed (simp add: length_der_element)

lemma tag_number_base: "tag_number (tag AND NOT CBS_ASN1_CONSTRUCTED) = tag_number tag"
proof -
  have "take_bit 29 (tag AND NOT CBS_ASN1_CONSTRUCTED) = take_bit 29 tag"
  proof (rule bit_word_eqI)
    fix n
    have "(0x20000000 :: u32) = push_bit 29 1" by simp
    then have "bit (0x20000000 :: u32) n = bit (push_bit 29 1 :: u32) n" by (rule arg_cong)
    also have "\<dots> \<longleftrightarrow> n = 29" unfolding bit_push_bit_iff bit_1_iff by auto
    finally have "bit (0x20000000 :: u32) n \<longleftrightarrow> n = 29" .
    then show "bit (take_bit 29 (tag AND NOT CBS_ASN1_CONSTRUCTED)) n = bit (take_bit 29 tag) n"
      unfolding bit_take_bit_iff bit_and_iff bit_not_iff by (auto dest: bit_imp_possible_bit)
  qed
  then have "take_bit 29 (unat (tag AND NOT CBS_ASN1_CONSTRUCTED)) = take_bit 29 (unat tag)"
    unfolding unsigned_take_bit_eq [symmetric] by (rule arg_cong)
  then show ?thesis unfolding tag_number_def take_bit_eq_mod .
qed

lemma length_tag_bytes_base:
  "length (tag_bytes (tag AND NOT CBS_ASN1_CONSTRUCTED)) = length (tag_bytes tag)"
  unfolding tag_bytes_def tag_number_base by (simp only: list.size if_distrib [where f = length])

lemma der_tree_length: "length (ber_bytes (der_tree x)) \<le> 2 * length (ber_bytes x)"
proof (induction x)
  case (Definite tag xs)
  have "length (concat (map ber_bytes (map der_tree xs))) \<le> 2 * length (concat (map ber_bytes xs))"
    using length_concat_map_le [of xs "ber_bytes \<circ> der_tree" ber_bytes] Definite by simp
  moreover have "length (concat (map string_bytes xs)) \<le> 2 * length (concat (map ber_bytes xs))"
    by (rule length_concat_map_le) (use string_bytes_length in \<open>simp add: trans_le_add1 mult_2\<close>)
  ultimately show ?case
    unfolding der_tree.simps ber_bytes.simps if_distrib [where f = ber_bytes]
    by (cases "is_string_type tag") (simp_all only: if_True if_False ber_bytes.simps der_element_growth(1) length_tag_bytes_base)
next
  case (Indefinite tag xs)
  have "length (concat (map ber_bytes (map der_tree xs))) \<le> 2 * length (concat (map ber_bytes xs))"
    using length_concat_map_le [of xs "ber_bytes \<circ> der_tree" ber_bytes] Indefinite by simp
  moreover have "length (concat (map string_bytes xs)) \<le> 2 * length (concat (map ber_bytes xs))"
    by (rule length_concat_map_le) (use string_bytes_length in \<open>simp add: trans_le_add1 mult_2\<close>)
  moreover have "length (ber_bytes (Indefinite tag xs)) = length (tag_bytes tag) + 3 + length (concat (map ber_bytes xs))" by simp
  ultimately show ?case
    unfolding der_tree.simps if_distrib [where f = ber_bytes]
    by (cases "is_string_type tag") (simp_all only: if_True if_False ber_bytes.simps(1,2) der_element_growth(2) length_tag_bytes_base)
qed simp

lemma der_bytes_length: "length (der_bytes st x) \<le> 2 * length (ber_bytes x)"
  using der_tree_length [of x] string_bytes_length [of x] by (simp add: der_bytes_def)


section \<open>The conversion writes the DER\<close>

text \<open>
  \<open>converts d f w k\<close>: on an object at depth \<open>d\<close> with no pending children, \<open>f\<close> does to the
  buffer what the writer \<open>w\<close> does, and when that succeeds goes on with \<open>k\<close>.
\<close>

definition converts :: "nat \<Rightarrow> (cbb \<Rightarrow> unit option \<times> cbs \<times> cbb) \<Rightarrow> unit writer \<Rightarrow> (cbb \<Rightarrow> unit option \<times> cbs \<times> cbb) \<Rightarrow> bool" where
  "converts d f w k \<longleftrightarrow> (\<forall>out P. writer_at d out P [] \<longrightarrow>
     (case w out of (None, out') \<Rightarrow> \<exists>i. f out = (None, i, out') | (Some _, out') \<Rightarrow> f out = k out'))"

lemma convertsI:
  assumes "\<And>out P out'. writer_at d out P [] \<Longrightarrow> w out = (None, out') \<Longrightarrow> \<exists>i. f out = (None, i, out')"
    and "\<And>out P out' u. writer_at d out P [] \<Longrightarrow> w out = (Some u, out') \<Longrightarrow> f out = k out'"
  shows "converts d f w k"
  unfolding converts_def using assms by (auto split: prod.splits option.splits)

lemma converts_None: "converts d f w k \<Longrightarrow> writer_at d out P [] \<Longrightarrow> w out = (None, out') \<Longrightarrow> \<exists>i. f out = (None, i, out')"
  by (auto simp: converts_def)

lemma converts_Some: "converts d f w k \<Longrightarrow> writer_at d out P [] \<Longrightarrow> w out = (Some u, out') \<Longrightarrow> f out = k out'"
  by (auto simp: converts_def)

lemma converts_and_then:
  assumes "converts d f w g" "converts d g w' k" "writes env d w x"
  shows "converts d f (and_then w (\<lambda>_. w')) k"
proof (rule convertsI)
  fix out P out' assume at: "writer_at d out P []" and n: "and_then w (\<lambda>_. w') out = (None, out')"
  consider "w out = (None, out')" | u o1 where "w out = (Some u, o1)" "w' o1 = (None, out')"
    using n by (auto simp: and_then_eq_None)
  then show "\<exists>i. f out = (None, i, out')"
  proof cases
    case 1
    then show ?thesis using converts_None [OF assms(1) at] by blast
  next
    case (2 u o1)
    have "\<exists>P. writer_at d o1 P []" by (rule writes_Some [OF assms(3) at 2(1)]) blast
    then show ?thesis using converts_Some [OF assms(1) at 2(1)] converts_None [OF assms(2) _ 2(2)] by auto
  qed
next
  fix out P out' u assume at: "writer_at d out P []" and n: "and_then w (\<lambda>_. w') out = (Some u, out')"
  then obtain v o1 where o1: "w out = (Some v, o1)" "w' o1 = (Some u, out')" by (auto simp: and_then_eq_Some)
  have "\<exists>P. writer_at d o1 P []" by (rule writes_Some [OF assms(3) at o1(1)]) blast
  then show "f out = k out'" using converts_Some [OF assms(1) at o1(1)] converts_Some [OF assms(2) _ o1(2)] by auto
qed

text \<open>One turn of the loop on an element that is not an end-of-contents mark.\<close>

definition convert_contents :: "heap_env \<Rightarrow> nat \<Rightarrow> u32 \<Rightarrow> nat \<Rightarrow> cbs \<times> u32 \<times> nat \<Rightarrow> cbs \<Rightarrow> cbb \<Rightarrow> unit option \<times> cbs \<times> cbb" where
  "convert_contents env d st depth = (\<lambda>(element, tag, hl) rest out.
     if is_indefinite hl element
     then cbs_convert_ber env (ber_out_contents st d) (ber_child_string_tag st tag) True (depth + 1) (rest, out)
     else (case (if constructed tag
                 then (case cbs_convert_ber env (ber_out_contents st d) (ber_child_string_tag st tag) False (depth + 1)
                              (drop hl element, out) of (r, _, out) \<Rightarrow> (r, out))
                 else CBB_add_bytes env (ber_out_contents st d) (drop hl element) out) of
             (r, out) \<Rightarrow> (r, rest, out)))"

lemma convert_element:
  assumes "depth \<le> kMaxDepth" "CBS_get_any_ber_asn1_element s = (Some (element, tag, hl), rest)" "\<not> is_eoc hl element"
  shows "cbs_convert_ber env d st eoc depth (s, out) =
    (case ber_add_contents env d st tag out of
       (None, out) \<Rightarrow> (None, rest, out)
     | (Some _, out) \<Rightarrow>
         (case convert_contents env d st depth (element, tag, hl) rest out of
            (None, i, out) \<Rightarrow> (None, i, out)
          | (Some _, i, out) \<Rightarrow>
              (case CBB_flush env d out of
                 (None, out) \<Rightarrow> (None, i, out)
               | (Some _, out) \<Rightarrow> cbs_convert_ber env d st eoc depth (i, out))))"
proof -
  have s: "CBS_skip hl element = (Some (), drop hl element)" using ber_element_shorter(2) [OF assms(2)] by simp
  have "CBS_len s \<noteq> 0" using ber_element_shorter(1) [OF assms(2)] by (auto simp: CBS_len_def)
  then show ?thesis using assms
    by (simp add: cbs_convert_ber.simps [of env d st eoc depth s] convert_contents_def s CBS_data_def
        split: prod.split option.split)
qed

lemma add_contents_at:
  assumes "heap_bounded env" "writer_at d out P []" "ber_add_contents env d st tag out = (Some u, out1)"
  shows "\<exists>P. writer_at (ber_out_contents st d) out1 P []"
proof (cases "st = 0")
  case True
  have "opens env d (CBB_add_asn1 env d (ber_out_tag tag)) (tag_bytes (ber_out_tag tag)) Asn1"
    by (rule CBB_add_asn1_opens [OF assms(1)])
  from this [unfolded opens_def, rule_format, OF assms(2)]
  have "\<exists>Q. writer_at d out1 Q [(Asn1, [])]" using assms(3) True by (auto simp: ber_add_contents_def)
  then show ?thesis using True by (auto simp: writer_at_child ber_out_contents_def)
next
  case False
  then show ?thesis using assms(2,3) by (auto simp: ber_add_contents_def ber_out_contents_def)
qed

lemma element_converts:
  assumes h: "heap_bounded env" and depth: "depth \<le> kMaxDepth"
    and get: "CBS_get_any_ber_asn1_element s = (Some (element, tag, hl), rest0)" "\<not> is_eoc hl element"
    and st: "st \<noteq> 0 \<longrightarrow> tag AND NOT CBS_ASN1_CONSTRUCTED = st"
    and w: "writes env (ber_out_contents st d) w y" "length y \<le> 0xfffffffe"
    and inner: "converts (ber_out_contents st d) (convert_contents env d st depth (element, tag, hl) rest0) w (\<lambda>out. (Some (), rest, out))"
  shows "\<exists>v. writes env d v (if st \<noteq> 0 then y else der_element (ber_out_tag tag) y) \<and>
    converts d (\<lambda>out. cbs_convert_ber env d st eoc depth (s, out)) v (\<lambda>out. cbs_convert_ber env d st eoc depth (rest, out))"
proof (intro exI conjI)
  let ?v = "and_then (ber_add_contents env d st tag) (\<lambda>_. and_then w (\<lambda>_. CBB_flush env d))"
  show "writes env d ?v (if st \<noteq> 0 then y else der_element (ber_out_tag tag) y)"
  proof (cases "st = 0")
    case True
    then show ?thesis
      using asn1_element_writes [OF h, of d "\<lambda>_. w" y "ber_out_tag tag"] w by (simp add: ber_add_contents_def ber_out_contents_def)
  next
    case False
    have "writes env d (and_then w (\<lambda>_. CBB_flush env d)) (y @ [])"
      by (rule writes_and_then) (use w False CBB_flush_writes [OF h] in \<open>simp_all add: ber_out_contents_def\<close>)
    then show ?thesis using False st by (simp add: ber_add_contents_def)
  qed
  show "converts d (\<lambda>out. cbs_convert_ber env d st eoc depth (s, out)) ?v (\<lambda>out. cbs_convert_ber env d st eoc depth (rest, out))"
  proof (rule convertsI)
    fix out P out' assume at: "writer_at d out P []" and n: "?v out = (None, out')"
    consider "ber_add_contents env d st tag out = (None, out')"
      | u o1 where "ber_add_contents env d st tag out = (Some u, o1)" "w o1 = (None, out')"
      | u o1 v o2 where "ber_add_contents env d st tag out = (Some u, o1)" "w o1 = (Some v, o2)" "CBB_flush env d o2 = (None, out')"
      using n by (auto simp: and_then_eq_None)
    then show "\<exists>i. cbs_convert_ber env d st eoc depth (s, out) = (None, i, out')"
    proof cases
      case 1
      then show ?thesis by (simp add: convert_element [OF depth get])
    next
      case (2 u o1)
      obtain Q where "writer_at (ber_out_contents st d) o1 Q []" using add_contents_at [OF h at 2(1)] by blast
      from converts_None [OF inner this 2(2)] show ?thesis using 2(1) by (auto simp: convert_element [OF depth get])
    next
      case (3 u o1 v o2)
      obtain Q where "writer_at (ber_out_contents st d) o1 Q []" using add_contents_at [OF h at 3(1)] by blast
      from converts_Some [OF inner this 3(2)] show ?thesis using 3(1,3) by (auto simp: convert_element [OF depth get])
    qed
  next
    fix out P out' x assume at: "writer_at d out P []" and n: "?v out = (Some x, out')"
    then obtain u o1 v o2 where o: "ber_add_contents env d st tag out = (Some u, o1)" "w o1 = (Some v, o2)"
      "CBB_flush env d o2 = (Some x, out')"
      by (auto simp: and_then_eq_Some)
    obtain Q where "writer_at (ber_out_contents st d) o1 Q []" using add_contents_at [OF h at o(1)] by blast
    from converts_Some [OF inner this o(2)] show "cbs_convert_ber env d st eoc depth (s, out) = cbs_convert_ber env d st eoc depth (rest, out')"
      using o(1,3) by (auto simp: convert_element [OF depth get])
  qed
qed

text \<open>The headers of the three kinds of element.\<close>

lemma is_eoc_iff: "is_eoc hl element \<longleftrightarrow> hl = 2 \<and> element = [0, 0]"
proof -
  have "length element = 2 \<and> take 2 element = take 2 [0, 0] \<longleftrightarrow> element = [0, 0]" by (auto simp: numeral_2_eq_2)
  then show ?thesis
    unfolding is_eoc_def CBS_len_def CBS_data_def using CRYPTO_memcmp_eq_0 [of 2 element "[0, 0]"] by auto
qed

lemma der_element_eoc: "der_element 0 [] = [0, 0]"
  by (simp add: der_element_def der_header_def tag_bytes_def der_length_def tag_number_def tag_class_def)

lemma is_eoc_der:
  assumes "length c < 2 ^ 32"
  shows "is_eoc (length (der_header tag (length c))) (der_element tag c) \<longleftrightarrow> tag = 0 \<and> c = []"
proof -
  have "der_element tag c = der_element 0 [] \<longleftrightarrow> c = [] \<and> tag = 0"
    using any_asn1.enc_inject [of "(c, tag)" "([], 0)"] assms by simp
  moreover have "length (der_header 0 (length [])) = 2"
    by (simp add: der_header_def tag_bytes_def der_length_def tag_number_def tag_class_def)
  ultimately show ?thesis unfolding is_eoc_iff der_element_eoc by auto
qed

lemma is_eoc_indefinite: "\<not> is_eoc (Suc (length (tag_bytes tag))) (tag_bytes tag @ [0x80])"
  by (auto simp: is_eoc_iff append_eq_Cons_conv)

lemma is_indefinite_der: "\<not> is_indefinite (length (der_header tag (length c))) (der_element tag c)"
  by (auto simp: is_indefinite_def CBS_len_def CBS_data_def der_element_def der_header_def der_length_def nth_append)

lemma is_indefinite_tag: "is_indefinite (Suc (length (tag_bytes tag))) (tag_bytes tag @ [0x80])"
  by (simp add: is_indefinite_def CBS_len_def CBS_data_def nth_append)

lemma drop_header: "drop (length (der_header tag (length c))) (der_element tag c) = c"
  by (simp add: der_element_def)

lemma is_string_type_nonzero: "is_string_type tag \<Longrightarrow> tag AND NOT CBS_ASN1_CONSTRUCTED \<noteq> 0"
  by (auto simp: is_string_type_def)

lemma der_bytes_primitive:
  "\<not> constructed tag \<Longrightarrow> der_bytes st (Primitive tag c) = (if st \<noteq> 0 then c else der_element (ber_out_tag tag) c)"
  by (simp add: der_bytes_def ber_out_tag_def)

lemma der_bytes_constructed:
  assumes "constructed tag" "x = Definite tag xs \<or> x = Indefinite tag xs"
  shows "der_bytes st x = (if st \<noteq> 0 then concat (map (der_bytes (ber_child_string_tag st tag)) xs)
    else der_element (ber_out_tag tag) (concat (map (der_bytes (ber_child_string_tag st tag)) xs)))"
proof -
  have s: "concat (map (der_bytes t) xs) = concat (map string_bytes xs)" if "t \<noteq> 0" for t
  proof -
    have "der_bytes t = string_bytes" using that by (simp add: der_bytes_def fun_eq_iff)
    then show ?thesis by simp
  qed
  have z: "concat (map (der_bytes 0) xs) = concat (map ber_bytes (map der_tree xs))"
  proof -
    have "der_bytes 0 = (\<lambda>x. ber_bytes (der_tree x))" by (simp add: der_bytes_def fun_eq_iff)
    then show ?thesis by (simp add: comp_def)
  qed
  have "string_bytes x = concat (map string_bytes xs)" using assms(2) by auto
  moreover have "ber_bytes (der_tree x) = (if is_string_type tag then der_element (tag AND NOT CBS_ASN1_CONSTRUCTED) (concat (map string_bytes xs))
      else der_element tag (concat (map ber_bytes (map der_tree xs))))"
    using assms(2) by auto
  ultimately show ?thesis
    using assms(1) is_string_type_nonzero [of tag] s [of st] s [of "tag AND NOT CBS_ASN1_CONSTRUCTED"] z
    unfolding der_bytes_def [of st x] ber_child_string_tag_def ber_out_tag_def by (auto simp del: map_map)
qed

definition tree_converts :: "heap_env \<Rightarrow> ber \<Rightarrow> bool" where
  "tree_converts env x \<longleftrightarrow> (\<forall>st d depth eoc rest.
     ber_wf st x \<longrightarrow> depth + ber_depth x \<le> kMaxDepth \<longrightarrow> length (ber_bytes x) < 2 ^ 31 \<longrightarrow>
     (\<exists>v. writes env d v (der_bytes st x) \<and>
        converts d (\<lambda>out. cbs_convert_ber env d st eoc depth (ber_bytes x @ rest, out)) v
          (\<lambda>out. cbs_convert_ber env d st eoc depth (rest, out))))"

lemma forest_end:
  assumes "heap_bounded env" "depth \<le> kMaxDepth" "tail = (if eoc then [0, 0] @ rest else [])" "rest' = (if eoc then rest else [])"
  shows "converts d (\<lambda>out. cbs_convert_ber env d st eoc depth (tail, out)) (CBB_flush env d) (\<lambda>out. (Some (), rest', out))"
proof (rule convertsI)
  fix out P out' u assume at: "writer_at d out P []" and f: "CBB_flush env d out = (Some u, out')"
  have out: "out' = out" using CBB_flush_here [OF at, of env] f by simp
  have "CBS_get_any_ber_asn1_element ([0, 0] @ rest) = (Some ([0, 0], 0, 2), rest)"
    unfolding ber_element_iff using der_element_eoc by (auto intro!: exI [of _ "[]"] simp: der_header_def tag_bytes_def der_length_def tag_number_def tag_class_def)
  then show "cbs_convert_ber env d st eoc depth (tail, out) = (Some (), rest', out')"
    using assms out by (auto simp: cbs_convert_ber.simps [of env d st eoc depth] CBS_len_def is_eoc_iff)
next
  fix out P out' assume at: "writer_at d out P []" and f: "CBB_flush env d out = (None, out')"
  then show "\<exists>i. cbs_convert_ber env d st eoc depth (tail, out) = (None, i, out')" using CBB_flush_here [OF at, of env] by simp
qed

lemma forest_converts:
  assumes h: "heap_bounded env" and depth: "depth \<le> kMaxDepth"
    and tail: "tail = (if eoc then [0, 0] @ rest else [])" "rest' = (if eoc then rest else [])"
    and xs: "\<forall>x \<in> set xs. tree_converts env x \<and> ber_wf st x \<and> depth + ber_depth x \<le> kMaxDepth"
    and len: "length (concat (map ber_bytes xs)) < 2 ^ 31"
  shows "\<exists>w. writes env d w (concat (map (der_bytes st) xs)) \<and>
    converts d (\<lambda>out. cbs_convert_ber env d st eoc depth (concat (map ber_bytes xs) @ tail, out)) w (\<lambda>out. (Some (), rest', out))"
  using xs len
proof (induction xs)
  case Nil
  show ?case using CBB_flush_writes [OF h] forest_end [OF h depth tail] by auto
next
  case (Cons x xs)
  obtain w where w: "writes env d w (concat (map (der_bytes st) xs))"
    "converts d (\<lambda>out. cbs_convert_ber env d st eoc depth (concat (map ber_bytes xs) @ tail, out)) w (\<lambda>out. (Some (), rest', out))"
    using Cons by auto
  obtain v where v: "writes env d v (der_bytes st x)"
    "converts d (\<lambda>out. cbs_convert_ber env d st eoc depth (ber_bytes x @ concat (map ber_bytes xs) @ tail, out)) v
      (\<lambda>out. cbs_convert_ber env d st eoc depth (concat (map ber_bytes xs) @ tail, out))"
    using Cons.prems unfolding tree_converts_def by (auto dest!: spec)
  show ?case
    using writes_and_then [OF v(1) w(1)] converts_and_then [OF v(2) w(2) v(1)] by auto
qed


lemma children_depth:
  assumes "depth + Suc (fold max (map ber_depth xs) 0) \<le> m" "x \<in> set xs"
  shows "Suc depth + ber_depth x \<le> m"
  using fold_max [of "map ber_depth xs" 0 "m - Suc depth"] assms by auto

lemma tree_converts_all:
  assumes h: "heap_bounded env"
  shows "tree_converts env x"
proof (induction x)
  case (Primitive tag c)
  show ?case unfolding tree_converts_def
  proof (intro allI impI)
    fix st d depth eoc rest
    assume wf: "ber_wf st (Primitive tag c)" and dp: "depth + ber_depth (Primitive tag c) \<le> kMaxDepth"
      and len: "length (ber_bytes (Primitive tag c)) < 2 ^ 31"
    have c: "length c < 2 ^ 32" "\<not> constructed tag" "\<not> (tag = 0 \<and> c = [])" using wf by simp_all
    have get: "CBS_get_any_ber_asn1_element (ber_bytes (Primitive tag c) @ rest) =
        (Some (der_element tag c, tag, length (der_header tag (length c))), rest)"
      using c(1) by (auto simp: ber_element_iff)
    have "converts (ber_out_contents st d)
        (convert_contents env d st depth (der_element tag c, tag, length (der_header tag (length c))) rest)
        (CBB_add_bytes env (ber_out_contents st d) c) (\<lambda>out. (Some (), rest, out))"
      by (rule convertsI) (use c(2) in \<open>simp_all add: convert_contents_def is_indefinite_der drop_header\<close>)
    from element_converts [OF h _ get _ _ _ _ this] CBB_add_bytes_writes [OF h, of c] c wf dp
    show "\<exists>v. writes env d v (der_bytes st (Primitive tag c)) \<and>
        converts d (\<lambda>out. cbs_convert_ber env d st eoc depth (ber_bytes (Primitive tag c) @ rest, out)) v
          (\<lambda>out. cbs_convert_ber env d st eoc depth (rest, out))"
      using len by (simp add: is_eoc_der der_bytes_primitive length_der_element)
  qed
next
  case (Definite tag xs)
  show ?case unfolding tree_converts_def
  proof (intro allI impI)
    fix st d depth eoc rest
    let ?x = "Definite tag xs" and ?c = "concat (map ber_bytes xs)" and ?st = "ber_child_string_tag st tag"
    let ?y = "concat (map (der_bytes ?st) xs)"
    assume wf: "ber_wf st ?x" and dp: "depth + ber_depth ?x \<le> kMaxDepth" and len: "length (ber_bytes ?x) < 2 ^ 31"
    have c: "length ?c < 2 ^ 32" "constructed tag" using wf by simp_all
    have lc: "length ?c < 2 ^ 31" using len by (simp add: length_der_element)
    have y: "length ?y \<le> 0xfffffffe"
      using length_concat_map_le [of xs "der_bytes ?st" ber_bytes] der_bytes_length lc by simp
    have get: "CBS_get_any_ber_asn1_element (ber_bytes ?x @ rest) = (Some (der_element tag ?c, tag, length (der_header tag (length ?c))), rest)"
      using c(1) by (auto simp: ber_element_iff)
    have ch: "\<forall>x \<in> set xs. tree_converts env x \<and> ber_wf ?st x \<and> Suc depth + ber_depth x \<le> kMaxDepth"
      using Definite wf dp children_depth [of depth xs kMaxDepth] by simp
    obtain w where w: "writes env (ber_out_contents st d) w ?y"
      "converts (ber_out_contents st d) (\<lambda>out. cbs_convert_ber env (ber_out_contents st d) ?st False (Suc depth) (?c @ [], out)) w (\<lambda>out. (Some (), [], out))"
      using forest_converts [OF h, of "Suc depth" "[]" False rest "[]" xs ?st "ber_out_contents st d"] ch dp lc by auto
    have "converts (ber_out_contents st d)
        (convert_contents env d st depth (der_element tag ?c, tag, length (der_header tag (length ?c))) rest) w (\<lambda>out. (Some (), rest, out))"
    proof (rule convertsI)
      fix out P out' assume "writer_at (ber_out_contents st d) out P []" "w out = (None, out')"
      from converts_None [OF w(2) this] show "\<exists>i. convert_contents env d st depth (der_element tag ?c, tag, length (der_header tag (length ?c))) rest out = (None, i, out')"
        using c(2) by (auto simp: convert_contents_def is_indefinite_der drop_header)
    next
      fix out P out' u assume "writer_at (ber_out_contents st d) out P []" "w out = (Some u, out')"
      from converts_Some [OF w(2) this] show "convert_contents env d st depth (der_element tag ?c, tag, length (der_header tag (length ?c))) rest out = (Some (), rest, out')"
        using c(2) by (auto simp: convert_contents_def is_indefinite_der drop_header)
    qed
    moreover have "tag \<noteq> 0" using c(2) by auto
    ultimately show "\<exists>v. writes env d v (der_bytes st ?x) \<and>
        converts d (\<lambda>out. cbs_convert_ber env d st eoc depth (ber_bytes ?x @ rest, out)) v
          (\<lambda>out. cbs_convert_ber env d st eoc depth (rest, out))"
      using element_converts [OF h _ get _ _ w(1) y] c wf dp by (auto simp: is_eoc_der der_bytes_constructed [OF c(2) disjI1 [OF refl]])
  qed
next
  case (Indefinite tag xs)
  show ?case unfolding tree_converts_def
  proof (intro allI impI)
    fix st d depth eoc rest
    let ?x = "Indefinite tag xs" and ?c = "concat (map ber_bytes xs)" and ?st = "ber_child_string_tag st tag"
    let ?y = "concat (map (der_bytes ?st) xs)" and ?el = "(tag_bytes tag @ [0x80], tag, Suc (length (tag_bytes tag)))"
    assume wf: "ber_wf st ?x" and dp: "depth + ber_depth ?x \<le> kMaxDepth" and len: "length (ber_bytes ?x) < 2 ^ 31"
    have c: "constructed tag" using wf by simp
    have lc: "length ?c < 2 ^ 31" using len by simp
    have y: "length ?y \<le> 0xfffffffe"
      using length_concat_map_le [of xs "der_bytes ?st" ber_bytes] der_bytes_length lc by simp
    have get: "CBS_get_any_ber_asn1_element (ber_bytes ?x @ rest) = (Some ?el, ?c @ [0, 0] @ rest)"
      using c by (auto simp: ber_element_iff)
    have ch: "\<forall>x \<in> set xs. tree_converts env x \<and> ber_wf ?st x \<and> Suc depth + ber_depth x \<le> kMaxDepth"
      using Indefinite wf dp children_depth [of depth xs kMaxDepth] by simp
    obtain w where w: "writes env (ber_out_contents st d) w ?y"
      "converts (ber_out_contents st d) (\<lambda>out. cbs_convert_ber env (ber_out_contents st d) ?st True (Suc depth) (?c @ [0, 0] @ rest, out)) w (\<lambda>out. (Some (), rest, out))"
      using forest_converts [OF h, of "Suc depth" "[0, 0] @ rest" True rest rest xs ?st "ber_out_contents st d"] ch dp lc by auto
    have "converts (ber_out_contents st d) (convert_contents env d st depth ?el (?c @ [0, 0] @ rest)) w (\<lambda>out. (Some (), rest, out))"
      using w(2) by (simp add: convert_contents_def [abs_def] is_indefinite_tag)
    from element_converts [OF h _ get _ _ w(1) y this] c wf dp
    show "\<exists>v. writes env d v (der_bytes st ?x) \<and>
        converts d (\<lambda>out. cbs_convert_ber env d st eoc depth (ber_bytes ?x @ rest, out)) v
          (\<lambda>out. cbs_convert_ber env d st eoc depth (rest, out))"
      by (auto simp: is_eoc_indefinite der_bytes_constructed [OF c disjI2 [OF refl]])
  qed
qed

section \<open>What the first pass finds\<close>

text \<open>
  The flag after a walk over sibling elements: set as soon as one of them is itself of
  indefinite length or a constructed string; otherwise what the last constructed one left.
\<close>

fun ber_rooted :: "ber \<Rightarrow> bool" where
  "ber_rooted (Primitive tag c) = False"
| "ber_rooted (Definite tag xs) = is_string_type tag"
| "ber_rooted (Indefinite tag xs) = True"

fun ber_flag :: "bool \<Rightarrow> ber \<Rightarrow> bool" where
  "ber_flag f (Primitive tag c) = f"
| "ber_flag f (Definite tag xs) = ((\<exists>x \<in> set xs. ber_rooted x) \<or> foldl (\<lambda>f x. ber_flag f x) False xs)"
| "ber_flag f (Indefinite tag xs) = True"

definition ber_found_in :: "ber list \<Rightarrow> bool" where
  "ber_found_in xs \<longleftrightarrow> (\<exists>x \<in> set xs. ber_rooted x) \<or> foldl ber_flag False xs"

lemma is_der_flag: "is_der x \<Longrightarrow> \<not> ber_rooted x \<and> (\<not> f \<longrightarrow> \<not> ber_flag f x)"
proof (induction x arbitrary: f)
  case (Definite tag xs)
  have "\<not> foldl (\<lambda>f x. ber_flag f x) False ys" if "\<forall>x \<in> set ys. x \<in> set xs" for ys
    using that
  proof (induction ys rule: rev_induct)
    case (snoc y ys)
    then show ?case using Definite.IH [of y "foldl ber_flag False ys"] Definite.prems by simp
  qed simp
  then show ?case using Definite by auto
qed simp_all

lemma is_der_not_found: "\<forall>x \<in> set xs. is_der x \<Longrightarrow> \<not> ber_found_in xs"
proof (induction xs rule: rev_induct)
  case (snoc x xs)
  then show ?case using is_der_flag [of x "foldl ber_flag False xs"] by (auto simp: ber_found_in_def)
qed (simp add: ber_found_in_def)

definition tree_found :: "ber \<Rightarrow> bool" where
  "tree_found x \<longleftrightarrow> (\<forall>st depth f rest.
     ber_wf st x \<longrightarrow> depth + ber_depth x \<le> kMaxDepth \<longrightarrow>
     find_ber_loop depth (ber_bytes x @ rest) f = (if ber_rooted x then Some True else find_ber_loop depth rest (ber_flag f x)))"

lemma forest_found:
  assumes "\<forall>x \<in> set xs. tree_found x \<and> ber_wf st x \<and> depth + ber_depth x \<le> kMaxDepth"
  shows "find_ber_loop depth (concat (map ber_bytes xs)) f = Some ((\<exists>x \<in> set xs. ber_rooted x) \<or> foldl ber_flag f xs)"
  using assms
proof (induction xs arbitrary: f)
  case Nil
  then show ?case by (simp add: find_ber_loop.simps CBS_len_def)
next
  case (Cons x xs)
  have "find_ber_loop depth (ber_bytes x @ concat (map ber_bytes xs)) f =
      (if ber_rooted x then Some True else find_ber_loop depth (concat (map ber_bytes xs)) (ber_flag f x))"
  proof -
    have "tree_found x" "ber_wf st x" "depth + ber_depth x \<le> kMaxDepth" using Cons.prems by simp_all
    then show ?thesis unfolding tree_found_def by blast
  qed
  then show ?case using Cons by simp
qed

lemma tree_found_all: "tree_found x"
proof (induction x)
  case (Primitive tag c)
  show ?case unfolding tree_found_def
  proof (intro allI impI)
    fix st depth f rest assume wf: "ber_wf st (Primitive tag c)"
    have get: "CBS_get_any_ber_asn1_element (der_element tag c @ rest) =
        (Some (der_element tag c, tag, length (der_header tag (length c))), rest)"
      using wf by (auto simp: ber_element_iff)
    show "find_ber_loop depth (ber_bytes (Primitive tag c) @ rest) f =
        (if ber_rooted (Primitive tag c) then Some True else find_ber_loop depth rest (ber_flag f (Primitive tag c)))"
      using wf get is_indefinite_der [of tag c] by (subst find_ber_loop.simps) (simp add: CBS_len_def)
  qed
next
  case (Definite tag xs)
  show ?case unfolding tree_found_def
  proof (intro allI impI)
    fix st depth f rest
    let ?x = "Definite tag xs" and ?c = "concat (map ber_bytes xs)"
    assume wf: "ber_wf st ?x" and dp: "depth + ber_depth ?x \<le> kMaxDepth"
    have get: "CBS_get_any_ber_asn1_element (der_element tag ?c @ rest) =
        (Some (der_element tag ?c, tag, length (der_header tag (length ?c))), rest)"
      using wf by (auto simp: ber_element_iff simp del: length_concat)
    have "cbs_find_ber (depth + 1) ?c = Some (ber_flag f ?x)"
      using forest_found [of xs "ber_child_string_tag st tag" "Suc depth" False] Definite wf dp children_depth [of depth xs kMaxDepth]
      by (simp add: cbs_find_ber.simps CBS_init_def CBS_data_def CBS_len_def)
    then show "find_ber_loop depth (ber_bytes ?x @ rest) f = (if ber_rooted ?x then Some True else find_ber_loop depth rest (ber_flag f ?x))"
      using wf get is_indefinite_der [of tag ?c] CBS_skip_header [of tag ?c]
      by (subst find_ber_loop.simps) (simp add: CBS_len_def del: ber_flag.simps length_concat CBS_skip_Some)
  qed
next
  case (Indefinite tag xs)
  show ?case unfolding tree_found_def
  proof (intro allI impI)
    fix st depth f rest
    let ?x = "Indefinite tag xs" and ?c = "concat (map ber_bytes xs)"
    assume wf: "ber_wf st ?x"
    have get: "CBS_get_any_ber_asn1_element (ber_bytes ?x @ rest) =
        (Some (tag_bytes tag @ [0x80], tag, Suc (length (tag_bytes tag))), ?c @ [0, 0] @ rest)"
      using wf by (auto simp: ber_element_iff)
    show "find_ber_loop depth (ber_bytes ?x @ rest) f = (if ber_rooted ?x then Some True else find_ber_loop depth rest (ber_flag f ?x))"
      using get is_indefinite_tag [of tag] by (subst find_ber_loop.simps) (simp add: CBS_len_def)
  qed
qed

lemma cbs_find_ber_forest:
  assumes "\<forall>x \<in> set xs. ber_wf 0 x \<and> ber_depth x \<le> kMaxDepth"
  shows "cbs_find_ber 0 (concat (map ber_bytes xs)) = Some (ber_found_in xs)"
  using forest_found [of xs 0 0 False] assms
  by (simp add: cbs_find_ber.simps tree_found_all ber_found_in_def CBS_init_def CBS_data_def CBS_len_def)

section \<open>\<open>CBS_asn1_ber_to_der\<close>\<close>

lemma convert_forest:
  assumes h: "heap_bounded env" and xs: "\<forall>x \<in> set xs. ber_wf 0 x \<and> ber_depth x \<le> kMaxDepth"
    and len: "length (concat (map ber_bytes xs)) < 2 ^ 31"
    and mem: "\<forall>n \<le> 6 * length (concat (map ber_bytes xs)) + 40. can_alloc env n"
    and found: "ber_found_in xs"
  shows "\<exists>storage. CBS_asn1_ber_to_der env (concat (map ber_bytes xs)) = (Some (concat (map (ber_bytes \<circ> der_tree) xs), Some storage), [])"
proof -
  let ?in = "concat (map ber_bytes xs)" and ?out = "concat (map (ber_bytes \<circ> der_tree) xs)"
  have "der_bytes 0 = ber_bytes \<circ> der_tree" by (simp add: der_bytes_def fun_eq_iff)
  then obtain w where w: "writes env 0 w ?out"
    "converts 0 (\<lambda>out. cbs_convert_ber env 0 0 False 0 (?in, out)) w (\<lambda>out. (Some (), [], out))"
    using forest_converts [OF h, of 0 "[]" False "[]" "[]" xs 0 0] xs len tree_converts_all [OF h] by auto
  have l: "length ?out \<le> 2 * length ?in"
    by (rule length_concat_map_le) (simp add: der_tree_length)
  have cap: "length ?in < 2 ^ 62" using len by simp
  have ser: "serialise env (length ?in) w = Some ?out"
    by (rule serialise_writes(2) [OF h w(1) cap]) (use l len mem in simp_all)
  then obtain u cbb v cbb' buf n z where run: "CBB_init env (length ?in) CBB_zero = (Some u, cbb)" "w cbb = (Some v, cbb')"
    "CBB_finish env 0 True True cbb' = (Some (buf, n), z)" "take n buf = ?out"
    by (auto simp: serialise_def and_then_def split: prod.splits option.splits)
  have at: "writer_at 0 cbb [] []" by (rule CBB_init_Some(1) [OF h cap run(1)])
  have "cbs_convert_ber env 0 0 False 0 (?in, cbb) = (Some (), [], cbb')" using converts_Some [OF w(2) at run(2)] .
  then show ?thesis
    using run cbs_find_ber_forest [OF xs] found by (simp add: CBS_asn1_ber_to_der_def CBS_len_def CBS_init_def)
qed

section \<open>Only BER is converted\<close>

lemma fold_max_le: "(\<And>x. x \<in> set xs \<Longrightarrow> f x \<le> (m :: nat)) \<Longrightarrow> fold max (map f xs) 0 \<le> m"
  by (auto simp: fold_max)

definition ber_forest :: "u32 \<Rightarrow> bool \<Rightarrow> nat \<Rightarrow> cbs \<Rightarrow> cbs \<Rightarrow> bool" where
  "ber_forest st eoc depth s rest \<longleftrightarrow> depth \<le> kMaxDepth \<and> (\<not> eoc \<longrightarrow> rest = []) \<and>
     (\<exists>xs. (\<forall>x \<in> set xs. ber_wf st x \<and> depth + ber_depth x \<le> kMaxDepth) \<and>
       s = concat (map ber_bytes xs) @ (if eoc then [0, 0] @ rest else []))"

lemma ber_forest_Cons:
  assumes "ber_wf st x" "depth + ber_depth x \<le> kMaxDepth" "s = ber_bytes x @ t" "ber_forest st eoc depth t rest"
  shows "ber_forest st eoc depth s rest"
proof -
  obtain xs where "\<forall>x \<in> set xs. ber_wf st x \<and> depth + ber_depth x \<le> kMaxDepth"
    "t = concat (map ber_bytes xs) @ (if eoc then [0, 0] @ rest else [])"
    using assms(4) by (auto simp: ber_forest_def)
  then show ?thesis using assms unfolding ber_forest_def by (auto intro!: exI [of _ "x # xs"])
qed

lemma add_contents_Some:
  "ber_add_contents env d st tag out = (Some u, out') \<Longrightarrow> st \<noteq> 0 \<longrightarrow> tag AND NOT CBS_ASN1_CONSTRUCTED = st"
  by (auto simp: ber_add_contents_def split: if_splits)

lemma convert_sound:
  "cbs_convert_ber env d st eoc depth s = (Some u, rest, out') \<Longrightarrow> ber_forest st eoc depth (fst s) rest"
proof (induction env d st eoc depth s arbitrary: u rest out' rule: cbs_convert_ber.induct)
  case (1 env d st eoc depth s out)
  have depth: "depth \<le> kMaxDepth" using 1(5) by (auto simp: cbs_convert_ber.simps [of env d st eoc depth s] split: if_splits)
  show ?case
  proof (cases "s = []")
    case True
    then show ?thesis using 1(5) [unfolded cbs_convert_ber.simps [of env d st eoc depth s out]] depth
      by (auto simp: CBS_len_def ber_forest_def split: if_splits intro!: exI [of _ "[]"])
  next
    case False
    then have ne: "CBS_len s \<noteq> 0" by (simp add: CBS_len_def)
    obtain el tag hl y where g: "CBS_get_any_ber_asn1_element s = (Some (el, tag, hl), y)"
      using 1(5) depth ne by (cases "CBS_get_any_ber_asn1_element s"; cases "fst (CBS_get_any_ber_asn1_element s)")
        (auto simp: cbs_convert_ber.simps [of env d st eoc depth s])
    have s: "s = el @ y" using g by (auto simp: ber_element_iff)
    show ?thesis
    proof (cases "is_eoc hl el")
      case True
      then have "eoc" "rest = y"
        using 1(5) [unfolded cbs_convert_ber.simps [of env d st eoc depth s out]] depth ne g by (auto split: if_splits)
      then show ?thesis using depth s True by (auto simp: ber_forest_def is_eoc_iff intro!: exI [of _ "[]"])
    next
      case noteoc: False
      note run = 1(5) [unfolded convert_element [OF depth g noteoc]]
      obtain v o1 where o1: "ber_add_contents env d st tag out = (Some v, o1)"
        using run by (cases "ber_add_contents env d st tag out"; cases "fst (ber_add_contents env d st tag out)") auto
      note stag = add_contents_Some [OF o1]
      obtain w i o2 where o2: "convert_contents env d st depth (el, tag, hl) y o1 = (Some w, i, o2)"
        using run o1 by (auto split: prod.splits option.splits)
      obtain z o3 where o3: "CBB_flush env d o2 = (Some z, o3)" "cbs_convert_ber env d st eoc depth (i, o3) = (Some u, rest, out')"
        using run o1 o2 by (auto split: prod.splits option.splits)
      have dm: "\<not> kMaxDepth < depth" using depth by simp
      show ?thesis
      proof (cases "is_indefinite hl el")
        case True
        then have c: "constructed tag" "el = tag_bytes tag @ [0x80]"
          using g is_indefinite_der by (auto simp: ber_element_iff)
        have conv: "cbs_convert_ber env (ber_out_contents st d) (ber_child_string_tag st tag) True (depth + 1) (y, o1) = (Some w, i, o2)"
          using o2 True by (simp add: convert_contents_def)
        have "ber_forest (ber_child_string_tag st tag) True (depth + 1) y i"
          using 1(1) [OF dm ne g [symmetric] refl refl refl noteoc o1 [symmetric] refl True conv] by simp
        then obtain xs where xs: "\<forall>x \<in> set xs. ber_wf (ber_child_string_tag st tag) x \<and> depth + 1 + ber_depth x \<le> kMaxDepth"
          "y = concat (map ber_bytes xs) @ [0, 0] @ i" "depth + 1 \<le> kMaxDepth"
          by (auto simp: ber_forest_def)
        have "ber_forest st eoc depth i rest"
          using 1(2) [OF dm ne g [symmetric] refl refl refl noteoc o1 [symmetric] refl True conv [symmetric] refl refl o3(1) [symmetric] refl o3(2)] by simp
        moreover have "ber_wf st (Indefinite tag xs)" using c stag xs(1) by simp
        moreover have "fold max (map ber_depth xs) 0 \<le> kMaxDepth - depth - 1" by (rule fold_max_le) (use xs(1) in auto)
        ultimately show ?thesis using s c xs(2,3) ber_forest_Cons [of st "Indefinite tag xs" depth s i eoc rest] by simp
      next
        case False
        then obtain c where c: "length c < 2 ^ 32" "el = der_element tag c" "hl = length (der_header tag (length c))"
          using g is_indefinite_tag [of tag] by (auto simp: ber_element_iff)
        have notz: "\<not> (tag = 0 \<and> c = [])" using noteoc c is_eoc_der by simp
        have skip: "CBS_skip hl el = (Some (), c)" using c CBS_skip_header by simp
        have i: "i = y" using o2 False by (auto simp: convert_contents_def split: prod.splits)
        show ?thesis
        proof (cases "constructed tag")
          case True
          obtain j where conv: "cbs_convert_ber env (ber_out_contents st d) (ber_child_string_tag st tag) False (depth + 1) (c, o1) = (Some w, j, o2)"
            using o2 False True c by (auto simp: convert_contents_def drop_header split: prod.splits)
          have "ber_forest (ber_child_string_tag st tag) False (depth + 1) c j"
            using 1(3) [OF dm ne g [symmetric] refl refl refl noteoc o1 [symmetric] refl False skip [symmetric] refl True conv] by simp
          then obtain xs where xs: "\<forall>x \<in> set xs. ber_wf (ber_child_string_tag st tag) x \<and> depth + 1 + ber_depth x \<le> kMaxDepth"
            "c = concat (map ber_bytes xs)" "depth + 1 \<le> kMaxDepth"
            by (auto simp: ber_forest_def)
          have "ber_forest st eoc depth y rest"
            using 1(4) [OF dm ne g [symmetric] refl refl refl noteoc o1 [symmetric] refl False skip [symmetric] refl _ refl o3(1) [symmetric] refl] o3(2) conv i True by simp
          moreover have "ber_wf st (Definite tag xs)" using True stag xs(1,2) c(1) by simp
          moreover have "fold max (map ber_depth xs) 0 \<le> kMaxDepth - depth - 1" by (rule fold_max_le) (use xs(1) in auto)
          ultimately show ?thesis using s c xs(2,3) ber_forest_Cons [of st "Definite tag xs" depth s y eoc rest] by simp
        next
          case prim: False
          have "ber_forest st eoc depth y rest"
            using 1(4) [OF dm ne g [symmetric] refl refl refl noteoc o1 [symmetric] refl False skip [symmetric] refl _ refl o3(1) [symmetric] refl] o2 o3(2) i prim False c
            by (simp add: convert_contents_def drop_header CBS_data_def split: prod.splits)
          then show ?thesis using s c prim stag notz depth ber_forest_Cons [of st "Primitive tag c" depth s y eoc rest] by simp
        qed
      qed
    qed
  qed
qed


lemma not_found_first:
  assumes "\<forall>y \<in> set (x # xs). ber_wf 0 y \<and> ber_depth y \<le> kMaxDepth" "\<not> ber_found_in (x # xs)"
  shows "CBS_asn1_ber_to_der env (concat (map ber_bytes (x # xs))) = (Some (ber_bytes x, None), concat (map ber_bytes xs))"
proof -
  have "cbs_find_ber 0 (concat (map ber_bytes (x # xs))) = Some False"
    using cbs_find_ber_forest [OF assms(1)] assms(2) by simp
  moreover obtain tag c where "ber_bytes x = der_element tag c" "length c < 2 ^ 32"
    using assms by (cases x) (auto simp: ber_found_in_def)
  ultimately show ?thesis
    by (simp add: CBS_asn1_ber_to_der_def CBS_get_any_asn1_element_def any_element_der)
qed

text \<open>C22. \<open>CBS_asn1_ber_to_der\<close> on BER elements one after the other. When its first pass finds BER, the
  whole input is replaced by the DER of all of them, definite lengths and strings in one piece;
  otherwise the first element is returned as it is. An input that is DER already is never
  converted, and one whose outermost element is of indefinite length or a constructed string
  always is.
\<close>

theorem CBS_asn1_ber_to_der_exact:
  assumes "heap_bounded env" "\<forall>y \<in> set (x # xs). ber_wf 0 y \<and> ber_depth y \<le> kMaxDepth"
    and "length (concat (map ber_bytes (x # xs))) < 2 ^ 31"
    and "\<forall>n \<le> 6 * length (concat (map ber_bytes (x # xs))) + 40. can_alloc env n"
  shows "(if ber_found_in (x # xs)
      then \<exists>storage. CBS_asn1_ber_to_der env (concat (map ber_bytes (x # xs))) =
        (Some (concat (map (ber_bytes \<circ> der_tree) (x # xs)), Some storage), [])
      else CBS_asn1_ber_to_der env (concat (map ber_bytes (x # xs))) = (Some (ber_bytes x, None), concat (map ber_bytes xs))) \<and>
    (\<forall>y. is_der (der_tree y)) \<and> ((\<forall>y \<in> set (x # xs). is_der y) \<longrightarrow> \<not> ber_found_in (x # xs)) \<and>
    (ber_rooted x \<longrightarrow> ber_found_in (x # xs))"
proof -
  have "if ber_found_in (x # xs)
      then \<exists>storage. CBS_asn1_ber_to_der env (concat (map ber_bytes (x # xs))) =
        (Some (concat (map (ber_bytes \<circ> der_tree) (x # xs)), Some storage), [])
      else CBS_asn1_ber_to_der env (concat (map ber_bytes (x # xs))) = (Some (ber_bytes x, None), concat (map ber_bytes xs))"
    using convert_forest [OF assms] not_found_first [OF assms(2), of env]
    by (cases "ber_found_in (x # xs)") (simp_all only: if_True if_False not_False_eq_True)
  moreover have "ber_rooted x \<longrightarrow> ber_found_in (x # xs)" by (simp add: ber_found_in_def)
  ultimately show ?thesis using is_der_der_tree is_der_not_found by blast
qed

definition split_string :: ber where
  "split_string = Indefinite 0x20000004 [Primitive 4 [0x61], Primitive 4 [0x62]]"

lemma split_string_bytes:
  "ber_bytes split_string = [0x24, 0x80, 4, 1, 0x61, 4, 1, 0x62, 0, 0]"
  "ber_bytes (der_tree split_string) = [4, 2, 0x61, 0x62]"
  by (simp_all add: split_string_def der_element_def der_header_def der_length_def tag_bytes_def tag_number_def tag_class_def is_string_type_def)

lemma split_string_wf: "ber_wf 0 split_string" "ber_depth split_string \<le> kMaxDepth" "ber_rooted split_string"
  by (simp_all add: split_string_def ber_child_string_tag_def ber_out_tag_def is_string_type_def kMaxDepth_def)

theorem CBS_asn1_ber_to_der_exact_witness:
  "\<exists>storage. CBS_asn1_ber_to_der small_heap [0x24, 0x80, 4, 1, 0x61, 4, 1, 0x62, 0, 0] = (Some ([4, 2, 0x61, 0x62], Some storage), [])"
proof -
  have "ber_found_in [split_string]" using split_string_wf by (simp add: ber_found_in_def)
  from CBS_asn1_ber_to_der_exact [of small_heap split_string "[]", THEN conjunct1, unfolded if_P [OF this]] split_string_wf
  show ?thesis by (simp add: split_string_bytes)
qed

text \<open>C23. And it converts nothing but BER: an input in which the first pass found BER is accepted
  exactly when it is a sequence of well-formed elements nested no deeper than the limit.
\<close>

theorem CBS_asn1_ber_to_der_accepts:
  assumes "heap_bounded env" "length s < 2 ^ 31" "\<forall>n \<le> 6 * length s + 40. can_alloc env n" "cbs_find_ber 0 s = Some True"
  shows "fst (CBS_asn1_ber_to_der env s) \<noteq> None \<longleftrightarrow>
    (\<exists>xs. (\<forall>x \<in> set xs. ber_wf 0 x \<and> ber_depth x \<le> kMaxDepth) \<and> s = concat (map ber_bytes xs))"
proof
  assume "fst (CBS_asn1_ber_to_der env s) \<noteq> None"
  then obtain cbb u rest out' where "cbs_convert_ber env 0 0 False 0 (s, cbb) = (Some u, rest, out')"
    using assms(4) by (auto simp: CBS_asn1_ber_to_der_def split: prod.splits option.splits)
  from convert_sound [OF this]
  show "\<exists>xs. (\<forall>x \<in> set xs. ber_wf 0 x \<and> ber_depth x \<le> kMaxDepth) \<and> s = concat (map ber_bytes xs)"
    by (auto simp: ber_forest_def)
next
  assume "\<exists>xs. (\<forall>x \<in> set xs. ber_wf 0 x \<and> ber_depth x \<le> kMaxDepth) \<and> s = concat (map ber_bytes xs)"
  then obtain xs where xs: "\<forall>x \<in> set xs. ber_wf 0 x \<and> ber_depth x \<le> kMaxDepth" "s = concat (map ber_bytes xs)" by blast
  have "ber_found_in xs" using cbs_find_ber_forest [OF xs(1)] assms(4) xs(2) by simp
  then show "fst (CBS_asn1_ber_to_der env s) \<noteq> None" using convert_forest [OF assms(1) xs(1)] assms(2,3) xs(2) by auto
qed

theorem CBS_asn1_ber_to_der_accepts_witness:
  "fst (CBS_asn1_ber_to_der small_heap [0x24, 0x80, 4, 1, 0x61, 4, 1, 0x62, 0, 0]) \<noteq> None"
proof -
  have "cbs_find_ber 0 (concat (map ber_bytes [split_string])) = Some True"
    using cbs_find_ber_forest [of "[split_string]"] split_string_wf by (simp add: ber_found_in_def)
  then have "cbs_find_ber 0 (ber_bytes split_string) = Some True" by simp
  from CBS_asn1_ber_to_der_accepts [OF _ _ _ this, of small_heap] show ?thesis
    using split_string_wf unfolding split_string_bytes [symmetric]
    by (auto simp: split_string_bytes intro!: exI [of _ "[split_string]"])
qed

text \<open>The bytes of an element are those of its DER only if it is DER.\<close>

lemma der_tree_header: "\<exists>t c. ber_bytes (der_tree x) = der_element t c"
  by (cases x) auto

lemma not_indefinite_bytes:
  assumes "length c < 2 ^ 32" "constructed tag" shows "der_element t c @ r \<noteq> tag_bytes tag @ 0x80 # s"
proof
  assume e: "der_element t c @ r = tag_bytes tag @ 0x80 # s"
  have "CBS_get_any_ber_asn1_element (der_element t c @ r) = (Some (der_element t c, t, length (der_header t (length c))), r)"
    using assms by (auto simp: ber_element_iff)
  moreover have "CBS_get_any_ber_asn1_element (der_element t c @ r) = (Some (tag_bytes tag @ [0x80], tag, Suc (length (tag_bytes tag))), s)"
    using assms e by (auto simp: ber_element_iff)
  ultimately have eq: "der_element t c = tag_bytes tag @ [0x80]" "length (der_header t (length c)) = Suc (length (tag_bytes tag))"
    by (metis option.inject prod.inject)+
  show False using is_indefinite_der [of t c] is_indefinite_tag [of tag] unfolding eq by simp
qed

lemma der_element_append_inject:
  assumes "length c < 2 ^ 32" "length c' < 2 ^ 32" "der_element t c @ r = der_element t' c' @ r'"
  shows "t = t' \<and> c = c' \<and> r = r'"
  using any_asn1.enc_append_inject [of "(c, t)" "(c', t')" r r'] assms by simp

lemma base_tag_differs: "constructed tag \<Longrightarrow> tag AND NOT CBS_ASN1_CONSTRUCTED \<noteq> tag"
proof
  assume c: "constructed tag" and e: "tag AND NOT CBS_ASN1_CONSTRUCTED = tag"
  have "(tag AND NOT CBS_ASN1_CONSTRUCTED) AND CBS_ASN1_CONSTRUCTED = 0" by (simp add: and.assoc)
  then show False using c unfolding e by simp
qed

lemma der_tree_bytes_eq:
  assumes "ber_wf st x" "length (ber_bytes x) < 2 ^ 31" "ber_bytes (der_tree x) @ r = ber_bytes x @ s"
  shows "is_der x \<and> r = s"
  using assms
proof (induction x arbitrary: st r s)
  case (Primitive tag c)
  then show ?case by simp
next
  case (Definite tag xs)
  let ?c = "concat (map ber_bytes xs)" and ?d = "concat (map (ber_bytes \<circ> der_tree) xs)"
  have wf: "constructed tag" "length ?c < 2 ^ 32" "\<forall>x \<in> set xs. ber_wf (ber_child_string_tag st tag) x"
    using Definite.prems(1) by simp_all
  have c31: "length ?c < 2 ^ 31" using Definite.prems(2) by (simp add: length_der_element)
  have d: "length ?d < 2 ^ 32"
    using length_concat_map_le [of xs "ber_bytes \<circ> der_tree" ber_bytes] c31 der_tree_length by simp
  have ns: "\<not> is_string_type tag"
  proof
    assume str: "is_string_type tag"
    let ?s = "concat (map string_bytes xs)"
    have "length (string_bytes x) \<le> 2 * length (ber_bytes x)" for x using string_bytes_length [of x] by simp
    then have "length ?s < 2 ^ 32" using length_concat_map_le [of xs string_bytes ber_bytes] c31 by simp
    moreover have "der_element (tag AND NOT CBS_ASN1_CONSTRUCTED) ?s @ r = der_element tag ?c @ s"
      using Definite.prems(3) str by simp
    ultimately show False using der_element_append_inject [OF _ wf(2)] base_tag_differs [OF wf(1)] by blast
  qed
  then have eq: "?d = ?c \<and> r = s"
    using der_element_append_inject [OF d wf(2), of tag r tag s] Definite.prems(3) by simp
  have "\<forall>y \<in> set ys. is_der y" if "concat (map (ber_bytes \<circ> der_tree) ys) = concat (map ber_bytes ys)" "set ys \<subseteq> set xs" for ys
    using that
  proof (induction ys)
    case (Cons y ys)
    have "ber_bytes (der_tree y) @ concat (map (ber_bytes \<circ> der_tree) ys) = ber_bytes y @ concat (map ber_bytes ys)"
      using Cons.prems(1) by (simp add: comp_def)
    moreover have "length (ber_bytes y) \<le> length ?c"
      using split_list [of y xs] Cons.prems(2) by auto
    ultimately have "is_der y \<and> concat (map (ber_bytes \<circ> der_tree) ys) = concat (map ber_bytes ys)"
      using Definite.IH [of y "ber_child_string_tag st tag"] wf(3) Cons.prems(2) c31 by simp
    then show ?case using Cons by (simp add: comp_def)
  qed simp
  from this [OF conjunct1 [OF eq] order_refl] show ?case using ns eq by simp
next
  case (Indefinite tag xs)
  have c: "constructed tag" using Indefinite.prems(1) by simp
  obtain t d where d: "ber_bytes (der_tree (Indefinite tag xs)) = der_element t d" using der_tree_header by blast
  have "length (der_element t d) \<le> 2 * length (ber_bytes (Indefinite tag xs))" using der_tree_length d by metis
  then have "length d < 2 ^ 32" using Indefinite.prems(2) by (simp add: length_der_element)
  then show ?case using not_indefinite_bytes [OF _ c, of d t r] Indefinite.prems(3) d by simp
qed

text \<open>Primitive elements and DER elements leave no flag behind them.\<close>

lemma flag_after_der:
  assumes "is_der (Definite tag zs)" and "\<forall>w \<in> set ws. \<exists>t c. w = Primitive t c"
  shows "\<not> foldl ber_flag f (us @ Definite tag zs # ws)"
proof -
  have "foldl ber_flag g ws = g" for g using assms(2) by (induction ws) auto
  moreover have "ber_flag (foldl ber_flag f us) (Definite tag zs) = ber_flag False (Definite tag zs)" by simp
  ultimately show ?thesis using is_der_flag [OF assms(1), of False] by (simp del: ber_flag.simps)
qed

text \<open>C24. The first pass can miss BER. Take a constructed element of definite length that is not a
  string: some of its children contain BER further down (but are not themselves of indefinite
  length or constructed strings), then comes a constructed child that is DER, and behind that
  only primitive ones. The DER child clears the flag its siblings had set, so the first pass
  reports no BER, and \<open>CBS_asn1_ber_to_der\<close> hands the element back as it is, although its
  bytes are not those of its DER.
\<close>

theorem CBS_asn1_ber_to_der_misses_ber:
  assumes "ber_wf 0 x" "ber_depth x \<le> kMaxDepth" "length (ber_bytes x) < 2 ^ 31"
    and "x = Definite tag (us @ Definite tag' zs # ws)" "\<not> is_string_type tag"
    and "\<forall>y \<in> set us. \<not> ber_rooted y" "\<exists>u \<in> set us. \<not> is_der u"
    and "is_der (Definite tag' zs)" "\<forall>w \<in> set ws. \<exists>t c. w = Primitive t c"
  shows "cbs_find_ber 0 (ber_bytes x) = Some False \<and>
    CBS_asn1_ber_to_der env (ber_bytes x) = (Some (ber_bytes x, None), []) \<and>
    \<not> is_der x \<and> ber_bytes (der_tree x) \<noteq> ber_bytes x"
proof -
  have wf: "\<forall>y \<in> set [x]. ber_wf 0 y \<and> ber_depth y \<le> kMaxDepth" using assms(1,2) by simp
  have "\<not> ber_rooted (Definite tag' zs)" using is_der_flag [OF assms(8)] by blast
  moreover have "\<forall>w \<in> set ws. \<not> ber_rooted w" using assms(9) by auto
  ultimately have roots: "\<forall>y \<in> set (us @ Definite tag' zs # ws). \<not> ber_rooted y" using assms(6) by auto
  have "\<not> ber_flag False x"
    using roots flag_after_der [OF assms(8,9), of False us] unfolding assms(4) ber_flag.simps(2) by blast
  then have nf: "\<not> ber_found_in [x]" using assms(4,5) by (simp add: ber_found_in_def del: ber_flag.simps)
  have nd: "\<not> is_der x" using assms(4,7) by auto
  then have "ber_bytes (der_tree x) \<noteq> ber_bytes x" using der_tree_bytes_eq [OF assms(1,3), of "[]" "[]"] by auto
  then show ?thesis
    using not_found_first [OF wf nf, of env] cbs_find_ber_forest [OF wf] nf nd by simp
qed

definition missed_ber :: ber where
  "missed_ber = Definite 0x20000010
     [Definite 0x20000010 [Indefinite 0x20000010 []], Primitive 5 [], Definite 0x20000010 [], Primitive 2 [7]]"

theorem CBS_asn1_ber_to_der_misses_ber_witness:
  "CBS_asn1_ber_to_der small_heap [0x30, 13, 0x30, 4, 0x30, 0x80, 0, 0, 5, 0, 0x30, 0, 2, 1, 7] =
     (Some ([0x30, 13, 0x30, 4, 0x30, 0x80, 0, 0, 5, 0, 0x30, 0, 2, 1, 7], None), []) \<and>
   ber_bytes (der_tree missed_ber) = [0x30, 11, 0x30, 2, 0x30, 0, 5, 0, 0x30, 0, 2, 1, 7]"
proof -
  have t: "tag_bytes 0x20000010 = [0x30]" "tag_bytes 5 = [5]" "tag_bytes 2 = [2]"
    by (simp_all add: tag_bytes_def tag_number_def tag_class_def)
  have e: "length c < 128 \<Longrightarrow> der_element tag c = tag_bytes tag @ of_nat (length c) # c" for tag c
    by (simp add: der_element_def der_header_def der_length_def)
  have ns: "\<not> is_string_type 0x20000010" by (simp add: is_string_type_def)
  have b: "ber_bytes missed_ber = [0x30, 13, 0x30, 4, 0x30, 0x80, 0, 0, 5, 0, 0x30, 0, 2, 1, 7]"
    "ber_bytes (der_tree missed_ber) = [0x30, 11, 0x30, 2, 0x30, 0, 5, 0, 0x30, 0, 2, 1, 7]"
    by (simp_all add: missed_ber_def e t ns)
  have wf: "ber_wf 0 missed_ber" "ber_depth missed_ber \<le> kMaxDepth" "length (ber_bytes missed_ber) < 2 ^ 31"
    by (simp_all add: missed_ber_def e t ber_child_string_tag_def ns kMaxDepth_def)
  have "CBS_asn1_ber_to_der small_heap (ber_bytes missed_ber) = (Some (ber_bytes missed_ber, None), [])"
    using CBS_asn1_ber_to_der_misses_ber [OF wf, of "0x20000010" "[Definite 0x20000010 [Indefinite 0x20000010 []], Primitive 5 []]"
        "0x20000010" "[]" "[Primitive 2 [7]]" small_heap] by (simp add: missed_ber_def ns)
  then show ?thesis unfolding b by simp
qed

section \<open>Implicitly tagged strings\<close>

lemma implicit_string_loop_writes:
  "heap_bounded env \<Longrightarrow> writer_at 0 cbb P [] \<Longrightarrow> length child < 2 ^ 32 \<Longrightarrow>
    (case implicit_string_loop env inner_tag child cbb of
       (Some _, cbb') \<Rightarrow> \<exists>chunks. child = concat (map (der_element inner_tag) chunks) \<and>
         writer_at 0 cbb' (P @ concat chunks) [] \<and> cbb_grown cbb cbb'
     | (None, cbb') \<Rightarrow> \<forall>chunks. child = concat (map (der_element inner_tag) chunks) \<longrightarrow> \<not> cbb_room env cbb (length (P @ concat chunks)))"
proof (induction env inner_tag child arbitrary: cbb P rule: implicit_string_loop.induct)
  case (1 env inner_tag child)
  note h = 1(2) and at = 1(3) and len = 1(4)
  show ?case
  proof (cases "child = []")
    case True
    then have "implicit_string_loop env inner_tag child cbb = (Some (), cbb)"
      by (simp add: implicit_string_loop.simps [of env inner_tag "[]"] CBS_len_def)
    moreover have "cbb_grown cbb cbb" using at by (auto simp: writer_at_def cbb_grown_def split: option.splits)
    ultimately show ?thesis using at True by (auto intro!: exI [of _ "[]"])
  next
    case False
    then have ne: "CBS_len child > 0" by (simp add: CBS_len_def)
    show ?thesis
    proof (cases "CBS_get_asn1 inner_tag child")
      case (Pair r rest)
      show ?thesis
      proof (cases r)
        case None
        have "child \<noteq> concat (map (der_element inner_tag) chunks)" for chunks
        proof
          assume c: "child = concat (map (der_element inner_tag) chunks)"
          then obtain x xs where x: "chunks = x # xs" using False by (cases chunks) auto
          have "length x < 2 ^ 32" using len c x by (simp add: length_der_element)
          then show False using CBS_get_asn1_iff [of inner_tag child x "concat (map (der_element inner_tag) xs)"] Pair None c x by simp
        qed
        then show ?thesis using ne Pair None by (simp add: implicit_string_loop.simps [of env inner_tag child])
      next
        case (Some chunk)
        have c: "length chunk < 2 ^ 32" "child = der_element inner_tag chunk @ rest"
          using Pair Some CBS_get_asn1_iff by auto
        have run: "implicit_string_loop env inner_tag child cbb =
            and_then (CBB_add_bytes env 0 chunk) (\<lambda>_. implicit_string_loop env inner_tag rest) cbb"
          using ne Pair Some by (simp add: implicit_string_loop.simps [of env inner_tag child] CBS_data_def)
        have wr: "writes env 0 (CBB_add_bytes env 0 chunk) chunk" using CBB_add_bytes_writes [OF h, of chunk] c(1) by simp
        have parse: "chunks \<noteq> [] \<and> hd chunks = chunk \<and> rest = concat (map (der_element inner_tag) (tl chunks))"
          if eq: "child = concat (map (der_element inner_tag) chunks)" for chunks
        proof -
          obtain x xs where x: "chunks = x # xs" using False eq by (cases chunks) auto
          have "length x < 2 ^ 32" using len eq x by (simp add: length_der_element)
          then show ?thesis using CBS_get_asn1_iff [of inner_tag child x "concat (map (der_element inner_tag) xs)"] Pair Some eq x by simp
        qed
        obtain r1 cbb1 where w: "CBB_add_bytes env 0 chunk cbb = (r1, cbb1)" by fastforce
        show ?thesis
        proof (cases r1)
          case None
          have "\<not> cbb_room env cbb (length (P @ chunk))" using writes_None(2) [OF wr at w [unfolded None], of "[]"] by simp
          then have "\<not> cbb_room env cbb (length (P @ concat chunks))"
            if "child = concat (map (der_element inner_tag) chunks)" for chunks
            using parse [OF that] cbb_room_mono [of env cbb "length (P @ concat chunks)" "length (P @ chunk)"] by (cases chunks) auto
          then show ?thesis using run w None by simp
        next
          case (Some u)
          obtain at1: "writer_at 0 cbb1 (P @ chunk) []" and g1: "cbb_grown cbb cbb1"
            by (rule writes_Some [OF wr at w [unfolded Some]]) simp
          have l: "length rest < 2 ^ 32" using len c(2) by simp
          have IH: "case implicit_string_loop env inner_tag rest cbb1 of
              (Some _, cbb') \<Rightarrow> \<exists>chunks. rest = concat (map (der_element inner_tag) chunks) \<and>
                writer_at 0 cbb' ((P @ chunk) @ concat chunks) [] \<and> cbb_grown cbb1 cbb'
            | (None, cbb') \<Rightarrow> \<forall>chunks. rest = concat (map (der_element inner_tag) chunks) \<longrightarrow>
                \<not> cbb_room env cbb1 (length ((P @ chunk) @ concat chunks))"
            using 1(1) [OF ne Pair [unfolded \<open>r = Some chunk\<close>, symmetric] refl h at1 l] .
          obtain r2 cbb2 where i: "implicit_string_loop env inner_tag rest cbb1 = (r2, cbb2)" by fastforce
          have loop: "implicit_string_loop env inner_tag child cbb = (r2, cbb2)" using run w Some i by simp
          show ?thesis
          proof (cases r2)
            case None
            have "\<not> cbb_room env cbb (length (P @ concat chunks))" if "child = concat (map (der_element inner_tag) chunks)" for chunks
            proof -
              have "concat chunks = chunk @ concat (tl chunks)" using parse [OF that] by (cases chunks) auto
              then have "\<not> cbb_room env cbb1 (length (P @ concat chunks))" using IH i None parse [OF that] by simp
              then show ?thesis using g1 cbb_room_grown by blast
            qed
            then show ?thesis using loop None by simp
          next
            case (Some v)
            then obtain chunks where "rest = concat (map (der_element inner_tag) chunks)"
              "writer_at 0 cbb2 ((P @ chunk) @ concat chunks) []" "cbb_grown cbb1 cbb2"
              using IH i by auto
            then show ?thesis using loop Some c(2) g1 cbb_grown_trans by (auto intro!: exI [of _ "chunk # chunks"])
          qed
        qed
      qed
    qed
  qed
qed


lemma chunks_short: "length (concat (map (der_element tag) cs)) < 2 ^ 32 \<Longrightarrow> \<forall>c \<in> set cs. length c < 2 ^ 32"
  by (induction cs) (auto simp: length_der_element)

text \<open>The parts of a constructed string, collected in a buffer that starts as long as the input.\<close>

lemma implicit_string_collect:
  assumes h: "heap_bounded env" and len: "length child \<le> cap" "cap < 2 ^ 31" and mem: "\<forall>n \<le> 4 * cap + 40. can_alloc env n"
    and i: "CBB_init env cap CBB_zero = (Some u, cbb)"
  shows "case and_then (implicit_string_loop env inner_tag child) (\<lambda>_. CBB_finish env 0 True True) cbb of
      (None, _) \<Rightarrow> \<forall>chunks. child \<noteq> concat (map (der_element inner_tag) chunks)
    | (Some (data, n), _) \<Rightarrow> \<exists>chunks. child = concat (map (der_element inner_tag) chunks) \<and>
        take n data = concat chunks \<and>
        (\<forall>chunks'. child = concat (map (der_element inner_tag) chunks') \<longrightarrow> chunks' = chunks)"
proof -
  note init = CBB_init_Some [OF h _ i]
  have short: "length child < 2 ^ 32" "cap < 2 ^ 62" using len by simp_all
  obtain r cbb2 where l: "implicit_string_loop env inner_tag child cbb = (r, cbb2)" by fastforce
  note loop = implicit_string_loop_writes [OF h init(1) [OF short(2)] short(1), of inner_tag, unfolded l prod.case]
  show ?thesis
  proof (cases r)
    case None
    have "child \<noteq> concat (map (der_element inner_tag) chunks)" for chunks
    proof
      assume c: "child = concat (map (der_element inner_tag) chunks)"
      have "length (concat chunks) \<le> length child"
        unfolding c by (induction chunks) (auto simp: length_der_element)
      then have "cbb_room env cbb (length ([] @ concat chunks))"
        using init(2) [OF short(2)] len mem by (auto simp: cbb_room_def room_def)
      then show False using loop None c by auto
    qed
    then show ?thesis using l None by simp
  next
    case (Some v)
    then obtain chunks where ch: "child = concat (map (der_element inner_tag) chunks)" "writer_at 0 cbb2 (concat chunks) []"
      using loop by auto
    obtain buf n where f: "CBB_finish env 0 True True cbb2 = (Some (buf, n), CBB_cleanup 0 cbb2)" "take n buf = concat chunks"
      using CBB_finish_at_end [OF ch(2), of env] by metis
    have "chunks' = chunks" if "child = concat (map (der_element inner_tag) chunks')" for chunks'
    proof -
      have "\<forall>c \<in> set chunks. length c < 2 ^ 32" "\<forall>c \<in> set chunks'. length c < 2 ^ 32"
        using chunks_short [OF short(1) [unfolded ch(1)]] chunks_short [OF short(1) [unfolded that]] by blast+
      then show ?thesis using asn1.concat_enc_inject [of chunks' chunks inner_tag] that ch(1) by auto
    qed
    then show ?thesis using l Some f ch(1) by (auto intro!: exI [of _ chunks])
  qed
qed

text \<open>C25. \<open>CBS_get_asn1_implicit_string\<close>: the string is either one primitive element under the outer
  tag, returned where it lies, or the concatenation of the primitive parts of a constructed one,
  returned in a block of its own; nothing else is accepted.
\<close>

theorem CBS_get_asn1_implicit_string_exact:
  assumes h: "heap_bounded env" and len: "length s < 2 ^ 31" and mem: "\<forall>n \<le> 4 * length s + 40. can_alloc env n"
  shows "(CBS_get_asn1_implicit_string env outer_tag inner_tag s = (Some (out, None), rest) \<longleftrightarrow> s = der_element outer_tag out @ rest) \<and>
    ((\<exists>storage. CBS_get_asn1_implicit_string env outer_tag inner_tag s = (Some (out, Some storage), rest)) \<longleftrightarrow>
      \<not> CBS_peek_asn1_tag s outer_tag \<and>
      (\<exists>chunks. out = concat chunks \<and>
        s = der_element (outer_tag OR CBS_ASN1_CONSTRUCTED) (concat (map (der_element inner_tag) chunks)) @ rest))"
proof (cases "CBS_peek_asn1_tag s outer_tag")
  case True
  have "s = der_element outer_tag out @ rest \<Longrightarrow> length out < 2 ^ 32" using len by (simp add: length_der_element)
  then show ?thesis using True CBS_get_asn1_iff [of outer_tag s out rest]
    by (auto simp: CBS_get_asn1_implicit_string_def split: prod.splits option.splits)
next
  case False
  let ?tag = "outer_tag OR CBS_ASN1_CONSTRUCTED"
  have no: "s \<noteq> der_element outer_tag out @ rest"
    using False by (auto simp: CBS_peek_asn1_tag_iff der_element_def der_header_def)
  obtain u cbb where i: "CBB_init env (length s) CBB_zero = (Some u, cbb)"
    using CBB_init_None [of "length s" env CBB_zero] mem len by (cases "CBB_init env (length s) CBB_zero"; cases "fst (CBB_init env (length s) CBB_zero)") auto
  let ?run = "\<lambda>child. and_then (implicit_string_loop env inner_tag child) (\<lambda>_. CBB_finish env 0 True True) cbb"
  have run: "CBS_get_asn1_implicit_string env outer_tag inner_tag s =
      (case CBS_get_asn1 ?tag s of
         (None, s) \<Rightarrow> (None, s)
       | (Some child, s) \<Rightarrow>
           (case ?run child of (None, _) \<Rightarrow> (None, s) | (Some (data, n), _) \<Rightarrow> (Some (CBS_init data n, Some data), s)))"
    using False i by (simp add: CBS_get_asn1_implicit_string_def CBS_len_def)
  obtain r t where g: "CBS_get_asn1 ?tag s = (r, t)" by fastforce
  have uniq: "s = der_element ?tag c @ rest \<longleftrightarrow> r = Some c \<and> rest = t" for c
  proof
    assume a: "s = der_element ?tag c @ rest"
    then have "length c < 2 ^ 32" using len by (simp add: length_der_element)
    then show "r = Some c \<and> rest = t" using CBS_get_asn1_iff [of ?tag s c rest] a g by simp
  qed (use g CBS_get_asn1_iff in auto)
  show ?thesis
  proof (cases r)
    case None
    then show ?thesis using no run g False uniq by simp
  next
    case (Some child)
    have "s = der_element ?tag child @ t" using g Some CBS_get_asn1_iff by auto
    then have "length child \<le> length s" by (simp add: length_der_element)
    from implicit_string_collect [OF h this len mem i, of inner_tag] show ?thesis
      unfolding uniq run g Some prod.case option.case
      by (auto simp: False no CBS_init_def split: prod.splits option.splits) metis+
  qed
qed

theorem CBS_get_asn1_implicit_string_exact_witness:
  "\<exists>storage. CBS_get_asn1_implicit_string small_heap 0x80000000 4 [0xa0, 6, 4, 1, 0x61, 4, 1, 0x62, 5, 0] =
    (Some ([0x61, 0x62], Some storage), [5, 0])"
proof -
  have e: "[0xa0, 6, 4, 1, 0x61, 4, 1, 0x62, 5, 0] = der_element (0x80000000 OR CBS_ASN1_CONSTRUCTED) (concat (map (der_element 4) [[0x61], [0x62]])) @ [5, 0]"
    by (simp add: der_element_def der_header_def der_length_def tag_bytes_def tag_number_def tag_class_def)
  have p: "\<not> CBS_peek_asn1_tag [0xa0, 6, 4, 1, 0x61, 4, 1, 0x62, 5, 0] 0x80000000"
    by (simp add: CBS_peek_asn1_tag_iff tag_bytes_def tag_number_def tag_class_def)
  show ?thesis
  proof (rule iffD2 [OF conjunct2 [OF CBS_get_asn1_implicit_string_exact]])
    show "\<not> CBS_peek_asn1_tag [0xa0, 6, 4, 1, 0x61, 4, 1, 0x62, 5, 0] 0x80000000 \<and>
      (\<exists>chunks. [0x61, 0x62] = concat chunks \<and> [0xa0, 6, 4, 1, 0x61, 4, 1, 0x62, 5, 0] =
        der_element (0x80000000 OR CBS_ASN1_CONSTRUCTED) (concat (map (der_element 4) chunks)) @ [5, 0])"
      using p by (intro conjI exI [of _ "[[0x61], [0x62]]"] e) simp_all
  qed simp_all
qed

end
