(* ===== verification/Digest.thy ===== *)
theory Digest
  imports Prelude
begin

text \<open>
  \<open>crypto/fipsmodule/digest/md32_common.h\<close>: the collector of the 32-bit digests. The C
  file is a template, instantiated by macros; here its functions take the block function,
  the byte order and the output step as arguments. The file states once and for all what a
  digest context has absorbed; MD4, MD5, SHA-1 and SHA-256 instantiate it.
\<close>

section \<open>Code\<close>

record md32 =
  md_h :: "u32 list"
  md_Nl :: u32
  md_Nh :: u32
  md_data :: bytes
  md_num :: nat

definition HASH_CBLOCK :: nat where
  "HASH_CBLOCK = 64"

definition HOST_c2l_be :: "bytes \<Rightarrow> nat \<Rightarrow> u32" where
  "HOST_c2l_be c p =
     (let l = push_bit 24 (ucast (c ! p));
          l = l OR push_bit 16 (ucast (c ! (p + 1)));
          l = l OR push_bit 8 (ucast (c ! (p + 2)));
          l = l OR ucast (c ! (p + 3))
      in l)"

definition HOST_l2c_be :: "u32 \<Rightarrow> bytes" where
  "HOST_l2c_be l =
     [ucast (drop_bit 24 l AND 0xff), ucast (drop_bit 16 l AND 0xff),
      ucast (drop_bit 8 l AND 0xff), ucast (l AND 0xff)]"

definition HOST_c2l_le :: "bytes \<Rightarrow> nat \<Rightarrow> u32" where
  "HOST_c2l_le c p =
     (let l = ucast (c ! p);
          l = l OR push_bit 8 (ucast (c ! (p + 1)));
          l = l OR push_bit 16 (ucast (c ! (p + 2)));
          l = l OR push_bit 24 (ucast (c ! (p + 3)))
      in l)"

definition HOST_l2c_le :: "u32 \<Rightarrow> bytes" where
  "HOST_l2c_le l =
     [ucast (l AND 0xff), ucast (drop_bit 8 l AND 0xff),
      ucast (drop_bit 16 l AND 0xff), ucast (drop_bit 24 l AND 0xff)]"

definition ROTATE :: "u32 \<Rightarrow> nat \<Rightarrow> u32" where
  "ROTATE a n = push_bit n a OR drop_bit (32 - n) a"

type_synonym 'w block_function = "'w list \<Rightarrow> bytes \<Rightarrow> nat \<Rightarrow> 'w list"

definition update_blocks :: "u32 block_function \<Rightarrow> bytes \<Rightarrow> 'a md32_scheme \<Rightarrow> 'a md32_scheme" where
  "update_blocks HASH_BLOCK_DATA_ORDER data c =
     (let n = length data div HASH_CBLOCK;
          (c, data) =
            (if n > 0
             then (c\<lparr>md_h := HASH_BLOCK_DATA_ORDER (md_h c) data n\<rparr>, drop (n * HASH_CBLOCK) data)
             else (c, data))
      in if length data \<noteq> 0
         then c\<lparr>md_num := length data, md_data := mem_write (md_data c) 0 data\<rparr>
         else c)"

definition HASH_UPDATE :: "u32 block_function \<Rightarrow> 'a md32_scheme \<Rightarrow> bytes \<Rightarrow> 'a md32_scheme" where
  "HASH_UPDATE HASH_BLOCK_DATA_ORDER c data =
     (if length data = 0 then c
      else
        let l = md_Nl c + push_bit 3 (of_nat (length data));
            c = (if l < md_Nl c then c\<lparr>md_Nh := md_Nh c + 1\<rparr> else c);
            c = c\<lparr>md_Nh := md_Nh c + of_nat (length data div 2 ^ 29)\<rparr>;
            c = c\<lparr>md_Nl := l\<rparr>;
            n = md_num c
        in if n \<noteq> 0 then
             if length data \<ge> HASH_CBLOCK \<or> length data + n \<ge> HASH_CBLOCK then
               let c = c\<lparr>md_data := mem_write (md_data c) n (take (HASH_CBLOCK - n) data)\<rparr>;
                   c = c\<lparr>md_h := HASH_BLOCK_DATA_ORDER (md_h c) (md_data c) 1\<rparr>;
                   c = c\<lparr>md_num := 0, md_data := replicate HASH_CBLOCK 0\<rparr>
               in update_blocks HASH_BLOCK_DATA_ORDER (drop (HASH_CBLOCK - n) data) c
             else c\<lparr>md_data := mem_write (md_data c) n data, md_num := n + length data\<rparr>
           else update_blocks HASH_BLOCK_DATA_ORDER data c)"

definition HASH_TRANSFORM :: "u32 block_function \<Rightarrow> 'a md32_scheme \<Rightarrow> bytes \<Rightarrow> 'a md32_scheme" where
  "HASH_TRANSFORM HASH_BLOCK_DATA_ORDER c data = c\<lparr>md_h := HASH_BLOCK_DATA_ORDER (md_h c) data 1\<rparr>"

definition HASH_FINAL ::
  "u32 block_function \<Rightarrow> bool \<Rightarrow> ('a md32_scheme \<Rightarrow> 'b) \<Rightarrow> 'a md32_scheme \<Rightarrow> 'b \<times> 'a md32_scheme" where
  "HASH_FINAL HASH_BLOCK_DATA_ORDER big_endian HASH_MAKE_STRING c =
     (let n = md_num c;
          c = c\<lparr>md_data := (md_data c)[n := 0x80]\<rparr>;
          n = n + 1;
          (n, c) =
            (if n > HASH_CBLOCK - 8
             then
               let c = c\<lparr>md_data := mem_write (md_data c) n (replicate (HASH_CBLOCK - n) 0)\<rparr>;
                   c = c\<lparr>md_h := HASH_BLOCK_DATA_ORDER (md_h c) (md_data c) 1\<rparr>
               in (0, c)
             else (n, c));
          c = c\<lparr>md_data := mem_write (md_data c) n (replicate (HASH_CBLOCK - 8 - n) 0)\<rparr>;
          bits = (if big_endian then HOST_l2c_be (md_Nh c) @ HOST_l2c_be (md_Nl c)
                  else HOST_l2c_le (md_Nl c) @ HOST_l2c_le (md_Nh c));
          c = c\<lparr>md_data := mem_write (md_data c) (HASH_CBLOCK - 8) bits\<rparr>;
          c = c\<lparr>md_h := HASH_BLOCK_DATA_ORDER (md_h c) (md_data c) 1\<rparr>;
          c = c\<lparr>md_num := 0, md_data := replicate HASH_CBLOCK 0\<rparr>
      in (HASH_MAKE_STRING c, c))"

section \<open>Absorbing a message\<close>

text \<open>Compressing every full block of a message, from the left; the rest is left over.\<close>

function absorb :: "('s \<Rightarrow> bytes \<Rightarrow> 's) \<Rightarrow> nat \<Rightarrow> 's \<Rightarrow> bytes \<Rightarrow> 's" where
  "absorb compress c s m =
     (if c = 0 \<or> length m < c then s else absorb compress c (compress s (take c m)) (drop c m))"
  by pat_completeness auto
termination by (relation "measure (\<lambda>(_, _, _, m). length m)") auto

declare absorb.simps [simp del]

definition leftover :: "nat \<Rightarrow> bytes \<Rightarrow> bytes" where
  "leftover c m = drop (length m div c * c) m"

lemma absorb_short [simp]: "length m < c \<Longrightarrow> absorb compress c s m = s"
  by (simp add: absorb.simps)

lemma absorb_block:
  "0 < c \<Longrightarrow> length b = c \<Longrightarrow> absorb compress c s (b @ m) = absorb compress c (compress s b) m"
  by (subst absorb.simps) simp

lemma absorb_one: "0 < c \<Longrightarrow> length b = c \<Longrightarrow> absorb compress c s b = compress s b"
  using absorb_block [of c b compress s "[]"] by simp

lemma leftover_short [simp]: "length m < c \<Longrightarrow> leftover c m = m"
  by (simp add: leftover_def)

lemma leftover_block [simp]:
  assumes "0 < c" "length b = c" shows "leftover c (b @ m) = leftover c m"
proof -
  have "length (b @ m) div c = Suc (length m div c)" using assms by (simp add: div_add_self1)
  then show ?thesis using assms by (simp add: leftover_def)
qed

lemma length_leftover [simp]: "length (leftover c m) = length m mod c"
  by (simp add: leftover_def minus_div_mult_eq_mod)

lemma absorb_append:
  assumes "0 < c"
  shows "absorb compress c s (m @ x) = absorb compress c (absorb compress c s m) (leftover c m @ x)"
  using assms
proof (induction compress c s m rule: absorb.induct)
  case (1 compress c s m)
  show ?case
  proof (cases "length m < c")
    case False
    define b r where "b = take c m" and "r = drop c m"
    have m: "m = b @ r" "length b = c" using False by (simp_all add: b_def r_def)
    then show ?thesis using 1 False
      by (simp add: absorb_block flip: b_def r_def)
  qed simp
qed

lemma leftover_append:
  assumes "0 < c" shows "leftover c (m @ x) = leftover c (leftover c m @ x)"
  using assms
proof (induction m arbitrary: x rule: length_induct)
  case (1 m)
  show ?case
  proof (cases "length m < c")
    case False
    define b r where "b = take c m" and "r = drop c m"
    have m: "m = b @ r" "length b = c" using False by (simp_all add: b_def r_def)
    have "length r < length m" using m 1(2) by simp
    then show ?thesis using 1 m by simp
  qed simp
qed

lemma absorb_take:
  assumes "0 < c"
  shows "absorb compress c s m = absorb compress c s (take (length m div c * c) m)"
proof -
  let ?f = "take (length m div c * c) m"
  have "length ?f = length m div c * c" by (simp add: min_absorb2)
  then have "leftover c ?f = []" using assms by (simp add: leftover_def)
  moreover have "absorb compress c t (leftover c m) = t" for t
    using assms by (intro absorb_short) simp
  ultimately show ?thesis
    using absorb_append [OF assms, of compress s ?f "leftover c m"] by (simp add: leftover_def)
qed


section \<open>What a context has absorbed\<close>

definition md_bits :: "'a md32_scheme \<Rightarrow> nat" where
  "md_bits c = unat (md_Nh c) * 2 ^ 32 + unat (md_Nl c)"

definition absorbed32 ::
  "(u32 list \<Rightarrow> bytes \<Rightarrow> u32 list) \<Rightarrow> u32 list \<Rightarrow> 'a md32_scheme \<Rightarrow> bytes \<Rightarrow> bool" where
  "absorbed32 compress h0 c m \<longleftrightarrow>
     md_h c = absorb compress HASH_CBLOCK h0 m \<and>
     md_num c = length m mod HASH_CBLOCK \<and>
     length (md_data c) = HASH_CBLOCK \<and>
     take (md_num c) (md_data c) = leftover HASH_CBLOCK m \<and>
     md_bits c = 8 * length m mod 2 ^ 64"

lemma fresh_absorbed:
  "md_h c = h0 \<Longrightarrow> md_num c = 0 \<Longrightarrow> md_Nl c = 0 \<Longrightarrow> md_Nh c = 0 \<Longrightarrow>
    length (md_data c) = 64 \<Longrightarrow> absorbed32 compress h0 c []"
  by (simp add: absorbed32_def HASH_CBLOCK_def md_bits_def absorb.simps [of _ 64] leftover_def)

lemma HASH_UPDATE_more [simp]: "md32.more (HASH_UPDATE block c d) = md32.more c"
  by (simp add: HASH_UPDATE_def update_blocks_def Let_def)

lemma HOST_c2l_take:
  "p + 3 < n \<Longrightarrow> HOST_c2l_le (take n d) p = HOST_c2l_le d p"
  "p + 3 < n \<Longrightarrow> HOST_c2l_be (take n d) p = HOST_c2l_be d p"
  by (simp_all add: HOST_c2l_le_def HOST_c2l_be_def)

text \<open>The words of a block are its bytes.\<close>

lemma block_words_take:
  "map (\<lambda>i. HOST_c2l_le (take 64 d) (4 * i)) [0..<16] = map (\<lambda>i. HOST_c2l_le d (4 * i)) [0..<16]"
  "map (\<lambda>i. HOST_c2l_be (take 64 d) (4 * i)) [0..<16] = map (\<lambda>i. HOST_c2l_be d (4 * i)) [0..<16]"
  by (simp_all add: HOST_c2l_take)

lemma unat_HOST_c2l:
  "unat (HOST_c2l_le c p) = le_val [c ! p, c ! (p + 1), c ! (p + 2), c ! (p + 3)]"
  "unat (HOST_c2l_be c p) = be_val [c ! p, c ! (p + 1), c ! (p + 2), c ! (p + 3)]"
proof -
  have join: "unat (push_bit k (ucast b) OR v :: u32) = unat b * 2 ^ k + unat v"
    if "unat v < 2 ^ k" "k \<le> 24" for b :: u8 and v :: u32 and k
  proof -
    have "unat (ucast b :: u32) * 2 ^ k < 2 ^ 8 * 2 ^ 24"
      using power_increasing [OF that(2), of "2 :: nat"] by (intro mult_less_le_imp_less) simp_all
    then show ?thesis using unat_or_shift [of v k "ucast b"] that(1) by simp
  qed
  have "HOST_c2l_le c p = push_bit 24 (ucast (c ! (p + 3))) OR (push_bit 16 (ucast (c ! (p + 2))) OR
      (push_bit 8 (ucast (c ! (p + 1))) OR ucast (c ! p)))"
    by (simp add: HOST_c2l_le_def Let_def or.commute)
  moreover have "unat (push_bit 8 (ucast x) OR ucast y :: u32) < 2 ^ 16" for x y :: u8
    using unat_u8_bound [of x] unat_u8_bound [of y] by (subst join) (simp_all del: unat_u8_bound)
  moreover from this have "unat (push_bit 16 (ucast z) OR (push_bit 8 (ucast x) OR ucast y) :: u32) < 2 ^ 24" for x y z :: u8
    using unat_u8_bound [of x] unat_u8_bound [of y] unat_u8_bound [of z]
    by (simp add: join del: unat_u8_bound)
  moreover have "HOST_c2l_be c p = push_bit 24 (ucast (c ! p)) OR (push_bit 16 (ucast (c ! (p + 1))) OR
      (push_bit 8 (ucast (c ! (p + 2))) OR ucast (c ! (p + 3))))"
    by (simp add: HOST_c2l_be_def Let_def or.assoc)
  ultimately show "unat (HOST_c2l_le c p) = le_val [c ! p, c ! (p + 1), c ! (p + 2), c ! (p + 3)]"
    "unat (HOST_c2l_be c p) = be_val [c ! p, c ! (p + 1), c ! (p + 2), c ! (p + 3)]"
    by (simp_all add: join be_val_Cons)
qed

text \<open>The 32-bit words of a block, as numbers.\<close>

definition words_le :: "bytes \<Rightarrow> u32 list" where
  "words_le b = map (\<lambda>i. of_nat (le_val (take 4 (drop (4 * i) b)))) [0..<16]"

definition words_be :: "bytes \<Rightarrow> u32 list" where
  "words_be b = map (\<lambda>i. of_nat (be_val (take 4 (drop (4 * i) b)))) [0..<16]"

lemma take_4_drop:
  "p + 4 \<le> length b \<Longrightarrow> take 4 (drop p b) = [b ! p, b ! (p + 1), b ! (p + 2), b ! (p + 3)]"
  by (simp add: take_Suc_conv_app_nth numeral_eq_Suc)

lemma block_words:
  assumes "64 \<le> length b"
  shows "map (\<lambda>i. HOST_c2l_le b (4 * i)) [0..<16] = words_le b"
    and "map (\<lambda>i. HOST_c2l_be b (4 * i)) [0..<16] = words_be b"
proof -
  have "HOST_c2l_le b (4 * i) = of_nat (le_val (take 4 (drop (4 * i) b)))"
    "HOST_c2l_be b (4 * i) = of_nat (be_val (take 4 (drop (4 * i) b)))" if "i < 16" for i
  proof -
    have t: "take 4 (drop (4 * i) b) = [b ! (4 * i), b ! (4 * i + 1), b ! (4 * i + 2), b ! (4 * i + 3)]"
      using that assms by (intro take_4_drop) simp
    show "HOST_c2l_le b (4 * i) = of_nat (le_val (take 4 (drop (4 * i) b)))"
      "HOST_c2l_be b (4 * i) = of_nat (be_val (take 4 (drop (4 * i) b)))"
      unfolding t by (rule unat_eq_of_nat, rule unat_HOST_c2l)+
  qed
  then show "map (\<lambda>i. HOST_c2l_le b (4 * i)) [0..<16] = words_le b"
    "map (\<lambda>i. HOST_c2l_be b (4 * i)) [0..<16] = words_be b"
    by (simp_all add: words_le_def words_be_def)
qed

text \<open>What the state of the digest is before a block does not matter to the words read.\<close>

lemma absorb_cong:
  "(\<And>s b. length b = c \<Longrightarrow> f s b = g s b) \<Longrightarrow> absorb f c s m = absorb g c s m"
proof (induction f c s m rule: absorb.induct)
  case (1 f c s m)
  then show ?case by (simp add: absorb.simps [of _ c s m])
qed

lemma absorb_invariant:
  "P s \<Longrightarrow> (\<And>s b. P s \<Longrightarrow> P (compress s b)) \<Longrightarrow> P (absorb compress c s m)"
proof (induction compress c s m rule: absorb.induct)
  case (1 compress c s m)
  then show ?case by (subst absorb.simps) simp
qed

text \<open>Padding and length of a message of \<open>n\<close> bytes (RFC 1321 3.1 and 3.2, FIPS 180-4 5.1.1).\<close>

definition md_padding :: "bool \<Rightarrow> nat \<Rightarrow> bytes" where
  "md_padding big_endian n =
     0x80 # replicate ((119 - n mod 64) mod 64) 0 @
     (if big_endian then be_bytes 8 (8 * n) else le_bytes 8 (8 * n))"

lemma HASH_CBLOCK [simp]: "HASH_CBLOCK = 64"
  by (simp add: HASH_CBLOCK_def)

lemma length_HOST_l2c [simp]: "length (HOST_l2c_be l) = 4" "length (HOST_l2c_le l) = 4"
  by (simp_all add: HOST_l2c_be_def HOST_l2c_le_def)

lemma ucast_and_ff: "(ucast (x AND 0xff :: u32) :: u8) = ucast x"
  using unat_and_mask [of x 8] by (simp add: mask_eq_exp_minus_1 word_unat_eq_iff unat_ucast_mod)

lemma HOST_l2c_bytes: "HOST_l2c_be l = be_bytes 4 (unat l)" "HOST_l2c_le l = le_bytes 4 (unat l)"
  by (simp_all add: HOST_l2c_be_def HOST_l2c_le_def ucast_and_ff le_bytes_def be_bytes_words)

lemma be_bytes_split: "be_bytes (m + n) v = be_bytes m (v div 256 ^ n) @ be_bytes n v"
  by (induction n arbitrary: v) (simp_all add: div_mult2_eq mult.commute)

lemma be_bytes_mod: "be_bytes n (v mod 256 ^ n) = be_bytes n v"
  using be_bytes_be_val [of "be_bytes n v" n] by simp

lemma two_digits_mod:
  fixes w :: nat assumes "w < K"
  shows "(h * K + w) mod (K * K) = h mod K * K + w"
proof -
  have "(h * K + w) mod (K * K) = K * ((h * K + w) div K mod K) + (h * K + w) mod K"
    by (rule mod_mult2_eq)
  also have "(h * K + w) div K = h" using assms by (simp add: add.commute)
  also have "(h * K + w) mod K = w" using assms by simp
  finally show ?thesis by (simp only: mult.commute)
qed

lemma two_words_mod:
  fixes w :: u32
  shows "(h * 2 ^ 32 + unat w) mod 2 ^ 64 = h mod 2 ^ 32 * 2 ^ 32 + unat w"
  using two_digits_mod [of "unat w" "2 ^ 32" h] unsigned_less [of w, where ?'a = nat]
  by (simp flip: power_add)

lemma md_bits_bytes:
  assumes "md_bits c = 8 * n mod 2 ^ 64"
  shows "HOST_l2c_be (md_Nh c) @ HOST_l2c_be (md_Nl c) = be_bytes 8 (8 * n)"
    and "HOST_l2c_le (md_Nl c) @ HOST_l2c_le (md_Nh c) = le_bytes 8 (8 * n)"
proof -
  have l: "unat (md_Nl c) < 256 ^ 4" using unsigned_less [of "md_Nl c", where ?'a = nat] by simp
  have "be_bytes 8 (8 * n) = be_bytes (4 + 4) (md_bits c)"
    using be_bytes_mod [of 8 "8 * n"] by (simp add: assms)
  also have "\<dots> = be_bytes 4 (md_bits c div 256 ^ 4) @ be_bytes 4 (md_bits c mod 256 ^ 4)"
    by (simp only: be_bytes_split be_bytes_mod)
  also have "md_bits c div 256 ^ 4 = unat (md_Nh c)" using l by (simp add: md_bits_def)
  also have "md_bits c mod 256 ^ 4 = unat (md_Nl c)" using l by (simp add: md_bits_def)
  finally have e: "be_bytes 8 (8 * n) = be_bytes 4 (unat (md_Nh c)) @ be_bytes 4 (unat (md_Nl c))" .
  then show "HOST_l2c_be (md_Nh c) @ HOST_l2c_be (md_Nl c) = be_bytes 8 (8 * n)"
    by (simp add: HOST_l2c_bytes)
  show "HOST_l2c_le (md_Nl c) @ HOST_l2c_le (md_Nh c) = le_bytes 8 (8 * n)"
    by (simp add: HOST_l2c_bytes le_bytes_def e)
qed

lemma md_bits_update:
  assumes "md_bits c = 8 * n mod 2 ^ 64"
    and l: "l = md_Nl c + push_bit 3 (of_nat k)"
    and h: "h = (if l < md_Nl c then md_Nh c + 1 else md_Nh c) + of_nat (k div 2 ^ 29)"
  shows "unat h * 2 ^ 32 + unat l = 8 * (n + k) mod 2 ^ 64"
proof -
  define a b p q where "a = unat (md_Nl c)" and "b = unat (md_Nh c)" and "p = 8 * k mod 2 ^ 32" and "q = k div 2 ^ 29"
  have bounds: "a < 2 ^ 32" "p < 2 ^ 32"
    using unsigned_less [of "md_Nl c", where ?'a = nat] by (simp_all add: a_def p_def)
  have "unat (push_bit 3 (of_nat k) :: u32) = p"
    by (simp add: p_def unat_push_bit unat_of_nat mod_mult_right_eq mult.commute)
  then have ul: "unat l = (a + p) mod 2 ^ 32" by (simp add: l a_def unat_word_ariths)
  define carry :: nat where "carry = (if l < md_Nl c then 1 else 0)"
  have carry: "a + p = carry * 2 ^ 32 + unat l"
    using bounds by (cases "a + p < 2 ^ 32") (auto simp: carry_def word_less_nat_alt ul a_def [symmetric] le_mod_geq not_less)
  have "unat h = (b + carry + q) mod 2 ^ 32"
    by (simp add: h carry_def b_def q_def unat_word_ariths unat_of_nat mod_simps)
  then have "unat h * 2 ^ 32 + unat l = ((b + carry + q) * 2 ^ 32 + unat l) mod 2 ^ 64"
    by (simp only: two_words_mod)
  also have "(b + carry + q) * 2 ^ 32 + unat l = (b * 2 ^ 32 + a) + (q * 2 ^ 32 + p)"
    using carry by (simp add: algebra_simps)
  also have "q * 2 ^ 32 + p = 8 * k"
    using div_mult_mod_eq [of "8 * k" "2 ^ 32"] by (simp add: q_def p_def)
  also have "b * 2 ^ 32 + a = md_bits c"
    by (simp add: md_bits_def a_def b_def)
  also have "(md_bits c + 8 * k) mod 2 ^ 64 = (8 * n + 8 * k) mod 2 ^ 64"
    unfolding assms(1) by (rule mod_add_left_eq)
  finally show ?thesis by (simp only: distrib_left)
qed

section \<open>Incremental hashing\<close>

text \<open>
  What the users of a digest rely on, whatever its context looks like inside: updates append
  to the message absorbed, and the digest is a function of that message alone.
\<close>

locale incremental_hash =
  fixes absorbed :: "'c \<Rightarrow> bytes \<Rightarrow> bool"
    and init :: 'c
    and update :: "'c \<Rightarrow> bytes \<Rightarrow> 'c"
    and final :: "'c \<Rightarrow> 'd"
    and digest :: "bytes \<Rightarrow> 'd"
  assumes init_absorbed: "absorbed init []"
    and update_absorbed: "absorbed c m \<Longrightarrow> absorbed (update c d) (m @ d)"
    and final_absorbed: "absorbed c m \<Longrightarrow> final c = digest m"
begin

lemma updates_absorbed: "absorbed c m \<Longrightarrow> absorbed (foldl update c ds) (m @ concat ds)"
proof (induction ds arbitrary: c m)
  case (Cons d ds)
  then show ?case using Cons.IH [OF update_absorbed [OF Cons.prems, of d]] by simp
qed simp

lemma digest_of_pieces: "final (foldl update init ds) = digest (concat ds)"
  using final_absorbed updates_absorbed [OF init_absorbed] by fastforce

lemma one_shot: "final (update init d) = digest d"
  using digest_of_pieces [of "[d]"] by simp

end

section \<open>The template absorbs\<close>

text \<open>
  The contract of a block function: \<open>n\<close> blocks are absorbed one after the other. The laws of
  the template follow from it alone.
\<close>

locale block_iteration =
  fixes block :: "'w block_function" and compress :: "'w list \<Rightarrow> bytes \<Rightarrow> 'w list" and cblock :: nat
  assumes cblock_pos: "0 < cblock"
    and block_absorb: "0 < n \<Longrightarrow> n * cblock \<le> length d \<Longrightarrow>
      block s d n = absorb compress cblock s (take (n * cblock) d)"
begin

lemma block_one: "length d = cblock \<Longrightarrow> block s d (Suc 0) = compress s d"
  using block_absorb [of 1 d s] cblock_pos by (simp add: absorb_one)

lemma block_all:
  "cblock \<le> length d \<Longrightarrow> block s d (length d div cblock) = absorb compress cblock s d"
  using block_absorb [of "length d div cblock" d s] absorb_take [OF cblock_pos, of compress s d] cblock_pos
  by (simp add: div_greater_zero_iff)

end

lemma leftover_fill:
  "length b = c - length m mod c \<Longrightarrow> 0 < c \<Longrightarrow> leftover c (m @ b @ d) = leftover c d"
  using leftover_append [of c m "b @ d"] leftover_block [of c "leftover c m @ b" d] by simp

lemma absorb_fill:
  "length b = c - length m mod c \<Longrightarrow> 0 < c \<Longrightarrow>
    absorb compress c s (m @ b @ d) =
      absorb compress c (compress (absorb compress c s m) (leftover c m @ b)) d"
  using absorb_append [of c compress s m "b @ d"]
    absorb_block [of c "leftover c m @ b" compress "absorb compress c s m" d] by simp

locale md32_template = block_iteration block compress HASH_CBLOCK
  for block :: "u32 block_function" and compress
begin

lemma update_blocks:
  assumes "length (md_data c) = 64" "md_num c = 0"
  shows "md_h (update_blocks block d c) = absorb compress 64 (md_h c) d"
    and "md_num (update_blocks block d c) = length d mod 64"
    and "length (md_data (update_blocks block d c)) = 64"
    and "take (length d mod 64) (md_data (update_blocks block d c)) = leftover 64 d"
    and "md_bits (update_blocks block d c) = md_bits c"
proof -
  define r where "r = leftover 64 d"
  have r: "length r = length d mod 64" by (simp add: r_def)
  define c1 where "c1 = c\<lparr>md_h := absorb compress 64 (md_h c) d\<rparr>"
  have eq: "update_blocks block d c =
      (if r = [] then c1 else c1\<lparr>md_num := length r, md_data := mem_write (md_data c) 0 r\<rparr>)"
  proof (cases "length d div 64 > 0")
    case True
    then have "64 \<le> length d" by (simp add: div_greater_zero_iff)
    then show ?thesis using True block_all [of d "md_h c"]
      by (simp add: update_blocks_def c1_def r_def leftover_def Let_def)
  next
    case False
    then have "length d < 64" by (simp add: div_greater_zero_iff)
    then show ?thesis by (simp add: update_blocks_def c1_def r_def)
  qed
  have "length r \<le> 64" unfolding r by (simp add: less_imp_le)
  then show "md_h (update_blocks block d c) = absorb compress 64 (md_h c) d"
    "md_num (update_blocks block d c) = length d mod 64"
    "length (md_data (update_blocks block d c)) = 64"
    "take (length d mod 64) (md_data (update_blocks block d c)) = leftover 64 d"
    "md_bits (update_blocks block d c) = md_bits c"
    using assms r by (auto simp: eq c1_def md_bits_def mem_write_def r_def [symmetric])
qed

lemma update_absorbed:
  assumes c: "absorbed32 compress h0 c m"
  shows "absorbed32 compress h0 (HASH_UPDATE block c d) (m @ d)"
proof (cases "d = []")
  case True
  then show ?thesis using c by (simp add: HASH_UPDATE_def)
next
  case False
  define k where "k = length m mod 64"
  note c' = c [unfolded absorbed32_def HASH_CBLOCK]
  define l where "l = md_Nl c + push_bit 3 (of_nat (length d))"
  define h where "h = (if l < md_Nl c then md_Nh c + 1 else md_Nh c) + of_nat (length d div 2 ^ 29)"
  define c1 where "c1 = c\<lparr>md_Nh := h, md_Nl := l\<rparr>"
  have bits: "md_bits c1 = 8 * length (m @ d) mod 2 ^ 64"
    using md_bits_update [OF _ l_def h_def, of "length m"] c' by (simp add: md_bits_def c1_def)
  have c1: "md_h c1 = absorb compress 64 h0 m" "md_num c1 = k" "length (md_data c1) = 64"
      "take k (md_data c1) = leftover 64 m"
    using c' by (auto simp: c1_def k_def)
  have k: "k < 64" "k \<le> length (md_data c1)" using c1(3) by (simp_all add: k_def less_imp_le)
  have upd: "HASH_UPDATE block c d =
      (if k \<noteq> 0 then
         if 64 \<le> length d + k then
           update_blocks block (drop (64 - k) d)
             (c1\<lparr>md_h := block (md_h c1) (mem_write (md_data c1) k (take (64 - k) d)) 1,
                 md_num := 0, md_data := replicate 64 0\<rparr>)
         else c1\<lparr>md_data := mem_write (md_data c1) k d, md_num := k + length d\<rparr>
       else update_blocks block d c1)"
  proof -
    have n: "md_num c = k" "0 < length d" using c' False by (simp_all add: k_def)
    have ge: "(64 \<le> length d \<or> 64 \<le> length d + k) = (64 \<le> length d + k)" by auto
    show ?thesis
      by (cases "l < md_Nl c")
        (use n ge in \<open>simp_all add: HASH_UPDATE_def Let_def c1_def h_def flip: l_def\<close>)
  qed
  consider "k = 0" | "k \<noteq> 0" "\<not> 64 \<le> length d + k" | "k \<noteq> 0" "64 \<le> length d + k" by blast
  then show ?thesis
  proof cases
    case 1
    then have m: "length m mod 64 = 0" "leftover 64 m = []" using c1 by (simp_all add: k_def)
    have "absorb compress 64 h0 (m @ d) = absorb compress 64 (absorb compress 64 h0 m) d"
      "leftover 64 (m @ d) = leftover 64 d"
      using absorb_append [of 64 compress h0 m d] leftover_append [of 64 m d] m by simp_all
    moreover have "(length m + length d) mod 64 = length d mod 64" 
      using m(1) mod_add_left_eq [of "length m" 64 "length d"] by simp
    ultimately show ?thesis
      using 1 c1 bits update_blocks [of c1 d] by (simp add: absorbed32_def upd)
  next
    case 2
    then have s: "length (leftover 64 m @ d) < 64" by (simp add: k_def)
    have "absorb compress 64 h0 (m @ d) = absorb compress 64 h0 m" "leftover 64 (m @ d) = leftover 64 m @ d"
      using absorb_append [of 64 compress h0 m d] leftover_append [of 64 m d] s by simp_all
    moreover have "(length m + length d) mod 64 = k + length d"
      using s by (metis k_def length_append length_leftover mod_add_left_eq mod_less)
    ultimately show ?thesis
      using 2 c1 bits k k_def [symmetric] by (simp add: absorbed32_def upd md_bits_def mem_write_def)
  next
    case 3
    define b r where "b = take (64 - k) d" and "r = drop (64 - k) d"
    have d: "d = b @ r" "length b = 64 - length m mod 64" using 3 by (simp_all add: b_def r_def k_def)
    have full: "mem_write (md_data c1) k b = leftover 64 m @ b"
      using c1 d(2) k by (simp add: mem_write_def k_def [symmetric])
    have abs: "absorb compress 64 h0 (m @ d) = absorb compress 64 (compress (md_h c1) (leftover 64 m @ b)) r"
      "leftover 64 (m @ d) = leftover 64 r"
      using absorb_fill [OF d(2), of compress h0 r] leftover_fill [OF d(2), of r] c1(1) d(1) by simp_all
    have one: "block (md_h c1) (leftover 64 m @ b) 1 = compress (md_h c1) (leftover 64 m @ b)"
      using block_one [of "leftover 64 m @ b"] d(2) by simp
    have "k + length d = 64 + length r" using d(2) k(1) by (simp add: d(1) k_def)
    then have n: "(length m + length d) mod 64 = length r mod 64"
      using mod_add_left_eq [of "length m" 64 "length d"] by (simp add: k_def)
    let ?c = "c1\<lparr>md_h := compress (md_h c1) (leftover 64 m @ b), md_num := 0, md_data := replicate 64 0\<rparr>"
    have "HASH_UPDATE block c d = update_blocks block r ?c"
      using 3 by (simp add: upd full one [unfolded One_nat_def] flip: b_def r_def)
    then show ?thesis
      using update_blocks [of ?c r] bits abs n by (simp add: absorbed32_def md_bits_def)
  qed
qed

text \<open>
  \<open>HASH_FINAL\<close> has absorbed the message and its padding when it takes the digest, and
  leaves a context that holds nothing of the message but the chaining value.
\<close>

lemma final_absorbed:
  assumes c: "absorbed32 compress h0 c m"
  shows "HASH_FINAL block be out c =
    (let c' = c\<lparr>md_h := absorb compress 64 h0 (m @ md_padding be (length m)), md_num := 0,
        md_data := replicate 64 0\<rparr> in (out c', c'))"
proof -
  define k where "k = length m mod 64"
  define bits where "bits = (if be then be_bytes 8 (8 * length m) else le_bytes 8 (8 * length m))"
  note c' = c [unfolded absorbed32_def HASH_CBLOCK]
  have num: "md_num c = k" and len: "length (md_data c) = 64" and rest: "take k (md_data c) = leftover 64 m"
    and h: "md_h c = absorb compress 64 h0 m"
    using c' by (auto simp: k_def)
  have k: "k < 64" by (simp add: k_def)
  have bits_len: "length bits = 8" by (simp add: bits_def)
  have code_bits: "be \<Longrightarrow> HOST_l2c_be (md_Nh c) @ HOST_l2c_be (md_Nl c) = bits"
    "\<not> be \<Longrightarrow> HOST_l2c_le (md_Nl c) @ HOST_l2c_le (md_Nh c) = bits"
    using md_bits_bytes [of c "length m"] c' by (simp_all add: bits_def)
  have one: "block s b 1 = compress s b" if "length b = 64" for s b
    using block_one [of b s] that by simp
  have first: "(md_data c)[k := 0x80] = leftover 64 m @ 0x80 # drop (k + 1) (md_data c)"
    using len k rest by (simp add: upd_conv_take_nth_drop)
  show ?thesis
  proof (cases "k < 56")
    case True
    have e: "56 - k = Suc (55 - k)" using True by simp
    have "(119 - k) mod 64 = 55 - k" using True le_mod_geq [of 64 "119 - k"] by simp
    then have pad: "md_padding be (length m) = 0x80 # replicate (55 - k) 0 @ bits"
      by (simp add: md_padding_def k_def [symmetric] bits_def)
    have "absorb compress 64 h0 (m @ md_padding be (length m)) =
        compress (absorb compress 64 h0 m) (leftover 64 m @ 0x80 # replicate (55 - k) 0 @ bits)"
      using absorb_fill [of "md_padding be (length m)" 64 m compress h0 "[]"] True bits_len
      by (simp add: pad k_def [symmetric])
    moreover have "mem_write (mem_write ((md_data c)[k := 0x80]) (k + 1) (replicate (56 - (k + 1)) 0)) 56 bits =
        leftover 64 m @ 0x80 # replicate (55 - k) 0 @ bits"
      using True len bits_len by (simp add: first mem_write_def k_def [symmetric] e)
    ultimately show ?thesis
      using True num h one [of "leftover 64 m @ 0x80 # replicate (55 - k) 0 @ bits"] bits_len
      by (cases be) (simp_all add: HASH_FINAL_def Let_def code_bits k_def [symmetric])
  next
    case False
    define b1 b2 where "b1 = leftover 64 m @ 0x80 # replicate (63 - k) 0" and "b2 = replicate 56 (0 :: u8) @ bits"
    have "(119 - k) mod 64 = 119 - k" using False by simp
    then have "md_padding be (length m) = 0x80 # replicate (63 - k + 56) 0 @ bits"
      using k False by (simp add: md_padding_def k_def [symmetric] bits_def)
    then have pad: "md_padding be (length m) = (0x80 # replicate (63 - k) 0) @ b2"
      by (simp only: replicate_add b2_def append.simps append_assoc)
    have b: "length b1 = 64" "length b2 = 64" using k bits_len by (simp_all add: b1_def b2_def k_def [symmetric])
    have "absorb compress 64 h0 (m @ md_padding be (length m)) = absorb compress 64 (compress (absorb compress 64 h0 m) b1) b2"
      unfolding pad b1_def using k by (intro absorb_fill) (simp_all add: k_def [symmetric])
    then have final: "absorb compress 64 h0 (m @ md_padding be (length m)) = compress (compress (md_h c) b1) b2"
      using b(2) by (simp add: absorb_one h)
    have w1: "mem_write ((md_data c)[k := 0x80]) (k + 1) (replicate (64 - (k + 1)) 0) = b1"
      using k len bits_len by (simp add: first mem_write_def k_def [symmetric] b1_def)
    have w2: "mem_write (mem_write b1 0 (replicate 56 0)) 56 bits = b2"
      using b bits_len by (simp add: mem_write_def b2_def)
    show ?thesis
      unfolding final using False num w1 w2 one [OF b(1)] one [OF b(2)]
      by (cases be) (simp_all add: HASH_FINAL_def Let_def code_bits)
  qed
qed

text \<open>
  An instance of the template is an incremental hash. What the context holds beyond the
  template's fields, \<open>x\<close>, is set by the initialisation and decides how the words are written.
\<close>

lemma incremental:
  assumes "absorbed32 compress h0 init []" and "md32.more init = x" and "P h0"
    and "\<And>s b. P s \<Longrightarrow> P (compress s b)"
    and out: "\<And>c. md32.more c = x \<Longrightarrow> P (md_h c) \<Longrightarrow> out c = str (md_h c)"
  shows "incremental_hash (\<lambda>c m. absorbed32 compress h0 c m \<and> md32.more c = x) init (HASH_UPDATE block)
    (\<lambda>c. fst (HASH_FINAL block be out c))
    (\<lambda>m. str (absorb compress 64 h0 (m @ md_padding be (length m))))"
proof unfold_locales
  fix c m assume c: "absorbed32 compress h0 c m \<and> md32.more c = x"
  then have abs: "absorbed32 compress h0 c m" by simp
  from c show "absorbed32 compress h0 (HASH_UPDATE block c d) (m @ d) \<and> md32.more (HASH_UPDATE block c d) = x" for d
    using update_absorbed [OF abs] by simp
  have "P (absorb compress 64 h0 (m @ md_padding be (length m)))"
    by (rule absorb_invariant) (use assms(3,4) in simp_all)
  then show "fst (HASH_FINAL block be out c) = str (absorb compress 64 h0 (m @ md_padding be (length m)))"
    using c out by (simp add: final_absorbed [OF abs] Let_def)
qed (use assms(1,2) in simp)

end

text \<open>A block function that calls its step once per block meets the contract.\<close>

lemma iterate_absorb:
  assumes c: "0 < c" and "\<And>s d. c \<le> length d \<Longrightarrow> compress s (take c d) = compress s d"
    and "\<And>s d. block s d 0 = s" and "\<And>s d n. block s d (Suc n) = block (compress s d) (drop c d) n"
    and "n * c \<le> length d"
  shows "block s d n = absorb compress c s (take (n * c) d)"
  using assms(5)
proof (induction n arbitrary: s d)
  case 0
  then show ?case using c assms(3) by simp
next
  case (Suc n)
  then have d: "n * c \<le> length (drop c d)" "c \<le> length d" by simp_all
  have "take (Suc n * c) d = take c d @ take (n * c) (drop c d)" by (simp add: take_add)
  then have "absorb compress c s (take (Suc n * c) d) = absorb compress c (compress s d) (take (n * c) (drop c d))"
    using d(2) c assms(2) by (simp add: absorb_block)
  then show ?case by (simp only: Suc.IH [OF d(1)] assms(4))
qed

end
