(* ===== verification/Md.thy ===== *)
theory Md
  imports Digest
begin

text \<open>
  \<open>crypto/fipsmodule/md4/md4.c\<close> and \<open>crypto/fipsmodule/md5/md5.c\<close>: the round functions,
  line by line, and the instances of the digest template.
\<close>

section \<open>MD4\<close>

definition MD4_F :: "u32 \<Rightarrow> u32 \<Rightarrow> u32 \<Rightarrow> u32" where
  "MD4_F b c d = ((c XOR d) AND b) XOR d"

definition MD4_G :: "u32 \<Rightarrow> u32 \<Rightarrow> u32 \<Rightarrow> u32" where
  "MD4_G b c d = (b AND c) OR (b AND d) OR (c AND d)"

definition MD4_H :: "u32 \<Rightarrow> u32 \<Rightarrow> u32 \<Rightarrow> u32" where
  "MD4_H b c d = b XOR c XOR d"

definition MD4_R0 :: "u32 \<Rightarrow> u32 \<Rightarrow> u32 \<Rightarrow> u32 \<Rightarrow> u32 \<Rightarrow> nat \<Rightarrow> u32 \<Rightarrow> u32" where
  "MD4_R0 a b c d k s t = ROTATE (a + (k + t + MD4_F b c d)) s"

definition MD4_R1 :: "u32 \<Rightarrow> u32 \<Rightarrow> u32 \<Rightarrow> u32 \<Rightarrow> u32 \<Rightarrow> nat \<Rightarrow> u32 \<Rightarrow> u32" where
  "MD4_R1 a b c d k s t = ROTATE (a + (k + t + MD4_G b c d)) s"

definition MD4_R2 :: "u32 \<Rightarrow> u32 \<Rightarrow> u32 \<Rightarrow> u32 \<Rightarrow> u32 \<Rightarrow> nat \<Rightarrow> u32 \<Rightarrow> u32" where
  "MD4_R2 a b c d k s t = ROTATE (a + (k + t + MD4_H b c d)) s"

definition md4_round0 :: "u32 list \<Rightarrow> u32 \<times> u32 \<times> u32 \<times> u32 \<Rightarrow> u32 \<times> u32 \<times> u32 \<times> u32" where
  "md4_round0 X = (\<lambda>(A, B, C, D).
     (let
          A = MD4_R0 A B C D (X ! 0) 3 0;
          D = MD4_R0 D A B C (X ! 1) 7 0;
          C = MD4_R0 C D A B (X ! 2) 11 0;
          B = MD4_R0 B C D A (X ! 3) 19 0;
          A = MD4_R0 A B C D (X ! 4) 3 0;
          D = MD4_R0 D A B C (X ! 5) 7 0;
          C = MD4_R0 C D A B (X ! 6) 11 0;
          B = MD4_R0 B C D A (X ! 7) 19 0;
          A = MD4_R0 A B C D (X ! 8) 3 0;
          D = MD4_R0 D A B C (X ! 9) 7 0;
          C = MD4_R0 C D A B (X ! 10) 11 0;
          B = MD4_R0 B C D A (X ! 11) 19 0;
          A = MD4_R0 A B C D (X ! 12) 3 0;
          D = MD4_R0 D A B C (X ! 13) 7 0;
          C = MD4_R0 C D A B (X ! 14) 11 0;
          B = MD4_R0 B C D A (X ! 15) 19 0
      in (A, B, C, D)))"

definition md4_round1 :: "u32 list \<Rightarrow> u32 \<times> u32 \<times> u32 \<times> u32 \<Rightarrow> u32 \<times> u32 \<times> u32 \<times> u32" where
  "md4_round1 X = (\<lambda>(A, B, C, D).
     (let
          A = MD4_R1 A B C D (X ! 0) 3 0x5A827999;
          D = MD4_R1 D A B C (X ! 4) 5 0x5A827999;
          C = MD4_R1 C D A B (X ! 8) 9 0x5A827999;
          B = MD4_R1 B C D A (X ! 12) 13 0x5A827999;
          A = MD4_R1 A B C D (X ! 1) 3 0x5A827999;
          D = MD4_R1 D A B C (X ! 5) 5 0x5A827999;
          C = MD4_R1 C D A B (X ! 9) 9 0x5A827999;
          B = MD4_R1 B C D A (X ! 13) 13 0x5A827999;
          A = MD4_R1 A B C D (X ! 2) 3 0x5A827999;
          D = MD4_R1 D A B C (X ! 6) 5 0x5A827999;
          C = MD4_R1 C D A B (X ! 10) 9 0x5A827999;
          B = MD4_R1 B C D A (X ! 14) 13 0x5A827999;
          A = MD4_R1 A B C D (X ! 3) 3 0x5A827999;
          D = MD4_R1 D A B C (X ! 7) 5 0x5A827999;
          C = MD4_R1 C D A B (X ! 11) 9 0x5A827999;
          B = MD4_R1 B C D A (X ! 15) 13 0x5A827999
      in (A, B, C, D)))"

definition md4_round2 :: "u32 list \<Rightarrow> u32 \<times> u32 \<times> u32 \<times> u32 \<Rightarrow> u32 \<times> u32 \<times> u32 \<times> u32" where
  "md4_round2 X = (\<lambda>(A, B, C, D).
     (let
          A = MD4_R2 A B C D (X ! 0) 3 0x6ED9EBA1;
          D = MD4_R2 D A B C (X ! 8) 9 0x6ED9EBA1;
          C = MD4_R2 C D A B (X ! 4) 11 0x6ED9EBA1;
          B = MD4_R2 B C D A (X ! 12) 15 0x6ED9EBA1;
          A = MD4_R2 A B C D (X ! 2) 3 0x6ED9EBA1;
          D = MD4_R2 D A B C (X ! 10) 9 0x6ED9EBA1;
          C = MD4_R2 C D A B (X ! 6) 11 0x6ED9EBA1;
          B = MD4_R2 B C D A (X ! 14) 15 0x6ED9EBA1;
          A = MD4_R2 A B C D (X ! 1) 3 0x6ED9EBA1;
          D = MD4_R2 D A B C (X ! 9) 9 0x6ED9EBA1;
          C = MD4_R2 C D A B (X ! 5) 11 0x6ED9EBA1;
          B = MD4_R2 B C D A (X ! 13) 15 0x6ED9EBA1;
          A = MD4_R2 A B C D (X ! 3) 3 0x6ED9EBA1;
          D = MD4_R2 D A B C (X ! 11) 9 0x6ED9EBA1;
          C = MD4_R2 C D A B (X ! 7) 11 0x6ED9EBA1;
          B = MD4_R2 B C D A (X ! 15) 15 0x6ED9EBA1
      in (A, B, C, D)))"

definition md4_rounds :: "u32 list \<Rightarrow> u32 \<times> u32 \<times> u32 \<times> u32 \<Rightarrow> u32 \<times> u32 \<times> u32 \<times> u32" where
  "md4_rounds X st = md4_round2 X (md4_round1 X (md4_round0 X st))"

definition md4_block :: "u32 list \<Rightarrow> bytes \<Rightarrow> u32 list" where
  "md4_block state data =
     (let X = map (\<lambda>i. HOST_c2l_le data (4 * i)) [0..<16];
          (A, B, C, D) = md4_rounds X (state ! 0, state ! 1, state ! 2, state ! 3)
      in [state ! 0 + A, state ! 1 + B, state ! 2 + C, state ! 3 + D])"

primrec md4_block_data_order_loop :: "nat \<Rightarrow> u32 list \<Rightarrow> bytes \<Rightarrow> u32 list" where
  "md4_block_data_order_loop 0 state data = state"
| "md4_block_data_order_loop (Suc num) state data =
     md4_block_data_order_loop num (md4_block state data) (drop HASH_CBLOCK data)"

definition md4_block_data_order :: "u32 block_function" where
  "md4_block_data_order state data num = md4_block_data_order_loop num state data"

definition MD4_MAKE_STRING :: "md32 \<Rightarrow> bytes" where
  "MD4_MAKE_STRING c =
     HOST_l2c_le (md_h c ! 0) @ HOST_l2c_le (md_h c ! 1) @ HOST_l2c_le (md_h c ! 2) @ HOST_l2c_le (md_h c ! 3)"

definition MD4_Init :: md32 where
  "MD4_Init =
     \<lparr>md_h = [0x67452301, 0xefcdab89, 0x98badcfe, 0x10325476],
       md_Nl = 0, md_Nh = 0, md_data = replicate HASH_CBLOCK 0, md_num = 0\<rparr>"

definition MD4_Update :: "md32 \<Rightarrow> bytes \<Rightarrow> md32" where
  "MD4_Update = HASH_UPDATE md4_block_data_order"

definition MD4_Transform :: "md32 \<Rightarrow> bytes \<Rightarrow> md32" where
  "MD4_Transform = HASH_TRANSFORM md4_block_data_order"

definition MD4_Final :: "md32 \<Rightarrow> bytes \<times> md32" where
  "MD4_Final = HASH_FINAL md4_block_data_order False MD4_MAKE_STRING"

definition MD4 :: "bytes \<Rightarrow> bytes" where
  "MD4 data = (let ctx = MD4_Init; ctx = MD4_Update ctx data; (out, ctx) = MD4_Final ctx in out)"

section \<open>MD5\<close>

definition MD5_F :: "u32 \<Rightarrow> u32 \<Rightarrow> u32 \<Rightarrow> u32" where
  "MD5_F b c d = ((c XOR d) AND b) XOR d"

definition MD5_G :: "u32 \<Rightarrow> u32 \<Rightarrow> u32 \<Rightarrow> u32" where
  "MD5_G b c d = ((b XOR c) AND d) XOR c"

definition MD5_H :: "u32 \<Rightarrow> u32 \<Rightarrow> u32 \<Rightarrow> u32" where
  "MD5_H b c d = b XOR c XOR d"

definition MD5_I :: "u32 \<Rightarrow> u32 \<Rightarrow> u32 \<Rightarrow> u32" where
  "MD5_I b c d = ((NOT d) OR b) XOR c"

definition MD5_R0 :: "u32 \<Rightarrow> u32 \<Rightarrow> u32 \<Rightarrow> u32 \<Rightarrow> u32 \<Rightarrow> nat \<Rightarrow> u32 \<Rightarrow> u32" where
  "MD5_R0 a b c d k s t = ROTATE (a + (k + t + MD5_F b c d)) s + b"

definition MD5_R1 :: "u32 \<Rightarrow> u32 \<Rightarrow> u32 \<Rightarrow> u32 \<Rightarrow> u32 \<Rightarrow> nat \<Rightarrow> u32 \<Rightarrow> u32" where
  "MD5_R1 a b c d k s t = ROTATE (a + (k + t + MD5_G b c d)) s + b"

definition MD5_R2 :: "u32 \<Rightarrow> u32 \<Rightarrow> u32 \<Rightarrow> u32 \<Rightarrow> u32 \<Rightarrow> nat \<Rightarrow> u32 \<Rightarrow> u32" where
  "MD5_R2 a b c d k s t = ROTATE (a + (k + t + MD5_H b c d)) s + b"

definition MD5_R3 :: "u32 \<Rightarrow> u32 \<Rightarrow> u32 \<Rightarrow> u32 \<Rightarrow> u32 \<Rightarrow> nat \<Rightarrow> u32 \<Rightarrow> u32" where
  "MD5_R3 a b c d k s t = ROTATE (a + (k + t + MD5_I b c d)) s + b"

definition md5_round0 :: "u32 list \<Rightarrow> u32 \<times> u32 \<times> u32 \<times> u32 \<Rightarrow> u32 \<times> u32 \<times> u32 \<times> u32" where
  "md5_round0 X = (\<lambda>(A, B, C, D).
     (let
          A = MD5_R0 A B C D (X ! 0) 7 0xd76aa478;
          D = MD5_R0 D A B C (X ! 1) 12 0xe8c7b756;
          C = MD5_R0 C D A B (X ! 2) 17 0x242070db;
          B = MD5_R0 B C D A (X ! 3) 22 0xc1bdceee;
          A = MD5_R0 A B C D (X ! 4) 7 0xf57c0faf;
          D = MD5_R0 D A B C (X ! 5) 12 0x4787c62a;
          C = MD5_R0 C D A B (X ! 6) 17 0xa8304613;
          B = MD5_R0 B C D A (X ! 7) 22 0xfd469501;
          A = MD5_R0 A B C D (X ! 8) 7 0x698098d8;
          D = MD5_R0 D A B C (X ! 9) 12 0x8b44f7af;
          C = MD5_R0 C D A B (X ! 10) 17 0xffff5bb1;
          B = MD5_R0 B C D A (X ! 11) 22 0x895cd7be;
          A = MD5_R0 A B C D (X ! 12) 7 0x6b901122;
          D = MD5_R0 D A B C (X ! 13) 12 0xfd987193;
          C = MD5_R0 C D A B (X ! 14) 17 0xa679438e;
          B = MD5_R0 B C D A (X ! 15) 22 0x49b40821
      in (A, B, C, D)))"

definition md5_round1 :: "u32 list \<Rightarrow> u32 \<times> u32 \<times> u32 \<times> u32 \<Rightarrow> u32 \<times> u32 \<times> u32 \<times> u32" where
  "md5_round1 X = (\<lambda>(A, B, C, D).
     (let
          A = MD5_R1 A B C D (X ! 1) 5 0xf61e2562;
          D = MD5_R1 D A B C (X ! 6) 9 0xc040b340;
          C = MD5_R1 C D A B (X ! 11) 14 0x265e5a51;
          B = MD5_R1 B C D A (X ! 0) 20 0xe9b6c7aa;
          A = MD5_R1 A B C D (X ! 5) 5 0xd62f105d;
          D = MD5_R1 D A B C (X ! 10) 9 0x02441453;
          C = MD5_R1 C D A B (X ! 15) 14 0xd8a1e681;
          B = MD5_R1 B C D A (X ! 4) 20 0xe7d3fbc8;
          A = MD5_R1 A B C D (X ! 9) 5 0x21e1cde6;
          D = MD5_R1 D A B C (X ! 14) 9 0xc33707d6;
          C = MD5_R1 C D A B (X ! 3) 14 0xf4d50d87;
          B = MD5_R1 B C D A (X ! 8) 20 0x455a14ed;
          A = MD5_R1 A B C D (X ! 13) 5 0xa9e3e905;
          D = MD5_R1 D A B C (X ! 2) 9 0xfcefa3f8;
          C = MD5_R1 C D A B (X ! 7) 14 0x676f02d9;
          B = MD5_R1 B C D A (X ! 12) 20 0x8d2a4c8a
      in (A, B, C, D)))"

definition md5_round2 :: "u32 list \<Rightarrow> u32 \<times> u32 \<times> u32 \<times> u32 \<Rightarrow> u32 \<times> u32 \<times> u32 \<times> u32" where
  "md5_round2 X = (\<lambda>(A, B, C, D).
     (let
          A = MD5_R2 A B C D (X ! 5) 4 0xfffa3942;
          D = MD5_R2 D A B C (X ! 8) 11 0x8771f681;
          C = MD5_R2 C D A B (X ! 11) 16 0x6d9d6122;
          B = MD5_R2 B C D A (X ! 14) 23 0xfde5380c;
          A = MD5_R2 A B C D (X ! 1) 4 0xa4beea44;
          D = MD5_R2 D A B C (X ! 4) 11 0x4bdecfa9;
          C = MD5_R2 C D A B (X ! 7) 16 0xf6bb4b60;
          B = MD5_R2 B C D A (X ! 10) 23 0xbebfbc70;
          A = MD5_R2 A B C D (X ! 13) 4 0x289b7ec6;
          D = MD5_R2 D A B C (X ! 0) 11 0xeaa127fa;
          C = MD5_R2 C D A B (X ! 3) 16 0xd4ef3085;
          B = MD5_R2 B C D A (X ! 6) 23 0x04881d05;
          A = MD5_R2 A B C D (X ! 9) 4 0xd9d4d039;
          D = MD5_R2 D A B C (X ! 12) 11 0xe6db99e5;
          C = MD5_R2 C D A B (X ! 15) 16 0x1fa27cf8;
          B = MD5_R2 B C D A (X ! 2) 23 0xc4ac5665
      in (A, B, C, D)))"

definition md5_round3 :: "u32 list \<Rightarrow> u32 \<times> u32 \<times> u32 \<times> u32 \<Rightarrow> u32 \<times> u32 \<times> u32 \<times> u32" where
  "md5_round3 X = (\<lambda>(A, B, C, D).
     (let
          A = MD5_R3 A B C D (X ! 0) 6 0xf4292244;
          D = MD5_R3 D A B C (X ! 7) 10 0x432aff97;
          C = MD5_R3 C D A B (X ! 14) 15 0xab9423a7;
          B = MD5_R3 B C D A (X ! 5) 21 0xfc93a039;
          A = MD5_R3 A B C D (X ! 12) 6 0x655b59c3;
          D = MD5_R3 D A B C (X ! 3) 10 0x8f0ccc92;
          C = MD5_R3 C D A B (X ! 10) 15 0xffeff47d;
          B = MD5_R3 B C D A (X ! 1) 21 0x85845dd1;
          A = MD5_R3 A B C D (X ! 8) 6 0x6fa87e4f;
          D = MD5_R3 D A B C (X ! 15) 10 0xfe2ce6e0;
          C = MD5_R3 C D A B (X ! 6) 15 0xa3014314;
          B = MD5_R3 B C D A (X ! 13) 21 0x4e0811a1;
          A = MD5_R3 A B C D (X ! 4) 6 0xf7537e82;
          D = MD5_R3 D A B C (X ! 11) 10 0xbd3af235;
          C = MD5_R3 C D A B (X ! 2) 15 0x2ad7d2bb;
          B = MD5_R3 B C D A (X ! 9) 21 0xeb86d391
      in (A, B, C, D)))"

definition md5_rounds :: "u32 list \<Rightarrow> u32 \<times> u32 \<times> u32 \<times> u32 \<Rightarrow> u32 \<times> u32 \<times> u32 \<times> u32" where
  "md5_rounds X st = md5_round3 X (md5_round2 X (md5_round1 X (md5_round0 X st)))"

definition md5_block :: "u32 list \<Rightarrow> bytes \<Rightarrow> u32 list" where
  "md5_block state data =
     (let X = map (\<lambda>i. HOST_c2l_le data (4 * i)) [0..<16];
          (A, B, C, D) = md5_rounds X (state ! 0, state ! 1, state ! 2, state ! 3)
      in [state ! 0 + A, state ! 1 + B, state ! 2 + C, state ! 3 + D])"

primrec md5_block_data_order_loop :: "nat \<Rightarrow> u32 list \<Rightarrow> bytes \<Rightarrow> u32 list" where
  "md5_block_data_order_loop 0 state data = state"
| "md5_block_data_order_loop (Suc num) state data =
     md5_block_data_order_loop num (md5_block state data) (drop HASH_CBLOCK data)"

definition md5_block_data_order :: "u32 block_function" where
  "md5_block_data_order state data num = md5_block_data_order_loop num state data"

definition MD5_MAKE_STRING :: "md32 \<Rightarrow> bytes" where
  "MD5_MAKE_STRING c =
     HOST_l2c_le (md_h c ! 0) @ HOST_l2c_le (md_h c ! 1) @ HOST_l2c_le (md_h c ! 2) @ HOST_l2c_le (md_h c ! 3)"

definition MD5_Init :: md32 where
  "MD5_Init =
     \<lparr>md_h = [0x67452301, 0xefcdab89, 0x98badcfe, 0x10325476],
       md_Nl = 0, md_Nh = 0, md_data = replicate HASH_CBLOCK 0, md_num = 0\<rparr>"

definition MD5_Update :: "md32 \<Rightarrow> bytes \<Rightarrow> md32" where
  "MD5_Update = HASH_UPDATE md5_block_data_order"

definition MD5_Transform :: "md32 \<Rightarrow> bytes \<Rightarrow> md32" where
  "MD5_Transform = HASH_TRANSFORM md5_block_data_order"

definition MD5_Final :: "md32 \<Rightarrow> bytes \<times> md32" where
  "MD5_Final = HASH_FINAL md5_block_data_order False MD5_MAKE_STRING"

definition MD5 :: "bytes \<Rightarrow> bytes" where
  "MD5 data = (let ctx = MD5_Init; ctx = MD5_Update ctx data; (out, ctx) = MD5_Final ctx in out)"

section \<open>Digests of messages\<close>

text \<open>The digest of a message: its padded form absorbed block by block, the words written out.\<close>

definition md4_digest :: "bytes \<Rightarrow> bytes" where
  "md4_digest m = concat (map (\<lambda>w. le_bytes 4 (unat w))
     (absorb md4_block 64 [0x67452301, 0xefcdab89, 0x98badcfe, 0x10325476] (m @ md_padding False (length m))))"

definition md5_digest :: "bytes \<Rightarrow> bytes" where
  "md5_digest m = concat (map (\<lambda>w. le_bytes 4 (unat w))
     (absorb md5_block 64 [0x67452301, 0xefcdab89, 0x98badcfe, 0x10325476] (m @ md_padding False (length m))))"

lemma md4_block_take: "64 \<le> length d \<Longrightarrow> md4_block s (take 64 d) = md4_block s d"
  by (simp only: md4_block_def block_words_take)

lemma md5_block_take: "64 \<le> length d \<Longrightarrow> md5_block s (take 64 d) = md5_block s d"
  by (simp only: md5_block_def block_words_take)

interpretation md4_template: md32_template md4_block_data_order md4_block
proof unfold_locales
  fix n s and d :: bytes assume "n * HASH_CBLOCK \<le> length d"
  then show "md4_block_data_order s d n = absorb md4_block HASH_CBLOCK s (take (n * HASH_CBLOCK) d)"
    by (intro iterate_absorb) (simp_all add: md4_block_data_order_def md4_block_take)
qed simp

interpretation md5_template: md32_template md5_block_data_order md5_block
proof unfold_locales
  fix n s and d :: bytes assume "n * HASH_CBLOCK \<le> length d"
  then show "md5_block_data_order s d n = absorb md5_block HASH_CBLOCK s (take (n * HASH_CBLOCK) d)"
    by (intro iterate_absorb) (simp_all add: md5_block_data_order_def md5_block_take)
qed simp

lemma four_words:
  assumes "length ws = 4"
  shows "HOST_l2c_le (ws ! 0) @ HOST_l2c_le (ws ! 1) @ HOST_l2c_le (ws ! 2) @ HOST_l2c_le (ws ! 3) =
    concat (map (\<lambda>w. le_bytes 4 (unat w)) ws)"
proof -
  obtain a b c d where "ws = [a, b, c, d]"
    using assms by (auto simp: numeral_eq_Suc length_Suc_conv)
  then show ?thesis by (simp add: HOST_l2c_bytes)
qed

lemma length_md4_block: "length (md4_block s b) = 4"
  by (simp add: md4_block_def Let_def split: prod.splits)

lemma length_md5_block: "length (md5_block s b) = 4"
  by (simp add: md5_block_def Let_def split: prod.splits)

interpretation md4: incremental_hash
  "\<lambda>c m. absorbed32 md4_block [0x67452301, 0xefcdab89, 0x98badcfe, 0x10325476] c m \<and> md32.more c = ()"
  MD4_Init MD4_Update "\<lambda>c. fst (MD4_Final c)" md4_digest
  unfolding MD4_Update_def MD4_Final_def md4_digest_def
  by (rule md4_template.incremental [where P = "\<lambda>ws. length ws = 4"], rule fresh_absorbed)
    (simp_all add: MD4_Init_def length_md4_block MD4_MAKE_STRING_def four_words [unfolded One_nat_def])

interpretation md5: incremental_hash
  "\<lambda>c m. absorbed32 md5_block [0x67452301, 0xefcdab89, 0x98badcfe, 0x10325476] c m \<and> md32.more c = ()"
  MD5_Init MD5_Update "\<lambda>c. fst (MD5_Final c)" md5_digest
  unfolding MD5_Update_def MD5_Final_def md5_digest_def
  by (rule md5_template.incremental [where P = "\<lambda>ws. length ws = 4"], rule fresh_absorbed)
    (simp_all add: MD5_Init_def length_md5_block MD5_MAKE_STRING_def four_words [unfolded One_nat_def])

lemma MD5_md5_digest: "MD5 data = md5_digest data"
  using md5.one_shot [of data] by (simp add: MD5_def Let_def case_prod_beta)

lemma MD4_md4_digest: "MD4 data = md4_digest data"
  using md4.one_shot [of data] by (simp add: MD4_def Let_def case_prod_beta)

section \<open>The reference descriptions\<close>

text \<open>
  RFC 1320 (MD4) and RFC 1321 (MD5): the auxiliary function of each round, and for each step
  the word of the block, the shift and the constant. The four words move one place at each
  step; the code unrolls the steps and renames the variables instead.
\<close>

definition rfc1320_f :: "nat \<Rightarrow> u32 \<Rightarrow> u32 \<Rightarrow> u32 \<Rightarrow> u32" where
  "rfc1320_f r x y z =
     (if r = 0 then (x AND y) OR (NOT x AND z)
      else if r = 1 then (x AND y) OR (x AND z) OR (y AND z)
      else x XOR y XOR z)"

definition rfc1320_schedule :: "nat \<Rightarrow> (nat \<times> nat \<times> u32) list" where
  "rfc1320_schedule r =
     map (\<lambda>i.
       (if r = 0 then i else if r = 1 then i mod 4 * 4 + i div 4
        else [0, 8, 4, 12, 2, 10, 6, 14, 1, 9, 5, 13, 3, 11, 7, 15] ! i,
        [[3, 7, 11, 19], [3, 5, 9, 13], [3, 9, 11, 15]] ! r ! (i mod 4),
        [0, 0x5a827999, 0x6ed9eba1] ! r)) [0..<16]"

definition rfc1320_step :: "u32 list \<Rightarrow> nat \<Rightarrow> u32 \<times> u32 \<times> u32 \<times> u32 \<Rightarrow> nat \<times> nat \<times> u32 \<Rightarrow> u32 \<times> u32 \<times> u32 \<times> u32" where
  "rfc1320_step X r = (\<lambda>(a, b, c, d) (k, s, t). (d, ROTATE (a + rfc1320_f r b c d + X ! k + t) s, b, c))"

definition rfc1320_block :: "u32 list \<Rightarrow> u32 \<times> u32 \<times> u32 \<times> u32 \<Rightarrow> u32 \<times> u32 \<times> u32 \<times> u32" where
  "rfc1320_block X st = foldl (\<lambda>st r. foldl (rfc1320_step X r) st (rfc1320_schedule r)) st [0..<3]"

definition rfc1321_f :: "nat \<Rightarrow> u32 \<Rightarrow> u32 \<Rightarrow> u32 \<Rightarrow> u32" where
  "rfc1321_f r x y z =
     (if r = 0 then (x AND y) OR (NOT x AND z)
      else if r = 1 then (x AND z) OR (y AND NOT z)
      else if r = 2 then x XOR y XOR z
      else y XOR (x OR NOT z))"

definition rfc1321_T :: "u32 list" where
  "rfc1321_T =
     [0xd76aa478, 0xe8c7b756, 0x242070db, 0xc1bdceee, 0xf57c0faf, 0x4787c62a, 0xa8304613, 0xfd469501,
      0x698098d8, 0x8b44f7af, 0xffff5bb1, 0x895cd7be, 0x6b901122, 0xfd987193, 0xa679438e, 0x49b40821,
      0xf61e2562, 0xc040b340, 0x265e5a51, 0xe9b6c7aa, 0xd62f105d, 0x02441453, 0xd8a1e681, 0xe7d3fbc8,
      0x21e1cde6, 0xc33707d6, 0xf4d50d87, 0x455a14ed, 0xa9e3e905, 0xfcefa3f8, 0x676f02d9, 0x8d2a4c8a,
      0xfffa3942, 0x8771f681, 0x6d9d6122, 0xfde5380c, 0xa4beea44, 0x4bdecfa9, 0xf6bb4b60, 0xbebfbc70,
      0x289b7ec6, 0xeaa127fa, 0xd4ef3085, 0x04881d05, 0xd9d4d039, 0xe6db99e5, 0x1fa27cf8, 0xc4ac5665,
      0xf4292244, 0x432aff97, 0xab9423a7, 0xfc93a039, 0x655b59c3, 0x8f0ccc92, 0xffeff47d, 0x85845dd1,
      0x6fa87e4f, 0xfe2ce6e0, 0xa3014314, 0x4e0811a1, 0xf7537e82, 0xbd3af235, 0x2ad7d2bb, 0xeb86d391]"

definition rfc1321_schedule :: "nat \<Rightarrow> (nat \<times> nat \<times> u32) list" where
  "rfc1321_schedule r =
     map (\<lambda>i.
       ([i, 5 * i + 1, 3 * i + 5, 7 * i] ! r mod 16,
        [[7, 12, 17, 22], [5, 9, 14, 20], [4, 11, 16, 23], [6, 10, 15, 21]] ! r ! (i mod 4),
        rfc1321_T ! (16 * r + i))) [0..<16]"

definition rfc1321_step :: "u32 list \<Rightarrow> nat \<Rightarrow> u32 \<times> u32 \<times> u32 \<times> u32 \<Rightarrow> nat \<times> nat \<times> u32 \<Rightarrow> u32 \<times> u32 \<times> u32 \<times> u32" where
  "rfc1321_step X r = (\<lambda>(a, b, c, d) (k, s, t). (d, b + ROTATE (a + rfc1321_f r b c d + X ! k + t) s, b, c))"

definition rfc1321_block :: "u32 list \<Rightarrow> u32 \<times> u32 \<times> u32 \<times> u32 \<Rightarrow> u32 \<times> u32 \<times> u32 \<times> u32" where
  "rfc1321_block X st = foldl (\<lambda>st r. foldl (rfc1321_step X r) st (rfc1321_schedule r)) st [0..<4]"

lemma md_functions:
  "MD4_F b c d = rfc1320_f 0 b c d" "MD4_G b c d = rfc1320_f 1 b c d" "MD4_H b c d = rfc1320_f 2 b c d"
  "MD5_F b c d = rfc1321_f 0 b c d" "MD5_G b c d = rfc1321_f 1 b c d" "MD5_H b c d = rfc1321_f 2 b c d"
  "MD5_I b c d = rfc1321_f 3 b c d"
  by (auto simp: MD4_F_def MD5_F_def MD4_G_def MD5_G_def MD4_H_def MD5_H_def MD5_I_def rfc1320_f_def
      rfc1321_f_def bit_simps intro!: bit_word_eqI)

lemma rfc1321_schedule:
  "rfc1321_schedule 0 = [
    (0, 7, 0xd76aa478), (1, 12, 0xe8c7b756), (2, 17, 0x242070db), (3, 22, 0xc1bdceee),
    (4, 7, 0xf57c0faf), (5, 12, 0x4787c62a), (6, 17, 0xa8304613), (7, 22, 0xfd469501),
    (8, 7, 0x698098d8), (9, 12, 0x8b44f7af), (10, 17, 0xffff5bb1), (11, 22, 0x895cd7be),
    (12, 7, 0x6b901122), (13, 12, 0xfd987193), (14, 17, 0xa679438e), (15, 22, 0x49b40821)]"
  "rfc1321_schedule 1 = [
    (1, 5, 0xf61e2562), (6, 9, 0xc040b340), (11, 14, 0x265e5a51), (0, 20, 0xe9b6c7aa),
    (5, 5, 0xd62f105d), (10, 9, 0x02441453), (15, 14, 0xd8a1e681), (4, 20, 0xe7d3fbc8),
    (9, 5, 0x21e1cde6), (14, 9, 0xc33707d6), (3, 14, 0xf4d50d87), (8, 20, 0x455a14ed),
    (13, 5, 0xa9e3e905), (2, 9, 0xfcefa3f8), (7, 14, 0x676f02d9), (12, 20, 0x8d2a4c8a)]"
  "rfc1321_schedule 2 = [
    (5, 4, 0xfffa3942), (8, 11, 0x8771f681), (11, 16, 0x6d9d6122), (14, 23, 0xfde5380c),
    (1, 4, 0xa4beea44), (4, 11, 0x4bdecfa9), (7, 16, 0xf6bb4b60), (10, 23, 0xbebfbc70),
    (13, 4, 0x289b7ec6), (0, 11, 0xeaa127fa), (3, 16, 0xd4ef3085), (6, 23, 0x04881d05),
    (9, 4, 0xd9d4d039), (12, 11, 0xe6db99e5), (15, 16, 0x1fa27cf8), (2, 23, 0xc4ac5665)]"
  "rfc1321_schedule 3 = [
    (0, 6, 0xf4292244), (7, 10, 0x432aff97), (14, 15, 0xab9423a7), (5, 21, 0xfc93a039),
    (12, 6, 0x655b59c3), (3, 10, 0x8f0ccc92), (10, 15, 0xffeff47d), (1, 21, 0x85845dd1),
    (8, 6, 0x6fa87e4f), (15, 10, 0xfe2ce6e0), (6, 15, 0xa3014314), (13, 21, 0x4e0811a1),
    (4, 6, 0xf7537e82), (11, 10, 0xbd3af235), (2, 15, 0x2ad7d2bb), (9, 21, 0xeb86d391)]"
  by (simp_all add: rfc1321_schedule_def upt_16 rfc1321_T_def)

lemma rfc1320_schedule:
  "rfc1320_schedule 0 = [
    (0, 3, 0), (1, 7, 0), (2, 11, 0), (3, 19, 0),
    (4, 3, 0), (5, 7, 0), (6, 11, 0), (7, 19, 0),
    (8, 3, 0), (9, 7, 0), (10, 11, 0), (11, 19, 0),
    (12, 3, 0), (13, 7, 0), (14, 11, 0), (15, 19, 0)]"
  "rfc1320_schedule 1 = [
    (0, 3, 0x5a827999), (4, 5, 0x5a827999), (8, 9, 0x5a827999), (12, 13, 0x5a827999),
    (1, 3, 0x5a827999), (5, 5, 0x5a827999), (9, 9, 0x5a827999), (13, 13, 0x5a827999),
    (2, 3, 0x5a827999), (6, 5, 0x5a827999), (10, 9, 0x5a827999), (14, 13, 0x5a827999),
    (3, 3, 0x5a827999), (7, 5, 0x5a827999), (11, 9, 0x5a827999), (15, 13, 0x5a827999)]"
  "rfc1320_schedule 2 = [
    (0, 3, 0x6ed9eba1), (8, 9, 0x6ed9eba1), (4, 11, 0x6ed9eba1), (12, 15, 0x6ed9eba1),
    (2, 3, 0x6ed9eba1), (10, 9, 0x6ed9eba1), (6, 11, 0x6ed9eba1), (14, 15, 0x6ed9eba1),
    (1, 3, 0x6ed9eba1), (9, 9, 0x6ed9eba1), (5, 11, 0x6ed9eba1), (13, 15, 0x6ed9eba1),
    (3, 3, 0x6ed9eba1), (11, 9, 0x6ed9eba1), (7, 11, 0x6ed9eba1), (15, 15, 0x6ed9eba1)]"
  by (simp_all add: rfc1320_schedule_def upt_16)

lemma unroll_md4:
  "foldl (rfc1320_step X 0) (a, b, c, d) ((k, s, t) # is) =
    (let a = MD4_R0 a b c d (X ! k) s t in foldl (rfc1320_step X 0) (d, a, b, c) is)"
  "foldl (rfc1320_step X 1) (a, b, c, d) ((k, s, t) # is) =
    (let a = MD4_R1 a b c d (X ! k) s t in foldl (rfc1320_step X 1) (d, a, b, c) is)"
  "foldl (rfc1320_step X 2) (a, b, c, d) ((k, s, t) # is) =
    (let a = MD4_R2 a b c d (X ! k) s t in foldl (rfc1320_step X 2) (d, a, b, c) is)"
  by (simp_all add: rfc1320_step_def MD4_R0_def MD4_R1_def MD4_R2_def md_functions Let_def ac_simps)

lemma unroll_md5:
  "foldl (rfc1321_step X 0) (a, b, c, d) ((k, s, t) # is) =
    (let a = MD5_R0 a b c d (X ! k) s t in foldl (rfc1321_step X 0) (d, a, b, c) is)"
  "foldl (rfc1321_step X 1) (a, b, c, d) ((k, s, t) # is) =
    (let a = MD5_R1 a b c d (X ! k) s t in foldl (rfc1321_step X 1) (d, a, b, c) is)"
  "foldl (rfc1321_step X 2) (a, b, c, d) ((k, s, t) # is) =
    (let a = MD5_R2 a b c d (X ! k) s t in foldl (rfc1321_step X 2) (d, a, b, c) is)"
  "foldl (rfc1321_step X 3) (a, b, c, d) ((k, s, t) # is) =
    (let a = MD5_R3 a b c d (X ! k) s t in foldl (rfc1321_step X 3) (d, a, b, c) is)"
  by (simp_all add: rfc1321_step_def MD5_R0_def MD5_R1_def MD5_R2_def MD5_R3_def md_functions Let_def ac_simps)

lemma md4_round_rfc1320:
  "md4_round0 X (A, B, C, D) = foldl (rfc1320_step X 0) (A, B, C, D) (rfc1320_schedule 0)"
  "md4_round1 X (A, B, C, D) = foldl (rfc1320_step X 1) (A, B, C, D) (rfc1320_schedule 1)"
  "md4_round2 X (A, B, C, D) = foldl (rfc1320_step X 2) (A, B, C, D) (rfc1320_schedule 2)"
  unfolding rfc1320_schedule unroll_md4 foldl.simps(1) md4_round0_def md4_round1_def md4_round2_def prod.case
  by (rule refl)+

lemma md5_round_rfc1321:
  "md5_round0 X (A, B, C, D) = foldl (rfc1321_step X 0) (A, B, C, D) (rfc1321_schedule 0)"
  "md5_round1 X (A, B, C, D) = foldl (rfc1321_step X 1) (A, B, C, D) (rfc1321_schedule 1)"
  "md5_round2 X (A, B, C, D) = foldl (rfc1321_step X 2) (A, B, C, D) (rfc1321_schedule 2)"
  "md5_round3 X (A, B, C, D) = foldl (rfc1321_step X 3) (A, B, C, D) (rfc1321_schedule 3)"
  unfolding rfc1321_schedule unroll_md5 foldl.simps(1) md5_round0_def md5_round1_def md5_round2_def
    md5_round3_def prod.case
  by (rule refl)+


lemma md4_rounds_rfc1320: "md4_rounds X st = rfc1320_block X st"
proof -
  have r: "md4_round0 X s = foldl (rfc1320_step X 0) s (rfc1320_schedule 0)"
    "md4_round1 X s = foldl (rfc1320_step X 1) s (rfc1320_schedule 1)"
    "md4_round2 X s = foldl (rfc1320_step X 2) s (rfc1320_schedule 2)" for s
    by (cases s, simp only: md4_round_rfc1320)+
  have "[0..<3] = [0, 1, 2 :: nat]" by (simp add: upt_rec)
  then show ?thesis by (simp only: md4_rounds_def rfc1320_block_def r foldl.simps)
qed

lemma md5_rounds_rfc1321: "md5_rounds X st = rfc1321_block X st"
proof -
  have r: "md5_round0 X s = foldl (rfc1321_step X 0) s (rfc1321_schedule 0)"
    "md5_round1 X s = foldl (rfc1321_step X 1) s (rfc1321_schedule 1)"
    "md5_round2 X s = foldl (rfc1321_step X 2) s (rfc1321_schedule 2)"
    "md5_round3 X s = foldl (rfc1321_step X 3) s (rfc1321_schedule 3)" for s
    by (cases s, simp only: md5_round_rfc1321)+
  have "[0..<4] = [0, 1, 2, 3 :: nat]" by (simp add: upt_rec)
  then show ?thesis by (simp only: md5_rounds_def rfc1321_block_def r foldl.simps)
qed


definition rfc1320_compress :: "u32 list \<Rightarrow> bytes \<Rightarrow> u32 list" where
  "rfc1320_compress s b =
     (let (A, B, C, D) = rfc1320_block (words_le b) (s ! 0, s ! 1, s ! 2, s ! 3)
      in [s ! 0 + A, s ! 1 + B, s ! 2 + C, s ! 3 + D])"

definition rfc1320_md4 :: "bytes \<Rightarrow> bytes" where
  "rfc1320_md4 m = concat (map (\<lambda>w. le_bytes 4 (unat w))
     (absorb rfc1320_compress 64 [0x67452301, 0xefcdab89, 0x98badcfe, 0x10325476]
       (m @ md_padding False (length m))))"

lemma md4_digest_rfc1320: "md4_digest m = rfc1320_md4 m"
  unfolding md4_digest_def rfc1320_md4_def
  by (subst absorb_cong [of 64 md4_block rfc1320_compress])
    (simp_all only: md4_block_def rfc1320_compress_def block_words md4_rounds_rfc1320 Let_def order_refl)

definition rfc1321_compress :: "u32 list \<Rightarrow> bytes \<Rightarrow> u32 list" where
  "rfc1321_compress s b =
     (let (A, B, C, D) = rfc1321_block (words_le b) (s ! 0, s ! 1, s ! 2, s ! 3)
      in [s ! 0 + A, s ! 1 + B, s ! 2 + C, s ! 3 + D])"

definition rfc1321_md5 :: "bytes \<Rightarrow> bytes" where
  "rfc1321_md5 m = concat (map (\<lambda>w. le_bytes 4 (unat w))
     (absorb rfc1321_compress 64 [0x67452301, 0xefcdab89, 0x98badcfe, 0x10325476]
       (m @ md_padding False (length m))))"

lemma md5_digest_rfc1321: "md5_digest m = rfc1321_md5 m"
  unfolding md5_digest_def rfc1321_md5_def
  by (subst absorb_cong [of 64 md5_block rfc1321_compress])
    (simp_all only: md5_block_def rfc1321_compress_def block_words md5_rounds_rfc1321 Let_def order_refl)

section \<open>Properties\<close>

text \<open>Whatever pieces a message is fed to \<open>MD5_Update\<close> in, \<open>MD5_Final\<close> returns the digest
  RFC 1321 defines for the whole message, with its padding and length; the unrolled rounds
  and the simplified auxiliary functions of the code compute the document's 64 steps.\<close>

theorem MD5_exact:
  "fst (MD5_Final (foldl MD5_Update MD5_Init ds)) = rfc1321_md5 (concat ds) \<and>
    MD5 data = rfc1321_md5 data"
  by (simp add: md5.digest_of_pieces MD5_md5_digest md5_digest_rfc1321)

text \<open>The same for MD4 and RFC 1320.\<close>

theorem MD4_exact:
  "fst (MD4_Final (foldl MD4_Update MD4_Init ds)) = rfc1320_md4 (concat ds) \<and>
    MD4 data = rfc1320_md4 data"
  by (simp add: md4.digest_of_pieces MD4_md4_digest md4_digest_rfc1320)

end
