(* ===== verification/Sha.thy ===== *)
theory Sha
  imports Digest
begin

text \<open>
  \<open>crypto/fipsmodule/sha/sha1.c\<close> and \<open>crypto/fipsmodule/sha/sha256.c\<close>: the block
  functions, line by line, and the instances of the digest template. The rounds of the
  unrolled SHA-1 block are grouped as its source groups them, by the macro they call; the six
  variables that rotate through the rounds are listed in the order of the next call.
\<close>

section \<open>SHA-1\<close>

definition K_00_19 :: u32 where "K_00_19 = 0x5a827999"
definition K_20_39 :: u32 where "K_20_39 = 0x6ed9eba1"
definition K_40_59 :: u32 where "K_40_59 = 0x8f1bbcdc"
definition K_60_79 :: u32 where "K_60_79 = 0xca62c1d6"

definition F_00_19 :: "u32 \<Rightarrow> u32 \<Rightarrow> u32 \<Rightarrow> u32" where
  "F_00_19 b c d = ((c XOR d) AND b) XOR d"

definition F_20_39 :: "u32 \<Rightarrow> u32 \<Rightarrow> u32 \<Rightarrow> u32" where
  "F_20_39 b c d = b XOR c XOR d"

definition F_40_59 :: "u32 \<Rightarrow> u32 \<Rightarrow> u32 \<Rightarrow> u32" where
  "F_40_59 b c d = (b AND c) OR ((b OR c) AND d)"

definition F_60_79 :: "u32 \<Rightarrow> u32 \<Rightarrow> u32 \<Rightarrow> u32" where
  "F_60_79 b c d = F_20_39 b c d"

text \<open>The variables \<open>XX0\<close> to \<open>XX15\<close> are the list \<open>X\<close>; a macro returns what it assigns.\<close>

definition Xupdate :: "u32 list \<Rightarrow> nat \<Rightarrow> nat \<Rightarrow> nat \<Rightarrow> nat \<Rightarrow> nat \<Rightarrow> u32 list \<times> u32" where
  "Xupdate X ix ia ib ic idd =
     (let a = X ! ia XOR X ! ib XOR X ! ic XOR X ! idd;
          a = ROTATE a 1
      in (X[ix := a], a))"

definition BODY_00_15 :: "u32 \<Rightarrow> u32 \<Rightarrow> u32 \<Rightarrow> u32 \<Rightarrow> u32 \<Rightarrow> u32 \<Rightarrow> u32 \<times> u32" where
  "BODY_00_15 a b c d e xi =
     (let f = xi + e + K_00_19 + ROTATE a 5 + F_00_19 b c d; b = ROTATE b 30 in (f, b))"

definition BODY_16_19 ::
  "u32 \<Rightarrow> u32 \<Rightarrow> u32 \<Rightarrow> u32 \<Rightarrow> u32 \<Rightarrow> u32 list \<Rightarrow> nat \<Rightarrow> nat \<Rightarrow> nat \<Rightarrow> nat \<Rightarrow> nat \<Rightarrow> u32 list \<times> u32 \<times> u32" where
  "BODY_16_19 a b c d e X xi xa xb xc xd =
     (let (X, f) = Xupdate X xi xa xb xc xd;
          f = f + (e + K_00_19 + ROTATE a 5 + F_00_19 b c d);
          b = ROTATE b 30
      in (X, f, b))"

definition BODY_20_31 ::
  "u32 \<Rightarrow> u32 \<Rightarrow> u32 \<Rightarrow> u32 \<Rightarrow> u32 \<Rightarrow> u32 list \<Rightarrow> nat \<Rightarrow> nat \<Rightarrow> nat \<Rightarrow> nat \<Rightarrow> nat \<Rightarrow> u32 list \<times> u32 \<times> u32" where
  "BODY_20_31 a b c d e X xi xa xb xc xd =
     (let (X, f) = Xupdate X xi xa xb xc xd;
          f = f + (e + K_20_39 + ROTATE a 5 + F_20_39 b c d);
          b = ROTATE b 30
      in (X, f, b))"

definition BODY_32_39 ::
  "u32 \<Rightarrow> u32 \<Rightarrow> u32 \<Rightarrow> u32 \<Rightarrow> u32 \<Rightarrow> u32 list \<Rightarrow> nat \<Rightarrow> nat \<Rightarrow> nat \<Rightarrow> nat \<Rightarrow> u32 list \<times> u32 \<times> u32" where
  "BODY_32_39 a b c d e X xa xb xc xd =
     (let (X, f) = Xupdate X xa xa xb xc xd;
          f = f + (e + K_20_39 + ROTATE a 5 + F_20_39 b c d);
          b = ROTATE b 30
      in (X, f, b))"

definition BODY_40_59 ::
  "u32 \<Rightarrow> u32 \<Rightarrow> u32 \<Rightarrow> u32 \<Rightarrow> u32 \<Rightarrow> u32 list \<Rightarrow> nat \<Rightarrow> nat \<Rightarrow> nat \<Rightarrow> nat \<Rightarrow> u32 list \<times> u32 \<times> u32" where
  "BODY_40_59 a b c d e X xa xb xc xd =
     (let (X, f) = Xupdate X xa xa xb xc xd;
          f = f + (e + K_40_59 + ROTATE a 5 + F_40_59 b c d);
          b = ROTATE b 30
      in (X, f, b))"

definition BODY_60_79 ::
  "u32 \<Rightarrow> u32 \<Rightarrow> u32 \<Rightarrow> u32 \<Rightarrow> u32 \<Rightarrow> u32 list \<Rightarrow> nat \<Rightarrow> nat \<Rightarrow> nat \<Rightarrow> nat \<Rightarrow> u32 list \<times> u32 \<times> u32" where
  "BODY_60_79 a b c d e X xa xb xc xd =
     (let (X, f) = Xupdate X xa xa xb xc xd;
          f = X ! xa + e + K_60_79 + ROTATE a 5 + F_60_79 b c d;
          b = ROTATE b 30
      in (X, f, b))"

type_synonym sha1_vars = "u32 list \<times> u32 \<times> u32 \<times> u32 \<times> u32 \<times> u32 \<times> u32"

definition sha1_rounds_00_15 :: "sha1_vars \<Rightarrow> sha1_vars" where
  "sha1_rounds_00_15 = (\<lambda>(X, A, B, C, D, E, T).
     (let
          (T, B) = BODY_00_15 A B C D E (X ! 0);
          (E, A) = BODY_00_15 T A B C D (X ! 1);
          (D, T) = BODY_00_15 E T A B C (X ! 2);
          (C, E) = BODY_00_15 D E T A B (X ! 3);
          (B, D) = BODY_00_15 C D E T A (X ! 4);
          (A, C) = BODY_00_15 B C D E T (X ! 5);
          (T, B) = BODY_00_15 A B C D E (X ! 6);
          (E, A) = BODY_00_15 T A B C D (X ! 7);
          (D, T) = BODY_00_15 E T A B C (X ! 8);
          (C, E) = BODY_00_15 D E T A B (X ! 9);
          (B, D) = BODY_00_15 C D E T A (X ! 10);
          (A, C) = BODY_00_15 B C D E T (X ! 11);
          (T, B) = BODY_00_15 A B C D E (X ! 12);
          (E, A) = BODY_00_15 T A B C D (X ! 13);
          (D, T) = BODY_00_15 E T A B C (X ! 14);
          (C, E) = BODY_00_15 D E T A B (X ! 15)
      in (X, C, D, E, T, A, B)))"

definition sha1_rounds_16_19 :: "sha1_vars \<Rightarrow> sha1_vars" where
  "sha1_rounds_16_19 = (\<lambda>(X, C, D, E, T, A, B).
     (let
          (X, B, D) = BODY_16_19 C D E T A X 0 0 2 8 13;
          (X, A, C) = BODY_16_19 B C D E T X 1 1 3 9 14;
          (X, T, B) = BODY_16_19 A B C D E X 2 2 4 10 15;
          (X, E, A) = BODY_16_19 T A B C D X 3 3 5 11 0
      in (X, E, T, A, B, C, D)))"

definition sha1_rounds_20_31 :: "sha1_vars \<Rightarrow> sha1_vars" where
  "sha1_rounds_20_31 = (\<lambda>(X, E, T, A, B, C, D).
     (let
          (X, D, T) = BODY_20_31 E T A B C X 4 4 6 12 1;
          (X, C, E) = BODY_20_31 D E T A B X 5 5 7 13 2;
          (X, B, D) = BODY_20_31 C D E T A X 6 6 8 14 3;
          (X, A, C) = BODY_20_31 B C D E T X 7 7 9 15 4;
          (X, T, B) = BODY_20_31 A B C D E X 8 8 10 0 5;
          (X, E, A) = BODY_20_31 T A B C D X 9 9 11 1 6;
          (X, D, T) = BODY_20_31 E T A B C X 10 10 12 2 7;
          (X, C, E) = BODY_20_31 D E T A B X 11 11 13 3 8;
          (X, B, D) = BODY_20_31 C D E T A X 12 12 14 4 9;
          (X, A, C) = BODY_20_31 B C D E T X 13 13 15 5 10;
          (X, T, B) = BODY_20_31 A B C D E X 14 14 0 6 11;
          (X, E, A) = BODY_20_31 T A B C D X 15 15 1 7 12
      in (X, E, T, A, B, C, D)))"

definition sha1_rounds_32_39 :: "sha1_vars \<Rightarrow> sha1_vars" where
  "sha1_rounds_32_39 = (\<lambda>(X, E, T, A, B, C, D).
     (let
          (X, D, T) = BODY_32_39 E T A B C X 0 2 8 13;
          (X, C, E) = BODY_32_39 D E T A B X 1 3 9 14;
          (X, B, D) = BODY_32_39 C D E T A X 2 4 10 15;
          (X, A, C) = BODY_32_39 B C D E T X 3 5 11 0;
          (X, T, B) = BODY_32_39 A B C D E X 4 6 12 1;
          (X, E, A) = BODY_32_39 T A B C D X 5 7 13 2;
          (X, D, T) = BODY_32_39 E T A B C X 6 8 14 3;
          (X, C, E) = BODY_32_39 D E T A B X 7 9 15 4
      in (X, C, D, E, T, A, B)))"

definition sha1_rounds_40_59 :: "sha1_vars \<Rightarrow> sha1_vars" where
  "sha1_rounds_40_59 = (\<lambda>(X, C, D, E, T, A, B).
     (let
          (X, B, D) = BODY_40_59 C D E T A X 8 10 0 5;
          (X, A, C) = BODY_40_59 B C D E T X 9 11 1 6;
          (X, T, B) = BODY_40_59 A B C D E X 10 12 2 7;
          (X, E, A) = BODY_40_59 T A B C D X 11 13 3 8;
          (X, D, T) = BODY_40_59 E T A B C X 12 14 4 9;
          (X, C, E) = BODY_40_59 D E T A B X 13 15 5 10;
          (X, B, D) = BODY_40_59 C D E T A X 14 0 6 11;
          (X, A, C) = BODY_40_59 B C D E T X 15 1 7 12;
          (X, T, B) = BODY_40_59 A B C D E X 0 2 8 13;
          (X, E, A) = BODY_40_59 T A B C D X 1 3 9 14;
          (X, D, T) = BODY_40_59 E T A B C X 2 4 10 15;
          (X, C, E) = BODY_40_59 D E T A B X 3 5 11 0;
          (X, B, D) = BODY_40_59 C D E T A X 4 6 12 1;
          (X, A, C) = BODY_40_59 B C D E T X 5 7 13 2;
          (X, T, B) = BODY_40_59 A B C D E X 6 8 14 3;
          (X, E, A) = BODY_40_59 T A B C D X 7 9 15 4;
          (X, D, T) = BODY_40_59 E T A B C X 8 10 0 5;
          (X, C, E) = BODY_40_59 D E T A B X 9 11 1 6;
          (X, B, D) = BODY_40_59 C D E T A X 10 12 2 7;
          (X, A, C) = BODY_40_59 B C D E T X 11 13 3 8
      in (X, A, B, C, D, E, T)))"

definition sha1_rounds_60_79 :: "sha1_vars \<Rightarrow> sha1_vars" where
  "sha1_rounds_60_79 = (\<lambda>(X, A, B, C, D, E, T).
     (let
          (X, T, B) = BODY_60_79 A B C D E X 12 14 4 9;
          (X, E, A) = BODY_60_79 T A B C D X 13 15 5 10;
          (X, D, T) = BODY_60_79 E T A B C X 14 0 6 11;
          (X, C, E) = BODY_60_79 D E T A B X 15 1 7 12;
          (X, B, D) = BODY_60_79 C D E T A X 0 2 8 13;
          (X, A, C) = BODY_60_79 B C D E T X 1 3 9 14;
          (X, T, B) = BODY_60_79 A B C D E X 2 4 10 15;
          (X, E, A) = BODY_60_79 T A B C D X 3 5 11 0;
          (X, D, T) = BODY_60_79 E T A B C X 4 6 12 1;
          (X, C, E) = BODY_60_79 D E T A B X 5 7 13 2;
          (X, B, D) = BODY_60_79 C D E T A X 6 8 14 3;
          (X, A, C) = BODY_60_79 B C D E T X 7 9 15 4;
          (X, T, B) = BODY_60_79 A B C D E X 8 10 0 5;
          (X, E, A) = BODY_60_79 T A B C D X 9 11 1 6;
          (X, D, T) = BODY_60_79 E T A B C X 10 12 2 7;
          (X, C, E) = BODY_60_79 D E T A B X 11 13 3 8;
          (X, B, D) = BODY_60_79 C D E T A X 12 14 4 9;
          (X, A, C) = BODY_60_79 B C D E T X 13 15 5 10;
          (X, T, B) = BODY_60_79 A B C D E X 14 0 6 11;
          (X, E, A) = BODY_60_79 T A B C D X 15 1 7 12
      in (X, E, T, A, B, C, D)))"

definition sha1_block :: "u32 list \<Rightarrow> bytes \<Rightarrow> u32 list" where
  "sha1_block state data =
     (let X = map (\<lambda>i. HOST_c2l_be data (4 * i)) [0..<16];
          (X, E, T, A, B, C, D) =
            sha1_rounds_60_79 (sha1_rounds_40_59 (sha1_rounds_32_39 (sha1_rounds_20_31 (sha1_rounds_16_19
              (sha1_rounds_00_15 (X, state ! 0, state ! 1, state ! 2, state ! 3, state ! 4, 0))))))
      in [state ! 0 + E, state ! 1 + T, state ! 2 + A, state ! 3 + B, state ! 4 + C])"

text \<open>
  The loop tests its counter after a block, \<open>--num == 0\<close>: called with zero blocks, which the
  template never does, it would run for \<open>2 ^ 64\<close> of them.
\<close>

primrec sha1_block_data_order_loop :: "nat \<Rightarrow> u32 list \<Rightarrow> bytes \<Rightarrow> u32 list" where
  "sha1_block_data_order_loop 0 state data = state"
| "sha1_block_data_order_loop (Suc num) state data =
     sha1_block_data_order_loop num (sha1_block state data) (drop HASH_CBLOCK data)"

definition sha1_block_data_order :: "u32 block_function" where
  "sha1_block_data_order state data num =
     sha1_block_data_order_loop (if num = 0 then 2 ^ 64 else num) state data"

definition SHA1_MAKE_STRING :: "md32 \<Rightarrow> bytes" where
  "SHA1_MAKE_STRING c =
     HOST_l2c_be (md_h c ! 0) @ HOST_l2c_be (md_h c ! 1) @ HOST_l2c_be (md_h c ! 2) @
     HOST_l2c_be (md_h c ! 3) @ HOST_l2c_be (md_h c ! 4)"

definition SHA1_Init :: md32 where
  "SHA1_Init =
     \<lparr>md_h = [0x67452301, 0xefcdab89, 0x98badcfe, 0x10325476, 0xc3d2e1f0],
       md_Nl = 0, md_Nh = 0, md_data = replicate HASH_CBLOCK 0, md_num = 0\<rparr>"

definition SHA1_Update :: "md32 \<Rightarrow> bytes \<Rightarrow> md32" where
  "SHA1_Update = HASH_UPDATE sha1_block_data_order"

definition SHA1_Transform :: "md32 \<Rightarrow> bytes \<Rightarrow> md32" where
  "SHA1_Transform = HASH_TRANSFORM sha1_block_data_order"

definition SHA1_Final :: "md32 \<Rightarrow> bytes \<times> md32" where
  "SHA1_Final = HASH_FINAL sha1_block_data_order True SHA1_MAKE_STRING"

definition SHA1 :: "bytes \<Rightarrow> bytes" where
  "SHA1 data = (let ctx = SHA1_Init; ctx = SHA1_Update ctx data; (out, ctx) = SHA1_Final ctx in out)"

section \<open>SHA-256\<close>

record sha256_ctx = md32 +
  sha_md_len :: nat

text \<open>The rows of the table are those of the source.\<close>

definition K256 :: "u32 list" where
  "K256 = concat
     [[0x428a2f98, 0x71374491, 0xb5c0fbcf, 0xe9b5dba5, 0x3956c25b],
      [0x59f111f1, 0x923f82a4, 0xab1c5ed5, 0xd807aa98, 0x12835b01],
      [0x243185be, 0x550c7dc3, 0x72be5d74, 0x80deb1fe, 0x9bdc06a7],
      [0xc19bf174, 0xe49b69c1, 0xefbe4786, 0x0fc19dc6, 0x240ca1cc],
      [0x2de92c6f, 0x4a7484aa, 0x5cb0a9dc, 0x76f988da, 0x983e5152],
      [0xa831c66d, 0xb00327c8, 0xbf597fc7, 0xc6e00bf3, 0xd5a79147],
      [0x06ca6351, 0x14292967, 0x27b70a85, 0x2e1b2138, 0x4d2c6dfc],
      [0x53380d13, 0x650a7354, 0x766a0abb, 0x81c2c92e, 0x92722c85],
      [0xa2bfe8a1, 0xa81a664b, 0xc24b8b70, 0xc76c51a3, 0xd192e819],
      [0xd6990624, 0xf40e3585, 0x106aa070, 0x19a4c116, 0x1e376c08],
      [0x2748774c, 0x34b0bcb5, 0x391c0cb3, 0x4ed8aa4a, 0x5b9cca4f],
      [0x682e6ff3, 0x748f82ee, 0x78a5636f, 0x84c87814, 0x8cc70208],
      [0x90befffa, 0xa4506ceb, 0xbef9a3f7, 0xc67178f2]]"

definition Sigma0_256 :: "u32 \<Rightarrow> u32" where
  "Sigma0_256 x = ROTATE x 30 XOR ROTATE x 19 XOR ROTATE x 10"

definition Sigma1_256 :: "u32 \<Rightarrow> u32" where
  "Sigma1_256 x = ROTATE x 26 XOR ROTATE x 21 XOR ROTATE x 7"

definition sigma0_256 :: "u32 \<Rightarrow> u32" where
  "sigma0_256 x = ROTATE x 25 XOR ROTATE x 14 XOR drop_bit 3 x"

definition sigma1_256 :: "u32 \<Rightarrow> u32" where
  "sigma1_256 x = ROTATE x 15 XOR ROTATE x 13 XOR drop_bit 10 x"

definition Ch_256 :: "u32 \<Rightarrow> u32 \<Rightarrow> u32 \<Rightarrow> u32" where
  "Ch_256 x y z = (x AND y) XOR ((NOT x) AND z)"

definition Maj_256 :: "u32 \<Rightarrow> u32 \<Rightarrow> u32 \<Rightarrow> u32" where
  "Maj_256 x y z = (x AND y) XOR (x AND z) XOR (y AND z)"

definition ROUND_00_15_256 ::
  "u32 \<Rightarrow> nat \<Rightarrow> u32 \<Rightarrow> u32 \<Rightarrow> u32 \<Rightarrow> u32 \<Rightarrow> u32 \<Rightarrow> u32 \<Rightarrow> u32 \<Rightarrow> u32 \<Rightarrow> u32 \<times> u32" where
  "ROUND_00_15_256 T1 i a b c d e f g h =
     (let T1 = T1 + (h + Sigma1_256 e + Ch_256 e f g + K256 ! i);
          h = Sigma0_256 a + Maj_256 a b c;
          d = d + T1;
          h = h + T1
      in (d, h))"

definition ROUND_16_63 ::
  "nat \<Rightarrow> u32 \<Rightarrow> u32 \<Rightarrow> u32 \<Rightarrow> u32 \<Rightarrow> u32 \<Rightarrow> u32 \<Rightarrow> u32 \<Rightarrow> u32 \<Rightarrow> u32 list \<Rightarrow> u32 list \<times> u32 \<times> u32" where
  "ROUND_16_63 i a b c d e f g h X =
     (let s0 = X ! ((i + 1) AND 0x0f);
          s0 = sigma0_256 s0;
          s1 = X ! ((i + 14) AND 0x0f);
          s1 = sigma1_256 s1;
          X = X[i AND 0x0f := X ! (i AND 0x0f) + (s0 + s1 + X ! ((i + 9) AND 0x0f))];
          T1 = X ! (i AND 0x0f);
          (d, h) = ROUND_00_15_256 T1 i a b c d e f g h
      in (X, d, h))"

type_synonym sha256_vars = "u32 list \<times> u32 \<times> u32 \<times> u32 \<times> u32 \<times> u32 \<times> u32 \<times> u32 \<times> u32"

definition sha256_rounds_00_15 :: "sha256_vars \<Rightarrow> sha256_vars" where
  "sha256_rounds_00_15 = (\<lambda>(X, a, b, c, d, e, f, g, h).
     (let
          (d, h) = ROUND_00_15_256 (X ! 0) 0 a b c d e f g h;
          (c, g) = ROUND_00_15_256 (X ! 1) 1 h a b c d e f g;
          (b, f) = ROUND_00_15_256 (X ! 2) 2 g h a b c d e f;
          (a, e) = ROUND_00_15_256 (X ! 3) 3 f g h a b c d e;
          (h, d) = ROUND_00_15_256 (X ! 4) 4 e f g h a b c d;
          (g, c) = ROUND_00_15_256 (X ! 5) 5 d e f g h a b c;
          (f, b) = ROUND_00_15_256 (X ! 6) 6 c d e f g h a b;
          (e, a) = ROUND_00_15_256 (X ! 7) 7 b c d e f g h a;
          (d, h) = ROUND_00_15_256 (X ! 8) 8 a b c d e f g h;
          (c, g) = ROUND_00_15_256 (X ! 9) 9 h a b c d e f g;
          (b, f) = ROUND_00_15_256 (X ! 10) 10 g h a b c d e f;
          (a, e) = ROUND_00_15_256 (X ! 11) 11 f g h a b c d e;
          (h, d) = ROUND_00_15_256 (X ! 12) 12 e f g h a b c d;
          (g, c) = ROUND_00_15_256 (X ! 13) 13 d e f g h a b c;
          (f, b) = ROUND_00_15_256 (X ! 14) 14 c d e f g h a b;
          (e, a) = ROUND_00_15_256 (X ! 15) 15 b c d e f g h a
      in (X, a, b, c, d, e, f, g, h)))"

definition sha256_rounds_i :: "nat \<Rightarrow> sha256_vars \<Rightarrow> sha256_vars" where
  "sha256_rounds_i i = (\<lambda>(X, a, b, c, d, e, f, g, h).
     (let
          (X, d, h) = ROUND_16_63 (i + 0) a b c d e f g h X;
          (X, c, g) = ROUND_16_63 (i + 1) h a b c d e f g X;
          (X, b, f) = ROUND_16_63 (i + 2) g h a b c d e f X;
          (X, a, e) = ROUND_16_63 (i + 3) f g h a b c d e X;
          (X, h, d) = ROUND_16_63 (i + 4) e f g h a b c d X;
          (X, g, c) = ROUND_16_63 (i + 5) d e f g h a b c X;
          (X, f, b) = ROUND_16_63 (i + 6) c d e f g h a b X;
          (X, e, a) = ROUND_16_63 (i + 7) b c d e f g h a X
      in (X, a, b, c, d, e, f, g, h)))"

function sha256_rounds_16_63 :: "nat \<Rightarrow> sha256_vars \<Rightarrow> sha256_vars" where
  "sha256_rounds_16_63 i vars =
     (if i < 64 then sha256_rounds_16_63 (i + 8) (sha256_rounds_i i vars) else vars)"
  by pat_completeness auto
termination by (relation "measure (\<lambda>(i, _). 64 - i)") auto

declare sha256_rounds_16_63.simps [simp del]

definition sha256_block :: "u32 list \<Rightarrow> bytes \<Rightarrow> u32 list" where
  "sha256_block state data =
     (let X = map (\<lambda>i. HOST_c2l_be data (4 * i)) [0..<16];
          (X, a, b, c, d, e, f, g, h) =
            sha256_rounds_16_63 16 (sha256_rounds_00_15
              (X, state ! 0, state ! 1, state ! 2, state ! 3, state ! 4, state ! 5, state ! 6, state ! 7))
      in [state ! 0 + a, state ! 1 + b, state ! 2 + c, state ! 3 + d,
          state ! 4 + e, state ! 5 + f, state ! 6 + g, state ! 7 + h])"

primrec sha256_block_data_order_loop :: "nat \<Rightarrow> u32 list \<Rightarrow> bytes \<Rightarrow> u32 list" where
  "sha256_block_data_order_loop 0 state data = state"
| "sha256_block_data_order_loop (Suc num) state data =
     sha256_block_data_order_loop num (sha256_block state data) (drop HASH_CBLOCK data)"

definition sha256_block_data_order :: "u32 block_function" where
  "sha256_block_data_order state data num = sha256_block_data_order_loop num state data"

definition SHA256_TransformBlocks :: "u32 list \<Rightarrow> bytes \<Rightarrow> nat \<Rightarrow> u32 list" where
  "SHA256_TransformBlocks state data num_blocks = sha256_block_data_order state data num_blocks"

definition SHA256_MAKE_STRING :: "sha256_ctx \<Rightarrow> bytes option" where
  "SHA256_MAKE_STRING c =
     (if sha_md_len c = 28 then Some (concat (map (\<lambda>nn. HOST_l2c_be (md_h c ! nn)) [0..<28 div 4]))
      else if sha_md_len c = 32 then Some (concat (map (\<lambda>nn. HOST_l2c_be (md_h c ! nn)) [0..<32 div 4]))
      else if sha_md_len c > 32 then None
      else Some (concat (map (\<lambda>nn. HOST_l2c_be (md_h c ! nn)) [0..<sha_md_len c div 4])))"

definition SHA224_Init :: sha256_ctx where
  "SHA224_Init =
     \<lparr>md_h = [0xc1059ed8, 0x367cd507, 0x3070dd17, 0xf70e5939, 0xffc00b31, 0x68581511, 0x64f98fa7, 0xbefa4fa4],
       md_Nl = 0, md_Nh = 0, md_data = replicate HASH_CBLOCK 0, md_num = 0, sha_md_len = 28\<rparr>"

definition SHA256_Init :: sha256_ctx where
  "SHA256_Init =
     \<lparr>md_h = [0x6a09e667, 0xbb67ae85, 0x3c6ef372, 0xa54ff53a, 0x510e527f, 0x9b05688c, 0x1f83d9ab, 0x5be0cd19],
       md_Nl = 0, md_Nh = 0, md_data = replicate HASH_CBLOCK 0, md_num = 0, sha_md_len = 32\<rparr>"

definition SHA256_Update :: "sha256_ctx \<Rightarrow> bytes \<Rightarrow> sha256_ctx" where
  "SHA256_Update = HASH_UPDATE sha256_block_data_order"

definition SHA256_Transform :: "sha256_ctx \<Rightarrow> bytes \<Rightarrow> sha256_ctx" where
  "SHA256_Transform = HASH_TRANSFORM sha256_block_data_order"

definition SHA256_Final :: "sha256_ctx \<Rightarrow> bytes option \<times> sha256_ctx" where
  "SHA256_Final = HASH_FINAL sha256_block_data_order True SHA256_MAKE_STRING"

definition SHA224_Update :: "sha256_ctx \<Rightarrow> bytes \<Rightarrow> sha256_ctx" where
  "SHA224_Update ctx data = SHA256_Update ctx data"

definition SHA224_Final :: "sha256_ctx \<Rightarrow> bytes option \<times> sha256_ctx" where
  "SHA224_Final ctx = SHA256_Final ctx"

definition SHA224 :: "bytes \<Rightarrow> bytes option" where
  "SHA224 data = (let ctx = SHA224_Init; ctx = SHA224_Update ctx data; (out, ctx) = SHA224_Final ctx in out)"

definition SHA256 :: "bytes \<Rightarrow> bytes option" where
  "SHA256 data = (let ctx = SHA256_Init; ctx = SHA256_Update ctx data; (out, ctx) = SHA256_Final ctx in out)"

end
