(* ===== verification/Sha512.thy ===== *)
theory Sha512
  imports Digest
begin

text \<open>
  \<open>crypto/fipsmodule/sha/sha512.c\<close>: SHA-384 and SHA-512, with their own collector (the
  128-byte blocks and the 128-bit length do not fit \<open>md32_common.h\<close>).
\<close>

section \<open>Code\<close>

record sha512_ctx =
  sha_h :: "u64 list"
  sha_Nl :: u64
  sha_Nh :: u64
  sha_p :: bytes
  sha_num :: nat
  sha_md_len512 :: nat

definition SHA512_CBLOCK :: nat where
  "SHA512_CBLOCK = 128"

text \<open>The rows of the table are those of the source.\<close>

definition K512 :: "u64 list" where
  "K512 = concat
     [[0x428a2f98d728ae22, 0x7137449123ef65cd], [0xb5c0fbcfec4d3b2f, 0xe9b5dba58189dbbc],
      [0x3956c25bf348b538, 0x59f111f1b605d019], [0x923f82a4af194f9b, 0xab1c5ed5da6d8118],
      [0xd807aa98a3030242, 0x12835b0145706fbe], [0x243185be4ee4b28c, 0x550c7dc3d5ffb4e2],
      [0x72be5d74f27b896f, 0x80deb1fe3b1696b1], [0x9bdc06a725c71235, 0xc19bf174cf692694],
      [0xe49b69c19ef14ad2, 0xefbe4786384f25e3], [0x0fc19dc68b8cd5b5, 0x240ca1cc77ac9c65],
      [0x2de92c6f592b0275, 0x4a7484aa6ea6e483], [0x5cb0a9dcbd41fbd4, 0x76f988da831153b5],
      [0x983e5152ee66dfab, 0xa831c66d2db43210], [0xb00327c898fb213f, 0xbf597fc7beef0ee4],
      [0xc6e00bf33da88fc2, 0xd5a79147930aa725], [0x06ca6351e003826f, 0x142929670a0e6e70],
      [0x27b70a8546d22ffc, 0x2e1b21385c26c926], [0x4d2c6dfc5ac42aed, 0x53380d139d95b3df],
      [0x650a73548baf63de, 0x766a0abb3c77b2a8], [0x81c2c92e47edaee6, 0x92722c851482353b],
      [0xa2bfe8a14cf10364, 0xa81a664bbc423001], [0xc24b8b70d0f89791, 0xc76c51a30654be30],
      [0xd192e819d6ef5218, 0xd69906245565a910], [0xf40e35855771202a, 0x106aa07032bbd1b8],
      [0x19a4c116b8d2d0c8, 0x1e376c085141ab53], [0x2748774cdf8eeb99, 0x34b0bcb5e19b48a8],
      [0x391c0cb3c5c95a63, 0x4ed8aa4ae3418acb], [0x5b9cca4f7763e373, 0x682e6ff3d6b2b8a3],
      [0x748f82ee5defb2fc, 0x78a5636f43172f60], [0x84c87814a1f0ab72, 0x8cc702081a6439ec],
      [0x90befffa23631e28, 0xa4506cebde82bde9], [0xbef9a3f7b2c67915, 0xc67178f2e372532b],
      [0xca273eceea26619c, 0xd186b8c721c0c207], [0xeada7dd6cde0eb1e, 0xf57d4f7fee6ed178],
      [0x06f067aa72176fba, 0x0a637dc5a2c898a6], [0x113f9804bef90dae, 0x1b710b35131c471b],
      [0x28db77f523047d84, 0x32caab7b40c72493], [0x3c9ebe0a15c9bebc, 0x431d67c49c100d4c],
      [0x4cc5d4becb3e42b6, 0x597f299cfc657e2a], [0x5fcb6fab3ad6faec, 0x6c44198c4a475817]]"

definition ROTR :: "u64 \<Rightarrow> nat \<Rightarrow> u64" where
  "ROTR x s = drop_bit s x OR push_bit (64 - s) x"

definition load_u64_be :: "bytes \<Rightarrow> nat \<Rightarrow> u64" where
  "load_u64_be data p = CRYPTO_bswap8 (of_nat (le_val (take 8 (drop p data))))"

definition Sigma0_512 :: "u64 \<Rightarrow> u64" where
  "Sigma0_512 x = ROTR x 28 XOR ROTR x 34 XOR ROTR x 39"

definition Sigma1_512 :: "u64 \<Rightarrow> u64" where
  "Sigma1_512 x = ROTR x 14 XOR ROTR x 18 XOR ROTR x 41"

definition sigma0_512 :: "u64 \<Rightarrow> u64" where
  "sigma0_512 x = ROTR x 1 XOR ROTR x 8 XOR drop_bit 7 x"

definition sigma1_512 :: "u64 \<Rightarrow> u64" where
  "sigma1_512 x = ROTR x 19 XOR ROTR x 61 XOR drop_bit 6 x"

definition Ch_512 :: "u64 \<Rightarrow> u64 \<Rightarrow> u64 \<Rightarrow> u64" where
  "Ch_512 x y z = (x AND y) XOR ((NOT x) AND z)"

definition Maj_512 :: "u64 \<Rightarrow> u64 \<Rightarrow> u64 \<Rightarrow> u64" where
  "Maj_512 x y z = (x AND y) XOR (x AND z) XOR (y AND z)"

definition ROUND_00_15_512 ::
  "u64 \<Rightarrow> nat \<Rightarrow> u64 \<Rightarrow> u64 \<Rightarrow> u64 \<Rightarrow> u64 \<Rightarrow> u64 \<Rightarrow> u64 \<Rightarrow> u64 \<Rightarrow> u64 \<Rightarrow> u64 \<times> u64" where
  "ROUND_00_15_512 T1 i a b c d e f g h =
     (let T1 = T1 + (h + Sigma1_512 e + Ch_512 e f g + K512 ! i);
          h = Sigma0_512 a + Maj_512 a b c;
          d = d + T1;
          h = h + T1
      in (d, h))"

definition ROUND_16_80 ::
  "nat \<Rightarrow> nat \<Rightarrow> u64 \<Rightarrow> u64 \<Rightarrow> u64 \<Rightarrow> u64 \<Rightarrow> u64 \<Rightarrow> u64 \<Rightarrow> u64 \<Rightarrow> u64 \<Rightarrow> u64 list \<Rightarrow> u64 list \<times> u64 \<times> u64" where
  "ROUND_16_80 i j a b c d e f g h X =
     (let s0 = X ! ((j + 1) AND 0x0f);
          s0 = sigma0_512 s0;
          s1 = X ! ((j + 14) AND 0x0f);
          s1 = sigma1_512 s1;
          X = X[j AND 0x0f := X ! (j AND 0x0f) + (s0 + s1 + X ! ((j + 9) AND 0x0f))];
          T1 = X ! (j AND 0x0f);
          (d, h) = ROUND_00_15_512 T1 (i + j) a b c d e f g h
      in (X, d, h))"

type_synonym sha512_vars = "u64 list \<times> u64 \<times> u64 \<times> u64 \<times> u64 \<times> u64 \<times> u64 \<times> u64 \<times> u64"

definition sha512_rounds_00_15 :: "sha512_vars \<Rightarrow> sha512_vars" where
  "sha512_rounds_00_15 = (\<lambda>(X, a, b, c, d, e, f, g, h).
     (let
          (d, h) = ROUND_00_15_512 (X ! 0) 0 a b c d e f g h;
          (c, g) = ROUND_00_15_512 (X ! 1) 1 h a b c d e f g;
          (b, f) = ROUND_00_15_512 (X ! 2) 2 g h a b c d e f;
          (a, e) = ROUND_00_15_512 (X ! 3) 3 f g h a b c d e;
          (h, d) = ROUND_00_15_512 (X ! 4) 4 e f g h a b c d;
          (g, c) = ROUND_00_15_512 (X ! 5) 5 d e f g h a b c;
          (f, b) = ROUND_00_15_512 (X ! 6) 6 c d e f g h a b;
          (e, a) = ROUND_00_15_512 (X ! 7) 7 b c d e f g h a;
          (d, h) = ROUND_00_15_512 (X ! 8) 8 a b c d e f g h;
          (c, g) = ROUND_00_15_512 (X ! 9) 9 h a b c d e f g;
          (b, f) = ROUND_00_15_512 (X ! 10) 10 g h a b c d e f;
          (a, e) = ROUND_00_15_512 (X ! 11) 11 f g h a b c d e;
          (h, d) = ROUND_00_15_512 (X ! 12) 12 e f g h a b c d;
          (g, c) = ROUND_00_15_512 (X ! 13) 13 d e f g h a b c;
          (f, b) = ROUND_00_15_512 (X ! 14) 14 c d e f g h a b;
          (e, a) = ROUND_00_15_512 (X ! 15) 15 b c d e f g h a
      in (X, a, b, c, d, e, f, g, h)))"

definition sha512_rounds_i :: "nat \<Rightarrow> sha512_vars \<Rightarrow> sha512_vars" where
  "sha512_rounds_i i = (\<lambda>(X, a, b, c, d, e, f, g, h).
     (let
          (X, d, h) = ROUND_16_80 i 0 a b c d e f g h X;
          (X, c, g) = ROUND_16_80 i 1 h a b c d e f g X;
          (X, b, f) = ROUND_16_80 i 2 g h a b c d e f X;
          (X, a, e) = ROUND_16_80 i 3 f g h a b c d e X;
          (X, h, d) = ROUND_16_80 i 4 e f g h a b c d X;
          (X, g, c) = ROUND_16_80 i 5 d e f g h a b c X;
          (X, f, b) = ROUND_16_80 i 6 c d e f g h a b X;
          (X, e, a) = ROUND_16_80 i 7 b c d e f g h a X;
          (X, d, h) = ROUND_16_80 i 8 a b c d e f g h X;
          (X, c, g) = ROUND_16_80 i 9 h a b c d e f g X;
          (X, b, f) = ROUND_16_80 i 10 g h a b c d e f X;
          (X, a, e) = ROUND_16_80 i 11 f g h a b c d e X;
          (X, h, d) = ROUND_16_80 i 12 e f g h a b c d X;
          (X, g, c) = ROUND_16_80 i 13 d e f g h a b c X;
          (X, f, b) = ROUND_16_80 i 14 c d e f g h a b X;
          (X, e, a) = ROUND_16_80 i 15 b c d e f g h a X
      in (X, a, b, c, d, e, f, g, h)))"

function sha512_rounds_16_80 :: "nat \<Rightarrow> sha512_vars \<Rightarrow> sha512_vars" where
  "sha512_rounds_16_80 i vars =
     (if i < 80 then sha512_rounds_16_80 (i + 16) (sha512_rounds_i i vars) else vars)"
  by pat_completeness auto
termination by (relation "measure (\<lambda>(i, _). 80 - i)") auto

declare sha512_rounds_16_80.simps [simp del]

definition sha512_block :: "u64 list \<Rightarrow> bytes \<Rightarrow> u64 list" where
  "sha512_block state data =
     (let X = map (\<lambda>i. load_u64_be data (8 * i)) [0..<16];
          (X, a, b, c, d, e, f, g, h) =
            sha512_rounds_16_80 16 (sha512_rounds_00_15
              (X, state ! 0, state ! 1, state ! 2, state ! 3, state ! 4, state ! 5, state ! 6, state ! 7))
      in [state ! 0 + a, state ! 1 + b, state ! 2 + c, state ! 3 + d,
          state ! 4 + e, state ! 5 + f, state ! 6 + g, state ! 7 + h])"

primrec sha512_block_data_order_loop :: "nat \<Rightarrow> u64 list \<Rightarrow> bytes \<Rightarrow> u64 list" where
  "sha512_block_data_order_loop 0 state data = state"
| "sha512_block_data_order_loop (Suc num) state data =
     sha512_block_data_order_loop num (sha512_block state data) (drop SHA512_CBLOCK data)"

definition sha512_block_data_order :: "u64 block_function" where
  "sha512_block_data_order state data num = sha512_block_data_order_loop num state data"

text \<open>The initialisers leave the buffer \<open>p\<close> as it was.\<close>

definition SHA384_Init :: "sha512_ctx \<Rightarrow> sha512_ctx" where
  "SHA384_Init sha = sha\<lparr>sha_h :=
      [0xcbbb9d5dc1059ed8, 0x629a292a367cd507, 0x9159015a3070dd17, 0x152fecd8f70e5939,
       0x67332667ffc00b31, 0x8eb44a8768581511, 0xdb0c2e0d64f98fa7, 0x47b5481dbefa4fa4],
     sha_Nl := 0, sha_Nh := 0, sha_num := 0, sha_md_len512 := 48\<rparr>"

definition SHA512_Init :: "sha512_ctx \<Rightarrow> sha512_ctx" where
  "SHA512_Init sha = sha\<lparr>sha_h :=
      [0x6a09e667f3bcc908, 0xbb67ae8584caa73b, 0x3c6ef372fe94f82b, 0xa54ff53a5f1d36f1,
       0x510e527fade682d1, 0x9b05688c2b3e6c1f, 0x1f83d9abfb41bd6b, 0x5be0cd19137e2179],
     sha_Nl := 0, sha_Nh := 0, sha_num := 0, sha_md_len512 := 64\<rparr>"

definition SHA512_Transform :: "sha512_ctx \<Rightarrow> bytes \<Rightarrow> sha512_ctx" where
  "SHA512_Transform c block = c\<lparr>sha_h := sha512_block_data_order (sha_h c) block 1\<rparr>"

definition sha512_update_blocks :: "bytes \<Rightarrow> sha512_ctx \<Rightarrow> sha512_ctx" where
  "sha512_update_blocks data c =
     (let (c, data) =
            (if length data \<ge> SHA512_CBLOCK
             then (c\<lparr>sha_h := sha512_block_data_order (sha_h c) data (length data div SHA512_CBLOCK)\<rparr>,
                   drop (length data - length data mod SHA512_CBLOCK) data)
             else (c, data))
      in if length data \<noteq> 0
         then c\<lparr>sha_p := mem_write (sha_p c) 0 data, sha_num := length data\<rparr>
         else c)"

definition SHA512_Update :: "sha512_ctx \<Rightarrow> bytes \<Rightarrow> sha512_ctx" where
  "SHA512_Update c data =
     (if length data = 0 then c
      else
        let l = (sha_Nl c + push_bit 3 (of_nat (length data))) AND 0xffffffffffffffff;
            c = (if l < sha_Nl c then c\<lparr>sha_Nh := sha_Nh c + 1\<rparr> else c);
            c = c\<lparr>sha_Nh := sha_Nh c + of_nat (length data div 2 ^ 61)\<rparr>;
            c = c\<lparr>sha_Nl := l\<rparr>
        in if sha_num c \<noteq> 0 then
             let n = SHA512_CBLOCK - sha_num c
             in if length data < n
                then c\<lparr>sha_p := mem_write (sha_p c) (sha_num c) data, sha_num := sha_num c + length data\<rparr>
                else
                  let c = c\<lparr>sha_p := mem_write (sha_p c) (sha_num c) (take n data), sha_num := 0\<rparr>;
                      data = drop n data;
                      c = c\<lparr>sha_h := sha512_block_data_order (sha_h c) (sha_p c) 1\<rparr>
                  in sha512_update_blocks data c
           else sha512_update_blocks data c)"

definition sha512_put_u64 :: "u64 \<Rightarrow> bytes" where
  "sha512_put_u64 t =
     [ucast (drop_bit 56 t), ucast (drop_bit 48 t), ucast (drop_bit 40 t), ucast (drop_bit 32 t),
      ucast (drop_bit 24 t), ucast (drop_bit 16 t), ucast (drop_bit 8 t), ucast t]"

definition SHA512_Final :: "bool \<Rightarrow> sha512_ctx \<Rightarrow> bytes option \<times> sha512_ctx" where
  "SHA512_Final out_is_null sha =
     (let n = sha_num sha;
          sha = sha\<lparr>sha_p := (sha_p sha)[n := 0x80]\<rparr>;
          n = n + 1;
          (n, sha) =
            (if n > SHA512_CBLOCK - 16
             then
               let sha = sha\<lparr>sha_p := mem_write (sha_p sha) n (replicate (SHA512_CBLOCK - n) 0)\<rparr>;
                   sha = sha\<lparr>sha_h := sha512_block_data_order (sha_h sha) (sha_p sha) 1\<rparr>
               in (0, sha)
             else (n, sha));
          sha = sha\<lparr>sha_p := mem_write (sha_p sha) n (replicate (SHA512_CBLOCK - 16 - n) 0)\<rparr>;
          sha = sha\<lparr>sha_p := mem_write (sha_p sha) (SHA512_CBLOCK - 8) (sha512_put_u64 (sha_Nl sha))\<rparr>;
          sha = sha\<lparr>sha_p := mem_write (sha_p sha) (SHA512_CBLOCK - 16) (sha512_put_u64 (sha_Nh sha))\<rparr>;
          sha = sha\<lparr>sha_h := sha512_block_data_order (sha_h sha) (sha_p sha) 1\<rparr>
      in if out_is_null then (None, sha)
         else if sha_md_len512 sha = 48
         then (Some (concat (map (\<lambda>n. sha512_put_u64 (sha_h sha ! n)) [0..<48 div 8])), sha)
         else if sha_md_len512 sha = 64
         then (Some (concat (map (\<lambda>n. sha512_put_u64 (sha_h sha ! n)) [0..<64 div 8])), sha)
         else (None, sha))"

definition SHA384_Update :: "sha512_ctx \<Rightarrow> bytes \<Rightarrow> sha512_ctx" where
  "SHA384_Update sha data = SHA512_Update sha data"

definition SHA384_Final :: "bool \<Rightarrow> sha512_ctx \<Rightarrow> bytes option \<times> sha512_ctx" where
  "SHA384_Final out_is_null sha = SHA512_Final out_is_null sha"

text \<open>The one-shot functions start from a context on the stack, with any contents.\<close>

definition SHA384 :: "sha512_ctx \<Rightarrow> bytes \<Rightarrow> bytes option" where
  "SHA384 stack data =
     (let ctx = SHA384_Init stack; ctx = SHA384_Update ctx data; (out, ctx) = SHA384_Final False ctx in out)"

definition SHA512 :: "sha512_ctx \<Rightarrow> bytes \<Rightarrow> bytes option" where
  "SHA512 stack data =
     (let ctx = SHA512_Init stack; ctx = SHA512_Update ctx data; (out, ctx) = SHA512_Final False ctx in out)"

end
