(* ===== verification/Schedule.thy ===== *)
theory Schedule
  imports Prelude
begin

text \<open>
  The message schedules of SHA-1 and SHA-2 and the ring of sixteen words in which the code
  keeps the part of the schedule it still needs.
\<close>

section \<open>Message schedules\<close>

text \<open>
  FIPS 180-4 expands the sixteen words of a block into a schedule \<open>W\<close>; the code keeps the
  last sixteen words of it in a ring.
\<close>

primrec message_schedule :: "('w list \<Rightarrow> nat \<Rightarrow> 'w) \<Rightarrow> 'w list \<Rightarrow> nat \<Rightarrow> 'w list" where
  "message_schedule next M 0 = M"
| "message_schedule next M (Suc n) =
     (let W = message_schedule next M n in W @ [next W (length W)])"

definition window :: "'w list \<Rightarrow> 'w list \<Rightarrow> nat \<Rightarrow> bool" where
  "window X W t \<longleftrightarrow> length X = 16 \<and> (\<forall>u < t. t \<le> u + 16 \<longrightarrow> X ! (u mod 16) = W ! u)"

lemma length_message_schedule [simp]: "length (message_schedule next M n) = length M + n"
  by (induction n) (simp_all add: Let_def)

lemma message_schedule_prefix:
  "i < length M + n \<Longrightarrow> n \<le> m \<Longrightarrow> message_schedule next M m ! i = message_schedule next M n ! i"
proof (induction m)
  case (Suc m)
  then show ?case by (cases "n = Suc m") (auto simp: Let_def nth_append)
qed simp

lemma message_schedule_next:
  assumes "length M \<le> t" "t < length M + n"
  shows "message_schedule next M n ! t = next (message_schedule next M (t - length M)) t"
proof -
  have "message_schedule next M n ! t = message_schedule next M (Suc (t - length M)) ! t"
    using assms by (intro message_schedule_prefix) simp_all
  then show ?thesis using assms by (simp add: Let_def nth_append)
qed

lemma message_schedule_block: "i < length M \<Longrightarrow> message_schedule next M n ! i = M ! i"
  using message_schedule_prefix [of i M 0 n "next"] by simp

lemma window_start:
  assumes "length M = 16" shows "window M (message_schedule next M n) 16"
  using assms by (simp add: window_def message_schedule_block)

lemma window_step:
  assumes "window X W t" shows "window (X[t mod 16 := W ! t]) W (Suc t)"
proof -
  have "X[t mod 16 := W ! t] ! (u mod 16) = W ! u" if "u < Suc t" "Suc t \<le> u + 16" for u
  proof (cases "u = t")
    case False
    have "u mod 16 \<noteq> t mod 16"
    proof
      assume "u mod 16 = t mod 16"
      then have "16 dvd t - u" using that mod_eq_dvd_iff_nat [of u t 16] by simp
      then have "16 \<le> t - u" using that False by (intro dvd_imp_le) simp_all
      then show False using that by simp
    qed
    then show ?thesis using assms that False by (simp add: window_def)
  qed (use assms in \<open>simp add: window_def\<close>)
  then show ?thesis using assms by (simp add: window_def)
qed

lemma window_nth:
  assumes "window X W t" "16 \<le> t" "j < 16"
  shows "X ! ((t + j) mod 16) = W ! (t + j - 16)"
proof -
  have "X ! ((t + j - 16) mod 16) = W ! (t + j - 16)"
    using assms by (simp add: window_def)
  then show ?thesis using assms(2) by (simp add: le_mod_geq)
qed

lemma window_length: "window X W t \<Longrightarrow> length X = 16"
  by (simp add: window_def)

text \<open>Rounds that read and advance the ring are the rounds over the schedule.\<close>

lemma rolled_rounds:
  assumes step: "\<And>t v. m \<le> t \<Longrightarrow> t < n \<Longrightarrow> window (fst v) W t \<Longrightarrow>
      window (fst (step v (idx t))) W (Suc t) \<and> proj (step v (idx t)) = ref (proj v) t"
    and "m \<le> n" "window (fst v) W m"
  shows "window (fst (foldl step v (map idx [m..<n]))) W n \<and>
    proj (foldl step v (map idx [m..<n])) = foldl ref (proj v) [m..<n]"
  using assms(2) step
proof (induction n rule: dec_induct)
  case base
  then show ?case using assms(3) by simp
next
  case (step k)
  then have "window (fst (foldl step v (map idx [m..<k]))) W k \<and>
      proj (foldl step v (map idx [m..<k])) = foldl ref (proj v) [m..<k]" by simp
  then show ?case using step.prems [of k] step.hyps by simp
qed

end
