(* ===== verification/Sha1_Fips.thy ===== *)
theory Sha1_Fips
  imports Sha Schedule
begin

text \<open>
  SHA-1 as FIPS 180-4 defines it, and the proof that the unrolled \<open>sha1_block_data_order\<close> with
  its ring of sixteen words computes it.
\<close>

section \<open>SHA-1 in FIPS 180-4\<close>

definition fips_sha1_f :: "nat \<Rightarrow> u32 \<Rightarrow> u32 \<Rightarrow> u32 \<Rightarrow> u32" where
  "fips_sha1_f t x y z =
     (if t < 20 then (x AND y) XOR (NOT x AND z)
      else if 40 \<le> t \<and> t < 60 then (x AND y) XOR (x AND z) XOR (y AND z)
      else x XOR y XOR z)"

definition fips_sha1_K :: "nat \<Rightarrow> u32" where
  "fips_sha1_K t =
     (if t < 20 then 0x5a827999 else if t < 40 then 0x6ed9eba1 else if t < 60 then 0x8f1bbcdc else 0xca62c1d6)"

definition fips_sha1_next :: "u32 list \<Rightarrow> nat \<Rightarrow> u32" where
  "fips_sha1_next W t = ROTATE (W ! (t - 3) XOR W ! (t - 8) XOR W ! (t - 14) XOR W ! (t - 16)) 1"

definition fips_sha1_step ::
  "u32 list \<Rightarrow> u32 \<times> u32 \<times> u32 \<times> u32 \<times> u32 \<Rightarrow> nat \<Rightarrow> u32 \<times> u32 \<times> u32 \<times> u32 \<times> u32" where
  "fips_sha1_step W = (\<lambda>(a, b, c, d, e) t.
     (ROTATE a 5 + fips_sha1_f t b c d + e + fips_sha1_K t + W ! t, a, ROTATE b 30, c, d))"

definition fips_sha1_compress :: "u32 list \<Rightarrow> bytes \<Rightarrow> u32 list" where
  "fips_sha1_compress s M =
     (let W = message_schedule fips_sha1_next (words_be M) 64;
          (a, b, c, d, e) = foldl (fips_sha1_step W) (s ! 0, s ! 1, s ! 2, s ! 3, s ! 4) [0..<80]
      in [s ! 0 + a, s ! 1 + b, s ! 2 + c, s ! 3 + d, s ! 4 + e])"

definition fips_sha1 :: "bytes \<Rightarrow> bytes" where
  "fips_sha1 m = concat (map (\<lambda>w. be_bytes 4 (unat w))
     (absorb fips_sha1_compress 64 [0x67452301, 0xefcdab89, 0x98badcfe, 0x10325476, 0xc3d2e1f0]
       (m @ md_padding True (length m))))"

text \<open>The unrolled code, rolled up again: one step per call of a macro.\<close>

definition sha1_step_00_15 :: "sha1_vars \<Rightarrow> nat \<Rightarrow> sha1_vars" where
  "sha1_step_00_15 = (\<lambda>(X, a, b, c, d, e, f) t.
     let (f, b) = BODY_00_15 a b c d e (X ! t) in (X, f, a, b, c, d, e))"

definition ring_indices :: "nat \<Rightarrow> nat \<times> nat \<times> nat \<times> nat" where
  "ring_indices t = (t mod 16, (t + 2) mod 16, (t + 8) mod 16, (t + 13) mod 16)"

definition sha1_step_16_19 :: "sha1_vars \<Rightarrow> nat \<times> nat \<times> nat \<times> nat \<Rightarrow> sha1_vars" where
  "sha1_step_16_19 = (\<lambda>(X, a, b, c, d, e, f) (xa, xb, xc, xd).
     let (X, f, b) = BODY_16_19 a b c d e X xa xa xb xc xd in (X, f, a, b, c, d, e))"

definition sha1_step_20_31 :: "sha1_vars \<Rightarrow> nat \<times> nat \<times> nat \<times> nat \<Rightarrow> sha1_vars" where
  "sha1_step_20_31 = (\<lambda>(X, a, b, c, d, e, f) (xa, xb, xc, xd).
     let (X, f, b) = BODY_20_31 a b c d e X xa xa xb xc xd in (X, f, a, b, c, d, e))"

definition sha1_step_32_39 :: "sha1_vars \<Rightarrow> nat \<times> nat \<times> nat \<times> nat \<Rightarrow> sha1_vars" where
  "sha1_step_32_39 = (\<lambda>(X, a, b, c, d, e, f) (xa, xb, xc, xd).
     let (X, f, b) = BODY_32_39 a b c d e X xa xb xc xd in (X, f, a, b, c, d, e))"

definition sha1_step_40_59 :: "sha1_vars \<Rightarrow> nat \<times> nat \<times> nat \<times> nat \<Rightarrow> sha1_vars" where
  "sha1_step_40_59 = (\<lambda>(X, a, b, c, d, e, f) (xa, xb, xc, xd).
     let (X, f, b) = BODY_40_59 a b c d e X xa xb xc xd in (X, f, a, b, c, d, e))"

definition sha1_step_60_79 :: "sha1_vars \<Rightarrow> nat \<times> nat \<times> nat \<times> nat \<Rightarrow> sha1_vars" where
  "sha1_step_60_79 = (\<lambda>(X, a, b, c, d, e, f) (xa, xb, xc, xd).
     let (X, f, b) = BODY_60_79 a b c d e X xa xb xc xd in (X, f, a, b, c, d, e))"

lemma ring_indices_values:
  "map ring_indices [16..<20] =
   [(0, 2, 8, 13), (1, 3, 9, 14), (2, 4, 10, 15), (3, 5, 11, 0)]"
  "map ring_indices [20..<32] =
   [(4, 6, 12, 1), (5, 7, 13, 2), (6, 8, 14, 3), (7, 9, 15, 4), (8, 10, 0, 5),
    (9, 11, 1, 6), (10, 12, 2, 7), (11, 13, 3, 8), (12, 14, 4, 9), (13, 15, 5, 10),
    (14, 0, 6, 11), (15, 1, 7, 12)]"
  "map ring_indices [32..<40] =
   [(0, 2, 8, 13), (1, 3, 9, 14), (2, 4, 10, 15), (3, 5, 11, 0), (4, 6, 12, 1),
    (5, 7, 13, 2), (6, 8, 14, 3), (7, 9, 15, 4)]"
  "map ring_indices [40..<60] =
   [(8, 10, 0, 5), (9, 11, 1, 6), (10, 12, 2, 7), (11, 13, 3, 8), (12, 14, 4, 9),
    (13, 15, 5, 10), (14, 0, 6, 11), (15, 1, 7, 12), (0, 2, 8, 13), (1, 3, 9, 14),
    (2, 4, 10, 15), (3, 5, 11, 0), (4, 6, 12, 1), (5, 7, 13, 2), (6, 8, 14, 3),
    (7, 9, 15, 4), (8, 10, 0, 5), (9, 11, 1, 6), (10, 12, 2, 7), (11, 13, 3, 8)]"
  "map ring_indices [60..<80] =
   [(12, 14, 4, 9), (13, 15, 5, 10), (14, 0, 6, 11), (15, 1, 7, 12), (0, 2, 8, 13),
    (1, 3, 9, 14), (2, 4, 10, 15), (3, 5, 11, 0), (4, 6, 12, 1), (5, 7, 13, 2),
    (6, 8, 14, 3), (7, 9, 15, 4), (8, 10, 0, 5), (9, 11, 1, 6), (10, 12, 2, 7),
    (11, 13, 3, 8), (12, 14, 4, 9), (13, 15, 5, 10), (14, 0, 6, 11), (15, 1, 7, 12)]"
  by (simp_all add: upt_rec ring_indices_def)

lemma sha1_step_unroll:
  "foldl sha1_step_00_15 (X, a, b, c, d, e, f) (t # us) =
    (let (f, b) = BODY_00_15 a b c d e (X ! t) in foldl sha1_step_00_15 (X, f, a, b, c, d, e) us)"
  "foldl sha1_step_16_19 (X, a, b, c, d, e, f) ((xa, xb, xc, xd) # ts) =
    (let (X, f, b) = BODY_16_19 a b c d e X xa xa xb xc xd in foldl sha1_step_16_19 (X, f, a, b, c, d, e) ts)"
  "foldl sha1_step_20_31 (X, a, b, c, d, e, f) ((xa, xb, xc, xd) # ts) =
    (let (X, f, b) = BODY_20_31 a b c d e X xa xa xb xc xd in foldl sha1_step_20_31 (X, f, a, b, c, d, e) ts)"
  "foldl sha1_step_32_39 (X, a, b, c, d, e, f) ((xa, xb, xc, xd) # ts) =
    (let (X, f, b) = BODY_32_39 a b c d e X xa xb xc xd in foldl sha1_step_32_39 (X, f, a, b, c, d, e) ts)"
  "foldl sha1_step_40_59 (X, a, b, c, d, e, f) ((xa, xb, xc, xd) # ts) =
    (let (X, f, b) = BODY_40_59 a b c d e X xa xb xc xd in foldl sha1_step_40_59 (X, f, a, b, c, d, e) ts)"
  "foldl sha1_step_60_79 (X, a, b, c, d, e, f) ((xa, xb, xc, xd) # ts) =
    (let (X, f, b) = BODY_60_79 a b c d e X xa xb xc xd in foldl sha1_step_60_79 (X, f, a, b, c, d, e) ts)"
  by (simp_all add: sha1_step_00_15_def sha1_step_16_19_def sha1_step_20_31_def sha1_step_32_39_def sha1_step_40_59_def sha1_step_60_79_def split: prod.split)

lemma sha1_rounds_rolled:
  "sha1_rounds_00_15 (X, A, B, C, D, E, T) = foldl sha1_step_00_15 (X, A, B, C, D, E, T) [0..<16]"
  "sha1_rounds_16_19 (X, A, B, C, D, E, T) = foldl sha1_step_16_19 (X, A, B, C, D, E, T) (map ring_indices [16..<20])"
  "sha1_rounds_20_31 (X, A, B, C, D, E, T) = foldl sha1_step_20_31 (X, A, B, C, D, E, T) (map ring_indices [20..<32])"
  "sha1_rounds_32_39 (X, A, B, C, D, E, T) = foldl sha1_step_32_39 (X, A, B, C, D, E, T) (map ring_indices [32..<40])"
  "sha1_rounds_40_59 (X, A, B, C, D, E, T) = foldl sha1_step_40_59 (X, A, B, C, D, E, T) (map ring_indices [40..<60])"
  "sha1_rounds_60_79 (X, A, B, C, D, E, T) = foldl sha1_step_60_79 (X, A, B, C, D, E, T) (map ring_indices [60..<80])"
  unfolding ring_indices_values upt_16 sha1_step_unroll foldl.simps(1) sha1_rounds_00_15_def
    sha1_rounds_16_19_def sha1_rounds_20_31_def sha1_rounds_32_39_def sha1_rounds_40_59_def sha1_rounds_60_79_def prod.case
  by (rule refl)+

definition sha1_words :: "sha1_vars \<Rightarrow> u32 \<times> u32 \<times> u32 \<times> u32 \<times> u32" where
  "sha1_words = (\<lambda>(X, a, b, c, d, e, f). (a, b, c, d, e))"

lemma sha1_f:
  "F_00_19 b c d = (b AND c) XOR (NOT b AND d)" "F_20_39 b c d = b XOR c XOR d"
  "F_40_59 b c d = (b AND c) XOR (b AND d) XOR (c AND d)" "F_60_79 b c d = b XOR c XOR d"
  by (auto simp: F_00_19_def F_20_39_def F_40_59_def F_60_79_def bit_simps intro!: bit_word_eqI)

lemma Xupdate_window:
  assumes M: "length M = 16" and W: "W = message_schedule fips_sha1_next M 64"
    and "window X W t" "16 \<le> t" "t < 80"
  shows "Xupdate X (t mod 16) (t mod 16) ((t + 2) mod 16) ((t + 8) mod 16) ((t + 13) mod 16) =
    (X[t mod 16 := W ! t], W ! t)"
proof -
  have s: "message_schedule fips_sha1_next M (t - 16) ! (t - k) = W ! (t - k)" if "0 < k" "k \<le> 16" for k
    unfolding W using that assms(4,5) M by (intro message_schedule_prefix [symmetric]) simp_all
  have "W ! t = fips_sha1_next (message_schedule fips_sha1_next M (t - 16)) t"
    unfolding W using message_schedule_next [of M t 64 fips_sha1_next] assms(4,5) M by simp
  then have "W ! t = ROTATE (W ! (t - 3) XOR W ! (t - 8) XOR W ! (t - 14) XOR W ! (t - 16)) 1"
    by (simp add: fips_sha1_next_def s)
  moreover have "X ! (t mod 16) = W ! (t - 16)" "X ! ((t + 2) mod 16) = W ! (t - 14)"
    "X ! ((t + 8) mod 16) = W ! (t - 8)" "X ! ((t + 13) mod 16) = W ! (t - 3)"
    using window_nth [OF assms(3,4), of 0] window_nth [OF assms(3,4), of 2]
      window_nth [OF assms(3,4), of 8] window_nth [OF assms(3,4), of 13] by simp_all
  ultimately show ?thesis by (simp add: Xupdate_def Let_def ac_simps)
qed

lemma sha1_step_fips:
  assumes "length M = 16" "W = message_schedule fips_sha1_next M 64" "window (fst v) W t"
  shows
"16 \<le> t \<Longrightarrow> t < 20 \<Longrightarrow> window (fst (sha1_step_16_19 v (ring_indices t))) W (Suc t) \<and>
      sha1_words (sha1_step_16_19 v (ring_indices t)) = fips_sha1_step W (sha1_words v) t"
    and "20 \<le> t \<Longrightarrow> t < 32 \<Longrightarrow> window (fst (sha1_step_20_31 v (ring_indices t))) W (Suc t) \<and>
      sha1_words (sha1_step_20_31 v (ring_indices t)) = fips_sha1_step W (sha1_words v) t"
    and "32 \<le> t \<Longrightarrow> t < 40 \<Longrightarrow> window (fst (sha1_step_32_39 v (ring_indices t))) W (Suc t) \<and>
      sha1_words (sha1_step_32_39 v (ring_indices t)) = fips_sha1_step W (sha1_words v) t"
    and "40 \<le> t \<Longrightarrow> t < 60 \<Longrightarrow> window (fst (sha1_step_40_59 v (ring_indices t))) W (Suc t) \<and>
      sha1_words (sha1_step_40_59 v (ring_indices t)) = fips_sha1_step W (sha1_words v) t"
    and "60 \<le> t \<Longrightarrow> t < 80 \<Longrightarrow> window (fst (sha1_step_60_79 v (ring_indices t))) W (Suc t) \<and>
      sha1_words (sha1_step_60_79 v (ring_indices t)) = fips_sha1_step W (sha1_words v) t"
proof -
  obtain X a b c d e f where v: "v = (X, a, b, c, d, e, f)" by (cases v)
  note X = window_step [OF assms(3)] window_length [OF assms(3)] Xupdate_window [OF assms]
  note defs = v ring_indices_def sha1_words_def fips_sha1_step_def fips_sha1_f_def fips_sha1_K_def sha1_f
    K_00_19_def K_20_39_def K_40_59_def K_60_79_def Let_def ac_simps
  show "16 \<le> t \<Longrightarrow> t < 20 \<Longrightarrow> window (fst (sha1_step_16_19 v (ring_indices t))) W (Suc t) \<and>
      sha1_words (sha1_step_16_19 v (ring_indices t)) = fips_sha1_step W (sha1_words v) t"
    using X by (simp add: sha1_step_16_19_def BODY_16_19_def defs)
  show "20 \<le> t \<Longrightarrow> t < 32 \<Longrightarrow> window (fst (sha1_step_20_31 v (ring_indices t))) W (Suc t) \<and>
      sha1_words (sha1_step_20_31 v (ring_indices t)) = fips_sha1_step W (sha1_words v) t"
    using X by (simp add: sha1_step_20_31_def BODY_20_31_def defs)
  show "32 \<le> t \<Longrightarrow> t < 40 \<Longrightarrow> window (fst (sha1_step_32_39 v (ring_indices t))) W (Suc t) \<and>
      sha1_words (sha1_step_32_39 v (ring_indices t)) = fips_sha1_step W (sha1_words v) t"
    using X by (simp add: sha1_step_32_39_def BODY_32_39_def defs)
  show "40 \<le> t \<Longrightarrow> t < 60 \<Longrightarrow> window (fst (sha1_step_40_59 v (ring_indices t))) W (Suc t) \<and>
      sha1_words (sha1_step_40_59 v (ring_indices t)) = fips_sha1_step W (sha1_words v) t"
    using X by (simp add: sha1_step_40_59_def BODY_40_59_def defs)
  show "60 \<le> t \<Longrightarrow> t < 80 \<Longrightarrow> window (fst (sha1_step_60_79 v (ring_indices t))) W (Suc t) \<and>
      sha1_words (sha1_step_60_79 v (ring_indices t)) = fips_sha1_step W (sha1_words v) t"
    using X by (simp add: sha1_step_60_79_def BODY_60_79_def defs)
qed

lemma sha1_first_rounds:
  assumes "length M = 16" "W = message_schedule fips_sha1_next M 64" "n \<le> 16"
  shows "fst (foldl sha1_step_00_15 (M, v) [0..<n]) = M \<and>
    sha1_words (foldl sha1_step_00_15 (M, v) [0..<n]) = foldl (fips_sha1_step W) (sha1_words (M, v)) [0..<n]"
  using assms(3)
proof (induction n)
  case (Suc n)
  have "W ! n = M ! n" using assms Suc.prems by (simp add: message_schedule_block)
  then have "fst (sha1_step_00_15 u n) = M \<and> sha1_words (sha1_step_00_15 u n) = fips_sha1_step W (sha1_words u) n"
    if "fst u = M" for u
    using Suc.prems that by (cases u) (simp add: sha1_step_00_15_def BODY_00_15_def sha1_words_def
        fips_sha1_step_def fips_sha1_f_def fips_sha1_K_def sha1_f K_00_19_def Let_def ac_simps)
  then show ?case using Suc by simp
qed simp

lemma sha1_rounds_fips:
  assumes M: "length M = 16" and W: "W = message_schedule fips_sha1_next M 64"
    and v_def: "v = sha1_rounds_60_79 (sha1_rounds_40_59 (sha1_rounds_32_39 (sha1_rounds_20_31 (sha1_rounds_16_19
      (sha1_rounds_00_15 (M, A, B, C, D, E, T))))))"
  shows "sha1_words v = foldl (fips_sha1_step W) (A, B, C, D, E) [0..<80]"
proof -
  define v0 where "v0 = foldl sha1_step_00_15 (M, A, B, C, D, E, T) [0..<16]"
  define v1 where "v1 = foldl sha1_step_16_19 v0 (map ring_indices [16..<20])"
  define v2 where "v2 = foldl sha1_step_20_31 v1 (map ring_indices [20..<32])"
  define v3 where "v3 = foldl sha1_step_32_39 v2 (map ring_indices [32..<40])"
  define v4 where "v4 = foldl sha1_step_40_59 v3 (map ring_indices [40..<60])"
  define v5 where "v5 = foldl sha1_step_60_79 v4 (map ring_indices [60..<80])"
  have rolled: "sha1_rounds_16_19 x = foldl sha1_step_16_19 x (map ring_indices [16..<20])"
    "sha1_rounds_20_31 x = foldl sha1_step_20_31 x (map ring_indices [20..<32])"
    "sha1_rounds_32_39 x = foldl sha1_step_32_39 x (map ring_indices [32..<40])"
    "sha1_rounds_40_59 x = foldl sha1_step_40_59 x (map ring_indices [40..<60])"
    "sha1_rounds_60_79 x = foldl sha1_step_60_79 x (map ring_indices [60..<80])" for x
    by (cases x, simp only: sha1_rounds_rolled)+
  have v: "v = v5"
    unfolding v_def v5_def v4_def v3_def v2_def v1_def v0_def rolled sha1_rounds_rolled(1) ..
  note step = sha1_step_fips [OF M W]
  have 0: "window (fst v0) W 16 \<and> sha1_words v0 = foldl (fips_sha1_step W) (A, B, C, D, E) [0..<16]"
    using sha1_first_rounds [OF M W order_refl, of "(A, B, C, D, E, T)"] window_start [OF M] W
    by (simp add: v0_def sha1_words_def)
  then have 1: "window (fst v1) W 20 \<and> sha1_words v1 = foldl (fips_sha1_step W) (sha1_words v0) [16..<20]"
    unfolding v1_def by (intro rolled_rounds step) simp_all
  then have 2: "window (fst v2) W 32 \<and> sha1_words v2 = foldl (fips_sha1_step W) (sha1_words v1) [20..<32]"
    unfolding v2_def by (intro rolled_rounds step) simp_all
  then have 3: "window (fst v3) W 40 \<and> sha1_words v3 = foldl (fips_sha1_step W) (sha1_words v2) [32..<40]"
    unfolding v3_def by (intro rolled_rounds step) simp_all
  then have 4: "window (fst v4) W 60 \<and> sha1_words v4 = foldl (fips_sha1_step W) (sha1_words v3) [40..<60]"
    unfolding v4_def by (intro rolled_rounds step) simp_all
  then have 5: "window (fst v5) W 80 \<and> sha1_words v5 = foldl (fips_sha1_step W) (sha1_words v4) [60..<80]"
    unfolding v5_def by (intro rolled_rounds step) simp_all
  have "[0..<80] = [0..<16] @ [16..<20] @ [20..<32] @ [32..<40] @ [40..<60] @ [60..<80::nat]"
    by (simp add: upt_rec)
  then show ?thesis using 0 1 2 3 4 5 by (simp only: v foldl_append)
qed

lemma sha1_block_fips:
  assumes "64 \<le> length b" shows "sha1_block s b = fips_sha1_compress s b"
proof -
  have len: "length (words_be b) = 16" by (simp add: words_be_def)
  obtain X x0 x1 x2 x3 x4 x5 where v: "sha1_rounds_60_79 (sha1_rounds_40_59 (sha1_rounds_32_39 (sha1_rounds_20_31
      (sha1_rounds_16_19 (sha1_rounds_00_15 (words_be b, s ! 0, s ! 1, s ! 2, s ! 3, s ! 4, 0)))))) =
      (X, x0, x1, x2, x3, x4, x5)"
    by (rule prod_cases7)
  from sha1_rounds_fips [OF len refl v [symmetric]]
  have "foldl (fips_sha1_step (message_schedule fips_sha1_next (words_be b) 64))
      (s ! 0, s ! 1, s ! 2, s ! 3, s ! 4) [0..<80] = (x0, x1, x2, x3, x4)"
    by (simp only: sha1_words_def prod.case)
  then show ?thesis
    by (simp only: sha1_block_def fips_sha1_compress_def block_words [OF assms] v Let_def prod.case)
qed

lemma length_sha1_block: "length (sha1_block s b) = 5"
  by (simp add: sha1_block_def Let_def split: prod.splits)

lemma sha1_block_take: "64 \<le> length d \<Longrightarrow> sha1_block s (take 64 d) = sha1_block s d"
  by (simp only: sha1_block_def block_words_take)

lemma sha1_loop_absorb:
  "n * HASH_CBLOCK \<le> length d \<Longrightarrow>
    sha1_block_data_order_loop n s d = absorb sha1_block HASH_CBLOCK s (take (n * HASH_CBLOCK) d)"
  by (rule iterate_absorb [where block = "\<lambda>s d n. sha1_block_data_order_loop n s d"])
    (simp_all add: sha1_block_take)

interpretation sha1_template: md32_template sha1_block_data_order sha1_block
  by unfold_locales (simp_all only: sha1_block_data_order_def sha1_loop_absorb if_False HASH_CBLOCK zero_less_numeral
      gr_implies_not0)

lemma concat_words_be:
  "concat (map (\<lambda>i. HOST_l2c_be (ws ! i)) [0..<length ws]) = concat (map (\<lambda>w. be_bytes 4 (unat w)) ws)"
  by (rule arg_cong [where f = concat], rule nth_equalityI) (simp_all add: HOST_l2c_bytes)


interpretation sha1: incremental_hash
  "\<lambda>c m. absorbed32 sha1_block [0x67452301, 0xefcdab89, 0x98badcfe, 0x10325476, 0xc3d2e1f0] c m \<and> md32.more c = ()"
  SHA1_Init SHA1_Update "\<lambda>c. fst (SHA1_Final c)"
  "\<lambda>m. concat (map (\<lambda>w. be_bytes 4 (unat w))
     (absorb sha1_block 64 [0x67452301, 0xefcdab89, 0x98badcfe, 0x10325476, 0xc3d2e1f0]
       (m @ md_padding True (length m))))"
  unfolding SHA1_Update_def SHA1_Final_def
proof (rule sha1_template.incremental [where P = "\<lambda>ws. length ws = 5"], rule fresh_absorbed)
  fix c :: md32 assume "length (md_h c) = 5"
  moreover have "[0..<5] = [0, 1, 2, 3, 4 :: nat]" by (simp add: upt_rec)
  ultimately show "SHA1_MAKE_STRING c = concat (map (\<lambda>w. be_bytes 4 (unat w)) (md_h c))"
    using concat_words_be [of "md_h c"] by (simp add: SHA1_MAKE_STRING_def)
qed (simp_all add: SHA1_Init_def length_sha1_block)

text \<open>C12. Whatever pieces a message is fed to \<open>SHA1_Update\<close> in, \<open>SHA1_Final\<close> returns the
  digest FIPS 180-4 defines for the whole message: the eighty unrolled rounds with their ring
  of sixteen words compute the rounds of the standard over its message schedule.\<close>

theorem SHA1_exact:
  "fst (SHA1_Final (foldl SHA1_Update SHA1_Init ds)) = fips_sha1 (concat ds) \<and> SHA1 data = fips_sha1 data"
proof -
  have d: "concat (map (\<lambda>w. be_bytes 4 (unat w))
     (absorb sha1_block 64 [0x67452301, 0xefcdab89, 0x98badcfe, 0x10325476, 0xc3d2e1f0]
       (m @ md_padding True (length m)))) = fips_sha1 m" for m
    unfolding fips_sha1_def
    by (subst absorb_cong [of 64 sha1_block fips_sha1_compress]) (simp_all only: sha1_block_fips order_refl)
  show ?thesis
    using sha1.digest_of_pieces [of ds] sha1.one_shot [of data] by (simp add: d SHA1_def Let_def case_prod_beta)
qed

end
