(* ===== verification/Fips_Constants.thy ===== *)
theory Fips_Constants
  imports Sha Sha512
begin

text \<open>
  The constants of SHA-2, computed as FIPS 180-4 defines them and not taken from the tables
  of the code: the round constants are the first bits of the fractional parts of the cube
  roots of the first primes (sections 4.2.2 and 4.2.3), the initial hash values those of
  square roots (section 5.3). The tables of \<open>sha256.c\<close> and \<open>sha512.c\<close> are proved
  equal to them.
\<close>

section \<open>Roots\<close>

text \<open>The integer \<open>k\<close>-th root of \<open>n\<close>, found bit by bit from bit \<open>b - 1\<close> down.\<close>

fun root_bits :: "nat \<Rightarrow> int \<Rightarrow> int \<Rightarrow> nat \<Rightarrow> int" where
  "root_bits k n c 0 = c"
| "root_bits k n c (Suc b) = root_bits k n (if (c + 2 ^ b) ^ k \<le> n then c + 2 ^ b else c) b"

lemma root_bits:
  assumes "0 \<le> c" and "c ^ k \<le> n" and "n < (c + 2 ^ b) ^ k"
  shows "0 \<le> root_bits k n c b \<and> root_bits k n c b ^ k \<le> n \<and> n < (root_bits k n c b + 1) ^ k"
  using assms
proof (induction b arbitrary: c)
  case (Suc b)
  have "c + 2 ^ Suc b = c + 2 ^ b + 2 ^ b" by simp
  then show ?case using Suc.IH [of "c + 2 ^ b"] Suc.IH [of c] Suc.prems by (simp add: add.commute)
qed simp

text \<open>
  The first \<open>w\<close> bits behind the point of the \<open>k\<close>-th root of \<open>p\<close>: the root of \<open>p\<close>
  shifted by \<open>w\<close> bits, as a word, which drops what stands in front of the point.
\<close>

definition root_fraction :: "nat \<Rightarrow> int \<Rightarrow> 'a::len word" where
  "root_fraction k p = word_of_int (root_bits k (p * 2 ^ (k * LENGTH('a))) 0 (LENGTH('a) + 5))"

lemma root_fraction_eq:
  assumes k: "2 \<le> k" and p: "0 \<le> p" "p < 1024"
    and r: "0 \<le> r" "r ^ k \<le> p * 2 ^ (k * LENGTH('a))" "p * 2 ^ (k * LENGTH('a)) < (r + 1) ^ k"
  shows "root_fraction k p = (word_of_int r :: 'a::len word)"
proof -
  let ?n = "p * 2 ^ (k * LENGTH('a))"
  let ?c = "root_bits k ?n 0 (LENGTH('a) + 5)"
  have "(2 :: int) ^ 10 \<le> 2 ^ (5 * k)" using k by (intro power_increasing) simp_all
  then have "p < 2 ^ (5 * k)" using p by simp
  then have "?n < 2 ^ (5 * k) * 2 ^ (k * LENGTH('a))" by simp
  also have "\<dots> = (0 + 2 ^ (LENGTH('a) + 5)) ^ k"
    by (simp add: power_add power_mult_distrib power_mult mult.commute [of k])
  finally have c: "0 \<le> ?c" "?c ^ k \<le> ?n" "?n < (?c + 1) ^ k"
    using root_bits [of 0 k ?n "LENGTH('a) + 5"] p k by (simp_all add: zero_power)
  have "r < ?c + 1" using r c by (intro power_less_imp_less_base [of r k]) auto
  moreover have "?c < r + 1" using r c by (intro power_less_imp_less_base [of ?c k]) auto
  ultimately show ?thesis by (simp add: root_fraction_def)
qed

section \<open>Primes\<close>

definition is_prime :: "int \<Rightarrow> bool" where
  "is_prime p \<longleftrightarrow> 2 \<le> p \<and> (\<forall>d \<in> set [2..p - 1]. p mod d \<noteq> 0)"

text \<open>The first eighty primes are those up to 409.\<close>

definition fips_primes :: "int list" where
  "fips_primes = filter is_prime [1..409]"

lemma is_prime_small:
  assumes "1 \<le> p" and "p < 441"
  shows "is_prime p \<longleftrightarrow> p \<noteq> 1 \<and> (\<forall>d \<in> set [2, 3, 4, 5, 6, 7, 8, 9, 10, 11, 12, 13, 14, 15, 16, 17, 18, 19, 20].
    p = d \<or> p mod d \<noteq> 0)"
proof -
  have s: "set [2, 3, 4, 5, 6, 7, 8, 9, 10, 11, 12, 13, 14, 15, 16, 17, 18, 19, 20] = {2 .. 20 :: int}"
    by (rule set_eqI) (simp, presburger)
  show ?thesis unfolding s
  proof (intro iffI conjI ballI)
    fix d :: int
    assume "is_prime p" "d \<in> {2..20}"
    then have "p mod d \<noteq> 0" if "d < p" using that by (simp add: is_prime_def)
    then show "p = d \<or> p mod d \<noteq> 0" using assms by (cases "p < d") auto
  next
    assume r: "p \<noteq> 1 \<and> (\<forall>d \<in> {2..20}. p = d \<or> p mod d \<noteq> 0)"
    have "p mod d \<noteq> 0" if d: "2 \<le> d" "d \<le> p - 1" for d
    proof
      assume "p mod d = 0"
      then obtain e where e: "p = d * e" by auto
      have "0 < e" using e d assms zero_less_mult_iff [of d e] by linarith
      moreover have "e \<noteq> 1" using e d by auto
      ultimately have e2: "2 \<le> e" by simp
      have "2 * e \<le> p" unfolding e using d e2 by (intro mult_right_mono) auto
      then have e3: "e < p" using e2 by simp
      have "d \<le> 20 \<or> e \<le> 20"
        using assms e mult_mono [of 21 d 21 e] by linarith
      moreover have "p mod d = 0" "p mod e = 0" by (simp_all add: e)
      ultimately show False using r d e2 e3 by fastforce
    qed
    then show "is_prime p" using r assms by (simp add: is_prime_def)
  qed (simp add: is_prime_def)
qed

lemma fips_primes_eq:
  "fips_primes = [2, 3, 5, 7, 11, 13, 17, 19, 23, 29, 31, 37, 41, 43, 47, 53, 59, 61, 67, 71, 73, 79,
    83, 89, 97, 101, 103, 107, 109, 113, 127, 131, 137, 139, 149, 151, 157, 163, 167, 173, 179, 181,
    191, 193, 197, 199, 211, 223, 227, 229, 233, 239, 241, 251, 257, 263, 269, 271, 277, 281, 283,
    293, 307, 311, 313, 317, 331, 337, 347, 349, 353, 359, 367, 373, 379, 383, 389, 397, 401, 409]"
proof -
  have "fips_primes = filter (\<lambda>p. p \<noteq> 1 \<and> (\<forall>d \<in> set [2, 3, 4, 5, 6, 7, 8, 9, 10, 11, 12, 13, 14, 15, 16, 17, 18, 19, 20].
    p = d \<or> p mod d \<noteq> 0)) [1..409]"
    unfolding fips_primes_def by (intro filter_cong refl is_prime_small) auto
  also have "\<dots> = [2, 3, 5, 7, 11, 13, 17, 19, 23, 29, 31, 37, 41, 43, 47, 53, 59, 61, 67, 71, 73, 79,
    83, 89, 97, 101, 103, 107, 109, 113, 127, 131, 137, 139, 149, 151, 157, 163, 167, 173, 179, 181,
    191, 193, 197, 199, 211, 223, 227, 229, 233, 239, 241, 251, 257, 263, 269, 271, 277, 281, 283,
    293, 307, 311, 313, 317, 331, 337, 347, 349, 353, 359, 367, 373, 379, 383, 389, 397, 401, 409]"
    by code_simp
  finally show ?thesis .
qed

section \<open>Tables\<close>

text \<open>
  A word follows the point of the root of \<open>p\<close> when, with the integer part of the root in
  front, its power is the last below \<open>p\<close>; that is checked for a whole table.
\<close>

definition root_entry :: "nat \<Rightarrow> int \<Rightarrow> 'a::len word \<Rightarrow> bool" where
  "root_entry k p w \<longleftrightarrow>
     (let c = root_bits k p 0 5 * 2 ^ LENGTH('a) + uint w; n = p * 2 ^ (k * LENGTH('a))
      in 0 \<le> p \<and> p < 1024 \<and> 0 \<le> c \<and> c ^ k \<le> n \<and> n < (c + 1) ^ k)"

lemma root_entry:
  assumes "root_entry k p (w :: 'a::len word)" and "2 \<le> k" shows "root_fraction k p = w"
proof -
  let ?c = "root_bits k p 0 5 * 2 ^ LENGTH('a) + uint w"
  have "root_fraction k p = (word_of_int ?c :: 'a word)"
    using assms by (intro root_fraction_eq) (simp_all add: root_entry_def Let_def)
  also have "\<dots> = w" by simp
  finally show ?thesis .
qed

lemma root_table:
  assumes "list_all2 (root_entry k) ps (ws :: 'a::len word list)" and "2 \<le> k"
  shows "map (root_fraction k) ps = ws"
  using assms(1) by induction (simp_all add: root_entry assms(2))

definition fips_K256 :: "u32 list" where
  "fips_K256 = map (root_fraction 3) (take 64 fips_primes)"

definition fips_K512 :: "u64 list" where
  "fips_K512 = map (root_fraction 3) (take 80 fips_primes)"

definition fips_H256 :: "u32 list" where
  "fips_H256 = map (root_fraction 2) (take 8 fips_primes)"

definition fips_H512 :: "u64 list" where
  "fips_H512 = map (root_fraction 2) (take 8 fips_primes)"

definition fips_H384 :: "u64 list" where
  "fips_H384 = map (root_fraction 2) (take 8 (drop 8 fips_primes))"

text \<open>SHA-224 takes the second 32 bits behind the point.\<close>

definition fips_H224 :: "u32 list" where
  "fips_H224 = map ucast fips_H384"

lemma fips_K256_eq: "fips_K256 = K256"
  unfolding fips_K256_def
proof (rule root_table)
  show "list_all2 (root_entry 3) (take 64 fips_primes) K256"
    unfolding fips_primes_eq by code_simp
qed simp

lemma fips_K512_eq: "fips_K512 = K512"
  unfolding fips_K512_def
proof (rule root_table)
  show "list_all2 (root_entry 3) (take 80 fips_primes) K512"
    unfolding fips_primes_eq by code_simp
qed simp

lemma fips_H256_eq:
  "fips_H256 =
     [0x6a09e667, 0xbb67ae85, 0x3c6ef372, 0xa54ff53a, 0x510e527f, 0x9b05688c, 0x1f83d9ab, 0x5be0cd19]"
  unfolding fips_H256_def fips_primes_eq by (rule root_table) code_simp+

lemma fips_H512_eq:
  "fips_H512 =
     [0x6a09e667f3bcc908, 0xbb67ae8584caa73b, 0x3c6ef372fe94f82b, 0xa54ff53a5f1d36f1,
      0x510e527fade682d1, 0x9b05688c2b3e6c1f, 0x1f83d9abfb41bd6b, 0x5be0cd19137e2179]"
  unfolding fips_H512_def fips_primes_eq by (rule root_table) code_simp+

lemma fips_H384_eq:
  "fips_H384 =
     [0xcbbb9d5dc1059ed8, 0x629a292a367cd507, 0x9159015a3070dd17, 0x152fecd8f70e5939,
      0x67332667ffc00b31, 0x8eb44a8768581511, 0xdb0c2e0d64f98fa7, 0x47b5481dbefa4fa4]"
  unfolding fips_H384_def fips_primes_eq by (rule root_table) code_simp+

lemma fips_H224_eq:
  "fips_H224 =
     [0xc1059ed8, 0x367cd507, 0x3070dd17, 0xf70e5939, 0xffc00b31, 0x68581511, 0x64f98fa7, 0xbefa4fa4]"
  unfolding fips_H224_def fips_H384_eq by simp

end
