(* ===== verification/Sha2_Fips.thy ===== *)
theory Sha2_Fips
  imports Fips_Constants Schedule
begin

text \<open>
  SHA-224, SHA-256, SHA-384 and SHA-512 as FIPS 180-4 defines them, and the proof that the
  block functions of \<open>sha256.c\<close> and \<open>sha512.c\<close>, unrolled by eight and by sixteen rounds over
  a ring of sixteen words, compute it. The constants of the standard come from \<open>Fips_Constants\<close>,
  not from the tables of the code.
\<close>

section \<open>SHA-2 in FIPS 180-4\<close>

definition fips_Ch :: "'a::len word \<Rightarrow> 'a word \<Rightarrow> 'a word \<Rightarrow> 'a word" where
  "fips_Ch x y z = (x AND y) XOR (NOT x AND z)"

definition fips_Maj :: "'a::len word \<Rightarrow> 'a word \<Rightarrow> 'a word \<Rightarrow> 'a word" where
  "fips_Maj x y z = (x AND y) XOR (x AND z) XOR (y AND z)"

definition fips_next :: "('a::len word \<Rightarrow> 'a word) \<Rightarrow> ('a word \<Rightarrow> 'a word) \<Rightarrow> 'a word list \<Rightarrow> nat \<Rightarrow> 'a word" where
  "fips_next s0 s1 W t = s1 (W ! (t - 2)) + W ! (t - 7) + s0 (W ! (t - 15)) + W ! (t - 16)"

type_synonym 'w eight = "'w \<times> 'w \<times> 'w \<times> 'w \<times> 'w \<times> 'w \<times> 'w \<times> 'w"

definition fips_step ::
  "('a::len word \<Rightarrow> 'a word) \<Rightarrow> ('a word \<Rightarrow> 'a word) \<Rightarrow> 'a word list \<Rightarrow> 'a word list \<Rightarrow>
    'a word eight \<Rightarrow> nat \<Rightarrow> 'a word eight" where
  "fips_step S0 S1 K W = (\<lambda>(a, b, c, d, e, f, g, h) t.
     let T1 = h + S1 e + fips_Ch e f g + K ! t + W ! t;
         T2 = S0 a + fips_Maj a b c
     in (T1 + T2, a, b, c, d + T1, e, f, g))"

definition fips_S0_256 :: "u32 \<Rightarrow> u32" where
  "fips_S0_256 x = word_rotr 2 x XOR word_rotr 13 x XOR word_rotr 22 x"

definition fips_S1_256 :: "u32 \<Rightarrow> u32" where
  "fips_S1_256 x = word_rotr 6 x XOR word_rotr 11 x XOR word_rotr 25 x"

definition fips_s0_256 :: "u32 \<Rightarrow> u32" where
  "fips_s0_256 x = word_rotr 7 x XOR word_rotr 18 x XOR drop_bit 3 x"

definition fips_s1_256 :: "u32 \<Rightarrow> u32" where
  "fips_s1_256 x = word_rotr 17 x XOR word_rotr 19 x XOR drop_bit 10 x"

definition fips_S0_512 :: "u64 \<Rightarrow> u64" where
  "fips_S0_512 x = word_rotr 28 x XOR word_rotr 34 x XOR word_rotr 39 x"

definition fips_S1_512 :: "u64 \<Rightarrow> u64" where
  "fips_S1_512 x = word_rotr 14 x XOR word_rotr 18 x XOR word_rotr 41 x"

definition fips_s0_512 :: "u64 \<Rightarrow> u64" where
  "fips_s0_512 x = word_rotr 1 x XOR word_rotr 8 x XOR drop_bit 7 x"

definition fips_s1_512 :: "u64 \<Rightarrow> u64" where
  "fips_s1_512 x = word_rotr 19 x XOR word_rotr 61 x XOR drop_bit 6 x"

definition add_words :: "'w::plus list \<Rightarrow> 'w eight \<Rightarrow> 'w list" where
  "add_words s = (\<lambda>(a, b, c, d, e, f, g, h).
     [s ! 0 + a, s ! 1 + b, s ! 2 + c, s ! 3 + d, s ! 4 + e, s ! 5 + f, s ! 6 + g, s ! 7 + h])"

definition fips_sha256_compress :: "u32 list \<Rightarrow> bytes \<Rightarrow> u32 list" where
  "fips_sha256_compress s M =
     (let W = message_schedule (fips_next fips_s0_256 fips_s1_256) (words_be M) 48
      in add_words s (foldl (fips_step fips_S0_256 fips_S1_256 fips_K256 W)
           (s ! 0, s ! 1, s ! 2, s ! 3, s ! 4, s ! 5, s ! 6, s ! 7) [0..<64]))"

definition words64_be :: "bytes \<Rightarrow> u64 list" where
  "words64_be b = map (\<lambda>i. of_nat (be_val (take 8 (drop (8 * i) b)))) [0..<16]"

definition fips_sha512_compress :: "u64 list \<Rightarrow> bytes \<Rightarrow> u64 list" where
  "fips_sha512_compress s M =
     (let W = message_schedule (fips_next fips_s0_512 fips_s1_512) (words64_be M) 64
      in add_words s (foldl (fips_step fips_S0_512 fips_S1_512 fips_K512 W)
           (s ! 0, s ! 1, s ! 2, s ! 3, s ! 4, s ! 5, s ! 6, s ! 7) [0..<80]))"

section \<open>Rotations\<close>

lemma word_rotr_shifts:
  fixes x :: "'a::len word"
  assumes "n < LENGTH('a)"
  shows "drop_bit n x OR push_bit (LENGTH('a) - n) x = word_rotr n x"
proof (rule bit_word_eqI)
  fix k assume k: "k < LENGTH('a)"
  show "bit (drop_bit n x OR push_bit (LENGTH('a) - n) x) k = bit (word_rotr n x) k"
  proof (cases "k + n < LENGTH('a)")
    case True
    then show ?thesis using k by (auto simp: bit_simps add.commute)
  next
    case False
    then have "(k + n) mod LENGTH('a) = k + n - LENGTH('a)"
      using k assms by (simp add: le_mod_geq)
    moreover have "\<not> bit x (n + k)" using False by (intro not_bit_length) simp
    ultimately show ?thesis using k False assms by (auto simp: bit_simps add.commute)
  qed
qed

lemma ROTATE_rotr: "0 < n \<Longrightarrow> n \<le> 32 \<Longrightarrow> ROTATE x n = word_rotr (32 - n) x"
  using word_rotr_shifts [of "32 - n" x] by (simp add: ROTATE_def or.commute)

lemma ROTR_rotr: "n < 64 \<Longrightarrow> ROTR x n = word_rotr n x"
  using word_rotr_shifts [of n x] by (simp add: ROTR_def)

lemma sha256_functions:
  "Sigma0_256 = fips_S0_256" "Sigma1_256 = fips_S1_256" "sigma0_256 = fips_s0_256" "sigma1_256 = fips_s1_256"
  "Ch_256 = fips_Ch" "Maj_256 = fips_Maj"
  by (simp_all add: fun_eq_iff Sigma0_256_def Sigma1_256_def sigma0_256_def sigma1_256_def Ch_256_def Maj_256_def
      fips_S0_256_def fips_S1_256_def fips_s0_256_def fips_s1_256_def fips_Ch_def fips_Maj_def ROTATE_rotr)

lemma sha512_functions:
  "Sigma0_512 = fips_S0_512" "Sigma1_512 = fips_S1_512" "sigma0_512 = fips_s0_512" "sigma1_512 = fips_s1_512"
  "Ch_512 = fips_Ch" "Maj_512 = fips_Maj"
  by (simp_all add: fun_eq_iff Sigma0_512_def Sigma1_512_def sigma0_512_def sigma1_512_def Ch_512_def Maj_512_def
      fips_S0_512_def fips_S1_512_def fips_s0_512_def fips_s1_512_def fips_Ch_def fips_Maj_def ROTR_rotr)

section \<open>The code, rolled up again\<close>

lemma nat_and_15: "(n :: nat) AND 15 = n mod 16"
  using take_bit_eq_mask [of 4 n] by (simp add: take_bit_eq_mod mask_eq_exp_minus_1)

lemma fips_next_window:
  assumes M: "length M = 16" and W: "W = message_schedule (fips_next s0 s1) M n"
    and X: "window X W t" and t: "16 \<le> t" "t < 16 + n"
  shows "X ! (t mod 16) + (s0 (X ! ((t + 1) mod 16)) + s1 (X ! ((t + 14) mod 16)) + X ! ((t + 9) mod 16)) = W ! t"
proof -
  have s: "message_schedule (fips_next s0 s1) M (t - 16) ! (t - k) = W ! (t - k)" if "0 < k" "k \<le> 16" for k
    unfolding W using that t M by (intro message_schedule_prefix [symmetric]) simp_all
  have "W ! t = fips_next s0 s1 (message_schedule (fips_next s0 s1) M (t - 16)) t"
    unfolding W using message_schedule_next [of M t n "fips_next s0 s1"] t M by simp
  then have "W ! t = s1 (W ! (t - 2)) + W ! (t - 7) + s0 (W ! (t - 15)) + W ! (t - 16)"
    by (simp add: fips_next_def s)
  moreover have "X ! (t mod 16) = W ! (t - 16)" "X ! ((t + 1) mod 16) = W ! (t - 15)"
    "X ! ((t + 14) mod 16) = W ! (t - 2)" "X ! ((t + 9) mod 16) = W ! (t - 7)"
    using window_nth [OF X t(1), of 0] window_nth [OF X t(1), of 1] window_nth [OF X t(1), of 14]
      window_nth [OF X t(1), of 9] by simp_all
  ultimately show ?thesis by (simp add: ac_simps)
qed

definition sha256_step_00_15 :: "sha256_vars \<Rightarrow> nat \<Rightarrow> sha256_vars" where
  "sha256_step_00_15 = (\<lambda>(X, a, b, c, d, e, f, g, h) t.
     let (d, h) = ROUND_00_15_256 (X ! t) t a b c d e f g h in (X, h, a, b, c, d, e, f, g))"

definition sha256_step_16_63 :: "sha256_vars \<Rightarrow> nat \<Rightarrow> sha256_vars" where
  "sha256_step_16_63 = (\<lambda>(X, a, b, c, d, e, f, g, h) t.
     let (X, d, h) = ROUND_16_63 t a b c d e f g h X in (X, h, a, b, c, d, e, f, g))"

definition sha512_step_00_15 :: "sha512_vars \<Rightarrow> nat \<Rightarrow> sha512_vars" where
  "sha512_step_00_15 = (\<lambda>(X, a, b, c, d, e, f, g, h) t.
     let (d, h) = ROUND_00_15_512 (X ! t) t a b c d e f g h in (X, h, a, b, c, d, e, f, g))"

definition sha512_step_16_80 :: "sha512_vars \<Rightarrow> nat \<times> nat \<Rightarrow> sha512_vars" where
  "sha512_step_16_80 = (\<lambda>(X, a, b, c, d, e, f, g, h) (i, j).
     let (X, d, h) = ROUND_16_80 i j a b c d e f g h X in (X, h, a, b, c, d, e, f, g))"

lemma sha2_step_unroll:
  "foldl sha256_step_00_15 (X, a, b, c, d, e, f, g, h) (t # ts) =
    (let (d, h) = ROUND_00_15_256 (X ! t) t a b c d e f g h
     in foldl sha256_step_00_15 (X, h, a, b, c, d, e, f, g) ts)"
  "foldl sha256_step_16_63 (X, a, b, c, d, e, f, g, h) (t # ts) =
    (let (X, d, h) = ROUND_16_63 t a b c d e f g h X
     in foldl sha256_step_16_63 (X, h, a, b, c, d, e, f, g) ts)"
  "foldl sha512_step_00_15 (Y, p, q, r, s, u, v, w, x) (t # ts) =
    (let (s, x) = ROUND_00_15_512 (Y ! t) t p q r s u v w x
     in foldl sha512_step_00_15 (Y, x, p, q, r, s, u, v, w) ts)"
  "foldl sha512_step_16_80 (Y, p, q, r, s, u, v, w, x) ((i, j) # is) =
    (let (Y, s, x) = ROUND_16_80 i j p q r s u v w x Y
     in foldl sha512_step_16_80 (Y, x, p, q, r, s, u, v, w) is)"
  by (simp_all add: sha256_step_00_15_def sha256_step_16_63_def sha512_step_00_15_def sha512_step_16_80_def
      split: prod.split)

lemma sha2_rounds_rolled:
  "sha256_rounds_00_15 (X, a, b, c, d, e, f, g, h) = foldl sha256_step_00_15 (X, a, b, c, d, e, f, g, h) [0..<16]"
  "sha256_rounds_i i (X, a, b, c, d, e, f, g, h) =
    foldl sha256_step_16_63 (X, a, b, c, d, e, f, g, h) [i + 0, i + 1, i + 2, i + 3, i + 4, i + 5, i + 6, i + 7]"
  "sha512_rounds_00_15 (Y, p, q, r, s, u, v, w, x) = foldl sha512_step_00_15 (Y, p, q, r, s, u, v, w, x) [0..<16]"
  "sha512_rounds_i i (Y, p, q, r, s, u, v, w, x) =
    foldl sha512_step_16_80 (Y, p, q, r, s, u, v, w, x)
      [(i, 0), (i, 1), (i, 2), (i, 3), (i, 4), (i, 5), (i, 6), (i, 7), (i, 8), (i, 9), (i, 10), (i, 11), (i, 12),
       (i, 13), (i, 14), (i, 15)]"
  unfolding upt_16 sha2_step_unroll foldl.simps(1) sha256_rounds_00_15_def sha256_rounds_i_def
    sha512_rounds_00_15_def sha512_rounds_i_def prod.case
  by (rule refl)+

lemma nine_cases:
  obtains X a b c d e f g h where "v = (X, a, b, c, d, e, f, g, h)"
proof -
  obtain X a b c d e r where "v = (X, a, b, c, d, e, r)" by (rule prod_cases7)
  moreover obtain f g h where "r = (f, g, h)" by (rule prod_cases3)
  ultimately show ?thesis using that by simp
qed

text \<open>One step of the code is one step of the standard.\<close>

lemma sha256_step_fips:
  assumes M: "length M = 16" and W: "W = message_schedule (fips_next fips_s0_256 fips_s1_256) M 48"
    and X: "window (fst v) W t" and t: "16 \<le> t" "t < 64"
  shows "window (fst (sha256_step_16_63 v t)) W (Suc t) \<and>
    snd (sha256_step_16_63 v t) = fips_step fips_S0_256 fips_S1_256 K256 W (snd v) t"
proof -
  obtain X a b c d e f g h where v: "v = (X, a, b, c, d, e, f, g, h)" by (rule nine_cases)
  have w: "X ! (t mod 16) + (fips_s0_256 (X ! ((t + 1) mod 16)) + fips_s1_256 (X ! ((t + 14) mod 16)) +
      X ! ((t + 9) mod 16)) = W ! t"
    by (rule fips_next_window [OF M W]) (use X t v in simp_all)
  have "ROUND_16_63 t a b c d e f g h X =
      (X[t mod 16 := W ! t], ROUND_00_15_256 (W ! t) t a b c d e f g h)"
    using window_length [OF X] by (simp only: ROUND_16_63_def nat_and_15 sha256_functions Let_def w v fst_conv
        case_prod_eta nth_list_update_eq)
  then show ?thesis
    using window_step [OF X] by (simp add: v sha256_step_16_63_def ROUND_00_15_256_def fips_step_def
        sha256_functions Let_def ac_simps)
qed

lemma sha512_step_fips:
  assumes M: "length M = 16" and W: "W = message_schedule (fips_next fips_s0_512 fips_s1_512) M 64"
    and X: "window (fst v) W t" and t: "16 \<le> t" "t < 80"
  shows "window (fst (sha512_step_16_80 v (t - t mod 16, t mod 16))) W (Suc t) \<and>
    snd (sha512_step_16_80 v (t - t mod 16, t mod 16)) = fips_step fips_S0_512 fips_S1_512 K512 W (snd v) t"
proof -
  obtain X a b c d e f g h where v: "v = (X, a, b, c, d, e, f, g, h)" by (rule nine_cases)
  have j: "(t mod 16 + k) mod 16 = (t + k) mod 16" for k by (rule mod_add_left_eq)
  have w: "X ! (t mod 16) + (fips_s0_512 (X ! ((t + 1) mod 16)) + fips_s1_512 (X ! ((t + 14) mod 16)) +
      X ! ((t + 9) mod 16)) = W ! t"
    by (rule fips_next_window [OF M W]) (use X t v in simp_all)
  have "ROUND_16_80 (t - t mod 16) (t mod 16) a b c d e f g h X =
      (X[t mod 16 := W ! t], ROUND_00_15_512 (W ! t) t a b c d e f g h)"
    using window_length [OF X] by (simp only: ROUND_16_80_def nat_and_15 j mod_mod_trivial sha512_functions Let_def w v fst_conv
        case_prod_eta nth_list_update_eq)
      (simp add: case_prod_beta)
  then show ?thesis
    using window_step [OF X] by (simp add: v sha512_step_16_80_def ROUND_00_15_512_def fips_step_def
        sha512_functions Let_def ac_simps)
qed

lemma sha256_rounds_16_63_rolled:
  "8 dvd i \<Longrightarrow> i \<le> 64 \<Longrightarrow> sha256_rounds_16_63 i v = foldl sha256_step_16_63 v [i..<64]"
proof (induction i v rule: sha256_rounds_16_63.induct)
  case (1 i v)
  show ?case
  proof (cases "i < 64")
    case True
    then have le: "i + 8 \<le> 64" using 1(2) by (auto elim!: dvdE)
    have "[i..<64] = [i..<i + 8] @ [i + 8..<64]" using upt_add_eq_append [of i "i + 8" "64 - (i + 8)"] le by simp
    also have "[i..<i + 8] = [i + 0, i + 1, i + 2, i + 3, i + 4, i + 5, i + 6, i + 7]"
      by (simp add: upt_rec)
    finally have l: "[i..<64] = [i + 0, i + 1, i + 2, i + 3, i + 4, i + 5, i + 6, i + 7] @ [i + 8..<64]" .
    have "sha256_rounds_i i v = foldl sha256_step_16_63 v [i + 0, i + 1, i + 2, i + 3, i + 4, i + 5, i + 6, i + 7]"
      by (cases v rule: nine_cases) (simp only: sha2_rounds_rolled)
    then show ?thesis
      using True le 1 by (simp only: sha256_rounds_16_63.simps [of i] if_True l foldl_append dvd_add_left_iff) simp
  qed (use 1 in \<open>simp add: sha256_rounds_16_63.simps [of 64]\<close>)
qed

definition pair_index :: "nat \<Rightarrow> nat \<times> nat" where
  "pair_index t = (t - t mod 16, t mod 16)"

lemma pair_index_block:
  assumes "16 dvd i" "j < 16" shows "pair_index (i + j) = (i, j)"
proof -
  have "(i + j) mod 16 = j" using assms by (auto elim!: dvdE)
  then show ?thesis by (simp add: pair_index_def)
qed

lemma sha512_rounds_16_80_rolled:
  "16 dvd i \<Longrightarrow> i \<le> 80 \<Longrightarrow> sha512_rounds_16_80 i v = foldl sha512_step_16_80 v (map pair_index [i..<80])"
proof (induction i v rule: sha512_rounds_16_80.induct)
  case (1 i v)
  show ?case
  proof (cases "i < 80")
    case True
    then have le: "i + 16 \<le> 80" using 1(2) by (auto elim!: dvdE)
    have "[i..<80] = [i..<i + 16] @ [i + 16..<80]" using upt_add_eq_append [of i "i + 16" "80 - (i + 16)"] le by simp
    also have "[i..<i + 16] = map ((+) i) [0..<16]" by (rule nth_equalityI) simp_all
    finally have l: "map pair_index [i..<80] = map (Pair i) [0..<16] @ map pair_index [i + 16..<80]"
      using pair_index_block [OF 1(2)] by simp
    have "sha512_rounds_i i v = foldl sha512_step_16_80 v (map (Pair i) [0..<16])"
      unfolding upt_16 by (cases v rule: nine_cases) (simp only: sha2_rounds_rolled list.map)
    then show ?thesis
      using True le 1 by (simp only: sha512_rounds_16_80.simps [of i] if_True l foldl_append) simp
  qed (use 1 in \<open>simp add: sha512_rounds_16_80.simps [of 80]\<close>)
qed

text \<open>The first sixteen rounds read the block itself.\<close>

lemma sha256_first_rounds:
  assumes "length M = 16" "W = message_schedule (fips_next fips_s0_256 fips_s1_256) M k" "n \<le> 16"
  shows "foldl sha256_step_00_15 (M, v) [0..<n] = (M, foldl (fips_step fips_S0_256 fips_S1_256 K256 W) v [0..<n])"
  using assms(3)
proof (induction n)
  case (Suc n)
  have "W ! n = M ! n" using assms Suc.prems by (simp add: message_schedule_block)
  then have "sha256_step_00_15 (M, u) n = (M, fips_step fips_S0_256 fips_S1_256 K256 W u n)" for u
    by (cases "(M, u)" rule: nine_cases) (simp add: sha256_step_00_15_def ROUND_00_15_256_def fips_step_def
        sha256_functions Let_def ac_simps)
  then show ?case using Suc by simp
qed simp

lemma sha512_first_rounds:
  assumes "length M = 16" "W = message_schedule (fips_next fips_s0_512 fips_s1_512) M k" "n \<le> 16"
  shows "foldl sha512_step_00_15 (M, v) [0..<n] = (M, foldl (fips_step fips_S0_512 fips_S1_512 K512 W) v [0..<n])"
  using assms(3)
proof (induction n)
  case (Suc n)
  have "W ! n = M ! n" using assms Suc.prems by (simp add: message_schedule_block)
  then have "sha512_step_00_15 (M, u) n = (M, fips_step fips_S0_512 fips_S1_512 K512 W u n)" for u
    by (cases "(M, u)" rule: nine_cases) (simp add: sha512_step_00_15_def ROUND_00_15_512_def fips_step_def
        sha512_functions Let_def ac_simps)
  then show ?case using Suc by simp
qed simp

lemma sha256_rounds_fips:
  assumes M: "length M = 16" and W: "W = message_schedule (fips_next fips_s0_256 fips_s1_256) M 48"
  shows "snd (sha256_rounds_16_63 16 (sha256_rounds_00_15 (M, v))) =
    foldl (fips_step fips_S0_256 fips_S1_256 K256 W) v [0..<64]"
proof -
  define u where "u = foldl sha256_step_00_15 (M, v) [0..<16]"
  have u: "u = (M, foldl (fips_step fips_S0_256 fips_S1_256 K256 W) v [0..<16])"
    unfolding u_def by (rule sha256_first_rounds [OF M W]) simp
  have "sha256_rounds_00_15 (M, v) = u"
    unfolding u_def by (cases "(M, v)" rule: nine_cases) (simp only: sha2_rounds_rolled)
  moreover have "window (fst (foldl sha256_step_16_63 u (map (\<lambda>t. t) [16..<64]))) W 64 \<and>
      snd (foldl sha256_step_16_63 u (map (\<lambda>t. t) [16..<64])) = foldl (fips_step fips_S0_256 fips_S1_256 K256 W) (snd u) [16..<64]"
    by (intro rolled_rounds sha256_step_fips [OF M W]) (use window_start [OF M] u W in simp_all)
  moreover have "[0..<64] = [0..<16] @ [16..<64 :: nat]" by (simp add: upt_rec)
  moreover have "sha256_rounds_16_63 16 u = foldl sha256_step_16_63 u [16..<64]"
    by (rule sha256_rounds_16_63_rolled) simp_all
  ultimately show ?thesis by (simp only: map_ident u snd_conv foldl_append)
qed

lemma sha512_rounds_fips:
  assumes M: "length M = 16" and W: "W = message_schedule (fips_next fips_s0_512 fips_s1_512) M 64"
  shows "snd (sha512_rounds_16_80 16 (sha512_rounds_00_15 (M, v))) =
    foldl (fips_step fips_S0_512 fips_S1_512 K512 W) v [0..<80]"
proof -
  define u where "u = foldl sha512_step_00_15 (M, v) [0..<16]"
  have u: "u = (M, foldl (fips_step fips_S0_512 fips_S1_512 K512 W) v [0..<16])"
    unfolding u_def by (rule sha512_first_rounds [OF M W]) simp
  have "sha512_rounds_00_15 (M, v) = u"
    unfolding u_def by (cases "(M, v)" rule: nine_cases) (simp only: sha2_rounds_rolled)
  moreover have "window (fst (foldl sha512_step_16_80 u (map pair_index [16..<80]))) W 80 \<and>
      snd (foldl sha512_step_16_80 u (map pair_index [16..<80])) = foldl (fips_step fips_S0_512 fips_S1_512 K512 W) (snd u) [16..<80]"
    unfolding pair_index_def
    by (intro rolled_rounds sha512_step_fips [OF M W]) (use window_start [OF M] u W in simp_all)
  moreover have "[0..<80] = [0..<16] @ [16..<80 :: nat]" by (simp add: upt_rec)
  moreover have "sha512_rounds_16_80 16 u = foldl sha512_step_16_80 u (map pair_index [16..<80])"
    by (rule sha512_rounds_16_80_rolled) simp_all
  ultimately show ?thesis by (simp only: u snd_conv foldl_append)
qed

section \<open>The block functions\<close>

lemma sha256_block_fips:
  assumes "64 \<le> length b" shows "sha256_block s b = fips_sha256_compress s b"
proof -
  have len: "length (words_be b) = 16" by (simp add: words_be_def)
  obtain X x0 x1 x2 x3 x4 x5 x6 x7 where v: "sha256_rounds_16_63 16 (sha256_rounds_00_15
      (words_be b, s ! 0, s ! 1, s ! 2, s ! 3, s ! 4, s ! 5, s ! 6, s ! 7)) = (X, x0, x1, x2, x3, x4, x5, x6, x7)"
    by (rule nine_cases)
  have "foldl (fips_step fips_S0_256 fips_S1_256 K256
      (message_schedule (fips_next fips_s0_256 fips_s1_256) (words_be b) 48))
      (s ! 0, s ! 1, s ! 2, s ! 3, s ! 4, s ! 5, s ! 6, s ! 7) [0..<64] = (x0, x1, x2, x3, x4, x5, x6, x7)"
    unfolding sha256_rounds_fips [OF len refl, symmetric] v by simp
  then show ?thesis
    by (simp only: sha256_block_def fips_sha256_compress_def fips_K256_eq block_words [OF assms] v add_words_def
        Let_def prod.case)
qed

lemma load_u64_be_words:
  assumes "p + 8 \<le> length b" shows "load_u64_be b p = of_nat (be_val (take 8 (drop p b)))"
proof -
  define x where "x = take 8 (drop p b)"
  have x: "length x = 8" using assms by (simp add: x_def)
  have "le_val x < 2 ^ 64" using be_val_bound [of "rev x"] x by (simp add: le_val_def)
  then have "unat (of_nat (le_val x) :: u64) = le_val x" by (intro unat_of_nat_small) simp
  then have "le_bytes 8 (unat (load_u64_be b p)) = be_bytes 8 (le_val x)"
    by (simp add: load_u64_be_def x_def [symmetric] le_bytes_bswap8)
  then have "be_bytes 8 (unat (load_u64_be b p)) = le_bytes 8 (le_val x)"
    by (simp add: le_bytes_def flip: rev_swap)
  also have "\<dots> = x" by (rule le_bytes_le_val [OF x])
  finally have "be_val x = unat (load_u64_be b p) mod 256 ^ 8"
    using be_val_be_bytes [of 8 "unat (load_u64_be b p)"] by simp
  also have "\<dots> = unat (load_u64_be b p)"
    using unsigned_less [of "load_u64_be b p", where ?'a = nat] by (intro mod_less) simp
  finally show ?thesis unfolding x_def by (intro unat_eq_of_nat) simp
qed

lemma sha512_block_fips:
  assumes "128 \<le> length b" shows "sha512_block s b = fips_sha512_compress s b"
proof -
  have w: "map (\<lambda>i. load_u64_be b (8 * i)) [0..<16] = words64_be b"
    using assms by (simp add: words64_be_def load_u64_be_words)
  have len: "length (words64_be b) = 16" by (simp add: words64_be_def)
  obtain X x0 x1 x2 x3 x4 x5 x6 x7 where v: "sha512_rounds_16_80 16 (sha512_rounds_00_15
      (words64_be b, s ! 0, s ! 1, s ! 2, s ! 3, s ! 4, s ! 5, s ! 6, s ! 7)) = (X, x0, x1, x2, x3, x4, x5, x6, x7)"
    by (rule nine_cases)
  have "foldl (fips_step fips_S0_512 fips_S1_512 K512
      (message_schedule (fips_next fips_s0_512 fips_s1_512) (words64_be b) 64))
      (s ! 0, s ! 1, s ! 2, s ! 3, s ! 4, s ! 5, s ! 6, s ! 7) [0..<80] = (x0, x1, x2, x3, x4, x5, x6, x7)"
    unfolding sha512_rounds_fips [OF len refl, symmetric] v by simp
  then show ?thesis
    by (simp only: sha512_block_def fips_sha512_compress_def fips_K512_eq w v add_words_def Let_def prod.case)
qed

section \<open>SHA-224 and SHA-256 are incremental hashes\<close>

definition fips_sha2 :: "(u32 list \<Rightarrow> bytes \<Rightarrow> u32 list) \<Rightarrow> u32 list \<Rightarrow> nat \<Rightarrow> bytes \<Rightarrow> bytes" where
  "fips_sha2 compress h0 md_len m =
     take md_len (concat (map (\<lambda>w. be_bytes 4 (unat w)) (absorb compress 64 h0 (m @ md_padding True (length m)))))"

definition fips_sha224 :: "bytes \<Rightarrow> bytes" where
  "fips_sha224 = fips_sha2 fips_sha256_compress fips_H224 28"

definition fips_sha256 :: "bytes \<Rightarrow> bytes" where
  "fips_sha256 = fips_sha2 fips_sha256_compress fips_H256 32"

lemma sha256_block_take: "64 \<le> length d \<Longrightarrow> sha256_block s (take 64 d) = sha256_block s d"
  by (simp only: sha256_block_def block_words_take)

lemma length_sha256_block: "length (sha256_block s b) = 8"
  by (simp add: sha256_block_def Let_def split: prod.splits)

interpretation sha256_template: md32_template sha256_block_data_order sha256_block
proof unfold_locales
  fix n s and d :: bytes assume "n * HASH_CBLOCK \<le> length d"
  then show "sha256_block_data_order s d n = absorb sha256_block HASH_CBLOCK s (take (n * HASH_CBLOCK) d)"
    by (intro iterate_absorb) (simp_all add: sha256_block_data_order_def sha256_block_take)
qed simp

lemma SHA256_MAKE_STRING_words:
  assumes "length (md_h c) = 8" "sha_md_len c \<in> {28, 32}"
  shows "SHA256_MAKE_STRING c = Some (take (sha_md_len c) (concat (map (\<lambda>w. be_bytes 4 (unat w)) (md_h c))))"
proof -
  obtain a b c' d e f g h where w: "md_h c = [a, b, c', d, e, f, g, h]"
    using assms(1) by (auto simp: numeral_eq_Suc length_Suc_conv)
  have u: "[0..<7] = [0, 1, 2, 3, 4, 5, 6 :: nat]" "[0..<8] = [0, 1, 2, 3, 4, 5, 6, 7 :: nat]" by (simp_all add: upt_rec)
  show ?thesis using assms(2) by (auto simp: SHA256_MAKE_STRING_def w u HOST_l2c_bytes)
qed

lemma md_len_more: "md32.more c = md32.more c' \<Longrightarrow> sha_md_len c = sha_md_len c'"
  by (cases c; cases c') simp

lemma fips_sha2_block:
  "fips_sha2 sha256_block h0 n m = fips_sha2 fips_sha256_compress h0 n m"
  unfolding fips_sha2_def
  by (subst absorb_cong [of 64 sha256_block fips_sha256_compress]) (simp_all only: sha256_block_fips order_refl)

lemma sha256_incremental:
  assumes "md_h init = h0" "length h0 = 8" "md_num init = 0" "md_Nl init = 0" "md_Nh init = 0"
    "length (md_data init) = 64" "sha_md_len init \<in> {28, 32}"
  shows "incremental_hash (\<lambda>c m. absorbed32 sha256_block h0 c m \<and> md32.more c = md32.more init)
    init SHA256_Update (\<lambda>c. fst (SHA256_Final c)) (\<lambda>m. Some (fips_sha2 fips_sha256_compress h0 (sha_md_len init) m))"
  unfolding SHA256_Update_def SHA256_Final_def fips_sha2_block [symmetric]
  unfolding fips_sha2_def
proof (rule sha256_template.incremental [where P = "\<lambda>ws. length ws = 8" and str = "\<lambda>ws. Some (take (sha_md_len init)
      (concat (map (\<lambda>w. be_bytes 4 (unat w)) ws)))"], rule fresh_absorbed)
  fix c :: sha256_ctx assume "md32.more c = md32.more init" "length (md_h c) = 8"
  then show "SHA256_MAKE_STRING c = Some (take (sha_md_len init) (concat (map (\<lambda>w. be_bytes 4 (unat w)) (md_h c))))"
    using SHA256_MAKE_STRING_words [of c] md_len_more [of c init] assms(7) by simp
qed (use assms in \<open>simp_all add: length_sha256_block\<close>)

interpretation sha256: incremental_hash
  "\<lambda>c m. absorbed32 sha256_block [0x6a09e667, 0xbb67ae85, 0x3c6ef372, 0xa54ff53a, 0x510e527f, 0x9b05688c,
      0x1f83d9ab, 0x5be0cd19] c m \<and> md32.more c = md32.more SHA256_Init"
  SHA256_Init SHA256_Update "\<lambda>c. fst (SHA256_Final c)" "\<lambda>m. Some (fips_sha256 m)"
  using sha256_incremental [OF refl, of SHA256_Init] unfolding fips_sha256_def fips_H256_eq by (simp add: SHA256_Init_def)

interpretation sha224: incremental_hash
  "\<lambda>c m. absorbed32 sha256_block [0xc1059ed8, 0x367cd507, 0x3070dd17, 0xf70e5939, 0xffc00b31, 0x68581511,
      0x64f98fa7, 0xbefa4fa4] c m \<and> md32.more c = md32.more SHA224_Init"
  SHA224_Init SHA224_Update "\<lambda>c. fst (SHA224_Final c)" "\<lambda>m. Some (fips_sha224 m)"
  using sha256_incremental [OF refl, of SHA224_Init]
  unfolding fips_sha224_def fips_H224_eq SHA224_Update_def SHA224_Final_def by (simp add: SHA224_Init_def)

text \<open>C10. Whatever pieces a message is fed to \<open>SHA256_Update\<close> in, \<open>SHA256_Final\<close> succeeds and returns
  the digest FIPS 180-4 defines for the whole message, and so do the SHA-224 functions; the round
  constants and initial values of the digest are those of \<open>Fips_Constants\<close>, not the code's. The
  rounds unrolled by eight over a ring of sixteen words, with left rotations, are those of the
  standard.\<close>

theorem SHA256_exact:
  "fst (SHA256_Final (foldl SHA256_Update SHA256_Init ds)) = Some (fips_sha256 (concat ds)) \<and>
    SHA256 data = Some (fips_sha256 data) \<and>
    fst (SHA224_Final (foldl SHA224_Update SHA224_Init ds)) = Some (fips_sha224 (concat ds)) \<and>
    SHA224 data = Some (fips_sha224 data)"
  using sha256.digest_of_pieces [of ds] sha256.one_shot [of data]
    sha224.digest_of_pieces [of ds] sha224.one_shot [of data]
  by (simp add: SHA256_def SHA224_def Let_def case_prod_beta)

section \<open>SHA-384 and SHA-512 are incremental hashes\<close>

definition sha512_bits :: "sha512_ctx \<Rightarrow> nat" where
  "sha512_bits c = unat (sha_Nh c) * 2 ^ 64 + unat (sha_Nl c)"

definition absorbed512 :: "u64 list \<Rightarrow> nat \<Rightarrow> sha512_ctx \<Rightarrow> bytes \<Rightarrow> bool" where
  "absorbed512 h0 md_len c m \<longleftrightarrow>
     sha_h c = absorb sha512_block SHA512_CBLOCK h0 m \<and>
     sha_num c = length m mod SHA512_CBLOCK \<and>
     length (sha_p c) = SHA512_CBLOCK \<and>
     take (sha_num c) (sha_p c) = leftover SHA512_CBLOCK m \<and>
     sha512_bits c = 8 * length m mod 2 ^ 128 \<and> sha_md_len512 c = md_len"

definition sha512_padding :: "nat \<Rightarrow> bytes" where
  "sha512_padding n = 0x80 # replicate ((239 - n mod 128) mod 128) 0 @ be_bytes 16 (8 * n)"

lemma SHA512_CBLOCK [simp]: "SHA512_CBLOCK = 128"
  by (simp add: SHA512_CBLOCK_def)

lemma sha512_put_u64_bytes: "sha512_put_u64 t = be_bytes 8 (unat t)"
  by (simp add: sha512_put_u64_def be_bytes_words)

lemma two_words_mod64:
  fixes w :: u64
  shows "(h * 2 ^ 64 + unat w) mod 2 ^ 128 = h mod 2 ^ 64 * 2 ^ 64 + unat w"
  using two_digits_mod [of "unat w" "2 ^ 64" h] unsigned_less [of w, where ?'a = nat]
  by (simp flip: power_add)

lemma sha512_bits_bytes:
  assumes "sha512_bits c = 8 * n mod 2 ^ 128"
  shows "sha512_put_u64 (sha_Nh c) @ sha512_put_u64 (sha_Nl c) = be_bytes 16 (8 * n)"
proof -
  have l: "unat (sha_Nl c) < 256 ^ 8" using unsigned_less [of "sha_Nl c", where ?'a = nat] by simp
  have "be_bytes 16 (8 * n) = be_bytes (8 + 8) (sha512_bits c)"
    using be_bytes_mod [of 16 "8 * n"] by (simp add: assms)
  also have "\<dots> = be_bytes 8 (sha512_bits c div 256 ^ 8) @ be_bytes 8 (sha512_bits c mod 256 ^ 8)"
    by (simp only: be_bytes_split be_bytes_mod)
  also have "sha512_bits c div 256 ^ 8 = unat (sha_Nh c)" using l by (simp add: sha512_bits_def)
  also have "sha512_bits c mod 256 ^ 8 = unat (sha_Nl c)" using l by (simp add: sha512_bits_def)
  finally show ?thesis by (simp add: sha512_put_u64_bytes)
qed

lemma sha512_bits_update:
  assumes "sha512_bits c = 8 * n mod 2 ^ 128"
    and l: "l = (sha_Nl c + push_bit 3 (of_nat k)) AND 0xffffffffffffffff"
    and h: "h = (if l < sha_Nl c then sha_Nh c + 1 else sha_Nh c) + of_nat (k div 2 ^ 61)"
  shows "unat h * 2 ^ 64 + unat l = 8 * (n + k) mod 2 ^ 128"
proof -
  define a b p q where "a = unat (sha_Nl c)" and "b = unat (sha_Nh c)" and "p = 8 * k mod 2 ^ 64" and "q = k div 2 ^ 61"
  have bounds: "a < 2 ^ 64" "p < 2 ^ 64"
    using unsigned_less [of "sha_Nl c", where ?'a = nat] by (simp_all add: a_def p_def)
  have p: "unat (push_bit 3 (of_nat k) :: u64) = p"
    by (simp add: p_def unat_push_bit unat_of_nat mod_mult_right_eq mult.commute)
  have m: "(0xffffffffffffffff :: u64) = - 1" by simp
  have "l = sha_Nl c + push_bit 3 (of_nat k)" unfolding l m by (rule and.right_neutral)
  then have ul: "unat l = (a + p) mod 2 ^ 64" using p by (simp add: a_def unat_word_ariths)
  define carry :: nat where "carry = (if l < sha_Nl c then 1 else 0)"
  have carry: "a + p = carry * 2 ^ 64 + unat l"
    using bounds by (cases "a + p < 2 ^ 64") (auto simp: carry_def word_less_nat_alt ul a_def [symmetric] le_mod_geq not_less)
  have "unat h = (b + carry + q) mod 2 ^ 64"
    by (simp add: h carry_def b_def q_def unat_word_ariths unat_of_nat mod_simps)
  then have "unat h * 2 ^ 64 + unat l = ((b + carry + q) * 2 ^ 64 + unat l) mod 2 ^ 128"
    by (simp only: two_words_mod64)
  also have "(b + carry + q) * 2 ^ 64 + unat l = (b * 2 ^ 64 + a) + (q * 2 ^ 64 + p)"
    using carry by (simp add: algebra_simps)
  also have "q * 2 ^ 64 + p = 8 * k"
    using div_mult_mod_eq [of "8 * k" "2 ^ 64"] by (simp add: q_def p_def)
  also have "b * 2 ^ 64 + a = sha512_bits c"
    by (simp add: sha512_bits_def a_def b_def)
  also have "(sha512_bits c + 8 * k) mod 2 ^ 128 = (8 * n + 8 * k) mod 2 ^ 128"
    unfolding assms(1) by (rule mod_add_left_eq)
  finally show ?thesis by (simp only: distrib_left)
qed

lemma sha512_block_take: "128 \<le> length d \<Longrightarrow> sha512_block s (take 128 d) = sha512_block s d"
proof -
  assume d: "128 \<le> length d"
  have "load_u64_be (take 128 d) (8 * i) = load_u64_be d (8 * i)" if "i < 16" for i
    using that d by (simp add: load_u64_be_words drop_take min_def)
  then have w: "map (\<lambda>i. load_u64_be (take 128 d) (8 * i)) [0..<16] = map (\<lambda>i. load_u64_be d (8 * i)) [0..<16]"
    by simp
  show ?thesis by (simp only: sha512_block_def w)
qed

interpretation sha512_blocks: block_iteration sha512_block_data_order sha512_block SHA512_CBLOCK
proof unfold_locales
  fix n s and d :: bytes assume "n * SHA512_CBLOCK \<le> length d"
  then show "sha512_block_data_order s d n = absorb sha512_block SHA512_CBLOCK s (take (n * SHA512_CBLOCK) d)"
    by (intro iterate_absorb) (simp_all add: sha512_block_data_order_def sha512_block_take)
qed simp

lemma sha512_update_blocks_absorbs:
  assumes "length (sha_p c) = 128" "sha_num c = 0" and c': "c' = sha512_update_blocks d c"
  shows "sha_h c' = absorb sha512_block 128 (sha_h c) d \<and> sha_num c' = length d mod 128 \<and>
    length (sha_p c') = 128 \<and> take (length d mod 128) (sha_p c') = leftover 128 d \<and>
    sha512_bits c' = sha512_bits c \<and> sha_md_len512 c' = sha_md_len512 c"
proof -
  define r where "r = leftover 128 d"
  have r: "length r = length d mod 128" by (simp add: r_def)
  define c1 where "c1 = c\<lparr>sha_h := absorb sha512_block 128 (sha_h c) d\<rparr>"
  have eq: "c' = (if r = [] then c1 else c1\<lparr>sha_p := mem_write (sha_p c) 0 r, sha_num := length r\<rparr>)"
  proof (cases "128 \<le> length d")
    case True
    have "drop (length d - length d mod 128) d = r" by (simp add: r_def leftover_def minus_mod_eq_div_mult)
    then show ?thesis using True sha512_blocks.block_all [of d "sha_h c"]
      by (auto simp: c' sha512_update_blocks_def c1_def)
  next
    case False
    then show ?thesis by (simp add: c' sha512_update_blocks_def c1_def r_def)
  qed
  have "length r \<le> 128" unfolding r by (simp add: less_imp_le)
  then show ?thesis
    using assms(1,2) r by (auto simp: eq c1_def sha512_bits_def mem_write_def r_def [symmetric])
qed

lemma SHA512_Update_absorbs:
  assumes c: "absorbed512 h0 n c m"
  shows "absorbed512 h0 n (SHA512_Update c d) (m @ d)"
proof (cases "d = []")
  case True
  then show ?thesis using c by (simp add: SHA512_Update_def)
next
  case False
  define k where "k = length m mod 128"
  note c' = c [unfolded absorbed512_def SHA512_CBLOCK]
  define l where "l = (sha_Nl c + push_bit 3 (of_nat (length d))) AND 0xffffffffffffffff"
  define h where "h = (if l < sha_Nl c then sha_Nh c + 1 else sha_Nh c) + of_nat (length d div 2 ^ 61)"
  define c1 where "c1 = c\<lparr>sha_Nh := h, sha_Nl := l\<rparr>"
  have bits: "sha512_bits c1 = 8 * length (m @ d) mod 2 ^ 128"
    using sha512_bits_update [OF _ l_def h_def, of "length m"] c' by (simp add: sha512_bits_def c1_def)
  have c1: "sha_h c1 = absorb sha512_block 128 h0 m" "sha_num c1 = k" "length (sha_p c1) = 128"
      "take k (sha_p c1) = leftover 128 m" "sha_md_len512 c1 = n"
    using c' by (auto simp: c1_def k_def)
  have k: "k < 128" "k \<le> length (sha_p c1)" using c1(3) by (simp_all add: k_def less_imp_le)
  have upd: "SHA512_Update c d =
      (if k \<noteq> 0 then
         if length d < 128 - k then c1\<lparr>sha_p := mem_write (sha_p c1) k d, sha_num := k + length d\<rparr>
         else sha512_update_blocks (drop (128 - k) d)
           (c1\<lparr>sha_p := mem_write (sha_p c1) k (take (128 - k) d), sha_num := 0,
               sha_h := sha512_block_data_order (sha_h c1) (mem_write (sha_p c1) k (take (128 - k) d)) 1\<rparr>)
       else sha512_update_blocks d c1)"
  proof -
    have num: "sha_num c = k" "0 < length d" using c' False by (simp_all add: k_def)
    show ?thesis
      by (cases "l < sha_Nl c")
        (use num in \<open>simp_all add: SHA512_Update_def Let_def c1_def h_def flip: l_def\<close>)
  qed
  consider "k = 0" | "k \<noteq> 0" "length d < 128 - k" | "k \<noteq> 0" "\<not> length d < 128 - k" by blast
  then show ?thesis
  proof cases
    case 1
    then have m: "length m mod 128 = 0" "leftover 128 m = []" using c1 by (simp_all add: k_def)
    have "absorb sha512_block 128 h0 (m @ d) = absorb sha512_block 128 (absorb sha512_block 128 h0 m) d"
      "leftover 128 (m @ d) = leftover 128 d"
      using absorb_append [of 128 sha512_block h0 m d] leftover_append [of 128 m d] m by simp_all
    moreover have "(length m + length d) mod 128 = length d mod 128"
      using m(1) mod_add_left_eq [of "length m" 128 "length d"] by simp
    moreover have "SHA512_Update c d = sha512_update_blocks d c1" using 1 by (simp add: upd)
    ultimately show ?thesis
      using sha512_update_blocks_absorbs [OF c1(3) _ refl, of d] 1 c1 bits by (simp add: absorbed512_def)
  next
    case 2
    then have s: "length (leftover 128 m @ d) < 128" by (simp add: k_def)
    have "absorb sha512_block 128 h0 (m @ d) = absorb sha512_block 128 h0 m" "leftover 128 (m @ d) = leftover 128 m @ d"
      using absorb_append [of 128 sha512_block h0 m d] leftover_append [of 128 m d] s by simp_all
    moreover have "(length m + length d) mod 128 = k + length d"
      using s by (metis k_def length_append length_leftover mod_add_left_eq mod_less)
    ultimately show ?thesis
      using 2 c1 bits k k_def [symmetric] by (simp add: absorbed512_def upd sha512_bits_def mem_write_def)
  next
    case 3
    define b r where "b = take (128 - k) d" and "r = drop (128 - k) d"
    have d: "d = b @ r" "length b = 128 - length m mod 128" using 3 by (simp_all add: b_def r_def k_def)
    have full: "mem_write (sha_p c1) k b = leftover 128 m @ b"
      using c1 d(2) k by (simp add: mem_write_def k_def [symmetric])
    have abs: "absorb sha512_block 128 h0 (m @ d) = absorb sha512_block 128 (sha512_block (sha_h c1) (leftover 128 m @ b)) r"
      "leftover 128 (m @ d) = leftover 128 r"
      using absorb_fill [OF d(2), of sha512_block h0 r] leftover_fill [OF d(2), of r] c1(1) d(1) by simp_all
    have one: "sha512_block_data_order (sha_h c1) (leftover 128 m @ b) (Suc 0) = sha512_block (sha_h c1) (leftover 128 m @ b)"
      using sha512_blocks.block_one [of "leftover 128 m @ b"] d(2) by simp
    have "k + length d = 128 + length r" using d(2) k(1) by (simp add: d(1) k_def)
    then have n: "(length m + length d) mod 128 = length r mod 128"
      using mod_add_left_eq [of "length m" 128 "length d"] by (simp add: k_def)
    let ?c = "c1\<lparr>sha_p := leftover 128 m @ b, sha_num := 0, sha_h := sha512_block (sha_h c1) (leftover 128 m @ b)\<rparr>"
    have "SHA512_Update c d = sha512_update_blocks r ?c"
      using 3 by (simp add: upd full one flip: b_def r_def)
    then show ?thesis
      using sha512_update_blocks_absorbs [OF _ _ refl, of ?c r] bits abs n c1(5) d(2)
      by (simp add: absorbed512_def sha512_bits_def)
  qed
qed

lemma SHA512_Final_digests:
  assumes c: "absorbed512 h0 n c m" and n: "n \<in> {48, 64}" and "length h0 = 8"
  shows "fst (SHA512_Final False c) = Some (take n (concat (map (\<lambda>w. be_bytes 8 (unat w))
    (absorb sha512_block 128 h0 (m @ sha512_padding (length m))))))"
proof -
  define k where "k = length m mod 128"
  define h where "h = absorb sha512_block 128 h0 (m @ sha512_padding (length m))"
  define hi lo where "hi = sha512_put_u64 (sha_Nh c)" and "lo = sha512_put_u64 (sha_Nl c)"
  note c' = c [unfolded absorbed512_def SHA512_CBLOCK]
  have num: "sha_num c = k" and len: "length (sha_p c) = 128" and rest: "take k (sha_p c) = leftover 128 m"
    and h1: "sha_h c = absorb sha512_block 128 h0 m" and md: "sha_md_len512 c = n"
    using c' by (auto simp: k_def)
  have k: "k < 128" by (simp add: k_def)
  have bits_len: "length hi = 8" "length lo = 8" by (simp_all add: hi_def lo_def sha512_put_u64_bytes)
  have bits: "be_bytes 16 (8 * length m) = hi @ lo"
    using sha512_bits_bytes [of c "length m"] c' by (simp add: hi_def lo_def)
  have one: "sha512_block_data_order s b (Suc 0) = sha512_block s b" if "length b = 128" for s b
    using sha512_blocks.block_one [of b s] that by simp
  have first: "(sha_p c)[k := 0x80] = leftover 128 m @ 0x80 # drop (k + 1) (sha_p c)"
    using len k rest by (simp add: upd_conv_take_nth_drop)
  have final: "\<exists>c2. SHA512_Final False c = (if n = 48
        then (Some (concat (map (\<lambda>n. sha512_put_u64 (h ! n)) [0..<48 div 8])), c2)
        else (Some (concat (map (\<lambda>n. sha512_put_u64 (h ! n)) [0..<64 div 8])), c2))"
  proof (cases "k < 112")
    case True
    define b where "b = leftover 128 m @ 0x80 # replicate (111 - k) 0 @ hi @ lo"
    have e: "112 - k = Suc (111 - k)" using True by simp
    have "(239 - k) mod 128 = 111 - k" using True le_mod_geq [of 128 "239 - k"] by simp
    then have pad: "sha512_padding (length m) = 0x80 # replicate (111 - k) 0 @ hi @ lo"
      by (simp add: sha512_padding_def k_def [symmetric] bits)
    have "h = sha512_block (absorb sha512_block 128 h0 m) b"
      using absorb_fill [of "sha512_padding (length m)" 128 m sha512_block h0 "[]"] True bits_len
      by (simp add: h_def pad k_def [symmetric] b_def)
    moreover have "mem_write (mem_write (mem_write ((sha_p c)[k := 0x80]) (k + 1) (replicate (112 - (k + 1)) 0)) 120 lo) 112 hi = b"
      using True len bits_len by (simp add: first mem_write_def k_def [symmetric] e b_def)
    ultimately show ?thesis
      using True num h1 one [of b] bits_len md n
      by (auto simp: SHA512_Final_def Let_def hi_def [symmetric] lo_def [symmetric] b_def k_def [symmetric])
  next
    case False
    define b1 b2 where "b1 = leftover 128 m @ 0x80 # replicate (127 - k) 0" and "b2 = replicate 112 (0 :: u8) @ hi @ lo"
    have "(239 - k) mod 128 = 239 - k" using False by simp
    then have "sha512_padding (length m) = 0x80 # replicate (127 - k + 112) 0 @ hi @ lo"
      using k False by (simp add: sha512_padding_def k_def [symmetric] bits)
    then have pad: "sha512_padding (length m) = (0x80 # replicate (127 - k) 0) @ b2"
      by (simp only: replicate_add b2_def append.simps append_assoc)
    have b: "length b1 = 128" "length b2 = 128" using k bits_len by (simp_all add: b1_def b2_def k_def [symmetric])
    have "h = absorb sha512_block 128 (sha512_block (absorb sha512_block 128 h0 m) b1) b2"
      unfolding pad b1_def h_def using k by (intro absorb_fill) (simp_all add: k_def [symmetric])
    then have "h = sha512_block (sha512_block (sha_h c) b1) b2"
      using b(2) by (simp add: absorb_one h1)
    moreover have "mem_write ((sha_p c)[k := 0x80]) (k + 1) (replicate (128 - (k + 1)) 0) = b1"
      using k len bits_len by (simp add: first mem_write_def k_def [symmetric] b1_def)
    moreover have "mem_write (mem_write (mem_write b1 0 (replicate 112 0)) 120 lo) 112 hi = b2"
      using b bits_len by (simp add: mem_write_def b2_def)
    ultimately show ?thesis
      using False num one [OF b(1)] one [OF b(2)] md n
      by (auto simp: SHA512_Final_def Let_def hi_def [symmetric] lo_def [symmetric])
  qed
  have "length (sha512_block s b) = 8" for s b
    by (simp add: sha512_block_def Let_def split: prod.splits)
  then have "length h = 8"
    unfolding h_def using assms(3) absorb_invariant [where P = "\<lambda>ws. length ws = 8"] by blast
  then obtain a b c' d e f g i where w: "h = [a, b, c', d, e, f, g, i]"
    by (auto simp: numeral_eq_Suc length_Suc_conv)
  have u: "[0..<6] = [0, 1, 2, 3, 4, 5 :: nat]" "[0..<8] = [0, 1, 2, 3, 4, 5, 6, 7 :: nat]" by (simp_all add: upt_rec)
  show ?thesis using final n unfolding h_def [symmetric] w by (auto simp: u sha512_put_u64_bytes)
qed

definition fips_sha512_with :: "u64 list \<Rightarrow> nat \<Rightarrow> bytes \<Rightarrow> bytes" where
  "fips_sha512_with h0 md_len m = take md_len (concat (map (\<lambda>w. be_bytes 8 (unat w))
     (absorb fips_sha512_compress 128 h0 (m @ sha512_padding (length m)))))"

definition sha384_H0 :: "u64 list" where
  "sha384_H0 =
     [0xcbbb9d5dc1059ed8, 0x629a292a367cd507, 0x9159015a3070dd17, 0x152fecd8f70e5939,
      0x67332667ffc00b31, 0x8eb44a8768581511, 0xdb0c2e0d64f98fa7, 0x47b5481dbefa4fa4]"

definition sha512_H0 :: "u64 list" where
  "sha512_H0 =
     [0x6a09e667f3bcc908, 0xbb67ae8584caa73b, 0x3c6ef372fe94f82b, 0xa54ff53a5f1d36f1,
      0x510e527fade682d1, 0x9b05688c2b3e6c1f, 0x1f83d9abfb41bd6b, 0x5be0cd19137e2179]"

definition fips_sha384 :: "bytes \<Rightarrow> bytes" where
  "fips_sha384 = fips_sha512_with fips_H384 48"

definition fips_sha512 :: "bytes \<Rightarrow> bytes" where
  "fips_sha512 = fips_sha512_with fips_H512 64"

lemma fips_H0: "fips_H384 = sha384_H0" "fips_H512 = sha512_H0"
  by (simp_all only: fips_H384_eq fips_H512_eq sha384_H0_def sha512_H0_def)

definition sha512_stack :: "u8 \<Rightarrow> sha512_ctx" where
  "sha512_stack b = \<lparr>sha_h = [], sha_Nl = 1, sha_Nh = 2, sha_p = replicate 128 b, sha_num = 5, sha_md_len512 = 0\<rparr>"

lemma sha512_incremental:
  assumes "sha_h init = h0" "sha_num init = 0" "sha_Nl init = 0" "sha_Nh init = 0" "length (sha_p init) = 128"
    "sha_md_len512 init = n" "n \<in> {48, 64}" "length h0 = 8"
  shows "incremental_hash (absorbed512 h0 n) init SHA512_Update (\<lambda>c. fst (SHA512_Final False c))
    (\<lambda>m. Some (fips_sha512_with h0 n m))"
proof unfold_locales
  show "absorbed512 h0 n init []"
    using assms by (simp add: absorbed512_def sha512_bits_def leftover_def)
  fix c m assume c: "absorbed512 h0 n c m"
  then show "absorbed512 h0 n (SHA512_Update c d) (m @ d)" for d by (rule SHA512_Update_absorbs)
  have "absorb sha512_block 128 h0 x = absorb fips_sha512_compress 128 h0 x" for x
    by (rule absorb_cong) (simp add: sha512_block_fips)
  then show "fst (SHA512_Final False c) = Some (fips_sha512_with h0 n m)"
    using SHA512_Final_digests [OF c assms(7,8)] by (simp add: fips_sha512_with_def)
qed

interpretation sha512: incremental_hash
  "absorbed512 sha512_H0 64"
  "SHA512_Init (sha512_stack b)" SHA512_Update "\<lambda>c. fst (SHA512_Final False c)" "\<lambda>m. Some (fips_sha512 m)"
  for b
  unfolding fips_sha512_def fips_H0 by (rule sha512_incremental) (simp_all add: SHA512_Init_def sha512_stack_def sha512_H0_def)

interpretation sha384: incremental_hash
  "absorbed512 sha384_H0 48"
  "SHA384_Init (sha512_stack b)" SHA384_Update "\<lambda>c. fst (SHA384_Final False c)" "\<lambda>m. Some (fips_sha384 m)"
  for b
  unfolding fips_sha384_def fips_H0 SHA384_Update_def SHA384_Final_def
  by (rule sha512_incremental) (simp_all add: SHA384_Init_def sha512_stack_def sha384_H0_def)

text \<open>C11. The same for SHA-512 and SHA-384, whose collector is their own: whatever the stack held
  in the context before the initialisation, the buffer included, the digest of the pieces is
  the digest FIPS 180-4 defines for their concatenation, again with constants computed from the
  primes.\<close>

theorem SHA512_exact:
  assumes "length (sha_p stack) = 128"
  shows "fst (SHA512_Final False (foldl SHA512_Update (SHA512_Init stack) ds)) = Some (fips_sha512 (concat ds)) \<and>
    SHA512 stack data = Some (fips_sha512 data) \<and>
    fst (SHA384_Final False (foldl SHA384_Update (SHA384_Init stack) ds)) = Some (fips_sha384 (concat ds)) \<and>
    SHA384 stack data = Some (fips_sha384 data)"
proof -
  have h1: "incremental_hash (absorbed512 sha512_H0 64) (SHA512_Init stack) SHA512_Update
      (\<lambda>c. fst (SHA512_Final False c)) (\<lambda>m. Some (fips_sha512 m))"
    unfolding fips_sha512_def fips_H0 by (rule sha512_incremental) (simp_all add: SHA512_Init_def sha512_H0_def assms)
  have h2: "incremental_hash (absorbed512 sha384_H0 48) (SHA384_Init stack) SHA384_Update
      (\<lambda>c. fst (SHA384_Final False c)) (\<lambda>m. Some (fips_sha384 m))"
    unfolding fips_sha384_def fips_H0 SHA384_Update_def SHA384_Final_def
    by (rule sha512_incremental) (simp_all add: SHA384_Init_def sha384_H0_def assms)
  show ?thesis
    using incremental_hash.digest_of_pieces [OF h1, of ds] incremental_hash.one_shot [OF h1, of data]
      incremental_hash.digest_of_pieces [OF h2, of ds] incremental_hash.one_shot [OF h2, of data]
    by (simp add: SHA512_def SHA384_def Let_def case_prod_beta)
qed

theorem SHA512_exact_witness:
  "fst (SHA512_Final False (foldl SHA512_Update (SHA512_Init (sha512_stack 7)) [[1, 2], replicate 130 3])) =
    Some (fips_sha512 ([1, 2] @ replicate 130 3))"
  using SHA512_exact [of "sha512_stack 7" "[[1, 2], replicate 130 3]"] by (simp add: sha512_stack_def)

end
