(* ===== verification/Evp.thy ===== *)
theory Evp
  imports Md Sha1_Fips Sha2_Fips
begin

text \<open>
  \<open>crypto/fipsmodule/digest/digests.c\<close> and \<open>digest.c\<close>: the table of digests and the generic
  digest context. An \<open>EVP_MD\<close> is one of the eight static tables, known by its address; its
  fields are functions of it. \<open>md_state\<close> is the block a context points to, read as the
  structure its digest keeps there.
\<close>

section \<open>The digests\<close>

datatype EVP_MD =
  EVP_md4 | EVP_md5 | EVP_sha1 | EVP_sha224 | EVP_sha256 | EVP_sha384 | EVP_sha512 | EVP_md5_sha1

datatype md_state =
  MD4_CTX md32
| MD5_CTX md32
| SHA_CTX md32
| SHA256_CTX sha256_ctx
| SHA512_CTX sha512_ctx
| MD5_SHA1_CTX md32 md32

fun EVP_MD_size :: "EVP_MD \<Rightarrow> nat" where
  "EVP_MD_size EVP_md4 = 16"
| "EVP_MD_size EVP_md5 = 16"
| "EVP_MD_size EVP_sha1 = 20"
| "EVP_MD_size EVP_sha224 = 28"
| "EVP_MD_size EVP_sha256 = 32"
| "EVP_MD_size EVP_sha384 = 48"
| "EVP_MD_size EVP_sha512 = 64"
| "EVP_MD_size EVP_md5_sha1 = 16 + 20"

fun EVP_MD_block_size :: "EVP_MD \<Rightarrow> nat" where
  "EVP_MD_block_size EVP_sha384 = 128"
| "EVP_MD_block_size EVP_sha512 = 128"
| "EVP_MD_block_size _ = 64"

definition EVP_MAX_MD_SIZE :: nat where
  "EVP_MAX_MD_SIZE = 64"

definition EVP_MAX_MD_BLOCK_SIZE :: nat where
  "EVP_MAX_MD_BLOCK_SIZE = 128"

text \<open>The two digests TLS signs together.\<close>

definition md5_sha1_init :: md_state where
  [simp]: "md5_sha1_init = MD5_SHA1_CTX MD5_Init SHA1_Init"

definition md5_sha1_update :: "md32 \<Rightarrow> md32 \<Rightarrow> bytes \<Rightarrow> md_state" where
  [simp]: "md5_sha1_update md5 sha1 data = MD5_SHA1_CTX (MD5_Update md5 data) (SHA1_Update sha1 data)"

definition md5_sha1_final :: "md32 \<Rightarrow> md32 \<Rightarrow> bytes" where
  [simp]: "md5_sha1_final md5 sha1 = fst (MD5_Final md5) @ fst (SHA1_Final sha1)"

text \<open>
  The \<open>init\<close>, \<open>update\<close> and \<open>final\<close> entries. A block of the wrong shape is one of the wrong
  size: no context is ever built that way, and the functions leave it alone.
\<close>

fun md_init :: "EVP_MD \<Rightarrow> md_state \<Rightarrow> md_state" where
  "md_init EVP_md4 (MD4_CTX c) = MD4_CTX MD4_Init"
| "md_init EVP_md5 (MD5_CTX c) = MD5_CTX MD5_Init"
| "md_init EVP_sha1 (SHA_CTX c) = SHA_CTX SHA1_Init"
| "md_init EVP_sha224 (SHA256_CTX c) = SHA256_CTX SHA224_Init"
| "md_init EVP_sha256 (SHA256_CTX c) = SHA256_CTX SHA256_Init"
| "md_init EVP_sha384 (SHA512_CTX c) = SHA512_CTX (SHA384_Init c)"
| "md_init EVP_sha512 (SHA512_CTX c) = SHA512_CTX (SHA512_Init c)"
| "md_init EVP_md5_sha1 (MD5_SHA1_CTX c c') = md5_sha1_init"
| "md_init _ p = p"

fun md_update :: "EVP_MD \<Rightarrow> md_state \<Rightarrow> bytes \<Rightarrow> md_state" where
  "md_update EVP_md4 (MD4_CTX c) data = MD4_CTX (MD4_Update c data)"
| "md_update EVP_md5 (MD5_CTX c) data = MD5_CTX (MD5_Update c data)"
| "md_update EVP_sha1 (SHA_CTX c) data = SHA_CTX (SHA1_Update c data)"
| "md_update EVP_sha224 (SHA256_CTX c) data = SHA256_CTX (SHA224_Update c data)"
| "md_update EVP_sha256 (SHA256_CTX c) data = SHA256_CTX (SHA256_Update c data)"
| "md_update EVP_sha384 (SHA512_CTX c) data = SHA512_CTX (SHA384_Update c data)"
| "md_update EVP_sha512 (SHA512_CTX c) data = SHA512_CTX (SHA512_Update c data)"
| "md_update EVP_md5_sha1 (MD5_SHA1_CTX c c') data = md5_sha1_update c c' data"
| "md_update _ p data = p"

text \<open>\<open>CHECK\<close> asserts that the low-level function succeeded: \<open>None\<close> is a failed assertion.\<close>

fun md_final :: "EVP_MD \<Rightarrow> md_state \<Rightarrow> bytes option" where
  "md_final EVP_md4 (MD4_CTX c) = Some (fst (MD4_Final c))"
| "md_final EVP_md5 (MD5_CTX c) = Some (fst (MD5_Final c))"
| "md_final EVP_sha1 (SHA_CTX c) = Some (fst (SHA1_Final c))"
| "md_final EVP_sha224 (SHA256_CTX c) = fst (SHA224_Final c)"
| "md_final EVP_sha256 (SHA256_CTX c) = fst (SHA256_Final c)"
| "md_final EVP_sha384 (SHA512_CTX c) = fst (SHA384_Final False c)"
| "md_final EVP_sha512 (SHA512_CTX c) = fst (SHA512_Final False c)"
| "md_final EVP_md5_sha1 (MD5_SHA1_CTX c c') = Some (md5_sha1_final c c')"
| "md_final _ p = None"

section \<open>Digest contexts\<close>

record EVP_MD_CTX =
  ctx_digest :: "EVP_MD option"
  ctx_md_data :: "md_state option"

definition EVP_MD_CTX_init :: EVP_MD_CTX where
  "EVP_MD_CTX_init = \<lparr>ctx_digest = None, ctx_md_data = None\<rparr>"

definition EVP_MD_CTX_cleanup :: "EVP_MD_CTX \<Rightarrow> EVP_MD_CTX" where
  "EVP_MD_CTX_cleanup ctx = EVP_MD_CTX_init"

definition EVP_MD_CTX_reset :: "EVP_MD_CTX \<Rightarrow> EVP_MD_CTX" where
  "EVP_MD_CTX_reset ctx = (let ctx = EVP_MD_CTX_cleanup ctx in EVP_MD_CTX_init)"

text \<open>
  \<open>malloc md\<close> is what \<open>OPENSSL_malloc(md->ctx_size)\<close> returns: \<open>None\<close> for NULL, or a block
  with any contents.
\<close>

type_synonym md_malloc = "EVP_MD \<Rightarrow> md_state option"

definition EVP_DigestInit_ex :: "md_malloc \<Rightarrow> EVP_MD \<Rightarrow> (EVP_MD_CTX, unit) op" where
  "EVP_DigestInit_ex malloc type ctx =
     (if ctx_digest ctx \<noteq> Some type
      then
        case malloc type of
          None \<Rightarrow> (None, ctx)
        | Some p \<Rightarrow> (Some (), \<lparr>ctx_digest = Some type, ctx_md_data = Some (md_init type p)\<rparr>)
      else (Some (), ctx\<lparr>ctx_md_data := map_option (md_init type) (ctx_md_data ctx)\<rparr>))"

definition EVP_DigestInit :: "md_malloc \<Rightarrow> EVP_MD \<Rightarrow> (EVP_MD_CTX, unit) op" where
  "EVP_DigestInit malloc type ctx = EVP_DigestInit_ex malloc type EVP_MD_CTX_init"

text \<open>A context without a digest has no function to call: the call through NULL is a failure.\<close>

definition EVP_DigestUpdate :: "bytes \<Rightarrow> (EVP_MD_CTX, unit) op" where
  "EVP_DigestUpdate data ctx =
     (case (ctx_digest ctx, ctx_md_data ctx) of
        (Some md, Some p) \<Rightarrow> (Some (), ctx\<lparr>ctx_md_data := Some (md_update md p data)\<rparr>)
      | _ \<Rightarrow> (None, ctx))"

definition md32_zero :: md32 where
  "md32_zero = \<lparr>md_h = [0, 0, 0, 0, 0], md_Nl = 0, md_Nh = 0, md_data = replicate 64 0, md_num = 0\<rparr>"

fun OPENSSL_cleanse_md :: "md_state \<Rightarrow> md_state" where
  "OPENSSL_cleanse_md (MD4_CTX c) = MD4_CTX (md32_zero\<lparr>md_h := replicate 4 0\<rparr>)"
| "OPENSSL_cleanse_md (MD5_CTX c) = MD5_CTX (md32_zero\<lparr>md_h := replicate 4 0\<rparr>)"
| "OPENSSL_cleanse_md (SHA_CTX c) = SHA_CTX (md32_zero\<lparr>md_h := replicate 5 0\<rparr>)"
| "OPENSSL_cleanse_md (SHA256_CTX c) = SHA256_CTX
     \<lparr>md_h = replicate 8 0, md_Nl = 0, md_Nh = 0, md_data = replicate 64 0, md_num = 0, sha_md_len = 0\<rparr>"
| "OPENSSL_cleanse_md (SHA512_CTX c) = SHA512_CTX
     \<lparr>sha_h = replicate 8 0, sha_Nl = 0, sha_Nh = 0, sha_p = replicate 128 0, sha_num = 0, sha_md_len512 = 0\<rparr>"
| "OPENSSL_cleanse_md (MD5_SHA1_CTX c c') =
     MD5_SHA1_CTX (md32_zero\<lparr>md_h := replicate 4 0\<rparr>) (md32_zero\<lparr>md_h := replicate 5 0\<rparr>)"

definition EVP_DigestFinal_ex :: "(EVP_MD_CTX, bytes) op" where
  "EVP_DigestFinal_ex ctx =
     (case (ctx_digest ctx, ctx_md_data ctx) of
        (Some md, Some p) \<Rightarrow>
          (case md_final md p of
             Some md_out \<Rightarrow> (Some md_out, ctx\<lparr>ctx_md_data := Some (OPENSSL_cleanse_md p)\<rparr>)
           | None \<Rightarrow> (None, ctx))
      | _ \<Rightarrow> (None, ctx))"

definition EVP_DigestFinal :: "(EVP_MD_CTX, bytes) op" where
  "EVP_DigestFinal ctx = (let (md_out, ctx) = EVP_DigestFinal_ex ctx in (md_out, EVP_MD_CTX_cleanup ctx))"

definition EVP_Digest :: "md_malloc \<Rightarrow> bytes \<Rightarrow> EVP_MD \<Rightarrow> bytes option" where
  "EVP_Digest malloc data type =
     fst (and_then (EVP_DigestInit_ex malloc type) (\<lambda>_.
       and_then (EVP_DigestUpdate data) (\<lambda>_. EVP_DigestFinal_ex)) EVP_MD_CTX_init)"

text \<open>
  Copying a context: the block of a context that already holds the same digest is reused,
  otherwise a new one is allocated; then the bytes are copied. Contexts of signature
  operations (\<open>pctx\<close>) are outside the model.
\<close>

definition EVP_MD_CTX_copy_ex :: "md_malloc \<Rightarrow> EVP_MD_CTX \<Rightarrow> (EVP_MD_CTX, unit) op" where
  "EVP_MD_CTX_copy_ex malloc in_ctx out =
     (case ctx_digest in_ctx of
        None \<Rightarrow> (None, out)
      | Some md \<Rightarrow>
          case (if ctx_digest out \<noteq> Some md then malloc md else ctx_md_data out) of
            None \<Rightarrow> (None, out)
          | Some tmp_buf \<Rightarrow> (Some (), \<lparr>ctx_digest = Some md, ctx_md_data = ctx_md_data in_ctx\<rparr>))"

definition EVP_MD_CTX_copy :: "md_malloc \<Rightarrow> EVP_MD_CTX \<Rightarrow> (EVP_MD_CTX, unit) op" where
  "EVP_MD_CTX_copy malloc in_ctx out = EVP_MD_CTX_copy_ex malloc in_ctx EVP_MD_CTX_init"

section \<open>What a context has absorbed\<close>

text \<open>The digests as functions of a message, from the documents that define them.\<close>

primrec md_digest :: "EVP_MD \<Rightarrow> bytes \<Rightarrow> bytes" where
  "md_digest EVP_md4 m = rfc1320_md4 m"
| "md_digest EVP_md5 m = rfc1321_md5 m"
| "md_digest EVP_sha1 m = fips_sha1 m"
| "md_digest EVP_sha224 m = fips_sha224 m"
| "md_digest EVP_sha256 m = fips_sha256 m"
| "md_digest EVP_sha384 m = fips_sha384 m"
| "md_digest EVP_sha512 m = fips_sha512 m"
| "md_digest EVP_md5_sha1 m = rfc1321_md5 m @ fips_sha1 m"

fun md_block_ok :: "EVP_MD \<Rightarrow> md_state \<Rightarrow> bool" where
  "md_block_ok EVP_md4 (MD4_CTX c) = True"
| "md_block_ok EVP_md5 (MD5_CTX c) = True"
| "md_block_ok EVP_sha1 (SHA_CTX c) = True"
| "md_block_ok EVP_sha224 (SHA256_CTX c) = True"
| "md_block_ok EVP_sha256 (SHA256_CTX c) = True"
| "md_block_ok EVP_sha384 (SHA512_CTX c) = (length (sha_p c) = 128)"
| "md_block_ok EVP_sha512 (SHA512_CTX c) = (length (sha_p c) = 128)"
| "md_block_ok EVP_md5_sha1 (MD5_SHA1_CTX c c') = True"
| "md_block_ok _ _ = False"

abbreviation md5_absorbed :: "md32 \<Rightarrow> bytes \<Rightarrow> bool" where
  "md5_absorbed \<equiv> absorbed32 md5_block [0x67452301, 0xefcdab89, 0x98badcfe, 0x10325476]"

abbreviation sha1_absorbed :: "md32 \<Rightarrow> bytes \<Rightarrow> bool" where
  "sha1_absorbed \<equiv> absorbed32 sha1_block [0x67452301, 0xefcdab89, 0x98badcfe, 0x10325476, 0xc3d2e1f0]"

fun md_absorbed :: "EVP_MD \<Rightarrow> md_state \<Rightarrow> bytes \<Rightarrow> bool" where
  "md_absorbed EVP_md4 (MD4_CTX c) m = absorbed32 md4_block [0x67452301, 0xefcdab89, 0x98badcfe, 0x10325476] c m"
| "md_absorbed EVP_md5 (MD5_CTX c) m = md5_absorbed c m"
| "md_absorbed EVP_sha1 (SHA_CTX c) m = sha1_absorbed c m"
| "md_absorbed EVP_sha224 (SHA256_CTX c) m =
     (absorbed32 sha256_block [0xc1059ed8, 0x367cd507, 0x3070dd17, 0xf70e5939, 0xffc00b31, 0x68581511,
      0x64f98fa7, 0xbefa4fa4] c m \<and> md32.more c = md32.more SHA224_Init)"
| "md_absorbed EVP_sha256 (SHA256_CTX c) m =
     (absorbed32 sha256_block [0x6a09e667, 0xbb67ae85, 0x3c6ef372, 0xa54ff53a, 0x510e527f, 0x9b05688c,
      0x1f83d9ab, 0x5be0cd19] c m \<and> md32.more c = md32.more SHA256_Init)"
| "md_absorbed EVP_sha384 (SHA512_CTX c) m = absorbed512 sha384_H0 48 c m"
| "md_absorbed EVP_sha512 (SHA512_CTX c) m = absorbed512 sha512_H0 64 c m"
| "md_absorbed EVP_md5_sha1 (MD5_SHA1_CTX c c') m = (md5_absorbed c m \<and> sha1_absorbed c' m)"
| "md_absorbed _ _ m = False"

lemma sha512_init_absorbed:
  "length (sha_p c) = 128 \<Longrightarrow> absorbed512 sha512_H0 64 (SHA512_Init c) []"
  "length (sha_p c) = 128 \<Longrightarrow> absorbed512 sha384_H0 48 (SHA384_Init c) []"
  by (simp_all add: SHA512_Init_def SHA384_Init_def sha512_H0_def sha384_H0_def absorbed512_def sha512_bits_def
      leftover_def)

lemma md5_facts:
  "md5_absorbed MD5_Init []" "md5_absorbed c m \<Longrightarrow> md5_absorbed (MD5_Update c d) (m @ d)"
  "md5_absorbed c m \<Longrightarrow> fst (MD5_Final c) = rfc1321_md5 m"
  using md5.init_absorbed md5.update_absorbed [of c m d] md5.final_absorbed [of c m] by (simp_all add: md5_digest_rfc1321)

lemma sha1_digest_fips:
  "concat (map (\<lambda>w. be_bytes 4 (unat w))
     (absorb sha1_block 64 [0x67452301, 0xefcdab89, 0x98badcfe, 0x10325476, 0xc3d2e1f0]
       (m @ md_padding True (length m)))) = fips_sha1 m"
  unfolding fips_sha1_def
  by (subst absorb_cong [of 64 sha1_block fips_sha1_compress]) (simp_all only: sha1_block_fips order_refl)

lemma sha1_facts:
  "sha1_absorbed SHA1_Init []" "sha1_absorbed c m \<Longrightarrow> sha1_absorbed (SHA1_Update c d) (m @ d)"
  "sha1_absorbed c m \<Longrightarrow> fst (SHA1_Final c) = fips_sha1 m"
  using sha1.init_absorbed sha1.update_absorbed [of c m d] sha1.final_absorbed [of c m]
  by (simp_all add: sha1_digest_fips)

lemma evp_incremental:
  assumes "md_block_ok md p"
  shows "incremental_hash (md_absorbed md) (md_init md p) (md_update md) (md_final md) (\<lambda>m. Some (md_digest md m))"
proof unfold_locales
  show "md_absorbed md (md_init md p) []"
    using assms md4.init_absorbed md5_facts(1) sha1_facts(1) sha224.init_absorbed sha256.init_absorbed
    by (cases "(md, p)" rule: md_init.cases) (simp_all add: sha512_init_absorbed)
  fix c m assume c: "md_absorbed md c m"
  then show "md_absorbed md (md_update md c d) (m @ d)" for d
    using md4.update_absorbed [of _ m d] md5_facts(2) sha1_facts(2) sha224.update_absorbed [of _ m d]
      sha256.update_absorbed [of _ m d]
    by (cases "(md, c)" rule: md_init.cases) (auto simp: SHA384_Update_def intro: SHA512_Update_absorbs)
  show "md_final md c = Some (md_digest md m)"
    using c md4.final_absorbed [of _ m] md5_facts(3) sha1_facts(3) sha224.final_absorbed [of _ m]
      sha256.final_absorbed [of _ m] sha384.final_absorbed [of _ m] sha512.final_absorbed [of _ m]
    by (cases "(md, c)" rule: md_init.cases) (auto simp: md4_digest_rfc1320)
qed

lemma md_absorbed_block: "md_absorbed md p m \<Longrightarrow> md_block_ok md p"
  by (cases "(md, p)" rule: md_init.cases) (simp_all add: absorbed512_def)

lemma md_cleanse_block: "md_block_ok md p \<Longrightarrow> md_block_ok md (OPENSSL_cleanse_md p)"
  by (cases "(md, p)" rule: md_init.cases) simp_all

lemma length_concat_words:
  "length (concat (map (\<lambda>w. le_bytes 4 (unat w)) ws)) = 4 * length ws"
  "length (concat (map (\<lambda>w. be_bytes 4 (unat w)) ws)) = 4 * length ws"
  "length (concat (map (\<lambda>w. be_bytes 8 (unat w)) ws')) = 8 * length ws'"
  by (induction ws; simp)+ (induction ws'; simp)

lemma length_absorb:
  "length s = n \<Longrightarrow> (\<And>s b. length (compress s b) = n) \<Longrightarrow> length (absorb compress c s m) = n"
  by (rule absorb_invariant [where P = "\<lambda>ws. length ws = n"])

lemma length_compress:
  "length (rfc1320_compress s b) = 4" "length (rfc1321_compress s b) = 4" "length (fips_sha1_compress s b) = 5"
  "length (fips_sha256_compress s b) = 8" "length (fips_sha512_compress s' b) = 8"
  by (simp_all add: rfc1320_compress_def rfc1321_compress_def fips_sha1_compress_def fips_sha256_compress_def
      fips_sha512_compress_def add_words_def Let_def split: prod.split)

lemma length_md_digest: "length (md_digest md m) = EVP_MD_size md"
proof -
  have "length (rfc1320_md4 m) = 16" "length (rfc1321_md5 m) = 16" "length (fips_sha1 m) = 20"
    "length (fips_sha224 m) = 28" "length (fips_sha256 m) = 32"
    "length (fips_sha384 m) = 48" "length (fips_sha512 m) = 64"
    unfolding rfc1320_md4_def rfc1321_md5_def fips_sha1_def fips_sha224_def fips_sha256_def fips_sha2_def
      fips_sha384_def fips_sha512_def fips_sha512_with_def fips_H224_eq fips_H256_eq fips_H0 length_take length_concat_words
      length_absorb [where compress = rfc1320_compress and n = 4, OF _ length_compress(1)]
    by (simp_all add: length_absorb [OF _ length_compress(1)] length_absorb [OF _ length_compress(2)]
        length_absorb [OF _ length_compress(3)] length_absorb [OF _ length_compress(4)]
        length_absorb [OF _ length_compress(5)] sha384_H0_def sha512_H0_def)
  then show ?thesis by (cases md) simp_all
qed

section \<open>The context operations\<close>

definition ctx_has :: "EVP_MD \<Rightarrow> EVP_MD_CTX \<Rightarrow> bytes \<Rightarrow> bool" where
  "ctx_has md ctx m \<longleftrightarrow> ctx_digest ctx = Some md \<and> (\<exists>p. ctx_md_data ctx = Some p \<and> md_absorbed md p m)"

definition ctx_ok :: "EVP_MD_CTX \<Rightarrow> bool" where
  "ctx_ok ctx \<longleftrightarrow> (\<forall>md. ctx_digest ctx = Some md \<longrightarrow> (\<exists>p. ctx_md_data ctx = Some p \<and> md_block_ok md p))"

definition malloc_ok :: "md_malloc \<Rightarrow> bool" where
  "malloc_ok malloc \<longleftrightarrow> (\<forall>md p. malloc md = Some p \<longrightarrow> md_block_ok md p)"

lemma ctx_has_ok: "ctx_has md ctx m \<Longrightarrow> ctx_ok ctx"
  by (auto simp: ctx_has_def ctx_ok_def dest: md_absorbed_block)

lemma ctx_ok_init [simp]: "ctx_ok EVP_MD_CTX_init"
  by (simp add: ctx_ok_def EVP_MD_CTX_init_def)

lemma EVP_DigestInit_ex_has:
  assumes "malloc_ok malloc" "ctx_ok ctx"
  shows "(\<exists>ctx'. EVP_DigestInit_ex malloc md ctx = (Some (), ctx') \<and> ctx_has md ctx' []) \<or>
    EVP_DigestInit_ex malloc md ctx = (None, ctx) \<and> malloc md = None \<and> ctx_digest ctx \<noteq> Some md"
proof -
  have i: "md_absorbed md (md_init md p) []" if "md_block_ok md p" for p
    using evp_incremental [OF that] by (rule incremental_hash.init_absorbed)
  show ?thesis
    using assms i by (cases "malloc md")
      (auto simp: EVP_DigestInit_ex_def ctx_has_def ctx_ok_def malloc_ok_def)
qed

lemma EVP_DigestUpdate_has:
  assumes "ctx_has md ctx m"
  obtains ctx' where "EVP_DigestUpdate d ctx = (Some (), ctx')" "ctx_has md ctx' (m @ d)"
proof -
  obtain p where p: "ctx_digest ctx = Some md" "ctx_md_data ctx = Some p" "md_absorbed md p m"
    using assms by (auto simp: ctx_has_def)
  have "md_absorbed md (md_update md p d) (m @ d)"
    using evp_incremental [OF md_absorbed_block [OF p(3)]] p(3) by (rule incremental_hash.update_absorbed)
  then show ?thesis using that p by (simp add: EVP_DigestUpdate_def ctx_has_def)
qed

lemma EVP_DigestFinal_ex_has:
  assumes "ctx_has md ctx m"
  obtains ctx' where "EVP_DigestFinal_ex ctx = (Some (md_digest md m), ctx')" "ctx_ok ctx'" "ctx_digest ctx' = Some md"
proof -
  obtain p where p: "ctx_digest ctx = Some md" "ctx_md_data ctx = Some p" "md_absorbed md p m"
    using assms by (auto simp: ctx_has_def)
  have "md_final md p = Some (md_digest md m)"
    using evp_incremental [OF md_absorbed_block [OF p(3)]] p(3) by (rule incremental_hash.final_absorbed)
  then show ?thesis
    using that p md_cleanse_block [OF md_absorbed_block [OF p(3)]]
    by (simp add: EVP_DigestFinal_ex_def ctx_ok_def)
qed

lemma EVP_MD_CTX_copy_ex_has:
  assumes "ctx_has md in_ctx m" "ctx_ok out"
  shows "(\<exists>out'. EVP_MD_CTX_copy_ex malloc in_ctx out = (Some (), out') \<and> ctx_has md out' m) \<or>
    EVP_MD_CTX_copy_ex malloc in_ctx out = (None, out) \<and> malloc md = None \<and> ctx_digest out \<noteq> Some md"
  using assms by (cases "malloc md") (auto simp: EVP_MD_CTX_copy_ex_def ctx_has_def ctx_ok_def)

definition zero_malloc :: md_malloc where
  "zero_malloc md =
     Some (case md of
        EVP_md4 \<Rightarrow> OPENSSL_cleanse_md (MD4_CTX md32_zero)
      | EVP_md5 \<Rightarrow> OPENSSL_cleanse_md (MD5_CTX md32_zero)
      | EVP_sha1 \<Rightarrow> OPENSSL_cleanse_md (SHA_CTX md32_zero)
      | EVP_sha224 \<Rightarrow> OPENSSL_cleanse_md (SHA256_CTX SHA224_Init)
      | EVP_sha256 \<Rightarrow> OPENSSL_cleanse_md (SHA256_CTX SHA256_Init)
      | EVP_sha384 \<Rightarrow> OPENSSL_cleanse_md (SHA512_CTX (sha512_stack 0))
      | EVP_sha512 \<Rightarrow> OPENSSL_cleanse_md (SHA512_CTX (sha512_stack 0))
      | EVP_md5_sha1 \<Rightarrow> OPENSSL_cleanse_md (MD5_SHA1_CTX md32_zero md32_zero))"

lemma zero_malloc_ok [simp]: "malloc_ok zero_malloc"
  unfolding malloc_ok_def
proof (intro allI impI)
  fix md p assume "zero_malloc md = Some p"
  then show "md_block_ok md p" by (cases md) (auto simp: zero_malloc_def)
qed

text \<open>C14. \<open>EVP_Digest\<close> returns the digest of the data, for each of the eight digests, or fails
  when the context cannot be allocated, and in no other case.\<close>

theorem EVP_Digest_exact:
  assumes "malloc_ok malloc"
  shows "EVP_Digest malloc data md = (if malloc md = None then None else Some (md_digest md data))"
  using EVP_DigestInit_ex_has [OF assms ctx_ok_init, of md]
proof (elim disjE exE conjE)
  fix ctx assume i: "EVP_DigestInit_ex malloc md EVP_MD_CTX_init = (Some (), ctx)" and ctx: "ctx_has md ctx []"
  have "malloc md \<noteq> None" using i by (auto simp: EVP_DigestInit_ex_def EVP_MD_CTX_init_def split: option.splits)
  moreover obtain ctx1 where "EVP_DigestUpdate data ctx = (Some (), ctx1)" "ctx_has md ctx1 data"
    using EVP_DigestUpdate_has [OF ctx, of data] by auto
  moreover from this(2) obtain ctx2 where "EVP_DigestFinal_ex ctx1 = (Some (md_digest md data), ctx2)"
    by (rule EVP_DigestFinal_ex_has)
  ultimately show ?thesis using i by (simp add: EVP_Digest_def)
qed (simp add: EVP_Digest_def)

theorem EVP_Digest_exact_witness:
  "EVP_Digest zero_malloc [1, 2, 3] EVP_sha384 = Some (md_digest EVP_sha384 [1, 2, 3])"
  using EVP_Digest_exact [OF zero_malloc_ok, of "[1, 2, 3]" EVP_sha384] by (simp add: zero_malloc_def)

end
