(* ===== verification/Hmac.thy ===== *)
theory Hmac
  imports Evp
begin

text \<open>
  \<open>crypto/fipsmodule/hmac/hmac.c\<close> and \<open>crypto/hkdf/hkdf.c\<close>, over the digest contexts. A
  function that allocates several contexts takes the results of its calls of malloc as a
  function of the call: any of them may fail.
\<close>

section \<open>HMAC\<close>

record HMAC_CTX =
  hmac_md :: "EVP_MD option"
  hmac_md_ctx :: EVP_MD_CTX
  hmac_i_ctx :: EVP_MD_CTX
  hmac_o_ctx :: EVP_MD_CTX

definition HMAC_CTX_init :: HMAC_CTX where
  "HMAC_CTX_init =
     \<lparr>hmac_md = None, hmac_md_ctx = EVP_MD_CTX_init, hmac_i_ctx = EVP_MD_CTX_init,
      hmac_o_ctx = EVP_MD_CTX_init\<rparr>"

text \<open>\<open>HMAC_CTX_cleanup\<close> frees the contexts and zeroes the structure.\<close>

definition HMAC_CTX_cleanup :: "HMAC_CTX \<Rightarrow> HMAC_CTX" where
  "HMAC_CTX_cleanup ctx =
     \<lparr>hmac_md = None, hmac_md_ctx = EVP_MD_CTX_cleanup (hmac_md_ctx ctx),
      hmac_i_ctx = EVP_MD_CTX_cleanup (hmac_i_ctx ctx), hmac_o_ctx = EVP_MD_CTX_cleanup (hmac_o_ctx ctx)\<rparr>"

text \<open>Operations on one of the three digest contexts.\<close>

definition on_md_ctx :: "(EVP_MD_CTX, 'a) op \<Rightarrow> (HMAC_CTX, 'a) op" where
  "on_md_ctx m ctx = (let (r, c) = m (hmac_md_ctx ctx) in (r, ctx\<lparr>hmac_md_ctx := c\<rparr>))"

definition on_i_ctx :: "(EVP_MD_CTX, 'a) op \<Rightarrow> (HMAC_CTX, 'a) op" where
  "on_i_ctx m ctx = (let (r, c) = m (hmac_i_ctx ctx) in (r, ctx\<lparr>hmac_i_ctx := c\<rparr>))"

definition on_o_ctx :: "(EVP_MD_CTX, 'a) op \<Rightarrow> (HMAC_CTX, 'a) op" where
  "on_o_ctx m ctx = (let (r, c) = m (hmac_o_ctx ctx) in (r, ctx\<lparr>hmac_o_ctx := c\<rparr>))"

definition hmac_key_block :: "md_malloc \<Rightarrow> EVP_MD \<Rightarrow> bytes \<Rightarrow> (HMAC_CTX, bytes) op" where
  "hmac_key_block malloc md key =
     and_then
       (if EVP_MD_block_size md < length key
        then on_md_ctx (and_then (EVP_DigestInit_ex malloc md) (\<lambda>_.
               and_then (EVP_DigestUpdate key) (\<lambda>_. EVP_DigestFinal_ex)))
        else ok key)
       (\<lambda>key_block. ok (key_block @ replicate (EVP_MAX_MD_BLOCK_SIZE - length key_block) 0))"

definition HMAC_Init_ex :: "(nat \<Rightarrow> md_malloc) \<Rightarrow> bytes option \<Rightarrow> EVP_MD option \<Rightarrow> (HMAC_CTX, unit) op" where
  "HMAC_Init_ex malloc key type ctx =
     (let md = (if type = None then hmac_md ctx else type)
      in and_then
           (if md \<noteq> hmac_md ctx \<or> key \<noteq> None
            then
              case md of
                None \<Rightarrow> fail
              | Some md \<Rightarrow>
                  and_then (hmac_key_block (malloc 0) md (case key of None \<Rightarrow> [] | Some key \<Rightarrow> key)) (\<lambda>key_block.
                    let pad = map (\<lambda>b. 0x36 XOR b) key_block
                    in and_then (on_i_ctx (EVP_DigestInit_ex (malloc 1) md)) (\<lambda>_.
                       and_then (on_i_ctx (EVP_DigestUpdate (take (EVP_MD_block_size md) pad))) (\<lambda>_.
                         let pad = map (\<lambda>b. 0x5c XOR b) key_block
                         in and_then (on_o_ctx (EVP_DigestInit_ex (malloc 2) md)) (\<lambda>_.
                            and_then (on_o_ctx (EVP_DigestUpdate (take (EVP_MD_block_size md) pad))) (\<lambda>_.
                              (\<lambda>ctx. (Some (), ctx\<lparr>hmac_md := Some md\<rparr>)))))))
            else ok ())
           (\<lambda>_ ctx. on_md_ctx (EVP_MD_CTX_copy_ex (malloc 3) (hmac_i_ctx ctx)) ctx) ctx)"

definition HMAC_Update :: "bytes \<Rightarrow> (HMAC_CTX, unit) op" where
  "HMAC_Update data = on_md_ctx (EVP_DigestUpdate data)"

definition HMAC_Final :: "md_malloc \<Rightarrow> (HMAC_CTX, bytes) op" where
  "HMAC_Final malloc =
     and_then (on_md_ctx EVP_DigestFinal_ex) (\<lambda>buf ctx.
       and_then (on_md_ctx (EVP_MD_CTX_copy_ex malloc (hmac_o_ctx ctx))) (\<lambda>_.
         and_then (on_md_ctx (EVP_DigestUpdate buf)) (\<lambda>_. on_md_ctx EVP_DigestFinal_ex)) ctx)"

definition HMAC :: "(nat \<Rightarrow> md_malloc) \<Rightarrow> EVP_MD \<Rightarrow> bytes option \<Rightarrow> bytes \<Rightarrow> bytes option" where
  "HMAC malloc evp_md key data =
     fst (and_then (HMAC_Init_ex malloc key (Some evp_md)) (\<lambda>_.
       and_then (HMAC_Update data) (\<lambda>_. HMAC_Final (malloc 4))) HMAC_CTX_init)"

definition HMAC_size :: "HMAC_CTX \<Rightarrow> nat option" where
  "HMAC_size ctx = map_option EVP_MD_size (hmac_md ctx)"

definition HMAC_CTX_copy_ex :: "(nat \<Rightarrow> md_malloc) \<Rightarrow> HMAC_CTX \<Rightarrow> (HMAC_CTX, unit) op" where
  "HMAC_CTX_copy_ex malloc src =
     and_then (on_i_ctx (EVP_MD_CTX_copy_ex (malloc 0) (hmac_i_ctx src))) (\<lambda>_.
       and_then (on_o_ctx (EVP_MD_CTX_copy_ex (malloc 1) (hmac_o_ctx src))) (\<lambda>_.
         and_then (on_md_ctx (EVP_MD_CTX_copy_ex (malloc 2) (hmac_md_ctx src))) (\<lambda>_.
           (\<lambda>dest. (Some (), dest\<lparr>hmac_md := hmac_md src\<rparr>)))))"

definition HMAC_CTX_reset :: "HMAC_CTX \<Rightarrow> HMAC_CTX" where
  "HMAC_CTX_reset ctx = (let ctx = HMAC_CTX_cleanup ctx in HMAC_CTX_init)"

definition HMAC_Init :: "(nat \<Rightarrow> md_malloc) \<Rightarrow> bytes option \<Rightarrow> EVP_MD option \<Rightarrow> (HMAC_CTX, unit) op" where
  "HMAC_Init malloc key md ctx =
     (let ctx = (if key \<noteq> None \<and> md \<noteq> None then HMAC_CTX_init else ctx)
      in HMAC_Init_ex malloc key md ctx)"

definition HMAC_CTX_copy :: "(nat \<Rightarrow> md_malloc) \<Rightarrow> HMAC_CTX \<Rightarrow> (HMAC_CTX, unit) op" where
  "HMAC_CTX_copy malloc src dest = HMAC_CTX_copy_ex malloc src HMAC_CTX_init"

section \<open>HKDF\<close>

definition HKDF_extract :: "(nat \<Rightarrow> md_malloc) \<Rightarrow> EVP_MD \<Rightarrow> bytes \<Rightarrow> bytes option \<Rightarrow> bytes option" where
  "HKDF_extract malloc digest secret salt = HMAC malloc digest salt secret"

text \<open>
  The loop of \<open>HKDF_expand\<close> with \<open>turns\<close> of its \<open>n\<close> turns left, at the index \<open>i\<close>: \<open>out_key\<close> are
  the bytes written so far. \<open>malloc i\<close> are the calls of malloc the operations of a turn make.
\<close>

primrec HKDF_expand_loop ::
  "(nat \<Rightarrow> nat \<Rightarrow> md_malloc) \<Rightarrow> EVP_MD \<Rightarrow> nat \<Rightarrow> bytes \<Rightarrow> nat \<Rightarrow> nat \<Rightarrow> bytes \<Rightarrow> bytes \<Rightarrow> (HMAC_CTX, bytes) op" where
  "HKDF_expand_loop malloc digest out_len info 0 i previous out_key = ok out_key"
| "HKDF_expand_loop malloc digest out_len info (Suc turns) i previous out_key =
     and_then
       (if i \<noteq> 0
        then and_then (HMAC_Init_ex (malloc i) None None) (\<lambda>_. HMAC_Update previous)
        else ok ())
       (\<lambda>_. and_then (HMAC_Update info) (\<lambda>_.
         and_then (HMAC_Update [of_nat (i + 1)]) (\<lambda>_.
           and_then (HMAC_Final (malloc i 4)) (\<lambda>previous.
             let done = length out_key;
                 todo = EVP_MD_size digest;
                 todo = (if done + todo > out_len then out_len - done else todo)
             in HKDF_expand_loop malloc digest out_len info turns (i + 1) previous
                  (out_key @ take todo previous)))))"

definition HKDF_expand ::
  "(nat \<Rightarrow> nat \<Rightarrow> md_malloc) \<Rightarrow> nat \<Rightarrow> EVP_MD \<Rightarrow> bytes \<Rightarrow> bytes \<Rightarrow> bytes option" where
  "HKDF_expand malloc out_len digest prk info =
     (let digest_len = EVP_MD_size digest;
          n = (out_len + digest_len - 1) mod 2 ^ 64 div digest_len
      in if (out_len + digest_len) mod 2 ^ 64 < out_len \<or> n > 255 then None
         else fst (and_then (HMAC_Init_ex (malloc 0) (Some prk) (Some digest)) (\<lambda>_.
                HKDF_expand_loop malloc digest out_len info n 0 [] []) HMAC_CTX_init))"

definition HKDF ::
  "(nat \<Rightarrow> md_malloc) \<Rightarrow> (nat \<Rightarrow> nat \<Rightarrow> md_malloc) \<Rightarrow> nat \<Rightarrow> EVP_MD \<Rightarrow> bytes \<Rightarrow> bytes option \<Rightarrow> bytes \<Rightarrow> bytes option" where
  "HKDF malloc_extract malloc_expand out_len digest secret salt info =
     (case HKDF_extract malloc_extract digest secret salt of
        None \<Rightarrow> None
      | Some prk \<Rightarrow> HKDF_expand malloc_expand out_len digest prk info)"

section \<open>The message authentication code\<close>

text \<open>RFC 2104 and RFC 5869.\<close>

definition hmac_pad :: "EVP_MD \<Rightarrow> bytes \<Rightarrow> u8 \<Rightarrow> bytes" where
  "hmac_pad md key x =
     (let k = (if EVP_MD_block_size md < length key then md_digest md key else key)
      in map ((XOR) x) (k @ replicate (EVP_MD_block_size md - length k) 0))"

definition rfc2104 :: "EVP_MD \<Rightarrow> bytes \<Rightarrow> bytes \<Rightarrow> bytes" where
  "rfc2104 md key m = md_digest md (hmac_pad md key 0x5c @ md_digest md (hmac_pad md key 0x36 @ m))"

definition hmac_keyed :: "EVP_MD \<Rightarrow> bytes \<Rightarrow> HMAC_CTX \<Rightarrow> bool" where
  "hmac_keyed md key ctx \<longleftrightarrow>
     hmac_md ctx = Some md \<and> ctx_has md (hmac_i_ctx ctx) (hmac_pad md key 0x36) \<and>
     ctx_has md (hmac_o_ctx ctx) (hmac_pad md key 0x5c) \<and> ctx_ok (hmac_md_ctx ctx)"

definition hmac_absorbed :: "EVP_MD \<Rightarrow> bytes \<Rightarrow> HMAC_CTX \<Rightarrow> bytes \<Rightarrow> bool" where
  "hmac_absorbed md key ctx m \<longleftrightarrow>
     hmac_keyed md key ctx \<and> ctx_has md (hmac_md_ctx ctx) (hmac_pad md key 0x36 @ m)"

lemma EVP_MD_sizes:
  "EVP_MD_size md \<le> EVP_MD_block_size md" "EVP_MD_block_size md \<le> 128" "0 < EVP_MD_size md" "EVP_MD_size md \<le> 64"
  by (cases md; simp)+

lemma HMAC_Update_absorbed:
  assumes "hmac_absorbed md key ctx m"
  obtains ctx' where "HMAC_Update d ctx = (Some (), ctx')" "hmac_absorbed md key ctx' (m @ d)"
proof -
  have has: "ctx_has md (hmac_md_ctx ctx) (hmac_pad md key 0x36 @ m)" using assms by (simp add: hmac_absorbed_def)
  obtain c where "EVP_DigestUpdate d (hmac_md_ctx ctx) = (Some (), c)" "ctx_has md c ((hmac_pad md key 0x36 @ m) @ d)"
    by (rule EVP_DigestUpdate_has [OF has])
  then show ?thesis
    using that [of "ctx\<lparr>hmac_md_ctx := c\<rparr>"] assms ctx_has_ok [of md c]
    by (simp add: HMAC_Update_def on_md_ctx_def hmac_absorbed_def hmac_keyed_def)
qed

lemma HMAC_Final_absorbed:
  assumes "hmac_absorbed md key ctx m"
  obtains ctx' where "HMAC_Final malloc ctx = (Some (rfc2104 md key m), ctx')" "hmac_keyed md key ctx'"
proof -
  let ?i = "md_digest md (hmac_pad md key 0x36 @ m)"
  have has: "ctx_has md (hmac_md_ctx ctx) (hmac_pad md key 0x36 @ m)" and keyed: "hmac_keyed md key ctx"
    using assms by (simp_all add: hmac_absorbed_def)
  obtain c1 where c1: "EVP_DigestFinal_ex (hmac_md_ctx ctx) = (Some ?i, c1)" "ctx_ok c1" "ctx_digest c1 = Some md"
    by (rule EVP_DigestFinal_ex_has [OF has])
  obtain c2 where c2: "EVP_MD_CTX_copy_ex malloc (hmac_o_ctx ctx) c1 = (Some (), c2)" "ctx_has md c2 (hmac_pad md key 0x5c)"
    using EVP_MD_CTX_copy_ex_has [of md "hmac_o_ctx ctx" _ c1 malloc] keyed c1 by (auto simp: hmac_keyed_def)
  obtain c3 where c3: "EVP_DigestUpdate ?i c2 = (Some (), c3)" "ctx_has md c3 (hmac_pad md key 0x5c @ ?i)"
    by (rule EVP_DigestUpdate_has [OF c2(2)])
  obtain c4 where c4: "EVP_DigestFinal_ex c3 = (Some (rfc2104 md key m), c4)" "ctx_ok c4"
    unfolding rfc2104_def by (rule EVP_DigestFinal_ex_has [OF c3(2)])
  show ?thesis
    using that [of "ctx\<lparr>hmac_md_ctx := c4\<rparr>"] c1(1) c2(1) c3(1) c4 keyed
    by (simp add: HMAC_Final_def on_md_ctx_def hmac_keyed_def)
qed

lemma hmac_key_block_pads:
  assumes "malloc_ok malloc" "ctx_ok (hmac_md_ctx ctx)"
  shows "(\<exists>kb ctx'. hmac_key_block malloc md key ctx = (Some kb, ctx') \<and>
      (\<forall>x. take (EVP_MD_block_size md) (map ((XOR) x) kb) = hmac_pad md key x) \<and>
      hmac_i_ctx ctx' = hmac_i_ctx ctx \<and> hmac_o_ctx ctx' = hmac_o_ctx ctx \<and> ctx_ok (hmac_md_ctx ctx')) \<or>
    fst (hmac_key_block malloc md key ctx) = None \<and> malloc md = None \<and> EVP_MD_block_size md < length key"
proof -
  define k where "k = (if EVP_MD_block_size md < length key then md_digest md key else key)"
  have len: "length k \<le> EVP_MD_block_size md" using EVP_MD_sizes(1) by (simp add: k_def length_md_digest)
  then have pads: "take (EVP_MD_block_size md) (map ((XOR) x) (k @ replicate (EVP_MAX_MD_BLOCK_SIZE - length k) 0)) =
      hmac_pad md key x" for x
    using EVP_MD_sizes(2) [of md]
    by (simp add: hmac_pad_def Let_def k_def [symmetric] EVP_MAX_MD_BLOCK_SIZE_def take_map min_def)
  show ?thesis
  proof (cases "EVP_MD_block_size md < length key")
    case False
    then show ?thesis using pads assms by (simp add: hmac_key_block_def k_def)
  next
    case True
    from EVP_DigestInit_ex_has [OF assms, of md] show ?thesis
    proof (elim disjE exE conjE)
      fix c1 assume c1: "EVP_DigestInit_ex malloc md (hmac_md_ctx ctx) = (Some (), c1)" "ctx_has md c1 []"
      obtain c2 where c2: "EVP_DigestUpdate key c1 = (Some (), c2)" "ctx_has md c2 ([] @ key)"
        by (rule EVP_DigestUpdate_has [OF c1(2)])
      obtain c3 where c3: "EVP_DigestFinal_ex c2 = (Some (md_digest md ([] @ key)), c3)" "ctx_ok c3"
        by (rule EVP_DigestFinal_ex_has [OF c2(2)])
      have "on_md_ctx (and_then (EVP_DigestInit_ex malloc md) (\<lambda>_. and_then (EVP_DigestUpdate key)
          (\<lambda>_. EVP_DigestFinal_ex))) ctx = (Some k, ctx\<lparr>hmac_md_ctx := c3\<rparr>)"
        using c1(1) c2(1) c3(1) True by (simp add: on_md_ctx_def k_def)
      then show ?thesis using True pads c3(2) by (simp add: hmac_key_block_def)
    next
      assume "EVP_DigestInit_ex malloc md (hmac_md_ctx ctx) = (None, hmac_md_ctx ctx)" "malloc md = None"
      then show ?thesis using True by (simp add: hmac_key_block_def on_md_ctx_def)
    qed
  qed
qed

text \<open>
  Setting a key: the contexts hold the two padded keys, or one of the mallocs failed. With
  neither key nor digest the context goes back to the beginning of a message.
\<close>

lemma HMAC_Init_ex_keys:
  assumes ok: "\<And>i. malloc_ok (malloc i)" and ctx: "ctx_ok (hmac_md_ctx ctx)" "ctx_ok (hmac_i_ctx ctx)" "ctx_ok (hmac_o_ctx ctx)"
    and new: "Some md \<noteq> hmac_md ctx \<or> key \<noteq> None"
  shows "(\<exists>ctx'. HMAC_Init_ex malloc key (Some md) ctx = (Some (), ctx') \<and>
      hmac_absorbed md (case key of None \<Rightarrow> [] | Some k \<Rightarrow> k) ctx' []) \<or>
    fst (HMAC_Init_ex malloc key (Some md) ctx) = None \<and> (\<exists>i < 4. malloc i md = None)"
proof -
  define k where "k = (case key of None \<Rightarrow> [] | Some k \<Rightarrow> k)"
  note init = HMAC_Init_ex_def Let_def on_i_ctx_def on_o_ctx_def on_md_ctx_def k_def [symmetric]
  from hmac_key_block_pads [OF ok ctx(1), of 0 md k] show ?thesis
  proof (elim disjE exE conjE)
    assume "fst (hmac_key_block (malloc 0) md k ctx) = None" "malloc 0 md = None"
    then show ?thesis
      using new by (intro disjI2 conjI exI [of _ 0]) (auto simp: init and_then_def split: option.splits prod.splits)
  next
    fix kb ctx1
    assume kb: "hmac_key_block (malloc 0) md k ctx = (Some kb, ctx1)"
      and pads: "\<forall>x. take (EVP_MD_block_size md) (map ((XOR) x) kb) = hmac_pad md k x"
      and io: "hmac_i_ctx ctx1 = hmac_i_ctx ctx" "hmac_o_ctx ctx1 = hmac_o_ctx ctx" and ok1: "ctx_ok (hmac_md_ctx ctx1)"
    from EVP_DigestInit_ex_has [OF ok ctx(2), of 1 md] show ?thesis
    proof (elim disjE exE conjE)
      assume "EVP_DigestInit_ex (malloc 1) md (hmac_i_ctx ctx) = (None, hmac_i_ctx ctx)" "malloc 1 md = None"
      then show ?thesis
        using new kb io by (intro disjI2 conjI exI [of _ 1]) (simp_all add: init)
    next
      fix i1 assume i1: "EVP_DigestInit_ex (malloc 1) md (hmac_i_ctx ctx) = (Some (), i1)" "ctx_has md i1 []"
      obtain i2 where i2: "EVP_DigestUpdate (hmac_pad md k 0x36) i1 = (Some (), i2)" "ctx_has md i2 (hmac_pad md k 0x36)"
        using EVP_DigestUpdate_has [OF i1(2)] by auto
      from EVP_DigestInit_ex_has [OF ok ctx(3), of 2 md] show ?thesis
      proof (elim disjE exE conjE)
        assume "EVP_DigestInit_ex (malloc 2) md (hmac_o_ctx ctx) = (None, hmac_o_ctx ctx)" "malloc 2 md = None"
        then show ?thesis
          using new kb io i1 i2 pads by (intro disjI2 conjI exI [of _ 2]) (simp_all add: init)
      next
        fix o1 assume o1: "EVP_DigestInit_ex (malloc 2) md (hmac_o_ctx ctx) = (Some (), o1)" "ctx_has md o1 []"
        obtain o2 where o2: "EVP_DigestUpdate (hmac_pad md k 0x5c) o1 = (Some (), o2)" "ctx_has md o2 (hmac_pad md k 0x5c)"
          using EVP_DigestUpdate_has [OF o1(2)] by auto
        from EVP_MD_CTX_copy_ex_has [OF i2(2) ok1, of "malloc 3"] show ?thesis
        proof (elim disjE exE conjE)
          assume "EVP_MD_CTX_copy_ex (malloc 3) i2 (hmac_md_ctx ctx1) = (None, hmac_md_ctx ctx1)" "malloc 3 md = None"
          then show ?thesis
            using new kb io i1 i2 o1 o2 pads by (intro disjI2 conjI exI [of _ 3]) (simp_all add: init)
        next
          fix m assume "EVP_MD_CTX_copy_ex (malloc 3) i2 (hmac_md_ctx ctx1) = (Some (), m)" "ctx_has md m (hmac_pad md k 0x36)"
          then show ?thesis
            using new kb io i1 i2 o1 o2 pads ctx_has_ok [of md m]
            by (intro disjI1) (simp add: init hmac_absorbed_def hmac_keyed_def)
        qed
      qed
    qed
  qed
qed

lemma HMAC_Init_ex_again:
  assumes "hmac_keyed md key ctx"
  shows "(\<exists>ctx'. HMAC_Init_ex malloc None None ctx = (Some (), ctx') \<and> hmac_absorbed md key ctx' []) \<or>
    fst (HMAC_Init_ex malloc None None ctx) = None \<and> malloc 3 md = None"
  using assms EVP_MD_CTX_copy_ex_has [of md "hmac_i_ctx ctx" "hmac_pad md key 0x36" "hmac_md_ctx ctx" "malloc 3"]
  by (auto simp: HMAC_Init_ex_def hmac_keyed_def hmac_absorbed_def on_md_ctx_def intro: ctx_has_ok)

lemma and_then_fst_None: "fst (m s) = None \<Longrightarrow> fst (and_then m f s) = None"
  by (auto simp: and_then_def split: option.splits prod.splits)

lemma HMAC_result:
  assumes "\<And>i. malloc_ok (malloc i)"
  shows "HMAC malloc md key data = Some (rfc2104 md (case key of None \<Rightarrow> [] | Some k \<Rightarrow> k) data) \<or>
    HMAC malloc md key data = None \<and> (\<exists>i < 4. malloc i md = None)"
proof -
  have "ctx_ok (hmac_md_ctx HMAC_CTX_init)" "ctx_ok (hmac_i_ctx HMAC_CTX_init)" "ctx_ok (hmac_o_ctx HMAC_CTX_init)"
    "Some md \<noteq> hmac_md HMAC_CTX_init \<or> key \<noteq> None" by (simp_all add: HMAC_CTX_init_def)
  from HMAC_Init_ex_keys [where malloc = malloc, OF assms this] show ?thesis
  proof (elim disjE exE conjE)
    fix ctx assume i: "HMAC_Init_ex malloc key (Some md) HMAC_CTX_init = (Some (), ctx)"
      and a: "hmac_absorbed md (case key of None \<Rightarrow> [] | Some k \<Rightarrow> k) ctx []"
    obtain ctx1 where u: "HMAC_Update data ctx = (Some (), ctx1)"
      "hmac_absorbed md (case key of None \<Rightarrow> [] | Some k \<Rightarrow> k) ctx1 ([] @ data)"
      by (rule HMAC_Update_absorbed [OF a])
    obtain ctx2 where "HMAC_Final (malloc 4) ctx1 = (Some (rfc2104 md (case key of None \<Rightarrow> [] | Some k \<Rightarrow> k) ([] @ data)), ctx2)"
      by (rule HMAC_Final_absorbed [OF u(2)])
    then show ?thesis using i u(1) by (simp add: HMAC_def)
  next
    fix i assume "fst (HMAC_Init_ex malloc key (Some md) HMAC_CTX_init) = None" "i < 4" "malloc i md = None"
    then show ?thesis by (auto simp: HMAC_def and_then_fst_None)
  qed
qed

text \<open>C15. \<open>HMAC\<close> returns the code of RFC 2104 for every digest, key and message (a NULL key is the
  empty one, long keys are hashed), unless an allocation fails; only then does it return NULL.\<close>

theorem HMAC_exact:
  assumes "\<And>i. malloc_ok (malloc i)"
  shows "HMAC malloc md key data = Some (rfc2104 md (case key of None \<Rightarrow> [] | Some k \<Rightarrow> k) data) \<or>
    HMAC malloc md key data = None \<and> (\<exists>i < 4. malloc i md = None)"
  by (rule HMAC_result [OF assms])

theorem HMAC_exact_witness:
  "HMAC (\<lambda>_. zero_malloc) EVP_sha256 (Some [0x4a, 0x65, 0x66, 0x65]) [1, 2] =
     Some (rfc2104 EVP_sha256 [0x4a, 0x65, 0x66, 0x65] [1, 2])"
  using HMAC_exact [of "\<lambda>_. zero_malloc" EVP_sha256 "Some [0x4a, 0x65, 0x66, 0x65]" "[1, 2]"]
  by (simp add: zero_malloc_def)

section \<open>The key derivation\<close>

primrec hkdf_T :: "EVP_MD \<Rightarrow> bytes \<Rightarrow> bytes \<Rightarrow> nat \<Rightarrow> bytes" where
  "hkdf_T md prk info 0 = []"
| "hkdf_T md prk info (Suc i) = rfc2104 md prk (hkdf_T md prk info i @ info @ [of_nat (Suc i)])"

definition hkdf_okm :: "EVP_MD \<Rightarrow> bytes \<Rightarrow> bytes \<Rightarrow> nat \<Rightarrow> bytes" where
  "hkdf_okm md prk info n = concat (map (\<lambda>i. hkdf_T md prk info (Suc i)) [0..<n])"

definition rfc5869 :: "EVP_MD \<Rightarrow> bytes \<Rightarrow> bytes option \<Rightarrow> bytes \<Rightarrow> nat \<Rightarrow> bytes" where
  "rfc5869 md ikm salt info len =
     (let prk = rfc2104 md (case salt of None \<Rightarrow> replicate (EVP_MD_size md) 0 | Some salt \<Rightarrow> salt) ikm
      in take len (hkdf_okm md prk info ((len + EVP_MD_size md - 1) div EVP_MD_size md)))"

lemma length_rfc2104 [simp]: "length (rfc2104 md k m) = EVP_MD_size md"
  by (simp add: rfc2104_def length_md_digest)

lemma length_hkdf_okm [simp]: "length (hkdf_okm md prk info n) = n * EVP_MD_size md"
  by (induction n) (simp_all add: hkdf_okm_def)

text \<open>A key of zeros is the empty key: both are padded to the same block.\<close>

lemma rfc2104_zero_key:
  assumes "n \<le> EVP_MD_block_size md"
  shows "rfc2104 md (replicate n 0) m = rfc2104 md [] m"
proof -
  have "hmac_pad md (replicate n 0) x = hmac_pad md [] x" for x
    using assms by (simp add: hmac_pad_def Let_def flip: replicate_add map_append)
  then show ?thesis by (simp add: rfc2104_def)
qed

definition hkdf_turn :: "EVP_MD \<Rightarrow> bytes \<Rightarrow> nat \<Rightarrow> HMAC_CTX \<Rightarrow> bool" where
  "hkdf_turn md prk i ctx \<longleftrightarrow> (if i = 0 then hmac_absorbed md prk ctx [] else hmac_keyed md prk ctx)"

lemma HKDF_turn_start:
  assumes "hkdf_turn md prk i ctx"
  shows "(\<exists>ctx'. (if i \<noteq> 0 then and_then (HMAC_Init_ex malloc None None) (\<lambda>_. HMAC_Update (hkdf_T md prk info i)) else ok ()) ctx
      = (Some (), ctx') \<and> hmac_absorbed md prk ctx' (hkdf_T md prk info i)) \<or>
    fst ((if i \<noteq> 0 then and_then (HMAC_Init_ex malloc None None) (\<lambda>_. HMAC_Update (hkdf_T md prk info i)) else ok ()) ctx) = None \<and>
      malloc 3 md = None"
proof (cases "i = 0")
  case True
  then show ?thesis using assms by (simp add: hkdf_turn_def)
next
  case False
  then have "hmac_keyed md prk ctx" using assms by (simp add: hkdf_turn_def)
  from HMAC_Init_ex_again [OF this, of malloc] show ?thesis
  proof (elim disjE exE conjE)
    fix ctx1 assume i1: "HMAC_Init_ex malloc None None ctx = (Some (), ctx1)" "hmac_absorbed md prk ctx1 []"
    obtain ctx2 where "HMAC_Update (hkdf_T md prk info i) ctx1 = (Some (), ctx2)"
      "hmac_absorbed md prk ctx2 ([] @ hkdf_T md prk info i)"
      by (rule HMAC_Update_absorbed [OF i1(2)])
    then show ?thesis using i1(1) False by simp
  next
    assume "fst (HMAC_Init_ex malloc None None ctx) = None" "malloc 3 md = None"
    then show ?thesis using False by (auto simp: and_then_def split: option.splits prod.splits)
  qed
qed

lemma take_okm_step:
  assumes "length t = s"
  shows "take len xs @ take (if length (take len xs) + s > len then len - length (take len xs) else s) t =
    take len (xs @ t)"
  using assms by (cases "len \<le> length xs") auto

lemma HKDF_expand_loop_exact:
  assumes "hkdf_turn md prk i ctx"
  shows "fst (HKDF_expand_loop malloc md len info turns i (hkdf_T md prk info i)
      (take len (hkdf_okm md prk info i)) ctx) = Some (take len (hkdf_okm md prk info (i + turns))) \<or>
    fst (HKDF_expand_loop malloc md len info turns i (hkdf_T md prk info i)
      (take len (hkdf_okm md prk info i)) ctx) = None \<and> (\<exists>i. \<exists>j < 4. malloc i j md = None)"
  using assms
proof (induction turns arbitrary: i ctx)
  case (Suc turns)
  note step = and_then_def
  from HKDF_turn_start [OF Suc.prems, of "malloc i" info] show ?case
  proof (elim disjE exE conjE)
    assume none: "fst ((if i \<noteq> 0 then and_then (HMAC_Init_ex (malloc i) None None) (\<lambda>_. HMAC_Update (hkdf_T md prk info i)) else ok ()) ctx) = None"
      and m: "malloc i 3 md = None"
    have "fst (HKDF_expand_loop malloc md len info (Suc turns) i (hkdf_T md prk info i)
        (take len (hkdf_okm md prk info i)) ctx) = None"
      unfolding HKDF_expand_loop.simps by (intro and_then_fst_None none)
    moreover have "\<exists>j < 4. malloc i j md = None" using m by (intro exI [of _ 3]) simp
    ultimately show ?thesis by blast
  next
    fix c1 assume c1: "(if i \<noteq> 0 then and_then (HMAC_Init_ex (malloc i) None None) (\<lambda>_. HMAC_Update (hkdf_T md prk info i)) else ok ()) ctx = (Some (), c1)"
      "hmac_absorbed md prk c1 (hkdf_T md prk info i)"
    obtain c2 where c2: "HMAC_Update info c1 = (Some (), c2)" "hmac_absorbed md prk c2 (hkdf_T md prk info i @ info)"
      by (rule HMAC_Update_absorbed [OF c1(2)])
    obtain c3 where c3: "HMAC_Update [of_nat (i + 1)] c2 = (Some (), c3)"
      "hmac_absorbed md prk c3 ((hkdf_T md prk info i @ info) @ [of_nat (i + 1)])"
      by (rule HMAC_Update_absorbed [OF c2(2)])
    obtain c4 where c4: "HMAC_Final (malloc i 4) c3 = (Some (hkdf_T md prk info (i + 1)), c4)" "hmac_keyed md prk c4"
      using HMAC_Final_absorbed [OF c3(2), of "malloc i 4"] by auto
    let ?out = "take len (hkdf_okm md prk info i)"
    have out: "?out @ take (if length ?out + EVP_MD_size md > len then len - length ?out else EVP_MD_size md)
        (hkdf_T md prk info (i + 1)) = take len (hkdf_okm md prk info (i + 1))"
      by (subst take_okm_step) (simp_all add: hkdf_okm_def)
    have "HKDF_expand_loop malloc md len info (Suc turns) i (hkdf_T md prk info i) ?out ctx =
        HKDF_expand_loop malloc md len info turns (i + 1) (hkdf_T md prk info (i + 1)) (take len (hkdf_okm md prk info (i + 1))) c4"
      unfolding HKDF_expand_loop.simps
      by (subst and_then_Some, rule c1(1)) (simp only: and_then_Some c2(1) c3(1) c4(1) Let_def out)
    moreover have "hkdf_turn md prk (i + 1) c4" using c4(2) by (simp add: hkdf_turn_def)
    ultimately show ?thesis using Suc.IH [of "i + 1" c4] by (simp only: add_Suc_right add_Suc add_0_right One_nat_def simp_thms)
  qed
qed simp

lemma ceiling_div_le_255:
  assumes "0 < d"
  shows "255 < (len + d - 1) div d \<longleftrightarrow> 255 * d < (len :: nat)"
proof -
  have "255 < (len + d - 1) div d \<longleftrightarrow> 256 * d \<le> len + d - 1"
    using less_eq_div_iff_mult_less_eq [OF assms, of 256 "len + d - 1"] by auto
  also have "\<dots> \<longleftrightarrow> 255 * d < len" using assms by auto
  finally show ?thesis .
qed

lemma HKDF_expand_result:
  assumes ok: "\<And>i j. malloc_ok (malloc i j)" and len: "len < 2 ^ 64"
  shows "HKDF_expand malloc len md prk info = (if 255 * EVP_MD_size md < len then None
      else Some (take len (hkdf_okm md prk info ((len + EVP_MD_size md - 1) div EVP_MD_size md)))) \<or>
    HKDF_expand malloc len md prk info = None \<and> (\<exists>i. \<exists>j < 4. malloc i j md = None)"
proof (cases "255 * EVP_MD_size md < len")
  case True
  have "(len + EVP_MD_size md) mod 2 ^ 64 < len \<or> 255 < (len + EVP_MD_size md - 1) mod 2 ^ 64 div EVP_MD_size md"
  proof (cases "len + EVP_MD_size md < 2 ^ 64")
    case True
    then have "(len + EVP_MD_size md - 1) mod 2 ^ 64 = len + EVP_MD_size md - 1" by simp
    then show ?thesis using ceiling_div_le_255 [OF EVP_MD_sizes(3)] \<open>255 * EVP_MD_size md < len\<close> by simp
  next
    case False
    then have "(len + EVP_MD_size md) mod 2 ^ 64 = len + EVP_MD_size md - 2 ^ 64"
      using len EVP_MD_sizes(4) [of md] by (simp add: le_mod_geq)
    moreover have "EVP_MD_size md < 2 ^ 64" by (rule le_less_trans [OF EVP_MD_sizes(4)]) simp
    ultimately have "(len + EVP_MD_size md) mod 2 ^ 64 < len" using False by simp
    then show ?thesis ..
  qed
  then show ?thesis using True by (simp add: HKDF_expand_def Let_def)
next
  case False
  let ?n = "(len + EVP_MD_size md - 1) div EVP_MD_size md"
  have small: "len + EVP_MD_size md < 2 ^ 64" using False EVP_MD_sizes(4) [of md] by simp
  have "?n \<le> 255" using False ceiling_div_le_255 [OF EVP_MD_sizes(3) [of md], of len] by simp
  then have run: "HKDF_expand malloc len md prk info = fst (and_then (HMAC_Init_ex (malloc 0) (Some prk) (Some md)) (\<lambda>_.
      HKDF_expand_loop malloc md len info ?n 0 [] []) HMAC_CTX_init)"
    using small by (simp add: HKDF_expand_def Let_def)
  have c: "ctx_ok (hmac_md_ctx HMAC_CTX_init)" "ctx_ok (hmac_i_ctx HMAC_CTX_init)" "ctx_ok (hmac_o_ctx HMAC_CTX_init)"
    "Some md \<noteq> hmac_md HMAC_CTX_init \<or> Some prk \<noteq> None" by (simp_all add: HMAC_CTX_init_def)
  from HMAC_Init_ex_keys [where malloc = "malloc 0", OF ok c] show ?thesis
  proof (elim disjE exE conjE)
    fix ctx assume i: "HMAC_Init_ex (malloc 0) (Some prk) (Some md) HMAC_CTX_init = (Some (), ctx)"
      and "hmac_absorbed md (case Some prk of None \<Rightarrow> [] | Some k \<Rightarrow> k) ctx []"
    then have "hkdf_turn md prk 0 ctx" by (simp add: hkdf_turn_def)
    from HKDF_expand_loop_exact [OF this, of malloc len info ?n] show ?thesis
      using False by (auto simp: run i hkdf_okm_def)
  next
    fix i assume "fst (HMAC_Init_ex (malloc 0) (Some prk) (Some md) HMAC_CTX_init) = None" "i < 4" "malloc 0 i md = None"
    then show ?thesis by (auto simp: run and_then_fst_None)
  qed
qed

text \<open>C16. \<open>HKDF\<close> is the key derivation of RFC 5869 (a missing salt is a block of zeros) for every
  output length; it refuses more than 255 blocks, wrap-around of the length included, and
  fails otherwise only when an allocation does.\<close>

theorem HKDF_exact:
  assumes "\<And>i. malloc_ok (malloc1 i)" "\<And>i j. malloc_ok (malloc2 i j)" "len < 2 ^ 64"
  shows "HKDF malloc1 malloc2 len md ikm salt info =
      (if 255 * EVP_MD_size md < len then None else Some (rfc5869 md ikm salt info len)) \<or>
    HKDF malloc1 malloc2 len md ikm salt info = None \<and>
      ((\<exists>i < 4. malloc1 i md = None) \<or> (\<exists>i. \<exists>j < 4. malloc2 i j md = None))"
proof -
  have salt: "rfc2104 md (case salt of None \<Rightarrow> [] | Some k \<Rightarrow> k) m =
      rfc2104 md (case salt of None \<Rightarrow> replicate (EVP_MD_size md) 0 | Some k \<Rightarrow> k) m" for m
    by (cases salt) (simp_all add: rfc2104_zero_key EVP_MD_sizes(1))
  from HMAC_result [where malloc = malloc1 and md = md and key = salt and data = ikm, OF assms(1)] show ?thesis
    using HKDF_expand_result [where malloc = malloc2 and md = md and info = info and
        prk = "rfc2104 md (case salt of None \<Rightarrow> replicate (EVP_MD_size md) 0 | Some k \<Rightarrow> k) ikm", OF assms(2,3)]
    by (auto simp: HKDF_def HKDF_extract_def salt rfc5869_def Let_def split: if_splits)
qed

theorem HKDF_exact_witness:
  "HKDF (\<lambda>_. zero_malloc) (\<lambda>_ _. zero_malloc) 100 EVP_sha256 [1] None [2] = Some (rfc5869 EVP_sha256 [1] None [2] 100)"
  using HKDF_exact [of "\<lambda>_. zero_malloc" "\<lambda>_ _. zero_malloc" 100 EVP_sha256 "[1]" None "[2]"]
  by (simp add: zero_malloc_def)

end
