(* ===== verification/Buf.thy ===== *)
theory Buf
  imports Mem
begin

text \<open>
  \<open>crypto/buf/buf.c\<close>: the growable buffer of the memory BIOs. The field \<open>bm_skip\<close> is how
  far the \<open>data\<close> pointer has moved into its array; only a read-only memory BIO moves it.
\<close>

section \<open>The buffer\<close>

record BUF_MEM =
  bm_length :: nat
  bm_data :: "bytes option"
  bm_skip :: nat
  bm_max :: nat

abbreviation (input) sizeof_BUF_MEM :: nat where
  "sizeof_BUF_MEM \<equiv> 24"

definition BUF_MEM_new :: "heap_env \<Rightarrow> BUF_MEM option" where
  "BUF_MEM_new env =
     (case OPENSSL_malloc env sizeof_BUF_MEM of
        None \<Rightarrow> None
      | Some _ \<Rightarrow> Some \<lparr>bm_length = 0, bm_data = None, bm_skip = 0, bm_max = 0\<rparr>)"

definition BUF_MEM_reserve :: "heap_env \<Rightarrow> nat \<Rightarrow> (BUF_MEM, unit) op" where
  "BUF_MEM_reserve env cap buf =
     (if cap \<le> bm_max buf then (Some (), buf)
      else
        let n = (cap + 3) mod 2 ^ 64
        in if n < cap then (None, buf)
           else
             let n = n div 3;
                 alloc_size = n * 4 mod 2 ^ 64
             in if alloc_size div 4 \<noteq> n then (None, buf)
                else
                  case OPENSSL_realloc env (bm_data buf) alloc_size of
                    None \<Rightarrow> (None, buf)
                  | Some new_buf \<Rightarrow> (Some (), buf\<lparr>bm_data := Some new_buf, bm_max := alloc_size\<rparr>))"

text \<open>The block of a buffer, as a function the writes into it use.\<close>

definition bm_write :: "nat \<Rightarrow> bytes \<Rightarrow> BUF_MEM \<Rightarrow> BUF_MEM" where
  "bm_write pos data buf = buf\<lparr>bm_data := map_option (\<lambda>d. mem_write d pos data) (bm_data buf)\<rparr>"

text \<open>The length returned, zero on failure.\<close>

definition BUF_MEM_grow :: "heap_env \<Rightarrow> nat \<Rightarrow> BUF_MEM \<Rightarrow> nat \<times> BUF_MEM" where
  "BUF_MEM_grow env len buf =
     (case BUF_MEM_reserve env len buf of
        (None, buf) \<Rightarrow> (0, buf)
      | (Some _, buf) \<Rightarrow>
          let buf = (if bm_length buf < len
                     then bm_write (bm_length buf) (replicate (len - bm_length buf) 0) buf else buf)
          in (len, buf\<lparr>bm_length := len\<rparr>))"

definition BUF_MEM_grow_clean :: "heap_env \<Rightarrow> nat \<Rightarrow> BUF_MEM \<Rightarrow> nat \<times> BUF_MEM" where
  "BUF_MEM_grow_clean env len buf = BUF_MEM_grow env len buf"

definition BUF_MEM_append :: "heap_env \<Rightarrow> bytes \<Rightarrow> (BUF_MEM, unit) op" where
  "BUF_MEM_append env inp buf =
     (if length inp = 0 then (Some (), buf)
      else
        let new_len = (bm_length buf + length inp) mod 2 ^ 64
        in if new_len < length inp then (None, buf)
           else
             case BUF_MEM_reserve env new_len buf of
               (None, buf) \<Rightarrow> (None, buf)
             | (Some _, buf) \<Rightarrow> (Some (), (bm_write (bm_length buf) inp buf)\<lparr>bm_length := new_len\<rparr>))"

definition BUF_strdup :: "heap_env \<Rightarrow> bytes option \<Rightarrow> bytes option" where
  "BUF_strdup env str = OPENSSL_strdup env str"

definition BUF_strnlen :: "bytes \<Rightarrow> nat \<Rightarrow> nat" where
  "BUF_strnlen str max_len = OPENSSL_strnlen str max_len"

definition BUF_strndup :: "heap_env \<Rightarrow> bytes option \<Rightarrow> nat \<Rightarrow> bytes option" where
  "BUF_strndup env str sz = OPENSSL_strndup env str sz"

definition BUF_memdup :: "heap_env \<Rightarrow> bytes \<Rightarrow> bytes option" where
  "BUF_memdup env data = OPENSSL_memdup env data"

section \<open>Its contract\<close>

definition buf_mem_ok :: "BUF_MEM \<Rightarrow> bool" where
  "buf_mem_ok b \<longleftrightarrow> bm_length b \<le> bm_max b \<and> bm_max b < 2 ^ 62 \<and> bm_skip b = 0 \<and>
     (case bm_data b of None \<Rightarrow> bm_max b = 0 | Some d \<Rightarrow> length d = bm_max b)"

definition buf_mem_bytes :: "BUF_MEM \<Rightarrow> bytes" where
  "buf_mem_bytes b = (case bm_data b of None \<Rightarrow> [] | Some d \<Rightarrow> take (bm_length b) (drop (bm_skip b) d))"

definition buf_mem_room :: "heap_env \<Rightarrow> nat \<Rightarrow> bool" where
  "buf_mem_room env n \<longleftrightarrow> can_alloc env ((n + 3) div 3 * 4 + 8)"

lemma length_buf_mem_bytes: "buf_mem_ok b \<Longrightarrow> length (buf_mem_bytes b) = bm_length b"
  by (auto simp: buf_mem_ok_def buf_mem_bytes_def split: option.splits)

lemma buf_mem_ok_new: "BUF_MEM_new env = Some b \<Longrightarrow> buf_mem_ok b \<and> buf_mem_bytes b = []"
  by (auto simp: BUF_MEM_new_def buf_mem_ok_def buf_mem_bytes_def split: option.splits)

lemma four_thirds: "n < 2 ^ 62 \<Longrightarrow> n \<le> (n + 3) div 3 * 4" "n < 2 ^ 62 \<Longrightarrow> (n + 3) div 3 * 4 < (2 :: nat) ^ 63"
  by presburger simp

lemma BUF_MEM_reserve_cases:
  assumes b: "buf_mem_ok b" and env: "heap_bounded env" and n: "n < 2 ^ 62"
  obtains (Room) b' where "BUF_MEM_reserve env n b = (Some (), b')" "buf_mem_ok b'" "n \<le> bm_max b'"
      "bm_length b' = bm_length b" "buf_mem_bytes b' = buf_mem_bytes b" "n = 0 \<or> bm_data b' \<noteq> None"
  | (Full) "BUF_MEM_reserve env n b = (None, b)" "bm_max b < n" "\<not> buf_mem_room env n"
proof (cases "n \<le> bm_max b")
  case True
  then show ?thesis using b n
    by (intro Room [of b]) (auto simp: BUF_MEM_reserve_def buf_mem_ok_def split: option.splits)
next
  case False
  let ?s = "(n + 3) div 3 * 4"
  have w: "(n + 3) mod 2 ^ 64 = n + 3" "?s mod 2 ^ 64 = ?s" using n four_thirds [OF n] by simp_all
  show ?thesis
  proof (cases "OPENSSL_realloc env (bm_data b) ?s")
    case None
    then have "OPENSSL_malloc env ?s = None" by (auto simp: OPENSSL_realloc_def split: option.splits)
    then have "\<not> buf_mem_room env n"
      using four_thirds [OF n] by (simp add: OPENSSL_malloc_eq buf_mem_room_def Let_def split: if_splits)
    then show ?thesis
      using False None w by (intro Full) (simp_all add: BUF_MEM_reserve_def Let_def)
  next
    case (Some nb)
    then obtain blk where "OPENSSL_malloc env ?s = Some blk"
      by (auto simp: OPENSSL_realloc_def split: option.splits)
    then have s62: "?s < 2 ^ 62" using env four_thirds(2) [OF n] by (rule OPENSSL_malloc_bounded [rotated 2])
    have nb: "length nb = ?s \<and> take (bm_max b) nb = (case bm_data b of None \<Rightarrow> [] | Some d \<Rightarrow> d)"
    proof (cases "bm_data b")
      case None
      then show ?thesis using OPENSSL_realloc_None_Some [of env ?s nb] Some s62 b by (simp add: buf_mem_ok_def)
    next
      case (Some d)
      have "length d \<le> ?s" using b Some False four_thirds(1) [OF n] by (simp add: buf_mem_ok_def)
      then show ?thesis
        using OPENSSL_realloc_Some [of env d ?s nb] \<open>OPENSSL_realloc env _ ?s = Some nb\<close> Some s62 b
        by (simp add: buf_mem_ok_def)
    qed
    have pre: "take (bm_length b) nb = (case bm_data b of None \<Rightarrow> [] | Some d \<Rightarrow> take (bm_length b) d)"
      using arg_cong [OF conjunct2 [OF nb], of "take (bm_length b)"] b
      by (auto simp: buf_mem_ok_def min_def split: option.splits)
    have "BUF_MEM_reserve env n b = (Some (), b\<lparr>bm_data := Some nb, bm_max := ?s\<rparr>)"
      using False Some w by (simp add: BUF_MEM_reserve_def Let_def)
    then show ?thesis
      by (rule Room) (use nb s62 b pre four_thirds(1) [OF n] False in
          \<open>auto simp: buf_mem_ok_def buf_mem_bytes_def split: option.splits\<close>)
  qed
qed

text \<open>Writing at the end of the contents and setting the length is appending.\<close>

lemma bm_write_append:
  assumes "buf_mem_ok b" "bm_length b + length d \<le> bm_max b" "d = [] \<or> bm_data b \<noteq> None"
  shows "buf_mem_ok ((bm_write (bm_length b) d b)\<lparr>bm_length := bm_length b + length d\<rparr>)"
    "buf_mem_bytes ((bm_write (bm_length b) d b)\<lparr>bm_length := bm_length b + length d\<rparr>) = buf_mem_bytes b @ d"
  using assms by (auto simp: buf_mem_ok_def buf_mem_bytes_def bm_write_def take_mem_write_all split: option.splits)

lemma BUF_MEM_append_result:
  assumes b: "buf_mem_ok b" and env: "heap_bounded env" and d: "length d < 2 ^ 61" "bm_length b < 2 ^ 61"
  shows "(\<exists>b'. BUF_MEM_append env d b = (Some (), b') \<and> buf_mem_ok b' \<and> buf_mem_bytes b' = buf_mem_bytes b @ d) \<or>
    BUF_MEM_append env d b = (None, b) \<and> \<not> buf_mem_room env (bm_length b + length d)"
proof (cases "d = []")
  case True
  then show ?thesis using b by (simp add: BUF_MEM_append_def)
next
  case False
  have w: "(bm_length b + length d) mod 2 ^ 64 = bm_length b + length d" and n: "bm_length b + length d < 2 ^ 62"
    using d by simp_all
  from b env n show ?thesis
  proof (cases rule: BUF_MEM_reserve_cases)
    case (Room b')
    then show ?thesis using bm_write_append [of b' d] False w
      by (auto simp: BUF_MEM_append_def Let_def)
  next
    case Full
    then show ?thesis using False w by (simp add: BUF_MEM_append_def Let_def)
  qed
qed

lemma BUF_MEM_grow_result:
  assumes b: "buf_mem_ok b" and env: "heap_bounded env" and n: "n < 2 ^ 62"
  shows "(\<exists>b'. BUF_MEM_grow env n b = (n, b') \<and> buf_mem_ok b' \<and> bm_length b' = n \<and>
      buf_mem_bytes b' = take n (buf_mem_bytes b) @ replicate (n - bm_length b) 0) \<or>
    BUF_MEM_grow env n b = (0, b) \<and> 0 < n \<and> \<not> buf_mem_room env n"
  using b env n
proof (cases rule: BUF_MEM_reserve_cases)
  case Full
  then show ?thesis by (simp add: BUF_MEM_grow_def)
next
  case (Room b')
  show ?thesis
  proof (cases "bm_length b < n")
    case True
    then show ?thesis
      using bm_write_append [OF Room(2), of "replicate (n - bm_length b) 0"] Room length_buf_mem_bytes [OF b]
      by (simp add: BUF_MEM_grow_def Let_def)
  next
    case False
    have "BUF_MEM_grow env n b = (n, b'\<lparr>bm_length := n\<rparr>)" using Room False by (simp add: BUF_MEM_grow_def Let_def)
    moreover have "buf_mem_ok (b'\<lparr>bm_length := n\<rparr>)" using Room(2,3) by (simp add: buf_mem_ok_def split: option.splits)
    moreover have "buf_mem_bytes (b'\<lparr>bm_length := n\<rparr>) = take n (buf_mem_bytes b')"
      using Room(2,4) False by (auto simp: buf_mem_ok_def buf_mem_bytes_def min_def split: option.splits)
    ultimately show ?thesis using Room(5) False by simp
  qed
qed

text \<open>\<open>BUF_MEM_append\<close> keeps the buffer well formed and appends its bytes, or fails and leaves
  the buffer alone when the allocator refuses four thirds of the new length.\<close>

theorem BUF_MEM_append_exact:
  assumes "buf_mem_ok b" "heap_bounded env" "length d < 2 ^ 61" "bm_length b < 2 ^ 61"
  shows "(\<exists>b'. BUF_MEM_append env d b = (Some (), b') \<and> buf_mem_ok b' \<and> buf_mem_bytes b' = buf_mem_bytes b @ d) \<or>
    BUF_MEM_append env d b = (None, b) \<and> \<not> buf_mem_room env (bm_length b + length d)"
  using assms by (rule BUF_MEM_append_result)

theorem BUF_MEM_append_exact_witness:
  "\<exists>b'. BUF_MEM_append \<lparr>can_alloc = (\<lambda>n. n < 100), junk = (\<lambda>_. 0)\<rparr> [1, 2]
      \<lparr>bm_length = 0, bm_data = None, bm_skip = 0, bm_max = 0\<rparr> = (Some (), b') \<and> buf_mem_bytes b' = [1, 2]"
  using BUF_MEM_append_exact [of "\<lparr>bm_length = 0, bm_data = None, bm_skip = 0, bm_max = 0\<rparr>"
      "\<lparr>can_alloc = (\<lambda>n. n < 100), junk = (\<lambda>_. 0)\<rparr>" "[1, 2]"]
  by (auto simp: buf_mem_ok_def heap_bounded_def buf_mem_room_def buf_mem_bytes_def)

end
