(* ===== verification/Bio.thy ===== *)
theory Bio
  imports Buf "HOL-Library.Monad_Syntax"
begin

text \<open>
  The objects of \<open>crypto/bio\<close>: the BIO structure, its flags and the heap the BIOs live in,
  from \<open>bio.h\<close>, \<open>bio.c\<close> and \<open>pair.c\<close>. A BIO is known by its address. An operation takes the
  heap and returns its result with the heap afterwards; it returns \<open>None\<close> where the C program
  has no behaviour: a NULL or freed pointer is followed, an assertion fails, an array is left,
  or a loop does not end.
\<close>

section \<open>Structures\<close>

type_synonym bio_ref = nat

datatype BIO_METHOD = methods_biop | mem_method

record bio_bio_st =
  bb_peer :: "bio_ref option"
  bb_closed :: bool
  bb_len :: nat
  bb_offset :: nat
  bb_size :: nat
  bb_buf :: "bytes option"
  bb_request :: nat

text \<open>What \<open>ptr\<close> points to: the private structure of the method.\<close>

datatype bio_private = Bio_bio bio_bio_st | Buf_mem BUF_MEM

record BIO =
  bio_method :: BIO_METHOD
  bio_init :: bool
  bio_shutdown :: int
  bio_flags :: u32
  bio_retry_reason :: int
  bio_num :: int
  bio_references :: nat
  bio_ptr :: "bio_private option"
  next_bio :: "bio_ref option"
  bio_num_read :: u64
  bio_num_write :: u64

record bio_heap =
  bios :: "bio_ref \<Rightarrow> BIO option"
  bio_fresh :: bio_ref

type_synonym 'a bio_op = "bio_heap \<Rightarrow> ('a \<times> bio_heap) option"

definition bio_put :: "bio_ref \<Rightarrow> BIO \<Rightarrow> bio_heap \<Rightarrow> bio_heap" where
  "bio_put a bio h = h\<lparr>bios := (bios h)(a \<mapsto> bio)\<rparr>"

definition assert_that :: "bool \<Rightarrow> unit option" where
  "assert_that P = (if P then Some () else None)"

text \<open>\<open>memcpy\<close> from and into an array: leaving the array has no result.\<close>

definition mem_load :: "bytes \<Rightarrow> nat \<Rightarrow> nat \<Rightarrow> bytes option" where
  "mem_load buf pos n = (if pos + n \<le> length buf then Some (take n (drop pos buf)) else None)"

definition mem_store :: "bytes \<Rightarrow> nat \<Rightarrow> bytes \<Rightarrow> bytes option" where
  "mem_store buf pos data = (if pos + length data \<le> length buf then Some (mem_write buf pos data) else None)"

section \<open>Flags\<close>

definition BIO_FLAGS_READ :: u32 where "BIO_FLAGS_READ = 0x01"
definition BIO_FLAGS_WRITE :: u32 where "BIO_FLAGS_WRITE = 0x02"
definition BIO_FLAGS_IO_SPECIAL :: u32 where "BIO_FLAGS_IO_SPECIAL = 0x04"
definition BIO_FLAGS_RWS :: u32 where "BIO_FLAGS_RWS = BIO_FLAGS_READ OR BIO_FLAGS_WRITE OR BIO_FLAGS_IO_SPECIAL"
definition BIO_FLAGS_SHOULD_RETRY :: u32 where "BIO_FLAGS_SHOULD_RETRY = 0x08"
definition BIO_FLAGS_MEM_RDONLY :: u32 where "BIO_FLAGS_MEM_RDONLY = 0x200"

definition BIO_set_flags :: "BIO \<Rightarrow> u32 \<Rightarrow> BIO" where
  "BIO_set_flags bio flags = bio\<lparr>bio_flags := bio_flags bio OR flags\<rparr>"

definition BIO_test_flags :: "BIO \<Rightarrow> u32 \<Rightarrow> u32" where
  "BIO_test_flags bio flags = bio_flags bio AND flags"

definition BIO_should_read :: "BIO \<Rightarrow> u32" where
  "BIO_should_read bio = BIO_test_flags bio BIO_FLAGS_READ"

definition BIO_should_write :: "BIO \<Rightarrow> u32" where
  "BIO_should_write bio = BIO_test_flags bio BIO_FLAGS_WRITE"

definition BIO_should_retry :: "BIO \<Rightarrow> u32" where
  "BIO_should_retry bio = BIO_test_flags bio BIO_FLAGS_SHOULD_RETRY"

definition BIO_should_io_special :: "BIO \<Rightarrow> u32" where
  "BIO_should_io_special bio = BIO_test_flags bio BIO_FLAGS_IO_SPECIAL"

definition BIO_get_retry_reason :: "BIO \<Rightarrow> int" where
  "BIO_get_retry_reason bio = bio_retry_reason bio"

definition BIO_clear_flags :: "BIO \<Rightarrow> u32 \<Rightarrow> BIO" where
  "BIO_clear_flags bio flags = bio\<lparr>bio_flags := bio_flags bio AND NOT flags\<rparr>"

definition BIO_set_retry_read :: "BIO \<Rightarrow> BIO" where
  "BIO_set_retry_read bio = bio\<lparr>bio_flags := bio_flags bio OR (BIO_FLAGS_READ OR BIO_FLAGS_SHOULD_RETRY)\<rparr>"

definition BIO_set_retry_write :: "BIO \<Rightarrow> BIO" where
  "BIO_set_retry_write bio = bio\<lparr>bio_flags := bio_flags bio OR (BIO_FLAGS_WRITE OR BIO_FLAGS_SHOULD_RETRY)\<rparr>"

definition BIO_set_retry_special :: "BIO \<Rightarrow> BIO" where
  "BIO_set_retry_special bio = bio\<lparr>bio_flags := bio_flags bio OR (BIO_FLAGS_READ OR BIO_FLAGS_IO_SPECIAL)\<rparr>"

definition kRetryFlags :: u32 where
  "kRetryFlags = BIO_FLAGS_RWS OR BIO_FLAGS_SHOULD_RETRY"

definition BIO_get_retry_flags :: "BIO \<Rightarrow> u32" where
  "BIO_get_retry_flags bio = bio_flags bio AND kRetryFlags"

definition BIO_clear_retry_flags :: "BIO \<Rightarrow> BIO" where
  "BIO_clear_retry_flags bio = bio\<lparr>bio_flags := bio_flags bio AND NOT kRetryFlags, bio_retry_reason := 0\<rparr>"

section \<open>Control requests\<close>

abbreviation (input) BIO_CTRL_RESET :: int where "BIO_CTRL_RESET \<equiv> 1"
abbreviation (input) BIO_CTRL_EOF :: int where "BIO_CTRL_EOF \<equiv> 2"
abbreviation (input) BIO_CTRL_INFO :: int where "BIO_CTRL_INFO \<equiv> 3"
abbreviation (input) BIO_CTRL_GET_CLOSE :: int where "BIO_CTRL_GET_CLOSE \<equiv> 8"
abbreviation (input) BIO_CTRL_SET_CLOSE :: int where "BIO_CTRL_SET_CLOSE \<equiv> 9"
abbreviation (input) BIO_CTRL_PENDING :: int where "BIO_CTRL_PENDING \<equiv> 10"
abbreviation (input) BIO_CTRL_FLUSH :: int where "BIO_CTRL_FLUSH \<equiv> 11"
abbreviation (input) BIO_CTRL_WPENDING :: int where "BIO_CTRL_WPENDING \<equiv> 13"
abbreviation (input) BIO_C_SET_BUF_MEM :: int where "BIO_C_SET_BUF_MEM \<equiv> 114"
abbreviation (input) BIO_C_GET_BUF_MEM_PTR :: int where "BIO_C_GET_BUF_MEM_PTR \<equiv> 115"
abbreviation (input) BIO_C_SET_BUF_MEM_EOF_RETURN :: int where "BIO_C_SET_BUF_MEM_EOF_RETURN \<equiv> 130"
abbreviation (input) BIO_C_GET_WRITE_BUF_SIZE :: int where "BIO_C_GET_WRITE_BUF_SIZE \<equiv> 137"
abbreviation (input) BIO_C_GET_WRITE_GUARANTEE :: int where "BIO_C_GET_WRITE_GUARANTEE \<equiv> 140"
abbreviation (input) BIO_C_GET_READ_REQUEST :: int where "BIO_C_GET_READ_REQUEST \<equiv> 141"
abbreviation (input) BIO_C_SHUTDOWN_WR :: int where "BIO_C_SHUTDOWN_WR \<equiv> 142"
abbreviation (input) BIO_C_RESET_READ_REQUEST :: int where "BIO_C_RESET_READ_REQUEST \<equiv> 147"

text \<open>
  The pointer argument of a control request, and what a request stores through it: a buffer
  comes as its value, without the sharing of the pointer.
\<close>

datatype ctrl_arg = Null_arg | Bio_arg bio_ref | Buf_arg BUF_MEM | Out_arg

datatype ctrl_out = No_out | Data_out "bytes option" | Buf_out BUF_MEM

end
