(* ===== verification/Bio_Pair.thy ===== *)
theory Bio_Pair
  imports Bio
begin

text \<open>
  \<open>crypto/bio/pair.c\<close>: two BIOs joined back to back. What one end writes goes into its ring
  buffer, from which the other end reads.
\<close>

section \<open>The private structure\<close>

definition pair_at :: "bio_heap \<Rightarrow> bio_ref \<Rightarrow> bio_bio_st option" where
  "pair_at h a =
     do { bio \<leftarrow> bios h a;
          case bio_ptr bio of Some (Bio_bio b) \<Rightarrow> Some b | _ \<Rightarrow> None }"

definition put_pair :: "bio_ref \<Rightarrow> bio_bio_st \<Rightarrow> bio_heap \<Rightarrow> bio_heap" where
  "put_pair a b h =
     (case bios h a of None \<Rightarrow> h | Some bio \<Rightarrow> bio_put a (bio\<lparr>bio_ptr := Some (Bio_bio b)\<rparr>) h)"

abbreviation (input) sizeof_bio_bio_st :: nat where
  "sizeof_bio_bio_st \<equiv> 56"

definition bio_new :: "heap_env \<Rightarrow> BIO \<Rightarrow> BIO option" where
  "bio_new env bio =
     do { _ \<leftarrow> OPENSSL_malloc env sizeof_bio_bio_st;
          Some (bio\<lparr>bio_ptr := Some (Bio_bio \<lparr>bb_peer = None, bb_closed = False, bb_len = 0,
            bb_offset = 0, bb_size = 17 * 1024, bb_buf = None, bb_request = 0\<rparr>)\<rparr>) }"

definition bio_destroy_pair :: "bio_ref \<Rightarrow> unit bio_op" where
  "bio_destroy_pair a h =
     do { b \<leftarrow> pair_at h a;
          case bb_peer b of
            None \<Rightarrow> Some ((), h)
          | Some peer \<Rightarrow>
              do { peer_bio \<leftarrow> bios h peer;
                   peer_b \<leftarrow> pair_at h peer;
                   assert_that (bb_peer peer_b = Some a);
                   let h = bio_put peer (peer_bio\<lparr>bio_init := False\<rparr>) h;
                   assert_that (bb_buf peer_b \<noteq> None);
                   let h = put_pair peer (peer_b\<lparr>bb_peer := None, bb_len := 0, bb_offset := 0\<rparr>) h;
                   bio \<leftarrow> bios h a;
                   let h = bio_put a (bio\<lparr>bio_init := False\<rparr>) h;
                   assert_that (bb_buf b \<noteq> None);
                   Some ((), put_pair a (b\<lparr>bb_peer := None, bb_len := 0, bb_offset := 0\<rparr>) h) } }"

text \<open>\<open>bio_free\<close> frees the private structure; the BIO itself is its caller's.\<close>

definition bio_free :: "bio_ref \<Rightarrow> unit bio_op" where
  "bio_free a h =
     do { b \<leftarrow> pair_at h a;
          (_, h) \<leftarrow> (if bb_peer b \<noteq> None then bio_destroy_pair a h else Some ((), h));
          bio \<leftarrow> bios h a;
          Some ((), bio_put a (bio\<lparr>bio_ptr := None\<rparr>) h) }"

section \<open>Reading and writing\<close>

text \<open>
  The loops over the ring. \<open>out\<close> is the caller's array, \<open>pos\<close> how far its pointer has moved.
\<close>

partial_function (option) bio_read_loop ::
  "bio_bio_st \<Rightarrow> bytes \<Rightarrow> nat \<Rightarrow> nat \<Rightarrow> (bio_bio_st \<times> bytes) option" where
  "bio_read_loop peer_b out pos rest =
     do { assert_that (rest \<le> bb_len peer_b);
          let chunk = (if (bb_offset peer_b + rest) mod 2 ^ 64 \<le> bb_size peer_b then rest
                       else bb_size peer_b - bb_offset peer_b);
          assert_that ((bb_offset peer_b + chunk) mod 2 ^ 64 \<le> bb_size peer_b);
          pbuf \<leftarrow> bb_buf peer_b;
          data \<leftarrow> mem_load pbuf (bb_offset peer_b) chunk;
          out \<leftarrow> mem_store out pos data;
          let peer_b = peer_b\<lparr>bb_len := bb_len peer_b - chunk\<rparr>;
          (peer_b, pos) \<leftarrow>
            (if bb_len peer_b \<noteq> 0
             then
               do { let peer_b = peer_b\<lparr>bb_offset := bb_offset peer_b + chunk\<rparr>;
                    assert_that (bb_offset peer_b \<le> bb_size peer_b);
                    Some (if bb_offset peer_b = bb_size peer_b then peer_b\<lparr>bb_offset := 0\<rparr> else peer_b,
                          pos + chunk) }
             else
               do { assert_that (chunk = rest);
                    Some (peer_b\<lparr>bb_offset := 0\<rparr>, pos) });
          let rest = rest - chunk;
          if rest \<noteq> 0 then bio_read_loop peer_b out pos rest else Some (peer_b, out) }"

definition bio_read :: "bio_ref \<Rightarrow> bytes option \<Rightarrow> nat \<Rightarrow> (int \<times> bytes option) bio_op" where
  "bio_read a buf n h =
     do { bio \<leftarrow> bios h a;
          let bio = BIO_clear_retry_flags bio;
          let h = bio_put a bio h;
          if \<not> bio_init bio then Some ((0, buf), h)
          else
            do { b \<leftarrow> pair_at h a;
                 peer \<leftarrow> bb_peer b;
                 peer_b \<leftarrow> pair_at h peer;
                 assert_that (bb_buf peer_b \<noteq> None);
                 let peer_b = peer_b\<lparr>bb_request := 0\<rparr>;
                 let h = put_pair peer peer_b h;
                 case buf of
                   None \<Rightarrow> Some ((0, buf), h)
                 | Some out \<Rightarrow>
                     if n = 0 then Some ((0, buf), h)
                     else if bb_len peer_b = 0 then
                       if bb_closed peer_b then Some ((0, buf), h)
                       else
                         do { bio \<leftarrow> bios h a;
                              let h = bio_put a (BIO_set_retry_read bio) h;
                              Some ((-1, buf), put_pair peer
                                (peer_b\<lparr>bb_request := (if n \<le> bb_size peer_b then n else bb_size peer_b)\<rparr>) h) }
                     else
                       do { let n = (if bb_len peer_b < n then bb_len peer_b else n);
                            assert_that (n > 0);
                            (peer_b, out) \<leftarrow> bio_read_loop peer_b out 0 n;
                            Some ((int n, Some out), put_pair peer peer_b h) } } }"

partial_function (option) bio_write_loop ::
  "bio_bio_st \<Rightarrow> bytes \<Rightarrow> nat \<Rightarrow> nat \<Rightarrow> bio_bio_st option" where
  "bio_write_loop b buf pos rest =
     do { assert_that ((bb_len b + rest) mod 2 ^ 64 \<le> bb_size b);
          let write_offset = (bb_offset b + bb_len b) mod 2 ^ 64;
          let write_offset = (if write_offset \<ge> bb_size b then write_offset - bb_size b else write_offset);
          let chunk = (if (write_offset + rest) mod 2 ^ 64 \<le> bb_size b then rest
                       else bb_size b - write_offset);
          bbuf \<leftarrow> bb_buf b;
          data \<leftarrow> mem_load buf pos chunk;
          bbuf \<leftarrow> mem_store bbuf write_offset data;
          let b = b\<lparr>bb_buf := Some bbuf, bb_len := bb_len b + chunk\<rparr>;
          assert_that (bb_len b \<le> bb_size b);
          let rest = rest - chunk;
          if rest \<noteq> 0 then bio_write_loop b buf (pos + chunk) rest else Some b }"

definition bio_write :: "bio_ref \<Rightarrow> bytes option \<Rightarrow> nat \<Rightarrow> int bio_op" where
  "bio_write a buf num h =
     do { bio \<leftarrow> bios h a;
          let bio = BIO_clear_retry_flags bio;
          let h = bio_put a bio h;
          case buf of
            None \<Rightarrow> Some (0, h)
          | Some data \<Rightarrow>
              if \<not> bio_init bio \<or> num = 0 then Some (0, h)
              else
                do { b \<leftarrow> pair_at h a;
                     assert_that (bb_peer b \<noteq> None);
                     assert_that (bb_buf b \<noteq> None);
                     let b = b\<lparr>bb_request := 0\<rparr>;
                     let h = put_pair a b h;
                     if bb_closed b then Some (-1, h)
                     else
                       do { assert_that (bb_len b \<le> bb_size b);
                            if bb_len b = bb_size b then
                              do { bio \<leftarrow> bios h a;
                                   Some (-1, bio_put a (BIO_set_retry_write bio) h) }
                            else
                              do { let num = (if num > bb_size b - bb_len b then bb_size b - bb_len b else num);
                                   assert_that (num > 0);
                                   b \<leftarrow> bio_write_loop b data 0 num;
                                   Some (int num, put_pair a b h) } } } }"

section \<open>Making a pair\<close>

text \<open>The buffer of one end: an end that was in a pair before keeps the one it has.\<close>

definition pair_buffer :: "heap_env \<Rightarrow> nat \<Rightarrow> bio_bio_st \<Rightarrow> bool \<times> bio_bio_st" where
  "pair_buffer env writebuf_len b =
     (if bb_buf b = None
      then
        let b = (if writebuf_len \<noteq> 0 then b\<lparr>bb_size := writebuf_len\<rparr> else b)
        in case OPENSSL_malloc env (bb_size b) of
             None \<Rightarrow> (False, b)
           | Some buf \<Rightarrow> (True, b\<lparr>bb_buf := Some buf, bb_len := 0, bb_offset := 0\<rparr>)
      else (True, b))"

definition bio_make_pair :: "heap_env \<Rightarrow> bio_ref \<Rightarrow> bio_ref \<Rightarrow> nat \<Rightarrow> nat \<Rightarrow> bool bio_op" where
  "bio_make_pair env bio1 bio2 writebuf1_len writebuf2_len h =
     do { b1 \<leftarrow> pair_at h bio1;
          b2 \<leftarrow> pair_at h bio2;
          if bb_peer b1 \<noteq> None \<or> bb_peer b2 \<noteq> None then Some (False, h)
          else
            do { let (ok1, b1) = pair_buffer env writebuf1_len b1;
                 let h = put_pair bio1 b1 h;
                 if \<not> ok1 then Some (False, h)
                 else
                   do { let (ok2, b2) = pair_buffer env writebuf2_len b2;
                        let h = put_pair bio2 b2 h;
                        if \<not> ok2 then Some (False, h)
                        else
                          do { let h = put_pair bio1 (b1\<lparr>bb_peer := Some bio2, bb_closed := False, bb_request := 0\<rparr>) h;
                               let h = put_pair bio2 (b2\<lparr>bb_peer := Some bio1, bb_closed := False, bb_request := 0\<rparr>) h;
                               c1 \<leftarrow> bios h bio1;
                               let h = bio_put bio1 (c1\<lparr>bio_init := True\<rparr>) h;
                               c2 \<leftarrow> bios h bio2;
                               Some (True, bio_put bio2 (c2\<lparr>bio_init := True\<rparr>) h) } } } }"

section \<open>Control\<close>

definition bio_ctrl :: "bio_ref \<Rightarrow> int \<Rightarrow> int \<Rightarrow> ctrl_arg \<Rightarrow> (int \<times> ctrl_out) bio_op" where
  "bio_ctrl a cmd num ptr h =
     do { bio \<leftarrow> bios h a;
          b \<leftarrow> pair_at h a;
          if cmd = BIO_C_GET_WRITE_BUF_SIZE then Some ((int (bb_size b), No_out), h)
          else if cmd = BIO_C_GET_WRITE_GUARANTEE then
            Some ((if bb_peer b = None \<or> bb_closed b then 0 else int (bb_size b) - int (bb_len b), No_out), h)
          else if cmd = BIO_C_GET_READ_REQUEST then Some ((int (bb_request b), No_out), h)
          else if cmd = BIO_C_RESET_READ_REQUEST then Some ((1, No_out), put_pair a (b\<lparr>bb_request := 0\<rparr>) h)
          else if cmd = BIO_C_SHUTDOWN_WR then Some ((1, No_out), put_pair a (b\<lparr>bb_closed := True\<rparr>) h)
          else if cmd = BIO_CTRL_GET_CLOSE then Some ((bio_shutdown bio, No_out), h)
          else if cmd = BIO_CTRL_SET_CLOSE then Some ((1, No_out), bio_put a (bio\<lparr>bio_shutdown := num\<rparr>) h)
          else if cmd = BIO_CTRL_PENDING then
            (case bb_peer b of
               None \<Rightarrow> Some ((0, No_out), h)
             | Some peer \<Rightarrow> do { peer_b \<leftarrow> pair_at h peer; Some ((int (bb_len peer_b), No_out), h) })
          else if cmd = BIO_CTRL_WPENDING then
            Some ((if bb_buf b \<noteq> None then int (bb_len b) else 0, No_out), h)
          else if cmd = BIO_CTRL_FLUSH then Some ((1, No_out), h)
          else if cmd = BIO_CTRL_EOF then
            (case ptr of
               Bio_arg other_bio \<Rightarrow>
                 do { other_b \<leftarrow> pair_at h other_bio;
                      Some ((if bb_len other_b = 0 \<and> bb_closed other_b then 1 else 0, No_out), h) }
             | _ \<Rightarrow> Some ((1, No_out), h))
          else Some ((0, No_out), h) }"

section \<open>The ring\<close>

definition ring_ok :: "bio_bio_st \<Rightarrow> bool" where
  "ring_ok b \<longleftrightarrow> (case bb_buf b of None \<Rightarrow> False | Some d \<Rightarrow> length d = bb_size b) \<and>
     bb_size b < 2 ^ 62 \<and> bb_len b \<le> bb_size b \<and> bb_offset b < bb_size b"

definition ring_bytes :: "bio_bio_st \<Rightarrow> bytes" where
  "ring_bytes b = (case bb_buf b of None \<Rightarrow> [] | Some d \<Rightarrow> take (bb_len b) (rotate (bb_offset b) d))"

lemma ring_okE:
  assumes "ring_ok b"
  obtains d where "bb_buf b = Some d" "length d = bb_size b" "bb_size b < 2 ^ 62" "bb_len b \<le> bb_size b"
    "bb_offset b < bb_size b"
  using assms by (auto simp: ring_ok_def split: option.splits)

lemma length_ring_bytes: "ring_ok b \<Longrightarrow> length (ring_bytes b) = bb_len b"
  by (elim ring_okE) (simp add: ring_bytes_def)

lemma mem_write_mem_write:
  "pos + length x + length y \<le> length out \<Longrightarrow>
    mem_write (mem_write out pos x) (pos + length x) y = mem_write out pos (x @ y)"
  by (simp add: mem_write_def add_ac)

lemma rotate_take_drop: "o' < length d \<Longrightarrow> rotate o' d = drop o' d @ take o' d"
  by (simp add: rotate_drop_take)

lemma take_rotate_wrap:
  assumes "o' < length d" "n \<le> length d" "length d \<le> o' + n"
  shows "take n (rotate o' d) = drop o' d @ take (n - (length d - o')) d"
proof -
  have "n - (length d - o') \<le> o'" using assms by linarith
  then show ?thesis using assms by (simp add: rotate_take_drop min_absorb1)
qed

text \<open>One iteration of the reading loop, over the chunk it takes.\<close>

lemma bio_read_loop_step:
  assumes d: "bb_buf b = Some d" "length d = bb_size b" "bb_size b < 2 ^ 62"
    and c: "c = (if bb_offset b + rest \<le> bb_size b then rest else bb_size b - bb_offset b)"
    and rest: "rest \<le> bb_len b" "bb_len b \<le> bb_size b" "bb_offset b < bb_size b" "pos + rest \<le> length out"
  shows "bio_read_loop b out pos rest =
    (let out = mem_write out pos (take c (drop (bb_offset b) d));
         b' = b\<lparr>bb_len := bb_len b - c,
                bb_offset := (if bb_len b = c \<or> bb_offset b + c = bb_size b then 0 else bb_offset b + c)\<rparr>
     in if rest = c then Some (b', out) else bio_read_loop b' out (pos + c) (rest - c))"
proof -
  have w: "(bb_offset b + rest) mod 2 ^ 64 = bb_offset b + rest" using d rest by simp
  have c': "c \<le> rest" "bb_offset b + c \<le> bb_size b" "rest = c \<or> c < rest" using c rest by auto
  then have w': "(bb_offset b + c) mod 2 ^ 64 = bb_offset b + c" "pos + c \<le> length out" "c \<le> bb_len b"
    using d rest by simp_all
  show ?thesis
    unfolding bio_read_loop.simps [of b out pos rest] w c [symmetric] Let_def
    using d rest c' w' by (cases "rest = c"; cases "bb_len b = c")
      (auto simp: assert_that_def mem_load_def mem_store_def min_absorb2)
qed

lemma bio_read_loop_result:
  assumes b: "ring_ok b" and rest: "0 < rest" "rest \<le> bb_len b" and out: "pos + rest \<le> length out"
  shows "bio_read_loop b out pos rest =
    Some (b\<lparr>bb_len := bb_len b - rest,
            bb_offset := (if bb_len b = rest then 0 else (bb_offset b + rest) mod bb_size b)\<rparr>,
          mem_write out pos (take rest (ring_bytes b)))"
  using b
proof (rule ring_okE)
  fix d assume d: "bb_buf b = Some d" "length d = bb_size b" "bb_size b < 2 ^ 62" "bb_len b \<le> bb_size b"
    "bb_offset b < bb_size b"
  note step = bio_read_loop_step [OF d(1-3) refl rest(2) d(4,5) out]
  show ?thesis
  proof (cases "bb_offset b + rest \<le> bb_size b")
    case True
    have "take rest (drop (bb_offset b) d) = take rest (ring_bytes b)"
      using True d rest by (simp add: ring_bytes_def rotate_take_drop)
    moreover have "(bb_offset b + rest) mod bb_size b = (if bb_offset b + rest = bb_size b then 0 else bb_offset b + rest)"
      using True by simp
    ultimately show ?thesis using True step by (simp add: Let_def)
  next
    case False
    define c where "c = bb_size b - bb_offset b"
    define b1 where "b1 = b\<lparr>bb_len := bb_len b - c, bb_offset := 0\<rparr>"
    have c: "c < rest" "0 < c" "bb_offset b + c = bb_size b" using False d by (simp_all add: c_def)
    have "rest - c < bb_size b" using d(4) rest c by linarith
    then have mod: "(bb_offset b + rest) mod bb_size b = rest - c" using c False by (simp add: le_mod_geq c_def)
    have first: "bio_read_loop b out pos rest = bio_read_loop b1 (mem_write out pos (drop (bb_offset b) d)) (pos + c) (rest - c)"
      using step False c d by (simp add: Let_def b1_def flip: c_def)
    have data: "take rest (ring_bytes b) = drop (bb_offset b) d @ take (rest - c) d"
      using d rest c by (simp add: ring_bytes_def min_def take_rotate_wrap c_def)
    have "bio_read_loop b1 (mem_write out pos (drop (bb_offset b) d)) (pos + c) (rest - c) =
      Some (b\<lparr>bb_len := bb_len b - rest, bb_offset := (if bb_len b = rest then 0 else rest - c)\<rparr>,
        mem_write (mem_write out pos (drop (bb_offset b) d)) (pos + c) (take (rest - c) d))"
      using d rest c out \<open>rest - c < bb_size b\<close> by (subst bio_read_loop_step [where d = d]) (auto simp: b1_def Let_def)
    then show ?thesis
      using first mod mem_write_mem_write [of pos "drop (bb_offset b) d" "take (rest - c) d" out] d rest c out data
      by (simp add: c_def)
  qed
qed

lemma ring_after_read:
  assumes b: "ring_ok b" and n: "n \<le> bb_len b"
  shows "ring_ok (b\<lparr>bb_len := bb_len b - n, bb_offset := (if bb_len b = n then 0 else (bb_offset b + n) mod bb_size b)\<rparr>)"
    "ring_bytes (b\<lparr>bb_len := bb_len b - n, bb_offset := (if bb_len b = n then 0 else (bb_offset b + n) mod bb_size b)\<rparr>) =
      drop n (ring_bytes b)"
proof -
  obtain d where d: "bb_buf b = Some d" "length d = bb_size b" "bb_size b < 2 ^ 62" "bb_len b \<le> bb_size b"
    "bb_offset b < bb_size b" using b by (rule ring_okE)
  show "ring_ok (b\<lparr>bb_len := bb_len b - n, bb_offset := (if bb_len b = n then 0 else (bb_offset b + n) mod bb_size b)\<rparr>)"
    using d by (auto simp: ring_ok_def)
  have "take (bb_len b - n) (rotate ((bb_offset b + n) mod bb_size b) d) = drop n (take (bb_len b) (rotate (bb_offset b) d))"
  proof -
    have "rotate ((bb_offset b + n) mod bb_size b) d = rotate n (rotate (bb_offset b) d)"
      using d(2) by (metis add.commute rotate_conv_mod rotate_rotate)
    also have "\<dots> = drop n (rotate (bb_offset b) d) @ take n (rotate (bb_offset b) d)" if "n < bb_size b"
      using that d(2) by (simp add: rotate_take_drop)
    finally show ?thesis using n d by (cases "n < bb_size b") (simp_all add: drop_take)
  qed
  then show "ring_bytes (b\<lparr>bb_len := bb_len b - n, bb_offset := (if bb_len b = n then 0 else (bb_offset b + n) mod bb_size b)\<rparr>) =
      drop n (ring_bytes b)"
    using d n by (auto simp: ring_bytes_def)
qed

lemma wrap_add: "o' < n \<Longrightarrow> i < n \<Longrightarrow> (o' + i) mod n = (if o' + i < n then o' + i else o' + i - (n :: nat))"
  by (simp add: le_mod_geq)

lemma nth_mem_write:
  "pos + length x \<le> length d \<Longrightarrow> i < length d \<Longrightarrow>
    mem_write d pos x ! i = (if pos \<le> i \<and> i < pos + length x then x ! (i - pos) else d ! i)"
  by (auto simp: mem_write_def nth_append min_def)

text \<open>Bytes written at the end of the ring, without wrapping around.\<close>

lemma ring_write:
  assumes n: "length d = n" "o' < n" "len + length x \<le> n" "x \<noteq> []" and w: "w = (o' + len) mod n" "w + length x \<le> n"
  shows "take (len + length x) (rotate o' (mem_write d w x)) = take len (rotate o' d) @ x"
proof (rule nth_equalityI)
  have l: "length (mem_write d w x) = n" using w n by simp
  then show "length (take (len + length x) (rotate o' (mem_write d w x))) = length (take len (rotate o' d) @ x)"
    using n by simp
  fix i assume "i < length (take (len + length x) (rotate o' (mem_write d w x)))"
  then have i: "i < len + length x" "i < n" using n l by simp_all
  have len: "len < n" using n(3,4) by (cases x) simp_all
  have lhs: "take (len + length x) (rotate o' (mem_write d w x)) ! i = mem_write d w x ! ((o' + i) mod n)"
    using i l by (simp add: nth_rotate)
  have m: "(o' + i) mod n < n" using i by simp
  show "take (len + length x) (rotate o' (mem_write d w x)) ! i = (take len (rotate o' d) @ x) ! i"
  proof (cases "i < len")
    case True
    have "\<not> (w \<le> (o' + i) mod n \<and> (o' + i) mod n < w + length x)"
      using True i n(2,3) w len by (auto simp: wrap_add split: if_splits)
    then show ?thesis using lhs True m w n i by (auto simp: nth_mem_write nth_append nth_rotate)
  next
    case False
    have "(o' + i) mod n = w + (i - len)"
      using False i n(2,3) w len by (auto simp: wrap_add split: if_splits)
    moreover have "mem_write d w x ! (w + (i - len)) = x ! (i - len)"
      using False i n(1) w(2) by (subst nth_mem_write) auto
    ultimately show ?thesis using lhs False n(1) len by (simp add: nth_append min_def)
  qed
qed

lemma bio_write_loop_step:
  assumes d: "bb_buf b = Some d" "length d = bb_size b" "bb_size b < 2 ^ 62" "bb_offset b < bb_size b"
    and c: "w = (bb_offset b + bb_len b) mod bb_size b" "c = (if w + rest \<le> bb_size b then rest else bb_size b - w)"
    and rest: "bb_len b + rest \<le> bb_size b" "0 < rest" "pos + rest \<le> length buf"
  shows "bio_write_loop b buf pos rest =
    (let b' = b\<lparr>bb_buf := Some (mem_write d w (take c (drop pos buf))), bb_len := bb_len b + c\<rparr>
     in if rest = c then Some b' else bio_write_loop b' buf (pos + c) (rest - c))"
proof -
  have w64: "(bb_len b + rest) mod 2 ^ 64 = bb_len b + rest" "(bb_offset b + bb_len b) mod 2 ^ 64 = bb_offset b + bb_len b"
    using d rest by simp_all
  have w: "(if bb_size b \<le> bb_offset b + bb_len b then bb_offset b + bb_len b - bb_size b else bb_offset b + bb_len b) = w"
    using d rest c(1) wrap_add [of "bb_offset b" "bb_size b" "bb_len b"] by auto
  have "w < bb_size b" using c(1) d by simp
  then have w64': "(w + rest) mod 2 ^ 64 = w + rest" and c': "c \<le> rest" "w + c \<le> bb_size b" "rest = c \<or> c < rest"
    using d rest c(2) by auto
  show ?thesis
    unfolding bio_write_loop.simps [of b buf pos rest] w64 Let_def w w64' c(2) [symmetric]
    using d rest c' by (cases "rest = c") (auto simp: assert_that_def mem_load_def mem_store_def min_absorb2)
qed

lemma bio_write_loop_result:
  assumes b: "ring_ok b" and rest: "0 < rest" "bb_len b + rest \<le> bb_size b" "pos + rest \<le> length buf"
  obtains d where "bio_write_loop b buf pos rest = Some (b\<lparr>bb_buf := Some d, bb_len := bb_len b + rest\<rparr>)"
    "length d = bb_size b" "take (bb_len b + rest) (rotate (bb_offset b) d) = ring_bytes b @ take rest (drop pos buf)"
proof -
  obtain d where d: "bb_buf b = Some d" "length d = bb_size b" "bb_size b < 2 ^ 62" "bb_len b \<le> bb_size b"
    "bb_offset b < bb_size b" using b by (rule ring_okE)
  define w where "w = (bb_offset b + bb_len b) mod bb_size b"
  have wn: "w < bb_size b" using d by (simp add: w_def)
  note step = bio_write_loop_step [OF d(1-3,5) w_def refl rest(2,1,3)]
  note ring = ring_write [OF d(2,5), where len = "bb_len b" and w = w, OF _ _ w_def]
  show ?thesis
  proof (cases "w + rest \<le> bb_size b")
    case True
    let ?x = "take rest (drop pos buf)"
    have "bio_write_loop b buf pos rest = Some (b\<lparr>bb_buf := Some (mem_write d w ?x), bb_len := bb_len b + rest\<rparr>)"
      using step True by (simp add: Let_def)
    then show ?thesis
      by (rule that) (use True d rest ring [of ?x] in \<open>auto simp: ring_bytes_def min_absorb2\<close>)
  next
    case False
    define c where "c = bb_size b - w"
    define x where "x = take c (drop pos buf)"
    define b1 where "b1 = b\<lparr>bb_buf := Some (mem_write d w x), bb_len := bb_len b + c\<rparr>"
    have c: "0 < c" "c < rest" "w + c = bb_size b" using False wn by (simp_all add: c_def)
    have x: "length x = c" using c rest by (simp add: x_def)
    have first: "bio_write_loop b buf pos rest = bio_write_loop b1 buf (pos + c) (rest - c)"
      using step False c by (simp add: Let_def b1_def x_def flip: c_def)
    have d1: "length (mem_write d w x) = bb_size b" using d x c by simp
    have w1: "(bb_offset b + (bb_len b + c)) mod bb_size b = 0"
      using c(3) by (metis add.assoc mod_add_left_eq mod_self w_def)
    have r1: "take (bb_len b + c) (rotate (bb_offset b) (mem_write d w x)) = ring_bytes b @ x"
      using ring [of x] x c d rest by (auto simp: ring_bytes_def)
    have second: "bio_write_loop b1 buf (pos + c) (rest - c) =
        Some (b\<lparr>bb_buf := Some (mem_write (mem_write d w x) 0 (take (rest - c) (drop (pos + c) buf))), bb_len := bb_len b + rest\<rparr>)"
      using d d1 w1 rest c
      by (subst bio_write_loop_step [where d = "mem_write d w x" and w = 0 and c = "rest - c"]) (auto simp: b1_def Let_def)
    show ?thesis
    proof (rule that)
      show "bio_write_loop b buf pos rest =
          Some (b\<lparr>bb_buf := Some (mem_write (mem_write d w x) 0 (take (rest - c) (drop (pos + c) buf))), bb_len := bb_len b + rest\<rparr>)"
        using first second by simp
      show "length (mem_write (mem_write d w x) 0 (take (rest - c) (drop (pos + c) buf))) = bb_size b"
        using d1 rest c d by simp
      have "take (bb_len b + c + length (take (rest - c) (drop (pos + c) buf)))
          (rotate (bb_offset b) (mem_write (mem_write d w x) 0 (take (rest - c) (drop (pos + c) buf)))) =
          take (bb_len b + c) (rotate (bb_offset b) (mem_write d w x)) @ take (rest - c) (drop (pos + c) buf)"
        using d1 d(5) w1 rest c by (intro ring_write) auto
      moreover have "take rest (drop pos buf) = x @ take (rest - c) (drop (pos + c) buf)"
        using c by (simp add: x_def add.commute flip: take_add drop_drop)
      ultimately show "take (bb_len b + rest)
          (rotate (bb_offset b) (mem_write (mem_write d w x) 0 (take (rest - c) (drop (pos + c) buf)))) =
          ring_bytes b @ take rest (drop pos buf)"
        using r1 rest c by (simp add: min_absorb2)
    qed
  qed
qed

end
