(* ===== verification/Bio_Mem.thy ===== *)
theory Bio_Mem
  imports Bio
begin

text \<open>
  \<open>crypto/bio/bio_mem.c\<close>: BIOs over a growable buffer, or over a fixed array that is only read.
\<close>

section \<open>The private structure\<close>

definition buf_mem_at :: "bio_heap \<Rightarrow> bio_ref \<Rightarrow> BUF_MEM option" where
  "buf_mem_at h a =
     do { bio \<leftarrow> bios h a;
          case bio_ptr bio of Some (Buf_mem b) \<Rightarrow> Some b | _ \<Rightarrow> None }"

definition put_buf_mem :: "bio_ref \<Rightarrow> BUF_MEM \<Rightarrow> bio_heap \<Rightarrow> bio_heap" where
  "put_buf_mem a b h =
     (case bios h a of None \<Rightarrow> h | Some bio \<Rightarrow> bio_put a (bio\<lparr>bio_ptr := Some (Buf_mem b)\<rparr>) h)"

text \<open>The conversion of a \<open>size_t\<close> to \<open>int\<close>.\<close>

definition to_int :: "nat \<Rightarrow> int" where
  "to_int n = (int n + 2 ^ 31) mod 2 ^ 32 - 2 ^ 31"

definition mem_new :: "heap_env \<Rightarrow> BIO \<Rightarrow> BIO option" where
  "mem_new env bio =
     do { b \<leftarrow> BUF_MEM_new env;
          Some (bio\<lparr>bio_shutdown := 1, bio_init := True, bio_num := -1, bio_ptr := Some (Buf_mem b)\<rparr>) }"

definition mem_free :: "bio_ref \<Rightarrow> unit bio_op" where
  "mem_free a h =
     do { bio \<leftarrow> bios h a;
          if bio_shutdown bio = 0 \<or> \<not> bio_init bio \<or> bio_ptr bio = None then Some ((), h)
          else Some ((), bio_put a (bio\<lparr>bio_ptr := None\<rparr>) h) }"

definition bio_mem_read :: "bio_ref \<Rightarrow> bytes \<Rightarrow> nat \<Rightarrow> (int \<times> bytes) bio_op" where
  "bio_mem_read a out outl h =
     do { b \<leftarrow> buf_mem_at h a;
          bio \<leftarrow> bios h a;
          let bio = BIO_clear_retry_flags bio;
          let h = bio_put a bio h;
          let ret = (if bm_length b < INT_MAX \<and> outl > bm_length b then bm_length b else outl);
          if ret > 0 then
            do { d \<leftarrow> bm_data b;
                 data \<leftarrow> mem_load d (bm_skip b) ret;
                 out \<leftarrow> mem_store out 0 data;
                 let b = b\<lparr>bm_length := bm_length b - ret\<rparr>;
                 if bio_flags bio AND BIO_FLAGS_MEM_RDONLY \<noteq> 0
                 then Some ((int ret, out), put_buf_mem a (b\<lparr>bm_skip := bm_skip b + ret\<rparr>) h)
                 else
                   do { rest \<leftarrow> mem_load d (bm_skip b + ret) (bm_length b);
                        d \<leftarrow> mem_store d (bm_skip b) rest;
                        Some ((int ret, out), put_buf_mem a (b\<lparr>bm_data := Some d\<rparr>) h) } }
          else if bm_length b = 0 then
            Some ((bio_num bio, out), if bio_num bio \<noteq> 0 then bio_put a (BIO_set_retry_read bio) h else h)
          else Some ((int ret, out), h) }"

definition bio_mem_write :: "heap_env \<Rightarrow> bio_ref \<Rightarrow> bytes \<Rightarrow> nat \<Rightarrow> int bio_op" where
  "bio_mem_write env a inp inl h =
     do { b \<leftarrow> buf_mem_at h a;
          bio \<leftarrow> bios h a;
          if bio_flags bio AND BIO_FLAGS_MEM_RDONLY \<noteq> 0 then Some (-1, h)
          else
            do { let h = bio_put a (BIO_clear_retry_flags bio) h;
                 let blen = to_int (bm_length b);
                 assert_that (blen \<ge> 0);
                 if int INT_MAX - blen < int inl then Some (-1, h)
                 else
                   do { let (n, b) = BUF_MEM_grow_clean env (nat blen + inl) b;
                        let h = put_buf_mem a b h;
                        if n \<noteq> nat blen + inl then Some (-1, h)
                        else
                          do { data \<leftarrow> mem_load inp 0 inl;
                               d \<leftarrow> bm_data b;
                               d \<leftarrow> mem_store d (bm_skip b + nat blen) data;
                               Some (int inl, put_buf_mem a (b\<lparr>bm_data := Some d\<rparr>) h) } } } }"

fun gets_scan :: "bytes \<Rightarrow> nat" where
  "gets_scan [] = 0"
| "gets_scan (c # p) = (if c = 0x0a then 1 else 1 + gets_scan p)"

definition mem_gets :: "bio_ref \<Rightarrow> bytes \<Rightarrow> int \<Rightarrow> (int \<times> bytes) bio_op" where
  "mem_gets a buf n h =
     do { b \<leftarrow> buf_mem_at h a;
          bio \<leftarrow> bios h a;
          let h = bio_put a (BIO_clear_retry_flags bio) h;
          let j = to_int (bm_length b);
          let j = (if n - 1 < j then n - 1 else j);
          if j \<le> 0 then
            do { buf \<leftarrow> (if n > 0 then mem_store buf 0 [0] else Some buf);
                 Some ((0, buf), h) }
          else
            do { d \<leftarrow> bm_data b;
                 p \<leftarrow> mem_load d (bm_skip b) (nat j);
                 ((i, buf), h) \<leftarrow> bio_mem_read a buf (gets_scan p) h;
                 buf \<leftarrow> (if i > 0 then mem_store buf (nat i) [0] else Some buf);
                 Some ((i, buf), h) } }"

definition mem_ctrl :: "bio_ref \<Rightarrow> int \<Rightarrow> int \<Rightarrow> ctrl_arg \<Rightarrow> (int \<times> ctrl_out) bio_op" where
  "mem_ctrl a cmd num ptr h =
     do { b \<leftarrow> buf_mem_at h a;
          bio \<leftarrow> bios h a;
          if cmd = BIO_CTRL_RESET then
            (case bm_data b of
               None \<Rightarrow> Some ((1, No_out), h)
             | Some d \<Rightarrow>
                 if bio_flags bio AND BIO_FLAGS_MEM_RDONLY \<noteq> 0
                 then Some ((1, No_out), put_buf_mem a
                        (b\<lparr>bm_skip := bm_skip b - (bm_max b - bm_length b), bm_length := bm_max b\<rparr>) h)
                 else
                   do { d \<leftarrow> mem_store d (bm_skip b) (replicate (bm_max b) 0);
                        Some ((1, No_out), put_buf_mem a (b\<lparr>bm_data := Some d, bm_length := 0\<rparr>) h) })
          else if cmd = BIO_CTRL_EOF then Some ((if bm_length b = 0 then 1 else 0, No_out), h)
          else if cmd = BIO_C_SET_BUF_MEM_EOF_RETURN then
            Some ((1, No_out), bio_put a (bio\<lparr>bio_num := num\<rparr>) h)
          else if cmd = BIO_CTRL_INFO then
            Some ((int (bm_length b),
              if ptr = Null_arg then No_out else Data_out (map_option (drop (bm_skip b)) (bm_data b))), h)
          else if cmd = BIO_C_SET_BUF_MEM then
            do { (_, h) \<leftarrow> mem_free a h;
                 bio \<leftarrow> bios h a;
                 Some ((1, No_out), bio_put a
                   (bio\<lparr>bio_shutdown := num,
                      bio_ptr := (case ptr of Buf_arg b \<Rightarrow> Some (Buf_mem b) | _ \<Rightarrow> None)\<rparr>) h) }
          else if cmd = BIO_C_GET_BUF_MEM_PTR then
            Some ((1, if ptr = Null_arg then No_out else Buf_out b), h)
          else if cmd = BIO_CTRL_GET_CLOSE then Some ((bio_shutdown bio, No_out), h)
          else if cmd = BIO_CTRL_SET_CLOSE then Some ((1, No_out), bio_put a (bio\<lparr>bio_shutdown := num\<rparr>) h)
          else if cmd = BIO_CTRL_WPENDING then Some ((0, No_out), h)
          else if cmd = BIO_CTRL_PENDING then Some ((int (bm_length b), No_out), h)
          else if cmd = BIO_CTRL_FLUSH then Some ((1, No_out), h)
          else Some ((0, No_out), h) }"

end
