(* ===== verification/Bio_Api.thy ===== *)
theory Bio_Api
  imports Bio_Pair Bio_Mem
begin

text \<open>
  \<open>crypto/bio/bio.c\<close>: creation, reference counts, chains and the calls through the method of a
  BIO, over the two methods of the development. A NULL pointer is \<open>None\<close>.
\<close>

section \<open>Reference counts\<close>

abbreviation (input) CRYPTO_REFCOUNT_MAX :: nat where
  "CRYPTO_REFCOUNT_MAX \<equiv> 0xffffffff"

definition CRYPTO_refcount_inc :: "nat \<Rightarrow> nat" where
  "CRYPTO_refcount_inc count = (if count \<noteq> CRYPTO_REFCOUNT_MAX then count + 1 else count)"

text \<open>\<open>None\<close> is \<open>abort\<close>.\<close>

definition CRYPTO_refcount_dec_and_test_zero :: "nat \<Rightarrow> (bool \<times> nat) option" where
  "CRYPTO_refcount_dec_and_test_zero count =
     (if count = 0 then None
      else if count = CRYPTO_REFCOUNT_MAX then Some (False, count)
      else let new_value = count - 1 in Some (new_value = 0, new_value))"

section \<open>Creation and chains\<close>

abbreviation (input) sizeof_BIO :: nat where
  "sizeof_BIO \<equiv> 72"

definition method_create :: "heap_env \<Rightarrow> BIO_METHOD \<Rightarrow> BIO \<Rightarrow> BIO option" where
  "method_create env m = (case m of methods_biop \<Rightarrow> bio_new env | mem_method \<Rightarrow> mem_new env)"

definition method_destroy :: "BIO_METHOD \<Rightarrow> bio_ref \<Rightarrow> unit bio_op" where
  "method_destroy m = (case m of methods_biop \<Rightarrow> bio_free | mem_method \<Rightarrow> mem_free)"

definition BIO_new :: "heap_env \<Rightarrow> BIO_METHOD \<Rightarrow> bio_ref option bio_op" where
  "BIO_new env m h =
     (case OPENSSL_malloc env sizeof_BIO of
        None \<Rightarrow> Some (None, h)
      | Some _ \<Rightarrow>
          let ret = \<lparr>bio_method = m, bio_init = False, bio_shutdown = 1, bio_flags = 0, bio_retry_reason = 0,
                     bio_num = 0, bio_references = 1, bio_ptr = None, next_bio = None, bio_num_read = 0,
                     bio_num_write = 0\<rparr>
          in case method_create env m ret of
               None \<Rightarrow> Some (None, h)
             | Some ret \<Rightarrow>
                 let a = bio_fresh h
                 in Some (Some a, bio_put a ret (h\<lparr>bio_fresh := a + 1\<rparr>)))"

definition BIO_pop :: "bio_ref option \<Rightarrow> bio_ref option bio_op" where
  "BIO_pop bio h =
     (case bio of
        None \<Rightarrow> Some (None, h)
      | Some a \<Rightarrow>
          do { b \<leftarrow> bios h a;
               Some (next_bio b, bio_put a (b\<lparr>next_bio := None\<rparr>) h) })"

partial_function (option) BIO_free :: "bio_ref option \<Rightarrow> bool bio_op" where
  "BIO_free bio h =
     (case bio of
        None \<Rightarrow> Some (True, h)
      | Some a \<Rightarrow>
          do { b \<leftarrow> bios h a;
               (zero, count) \<leftarrow> CRYPTO_refcount_dec_and_test_zero (bio_references b);
               let h = bio_put a (b\<lparr>bio_references := count\<rparr>) h;
               if \<not> zero then Some (False, h)
               else
                 do { (next, h) \<leftarrow> BIO_pop bio h;
                      (_, h) \<leftarrow> method_destroy (bio_method b) a h;
                      BIO_free next (h\<lparr>bios := (bios h)(a := None)\<rparr>) } })"

definition BIO_up_ref :: "bio_ref \<Rightarrow> bool bio_op" where
  "BIO_up_ref a h =
     do { b \<leftarrow> bios h a;
          Some (True, bio_put a (b\<lparr>bio_references := CRYPTO_refcount_inc (bio_references b)\<rparr>) h) }"

definition BIO_vfree :: "bio_ref option \<Rightarrow> unit bio_op" where
  "BIO_vfree bio h = do { (_, h) \<leftarrow> BIO_free bio h; Some ((), h) }"

definition BIO_free_all :: "bio_ref option \<Rightarrow> unit bio_op" where
  "BIO_free_all bio h = do { (_, h) \<leftarrow> BIO_free bio h; Some ((), h) }"

partial_function (option) last_bio_from :: "bio_ref \<Rightarrow> bio_heap \<Rightarrow> bio_ref option" where
  "last_bio_from a h =
     do { b \<leftarrow> bios h a;
          case next_bio b of None \<Rightarrow> Some a | Some n \<Rightarrow> last_bio_from n h }"

definition BIO_push :: "bio_ref option \<Rightarrow> bio_ref option \<Rightarrow> bio_ref option bio_op" where
  "BIO_push bio appended_bio h =
     (case bio of
        None \<Rightarrow> Some (None, h)
      | Some a \<Rightarrow>
          do { last_bio \<leftarrow> last_bio_from a h;
               b \<leftarrow> bios h last_bio;
               Some (bio, bio_put last_bio (b\<lparr>next_bio := appended_bio\<rparr>) h) })"

definition BIO_next :: "bio_ref option \<Rightarrow> bio_ref option bio_op" where
  "BIO_next bio h =
     (case bio of None \<Rightarrow> Some (None, h) | Some a \<Rightarrow> do { b \<leftarrow> bios h a; Some (next_bio b, h) })"

definition BIO_method_type :: "BIO \<Rightarrow> u32" where
  "BIO_method_type bio = (case bio_method bio of methods_biop \<Rightarrow> 19 OR 0x0400 | mem_method \<Rightarrow> 1 OR 0x0400)"

partial_function (option) find_type_from :: "u32 \<Rightarrow> u32 \<Rightarrow> bio_ref \<Rightarrow> bio_heap \<Rightarrow> bio_ref option option" where
  "find_type_from type low8 a h =
     do { bio \<leftarrow> bios h a;
          let method_type = BIO_method_type bio;
          if (if low8 = 0 then method_type AND type \<noteq> 0 else method_type = type) then Some (Some a)
          else case next_bio bio of None \<Rightarrow> Some None | Some n \<Rightarrow> find_type_from type low8 n h }"

definition BIO_find_type :: "bio_ref option \<Rightarrow> u32 \<Rightarrow> bio_ref option bio_op" where
  "BIO_find_type bio type h =
     (case bio of
        None \<Rightarrow> Some (None, h)
      | Some a \<Rightarrow> do { r \<leftarrow> find_type_from type (type AND 0xff) a h; Some (r, h) })"

definition BIO_copy_next_retry :: "bio_ref \<Rightarrow> unit bio_op" where
  "BIO_copy_next_retry a h =
     do { bio \<leftarrow> bios h a;
          let bio = BIO_clear_retry_flags bio;
          n \<leftarrow> next_bio bio;
          next \<leftarrow> bios (bio_put a bio h) n;
          let bio = BIO_set_flags bio (BIO_get_retry_flags next);
          Some ((), bio_put a (bio\<lparr>bio_retry_reason := bio_retry_reason next\<rparr>) h) }"

section \<open>Reading\<close>

definition method_bread :: "BIO_METHOD \<Rightarrow> bio_ref \<Rightarrow> bytes \<Rightarrow> nat \<Rightarrow> (int \<times> bytes) bio_op" where
  "method_bread m a buf len h =
     (case m of
        methods_biop \<Rightarrow>
          do { ((ret, buf), h) \<leftarrow> bio_read a (Some buf) len h;
               buf \<leftarrow> buf;
               Some ((ret, buf), h) }
      | mem_method \<Rightarrow> bio_mem_read a buf len h)"

definition BIO_read :: "bio_ref option \<Rightarrow> bytes \<Rightarrow> int \<Rightarrow> (int \<times> bytes) bio_op" where
  "BIO_read bio buf len h =
     (case bio of
        None \<Rightarrow> Some ((-2, buf), h)
      | Some a \<Rightarrow>
          do { b \<leftarrow> bios h a;
               if \<not> bio_init b then Some ((-2, buf), h)
               else if len \<le> 0 then Some ((0, buf), h)
               else
                 do { ((ret, buf), h) \<leftarrow> method_bread (bio_method b) a buf (nat len) h;
                      b \<leftarrow> bios h a;
                      Some ((ret, buf), if ret > 0
                        then bio_put a (b\<lparr>bio_num_read := bio_num_read b + of_int ret\<rparr>) h else h) } })"

definition BIO_gets :: "bio_ref option \<Rightarrow> bytes \<Rightarrow> int \<Rightarrow> (int \<times> bytes) bio_op" where
  "BIO_gets bio buf len h =
     (case bio of
        None \<Rightarrow> Some ((-2, buf), h)
      | Some a \<Rightarrow>
          do { b \<leftarrow> bios h a;
               if bio_method b \<noteq> mem_method then Some ((-2, buf), h)
               else if \<not> bio_init b then Some ((-2, buf), h)
               else if len \<le> 0 then Some ((0, buf), h)
               else
                 do { ((ret, buf), h) \<leftarrow> mem_gets a buf len h;
                      b \<leftarrow> bios h a;
                      Some ((ret, buf), if ret > 0
                        then bio_put a (b\<lparr>bio_num_read := bio_num_read b + of_int ret\<rparr>) h else h) } })"

text \<open>\<open>bio_read_full\<close> fills \<open>out\<close> from \<open>pos\<close> on: the result, \<open>eof_on_first_read\<close> and the array.\<close>

partial_function (option) bio_read_full_loop ::
  "bio_ref option \<Rightarrow> bytes \<Rightarrow> nat \<Rightarrow> nat \<Rightarrow> bool \<Rightarrow> (bool \<times> bool \<times> bytes) bio_op" where
  "bio_read_full_loop bio out pos len first_read h =
     (if len > 0 then
        do { let todo = (if len \<le> INT_MAX then len else INT_MAX);
             ((ret, data), h) \<leftarrow> BIO_read bio (drop pos out) (int todo) h;
             out \<leftarrow> mem_store out pos data;
             if ret \<le> 0 then Some ((False, first_read \<and> ret = 0, out), h)
             else bio_read_full_loop bio out (pos + nat ret) (nat ((int len - ret) mod 2 ^ 64)) False h }
      else Some ((True, False, out), h))"

definition bio_read_full :: "bio_ref option \<Rightarrow> bytes \<Rightarrow> nat \<Rightarrow> nat \<Rightarrow> (bool \<times> bool \<times> bytes) bio_op" where
  "bio_read_full bio out pos len h = bio_read_full_loop bio out pos len True h"

text \<open>
  The loop of \<open>bio_read_all\<close>: \<open>done\<close> and \<open>len\<close> are \<open>size_t\<close>. The result is the block and the
  length reported.
\<close>

partial_function (option) bio_read_all_loop ::
  "heap_env \<Rightarrow> bio_ref option \<Rightarrow> bytes \<Rightarrow> nat \<Rightarrow> nat \<Rightarrow> nat \<Rightarrow> (bytes \<times> nat) option bio_op" where
  "bio_read_all_loop env bio out done len max_len h =
     (if done = len then Some (None, h)
      else
        do { let todo = nat ((int len - int done) mod 2 ^ 64);
             assert_that (todo < INT_MAX);
             ((n, data), h) \<leftarrow> BIO_read bio (drop done out) (int todo) h;
             out \<leftarrow> mem_store out done data;
             if n = 0 then Some (Some (out, done), h)
             else if n = -1 then Some (None, h)
             else
               do { let done = nat ((int done + n) mod 2 ^ 64);
                    if len < max_len \<and> nat ((int len - int done) mod 2 ^ 64) < 4096 div 2
                    then
                      let len = (len + 4096) mod 2 ^ 64;
                          len = (if len < 4096 \<or> len > max_len then max_len else len)
                      in case OPENSSL_realloc env (Some out) len of
                           None \<Rightarrow> Some (None, h)
                         | Some out \<Rightarrow> bio_read_all_loop env bio out done len max_len h
                    else bio_read_all_loop env bio out done len max_len h } })"

definition bio_read_all ::
  "heap_env \<Rightarrow> bio_ref option \<Rightarrow> bytes \<Rightarrow> nat \<Rightarrow> (bytes \<times> nat) option bio_op" where
  "bio_read_all env bio prefix max_len h =
     (let prefix_len = length prefix;
          len = (prefix_len + 4096) mod 2 ^ 64;
          len = (if len > max_len then max_len else len)
      in if len < prefix_len then Some (None, h)
         else
           case OPENSSL_malloc env len of
             None \<Rightarrow> Some (None, h)
           | Some out \<Rightarrow>
               do { out \<leftarrow> mem_store out 0 prefix;
                    bio_read_all_loop env bio out prefix_len len max_len h })"

definition read_asn1_contents ::
  "heap_env \<Rightarrow> bytes \<Rightarrow> bio_ref option \<Rightarrow> nat \<Rightarrow> nat \<Rightarrow> nat \<Rightarrow> (bytes \<times> nat) option bio_op" where
  "read_asn1_contents env header bio max_len len header_len h =
     (if (len + header_len) mod 2 ^ 64 < len \<or> (len + header_len) mod 2 ^ 64 > max_len \<or> len > INT_MAX
      then Some (None, h)
      else
        let len = (len + header_len) mod 2 ^ 64
        in case OPENSSL_malloc env len of
             None \<Rightarrow> Some (None, h)
           | Some out \<Rightarrow>
               do { out \<leftarrow> mem_store out 0 (take header_len header);
                    ((r, _, out), h) \<leftarrow> bio_read_full bio out header_len (len - header_len) h;
                    Some (if r then Some (out, len) else None, h) })"

text \<open>
  \<open>BIO_read_asn1\<close> over a header of six bytes whose initial contents are arbitrary: the element,
  or \<open>None\<close> for an error.
\<close>

definition BIO_read_asn1 ::
  "heap_env \<Rightarrow> bytes \<Rightarrow> bio_ref option \<Rightarrow> nat \<Rightarrow> (bytes \<times> nat) option bio_op" where
  "BIO_read_asn1 env header bio max_len h =
     do { ((r, eof_on_first_read, header), h) \<leftarrow> bio_read_full bio header 0 2 h;
          if \<not> r then Some (None, h)
          else
            do { let tag = header ! 0;
                 let length_byte = header ! 1;
                 if tag AND 0x1f = 0x1f then Some (None, h)
                 else if length_byte AND 0x80 = 0
                 then read_asn1_contents env header bio max_len (unat length_byte) 2 h
                 else
                   do { let num_bytes = unat (length_byte AND 0x7f);
                        if tag AND 0x20 \<noteq> 0 \<and> num_bytes = 0
                        then bio_read_all env bio (take 2 header) max_len h
                        else if num_bytes = 0 \<or> num_bytes > 4 then Some (None, h)
                        else
                          do { ((r, _, header), h) \<leftarrow> bio_read_full bio header 2 num_bytes h;
                               if \<not> r then Some (None, h)
                               else
                                 do { let len32 = foldl (\<lambda>len32 b. push_bit 8 len32 OR ucast b) (0 :: u32)
                                        (take num_bytes (drop 2 header));
                                      if len32 < 128 then Some (None, h)
                                      else if drop_bit ((num_bytes - 1) * 8) len32 = 0 then Some (None, h)
                                      else read_asn1_contents env header bio max_len (unat len32) (2 + num_bytes) h
                                    } } } } }"

section \<open>Writing\<close>

definition method_bwrite :: "heap_env \<Rightarrow> BIO_METHOD \<Rightarrow> bio_ref \<Rightarrow> bytes \<Rightarrow> nat \<Rightarrow> int bio_op" where
  "method_bwrite env m a inp inl h =
     (case m of methods_biop \<Rightarrow> bio_write a (Some inp) inl h | mem_method \<Rightarrow> bio_mem_write env a inp inl h)"

definition BIO_write :: "heap_env \<Rightarrow> bio_ref option \<Rightarrow> bytes \<Rightarrow> int \<Rightarrow> int bio_op" where
  "BIO_write env bio inp inl h =
     (case bio of
        None \<Rightarrow> Some (-2, h)
      | Some a \<Rightarrow>
          do { b \<leftarrow> bios h a;
               if \<not> bio_init b then Some (-2, h)
               else if inl \<le> 0 then Some (0, h)
               else
                 do { (ret, h) \<leftarrow> method_bwrite env (bio_method b) a inp (nat inl) h;
                      b \<leftarrow> bios h a;
                      Some (ret, if ret > 0
                        then bio_put a (b\<lparr>bio_num_write := bio_num_write b + of_int ret\<rparr>) h else h) } })"

partial_function (option) BIO_write_all :: "heap_env \<Rightarrow> bio_ref option \<Rightarrow> bytes \<Rightarrow> bool bio_op" where
  "BIO_write_all env bio data h =
     (if length data > 0 then
        do { (ret, h) \<leftarrow> BIO_write env bio data (if length data > INT_MAX then int INT_MAX else int (length data)) h;
             if ret \<le> 0 then Some (False, h)
             else
               do { assert_that (nat ret \<le> length data);
                    BIO_write_all env bio (drop (nat ret) data) h } }
      else Some (True, h))"

definition BIO_puts :: "heap_env \<Rightarrow> bio_ref option \<Rightarrow> bytes \<Rightarrow> int bio_op" where
  "BIO_puts env bio str h =
     do { n \<leftarrow> c_strlen str;
          BIO_write env bio str (to_int n) h }"

primrec BIO_indent_loop :: "heap_env \<Rightarrow> bio_ref option \<Rightarrow> nat \<Rightarrow> bool bio_op" where
  "BIO_indent_loop env bio 0 h = Some (True, h)"
| "BIO_indent_loop env bio (Suc indent) h =
     do { (r, h) \<leftarrow> BIO_puts env bio [0x20, 0] h;
          if r \<noteq> 1 then Some (False, h) else BIO_indent_loop env bio indent h }"

definition BIO_indent :: "heap_env \<Rightarrow> bio_ref option \<Rightarrow> nat \<Rightarrow> nat \<Rightarrow> bool bio_op" where
  "BIO_indent env bio indent max_indent =
     (let indent = (if indent > max_indent then max_indent else indent)
      in BIO_indent_loop env bio indent)"

section \<open>Control\<close>

definition method_ctrl :: "BIO_METHOD \<Rightarrow> bio_ref \<Rightarrow> int \<Rightarrow> int \<Rightarrow> ctrl_arg \<Rightarrow> (int \<times> ctrl_out) bio_op" where
  "method_ctrl m = (case m of methods_biop \<Rightarrow> bio_ctrl | mem_method \<Rightarrow> mem_ctrl)"

definition BIO_ctrl :: "bio_ref option \<Rightarrow> int \<Rightarrow> int \<Rightarrow> ctrl_arg \<Rightarrow> (int \<times> ctrl_out) bio_op" where
  "BIO_ctrl bio cmd larg parg h =
     (case bio of
        None \<Rightarrow> Some ((0, No_out), h)
      | Some a \<Rightarrow> do { b \<leftarrow> bios h a; method_ctrl (bio_method b) a cmd larg parg h })"

text \<open>A request for its number alone.\<close>

definition BIO_request :: "bio_ref option \<Rightarrow> int \<Rightarrow> int \<Rightarrow> int bio_op" where
  "BIO_request bio cmd larg h = do { ((r, _), h) \<leftarrow> BIO_ctrl bio cmd larg Null_arg h; Some (r, h) }"

definition BIO_flush :: "bio_ref option \<Rightarrow> int bio_op" where
  "BIO_flush bio = BIO_request bio BIO_CTRL_FLUSH 0"

definition BIO_reset :: "bio_ref option \<Rightarrow> int bio_op" where
  "BIO_reset bio = BIO_request bio BIO_CTRL_RESET 0"

definition BIO_eof :: "bio_ref option \<Rightarrow> int bio_op" where
  "BIO_eof bio = BIO_request bio BIO_CTRL_EOF 0"

definition BIO_pending :: "bio_ref option \<Rightarrow> nat bio_op" where
  "BIO_pending bio h =
     do { (r, h) \<leftarrow> BIO_request bio BIO_CTRL_PENDING 0 h;
          assert_that (r \<ge> 0);
          Some (nat r, h) }"

definition BIO_ctrl_pending :: "bio_ref option \<Rightarrow> nat bio_op" where
  "BIO_ctrl_pending bio = BIO_pending bio"

definition BIO_wpending :: "bio_ref option \<Rightarrow> nat bio_op" where
  "BIO_wpending bio h =
     do { (r, h) \<leftarrow> BIO_request bio BIO_CTRL_WPENDING 0 h;
          assert_that (r \<ge> 0);
          Some (nat r, h) }"

definition BIO_set_close :: "bio_ref option \<Rightarrow> int \<Rightarrow> int bio_op" where
  "BIO_set_close bio close_flag = BIO_request bio BIO_CTRL_SET_CLOSE close_flag"

definition BIO_ctrl_get_read_request :: "bio_ref option \<Rightarrow> int bio_op" where
  "BIO_ctrl_get_read_request bio = BIO_request bio BIO_C_GET_READ_REQUEST 0"

definition BIO_ctrl_get_write_guarantee :: "bio_ref option \<Rightarrow> int bio_op" where
  "BIO_ctrl_get_write_guarantee bio = BIO_request bio BIO_C_GET_WRITE_GUARANTEE 0"

definition BIO_shutdown_wr :: "bio_ref option \<Rightarrow> int bio_op" where
  "BIO_shutdown_wr bio = BIO_request bio BIO_C_SHUTDOWN_WR 0"

definition BIO_number_read :: "BIO \<Rightarrow> u64" where
  "BIO_number_read bio = bio_num_read bio"

definition BIO_number_written :: "BIO \<Rightarrow> u64" where
  "BIO_number_written bio = bio_num_write bio"

section \<open>Constructors of the two kinds\<close>

definition BIO_new_bio_pair :: "heap_env \<Rightarrow> nat \<Rightarrow> nat \<Rightarrow> (bio_ref \<times> bio_ref) option bio_op" where
  "BIO_new_bio_pair env writebuf1_len writebuf2_len h =
     do { (bio1, h) \<leftarrow> BIO_new env methods_biop h;
          (bio2, h) \<leftarrow> BIO_new env methods_biop h;
          (made, h) \<leftarrow> (case (bio1, bio2) of
                           (Some a, Some b) \<Rightarrow> bio_make_pair env a b writebuf1_len writebuf2_len h
                         | _ \<Rightarrow> Some (False, h));
          if \<not> made then
            do { (_, h) \<leftarrow> BIO_free bio1 h;
                 (_, h) \<leftarrow> BIO_free bio2 h;
                 Some (None, h) }
          else do { a \<leftarrow> bio1; b \<leftarrow> bio2; Some (Some (a, b), h) } }"

definition BIO_new_mem_buf :: "heap_env \<Rightarrow> bytes option \<Rightarrow> int \<Rightarrow> bio_ref option bio_op" where
  "BIO_new_mem_buf env buf len h =
     do { n \<leftarrow> (if len < 0 then Option.bind buf c_strlen else Some (nat len));
          if buf = None \<and> len \<noteq> 0 then Some (None, h)
          else
            do { (ret, h) \<leftarrow> BIO_new env mem_method h;
                 case ret of
                   None \<Rightarrow> Some (None, h)
                 | Some a \<Rightarrow>
                     do { b \<leftarrow> buf_mem_at h a;
                          let h = put_buf_mem a (b\<lparr>bm_data := buf, bm_length := n, bm_max := n\<rparr>) h;
                          bio \<leftarrow> bios h a;
                          Some (ret, bio_put a (bio\<lparr>bio_flags := bio_flags bio OR BIO_FLAGS_MEM_RDONLY,
                                                  bio_num := 0\<rparr>) h) } } }"

definition BIO_mem_contents :: "bio_ref \<Rightarrow> bio_heap \<Rightarrow> (bytes option \<times> nat) option option" where
  "BIO_mem_contents a h =
     do { bio \<leftarrow> bios h a;
          if bio_method bio \<noteq> mem_method then Some None
          else
            do { b \<leftarrow> buf_mem_at h a;
                 Some (Some (map_option (drop (bm_skip b)) (bm_data b), bm_length b)) } }"

definition BIO_get_mem_data :: "bio_ref option \<Rightarrow> (int \<times> ctrl_out) bio_op" where
  "BIO_get_mem_data bio = BIO_ctrl bio BIO_CTRL_INFO 0 Out_arg"

definition BIO_get_mem_ptr :: "bio_ref option \<Rightarrow> (int \<times> ctrl_out) bio_op" where
  "BIO_get_mem_ptr bio = BIO_ctrl bio BIO_C_GET_BUF_MEM_PTR 0 Out_arg"

definition BIO_set_mem_buf :: "bio_ref option \<Rightarrow> BUF_MEM \<Rightarrow> int \<Rightarrow> (int \<times> ctrl_out) bio_op" where
  "BIO_set_mem_buf bio b take_ownership = BIO_ctrl bio BIO_C_SET_BUF_MEM take_ownership (Buf_arg b)"

definition BIO_set_mem_eof_return :: "bio_ref option \<Rightarrow> int \<Rightarrow> int bio_op" where
  "BIO_set_mem_eof_return bio eof_value = BIO_request bio BIO_C_SET_BUF_MEM_EOF_RETURN eof_value"

end
