(* ===== verification/Bio_Joined.thy ===== *)
theory Bio_Joined
  imports Bio_Api
begin

text \<open>
  The BIO pair through its public operations: the queues of a joined pair and what each
  operation does to them.
\<close>


section \<open>A joined pair\<close>

definition pair_end :: "bio_heap \<Rightarrow> bio_ref \<Rightarrow> bio_ref \<Rightarrow> BIO \<Rightarrow> bio_bio_st \<Rightarrow> bool" where
  "pair_end h a p bio st \<longleftrightarrow> bios h a = Some bio \<and> bio_method bio = methods_biop \<and> bio_init bio \<and>
     bio_ptr bio = Some (Bio_bio st) \<and> bb_peer st = Some p \<and> ring_ok st"

definition joined :: "bio_heap \<Rightarrow> bio_ref \<Rightarrow> bio_ref \<Rightarrow> bool" where
  "joined h a b \<longleftrightarrow> a \<noteq> b \<and> (\<exists>bio st. pair_end h a b bio st) \<and> (\<exists>bio st. pair_end h b a bio st)"

text \<open>
  What a user of the pair sees of one end: the bytes it wrote that are not yet read, whether it
  has shut down writing, and the size of its buffer.
\<close>

definition pair_queue :: "bio_heap \<Rightarrow> bio_ref \<Rightarrow> bytes" where
  "pair_queue h a = (case pair_at h a of None \<Rightarrow> [] | Some st \<Rightarrow> ring_bytes st)"

definition pair_closed :: "bio_heap \<Rightarrow> bio_ref \<Rightarrow> bool" where
  "pair_closed h a = (case pair_at h a of None \<Rightarrow> True | Some st \<Rightarrow> bb_closed st)"

definition pair_size :: "bio_heap \<Rightarrow> bio_ref \<Rightarrow> nat" where
  "pair_size h a = (case pair_at h a of None \<Rightarrow> 0 | Some st \<Rightarrow> bb_size st)"

definition same_end :: "bio_heap \<Rightarrow> bio_heap \<Rightarrow> bio_ref \<Rightarrow> bool" where
  "same_end h h' a \<longleftrightarrow> pair_queue h' a = pair_queue h a \<and> pair_closed h' a = pair_closed h a \<and> pair_size h' a = pair_size h a"

lemma joined_sym: "joined h a b \<Longrightarrow> joined h b a"
  by (auto simp: joined_def)

lemma bio_put_bios [simp]: "bios (bio_put a x h) = (bios h)(a \<mapsto> x)" "bio_fresh (bio_put a x h) = bio_fresh h"
  by (simp_all add: bio_put_def)

lemma put_pair_bios [simp]:
  "bios h a = Some bio \<Longrightarrow> bios (put_pair a st h) = (bios h)(a \<mapsto> bio\<lparr>bio_ptr := Some (Bio_bio st)\<rparr>)"
  by (simp add: put_pair_def)

lemma pair_at_put [simp]:
  "pair_at (bio_put a x h) c = (if c = a then case bio_ptr x of Some (Bio_bio b) \<Rightarrow> Some b | _ \<Rightarrow> None else pair_at h c)"
  by (simp add: pair_at_def)

lemma pair_at_put_pair [simp]:
  "bios h a = Some bio \<Longrightarrow> pair_at (put_pair a st h) c = (if c = a then Some st else pair_at h c)"
  by (simp add: pair_at_def)

lemma pair_end_at: "pair_end h a p bio st \<Longrightarrow> pair_at h a = Some st"
  by (simp add: pair_end_def pair_at_def)

lemma pair_end_view:
  assumes "pair_end h a p bio st"
  shows "pair_queue h a = ring_bytes st" "pair_closed h a = bb_closed st" "pair_size h a = bb_size st"
    "length (pair_queue h a) = bb_len st"
  using pair_end_at [OF assms] assms
  by (simp_all add: pair_queue_def pair_closed_def pair_size_def length_ring_bytes pair_end_def)

lemma flags_kept [simp]:
  "bio_method (BIO_clear_retry_flags x) = bio_method x" "bio_init (BIO_clear_retry_flags x) = bio_init x"
  "bio_ptr (BIO_clear_retry_flags x) = bio_ptr x"
  "bio_method (BIO_set_retry_read x) = bio_method x" "bio_init (BIO_set_retry_read x) = bio_init x"
  "bio_ptr (BIO_set_retry_read x) = bio_ptr x"
  "bio_method (BIO_set_retry_write x) = bio_method x" "bio_init (BIO_set_retry_write x) = bio_init x"
  "bio_ptr (BIO_set_retry_write x) = bio_ptr x"
  by (simp_all add: BIO_clear_retry_flags_def BIO_set_retry_read_def BIO_set_retry_write_def)

lemma retry_flags:
  "BIO_should_read (BIO_set_retry_read x) \<noteq> 0" "BIO_should_retry (BIO_set_retry_read x) \<noteq> 0"
  "BIO_should_write (BIO_set_retry_write x) \<noteq> 0" "BIO_should_retry (BIO_set_retry_write x) \<noteq> 0"
  "BIO_should_retry (BIO_clear_retry_flags x) = 0"
proof -
  note defs = BIO_should_read_def BIO_should_write_def BIO_should_retry_def BIO_test_flags_def BIO_set_retry_read_def
    BIO_set_retry_write_def BIO_clear_retry_flags_def kRetryFlags_def BIO_FLAGS_RWS_def BIO_FLAGS_READ_def BIO_FLAGS_WRITE_def
    BIO_FLAGS_SHOULD_RETRY_def BIO_FLAGS_IO_SPECIAL_def
  have b: "w = (0 :: u32) \<Longrightarrow> \<not> bit w n" for w n by simp
  show "BIO_should_read (BIO_set_retry_read x) \<noteq> 0" by (auto simp: defs dest!: b [where n = 0] simp: bit_simps)
  show "BIO_should_retry (BIO_set_retry_read x) \<noteq> 0" by (auto simp: defs dest!: b [where n = 3] simp: bit_simps)
  show "BIO_should_write (BIO_set_retry_write x) \<noteq> 0" by (auto simp: defs dest!: b [where n = 1] simp: bit_simps)
  show "BIO_should_retry (BIO_set_retry_write x) \<noteq> 0" by (auto simp: defs dest!: b [where n = 3] simp: bit_simps)
  show "BIO_should_retry (BIO_clear_retry_flags x) = 0"
    by (simp add: defs and.assoc)
qed

lemma ring_fields [simp]:
  "ring_ok (b\<lparr>bb_request := r\<rparr>) = ring_ok b" "ring_ok (b\<lparr>bb_closed := c\<rparr>) = ring_ok b"
  "ring_bytes (b\<lparr>bb_request := r\<rparr>) = ring_bytes b" "ring_bytes (b\<lparr>bb_closed := c\<rparr>) = ring_bytes b"
  by (simp_all add: ring_ok_def ring_bytes_def split: option.split)

lemma BIO_read_joined:
  assumes j: "joined h a b" and n: "0 < n" "n \<le> length buf"
  obtains h' where
    "BIO_read (Some a) buf (int n) h =
       Some ((if pair_queue h b \<noteq> [] then int (min n (length (pair_queue h b)))
              else if pair_closed h b then 0 else -1,
              mem_write buf 0 (take n (pair_queue h b))), h')"
    "joined h' a b" "same_end h h' a" "pair_queue h' b = drop n (pair_queue h b)"
    "pair_closed h' b = pair_closed h b" "pair_size h' b = pair_size h b"
proof -
  obtain A sa B sb where ends: "a \<noteq> b" "pair_end h a b A sa" "pair_end h b a B sb"
    using j by (auto simp: joined_def)
  have A: "bios h a = Some A" "bio_method A = methods_biop" "bio_init A" "bio_ptr A = Some (Bio_bio sa)" "bb_peer sa = Some b" "ring_ok sa"
    and B: "bios h b = Some B" "bio_method B = methods_biop" "bio_init B" "bio_ptr B = Some (Bio_bio sb)" "bb_peer sb = Some a" "ring_ok sb"
    using ends by (simp_all add: pair_end_def)
  note at = pair_end_at [OF ends(2)] pair_end_at [OF ends(3)]
  note view = pair_end_view [OF ends(2)] pair_end_view [OF ends(3)]
  have buf: "bb_buf sb \<noteq> None" using B(6) by (auto elim: ring_okE)
  note defs = BIO_read_def method_bread_def bio_read_def assert_that_def Let_def
  show ?thesis
  proof (cases "bb_len sb = 0")
    case True
    then have q: "pair_queue h b = []" using view by simp
    show ?thesis
    proof (cases "bb_closed sb")
      case c: True
      show ?thesis
        by (rule that [of "put_pair b (sb\<lparr>bb_request := 0\<rparr>) (bio_put a (BIO_clear_retry_flags A) h)"])
          (use c True q ends A B at view buf n in \<open>auto simp: defs joined_def pair_end_def same_end_def
            pair_queue_def pair_closed_def pair_size_def\<close>)
    next
      case c: False
      show ?thesis
        by (rule that [of "put_pair b (sb\<lparr>bb_request := (if n \<le> bb_size sb then n else bb_size sb)\<rparr>)
              (bio_put a (BIO_set_retry_read (BIO_clear_retry_flags A)) (put_pair b (sb\<lparr>bb_request := 0\<rparr>)
                (bio_put a (BIO_clear_retry_flags A) h)))"])
          (use c True q ends A B at view buf n in \<open>auto simp: defs joined_def pair_end_def same_end_def
            pair_queue_def pair_closed_def pair_size_def\<close>)
    qed
  next
    case False
    define k where "k = min n (bb_len sb)"
    define sb' where "sb' = sb\<lparr>bb_request := 0, bb_len := bb_len sb - k,
      bb_offset := (if bb_len sb = k then 0 else (bb_offset sb + k) mod bb_size sb)\<rparr>"
    have k: "0 < k" "k \<le> bb_len sb" "k \<le> length buf" "(if bb_len sb < n then bb_len sb else n) = k"
      using False n by (auto simp: k_def)
    have take_k: "take n (pair_queue h b) = take k (ring_bytes sb)" "drop n (pair_queue h b) = drop k (ring_bytes sb)"
      using view by (simp_all add: k_def min_def)
    have loop: "bio_read_loop (sb\<lparr>bb_request := 0\<rparr>) buf 0 k = Some (sb', mem_write buf 0 (take k (ring_bytes sb)))"
      using bio_read_loop_result [of "sb\<lparr>bb_request := 0\<rparr>" k 0 buf] k B(6) by (cases "bb_len sb = k"; simp add: sb'_def)
    have after: "ring_ok sb'" "ring_bytes sb' = drop k (ring_bytes sb)" "bb_closed sb' = bb_closed sb" "bb_size sb' = bb_size sb"
        "bb_peer sb' = bb_peer sb"
      using ring_after_read [of "sb\<lparr>bb_request := 0\<rparr>" k] k B(6) by (cases "bb_len sb = k"; simp add: sb'_def)+
    let ?h = "put_pair b sb' (put_pair b (sb\<lparr>bb_request := 0\<rparr>) (bio_put a (BIO_clear_retry_flags A) h))"
    have q: "pair_queue h b \<noteq> []" using False view by auto
    show ?thesis
    proof (rule that [of "bio_put a ((BIO_clear_retry_flags A)\<lparr>bio_num_read := bio_num_read A + of_nat k\<rparr>) ?h"])
      show "BIO_read (Some a) buf (int n) h = Some ((if pair_queue h b \<noteq> [] then int (min n (length (pair_queue h b)))
              else if pair_closed h b then 0 else -1, mem_write buf 0 (take n (pair_queue h b))),
          bio_put a ((BIO_clear_retry_flags A)\<lparr>bio_num_read := bio_num_read A + of_nat k\<rparr>) ?h)"
        using q False ends(1) A B at buf n k take_k loop view
        by (cases "bb_len sb < n") (simp_all add: defs, simp_all add: BIO_clear_retry_flags_def)
    qed (use ends A B at view take_k after q in \<open>auto simp: joined_def pair_end_def same_end_def
            pair_queue_def pair_closed_def pair_size_def\<close>)
  qed
qed

lemma BIO_write_joined:
  assumes j: "joined h a b" and n: "0 < n" "n \<le> length data"
  obtains h' where
    "BIO_write env (Some a) data (int n) h =
       Some (if pair_closed h a \<or> length (pair_queue h a) = pair_size h a then -1
             else int (min n (pair_size h a - length (pair_queue h a))), h')"
    "joined h' a b" "same_end h h' b"
    "pair_queue h' a = pair_queue h a @
       (if pair_closed h a then [] else take (pair_size h a - length (pair_queue h a)) (take n data))"
    "pair_closed h' a = pair_closed h a" "pair_size h' a = pair_size h a"
proof -
  obtain A sa B sb where ends: "a \<noteq> b" "pair_end h a b A sa" "pair_end h b a B sb"
    using j by (auto simp: joined_def)
  have A: "bios h a = Some A" "bio_method A = methods_biop" "bio_init A" "bio_ptr A = Some (Bio_bio sa)" "bb_peer sa = Some b" "ring_ok sa"
    and B: "bios h b = Some B" "bio_method B = methods_biop" "bio_init B" "bio_ptr B = Some (Bio_bio sb)" "bb_peer sb = Some a" "ring_ok sb"
    using ends by (simp_all add: pair_end_def)
  note at = pair_end_at [OF ends(2)] pair_end_at [OF ends(3)]
  note view = pair_end_view [OF ends(2)] pair_end_view [OF ends(3)]
  have buf: "bb_buf sa \<noteq> None" "bb_len sa \<le> bb_size sa" using A(6) by (auto elim: ring_okE)
  note defs = BIO_write_def method_bwrite_def bio_write_def assert_that_def Let_def
  let ?h0 = "put_pair a (sa\<lparr>bb_request := 0\<rparr>) (bio_put a (BIO_clear_retry_flags A) h)"
  show ?thesis
  proof (cases "bb_closed sa")
    case True
    show ?thesis
      by (rule that [of ?h0])
        (use True ends A B at view buf n in \<open>auto simp: defs joined_def pair_end_def same_end_def
          pair_queue_def pair_closed_def pair_size_def\<close>)
  next
    case c: False
    show ?thesis
    proof (cases "bb_len sa = bb_size sa")
      case True
      show ?thesis
        by (rule that [of "bio_put a (BIO_set_retry_write ((BIO_clear_retry_flags A)\<lparr>bio_ptr := Some (Bio_bio (sa\<lparr>bb_request := 0\<rparr>))\<rparr>)) ?h0"])
          (use True c ends A B at view buf n in \<open>auto simp: defs joined_def pair_end_def same_end_def
            pair_queue_def pair_closed_def pair_size_def\<close>)
    next
      case False
      define k where "k = min n (bb_size sa - bb_len sa)"
      have k: "0 < k" "bb_len sa + k \<le> bb_size sa" "k \<le> length data"
          "(if bb_size sa - bb_len sa < n then bb_size sa - bb_len sa else n) = k"
        using False n buf(2) by (auto simp: k_def)
      obtain d where d: "bio_write_loop (sa\<lparr>bb_request := 0\<rparr>) data 0 k =
          Some (sa\<lparr>bb_request := 0, bb_buf := Some d, bb_len := bb_len sa + k\<rparr>)"
        "length d = bb_size sa" "take (bb_len sa + k) (rotate (bb_offset sa) d) = ring_bytes sa @ take k data"
        using bio_write_loop_result [of "sa\<lparr>bb_request := 0\<rparr>" k 0 data] k A(6) by auto
      define sa' where "sa' = sa\<lparr>bb_request := 0, bb_buf := Some d, bb_len := bb_len sa + k\<rparr>"
      have after: "ring_ok sa'" "ring_bytes sa' = ring_bytes sa @ take k data" "bb_closed sa' = bb_closed sa"
          "bb_size sa' = bb_size sa" "bb_peer sa' = bb_peer sa"
        using A(6) d k by (auto simp: sa'_def ring_ok_def ring_bytes_def split: option.splits)
      have take_k: "take (pair_size h a - length (pair_queue h a)) (take n data) = take k data"
        using view by (simp add: k_def min.commute)
      note loop = d(1) [folded sa'_def]
      show ?thesis
      proof (rule that [of "bio_put a ((BIO_clear_retry_flags A)\<lparr>bio_ptr := Some (Bio_bio sa'),
            bio_num_write := bio_num_write A + of_nat k\<rparr>) (put_pair a sa' ?h0)"])
        show "BIO_write env (Some a) data (int n) h =
          Some (if pair_closed h a \<or> length (pair_queue h a) = pair_size h a then -1
             else int (min n (pair_size h a - length (pair_queue h a))),
            bio_put a ((BIO_clear_retry_flags A)\<lparr>bio_ptr := Some (Bio_bio sa'),
            bio_num_write := bio_num_write A + of_nat k\<rparr>) (put_pair a sa' ?h0))"
          using c False ends(1) A B at buf n k view loop
          by (cases "bb_size sa - bb_len sa < n") (simp_all add: defs k_def [symmetric], simp_all add: BIO_clear_retry_flags_def)
      qed (use c ends A B at view take_k after in \<open>auto simp: joined_def pair_end_def same_end_def
          pair_queue_def pair_closed_def pair_size_def\<close>)
    qed
  qed
qed

section \<open>Making and closing a pair\<close>

definition biop_bio :: BIO where
  "biop_bio = \<lparr>bio_method = methods_biop, bio_init = False, bio_shutdown = 1, bio_flags = 0, bio_retry_reason = 0,
     bio_num = 0, bio_references = 1, bio_ptr = Some (Bio_bio \<lparr>bb_peer = None, bb_closed = False, bb_len = 0,
       bb_offset = 0, bb_size = 17 * 1024, bb_buf = None, bb_request = 0\<rparr>), next_bio = None, bio_num_read = 0,
     bio_num_write = 0\<rparr>"

lemma OPENSSL_malloc_small: "n + 8 < 2 ^ 64 \<Longrightarrow>
    OPENSSL_malloc env n = (if can_alloc env (n + 8) then Some (map (junk env) [0..<n]) else None)"
  by (simp add: OPENSSL_malloc_eq Let_def)

lemma BIO_new_biop:
  "BIO_new env methods_biop h =
    (if can_alloc env 80 \<and> can_alloc env 64
     then Some (Some (bio_fresh h), bio_put (bio_fresh h) biop_bio (h\<lparr>bio_fresh := bio_fresh h + 1\<rparr>))
     else Some (None, h))"
  by (simp add: BIO_new_def method_create_def bio_new_def OPENSSL_malloc_small biop_bio_def Let_def)

lemma BIO_free_unpaired:
  assumes "bios h a = Some bio" "bio_references bio = 1" "bio_method bio = methods_biop" "next_bio bio = None"
    "bio_ptr bio = Some (Bio_bio st)" "bb_peer st = None"
  obtains h' where "BIO_free (Some a) h = Some (True, h')" "\<And>c. c \<noteq> a \<Longrightarrow> bios h' c = bios h c"
  using assms
  by (subst (asm) BIO_free.simps, subst (asm) BIO_free.simps)
    (simp add: CRYPTO_refcount_dec_and_test_zero_def Let_def BIO_pop_def method_destroy_def bio_free_def)

lemma BIO_free_None [simp]: "BIO_free None h = Some (True, h)"
  by (simp add: BIO_free.simps)

definition pair_buf_size :: "nat \<Rightarrow> nat" where
  "pair_buf_size w = (if w = 0 then 17 * 1024 else w)"

lemma pair_buffer_new:
  assumes "w < 2 ^ 63" "bb_buf b = None" "bb_size b = 17 * 1024"
  shows "pair_buffer env w b =
    (if can_alloc env (pair_buf_size w + 8)
     then (True, b\<lparr>bb_size := pair_buf_size w, bb_buf := Some (map (junk env) [0..<pair_buf_size w]), bb_len := 0, bb_offset := 0\<rparr>)
     else (False, b\<lparr>bb_size := pair_buf_size w\<rparr>))"
proof -
  have "OPENSSL_malloc env (pair_buf_size w) = (if can_alloc env (pair_buf_size w + 8)
      then Some (map (junk env) [0..<pair_buf_size w]) else None)"
    using assms(1) by (intro OPENSSL_malloc_small) (simp add: pair_buf_size_def)
  moreover have "(if w \<noteq> 0 then b\<lparr>bb_size := w\<rparr> else b) = b\<lparr>bb_size := pair_buf_size w\<rparr>"
    using assms(3) by (cases b) (simp add: pair_buf_size_def)
  ultimately show ?thesis using assms(2) by (simp add: pair_buffer_def Let_def)
qed

lemma bio_make_pair_new:
  assumes env: "heap_bounded env" and w: "w1 < 2 ^ 63" "w2 < 2 ^ 63" and ab: "a \<noteq> b"
    and h: "bios h a = Some biop_bio" "bios h b = Some biop_bio"
  shows "(\<exists>h'. bio_make_pair env a b w1 w2 h = Some (True, h') \<and> joined h' a b \<and>
      pair_queue h' a = [] \<and> pair_queue h' b = [] \<and> \<not> pair_closed h' a \<and> \<not> pair_closed h' b \<and>
      pair_size h' a = pair_buf_size w1 \<and> pair_size h' b = pair_buf_size w2) \<or>
    (\<exists>h' sa sb. bio_make_pair env a b w1 w2 h = Some (False, h') \<and>
      bios h' a = Some (biop_bio\<lparr>bio_ptr := Some (Bio_bio sa)\<rparr>) \<and> bb_peer sa = None \<and>
      bios h' b = Some (biop_bio\<lparr>bio_ptr := Some (Bio_bio sb)\<rparr>) \<and> bb_peer sb = None) \<and>
      \<not> (can_alloc env (pair_buf_size w1 + 8) \<and> can_alloc env (pair_buf_size w2 + 8))"
proof -
  define st0 where "st0 = \<lparr>bb_peer = None, bb_closed = False, bb_len = 0, bb_offset = 0, bb_size = 17 * 1024,
    bb_buf = None, bb_request = 0\<rparr>"
  have at: "pair_at h a = Some st0" "pair_at h b = Some st0" "bio_ptr biop_bio = Some (Bio_bio st0)"
    using h by (simp_all add: pair_at_def biop_bio_def st0_def)
  have st0: "bb_buf st0 = None" "bb_size st0 = 17 * 1024" "bb_peer st0 = None" by (simp_all add: st0_def)
  note buf1 = pair_buffer_new [OF w(1) st0(1,2), of env] and buf2 = pair_buffer_new [OF w(2) st0(1,2), of env]
  have self: "biop_bio = biop_bio\<lparr>bio_ptr := Some (Bio_bio st0)\<rparr>" by (simp add: biop_bio_def st0_def)
  note defs = bio_make_pair_def Let_def
  show ?thesis
  proof (cases "can_alloc env (pair_buf_size w1 + 8)")
    case False
    have "bio_make_pair env a b w1 w2 h = Some (False, put_pair a (st0\<lparr>bb_size := pair_buf_size w1\<rparr>) h)"
      using False at st0 buf1 by (simp add: defs)
    moreover have "bios (put_pair a (st0\<lparr>bb_size := pair_buf_size w1\<rparr>) h) a =
        Some (biop_bio\<lparr>bio_ptr := Some (Bio_bio (st0\<lparr>bb_size := pair_buf_size w1\<rparr>))\<rparr>)"
      "bios (put_pair a (st0\<lparr>bb_size := pair_buf_size w1\<rparr>) h) b = Some (biop_bio\<lparr>bio_ptr := Some (Bio_bio st0)\<rparr>)"
      "bb_peer (st0\<lparr>bb_size := pair_buf_size w1\<rparr>) = None"
      using h ab st0 self by simp_all
    ultimately show ?thesis using False st0(3) by blast
  next
    case a1: True
    define sa where "sa = st0\<lparr>bb_size := pair_buf_size w1, bb_buf := Some (map (junk env) [0..<pair_buf_size w1]), bb_len := 0, bb_offset := 0\<rparr>"
    show ?thesis
    proof (cases "can_alloc env (pair_buf_size w2 + 8)")
      case False
      have "bio_make_pair env a b w1 w2 h = Some (False, put_pair b (st0\<lparr>bb_size := pair_buf_size w2\<rparr>) (put_pair a sa h))"
        using False a1 at st0 buf1 buf2 by (simp add: defs sa_def)
      moreover have "bios (put_pair b (st0\<lparr>bb_size := pair_buf_size w2\<rparr>) (put_pair a sa h)) a =
          Some (biop_bio\<lparr>bio_ptr := Some (Bio_bio sa)\<rparr>)" "bb_peer sa = None"
        "bios (put_pair b (st0\<lparr>bb_size := pair_buf_size w2\<rparr>) (put_pair a sa h)) b =
          Some (biop_bio\<lparr>bio_ptr := Some (Bio_bio (st0\<lparr>bb_size := pair_buf_size w2\<rparr>))\<rparr>)"
        "bb_peer (st0\<lparr>bb_size := pair_buf_size w2\<rparr>) = None"
        using h ab st0 by (simp_all add: sa_def)
      ultimately show ?thesis using False by blast
    next
      case a2: True
      define sb where "sb = st0\<lparr>bb_size := pair_buf_size w2, bb_buf := Some (map (junk env) [0..<pair_buf_size w2]), bb_len := 0, bb_offset := 0\<rparr>"
      define sa' where "sa' = sa\<lparr>bb_peer := Some b, bb_closed := False, bb_request := 0\<rparr>"
      define sb' where "sb' = sb\<lparr>bb_peer := Some a, bb_closed := False, bb_request := 0\<rparr>"
      let ?h = "put_pair b sb' (put_pair a sa' (put_pair b sb (put_pair a sa h)))"
      let ?A = "biop_bio\<lparr>bio_ptr := Some (Bio_bio sa'), bio_init := True\<rparr>"
      let ?B = "biop_bio\<lparr>bio_ptr := Some (Bio_bio sb'), bio_init := True\<rparr>"
      have "bio_make_pair env a b w1 w2 h = Some (True, bio_put b ?B (bio_put a ?A ?h))"
        using a1 a2 at st0 buf1 buf2 ab h by (simp add: defs sa_def sb_def sa'_def sb'_def)
      moreover have "pair_buf_size w1 < 2 ^ 62" "pair_buf_size w2 < 2 ^ 62" "0 < pair_buf_size w1" "0 < pair_buf_size w2"
        using env a1 a2 unfolding heap_bounded_def by (fastforce simp: pair_buf_size_def)+
      then have "ring_ok sa'" "ring_ok sb'" "ring_bytes sa' = []" "ring_bytes sb' = []"
        by (simp_all add: ring_ok_def ring_bytes_def sa'_def sb'_def sa_def sb_def)
      ultimately show ?thesis using ab
        by (intro disjI1 exI [of _ "bio_put b ?B (bio_put a ?A ?h)"])
          (simp add: joined_def pair_end_def pair_queue_def pair_closed_def pair_size_def biop_bio_def
            sa'_def sb'_def sa_def sb_def)
    qed
  qed
qed

lemma BIO_new_bio_pair_result:
  assumes env: "heap_bounded env" and w: "w1 < 2 ^ 63" "w2 < 2 ^ 63"
  shows "(\<exists>h'. BIO_new_bio_pair env w1 w2 h = Some (Some (bio_fresh h, bio_fresh h + 1), h') \<and>
      joined h' (bio_fresh h) (bio_fresh h + 1) \<and>
      pair_queue h' (bio_fresh h) = [] \<and> pair_queue h' (bio_fresh h + 1) = [] \<and>
      \<not> pair_closed h' (bio_fresh h) \<and> \<not> pair_closed h' (bio_fresh h + 1) \<and>
      pair_size h' (bio_fresh h) = pair_buf_size w1 \<and> pair_size h' (bio_fresh h + 1) = pair_buf_size w2) \<or>
    (\<exists>h'. BIO_new_bio_pair env w1 w2 h = Some (None, h')) \<and>
      \<not> (can_alloc env 80 \<and> can_alloc env 64 \<and> can_alloc env (pair_buf_size w1 + 8) \<and> can_alloc env (pair_buf_size w2 + 8))"
proof (cases "can_alloc env 80 \<and> can_alloc env 64")
  case False
  then show ?thesis by (auto simp: BIO_new_bio_pair_def BIO_new_biop)
next
  case True
  let ?a = "bio_fresh h" and ?b = "bio_fresh h + 1"
  define h2 where "h2 = bio_put ?b biop_bio ((bio_put ?a biop_bio (h\<lparr>bio_fresh := ?b\<rparr>))\<lparr>bio_fresh := ?b + 1\<rparr>)"
  have h2: "bios h2 ?a = Some biop_bio" "bios h2 ?b = Some biop_bio" by (simp_all add: h2_def)
  have run: "BIO_new_bio_pair env w1 w2 h =
    do { (made, h) \<leftarrow> bio_make_pair env ?a ?b w1 w2 h2;
         if \<not> made then do { (_, h) \<leftarrow> BIO_free (Some ?a) h; (_, h) \<leftarrow> BIO_free (Some ?b) h; Some (None, h) }
         else Some (Some (?a, ?b), h) }"
    using True by (simp add: BIO_new_bio_pair_def BIO_new_biop h2_def cong: if_cong)
  have ab: "?a \<noteq> ?b" by simp
  from bio_make_pair_new [OF env w ab h2] show ?thesis
  proof (elim disjE exE conjE)
    fix h' assume "bio_make_pair env ?a ?b w1 w2 h2 = Some (True, h')" "joined h' ?a ?b"
      "pair_queue h' ?a = []" "pair_queue h' ?b = []" "\<not> pair_closed h' ?a" "\<not> pair_closed h' ?b"
      "pair_size h' ?a = pair_buf_size w1" "pair_size h' ?b = pair_buf_size w2"
    then show ?thesis by (intro disjI1 exI [of _ h']) (simp add: run)
  next
    fix h' sa sb
    assume m: "bio_make_pair env ?a ?b w1 w2 h2 = Some (False, h')"
      and a: "bios h' ?a = Some (biop_bio\<lparr>bio_ptr := Some (Bio_bio sa)\<rparr>)" "bb_peer sa = None"
      and b: "bios h' ?b = Some (biop_bio\<lparr>bio_ptr := Some (Bio_bio sb)\<rparr>)" "bb_peer sb = None"
      and no: "\<not> (can_alloc env (pair_buf_size w1 + 8) \<and> can_alloc env (pair_buf_size w2 + 8))"
    obtain h1 where h1: "BIO_free (Some ?a) h' = Some (True, h1)" "bios h1 ?b = bios h' ?b"
      by (rule BIO_free_unpaired [OF a(1), of sa]) (simp_all add: biop_bio_def a(2))
    have b1: "bios h1 ?b = Some (biop_bio\<lparr>bio_ptr := Some (Bio_bio sb)\<rparr>)" using h1(2) b(1) by simp
    obtain h3 where "BIO_free (Some ?b) h1 = Some (True, h3)"
      by (rule BIO_free_unpaired [OF b1, of sb]) (simp_all add: biop_bio_def b(2))
    then show ?thesis using m h1(1) no by (intro disjI2) (auto simp: run)
  qed
qed

text \<open>Control requests leave the queues and the sizes alone; only one of them closes an end.\<close>

lemma BIO_ctrl_joined:
  assumes j: "joined h a b" and parg: "\<And>c. parg = Bio_arg c \<Longrightarrow> c = a \<or> c = b"
  obtains r h' where "BIO_ctrl (Some a) cmd larg parg h = Some (r, h')" "joined h' a b" "same_end h h' b"
    "pair_queue h' a = pair_queue h a" "pair_size h' a = pair_size h a"
    "pair_closed h' a = (pair_closed h a \<or> cmd = BIO_C_SHUTDOWN_WR)"
proof -
  obtain A sa B sb where ends: "a \<noteq> b" "pair_end h a b A sa" "pair_end h b a B sb"
    using j by (auto simp: joined_def)
  have A: "bios h a = Some A" "bio_method A = methods_biop" "bio_init A" "bio_ptr A = Some (Bio_bio sa)" "bb_peer sa = Some b" "ring_ok sa"
    and B: "bios h b = Some B" "bio_method B = methods_biop" "bio_init B" "bio_ptr B = Some (Bio_bio sb)" "bb_peer sb = Some a" "ring_ok sb"
    using ends by (simp_all add: pair_end_def)
  note at = pair_end_at [OF ends(2)] pair_end_at [OF ends(3)]
  have run: "BIO_ctrl (Some a) cmd larg parg h = bio_ctrl a cmd larg parg h"
    using A by (simp add: BIO_ctrl_def method_ctrl_def)
  consider "cmd = BIO_C_RESET_READ_REQUEST" | "cmd = BIO_C_SHUTDOWN_WR" | "cmd = BIO_CTRL_SET_CLOSE"
    | "cmd \<noteq> BIO_C_RESET_READ_REQUEST" "cmd \<noteq> BIO_C_SHUTDOWN_WR" "cmd \<noteq> BIO_CTRL_SET_CLOSE" by blast
  then show ?thesis
  proof cases
    case 1
    show ?thesis
      by (rule that [of "(1, No_out)" "put_pair a (sa\<lparr>bb_request := 0\<rparr>) h"])
        (use 1 run ends A B at in \<open>auto simp: bio_ctrl_def joined_def pair_end_def same_end_def
          pair_queue_def pair_closed_def pair_size_def\<close>)
  next
    case 2
    show ?thesis
      by (rule that [of "(1, No_out)" "put_pair a (sa\<lparr>bb_closed := True\<rparr>) h"])
        (use 2 run ends A B at in \<open>auto simp: bio_ctrl_def joined_def pair_end_def same_end_def
          pair_queue_def pair_closed_def pair_size_def\<close>)
  next
    case 3
    show ?thesis
      by (rule that [of "(1, No_out)" "bio_put a (A\<lparr>bio_shutdown := larg\<rparr>) h"])
        (use 3 run ends A B at in \<open>auto simp: bio_ctrl_def joined_def pair_end_def same_end_def
          pair_queue_def pair_closed_def pair_size_def\<close>)
  next
    case 4
    have "\<exists>r. bio_ctrl a cmd larg parg h = Some (r, h)"
      using 4 A at parg by (simp add: bio_ctrl_def split: ctrl_arg.split) auto
    then obtain r where "BIO_ctrl (Some a) cmd larg parg h = Some (r, h)" using run by auto
    then show ?thesis by (rule that) (use 4 j in \<open>simp_all add: same_end_def\<close>)
  qed
qed

section \<open>Runs\<close>

text \<open>
  A run of a pair: after its creation any reads, writes and control requests on either end.
  \<open>sent\<close> is what each end has written, by the counts \<open>BIO_write\<close> returned, and \<open>got\<close> what each
  end has read.
\<close>

inductive pair_run ::
  "heap_env \<Rightarrow> bio_ref \<Rightarrow> bio_ref \<Rightarrow> (bio_ref \<Rightarrow> bytes) \<Rightarrow> (bio_ref \<Rightarrow> bytes) \<Rightarrow> bio_heap \<Rightarrow> bool" for env where
  run_new: "BIO_new_bio_pair env w1 w2 h = Some (Some (a, b), h') \<Longrightarrow> w1 < 2 ^ 63 \<Longrightarrow> w2 < 2 ^ 63 \<Longrightarrow>
    pair_run env a b (\<lambda>_. []) (\<lambda>_. []) h'"
| run_write: "pair_run env a b sent got h \<Longrightarrow> x = a \<or> x = b \<Longrightarrow> 0 < n \<Longrightarrow> n \<le> length data \<Longrightarrow>
    BIO_write env (Some x) data (int n) h = Some (r, h') \<Longrightarrow>
    pair_run env a b (sent(x := sent x @ take (nat r) data)) got h'"
| run_read: "pair_run env a b sent got h \<Longrightarrow> x = a \<or> x = b \<Longrightarrow> 0 < n \<Longrightarrow> n \<le> length buf \<Longrightarrow>
    BIO_read (Some x) buf (int n) h = Some ((r, out), h') \<Longrightarrow>
    pair_run env a b sent (got(x := got x @ take (nat r) out)) h'"
| run_ctrl: "pair_run env a b sent got h \<Longrightarrow> x = a \<or> x = b \<Longrightarrow>
    (\<And>c. parg = Bio_arg c \<Longrightarrow> c = a \<or> c = b) \<Longrightarrow>
    BIO_ctrl (Some x) cmd larg parg h = Some (r, h') \<Longrightarrow> pair_run env a b sent got h'"

inductive_cases pair_runE: "pair_run env a b sent got h"

lemma BIO_write_takes:
  assumes j: "joined h x y" and n: "0 < n" "n \<le> length data" and w: "BIO_write env (Some x) data (int n) h = Some (r, h')"
  shows "joined h' x y \<and> pair_queue h' x = pair_queue h x @ take (nat r) data \<and> pair_queue h' y = pair_queue h y"
proof -
  from j n obtain h1 where 1: "BIO_write env (Some x) data (int n) h =
       Some (if pair_closed h x \<or> length (pair_queue h x) = pair_size h x then -1
             else int (min n (pair_size h x - length (pair_queue h x))), h1)"
    "joined h1 x y" "same_end h h1 y"
    "pair_queue h1 x = pair_queue h x @
       (if pair_closed h x then [] else take (pair_size h x - length (pair_queue h x)) (take n data))"
    by (rule BIO_write_joined)
  show ?thesis using 1 w by (auto simp: same_end_def min.commute split: if_splits)
qed

lemma BIO_read_gives:
  assumes j: "joined h x y" and n: "0 < n" "n \<le> length buf" and r: "BIO_read (Some x) buf (int n) h = Some ((r, out), h')"
  shows "joined h' x y \<and> pair_queue h y = take (nat r) out @ pair_queue h' y \<and> pair_queue h' x = pair_queue h x"
proof -
  from j n obtain h1 where 1: "BIO_read (Some x) buf (int n) h =
       Some ((if pair_queue h y \<noteq> [] then int (min n (length (pair_queue h y)))
              else if pair_closed h y then 0 else -1,
              mem_write buf 0 (take n (pair_queue h y))), h1)"
    "joined h1 x y" "same_end h h1 x" "pair_queue h1 y = drop n (pair_queue h y)"
    by (rule BIO_read_joined)
  have m: "take (min n (length q)) q = take n q" for q :: bytes by (simp add: min_def)
  show ?thesis using 1 r n by (auto simp: same_end_def mem_write_def m split: if_splits)
qed

lemma BIO_ctrl_keeps:
  assumes j: "joined h x y" and parg: "\<And>c. parg = Bio_arg c \<Longrightarrow> c = x \<or> c = y"
    and c: "BIO_ctrl (Some x) cmd larg parg h = Some (r, h')"
  shows "joined h' x y \<and> pair_queue h' x = pair_queue h x \<and> pair_queue h' y = pair_queue h y"
proof -
  from j parg obtain r1 h1 where "BIO_ctrl (Some x) cmd larg parg h = Some (r1, h1)" "joined h1 x y" "same_end h h1 y"
    "pair_queue h1 x = pair_queue h x" by (rule BIO_ctrl_joined)
  then show ?thesis using c by (simp add: same_end_def)
qed

lemma pair_run_invariant:
  assumes "pair_run env a b sent got h" and "heap_bounded env"
  shows "joined h a b \<and> sent a = got b @ pair_queue h a \<and> sent b = got a @ pair_queue h b"
  using assms(1)
proof induction
  case (run_new w1 w2 h a b h')
  then show ?case using BIO_new_bio_pair_result [OF assms(2), of w1 w2 h] by auto
next
  case (run_write a b sent got h x n data r h')
  then show ?case
    using BIO_write_takes [of h a b n data env r h'] BIO_write_takes [of h b a n data env r h'] joined_sym [of h a b]
      joined_sym [of h' b a] by (auto simp: joined_def)
next
  case (run_read a b sent got h x n buf r out h')
  then show ?case
    using BIO_read_gives [of h a b n buf r out h'] BIO_read_gives [of h b a n buf r out h'] joined_sym [of h a b]
      joined_sym [of h' b a] by (auto simp: joined_def)
next
  case (run_ctrl a b sent got h x parg cmd larg r h')
  have j: "joined h a b" "joined h b a" using run_ctrl.IH joined_sym by blast+
  have "joined h' a b \<and> pair_queue h' a = pair_queue h a \<and> pair_queue h' b = pair_queue h b"
  proof (cases "x = a")
    case True
    then show ?thesis using BIO_ctrl_keeps [OF j(1), of parg cmd larg r h'] run_ctrl.hyps by blast
  next
    case False
    then show ?thesis
      using BIO_ctrl_keeps [OF j(2), of parg cmd larg r h'] run_ctrl.hyps joined_sym by blast
  qed
  then show ?case using run_ctrl.IH by simp
qed

lemma take_min_length: "take (min n (length q)) q = take n q"
  by (simp add: min_def)

lemma joined_queue_bound:
  assumes "joined h a b"
  shows "length (pair_queue h a) \<le> pair_size h a" "0 < pair_size h a"
proof -
  obtain bio st where st: "pair_end h a b bio st" using assms by (auto simp: joined_def)
  then have "ring_ok st" by (simp add: pair_end_def)
  then have "bb_len st \<le> bb_size st" "0 < bb_size st" by (auto elim: ring_okE)
  then show "length (pair_queue h a) \<le> pair_size h a" "0 < pair_size h a"
    using pair_end_view [OF st] by simp_all
qed

section \<open>Writing everything\<close>

text \<open>\<open>BIO_write_all\<close> always returns: it queues what fits, and succeeds exactly when that is all.\<close>

lemma BIO_write_all_joined:
  assumes "joined h a b"
  shows "\<exists>h'. BIO_write_all env (Some a) data h =
      Some (data = [] \<or> \<not> pair_closed h a \<and> length (pair_queue h a) + length data \<le> pair_size h a, h') \<and>
    joined h' a b \<and> same_end h h' b \<and> pair_closed h' a = pair_closed h a \<and> pair_size h' a = pair_size h a \<and>
    pair_queue h' a = pair_queue h a @
      (if pair_closed h a then [] else take (pair_size h a - length (pair_queue h a)) data)"
  using assms
proof (induction "length data" arbitrary: data h rule: less_induct)
  case less
  show ?case
  proof (cases "data = []")
    case True
    then show ?thesis using less.prems by (subst BIO_write_all.simps) (simp add: same_end_def)
  next
    case False
    define n where "n = min (length data) INT_MAX"
    have n: "0 < n" "n \<le> length data" and todo: "(if INT_MAX < length data then int INT_MAX else int (length data)) = int n"
      using False by (simp_all add: n_def)
    define room where "room = pair_size h a - length (pair_queue h a)"
    obtain h1 where h1: "BIO_write env (Some a) data (int n) h =
       Some (if pair_closed h a \<or> length (pair_queue h a) = pair_size h a then -1
             else int (min n (pair_size h a - length (pair_queue h a))), h1)"
    "joined h1 a b" "same_end h h1 b"
    "pair_queue h1 a = pair_queue h a @
       (if pair_closed h a then [] else take (pair_size h a - length (pair_queue h a)) (take n data))"
    "pair_closed h1 a = pair_closed h a" "pair_size h1 a = pair_size h a"
      by (rule BIO_write_joined [OF less.prems n])
    note q = joined_queue_bound(1) [OF less.prems]
    show ?thesis
    proof (cases "pair_closed h a \<or> length (pair_queue h a) = pair_size h a")
      case True
      have "BIO_write_all env (Some a) data h = Some (False, h1)"
        using h1(1) True False todo by (subst BIO_write_all.simps) (auto simp: Let_def)
      then show ?thesis using h1 True False by (intro exI [of _ h1]) auto
    next
      case False2: False
      define k where "k = min n room"
      have k: "0 < k" "k \<le> length data" using n q False2 by (auto simp: k_def room_def)
      have lt: "length (drop k data) < length data" using k by simp
      obtain h2 where h2: "BIO_write_all env (Some a) (drop k data) h1 =
          Some (drop k data = [] \<or> \<not> pair_closed h1 a \<and> length (pair_queue h1 a) + length (drop k data) \<le> pair_size h1 a, h2)"
        "joined h2 a b" "same_end h1 h2 b" "pair_closed h2 a = pair_closed h1 a" "pair_size h2 a = pair_size h1 a"
        "pair_queue h2 a = pair_queue h1 a @
          (if pair_closed h1 a then [] else take (pair_size h1 a - length (pair_queue h1 a)) (drop k data))"
        using less.hyps [of "drop k data" h1, OF lt h1(2)] by blast
      have w: "BIO_write env (Some a) data (int n) h = Some (int k, h1)"
        using h1(1) False2 by (auto simp: k_def room_def)
      have run: "BIO_write_all env (Some a) data h = BIO_write_all env (Some a) (drop k data) h1"
        using w False todo k by (subst BIO_write_all.simps) (simp add: assert_that_def)
      have q1: "pair_queue h1 a = pair_queue h a @ take k data" "length (pair_queue h1 a) = length (pair_queue h a) + k"
        using h1(4) False2 k by (auto simp: k_def room_def min.commute)
      have "take k data @ take (room - k) (drop k data) = take room data"
        using k by (simp add: k_def flip: take_add)
      moreover have "(drop k data = [] \<or> length (pair_queue h a) + k + (length data - k) \<le> pair_size h a) =
          (length (pair_queue h a) + length data \<le> pair_size h a)"
        using k q False2 by (auto simp: k_def room_def)
      ultimately show ?thesis
        using h1 h2 run q1 False False2 k by (intro exI [of _ h2]) (auto simp: same_end_def room_def)
    qed
  qed
qed

section \<open>Moving a message through the ring\<close>

text \<open>
  A sender that keeps offering the rest of its message and a receiver that keeps reading up to
  \<open>n\<close> bytes, in turns.
\<close>

primrec pair_turns :: "heap_env \<Rightarrow> bio_ref \<Rightarrow> bio_ref \<Rightarrow> nat \<Rightarrow> bytes \<Rightarrow> nat \<Rightarrow> bytes bio_op" where
  "pair_turns env a b n msg 0 h = Some ([], h)"
| "pair_turns env a b n msg (Suc turns) h =
     do { (w, h) \<leftarrow> BIO_write env (Some a) msg (int (length msg)) h;
          ((r, out), h) \<leftarrow> BIO_read (Some b) (replicate n 0) (int n) h;
          (rest, h) \<leftarrow> pair_turns env a b n (drop (nat w) msg) turns h;
          Some (take (nat r) out @ rest, h) }"

lemma BIO_write_nothing: "joined h a b \<Longrightarrow> BIO_write env (Some a) [] 0 h = Some (0, h)"
  by (auto simp: joined_def pair_end_def BIO_write_def)

lemma pair_turns_deliver:
  assumes "joined h a b" "\<not> pair_closed h a" "0 < n" "length (pair_queue h a) + length msg \<le> turns"
  shows "\<exists>h'. pair_turns env a b n msg turns h = Some (pair_queue h a @ msg, h') \<and> joined h' a b \<and>
    pair_queue h' a = [] \<and> pair_queue h' b = pair_queue h b"
  using assms
proof (induction turns arbitrary: h msg)
  case 0
  then show ?case by simp
next
  case (Suc turns)
  define room where "room = pair_size h a - length (pair_queue h a)"
  note bound = joined_queue_bound [OF Suc.prems(1)]
  obtain w h1 where h1: "BIO_write env (Some a) msg (int (length msg)) h = Some (w, h1)" "joined h1 a b"
    "same_end h h1 b" "pair_queue h1 a = pair_queue h a @ take room msg" "\<not> pair_closed h1 a" "drop (nat w) msg = drop room msg"
  proof (cases "msg = []")
    case True
    then show ?thesis using that [of 0 h] Suc.prems BIO_write_nothing by (simp add: same_end_def)
  next
    case False
    then have "0 < length msg" by simp
    then obtain h1 where "BIO_write env (Some a) msg (int (length msg)) h =
         Some (if pair_closed h a \<or> length (pair_queue h a) = pair_size h a then -1
               else int (min (length msg) (pair_size h a - length (pair_queue h a))), h1)"
      "joined h1 a b" "same_end h h1 b"
      "pair_queue h1 a = pair_queue h a @
         (if pair_closed h a then [] else take (pair_size h a - length (pair_queue h a)) (take (length msg) msg))"
      "pair_closed h1 a = pair_closed h a"
      using BIO_write_joined [OF Suc.prems(1), of "length msg" msg env] by (metis order_refl)
    then show ?thesis using that Suc.prems(2) bound
      by (cases "length (pair_queue h a) = pair_size h a") (auto simp: room_def min_def)
  qed
  have jb: "joined h1 b a" using h1(2) by (rule joined_sym)
  obtain h2 where h2: "BIO_read (Some b) (replicate n 0) (int n) h1 =
       Some ((if pair_queue h1 a \<noteq> [] then int (min n (length (pair_queue h1 a)))
              else if pair_closed h1 a then 0 else -1, mem_write (replicate n 0) 0 (take n (pair_queue h1 a))), h2)"
    "joined h2 b a" "same_end h1 h2 b" "pair_queue h2 a = drop n (pair_queue h1 a)" "pair_closed h2 a = pair_closed h1 a"
    using BIO_read_joined [OF jb Suc.prems(3), of "replicate n 0"] by auto
  have j2: "joined h2 a b" using h2(2) by (rule joined_sym)
  have got: "take (nat (if pair_queue h1 a \<noteq> [] then int (min n (length (pair_queue h1 a)))
        else if pair_closed h1 a then 0 else -1)) (mem_write (replicate n 0) 0 (take n (pair_queue h1 a))) = take n (pair_queue h1 a)"
    using h1(5) by (simp add: mem_write_def take_min_length)
  have moved: "pair_queue h1 a \<noteq> [] \<or> pair_queue h a = [] \<and> msg = []"
    using h1(4) bound by (cases "pair_queue h a = []") (auto simp: room_def)
  have "length (pair_queue h2 a) + length (drop room msg) \<le> turns"
    using Suc.prems(3,4) h2(4) h1(4) moved by (cases "pair_queue h1 a = []") (auto simp flip: length_greater_0_conv)
  then obtain h3 where h3: "pair_turns env a b n (drop room msg) turns h2 = Some (pair_queue h2 a @ drop room msg, h3)"
    "joined h3 a b" "pair_queue h3 a = []" "pair_queue h3 b = pair_queue h2 b"
    using Suc.IH [OF j2] h1(5) h2(5) Suc.prems(3) by blast
  have "take n (pair_queue h1 a) @ pair_queue h2 a @ drop room msg = pair_queue h a @ msg"
    unfolding h2(4) append_assoc [symmetric] append_take_drop_id h1(4) by (simp add: append_assoc)
  then show ?case
    using h1 h2 h3 got by (intro exI [of _ h3]) (simp add: same_end_def)
qed

section \<open>The pair's contract\<close>

definition example_env :: heap_env where
  "example_env = \<lparr>can_alloc = (\<lambda>n. n < 100000), junk = (\<lambda>_. 0)\<rparr>"

lemma example_env_bounded [simp]: "heap_bounded example_env"
  by (simp add: heap_bounded_def example_env_def)

definition empty_heap :: bio_heap where
  "empty_heap = \<lparr>bios = (\<lambda>_. None), bio_fresh = 0\<rparr>"

text \<open>A pair with rings of four bytes.\<close>

lemma example_run:
  obtains h where "pair_run example_env 0 1 (\<lambda>_. []) (\<lambda>_. []) h" "joined h 0 1" "pair_queue h 0 = []" "pair_queue h 1 = []"
    "pair_size h 0 = 4" "pair_size h 1 = 4" "\<not> pair_closed h 0" "\<not> pair_closed h 1"
proof -
  obtain h where h: "BIO_new_bio_pair example_env 4 4 empty_heap = Some (Some (0, 1), h)"
    "joined h 0 1" "pair_queue h 0 = []" "pair_queue h 1 = []"
    "pair_size h 0 = 4" "pair_size h 1 = 4" "\<not> pair_closed h 0" "\<not> pair_closed h 1"
    using BIO_new_bio_pair_result [OF example_env_bounded, of 4 4 empty_heap]
    by (auto simp: empty_heap_def example_env_def pair_buf_size_def)
  then show ?thesis using that pair_run.run_new [OF h(1)] by simp
qed

text \<open>C17. In every run of a pair nothing is lost, duplicated, reordered or made up: what one end has
  written is what the other has read followed by what lies in the ring, which never holds more
  than its size.\<close>

theorem BIO_pair_fifo:
  assumes "pair_run env a b sent got h" and "heap_bounded env"
  shows "sent a = got b @ pair_queue h a \<and> sent b = got a @ pair_queue h b \<and>
    length (pair_queue h a) \<le> pair_size h a \<and> length (pair_queue h b) \<le> pair_size h b"
  using pair_run_invariant [OF assms] joined_queue_bound(1) joined_sym by blast

theorem BIO_pair_fifo_witness:
  "\<exists>h sent got. pair_run example_env 0 1 sent got h \<and> sent 0 = [7, 8, 9, 10] \<and> got 1 = [7, 8] \<and>
    pair_queue h 0 = [9, 10]"
proof -
  obtain h where h: "pair_run example_env 0 1 (\<lambda>_. []) (\<lambda>_. []) h" "joined h 0 1" "pair_queue h 0 = []"
    "pair_size h 0 = 4" "\<not> pair_closed h 0"
    by (rule example_run)
  have l: "0 < (6 :: nat)" "6 \<le> length [7, 8, 9, 10, 11, 12 :: u8]" by simp_all
  obtain h1 where w: "BIO_write example_env (Some 0) [7, 8, 9, 10, 11, 12] (int 6) h = Some (4, h1)" "joined h1 0 1"
    "pair_queue h1 0 = [7, 8, 9, 10]"
    using BIO_write_joined [OF h(2) l, of example_env] h by auto
  have r1: "pair_run example_env 0 1 ((\<lambda>_. [])(0 := [7, 8, 9, 10])) (\<lambda>_. []) h1"
    using pair_run.run_write [OF h(1) _ l w(1)] by simp
  obtain h2 where r: "BIO_read (Some 1) [0, 0] (int 2) h1 = Some ((2, [7, 8]), h2)"
    using BIO_read_joined [OF joined_sym [OF w(2)], of 2 "[0, 0]"] w(3) by (auto simp: mem_write_def)
  have r2: "pair_run example_env 0 1 ((\<lambda>_. [])(0 := [7, 8, 9, 10])) ((\<lambda>_. [])(1 := [7, 8])) h2"
    using pair_run.run_read [OF r1 _ _ _ r] by simp
  have "pair_queue h2 0 = [9, 10]" using BIO_pair_fifo [OF r2] by simp
  with r2 show ?thesis
    by (intro exI [of _ h2] exI [of _ "(\<lambda>_. [])(0 := [7, 8, 9, 10])"] exI [of _ "(\<lambda>_. [])(1 := [7, 8])"]) simp
qed

text \<open>C18. In every state a run reaches, \<open>BIO_write\<close> and \<open>BIO_read\<close> on either end return: no assertion
  of the code fails, no pointer it follows is stale, and neither array is left. A write takes
  what fits and a read all there is up to its limit.\<close>

theorem BIO_pair_defined:
  assumes "pair_run env a b sent got h" "heap_bounded env" and "(x, y) = (a, b) \<or> (x, y) = (b, a)"
    and "0 < n" "n \<le> length buf"
  shows "(\<exists>h'. BIO_write env (Some x) buf (int n) h =
       Some (if pair_closed h x \<or> length (pair_queue h x) = pair_size h x then -1
             else int (min n (pair_size h x - length (pair_queue h x))), h')) \<and>
    (\<exists>h'. BIO_read (Some x) buf (int n) h =
       Some ((if pair_queue h y \<noteq> [] then int (min n (length (pair_queue h y)))
              else if pair_closed h y then 0 else -1, mem_write buf 0 (take n (pair_queue h y))), h'))"
proof -
  have j: "joined h x y" using pair_run_invariant [OF assms(1,2)] assms(3) joined_sym by auto
  show ?thesis by (rule BIO_write_joined [OF j assms(4,5)]; rule BIO_read_joined [OF j assms(4,5)]) blast
qed

theorem BIO_pair_defined_witness:
  "\<exists>h. pair_run example_env 0 1 (\<lambda>_. []) (\<lambda>_. []) h \<and>
    (\<exists>h'. BIO_write example_env (Some 0) [1, 2, 3, 4, 5] 5 h = Some (4, h')) \<and>
    (\<exists>h'. BIO_read (Some 0) [1, 2, 3, 4, 5] 5 h = Some ((-1, [1, 2, 3, 4, 5]), h'))"
proof -
  obtain h where h: "pair_run example_env 0 1 (\<lambda>_. []) (\<lambda>_. []) h" "pair_queue h 0 = []" "pair_queue h 1 = []"
    "pair_size h 0 = 4" "\<not> pair_closed h 0" "\<not> pair_closed h 1"
    by (rule example_run)
  show ?thesis
    using BIO_pair_defined [OF h(1) example_env_bounded, of 0 1 5 "[1, 2, 3, 4, 5]"] h by (intro exI [of _ h]) simp
qed

text \<open>C19. A message of any length gets through a pair whose ring is smaller: when sender and receiver
  take turns, it has arrived, after what was in the ring before, within one turn per byte.\<close>

theorem BIO_pair_delivers:
  assumes "pair_run env a b sent got h" "heap_bounded env" "\<not> pair_closed h a" "0 < n"
    and "length (pair_queue h a) + length msg \<le> turns"
  shows "\<exists>h'. pair_turns env a b n msg turns h = Some (pair_queue h a @ msg, h') \<and> pair_queue h' a = []"
  using pair_turns_deliver [OF _ assms(3-5)] pair_run_invariant [OF assms(1,2)] by blast

theorem BIO_pair_delivers_witness:
  "\<exists>h h'. pair_run example_env 0 1 (\<lambda>_. []) (\<lambda>_. []) h \<and>
    pair_turns example_env 0 1 2 [1, 2, 3, 4, 5, 6] 6 h = Some ([1, 2, 3, 4, 5, 6], h') \<and> pair_queue h' 0 = []"
proof -
  obtain h where h: "pair_run example_env 0 1 (\<lambda>_. []) (\<lambda>_. []) h" "pair_queue h 0 = []" "\<not> pair_closed h 0"
    by (rule example_run)
  show ?thesis
    using BIO_pair_delivers [OF h(1) example_env_bounded h(3), of 2 "[1, 2, 3, 4, 5, 6]" 6] h by auto
qed

text \<open>C20. \<open>BIO_write_all\<close> on an end of a pair always returns. It queues the longest prefix that fits and
  reports success exactly when that is everything.\<close>

theorem BIO_write_all_exact:
  assumes "pair_run env a b sent got h" "heap_bounded env"
  shows "\<exists>h'. BIO_write_all env (Some a) data h =
      Some (data = [] \<or> \<not> pair_closed h a \<and> length (pair_queue h a) + length data \<le> pair_size h a, h') \<and>
    pair_queue h' a = pair_queue h a @
      (if pair_closed h a then [] else take (pair_size h a - length (pair_queue h a)) data)"
  using BIO_write_all_joined [of h a b env data] pair_run_invariant [OF assms] by blast

theorem BIO_write_all_exact_witness:
  "\<exists>h h'. pair_run example_env 0 1 (\<lambda>_. []) (\<lambda>_. []) h \<and>
    BIO_write_all example_env (Some 0) [1, 2, 3, 4, 5, 6] h = Some (False, h') \<and> pair_queue h' 0 = [1, 2, 3, 4]"
proof -
  obtain h where h: "pair_run example_env 0 1 (\<lambda>_. []) (\<lambda>_. []) h" "pair_queue h 0 = []" "\<not> pair_closed h 0"
    "pair_size h 0 = 4"
    by (rule example_run)
  show ?thesis
    using BIO_write_all_exact [OF h(1) example_env_bounded, of "[1, 2, 3, 4, 5, 6]"] h by auto
qed

end
