(* ===== verification/Bio_Stream.thy ===== *)
theory Bio_Stream
  imports Bio_Joined Cbs
begin

text \<open>
  Readers of BIOs, proved once over a contract of \<open>BIO_read\<close> that both kinds of BIO keep.
\<close>

section \<open>The contract of a source\<close>

locale byte_source =
  fixes src :: "bio_ref option" and good :: "bio_heap \<Rightarrow> bool" and pending :: "bio_heap \<Rightarrow> bytes"
    and eof :: "bio_heap \<Rightarrow> int"
  assumes read: "good h \<Longrightarrow> 0 < n \<Longrightarrow> n \<le> length buf \<Longrightarrow> n \<le> INT_MAX \<Longrightarrow>
      \<exists>h'. BIO_read src buf (int n) h =
        Some ((if pending h \<noteq> [] then int (min n (length (pending h))) else eof h,
               mem_write buf 0 (take n (pending h))), h') \<and>
      good h' \<and> pending h' = drop n (pending h) \<and> eof h' = eof h"
    and eof_not_positive: "good h \<Longrightarrow> eof h \<le> 0"
begin

lemma bio_read_full_loop_result:
  assumes "good h" "pos + len \<le> length out" "len < 2 ^ 64"
  shows "\<exists>h' e out'. bio_read_full_loop src out pos len first_read h = Some ((len \<le> length (pending h), e, out'), h') \<and>
    good h' \<and> eof h' = eof h \<and> length out' = length out \<and> pending h' = drop len (pending h) \<and>
    (if len \<le> length (pending h) then out' = mem_write out pos (take len (pending h))
     else e = (first_read \<and> pending h = [] \<and> eof h = 0))"
  using assms
proof (induction len arbitrary: h pos out first_read rule: less_induct)
  case (less len)
  show ?case
  proof (cases "len = 0")
    case True
    then show ?thesis using less.prems by (subst bio_read_full_loop.simps) auto
  next
    case False
    define todo where "todo = min len INT_MAX"
    have todo: "0 < todo" "todo \<le> len" "todo \<le> INT_MAX" "(if len \<le> INT_MAX then len else INT_MAX) = todo"
      using False by (auto simp: todo_def)
    then have buf: "todo \<le> length (drop pos out)" using less.prems(2) by simp
    obtain h1 where h1: "BIO_read src (drop pos out) (int todo) h =
        Some ((if pending h \<noteq> [] then int (min todo (length (pending h))) else eof h,
               mem_write (drop pos out) 0 (take todo (pending h))), h1)"
      "good h1" "pending h1 = drop todo (pending h)" "eof h1 = eof h"
      using read [OF less.prems(1) todo(1) buf todo(3)] by blast
    show ?thesis
    proof (cases "pending h = []")
      case True
      have "mem_write out pos (drop pos out) = out" using less.prems(2) by (simp add: mem_write_def)
      then have "bio_read_full_loop src out pos len first_read h = Some ((False, first_read \<and> eof h = 0, out), h1)"
        using h1(1) True False todo eof_not_positive [OF less.prems(1)] less.prems(2)
        by (subst bio_read_full_loop.simps) (simp add: mem_store_def Let_def)
      then show ?thesis using True False h1 by auto
    next
      case p: False
      define k where "k = min todo (length (pending h))"
      define out1 where "out1 = mem_write out pos (take k (pending h))"
      have k: "0 < k" "k \<le> len" "k \<le> length (pending h)" "pos + k \<le> length out"
        using p todo less.prems(2) by (auto simp: k_def)
      have st: "mem_store out pos (mem_write (drop pos out) 0 (take todo (pending h))) = Some out1"
        using k less.prems(2) by (auto simp: mem_store_def out1_def mem_write_def k_def min_def add.commute)
      have l: "nat ((int len - int k) mod 2 ^ 64) = len - k"
          "nat (int len - int k) = len - k"
        using k less.prems(3) by (simp_all add: nat_mod_distrib of_nat_diff [symmetric] del: of_nat_diff)
      have run: "bio_read_full_loop src out pos len first_read h = bio_read_full_loop src out1 (pos + k) (len - k) False h1"
        using h1(1) p False todo st k l by (subst bio_read_full_loop.simps) (simp flip: k_def)
      have pend: "pending h1 = drop k (pending h)" using h1(3) by (simp add: k_def min_def)
      have out1: "length out1 = length out" using k by (simp add: out1_def)
      have "len - k < len" "pos + k + (len - k) \<le> length out1" "len - k < 2 ^ 64" using k less.prems out1 by simp_all
      then obtain h2 e out2 where h2:
        "bio_read_full_loop src out1 (pos + k) (len - k) False h1 = Some ((len - k \<le> length (pending h1), e, out2), h2)"
        "good h2" "eof h2 = eof h1" "length out2 = length out1" "pending h2 = drop (len - k) (pending h1)"
        "if len - k \<le> length (pending h1) then out2 = mem_write out1 (pos + k) (take (len - k) (pending h1))
         else e = (False \<and> pending h1 = [] \<and> eof h1 = 0)"
        using less.IH [of "len - k" h1 "pos + k" out1 False] h1(2) by blast
      have le: "(len - k \<le> length (pending h1)) = (len \<le> length (pending h))" using pend k by auto
      have "mem_write out1 (pos + k) (take (len - k) (drop k (pending h))) = mem_write out pos (take len (pending h))"
        if "len \<le> length (pending h)"
        using mem_write_mem_write [of pos "take k (pending h)" "take (len - k) (drop k (pending h))" out] that k less.prems(2)
        by (simp add: out1_def take_add [symmetric] min_absorb2)
      then show ?thesis
        using run h2 h1(2,4) le pend out1 k p by (intro exI [of _ h2] exI [of _ e] exI [of _ out2]) auto
    qed
  qed
qed

lemma bio_read_full_result:
  assumes "good h" "pos + len \<le> length out" "len < 2 ^ 64" "len \<le> length (pending h)"
  obtains h' e where "bio_read_full src out pos len h = Some ((True, e, mem_write out pos (take len (pending h))), h')"
    "good h'" "pending h' = drop len (pending h)" "eof h' = eof h"
  using bio_read_full_loop_result [OF assms(1-3), of True] assms(4) by (auto simp: bio_read_full_def)

lemma read_asn1_contents_result:
  assumes g: "good h" and hd: "length hdr = hl" "length header = 6" "take hl header = hdr" "hl \<le> 6"
    and len: "length c \<le> INT_MAX" "hl + length c \<le> max_len" "can_alloc env (hl + length c + 8)"
    and p: "pending h = c @ rest"
  shows "\<exists>h'. read_asn1_contents env header src max_len (length c) hl h = Some (Some (hdr @ c, hl + length c), h') \<and>
    good h' \<and> pending h' = rest"
proof -
  let ?n = "hl + length c"
  have n: "(length c + hl) mod 2 ^ 64 = ?n" "?n + 8 < 2 ^ 64" using len(1) hd(4) by simp_all
  obtain blk where blk: "OPENSSL_malloc env ?n = Some blk" "length blk = ?n"
    using len(3) n(2) by (simp add: OPENSSL_malloc_eq Let_def)
  have st: "mem_store blk 0 hdr = Some (mem_write blk 0 hdr)" using hd(1) blk(2) by (simp add: mem_store_def)
  have l: "length (mem_write blk 0 hdr) = ?n" using blk(2) hd(1) by simp
  obtain h' e where r: "bio_read_full src (mem_write blk 0 hdr) hl (length c) h =
      Some ((True, e, mem_write (mem_write blk 0 hdr) hl (take (length c) (pending h))), h')"
    "good h'" "pending h' = drop (length c) (pending h)"
    by (rule bio_read_full_result [OF g, of hl "length c" "mem_write blk 0 hdr"]) (use l p len(1) in simp_all)
  have "mem_write (mem_write blk 0 hdr) hl c = hdr @ c"
    using mem_write_mem_write [of 0 hdr c blk] hd(1) blk(2) by (simp add: mem_write_full)
  then show ?thesis
    using r p len n blk st hd(3) by (intro exI [of _ h']) (simp add: read_asn1_contents_def Let_def add.commute [of "length c"])
qed

text \<open>A DER element with a short identifier is read whole, and nothing after it.\<close>

lemma BIO_read_asn1_result:
  assumes g: "good h" and hdr: "length header = 6" and p: "pending h = der_element tag c @ rest"
    and tag: "tag_number tag < 31" and len: "length c \<le> INT_MAX" "length (der_element tag c) \<le> max_len"
    and alloc: "can_alloc env (length (der_element tag c) + 8)"
  shows "\<exists>h'. BIO_read_asn1 env header src max_len h = Some (Some (der_element tag c, length (der_element tag c)), h') \<and>
    good h' \<and> pending h' = rest"
proof -
  define t :: u8 where "t = of_nat (32 * tag_class tag + tag_number tag)"
  have "unat t = 32 * tag_class tag + tag_number tag"
    unfolding t_def using tag_class_bound [of tag] tag by (intro tag_byte_parts) simp_all
  then have "unat (t AND 0x1f) = tag_number tag" using tag by (simp add: u8_and_1f)
  then have t: "t AND 0x1f \<noteq> 0x1f" using tag by auto
  have tb: "tag_bytes tag = [t]" using tag by (simp add: tag_bytes_def t_def)
  define lb where "lb = hd (der_length (length c))"
  define ls where "ls = tl (der_length (length c))"
  have dl: "der_length (length c) = lb # ls" by (simp add: lb_def ls_def der_length_def)
  have q: "pending h = t # lb # ls @ c @ rest" and elt: "der_element tag c = [t, lb] @ ls @ c"
    using p by (simp_all add: der_element_def der_header_def tb dl)
  obtain h1 e1 where r1: "bio_read_full src header 0 2 h = Some ((True, e1, mem_write header 0 [t, lb]), h1)"
    "good h1" "pending h1 = ls @ c @ rest"
    by (rule bio_read_full_result [OF g, of 0 2 header]) (use hdr q in simp_all)
  define header1 where "header1 = mem_write header 0 [t, lb]"
  have h1: "length header1 = 6" "take 2 header1 = [t, lb]" "header1 ! 0 = t" "header1 ! Suc 0 = lb"
    using hdr by (auto simp: header1_def mem_write_def nth_Cons)
  note r1' = r1(1) [folded header1_def]
  show ?thesis
  proof (cases "length c < 128")
    case True
    then have lb: "unat lb = length c" "ls = []" by (simp_all add: lb_def ls_def der_length_def unat_of_nat_small)
    then have "lb AND 0x80 = 0" using True by (simp add: u8_high_bit)
    moreover have "\<exists>h'. read_asn1_contents env header1 src max_len (length c) 2 h1 = Some (Some ([t, lb] @ c, 2 + length c), h') \<and>
        good h' \<and> pending h' = rest"
      by (rule read_asn1_contents_result [OF r1(2)]) (use h1 len alloc r1(3) lb elt in simp_all)
    ultimately show ?thesis using t r1' h1 lb elt by (auto simp: BIO_read_asn1_def Let_def)
  next
    case False
    define k where "k = len_octets (length c)"
    have k: "1 \<le> k" "k \<le> 4" using len_octets_range by (auto simp: k_def)
    have lt: "length c < 2 ^ 32" using len(1) by simp
    have lb: "unat lb = 128 + k" and ls: "ls = be_bytes k (length c)"
    proof -
      have "unat (of_nat (128 + k) :: u8) = 128 + k" using k by (intro unat_of_nat_small) simp
      then show "unat lb = 128 + k" using False by (simp add: lb_def der_length_def k_def del: of_nat_add)
      show "ls = be_bytes k (length c)" using False by (simp add: ls_def der_length_def k_def)
    qed
    have bits: "lb AND 0x80 \<noteq> 0" "unat (lb AND 0x7f) = k"
      using lb k by (simp_all add: u8_high_bit u8_and_7f)
    have lls: "length ls = k" by (simp add: ls)
    obtain h2 e2 where r2: "bio_read_full src header1 2 k h1 = Some ((True, e2, mem_write header1 2 ls), h2)"
      "good h2" "pending h2 = c @ rest"
      by (rule bio_read_full_result [OF r1(2), of 2 k header1]) (use h1 r1(3) lls k in simp_all)
    define header2 where "header2 = mem_write header1 2 ls"
    have h2: "length header2 = 6" "take (2 + k) header2 = [t, lb] @ ls" "take k (drop 2 header2) = ls"
      using h1 lls k by (auto simp: header2_def mem_write_def)
    define len32 where "len32 = foldl (\<lambda>len32 b. push_bit 8 len32 OR ucast b) (0 :: u32) (take k (drop 2 header2))"
    have "unat len32 = be_val ls" unfolding len32_def h2(3) using lls k by (intro unat_foldl_shift_or_word) simp
    also have "\<dots> = length c" using len_octets_upper [OF lt] by (simp add: ls k_def)
    finally have len32: "unat len32 = length c" .
    have ge: "\<not> len32 < 128" using False len32 by (simp add: word_less_nat_alt)
    have "0 < length c" using False by linarith
    from len_octets_lower [OF this] have "256 ^ (k - 1) \<le> length c" by (simp add: k_def)
    then have top: "drop_bit ((k - 1) * 8) len32 \<noteq> 0"
      by (simp add: drop_bit_eq_0_iff_less len32 power_mult mult.commute [of _ 8])
    have "\<exists>h'. read_asn1_contents env header2 src max_len (length c) (2 + k) h2 =
        Some (Some (([t, lb] @ ls) @ c, 2 + k + length c), h') \<and> good h' \<and> pending h' = rest"
      by (rule read_asn1_contents_result [OF r2(2)]) (use h2 len alloc r2(3) lls elt k in simp_all)
    then obtain h3 where r3: "read_asn1_contents env header2 src max_len (unat len32) (2 + k) h2 =
        Some (Some (([t, lb] @ ls) @ c, 2 + k + length c), h3)" "good h3" "pending h3 = rest" using len32 by auto
    have "BIO_read_asn1 env header src max_len h = read_asn1_contents env header2 src max_len (unat len32) (2 + k) h2"
      using t r1' h1 bits k r2(1) [folded header2_def] ge top
      unfolding BIO_read_asn1_def Let_def len32_def [symmetric] by (simp flip: len32_def)
    then show ?thesis using r3 elt lls by auto
  qed
qed

end

section \<open>The two kinds of source\<close>

interpretation pair_source: byte_source "Some a" "\<lambda>h. joined h a b" "\<lambda>h. pair_queue h b"
  "\<lambda>h. if pair_closed h b then 0 else -1" for a b
proof unfold_locales
  fix h n and buf :: bytes assume h: "joined h a b" and n: "0 < n" "n \<le> length buf"
  obtain h' where
    "BIO_read (Some a) buf (int n) h =
       Some ((if pair_queue h b \<noteq> [] then int (min n (length (pair_queue h b)))
              else if pair_closed h b then 0 else -1,
              mem_write buf 0 (take n (pair_queue h b))), h')"
    "joined h' a b" "pair_queue h' b = drop n (pair_queue h b)" "pair_closed h' b = pair_closed h b"
    by (rule BIO_read_joined [OF h n])
  then show "\<exists>h'. BIO_read (Some a) buf (int n) h =
      Some ((if pair_queue h b \<noteq> [] then int (min n (length (pair_queue h b)))
             else if pair_closed h b then 0 else -1, mem_write buf 0 (take n (pair_queue h b))), h') \<and>
      joined h' a b \<and> pair_queue h' b = drop n (pair_queue h b) \<and>
      (if pair_closed h' b then 0 else -1) = (if pair_closed h b then 0 else -1 :: int)" by simp
qed simp

definition rdonly_ok :: "BUF_MEM \<Rightarrow> bool" where
  "rdonly_ok b \<longleftrightarrow> (case bm_data b of None \<Rightarrow> bm_length b = 0 | Some d \<Rightarrow> bm_skip b + bm_length b \<le> length d)"

definition mem_good :: "bio_heap \<Rightarrow> bio_ref \<Rightarrow> bool" where
  "mem_good h a \<longleftrightarrow> (\<exists>bio b. bios h a = Some bio \<and> bio_method bio = mem_method \<and> bio_init bio \<and>
     bio_ptr bio = Some (Buf_mem b) \<and> bio_num bio \<le> 0 \<and>
     (if bio_flags bio AND BIO_FLAGS_MEM_RDONLY \<noteq> 0 then rdonly_ok b else buf_mem_ok b))"

definition mem_pending :: "bio_heap \<Rightarrow> bio_ref \<Rightarrow> bytes" where
  "mem_pending h a = (case buf_mem_at h a of None \<Rightarrow> [] | Some b \<Rightarrow> buf_mem_bytes b)"

definition mem_eof :: "bio_heap \<Rightarrow> bio_ref \<Rightarrow> int" where
  "mem_eof h a = (case bios h a of None \<Rightarrow> 0 | Some bio \<Rightarrow> bio_num bio)"

definition mem_writable :: "bio_heap \<Rightarrow> bio_ref \<Rightarrow> bool" where
  "mem_writable h a \<longleftrightarrow> (\<exists>bio. bios h a = Some bio \<and> bio_flags bio AND BIO_FLAGS_MEM_RDONLY = 0)"

lemma put_buf_mem_bios [simp]:
  "bios h a = Some bio \<Longrightarrow> bios (put_buf_mem a b h) = (bios h)(a \<mapsto> bio\<lparr>bio_ptr := Some (Buf_mem b)\<rparr>)"
  by (simp add: put_buf_mem_def)

lemma buf_mem_at_put [simp]:
  "buf_mem_at (bio_put a x h) c = (if c = a then case bio_ptr x of Some (Buf_mem b) \<Rightarrow> Some b | _ \<Rightarrow> None else buf_mem_at h c)"
  by (simp add: buf_mem_at_def)

lemma buf_mem_at_put_buf_mem [simp]:
  "bios h a = Some bio \<Longrightarrow> buf_mem_at (put_buf_mem a b h) c = (if c = a then Some b else buf_mem_at h c)"
  by (simp add: buf_mem_at_def)

lemma buf_mem_ok_rdonly: "buf_mem_ok b \<Longrightarrow> rdonly_ok b"
  by (auto simp: buf_mem_ok_def rdonly_ok_def split: option.splits)

lemma length_rdonly: "rdonly_ok b \<Longrightarrow> length (buf_mem_bytes b) = bm_length b"
  by (auto simp: rdonly_ok_def buf_mem_bytes_def split: option.splits)

lemma rdonly_flag_kept [simp]:
  "bio_flags (BIO_clear_retry_flags x) AND BIO_FLAGS_MEM_RDONLY = bio_flags x AND BIO_FLAGS_MEM_RDONLY"
  "bio_flags (BIO_set_retry_read x) AND BIO_FLAGS_MEM_RDONLY = bio_flags x AND BIO_FLAGS_MEM_RDONLY"
  "bio_num (BIO_clear_retry_flags x) = bio_num x" "bio_num (BIO_set_retry_read x) = bio_num x"
proof -
  note defs = BIO_set_retry_read_def BIO_clear_retry_flags_def kRetryFlags_def BIO_FLAGS_RWS_def BIO_FLAGS_READ_def
    BIO_FLAGS_WRITE_def BIO_FLAGS_SHOULD_RETRY_def BIO_FLAGS_IO_SPECIAL_def BIO_FLAGS_MEM_RDONLY_def
  have m: "NOT 0xF AND 0x200 = (0x200 :: u32)" "(0x1 OR 0x8) AND 0x200 = (0 :: u32)" by simp_all
  show "bio_flags (BIO_clear_retry_flags x) AND BIO_FLAGS_MEM_RDONLY = bio_flags x AND BIO_FLAGS_MEM_RDONLY"
    "bio_flags (BIO_set_retry_read x) AND BIO_FLAGS_MEM_RDONLY = bio_flags x AND BIO_FLAGS_MEM_RDONLY"
    "bio_num (BIO_clear_retry_flags x) = bio_num x" "bio_num (BIO_set_retry_read x) = bio_num x"
    by (simp_all add: defs and.assoc bit.conj_disj_distrib2 m)
qed

lemma put_buf_mem_put [simp]:
  "put_buf_mem a b (bio_put a x h) = bio_put a (x\<lparr>bio_ptr := Some (Buf_mem b)\<rparr>) h"
  "bio_put a x (bio_put a y h) = bio_put a x h"
  by (simp_all add: put_buf_mem_def bio_put_def)

lemma bio_mem_read_result:
  assumes at: "bios h a = Some bio" "bio_ptr bio = Some (Buf_mem b)"
    and ok: "if bio_flags bio AND BIO_FLAGS_MEM_RDONLY \<noteq> 0 then rdonly_ok b else buf_mem_ok b"
    and n: "0 < n" "n \<le> length out" "n \<le> INT_MAX"
  obtains bio' b' where "bio_mem_read a out n h =
      Some ((if buf_mem_bytes b \<noteq> [] then int (min n (length (buf_mem_bytes b))) else bio_num bio,
             mem_write out 0 (take n (buf_mem_bytes b))), bio_put a bio' h)"
    "bio_method bio' = bio_method bio" "bio_init bio' = bio_init bio" "bio_num bio' = bio_num bio"
    "bio_ptr bio' = Some (Buf_mem b')" "bio_flags bio' AND BIO_FLAGS_MEM_RDONLY = bio_flags bio AND BIO_FLAGS_MEM_RDONLY"
    "if bio_flags bio AND BIO_FLAGS_MEM_RDONLY \<noteq> 0 then rdonly_ok b' else buf_mem_ok b'"
    "buf_mem_bytes b' = drop n (buf_mem_bytes b)"
proof -
  have r: "rdonly_ok b" using ok buf_mem_ok_rdonly by (auto split: if_splits)
  have len: "length (buf_mem_bytes b) = bm_length b" by (rule length_rdonly [OF r])
  define bio1 where "bio1 = BIO_clear_retry_flags bio"
  have bio1: "bio_method bio1 = bio_method bio" "bio_init bio1 = bio_init bio" "bio_num bio1 = bio_num bio"
      "bio_ptr bio1 = Some (Buf_mem b)" "bio_flags bio1 AND BIO_FLAGS_MEM_RDONLY = bio_flags bio AND BIO_FLAGS_MEM_RDONLY"
    using at by (simp_all add: bio1_def)
  have at': "buf_mem_at h a = Some b" using at by (simp add: buf_mem_at_def)
  note defs = bio_mem_read_def Let_def bio1_def [symmetric]
  show ?thesis
  proof (cases "bm_length b = 0")
    case True
    define bio2 where "bio2 = (if bio_num bio = 0 then bio1 else BIO_set_retry_read bio1)"
    have "bio_mem_read a out n h = Some ((bio_num bio, out), bio_put a bio2 h)"
      using at at' True n bio1 by (simp add: defs bio2_def)
    then show ?thesis
      by (intro that [of bio2 b]) (use True bio1 ok len in \<open>auto simp: bio2_def\<close>)
  next
    case False
    define k where "k = min n (bm_length b)"
    have ret: "(if bm_length b < INT_MAX \<and> bm_length b < n then bm_length b else n) = k"
      using n by (auto simp: k_def)
    have k: "0 < k" "k \<le> bm_length b" "k \<le> length out" using False n by (auto simp: k_def)
    obtain d where d: "bm_data b = Some d" "bm_skip b + bm_length b \<le> length d"
      using r False by (auto simp: rdonly_ok_def split: option.splits)
    have bytes: "buf_mem_bytes b = take (bm_length b) (drop (bm_skip b) d)" using d by (simp add: buf_mem_bytes_def)
    have data: "take k (drop (bm_skip b) d) = take n (buf_mem_bytes b)" using k by (simp add: bytes k_def min_def)
    have ne: "buf_mem_bytes b \<noteq> []" using len False by auto
    have drop_k: "drop n (buf_mem_bytes b) = drop k (buf_mem_bytes b)" using len by (simp add: k_def min_def)
    have load: "mem_load d (bm_skip b) k = Some (take n (buf_mem_bytes b))" using d k data by (simp add: mem_load_def)
    have store: "mem_store out 0 (take n (buf_mem_bytes b)) = Some (mem_write out 0 (take n (buf_mem_bytes b)))"
      using n by (simp add: mem_store_def)
    show ?thesis
    proof (cases "bio_flags bio AND BIO_FLAGS_MEM_RDONLY = 0")
      case False
      define b' where "b' = b\<lparr>bm_length := bm_length b - k, bm_skip := bm_skip b + k\<rparr>"
      have "bio_mem_read a out n h = Some ((int k, mem_write out 0 (take n (buf_mem_bytes b))),
          bio_put a (bio1\<lparr>bio_ptr := Some (Buf_mem b')\<rparr>) h)"
        unfolding defs using at at' False k d load store bio1 by (simp add: ret b'_def flip: bio1_def)
      moreover have "rdonly_ok b'" "buf_mem_bytes b' = drop k (buf_mem_bytes b)"
        using d k by (simp_all add: rdonly_ok_def b'_def buf_mem_bytes_def drop_take add.commute)
      ultimately show ?thesis
        by (intro that [of "bio1\<lparr>bio_ptr := Some (Buf_mem b')\<rparr>" b'])
          (use False bio1 len ne drop_k in \<open>auto simp: k_def\<close>)
    next
      case True
      then have b: "buf_mem_ok b" using ok by simp
      then have skip: "bm_skip b = 0" and dl: "length d = bm_max b" using d by (simp_all add: buf_mem_ok_def)
      define rest where "rest = take (bm_length b - k) (drop k d)"
      define b' where "b' = b\<lparr>bm_length := bm_length b - k, bm_data := Some (mem_write d 0 rest)\<rparr>"
      have "mem_load d k (bm_length b - k) = Some rest" "mem_store d 0 rest = Some (mem_write d 0 rest)"
        using d skip k by (simp_all add: mem_load_def mem_store_def rest_def)
      then have "bio_mem_read a out n h = Some ((int k, mem_write out 0 (take n (buf_mem_bytes b))),
          bio_put a (bio1\<lparr>bio_ptr := Some (Buf_mem b')\<rparr>) h)"
        unfolding defs using at at' True k d load store bio1 skip by (simp add: ret b'_def flip: bio1_def)
      moreover have "buf_mem_ok b'"
        using b d k skip by (auto simp: buf_mem_ok_def b'_def rest_def)
      moreover have "buf_mem_bytes b' = drop k (buf_mem_bytes b)"
        using d k skip by (simp add: b'_def buf_mem_bytes_def mem_write_def rest_def drop_take)
      ultimately show ?thesis
        by (intro that [of "bio1\<lparr>bio_ptr := Some (Buf_mem b')\<rparr>" b'])
          (use True bio1 len ne drop_k in \<open>auto simp: k_def\<close>)
    qed
  qed
qed

interpretation mem_source: byte_source "Some a" "\<lambda>h. mem_good h a" "\<lambda>h. mem_pending h a" "\<lambda>h. mem_eof h a" for a
proof unfold_locales
  fix h n and buf :: bytes assume g: "mem_good h a" and n: "0 < n" "n \<le> length buf" "n \<le> INT_MAX"
  obtain bio b where at: "bios h a = Some bio" "bio_method bio = mem_method" "bio_init bio" "bio_num bio \<le> 0"
      "bio_ptr bio = Some (Buf_mem b)"
    and ok: "if bio_flags bio AND BIO_FLAGS_MEM_RDONLY \<noteq> 0 then rdonly_ok b else buf_mem_ok b"
    using g by (auto simp: mem_good_def)
  obtain bio' b' where r: "bio_mem_read a buf n h =
      Some ((if buf_mem_bytes b \<noteq> [] then int (min n (length (buf_mem_bytes b))) else bio_num bio,
             mem_write buf 0 (take n (buf_mem_bytes b))), bio_put a bio' h)"
    "bio_method bio' = bio_method bio" "bio_init bio' = bio_init bio" "bio_num bio' = bio_num bio"
    "bio_ptr bio' = Some (Buf_mem b')" "bio_flags bio' AND BIO_FLAGS_MEM_RDONLY = bio_flags bio AND BIO_FLAGS_MEM_RDONLY"
    "if bio_flags bio AND BIO_FLAGS_MEM_RDONLY \<noteq> 0 then rdonly_ok b' else buf_mem_ok b'"
    "buf_mem_bytes b' = drop n (buf_mem_bytes b)"
    by (rule bio_mem_read_result [OF at(1,5) ok n])
  let ?k = "if buf_mem_bytes b \<noteq> [] then int (min n (length (buf_mem_bytes b))) else bio_num bio"
  define bio2 where "bio2 = (if ?k > 0 then bio'\<lparr>bio_num_read := bio_num_read bio' + of_int ?k\<rparr> else bio')"
  have view: "mem_pending h a = buf_mem_bytes b" "mem_eof h a = bio_num bio"
    using at by (simp_all add: mem_pending_def mem_eof_def buf_mem_at_def)
  have "BIO_read (Some a) buf (int n) h = Some ((?k, mem_write buf 0 (take n (buf_mem_bytes b))), bio_put a bio2 h)"
    using at n r(1) by (simp add: BIO_read_def method_bread_def bio2_def)
  moreover have "mem_good (bio_put a bio2 h) a" "mem_pending (bio_put a bio2 h) a = drop n (buf_mem_bytes b)"
      "mem_eof (bio_put a bio2 h) a = bio_num bio"
    using r at by (auto simp: mem_good_def mem_pending_def mem_eof_def bio2_def)
  ultimately show "\<exists>h'. BIO_read (Some a) buf (int n) h =
      Some ((if mem_pending h a \<noteq> [] then int (min n (length (mem_pending h a))) else mem_eof h a,
             mem_write buf 0 (take n (mem_pending h a))), h') \<and>
      mem_good h' a \<and> mem_pending h' a = drop n (mem_pending h a) \<and> mem_eof h' a = mem_eof h a"
    using view by auto
qed (auto simp: mem_good_def mem_eof_def)

section \<open>Writing to a memory BIO\<close>

lemma to_int_small: "n \<le> INT_MAX \<Longrightarrow> to_int n = int n"
  by (simp add: to_int_def)

text \<open>All the bytes are appended, or none are and the allocator has refused.\<close>

lemma BIO_write_mem:
  assumes env: "heap_bounded env" and g: "mem_good h a" "mem_writable h a" and n: "0 < n" "n \<le> length data"
    and room: "length (mem_pending h a) + n \<le> INT_MAX"
  shows "(\<exists>h'. BIO_write env (Some a) data (int n) h = Some (int n, h') \<and> mem_good h' a \<and> mem_writable h' a \<and>
      mem_pending h' a = mem_pending h a @ take n data \<and> mem_eof h' a = mem_eof h a) \<or>
    (\<exists>h'. BIO_write env (Some a) data (int n) h = Some (-1, h') \<and> mem_good h' a \<and> mem_writable h' a \<and>
      mem_pending h' a = mem_pending h a \<and> mem_eof h' a = mem_eof h a) \<and>
      \<not> buf_mem_room env (length (mem_pending h a) + n)"
proof -
  obtain bio b where at: "bios h a = Some bio" "bio_method bio = mem_method" "bio_init bio" "bio_num bio \<le> 0"
      "bio_ptr bio = Some (Buf_mem b)" "bio_flags bio AND BIO_FLAGS_MEM_RDONLY = 0" and b: "buf_mem_ok b"
    using g by (auto simp: mem_good_def mem_writable_def)
  have at': "buf_mem_at h a = Some b" using at by (simp add: buf_mem_at_def)
  have view: "mem_pending h a = buf_mem_bytes b" "mem_eof h a = bio_num bio" "length (mem_pending h a) = bm_length b"
    using at at' length_buf_mem_bytes [OF b] by (simp_all add: mem_pending_def mem_eof_def)
  have len: "to_int (bm_length b) = int (bm_length b)" "bm_length b + n \<le> INT_MAX" using room view by (simp_all add: to_int_small)
  define bio1 where "bio1 = BIO_clear_retry_flags bio"
  have bio1: "bio_method bio1 = mem_method" "bio_init bio1" "bio_num bio1 = bio_num bio"
      "bio_ptr bio1 = Some (Buf_mem b)" "bio_flags bio1 AND BIO_FLAGS_MEM_RDONLY = 0" using at by (simp_all add: bio1_def)
  note defs = BIO_write_def method_bwrite_def bio_mem_write_def Let_def assert_that_def BUF_MEM_grow_clean_def
  have n62: "bm_length b + n < 2 ^ 62" using len by simp
  from BUF_MEM_grow_result [OF b env n62] show ?thesis
  proof (elim disjE exE conjE)
    fix b' assume b': "BUF_MEM_grow env (bm_length b + n) b = (bm_length b + n, b')" "buf_mem_ok b'"
      "bm_length b' = bm_length b + n"
      "buf_mem_bytes b' = take (bm_length b + n) (buf_mem_bytes b) @ replicate (bm_length b + n - bm_length b) 0"
    obtain d where d: "bm_data b' = Some d" "length d = bm_max b'" "bm_skip b' = 0" "bm_length b' \<le> bm_max b'"
      using b'(2,3) n by (auto simp: buf_mem_ok_def split: option.splits)
    define b2 where "b2 = b'\<lparr>bm_data := Some (mem_write d (bm_length b) (take n data))\<rparr>"
    have "take (bm_length b) d = take (bm_length b) (buf_mem_bytes b')"
      using d b'(3) by (simp add: buf_mem_bytes_def min_def)
    also have "\<dots> = buf_mem_bytes b" using b'(4) length_buf_mem_bytes [OF b] by simp
    finally have pre: "take (bm_length b) d = buf_mem_bytes b" .
    have l: "bm_length b + length (take n data) \<le> length d" using d b'(3) n by simp
    have b2: "buf_mem_ok b2" "buf_mem_bytes b2 = buf_mem_bytes b @ take n data"
      using b'(2,3) d pre n l by (simp_all add: b2_def buf_mem_ok_def buf_mem_bytes_def take_mem_write_all)
    let ?bio = "bio1\<lparr>bio_ptr := Some (Buf_mem b2), bio_num_write := bio_num_write bio1 + of_nat n\<rparr>"
    have "BIO_write env (Some a) data (int n) h = Some (int n, bio_put a ?bio h)"
      using at at' len n b'(1) d l by (simp add: defs mem_load_def mem_store_def b2_def min_absorb2 bio1_def nat_int_add)
    then show ?thesis
      using b2 bio1 at view by (intro disjI1 exI [of _ "bio_put a ?bio h"])
        (simp add: mem_good_def mem_writable_def mem_pending_def mem_eof_def)
  next
    assume full: "BUF_MEM_grow env (bm_length b + n) b = (0, b)" "\<not> buf_mem_room env (bm_length b + n)"
    have "BIO_write env (Some a) data (int n) h = Some (-1, bio_put a (bio1\<lparr>bio_ptr := Some (Buf_mem b)\<rparr>) h)"
      using at at' len n full(1) by (simp add: defs bio1_def nat_int_add)
    then show ?thesis
      using full(2) b bio1 at view by (intro disjI2 conjI exI [of _ "bio_put a (bio1\<lparr>bio_ptr := Some (Buf_mem b)\<rparr>) h"])
        (simp_all add: mem_good_def mem_writable_def mem_pending_def mem_eof_def)
  qed
qed

text \<open>A fresh memory BIO is empty.\<close>

lemma BIO_new_mem:
  "(\<exists>h'. BIO_new env mem_method h = Some (Some (bio_fresh h), h') \<and> mem_good h' (bio_fresh h) \<and>
      mem_writable h' (bio_fresh h) \<and> mem_pending h' (bio_fresh h) = [] \<and> mem_eof h' (bio_fresh h) = -1) \<or>
    BIO_new env mem_method h = Some (None, h) \<and> \<not> (can_alloc env 80 \<and> can_alloc env 32)"
proof (cases "can_alloc env 80 \<and> can_alloc env 32")
  case True
  define bio where "bio = \<lparr>bio_method = mem_method, bio_init = True, bio_shutdown = 1, bio_flags = 0, bio_retry_reason = 0,
    bio_num = -1, bio_references = 1, bio_ptr = Some (Buf_mem \<lparr>bm_length = 0, bm_data = None, bm_skip = 0, bm_max = 0\<rparr>),
    next_bio = None, bio_num_read = 0, bio_num_write = 0\<rparr>"
  let ?h = "bio_put (bio_fresh h) bio (h\<lparr>bio_fresh := bio_fresh h + 1\<rparr>)"
  have "BIO_new env mem_method h = Some (Some (bio_fresh h), ?h)"
    using True by (simp add: BIO_new_def method_create_def mem_new_def BUF_MEM_new_def OPENSSL_malloc_small bio_def Let_def)
  then show ?thesis
    by (intro disjI1 exI [of _ ?h]) (simp add: mem_good_def mem_writable_def mem_pending_def mem_eof_def buf_mem_at_def bio_def
        buf_mem_ok_def buf_mem_bytes_def)
next
  case False
  then show ?thesis
    by (auto simp: BIO_new_def method_create_def mem_new_def BUF_MEM_new_def OPENSSL_malloc_small Let_def)
qed

section \<open>Lines\<close>

definition first_line :: "bytes \<Rightarrow> bytes" where
  "first_line q = takeWhile (\<lambda>c. c \<noteq> 0x0a) q @ (if 0x0a \<in> set q then [0x0a] else [])"

lemma first_line_Cons: "first_line (c # q) = c # (if c = 0x0a then [] else first_line q)"
  by (simp add: first_line_def)

lemma gets_scan_take: "gets_scan (take j q) = min j (length (first_line q))"
proof (induction q arbitrary: j)
  case (Cons c q)
  then show ?case by (cases j) (simp_all add: first_line_Cons)
qed (simp add: first_line_def)

lemma length_first_line: "length (first_line q) \<le> length q"
  by (induction q) (simp_all add: first_line_Cons first_line_def [of "[]"])

lemma BIO_gets_mem:
  assumes g: "mem_good h a" and n: "0 < n" "n \<le> length buf" and q: "length (mem_pending h a) \<le> INT_MAX"
  defines "k \<equiv> min (n - 1) (length (first_line (mem_pending h a)))"
  shows "\<exists>h'. BIO_gets (Some a) buf (int n) h =
      Some ((int k, mem_write buf 0 (take k (mem_pending h a) @ [0])), h') \<and> mem_good h' a \<and>
      mem_pending h' a = drop k (mem_pending h a)"
proof -
  obtain bio b where at: "bios h a = Some bio" "bio_method bio = mem_method" "bio_init bio" "bio_num bio \<le> 0"
      "bio_ptr bio = Some (Buf_mem b)"
    and ok: "if bio_flags bio AND BIO_FLAGS_MEM_RDONLY \<noteq> 0 then rdonly_ok b else buf_mem_ok b"
    using g by (auto simp: mem_good_def)
  have at': "buf_mem_at h a = Some b" using at by (simp add: buf_mem_at_def)
  have r: "rdonly_ok b" using ok buf_mem_ok_rdonly by (auto split: if_splits)
  define p where "p = buf_mem_bytes b"
  have view: "mem_pending h a = p" "length p = bm_length b"
    using at' length_rdonly [OF r] by (simp_all add: mem_pending_def p_def)
  define bio1 where "bio1 = BIO_clear_retry_flags bio"
  have bio1: "bio_method bio1 = mem_method" "bio_init bio1" "bio_num bio1 = bio_num bio" "bio_ptr bio1 = Some (Buf_mem b)"
      "bio_flags bio1 AND BIO_FLAGS_MEM_RDONLY = bio_flags bio AND BIO_FLAGS_MEM_RDONLY" using at by (simp_all add: bio1_def)
  define j where "j = min (n - 1) (length p)"
  have j: "(if int n - 1 < to_int (bm_length b) then int n - 1 else to_int (bm_length b)) = int j"
    using q view n by (auto simp: to_int_small j_def)
  have kj: "k = gets_scan (take j p)" "k \<le> j"
    using length_first_line [of p] by (simp_all add: gets_scan_take k_def view j_def min_def)
  note defs = BIO_gets_def mem_gets_def Let_def bio1_def [symmetric]
  show ?thesis
  proof (cases "j = 0")
    case True
    then have "BIO_gets (Some a) buf (int n) h = Some ((0, mem_write buf 0 [0]), bio_put a bio1 h)"
      using at at' n j by (simp add: defs mem_store_def)
    then show ?thesis using True kj(2) view bio1 ok
      by (intro exI [of _ "bio_put a bio1 h"])
        (auto simp: mem_good_def mem_pending_def buf_mem_at_def p_def at(4))
  next
    case False
    then have "first_line p \<noteq> []" by (cases p) (simp_all add: j_def first_line_Cons)
    then have k: "0 < k" using False by (simp add: kj(1) gets_scan_take)
    obtain d where d: "bm_data b = Some d" "bm_skip b + bm_length b \<le> length d"
      using r False view by (auto simp: rdonly_ok_def j_def split: option.splits)
    have "mem_load d (bm_skip b) j = Some (take j p)"
      using d view by (simp add: mem_load_def p_def buf_mem_bytes_def j_def min_def)
    moreover have kn: "k \<le> length buf" "k \<le> INT_MAX" "k < n" using kj(2) n q view by (auto simp: j_def)
    have ok1: "if bio_flags bio1 AND BIO_FLAGS_MEM_RDONLY \<noteq> 0 then rdonly_ok b else buf_mem_ok b" using ok bio1 by simp
    have at1: "bios (bio_put a bio1 h) a = Some bio1" by simp
    obtain bio' b' where rd: "bio_mem_read a buf k (bio_put a bio1 h) =
        Some ((if buf_mem_bytes b \<noteq> [] then int (min k (length (buf_mem_bytes b))) else bio_num bio1,
               mem_write buf 0 (take k (buf_mem_bytes b))), bio_put a bio' (bio_put a bio1 h))"
      "bio_method bio' = bio_method bio1" "bio_init bio' = bio_init bio1" "bio_num bio' = bio_num bio1"
      "bio_ptr bio' = Some (Buf_mem b')" "bio_flags bio' AND BIO_FLAGS_MEM_RDONLY = bio_flags bio1 AND BIO_FLAGS_MEM_RDONLY"
      "if bio_flags bio1 AND BIO_FLAGS_MEM_RDONLY \<noteq> 0 then rdonly_ok b' else buf_mem_ok b'"
      "buf_mem_bytes b' = drop k (buf_mem_bytes b)"
      by (rule bio_mem_read_result [OF at1 bio1(4) ok1 k kn(1,2)])
    have ret: "(if buf_mem_bytes b \<noteq> [] then int (min k (length (buf_mem_bytes b))) else bio_num bio1) = int k"
    proof -
      have "k \<le> length p" using kj(2) by (simp add: j_def)
      moreover have "p \<noteq> []" using False by (auto simp: j_def)
      ultimately show ?thesis by (simp add: p_def min_def)
    qed
    have st: "mem_store (mem_write buf 0 (take k p)) k [0] = Some (mem_write buf 0 (take k p @ [0]))"
    proof -
      have lk: "length (take k p) = k" using kj(2) by (simp add: j_def)
      then show ?thesis
        using mem_write_mem_write [of 0 "take k p" "[0]" buf] kn n by (simp add: mem_store_def)
    qed
    let ?bio = "bio'\<lparr>bio_num_read := bio_num_read bio' + of_nat k\<rparr>"
    have "BIO_gets (Some a) buf (int n) h = Some ((int k, mem_write buf 0 (take k p @ [0])), bio_put a ?bio h)"
      using at at' n j False d calculation rd(1) [unfolded ret, unfolded p_def [symmetric]] k st
      by (simp add: defs kj(1) [symmetric])
    then show ?thesis
      using rd(2-8) bio1 at view by (intro exI [of _ "bio_put a ?bio h"])
        (auto simp: mem_good_def mem_pending_def p_def)
  qed
qed

section \<open>Properties of the streams\<close>

text \<open>A memory BIO.\<close>

lemma example_mem:
  obtains h where "BIO_new example_env mem_method empty_heap = Some (Some 0, h)" "mem_good h 0" "mem_writable h 0"
    "mem_pending h 0 = []" "mem_eof h 0 = -1"
  using BIO_new_mem [of example_env empty_heap] by (auto simp: example_env_def empty_heap_def)

lemma example_mem_filled:
  assumes "data \<noteq> []" "length data < 1000"
  obtains h where "mem_good h 0" "mem_writable h 0" "mem_pending h 0 = data" "mem_eof h 0 = -1"
proof -
  obtain h where h: "mem_good h 0" "mem_writable h 0" "mem_pending h 0 = []" "mem_eof h 0 = -1"
    by (rule example_mem)
  have l: "0 < length data" "length data \<le> length data" using assms by simp_all
  have "buf_mem_room example_env (length data)" using assms(2) by (simp add: buf_mem_room_def example_env_def)
  then show ?thesis using BIO_write_mem [OF example_env_bounded h(1,2) l] h that assms(2) by auto
qed

text \<open>What is written to a memory BIO is appended to what it holds, or nothing is and the
  allocator has refused the larger buffer; reading takes the bytes from the front, and an empty
  BIO gives the value set for its end.\<close>

theorem BIO_mem_fifo:
  assumes "heap_bounded env" "mem_good h a" "mem_writable h a" "0 < n" "n \<le> length data"
    and "length (mem_pending h a) + n \<le> INT_MAX"
  shows "((\<exists>h'. BIO_write env (Some a) data (int n) h = Some (int n, h') \<and> mem_good h' a \<and> mem_writable h' a \<and>
        mem_pending h' a = mem_pending h a @ take n data) \<or>
      (\<exists>h'. BIO_write env (Some a) data (int n) h = Some (-1, h') \<and> mem_good h' a \<and> mem_writable h' a \<and>
        mem_pending h' a = mem_pending h a) \<and> \<not> buf_mem_room env (length (mem_pending h a) + n)) \<and>
    (\<exists>h'. BIO_read (Some a) data (int n) h =
        Some ((if mem_pending h a \<noteq> [] then int (min n (length (mem_pending h a))) else mem_eof h a,
               mem_write data 0 (take n (mem_pending h a))), h') \<and>
      mem_good h' a \<and> mem_pending h' a = drop n (mem_pending h a))"
  using BIO_write_mem [OF assms] mem_source.read [OF assms(2,4,5)] assms(6) by auto

theorem BIO_mem_fifo_witness:
  "\<exists>h h' h''. mem_pending h 0 = [1, 2, 3] \<and> BIO_write example_env (Some 0) [4, 5] 2 h = Some (2, h') \<and>
    mem_pending h' 0 = [1, 2, 3, 4, 5] \<and> BIO_read (Some 0) [4, 5] 2 h = Some ((2, [1, 2]), h'') \<and> mem_pending h'' 0 = [3]"
proof -
  obtain h where h: "mem_good h 0" "mem_writable h 0" "mem_pending h 0 = [1, 2, 3]"
    by (rule example_mem_filled [of "[1, 2, 3]"]) simp_all
  have l: "0 < (2 :: nat)" "2 \<le> length [4, 5 :: u8]" "length (mem_pending h 0) + 2 \<le> INT_MAX" using h(3) by simp_all
  have "buf_mem_room example_env (length (mem_pending h 0) + 2)" using h(3) by (simp add: buf_mem_room_def example_env_def)
  then obtain h' h'' where "BIO_write example_env (Some 0) [4, 5] 2 h = Some (2, h')" "mem_pending h' 0 = [1, 2, 3, 4, 5]"
    "BIO_read (Some 0) [4, 5] 2 h = Some ((2, [1, 2]), h'')" "mem_pending h'' 0 = [3]"
    using BIO_mem_fifo [OF example_env_bounded h(1,2) l] h(3) by (auto simp: mem_write_def)
  then show ?thesis using h(3) by blast
qed

text \<open>\<open>BIO_gets\<close> returns the first line, its newline included, cut to the array with its
  terminating zero, and takes exactly those bytes out of the BIO.\<close>

theorem BIO_gets_exact:
  assumes "mem_good h a" "0 < n" "n \<le> length buf" "length (mem_pending h a) \<le> INT_MAX"
  shows "\<exists>k h'. k = min (n - 1) (length (first_line (mem_pending h a))) \<and>
    BIO_gets (Some a) buf (int n) h = Some ((int k, mem_write buf 0 (take k (mem_pending h a) @ [0])), h') \<and>
    mem_good h' a \<and> mem_pending h' a = drop k (mem_pending h a)"
  using BIO_gets_mem [OF assms] by blast

theorem BIO_gets_exact_witness:
  "\<exists>h h'. mem_pending h 0 = [0x61, 0x62, 0x0a, 0x63] \<and>
    BIO_gets (Some 0) [9, 9, 9, 9, 9, 9] 6 h = Some ((3, [0x61, 0x62, 0x0a, 0, 9, 9]), h') \<and> mem_pending h' 0 = [0x63]"
proof -
  obtain h where h: "mem_good h 0" "mem_pending h 0 = [0x61, 0x62, 0x0a, 0x63]"
    by (rule example_mem_filled [of "[0x61, 0x62, 0x0a, 0x63]"]) simp_all
  have l: "0 < (6 :: nat)" "6 \<le> length [9, 9, 9, 9, 9, 9 :: u8]" "length (mem_pending h 0) \<le> INT_MAX" using h(2) by simp_all
  obtain h' where "BIO_gets (Some 0) [9, 9, 9, 9, 9, 9] 6 h = Some ((3, [0x61, 0x62, 0x0a, 0, 9, 9]), h')"
    "mem_pending h' 0 = [0x63]"
    using BIO_gets_exact [OF h(1) l] h(2) by (auto simp: first_line_def mem_write_def)
  then show ?thesis using h(2) by blast
qed

text \<open>C21. \<open>BIO_read_asn1\<close> takes exactly one DER element out of a memory BIO or a pair, however the
  bytes behind it go on, when its identifier is short and it keeps the caller's limit.\<close>

theorem BIO_read_asn1_exact:
  assumes "mem_good h a \<and> mem_pending h a = der_element tag c @ rest \<or>
      joined h a b \<and> pair_queue h b = der_element tag c @ rest"
    and "length header = 6" "tag_number tag < 31" "length c \<le> INT_MAX" "length (der_element tag c) \<le> max_len"
    and "can_alloc env (length (der_element tag c) + 8)"
  shows "\<exists>h'. BIO_read_asn1 env header (Some a) max_len h =
      Some (Some (der_element tag c, length (der_element tag c)), h') \<and>
    (mem_good h' a \<and> mem_pending h' a = rest \<or> joined h' a b \<and> pair_queue h' b = rest)"
  using assms(1) mem_source.BIO_read_asn1_result [OF _ assms(2) _ assms(3-6)]
    pair_source.BIO_read_asn1_result [OF _ assms(2) _ assms(3-6)] by blast

theorem BIO_read_asn1_exact_witness:
  "\<exists>h h'. mem_pending h 0 = [4, 2, 7, 8, 5, 0] \<and>
    BIO_read_asn1 example_env [0, 0, 0, 0, 0, 0] (Some 0) 100 h = Some (Some ([4, 2, 7, 8], 4), h')"
proof -
  have e: "der_element 4 [7, 8] = [4, 2, 7, 8]"
    by (simp add: der_element_def der_header_def der_length_def tag_bytes_def tag_class_def tag_number_def)
  obtain h where h: "mem_good h 0" "mem_pending h 0 = [4, 2, 7, 8, 5, 0]"
    by (rule example_mem_filled [of "[4, 2, 7, 8, 5, 0]"]) simp_all
  have "can_alloc example_env 12" by (simp add: example_env_def)
  then obtain h' where "BIO_read_asn1 example_env [0, 0, 0, 0, 0, 0] (Some 0) 100 h = Some (Some ([4, 2, 7, 8], 4), h')"
    using BIO_read_asn1_exact [of h 0 4 "[7, 8]" "[5, 0]" 0 "[0, 0, 0, 0, 0, 0]" 100 example_env] h
    by (auto simp: e tag_number_def)
  then show ?thesis using h(2) by blast
qed

section \<open>The end of a memory BIO inside an element of indefinite length\<close>

text \<open>An empty memory BIO gives its end value whatever the array.\<close>

lemma BIO_read_mem_empty:
  assumes g: "mem_good h a" "mem_pending h a = []" and n: "0 < n"
  obtains h' where "BIO_read (Some a) buf (int n) h = Some ((mem_eof h a, buf), h')"
    "mem_good h' a" "mem_pending h' a = []" "mem_eof h' a = mem_eof h a"
proof -
  obtain bio b where at: "bios h a = Some bio" "bio_method bio = mem_method" "bio_init bio" "bio_num bio \<le> 0"
      "bio_ptr bio = Some (Buf_mem b)"
    and ok: "if bio_flags bio AND BIO_FLAGS_MEM_RDONLY \<noteq> 0 then rdonly_ok b else buf_mem_ok b"
    using g by (auto simp: mem_good_def)
  have at': "buf_mem_at h a = Some b" using at by (simp add: buf_mem_at_def)
  have "rdonly_ok b" using ok buf_mem_ok_rdonly by (auto split: if_splits)
  then have z: "bm_length b = 0" using g(2) at' length_rdonly [of b] by (simp add: mem_pending_def)
  define bio1 where "bio1 = (if bio_num bio = 0 then BIO_clear_retry_flags bio else BIO_set_retry_read (BIO_clear_retry_flags bio))"
  have bio1: "bio_method bio1 = mem_method" "bio_init bio1" "bio_num bio1 = bio_num bio" "bio_ptr bio1 = Some (Buf_mem b)"
      "bio_flags bio1 AND BIO_FLAGS_MEM_RDONLY = bio_flags bio AND BIO_FLAGS_MEM_RDONLY" using at by (simp_all add: bio1_def)
  have "BIO_read (Some a) buf (int n) h = Some ((bio_num bio, buf), bio_put a bio1 h)"
    using at at' z n by (simp add: BIO_read_def method_bread_def bio_mem_read_def bio1_def Let_def)
  then show ?thesis
    using bio1 at ok g(2) at' that [of "bio_put a bio1 h"]
    by (simp add: mem_good_def mem_pending_def mem_eof_def)
qed

lemma bio_read_all_loop_eof_step:
  assumes g: "mem_good h a" "mem_pending h a = []" "mem_eof h a = -2"
    and len: "len \<le> 4098" "done \<noteq> len" "nat ((int len - int done) mod 2 ^ 64) = todo" "0 < todo" "todo < INT_MAX"
    and more: "2048 \<le> nat ((int len - int (nat ((int done - 2) mod 2 ^ 64))) mod 2 ^ 64) \<or> len = max_len"
    and out: "done \<le> length out"
  obtains h' where "bio_read_all_loop env (Some a) out done len max_len h =
      bio_read_all_loop env (Some a) out (nat ((int done - 2) mod 2 ^ 64)) len max_len h'"
    "mem_good h' a" "mem_pending h' a = []" "mem_eof h' a = -2"
proof -
  obtain h' where h': "BIO_read (Some a) (drop done out) (int todo) h = Some ((-2, drop done out), h')"
    "mem_good h' a" "mem_pending h' a = []" "mem_eof h' a = -2"
    using BIO_read_mem_empty [OF g(1,2) len(4), of "drop done out"] g(3) by auto
  have "mem_store out done (drop done out) = Some out" using out by (simp add: mem_store_def mem_write_def)
  then have "bio_read_all_loop env (Some a) out done len max_len h =
      bio_read_all_loop env (Some a) out (nat ((int done - 2) mod 2 ^ 64)) len max_len h'"
    using h'(1) len(2,5) more unfolding bio_read_all_loop.simps [of env "Some a" out "done"] len(3)
    by (auto simp: assert_that_def Let_def)
  then show ?thesis using that h' by blast
qed

lemma bio_read_all_loop_runs_away:
  assumes g: "mem_good h a" "mem_pending h a = []" "mem_eof h a = -2"
    and out: "length out = 4098"
  shows "bio_read_all_loop env (Some a) out 2 4098 max_len h = None"
proof -
  obtain h1 where h1: "bio_read_all_loop env (Some a) out 2 4098 max_len h = bio_read_all_loop env (Some a) out 0 4098 max_len h1"
    "mem_good h1 a" "mem_pending h1 a = []" "mem_eof h1 a = -2"
    using bio_read_all_loop_eof_step [OF g, of 4098 2 4096 max_len out env] out by auto
  obtain h2 where h2: "bio_read_all_loop env (Some a) out 0 4098 max_len h1 =
      bio_read_all_loop env (Some a) out 18446744073709551614 4098 max_len h2"
    "mem_good h2 a" "mem_pending h2 a = []" "mem_eof h2 a = -2"
    using bio_read_all_loop_eof_step [OF h1(2-4), of 4098 0 4098 max_len out env] out by auto
  obtain h3 where "BIO_read (Some a) [] (int 4100) h2 = Some ((mem_eof h2 a, []), h3)"
    using BIO_read_mem_empty [OF h2(2,3), of 4100 "[]"] by auto
  then have "bio_read_all_loop env (Some a) out 18446744073709551614 4098 max_len h2 = None"
    using out by (subst bio_read_all_loop.simps) (simp add: assert_that_def mem_store_def)
  then show ?thesis using h1 h2 by simp
qed

text \<open>A memory BIO whose end value is set to a negative number other than -1, as its
  documentation allows, breaks \<open>BIO_read_asn1\<close>: inside an element of indefinite length
  \<open>bio_read_all\<close> takes only -1 for an error and adds any other result to its count, so that the
  count goes below zero and the next read is told to write before the block.\<close>

theorem BIO_read_asn1_eof_value:
  assumes "mem_good h a" "mem_pending h a = [0x30, 0x80]" "mem_eof h a = -2"
    and "length header = 6" "4098 \<le> max_len" "can_alloc env 4106"
  shows "BIO_read_asn1 env header (Some a) max_len h = None"
proof -
  have l: "0 + 2 \<le> length header" "2 < (2 :: nat) ^ 64" "2 \<le> length (mem_pending h a)" using assms by simp_all
  obtain h1 e where r: "bio_read_full (Some a) header 0 2 h = Some ((True, e, mem_write header 0 [0x30, 0x80]), h1)"
    "mem_good h1 a" "mem_pending h1 a = []" "mem_eof h1 a = -2"
    by (rule mem_source.bio_read_full_result [OF assms(1) l]) (simp add: assms(2,3))
  define header1 where "header1 = mem_write header 0 [0x30, 0x80 :: u8]"
  have hd: "header1 ! 0 = 0x30" "header1 ! Suc 0 = 0x80" "take 2 header1 = [0x30, 0x80]"
    by (simp_all add: header1_def mem_write_def)
  have blk: "OPENSSL_malloc env 4098 = Some (map (junk env) [0..<4098])"
    using assms(6) OPENSSL_malloc_small [of 4098 env] by simp
  define out where "out = mem_write (map (junk env) [0..<4098]) 0 [0x30, 0x80]"
  have st: "mem_store (map (junk env) [0..<4098]) 0 [0x30, 0x80] = Some out" and len: "length out = 4098"
    by (simp_all add: mem_store_def out_def)
  have "BIO_read_asn1 env header (Some a) max_len h = bio_read_all env (Some a) [0x30, 0x80] max_len h1"
    using r(1) [folded header1_def] hd by (simp add: BIO_read_asn1_def Let_def)
  also have "\<dots> = bio_read_all_loop env (Some a) out 2 4098 max_len h1"
    using assms(5) blk st by (simp add: bio_read_all_def Let_def flip: numeral_2_eq_2)
  also have "\<dots> = None" by (rule bio_read_all_loop_runs_away [OF r(2-4) len])
  finally show ?thesis .
qed

theorem BIO_read_asn1_eof_value_witness:
  "\<exists>h h'. BIO_set_mem_eof_return (Some 0) (-2) h = Some (1, h') \<and> mem_pending h' 0 = [0x30, 0x80] \<and>
    BIO_read_asn1 example_env [0, 0, 0, 0, 0, 0] (Some 0) 5000 h' = None"
proof -
  obtain h where h: "mem_good h 0" "mem_pending h 0 = [0x30, 0x80]"
    by (rule example_mem_filled [of "[0x30, 0x80]"]) simp_all
  obtain bio b where at: "bios h 0 = Some bio" "bio_method bio = mem_method" "bio_init bio" "bio_ptr bio = Some (Buf_mem b)"
    and ok: "if bio_flags bio AND BIO_FLAGS_MEM_RDONLY \<noteq> 0 then rdonly_ok b else buf_mem_ok b"
    using h(1) by (auto simp: mem_good_def)
  have at': "buf_mem_at h 0 = Some b" using at by (simp add: buf_mem_at_def)
  let ?h = "bio_put 0 (bio\<lparr>bio_num := -2\<rparr>) h"
  have set: "BIO_set_mem_eof_return (Some 0) (-2) h = Some (1, ?h)"
    using at at' by (simp add: BIO_set_mem_eof_return_def BIO_request_def BIO_ctrl_def method_ctrl_def mem_ctrl_def)
  have g: "mem_good ?h 0" "mem_pending ?h 0 = [0x30, 0x80]" "mem_eof ?h 0 = -2"
    using at at' ok h(2) by (simp_all add: mem_good_def mem_pending_def mem_eof_def)
  show ?thesis
    using set g BIO_read_asn1_eof_value [OF g, of "[0, 0, 0, 0, 0, 0]" 5000 example_env]
    by (intro exI [of _ h] exI [of _ ?h]) (simp add: example_env_def)
qed

end
