(* ===== verification/Lhash.thy ===== *)
theory Lhash
  imports Mem "HOL-Library.Multiset" "HOL-Library.Monad_Syntax"
begin

text \<open>
  \<open>crypto/lhash/lhash.c\<close>: the chained hash table. A chain is the list of its items; a
  pointer to a link (the \<open>LHASH_ITEM **\<close> of the code) is the number of a bucket and how many
  items of its chain come before the link. Every item has the address \<open>malloc\<close> gave it, so
  that an iteration that holds a pointer to an item can be followed while its callback
  changes the table. Elements are not NULL. The count of items is a \<open>nat\<close>: each is a live
  object, so a \<open>size_t\<close> never wraps. Comparison and hash function are fields, as in the code;
  the \<open>call_*_func\<close> arguments only cast them.
\<close>

section \<open>The table\<close>

record 'a lhash_item =
  item_addr :: nat
  item_data :: 'a
  item_hash :: u32

record 'a lhash_st =
  lh_items :: nat
  lh_buckets :: "'a lhash_item list list"
  lh_num_buckets :: nat
  lh_callback_depth :: u32
  lh_comp :: "'a \<Rightarrow> 'a \<Rightarrow> int"
  lh_hash :: "'a \<Rightarrow> u32"
  lh_fresh :: nat

definition kMinNumBuckets :: nat where "kMinNumBuckets = 16"
definition kMaxAverageChainLength :: nat where "kMaxAverageChainLength = 2"
definition kMinAverageChainLength :: nat where "kMinAverageChainLength = 1"

definition sizeof_LHASH :: nat where "sizeof_LHASH = 48"
definition sizeof_LHASH_ITEM :: nat where "sizeof_LHASH_ITEM = 24"

definition lh_new :: "heap_env \<Rightarrow> ('a \<Rightarrow> u32) \<Rightarrow> ('a \<Rightarrow> 'a \<Rightarrow> int) \<Rightarrow> 'a lhash_st option" where
  "lh_new env hash_fn cmp =
     do { _ \<leftarrow> OPENSSL_malloc env sizeof_LHASH;
          _ \<leftarrow> OPENSSL_malloc env (8 * kMinNumBuckets);
          Some \<lparr>lh_items = 0, lh_buckets = replicate kMinNumBuckets [],
            lh_num_buckets = kMinNumBuckets, lh_callback_depth = 0,
            lh_comp = cmp, lh_hash = hash_fn, lh_fresh = 0\<rparr> }"

text \<open>The addresses \<open>lh_free\<close> gives back, in its order; then the array and the table go.\<close>

definition lh_free :: "'a lhash_st option \<Rightarrow> nat list" where
  "lh_free table =
     (case table of
        None \<Rightarrow> []
      | Some lh \<Rightarrow> concat (map (\<lambda>i. map item_addr (lh_buckets lh ! i)) [0..<lh_num_buckets lh]))"

definition lh_num_items :: "'a lhash_st \<Rightarrow> nat" where
  "lh_num_items lh = lh_items lh"

section \<open>Searching\<close>

fun chain_link :: "('a \<Rightarrow> bool) \<Rightarrow> 'a lhash_item list \<Rightarrow> nat" where
  "chain_link found [] = 0"
| "chain_link found (cur # rest) = (if found (item_data cur) then 0 else Suc (chain_link found rest))"

definition get_next_ptr_and_hash :: "'a lhash_st \<Rightarrow> 'a \<Rightarrow> (nat \<times> nat) \<times> u32" where
  "get_next_ptr_and_hash lh data =
     (let hash = lh_hash lh data;
          b = unat hash mod lh_num_buckets lh
      in ((b, chain_link (\<lambda>d. lh_comp lh d data = 0) (lh_buckets lh ! b)), hash))"

definition get_next_ptr_by_key :: "'a lhash_st \<Rightarrow> 'k \<Rightarrow> u32 \<Rightarrow> ('k \<Rightarrow> 'a \<Rightarrow> int) \<Rightarrow> nat \<times> nat" where
  "get_next_ptr_by_key lh k key_hash cmp_key =
     (let b = unat key_hash mod lh_num_buckets lh
      in (b, chain_link (\<lambda>d. cmp_key k d = 0) (lh_buckets lh ! b)))"

definition deref_link :: "'a lhash_st \<Rightarrow> nat \<times> nat \<Rightarrow> 'a lhash_item option" where
  "deref_link lh p =
     (let chain = lh_buckets lh ! fst p in if snd p < length chain then Some (chain ! snd p) else None)"

definition lh_retrieve :: "'a lhash_st \<Rightarrow> 'a \<Rightarrow> 'a option" where
  "lh_retrieve lh data =
     map_option item_data (deref_link lh (fst (get_next_ptr_and_hash lh data)))"

definition lh_retrieve_key :: "'a lhash_st \<Rightarrow> 'k \<Rightarrow> u32 \<Rightarrow> ('k \<Rightarrow> 'a \<Rightarrow> int) \<Rightarrow> 'a option" where
  "lh_retrieve_key lh k key_hash cmp_key =
     map_option item_data (deref_link lh (get_next_ptr_by_key lh k key_hash cmp_key))"

section \<open>Resizing\<close>

definition rebucket_item :: "nat \<Rightarrow> 'a lhash_item \<Rightarrow> 'a lhash_item list list \<Rightarrow> 'a lhash_item list list" where
  "rebucket_item n cur new_buckets =
     (let new_bucket = unat (item_hash cur) mod n
      in new_buckets[new_bucket := cur # new_buckets ! new_bucket])"

definition lh_rebucket :: "heap_env \<Rightarrow> nat \<Rightarrow> 'a lhash_st \<Rightarrow> 'a lhash_st" where
  "lh_rebucket env new_num_buckets lh =
     (let alloc_size = 8 * new_num_buckets mod 2 ^ 64
      in if alloc_size div 8 \<noteq> new_num_buckets then lh
         else case OPENSSL_malloc env alloc_size of
                None \<Rightarrow> lh
              | Some _ \<Rightarrow>
                  lh\<lparr>lh_num_buckets := new_num_buckets,
                     lh_buckets := fold (\<lambda>i. fold (rebucket_item new_num_buckets) (lh_buckets lh ! i))
                       [0..<lh_num_buckets lh] (replicate new_num_buckets [])\<rparr>)"

definition lh_maybe_resize :: "heap_env \<Rightarrow> 'a lhash_st \<Rightarrow> 'a lhash_st" where
  "lh_maybe_resize env lh =
     (if lh_callback_depth lh > 0 then lh
      else let avg_chain_length = lh_items lh div lh_num_buckets lh
           in if avg_chain_length > kMaxAverageChainLength
              then (let new_num_buckets = lh_num_buckets lh * 2 mod 2 ^ 64
                    in if new_num_buckets > lh_num_buckets lh
                       then lh_rebucket env new_num_buckets lh else lh)
              else if avg_chain_length < kMinAverageChainLength \<and> lh_num_buckets lh > kMinNumBuckets
              then (let new_num_buckets = lh_num_buckets lh div 2
                    in lh_rebucket env
                         (if new_num_buckets < kMinNumBuckets then kMinNumBuckets else new_num_buckets) lh)
              else lh)"

section \<open>Insertion and removal\<close>

text \<open>\<open>lh_insert\<close> gives its result (one as \<open>True\<close>), \<open>*old_data\<close> and the table.\<close>

definition lh_insert :: "heap_env \<Rightarrow> 'a lhash_st \<Rightarrow> 'a \<Rightarrow> bool \<times> 'a option \<times> 'a lhash_st" where
  "lh_insert env lh data =
     (let ((b, i), hash) = get_next_ptr_and_hash lh data;
          chain = lh_buckets lh ! b
      in case deref_link lh (b, i) of
           Some item \<Rightarrow>
             (True, Some (item_data item),
              lh\<lparr>lh_buckets := (lh_buckets lh)[b := chain[i := item\<lparr>item_data := data\<rparr>]]\<rparr>)
         | None \<Rightarrow>
             (case OPENSSL_malloc env sizeof_LHASH_ITEM of
                None \<Rightarrow> (False, None, lh)
              | Some _ \<Rightarrow>
                  (let item = \<lparr>item_addr = lh_fresh lh, item_data = data, item_hash = hash\<rparr>
                   in (True, None, lh_maybe_resize env
                        (lh\<lparr>lh_buckets := (lh_buckets lh)[b := take i chain @ [item]],
                            lh_items := lh_items lh + 1,
                            lh_fresh := lh_fresh lh + 1\<rparr>)))))"

definition lh_delete :: "heap_env \<Rightarrow> 'a lhash_st \<Rightarrow> 'a \<Rightarrow> 'a option \<times> 'a lhash_st" where
  "lh_delete env lh data =
     (let (b, i) = fst (get_next_ptr_and_hash lh data);
          chain = lh_buckets lh ! b
      in case deref_link lh (b, i) of
           None \<Rightarrow> (None, lh)
         | Some item \<Rightarrow>
             (Some (item_data item), lh_maybe_resize env
               (lh\<lparr>lh_buckets := (lh_buckets lh)[b := take i chain @ drop (Suc i) chain],
                   lh_items := lh_items lh - 1\<rparr>)))"

section \<open>Iteration\<close>

text \<open>
  The callback gets an element and the table with whatever else it works on, and may change
  both; \<open>None\<close> is no behaviour. Before the callback runs, the address of the next item is
  read; following it to an item that is no longer in the chain is a use after free.
\<close>

type_synonym ('a, 's) doall_func = "'a \<Rightarrow> 'a lhash_st \<times> 's \<Rightarrow> ('a lhash_st \<times> 's) option"

definition chain_head :: "'a lhash_item list \<Rightarrow> nat option" where
  "chain_head chain = (case chain of [] \<Rightarrow> None | cur # _ \<Rightarrow> Some (item_addr cur))"

partial_function (option) doall_chain ::
    "('a, 's) doall_func \<Rightarrow> nat \<Rightarrow> nat option \<Rightarrow> 'a lhash_st \<times> 's \<Rightarrow> ('a lhash_st \<times> 's) option" where
  "doall_chain func i cur st =
     (case cur of
        None \<Rightarrow> Some st
      | Some p \<Rightarrow>
          (case dropWhile (\<lambda>it. item_addr it \<noteq> p) (lh_buckets (fst st) ! i) of
             [] \<Rightarrow> None
           | it # rest \<Rightarrow>
               Option.bind (func (item_data it) st) (doall_chain func i (chain_head rest))))"

partial_function (option) doall_buckets ::
    "('a, 's) doall_func \<Rightarrow> nat \<Rightarrow> 'a lhash_st \<times> 's \<Rightarrow> ('a lhash_st \<times> 's) option" where
  "doall_buckets func i st =
     (if i < lh_num_buckets (fst st)
      then Option.bind (doall_chain func i (chain_head (lh_buckets (fst st) ! i)) st)
             (doall_buckets func (Suc i))
      else Some st)"

definition UINT_MAX :: u32 where "UINT_MAX = 0xffffffff"

definition lh_doall_arg :: "heap_env \<Rightarrow> ('a, 's) doall_func \<Rightarrow> 'a lhash_st \<times> 's \<Rightarrow> ('a lhash_st \<times> 's) option" where
  "lh_doall_arg env func st =
     (let enter = (\<lambda>lh. if lh_callback_depth lh < UINT_MAX
                        then lh\<lparr>lh_callback_depth := lh_callback_depth lh + 1\<rparr> else lh);
          leave = (\<lambda>lh. if lh_callback_depth lh < UINT_MAX
                        then lh\<lparr>lh_callback_depth := lh_callback_depth lh - 1\<rparr> else lh)
      in do { (lh, s) \<leftarrow> doall_buckets func 0 (enter (fst st), snd st);
              Some (lh_maybe_resize env (leave lh), s) })"

definition lh_strhash :: "bytes option \<Rightarrow> u32 option" where
  "lh_strhash c =
     (case c of
        None \<Rightarrow> Some 0
      | Some str \<Rightarrow> map_option (\<lambda>n. OPENSSL_hash32 (take n str)) (c_strlen str))"

section \<open>Well-formed tables\<close>

definition lh_all :: "'a lhash_st \<Rightarrow> 'a lhash_item list" where
  "lh_all lh = concat (lh_buckets lh)"

text \<open>
  The invariant: every item sits in the bucket its cached hash names and caches the hash of
  its element, the count is right, and the size of the array is a possible one.
\<close>

definition bucket_ok :: "'a lhash_st \<Rightarrow> nat \<Rightarrow> bool" where
  "bucket_ok lh b \<longleftrightarrow> (\<forall>it \<in> set (lh_buckets lh ! b).
     item_hash it = lh_hash lh (item_data it) \<and> unat (item_hash it) mod lh_num_buckets lh = b)"

definition lh_wf :: "'a lhash_st \<Rightarrow> bool" where
  "lh_wf lh \<longleftrightarrow> length (lh_buckets lh) = lh_num_buckets lh \<and>
     kMinNumBuckets \<le> lh_num_buckets lh \<and> lh_num_buckets lh < 2 ^ 61 \<and>
     (\<forall>b < lh_num_buckets lh. bucket_ok lh b) \<and>
     distinct (map item_addr (lh_all lh)) \<and> (\<forall>it \<in> set (lh_all lh). item_addr it < lh_fresh lh) \<and>
     lh_items lh = length (lh_all lh)"

text \<open>
  What the caller of the table promises: comparison is equality of some key of the elements,
  and elements with equal keys have equal hashes.
\<close>

definition lh_keyed :: "('a \<Rightarrow> 'k) \<Rightarrow> 'a lhash_st \<Rightarrow> bool" where
  "lh_keyed key lh \<longleftrightarrow> (\<forall>x y. lh_comp lh x y = 0 \<longleftrightarrow> key x = key y) \<and>
     (\<forall>x y. key x = key y \<longrightarrow> lh_hash lh x = lh_hash lh y)"

lemma lh_keyed_comp: "lh_keyed key lh \<Longrightarrow> lh_comp lh x y = 0 \<longleftrightarrow> key x = key y"
  by (simp add: lh_keyed_def)

lemma lh_keyed_hash: "lh_keyed key lh \<Longrightarrow> key x = key y \<Longrightarrow> lh_hash lh x = lh_hash lh y"
  unfolding lh_keyed_def by blast

definition lh_ok :: "('a \<Rightarrow> 'k) \<Rightarrow> 'a lhash_st \<Rightarrow> bool" where
  "lh_ok key lh \<longleftrightarrow> lh_wf lh \<and> lh_keyed key lh \<and> distinct (map (\<lambda>it. key (item_data it)) (lh_all lh))"

text \<open>What the table stands for: a map from keys to elements.\<close>

definition key_pairs :: "('a \<Rightarrow> 'k) \<Rightarrow> 'a lhash_item list \<Rightarrow> ('k \<times> 'a) list" where
  "key_pairs key items = map (\<lambda>it. (key (item_data it), item_data it)) items"

definition lh_map :: "('a \<Rightarrow> 'k) \<Rightarrow> 'a lhash_st \<Rightarrow> 'k \<Rightarrow> 'a option" where
  "lh_map key lh = map_of (key_pairs key (lh_all lh))"

lemma fst_key_pairs [simp]: "fst ` set (key_pairs key items) = (\<lambda>it. key (item_data it)) ` set items"
  by (force simp: key_pairs_def)

lemma map_fst_key_pairs [simp]: "map fst (key_pairs key items) = map (\<lambda>it. key (item_data it)) items"
  by (simp add: key_pairs_def comp_def)

lemma key_pairs_append [simp]: "key_pairs key (xs @ ys) = key_pairs key xs @ key_pairs key ys"
  "key_pairs key [] = []"
  "key_pairs key (it # ys) = (key (item_data it), item_data it) # key_pairs key ys"
  by (simp_all add: key_pairs_def)

text \<open>One entry of an association list replaced, added or taken out.\<close>

lemma map_of_middle:
  assumes "k \<notin> fst ` set xs"
  shows "map_of (xs @ (k, v) # ys) = (map_of (xs @ ys))(k \<mapsto> v)"
    and "map_of (xs @ (k, v) # ys) = (map_of (xs @ (k, w) # ys))(k \<mapsto> v)"
    and "k \<notin> fst ` set ys \<Longrightarrow> map_of (xs @ ys) = (map_of (xs @ (k, v) # ys))(k := None)"
    and "map_of (xs @ (k, v) # ys) k = Some v"
proof -
  have none: "map_of xs k = None" using assms by (simp add: map_of_eq_None_iff)
  show "map_of (xs @ (k, v) # ys) = (map_of (xs @ ys))(k \<mapsto> v)"
    and "map_of (xs @ (k, v) # ys) = (map_of (xs @ (k, w) # ys))(k \<mapsto> v)"
    and "map_of (xs @ (k, v) # ys) k = Some v"
    using none by (simp_all add: fun_eq_iff map_add_def split: option.split)
  show "map_of (xs @ ys) = (map_of (xs @ (k, v) # ys))(k := None)" if "k \<notin> fst ` set ys"
  proof -
    have "map_of ys k = None" using that by (simp add: map_of_eq_None_iff)
    then show ?thesis using none by (auto simp: fun_eq_iff map_add_def split: option.split)
  qed
qed

section \<open>Chains\<close>

lemma chain_link_le: "chain_link found chain \<le> length chain"
  by (induction chain) auto

lemma chain_link_found:
  "chain_link found chain < length chain \<Longrightarrow> found (item_data (chain ! chain_link found chain))"
  by (induction chain) auto

lemma chain_link_before:
  "it \<in> set (take (chain_link found chain) chain) \<Longrightarrow> \<not> found (item_data it)"
  by (induction chain) (auto split: if_splits)

lemma concat_split:
  "b < length bs \<Longrightarrow> concat bs = concat (take b bs) @ bs ! b @ concat (drop (Suc b) bs)"
  by (metis concat.simps(2) concat_append id_take_nth_drop)

lemma concat_update:
  "b < length bs \<Longrightarrow> concat (bs[b := c]) = concat (take b bs) @ c @ concat (drop (Suc b) bs)"
  by (simp add: upd_conv_take_nth_drop)

lemma set_bucket_subset: "b < length bs \<Longrightarrow> set (bs ! b) \<subseteq> set (concat bs)"
  by (force simp: in_set_conv_nth)

text \<open>The items of the table before a link, and those after the item it points to.\<close>

definition items_before :: "'a lhash_st \<Rightarrow> nat \<Rightarrow> nat \<Rightarrow> 'a lhash_item list" where
  "items_before lh b i = concat (take b (lh_buckets lh)) @ take i (lh_buckets lh ! b)"

definition items_after :: "'a lhash_st \<Rightarrow> nat \<Rightarrow> nat \<Rightarrow> 'a lhash_item list" where
  "items_after lh b i = drop (Suc i) (lh_buckets lh ! b) @ concat (drop (Suc b) (lh_buckets lh))"

lemma lh_all_at:
  assumes "b < length (lh_buckets lh)" "i < length (lh_buckets lh ! b)"
  shows "lh_all lh = items_before lh b i @ lh_buckets lh ! b ! i # items_after lh b i"
proof -
  let ?chain = "lh_buckets lh ! b"
  have "lh_all lh = concat (take b (lh_buckets lh)) @ ?chain @ concat (drop (Suc b) (lh_buckets lh))"
    using concat_split [OF assms(1)] by (simp add: lh_all_def)
  also have "\<dots> = concat (take b (lh_buckets lh)) @ (take i ?chain @ ?chain ! i # drop (Suc i) ?chain)
      @ concat (drop (Suc b) (lh_buckets lh))"
    using id_take_nth_drop [OF assms(2)] by metis
  finally show ?thesis by (simp add: items_before_def items_after_def)
qed

text \<open>
  Where the search for an element ends: on an item with its key, or past a chain when no
  item of the whole table has the key.
\<close>

lemma get_next_ptr_and_hash_finds:
  assumes ok: "lh_ok key lh" and p: "get_next_ptr_and_hash lh data = ((b, i), hash)"
  obtains (found) it where "b < lh_num_buckets lh" "i < length (lh_buckets lh ! b)"
      "it = lh_buckets lh ! b ! i" "deref_link lh (b, i) = Some it" "key (item_data it) = key data"
      "item_hash it = lh_hash lh data"
      "lh_all lh = items_before lh b i @ it # items_after lh b i"
    | (missing) "b < lh_num_buckets lh" "i = length (lh_buckets lh ! b)" "deref_link lh (b, i) = None"
      "b = unat hash mod lh_num_buckets lh"
      "key data \<notin> (\<lambda>it. key (item_data it)) ` set (lh_all lh)"
proof -
  let ?chain = "lh_buckets lh ! b"
  have wf: "lh_wf lh" and keyed: "lh_keyed key lh" using ok by (auto simp: lh_ok_def)
  have len: "length (lh_buckets lh) = lh_num_buckets lh" and pos: "0 < lh_num_buckets lh"
    using wf by (auto simp: lh_wf_def kMinNumBuckets_def)
  have hash: "hash = lh_hash lh data" and b: "b = unat hash mod lh_num_buckets lh"
    and i: "i = chain_link (\<lambda>d. lh_comp lh d data = 0) ?chain"
    using p by (auto simp: get_next_ptr_and_hash_def Let_def)
  have blt: "b < lh_num_buckets lh" using b pos by simp
  have bok: "bucket_ok lh b" using wf blt by (simp add: lh_wf_def)
  show thesis
  proof (cases "i < length ?chain")
    case True
    let ?it = "?chain ! i"
    have k: "key (item_data ?it) = key data"
      using chain_link_found [of "\<lambda>d. lh_comp lh d data = 0" ?chain] True
      by (simp add: i lh_keyed_comp [OF keyed])
    have all: "lh_all lh = items_before lh b i @ ?it # items_after lh b i"
      using blt len True by (intro lh_all_at) simp_all
    have "item_hash ?it = lh_hash lh (item_data ?it)" using bok nth_mem [OF True] unfolding bucket_ok_def by blast
    also have "\<dots> = lh_hash lh data" using keyed k by (rule lh_keyed_hash)
    finally have h: "item_hash ?it = lh_hash lh data" .
    show thesis
      by (rule found [OF blt True refl _ k h all]) (simp add: deref_link_def True)
  next
    case False
    then have il: "i = length ?chain" using i chain_link_le [of "\<lambda>d. lh_comp lh d data = 0" ?chain] by simp
    have "key data \<noteq> key (item_data it)" if it: "it \<in> set (lh_all lh)" for it
    proof
      assume k: "key data = key (item_data it)"
      obtain c where c: "c < lh_num_buckets lh" "it \<in> set (lh_buckets lh ! c)"
        using it len unfolding lh_all_def by (force simp: in_set_conv_nth)
      then have "bucket_ok lh c" using wf by (simp add: lh_wf_def)
      then have "item_hash it = lh_hash lh (item_data it)" "unat (item_hash it) mod lh_num_buckets lh = c"
        using c(2) unfolding bucket_ok_def by blast+
      moreover have "lh_hash lh (item_data it) = hash" using lh_keyed_hash [OF keyed k] hash by simp
      ultimately have "c = b" using b by simp
      then have "\<not> lh_comp lh (item_data it) data = 0"
        using chain_link_before [of it "\<lambda>d. lh_comp lh d data = 0" ?chain] c il i by simp
      then show False using lh_keyed_comp [OF keyed] k by simp
    qed
    then show thesis using blt il b by (intro missing) (auto simp: deref_link_def)
  qed
qed

theorem lh_retrieve_map:
  assumes "lh_ok key lh"
  shows "lh_retrieve lh x = lh_map key lh (key x)"
proof -
  obtain b i h where p: "get_next_ptr_and_hash lh x = ((b, i), h)" by (metis surj_pair)
  show ?thesis using assms p
  proof (cases rule: get_next_ptr_and_hash_finds)
    case (found it)
    have "key x \<notin> fst ` set (key_pairs key (items_before lh b i))"
      using assms found(5,7) by (auto simp: lh_ok_def)
    then have "lh_map key lh (key x) = Some (item_data it)"
      unfolding lh_map_def found(7) key_pairs_append found(5) by (rule map_of_middle(4))
    then show ?thesis using found(4) p by (simp add: lh_retrieve_def)
  next
    case missing
    then have "lh_map key lh (key x) = None" by (simp add: lh_map_def map_of_eq_None_iff)
    then show ?thesis using missing p by (simp add: lh_retrieve_def)
  qed
qed

section \<open>Resizing keeps the table\<close>

lemma rebucket_items_all:
  assumes "0 < n" "length bs = n"
  shows "length (fold (rebucket_item n) items bs) = n \<and>
    mset (concat (fold (rebucket_item n) items bs)) = mset items + mset (concat bs) \<and>
    (\<forall>b < n. set (fold (rebucket_item n) items bs ! b) =
      {it \<in> set items. unat (item_hash it) mod n = b} \<union> set (bs ! b))"
  using assms(2)
proof (induction items arbitrary: bs)
  case (Cons cur items)
  let ?c = "unat (item_hash cur) mod n" and ?bs = "rebucket_item n cur bs"
  have c: "?c < length bs" using Cons.prems assms(1) by simp
  have len: "length ?bs = n" using Cons.prems by (simp add: rebucket_item_def Let_def)
  have m: "mset (concat ?bs) = add_mset cur (mset (concat bs))"
    using concat_split [OF c] concat_update [OF c, of "cur # bs ! ?c"]
    by (simp add: rebucket_item_def Let_def)
  have "set (?bs ! b) = (if ?c = b then {cur} else {}) \<union> set (bs ! b)" if "b < n" for b
    using c that Cons.prems by (auto simp: rebucket_item_def Let_def nth_list_update)
  then show ?case using Cons.IH [OF len] m by auto
qed simp

lemmas rebucket_items = rebucket_items_all [THEN conjunct1] rebucket_items_all [THEN conjunct2, THEN conjunct1]
  rebucket_items_all [THEN conjunct2, THEN conjunct2, rule_format]

lemma fold_buckets:
  "n = length bs \<Longrightarrow> fold (\<lambda>i. fold f (bs ! i)) [0..<n] s = fold f (concat bs) s"
proof (induction bs arbitrary: n s)
  case (Cons c bs)
  then show ?case
    by (simp add: upt_rec [of 0 "Suc (length bs)"] del: upt_Suc flip: map_Suc_upt)
      (simp add: fold_map comp_def)
qed simp

text \<open>
  \<open>same_table lh lh'\<close>: the same items, perhaps in other buckets and another order; all other
  fields but the size of the array are equal.
\<close>

definition same_table :: "'a lhash_st \<Rightarrow> 'a lhash_st \<Rightarrow> bool" where
  "same_table lh lh' \<longleftrightarrow> mset (lh_all lh') = mset (lh_all lh) \<and>
     lh_items lh' = lh_items lh \<and> lh_callback_depth lh' = lh_callback_depth lh \<and>
     lh_comp lh' = lh_comp lh \<and> lh_hash lh' = lh_hash lh \<and> lh_fresh lh' = lh_fresh lh"

lemma same_table_refl [simp]: "same_table lh lh"
  by (simp add: same_table_def)

lemma lh_rebucket_same:
  assumes wf: "lh_wf lh" and n: "kMinNumBuckets \<le> n" "n < 2 ^ 64"
  shows "lh_wf (lh_rebucket env n lh) \<and> same_table lh (lh_rebucket env n lh)"
proof (cases "8 * n mod 2 ^ 64 div 8 = n \<and> OPENSSL_malloc env (8 * n mod 2 ^ 64) \<noteq> None")
  case False
  then show ?thesis using wf by (auto simp: lh_rebucket_def Let_def split: option.split)
next
  case True
  let ?new = "fold (rebucket_item n) (concat (lh_buckets lh)) (replicate n [])"
  let ?lh = "lh\<lparr>lh_num_buckets := n, lh_buckets := ?new\<rparr>"
  have len: "length (lh_buckets lh) = lh_num_buckets lh" and pos: "0 < n"
    using wf n by (auto simp: lh_wf_def kMinNumBuckets_def)
  have lh: "lh_rebucket env n lh = ?lh"
    using True len by (auto simp: lh_rebucket_def Let_def fold_buckets)
  have "8 * n mod 2 ^ 64 < 2 ^ 64" by simp
  then have "8 * n mod 2 ^ 64 div 8 < 2 ^ 61" by (intro less_mult_imp_div_less) simp
  then have n61: "n < 2 ^ 61" using True by simp
  have all: "mset (lh_all ?lh) = mset (lh_all lh)"
    using rebucket_items(2) [OF pos, of "replicate n []"] by (simp add: lh_all_def)
  then have set_all: "set (lh_all ?lh) = set (lh_all lh)" by (rule mset_eq_setD)
  have hashes: "item_hash it = lh_hash lh (item_data it)" if "it \<in> set (lh_all lh)" for it
    using that wf len unfolding lh_all_def lh_wf_def bucket_ok_def
    by (force simp: in_set_conv_nth [of _ "lh_buckets lh"])
  have "bucket_ok ?lh b" if "b < n" for b
    unfolding bucket_ok_def
  proof (intro ballI conjI)
    fix it assume "it \<in> set (lh_buckets ?lh ! b)"
    then have it: "it \<in> set (lh_all lh)" "unat (item_hash it) mod n = b"
      using rebucket_items(3) [OF pos _ that, of "replicate n []" "concat (lh_buckets lh)"] that
      by (simp_all add: lh_all_def)
    show "item_hash it = lh_hash ?lh (item_data it)" using hashes [OF it(1)] by simp
    show "unat (item_hash it) mod lh_num_buckets ?lh = b" using it(2) by simp
  qed
  moreover have "distinct (map item_addr (lh_all ?lh))"
    using wf all unfolding lh_wf_def by (metis distinct_map mset_eq_imp_distinct_iff mset_eq_setD)
  moreover have "length (lh_all ?lh) = length (lh_all lh)" using all by (rule mset_eq_length)
  ultimately show ?thesis
    using wf n n61 all set_all rebucket_items(1) [OF pos, of "replicate n []"]
    unfolding lh by (simp add: lh_wf_def same_table_def)
qed

lemma lh_maybe_resize_same:
  assumes wf: "lh_wf lh"
  shows "lh_wf (lh_maybe_resize env lh) \<and> same_table lh (lh_maybe_resize env lh)"
proof -
  let ?nb = "lh_num_buckets lh"
  have nb: "kMinNumBuckets \<le> ?nb" "?nb < 2 ^ 61" using wf by (auto simp: lh_wf_def)
  have small: "?nb * 2 mod 2 ^ 64 < 2 ^ 64" "?nb div 2 < 2 ^ 64" "kMinNumBuckets < (2 :: nat) ^ 64"
    using nb(2) by (simp_all add: kMinNumBuckets_def)
  have grow: "kMinNumBuckets \<le> ?nb * 2 mod 2 ^ 64" if "?nb < ?nb * 2 mod 2 ^ 64" using that nb(1) by linarith
  show ?thesis
    using wf lh_rebucket_same [OF wf grow small(1)] lh_rebucket_same [OF wf _ small(2)]
      lh_rebucket_same [OF wf order_refl small(3)]
    unfolding lh_maybe_resize_def Let_def by (simp split: if_split)
qed

text \<open>The order of the entries of an association list does not matter when its keys differ.\<close>

lemma map_of_mset_eq:
  assumes "distinct (map fst xs)" "mset xs = mset ys"
  shows "map_of xs = map_of ys"
proof
  fix k
  have d: "distinct (map fst ys)" using assms by (metis mset_eq_imp_distinct_iff mset_map)
  have "map_of xs k = Some v \<longleftrightarrow> map_of ys k = Some v" for v
    using assms d by (simp add: map_of_eq_Some_iff mset_eq_setD [OF assms(2)])
  then show "map_of xs k = map_of ys k" by (metis not_None_eq)
qed

lemma lh_keyed_cong:
  "lh_comp lh' = lh_comp lh \<Longrightarrow> lh_hash lh' = lh_hash lh \<Longrightarrow> lh_keyed key lh' = lh_keyed key lh"
  by (simp add: lh_keyed_def)

lemma same_table_ok:
  assumes "lh_ok key lh" "lh_wf lh'" "same_table lh lh'"
  shows "lh_ok key lh'" and "lh_map key lh' = lh_map key lh"
proof -
  have m: "mset (map (\<lambda>it. key (item_data it)) (lh_all lh')) = mset (map (\<lambda>it. key (item_data it)) (lh_all lh))"
    using assms(3) by (simp add: same_table_def)
  then have d: "distinct (map (\<lambda>it. key (item_data it)) (lh_all lh'))"
    using assms(1) mset_eq_imp_distinct_iff [OF m] by (simp add: lh_ok_def)
  then show "lh_ok key lh'" using assms lh_keyed_cong [of lh' lh key]
    by (simp add: lh_ok_def same_table_def)
  show "lh_map key lh' = lh_map key lh"
    unfolding lh_map_def using d assms(3)
    by (intro map_of_mset_eq) (simp_all add: key_pairs_def comp_def same_table_def)
qed

section \<open>Insertion and removal keep the table\<close>

text \<open>A chain changed at a link: what stands at the link becomes \<open>xs\<close>.\<close>

definition chain_put :: "'a lhash_st \<Rightarrow> nat \<Rightarrow> nat \<Rightarrow> 'a lhash_item list \<Rightarrow> 'a lhash_item list list" where
  "chain_put lh b i xs =
     (lh_buckets lh)[b := take i (lh_buckets lh ! b) @ xs @ drop (Suc i) (lh_buckets lh ! b)]"

lemma concat_chain_put:
  "b < length (lh_buckets lh) \<Longrightarrow> concat (chain_put lh b i xs) = items_before lh b i @ xs @ items_after lh b i"
  by (simp add: chain_put_def concat_update items_before_def items_after_def)

lemma lh_all_past_end:
  "b < length (lh_buckets lh) \<Longrightarrow> i = length (lh_buckets lh ! b) \<Longrightarrow>
    lh_all lh = items_before lh b i @ items_after lh b i"
  by (simp add: lh_all_def items_before_def items_after_def flip: concat_split)

text \<open>
  The shape shared by the three changes: items go in or out at a link, the count follows, and
  the addresses stay distinct and below the next one.
\<close>

lemma lh_wf_chain_put:
  assumes wf: "lh_wf lh" and b: "b < lh_num_buckets lh"
    and xs: "\<forall>it \<in> set xs. item_hash it = lh_hash lh (item_data it) \<and> unat (item_hash it) mod lh_num_buckets lh = b"
    and addrs: "distinct (map item_addr (items_before lh b i @ xs @ items_after lh b i))"
      "\<forall>it \<in> set (items_before lh b i @ xs @ items_after lh b i). item_addr it < fresh"
    and count: "n = length (items_before lh b i @ xs @ items_after lh b i)"
  shows "lh_wf (lh\<lparr>lh_buckets := chain_put lh b i xs, lh_items := n, lh_fresh := fresh\<rparr>)"
    (is "lh_wf ?lh")
proof -
  have len: "length (lh_buckets lh) = lh_num_buckets lh" using wf by (simp add: lh_wf_def)
  have all: "lh_all ?lh = items_before lh b i @ xs @ items_after lh b i"
    using concat_chain_put [of b lh i xs] b len by (simp add: lh_all_def)
  have "bucket_ok ?lh c" if "c < lh_num_buckets lh" for c
  proof -
    have "bucket_ok lh c" using wf that by (simp add: lh_wf_def)
    moreover have "set (chain_put lh b i xs ! c) \<subseteq> set (lh_buckets lh ! c) \<union> (if c = b then set xs else {})"
      using b len by (auto simp: chain_put_def nth_list_update dest: in_set_takeD in_set_dropD)
    ultimately show ?thesis using xs unfolding bucket_ok_def by (auto split: if_splits)
  qed
  then show ?thesis using wf addrs count all len
    by (simp add: lh_wf_def) (simp add: chain_put_def)
qed

text \<open>An item is given a new element with the same key.\<close>

lemma chain_put_replace:
  fixes lh x b i
  defines "lh' \<equiv> lh\<lparr>lh_buckets := chain_put lh b i [(lh_buckets lh ! b ! i)\<lparr>item_data := x\<rparr>]\<rparr>"
  assumes ok: "lh_ok key lh" and b: "b < lh_num_buckets lh" and it: "it = lh_buckets lh ! b ! i"
    and i: "i < length (lh_buckets lh ! b)" and k: "key (item_data it) = key x"
    and hash: "item_hash it = lh_hash lh x"
    and split: "lh_all lh = items_before lh b i @ it # items_after lh b i"
  shows "lh_ok key lh'" and "lh_map key lh' = (lh_map key lh)(key x \<mapsto> x)"
    and "lh_map key lh (key x) = Some (item_data it)"
proof -
  let ?it = "it\<lparr>item_data := x\<rparr>"
  have wf: "lh_wf lh" using ok by (simp add: lh_ok_def)
  have all: "lh_all lh' = items_before lh b i @ ?it # items_after lh b i"
    using concat_chain_put [of b lh i "[?it]"] b wf by (simp add: lh_all_def lh'_def it lh_wf_def)
  have "bucket_ok lh b" "it \<in> set (lh_buckets lh ! b)" using wf b i it by (simp_all add: lh_wf_def)
  then have "unat (item_hash it) mod lh_num_buckets lh = b" unfolding bucket_ok_def by blast
  then have "lh_wf (lh\<lparr>lh_buckets := chain_put lh b i [?it], lh_items := lh_items lh, lh_fresh := lh_fresh lh\<rparr>)"
    using hash split wf by (intro lh_wf_chain_put [OF wf b]) (simp_all add: lh_wf_def)
  then have "lh_wf lh'" by (simp add: lh'_def it)
  then show "lh_ok key lh'"
    using lh_keyed_cong [of lh' lh key] ok k split all by (simp add: lh_ok_def lh'_def)
  have notin: "key x \<notin> fst ` set (key_pairs key (items_before lh b i))" using ok k split by (auto simp: lh_ok_def)
  have maps: "lh_map key lh = map_of (key_pairs key (items_before lh b i) @ (key x, item_data it) # key_pairs key (items_after lh b i))"
    "lh_map key lh' = map_of (key_pairs key (items_before lh b i) @ (key x, x) # key_pairs key (items_after lh b i))"
    by (simp_all add: lh_map_def all k split)
  show "lh_map key lh' = (lh_map key lh)(key x \<mapsto> x)" unfolding maps by (rule map_of_middle(2) [OF notin])
  show "lh_map key lh (key x) = Some (item_data it)" unfolding maps by (rule map_of_middle(4) [OF notin])
qed

text \<open>An item is added at the end of its chain.\<close>

lemma chain_put_add:
  fixes lh x b i
  defines "it \<equiv> \<lparr>item_addr = lh_fresh lh, item_data = x, item_hash = lh_hash lh x\<rparr>"
  defines "lh' \<equiv> lh\<lparr>lh_buckets := chain_put lh b i [it], lh_items := lh_items lh + 1, lh_fresh := lh_fresh lh + 1\<rparr>"
  assumes ok: "lh_ok key lh" and b: "b < lh_num_buckets lh" "b = unat (lh_hash lh x) mod lh_num_buckets lh"
    and i: "i = length (lh_buckets lh ! b)"
    and new: "key x \<notin> (\<lambda>it. key (item_data it)) ` set (lh_all lh)"
  shows "lh_ok key lh'" and "lh_map key lh' = (lh_map key lh)(key x \<mapsto> x)"
proof -
  have wf: "lh_wf lh" using ok by (simp add: lh_ok_def)
  then have bl: "b < length (lh_buckets lh)" using b by (simp add: lh_wf_def)
  have split: "lh_all lh = items_before lh b i @ items_after lh b i" by (rule lh_all_past_end [OF bl i])
  have new': "key x \<notin> (\<lambda>it. key (item_data it)) ` set (items_before lh b i)"
    "key x \<notin> (\<lambda>it. key (item_data it)) ` set (items_after lh b i)" using new by (auto simp: split)
  have all: "lh_all lh' = items_before lh b i @ it # items_after lh b i"
    using concat_chain_put [OF bl, of i "[it]"] by (simp add: lh_all_def lh'_def)
  have "lh_wf lh'" unfolding lh'_def
    using split wf b by (intro lh_wf_chain_put [OF wf b(1)]) (auto simp: less_Suc_eq lh_wf_def it_def)
  then show "lh_ok key lh'"
    using lh_keyed_cong [of lh' lh key] ok split all new' by (simp add: lh_ok_def lh'_def it_def)
  have "key x \<notin> fst ` set (key_pairs key (items_before lh b i))" using new' by simp
  then show "lh_map key lh' = (lh_map key lh)(key x \<mapsto> x)"
    unfolding lh_map_def all split it_def key_pairs_append lhash_item.simps by (rule map_of_middle(1))
qed

text \<open>An item is taken out.\<close>

lemma chain_put_remove:
  fixes lh b i
  defines "lh' \<equiv> lh\<lparr>lh_buckets := chain_put lh b i [], lh_items := lh_items lh - 1\<rparr>"
  assumes ok: "lh_ok key lh" and b: "b < lh_num_buckets lh" and k: "key (item_data it) = key x"
    and split: "lh_all lh = items_before lh b i @ it # items_after lh b i"
  shows "lh_ok key lh'" and "lh_map key lh' = (lh_map key lh)(key x := None)"
    and "lh_map key lh (key x) = Some (item_data it)" and "lh_items lh' = lh_items lh - 1" and "0 < lh_items lh"
proof -
  have wf: "lh_wf lh" using ok by (simp add: lh_ok_def)
  have all: "lh_all lh' = items_before lh b i @ items_after lh b i"
    using concat_chain_put [of b lh i "[]"] b wf by (simp add: lh_all_def lh'_def lh_wf_def)
  have "lh_wf (lh\<lparr>lh_buckets := chain_put lh b i [], lh_items := lh_items lh - 1, lh_fresh := lh_fresh lh\<rparr>)"
    using split wf by (intro lh_wf_chain_put [OF wf b]) (simp_all add: lh_wf_def)
  then have "lh_wf lh'" by (simp add: lh'_def)
  then show "lh_ok key lh'"
    using lh_keyed_cong [of lh' lh key] ok split all by (simp add: lh_ok_def lh'_def)
  have notin: "key x \<notin> fst ` set (key_pairs key (items_before lh b i))"
    "key x \<notin> fst ` set (key_pairs key (items_after lh b i))" using ok k split by (auto simp: lh_ok_def)
  have maps: "lh_map key lh = map_of (key_pairs key (items_before lh b i) @ (key x, item_data it) # key_pairs key (items_after lh b i))"
    "lh_map key lh' = map_of (key_pairs key (items_before lh b i) @ key_pairs key (items_after lh b i))"
    by (simp_all add: lh_map_def all k split)
  show "lh_map key lh' = (lh_map key lh)(key x := None)" unfolding maps by (rule map_of_middle(3) [OF notin])
  show "lh_map key lh (key x) = Some (item_data it)" unfolding maps by (rule map_of_middle(4) [OF notin(1)])
  show "lh_items lh' = lh_items lh - 1" by (simp add: lh'_def)
  show "0 < lh_items lh" using wf split by (simp add: lh_wf_def)
qed

theorem lh_insert_map:
  assumes ok: "lh_ok key lh" and ins: "lh_insert env lh x = (r, old, lh')"
  shows "lh_ok key lh' \<and>
    (if r then old = lh_map key lh (key x) \<and> lh_map key lh' = (lh_map key lh)(key x \<mapsto> x)
     else old = None \<and> lh' = lh \<and> lh_map key lh (key x) = None \<and> OPENSSL_malloc env sizeof_LHASH_ITEM = None)"
proof -
  obtain b i h where p: "get_next_ptr_and_hash lh x = ((b, i), h)" by (metis surj_pair)
  then have h: "h = lh_hash lh x" by (auto simp: get_next_ptr_and_hash_def Let_def)
  show ?thesis using ok p
  proof (cases rule: get_next_ptr_and_hash_finds)
    case (found it)
    have "(lh_buckets lh)[b := (lh_buckets lh ! b)[i := it\<lparr>item_data := x\<rparr>]] = chain_put lh b i [it\<lparr>item_data := x\<rparr>]"
      using found(2) by (simp add: chain_put_def upd_conv_take_nth_drop)
    then have "r \<and> old = Some (item_data it) \<and> lh' = lh\<lparr>lh_buckets := chain_put lh b i [it\<lparr>item_data := x\<rparr>]\<rparr>"
      using ins p found(4) by (auto simp: lh_insert_def Let_def)
    then show ?thesis using chain_put_replace [OF ok found(1,3,2,5,6,7)] found(3) by simp
  next
    case missing
    have none: "lh_map key lh (key x) = None" using missing(5) by (simp add: lh_map_def map_of_eq_None_iff)
    let ?it = "\<lparr>item_addr = lh_fresh lh, item_data = x, item_hash = lh_hash lh x\<rparr>"
    let ?lh = "lh\<lparr>lh_buckets := chain_put lh b i [?it], lh_items := lh_items lh + 1, lh_fresh := lh_fresh lh + 1\<rparr>"
    have put: "chain_put lh b i [?it] = (lh_buckets lh)[b := take i (lh_buckets lh ! b) @ [?it]]"
      using missing(2) by (simp add: chain_put_def)
    show ?thesis
    proof (cases "OPENSSL_malloc env sizeof_LHASH_ITEM")
      case None
      then have "(r, old, lh') = (False, None, lh)" using ins p missing(3) by (auto simp: lh_insert_def Let_def)
      then show ?thesis using ok none None by simp
    next
      case (Some blk)
      then have res: "r" "old = None" "lh' = lh_maybe_resize env ?lh"
        using ins p missing(3) put h by (auto simp: lh_insert_def Let_def)
      note add = chain_put_add [OF ok missing(1) _ missing(2,5), folded h, OF missing(4)]
      have "lh_wf ?lh" using add(1) h by (simp add: lh_ok_def)
      then show ?thesis
        using lh_maybe_resize_same [of ?lh env] same_table_ok [of key ?lh lh'] add res none h by simp
    qed
  qed
qed

theorem lh_delete_map:
  assumes ok: "lh_ok key lh" and del: "lh_delete env lh x = (old, lh')"
  shows "lh_ok key lh' \<and> old = lh_map key lh (key x) \<and> lh_map key lh' = (lh_map key lh)(key x := None)"
proof -
  obtain b i h where p: "get_next_ptr_and_hash lh x = ((b, i), h)" by (metis surj_pair)
  show ?thesis using ok p
  proof (cases rule: get_next_ptr_and_hash_finds)
    case (found it)
    let ?lh = "lh\<lparr>lh_buckets := chain_put lh b i [], lh_items := lh_items lh - 1\<rparr>"
    have res: "old = Some (item_data it)" "lh' = lh_maybe_resize env ?lh"
      using del p found(4) by (auto simp: lh_delete_def chain_put_def Let_def)
    note rem = chain_put_remove [OF ok found(1,5,7)]
    have "lh_wf ?lh" using rem(1) by (simp add: lh_ok_def)
    then show ?thesis
      using lh_maybe_resize_same [of ?lh env] same_table_ok [of key ?lh lh'] rem res by simp
  next
    case missing
    have none: "lh_map key lh (key x) = None" using missing(5) by (simp add: lh_map_def map_of_eq_None_iff)
    moreover have "(old, lh') = (None, lh)" using del p missing(3) by (auto simp: lh_delete_def Let_def)
    ultimately show ?thesis using ok by (simp add: fun_upd_idem)
  qed
qed

lemma lh_new_map:
  assumes "\<And>x y. cmp x y = 0 \<longleftrightarrow> key x = key y" "\<And>x y. key x = key y \<Longrightarrow> hash_fn x = hash_fn y"
    and "lh_new env hash_fn cmp = Some lh"
  shows "lh_ok key lh \<and> lh_map key lh = Map.empty"
proof -
  have lh: "lh = \<lparr>lh_items = 0, lh_buckets = replicate kMinNumBuckets [],
            lh_num_buckets = kMinNumBuckets, lh_callback_depth = 0,
            lh_comp = cmp, lh_hash = hash_fn, lh_fresh = 0\<rparr>"
    using assms(3) by (auto simp: lh_new_def bind_eq_Some_conv)
  have "lh_keyed key lh" unfolding lh_keyed_def lh lhash_st.simps using assms(1,2) by blast
  then show ?thesis
    by (simp add: lh_ok_def lh_wf_def lh_map_def lh_all_def bucket_ok_def lh kMinNumBuckets_def)
qed

section \<open>Tables as maps\<close>

text \<open>
  The interface of a keyed table, as its clients use it: every operation is the one of the map
  from keys to elements; an insertion that fails has changed nothing. \<open>'e\<close> is what an operation
  depends on beside the table, here the allocator.
\<close>

datatype ('e, 'a) table_op = Insert 'e 'a | Delete 'e 'a | Retrieve 'a

fun table_run :: "('t \<Rightarrow> 'a \<Rightarrow> 'a option) \<Rightarrow> ('e \<Rightarrow> 't \<Rightarrow> 'a \<Rightarrow> bool \<times> 'a option \<times> 't) \<Rightarrow>
    ('e \<Rightarrow> 't \<Rightarrow> 'a \<Rightarrow> 'a option \<times> 't) \<Rightarrow> ('e, 'a) table_op list \<Rightarrow> 't \<Rightarrow> (bool \<times> 'a option) list \<times> 't" where
  "table_run ret ins del [] t = ([], t)"
| "table_run ret ins del (Insert e x # ops) t =
     (let (r, old, t') = ins e t x; (rs, t'') = table_run ret ins del ops t' in ((r, old) # rs, t''))"
| "table_run ret ins del (Delete e x # ops) t =
     (let (old, t') = del e t x; (rs, t'') = table_run ret ins del ops t' in ((True, old) # rs, t''))"
| "table_run ret ins del (Retrieve x # ops) t =
     (let (rs, t'') = table_run ret ins del ops t in ((True, ret t x) # rs, t''))"

text \<open>The same operations on a map, told which insertions were served.\<close>

fun map_run :: "('a \<Rightarrow> 'k) \<Rightarrow> ('e, 'a) table_op list \<Rightarrow> bool list \<Rightarrow> ('k \<Rightarrow> 'a option) \<Rightarrow>
    'a option list \<times> ('k \<Rightarrow> 'a option)" where
  "map_run key (Insert e x # ops) (r # rs) m =
     (let (os, m') = map_run key ops rs (if r then m(key x \<mapsto> x) else m)
      in ((if r then m (key x) else None) # os, m'))"
| "map_run key (Delete e x # ops) (r # rs) m =
     (let (os, m') = map_run key ops rs (m(key x := None)) in (m (key x) # os, m'))"
| "map_run key (Retrieve x # ops) (r # rs) m =
     (let (os, m') = map_run key ops rs m in (m (key x) # os, m'))"
| "map_run key _ _ m = ([], m)"

fun refused :: "('e \<Rightarrow> bool) \<Rightarrow> ('e, 'a) table_op \<Rightarrow> bool" where
  "refused no_memory (Insert e x) = no_memory e"
| "refused no_memory _ = False"

locale keyed_table =
  fixes key :: "'a \<Rightarrow> 'k" and t_ok :: "'t \<Rightarrow> bool" and t_map :: "'t \<Rightarrow> 'k \<Rightarrow> 'a option"
    and ret :: "'t \<Rightarrow> 'a \<Rightarrow> 'a option" and ins :: "'e \<Rightarrow> 't \<Rightarrow> 'a \<Rightarrow> bool \<times> 'a option \<times> 't"
    and del :: "'e \<Rightarrow> 't \<Rightarrow> 'a \<Rightarrow> 'a option \<times> 't" and no_memory :: "'e \<Rightarrow> bool"
  assumes ret_map: "t_ok t \<Longrightarrow> ret t x = t_map t (key x)"
    and ins_map: "t_ok t \<Longrightarrow> ins e t x = (r, old, t') \<Longrightarrow> t_ok t' \<and>
      (if r then old = t_map t (key x) \<and> t_map t' = (t_map t)(key x \<mapsto> x)
       else old = None \<and> t' = t \<and> t_map t (key x) = None \<and> no_memory e)"
    and del_map: "t_ok t \<Longrightarrow> del e t x = (old, t') \<Longrightarrow>
      t_ok t' \<and> old = t_map t (key x) \<and> t_map t' = (t_map t)(key x := None)"
begin

lemma run_map:
  "t_ok t \<Longrightarrow> table_run ret ins del ops t = (rs, t') \<Longrightarrow>
    t_ok t' \<and> map_run key ops (map fst rs) (t_map t) = (map snd rs, t_map t') \<and>
    list_all2 (\<lambda>op r. fst r \<or> refused no_memory op) ops rs"
proof (induction ops arbitrary: t rs t')
  case (Cons op ops)
  show ?case
  proof (cases op)
    case (Insert e x)
    obtain r old t1 where i: "ins e t x = (r, old, t1)" by (metis prod_cases3)
    obtain rs1 t2 where run: "table_run ret ins del ops t1 = (rs1, t2)" by fastforce
    note m = ins_map [OF Cons.prems(1) i]
    show ?thesis using Cons.prems(2) Insert i run m Cons.IH [OF _ run]
      by (cases r) (auto simp del: fun_upd_apply)
  next
    case (Delete e x)
    obtain old t1 where d: "del e t x = (old, t1)" by fastforce
    obtain rs1 t2 where run: "table_run ret ins del ops t1 = (rs1, t2)" by fastforce
    show ?thesis using Cons.prems(2) Delete d run del_map [OF Cons.prems(1) d] Cons.IH [OF _ run]
      by (auto simp del: fun_upd_apply)
  next
    case (Retrieve x)
    obtain rs1 t2 where run: "table_run ret ins del ops t = (rs1, t2)" by fastforce
    show ?thesis using Cons.prems Retrieve run ret_map [OF Cons.prems(1)] Cons.IH [OF _ run] by auto
  qed
qed simp

end

definition item_refused :: "heap_env \<Rightarrow> bool" where
  "item_refused env \<longleftrightarrow> OPENSSL_malloc env sizeof_LHASH_ITEM = None"

interpretation lh: keyed_table key "lh_ok key" "lh_map key" lh_retrieve lh_insert lh_delete item_refused
proof
  show "lh_ok key t \<Longrightarrow> lh_retrieve t x = lh_map key t (key x)" for t x by (rule lh_retrieve_map)
  show "lh_ok key t \<Longrightarrow> lh_insert e t x = (r, old, t') \<Longrightarrow> lh_ok key t' \<and>
      (if r then old = lh_map key t (key x) \<and> lh_map key t' = (lh_map key t)(key x \<mapsto> x)
       else old = None \<and> t' = t \<and> lh_map key t (key x) = None \<and> item_refused e)" for e t x r old t'
    unfolding item_refused_def by (rule lh_insert_map)
  show "lh_ok key t \<Longrightarrow> lh_delete e t x = (old, t') \<Longrightarrow>
      lh_ok key t' \<and> old = lh_map key t (key x) \<and> lh_map key t' = (lh_map key t)(key x := None)"
    for e t x old t' by (rule lh_delete_map)
qed

abbreviation (input) lh_run :: "(heap_env, 'a) table_op list \<Rightarrow> 'a lhash_st \<Rightarrow> (bool \<times> 'a option) list \<times> 'a lhash_st" where
  "lh_run \<equiv> table_run lh_retrieve lh_insert lh_delete"

text \<open>C26. A hash table is a map: whatever is inserted, removed and looked up, and however often the
  array of buckets is grown, shrunk or fails to be, every call gives what the map from keys to
  elements gives. An insertion is refused only when there is no memory for its item, and then
  nothing has changed.
\<close>

theorem lh_run_exact:
  assumes "\<And>x y. cmp x y = 0 \<longleftrightarrow> key x = key y" "\<And>x y. key x = key y \<Longrightarrow> hash_fn x = hash_fn y"
    and "lh_new env hash_fn cmp = Some lh" and "lh_run ops lh = (rs, lh')"
  shows "map_run key ops (map fst rs) Map.empty = (map snd rs, lh_map key lh') \<and> lh_ok key lh' \<and>
    list_all2 (\<lambda>op r. fst r \<or> refused item_refused op) ops rs"
proof -
  have "lh_ok key lh \<and> lh_map key lh = Map.empty" using assms(1-3) by (rule lh_new_map)
  then show ?thesis using lh.run_map [OF _ assms(4), of key] by simp
qed

definition lh_example_env :: heap_env where
  "lh_example_env = \<lparr>can_alloc = (\<lambda>n. n \<le> 2 ^ 20), junk = (\<lambda>i. 0)\<rparr>"

definition lh_example :: "(nat \<times> nat) lhash_st" where
  "lh_example = the (lh_new lh_example_env (\<lambda>x. of_nat (fst x)) (\<lambda>x y. if fst x = fst y then 0 else 1))"

lemma lh_example_new:
  "lh_new lh_example_env (\<lambda>x. of_nat (fst x)) (\<lambda>x y. if fst x = fst y then 0 else 1) = Some lh_example"
  by (simp add: lh_example_def lh_new_def OPENSSL_malloc_eq lh_example_env_def sizeof_LHASH_def kMinNumBuckets_def Let_def)

theorem lh_run_exact_witness:
  "map snd (fst (lh_run [Insert lh_example_env (1, 5), Insert lh_example_env (17, 6), Insert lh_example_env (1, 7),
     Delete lh_example_env (17, 0), Retrieve (17, 0), Retrieve (1, 0)] lh_example)) =
   [None, None, Some (1, 5), Some (17, 6), None, Some (1, 7)]" (is "map snd (fst (lh_run ?ops _)) = _")
proof -
  obtain rs t where run: "lh_run ?ops lh_example = (rs, t)" by fastforce
  have "\<not> item_refused lh_example_env"
    by (simp add: item_refused_def OPENSSL_malloc_eq lh_example_env_def sizeof_LHASH_ITEM_def Let_def)
  moreover have "map_run fst ?ops (map fst rs) Map.empty = (map snd rs, lh_map fst t) \<and> lh_ok fst t \<and>
      list_all2 (\<lambda>op r. fst r \<or> refused item_refused op) ?ops rs"
    by (rule lh_run_exact [OF _ _ lh_example_new run]) auto
  ultimately show ?thesis unfolding run by (auto simp: list_all2_Cons1)
qed

section \<open>Chains stay short\<close>

text \<open>
  With memory for the arrays, the average chain is shorter than three, and the array is never
  more than sixteen buckets unless every bucket counts an item.
\<close>

definition load_ok :: "'a lhash_st \<Rightarrow> bool" where
  "load_ok lh \<longleftrightarrow> lh_items lh < 3 * lh_num_buckets lh \<and>
     lh_num_buckets lh \<le> max kMinNumBuckets (lh_items lh)"

definition roomy :: "heap_env \<Rightarrow> bool" where
  "roomy env \<longleftrightarrow> (\<forall>n < 2 ^ 62. can_alloc env n)"

lemma roomy_malloc: "roomy env \<Longrightarrow> n < 2 ^ 61 \<Longrightarrow> OPENSSL_malloc env n \<noteq> None"
  by (simp add: roomy_def OPENSSL_malloc_eq Let_def)

lemma lh_rebucket_size:
  assumes "roomy env" "n < 2 ^ 58"
  shows "lh_num_buckets (lh_rebucket env n lh) = n \<and> lh_items (lh_rebucket env n lh) = lh_items lh"
proof -
  have "8 * n mod 2 ^ 64 = 8 * n" using assms(2) by simp
  moreover have "OPENSSL_malloc env (8 * n) \<noteq> None" using assms by (intro roomy_malloc) simp_all
  ultimately show ?thesis by (auto simp: lh_rebucket_def Let_def)
qed

lemma lh_maybe_resize_load:
  assumes "roomy env" "lh_items lh < 2 ^ 57" "lh_callback_depth lh = 0"
    and "kMinNumBuckets \<le> lh_num_buckets lh" "lh_items lh \<le> 3 * lh_num_buckets lh"
    and "lh_num_buckets lh \<le> max kMinNumBuckets (lh_items lh + 1)"
  shows "load_ok (lh_maybe_resize env lh)"
proof -
  let ?nb = "lh_num_buckets lh" and ?k = "lh_items lh"
  have nb: "16 \<le> ?nb" "?nb < 2 ^ 57 + 1" using assms(2,4,6) by (auto simp: kMinNumBuckets_def)
  have pos: "0 < ?nb" using nb(1) by linarith
  have "?k div ?nb \<ge> 3 \<longleftrightarrow> 3 * ?nb \<le> ?k" using less_eq_div_iff_mult_less_eq [OF pos] .
  then have div3: "?k div ?nb > 2 \<longleftrightarrow> ?k = 3 * ?nb" using assms(5) by linarith
  have div1: "?k div ?nb < 1 \<longleftrightarrow> ?k < ?nb" using pos by (simp add: less_one div_eq_0_iff)
  consider (grow) "?k = 3 * ?nb" | (shrink) "?k < ?nb" "?nb > 16" | (stay) "?k < 3 * ?nb" "?nb \<le> ?k \<or> ?nb = 16"
    using assms(5) nb by linarith
  then show ?thesis
  proof cases
    case grow
    have "?nb * 2 mod 2 ^ 64 = ?nb * 2" using nb by simp
    then have "lh_maybe_resize env lh = lh_rebucket env (?nb * 2) lh"
      using assms(3) grow nb div3 by (simp add: lh_maybe_resize_def kMaxAverageChainLength_def Let_def)
    moreover have "?nb * 2 < 2 ^ 58" using grow assms(2) by simp
    ultimately show ?thesis using lh_rebucket_size [OF assms(1), of "?nb * 2" lh] grow nb
      by (simp add: load_ok_def)
  next
    case shrink
    let ?n = "if ?nb div 2 < kMinNumBuckets then kMinNumBuckets else ?nb div 2"
    have "lh_maybe_resize env lh = lh_rebucket env ?n lh"
      using assms(3) shrink div3 div1 nb
      by (simp add: lh_maybe_resize_def kMaxAverageChainLength_def kMinAverageChainLength_def kMinNumBuckets_def Let_def)
    moreover have "?nb div 2 < 2 ^ 58" using nb(2) by (intro le_less_trans [OF div_le_dividend]) simp
    then have "?n < 2 ^ 58" by (simp add: kMinNumBuckets_def)
    moreover have "?k + 1 = ?nb" using shrink assms(6) by (simp add: kMinNumBuckets_def)
    ultimately show ?thesis using lh_rebucket_size [OF assms(1), of ?n lh] shrink
      by (auto simp: load_ok_def kMinNumBuckets_def)
  next
    case stay
    then have "lh_maybe_resize env lh = lh"
      using assms(3) div3 div1
      by (auto simp: lh_maybe_resize_def kMaxAverageChainLength_def kMinAverageChainLength_def kMinNumBuckets_def Let_def)
    then show ?thesis using stay by (auto simp: load_ok_def kMinNumBuckets_def)
  qed
qed

lemma lh_rebucket_fields:
  "lh_items (lh_rebucket env n lh) = lh_items lh" "lh_callback_depth (lh_rebucket env n lh) = lh_callback_depth lh"
  unfolding lh_rebucket_def Let_def by (simp_all split: option.split if_split)

lemma lh_maybe_resize_fields:
  "lh_items (lh_maybe_resize env lh) = lh_items lh \<and> lh_callback_depth (lh_maybe_resize env lh) = lh_callback_depth lh"
  unfolding lh_maybe_resize_def Let_def by (simp add: lh_rebucket_fields split: if_split)

definition resized_from :: "heap_env \<Rightarrow> nat \<Rightarrow> 'a lhash_st \<Rightarrow> 'a lhash_st \<Rightarrow> bool" where
  "resized_from env n lh lh' \<longleftrightarrow> (\<exists>lh1. lh' = lh_maybe_resize env lh1 \<and> lh_items lh1 = n \<and>
     lh_num_buckets lh1 = lh_num_buckets lh \<and> lh_callback_depth lh1 = lh_callback_depth lh)"

definition same_size :: "'a lhash_st \<Rightarrow> 'a lhash_st \<Rightarrow> bool" where
  "same_size lh lh' \<longleftrightarrow> lh_items lh' = lh_items lh \<and> lh_num_buckets lh' = lh_num_buckets lh \<and>
     lh_callback_depth lh' = lh_callback_depth lh"

lemma lh_insert_size:
  "lh_insert env lh x = (r, old, lh') \<Longrightarrow> same_size lh lh' \<or> resized_from env (lh_items lh + 1) lh lh'"
  by (auto simp: lh_insert_def same_size_def resized_from_def Let_def split: prod.splits option.splits intro!: exI)

lemma lh_delete_size:
  "lh_delete env lh x = (old, lh') \<Longrightarrow> same_size lh lh' \<or> resized_from env (lh_items lh - 1) lh lh'"
  by (auto simp: lh_delete_def same_size_def resized_from_def Let_def split: prod.splits option.splits intro!: exI)

text \<open>One change of the table by at most one item keeps the load.\<close>

definition idle_ok :: "'a lhash_st \<Rightarrow> bool" where
  "idle_ok lh \<longleftrightarrow> load_ok lh \<and> lh_callback_depth lh = 0 \<and> lh_wf lh"

lemma resized_idle_ok:
  assumes "roomy env" "idle_ok lh" "lh_wf lh'" "lh_items lh + 1 < 2 ^ 57"
    and n: "n \<le> lh_items lh + 1" "lh_items lh \<le> n + 1"
    and "same_size lh lh' \<or> resized_from env n lh lh'"
  shows "idle_ok lh' \<and> lh_items lh' \<le> lh_items lh + 1"
  using assms(7)
proof
  assume "same_size lh lh'"
  then show ?thesis using assms(2,3) by (simp add: same_size_def idle_ok_def load_ok_def)
next
  assume "resized_from env n lh lh'"
  then obtain lh1 where lh1: "lh' = lh_maybe_resize env lh1" "lh_items lh1 = n"
    "lh_num_buckets lh1 = lh_num_buckets lh" "lh_callback_depth lh1 = lh_callback_depth lh"
    unfolding resized_from_def by blast
  have same: "lh_items lh' = n \<and> lh_callback_depth lh' = lh_callback_depth lh"
    unfolding lh1(1) using lh1(2,4) lh_maybe_resize_fields [of env lh1] by simp
  have "load_ok lh'"
    unfolding lh1(1) using assms(2,4) n lh1
    by (intro lh_maybe_resize_load [OF assms(1)]) (auto simp: idle_ok_def load_ok_def lh_wf_def)
  then show ?thesis using same assms(2,3) n by (simp add: idle_ok_def)
qed

text \<open>The table after any operations of its clients, none of them inside an iteration.\<close>

definition op_env_ok :: "(heap_env, 'a) table_op \<Rightarrow> bool" where
  "op_env_ok op = (case op of Insert e _ \<Rightarrow> roomy e | Delete e _ \<Rightarrow> roomy e | Retrieve _ \<Rightarrow> True)"

lemma lh_run_load_from:
  "list_all op_env_ok ops \<Longrightarrow> lh_ok key lh \<Longrightarrow> idle_ok lh \<Longrightarrow> lh_items lh + length ops < 2 ^ 57 \<Longrightarrow>
    idle_ok (snd (lh_run ops lh))"
proof (induction ops arbitrary: lh)
  case (Cons op ops)
  show ?case
  proof (cases op)
    case (Insert e x)
    obtain r old lh1 where i: "lh_insert e lh x = (r, old, lh1)" by (metis prod_cases3)
    have ok: "lh_ok key lh1" using lh_insert_map [OF Cons.prems(2) i] by simp
    have "idle_ok lh1 \<and> lh_items lh1 \<le> lh_items lh + 1"
      using Cons.prems Insert lh_insert_size [OF i] ok
      by (intro resized_idle_ok [of e lh lh1 "lh_items lh + 1"]) (simp_all add: op_env_ok_def lh_ok_def)
    then show ?thesis using Cons.IH [of lh1] Cons.prems ok i Insert by (simp add: case_prod_beta)
  next
    case (Delete e x)
    obtain old lh1 where d: "lh_delete e lh x = (old, lh1)" by fastforce
    have ok: "lh_ok key lh1" using lh_delete_map [OF Cons.prems(2) d] by simp
    have "idle_ok lh1 \<and> lh_items lh1 \<le> lh_items lh + 1"
      using Cons.prems Delete lh_delete_size [OF d] ok
      by (intro resized_idle_ok [of e lh lh1 "lh_items lh - 1"]) (simp_all add: op_env_ok_def lh_ok_def)
    then show ?thesis using Cons.IH [of lh1] Cons.prems ok d Delete by (simp add: case_prod_beta)
  next
    case (Retrieve x)
    then show ?thesis using Cons.IH [of lh] Cons.prems by (simp add: case_prod_beta)
  qed
qed simp

lemma lh_new_idle:
  assumes "lh_new env hash_fn cmp = Some lh" and "lh_ok key lh"
  shows "idle_ok lh \<and> lh_items lh = 0"
proof -
  have "lh_items lh = 0 \<and> lh_callback_depth lh = 0 \<and> lh_num_buckets lh = kMinNumBuckets"
    using assms(1) by (auto simp: lh_new_def bind_eq_Some_conv)
  then show ?thesis using assms(2) by (simp add: idle_ok_def load_ok_def lh_ok_def kMinNumBuckets_def)
qed

text \<open>C28. Lookups stay cheap: with memory for the arrays, after any client operations on a new table
  the average chain is shorter than three items, and beyond the first sixteen there are no
  more buckets than items.
\<close>

theorem lh_run_load:
  assumes "\<And>x y. cmp x y = 0 \<longleftrightarrow> key x = key y" "\<And>x y. key x = key y \<Longrightarrow> hash_fn x = hash_fn y"
    and "lh_new env hash_fn cmp = Some lh" "list_all op_env_ok ops" "length ops < 2 ^ 57"
  shows "let lh' = snd (lh_run ops lh)
    in lh_num_items lh' < 3 * lh_num_buckets lh' \<and> lh_num_buckets lh' \<le> max kMinNumBuckets (lh_num_items lh')"
proof -
  have ok: "lh_ok key lh" using lh_new_map [OF assms(1,2,3)] by simp
  have "idle_ok lh \<and> lh_items lh = 0" by (rule lh_new_idle [OF assms(3) ok])
  then have "idle_ok (snd (lh_run ops lh))"
    using ok assms(4,5) by (intro lh_run_load_from [of _ key]) simp_all
  then show ?thesis by (simp add: idle_ok_def load_ok_def lh_num_items_def Let_def)
qed

definition lh_roomy_env :: heap_env where
  "lh_roomy_env = \<lparr>can_alloc = (\<lambda>n. True), junk = (\<lambda>i. 0)\<rparr>"

theorem lh_run_load_witness:
  "let lh' = snd (lh_run (map (\<lambda>n. Insert lh_roomy_env (n, 0)) [0..<100]) lh_example)
   in lh_num_items lh' < 3 * lh_num_buckets lh' \<and> lh_num_buckets lh' \<le> max kMinNumBuckets (lh_num_items lh')"
proof -
  show ?thesis
    by (rule lh_run_load [of _ fst, OF _ _ lh_example_new])
      (auto simp: list_all_length op_env_ok_def roomy_def lh_roomy_env_def)
qed

section \<open>Lookup by key, iteration, freeing\<close>

text \<open>A lookup by a key of another type finds what the map has for it.\<close>

lemma lh_retrieve_key_map:
  assumes ok: "lh_ok key lh" and cmp: "\<And>d. cmp_key k d = 0 \<longleftrightarrow> key d = key x" and hash: "key_hash = lh_hash lh x"
  shows "lh_retrieve_key lh k key_hash cmp_key = lh_map key lh (key x)"
proof -
  have "lh_comp lh d x = 0 \<longleftrightarrow> cmp_key k d = 0" for d
    using ok cmp lh_keyed_comp [of key lh d x] by (simp add: lh_ok_def)
  then have "lh_retrieve_key lh k key_hash cmp_key = lh_retrieve lh x"
    by (simp add: lh_retrieve_key_def lh_retrieve_def get_next_ptr_by_key_def get_next_ptr_and_hash_def hash Let_def)
  then show ?thesis using lh_retrieve_map [OF ok] by simp
qed

lemma chain_head_simps [simp]: "chain_head [] = None" "chain_head (it # rest) = Some (item_addr it)"
  by (simp_all add: chain_head_def)

lemma dropWhile_addr:
  assumes "distinct (map item_addr (xs @ it # ys))"
  shows "dropWhile (\<lambda>x. item_addr x \<noteq> item_addr it) (xs @ it # ys) = it # ys"
  using assms by (induction xs) auto

lemma distinct_bucket:
  "distinct (map f (concat bs)) \<Longrightarrow> i < length bs \<Longrightarrow> distinct (map f (bs ! i))"
  using concat_split [of i bs] by simp

text \<open>A callback that leaves the table alone is called once for every element, chain by chain.\<close>

lemma doall_chain_visits:
  assumes "\<And>d s. func d (lh, s) = Some (lh, g d s)" "distinct (map item_addr (xs @ ys))" "lh_buckets lh ! i = xs @ ys"
  shows "doall_chain func i (chain_head ys) (lh, s) = Some (lh, fold g (map item_data ys) s)"
  using assms(2,3)
proof (induction ys arbitrary: xs s)
  case (Cons it ys)
  then show ?case
    using dropWhile_addr [OF Cons.prems(1)] Cons.IH [of "xs @ [it]"] assms(1)
    by (subst doall_chain.simps) simp
qed (simp add: doall_chain.simps)

lemma doall_buckets_visits:
  assumes "\<And>d s. func d (lh, s) = Some (lh, g d s)" "lh_wf lh" "i \<le> lh_num_buckets lh"
  shows "doall_buckets func i (lh, s) = Some (lh, fold g (map item_data (concat (drop i (lh_buckets lh)))) s)"
  using assms(3)
proof (induction i arbitrary: s rule: inc_induct)
  case base
  then show ?case using assms(2) by (simp add: doall_buckets.simps lh_wf_def)
next
  case (step i)
  have len: "length (lh_buckets lh) = lh_num_buckets lh" using assms(2) by (simp add: lh_wf_def)
  have "distinct (map item_addr (lh_buckets lh ! i))"
    using assms(2) step(2) by (intro distinct_bucket) (simp_all add: lh_wf_def lh_all_def)
  then have "doall_chain func i (chain_head (lh_buckets lh ! i)) (lh, s) =
      Some (lh, fold g (map item_data (lh_buckets lh ! i)) s)"
    using doall_chain_visits [of func lh g "[]" "lh_buckets lh ! i"] assms(1) by simp
  moreover have "drop i (lh_buckets lh) = lh_buckets lh ! i # drop (Suc i) (lh_buckets lh)"
    using step(2) len by (simp add: Cons_nth_drop_Suc)
  ultimately show ?case using step by (subst doall_buckets.simps) simp
qed

text \<open>
  A callback that removes the element it is called with: the iteration holds the address of
  the next item while the current one is freed, and resizing is held back.
\<close>

definition delete_it :: "heap_env \<Rightarrow> ('a, 'a list) doall_func" where
  "delete_it env d st = Some (snd (lh_delete env (fst st) d), snd st @ [d])"

lemma lh_delete_head:
  assumes "lh_ok key lh" "0 < lh_callback_depth lh" "i < lh_num_buckets lh" "lh_buckets lh ! i = it # rest"
  shows "lh_delete env lh (item_data it) = (Some (item_data it),
    lh\<lparr>lh_buckets := (lh_buckets lh)[i := rest], lh_items := lh_items lh - 1\<rparr>)"
proof -
  have "bucket_ok lh i" using assms(1,3) by (simp add: lh_ok_def lh_wf_def)
  then have h: "item_hash it = lh_hash lh (item_data it)" "unat (item_hash it) mod lh_num_buckets lh = i"
    using assms(4) by (auto simp: bucket_ok_def)
  have "lh_comp lh (item_data it) (item_data it) = 0"
    using assms(1) lh_keyed_comp [of key lh] by (simp add: lh_ok_def)
  then have "fst (get_next_ptr_and_hash lh (item_data it)) = (i, 0)"
    using h assms(4) by (simp add: get_next_ptr_and_hash_def Let_def)
  then show ?thesis using assms(2,4) by (simp add: lh_delete_def deref_link_def lh_maybe_resize_def)
qed

lemma doall_chain_deletes:
  "lh_ok key lh \<Longrightarrow> 0 < lh_callback_depth lh \<Longrightarrow> i < lh_num_buckets lh \<Longrightarrow> lh_buckets lh ! i = chain \<Longrightarrow>
    \<exists>lh'. doall_chain (delete_it env) i (chain_head chain) (lh, s) = Some (lh', s @ map item_data chain) \<and>
      lh_ok key lh' \<and> lh_callback_depth lh' = lh_callback_depth lh \<and> lh_num_buckets lh' = lh_num_buckets lh \<and>
      lh_buckets lh' = (lh_buckets lh)[i := []]"
proof (induction chain arbitrary: lh s)
  case Nil
  then have "(lh_buckets lh)[i := []] = lh_buckets lh" by (metis list_update_id)
  then show ?case using Nil by (simp add: doall_chain.simps)
next
  case (Cons it rest)
  let ?lh = "lh\<lparr>lh_buckets := (lh_buckets lh)[i := rest], lh_items := lh_items lh - 1\<rparr>"
  have del: "lh_delete env lh (item_data it) = (Some (item_data it), ?lh)"
    by (rule lh_delete_head [OF Cons.prems])
  have ok: "lh_ok key ?lh" using lh_delete_map [OF Cons.prems(1) del] by simp
  have len: "i < length (lh_buckets lh)" using Cons.prems(1,3) by (simp add: lh_ok_def lh_wf_def)
  obtain lh' where "doall_chain (delete_it env) i (chain_head rest) (?lh, s @ [item_data it]) =
       Some (lh', (s @ [item_data it]) @ map item_data rest)"
    "lh_ok key lh'" "lh_callback_depth lh' = lh_callback_depth ?lh" "lh_num_buckets lh' = lh_num_buckets ?lh"
    "lh_buckets lh' = (lh_buckets ?lh)[i := []]"
    using Cons.IH [OF ok, of "s @ [item_data it]"] Cons.prems len by auto
  then show ?case using Cons.prems(4) del
    by (subst doall_chain.simps) (auto simp: delete_it_def)
qed

lemma doall_buckets_deletes:
  assumes "i \<le> lh_num_buckets lh"
  shows "lh_ok key lh \<Longrightarrow> 0 < lh_callback_depth lh \<Longrightarrow>
    \<exists>lh'. doall_buckets (delete_it env) i (lh, s) = Some (lh', s @ map item_data (concat (drop i (lh_buckets lh)))) \<and>
      lh_ok key lh' \<and> lh_callback_depth lh' = lh_callback_depth lh \<and>
      lh_buckets lh' = take i (lh_buckets lh) @ replicate (lh_num_buckets lh - i) []"
  using assms
proof (induction "lh_num_buckets lh - i" arbitrary: i lh s)
  case 0
  then show ?case by (auto simp: doall_buckets.simps lh_ok_def lh_wf_def)
next
  case (Suc m)
  then have i: "i < lh_num_buckets lh" and len: "i < length (lh_buckets lh)"
    by (auto simp: lh_ok_def lh_wf_def)
  obtain lh1 where lh1: "doall_chain (delete_it env) i (chain_head (lh_buckets lh ! i)) (lh, s) =
       Some (lh1, s @ map item_data (lh_buckets lh ! i))"
    "lh_ok key lh1" "lh_callback_depth lh1 = lh_callback_depth lh" "lh_num_buckets lh1 = lh_num_buckets lh"
    "lh_buckets lh1 = (lh_buckets lh)[i := []]"
    using doall_chain_deletes [OF Suc.prems(1,2) i refl, of env s] by blast
  have m: "m = lh_num_buckets lh1 - Suc i" using Suc.hyps(2) lh1(4) by simp
  obtain lh' where lh': "doall_buckets (delete_it env) (Suc i) (lh1, s @ map item_data (lh_buckets lh ! i)) =
       Some (lh', (s @ map item_data (lh_buckets lh ! i)) @ map item_data (concat (drop (Suc i) (lh_buckets lh1))))"
    "lh_ok key lh'" "lh_callback_depth lh' = lh_callback_depth lh1"
    "lh_buckets lh' = take (Suc i) (lh_buckets lh1) @ replicate (lh_num_buckets lh1 - Suc i) []"
    using Suc.hyps(1) [OF m lh1(2), of "s @ map item_data (lh_buckets lh ! i)"] Suc.prems(2) lh1(3,4) i by auto
  have "drop i (lh_buckets lh) = lh_buckets lh ! i # drop (Suc i) (lh_buckets lh)"
    using len by (simp add: Cons_nth_drop_Suc)
  moreover have "take (Suc i) ((lh_buckets lh)[i := []]) = take i (lh_buckets lh) @ [[]]"
    using len by (simp add: take_Suc_conv_app_nth)
  moreover have "lh_num_buckets lh - i = Suc (lh_num_buckets lh - Suc i)" using i by simp
  ultimately show ?case using lh1 lh' i
    by (subst doall_buckets.simps) auto
qed

lemma lh_ok_depth [simp]: "lh_ok key (lh\<lparr>lh_callback_depth := d\<rparr>) = lh_ok key lh"
  using lh_keyed_cong [of "lh\<lparr>lh_callback_depth := d\<rparr>" lh key]
  by (simp add: lh_ok_def lh_wf_def lh_all_def bucket_ok_def)

lemma lh_map_depth [simp]: "lh_map key (lh\<lparr>lh_callback_depth := d\<rparr>) = lh_map key lh"
  by (simp add: lh_map_def lh_all_def)

text \<open>C27. Emptying a table from inside an iteration, as owners of tables do before freeing them: every
  element is handed to the callback exactly once, no item is used after it is freed, and the
  table ends empty and well formed.
\<close>

theorem lh_doall_arg_delete_all:
  assumes "lh_ok key lh" "lh_callback_depth lh = 0"
  shows "\<exists>lh' ds. lh_doall_arg env (delete_it env1) (lh, []) = Some (lh', ds) \<and>
    set ds = ran (lh_map key lh) \<and> distinct (map key ds) \<and>
    lh_ok key lh' \<and> lh_map key lh' = Map.empty \<and> lh_num_items lh' = 0 \<and> lh_callback_depth lh' = 0"
proof -
  let ?in = "lh\<lparr>lh_callback_depth := 1\<rparr>"
  obtain lh1 where run: "doall_buckets (delete_it env1) 0 (?in, []) = Some (lh1, map item_data (lh_all lh))"
    and lh1: "lh_ok key lh1" "lh_callback_depth lh1 = 1" "lh_buckets lh1 = replicate (lh_num_buckets lh) []"
    using doall_buckets_deletes [of 0 ?in key env1 "[]"] assms by (auto simp: lh_all_def)
  let ?out = "lh1\<lparr>lh_callback_depth := 0\<rparr>"
  have out: "lh_doall_arg env (delete_it env1) (lh, []) = Some (lh_maybe_resize env ?out, map item_data (lh_all lh))"
    using run lh1(2) assms(2) by (simp add: lh_doall_arg_def UINT_MAX_def)
  have ok: "lh_ok key ?out" using lh1(1) by simp
  have all: "lh_all ?out = []" using lh1(3) by (simp add: lh_all_def)
  then have items: "lh_items ?out = 0" using ok unfolding lh_ok_def lh_wf_def by simp
  have wf: "lh_wf ?out" using ok by (simp add: lh_ok_def)
  note res = lh_maybe_resize_same [OF wf, of env]
  have final: "lh_ok key (lh_maybe_resize env ?out)" "lh_map key (lh_maybe_resize env ?out) = lh_map key ?out"
    using same_table_ok [OF ok] res by blast+
  have "lh_map key ?out = Map.empty" using all unfolding lh_map_def by simp
  moreover have "distinct (map key (map item_data (lh_all lh)))" using assms(1) by (simp add: lh_ok_def comp_def)
  moreover have "set (map item_data (lh_all lh)) = ran (lh_map key lh)"
    using assms(1) by (simp add: lh_map_def lh_ok_def ran_distinct) (simp add: key_pairs_def image_image)
  ultimately show ?thesis using out final items lh_maybe_resize_fields [of env ?out]
    by (simp add: lh_num_items_def)
qed

theorem lh_doall_arg_delete_all_witness:
  "\<exists>lh' ds. lh_doall_arg lh_example_env (delete_it lh_example_env)
      (snd (lh_run [Insert lh_roomy_env (1, 5), Insert lh_roomy_env (17, 6), Insert lh_roomy_env (2, 7)] lh_example), []) =
      Some (lh', ds) \<and>
    set ds = {(1, 5), (17, 6), (2, 7)} \<and> distinct (map fst ds) \<and> lh_map fst lh' = Map.empty \<and> lh_num_items lh' = 0"
    (is "\<exists>lh' ds. lh_doall_arg _ _ (snd (lh_run ?ops _), []) = _ \<and> _")
proof -
  have ok: "lh_ok fst lh_example \<and> lh_map fst lh_example = Map.empty"
    by (rule lh_new_map [OF _ _ lh_example_new]) auto
  have idle: "idle_ok lh_example" "lh_items lh_example = 0"
    using lh_new_idle [OF lh_example_new conjunct1 [OF ok]] by blast+
  have envs: "list_all op_env_ok ?ops" by (simp add: op_env_ok_def roomy_def lh_roomy_env_def)
  obtain rs t where run: "lh_run ?ops lh_example = (rs, t)" by fastforce
  have depth: "lh_callback_depth t = 0"
    using lh_run_load_from [OF envs, of fst lh_example] ok idle run by (simp add: idle_ok_def)
  have "\<not> item_refused lh_roomy_env"
    by (simp add: item_refused_def OPENSSL_malloc_eq lh_roomy_env_def sizeof_LHASH_ITEM_def Let_def)
  moreover have "lh_ok fst t \<and> map_run fst ?ops (map fst rs) Map.empty = (map snd rs, lh_map fst t) \<and>
      list_all2 (\<lambda>op r. fst r \<or> refused item_refused op) ?ops rs"
    using lh.run_map [OF conjunct1 [OF ok] run] ok by simp
  ultimately have t: "lh_ok fst t" "lh_map fst t = [1 \<mapsto> (1, 5), 17 \<mapsto> (17, 6), 2 \<mapsto> (2, 7)]"
    by (auto simp: list_all2_Cons1)
  have "ran [1 :: nat \<mapsto> (1 :: nat, 5 :: nat), 17 \<mapsto> (17, 6), 2 \<mapsto> (2, 7)] = {(1, 5), (17, 6), (2, 7)}"
    by (auto simp: ran_map_upd)
  then show ?thesis
    using lh_doall_arg_delete_all [OF t(1) depth, of lh_example_env lh_example_env] unfolding t(2) run by auto
qed

text \<open>Freeing a table gives back every item exactly once.\<close>

lemma lh_free_once:
  assumes "lh_wf lh"
  shows "distinct (lh_free (Some lh)) \<and> set (lh_free (Some lh)) = item_addr ` set (lh_all lh)"
proof -
  have "lh_free (Some lh) = map item_addr (concat (map (nth (lh_buckets lh)) [0..<length (lh_buckets lh)]))"
    using assms by (simp add: lh_free_def lh_wf_def map_concat comp_def)
  then have "lh_free (Some lh) = map item_addr (lh_all lh)" by (simp only: map_nth lh_all_def)
  then show ?thesis using assms by (simp add: lh_wf_def)
qed

end
