(* ===== verification/Stack.thy ===== *)
theory Stack
  imports Mem "HOL-Library.Multiset"
begin

text \<open>
  \<open>crypto/stack/stack.c\<close>: the growable array of pointers. A pointer is an \<open>option\<close>, NULL is
  \<open>None\<close>; pointers to comparison functions are compared for identity by the code, so
  they are values of a type of their own and \<open>call_cmp\<close> calls one. Writes go through
  \<open>mem_write\<close>, so an array keeps its length exactly when no write leaves it. libc's
  \<open>qsort\<close> is a parameter.
\<close>

section \<open>The structure\<close>

record ('p, 'c) stack_st =
  st_num :: nat
  st_data :: "'p option list"
  st_sorted :: bool
  st_num_alloc :: nat
  st_comp :: "'c option"

text \<open>The allocator, and what the pointers of a fresh block are before they are written.\<close>

record 'p ptr_env =
  pe_heap :: heap_env
  pe_junk :: "nat \<Rightarrow> 'p option"

definition ptr_malloc :: "'p ptr_env \<Rightarrow> nat \<Rightarrow> 'p option list option" where
  "ptr_malloc env sz =
     map_option (\<lambda>_. map (pe_junk env) [0..<sz div 8]) (OPENSSL_malloc (pe_heap env) sz)"

definition ptr_realloc :: "'p ptr_env \<Rightarrow> 'p option list \<Rightarrow> nat \<Rightarrow> 'p option list option" where
  "ptr_realloc env old sz =
     map_option (\<lambda>blk. mem_write blk 0 (take (min (length old) (sz div 8)) old)) (ptr_malloc env sz)"

definition kMinSize :: nat where "kMinSize = 4"
definition sizeof_STACK :: nat where "sizeof_STACK = 40"

section \<open>Operations\<close>

definition sk_new :: "'p ptr_env \<Rightarrow> 'c option \<Rightarrow> ('p, 'c) stack_st option" where
  "sk_new env cmp =
     (case OPENSSL_malloc (pe_heap env) sizeof_STACK of
        None \<Rightarrow> None
      | Some _ \<Rightarrow>
          (case ptr_malloc env (8 * kMinSize) of
             None \<Rightarrow> None
           | Some data \<Rightarrow>
               Some \<lparr>st_num = 0, st_data = mem_write data 0 (replicate kMinSize None),
                 st_sorted = False, st_num_alloc = kMinSize, st_comp = cmp\<rparr>))"

definition sk_new_null :: "'p ptr_env \<Rightarrow> ('p, 'c) stack_st option" where
  "sk_new_null env = sk_new env None"

definition sk_num :: "('p, 'c) stack_st option \<Rightarrow> nat" where
  "sk_num sk = (case sk of None \<Rightarrow> 0 | Some s \<Rightarrow> st_num s)"

definition sk_zero :: "('p, 'c) stack_st option \<Rightarrow> ('p, 'c) stack_st option" where
  "sk_zero sk =
     (case sk of
        None \<Rightarrow> None
      | Some s \<Rightarrow>
          if st_num s = 0 then Some s
          else Some (s\<lparr>st_data := mem_write (st_data s) 0 (replicate (st_num s) None),
                       st_num := 0, st_sorted := False\<rparr>))"

definition sk_value :: "('p, 'c) stack_st option \<Rightarrow> nat \<Rightarrow> 'p option" where
  "sk_value sk i =
     (case sk of None \<Rightarrow> None | Some s \<Rightarrow> if i \<ge> st_num s then None else st_data s ! i)"

definition sk_set :: "('p, 'c) stack_st option \<Rightarrow> nat \<Rightarrow> 'p option \<Rightarrow> 'p option \<times> ('p, 'c) stack_st option" where
  "sk_set sk i v =
     (case sk of
        None \<Rightarrow> (None, None)
      | Some s \<Rightarrow> if i \<ge> st_num s then (None, Some s)
                   else (v, Some (s\<lparr>st_data := mem_write (st_data s) i [v]\<rparr>)))"

text \<open>
  \<open>sk_pop_free_ex\<close> calls the free function on every element; \<open>'s\<close> is what that function
  changes. The array and the structure go with it.
\<close>

definition sk_pop_free_ex :: "('p \<Rightarrow> 's \<Rightarrow> 's) \<Rightarrow> ('p, 'c) stack_st option \<Rightarrow> 's \<Rightarrow> 's" where
  "sk_pop_free_ex free_func sk st =
     (case sk of
        None \<Rightarrow> st
      | Some s \<Rightarrow>
          fold (\<lambda>i st. case st_data s ! i of None \<Rightarrow> st | Some p \<Rightarrow> free_func p st) [0..<st_num s] st)"

definition sk_pop_free :: "('p \<Rightarrow> 's \<Rightarrow> 's) \<Rightarrow> ('p, 'c) stack_st option \<Rightarrow> 's \<Rightarrow> 's" where
  "sk_pop_free free_func sk st = sk_pop_free_ex free_func sk st"

text \<open>The size the array is to grow to: doubled, or one more when that overflows.\<close>

definition sk_new_alloc :: "nat \<Rightarrow> nat option" where
  "sk_new_alloc num_alloc =
     (let new_alloc = num_alloc * 2 mod 2 ^ 64;
          alloc_size = new_alloc * 8 mod 2 ^ 64;
          new_alloc = (if new_alloc < num_alloc \<or> alloc_size div 8 \<noteq> new_alloc
                       then (num_alloc + 1) mod 2 ^ 64 else new_alloc);
          alloc_size = new_alloc * 8 mod 2 ^ 64
      in if new_alloc < num_alloc \<or> alloc_size div 8 \<noteq> new_alloc then None else Some new_alloc)"

definition sk_grow :: "'p ptr_env \<Rightarrow> ('p, 'c) stack_st \<Rightarrow> ('p, 'c) stack_st option" where
  "sk_grow env s =
     (if st_num_alloc s \<le> st_num s + 1
      then (case sk_new_alloc (st_num_alloc s) of
              None \<Rightarrow> None
            | Some new_alloc \<Rightarrow>
                map_option (\<lambda>data. s\<lparr>st_data := data, st_num_alloc := new_alloc\<rparr>)
                  (ptr_realloc env (st_data s) (new_alloc * 8)))
      else Some s)"

definition sk_insert :: "'p ptr_env \<Rightarrow> ('p, 'c) stack_st option \<Rightarrow> 'p option \<Rightarrow> nat \<Rightarrow> nat \<times> ('p, 'c) stack_st option" where
  "sk_insert env sk p pos =
     (case sk of
        None \<Rightarrow> (0, None)
      | Some s \<Rightarrow>
          (case sk_grow env s of
             None \<Rightarrow> (0, Some s)
           | Some s \<Rightarrow>
               (let data = (if pos \<ge> st_num s then mem_write (st_data s) (st_num s) [p]
                            else mem_write
                              (mem_write (st_data s) (pos + 1) (take (st_num s - pos) (drop pos (st_data s))))
                              pos [p])
                in (st_num s + 1,
                    Some (s\<lparr>st_data := data, st_num := st_num s + 1, st_sorted := False\<rparr>)))))"

definition sk_delete :: "('p, 'c) stack_st option \<Rightarrow> nat \<Rightarrow> 'p option \<times> ('p, 'c) stack_st option" where
  "sk_delete sk pos =
     (case sk of
        None \<Rightarrow> (None, None)
      | Some s \<Rightarrow>
          if pos \<ge> st_num s then (None, Some s)
          else (st_data s ! pos,
                Some (s\<lparr>st_data := (if pos \<noteq> st_num s - 1
                           then mem_write (st_data s) pos (take (st_num s - pos - 1) (drop (pos + 1) (st_data s)))
                           else st_data s),
                         st_num := st_num s - 1\<rparr>)))"

text \<open>The loops that look for the first index below \<open>num\<close> at which something holds.\<close>

function first_index :: "(nat \<Rightarrow> bool) \<Rightarrow> nat \<Rightarrow> nat \<Rightarrow> nat option" where
  "first_index found i num =
     (if i < num then (if found i then Some i else first_index found (Suc i) num) else None)"
  by pat_completeness auto
termination
  by (relation "measure (\<lambda>(found, i, num). num - i)") auto

declare first_index.simps [simp del]

definition sk_delete_ptr :: "('p, 'c) stack_st option \<Rightarrow> 'p option \<Rightarrow> 'p option \<times> ('p, 'c) stack_st option" where
  "sk_delete_ptr sk p =
     (case sk of
        None \<Rightarrow> (None, None)
      | Some s \<Rightarrow>
          (case first_index (\<lambda>i. st_data s ! i = p) 0 (st_num s) of
             None \<Rightarrow> (None, Some s)
           | Some i \<Rightarrow> sk_delete sk i))"

definition sk_shift :: "('p, 'c) stack_st option \<Rightarrow> 'p option \<times> ('p, 'c) stack_st option" where
  "sk_shift sk =
     (case sk of
        None \<Rightarrow> (None, None)
      | Some s \<Rightarrow> if st_num s = 0 then (None, sk) else sk_delete sk 0)"

definition sk_push :: "'p ptr_env \<Rightarrow> ('p, 'c) stack_st option \<Rightarrow> 'p option \<Rightarrow> nat \<times> ('p, 'c) stack_st option" where
  "sk_push env sk p = sk_insert env sk p (case sk of None \<Rightarrow> 0 | Some s \<Rightarrow> st_num s)"

definition sk_pop :: "('p, 'c) stack_st option \<Rightarrow> 'p option \<times> ('p, 'c) stack_st option" where
  "sk_pop sk =
     (case sk of
        None \<Rightarrow> (None, None)
      | Some s \<Rightarrow> if st_num s = 0 then (None, sk) else sk_delete sk (st_num s - 1))"

section \<open>Searching and sorting\<close>

type_synonym ('p, 'c) call_cmp = "'c \<Rightarrow> 'p option \<Rightarrow> 'p option \<Rightarrow> int"

definition sk_is_sorted :: "('p, 'c) stack_st option \<Rightarrow> bool" where
  "sk_is_sorted sk = (case sk of None \<Rightarrow> True | Some s \<Rightarrow> st_sorted s)"

function sk_find_sorted :: "('p option \<Rightarrow> int) \<Rightarrow> 'p option list \<Rightarrow> nat \<Rightarrow> nat \<Rightarrow> nat option" where
  "sk_find_sorted cmp_p data lo hi =
     (if lo < hi then
        let mid = lo + (hi - lo - 1) div 2;
            r = cmp_p (data ! mid)
        in if r > 0 then sk_find_sorted cmp_p data (mid + 1) hi
           else if r < 0 then sk_find_sorted cmp_p data lo mid
           else if hi - lo = 1 then Some mid
           else sk_find_sorted cmp_p data lo (mid + 1)
      else None)"
  by pat_completeness auto
termination
  by (relation "measure (\<lambda>(cmp_p, data, lo, hi). hi - lo)") auto

declare sk_find_sorted.simps [simp del]

definition sk_find :: "('p, 'c) call_cmp \<Rightarrow> ('p, 'c) stack_st option \<Rightarrow> 'p option \<Rightarrow> nat option" where
  "sk_find call_cmp sk p =
     (case sk of
        None \<Rightarrow> None
      | Some s \<Rightarrow>
          (case st_comp s of
             None \<Rightarrow> first_index (\<lambda>i. st_data s ! i = p) 0 (st_num s)
           | Some cmp \<Rightarrow>
               if p = None then None
               else if \<not> sk_is_sorted sk
               then first_index (\<lambda>i. call_cmp cmp p (st_data s ! i) = 0) 0 (st_num s)
               else sk_find_sorted (call_cmp cmp p) (st_data s) 0 (st_num s)))"

definition sk_sort ::
    "(('p option \<Rightarrow> 'p option \<Rightarrow> int) \<Rightarrow> 'p option list \<Rightarrow> 'p option list) \<Rightarrow> ('p, 'c) call_cmp \<Rightarrow>
     ('p, 'c) stack_st option \<Rightarrow> ('p, 'c) stack_st option" where
  "sk_sort libc_qsort call_cmp sk =
     (case sk of
        None \<Rightarrow> None
      | Some s \<Rightarrow>
          (case st_comp s of
             None \<Rightarrow> Some s
           | Some cmp \<Rightarrow>
               if st_sorted s then Some s
               else Some (s\<lparr>st_data := (if st_num s \<ge> 2
                               then mem_write (st_data s) 0 (libc_qsort (call_cmp cmp) (take (st_num s) (st_data s)))
                               else st_data s),
                             st_sorted := True\<rparr>)))"

definition sk_set_cmp_func :: "('p, 'c) stack_st \<Rightarrow> 'c option \<Rightarrow> 'c option \<times> ('p, 'c) stack_st" where
  "sk_set_cmp_func s cmp =
     (let old = st_comp s;
          s = (if st_comp s \<noteq> cmp then s\<lparr>st_sorted := False\<rparr> else s)
      in (old, s\<lparr>st_comp := cmp\<rparr>))"

section \<open>Copying\<close>

definition sk_dup :: "'p ptr_env \<Rightarrow> ('p, 'c) stack_st option \<Rightarrow> ('p, 'c) stack_st option" where
  "sk_dup env sk =
     (case sk of
        None \<Rightarrow> None
      | Some s \<Rightarrow>
          (case sk_new env (st_comp s) of
             None \<Rightarrow> None
           | Some r \<Rightarrow>
               (case ptr_realloc env (st_data r) (8 * st_num_alloc s mod 2 ^ 64) of
                  None \<Rightarrow> None
                | Some d \<Rightarrow>
                    Some \<lparr>st_num = st_num s, st_data = mem_write d 0 (take (st_num s) (st_data s)),
                      st_sorted = st_sorted s, st_num_alloc = st_num_alloc s, st_comp = st_comp s\<rparr>)))"

text \<open>
  The loop of \<open>sk_deep_copy\<close>: \<open>copy_func\<close> and \<open>free_func\<close> work on a state of their own. When a
  copy fails, the copies before it are freed and the new stack with them.
\<close>

function deep_copy_loop ::
    "('p \<Rightarrow> 's \<Rightarrow> 'p option \<times> 's) \<Rightarrow> ('p \<Rightarrow> 's \<Rightarrow> 's) \<Rightarrow> nat \<Rightarrow> nat \<Rightarrow> 'p option list \<Rightarrow> 's \<Rightarrow>
     'p option list option \<times> 's" where
  "deep_copy_loop copy_func free_func i num data st =
     (if i < num then
        (case data ! i of
           None \<Rightarrow> deep_copy_loop copy_func free_func (Suc i) num data st
         | Some p \<Rightarrow>
             (case copy_func p st of
                (None, st) \<Rightarrow>
                  (None, fold (\<lambda>j st. case data ! j of None \<Rightarrow> st | Some q \<Rightarrow> free_func q st) [0..<i] st)
              | (Some q, st) \<Rightarrow>
                  deep_copy_loop copy_func free_func (Suc i) num (mem_write data i [Some q]) st))
      else (Some data, st))"
  by pat_completeness auto
termination
  by (relation "measure (\<lambda>(copy_func, free_func, i, num, data, st). num - i)") auto

declare deep_copy_loop.simps [simp del]

definition sk_deep_copy ::
    "'p ptr_env \<Rightarrow> ('p \<Rightarrow> 's \<Rightarrow> 'p option \<times> 's) \<Rightarrow> ('p \<Rightarrow> 's \<Rightarrow> 's) \<Rightarrow> ('p, 'c) stack_st option \<Rightarrow> 's \<Rightarrow>
     ('p, 'c) stack_st option \<times> 's" where
  "sk_deep_copy env copy_func free_func sk st =
     (case sk_dup env sk of
        None \<Rightarrow> (None, st)
      | Some r \<Rightarrow>
          (case deep_copy_loop copy_func free_func 0 (st_num r) (st_data r) st of
             (None, st) \<Rightarrow> (None, st)
           | (Some data, st) \<Rightarrow> (Some (r\<lparr>st_data := data\<rparr>), st)))"

section \<open>A stack is a list\<close>

definition sk_list :: "('p, 'c) stack_st \<Rightarrow> 'p option list" where
  "sk_list s = take (st_num s) (st_data s)"

text \<open>
  The invariant: the array is as long as it is said to be, with room for one more pointer, and
  its size in bytes is a \<open>size_t\<close>.
\<close>

definition sk_ok :: "('p, 'c) stack_st \<Rightarrow> bool" where
  "sk_ok s \<longleftrightarrow> length (st_data s) = st_num_alloc s \<and> st_num s < st_num_alloc s \<and> st_num_alloc s < 2 ^ 61"

lemma length_sk_list [simp]: "sk_ok s \<Longrightarrow> length (sk_list s) = st_num s"
  by (simp add: sk_list_def sk_ok_def)

lemma nth_sk_list: "sk_ok s \<Longrightarrow> i < st_num s \<Longrightarrow> st_data s ! i = sk_list s ! i"
  by (simp add: sk_list_def)

lemma ptr_malloc_Some: "ptr_malloc env sz = Some blk \<Longrightarrow> length blk = sz div 8"
  by (auto simp: ptr_malloc_def)

lemma ptr_realloc_Some:
  assumes "ptr_realloc env old sz = Some blk" "length old \<le> sz div 8"
  shows "length blk = sz div 8" and "take (length old) blk = old"
  using assms ptr_malloc_Some [of env sz]
  by (auto simp: ptr_realloc_def mem_write_def)

lemma sk_new_ok:
  assumes "sk_new env cmp = Some s"
  shows "sk_ok s \<and> sk_list s = [] \<and> st_comp s = cmp \<and> \<not> st_sorted s"
  using assms by (auto simp: sk_new_def sk_ok_def sk_list_def kMinSize_def dest: ptr_malloc_Some split: option.splits)

lemma sk_new_alloc_grows:
  assumes "sk_new_alloc n = Some m" "0 < n" "n < 2 ^ 61"
  shows "n < m \<and> m < 2 ^ 61 \<and> m * 8 div 8 = m"
proof -
  have n2: "n * 2 mod 2 ^ 64 = n * 2" "(n + 1) mod 2 ^ 64 = n + 1" using assms(3) by simp_all
  have m: "m = n * 2 \<or> m = n + 1" "m * 8 mod 2 ^ 64 div 8 = m"
    using assms(1) unfolding sk_new_alloc_def n2 Let_def
    by (auto simp only: option.distinct option.inject not_not de_Morgan_disj split: if_split_asm)
  have "m * 8 mod 2 ^ 64 < 2 ^ 64" by simp
  then have "m * 8 mod 2 ^ 64 div 8 < 2 ^ 61" by (intro less_mult_imp_div_less) simp
  then show ?thesis using m assms(2) by auto
qed

text \<open>A write inside the used part, seen in the list.\<close>

lemma take_prefix: "length xs = n \<Longrightarrow> take n (xs @ ys) = xs"
  by simp

lemma take_mem_write_insert:
  assumes "num < length data" "pos \<le> num"
  shows "take (Suc num) (mem_write (mem_write data (Suc pos) (take (num - pos) (drop pos data))) pos [p]) =
    take pos (take num data) @ p # drop pos (take num data)"
proof -
  have "mem_write (mem_write data (Suc pos) (take (num - pos) (drop pos data))) pos [p] =
      (take pos (take num data) @ p # drop pos (take num data)) @ drop (Suc num) data"
    using assms by (simp add: mem_write_def drop_take min_def)
  then show ?thesis using assms by (simp only:) (rule take_prefix, simp)
qed

lemma take_mem_write_delete:
  assumes "num \<le> length data" "pos < num"
  shows "take (num - 1) (mem_write data pos (take (num - pos - 1) (drop (Suc pos) data))) =
    take pos (take num data) @ drop (Suc pos) (take num data)"
proof -
  have len: "min (num - Suc pos) (length data - Suc pos) = num - Suc pos"
    "min (length data - Suc pos) (num - Suc pos) = num - Suc pos" using assms by simp_all
  have "mem_write data pos (take (num - pos - 1) (drop (Suc pos) data)) =
      (take pos (take num data) @ drop (Suc pos) (take num data)) @ drop (num - 1) data"
    using assms len by (simp add: mem_write_def drop_take min_absorb1 min_absorb2)
  then show ?thesis using assms by (simp only:) (rule take_prefix, simp)
qed

text \<open>Insertion either has no memory for a larger array, and changes nothing, or inserts.\<close>

lemma sk_grow_list:
  assumes "sk_ok s" "sk_grow env s = Some g"
  shows "length (st_data g) = st_num_alloc g" "st_num g = st_num s" "st_num s + 1 < st_num_alloc g"
    "st_num_alloc g < 2 ^ 61" "st_comp g = st_comp s" "take (st_num s) (st_data g) = sk_list s"
proof -
  have ok: "length (st_data s) = st_num_alloc s" "st_num s < st_num_alloc s" "st_num_alloc s < 2 ^ 61"
    using assms(1) by (simp_all add: sk_ok_def)
  have "length (st_data g) = st_num_alloc g \<and> st_num g = st_num s \<and> st_num s + 1 < st_num_alloc g \<and>
    st_num_alloc g < 2 ^ 61 \<and> st_comp g = st_comp s \<and> take (st_num s) (st_data g) = sk_list s"
  proof (cases "st_num_alloc s \<le> st_num s + 1")
    case False
    then have "g = s" using assms(2) by (simp add: sk_grow_def)
    then show ?thesis using ok False by (simp add: sk_list_def)
  next
    case True
    then obtain m where m0: "sk_new_alloc (st_num_alloc s) = Some m"
      and "map_option (\<lambda>data. s\<lparr>st_data := data, st_num_alloc := m\<rparr>) (ptr_realloc env (st_data s) (m * 8)) = Some g"
      using assms(2) by (auto simp: sk_grow_def split: option.splits)
    then obtain data where data: "ptr_realloc env (st_data s) (m * 8) = Some data"
      "g = s\<lparr>st_data := data, st_num_alloc := m\<rparr>" by auto
    have m: "st_num_alloc s < m" "m < 2 ^ 61"
      using sk_new_alloc_grows [OF m0] ok by simp_all
    then have d: "length data = m" "take (st_num_alloc s) data = st_data s"
      using ptr_realloc_Some [OF data(1)] ok by simp_all
    have "take (st_num s) data = take (st_num s) (take (st_num_alloc s) data)" using ok by (simp add: min_absorb1)
    then show ?thesis using data(2) m d ok by (simp add: sk_list_def)
  qed
  then show "length (st_data g) = st_num_alloc g" "st_num g = st_num s" "st_num s + 1 < st_num_alloc g"
    "st_num_alloc g < 2 ^ 61" "st_comp g = st_comp s" "take (st_num s) (st_data g) = sk_list s" by blast+
qed

lemma sk_insert_list:
  assumes ok: "sk_ok s"
  shows "sk_insert env (Some s) p pos = (0, Some s) \<or>
    (\<exists>s'. sk_insert env (Some s) p pos = (st_num s + 1, Some s') \<and> sk_ok s' \<and>
       sk_list s' = take pos (sk_list s) @ p # drop pos (sk_list s) \<and>
       st_num s' = st_num s + 1 \<and> st_comp s' = st_comp s \<and> \<not> st_sorted s')"
proof (cases "sk_grow env s")
  case None
  then show ?thesis by (simp add: sk_insert_def)
next
  case (Some g)
  note g = sk_grow_list [OF ok Some]
  let ?data = "if pos \<ge> st_num g then mem_write (st_data g) (st_num g) [p]
      else mem_write (mem_write (st_data g) (pos + 1) (take (st_num g - pos) (drop pos (st_data g)))) pos [p]"
  let ?s = "g\<lparr>st_data := ?data, st_num := st_num g + 1, st_sorted := False\<rparr>"
  have "sk_insert env (Some s) p pos = (st_num s + 1, Some ?s)"
    using Some g(2) by (simp add: sk_insert_def Let_def)
  moreover have "sk_ok ?s" using g by (auto simp: sk_ok_def)
  moreover have "sk_list ?s = take pos (sk_list s) @ p # drop pos (sk_list s)"
  proof (cases "st_num s \<le> pos")
    case True
    then show ?thesis using g ok by (simp add: sk_list_def take_mem_write_all)
  next
    case False
    then show ?thesis
      using g take_mem_write_insert [of "st_num s" "st_data g" pos p] by (simp add: sk_list_def)
  qed
  ultimately show ?thesis using g by auto
qed

lemma sk_delete_list:
  assumes ok: "sk_ok s"
  shows "st_num s \<le> pos \<Longrightarrow> sk_delete (Some s) pos = (None, Some s)"
    and "pos < st_num s \<Longrightarrow> \<exists>s'. sk_delete (Some s) pos = (sk_list s ! pos, Some s') \<and> sk_ok s' \<and>
       sk_list s' = take pos (sk_list s) @ drop (Suc pos) (sk_list s) \<and>
       st_num s' = st_num s - 1 \<and> st_comp s' = st_comp s \<and> st_sorted s' = st_sorted s"
proof -
  assume pos: "pos < st_num s"
  have len: "length (st_data s) = st_num_alloc s" "st_num s < st_num_alloc s" using ok by (simp_all add: sk_ok_def)
  let ?data = "if pos \<noteq> st_num s - 1
      then mem_write (st_data s) pos (take (st_num s - pos - 1) (drop (pos + 1) (st_data s))) else st_data s"
  let ?s = "s\<lparr>st_data := ?data, st_num := st_num s - 1\<rparr>"
  have "sk_delete (Some s) pos = (sk_list s ! pos, Some ?s)"
    using pos by (simp add: sk_delete_def sk_list_def)
  moreover have "sk_ok ?s" using ok pos len by (auto simp: sk_ok_def)
  moreover have "sk_list ?s = take pos (sk_list s) @ drop (Suc pos) (sk_list s)"
  proof (cases "pos = st_num s - 1")
    case True
    then show ?thesis using pos len by (simp add: sk_list_def min_def)
  next
    case False
    then show ?thesis using pos len take_mem_write_delete [of "st_num s" "st_data s" pos] by (simp add: sk_list_def)
  qed
  ultimately show "\<exists>s'. sk_delete (Some s) pos = (sk_list s ! pos, Some s') \<and> sk_ok s' \<and>
       sk_list s' = take pos (sk_list s) @ drop (Suc pos) (sk_list s) \<and>
       st_num s' = st_num s - 1 \<and> st_comp s' = st_comp s \<and> st_sorted s' = st_sorted s" by auto
qed (simp add: sk_delete_def)

lemma sk_set_list:
  assumes ok: "sk_ok s"
  shows "st_num s \<le> i \<Longrightarrow> sk_set (Some s) i v = (None, Some s)"
    and "i < st_num s \<Longrightarrow> \<exists>s'. sk_set (Some s) i v = (v, Some s') \<and> sk_ok s' \<and> sk_list s' = (sk_list s)[i := v] \<and>
       st_num s' = st_num s \<and> st_comp s' = st_comp s \<and> st_sorted s' = st_sorted s"
  using ok by (auto simp: sk_set_def sk_ok_def sk_list_def mem_write_def upd_conv_take_nth_drop drop_take min_def
      take_Cons' not_less)

lemma sk_zero_list:
  assumes ok: "sk_ok s"
  shows "\<exists>s'. sk_zero (Some s) = Some s' \<and> sk_ok s' \<and> sk_list s' = [] \<and> st_num s' = 0 \<and> st_comp s' = st_comp s"
  using ok by (simp add: sk_zero_def sk_ok_def sk_list_def)

section \<open>Operation sequences\<close>

datatype 'p sk_op =
    Sk_push "'p ptr_env" "'p option"
  | Sk_insert "'p ptr_env" "'p option" nat
  | Sk_delete nat
  | Sk_delete_ptr "'p option"
  | Sk_shift
  | Sk_pop
  | Sk_set nat "'p option"
  | Sk_value nat
  | Sk_zero

datatype 'p sk_out = Ptr "'p option" | Len nat | Void

fun sk_step :: "'p sk_op \<Rightarrow> ('p, 'c) stack_st option \<Rightarrow> 'p sk_out \<times> ('p, 'c) stack_st option" where
  "sk_step (Sk_push env p) sk = map_prod Len id (sk_push env sk p)"
| "sk_step (Sk_insert env p pos) sk = map_prod Len id (sk_insert env sk p pos)"
| "sk_step (Sk_delete pos) sk = map_prod Ptr id (sk_delete sk pos)"
| "sk_step (Sk_delete_ptr p) sk = map_prod Ptr id (sk_delete_ptr sk p)"
| "sk_step Sk_shift sk = map_prod Ptr id (sk_shift sk)"
| "sk_step Sk_pop sk = map_prod Ptr id (sk_pop sk)"
| "sk_step (Sk_set i p) sk = map_prod Ptr id (sk_set sk i p)"
| "sk_step (Sk_value i) sk = (Ptr (sk_value sk i), sk)"
| "sk_step Sk_zero sk = (Void, sk_zero sk)"

fun sk_run :: "'p sk_op list \<Rightarrow> ('p, 'c) stack_st option \<Rightarrow> 'p sk_out list \<times> ('p, 'c) stack_st option" where
  "sk_run [] sk = ([], sk)"
| "sk_run (op # ops) sk =
     (let (out, sk') = sk_step op sk; (outs, sk'') = sk_run ops sk' in (out # outs, sk''))"

text \<open>
  The same operations on a list. An insertion that returns zero was refused; every other result
  is the one the list gives.
\<close>

definition remove_at :: "nat \<Rightarrow> 'a list \<Rightarrow> 'a list" where
  "remove_at pos l = take pos l @ drop (Suc pos) l"

definition item_at :: "'p option list \<Rightarrow> nat \<Rightarrow> 'p option" where
  "item_at l i = (if i < length l then l ! i else None)"

fun list_step :: "'p sk_op \<Rightarrow> 'p sk_out \<Rightarrow> 'p option list \<Rightarrow> 'p sk_out \<times> 'p option list" where
  "list_step (Sk_push env p) out l = (if out = Len 0 then (Len 0, l) else (Len (length l + 1), l @ [p]))"
| "list_step (Sk_insert env p pos) out l =
     (if out = Len 0 then (Len 0, l) else (Len (length l + 1), take pos l @ p # drop pos l))"
| "list_step (Sk_delete pos) out l = (Ptr (item_at l pos), remove_at pos l)"
| "list_step (Sk_delete_ptr p) out l = (if p \<in> set l then (Ptr p, remove1 p l) else (Ptr None, l))"
| "list_step Sk_shift out l = (Ptr (item_at l 0), tl l)"
| "list_step Sk_pop out l = (Ptr (item_at l (length l - 1)), butlast l)"
| "list_step (Sk_set i p) out l = (Ptr (if i < length l then p else None), l[i := p])"
| "list_step (Sk_value i) out l = (Ptr (item_at l i), l)"
| "list_step Sk_zero out l = (Void, [])"

fun list_run :: "'p sk_op list \<Rightarrow> 'p sk_out list \<Rightarrow> 'p option list \<Rightarrow> 'p sk_out list \<times> 'p option list" where
  "list_run (op # ops) (out # outs) l =
     (let (out', l') = list_step op out l; (outs', l'') = list_run ops outs l' in (out' # outs', l''))"
| "list_run _ _ l = ([], l)"

lemma first_index_Some: "first_index P i n = Some j \<longleftrightarrow> i \<le> j \<and> j < n \<and> P j \<and> (\<forall>k. i \<le> k \<and> k < j \<longrightarrow> \<not> P k)"
proof (induction P i n rule: first_index.induct)
  case (1 P i n)
  show ?case
  proof (cases "i < n \<and> \<not> P i")
    case True
    then have "first_index P i n = first_index P (Suc i) n" by (simp add: first_index.simps [of P i])
    moreover have "i \<le> j \<and> P j \<and> (\<forall>k. i \<le> k \<and> k < j \<longrightarrow> \<not> P k) \<longleftrightarrow>
        Suc i \<le> j \<and> P j \<and> (\<forall>k. Suc i \<le> k \<and> k < j \<longrightarrow> \<not> P k)"
      using True by (metis Suc_leD Suc_leI le_less)
    ultimately show ?thesis using 1 True by auto
  next
    case False
    then show ?thesis by (auto simp: first_index.simps [of P i] le_less)
  qed
qed

lemma first_index_None: "first_index P i n = None \<longleftrightarrow> (\<forall>j. i \<le> j \<and> j < n \<longrightarrow> \<not> P j)"
proof (induction P i n rule: first_index.induct)
  case (1 P i n)
  show ?case
  proof (cases "i < n \<and> \<not> P i")
    case True
    then show ?thesis using 1 by (auto simp: first_index.simps [of P i]) (metis Suc_leI le_less)
  next
    case False
    then show ?thesis by (auto simp: first_index.simps [of P i])
  qed
qed

lemma remove1_first:
  "i < length l \<Longrightarrow> l ! i = x \<Longrightarrow> (\<forall>k < i. l ! k \<noteq> x) \<Longrightarrow> remove1 x l = remove_at i l"
proof (induction l arbitrary: i)
  case (Cons y l)
  show ?case
  proof (cases i)
    case (Suc j)
    have "y \<noteq> x" using Cons.prems(3) Suc by force
    moreover have "\<forall>k < j. l ! k \<noteq> x" using Cons.prems(3) Suc by force
    ultimately show ?thesis using Cons.IH [of j] Cons.prems(1,2) Suc by (simp add: remove_at_def)
  qed (use Cons.prems in \<open>simp add: remove_at_def\<close>)
qed simp

lemma sk_list_empty [simp]: "st_num s = 0 \<Longrightarrow> sk_list s = []"
  by (simp add: sk_list_def)

lemma sk_step_list:
  assumes ok: "sk_ok s" and step: "sk_step op (Some s) = (out, sk')"
  shows "\<exists>s'. sk' = Some s' \<and> sk_ok s' \<and> list_step op out (sk_list s) = (out, sk_list s')"
proof (cases op)
  case (Sk_push env p)
  then show ?thesis using sk_insert_list [OF ok, of env p "st_num s"] step ok by (auto simp: sk_push_def)
next
  case (Sk_insert env p pos)
  then show ?thesis using sk_insert_list [OF ok, of env p pos] step ok by auto
next
  case (Sk_delete pos)
  then show ?thesis using sk_delete_list [OF ok, of pos] step ok
    by (cases "pos < st_num s") (auto simp: item_at_def remove_at_def)
next
  case (Sk_delete_ptr p)
  show ?thesis
  proof (cases "first_index (\<lambda>i. st_data s ! i = p) 0 (st_num s)")
    case None
    then have "p \<notin> set (sk_list s)" using ok by (auto simp: first_index_None in_set_conv_nth nth_sk_list)
    then show ?thesis using None Sk_delete_ptr step ok by (auto simp: sk_delete_ptr_def)
  next
    case (Some i)
    then have i: "i < st_num s" "sk_list s ! i = p" "\<forall>k < i. sk_list s ! k \<noteq> p"
      using ok nth_sk_list [OF ok] by (auto simp: first_index_Some)
    then have "p \<in> set (sk_list s)" using ok nth_mem [of i "sk_list s"] by simp
    moreover have "remove1 p (sk_list s) = remove_at i (sk_list s)" using i ok by (intro remove1_first) simp_all
    ultimately show ?thesis using sk_delete_list(2) [OF ok i(1)] Some Sk_delete_ptr step i
      by (auto simp: sk_delete_ptr_def remove_at_def)
  qed
next
  case Sk_shift
  have len: "length (sk_list s) = st_num s" using ok by simp
  show ?thesis using sk_delete_list [OF ok, of 0] step ok len Sk_shift
    by (cases "st_num s = 0") (auto simp: sk_shift_def item_at_def drop_Suc)
next
  case Sk_pop
  then show ?thesis using sk_delete_list [OF ok, of "st_num s - 1"] step ok
    by (cases "st_num s = 0") (auto simp: sk_pop_def item_at_def butlast_conv_take)
next
  case (Sk_set i p)
  then show ?thesis using sk_set_list [OF ok, of i p] step ok
    by (cases "i < st_num s") (auto simp: list_update_beyond)
next
  case (Sk_value i)
  then show ?thesis using step ok by (auto simp: sk_value_def item_at_def nth_sk_list)
next
  case Sk_zero
  then show ?thesis using sk_zero_list [OF ok] step by auto
qed

lemma sk_run_list:
  "sk_ok s \<Longrightarrow> sk_run ops (Some s) = (outs, sk') \<Longrightarrow>
    \<exists>s'. sk' = Some s' \<and> sk_ok s' \<and> list_run ops outs (sk_list s) = (outs, sk_list s')"
proof (induction ops arbitrary: s outs sk')
  case (Cons op ops)
  obtain out sk1 where step: "sk_step op (Some s) = (out, sk1)" by fastforce
  obtain s1 where s1: "sk1 = Some s1" "sk_ok s1" "list_step op out (sk_list s) = (out, sk_list s1)"
    using sk_step_list [OF Cons.prems(1) step] by blast
  obtain outs1 sk2 where run: "sk_run ops (Some s1) = (outs1, sk2)" by fastforce
  show ?case using Cons.IH [OF s1(2) run] Cons.prems(2) step s1 run by auto
qed auto

text \<open>C29. A stack is a list: whatever is pushed, inserted, removed, set or cleared, and however the
  array grows or fails to, every result is the list's, the array is never left, and a refused
  insertion changes nothing.
\<close>

theorem sk_run_exact:
  assumes "sk_new env cmp = Some s" "sk_run ops (Some s) = (outs, sk')"
  shows "\<exists>s'. sk' = Some s' \<and> sk_ok s' \<and> list_run ops outs [] = (outs, sk_list s')"
  using sk_new_ok [OF assms(1)] sk_run_list [OF _ assms(2)] by simp

definition sk_example_env :: "int ptr_env" where
  "sk_example_env = \<lparr>pe_heap = \<lparr>can_alloc = (\<lambda>n. n < 100), junk = (\<lambda>i. 0)\<rparr>, pe_junk = (\<lambda>i. Some 77)\<rparr>"

definition sk_example :: "(int, unit) stack_st" where
  "sk_example = \<lparr>st_num = 0, st_data = replicate 4 None, st_sorted = False, st_num_alloc = 4, st_comp = None\<rparr>"

lemma sk_new_example: "sk_new sk_example_env None = Some sk_example"
  by (simp add: sk_new_def sk_example_def ptr_malloc_def OPENSSL_malloc_eq sk_example_env_def sizeof_STACK_def
      kMinSize_def mem_write_def Let_def)

theorem sk_run_exact_witness:
  "\<exists>s'. snd (sk_run [Sk_push sk_example_env (Some 1), Sk_insert sk_example_env (Some 2) 0, Sk_pop] (Some sk_example)) = Some s' \<and>
    sk_list s' = [Some 2]"
proof -
  let ?ops = "[Sk_push sk_example_env (Some 1), Sk_insert sk_example_env (Some 2) 0, Sk_pop]"
  have "fst (sk_run ?ops (Some sk_example)) = [Len 1, Len 2, Ptr (Some 1)]"
    by (simp add: sk_push_def sk_insert_def sk_grow_def sk_pop_def sk_delete_def sk_example_def mem_write_def)
  then obtain sk' where "sk_run ?ops (Some sk_example) = ([Len 1, Len 2, Ptr (Some 1)], sk')" by (metis prod.collapse)
  then show ?thesis using sk_run_exact [OF sk_new_example, of ?ops] by (auto simp: item_at_def)
qed

section \<open>Searching\<close>

text \<open>The first position at which something holds.\<close>

fun first_match :: "('a \<Rightarrow> bool) \<Rightarrow> 'a list \<Rightarrow> nat option" where
  "first_match P [] = None"
| "first_match P (x # xs) = (if P x then Some 0 else map_option Suc (first_match P xs))"

lemma first_match_Some:
  "first_match P xs = Some j \<longleftrightarrow> j < length xs \<and> P (xs ! j) \<and> (\<forall>k < j. \<not> P (xs ! k))"
proof (induction xs arbitrary: j)
  case (Cons x xs)
  then show ?case by (cases j) (auto simp: All_less_Suc2)
qed simp

lemma first_match_None: "first_match P xs = None \<longleftrightarrow> (\<forall>x \<in> set xs. \<not> P x)"
  by (induction xs) auto

lemma first_index_match:
  assumes "n = length xs" "\<And>i. i < n \<Longrightarrow> P i = Q (xs ! i)"
  shows "first_index P 0 n = first_match Q xs"
proof (cases "first_match Q xs")
  case None
  then have "first_index P 0 n = None" using assms by (auto simp: first_match_None first_index_None)
  then show ?thesis using None by simp
next
  case (Some j)
  then have j: "j < n \<and> Q (xs ! j) \<and> (\<forall>k < j. \<not> Q (xs ! k))" using assms(1) by (simp add: first_match_Some)
  then have "first_index P 0 n = Some j" using assms(2) by (auto simp: first_index_Some)
  then show ?thesis using Some by simp
qed

text \<open>An order the comparison function stands for, on the pointers in question.\<close>

definition cmp_order :: "('a \<Rightarrow> 'a \<Rightarrow> int) \<Rightarrow> 'a set \<Rightarrow> bool" where
  "cmp_order c A \<longleftrightarrow> (\<forall>a \<in> A. \<forall>b \<in> A. c a b > 0 \<longleftrightarrow> c b a < 0) \<and>
     (\<forall>a \<in> A. \<forall>b \<in> A. \<forall>d \<in> A. c a b \<le> 0 \<longrightarrow> c b d \<le> 0 \<longrightarrow> c a d \<le> 0)"

definition ascending :: "('a \<Rightarrow> 'a \<Rightarrow> int) \<Rightarrow> 'a list \<Rightarrow> bool" where
  "ascending c xs \<longleftrightarrow> sorted_wrt (\<lambda>a b. c a b \<le> 0) xs"

text \<open>
  Comparing a fixed pointer with the elements of an ascending list from left to right gives
  positive results, then zeros, then negative ones.
\<close>

definition falling :: "(nat \<Rightarrow> int) \<Rightarrow> nat \<Rightarrow> bool" where
  "falling r n \<longleftrightarrow> (\<forall>j < n. \<forall>i < j. (r j > 0 \<longrightarrow> r i > 0) \<and> (r i < 0 \<longrightarrow> r j < 0))"

lemma falling_pos: "falling r n \<Longrightarrow> i \<le> j \<Longrightarrow> j < n \<Longrightarrow> r j > 0 \<Longrightarrow> r i > 0"
  unfolding falling_def by (cases "i = j") auto

lemma falling_neg: "falling r n \<Longrightarrow> i \<le> j \<Longrightarrow> j < n \<Longrightarrow> r i < 0 \<Longrightarrow> r j < 0"
  unfolding falling_def by (metis le_less)

lemma cmp_order_flip: "cmp_order c A \<Longrightarrow> a \<in> A \<Longrightarrow> b \<in> A \<Longrightarrow> c a b > 0 \<longleftrightarrow> c b a < 0"
  unfolding cmp_order_def by blast

lemma cmp_order_trans:
  "cmp_order c A \<Longrightarrow> a \<in> A \<Longrightarrow> b \<in> A \<Longrightarrow> d \<in> A \<Longrightarrow> c a b \<le> 0 \<Longrightarrow> c b d \<le> 0 \<Longrightarrow> c a d \<le> 0"
  unfolding cmp_order_def by blast

lemma cmp_order_subset: "cmp_order c A \<Longrightarrow> B \<subseteq> A \<Longrightarrow> cmp_order c B"
  unfolding cmp_order_def by (meson subsetD)

lemma ascending_falling:
  assumes ord: "cmp_order c (insert p (set xs))" and asc: "ascending c xs"
  shows "falling (\<lambda>i. c p (xs ! i)) (length xs)"
  unfolding falling_def
proof (intro allI impI conjI)
  fix i j assume j: "j < length xs" and i: "i < j"
  let ?a = "xs ! i" and ?b = "xs ! j"
  have mem: "?a \<in> insert p (set xs)" "?b \<in> insert p (set xs)" "p \<in> insert p (set xs)" using i j by auto
  have ab: "c ?a ?b \<le> 0" using asc i j unfolding ascending_def by (simp add: sorted_wrt_iff_nth_less)
  show "c p ?a > 0" if "c p ?b > 0"
    using cmp_order_trans [OF ord mem(3,1,2) _ ab] that by fastforce
  show "c p ?b < 0" if "c p ?a < 0"
  proof (rule ccontr)
    assume "\<not> c p ?b < 0"
    then have "c ?b p \<le> 0" using cmp_order_flip [OF ord mem(2,3)] by linarith
    then have "c ?a p \<le> 0" using cmp_order_trans [OF ord mem(1,2,3) ab] by blast
    then show False using cmp_order_flip [OF ord mem(1,3)] that by linarith
  qed
qed

text \<open>
  The binary search finds the earliest match of the interval, as a linear search would. The
  interval shrinks at every step, and the asserted bounds hold.
\<close>

lemma first_index_trim:
  assumes "(\<forall>j. m \<le> j \<and> j < hi \<longrightarrow> \<not> P j) \<or> (\<exists>j. lo \<le> j \<and> j < m \<and> P j)" "m \<le> hi"
  shows "first_index P lo hi = first_index P lo m"
proof (cases "first_index P lo m")
  case None
  then have "first_index P lo hi = None" using assms unfolding first_index_None by (metis not_le)
  then show ?thesis using None by simp
next
  case (Some j)
  then have "first_index P lo hi = Some j" using assms(2) unfolding first_index_Some by auto
  then show ?thesis using Some by simp
qed

lemma first_index_skip:
  assumes "\<forall>j. lo \<le> j \<and> j < m \<longrightarrow> \<not> P j" "lo \<le> m"
  shows "first_index P lo hi = first_index P m hi"
proof (cases "first_index P m hi")
  case None
  then have "first_index P lo hi = None" using assms unfolding first_index_None by (metis not_le)
  then show ?thesis using None by simp
next
  case (Some j)
  then have "first_index P lo hi = Some j" using assms unfolding first_index_Some by (metis le_trans not_le)
  then show ?thesis using Some by simp
qed

lemma sk_find_sorted_first:
  "falling (\<lambda>i. r (data ! i)) n \<Longrightarrow> hi \<le> n \<Longrightarrow>
    sk_find_sorted r data lo hi = first_index (\<lambda>i. r (data ! i) = 0) lo hi"
proof (induction r data lo hi rule: sk_find_sorted.induct)
  case (1 r data lo hi)
  let ?P = "\<lambda>i. r (data ! i) = 0" and ?mid = "lo + (hi - lo - 1) div 2"
  show ?case
  proof (cases "lo < hi")
    case False
    then show ?thesis by (simp add: sk_find_sorted.simps [of r data lo] first_index.simps [of ?P lo])
  next
    case True
    then have mid: "lo \<le> ?mid" "?mid < hi" "?mid < n" using 1(5) by auto
    have fall: "r (data ! i) > 0" if "r (data ! ?mid) > 0" "i \<le> ?mid" for i
      using falling_pos [OF 1(4) that(2) mid(3)] that(1) by simp
    have fall': "r (data ! i) < 0" if "r (data ! ?mid) < 0" "?mid \<le> i" "i < hi" for i
      using falling_neg [OF 1(4) that(2)] that(1,3) 1(5) by simp
    consider "r (data ! ?mid) > 0" | "r (data ! ?mid) < 0" | "r (data ! ?mid) = 0" "hi - lo = 1"
      | "r (data ! ?mid) = 0" "hi - lo \<noteq> 1" by linarith
    then show ?thesis
    proof cases
      case 1
      then have "sk_find_sorted r data lo hi = sk_find_sorted r data (?mid + 1) hi"
        using True by (simp add: sk_find_sorted.simps [of r data lo] Let_def)
      moreover have "first_index ?P lo hi = first_index ?P (?mid + 1) hi"
      proof (intro first_index_skip allI impI)
        show "r (data ! j) \<noteq> 0" if "lo \<le> j \<and> j < ?mid + 1" for j using fall [OF 1, of j] that by simp
      qed simp
      ultimately show ?thesis using "1.IH"(1) [OF True refl refl] 1 "1.prems" by simp
    next
      case 2
      then have "sk_find_sorted r data lo hi = sk_find_sorted r data lo ?mid"
        using True by (simp add: sk_find_sorted.simps [of r data lo] Let_def)
      moreover have "first_index ?P lo hi = first_index ?P lo ?mid"
      proof (intro first_index_trim disjI1 allI impI)
        show "r (data ! j) \<noteq> 0" if "?mid \<le> j \<and> j < hi" for j using fall' [OF 2, of j] that by simp
      qed (use mid in simp)
      ultimately show ?thesis using "1.IH"(2) [OF True refl refl] 2 mid "1.prems" by simp
    next
      case 3
      then have "?mid = lo" by simp
      then show ?thesis using 3 True
        by (simp add: sk_find_sorted.simps [of r data lo] first_index.simps [of ?P lo] Let_def)
    next
      case 4
      then have "?mid + 1 < hi" using True by linarith
      have "sk_find_sorted r data lo hi = sk_find_sorted r data lo (?mid + 1)"
        using 4 True by (simp add: sk_find_sorted.simps [of r data lo] Let_def)
      moreover have "first_index ?P lo hi = first_index ?P lo (?mid + 1)"
        using 4 mid by (intro first_index_trim disjI2 exI [of _ ?mid]) simp_all
      ultimately show ?thesis using "1.IH"(3) [OF True refl refl] 4 mid "1.prems" by simp
    qed
  qed
qed

definition sorted_flag_ok :: "('p, 'c) call_cmp \<Rightarrow> ('p, 'c) stack_st \<Rightarrow> bool" where
  "sorted_flag_ok call_cmp s \<longleftrightarrow> (\<forall>c. st_comp s = Some c \<longrightarrow> st_sorted s \<longrightarrow> ascending (call_cmp c) (sk_list s))"

definition sk_matches :: "('p, 'c) call_cmp \<Rightarrow> ('p, 'c) stack_st \<Rightarrow> 'p option \<Rightarrow> 'p option \<Rightarrow> bool" where
  "sk_matches call_cmp s p e = (case st_comp s of None \<Rightarrow> e = p | Some c \<Rightarrow> call_cmp c p e = 0)"

text \<open>
  \<open>sk_find\<close> returns the first element equal to \<open>p\<close>, by pointer, by linear search or by binary
  search alike, as long as the comparison function is an order on the elements and a stack
  marked as sorted is.
\<close>

theorem sk_find_exact:
  assumes ok: "sk_ok s" and flag: "sorted_flag_ok call_cmp s"
    and ord: "\<And>c. st_comp s = Some c \<Longrightarrow> p \<noteq> None \<and> cmp_order (call_cmp c) (insert p (set (sk_list s)))"
  shows "sk_find call_cmp (Some s) p = first_match (sk_matches call_cmp s p) (sk_list s)"
proof (cases "st_comp s")
  case None
  then show ?thesis using ok
    by (simp add: sk_find_def) (rule first_index_match, simp_all add: nth_sk_list sk_matches_def)
next
  case (Some c)
  obtain e where p: "p = Some e" using ord [OF Some] by blast
  have lin: "first_index (\<lambda>i. call_cmp c p (st_data s ! i) = 0) 0 (st_num s) = first_match (sk_matches call_cmp s p) (sk_list s)"
    using ok Some by (intro first_index_match) (simp_all add: nth_sk_list sk_matches_def)
  show ?thesis
  proof (cases "st_sorted s")
    case False
    then show ?thesis using lin Some p by (simp add: sk_find_def sk_is_sorted_def)
  next
    case True
    have "falling (\<lambda>i. call_cmp c p (sk_list s ! i)) (st_num s)"
      using ascending_falling [of "call_cmp c" p "sk_list s"] ord [OF Some] flag True Some ok
      by (simp add: sorted_flag_ok_def)
    then have "falling (\<lambda>i. call_cmp c p (st_data s ! i)) (st_num s)"
      using nth_sk_list [OF ok] by (simp add: falling_def)
    from sk_find_sorted_first [OF this order_refl, of 0] show ?thesis using lin True Some p
      by (simp add: sk_find_def sk_is_sorted_def)
  qed
qed

section \<open>Sorting\<close>

definition libc_qsort_ok :: "(('a \<Rightarrow> 'a \<Rightarrow> int) \<Rightarrow> 'a list \<Rightarrow> 'a list) \<Rightarrow> bool" where
  "libc_qsort_ok q \<longleftrightarrow> (\<forall>c xs. cmp_order c (set xs) \<longrightarrow> mset (q c xs) = mset xs \<and> ascending c (q c xs))"

text \<open>The documented contract of \<open>qsort\<close> is met by an insertion sort.\<close>

lemma insert_by_mset: "mset (insert_by c x xs) = add_mset x (mset xs)"
  by (induction xs) auto

lemma insert_by_ascending:
  "cmp_order c (insert x (set xs)) \<Longrightarrow> ascending c xs \<Longrightarrow> ascending c (insert_by c x xs)"
proof (induction xs)
  case (Cons y ys)
  have y: "ascending c ys" "\<forall>z \<in> set ys. c y z \<le> 0" using Cons.prems(2) by (simp_all add: ascending_def)
  show ?case
  proof (cases "c x y \<le> 0")
    case True
    have "c x z \<le> 0" if "z \<in> set ys" for z
      using cmp_order_trans [OF Cons.prems(1), of x y z] True y(2) that by simp
    then show ?thesis using True Cons.prems(2) by (simp add: ascending_def)
  next
    case False
    have "cmp_order c (insert x (set ys))" by (rule cmp_order_subset [OF Cons.prems(1)]) auto
    then have "ascending c (insert_by c x ys)" using Cons.IH y(1) by simp
    moreover have "c y x \<le> 0" using False cmp_order_flip [OF Cons.prems(1), of x y] by simp
    moreover have "set (insert_by c x ys) = insert x (set ys)"
      using mset_eq_setD [of "insert_by c x ys" "x # ys"] insert_by_mset [of c x ys] by simp
    ultimately show ?thesis using False y(2) by (simp add: ascending_def)
  qed
qed (simp add: ascending_def)

lemma qsort_ok: "libc_qsort_ok qsort"
  unfolding libc_qsort_ok_def
proof (intro allI impI)
  fix c :: "'a \<Rightarrow> 'a \<Rightarrow> int" and xs
  assume "cmp_order c (set xs)"
  then show "mset (qsort c xs) = mset xs \<and> ascending c (qsort c xs)"
  proof (induction xs)
    case (Cons x xs)
    have "cmp_order c (set xs)" by (rule cmp_order_subset [OF Cons.prems]) auto
    then have IH: "mset (qsort c xs) = mset xs" "ascending c (qsort c xs)" using Cons.IH by simp_all
    moreover have "set (qsort c xs) = set xs" using IH(1) by (rule mset_eq_setD)
    moreover have "qsort c (x # xs) = insert_by c x (qsort c xs)" by (simp add: qsort_def)
    ultimately show ?case using Cons.prems by (simp add: insert_by_mset insert_by_ascending)
  qed (simp add: qsort_def ascending_def)
qed

lemma ascending_short: "length xs < 2 \<Longrightarrow> ascending c xs"
  by (cases xs) (auto simp: ascending_def)

lemma sk_sort_list:
  assumes ok: "sk_ok s" and q: "libc_qsort_ok q"
    and ord: "\<And>c. st_comp s = Some c \<Longrightarrow> cmp_order (call_cmp c) (set (sk_list s))"
    and flag: "sorted_flag_ok call_cmp s"
  shows "\<exists>s'. sk_sort q call_cmp (Some s) = Some s' \<and> sk_ok s' \<and> mset (sk_list s') = mset (sk_list s) \<and>
    st_num s' = st_num s \<and> st_comp s' = st_comp s \<and> sorted_flag_ok call_cmp s' \<and>
    (st_comp s \<noteq> None \<longrightarrow> st_sorted s')"
proof (cases "st_comp s = None \<or> st_sorted s")
  case True
  then have "sk_sort q call_cmp (Some s) = Some s" by (auto simp: sk_sort_def split: option.split)
  then show ?thesis using ok flag True by auto
next
  case False
  then obtain c where c: "st_comp s = Some c" "\<not> st_sorted s" by auto
  let ?l = "sk_list s" and ?q = "q (call_cmp c) (sk_list s)"
  have len: "length ?l = st_num s" and num: "st_num s \<le> length (st_data s)"
    using ok by (simp_all add: sk_ok_def)
  have q': "mset ?q = mset ?l" "ascending (call_cmp c) ?q" using q ord [OF c(1)] unfolding libc_qsort_ok_def by blast+
  then have lq: "length ?q = st_num s" using mset_eq_length len by metis
  let ?s = "s\<lparr>st_data := (if st_num s \<ge> 2 then mem_write (st_data s) 0 ?q else st_data s), st_sorted := True\<rparr>"
  have sort: "sk_sort q call_cmp (Some s) = Some ?s" using c by (simp add: sk_sort_def sk_list_def)
  have list: "sk_list ?s = (if st_num s \<ge> 2 then ?q else ?l)"
    using lq num by (simp add: sk_list_def mem_write_def)
  have "sk_ok ?s" using ok lq num by (simp add: sk_ok_def)
  moreover have "mset (sk_list ?s) = mset ?l" using list q'(1) by simp
  moreover have "ascending (call_cmp c) (sk_list ?s)" using list q'(2) len ascending_short [of ?l] by simp
  ultimately show ?thesis using sort c by (simp add: sorted_flag_ok_def)
qed

text \<open>C30. After sorting, a binary search finds an element exactly when the stack held one equal to it
  before, and the one it finds is the first of its equals.
\<close>

theorem sk_sort_find:
  assumes ok: "sk_ok s" and q: "libc_qsort_ok q" and c: "st_comp s = Some c" and flag: "sorted_flag_ok call_cmp s"
    and p: "p \<noteq> None" and ord: "cmp_order (call_cmp c) (insert p (set (sk_list s)))"
  shows "\<exists>s'. sk_sort q call_cmp (Some s) = Some s' \<and> st_sorted s' \<and> mset (sk_list s') = mset (sk_list s) \<and>
    ascending (call_cmp c) (sk_list s') \<and>
    sk_find call_cmp (Some s') p = first_match (\<lambda>e. call_cmp c p e = 0) (sk_list s') \<and>
    (sk_find call_cmp (Some s') p = None \<longleftrightarrow> sk_find call_cmp (Some s) p = None)"
proof -
  have ord': "cmp_order (call_cmp c) (set (sk_list s))" by (rule cmp_order_subset [OF ord]) auto
  obtain s' where s': "sk_sort q call_cmp (Some s) = Some s'" "sk_ok s'" "mset (sk_list s') = mset (sk_list s)"
    "st_comp s' = st_comp s" "sorted_flag_ok call_cmp s'" "st_sorted s'"
    using sk_sort_list [OF ok q _ flag] ord' c by auto
  have set_eq: "set (sk_list s') = set (sk_list s)" using s'(3) by (rule mset_eq_setD)
  have m: "sk_matches call_cmp s' p = (\<lambda>e. call_cmp c p e = 0)" "sk_matches call_cmp s p = (\<lambda>e. call_cmp c p e = 0)"
    using c s'(4) by (simp_all add: sk_matches_def fun_eq_iff)
  have "sk_find call_cmp (Some s') p = first_match (\<lambda>e. call_cmp c p e = 0) (sk_list s')"
    using sk_find_exact [OF s'(2,5)] c s'(4) p ord set_eq m by simp
  moreover have "sk_find call_cmp (Some s) p = first_match (\<lambda>e. call_cmp c p e = 0) (sk_list s)"
    using sk_find_exact [OF ok flag] c p ord m by simp
  ultimately show ?thesis using s' c set_eq by (auto simp: first_match_None sorted_flag_ok_def)
qed

definition cmp_ints :: "(int, unit) call_cmp" where
  "cmp_ints c a b = the a - the b"

definition sk_sort_example :: "(int, unit) stack_st" where
  "sk_sort_example = \<lparr>st_num = 3, st_data = [Some 5, Some 1, Some 5, None], st_sorted = False, st_num_alloc = 4,
    st_comp = Some ()\<rparr>"

theorem sk_sort_find_witness:
  "\<exists>s'. sk_sort qsort cmp_ints (Some sk_sort_example) = Some s' \<and> sk_list s' = [Some 1, Some 5, Some 5] \<and>
    sk_find cmp_ints (Some s') (Some 5) = Some 1"
proof -
  have list: "sk_list sk_sort_example = [Some 5, Some 1, Some 5]" by (simp add: sk_sort_example_def sk_list_def)
  have "cmp_order (cmp_ints ()) (insert (Some 5) (set (sk_list sk_sort_example)))"
    by (simp add: cmp_order_def cmp_ints_def list)
  then obtain s' where s': "sk_sort qsort cmp_ints (Some sk_sort_example) = Some s'"
    "sk_find cmp_ints (Some s') (Some 5) = first_match (\<lambda>e. cmp_ints () (Some 5) e = 0) (sk_list s')"
    using sk_sort_find [of sk_sort_example qsort "()" cmp_ints "Some 5"] qsort_ok
    by (auto simp: sk_sort_example_def sk_ok_def sorted_flag_ok_def)
  have "sk_list s' = [Some 1, Some 5, Some 5]"
    using s'(1) by (auto simp: sk_sort_def sk_sort_example_def qsort_def cmp_ints_def sk_list_def mem_write_def numeral_eq_Suc)
  then show ?thesis using s' by (simp add: cmp_ints_def)
qed

section \<open>The flag of a sorted stack\<close>

lemma ascending_remove:
  assumes "ascending c l"
  shows "ascending c (take pos l @ drop (Suc pos) l)"
proof (cases "pos < length l")
  case True
  then have "l = take pos l @ l ! pos # drop (Suc pos) l" by (rule id_take_nth_drop)
  then have "sorted_wrt (\<lambda>a b. c a b \<le> 0) (take pos l @ l ! pos # drop (Suc pos) l)"
    using assms by (simp add: ascending_def)
  then show ?thesis by (simp add: ascending_def sorted_wrt_append)
qed (use assms in simp)

text \<open>Insertion clears the flag, and removal leaves an ascending list ascending.\<close>

lemma sk_insert_flag:
  "sk_ok s \<Longrightarrow> sorted_flag_ok call_cmp s \<Longrightarrow> sk_insert env (Some s) p pos = (r, Some s') \<Longrightarrow> sorted_flag_ok call_cmp s'"
  using sk_insert_list [of s env p pos] by (auto simp: sorted_flag_ok_def)

lemma sk_delete_flag:
  assumes "sk_ok s" "sorted_flag_ok call_cmp s" "sk_delete (Some s) pos = (r, Some s')"
  shows "sorted_flag_ok call_cmp s'"
proof (cases "pos < st_num s")
  case True
  then have "sk_list s' = take pos (sk_list s) @ drop (Suc pos) (sk_list s)" "st_comp s' = st_comp s" "st_sorted s' = st_sorted s"
    using sk_delete_list(2) [OF assms(1) True] assms(3) by auto
  then show ?thesis using assms(2) by (simp add: sorted_flag_ok_def ascending_remove)
next
  case False
  then show ?thesis using sk_delete_list(1) [OF assms(1), of pos] assms(2,3) by simp
qed

lemma sk_set_cmp_func_flag:
  "sorted_flag_ok call_cmp s \<Longrightarrow> sorted_flag_ok call_cmp (snd (sk_set_cmp_func s c))"
  by (auto simp: sk_set_cmp_func_def sorted_flag_ok_def sk_list_def Let_def)

text \<open>
  \<open>sk_set\<close> does not clear the flag: after it, a stack that was sorted still says it is, and
  \<open>sk_find\<close>, which then searches it by bisection, does not find the element just set.
\<close>

theorem sk_set_keeps_sorted_flag:
  "let s = \<lparr>st_num = 3, st_data = [Some 1, Some 2, Some 3, None], st_sorted = False, st_num_alloc = 4, st_comp = Some ()\<rparr>;
     s' = snd (sk_set (sk_sort qsort cmp_ints (Some s)) 0 (Some 9))
   in sk_is_sorted s' \<and> sk_value s' 0 = Some 9 \<and> cmp_ints () (Some 9) (sk_value s' 0) = 0 \<and>
     sk_find cmp_ints s' (Some 9) = None"
proof -
  let ?s = "\<lparr>st_num = 3, st_data = [Some 1, Some 2, Some 3, None], st_sorted = False, st_num_alloc = 4, st_comp = Some ()\<rparr>
    :: (int, unit) stack_st"
  have "sk_sort qsort cmp_ints (Some ?s) = Some (?s\<lparr>st_sorted := True\<rparr>)"
    by (simp add: sk_sort_def qsort_def cmp_ints_def mem_write_def numeral_eq_Suc)
  then have s': "snd (sk_set (sk_sort qsort cmp_ints (Some ?s)) 0 (Some 9)) =
      Some (?s\<lparr>st_sorted := True, st_data := [Some 9, Some 2, Some 3, None]\<rparr>)"
    by (simp add: sk_set_def mem_write_def)
  have "sk_find_sorted (cmp_ints () (Some 9)) [Some 9, Some 2, Some 3, None] 0 3 = None"
    by (simp add: sk_find_sorted.simps cmp_ints_def)
  then show ?thesis unfolding Let_def s' by (simp add: sk_is_sorted_def sk_value_def cmp_ints_def sk_find_def)
qed

section \<open>Copies\<close>

lemma sk_dup_list:
  assumes ok: "sk_ok s" and dup: "sk_dup env (Some s) = Some r"
  shows "sk_ok r \<and> sk_list r = sk_list s \<and> st_num r = st_num s \<and> st_comp r = st_comp s \<and> st_sorted r = st_sorted s"
proof -
  have s: "length (st_data s) = st_num_alloc s" "st_num s < st_num_alloc s" "st_num_alloc s < 2 ^ 61"
    using ok by (simp_all add: sk_ok_def)
  have size: "8 * st_num_alloc s mod 2 ^ 64 = 8 * st_num_alloc s" using s(3) by simp
  obtain t d where t: "sk_new env (st_comp s) = Some t"
    and d': "ptr_realloc env (st_data t) (8 * st_num_alloc s mod 2 ^ 64) = Some d"
    and r: "r = \<lparr>st_num = st_num s, st_data = mem_write d 0 (take (st_num s) (st_data s)), st_sorted = st_sorted s,
      st_num_alloc = st_num_alloc s, st_comp = st_comp s\<rparr>"
    using dup by (auto simp: sk_dup_def split: option.splits)
  have d: "ptr_realloc env (st_data t) (8 * st_num_alloc s) = Some d" using d' unfolding size .
  have "length d = st_num_alloc s"
    using d ptr_malloc_Some [of env "8 * st_num_alloc s"] by (auto simp: ptr_realloc_def)
  then show ?thesis using s by (simp add: r sk_ok_def sk_list_def mem_write_def)
qed

text \<open>Copying a list of pointers: NULLs stay, and the first failure frees the copies made.\<close>

fun copy_list :: "('p \<Rightarrow> 's \<Rightarrow> 'p option \<times> 's) \<Rightarrow> ('p \<Rightarrow> 's \<Rightarrow> 's) \<Rightarrow> 'p option list \<Rightarrow> 'p option list \<Rightarrow> 's \<Rightarrow>
    'p option list option \<times> 's" where
  "copy_list copy free copies [] st = (Some copies, st)"
| "copy_list copy free copies (None # ps) st = copy_list copy free (copies @ [None]) ps st"
| "copy_list copy free copies (Some p # ps) st =
     (case copy p st of
        (None, st) \<Rightarrow> (None, fold free (map the (filter (\<lambda>q. q \<noteq> None) copies)) st)
      | (Some q, st) \<Rightarrow> copy_list copy free (copies @ [Some q]) ps st)"

lemma fold_free_copies:
  "fold (\<lambda>j st. case (copies @ ps) ! j of None \<Rightarrow> st | Some q \<Rightarrow> free q st) [0..<length copies] st =
    fold free (map the (filter (\<lambda>q. q \<noteq> None) copies)) st"
proof (induction copies arbitrary: ps rule: rev_induct)
  case (snoc c copies)
  then show ?case by (auto simp: nth_append split: option.split)
qed simp

lemma deep_copy_loop_list:
  "length copies = i \<Longrightarrow> num = i + length ps \<Longrightarrow>
    deep_copy_loop copy free i num (copies @ ps @ rest) st =
    (case copy_list copy free copies ps st of
       (None, st') \<Rightarrow> (None, st')
     | (Some l, st') \<Rightarrow> (Some (l @ rest), st'))"
proof (induction ps arbitrary: copies i st)
  case Nil
  then show ?case by (simp add: deep_copy_loop.simps)
next
  case (Cons p ps)
  have at: "(copies @ (p # ps) @ rest) ! i = p" "i < num" using Cons.prems by (simp_all add: nth_append)
  show ?case
  proof (cases p)
    case None
    then show ?thesis using Cons.IH [of "copies @ [None]" "Suc i" st] Cons.prems at
      by (subst deep_copy_loop.simps) simp
  next
    case (Some q)
    have "fold (\<lambda>j st. case (copies @ (p # ps) @ rest) ! j of None \<Rightarrow> st | Some q \<Rightarrow> free q st) [0..<i] st' =
        fold free (map the (filter (\<lambda>q. q \<noteq> None) copies)) st'" for st'
      using fold_free_copies [where copies = copies and ps = "(p # ps) @ rest" and free = free and st = st'] Cons.prems by simp
    moreover have "mem_write (copies @ (p # ps) @ rest) i [Some c] = (copies @ [Some c]) @ ps @ rest" for c
      using Cons.prems by (simp add: mem_write_def)
    ultimately show ?thesis
      using Cons.IH [of "copies @ [Some c]" "Suc i" for c] Cons.prems Some at
      by (subst deep_copy_loop.simps) (simp split: prod.split option.split)
  qed
qed

lemma copy_list_length:
  "copy_list copy free copies ps st = (Some l, st') \<Longrightarrow> length l = length copies + length ps"
  by (induction copy free copies ps st rule: copy_list.induct) (auto split: prod.splits option.splits)

text \<open>A deep copy holds the copies of the elements in order. When the stack itself cannot be
  allocated nothing is copied; when a copy fails, the copies made before it are freed, each
  once, and no element of the original is.
\<close>

theorem sk_deep_copy_exact:
  assumes ok: "sk_ok s"
  shows "case sk_deep_copy env copy free (Some s) st of
      (None, st') \<Rightarrow> (sk_dup env (Some s) = None \<and> st' = st) \<or> copy_list copy free [] (sk_list s) st = (None, st')
    | (Some r, st') \<Rightarrow> sk_ok r \<and> copy_list copy free [] (sk_list s) st = (Some (sk_list r), st') \<and> st_comp r = st_comp s"
proof (cases "sk_dup env (Some s)")
  case None
  then show ?thesis by (simp add: sk_deep_copy_def)
next
  case (Some r)
  have r: "sk_ok r" "sk_list r = sk_list s" "st_num r = st_num s" "st_comp r = st_comp s"
    using sk_dup_list [OF ok Some] by simp_all
  let ?rest = "drop (st_num r) (st_data r)"
  have data: "st_data r = sk_list s @ ?rest" using r(2) by (metis append_take_drop_id sk_list_def)
  have len: "length (sk_list s) = st_num r" using ok r(3) by simp
  have loop: "deep_copy_loop copy free 0 (st_num r) (st_data r) st =
      (case copy_list copy free [] (sk_list s) st of (None, st') \<Rightarrow> (None, st') | (Some l, st') \<Rightarrow> (Some (l @ ?rest), st'))"
    using deep_copy_loop_list [of "[]" 0 "st_num r" "sk_list s" copy free ?rest st] len data by simp
  obtain l st' where l: "copy_list copy free [] (sk_list s) st = (l, st')" by fastforce
  show ?thesis
  proof (cases l)
    case None
    then show ?thesis using Some loop l by (simp add: sk_deep_copy_def)
  next
    case (Some xs)
    then have "length xs = st_num r" using copy_list_length l len by fastforce
    then show ?thesis using \<open>sk_dup env (Some s) = Some r\<close> loop l Some r(1,4)
      by (simp add: sk_deep_copy_def sk_ok_def sk_list_def)
  qed
qed

theorem sk_deep_copy_exact_witness:
  "fst (sk_deep_copy sk_example_env (\<lambda>p st. if p = 3 then (None, st) else (Some (p + 10), st)) (\<lambda>p st. p # st)
     (Some (sk_example\<lparr>st_num := 3, st_data := [Some 1, None, Some 3, None]\<rparr>)) []) = None"
proof -
  let ?s = "sk_example\<lparr>st_num := 3, st_data := [Some 1, None, Some 3, None]\<rparr>"
  have "sk_ok ?s" by (simp add: sk_ok_def sk_example_def)
  from sk_deep_copy_exact [OF this, where env = sk_example_env and copy = "\<lambda>p st. if p = 3 then (None, st) else (Some (p + 10), st)"
      and free = "\<lambda>p st. p # st" and st = "[]"]
  show ?thesis by (auto simp: sk_example_def sk_list_def numeral_eq_Suc split: prod.splits option.splits)
qed

end
