(* ===== verification/Ctime.thy ===== *)
theory Ctime
  imports Prelude
begin

text \<open>
  The constant-time helpers of \<open>crypto/internal.h\<close>: comparisons that give a mask of all ones or
  all zeros, and the selection between two values by such a mask, without a branch. The
  header's comments argue for the formulas by SMT scripts on 32-bit words; here they are
  proved on the 64-bit words of the platform. \<open>value_barrier_w\<close> is the identity that the
  compiler cannot see through.
\<close>

section \<open>Masks\<close>

type_synonym crypto_word_t = u64

definition value_barrier_w :: "crypto_word_t \<Rightarrow> crypto_word_t" where
  "value_barrier_w a = a"

definition constant_time_msb_w :: "crypto_word_t \<Rightarrow> crypto_word_t" where
  "constant_time_msb_w a = 0 - drop_bit (8 * 8 - 1) a"

definition constant_time_lt_w :: "crypto_word_t \<Rightarrow> crypto_word_t \<Rightarrow> crypto_word_t" where
  "constant_time_lt_w a b = constant_time_msb_w (a XOR ((a XOR b) OR ((a - b) XOR a)))"

definition constant_time_lt_8 :: "crypto_word_t \<Rightarrow> crypto_word_t \<Rightarrow> u8" where
  "constant_time_lt_8 a b = ucast (constant_time_lt_w a b)"

definition constant_time_ge_w :: "crypto_word_t \<Rightarrow> crypto_word_t \<Rightarrow> crypto_word_t" where
  "constant_time_ge_w a b = NOT (constant_time_lt_w a b)"

definition constant_time_ge_8 :: "crypto_word_t \<Rightarrow> crypto_word_t \<Rightarrow> u8" where
  "constant_time_ge_8 a b = ucast (constant_time_ge_w a b)"

definition constant_time_is_zero_w :: "crypto_word_t \<Rightarrow> crypto_word_t" where
  "constant_time_is_zero_w a = constant_time_msb_w (NOT a AND (a - 1))"

definition constant_time_is_zero_8 :: "crypto_word_t \<Rightarrow> u8" where
  "constant_time_is_zero_8 a = ucast (constant_time_is_zero_w a)"

definition constant_time_eq_w :: "crypto_word_t \<Rightarrow> crypto_word_t \<Rightarrow> crypto_word_t" where
  "constant_time_eq_w a b = constant_time_is_zero_w (a XOR b)"

definition constant_time_eq_8 :: "crypto_word_t \<Rightarrow> crypto_word_t \<Rightarrow> u8" where
  "constant_time_eq_8 a b = ucast (constant_time_eq_w a b)"

text \<open>An \<open>int\<close> is a 32-bit word here; the cast to \<open>crypto_word_t\<close> extends its sign.\<close>

definition constant_time_eq_int :: "u32 \<Rightarrow> u32 \<Rightarrow> crypto_word_t" where
  "constant_time_eq_int a b = constant_time_eq_w (scast a) (scast b)"

definition constant_time_eq_int_8 :: "u32 \<Rightarrow> u32 \<Rightarrow> u8" where
  "constant_time_eq_int_8 a b = constant_time_eq_8 (scast a) (scast b)"

definition constant_time_select_w :: "crypto_word_t \<Rightarrow> crypto_word_t \<Rightarrow> crypto_word_t \<Rightarrow> crypto_word_t" where
  "constant_time_select_w msk a b = (value_barrier_w msk AND a) OR (value_barrier_w (NOT msk) AND b)"

definition constant_time_select_8 :: "u8 \<Rightarrow> u8 \<Rightarrow> u8 \<Rightarrow> u8" where
  "constant_time_select_8 msk a b = ucast (constant_time_select_w (ucast msk) (ucast a) (ucast b))"

definition constant_time_select_int :: "crypto_word_t \<Rightarrow> u32 \<Rightarrow> u32 \<Rightarrow> u32" where
  "constant_time_select_int msk a b = ucast (constant_time_select_w msk (scast a) (scast b))"

section \<open>What they compute\<close>

definition mask_of :: "bool \<Rightarrow> 'a::len word" where
  "mask_of P = (if P then - 1 else 0)"

lemma ucast_mask_of [simp]: "LENGTH('b) \<le> LENGTH('a) \<Longrightarrow> ucast (mask_of P :: 'a::len word) = (mask_of P :: 'b::len word)"
  by (auto simp: mask_of_def bit_simps intro!: bit_word_eqI)

lemma msb_is_large: "bit (a :: u64) 63 \<longleftrightarrow> 2 ^ 63 \<le> unat a"
proof -
  have "unat a div 2 ^ 63 < 2"
  proof (rule less_mult_imp_div_less)
    show "unat a < 2 * 2 ^ 63" using unsigned_less [of a, where ?'a = nat] by simp
  qed
  then have "odd (unat a div 2 ^ 63) \<longleftrightarrow> 0 < unat a div 2 ^ 63" by (cases "unat a div 2 ^ 63") auto
  also have "\<dots> \<longleftrightarrow> 2 ^ 63 \<le> unat a" by (simp add: div_greater_zero_iff)
  finally have "bit (unat a) 63 \<longleftrightarrow> 2 ^ 63 \<le> unat a" by (simp only: bit_iff_odd)
  moreover have "bit (unat a) 63 = bit a 63" by (simp add: bit_unsigned_iff)
  ultimately show ?thesis by simp
qed

lemma xor_eq_0_iff: "a XOR b = 0 \<longleftrightarrow> a = (b :: 'a::len word)"
proof
  assume "a XOR b = 0"
  then have "(a XOR b) XOR b = b" by simp
  then show "a = b" by (simp add: xor.assoc)
qed simp

lemma constant_time_msb_w_mask: "constant_time_msb_w a = mask_of (bit a 63)"
proof -
  have "bit a (63 + n) \<longleftrightarrow> n = 0 \<and> bit a 63" for n
    by (cases n) (auto dest: bit_imp_le_length)
  then have "drop_bit 63 a = of_bool (bit a 63)"
    by (intro bit_word_eqI) (auto simp: bit_simps)
  then show ?thesis by (simp add: constant_time_msb_w_def mask_of_def)
qed

lemma constant_time_lt_w_mask: "constant_time_lt_w a b = mask_of (a < b)"
proof -
  have ab: "unat a < 2 ^ 64" "unat b < 2 ^ 64" using unsigned_less [where ?'a = nat and w = a] unsigned_less [where ?'a = nat and w = b] by simp_all
  have "bit (a - b) 63 \<longleftrightarrow> 2 ^ 63 \<le> (if unat b \<le> unat a then unat a - unat b else unat a + 2 ^ 64 - unat b)"
    unfolding msb_is_large unat_sub_if' by (simp add: word_le_nat_alt)
  moreover have "bit (a XOR ((a XOR b) OR ((a - b) XOR a))) 63 \<longleftrightarrow>
      (if bit a 63 = bit b 63 then bit (a - b) 63 else bit b 63)" by (auto simp: bit_simps)
  ultimately have "bit (a XOR ((a XOR b) OR ((a - b) XOR a))) 63 \<longleftrightarrow> unat a < unat b"
    using ab unfolding msb_is_large [of a] msb_is_large [of b] by (auto split: if_splits)
  then show ?thesis by (simp add: constant_time_lt_w_def constant_time_msb_w_mask word_less_nat_alt)
qed

lemma constant_time_is_zero_w_mask: "constant_time_is_zero_w a = mask_of (a = 0)"
proof (cases "a = 0")
  case False
  then have "unat (a - 1) = unat a - 1" by (simp add: unat_minus_one)
  then have "bit (a - 1) 63 \<Longrightarrow> bit a 63" unfolding msb_is_large by linarith
  then have "\<not> bit (NOT a AND (a - 1)) 63" by (auto simp: bit_simps)
  then show ?thesis using False by (simp add: constant_time_is_zero_w_def constant_time_msb_w_mask)
qed (simp add: constant_time_is_zero_w_def constant_time_msb_w_mask)

lemma constant_time_eq_w_mask: "constant_time_eq_w a b = mask_of (a = b)"
  by (simp add: constant_time_eq_w_def constant_time_is_zero_w_mask xor_eq_0_iff)

lemma constant_time_ge_w_mask: "constant_time_ge_w a b = mask_of (b \<le> a)"
  by (auto simp: constant_time_ge_w_def constant_time_lt_w_mask mask_of_def)

lemma scast_eq_iff: "scast (a :: u32) = (scast b :: u64) \<longleftrightarrow> a = b"
proof
  assume eq: "scast a = (scast b :: u64)"
  show "a = b"
  proof (rule bit_word_eqI)
    fix n assume n: "n < LENGTH(32)"
    have "bit (scast x :: u64) n = bit x n" for x :: u32
      using n by (cases "n = 31") (auto simp: bit_signed_iff min_def)
    then show "bit a n = bit b n" using eq by metis
  qed
qed simp

lemma constant_time_select_w_mask: "constant_time_select_w (mask_of P) a b = (if P then a else b)"
  by (simp add: constant_time_select_w_def value_barrier_w_def mask_of_def)

lemma constant_time_select_8_mask: "constant_time_select_8 (mask_of P) a b = (if P then a else b)"
  by (rule bit_word_eqI)
    (auto simp: constant_time_select_8_def constant_time_select_w_def value_barrier_w_def mask_of_def bit_simps)

lemma constant_time_select_int_mask: "constant_time_select_int (mask_of P) a b = (if P then a else b)"
  by (rule bit_word_eqI)
    (auto simp: constant_time_select_int_def constant_time_select_w_mask bit_simps)

text \<open>C31. The helpers together: each comparison is the mask of the comparison it is named after, on
  words, on their low eight bits and on ints, and a selection by such a mask is a conditional.
\<close>

theorem constant_time_exact:
  "constant_time_lt_w a b = mask_of (a < b) \<and> constant_time_lt_8 a b = mask_of (a < b) \<and>
   constant_time_ge_w a b = mask_of (b \<le> a) \<and> constant_time_ge_8 a b = mask_of (b \<le> a) \<and>
   constant_time_is_zero_w a = mask_of (a = 0) \<and> constant_time_is_zero_8 a = mask_of (a = 0) \<and>
   constant_time_eq_w a b = mask_of (a = b) \<and> constant_time_eq_8 a b = mask_of (a = b) \<and>
   constant_time_eq_int i j = mask_of (i = j) \<and> constant_time_eq_int_8 i j = mask_of (i = j) \<and>
   constant_time_select_w (mask_of P) a b = (if P then a else b) \<and>
   constant_time_select_8 (mask_of P) x y = (if P then x else y) \<and>
   constant_time_select_int (mask_of P) i j = (if P then i else j)"
  by (simp add: constant_time_lt_8_def constant_time_ge_8_def constant_time_is_zero_8_def constant_time_eq_8_def
      constant_time_eq_int_def constant_time_eq_int_8_def constant_time_lt_w_mask constant_time_ge_w_mask
      constant_time_is_zero_w_mask constant_time_eq_w_mask constant_time_select_w_mask constant_time_select_8_mask
      constant_time_select_int_mask scast_eq_iff)

lemmas constant_time_masks = constant_time_lt_w_mask constant_time_ge_w_mask
  constant_time_is_zero_w_mask constant_time_eq_w_mask constant_time_select_w_mask constant_time_select_8_mask
  constant_time_select_int_mask

end
