(* ===== verification/Base64.thy ===== *)
theory Base64
  imports Ctime "HOL-Library.Char_ord"
begin

text \<open>
  \<open>crypto/base64/base64.c\<close>: base64 encoding and decoding, of blocks and of streams. A
  destination is the array it points into with the position of the pointer; writing is
  \<open>mem_write\<close>, so an array keeps its length exactly when nothing is written past its end. A
  decoding destination is treated the same. Characters are octets.
\<close>

section \<open>Characters\<close>

definition constant_time_lt_args_8 :: "u8 \<Rightarrow> u8 \<Rightarrow> u8" where
  "constant_time_lt_args_8 a b =
     (let aw = ucast a :: crypto_word_t;
          bw = ucast b :: crypto_word_t
      in ucast (constant_time_msb_w (aw - bw)))"

definition constant_time_in_range_8 :: "u8 \<Rightarrow> u8 \<Rightarrow> u8 \<Rightarrow> u8" where
  "constant_time_in_range_8 a lo hi = constant_time_lt_args_8 (a - lo) (hi - lo + 1)"

text \<open>\<open>'+'\<close> is 43, \<open>'/'\<close> 47, \<open>'0'\<close> 48, \<open>'9'\<close> 57, \<open>'='\<close> 61, \<open>'A'\<close> 65, \<open>'Z'\<close> 90, \<open>'a'\<close> 97, \<open>'z'\<close> 122.\<close>

definition conv_bin2ascii :: "u8 \<Rightarrow> u8" where
  "conv_bin2ascii a =
     (let a = a AND 0x3f;
          ret = constant_time_select_8 (constant_time_eq_8 (ucast a) 62) 43 47;
          ret = constant_time_select_8 (constant_time_lt_args_8 a 62) (a - 52 + 48) ret;
          ret = constant_time_select_8 (constant_time_lt_args_8 a 52) (a - 26 + 97) ret
      in constant_time_select_8 (constant_time_lt_args_8 a 26) (a + 65) ret)"

definition base64_ascii_to_bin :: "u8 \<Rightarrow> u8" where
  "base64_ascii_to_bin a =
     (let is_upper = constant_time_in_range_8 a 65 90;
          is_lower = constant_time_in_range_8 a 97 122;
          is_digit = constant_time_in_range_8 a 48 57;
          is_plus = constant_time_eq_8 (ucast a) 43;
          is_slash = constant_time_eq_8 (ucast a) 47;
          is_equals = constant_time_eq_8 (ucast a) 61;
          ret = 0xff;
          ret = constant_time_select_8 is_upper (a - 65) ret;
          ret = constant_time_select_8 is_lower (a - 97 + 26) ret;
          ret = constant_time_select_8 is_digit (a - 48 + 52) ret;
          ret = constant_time_select_8 is_plus 62 ret;
          ret = constant_time_select_8 is_slash 63 ret
      in constant_time_select_8 is_equals 0 ret)"

section \<open>Encoding\<close>

definition EVP_EncodedLength :: "nat \<Rightarrow> nat option" where
  "EVP_EncodedLength len =
     (if (len + 2) mod 2 ^ 64 < len then None
      else let len = (len + 2) mod 2 ^ 64 div 3
           in if (len * 4 mod 2 ^ 64) div 4 \<noteq> len then None
              else let len = len * 4 mod 2 ^ 64
                   in if (len + 1) mod 2 ^ 64 < len then None else Some ((len + 1) mod 2 ^ 64))"

record EVP_ENCODE_CTX =
  ec_data_used :: nat
  ec_data :: bytes
  ec_eof_seen :: bool
  ec_error_encountered :: bool

abbreviation (input) ec_size :: nat where
  "ec_size \<equiv> 48"

definition EVP_EncodeInit :: EVP_ENCODE_CTX where
  "EVP_EncodeInit = \<lparr>ec_data_used = 0, ec_data = replicate ec_size 0, ec_eof_seen = False, ec_error_encountered = False\<rparr>"

definition low8 :: "u32 \<Rightarrow> u8" where
  "low8 w = ucast w"

text \<open>The loop of \<open>EVP_EncodeBlock\<close>; the cases of the source are those of \<open>remaining\<close>.\<close>

fun encode_block_loop :: "bytes \<Rightarrow> nat \<Rightarrow> bytes \<Rightarrow> nat \<Rightarrow> bytes \<times> nat" where
  "encode_block_loop dst pos [] ret = (mem_write dst pos [0], ret)"
| "encode_block_loop dst pos [a] ret =
     (let l = push_bit 16 (ucast a) :: u32;
          dst = mem_write dst pos [conv_bin2ascii (low8 (drop_bit 18 l)), conv_bin2ascii (low8 (drop_bit 12 l)), 61, 61]
      in encode_block_loop dst (pos + 4) [] (ret + 4))"
| "encode_block_loop dst pos [a, b] ret =
     (let l = push_bit 16 (ucast a) OR push_bit 8 (ucast b) :: u32;
          dst = mem_write dst pos [conv_bin2ascii (low8 (drop_bit 18 l)), conv_bin2ascii (low8 (drop_bit 12 l)),
            conv_bin2ascii (low8 (drop_bit 6 l)), 61]
      in encode_block_loop dst (pos + 4) [] (ret + 4))"
| "encode_block_loop dst pos (a # b # c # src) ret =
     (let l = push_bit 16 (ucast a) OR push_bit 8 (ucast b) OR ucast c :: u32;
          dst = mem_write dst pos [conv_bin2ascii (low8 (drop_bit 18 l)), conv_bin2ascii (low8 (drop_bit 12 l)),
            conv_bin2ascii (low8 (drop_bit 6 l)), conv_bin2ascii (low8 l)]
      in encode_block_loop dst (pos + 4) src (ret + 4))"

definition EVP_EncodeBlock :: "bytes \<Rightarrow> nat \<Rightarrow> bytes \<Rightarrow> bytes \<times> nat" where
  "EVP_EncodeBlock dst pos src = encode_block_loop dst pos src 0"

text \<open>
  One full line: the encoding, a newline and a terminating NUL that the next line overwrites.
  The result is the array, the pointer after the newline and the number of octets.
\<close>

definition encode_line :: "bytes \<Rightarrow> nat \<Rightarrow> bytes \<Rightarrow> bytes \<times> nat \<times> nat" where
  "encode_line out pos data =
     (let (out, encoded) = EVP_EncodeBlock out pos data;
          pos = pos + encoded;
          out = mem_write out pos [10];
          pos = pos + 1
      in (mem_write out pos [0], pos, encoded))"

text \<open>
  The loop over whole lines; \<open>None\<close> for the early return when \<open>total\<close> overflows. The last two
  components are the total and the rest of the input.
\<close>

function encode_lines_loop :: "bytes \<Rightarrow> nat \<Rightarrow> bytes \<Rightarrow> nat \<Rightarrow> (bytes \<times> nat \<times> bytes) option \<times> bytes" where
  "encode_lines_loop out pos inp tot =
     (if length inp \<ge> ec_size then
        let (out, pos, encoded) = encode_line out pos (take ec_size inp)
        in if (tot + encoded + 1) mod 2 ^ 64 < tot then (None, out)
           else encode_lines_loop out pos (drop ec_size inp) ((tot + encoded + 1) mod 2 ^ 64)
      else (Some (out, tot, inp), out))"
  by pat_completeness auto
termination
  by (relation "measure (\<lambda>(out, pos, inp, tot). length inp)") auto

declare encode_lines_loop.simps [simp del]

definition EVP_EncodeUpdate :: "EVP_ENCODE_CTX \<Rightarrow> bytes \<Rightarrow> nat \<Rightarrow> bytes \<Rightarrow> EVP_ENCODE_CTX \<times> bytes \<times> nat" where
  "EVP_EncodeUpdate ctx out pos inp =
     (if length inp = 0 then (ctx, out, 0)
      else if ec_size - ec_data_used ctx > length inp
      then (ctx\<lparr>ec_data := mem_write (ec_data ctx) (ec_data_used ctx) inp,
                ec_data_used := ec_data_used ctx + length inp\<rparr>, out, 0)
      else
        let (ctx, out, pos, inp, tot) =
              (if ec_data_used ctx \<noteq> 0 then
                 let todo = ec_size - ec_data_used ctx;
                     data = mem_write (ec_data ctx) (ec_data_used ctx) (take todo inp);
                     (out, pos, encoded) = encode_line out pos data
                 in (ctx\<lparr>ec_data := data, ec_data_used := 0\<rparr>, out, pos, drop todo inp, encoded + 1)
               else (ctx, out, pos, inp, 0))
        in case encode_lines_loop out pos inp tot of
             (None, out) \<Rightarrow> (ctx, out, 0)
           | (Some (out, tot, inp), _) \<Rightarrow>
               (ctx\<lparr>ec_data := (if length inp \<noteq> 0 then mem_write (ec_data ctx) 0 inp else ec_data ctx),
                    ec_data_used := length inp\<rparr>,
                out, if tot > INT_MAX then 0 else tot))"

definition EVP_EncodeFinal :: "EVP_ENCODE_CTX \<Rightarrow> bytes \<Rightarrow> nat \<Rightarrow> EVP_ENCODE_CTX \<times> bytes \<times> nat" where
  "EVP_EncodeFinal ctx out pos =
     (if ec_data_used ctx = 0 then (ctx, out, 0)
      else let (out, encoded) = EVP_EncodeBlock out pos (take (ec_data_used ctx) (ec_data ctx));
               out = mem_write out (pos + encoded) [10];
               encoded = encoded + 1;
               out = mem_write out (pos + encoded) [0]
           in (ctx\<lparr>ec_data_used := 0\<rparr>, out, encoded))"

section \<open>Decoding\<close>

definition EVP_DecodedLength :: "nat \<Rightarrow> nat option" where
  "EVP_DecodedLength len = (if len mod 4 \<noteq> 0 then None else Some (len div 4 * 3))"

definition EVP_DecodeInit :: EVP_ENCODE_CTX where
  "EVP_DecodeInit = \<lparr>ec_data_used = 0, ec_data = replicate ec_size 0, ec_eof_seen = False, ec_error_encountered = False\<rparr>"

text \<open>The octets a quad of characters stands for, which the callers write to \<open>out\<close>.\<close>

definition base64_decode_quad :: "u8 \<Rightarrow> u8 \<Rightarrow> u8 \<Rightarrow> u8 \<Rightarrow> bytes option" where
  "base64_decode_quad in0 in1 in2 in3 =
     (let a = base64_ascii_to_bin in0;
          b = base64_ascii_to_bin in1;
          c = base64_ascii_to_bin in2;
          d = base64_ascii_to_bin in3
      in if a = 0xff \<or> b = 0xff \<or> c = 0xff \<or> d = 0xff then None
         else let v = push_bit 18 (ucast a) OR push_bit 12 (ucast b) OR push_bit 6 (ucast c) OR ucast d :: u32;
                  padding_pattern = push_bit 3 (of_bool (in0 = 61)) OR push_bit 2 (of_bool (in1 = 61)) OR
                    push_bit 1 (of_bool (in2 = 61)) OR of_bool (in3 = 61) :: u32
              in if padding_pattern = 0 then Some [low8 (drop_bit 16 v), low8 (drop_bit 8 v), low8 v]
                 else if padding_pattern = 1 then Some [low8 (drop_bit 16 v), low8 (drop_bit 8 v)]
                 else if padding_pattern = 3 then Some [low8 (drop_bit 16 v)]
                 else None)"

definition is_space :: "u8 \<Rightarrow> bool" where
  "is_space c \<longleftrightarrow> c = 32 \<or> c = 9 \<or> c = 13 \<or> c = 10"

text \<open>The loop of \<open>EVP_DecodeUpdate\<close>; its first result is \<open>False\<close> for the return of -1.\<close>

fun decode_update_loop :: "EVP_ENCODE_CTX \<Rightarrow> bytes \<Rightarrow> nat \<Rightarrow> bytes \<Rightarrow> nat \<Rightarrow> bool \<times> EVP_ENCODE_CTX \<times> bytes \<times> nat" where
  "decode_update_loop ctx out pos [] bytes_out = (True, ctx, out, bytes_out)"
| "decode_update_loop ctx out pos (c # inp) bytes_out =
     (if is_space c then decode_update_loop ctx out pos inp bytes_out
      else if ec_eof_seen ctx then (False, ctx\<lparr>ec_error_encountered := True\<rparr>, out, bytes_out)
      else let ctx = ctx\<lparr>ec_data := mem_write (ec_data ctx) (ec_data_used ctx) [c], ec_data_used := ec_data_used ctx + 1\<rparr>
           in if ec_data_used ctx = 4 then
                case base64_decode_quad (ec_data ctx ! 0) (ec_data ctx ! 1) (ec_data ctx ! 2) (ec_data ctx ! 3) of
                  None \<Rightarrow> (False, ctx\<lparr>ec_error_encountered := True\<rparr>, out, bytes_out)
                | Some octets \<Rightarrow>
                    decode_update_loop
                      (ctx\<lparr>ec_data_used := 0, ec_eof_seen := length octets < 3 \<or> ec_eof_seen ctx\<rparr>)
                      (mem_write out pos octets) (pos + length octets) inp (bytes_out + length octets)
              else decode_update_loop ctx out pos inp bytes_out)"

text \<open>The result is the returned \<open>int\<close>, the context, the output and \<open>*out_len\<close>.\<close>

definition EVP_DecodeUpdate :: "EVP_ENCODE_CTX \<Rightarrow> bytes \<Rightarrow> nat \<Rightarrow> bytes \<Rightarrow> int \<times> EVP_ENCODE_CTX \<times> bytes \<times> nat" where
  "EVP_DecodeUpdate ctx out pos inp =
     (if ec_error_encountered ctx then (-1, ctx, out, 0)
      else case decode_update_loop ctx out pos inp 0 of
             (False, ctx, out, _) \<Rightarrow> (-1, ctx, out, 0)
           | (True, ctx, out, bytes_out) \<Rightarrow>
               if bytes_out > INT_MAX then (-1, ctx\<lparr>ec_error_encountered := True\<rparr>, out, 0)
               else if ec_eof_seen ctx then (0, ctx, out, bytes_out)
               else (1, ctx, out, bytes_out))"

definition EVP_DecodeFinal :: "EVP_ENCODE_CTX \<Rightarrow> int" where
  "EVP_DecodeFinal ctx = (if ec_error_encountered ctx \<or> ec_data_used ctx \<noteq> 0 then -1 else 1)"

text \<open>The loop of \<open>EVP_DecodeBase64\<close> over the quads; a short one must be the last.\<close>

fun decode_base64_loop :: "bytes \<Rightarrow> nat \<Rightarrow> bytes \<Rightarrow> nat \<Rightarrow> nat option \<times> bytes" where
  "decode_base64_loop out pos (a # b # c # d # inp) bytes_out =
     (case base64_decode_quad a b c d of
        None \<Rightarrow> (None, out)
      | Some octets \<Rightarrow>
          let out = mem_write out pos octets
          in if length octets \<noteq> 3 \<and> inp \<noteq> [] then (None, out)
             else decode_base64_loop out (pos + length octets) inp (bytes_out + length octets))"
| "decode_base64_loop out pos _ bytes_out = (Some bytes_out, out)"

definition EVP_DecodeBase64 :: "bytes \<Rightarrow> nat \<Rightarrow> bytes \<Rightarrow> nat option \<times> bytes" where
  "EVP_DecodeBase64 out max_out inp =
     (if length inp mod 4 \<noteq> 0 then (None, out)
      else case EVP_DecodedLength (length inp) of
             None \<Rightarrow> (None, out)
           | Some max_len \<Rightarrow> if max_out < max_len then (None, out) else decode_base64_loop out 0 inp 0)"

definition trim_right :: "bytes \<Rightarrow> bytes" where
  "trim_right src = rev (dropWhile is_space (rev src))"

function pad_with_nul :: "bytes \<Rightarrow> nat \<Rightarrow> nat \<times> bytes" where
  "pad_with_nul dst dst_len =
     (if dst_len mod 3 \<noteq> 0 then pad_with_nul (mem_write dst dst_len [0]) (dst_len + 1) else (dst_len, dst))"
  by pat_completeness auto
termination
  by (relation "measure (\<lambda>(dst, dst_len). (3 - dst_len mod 3) mod 3)") (auto simp: mod_Suc split: if_splits)

declare pad_with_nul.simps [simp del]

definition EVP_DecodeBlock :: "bytes \<Rightarrow> bytes \<Rightarrow> int \<times> bytes" where
  "EVP_DecodeBlock dst src =
     (let src = trim_right (dropWhile (\<lambda>c. c = 32 \<or> c = 9) src)
      in case EVP_DecodedLength (length src) of
           None \<Rightarrow> (-1, dst)
         | Some dst_len \<Rightarrow>
             if dst_len > INT_MAX then (-1, dst)
             else case EVP_DecodeBase64 dst dst_len src of
                    (None, dst) \<Rightarrow> (-1, dst)
                  | (Some dst_len, dst) \<Rightarrow>
                      let (dst_len, dst) = pad_with_nul dst dst_len in (int dst_len, dst))"

section \<open>The alphabet\<close>

text \<open>Table 1 of RFC 4648.\<close>

definition b64_alphabet :: bytes where
  "b64_alphabet = map of_char ''ABCDEFGHIJKLMNOPQRSTUVWXYZabcdefghijklmnopqrstuvwxyz0123456789+/''"

definition b64_char :: "nat \<Rightarrow> u8" where
  "b64_char n = b64_alphabet ! (n mod 64)"

fun index_of :: "'a \<Rightarrow> 'a list \<Rightarrow> nat option" where
  "index_of x [] = None"
| "index_of x (y # ys) = (if x = y then Some 0 else map_option Suc (index_of x ys))"

definition b64_value :: "u8 \<Rightarrow> nat option" where
  "b64_value c = index_of c b64_alphabet"

lemma b64_alphabet_octets [code]:
  "b64_alphabet = map of_nat ([65..<91] @ [97..<123] @ [48..<58] @ [43, 47])"
  by code_simp

lemma index_of_append:
  "index_of x (xs @ ys) = (case index_of x xs of Some i \<Rightarrow> Some i | None \<Rightarrow> map_option (\<lambda>i. i + length xs) (index_of x ys))"
  by (induction xs) (auto split: option.split simp: option.map_comp comp_def option.map_ident)

lemma index_of_upt:
  "m \<le> 256 \<Longrightarrow> index_of c (map of_nat [k..<m]) = (if k \<le> unat (c :: u8) \<and> unat c < m then Some (unat c - k) else None)"
proof (induction "m - k" arbitrary: k)
  case (Suc n)
  then have k: "k < m" "k < 256" by simp_all
  have "c = of_nat k \<longleftrightarrow> unat c = k" using k(2) by (auto simp: word_unat_eq_iff unat_of_nat)
  moreover have "[k..<m] = k # [Suc k..<m]" using k(1) by (rule upt_conv_Cons)
  ultimately show ?case using Suc.hyps(1) [of "Suc k"] Suc.hyps(2) Suc.prems by auto
qed simp

lemma b64_value_ranges:
  "b64_value c =
     (let n = unat c in
      if 65 \<le> n \<and> n < 91 then Some (n - 65) else if 97 \<le> n \<and> n < 123 then Some (n - 71)
      else if 48 \<le> n \<and> n < 58 then Some (n + 4) else if n = 43 then Some 62 else if n = 47 then Some 63 else None)"
proof -
  have c: "c = 43 \<longleftrightarrow> unat c = 43" "c = 47 \<longleftrightarrow> unat c = 47" by (auto simp: word_unat_eq_iff)
  have le: "(91 :: nat) \<le> 256" "(123 :: nat) \<le> 256" "(58 :: nat) \<le> 256" by simp_all
  have last: "index_of c (map of_nat [43, 47]) = (if unat c = 43 then Some 0 else if unat c = 47 then Some 1 else None)"
    using c by simp
  show ?thesis
    unfolding b64_value_def b64_alphabet_octets map_append index_of_append
      index_of_upt [OF le(1)] index_of_upt [OF le(2)] index_of_upt [OF le(3)] last length_map length_upt length_append
    by (auto simp: Let_def)
qed

lemma constant_time_lt_args_8_mask: "constant_time_lt_args_8 a b = mask_of (a < b)"
proof -
  have "bit (ucast a - ucast b :: u64) 63 \<longleftrightarrow> unat a < unat b"
    unfolding msb_is_large unat_sub_if' using unat_u8_bound [of a] unat_u8_bound [of b]
    by (auto simp: word_le_nat_alt simp del: unat_u8_bound)
  then show ?thesis
    by (simp add: constant_time_lt_args_8_def constant_time_msb_w_mask word_less_nat_alt Let_def)
qed

lemma constant_time_in_range_8_mask:
  assumes "unat lo \<le> unat hi" "unat hi - unat lo < 255"
  shows "constant_time_in_range_8 a lo hi = mask_of (unat lo \<le> unat a \<and> unat a \<le> unat hi)"
proof -
  have w: "unat (hi - lo + 1) = unat hi - unat lo + 1"
    using assms by (simp add: unat_word_ariths unat_sub_if' word_le_nat_alt)
  have "unat (a - lo) = (if unat lo \<le> unat a then unat a - unat lo else unat a + 256 - unat lo)"
    by (simp add: unat_sub_if' word_le_nat_alt)
  then have "a - lo < hi - lo + 1 \<longleftrightarrow> unat lo \<le> unat a \<and> unat a \<le> unat hi"
    unfolding word_less_nat_alt w
    using assms unat_u8_bound [of a] unat_u8_bound [of hi] by (auto split: if_splits simp del: unat_u8_bound)
  then show ?thesis by (simp add: constant_time_in_range_8_def constant_time_lt_args_8_mask)
qed

lemma constant_time_eq_u8: "constant_time_eq_8 (ucast (a :: u8)) (ucast (b :: u8)) = mask_of (unat a = unat b)"
proof -
  have "unat (ucast a :: u64) = unat (ucast b :: u64) \<longleftrightarrow> unat a = unat b" by simp
  then have "(ucast a :: u64) = ucast b \<longleftrightarrow> unat a = unat b" by (simp only: word_unat_eq_iff)
  then show ?thesis by (simp add: constant_time_eq_8_def constant_time_masks)
qed

text \<open>Both conversions are the alphabet's, on every octet.\<close>

lemma conv_bin2ascii_table: "\<forall>n \<in> set [0..<64]. conv_bin2ascii (of_nat n) = b64_char n"
  by code_simp

lemma b64_char_octet:
  "unat (b64_char n) = (let n = n mod 64 in
     if n < 26 then n + 65 else if n < 52 then n + 71 else if n < 62 then n - 4 else if n = 62 then 43 else 47)"
proof -
  have "unat (map of_nat ([65..<91] @ [97..<123] @ [48..<58] @ [43, 47]) ! m :: u8) =
     (if m < 26 then m + 65 else if m < 52 then m + 71 else if m < 62 then m - 4 else if m = 62 then 43 else 47)"
    if "m < 64" for m
  proof -
    have last: "[43, 47] ! (m - 62) = (if m = 62 then 43 else 47 :: nat)" if "62 \<le> m" "m < 64"
      using that by (cases "m = 62") (auto simp: nth_Cons' )
    have small: "unat (of_nat k :: u8) = k" if "k < 256" for k using that by (simp add: unat_of_nat)
    have len: "length ([65..<91] @ [97..<123] @ [48..<58] @ [43, 47 :: nat]) = 64" by (simp only: length_append length_upt) simp
    have v: "([65..<91] @ [97..<123] @ [48..<58] @ [43, 47]) ! m =
        (if m < 26 then m + 65 else if m < 52 then m + 71 else if m < 62 then m - 4 else if m = 62 then 43 else 47)"
      using that last by (simp only: nth_append length_upt) (auto simp: nth_upt simp del: upt_Suc upt_rec_numeral)
    have "map of_nat ([65..<91] @ [97..<123] @ [48..<58] @ [43, 47]) ! m =
        (of_nat (([65..<91] @ [97..<123] @ [48..<58] @ [43, 47]) ! m) :: u8)"
      using that len by (intro nth_map) (simp only:)
    also have "unat \<dots> = (if m < 26 then m + 65 else if m < 52 then m + 71 else if m < 62 then m - 4 else if m = 62 then 43 else 47)"
      unfolding v using that by (intro small) auto
    finally show ?thesis .
  qed
  from this [of "n mod 64"] show ?thesis by (simp only: b64_char_def b64_alphabet_octets Let_def)
qed

lemma base64_ascii_to_bin_value:
  "base64_ascii_to_bin c = (if c = 61 then 0 else case b64_value c of None \<Rightarrow> 0xff | Some v \<Rightarrow> of_nat v)"
proof -
  have eq: "constant_time_eq_8 (ucast c) 43 = mask_of (unat c = 43)"
    "constant_time_eq_8 (ucast c) 47 = mask_of (unat c = 47)"
    "constant_time_eq_8 (ucast c) 61 = mask_of (unat c = 61)"
    using constant_time_eq_u8 [of c 43] constant_time_eq_u8 [of c 47] constant_time_eq_u8 [of c 61] by simp_all
  have rng: "constant_time_in_range_8 c 65 90 = mask_of (65 \<le> unat c \<and> unat c \<le> 90)"
    "constant_time_in_range_8 c 97 122 = mask_of (97 \<le> unat c \<and> unat c \<le> 122)"
    "constant_time_in_range_8 c 48 57 = mask_of (48 \<le> unat c \<and> unat c \<le> 57)"
    by (simp_all add: constant_time_in_range_8_mask)
  have c: "c = 61 \<longleftrightarrow> unat c = 61" by (auto simp: word_unat_eq_iff)
  have sub: "c - of_nat k = of_nat (unat c - k)" if "k \<le> unat c" for k
    using that by (simp add: of_nat_diff)
  show ?thesis
    unfolding base64_ascii_to_bin_def Let_def eq rng constant_time_select_8_mask c b64_value_ranges
    using sub [of 65] sub [of 97] sub [of 48] by (auto simp: of_nat_diff)
qed

lemma conv_bin2ascii_char: "conv_bin2ascii a = b64_char (unat a)"
proof -
  have m: "a AND 0x3f = of_nat (unat a mod 64)"
    using unat_and_mask [of a 6] by (intro unat_eq_of_nat) (simp add: mask_eq_exp_minus_1)
  have "conv_bin2ascii a = conv_bin2ascii (of_nat (unat a mod 64))"
    unfolding conv_bin2ascii_def m [symmetric] by (simp add: and.assoc)
  also have "\<dots> = b64_char (unat a mod 64)"
    using conv_bin2ascii_table by simp
  finally show ?thesis by (simp add: b64_char_def)
qed

lemma b64_value_char [simp]: "b64_value (b64_char n) = Some (n mod 64)"
  unfolding b64_value_ranges b64_char_octet Let_def by auto

lemma b64_char_plain [simp]: "b64_char n \<noteq> 61" "\<not> is_space (b64_char n)"
  unfolding is_space_def word_unat_eq_iff b64_char_octet Let_def by auto

lemma index_of_less: "index_of x ys = Some n \<Longrightarrow> n < length ys"
  by (induction ys arbitrary: n) (auto split: if_splits)

lemma b64_value_less: "b64_value c = Some v \<Longrightarrow> v < 64"
  using index_of_less [of c b64_alphabet v] by (simp add: b64_value_def b64_alphabet_def)

section \<open>Encoding\<close>

text \<open>
  RFC 4648: three octets are 24 bits, four groups of six; one or two octets left over are
  filled up with zero bits to two or three groups, and \<open>=\<close> fills up the quad.
\<close>

fun b64_encode :: "bytes \<Rightarrow> bytes" where
  "b64_encode [] = []"
| "b64_encode [a] = (let v = be_val [a] * 2 ^ 4 in [b64_char (v div 2 ^ 6), b64_char v, 61, 61])"
| "b64_encode [a, b] =
     (let v = be_val [a, b] * 2 ^ 2 in [b64_char (v div 2 ^ 12), b64_char (v div 2 ^ 6), b64_char v, 61])"
| "b64_encode (a # b # c # r) =
     (let v = be_val [a, b, c]
      in [b64_char (v div 2 ^ 18), b64_char (v div 2 ^ 12), b64_char (v div 2 ^ 6), b64_char v] @ b64_encode r)"

lemma b64_char_cong: "m mod 64 = n mod 64 \<Longrightarrow> b64_char m = b64_char n"
  by (simp add: b64_char_def)

lemma unat_low8: "unat (low8 w) = unat w mod 256"
  by (simp add: low8_def unat_ucast_mod)

lemma conv_shift: "conv_bin2ascii (low8 (drop_bit k l)) = b64_char (unat l div 2 ^ k)"
  by (simp add: conv_bin2ascii_char unat_low8 unat_drop_bit mod_mod_cancel b64_char_def)

lemma conv_no_shift: "conv_bin2ascii (low8 l) = b64_char (unat l)"
  by (simp add: conv_bin2ascii_char unat_low8 mod_mod_cancel b64_char_def)

lemma be_val_3: "be_val [a, b, c] = unat a * 2 ^ 16 + unat b * 2 ^ 8 + unat c"
  "be_val [a, b] = unat a * 2 ^ 8 + unat b" "be_val [a] = unat a"
  by (simp_all add: be_val_def)

lemma unat_group3:
  "unat (push_bit 16 (ucast a) OR push_bit 8 (ucast b) OR ucast c :: u32) = be_val [a, b, c]"
proof -
  have "push_bit 16 (ucast a) OR push_bit 8 (ucast b) OR ucast c =
      foldl (\<lambda>(r :: u32) b. push_bit 8 r OR ucast b) 0 [a, b, c]" by (simp add: push_bit_or or.assoc)
  then show ?thesis using unat_foldl_shift_or_word [of "[a, b, c]", where ?'a = 32] by simp
qed

lemma unat_group2: "unat (push_bit 16 (ucast a) OR push_bit 8 (ucast b) :: u32) = be_val [a, b] * 2 ^ 8"
  using unat_group3 [of a b 0] by (simp add: be_val_3 algebra_simps)

lemma unat_group1: "unat (push_bit 16 (ucast (a :: u8)) :: u32) = be_val [a] * 2 ^ 16"
  using unat_group3 [of a 0 0] by (simp add: be_val_3)

lemma mem_write_over:
  assumes "pos \<le> length out" "length zs \<le> length ys"
  shows "mem_write (mem_write out pos (xs @ zs)) (pos + length xs) ys = mem_write out pos (xs @ ys)"
proof -
  have "take (pos + length xs) (mem_write out pos (xs @ zs)) = take pos out @ xs"
    using assms(1) by (simp add: mem_write_def min_def)
  moreover have "drop (pos + length xs + length ys) (mem_write out pos (xs @ zs)) = drop (pos + length xs + length ys) out"
    using assms by (simp add: mem_write_def add_ac)
  ultimately show ?thesis by (simp add: mem_write_def add.assoc)
qed

lemmas mem_write_next = mem_write_over [of _ _ "[]", simplified]

lemma length_b64_encode: "length (b64_encode src) = 4 * ((length src + 2) div 3)"
proof (induction src rule: b64_encode.induct)
  case (4 a b c r)
  have "(length (a # b # c # r) + 2) div 3 = (length r + 2) div 3 + 1"
    using div_add_self2 [of 3 "length r + 2"] by simp
  then show ?case using 4 by (simp add: Let_def)
qed (simp_all add: Let_def)

lemma mem_write_reaches: "pos \<le> length out \<Longrightarrow> pos + length xs \<le> length (mem_write out pos xs)"
  by (simp add: mem_write_def)

lemma mem_write_reaches4: "pos \<le> length out \<Longrightarrow> length xs = 4 \<Longrightarrow> pos + 4 \<le> length (mem_write out pos xs)"
  using mem_write_reaches [of pos out xs] by simp

lemma mem_write_next4:
  "pos \<le> length out \<Longrightarrow> length xs = 4 \<Longrightarrow> mem_write (mem_write out pos xs) (pos + 4) ys = mem_write out pos (xs @ ys)"
  using mem_write_next [of pos out xs ys] by simp

lemma encode_block_loop_ref:
  "pos \<le> length dst \<Longrightarrow>
    encode_block_loop dst pos src ret = (mem_write dst pos (b64_encode src @ [0]), ret + length (b64_encode src))"
proof (induction src arbitrary: dst pos ret rule: b64_encode.induct)
  case (2 a)
  have "be_val [a] * 2 ^ 16 div 2 ^ 18 = be_val [a] * 2 ^ 4 div 2 ^ 6" "be_val [a] * 2 ^ 16 div 2 ^ 12 = be_val [a] * 2 ^ 4"
    by (simp_all add: be_val_3)
  then show ?case using 2
    by (simp only: encode_block_loop.simps b64_encode.simps Let_def conv_shift unat_group1) (simp add: mem_write_next4)
next
  case (3 a b)
  have "be_val [a, b] * 2 ^ 8 div 2 ^ 18 = be_val [a, b] * 2 ^ 2 div 2 ^ 12" "be_val [a, b] * 2 ^ 8 div 2 ^ 12 = be_val [a, b] * 2 ^ 2 div 2 ^ 6"
    "be_val [a, b] * 2 ^ 8 div 2 ^ 6 = be_val [a, b] * 2 ^ 2"
    by (simp_all add: be_val_3)
  then show ?case using 3
    by (simp only: encode_block_loop.simps b64_encode.simps Let_def conv_shift unat_group2) (simp add: mem_write_next4)
next
  case (4 a b c src)
  let ?q = "[b64_char (be_val [a, b, c] div 2 ^ 18), b64_char (be_val [a, b, c] div 2 ^ 12),
    b64_char (be_val [a, b, c] div 2 ^ 6), b64_char (be_val [a, b, c])]"
  have "encode_block_loop dst pos (a # b # c # src) ret = encode_block_loop (mem_write dst pos ?q) (pos + 4) src (ret + 4)"
    by (simp only: encode_block_loop.simps Let_def conv_shift) (simp only: conv_no_shift unat_group3)
  also have "\<dots> = (mem_write (mem_write dst pos ?q) (pos + 4) (b64_encode src @ [0]), ret + 4 + length (b64_encode src))"
    using 4(2) by (intro 4(1) mem_write_reaches4) simp_all
  finally show ?case using 4(2) by (simp add: mem_write_next4 Let_def)
qed simp

text \<open>A block is encoded as RFC 4648 says, with a NUL after it.\<close>

theorem EVP_EncodeBlock_exact:
  assumes "pos \<le> length dst"
  shows "EVP_EncodeBlock dst pos src = (mem_write dst pos (b64_encode src @ [0]), length (b64_encode src))"
  using encode_block_loop_ref [OF assms] by (simp add: EVP_EncodeBlock_def)

text \<open>
  \<open>EVP_EncodedLength\<close> is the room a block needs with its NUL, or an error when that is not a
  \<open>size_t\<close>.
\<close>

lemma quad_bound: "(n :: nat) < 2 ^ 62 \<Longrightarrow> n * 4 < 2 ^ 64 \<and> n * 4 + 1 < 2 ^ 64"
  by simp

lemma EVP_EncodedLength_exact:
  assumes "len < 2 ^ 64"
  shows "EVP_EncodedLength len = (let n = 4 * ((len + 2) div 3) + 1 in if n < 2 ^ 64 then Some n else None)"
proof -
  consider (wrap) "2 ^ 64 \<le> len + 2" | (big) "len + 2 < 2 ^ 64" "2 ^ 62 \<le> (len + 2) div 3" | (ok) "len + 2 < 2 ^ 64" "(len + 2) div 3 < 2 ^ 62"
    by linarith
  then show ?thesis
  proof cases
    case wrap
    then have "(len + 2) mod 2 ^ 64 = len + 2 - 2 ^ 64" using assms by (simp add: le_mod_geq)
    then have "(len + 2) mod 2 ^ 64 < len" using wrap by simp
    moreover have "2 ^ 64 div 3 \<le> (len + 2) div 3" using wrap by (rule div_le_mono)
    ultimately show ?thesis by (simp add: EVP_EncodedLength_def Let_def)
  next
    case big
    let ?n = "(len + 2) div 3"
    have "?n * 4 mod 2 ^ 64 < 2 ^ 64" by simp
    then have "?n * 4 mod 2 ^ 64 div 4 < 2 ^ 62" by (intro less_mult_imp_div_less) simp
    then have "?n * 4 mod 2 ^ 64 div 4 \<noteq> ?n" using big(2) by linarith
    then have "EVP_EncodedLength len = None" using big(1) by (simp only: EVP_EncodedLength_def Let_def mod_less) simp
    then show ?thesis using big(2) by (simp add: Let_def)
  next
    case ok
    let ?n = "(len + 2) div 3"
    have n: "?n * 4 < 2 ^ 64" "?n * 4 + 1 < 2 ^ 64" using quad_bound [OF ok(2)] by simp_all
    then have m: "?n * 4 mod 2 ^ 64 = ?n * 4" "(?n * 4 + 1) mod 2 ^ 64 = ?n * 4 + 1" by simp_all
    have "EVP_EncodedLength len = Some (?n * 4 + 1)"
      unfolding EVP_EncodedLength_def Let_def mod_less [OF ok(1)] m by simp
    then show ?thesis using n(2) by (simp add: Let_def mult.commute)
  qed
qed

section \<open>Decoding a quad\<close>

text \<open>
  Four characters of the alphabet are 24 bits; a quad that ends in \<open>=\<close> or \<open>==\<close> holds two octets
  or one, and the bits left over are dropped. Anything else is no quad.
\<close>

definition b64_quad :: "u8 \<Rightarrow> u8 \<Rightarrow> u8 \<Rightarrow> u8 \<Rightarrow> bytes option" where
  "b64_quad c0 c1 c2 c3 =
     (case (b64_value c0, b64_value c1, b64_value c2, b64_value c3) of
        (Some x, Some y, Some z, Some w) \<Rightarrow> Some (be_bytes 3 (x * 2 ^ 18 + y * 2 ^ 12 + z * 2 ^ 6 + w))
      | (Some x, Some y, Some z, None) \<Rightarrow>
          if c3 = 61 then Some (be_bytes 2 ((x * 2 ^ 12 + y * 2 ^ 6 + z) div 2 ^ 2)) else None
      | (Some x, Some y, None, None) \<Rightarrow>
          if c2 = 61 \<and> c3 = 61 then Some (be_bytes 1 ((x * 2 ^ 6 + y) div 2 ^ 4)) else None
      | _ \<Rightarrow> None)"

lemma b64_value_equals [simp]: "b64_value 61 = None"
  by (simp add: b64_value_ranges)

lemma unat_or_6:
  "unat y < 64 \<Longrightarrow> unat x < 2 ^ 26 \<Longrightarrow> unat (push_bit 6 x OR y :: u32) = unat x * 2 ^ 6 + unat y"
  by (rule unat_or_shift) simp_all

lemma unat_quad:
  assumes "x < 64" "y < 64" "z < 64" "w < 64"
  shows "unat (push_bit 18 (ucast (of_nat x :: u8)) OR push_bit 12 (ucast (of_nat y :: u8)) OR
      push_bit 6 (ucast (of_nat z :: u8)) OR ucast (of_nat w :: u8) :: u32) = x * 2 ^ 18 + y * 2 ^ 12 + z * 2 ^ 6 + w"
proof -
  let ?u = "\<lambda>n. ucast (of_nat n :: u8) :: u32"
  have u: "unat (of_nat n :: u8) = n" if "n < 64" for n using that by (simp add: unat_of_nat)
  define r1 r2 where "r1 = push_bit 6 (?u x) OR ?u y" and "r2 = push_bit 6 r1 OR ?u z"
  have "push_bit 18 (?u x) OR push_bit 12 (?u y) OR push_bit 6 (?u z) OR ?u w = push_bit 6 r2 OR ?u w"
    by (simp add: push_bit_or or.assoc r1_def r2_def)
  moreover have r1: "unat r1 = x * 2 ^ 6 + y"
    using assms unat_or_6 [of "?u y" "?u x"] by (simp add: u r1_def)
  moreover have r2: "unat r2 = unat r1 * 2 ^ 6 + z"
    using assms unat_or_6 [of "?u z" r1] r1 by (simp add: u r2_def)
  moreover have "unat (push_bit 6 r2 OR ?u w) = unat r2 * 2 ^ 6 + w"
    using assms unat_or_6 [of "?u w" r2] r1 r2 by (simp add: u)
  ultimately show ?thesis by (simp add: algebra_simps)
qed

lemma low8_shift: "low8 (drop_bit k v) = of_nat (unat v div 2 ^ k)"
  by (simp add: low8_def word_unat_eq_iff unat_ucast_mod unat_drop_bit unat_of_nat)

lemma low8_nat: "low8 v = of_nat (unat v)"
  using low8_shift [of 0 v] by simp

lemma be_bytes_3: "be_bytes 3 v = [of_nat (v div 2 ^ 16), of_nat (v div 2 ^ 8), of_nat v]"
  "be_bytes 2 v = [of_nat (v div 2 ^ 8), of_nat v]" "be_bytes 1 v = [of_nat v]"
  by (simp_all add: be_bytes_numeral One_nat_def div_mult2_eq [symmetric] del: One_nat_def) (simp_all add: One_nat_def)

text \<open>The value the decoder takes a character for: the alphabet's, and zero for padding.\<close>

definition quad_value :: "u8 \<Rightarrow> nat option" where
  "quad_value c = (if c = 61 then Some 0 else b64_value c)"

lemma quad_value_bin:
  "base64_ascii_to_bin c = (case quad_value c of None \<Rightarrow> 0xff | Some v \<Rightarrow> of_nat v)"
  "quad_value c = Some v \<Longrightarrow> v < 64" "quad_value c = Some v \<Longrightarrow> base64_ascii_to_bin c \<noteq> 0xff"
proof -
  show bin: "base64_ascii_to_bin c = (case quad_value c of None \<Rightarrow> 0xff | Some v \<Rightarrow> of_nat v)" for c
    by (simp add: base64_ascii_to_bin_value quad_value_def)
  show lt: "v < 64" if "quad_value c = Some v" for c v
    using that b64_value_less [of c v] by (auto simp: quad_value_def split: if_splits)
  have "(of_nat v :: u8) \<noteq> 0xff" if "v < 64" for v using that by (simp add: word_unat_eq_iff unat_of_nat)
  then show "quad_value c = Some v \<Longrightarrow> base64_ascii_to_bin c \<noteq> 0xff" using bin [of c] lt [of c v] by simp
qed

lemma base64_decode_quad_bad:
  "None \<in> {quad_value c0, quad_value c1, quad_value c2, quad_value c3} \<Longrightarrow> base64_decode_quad c0 c1 c2 c3 = None"
  by (auto simp: base64_decode_quad_def quad_value_bin(1))

lemma base64_decode_quad_good:
  assumes "quad_value c0 = Some x" "quad_value c1 = Some y" "quad_value c2 = Some z" "quad_value c3 = Some w"
  shows "base64_decode_quad c0 c1 c2 c3 =
    (let v = x * 2 ^ 18 + y * 2 ^ 12 + z * 2 ^ 6 + w
     in if c0 = 61 \<or> c1 = 61 then None
        else if c2 = 61 then (if c3 = 61 then Some [of_nat (v div 2 ^ 16)] else None)
        else if c3 = 61 then Some [of_nat (v div 2 ^ 16), of_nat (v div 2 ^ 8)]
        else Some [of_nat (v div 2 ^ 16), of_nat (v div 2 ^ 8), of_nat v])"
proof -
  have bin: "base64_ascii_to_bin c0 = of_nat x" "base64_ascii_to_bin c1 = of_nat y"
    "base64_ascii_to_bin c2 = of_nat z" "base64_ascii_to_bin c3 = of_nat w"
    using assms by (simp_all add: quad_value_bin(1))
  have ff: "base64_ascii_to_bin c0 \<noteq> 0xff" "base64_ascii_to_bin c1 \<noteq> 0xff"
    "base64_ascii_to_bin c2 \<noteq> 0xff" "base64_ascii_to_bin c3 \<noteq> 0xff"
    using assms by (simp_all add: quad_value_bin(3))
  define V where "V = push_bit 18 (ucast (of_nat x :: u8)) OR push_bit 12 (ucast (of_nat y :: u8)) OR
      push_bit 6 (ucast (of_nat z :: u8)) OR (ucast (of_nat w :: u8) :: u32)"
  have v: "unat V = x * 2 ^ 18 + y * 2 ^ 12 + z * 2 ^ 6 + w"
    unfolding V_def by (rule unat_quad [OF quad_value_bin(2) [OF assms(1)] quad_value_bin(2) [OF assms(2)]
      quad_value_bin(2) [OF assms(3)] quad_value_bin(2) [OF assms(4)]])
  have pattern: "push_bit 3 (of_bool p0) OR push_bit 2 (of_bool p1) OR push_bit 1 (of_bool p2) OR of_bool p3 =
      (of_nat (8 * of_bool p0 + 4 * of_bool p1 + 2 * of_bool p2 + of_bool p3) :: u32)" for p0 p1 p2 p3
    by (cases p0; cases p1; cases p2; cases p3) simp_all
  show ?thesis
    using ff unfolding base64_decode_quad_def Let_def bin V_def [symmetric] pattern
      low8_shift [of 16 V] low8_shift [of 8 V] low8_nat [of V] v
    by (cases "c0 = 61"; cases "c1 = 61"; cases "c2 = 61"; cases "c3 = 61") simp_all
qed

lemma base64_decode_quad_ref: "base64_decode_quad c0 c1 c2 c3 = b64_quad c0 c1 c2 c3"
proof (cases "None \<in> {quad_value c0, quad_value c1, quad_value c2, quad_value c3}")
  case True
  then have "b64_quad c0 c1 c2 c3 = None"
    by (auto simp: quad_value_def b64_quad_def split: if_splits option.split)
  then show ?thesis using base64_decode_quad_bad [OF True] by simp
next
  case False
  then obtain x y z w where v: "quad_value c0 = Some x" "quad_value c1 = Some y" "quad_value c2 = Some z" "quad_value c3 = Some w"
    by (metis insertCI option.exhaust)
  have short: "(x * 262144 + y * 4096 + z * 64) div 65536 = (x * 4096 + y * 64 + z) div 4 div 256"
    "(x * 262144 + y * 4096 + z * 64) div 256 = (x * 4096 + y * 64 + z) div 4"
    "(x * 262144 + y * 4096) div 65536 = (x * 64 + y) div 16"
  proof -
    have "x * 262144 + y * 4096 + z * 64 = 64 * (x * 4096 + y * 64 + z)" "x * 262144 + y * 4096 = 4096 * (x * 64 + y)"
      by (simp_all add: algebra_simps)
    moreover have "64 * k div 65536 = k div 4 div 256" "64 * k div 256 = k div 4" "4096 * k div 65536 = k div 16" for k :: nat
      using div_mult_mult1 [of 64 k 1024] div_mult_mult1 [of 64 k 4] div_mult_mult1 [of 4096 k 16]
      by (simp_all add: div_mult2_eq [symmetric])
    ultimately show "(x * 262144 + y * 4096 + z * 64) div 65536 = (x * 4096 + y * 64 + z) div 4 div 256"
      "(x * 262144 + y * 4096 + z * 64) div 256 = (x * 4096 + y * 64 + z) div 4"
      "(x * 262144 + y * 4096) div 65536 = (x * 64 + y) div 16" by (simp_all only:)
  qed
  show ?thesis unfolding base64_decode_quad_good [OF v]
    using v unfolding quad_value_def b64_quad_def be_bytes_3 Let_def
    by (auto simp: short split: if_splits option.splits)
qed

lemma group_digits:
  fixes v :: nat
  shows "v < 2 ^ 24 \<Longrightarrow> (v div 2 ^ 18) mod 64 * 2 ^ 18 + (v div 2 ^ 12) mod 64 * 2 ^ 12 + (v div 2 ^ 6) mod 64 * 2 ^ 6 + v mod 64 = v"
    and "v < 2 ^ 18 \<Longrightarrow> (v div 2 ^ 12) mod 64 * 2 ^ 12 + (v div 2 ^ 6) mod 64 * 2 ^ 6 + v mod 64 = v"
    and "v < 2 ^ 12 \<Longrightarrow> (v div 2 ^ 6) mod 64 * 2 ^ 6 + v mod 64 = v"
proof -
  have d: "v div 64 * 64 + v mod 64 = v" "v div 4096 * 64 + v div 64 mod 64 = v div 64"
    "v div 262144 * 64 + v div 4096 mod 64 = v div 4096"
    using div_mult_mod_eq [of "v div 64" 64] div_mult_mod_eq [of "v div 4096" 64]
    by (simp_all add: div_mult2_eq [symmetric])
  have top: "(v div 2 ^ k) mod 64 = v div 2 ^ k" if "v < 2 ^ k * 64" for k
    using that by (intro mod_less less_mult_imp_div_less) (simp add: mult.commute)
  have sums: "v div 262144 * 262144 + v div 4096 mod 64 * 4096 + v div 64 mod 64 * 64 + v mod 64 = v"
    "v div 4096 * 4096 + v div 64 mod 64 * 64 + v mod 64 = v"
    using d by linarith+
  show "(v div 2 ^ 18) mod 64 * 2 ^ 18 + (v div 2 ^ 12) mod 64 * 2 ^ 12 + (v div 2 ^ 6) mod 64 * 2 ^ 6 + v mod 64 = v" if "v < 2 ^ 24"
    using top [of 18] that sums(1) by simp
  show "(v div 2 ^ 12) mod 64 * 2 ^ 12 + (v div 2 ^ 6) mod 64 * 2 ^ 6 + v mod 64 = v" if "v < 2 ^ 18"
    using top [of 12] that sums(2) by simp
  show "(v div 2 ^ 6) mod 64 * 2 ^ 6 + v mod 64 = v" if "v < 2 ^ 12"
    using top [of 6] that d(1) by simp
qed

lemma b64_quad_encode:
  "b64_quad (b64_char (be_val [a, b, c] div 2 ^ 18)) (b64_char (be_val [a, b, c] div 2 ^ 12))
     (b64_char (be_val [a, b, c] div 2 ^ 6)) (b64_char (be_val [a, b, c])) = Some [a, b, c]"
  "b64_quad (b64_char (be_val [a, b] * 2 ^ 2 div 2 ^ 12)) (b64_char (be_val [a, b] * 2 ^ 2 div 2 ^ 6))
     (b64_char (be_val [a, b] * 2 ^ 2)) 61 = Some [a, b]"
  "b64_quad (b64_char (be_val [a] * 2 ^ 4 div 2 ^ 6)) (b64_char (be_val [a] * 2 ^ 4)) 61 61 = Some [a]"
proof -
  have "be_val [a, b, c] < 2 ^ 24" "be_val [a, b] * 2 ^ 2 < 2 ^ 18" "be_val [a] * 2 ^ 4 < 2 ^ 12"
    using be_val_bound [of "[a, b, c]"] be_val_bound [of "[a, b]"] be_val_bound [of "[a]"] by simp_all
  note g = group_digits(1) [OF this(1)] group_digits(2) [OF this(2)] group_digits(3) [OF this(3)]
  have a: "be_bytes 1 (be_val [a]) = [a]" by (rule be_bytes_be_val) simp
  show "b64_quad (b64_char (be_val [a, b, c] div 2 ^ 18)) (b64_char (be_val [a, b, c] div 2 ^ 12))
     (b64_char (be_val [a, b, c] div 2 ^ 6)) (b64_char (be_val [a, b, c])) = Some [a, b, c]"
    unfolding b64_quad_def b64_value_char option.case prod.case g(1) by (simp add: be_bytes_be_val)
  show "b64_quad (b64_char (be_val [a, b] * 2 ^ 2 div 2 ^ 12)) (b64_char (be_val [a, b] * 2 ^ 2 div 2 ^ 6))
     (b64_char (be_val [a, b] * 2 ^ 2)) 61 = Some [a, b]"
    unfolding b64_quad_def b64_value_char b64_value_equals option.case prod.case g(2) by (simp add: be_bytes_be_val)
  show "b64_quad (b64_char (be_val [a] * 2 ^ 4 div 2 ^ 6)) (b64_char (be_val [a] * 2 ^ 4)) 61 61 = Some [a]"
    unfolding b64_quad_def b64_value_char b64_value_equals option.case prod.case g(3) using a by simp
qed

section \<open>Decoding a text\<close>

text \<open>The octets of a text of whole quads, of which only the last may be short.\<close>

fun b64_decode :: "bytes \<Rightarrow> bytes option" where
  "b64_decode [] = Some []"
| "b64_decode (a # b # c # d # r) =
     (case b64_quad a b c d of
        None \<Rightarrow> None
      | Some x \<Rightarrow> if length x \<noteq> 3 \<and> r \<noteq> [] then None else map_option ((@) x) (b64_decode r))"
| "b64_decode _ = None"

lemma b64_quad_length: "b64_quad a b c d = Some x \<Longrightarrow> 1 \<le> length x \<and> length x \<le> 3"
  by (auto simp: b64_quad_def split: option.splits if_splits)

lemma b64_decode_encode [simp]: "b64_decode (b64_encode x) = Some x"
proof (induction x rule: b64_encode.induct)
  case (2 a)
  then show ?case using b64_quad_encode(3) [of a] by (simp add: Let_def)
next
  case (3 a b)
  then show ?case using b64_quad_encode(2) [of a b] by (simp add: Let_def)
next
  case (4 a b c r)
  then show ?case using b64_quad_encode(1) [of a b c] by (simp add: Let_def)
qed simp

lemma list_quad_cases:
  obtains "xs = []" | a where "xs = [a]" | a b where "xs = [a, b]" | a b c where "xs = [a, b, c]"
    | a b c d r where "xs = a # b # c # d # r"
  by (metis list.exhaust)

lemma quad_div: "length (a # b # c # d # r) div 4 = length r div 4 + 1"
  using div_add_self2 [of 4 "length r"] by simp

lemma b64_decode_length: "b64_decode t = Some x \<Longrightarrow> length t mod 4 = 0 \<and> length x \<le> 3 * (length t div 4)"
proof (induction t arbitrary: x rule: b64_decode.induct)
  case (2 a b c d r)
  then obtain q y where q: "b64_quad a b c d = Some q" "b64_decode r = Some y" "x = q @ y" "length q \<noteq> 3 \<longrightarrow> r = []"
    by (auto split: option.splits if_splits)
  have "length r mod 4 = 0 \<and> length y \<le> 3 * (length r div 4)" using 2(1) q by auto
  then show ?case using q(3) b64_quad_length [OF q(1)] quad_div [of a b c d r] by simp
qed simp_all

lemma decode_base64_loop_ref:
  "pos \<le> length out \<Longrightarrow> length inp mod 4 = 0 \<Longrightarrow>
    (case b64_decode inp of
       None \<Rightarrow> fst (decode_base64_loop out pos inp n) = None
     | Some x \<Rightarrow> decode_base64_loop out pos inp n = (Some (n + length x), mem_write out pos x))"
proof (induction inp arbitrary: out pos n rule: b64_decode.induct)
  case (2 a b c d r)
  show ?case
  proof (cases "b64_quad a b c d")
    case None
    then show ?thesis by (simp add: base64_decode_quad_ref)
  next
    case (Some q)
    show ?thesis
    proof (cases "length q \<noteq> 3 \<and> r \<noteq> []")
      case True
      then show ?thesis using Some by (simp add: base64_decode_quad_ref Let_def)
    next
      case False
      then have loop: "decode_base64_loop out pos (a # b # c # d # r) n = decode_base64_loop (mem_write out pos q) (pos + length q) r (n + length q)"
        using Some by (auto simp: base64_decode_quad_ref Let_def)
      have "pos + length q \<le> length (mem_write out pos q)" using 2(2) by (rule mem_write_reaches)
      then show ?thesis
        using 2(1) [OF Some False, of "pos + length q" "mem_write out pos q" "n + length q"] 2(2,3) False Some
          mem_write_next [of pos out q]
        unfolding loop by (cases "b64_decode r") (auto simp: add.assoc)
    qed
  qed
qed simp_all

text \<open>Whatever the text, nothing is written past the room its length calls for.\<close>

lemma decode_base64_loop_room:
  "pos + 3 * (length inp div 4) \<le> length out \<Longrightarrow> length (snd (decode_base64_loop out pos inp n)) = length out"
proof (induction out pos inp n rule: decode_base64_loop.induct)
  case (1 out pos a b c d inp n)
  show ?case
  proof (cases "b64_quad a b c d")
    case None
    then show ?thesis by (simp add: base64_decode_quad_ref)
  next
    case (Some q)
    have room: "pos + length q + 3 * (length inp div 4) \<le> length out"
      using 1(2) b64_quad_length [OF Some] quad_div [of a b c d inp] by simp
    then have "length (mem_write out pos q) = length out" by simp
    then show ?thesis using 1(1) [of q "mem_write out pos q"] Some room
      by (simp add: base64_decode_quad_ref Let_def)
  qed
qed simp_all

text \<open>
  One-shot decoding: the octets of the text when it is one, an error otherwise, and in either
  case nothing outside the room the caller declared.
\<close>

lemma EVP_DecodeBase64_ref:
  assumes "max_out \<le> length out"
  shows "length (snd (EVP_DecodeBase64 out max_out inp)) = length out"
    and "(case b64_decode inp of
       Some x \<Rightarrow> if 3 * (length inp div 4) \<le> max_out then EVP_DecodeBase64 out max_out inp = (Some (length x), mem_write out 0 x)
         else EVP_DecodeBase64 out max_out inp = (None, out)
     | None \<Rightarrow> fst (EVP_DecodeBase64 out max_out inp) = None)"
proof -
  show "length (snd (EVP_DecodeBase64 out max_out inp)) = length out"
    using assms decode_base64_loop_room [of 0 inp out 0]
    by (simp add: EVP_DecodeBase64_def EVP_DecodedLength_def mult.commute split: option.split)
  show "(case b64_decode inp of
       Some x \<Rightarrow> if 3 * (length inp div 4) \<le> max_out then EVP_DecodeBase64 out max_out inp = (Some (length x), mem_write out 0 x)
         else EVP_DecodeBase64 out max_out inp = (None, out)
     | None \<Rightarrow> fst (EVP_DecodeBase64 out max_out inp) = None)"
    using decode_base64_loop_ref [of 0 out inp 0] b64_decode_length [of inp]
    by (auto simp: EVP_DecodeBase64_def EVP_DecodedLength_def mult.commute split: option.split)
qed

text \<open>Encoding a block and decoding it gives the block back, for every length, within the room
  that \<open>EVP_EncodedLength\<close> and \<open>EVP_DecodedLength\<close> name and nowhere else.
\<close>

theorem EVP_base64_round_trip:
  assumes "EVP_EncodedLength (length src) = Some room" "length src < 2 ^ 64" "room \<le> length buf"
    and "EVP_DecodedLength (room - 1) = Some max_out" "max_out \<le> length out"
    and "EVP_EncodeBlock buf 0 src = (buf', n)"
  shows "length buf' = length buf \<and> n = room - 1 \<and>
    EVP_DecodeBase64 out max_out (take n buf') = (Some (length src), mem_write out 0 src) \<and>
    length src \<le> length out"
proof -
  have room: "room = 4 * ((length src + 2) div 3) + 1"
    using assms(1) EVP_EncodedLength_exact [OF assms(2)] by (auto simp: Let_def split: if_splits)
  have buf': "buf' = mem_write buf 0 (b64_encode src @ [0])" "n = length (b64_encode src)"
    using assms(6) EVP_EncodeBlock_exact [of 0 buf src] by simp_all
  have n: "n = room - 1" using buf'(2) room by (simp add: length_b64_encode)
  have len: "length buf' = length buf" using buf' assms(3) room n by (simp add: length_b64_encode)
  have "take n buf' = b64_encode src" by (simp add: buf' mem_write_def)
  moreover have "3 * (length (b64_encode src) div 4) \<le> max_out"
    using assms(4) room by (auto simp: EVP_DecodedLength_def length_b64_encode split: if_splits)
  moreover have "length src \<le> 3 * (length (b64_encode src) div 4)"
    using b64_decode_length [OF b64_decode_encode [of src]] by simp
  ultimately show ?thesis using EVP_DecodeBase64_ref(2) [OF assms(5), of "b64_encode src"] len n assms(5) by simp
qed

section \<open>Decoding a stream\<close>

text \<open>A caller that decodes a text it gets in pieces, and stops at the first error.\<close>

fun decode_stream :: "EVP_ENCODE_CTX \<Rightarrow> bytes \<Rightarrow> nat \<Rightarrow> bytes list \<Rightarrow> (nat \<times> bytes) option" where
  "decode_stream ctx out pos [] = (if EVP_DecodeFinal ctx = 1 then Some (pos, out) else None)"
| "decode_stream ctx out pos (c # cs) =
     (let (r, ctx, out, n) = EVP_DecodeUpdate ctx out pos c
      in if r = -1 then None else decode_stream ctx out (pos + n) cs)"

definition strip_spaces :: "bytes \<Rightarrow> bytes" where
  "strip_spaces t = filter (\<lambda>c. \<not> is_space c) t"

lemma b64_decode_extend:
  "b64_decode d = Some x \<Longrightarrow> length x mod 3 = 0 \<Longrightarrow> b64_decode (d @ r) = map_option ((@) x) (b64_decode r)"
proof (induction d arbitrary: x rule: b64_decode.induct)
  case (2 a b c e d)
  then obtain q y where q: "b64_quad a b c e = Some q" "b64_decode d = Some y" "x = q @ y" "length q \<noteq> 3 \<longrightarrow> d = []"
    by (auto split: option.splits if_splits)
  have l: "length q = 3"
  proof (rule ccontr)
    assume "length q \<noteq> 3"
    then have "x = q" "length q < 3" "0 < length q" using q b64_quad_length [OF q(1)] by auto
    then show False using 2(3) by simp
  qed
  then have "length y mod 3 = 0" using 2(3) q(3) by simp
  then show ?case using 2(1) [OF q(1) _ q(2)] q l by (simp add: option.map_comp comp_def)
next
  case 1
  then show ?case by (cases "b64_decode r") simp_all
qed simp_all

lemma b64_decode_closed:
  "b64_decode d = Some x \<Longrightarrow> length x mod 3 \<noteq> 0 \<Longrightarrow> r \<noteq> [] \<Longrightarrow> b64_decode (d @ r) = None"
proof (induction d arbitrary: x rule: b64_decode.induct)
  case (2 a b c e d)
  then obtain q y where q: "b64_quad a b c e = Some q" "b64_decode d = Some y" "x = q @ y" "length q \<noteq> 3 \<longrightarrow> d = []"
    by (auto split: option.splits if_splits)
  show ?case
  proof (cases "length q = 3")
    case True
    then have "length y mod 3 \<noteq> 0" using 2(3) q(3) by simp
    then show ?thesis using 2(1) [OF q(1) _ q(2)] True q 2(4) by simp
  next
    case False
    then show ?thesis using q 2(4) by simp
  qed
qed simp_all

lemma b64_decode_bad_prefix:
  "b64_decode d = None \<Longrightarrow> length d mod 4 = 0 \<Longrightarrow> b64_decode (d @ r) = None"
proof (induction d rule: b64_decode.induct)
  case (2 a b c e d)
  then show ?case by (auto split: option.splits if_splits)
qed simp_all

text \<open>
  The state after the text \<open>t\<close>, without its white space: the whole quads are decoded into the
  output, the characters of a quad begun are kept, and the end has been seen if the last quad
  was short.
\<close>

definition whole_quads :: "bytes \<Rightarrow> bytes" where
  "whole_quads t = take (4 * (length t div 4)) t"

definition dec_state :: "bytes \<Rightarrow> bytes \<Rightarrow> EVP_ENCODE_CTX \<Rightarrow> bytes \<Rightarrow> nat \<Rightarrow> bool" where
  "dec_state out0 t ctx out pos \<longleftrightarrow>
     \<not> ec_error_encountered ctx \<and> length (ec_data ctx) = 48 \<and> ec_data_used ctx = length t mod 4 \<and>
     take (ec_data_used ctx) (ec_data ctx) = drop (4 * (length t div 4)) t \<and>
     (\<exists>x. b64_decode (whole_quads t) = Some x \<and> out = mem_write out0 0 x \<and> pos = length x \<and>
        (ec_eof_seen ctx \<longleftrightarrow> length x mod 3 \<noteq> 0) \<and> (ec_eof_seen ctx \<longrightarrow> length t mod 4 = 0))"

lemma whole_quads_snoc:
  "whole_quads (t @ [c]) = (if length t mod 4 = 3 then t @ [c] else whole_quads t)"
proof (cases "length t mod 4 = 3")
  case True
  then have "4 * (Suc (length t) div 4) = Suc (length t)" by presburger
  then show ?thesis using True by (simp add: whole_quads_def)
next
  case False
  then have "Suc (length t) div 4 = length t div 4" by presburger
  then show ?thesis using False by (simp add: whole_quads_def)
qed

lemma whole_quads_all:
  assumes "length t mod 4 = 0"
  shows "whole_quads t = t"
proof -
  have "4 * (length t div 4) = length t" using assms by presburger
  then show ?thesis by (simp add: whole_quads_def)
qed

lemma whole_quads_split: "t = whole_quads t @ drop (4 * (length t div 4)) t"
  by (simp add: whole_quads_def)

lemma mem_write_append_quad:
  "mem_write (mem_write out0 0 x) (length x) q = mem_write out0 0 (x @ q)"
  using mem_write_next [of 0 out0 x q] by simp

text \<open>A character that is kept, a quad completed, a quad that is none.\<close>

lemma dec_state_keep:
  assumes "dec_state out0 t ctx out pos" "\<not> ec_eof_seen ctx" "length t mod 4 \<noteq> 3"
  shows "dec_state out0 (t @ [c])
    (ctx\<lparr>ec_data := mem_write (ec_data ctx) (ec_data_used ctx) [c], ec_data_used := ec_data_used ctx + 1\<rparr>) out pos"
proof -
  have "length t mod 4 < 4" by simp
  then have small: "length t mod 4 < 3" using assms(3) by linarith
  have m: "Suc (length t) mod 4 = Suc (length t mod 4)" "Suc (length t) div 4 = length t div 4"
    using small by (simp add: mod_Suc) (use small in presburger)
  have "take (Suc (length t mod 4)) (mem_write (ec_data ctx) (length t mod 4) [c]) = drop (4 * (length t div 4)) t @ [c]"
  proof -
    have used: "ec_data_used ctx = length t mod 4" "length (ec_data ctx) = 48"
      "take (ec_data_used ctx) (ec_data ctx) = drop (4 * (length t div 4)) t"
      using assms(1) unfolding dec_state_def by blast+
    then have "take (Suc (length t mod 4)) (mem_write (ec_data ctx) (length t mod 4) [c]) =
        take (length t mod 4) (ec_data ctx) @ [c]" using small by (intro take_mem_write_all) simp_all
    then show ?thesis using used(1,3) by simp
  qed
  then show ?thesis using assms small m whole_quads_snoc [of t c]
    by (auto simp: dec_state_def)
qed

lemma dec_state_quad:
  fixes c ctx
  assumes st: "dec_state out0 t ctx out pos" and eof: "\<not> ec_eof_seen ctx" and m: "length t mod 4 = 3"
  defines "d \<equiv> mem_write (ec_data ctx) (ec_data_used ctx) [c]"
  shows "b64_quad (d ! 0) (d ! 1) (d ! 2) (d ! 3) = None \<Longrightarrow> b64_decode ((t @ [c]) @ r) = None"
    and "b64_quad (d ! 0) (d ! 1) (d ! 2) (d ! 3) = Some q \<Longrightarrow>
      dec_state out0 (t @ [c]) (ctx\<lparr>ec_data := d, ec_data_used := 0, ec_eof_seen := length q < 3 \<or> ec_eof_seen ctx\<rparr>)
        (mem_write out pos q) (pos + length q)"
proof -
  obtain x where x: "b64_decode (whole_quads t) = Some x" "out = mem_write out0 0 x" "pos = length x" "length x mod 3 = 0"
    and used: "ec_data_used ctx = 3" "length (ec_data ctx) = 48" "take 3 (ec_data ctx) = drop (4 * (length t div 4)) t"
    and err: "\<not> ec_error_encountered ctx"
    using st eof m by (auto simp: dec_state_def)
  have "take 4 d = take 3 (ec_data ctx) @ [c]"
    unfolding d_def used(1) by (rule take_mem_write_all) (simp_all add: used(2))
  moreover have "length d = 48" using used by (simp add: d_def)
  then have "take 4 d = [d ! 0, d ! 1, d ! 2, d ! 3]"
    by (intro nth_equalityI) (auto simp: less_Suc_eq numeral_eq_Suc)
  ultimately have t: "t @ [c] = whole_quads t @ [d ! 0, d ! 1, d ! 2, d ! 3]"
    using whole_quads_split [of t] used(3) by simp
  have dec: "b64_decode ((t @ [c]) @ r) = map_option ((@) x) (b64_decode ([d ! 0, d ! 1, d ! 2, d ! 3] @ r))" for r
    unfolding t append_assoc by (rule b64_decode_extend [OF x(1,4)])
  show "b64_quad (d ! 0) (d ! 1) (d ! 2) (d ! 3) = None \<Longrightarrow> b64_decode ((t @ [c]) @ r) = None"
    unfolding dec by simp
  assume q: "b64_quad (d ! 0) (d ! 1) (d ! 2) (d ! 3) = Some q"
  have "b64_decode (t @ [c]) = Some (x @ q)" using dec [of "[]"] q by simp
  moreover have "length (t @ [c]) mod 4 = 0" using m by (simp add: mod_Suc)
  moreover have "4 * (length (t @ [c]) div 4) = length (t @ [c])" using m unfolding length_append by (simp add: mod_Suc) presburger
  moreover have "length (x @ q) mod 3 \<noteq> 0 \<longleftrightarrow> length q < 3"
    using x(4) b64_quad_length [OF q] unfolding length_append by presburger
  ultimately show "dec_state out0 (t @ [c]) (ctx\<lparr>ec_data := d, ec_data_used := 0, ec_eof_seen := length q < 3 \<or> ec_eof_seen ctx\<rparr>)
        (mem_write out pos q) (pos + length q)"
    using err eof used x \<open>length d = 48\<close> whole_quads_snoc [of t c] m
    by (simp add: dec_state_def mem_write_append_quad)
qed

lemma dec_state_closed:
  assumes "dec_state out0 t ctx out pos" "ec_eof_seen ctx" "r \<noteq> []"
  shows "b64_decode (t @ r) = None"
proof -
  obtain x where "b64_decode (whole_quads t) = Some x" "length x mod 3 \<noteq> 0" "length t mod 4 = 0"
    using assms(1,2) by (auto simp: dec_state_def)
  then show ?thesis using b64_decode_closed [of t x r] assms(3) by (simp add: whole_quads_all)
qed

text \<open>A call decodes its piece as the continuation of the text before it.\<close>

definition dec_result :: "bytes \<Rightarrow> bytes \<Rightarrow> bytes \<Rightarrow> nat \<Rightarrow> nat \<Rightarrow> bool \<times> EVP_ENCODE_CTX \<times> bytes \<times> nat \<Rightarrow> bool" where
  "dec_result out0 t inp pos n res \<longleftrightarrow>
     (case res of
        (True, ctx', out', n') \<Rightarrow>
          n \<le> n' \<and> dec_state out0 (t @ strip_spaces inp) ctx' out' (pos + n' - n) \<and> n' \<le> n + 3 * length inp
      | (False, ctx', out', n') \<Rightarrow> \<forall>r. b64_decode ((t @ strip_spaces inp) @ r) = None)"

lemma dec_result_step:
  assumes "dec_result out0 (t @ strip_spaces [c]) inp (pos + k) (n + k) res" "k \<le> 3"
  shows "dec_result out0 t (c # inp) pos n res"
  using assms by (auto simp: dec_result_def strip_spaces_def split: prod.splits bool.splits)

lemma decode_update_loop_state:
  "dec_state out0 t ctx out pos \<Longrightarrow> dec_result out0 t inp pos n (decode_update_loop ctx out pos inp n)"
proof (induction inp arbitrary: t ctx out pos n)
  case Nil
  then show ?case by (simp add: dec_result_def strip_spaces_def)
next
  case (Cons c inp)
  show ?case
  proof (cases "is_space c")
    case True
    then show ?thesis using Cons.IH [OF Cons.prems, of n] dec_result_step [of out0 t c inp pos 0 n]
      by (simp add: strip_spaces_def)
  next
    case False
    then have strip: "strip_spaces [c] = [c]" "strip_spaces (c # inp) = c # strip_spaces inp" by (simp_all add: strip_spaces_def)
    let ?d = "mem_write (ec_data ctx) (ec_data_used ctx) [c]"
    consider (eof) "ec_eof_seen ctx" | (keep) "\<not> ec_eof_seen ctx" "length t mod 4 \<noteq> 3"
      | (bad) "\<not> ec_eof_seen ctx" "length t mod 4 = 3" "b64_quad (?d ! 0) (?d ! 1) (?d ! 2) (?d ! 3) = None"
      | (quad) q where "\<not> ec_eof_seen ctx" "length t mod 4 = 3" "b64_quad (?d ! 0) (?d ! 1) (?d ! 2) (?d ! 3) = Some q"
      by (metis option.exhaust)
    moreover have used: "ec_data_used ctx = length t mod 4" using Cons.prems by (simp add: dec_state_def)
    ultimately show ?thesis
    proof cases
      case eof
      then show ?thesis using dec_state_closed [OF Cons.prems eof] False
        by (simp add: dec_result_def strip)
    next
      case keep
      have "ec_data_used ctx + 1 \<noteq> 4" using used keep(2) by simp
      then show ?thesis using Cons.IH [OF dec_state_keep [OF Cons.prems keep, of c], of n] keep False
          dec_result_step [of out0 t c inp pos 0 n] by (simp add: strip)
    next
      case bad
      then show ?thesis using dec_state_quad(1) [OF Cons.prems bad(1,2), of c] False used
        by (simp add: dec_result_def strip base64_decode_quad_ref)
    next
      case quad
      note st = dec_state_quad(2) [OF Cons.prems quad(1,2,3)]
      show ?thesis using Cons.IH [OF st, of "n + length q"] quad False used b64_quad_length [OF quad(3)]
          dec_result_step [of out0 t c inp pos "length q" n] by (simp add: strip base64_decode_quad_ref)
    qed
  qed
qed

lemma dec_state_init: "dec_state out [] EVP_DecodeInit out 0"
  by (simp add: dec_state_def EVP_DecodeInit_def whole_quads_def)

lemma EVP_DecodeUpdate_state:
  assumes st: "dec_state out0 t ctx out pos" and len: "length inp \<le> 2 ^ 29"
    and upd: "EVP_DecodeUpdate ctx out pos inp = (r, ctx', out', n)"
  shows "if r = -1 then \<forall>s. b64_decode ((t @ strip_spaces inp) @ s) = None
    else dec_state out0 (t @ strip_spaces inp) ctx' out' (pos + n)"
proof -
  obtain okay c o' n' where loop: "decode_update_loop ctx out pos inp 0 = (okay, c, o', n')" by (metis prod_cases4)
  have res: "dec_result out0 t inp pos 0 (okay, c, o', n')" using decode_update_loop_state [OF st, of inp 0] loop by simp
  have err: "\<not> ec_error_encountered ctx" using st by (simp add: dec_state_def)
  show ?thesis
  proof (cases okay)
    case True
    then have "n' \<le> 3 * 2 ^ 29" "dec_state out0 (t @ strip_spaces inp) c o' (pos + n')"
      using res len by (auto simp: dec_result_def)
    then show ?thesis using upd loop err True by (auto simp: EVP_DecodeUpdate_def split: if_splits)
  next
    case False
    then show ?thesis using upd loop err res by (auto simp: EVP_DecodeUpdate_def dec_result_def)
  qed
qed

lemma decode_stream_state:
  "dec_state out0 t ctx out pos \<Longrightarrow> list_all (\<lambda>c. length c \<le> 2 ^ 29) cs \<Longrightarrow>
    decode_stream ctx out pos cs = map_option (\<lambda>x. (length x, mem_write out0 0 x)) (b64_decode (t @ strip_spaces (concat cs)))"
proof (induction cs arbitrary: t ctx out pos)
  case Nil
  obtain x where x: "b64_decode (whole_quads t) = Some x" "out = mem_write out0 0 x" "pos = length x"
    and used: "ec_data_used ctx = length t mod 4" "\<not> ec_error_encountered ctx"
    using Nil by (auto simp: dec_state_def)
  show ?case
  proof (cases "length t mod 4 = 0")
    case True
    then show ?thesis using x used by (simp add: EVP_DecodeFinal_def whole_quads_all strip_spaces_def)
  next
    case False
    then have "b64_decode t = None" using b64_decode_length [of t] by (cases "b64_decode t") auto
    then show ?thesis using False used by (simp add: EVP_DecodeFinal_def strip_spaces_def)
  qed
next
  case (Cons c cs)
  obtain r ctx' out' n where upd: "EVP_DecodeUpdate ctx out pos c = (r, ctx', out', n)" by (metis prod_cases4)
  have split: "t @ strip_spaces (concat (c # cs)) = (t @ strip_spaces c) @ strip_spaces (concat cs)"
    by (simp add: strip_spaces_def)
  note st = EVP_DecodeUpdate_state [OF Cons.prems(1) _ upd]
  show ?case
  proof (cases "r = -1")
    case True
    then have "b64_decode (t @ strip_spaces (concat (c # cs))) = None" unfolding split using st Cons.prems(2) by simp
    then show ?thesis using True upd by simp
  next
    case False
    then have "dec_state out0 (t @ strip_spaces c) ctx' out' (pos + n)" using st Cons.prems(2) by simp
    then show ?thesis using Cons.IH Cons.prems(2) False upd unfolding split by simp
  qed
qed

text \<open>C32. Decoding a text in pieces: however it is cut and wherever white space stands, the result is
  that of decoding it at once without the white space, and an error exactly when that is one.
\<close>

theorem EVP_Decode_stream_exact:
  assumes "list_all (\<lambda>c. length c \<le> 2 ^ 29) cs"
  shows "decode_stream EVP_DecodeInit out 0 cs =
    map_option (\<lambda>x. (length x, mem_write out 0 x)) (b64_decode (strip_spaces (concat cs)))"
  using decode_stream_state [OF dec_state_init assms, of out] by simp

section \<open>Encoding a stream\<close>

text \<open>A caller that encodes data it gets in pieces, each call writing after the one before.\<close>

fun encode_stream :: "EVP_ENCODE_CTX \<Rightarrow> bytes \<Rightarrow> nat \<Rightarrow> bytes list \<Rightarrow> nat \<times> bytes" where
  "encode_stream ctx out pos [] = (let (ctx, out, n) = EVP_EncodeFinal ctx out pos in (pos + n, out))"
| "encode_stream ctx out pos (c # cs) =
     (let (ctx, out, n) = EVP_EncodeUpdate ctx out pos c in encode_stream ctx out (pos + n) cs)"

text \<open>The text: lines of 64 characters, 48 octets each, and a shorter last line.\<close>

function b64_lines :: "bytes \<Rightarrow> bytes" where
  "b64_lines data = (if data = [] then [] else b64_encode (take 48 data) @ [10] @ b64_lines (drop 48 data))"
  by pat_completeness auto
termination
  by (relation "measure length") auto

declare b64_lines.simps [simp del]

lemma b64_lines_Nil [simp]: "b64_lines [] = []"
  by (simp add: b64_lines.simps)

lemma b64_lines_line: "length l = 48 \<Longrightarrow> b64_lines (l @ r) = b64_encode l @ [10] @ b64_lines r"
  by (subst b64_lines.simps) auto

lemma b64_lines_last: "0 < length l \<Longrightarrow> length l \<le> 48 \<Longrightarrow> b64_lines l = b64_encode l @ [10]"
  by (subst b64_lines.simps) auto

lemma whole_lines_induct [consumes 1, case_names Nil line]:
  assumes "length d mod 48 = 0" "P []" "\<And>l e. length l = 48 \<Longrightarrow> length e mod 48 = 0 \<Longrightarrow> P e \<Longrightarrow> P (l @ e)"
  shows "P (d :: bytes)"
  using assms(1)
proof (induction "length d" arbitrary: d rule: less_induct)
  case less
  show ?case
  proof (cases "length d < 48")
    case True
    then show ?thesis using less.prems assms(2) by simp
  next
    case False
    have "length (drop 48 d) mod 48 = 0" using less.prems False by (simp add: le_mod_geq)
    then have "P (take 48 d @ drop 48 d)" using False less.hyps [of "drop 48 d"] by (intro assms(3)) simp_all
    then show ?thesis by simp
  qed
qed

lemma b64_lines_append: "length d mod 48 = 0 \<Longrightarrow> b64_lines (d @ r) = b64_lines d @ b64_lines r"
  by (induction d rule: whole_lines_induct) (simp_all add: b64_lines_line)

lemma length_b64_lines_whole: "length d mod 48 = 0 \<Longrightarrow> length (b64_lines d) = 65 * (length d div 48)"
  by (induction d rule: whole_lines_induct) (simp_all add: b64_lines_line length_b64_encode div_add_self1)

text \<open>
  The output so far: the text of the octets consumed in whole lines, perhaps with the NUL after
  it, which whatever is written next overwrites.
\<close>

definition enc_out :: "bytes \<Rightarrow> bytes \<Rightarrow> bytes \<Rightarrow> nat \<Rightarrow> bool" where
  "enc_out out0 w out pos \<longleftrightarrow> pos = length w \<and> (out = mem_write out0 0 w \<or> out = mem_write out0 0 (w @ [0]))"

lemma enc_out_write:
  assumes "enc_out out0 w out pos" "0 < length x"
  shows "mem_write out pos x = mem_write out0 0 (w @ x)"
  using assms mem_write_over [of 0 out0 "[]" x w] mem_write_over [of 0 out0 "[0]" x w]
  by (auto simp: enc_out_def Suc_le_eq)

lemma enc_out_pos: "enc_out out0 w out pos \<Longrightarrow> pos \<le> length out"
  using mem_write_reaches [of 0 out0 w] mem_write_reaches [of 0 out0 "w @ [0]"] by (auto simp: enc_out_def)

lemma encode_line_out:
  assumes "enc_out out0 w out pos" "encode_line out pos l = (out', pos', e)"
  shows "enc_out out0 (w @ b64_encode l @ [10]) out' pos' \<and> e = length (b64_encode l) \<and> pos' = pos + e + 1"
proof -
  let ?e = "b64_encode l"
  have blk: "EVP_EncodeBlock out pos l = (mem_write out0 0 (w @ ?e @ [0]), length ?e)"
    using EVP_EncodeBlock_exact [OF enc_out_pos [OF assms(1)]] enc_out_write [OF assms(1), of "?e @ [0]"] by simp
  have pos: "pos = length w" using assms(1) by (simp add: enc_out_def)
  have 1: "mem_write (mem_write out0 0 (w @ ?e @ [0])) (length w + length ?e) [10] = mem_write out0 0 (w @ ?e @ [10])"
    using mem_write_over [of 0 out0 "[0]" "[10]" "w @ ?e"] by simp
  have 2: "mem_write (mem_write out0 0 (w @ ?e @ [10])) (length w + length ?e + 1) [0] = mem_write out0 0 (w @ ?e @ [10, 0])"
    using mem_write_next [of 0 out0 "w @ ?e @ [10]" "[0]"] by (simp add: add.assoc)
  show ?thesis using assms(2) blk 1 2 pos by (auto simp: encode_line_def Let_def enc_out_def)
qed

lemma encode_lines_loop_out:
  assumes "enc_out out0 w out pos" "tot + 65 * (length inp div 48) < 2 ^ 64"
  shows "\<exists>out'. encode_lines_loop out pos inp tot = (Some (out', tot + 65 * (length inp div 48), drop (48 * (length inp div 48)) inp), out') \<and>
    enc_out out0 (w @ b64_lines (take (48 * (length inp div 48)) inp)) out' (pos + 65 * (length inp div 48))"
  using assms
proof (induction out pos inp tot arbitrary: w rule: encode_lines_loop.induct)
  case (1 out pos inp tot)
  show ?case
  proof (cases "48 \<le> length inp")
    case False
    then show ?thesis using 1(2) by (simp add: encode_lines_loop.simps)
  next
    case True
    obtain out1 pos1 e where line: "encode_line out pos (take 48 inp) = (out1, pos1, e)" by (metis prod_cases3)
    have e1: "e = 64" using encode_line_out [OF 1(2) line] True by (simp add: length_b64_encode)
    have e: "e = 64" "enc_out out0 (w @ b64_encode (take 48 inp) @ [10]) out1 pos1" "pos1 = pos + 65"
      using encode_line_out [OF 1(2) line] e1 by (blast, blast, simp)
    have div: "length inp div 48 = length (drop 48 inp) div 48 + 1" using True le_div_geq [of 48 "length inp"] by simp
    have tot: "(tot + e + 1) mod 2 ^ 64 = tot + 65" using 1(3) e div by (simp add: mod_less)
    have "(tot + 65) + 65 * (length (drop 48 inp) div 48) < 2 ^ 64" using 1(3) div by simp
    then obtain out' where out': "encode_lines_loop out1 pos1 (drop 48 inp) (tot + 65) =
        (Some (out', tot + 65 + 65 * (length (drop 48 inp) div 48), drop (48 * (length (drop 48 inp) div 48)) (drop 48 inp)), out')"
      "enc_out out0 ((w @ b64_encode (take 48 inp) @ [10]) @ b64_lines (take (48 * (length (drop 48 inp) div 48)) (drop 48 inp)))
         out' (pos1 + 65 * (length (drop 48 inp) div 48))"
      using 1(1) [OF True line [symmetric] refl refl, of "w @ b64_encode (take 48 inp) @ [10]"] e tot
      by (auto simp: add.commute [of 65 tot])
    have "take (48 * (length inp div 48)) inp = take 48 inp @ take (48 * (length (drop 48 inp) div 48)) (drop 48 inp)"
      using div by (simp add: take_add distrib_left add.commute [of _ 48])
    moreover have "length (take 48 inp) = 48" using True by simp
    moreover have "encode_lines_loop out pos inp tot = encode_lines_loop out1 pos1 (drop 48 inp) (tot + 65)"
      using True line tot by (subst encode_lines_loop.simps) simp
    ultimately show ?thesis using out' e(3) div by (simp add: b64_lines_line add.assoc) (simp add: add.commute)
  qed
qed

text \<open>The state after the data \<open>d\<close>: its whole lines are written, the rest is kept.\<close>

definition whole_lines :: "bytes \<Rightarrow> bytes" where
  "whole_lines d = take (48 * (length d div 48)) d"

definition rest_line :: "bytes \<Rightarrow> bytes" where
  "rest_line d = drop (48 * (length d div 48)) d"

definition enc_state :: "bytes \<Rightarrow> bytes \<Rightarrow> EVP_ENCODE_CTX \<Rightarrow> bytes \<Rightarrow> nat \<Rightarrow> bool" where
  "enc_state out0 d ctx out pos \<longleftrightarrow> length (ec_data ctx) = 48 \<and> ec_data_used ctx = length (rest_line d) \<and>
     take (ec_data_used ctx) (ec_data ctx) = rest_line d \<and> enc_out out0 (b64_lines (whole_lines d)) out pos"

lemma whole_rest [simp]: "whole_lines d @ rest_line d = d"
  by (simp add: whole_lines_def rest_line_def)

lemma length_rest_line: "length (rest_line d) < 48" "length (rest_line d) = length d mod 48"
  by (simp_all add: rest_line_def minus_mult_div_eq_mod)

lemma length_whole_lines [simp]: "length (whole_lines d) mod 48 = 0"
  by (simp add: whole_lines_def)

lemma whole_lines_unique:
  assumes "length w mod 48 = 0" "length r < 48"
  shows "whole_lines (w @ r) = w" "rest_line (w @ r) = r"
proof -
  obtain k where k: "length w = 48 * k" using assms(1) by blast
  have "48 * ((length w + length r) div 48) = length w" using assms(2) by (simp add: k)
  then show "whole_lines (w @ r) = w" "rest_line (w @ r) = r" by (simp_all add: whole_lines_def rest_line_def)
qed

lemma whole_lines_append:
  assumes "length w mod 48 = 0"
  shows "whole_lines (w @ r) = w @ whole_lines r \<and> rest_line (w @ r) = rest_line r"
proof -
  have "length (w @ whole_lines r) mod 48 = 0"
    using assms length_whole_lines [of r] unfolding length_append by (simp add: mod_add_eq [symmetric] del: mod_add_eq length_whole_lines)
  from whole_lines_unique [OF this length_rest_line(1) [of r]] show ?thesis by simp
qed

lemma enc_state_loop:
  assumes "enc_out out0 (b64_lines w) out pos" "length w mod 48 = 0" "length data = 48"
    and "tot + 65 * (length inp div 48) \<le> INT_MAX"
  shows "\<exists>out'. encode_lines_loop out pos inp tot = (Some (out', tot + 65 * (length inp div 48), rest_line inp), out') \<and>
     enc_state out0 (w @ inp)
       (ctx\<lparr>ec_data := (if length (rest_line inp) \<noteq> 0 then mem_write data 0 (rest_line inp) else data),
            ec_data_used := length (rest_line inp)\<rparr>) out' (pos + 65 * (length inp div 48))"
proof -
  obtain out' where out': "encode_lines_loop out pos inp tot = (Some (out', tot + 65 * (length inp div 48), rest_line inp), out')"
    "enc_out out0 (b64_lines w @ b64_lines (whole_lines inp)) out' (pos + 65 * (length inp div 48))"
    using encode_lines_loop_out [OF assms(1), of tot inp] assms(4) by (auto simp: rest_line_def whole_lines_def)
  have "b64_lines w @ b64_lines (whole_lines inp) = b64_lines (whole_lines (w @ inp))"
    using b64_lines_append [OF assms(2)] whole_lines_append [OF assms(2)] by simp
  moreover have "take (length (rest_line inp)) (if length (rest_line inp) \<noteq> 0 then mem_write data 0 (rest_line inp) else data) = rest_line inp"
    by (simp add: mem_write_def)
  ultimately show ?thesis
    using out' assms(3) whole_lines_append [OF assms(2), of inp] length_rest_line(1) [of inp]
    by (auto simp: enc_state_def)
qed

lemma EVP_EncodeUpdate_state:
  assumes st: "enc_state out0 d ctx out pos" and len: "length inp \<le> 2 ^ 29"
    and upd: "EVP_EncodeUpdate ctx out pos inp = (ctx', out', n)"
  shows "enc_state out0 (d @ inp) ctx' out' (pos + n)"
proof -
  let ?used = "ec_data_used ctx"
  have used: "?used = length (rest_line d)" "?used < 48" "length (ec_data ctx) = 48" "take ?used (ec_data ctx) = rest_line d"
    and out: "enc_out out0 (b64_lines (whole_lines d)) out pos"
    using st length_rest_line(1) [of d] by (auto simp: enc_state_def)
  consider (none) "inp = []" | (kept) "inp \<noteq> []" "length inp < 48 - ?used"
    | (fresh) "inp \<noteq> []" "48 \<le> length inp + ?used" "?used = 0" | (fill) "inp \<noteq> []" "48 \<le> length inp + ?used" "?used \<noteq> 0"
    by linarith
  then show ?thesis
  proof cases
    case none
    then show ?thesis using upd st by (simp add: EVP_EncodeUpdate_def)
  next
    case kept
    have d: "d @ inp = whole_lines d @ (rest_line d @ inp)" by (simp flip: append_assoc)
    have "length (rest_line d @ inp) < 48" using kept used by simp
    then have wr: "whole_lines (d @ inp) = whole_lines d" "rest_line (d @ inp) = rest_line d @ inp"
      using whole_lines_unique [of "whole_lines d" "rest_line d @ inp"] unfolding d by simp_all
    have "take (?used + length inp) (mem_write (ec_data ctx) ?used inp) = rest_line d @ inp"
      using used kept by (subst take_mem_write_all) simp_all
    then show ?thesis using upd kept used out wr by (auto simp: EVP_EncodeUpdate_def enc_state_def)
  next
    case fresh
    have "rest_line d = []" using used(1) fresh(3) by simp
    then have d: "whole_lines d = d" using whole_rest [of d] by (metis append_Nil2)
    then have d48: "length d mod 48 = 0" by (metis length_whole_lines)
    have room: "0 + 65 * (length inp div 48) \<le> INT_MAX" using len by simp
    obtain o' where "encode_lines_loop out pos inp 0 = (Some (o', 0 + 65 * (length inp div 48), rest_line inp), o')"
      "enc_state out0 (d @ inp) (ctx\<lparr>ec_data := (if length (rest_line inp) \<noteq> 0 then mem_write (ec_data ctx) 0 (rest_line inp) else ec_data ctx),
            ec_data_used := length (rest_line inp)\<rparr>) o' (pos + 65 * (length inp div 48))"
      using enc_state_loop [OF _ d48 used(3) room, of out0 out pos ctx] out d by auto
    then show ?thesis using upd fresh room by (auto simp: EVP_EncodeUpdate_def Let_def split: if_splits)
  next
    case fill
    let ?todo = "48 - ?used"
    let ?data = "mem_write (ec_data ctx) ?used (take ?todo inp)"
    let ?w = "d @ take ?todo inp"
    have lt: "length (take ?todo inp) = ?todo" using fill by simp
    have len48: "length ?data = 48" using used lt by simp
    have "take 48 ?data = take ?used (ec_data ctx) @ take ?todo inp"
      using used lt by (intro take_mem_write_all) simp_all
    then have data: "?data = rest_line d @ take ?todo inp" using len48 used(4) by simp
    obtain out1 pos1 e where line: "encode_line out pos ?data = (out1, pos1, e)" by (metis prod_cases3)
    have e64: "e = 64" using encode_line_out [OF out line] len48 by (simp add: length_b64_encode)
    have line1: "enc_out out0 (b64_lines (whole_lines d) @ b64_encode ?data @ [10]) out1 pos1" "pos1 = pos + 65"
      using encode_line_out [OF out line] e64 by (blast, simp)
    have "b64_lines ?w = b64_lines (whole_lines d @ (?data @ []))" using data by (simp flip: append_assoc)
    also have "\<dots> = b64_lines (whole_lines d) @ b64_encode ?data @ [10]"
      using b64_lines_append [OF length_whole_lines] b64_lines_line [OF len48, of "[]"] by (simp del: append_Nil2)
    finally have w: "b64_lines ?w = b64_lines (whole_lines d) @ b64_encode ?data @ [10]" .
    have "length ?w = length (whole_lines d) + length ?data" using data by (metis append_assoc length_append whole_rest)
    then have w48: "length ?w mod 48 = 0" using len48 length_whole_lines [of d] by simp
    have split: "d @ inp = ?w @ drop ?todo inp" by simp
    have room: "65 + 65 * (length (drop ?todo inp) div 48) \<le> INT_MAX"
    proof -
      have "length (drop ?todo inp) div 48 \<le> 2 ^ 29 div 48" using len by (intro div_le_mono) simp
      then show ?thesis by simp
    qed
    obtain o' where o': "encode_lines_loop out1 pos1 (drop ?todo inp) 65 =
        (Some (o', 65 + 65 * (length (drop ?todo inp) div 48), rest_line (drop ?todo inp)), o')"
      "enc_state out0 (d @ inp) (ctx\<lparr>ec_data := ?data, ec_data_used := 0\<rparr>
          \<lparr>ec_data := (if length (rest_line (drop ?todo inp)) \<noteq> 0 then mem_write ?data 0 (rest_line (drop ?todo inp)) else ?data),
            ec_data_used := length (rest_line (drop ?todo inp))\<rparr>) o' (pos1 + 65 * (length (drop ?todo inp) div 48))"
      using enc_state_loop [OF _ w48 len48 room, of out0 out1 pos1 "ctx\<lparr>ec_data := ?data, ec_data_used := 0\<rparr>"] line1(1) w
      unfolding split [symmetric] by auto
    show ?thesis using upd fill o' room e64 line line1(2)
      by (auto simp: EVP_EncodeUpdate_def Let_def add.assoc split: if_splits)
  qed
qed

lemma enc_state_init: "enc_state out [] EVP_EncodeInit out 0"
  by (simp add: enc_state_def EVP_EncodeInit_def rest_line_def whole_lines_def enc_out_def)

lemma encode_stream_state:
  "enc_state out0 d ctx out pos \<Longrightarrow> list_all (\<lambda>c. length c \<le> 2 ^ 29) cs \<Longrightarrow>
    \<exists>out'. encode_stream ctx out pos cs = (length (b64_lines (d @ concat cs)), out') \<and>
      (out' = mem_write out0 0 (b64_lines (d @ concat cs)) \<or> out' = mem_write out0 0 (b64_lines (d @ concat cs) @ [0]))"
proof (induction cs arbitrary: d ctx out pos)
  case Nil
  have st: "ec_data_used ctx = length (rest_line d)" "take (ec_data_used ctx) (ec_data ctx) = rest_line d"
    "enc_out out0 (b64_lines (whole_lines d)) out pos" using Nil(1) by (auto simp: enc_state_def)
  show ?case
  proof (cases "rest_line d = []")
    case True
    then have "whole_lines d = d" using whole_rest [of d] by (metis append_Nil2)
    then show ?thesis using st True by (auto simp: EVP_EncodeFinal_def enc_out_def)
  next
    case False
    have lines: "b64_lines d = b64_lines (whole_lines d) @ b64_encode (rest_line d) @ [10]"
      using b64_lines_append [OF length_whole_lines, of d "rest_line d"] b64_lines_last [of "rest_line d"]
        False length_rest_line(1) [of d] by simp
    obtain out1 pos1 e where line: "encode_line out pos (rest_line d) = (out1, pos1, e)" by (metis prod_cases3)
    have "encode_stream ctx out pos [] = (pos + e + 1, out1)"
      using False st line by (auto simp: EVP_EncodeFinal_def encode_line_def Let_def split: prod.splits)
    then show ?thesis using encode_line_out [OF st(3) line] lines by (auto simp: enc_out_def)
  qed
next
  case (Cons c cs)
  obtain ctx' out' n where upd: "EVP_EncodeUpdate ctx out pos c = (ctx', out', n)" by (metis prod_cases3)
  have "enc_state out0 (d @ c) ctx' out' (pos + n)"
    using EVP_EncodeUpdate_state [OF Cons.prems(1) _ upd] Cons.prems(2) by simp
  then show ?case using Cons.IH [of "d @ c" ctx' out' "pos + n"] Cons.prems(2) upd by simp
qed

text \<open>
  Encoding data in pieces: however it is cut, the text is that of its 48-octet blocks, one line
  each, and with room for the text and a NUL nothing is written past the array.
\<close>

theorem EVP_Encode_stream_exact:
  assumes "list_all (\<lambda>c. length c \<le> 2 ^ 29) cs" "length (b64_lines (concat cs)) + 1 \<le> length out"
    and "encode_stream EVP_EncodeInit out 0 cs = (n, out')"
  shows "take n out' = b64_lines (concat cs) \<and> length out' = length out \<and> drop (n + 1) out' = drop (n + 1) out"
proof -
  have "n = length (b64_lines (concat cs))" "out' = mem_write out 0 (b64_lines (concat cs)) \<or> out' = mem_write out 0 (b64_lines (concat cs) @ [0])"
    using encode_stream_state [OF enc_state_init assms(1), of out] assms(3) by auto
  then show ?thesis using assms(2) by (auto simp: mem_write_def)
qed

section \<open>Streams back and forth\<close>

lemma b64_encode_append: "length d mod 3 = 0 \<Longrightarrow> b64_encode (d @ r) = b64_encode d @ b64_encode r"
  by (induction d rule: b64_encode.induct) (simp_all add: Let_def)

lemma strip_spaces_encode [simp]: "strip_spaces (b64_encode d) = b64_encode d"
  by (induction d rule: b64_encode.induct) (simp_all add: strip_spaces_def Let_def, simp_all add: is_space_def)

lemma strip_spaces_lines: "strip_spaces (b64_lines d) = b64_encode d"
proof (induction d rule: b64_lines.induct)
  case (1 d)
  show ?case
  proof (cases "length d \<le> 48")
    case True
    then show ?thesis using b64_lines_last [of d] strip_spaces_encode [of d]
      by (cases "d = []") (simp_all add: strip_spaces_def is_space_def)
  next
    case False
    then have "d \<noteq> []" by auto
    with False have "strip_spaces (b64_lines (take 48 d @ drop 48 d)) = b64_encode (take 48 d) @ b64_encode (drop 48 d)"
      using 1 False strip_spaces_encode [of "take 48 d"]
      by (subst b64_lines_line) (auto simp: strip_spaces_def is_space_def)
    also have "\<dots> = b64_encode (take 48 d @ drop 48 d)" using False by (subst b64_encode_append) simp_all
    finally show ?thesis by simp
  qed
qed

text \<open>C33. Data encoded as a stream, cut into any pieces on the way, and the text decoded as a stream,
  cut into any others, is the data again.
\<close>

theorem EVP_base64_stream_round_trip:
  assumes "list_all (\<lambda>c. length c \<le> 2 ^ 29) cs" "length (b64_lines (concat cs)) + 1 \<le> length buf"
    and "encode_stream EVP_EncodeInit buf 0 cs = (n, buf')"
    and "concat ts = take n buf'" "list_all (\<lambda>c. length c \<le> 2 ^ 29) ts"
  shows "decode_stream EVP_DecodeInit out 0 ts = Some (length (concat cs), mem_write out 0 (concat cs))"
proof -
  have "n = length (b64_lines (concat cs))" "buf' = mem_write buf 0 (b64_lines (concat cs)) \<or> buf' = mem_write buf 0 (b64_lines (concat cs) @ [0])"
    using encode_stream_state [OF enc_state_init assms(1), of buf] assms(3) by auto
  then have "concat ts = b64_lines (concat cs)" using assms(4) by (auto simp: mem_write_def)
  then show ?thesis
    using decode_stream_state [OF dec_state_init assms(5), of out] by (simp add: strip_spaces_lines)
qed

section \<open>Examples\<close>

lemma b64_char_eval:
  "b64_char n = of_nat (let n = n mod 64 in
     if n < 26 then n + 65 else if n < 52 then n + 71 else if n < 62 then n - 4 else if n = 62 then 43 else 47)"
  by (subst b64_char_octet [symmetric]) simp

lemma b64_example: "b64_encode [77, 97] = [84, 87, 69, 61]" "b64_decode [84, 87, 69, 61] = Some [77, 97]"
proof -
  show "b64_encode [77, 97] = [84, 87, 69, 61]" by (simp add: be_val_3 b64_char_eval Let_def)
  then show "b64_decode [84, 87, 69, 61] = Some [77, 97]" using b64_decode_encode [of "[77, 97]"] by simp
qed

lemma b64_example_out: "mem_write (replicate 3 9) 0 [77, 97] = [77, 97, 9 :: u8]"
  by (simp add: mem_write_def numeral_eq_Suc)

lemma b64_example_lines: "b64_lines (concat [[77], [97]]) = [84, 87, 69, 61, 10]"
  using b64_lines_last [of "[77, 97]"] b64_example(1) by simp

theorem EVP_base64_round_trip_witness:
  "\<exists>buf'. EVP_EncodeBlock (replicate 5 0) 0 [77, 97] = (buf', 4) \<and> take 4 buf' = [84, 87, 69, 61] \<and>
    EVP_DecodeBase64 (replicate 3 9) 3 (take 4 buf') = (Some 2, [77, 97, 9])"
proof -
  have enc: "EVP_EncodeBlock (replicate 5 0) 0 [77, 97] = ([84, 87, 69, 61, 0], 4)"
    using EVP_EncodeBlock_exact [of 0 "replicate 5 0" "[77, 97]"] b64_example(1) by (simp add: mem_write_def)
  have "EVP_EncodedLength (length [77, 97 :: u8]) = Some 5" "EVP_DecodedLength (5 - 1) = Some 3"
    by (simp_all add: EVP_EncodedLength_def EVP_DecodedLength_def)
  from EVP_base64_round_trip [OF this(1) _ _ this(2) _ enc, of "replicate 3 9"]
  have "EVP_DecodeBase64 (replicate 3 9) 3 (take 4 [84, 87, 69, 61, 0]) = (Some 2, mem_write (replicate 3 9) 0 [77, 97])"
    by simp
  then show ?thesis using enc by (simp add: b64_example_out)
qed

theorem EVP_Decode_stream_exact_witness:
  "decode_stream EVP_DecodeInit (replicate 3 9) 0 [[84, 10], [87, 69], [61]] = Some (2, [77, 97, 9])"
proof -
  have "b64_decode (strip_spaces [84, 10, 87, 69, 61]) = Some [77, 97]"
    using b64_example(2) by (simp add: strip_spaces_def is_space_def)
  then show ?thesis using EVP_Decode_stream_exact [of "[[84, 10], [87, 69], [61]]" "replicate 3 9"]
    by (simp add: b64_example_out del: decode_stream.simps)
qed

theorem EVP_Encode_stream_exact_witness:
  "\<exists>out'. encode_stream EVP_EncodeInit (replicate 8 9) 0 [[77], [97]] = (5, out') \<and> take 5 out' = [84, 87, 69, 61, 10] \<and>
    length out' = 8"
proof -
  note lines = b64_example_lines
  obtain n out' where run: "encode_stream EVP_EncodeInit (replicate 8 9) 0 [[77], [97]] = (n, out')" by fastforce
  moreover have "n = 5" using encode_stream_state [OF enc_state_init, of "[[77], [97]]" "replicate 8 9"] lines run by auto
  ultimately show ?thesis using EVP_Encode_stream_exact [OF _ _ run] lines by simp
qed

theorem EVP_base64_stream_round_trip_witness:
  "decode_stream EVP_DecodeInit (replicate 3 9) 0 [[84, 87], [69, 61, 10]] = Some (2, [77, 97, 9])"
proof -
  note lines = b64_example_lines
  obtain n out' where run: "encode_stream EVP_EncodeInit (replicate 8 9) 0 [[77], [97]] = (n, out')" by fastforce
  then have n: "n = 5" "take n out' = [84, 87, 69, 61, 10]"
    using encode_stream_state [OF enc_state_init, of "[[77], [97]]" "replicate 8 9"] lines by (auto simp: mem_write_def)
  have "decode_stream EVP_DecodeInit (replicate 3 9) 0 [[84, 87], [69, 61, 10]] =
      Some (length (concat [[77], [97 :: u8]]), mem_write (replicate 3 9) 0 (concat [[77], [97]]))"
    by (rule EVP_base64_stream_round_trip [OF _ _ run]) (use n lines in simp_all)
  then show ?thesis by (simp add: b64_example_out)
qed

end
