(* ===== verification/Bn_Words.thy ===== *)
theory Bn_Words
  imports Mem Ctime
begin

text \<open>
  Arrays of 64-bit words, the digits of the numbers in \<open>crypto/fipsmodule/bn\<close>: a memory of word
  arrays and pointers into them, the loops of \<open>generic.c\<close> as they stand, and the word-level
  comparisons, selections and shifts of \<open>cmp.c\<close>, \<open>bn.c\<close> and \<open>shift.c\<close>. Each routine is shown to
  leave the words of the number it should compute, also where its arrays alias.
\<close>

section \<open>Word memory\<close>

text \<open>
  A word array is a list of 64-bit words, and memory gives each array a block number. A
  \<open>BN_ULONG *\<close> is a block and an index into it, so that two pointers into the same array
  alias as they do in C.
\<close>

type_synonym wmem = "nat \<Rightarrow> u64 list"
type_synonym wptr = "nat \<times> nat"

abbreviation (input) BN_BITS2 :: nat where
  "BN_BITS2 \<equiv> 64"

definition padd :: "wptr \<Rightarrow> nat \<Rightarrow> wptr" where
  "padd p k = (fst p, snd p + k)"

definition wget :: "wmem \<Rightarrow> wptr \<Rightarrow> u64" where
  "wget m p = m (fst p) ! snd p"

definition wput :: "wmem \<Rightarrow> wptr \<Rightarrow> u64 \<Rightarrow> wmem" where
  "wput m p w = m(fst p := (m (fst p))[snd p := w])"

text \<open>Reading and writing a whole run of words: \<open>OPENSSL_memcpy\<close> and \<open>OPENSSL_memset\<close>.\<close>

definition wload :: "wmem \<Rightarrow> wptr \<Rightarrow> nat \<Rightarrow> u64 list" where
  "wload m p n = take n (drop (snd p) (m (fst p)))"

definition wstore :: "wmem \<Rightarrow> wptr \<Rightarrow> u64 list \<Rightarrow> wmem" where
  "wstore m p ws = m(fst p := mem_write (m (fst p)) (snd p) ws)"

definition wvalid :: "wmem \<Rightarrow> wptr \<Rightarrow> nat \<Rightarrow> bool" where
  "wvalid m p n \<longleftrightarrow> snd p + n \<le> length (m (fst p))"

section \<open>Word loops\<close>

text \<open>
  The loops of \<open>generic.c\<close> run a body on the words at index 0, 1, 2, ... of their arrays: four
  at a time while four are left, and then one at a time. The body gets the index that the
  advancing pointers stand for and the carry.
\<close>

fun word_loop :: "(nat \<Rightarrow> wmem \<times> 'c \<Rightarrow> wmem \<times> 'c) \<Rightarrow> nat \<Rightarrow> nat \<Rightarrow> wmem \<times> 'c \<Rightarrow> wmem \<times> 'c" where
  "word_loop body i num s = (if num = 0 then s else word_loop body (i + 1) (num - 1) (body i s))"

declare word_loop.simps [simp del]

fun word_loop4 :: "(nat \<Rightarrow> wmem \<times> 'c \<Rightarrow> wmem \<times> 'c) \<Rightarrow> nat \<Rightarrow> nat \<Rightarrow> wmem \<times> 'c \<Rightarrow> wmem \<times> 'c" where
  "word_loop4 body i num s =
     (if 4 \<le> num then
        word_loop4 body (i + 4) (num - 4)
          (body (i + 3) (body (i + 2) (body (i + 1) (body i s))))
      else word_loop body i num s)"

declare word_loop4.simps [simp del]

section \<open>generic.c\<close>

definition mul_add :: "u64 \<Rightarrow> u64 \<Rightarrow> u64 \<Rightarrow> u64 \<Rightarrow> u64 \<times> u64" where
  "mul_add r a w c =
     (let t = ucast w * ucast a + ucast r + ucast c :: 128 word
      in (ucast t, ucast (drop_bit BN_BITS2 t)))"

definition mul :: "u64 \<Rightarrow> u64 \<Rightarrow> u64 \<Rightarrow> u64 \<times> u64" where
  "mul a w c =
     (let t = ucast w * ucast a + ucast c :: 128 word
      in (ucast t, ucast (drop_bit BN_BITS2 t)))"

definition sqr :: "u64 \<Rightarrow> u64 \<times> u64" where
  "sqr a = (let t = ucast a * ucast a :: 128 word in (ucast t, ucast (drop_bit BN_BITS2 t)))"

definition bn_mul_add_words :: "wmem \<Rightarrow> wptr \<Rightarrow> wptr \<Rightarrow> nat \<Rightarrow> u64 \<Rightarrow> wmem \<times> u64" where
  "bn_mul_add_words m rp ap num w =
     (if num = 0 then (m, 0)
      else word_loop4
             (\<lambda>i (m, c1).
                let (r, c1) = mul_add (wget m (padd rp i)) (wget m (padd ap i)) w c1
                in (wput m (padd rp i) r, c1))
             0 num (m, 0))"

definition bn_mul_words :: "wmem \<Rightarrow> wptr \<Rightarrow> wptr \<Rightarrow> nat \<Rightarrow> u64 \<Rightarrow> wmem \<times> u64" where
  "bn_mul_words m rp ap num w =
     (if num = 0 then (m, 0)
      else word_loop4
             (\<lambda>i (m, c1).
                let (r, c1) = mul (wget m (padd ap i)) w c1
                in (wput m (padd rp i) r, c1))
             0 num (m, 0))"

definition bn_sqr_words :: "wmem \<Rightarrow> wptr \<Rightarrow> wptr \<Rightarrow> nat \<Rightarrow> wmem" where
  "bn_sqr_words m r a n =
     (if n = 0 then m
      else fst (word_loop4
             (\<lambda>i (m, u).
                let (r0, r1) = sqr (wget m (padd a i))
                in (wput (wput m (padd r (2 * i)) r0) (padd r (2 * i + 1)) r1, u))
             0 n (m, ())))"

definition bn_add_words :: "wmem \<Rightarrow> wptr \<Rightarrow> wptr \<Rightarrow> wptr \<Rightarrow> nat \<Rightarrow> wmem \<times> u64" where
  "bn_add_words m r a b n =
     (if n = 0 then (m, 0)
      else let (m, ll) = word_loop4
             (\<lambda>i (m, ll).
                let ll = ll + (ucast (wget m (padd a i)) + ucast (wget m (padd b i)))
                in (wput m (padd r i) (ucast ll), drop_bit BN_BITS2 ll))
             0 n (m, 0 :: 128 word)
           in (m, ucast ll))"

definition bn_sub_words :: "wmem \<Rightarrow> wptr \<Rightarrow> wptr \<Rightarrow> wptr \<Rightarrow> nat \<Rightarrow> wmem \<times> u64" where
  "bn_sub_words m r a b n =
     (if n = 0 then (m, 0)
      else word_loop4
             (\<lambda>i (m, c).
                let t1 = wget m (padd a i); t2 = wget m (padd b i)
                in (wput m (padd r i) (t1 - t2 - c),
                    if t1 \<noteq> t2 then (if t1 < t2 then 1 else 0) else c))
             0 n (m, 0))"

section \<open>The loops as functions on word lists\<close>

lemma word_loop_0 [simp]: "word_loop body i 0 s = s"
  by (subst word_loop.simps) simp

lemma word_loop_Suc [simp]: "word_loop body i (Suc n) s = word_loop body (Suc i) n (body i s)"
  by (subst word_loop.simps) simp

lemma word_loop4_eq: "word_loop4 body i num s = word_loop body i num s"
proof (induction body i num s rule: word_loop4.induct)
  case (1 body i num s)
  show ?case
  proof (cases "4 \<le> num")
    case True
    then have n: "word_loop body i num s = word_loop body i (Suc (Suc (Suc (Suc (num - 4))))) s"
      by (intro arg_cong [where f = "\<lambda>n. word_loop body i n s"]) arith
    have "word_loop4 body i num s = word_loop4 body (i + 4) (num - 4)
        (body (i + 3) (body (i + 2) (body (i + 1) (body i s))))"
      using True by (simp add: word_loop4.simps [of body i num])
    also have "\<dots> = word_loop body (i + 4) (num - 4)
        (body (i + 3) (body (i + 2) (body (i + 1) (body i s))))" by (rule 1 [OF True])
    also have "\<dots> = word_loop body i num s"
      unfolding n word_loop_Suc by (simp add: eval_nat_numeral)
    finally show ?thesis .
  qed (simp add: word_loop4.simps [of body i num])
qed

text \<open>
  A loop that writes word \<open>i\<close> of \<open>r\<close> from word \<open>i\<close> of some arrays and a carry is a
  traversal of lists, as long as none of those arrays starts inside \<open>r\<close>, before its end and after its start
  : no word is read after the loop has written it. The array may be \<open>r\<close> itself.
\<close>

definition ahead :: "wptr \<Rightarrow> wptr \<Rightarrow> nat \<Rightarrow> bool" where
  "ahead r a n \<longleftrightarrow> fst r \<noteq> fst a \<or> snd r \<le> snd a \<or> snd a + n \<le> snd r"

fun carry_map :: "('a \<Rightarrow> 'c \<Rightarrow> u64 \<times> 'c) \<Rightarrow> 'a list \<Rightarrow> 'c \<Rightarrow> u64 list \<times> 'c" where
  "carry_map f [] c = ([], c)"
| "carry_map f (x # xs) c =
     (let (w, c') = f x c; (ws, c'') = carry_map f xs c' in (w # ws, c''))"

lemma padd_simps [simp]: "fst (padd p k) = fst p" "snd (padd p k) = snd p + k" "padd p 0 = p"
  "padd (padd p j) k = padd p (j + k)"
  by (simp_all add: padd_def)

lemma length_wput [simp]: "length (wput m p w b) = length (m b)"
  by (simp add: wput_def)

lemma wvalid_wput [simp]: "wvalid (wput m p w) q n = wvalid m q n"
  by (simp add: wvalid_def)

lemma wload_0 [simp]: "wload m p 0 = []"
  by (simp add: wload_def)

lemma wload_Suc: "wvalid m p (Suc n) \<Longrightarrow> wload m p (Suc n) = wget m p # wload m (padd p 1) n"
  using Cons_nth_drop_Suc [of "snd p" "m (fst p)"]
  by (simp add: wload_def wget_def wvalid_def flip: take_Suc_Cons)

lemma wvalid_Suc: "wvalid m p (Suc n) \<Longrightarrow> wvalid m (padd p 1) n"
  by (simp add: wvalid_def)

lemma length_wload [simp]: "wvalid m p n \<Longrightarrow> length (wload m p n) = n"
  by (simp add: wload_def wvalid_def)

lemma wstore_Nil [simp]: "wstore m p [] = m"
  by (simp add: wstore_def)

lemma wstore_Cons:
  "wvalid m p (Suc (length ws)) \<Longrightarrow> wstore m p (w # ws) = wstore (wput m p w) (padd p 1) ws"
  by (auto simp: wstore_def wput_def mem_write_def wvalid_def upd_conv_take_nth_drop min_def ac_simps)


lemma wget_wput [simp]:
  "p \<noteq> q \<Longrightarrow> wget (wput m p w) q = wget m q"
  by (auto simp: wget_def wput_def prod_eq_iff)

lemma wload_map: "wvalid m p n \<Longrightarrow> wload m p n = map (\<lambda>i. wget m (padd p i)) [0 ..< n]"
  by (auto simp: wload_def wget_def wvalid_def padd_def intro!: nth_equalityI)

text \<open>The words a loop reads at index \<open>i\<close> are not changed by what it wrote before.\<close>

definition reads_ahead :: "wptr \<Rightarrow> nat \<Rightarrow> (wmem \<Rightarrow> nat \<Rightarrow> 'a) \<Rightarrow> bool" where
  "reads_ahead r n g \<longleftrightarrow> (\<forall>m i j w. j < i \<longrightarrow> i < n \<longrightarrow> g (wput m (padd r j) w) i = g m i)"

lemma reads_ahead_get [intro]: "ahead r a n \<Longrightarrow> reads_ahead r n (\<lambda>m i. wget m (padd a i))"
  by (auto simp: reads_ahead_def ahead_def padd_def prod_eq_iff intro!: wget_wput)

lemma reads_ahead_pair [intro]:
  "reads_ahead r n f \<Longrightarrow> reads_ahead r n g \<Longrightarrow> reads_ahead r n (\<lambda>m i. (f m i, g m i))"
  by (auto simp: reads_ahead_def)

lemma word_loop_carry_map:
  assumes body: "\<And>i m c. body i (m, c) = (let (w, c') = f (g m i) c in (wput m (padd r i) w, c'))"
    and g: "reads_ahead r (k + n) g"
    and valid: "wvalid m (padd r k) n"
  shows "word_loop body k n (m, c) =
    (let (ws, c') = carry_map f (map (g m) [k ..< k + n]) c in (wstore m (padd r k) ws, c'))"
  using g valid
proof (induction n arbitrary: k m c)
  case (Suc n)
  obtain w c' where f: "f (g m k) c = (w, c')" by fastforce
  let ?m = "wput m (padd r k) w"
  obtain ws c'' where ws: "carry_map f (map (g m) [Suc k ..< Suc k + n]) c' = (ws, c'')" by fastforce
  have len: "length ws = n" if "carry_map f xs c = (ws, d)" "length xs = n" for xs ws c d n
    using that by (induction xs arbitrary: ws c n) (auto split: prod.splits)
  have gm: "map (g ?m) [Suc k ..< Suc k + n] = map (g m) [Suc k ..< Suc k + n]"
    using Suc.prems(1) by (auto simp: reads_ahead_def)
  have ws': "carry_map f (map (g ?m) [Suc k ..< Suc (k + n)]) c' = (ws, c'')"
    using ws unfolding gm [symmetric] by (simp only: add_Suc)
  have "word_loop body k (Suc n) (m, c) = word_loop body (Suc k) n (?m, c')"
    by (simp add: body f)
  also have "\<dots> = (wstore ?m (padd r (Suc k)) ws, c'')"
    using Suc.prems by (subst Suc.IH) (simp_all add: ws' wvalid_def del: upt_Suc)
  also have "wstore ?m (padd r (Suc k)) ws = wstore m (padd r k) (w # ws)"
    using Suc.prems(2) len [OF ws'] by (subst wstore_Cons) (simp_all del: upt_Suc)
  finally show ?case
    using ws unfolding add_Suc by (simp add: upt_conv_Cons f del: upt_Suc)
qed simp

section \<open>Values of word lists\<close>

text \<open>The words of an array are the digits of a number in base $2^{64}$, the low one first.\<close>

fun wval :: "u64 list \<Rightarrow> nat" where
  "wval [] = 0"
| "wval (w # ws) = unat w + 2 ^ 64 * wval ws"

fun words_of :: "nat \<Rightarrow> nat \<Rightarrow> u64 list" where
  "words_of 0 v = []"
| "words_of (Suc n) v = of_nat v # words_of n (v div 2 ^ 64)"

lemma wval_append: "wval (xs @ ys) = wval xs + 2 ^ (64 * length xs) * wval ys"
  by (induction xs) (simp_all add: algebra_simps power_add)

lemma wval_bound: "wval ws < 2 ^ (64 * length ws)"
proof (induction ws)
  case (Cons w ws)
  have "unat w + 2 ^ 64 * wval ws < 2 ^ 64 * (wval ws + 1)" using unat_u64_bound [of w] by simp
  also have "\<dots> \<le> 2 ^ 64 * 2 ^ (64 * length ws)" using Cons.IH by (intro mult_le_mono2) simp
  finally show ?case by (simp add: power_add)
qed simp

lemma length_words_of [simp]: "length (words_of n v) = n"
  by (induction n arbitrary: v) simp_all

lemma unat_of_nat_u64: "unat (of_nat v :: u64) = v mod 2 ^ 64"
  by (simp add: unat_of_nat)

lemma wval_words_of [simp]: "wval (words_of n v) = v mod 2 ^ (64 * n)"
proof (induction n arbitrary: v)
  case (Suc n)
  have "(2 :: nat) ^ (64 * Suc n) = 2 ^ 64 * 2 ^ (64 * n)" by (simp add: power_add)
  then show ?case by (simp only: words_of.simps wval.simps Suc.IH unat_of_nat_u64 mod_mult2_eq)
qed simp

lemma words_of_wval: "length ws = n \<Longrightarrow> words_of n (wval ws) = ws"
proof (induction ws arbitrary: n)
  case (Cons w ws)
  have "(unat w + 2 ^ 64 * wval ws) div 2 ^ 64 = wval ws" using unat_u64_bound [of w] by simp
  moreover have "of_nat (unat w + 2 ^ 64 * wval ws) = w"
    using unat_u64_bound [of w] by (simp only: word_unat_eq_iff unat_of_nat_u64) simp
  ultimately show ?case using Cons by (auto simp del: of_nat_add of_nat_mult)
qed simp

lemma words_ofI: "length ws = n \<Longrightarrow> wval ws mod 2 ^ (64 * n) = v mod 2 ^ (64 * n) \<Longrightarrow> ws = words_of n v"
proof -
  assume n: "length ws = n" and v: "wval ws mod 2 ^ (64 * n) = v mod 2 ^ (64 * n)"
  have "words_of n u = words_of n (u mod 2 ^ (64 * n))" for u
    using words_of_wval [of "words_of n u" n] by simp
  then show ?thesis using v words_of_wval [OF n] by metis
qed

lemma wval_inj: "length xs = length ys \<Longrightarrow> wval xs = wval ys \<longleftrightarrow> xs = ys"
  using words_of_wval by metis


section \<open>What the loops compute\<close>

text \<open>
  A carry counts as \<open>C c\<close>, and the words \<open>x\<close> that one iteration reads count as \<open>X x\<close>.
\<close>

definition digits_val :: "('a \<Rightarrow> int) \<Rightarrow> 'a list \<Rightarrow> int" where
  "digits_val X xs = foldr (\<lambda>x s. X x + 2 ^ 64 * s) xs 0"

lemma digits_val_simps [simp]: "digits_val X [] = 0" "digits_val X (x # xs) = X x + 2 ^ 64 * digits_val X xs"
  by (simp_all add: digits_val_def)

lemma carry_map_val:
  assumes step: "\<And>x c w c'. I c \<Longrightarrow> f x c = (w, c') \<Longrightarrow> I c' \<and> int (unat w) + 2 ^ 64 * C c' = X x + C c"
  shows "I c \<Longrightarrow> carry_map f xs c = (ws, c') \<Longrightarrow>
    I c' \<and> length ws = length xs \<and> int (wval ws) + 2 ^ (64 * length xs) * C c' = digits_val X xs + C c"
proof (induction xs arbitrary: c ws)
  case (Cons x xs)
  obtain w d where w: "f x c = (w, d)" by fastforce
  obtain vs where vs: "carry_map f xs d = (vs, c')" "ws = w # vs"
    using Cons.prems(2) w by (auto split: prod.splits)
  note s = step [OF Cons.prems(1) w]
  have "int (wval ws) + 2 ^ (64 * length (x # xs)) * C c' =
      int (unat w) + 2 ^ 64 * (int (wval vs) + 2 ^ (64 * length xs) * C c')"
    by (simp add: vs power_add algebra_simps)
  also have "\<dots> = int (unat w) + 2 ^ 64 * C d + 2 ^ 64 * digits_val X xs"
    using Cons.IH [OF conjunct1 [OF s] vs(1)] by (simp add: algebra_simps)
  finally show ?case using s Cons.IH [OF conjunct1 [OF s] vs(1)] by (simp add: vs)
qed simp

lemma digits_val_wval:
  "digits_val (\<lambda>x. int (unat x)) xs = int (wval xs)"
  by (induction xs) simp_all

lemma digits_val_zip:
  assumes "\<And>x y. X (x, y) = k * int (unat x) + l * int (unat y)"
  shows "length xs = length ys \<Longrightarrow> digits_val X (zip xs ys) = k * int (wval xs) + l * int (wval ys)"
  by (induction xs ys rule: list_induct2) (simp_all add: assms algebra_simps)

lemma digits_val_map: "digits_val X (map f xs) = digits_val (\<lambda>x. X (f x)) xs"
  by (induction xs) simp_all

text \<open>One step of each loop.\<close>

lemma unat_u128: "unat (ucast (x :: u64) :: 128 word) = unat x"
  by simp

lemma split_u128:
  "unat (ucast (t :: 128 word) :: u64) = unat t mod 2 ^ 64"
  "unat (drop_bit 64 t) = unat t div 2 ^ 64"
  "unat (ucast (drop_bit 64 t) :: u64) = unat t div 2 ^ 64"
proof -
  show lo: "unat (ucast (t :: 128 word) :: u64) = unat t mod 2 ^ 64" by (simp add: unat_ucast_mod)
  show hi: "unat (drop_bit 64 t) = unat t div 2 ^ 64" by (simp add: unat_drop_bit)
  have "unat t < 2 ^ 128" using unsigned_less [where ?'a = nat and w = t] by simp
  then have "unat t div 2 ^ 64 < 2 ^ 64" by (simp add: less_mult_imp_div_less)
  then show "unat (ucast (drop_bit 64 t) :: u64) = unat t div 2 ^ 64"
    unfolding unat_ucast_mod hi by simp
qed

lemma mul_add_bound: "unat (w :: u64) * unat (a :: u64) + unat (r :: u64) + unat (c :: u64) < 2 ^ 128"
proof -
  have "unat w * unat a \<le> (2 ^ 64 - 1) * (2 ^ 64 - 1)"
    using unat_u64_bound [of w] unat_u64_bound [of a] by (intro mult_le_mono) simp_all
  then show ?thesis using unat_u64_bound [of r] unat_u64_bound [of c] by simp
qed

lemma mul_add_exact: "mul_add r a w c = (lo, hi) \<Longrightarrow> unat lo + 2 ^ 64 * unat hi = unat w * unat a + unat r + unat c"
proof -
  assume "mul_add r a w c = (lo, hi)"
  then have lo: "lo = ucast (ucast w * ucast a + ucast r + ucast c :: 128 word)"
    and hi: "hi = ucast (drop_bit 64 (ucast w * ucast a + ucast r + ucast c :: 128 word))"
    by (simp_all add: mul_add_def Let_def)
  have "unat (ucast w * ucast a + ucast r + ucast c :: 128 word) = unat w * unat a + unat r + unat c"
    using mul_add_bound [of w a r c] by (simp add: unat_word_ariths)
  then show ?thesis unfolding lo hi by (simp only: split_u128(3)) (simp only: split_u128(1) mod_mult_div_eq)
qed

lemmas mul_add_int = mul_add_exact [THEN arg_cong [where f = int]]

lemma mul_exact: "mul a w c = (lo, hi) \<Longrightarrow> unat lo + 2 ^ 64 * unat hi = unat w * unat a + unat c"
  using mul_add_exact [of 0 a w c] by (simp add: mul_def mul_add_def)

lemma sqr_exact: "sqr a = (lo, hi) \<Longrightarrow> unat lo + 2 ^ 64 * unat hi = unat a * unat a"
  using mul_add_exact [of 0 a a 0] by (simp add: sqr_def mul_add_def)


text \<open>The reference: an operation leaves the words of a number in \<open>r\<close> and returns the rest.\<close>

lemma carry_map_words:
  assumes step: "\<And>x c w c'. I c \<Longrightarrow> f x c = (w, c') \<Longrightarrow> I c' \<and> int (unat w) + 2 ^ 64 * C c' = X x + C c"
    and c: "I c" "carry_map f xs c = (ws, c')" and n: "length xs = n"
    and v: "digits_val X xs + C c = v"
  shows "ws = words_of n (nat (v mod 2 ^ (64 * n)))" "I c'" "C c' = v div 2 ^ (64 * n)"
proof -
  have r: "I c' \<and> length ws = length xs \<and> int (wval ws) + 2 ^ (64 * length xs) * C c' = digits_val X xs + C c"
    by (rule carry_map_val [where f = f and I = I and C = C and X = X, OF _ c]) (rule step)
  have "wval ws < 2 ^ (64 * n)" using r wval_bound [of ws] n by simp
  then have w: "0 \<le> int (wval ws)" "int (wval ws) < 2 ^ (64 * n)" by simp_all
  have v': "v = int (wval ws) + 2 ^ (64 * n) * C c'" using r n v by simp
  show "C c' = v div 2 ^ (64 * n)" using w unfolding v' by simp
  have "nat (v mod 2 ^ (64 * n)) = wval ws" using w unfolding v' by simp
  then show "ws = words_of n (nat (v mod 2 ^ (64 * n)))" using words_of_wval [of ws n] r n by simp
  show "I c'" using r by simp
qed

lemma word_loop_words:
  assumes body: "\<And>i m c. body i (m, c) = (let (w, c') = f (g m i) c in (wput m (padd r i) w, c'))"
    and g: "reads_ahead r n g" and valid: "wvalid m r n"
    and step: "\<And>x c w c'. I c \<Longrightarrow> f x c = (w, c') \<Longrightarrow> I c' \<and> int (unat w) + 2 ^ 64 * C c' = X x + C c"
    and c: "I c" and v: "digits_val X (map (g m) [0 ..< n]) + C c = v"
  shows "\<exists>c'. word_loop4 body 0 n (m, c) = (wstore m r (words_of n (nat (v mod 2 ^ (64 * n)))), c') \<and>
    I c' \<and> C c' = v div 2 ^ (64 * n)"
proof -
  obtain ws c' where ws: "carry_map f (map (g m) [0 ..< n]) c = (ws, c')" by fastforce
  have "word_loop body 0 n (m, c) = (wstore m r ws, c')"
    by (subst word_loop_carry_map [where k = 0 and f = f and g = g and r = r, OF body]) (simp_all add: g valid ws)
  moreover have "ws = words_of n (nat (v mod 2 ^ (64 * n)))" "I c'" "C c' = v div 2 ^ (64 * n)"
    using carry_map_words [where f = f and I = I and C = C and X = X, OF step c ws _ v] by simp_all
  ultimately show ?thesis by (simp add: word_loop4_eq)
qed

text \<open>The words read at two pointers.\<close>

definition get2 :: "wptr \<Rightarrow> wptr \<Rightarrow> wmem \<Rightarrow> nat \<Rightarrow> u64 \<times> u64" where
  "get2 a b m i = (wget m (padd a i), wget m (padd b i))"

lemma reads_ahead_get2 [intro]: "ahead r a n \<Longrightarrow> ahead r b n \<Longrightarrow> reads_ahead r n (get2 a b)"
  unfolding get2_def by (intro reads_ahead_pair reads_ahead_get)

lemma ahead_refl [simp]: "ahead r r n"
  by (simp add: ahead_def)

lemma digits_val_get2:
  assumes "wvalid m a n" "wvalid m b n" "\<And>x y. X (x, y) = k * int (unat x) + l * int (unat y)"
  shows "digits_val X (map (get2 a b m) [0 ..< n]) = k * int (wval (wload m a n)) + l * int (wval (wload m b n))"
proof -
  have "map (get2 a b m) [0 ..< n] = zip (wload m a n) (wload m b n)"
    using assms by (simp add: wload_map zip_map_map zip_same_conv_map get2_def)
  then show ?thesis using assms by (simp add: digits_val_zip [OF assms(3)])
qed

lemma nat_mod_power: "nat (int v mod 2 ^ k) = v mod 2 ^ k"
  by (simp add: nat_mod_as_int)

lemma words_of_mod [simp]: "words_of n (v mod 2 ^ (64 * n)) = words_of n v"
  by (rule words_ofI) simp_all

lemma words_of_int_mod [simp]: "words_of n (nat (int v mod 2 ^ (64 * n))) = words_of n v"
  by (simp add: nat_mod_power)

lemma uint_carry: "uint (c :: u64) = int v div 2 ^ k \<Longrightarrow> c = of_nat (v div 2 ^ k)"
proof (rule unat_eq_of_nat)
  assume "uint c = int v div 2 ^ k"
  then have "int (unat c) = int (v div 2 ^ k)" by (simp add: of_nat_div)
  then show "unat c = v div 2 ^ k" by (simp only: of_nat_eq_iff)
qed

lemma bn_mul_add_words_exact:
  assumes "wvalid m rp num" "wvalid m ap num" "ahead rp ap num"
    and v: "v = wval (wload m rp num) + wval (wload m ap num) * unat w"
  shows "bn_mul_add_words m rp ap num w =
    (wstore m rp (words_of num v), of_nat (v div 2 ^ (64 * num)))"
proof (cases "num = 0")
  case False
  let ?body = "\<lambda>i (m, c1). let (r, c1) = mul_add (wget m (padd rp i)) (wget m (padd ap i)) w c1
                in (wput m (padd rp i) r, c1)"
  have "\<exists>c. word_loop4 ?body 0 num (m, 0) = (wstore m rp (words_of num (nat (int v mod 2 ^ (64 * num)))), c) \<and>
      True \<and> int (unat c) = int v div 2 ^ (64 * num)"
  proof (rule word_loop_words [where f = "\<lambda>(r, a) c. mul_add r a w c" and g = "get2 rp ap"
        and X = "\<lambda>(r, a). int (unat r + unat w * unat a)" and I = "\<lambda>_. True"])
    show "digits_val (\<lambda>(r, a). int (unat r + unat w * unat a)) (map (get2 rp ap m) [0 ..< num]) + int (unat (0 :: u64)) = int v"
      using assms by (subst digits_val_get2 [where k = 1 and l = "int (unat w)"]) simp_all
  qed (use assms in \<open>auto simp: get2_def dest!: mul_add_int\<close>)
  then show ?thesis using False by (auto simp: bn_mul_add_words_def dest: uint_carry)
qed (use v in \<open>simp add: bn_mul_add_words_def\<close>)


lemma word_loop4_cong_fst:
  "\<exists>c. word_loop4 body 0 n s = (m', c) \<and> P c \<Longrightarrow> (\<And>c. P c \<Longrightarrow> c = d) \<Longrightarrow> word_loop4 body 0 n s = (m', d)"
  by auto

lemma bn_mul_words_exact:
  assumes "wvalid m rp num" "wvalid m ap num" "ahead rp ap num"
    and v: "v = wval (wload m ap num) * unat w"
  shows "bn_mul_words m rp ap num w =
    (wstore m rp (words_of num v), of_nat (v div 2 ^ (64 * num)))"
proof (cases "num = 0")
  case False
  let ?body = "\<lambda>i (m, c1). let (r, c1) = mul (wget m (padd ap i)) w c1 in (wput m (padd rp i) r, c1)"
  have "\<exists>c. word_loop4 ?body 0 num (m, 0) = (wstore m rp (words_of num (nat (int v mod 2 ^ (64 * num)))), c) \<and>
      True \<and> int (unat c) = int v div 2 ^ (64 * num)"
  proof (rule word_loop_words [where f = "\<lambda>(a, b). mul a w" and g = "get2 ap ap"
        and X = "\<lambda>(a, b). int (unat w * unat a)" and I = "\<lambda>_. True"])
    show "digits_val (\<lambda>(a, b). int (unat w * unat a)) (map (get2 ap ap m) [0 ..< num]) + int (unat (0 :: u64)) = int v"
      using assms by (subst digits_val_get2 [where k = "int (unat w)" and l = 0]) simp_all
  qed (use assms in \<open>auto simp: get2_def dest!: mul_exact [THEN arg_cong [where f = int]]\<close>)
  then show ?thesis using False by (auto simp: bn_mul_words_def dest: uint_carry)
qed (use v in \<open>simp add: bn_mul_words_def\<close>)

text \<open>The 128-bit sum of an addition holds a carry of at most one between the steps.\<close>

lemma add_step:
  assumes "unat (ll :: 128 word) \<le> 1" "t = ll + (ucast (a :: u64) + ucast (b :: u64))"
  shows "unat (drop_bit 64 t) \<le> 1 \<and>
    int (unat (ucast t :: u64)) + 2 ^ 64 * int (unat (drop_bit 64 t)) = int (unat a + unat b) + int (unat ll)"
proof
  have s: "unat a + unat b + unat ll < 2 ^ 65" using assms unat_u64_bound [of a] unat_u64_bound [of b] by simp
  then have t: "unat t = unat a + unat b + unat ll" using assms by (simp add: unat_word_ariths)
  have "unat t div 2 ^ 64 < 2" using s unfolding t by (intro less_mult_imp_div_less) simp
  then show "unat (drop_bit 64 t) \<le> 1" unfolding split_u128(2) by simp
  have "unat (ucast t :: u64) + 2 ^ 64 * unat (drop_bit 64 t) = unat a + unat b + unat ll"
    by (simp only: split_u128(1,2) mod_mult_div_eq) (rule t)
  from arg_cong [OF this, where f = int]
  show "int (unat (ucast t :: u64)) + 2 ^ 64 * int (unat (drop_bit 64 t)) = int (unat a + unat b) + int (unat ll)"
    by (simp only: of_nat_add of_nat_mult of_nat_power of_nat_numeral)
qed

lemma bn_add_words_exact:
  assumes "wvalid m r n" "wvalid m a n" "wvalid m b n" "ahead r a n" "ahead r b n"
    and v: "v = wval (wload m a n) + wval (wload m b n)"
  shows "bn_add_words m r a b n = (wstore m r (words_of n v), of_nat (v div 2 ^ (64 * n)))"
proof (cases "n = 0")
  case False
  let ?body = "\<lambda>i (m, ll :: 128 word). let ll = ll + (ucast (wget m (padd a i)) + ucast (wget m (padd b i)))
                in (wput m (padd r i) (ucast ll), drop_bit BN_BITS2 ll)"
  let ?f = "\<lambda>(a :: u64, b :: u64) (ll :: 128 word). let ll = ll + (ucast a + ucast b) in (ucast ll :: u64, drop_bit BN_BITS2 ll)"
  have "\<exists>c :: 128 word. word_loop4 ?body 0 n (m, 0) = (wstore m r (words_of n (nat (int v mod 2 ^ (64 * n)))), c) \<and>
      unat c \<le> 1 \<and> int (unat c) = int v div 2 ^ (64 * n)"
  proof (rule word_loop_words [where f = ?f
        and g = "get2 a b" and X = "\<lambda>(a, b). int (unat a + unat b)" and I = "\<lambda>ll. unat ll \<le> 1"])
    show "digits_val (\<lambda>(a, b). int (unat a + unat b)) (map (get2 a b m) [0 ..< n]) + int (unat (0 :: 128 word)) = int v"
      using assms by (subst digits_val_get2 [where k = 1 and l = 1]) simp_all
    show "unat c' \<le> 1 \<and> int (unat w) + 2 ^ 64 * int (unat c') = (case x of (a, b) \<Rightarrow> int (unat a + unat b)) + int (unat c)"
      if "unat c \<le> 1" "?f x c = (w, c')" for x w and c c' :: "128 word"
      using add_step [OF that(1) refl, of "fst x" "snd x"] that(2)
      by (auto simp only: Let_def prod.case_eq_if prod.inject)
  qed (use assms in \<open>auto simp: get2_def Let_def\<close>)
  then obtain c where c: "word_loop4 ?body 0 n (m, 0) = (wstore m r (words_of n v), c)"
    "unat c \<le> 1" "int (unat c) = int v div 2 ^ (64 * n)" unfolding words_of_int_mod by blast
  from c(3) have "int (unat c) = int (v div 2 ^ (64 * n))" by (simp add: of_nat_div)
  then have "unat c = v div 2 ^ (64 * n)" by (simp only: of_nat_eq_iff)
  moreover have "unat (ucast c :: u64) = unat c" using c(2) by (simp add: unat_ucast_mod)
  ultimately have "ucast c = (of_nat (v div 2 ^ (64 * n)) :: u64)" by (metis unat_eq_of_nat)
  then show ?thesis using False c(1) by (simp add: bn_add_words_def)
qed (use v in \<open>simp add: bn_add_words_def\<close>)

text \<open>In a subtraction a carry is a borrow, and counts as minus one.\<close>

lemma u64_le_1: "unat (c :: u64) \<le> 1 \<Longrightarrow> c = 0 \<or> c = 1"
  using unat_eq_of_nat [of c 0] unat_eq_of_nat [of c 1] by fastforce

lemma sub_step:
  fixes t1 t2 c :: u64
  assumes "unat c \<le> 1" "c' = (if t1 \<noteq> t2 then (if t1 < t2 then 1 else 0) else c)"
  shows "unat c' \<le> 1 \<and>
    int (unat (t1 - t2 - c)) + 2 ^ 64 * (- int (unat c')) = (int (unat t1) - int (unat t2)) + (- int (unat c))"
proof -
  have c: "c = 0 \<or> c = 1" by (rule u64_le_1 [OF assms(1)])
  have d: "unat (t1 - t2) = (if unat t2 \<le> unat t1 then unat t1 - unat t2 else unat t1 + 2 ^ 64 - unat t2)"
    by (simp add: unat_sub_if' word_le_nat_alt)
  have e: "unat (t1 - t2 - 1) = (if t1 = t2 then 2 ^ 64 - 1 else unat (t1 - t2) - 1)"
    by (auto simp: unat_minus_one unsigned_minus_1_eq_mask mask_eq_exp_minus_1)
  show ?thesis using c
  proof
    assume "c = 0"
    then show ?thesis using d unat_u64_bound [of t1] unat_u64_bound [of t2] assms(2)
      by (auto simp: word_less_nat_alt split: if_splits)
  next
    assume "c = 1"
    moreover have "unat t1 = unat t2 \<longleftrightarrow> t1 = t2" by (simp add: word_unat_eq_iff)
    ultimately show ?thesis using d e unat_u64_bound [of t1] unat_u64_bound [of t2] assms(2)
      by (cases "t1 = t2"; cases "unat t2 \<le> unat t1") (simp_all add: word_less_nat_alt of_nat_diff)
  qed
qed

lemma bn_sub_words_exact:
  assumes "wvalid m r n" "wvalid m a n" "wvalid m b n" "ahead r a n" "ahead r b n"
    and v: "v = int (wval (wload m a n)) - int (wval (wload m b n))"
  shows "bn_sub_words m r a b n =
    (wstore m r (words_of n (nat (v mod 2 ^ (64 * n)))), if v < 0 then 1 else 0)"
proof (cases "n = 0")
  case False
  let ?body = "\<lambda>i (m, c). let t1 = wget m (padd a i); t2 = wget m (padd b i)
                in (wput m (padd r i) (t1 - t2 - c), if t1 \<noteq> t2 then (if t1 < t2 then 1 else 0) else c)"
  let ?f = "\<lambda>(t1 :: u64, t2 :: u64) (c :: u64). (t1 - t2 - c, if t1 \<noteq> t2 then (if t1 < t2 then 1 else 0 :: u64) else c)"
  have "\<exists>c :: u64. word_loop4 ?body 0 n (m, 0) = (wstore m r (words_of n (nat (v mod 2 ^ (64 * n)))), c) \<and>
      unat c \<le> 1 \<and> - int (unat c) = v div 2 ^ (64 * n)"
  proof (rule word_loop_words [where f = ?f
        and g = "get2 a b" and X = "\<lambda>(a, b). int (unat a) - int (unat b)" and I = "\<lambda>c. unat c \<le> 1"])
    show "digits_val (\<lambda>(a, b). int (unat a) - int (unat b)) (map (get2 a b m) [0 ..< n]) + (- int (unat (0 :: u64))) = v"
      using assms by (subst digits_val_get2 [where k = 1 and l = "-1"]) simp_all
    show "unat c' \<le> 1 \<and> int (unat w) + 2 ^ 64 * (- int (unat c')) = (case x of (a, b) \<Rightarrow> int (unat a) - int (unat b)) + (- int (unat c))"
      if "unat c \<le> 1" "?f x c = (w, c')" for x w and c c' :: u64
      using sub_step [OF that(1) refl, of "fst x" "snd x"] that(2)
      by (auto simp only: prod.case_eq_if prod.inject)
  qed (use assms in \<open>auto simp: get2_def Let_def\<close>)
  then obtain c :: u64 where c: "word_loop4 ?body 0 n (m, 0) = (wstore m r (words_of n (nat (v mod 2 ^ (64 * n)))), c)"
    "unat c \<le> 1" "- int (unat c) = v div 2 ^ (64 * n)" by blast
  have "c = (if v < 0 then 1 else 0)" 
  proof (cases "v < 0")
    case True
    then have "v div 2 ^ (64 * n) < 0" by (simp add: pos_imp_zdiv_neg_iff)
    then show ?thesis using c True u64_le_1 [OF c(2)] by auto
  next
    case ge: False
    then have "0 \<le> v div 2 ^ (64 * n)" by (simp add: pos_imp_zdiv_nonneg_iff)
    then show ?thesis using c ge u64_le_1 [OF c(2)] by auto
  qed
  then show ?thesis using False c(1) by (simp add: bn_sub_words_def)
qed (use v in \<open>simp add: bn_sub_words_def\<close>)


section \<open>Disjoint runs of words\<close>

definition apart :: "wptr \<Rightarrow> nat \<Rightarrow> wptr \<Rightarrow> nat \<Rightarrow> bool" where
  "apart p j q k \<longleftrightarrow> fst p \<noteq> fst q \<or> snd p + j \<le> snd q \<or> snd q + k \<le> snd p"

lemma apart_sym: "apart p j q k \<longleftrightarrow> apart q k p j"
  by (auto simp: apart_def)

lemma apart_ahead: "apart r n a n \<Longrightarrow> ahead r a n"
  by (auto simp: apart_def ahead_def)

lemma wvalid_wstore [simp]:
  "wvalid m p (length ws) \<Longrightarrow> wvalid (wstore m p ws) q n = wvalid m q n"
  by (auto simp: wvalid_def wstore_def)

lemma length_wstore:
  "wvalid m p (length ws) \<Longrightarrow> length (wstore m p ws b) = length (m b)"
  by (auto simp: wvalid_def wstore_def)

lemma mem_write_nth:
  "pos + length ws \<le> length xs \<Longrightarrow> i < length xs \<Longrightarrow>
    mem_write xs pos ws ! i = (if pos \<le> i \<and> i < pos + length ws then ws ! (i - pos) else xs ! i)"
  by (auto simp: mem_write_def nth_append min_def)

lemma wmem_eqI: "(\<And>b. length (m b) = length (m' b)) \<Longrightarrow> (\<And>b i. i < length (m b) \<Longrightarrow> m b ! i = m' b ! i) \<Longrightarrow> m = m'"
  for m m' :: wmem
  by (intro ext nth_equalityI) auto

lemma wload_wput_other: "apart p 1 q n \<Longrightarrow> wload (wput m p w) q n = wload m q n"
  by (auto simp: wload_def wput_def apart_def drop_update_swap take_update_cancel)

lemma wload_wstore_apart:
  "apart p (length ws) q n \<Longrightarrow> wvalid m p (length ws) \<Longrightarrow> wload (wstore m p ws) q n = wload m q n"
  by (auto simp: wload_def wstore_def apart_def wvalid_def mem_write_nth intro!: nth_equalityI)

lemma wload_wstore_sub:
  "fst q = fst p \<Longrightarrow> snd p \<le> snd q \<Longrightarrow> snd q + n \<le> snd p + length ws \<Longrightarrow> wvalid m p (length ws) \<Longrightarrow>
    wload (wstore m p ws) q n = take n (drop (snd q - snd p) ws)"
  by (auto simp: wload_def wstore_def mem_write_def wvalid_def min_def)

lemma wload_wstore_same: "length ws = n \<Longrightarrow> wvalid m p n \<Longrightarrow> wload (wstore m p ws) p n = ws"
  by (simp add: wload_wstore_sub)

lemma wload_add: "wload m p (j + k) = wload m p j @ wload m (padd p j) k"
  by (simp add: wload_def take_add drop_drop ac_simps)

lemma wstore_append:
  "wvalid m p (length xs + length ys) \<Longrightarrow> wstore m p (xs @ ys) = wstore (wstore m p xs) (padd p (length xs)) ys"
  by (rule wmem_eqI) (auto simp: wstore_def wvalid_def mem_write_nth nth_append)

lemma wstore_wstore: "length xs = length ys \<Longrightarrow> wvalid m p (length xs) \<Longrightarrow> wstore (wstore m p xs) p ys = wstore m p ys"
  by (rule wmem_eqI) (auto simp: wstore_def wvalid_def mem_write_nth)

lemma wstore_wload: "wvalid m p n \<Longrightarrow> wstore m p (wload m p n) = m"
  by (rule wmem_eqI) (auto simp: wstore_def wload_def wvalid_def mem_write_nth)

text \<open>Squares of the words, in pairs.\<close>

fun squares_val :: "u64 list \<Rightarrow> nat" where
  "squares_val [] = 0"
| "squares_val (w # ws) = unat w * unat w + 2 ^ 128 * squares_val ws"

lemma words_of_pair:
  assumes "unat lo + 2 ^ 64 * unat hi = v"
  shows "words_of (Suc (Suc n)) (v + 2 ^ 128 * s) = lo # hi # words_of n s"
proof (rule words_ofI [symmetric])
  have "2 ^ (64 * Suc (Suc n)) = (2 ^ 128 :: nat) * 2 ^ (64 * n)" by (simp add: power_add)
  moreover have "v < 2 ^ 128" using assms unat_u64_bound [of lo] unat_u64_bound [of hi] by simp
  moreover have "wval (lo # hi # words_of n s) = v + 2 ^ 128 * (s mod 2 ^ (64 * n))"
    using assms by (simp add: algebra_simps)
  ultimately show "wval (lo # hi # words_of n s) mod 2 ^ (64 * Suc (Suc n)) = (v + 2 ^ 128 * s) mod 2 ^ (64 * Suc (Suc n))"
    by (simp only: mod_mult2_eq) simp
qed simp

lemma bn_sqr_words_loop:
  assumes "wvalid m (padd r (2 * k)) (2 * n)" "wvalid m (padd a k) n" "apart r (2 * (k + n)) a (k + n)"
  shows "word_loop (\<lambda>i (m, u). let (r0, r1) = sqr (wget m (padd a i))
                in (wput (wput m (padd r (2 * i)) r0) (padd r (2 * i + 1)) r1, u)) k n (m, u) =
    (wstore m (padd r (2 * k)) (words_of (2 * n) (squares_val (wload m (padd a k) n))), u)"
  using assms
proof (induction n arbitrary: k m)
  case (Suc n)
  obtain lo hi where s: "sqr (wget m (padd a k)) = (lo, hi)" by fastforce
  let ?m = "wput (wput m (padd r (2 * k)) lo) (padd r (2 * k + 1)) hi"
  have v: "wvalid ?m (padd r (2 * Suc k)) (2 * n)" "wvalid ?m (padd a (Suc k)) n" "apart r (2 * (Suc k + n)) a (Suc k + n)"
    using Suc.prems by (auto simp: wvalid_def apart_def)
  have "apart (padd r (2 * k)) 1 (padd a (Suc k)) n" "apart (padd r (2 * k + 1)) 1 (padd a (Suc k)) n"
    using Suc.prems(3) by (auto simp: apart_def)
  then have l: "wload ?m (padd a (Suc k)) n = wload m (padd a (Suc k)) n" by (simp add: wload_wput_other)
  have w: "squares_val (wload m (padd a k) (Suc n)) = unat (wget m (padd a k)) * unat (wget m (padd a k)) + 2 ^ 128 * squares_val (wload m (padd a (Suc k)) n)"
    using Suc.prems(2) by (subst wload_Suc) simp_all
  have "words_of (2 * Suc n) (squares_val (wload m (padd a k) (Suc n))) = lo # hi # words_of (2 * n) (squares_val (wload m (padd a (Suc k)) n))"
    unfolding w using words_of_pair [OF sqr_exact [OF s], of "2 * n"] by simp
  moreover have "wstore m (padd r (2 * k)) (lo # hi # ws) = wstore ?m (padd r (2 * Suc k)) ws" if "length ws = 2 * n" for ws
    using Suc.prems(1) that by (subst wstore_Cons, simp, subst wstore_Cons) (simp_all add: wvalid_def)
  ultimately show ?case using Suc.IH [OF v] by (simp add: s l [simplified] del: words_of.simps)
qed simp

lemma bn_sqr_words_exact:
  assumes "wvalid m r (2 * n)" "wvalid m a n" "apart r (2 * n) a n"
  shows "bn_sqr_words m r a n = wstore m r (words_of (2 * n) (squares_val (wload m a n)))"
  using bn_sqr_words_loop [of m r 0 n a "()"] assms by (auto simp: bn_sqr_words_def word_loop4_eq)

section \<open>Selecting, comparing and shifting\<close>

definition bn_select_words :: "wmem \<Rightarrow> wptr \<Rightarrow> u64 \<Rightarrow> wptr \<Rightarrow> wptr \<Rightarrow> nat \<Rightarrow> wmem" where
  "bn_select_words m r msk a b num =
     fst (word_loop
       (\<lambda>i (m, u). (wput m (padd r i) (constant_time_select_w msk (wget m (padd a i)) (wget m (padd b i))), u))
       0 num (m, ()))"

definition bn_cmp_words_consttime :: "u64 list \<Rightarrow> nat \<Rightarrow> u64 list \<Rightarrow> nat \<Rightarrow> int" where
  "bn_cmp_words_consttime a a_len b b_len =
     (let mn = (if a_len < b_len then a_len else b_len);
          ret = foldl (\<lambda>ret i.
                  let eq = constant_time_eq_w (a ! i) (b ! i); lt = constant_time_lt_w (a ! i) (b ! i)
                  in constant_time_select_int eq ret (constant_time_select_int lt (- 1) 1))
                (0 :: u32) [0 ..< mn];
          ret = (if a_len < b_len then
                   let msk = foldl (\<lambda>msk i. msk OR b ! i) 0 [a_len ..< b_len]
                   in constant_time_select_int (constant_time_is_zero_w msk) ret (- 1)
                 else if b_len < a_len then
                   let msk = foldl (\<lambda>msk i. msk OR a ! i) 0 [b_len ..< a_len]
                   in constant_time_select_int (constant_time_is_zero_w msk) ret 1
                 else ret)
      in sint ret)"

definition bn_less_than_words :: "u64 list \<Rightarrow> u64 list \<Rightarrow> nat \<Rightarrow> bool" where
  "bn_less_than_words a b len \<longleftrightarrow> bn_cmp_words_consttime a len b len < 0"

definition bn_rshift_words :: "wmem \<Rightarrow> wptr \<Rightarrow> wptr \<Rightarrow> nat \<Rightarrow> nat \<Rightarrow> wmem" where
  "bn_rshift_words m r a shift num =
     (let shift_bits = shift mod BN_BITS2; shift_words = shift div BN_BITS2
      in if num \<le> shift_words then wstore m r (replicate num 0)
         else
           let m = (if shift_bits = 0
                    then wstore m r (wload m (padd a shift_words) (num - shift_words))
                    else
                      let m = fst (word_loop
                            (\<lambda>i (m, u). (wput m (padd r (i - shift_words))
                                (drop_bit shift_bits (wget m (padd a i)) OR
                                 push_bit (BN_BITS2 - shift_bits) (wget m (padd a (i + 1)))), u))
                            shift_words (num - 1 - shift_words) (m, ()))
                      in wput m (padd r (num - 1 - shift_words))
                           (drop_bit shift_bits (wget m (padd a (num - 1)))))
           in wstore m (padd r (num - shift_words)) (replicate shift_words 0))"

definition bn_rshift1_words :: "wmem \<Rightarrow> wptr \<Rightarrow> wptr \<Rightarrow> nat \<Rightarrow> wmem" where
  "bn_rshift1_words m r a num =
     (if num = 0 then m
      else
        let m = fst (word_loop
              (\<lambda>i (m, u). (wput m (padd r i)
                  (drop_bit 1 (wget m (padd a i)) OR push_bit (BN_BITS2 - 1) (wget m (padd a (i + 1)))), u))
              0 (num - 1) (m, ()))
        in wput m (padd r (num - 1)) (drop_bit 1 (wget m (padd a (num - 1)))))"

text \<open>Without a carry, a loop maps a function over the words it reads.\<close>

lemma carry_map_unit: "carry_map (\<lambda>x u. (h x, u)) xs () = (map h xs, ())"
  by (induction xs) simp_all

lemma word_loop_map:
  assumes "reads_ahead r n g" "wvalid m r n"
  shows "word_loop (\<lambda>i (m, u). (wput m (padd r i) (h (g m i)), u)) 0 n (m, ()) =
    (wstore m r (map h (map (g m) [0 ..< n])), ())"
  using assms
  by (subst word_loop_carry_map [where f = "\<lambda>x u. (h x, u)" and g = g and r = r])
    (simp_all add: carry_map_unit del: map_map)

lemma bn_select_words_exact:
  assumes "wvalid m r n" "wvalid m a n" "wvalid m b n" "ahead r a n" "ahead r b n"
  shows "bn_select_words m r (mask_of P) a b n = wstore m r (if P then wload m a n else wload m b n)"
proof -
  have "bn_select_words m r (mask_of P) a b n =
      wstore m r (map (\<lambda>(x, y). if P then x else y) (map (get2 a b m) [0 ..< n]))"
    using word_loop_map [OF reads_ahead_get2 [OF assms(4,5)] assms(1), of "\<lambda>(x, y). if P then x else y"]
    by (simp add: bn_select_words_def constant_time_select_w_mask get2_def del: map_map)
  moreover have "map (\<lambda>(x, y). if P then x else y) (map (get2 a b m) [0 ..< n]) = (if P then wload m a n else wload m b n)"
    using assms by (simp add: wload_map get2_def)
  ultimately show ?thesis by simp
qed

lemma word_loop_shift: "word_loop body (k + j) n s = word_loop (\<lambda>i. body (i + k)) j n s"
proof (induction n arbitrary: j s)
  case (Suc n)
  then show ?case using Suc.IH [of "Suc j"] by (simp add: ac_simps)
qed simp

lemma word_loop_from: "word_loop body k n s = word_loop (\<lambda>i. body (i + k)) 0 n s"
  using word_loop_shift [of body k 0] by simp

fun shr_words :: "nat \<Rightarrow> u64 list \<Rightarrow> u64 list" where
  "shr_words k [] = []"
| "shr_words k [x] = [drop_bit k x]"
| "shr_words k (x # y # zs) = (drop_bit k x OR push_bit (64 - k) y) # shr_words k (y # zs)"

lemma length_shr_words [simp]: "length (shr_words k xs) = length xs"
  by (induction k xs rule: shr_words.induct) simp_all

lemma wval_mod: "k \<le> 64 \<Longrightarrow> wval (y # zs) mod 2 ^ k = unat y mod 2 ^ k"
proof -
  assume "k \<le> 64"
  then have "(2 :: nat) ^ 64 = 2 ^ k * 2 ^ (64 - k)" by (simp flip: power_add)
  then have "wval (y # zs) = unat y + 2 ^ k * (2 ^ (64 - k) * wval zs)" by simp
  then show ?thesis by (simp only: mod_mult_self2)
qed

lemma unat_shr_or:
  assumes k: "0 < k" "k < 64"
  shows "unat (drop_bit k x OR push_bit (64 - k) y :: u64) = unat x div 2 ^ k + 2 ^ (64 - k) * (unat y mod 2 ^ k)"
proof -
  have p: "(2 :: nat) ^ 64 = 2 ^ (64 - k) * 2 ^ k" using k by (simp flip: power_add)
  have "unat (push_bit (64 - k) y) = unat y * 2 ^ (64 - k) mod 2 ^ 64" by (simp add: unat_push_bit)
  also have "\<dots> = 2 ^ (64 - k) * (unat y mod 2 ^ k)" unfolding p mult_mod_right by (simp only: ac_simps)
  finally have y: "unat (push_bit (64 - k) y) = push_bit (64 - k) (unat y mod 2 ^ k)"
    by (simp add: push_bit_eq_mult)
  have x: "unat x div 2 ^ k < 2 ^ (64 - k)"
    using unat_u64_bound [of x] p by (intro less_mult_imp_div_less) (simp add: ac_simps)
  have "unat (drop_bit k x OR push_bit (64 - k) y) = push_bit (64 - k) (unat y mod 2 ^ k) OR unat x div 2 ^ k"
    by (simp only: unsigned_or_eq y unat_drop_bit or.commute)
  also have "\<dots> = unat y mod 2 ^ k * 2 ^ (64 - k) + unat x div 2 ^ k" by (rule push_bit_or_nat [OF x])
  finally show ?thesis by simp
qed

lemma wval_shr_words:
  assumes k: "0 < k" "k < 64"
  shows "wval (shr_words k xs) = wval xs div 2 ^ k"
proof (induction xs rule: induct_list012)
  case (3 x y zs)
  let ?W = "wval (y # zs)"
  have p: "(2 :: nat) ^ 64 = 2 ^ k * 2 ^ (64 - k)" using k by (simp flip: power_add)
  have "wval (x # y # zs) div 2 ^ k = (unat x + 2 ^ k * (2 ^ (64 - k) * ?W)) div 2 ^ k"
    unfolding wval.simps(2) [of x] p by (simp only: mult.assoc)
  also have "\<dots> = unat x div 2 ^ k + 2 ^ (64 - k) * ?W" by simp
  also have "2 ^ (64 - k) * ?W = 2 ^ (64 - k) * (?W mod 2 ^ k) + 2 ^ (64 - k) * (2 ^ k * (?W div 2 ^ k))"
    unfolding distrib_left [symmetric] by (simp only: mod_mult_div_eq)
  also have "2 ^ (64 - k) * (2 ^ k * (?W div 2 ^ k)) = 2 ^ 64 * (?W div 2 ^ k)" unfolding p by (simp only: ac_simps)
  also have "?W mod 2 ^ k = unat y mod 2 ^ k" using k by (intro wval_mod) simp
  finally show ?case using 3 k by (simp only: shr_words.simps wval.simps(2) [of "_ OR _"] unat_shr_or add.assoc)
qed (use k in \<open>simp_all add: unat_drop_bit\<close>)


lemma shr_words_map:
  "xs \<noteq> [] \<Longrightarrow> shr_words k xs =
    map (\<lambda>(x, y). drop_bit k x OR push_bit (64 - k) y) (zip (butlast xs) (tl xs)) @ [drop_bit k (last xs)]"
proof (induction xs rule: induct_list012)
  case (3 x y zs)
  then show ?case by simp
qed simp_all

lemma zip_butlast_tl_wload:
  assumes "wvalid m p (Suc n)"
  shows "map (get2 p (padd p 1) m) [0 ..< n] = zip (butlast (wload m p (Suc n))) (tl (wload m p (Suc n)))"
    and "last (wload m p (Suc n)) = wget m (padd p n)"
proof -
  let ?f = "\<lambda>i. wget m (padd p i)"
  have l: "wload m p (Suc n) = map ?f [0 ..< Suc n]" using assms by (rule wload_map)
  have t: "tl (map ?f [0 ..< Suc n]) = map ?f [1 ..< Suc n]"
    by (simp add: upt_conv_Cons del: upt_Suc)
  show "map (get2 p (padd p 1) m) [0 ..< n] = zip (butlast (wload m p (Suc n))) (tl (wload m p (Suc n)))"
    unfolding l t by (rule nth_equalityI) (simp_all add: get2_def nth_butlast del: upt_Suc)
  show "last (wload m p (Suc n)) = wget m (padd p n)" unfolding l by simp
qed

lemma wget_wstore_apart:
  "apart p (length ws) q 1 \<Longrightarrow> wvalid m p (length ws) \<Longrightarrow> wvalid m q 1 \<Longrightarrow> wget (wstore m p ws) q = wget m q"
  by (auto simp: wget_def wstore_def apart_def wvalid_def mem_write_nth)

lemma wstore_snoc:
  "wvalid m p (Suc (length ws)) \<Longrightarrow> wstore m p (ws @ [w]) = wput (wstore m p ws) (padd p (length ws)) w"
  by (rule wmem_eqI) (auto simp: wstore_def wput_def wvalid_def mem_write_nth nth_append nth_list_update)

text \<open>
  The loop of a right shift by less than a word, over the \<open>n + 1\<close> words at \<open>a\<close>: the last one is
  shifted alone. The target may be the source or start before it.
\<close>

lemma shr_loop:
  assumes "wvalid m r (Suc n)" "wvalid m a (Suc n)" "fst r \<noteq> fst a \<or> snd r \<le> snd a \<or> snd a + Suc n \<le> snd r"
    and k: "0 < k" "k < 64"
  shows "wput (fst (word_loop (\<lambda>i (m, u). (wput m (padd r i)
             (drop_bit k (wget m (padd a i)) OR push_bit (64 - k) (wget m (padd a (i + 1)))), u)) 0 n (m, ())))
           (padd r n)
           (drop_bit k (wget (fst (word_loop (\<lambda>i (m, u). (wput m (padd r i)
             (drop_bit k (wget m (padd a i)) OR push_bit (64 - k) (wget m (padd a (i + 1)))), u)) 0 n (m, ()))) (padd a n)))
    = wstore m r (words_of (Suc n) (wval (wload m a (Suc n)) div 2 ^ k))"
proof -
  let ?xs = "wload m a (Suc n)"
  let ?h = "\<lambda>(x, y). drop_bit k x OR push_bit (64 - k) y :: u64"
  have len: "length ?xs = Suc n" using assms(2) by simp
  have ra: "reads_ahead r n (get2 a (padd a 1))"
    using assms(3) by (intro reads_ahead_get2) (auto simp: ahead_def)
  have "wvalid m r n" using assms(1) by (simp add: wvalid_def)
  note l = word_loop_map [OF ra this, of ?h]
  have loop: "fst (word_loop (\<lambda>i (m, u). (wput m (padd r i)
             (drop_bit k (wget m (padd a i)) OR push_bit (64 - k) (wget m (padd a (i + 1)))), u)) 0 n (m, ())) =
      wstore m r (map ?h (zip (butlast ?xs) (tl ?xs)))"
    using l by (simp add: get2_def zip_butlast_tl_wload(1) [OF assms(2), symmetric] ac_simps del: map_map)
  let ?ws = "map ?h (zip (butlast ?xs) (tl ?xs))"
  have ws: "length ?ws = n" using len by simp
  have g: "wget (wstore m r ?ws) (padd a n) = last ?xs"
  proof -
    have "apart r (length ?ws) (padd a n) 1" "wvalid m r (length ?ws)" "wvalid m (padd a n) 1"
      using assms(1-3) unfolding ws by (auto simp: apart_def wvalid_def)
    then show ?thesis unfolding zip_butlast_tl_wload(2) [OF assms(2)] by (rule wget_wstore_apart)
  qed
  have "wput (wstore m r ?ws) (padd r n) (drop_bit k (last ?xs)) = wstore m r (?ws @ [drop_bit k (last ?xs)])"
    using assms(1) wstore_snoc [of m r ?ws] unfolding ws by simp
  also have "?ws @ [drop_bit k (last ?xs)] = shr_words k ?xs"
    using len by (subst shr_words_map) auto
  also have "\<dots> = words_of (Suc n) (wval ?xs div 2 ^ k)"
    using len by (intro words_ofI) (simp_all add: wval_shr_words k)
  finally show ?thesis unfolding loop g .
qed


lemma bn_rshift1_words_exact:
  assumes "wvalid m r n" "wvalid m a n" "fst r \<noteq> fst a \<or> snd r \<le> snd a \<or> snd a + n \<le> snd r"
  shows "bn_rshift1_words m r a n = wstore m r (words_of n (wval (wload m a n) div 2))"
proof (cases n)
  case (Suc k)
  then show ?thesis using shr_loop [of m r k a 1] assms by (simp add: bn_rshift1_words_def Let_def)
qed (simp add: bn_rshift1_words_def)

lemma wval_take_drop: "k \<le> length ws \<Longrightarrow> wval ws = wval (take k ws) + 2 ^ (64 * k) * wval (drop k ws)"
  using wval_append [of "take k ws" "drop k ws"] by simp

lemma wval_drop: "k \<le> length ws \<Longrightarrow> wval (drop k ws) = wval ws div 2 ^ (64 * k)"
  using wval_take_drop [of k ws] wval_bound [of "take k ws"] by (simp add: min_absorb2)

lemma wval_take: "k \<le> length ws \<Longrightarrow> wval (take k ws) = wval ws mod 2 ^ (64 * k)"
  using wval_take_drop [of k ws] wval_bound [of "take k ws"] by (simp add: min_absorb2)

lemma wval_replicate_0 [simp]: "wval (replicate n 0) = 0"
  by (induction n) simp_all

lemma words_of_0 [simp]: "words_of n 0 = replicate n 0"
  by (rule words_ofI [symmetric]) simp_all

lemma wload_drop: "wload m (padd p k) (n - k) = drop k (wload m p n)"
  by (simp add: wload_def drop_take drop_drop ac_simps)

lemma bn_rshift_words_exact:
  assumes "wvalid m r n" "wvalid m a n" "fst r \<noteq> fst a \<or> snd r \<le> snd a \<or> snd a + n \<le> snd r"
  shows "bn_rshift_words m r a s n = wstore m r (words_of n (wval (wload m a n) div 2 ^ s))"
proof -
  let ?k = "s mod 64" and ?w = "s div 64" and ?v = "wval (wload m a n)"
  have s: "(2 :: nat) ^ s = 2 ^ (64 * ?w) * 2 ^ ?k" by (simp flip: power_add)
  have len: "length (wload m a n) = n" using assms(2) by simp
  show ?thesis
  proof (cases "n \<le> ?w")
    case True
    have "?v < 2 ^ (64 * n)" using wval_bound [of "wload m a n"] len by simp
    also have "\<dots> \<le> 2 ^ s" using True by (intro power_increasing) simp_all
    finally show ?thesis using True by (simp add: bn_rshift_words_def)
  next
    case False
    define j where "j = n - ?w"
    obtain i where i: "j = Suc i" using False by (cases j) (auto simp: j_def)
    have v: "wvalid m r j" "wvalid m (padd a ?w) j" "fst r \<noteq> fst (padd a ?w) \<or> snd r \<le> snd (padd a ?w) \<or> snd (padd a ?w) + j \<le> snd r"
      using assms False by (auto simp: wvalid_def j_def)
    have d: "wval (wload m (padd a ?w) j) = ?v div 2 ^ (64 * ?w)"
      using False len by (simp add: j_def wload_drop wval_drop)
    have "bn_rshift_words m r a s n =
        wstore (wstore m r (words_of j (?v div 2 ^ s))) (padd r j) (replicate ?w 0)"
    proof (cases "?k = 0")
      case True
      have "wload m (padd a ?w) j = words_of j (?v div 2 ^ s)"
        using v(2) d s True by (intro words_ofI) simp_all
      then show ?thesis using False True by (simp add: bn_rshift_words_def Let_def j_def)
    next
      case k: False
      have q: "?v div 2 ^ s = wval (wload m (padd a ?w) (Suc i)) div 2 ^ ?k"
        using d unfolding i s by (simp add: div_mult2_eq)
      have n: "n - 1 = i + ?w" "n - 1 - ?w = i" using i False by (auto simp: j_def)
      have w: "word_loop (\<lambda>i (m, u). (wput m (padd r (i - ?w)) (drop_bit ?k (wget m (padd a i)) OR
            push_bit (64 - ?k) (wget m (padd a (i + 1)))), u)) ?w i (m, ()) =
          word_loop (\<lambda>i (m, u). (wput m (padd r i) (drop_bit ?k (wget m (padd (padd a ?w) i)) OR
            push_bit (64 - ?k) (wget m (padd (padd a ?w) (i + 1)))), u)) 0 i (m, ())"
        by (subst word_loop_from) (simp add: ac_simps)
      have "bn_rshift_words m r a s n = wstore (wput (fst (word_loop (\<lambda>i (m, u). (wput m (padd r i) (drop_bit ?k (wget m (padd (padd a ?w) i)) OR
            push_bit (64 - ?k) (wget m (padd (padd a ?w) (i + 1)))), u)) 0 i (m, ()))) (padd r i)
          (drop_bit ?k (wget (fst (word_loop (\<lambda>i (m, u). (wput m (padd r i) (drop_bit ?k (wget m (padd (padd a ?w) i)) OR
            push_bit (64 - ?k) (wget m (padd (padd a ?w) (i + 1)))), u)) 0 i (m, ()))) (padd (padd a ?w) i))))
          (padd r j) (replicate ?w 0)"
        unfolding w [symmetric] using False k n i
        by (simp add: bn_rshift_words_def Let_def j_def ac_simps)
      also have "\<dots> = wstore (wstore m r (words_of j (?v div 2 ^ s))) (padd r j) (replicate ?w 0)"
        unfolding q i using v k by (subst shr_loop) (simp_all add: i)
      finally show ?thesis .
    qed
    also have "\<dots> = wstore m r (words_of j (?v div 2 ^ s) @ replicate ?w 0)"
      using assms(1) False by (subst wstore_append) (simp_all add: j_def)
    also have "words_of j (?v div 2 ^ s) @ replicate ?w 0 = words_of n (?v div 2 ^ s)"
    proof (rule words_ofI)
      have "?v < 2 ^ (64 * n)" using wval_bound [of "wload m a n"] len by simp
      also have "\<dots> = 2 ^ (64 * j) * 2 ^ (64 * ?w)" using False by (simp add: j_def flip: power_add distrib_left)
      also have "\<dots> \<le> 2 ^ (64 * j) * 2 ^ s" by (intro mult_le_mono2 power_increasing) simp_all
      finally have "?v div 2 ^ s < 2 ^ (64 * j)" by (intro less_mult_imp_div_less)
      then show "wval (words_of j (?v div 2 ^ s) @ replicate ?w 0) mod 2 ^ (64 * n) = ?v div 2 ^ s mod 2 ^ (64 * n)"
        by (simp add: wval_append)
    qed (use False in \<open>simp add: j_def\<close>)
    finally show ?thesis .
  qed
qed

section \<open>The comparison\<close>

definition compare_nat :: "nat \<Rightarrow> nat \<Rightarrow> 'a::ring_1" where
  "compare_nat x y = (if x < y then - 1 else if y < x then 1 else 0)"

lemma wval_eq_0_iff: "wval ws = 0 \<longleftrightarrow> (\<forall>w \<in> set ws. w = 0)"
  by (induction ws) (auto simp: unat_eq_0)

lemma foldl_or_eq_0: "foldl (\<lambda>msk i. msk OR f i) z is = 0 \<longleftrightarrow> z = 0 \<and> (\<forall>i \<in> set is. f i = (0 :: 'a::len word))"
  by (induction "is" arbitrary: z) (auto simp: or_eq_0_iff)

lemma set_drop_take: "k \<le> length xs \<Longrightarrow> set (drop j (take k xs)) = (!) xs ` {j ..< k}"
proof -
  assume k: "k \<le> length xs"
  have "drop j (take k xs) = map ((!) xs) [j ..< k]"
    using k by (intro nth_equalityI) simp_all
  then show ?thesis by simp
qed

lemma words_or_eq_0:
  "k \<le> length ws \<Longrightarrow> foldl (\<lambda>msk i. msk OR ws ! i) 0 [j ..< k] = 0 \<longleftrightarrow> wval (drop j (take k ws)) = 0"
  by (simp add: foldl_or_eq_0 wval_eq_0_iff set_drop_take)

lemma wval_take_Suc: "k < length ws \<Longrightarrow> wval (take (Suc k) ws) = wval (take k ws) + 2 ^ (64 * k) * unat (ws ! k)"
  by (simp add: take_Suc_conv_app_nth wval_append)

lemma digit_less:
  fixes x y :: nat
  assumes "x < b" "u < v" shows "x + b * u < y + b * v"
proof -
  have "x + b * u < b * Suc u" using assms(1) by simp
  also have "\<dots> \<le> b * v" using assms(2) by (intro mult_le_mono2) simp
  finally show ?thesis by simp
qed

lemma cmp_loop_exact:
  "k \<le> length a \<Longrightarrow> k \<le> length b \<Longrightarrow>
    foldl (\<lambda>ret i.
        let eq = constant_time_eq_w (a ! i) (b ! i); lt = constant_time_lt_w (a ! i) (b ! i)
        in constant_time_select_int eq ret (constant_time_select_int lt (- 1) 1)) (0 :: u32) [0 ..< k] =
      compare_nat (wval (take k a)) (wval (take k b))"
proof (induction k)
  case (Suc k)
  have t: "wval (take k a) < 2 ^ (64 * k)" "wval (take k b) < 2 ^ (64 * k)"
    using wval_bound [of "take k a"] wval_bound [of "take k b"] Suc.prems by (simp_all add: min_absorb2)
  have "compare_nat (wval (take (Suc k) a)) (wval (take (Suc k) b)) =
      (if a ! k = b ! k then compare_nat (wval (take k a)) (wval (take k b)) else if a ! k < b ! k then - 1 else 1 :: u32)"
    using Suc.prems digit_less [OF t(1), of "unat (a ! k)" "unat (b ! k)" "wval (take k b)"]
      digit_less [OF t(2), of "unat (b ! k)" "unat (a ! k)" "wval (take k a)"]
    by (auto simp: wval_take_Suc compare_nat_def word_less_nat_alt word_unat_eq_iff)
  then show ?case using Suc
    by (simp add: constant_time_eq_w_mask constant_time_lt_w_mask constant_time_select_int_mask Let_def)
qed (simp add: compare_nat_def)

lemma sint_compare: "sint (compare_nat x y :: u32) = compare_nat x y"
  by (simp add: compare_nat_def)

lemma bn_cmp_words_consttime_exact:
  assumes "n \<le> length a" "k \<le> length b"
  shows "bn_cmp_words_consttime a n b k = compare_nat (wval (take n a)) (wval (take k b))"
proof -
  have split: "wval (take k xs) = wval (take j xs) + 2 ^ (64 * j) * wval (drop j (take k xs))" "wval (take j xs) < 2 ^ (64 * j)"
    if "j \<le> k" "k \<le> length xs" for j k and xs :: "u64 list"
  proof -
    have "take k xs = take j xs @ drop j (take k xs)"
      using append_take_drop_id [of j "take k xs"] that by (simp add: min_absorb1)
    from arg_cong [OF this, of wval] show "wval (take k xs) = wval (take j xs) + 2 ^ (64 * j) * wval (drop j (take k xs))"
      using that by (simp only: wval_append) simp
    show "wval (take j xs) < 2 ^ (64 * j)" using wval_bound [of "take j xs"] that by simp
  qed
  consider "n = k" | "n < k" | "k < n" by linarith
  then show ?thesis
  proof cases
    case 1
    then show ?thesis using assms cmp_loop_exact [of n a b]
      by (simp add: bn_cmp_words_consttime_def Let_def sint_compare)
  next
    case 2
    have "bn_cmp_words_consttime a n b k =
        (if wval (drop n (take k b)) = 0 then compare_nat (wval (take n a)) (wval (take n b)) else - 1)"
      using assms 2 cmp_loop_exact [of n a b]
      by (simp add: bn_cmp_words_consttime_def Let_def sint_compare constant_time_is_zero_w_mask
          constant_time_select_int_mask words_or_eq_0 if_distrib [of sint])
    then show ?thesis using split [of n k b] 2 assms
        digit_less [of "wval (take n a)" "2 ^ (64 * n)" 0 "wval (drop n (take k b))" "wval (take n b)"] wval_bound [of "take n a"]
      by (auto simp: compare_nat_def min_absorb2)
  next
    case 3
    have "bn_cmp_words_consttime a n b k =
        (if wval (drop k (take n a)) = 0 then compare_nat (wval (take k a)) (wval (take k b)) else 1)"
      using assms 3 cmp_loop_exact [of k a b]
      by (simp add: bn_cmp_words_consttime_def Let_def sint_compare constant_time_is_zero_w_mask
          constant_time_select_int_mask words_or_eq_0 if_distrib [of sint])
    then show ?thesis using split [of k n a] 3 assms
        digit_less [of "wval (take k b)" "2 ^ (64 * k)" 0 "wval (drop k (take n a))" "wval (take k a)"] wval_bound [of "take k b"]
      by (auto simp: compare_nat_def min_absorb2)
  qed
qed

end
