(* ===== verification/Bn.thy ===== *)
theory Bn
  imports Bn_Words "HOL-Library.Log_Nat"
begin

text \<open>
  \<open>BIGNUM\<close>s: the struct of \<open>include/openssl/bn.h\<close>, its allocation and width management
  (\<open>bn.c\<close>), addition and subtraction (\<open>add.c\<close>), comparison (\<open>cmp.c\<close>) and shifts (\<open>shift.c\<close>).
  Functions of several \<open>BIGNUM\<close>s take pointers into a store, so that a result may be one of
  the operands. The abstraction \<open>bn_val\<close> reads a \<open>BIGNUM\<close> as an integer, and each operation is
  shown to compute on integers, for every width and every aliasing.
\<close>

section \<open>The struct\<close>

text \<open>
  The array \<open>d\<close> is the list \<open>bn_d\<close>, and \<open>dmax\<close> its length. The C type of \<open>width\<close> and \<open>dmax\<close> is
  \<open>int\<close>; \<open>bn_wexpand\<close> keeps them below $2^{23}$. \<open>neg\<close> is one or zero.
\<close>

record BIGNUM =
  bn_d :: "u64 list"
  bn_width :: nat
  bn_neg :: bool
  bn_flags :: u32

abbreviation bn_dmax :: "BIGNUM \<Rightarrow> nat" where
  "bn_dmax b \<equiv> length (bn_d b)"

abbreviation (input) BN_FLG_MALLOCED :: u32 where
  "BN_FLG_MALLOCED \<equiv> 1"

abbreviation (input) BN_FLG_STATIC_DATA :: u32 where
  "BN_FLG_STATIC_DATA \<equiv> 2"

abbreviation (input) sizeof_BIGNUM :: nat where
  "sizeof_BIGNUM \<equiv> 24"

text \<open>A pointer to a \<open>BIGNUM\<close> is a number; the words of the one at \<open>h\<close> are block \<open>h\<close> of memory.\<close>

type_synonym bn_store = "nat \<Rightarrow> BIGNUM"

definition at_bn :: "nat \<Rightarrow> (BIGNUM, 'a) op \<Rightarrow> (bn_store, 'a) op" where
  "at_bn h f st = (case f (st h) of (r, b) \<Rightarrow> (r, st(h := b)))"

definition bn_words :: "bn_store \<Rightarrow> wmem" where
  "bn_words st h = bn_d (st h)"

definition set_bn_words :: "wmem \<Rightarrow> bn_store \<Rightarrow> bn_store" where
  "set_bn_words m st h = (st h)\<lparr>bn_d := m h\<rparr>"

section \<open>bn.c\<close>

definition BN_init :: BIGNUM where
  "BN_init = \<lparr>bn_d = [], bn_width = 0, bn_neg = False, bn_flags = 0\<rparr>"

definition BN_new :: "heap_env \<Rightarrow> BIGNUM option" where
  "BN_new env =
     (case OPENSSL_malloc env sizeof_BIGNUM of
        None \<Rightarrow> None
      | Some bn \<Rightarrow> Some \<lparr>bn_d = [], bn_width = 0, bn_neg = False, bn_flags = BN_FLG_MALLOCED\<rparr>)"

definition BN_clear :: "BIGNUM \<Rightarrow> BIGNUM" where
  "BN_clear bn = bn\<lparr>bn_d := replicate (bn_dmax bn) 0, bn_width := 0, bn_neg := False\<rparr>"

definition BN_value_one :: BIGNUM where
  "BN_value_one = \<lparr>bn_d = [1], bn_width = 1, bn_neg = False, bn_flags = BN_FLG_STATIC_DATA\<rparr>"

text \<open>
  The allocated bytes hold the words of the new array; \<open>width\<close> words of the old one are kept.
\<close>

definition bn_wexpand :: "heap_env \<Rightarrow> nat \<Rightarrow> (BIGNUM, unit) op" where
  "bn_wexpand env n bn =
     (if n \<le> bn_dmax bn then (Some (), bn)
      else if INT_MAX div (4 * BN_BITS2) < n then (None, bn)
      else if bn_flags bn AND BN_FLG_STATIC_DATA \<noteq> 0 then (None, bn)
      else
        case OPENSSL_malloc env (8 * n) of
          None \<Rightarrow> (None, bn)
        | Some blk \<Rightarrow>
            (let a = words_of n (le_val blk)
             in (Some (), bn\<lparr>bn_d := mem_write a 0 (take (bn_width bn) (bn_d bn))\<rparr>)))"

definition bn_expand :: "heap_env \<Rightarrow> nat \<Rightarrow> (BIGNUM, unit) op" where
  "bn_expand env bits bn =
     (if (bits + BN_BITS2 - 1) mod 2 ^ 64 < bits then (None, bn)
      else bn_wexpand env ((bits + BN_BITS2 - 1) mod 2 ^ 64 div BN_BITS2) bn)"

definition BN_copy :: "heap_env \<Rightarrow> nat \<Rightarrow> nat \<Rightarrow> (bn_store, unit) op" where
  "BN_copy env dest src st =
     (if src = dest then (Some (), st)
      else
        case at_bn dest (bn_wexpand env (bn_width (st src))) st of
          (None, st) \<Rightarrow> (None, st)
        | (Some _, st) \<Rightarrow>
            (let st = set_bn_words (wstore (bn_words st) (dest, 0) (take (bn_width (st src)) (bn_d (st src)))) st
             in (Some (), st(dest := (st dest)\<lparr>bn_width := bn_width (st src), bn_neg := bn_neg (st src)\<rparr>))))"

text \<open>One halving step of \<open>BN_num_bits_word\<close>: \<open>l\<close> has at most \<open>2 * k\<close> bits.\<close>

definition num_bits_mask :: "nat \<Rightarrow> u64 \<Rightarrow> u64" where
  "num_bits_mask k l = 0 - drop_bit (BN_BITS2 - 1) (0 - drop_bit k l)"

definition num_bits_step :: "nat \<Rightarrow> u32 \<times> u64 \<Rightarrow> u32 \<times> u64" where
  "num_bits_step k bl =
     (let (bits, l) = bl; x = drop_bit k l; msk = num_bits_mask k l
      in (bits + ucast (of_nat k AND msk), l XOR ((x XOR l) AND msk)))"

definition BN_num_bits_word :: "u64 \<Rightarrow> nat" where
  "BN_num_bits_word l =
     (let bl = (if l \<noteq> 0 then 1 else 0, l);
          bl = num_bits_step 32 bl;
          bl = num_bits_step 16 bl;
          bl = num_bits_step 8 bl;
          bl = num_bits_step 4 bl;
          (bits, l) = num_bits_step 2 bl;
          bits = bits + ucast (1 AND num_bits_mask 1 l)
      in unat bits)"

fun minimal_width_loop :: "u64 list \<Rightarrow> nat \<Rightarrow> nat" where
  "minimal_width_loop ws ret =
     (if 0 < ret \<and> ws ! (ret - 1) = 0 then minimal_width_loop ws (ret - 1) else ret)"

declare minimal_width_loop.simps [simp del]

definition bn_minimal_width :: "BIGNUM \<Rightarrow> nat" where
  "bn_minimal_width bn = minimal_width_loop (bn_d bn) (bn_width bn)"

definition bn_set_minimal_width :: "BIGNUM \<Rightarrow> BIGNUM" where
  "bn_set_minimal_width bn =
     (let bn = bn\<lparr>bn_width := bn_minimal_width bn\<rparr>
      in if bn_width bn = 0 then bn\<lparr>bn_neg := False\<rparr> else bn)"

definition BN_num_bits :: "BIGNUM \<Rightarrow> nat" where
  "BN_num_bits bn =
     (let width = bn_minimal_width bn
      in if width = 0 then 0
         else (width - 1) * BN_BITS2 + BN_num_bits_word (bn_d bn ! (width - 1)))"

definition BN_num_bytes :: "BIGNUM \<Rightarrow> nat" where
  "BN_num_bytes bn = (BN_num_bits bn + 7) div 8"

definition BN_zero :: "BIGNUM \<Rightarrow> BIGNUM" where
  "BN_zero bn = bn\<lparr>bn_width := 0, bn_neg := False\<rparr>"

definition BN_set_word :: "heap_env \<Rightarrow> u64 \<Rightarrow> (BIGNUM, unit) op" where
  "BN_set_word env value bn =
     (if value = 0 then (Some (), BN_zero bn)
      else
        case bn_wexpand env 1 bn of
          (None, bn) \<Rightarrow> (None, bn)
        | (Some _, bn) \<Rightarrow> (Some (), bn\<lparr>bn_neg := False, bn_d := (bn_d bn)[0 := value], bn_width := 1\<rparr>))"

definition BN_one :: "heap_env \<Rightarrow> (BIGNUM, unit) op" where
  "BN_one env = BN_set_word env 1"

definition BN_set_u64 :: "heap_env \<Rightarrow> u64 \<Rightarrow> (BIGNUM, unit) op" where
  "BN_set_u64 env value = BN_set_word env value"

definition bn_set_words :: "heap_env \<Rightarrow> u64 list \<Rightarrow> (BIGNUM, unit) op" where
  "bn_set_words env ws bn =
     (case bn_wexpand env (length ws) bn of
        (None, bn) \<Rightarrow> (None, bn)
      | (Some _, bn) \<Rightarrow>
          (Some (), bn\<lparr>bn_d := mem_write (bn_d bn) 0 ws, bn_width := length ws, bn_neg := False\<rparr>))"

definition bn_fits_in_words :: "BIGNUM \<Rightarrow> nat \<Rightarrow> bool" where
  "bn_fits_in_words bn num \<longleftrightarrow> foldl (\<lambda>msk i. msk OR bn_d bn ! i) 0 [num ..< bn_width bn] = 0"

definition bn_copy_words :: "nat \<Rightarrow> BIGNUM \<Rightarrow> u64 list option" where
  "bn_copy_words num bn =
     (if bn_neg bn then None
      else
        let width = bn_width bn
        in if num < width \<and> \<not> bn_fits_in_words bn num then None
           else
             let width = (if num < width then num else width)
             in Some (mem_write (replicate num 0) 0 (take width (bn_d bn))))"

definition BN_is_negative :: "BIGNUM \<Rightarrow> bool" where
  "BN_is_negative bn = bn_neg bn"

definition BN_is_zero :: "BIGNUM \<Rightarrow> bool" where
  "BN_is_zero bn = bn_fits_in_words bn 0"

definition BN_set_negative :: "bool \<Rightarrow> BIGNUM \<Rightarrow> BIGNUM" where
  "BN_set_negative sign bn = bn\<lparr>bn_neg := (sign \<and> \<not> BN_is_zero bn)\<rparr>"

definition bn_resize_words :: "heap_env \<Rightarrow> nat \<Rightarrow> (BIGNUM, unit) op" where
  "bn_resize_words env n bn =
     (if bn_width bn \<le> n then
        case bn_wexpand env n bn of
          (None, bn) \<Rightarrow> (None, bn)
        | (Some _, bn) \<Rightarrow>
            (Some (), bn\<lparr>bn_d := mem_write (bn_d bn) (bn_width bn) (replicate (n - bn_width bn) 0), bn_width := n\<rparr>)
      else if \<not> bn_fits_in_words bn n then (None, bn)
      else (Some (), bn\<lparr>bn_width := n\<rparr>))"

section \<open>cmp.c\<close>

definition BN_ucmp :: "BIGNUM \<Rightarrow> BIGNUM \<Rightarrow> int" where
  "BN_ucmp a b = bn_cmp_words_consttime (bn_d a) (bn_width a) (bn_d b) (bn_width b)"

definition BN_cmp :: "BIGNUM option \<Rightarrow> BIGNUM option \<Rightarrow> int" where
  "BN_cmp a b =
     (case (a, b) of
        (Some a, Some b) \<Rightarrow>
          if bn_neg a \<noteq> bn_neg b then (if bn_neg a then - 1 else 1)
          else let ret = BN_ucmp a b in if bn_neg a then - ret else ret
      | (Some _, None) \<Rightarrow> - 1
      | (None, Some _) \<Rightarrow> 1
      | (None, None) \<Rightarrow> 0)"

definition BN_abs_is_word :: "BIGNUM \<Rightarrow> u64 \<Rightarrow> bool" where
  "BN_abs_is_word bn w =
     (if bn_width bn = 0 then w = 0
      else foldl (\<lambda>msk i. msk OR bn_d bn ! i) (bn_d bn ! 0 XOR w) [1 ..< bn_width bn] = 0)"

definition BN_cmp_word :: "BIGNUM \<Rightarrow> u64 \<Rightarrow> int" where
  "BN_cmp_word a b =
     BN_cmp (Some a)
       (Some (BN_init\<lparr>bn_d := [b], bn_width := (if 0 < b then 1 else 0), bn_flags := BN_FLG_STATIC_DATA\<rparr>))"

definition BN_is_one :: "BIGNUM \<Rightarrow> bool" where
  "BN_is_one bn \<longleftrightarrow> \<not> bn_neg bn \<and> BN_abs_is_word bn 1"

definition BN_is_word :: "BIGNUM \<Rightarrow> u64 \<Rightarrow> bool" where
  "BN_is_word bn w \<longleftrightarrow> BN_abs_is_word bn w \<and> (w = 0 \<or> \<not> bn_neg bn)"

definition BN_is_odd :: "BIGNUM \<Rightarrow> bool" where
  "BN_is_odd bn \<longleftrightarrow> 0 < bn_width bn \<and> bn_d bn ! 0 AND 1 = 1"

definition BN_is_pow2 :: "BIGNUM \<Rightarrow> bool" where
  "BN_is_pow2 bn =
     (let width = bn_minimal_width bn
      in if width = 0 \<or> bn_neg bn then False
         else if \<exists>i \<in> set [0 ..< width - 1]. bn_d bn ! i \<noteq> 0 then False
         else 0 = bn_d bn ! (width - 1) AND (bn_d bn ! (width - 1) - 1))"

definition BN_equal_consttime :: "BIGNUM \<Rightarrow> BIGNUM \<Rightarrow> bool" where
  "BN_equal_consttime a b =
     (let msk = foldl (\<lambda>msk i. msk OR bn_d b ! i) 0 [bn_width a ..< bn_width b];
          msk = foldl (\<lambda>msk i. msk OR bn_d a ! i) msk [bn_width b ..< bn_width a];
          mn = (if bn_width a < bn_width b then bn_width a else bn_width b);
          msk = foldl (\<lambda>msk i. msk OR (bn_d a ! i XOR bn_d b ! i)) msk [0 ..< mn];
          msk = msk OR (if bn_neg a \<noteq> bn_neg b then 1 else 0)
      in msk = 0)"

section \<open>add.c\<close>

text \<open>
  The word part of an addition of \<open>mx\<close> words and \<open>mn\<close> words, \<open>mn \<le> mx\<close>: the common words, the
  rest of the longer number with the carry, and the carry itself.
\<close>

definition uadd_words :: "wmem \<Rightarrow> wptr \<Rightarrow> wptr \<Rightarrow> wptr \<Rightarrow> nat \<Rightarrow> nat \<Rightarrow> wmem" where
  "uadd_words m r a b mx mn =
     (let (m, carry) = bn_add_words m r a b mn;
          (m, carry) = word_loop
            (\<lambda>i (m, carry).
               let tmp = carry + wget m (padd a i); carry = (if tmp < wget m (padd a i) then 1 else 0)
               in (wput m (padd r i) tmp, carry))
            mn (mx - mn) (m, carry)
      in wput m (padd r mx) carry)"

definition bn_uadd_consttime :: "heap_env \<Rightarrow> nat \<Rightarrow> nat \<Rightarrow> nat \<Rightarrow> (bn_store, unit) op" where
  "bn_uadd_consttime env r a b st =
     (let (a, b) = (if bn_width (st a) < bn_width (st b) then (b, a) else (a, b));
          mx = bn_width (st a); mn = bn_width (st b)
      in case at_bn r (bn_wexpand env (mx + 1)) st of
           (None, st) \<Rightarrow> (None, st)
         | (Some _, st) \<Rightarrow>
             (let st = st(r := (st r)\<lparr>bn_width := mx + 1\<rparr>)
              in (Some (), set_bn_words (uadd_words (bn_words st) (r, 0) (a, 0) (b, 0) mx mn) st)))"

definition BN_uadd :: "heap_env \<Rightarrow> nat \<Rightarrow> nat \<Rightarrow> nat \<Rightarrow> (bn_store, unit) op" where
  "BN_uadd env r a b st =
     (case bn_uadd_consttime env r a b st of
        (None, st) \<Rightarrow> (None, st)
      | (Some _, st) \<Rightarrow> (Some (), st(r := bn_set_minimal_width (st r))))"

definition usub_words :: "wmem \<Rightarrow> wptr \<Rightarrow> wptr \<Rightarrow> wptr \<Rightarrow> nat \<Rightarrow> nat \<Rightarrow> wmem \<times> u64" where
  "usub_words m r a b a_width b_width =
     (let (m, borrow) = bn_sub_words m r a b b_width
      in word_loop
           (\<lambda>i (m, borrow).
              let tmp = wget m (padd a i); r_i = wget m (padd a i) - borrow
              in (wput m (padd r i) r_i, if tmp < r_i then 1 else 0))
           b_width (a_width - b_width) (m, borrow))"

definition bn_usub_consttime :: "heap_env \<Rightarrow> nat \<Rightarrow> nat \<Rightarrow> nat \<Rightarrow> (bn_store, unit) op" where
  "bn_usub_consttime env r a b st =
     (let a_width = bn_width (st a); b_width = bn_width (st b)
      in if a_width < b_width \<and> \<not> bn_fits_in_words (st b) a_width then (None, st)
         else
           let b_width = (if a_width < b_width then a_width else b_width)
           in case at_bn r (bn_wexpand env a_width) st of
                (None, st) \<Rightarrow> (None, st)
              | (Some _, st) \<Rightarrow>
                  (let (m, borrow) = usub_words (bn_words st) (r, 0) (a, 0) (b, 0) a_width b_width;
                       st = set_bn_words m st
                   in if borrow \<noteq> 0 then (None, st)
                      else (Some (), st(r := (st r)\<lparr>bn_width := a_width, bn_neg := False\<rparr>))))"

definition BN_usub :: "heap_env \<Rightarrow> nat \<Rightarrow> nat \<Rightarrow> nat \<Rightarrow> (bn_store, unit) op" where
  "BN_usub env r a b st =
     (case bn_usub_consttime env r a b st of
        (None, st) \<Rightarrow> (None, st)
      | (Some _, st) \<Rightarrow> (Some (), st(r := bn_set_minimal_width (st r))))"

definition set_neg :: "nat \<Rightarrow> bool \<Rightarrow> bn_store \<Rightarrow> bn_store" where
  "set_neg r neg st = st(r := (st r)\<lparr>bn_neg := neg\<rparr>)"

text \<open>The tail that \<open>BN_add\<close> and \<open>BN_sub\<close> share: \<open>|a| - |b|\<close> with its sign.\<close>

definition BN_sub_signed :: "heap_env \<Rightarrow> nat \<Rightarrow> nat \<Rightarrow> nat \<Rightarrow> (bn_store, unit) op" where
  "BN_sub_signed env r a b st =
     (if BN_ucmp (st a) (st b) < 0 then
        case BN_usub env r b a st of
          (None, st) \<Rightarrow> (None, st)
        | (Some _, st) \<Rightarrow> (Some (), set_neg r True st)
      else
        case BN_usub env r a b st of
          (None, st) \<Rightarrow> (None, st)
        | (Some _, st) \<Rightarrow> (Some (), set_neg r False st))"

definition BN_add :: "heap_env \<Rightarrow> nat \<Rightarrow> nat \<Rightarrow> nat \<Rightarrow> (bn_store, unit) op" where
  "BN_add env r a b st =
     (let a_neg = bn_neg (st a)
      in if a_neg \<noteq> bn_neg (st b) then
           let (a, b) = (if a_neg then (b, a) else (a, b))
           in BN_sub_signed env r a b st
         else
           let (ret, st) = BN_uadd env r a b st
           in (ret, set_neg r a_neg st))"

definition BN_sub :: "heap_env \<Rightarrow> nat \<Rightarrow> nat \<Rightarrow> nat \<Rightarrow> (bn_store, unit) op" where
  "BN_sub env r a b st =
     (let (a, b, add, neg) =
        (if bn_neg (st a) then
           (if bn_neg (st b) then (b, a, False, False) else (a, b, True, True))
         else (if bn_neg (st b) then (a, b, True, False) else (a, b, False, False)))
      in if add then
           case BN_uadd env r a b st of
             (None, st) \<Rightarrow> (None, st)
           | (Some _, st) \<Rightarrow> (Some (), set_neg r neg st)
         else BN_sub_signed env r a b st)"

text \<open>
  \<open>BN_add_word\<close> and \<open>BN_sub_word\<close> call each other on the absolute value of a negative number.
  The borrow loop of \<open>BN_sub_word\<close> has no bound of its own; here it ends with the array.
\<close>

function add_word_loop :: "nat \<Rightarrow> u64 list \<Rightarrow> nat \<Rightarrow> u64 \<Rightarrow> u64 list \<times> nat \<times> u64" where
  "add_word_loop width d i w =
     (if w \<noteq> 0 \<and> i < width then
        let l = d ! i + w in add_word_loop width (d[i := l]) (i + 1) (if l < w then 1 else 0)
      else (d, i, w))"
  by pat_completeness auto
termination
  by (relation "measure (\<lambda>(width, d, i, w). width - i)") auto

function sub_word_loop :: "u64 list \<Rightarrow> nat \<Rightarrow> u64 \<Rightarrow> u64 list \<times> nat" where
  "sub_word_loop d i w =
     (if length d \<le> i then (d, i)
      else if w \<le> d ! i then (d[i := d ! i - w], i)
      else sub_word_loop (d[i := d ! i - w]) (i + 1) 1)"
  by pat_completeness auto
termination
  by (relation "measure (\<lambda>(d, i, w). length d - i)") auto

declare add_word_loop.simps [simp del] sub_word_loop.simps [simp del]

function BN_add_word :: "heap_env \<Rightarrow> u64 \<Rightarrow> BIGNUM \<Rightarrow> unit option \<times> BIGNUM"
  and BN_sub_word :: "heap_env \<Rightarrow> u64 \<Rightarrow> BIGNUM \<Rightarrow> unit option \<times> BIGNUM" where
  "BN_add_word env w a =
     (if w = 0 then (Some (), a)
      else if BN_is_zero a then BN_set_word env w a
      else if bn_neg a then
        (let (i, a) = BN_sub_word env w (a\<lparr>bn_neg := False\<rparr>)
         in (i, if \<not> BN_is_zero a then a\<lparr>bn_neg := \<not> bn_neg a\<rparr> else a))
      else
        let (d, i, w) = add_word_loop (bn_width a) (bn_d a) 0 w;
            a = a\<lparr>bn_d := d\<rparr>
        in if w \<noteq> 0 \<and> i = bn_width a then
             (case bn_wexpand env (bn_width a + 1) a of
                (None, a) \<Rightarrow> (None, a)
              | (Some _, a) \<Rightarrow> (Some (), a\<lparr>bn_width := bn_width a + 1, bn_d := (bn_d a)[i := w]\<rparr>))
           else (Some (), a))"
| "BN_sub_word env w a =
     (if w = 0 then (Some (), a)
      else if BN_is_zero a then
        (case BN_set_word env w a of
           (None, a) \<Rightarrow> (None, a)
         | (Some _, a) \<Rightarrow> (Some (), BN_set_negative True a))
      else if bn_neg a then
        (let (i, a) = BN_add_word env w (a\<lparr>bn_neg := False\<rparr>)
         in (i, a\<lparr>bn_neg := True\<rparr>))
      else if bn_minimal_width a = 1 \<and> bn_d a ! 0 < w then
        (Some (), a\<lparr>bn_d := (bn_d a)[0 := w - bn_d a ! 0], bn_neg := True\<rparr>)
      else
        let (d, i) = sub_word_loop (bn_d a) 0 w;
            a = a\<lparr>bn_d := d\<rparr>
        in (Some (), if bn_d a ! i = 0 \<and> i = bn_width a - 1 then a\<lparr>bn_width := bn_width a - 1\<rparr> else a))"
  by pat_completeness auto
termination
  by (relation "measure (\<lambda>x. case x of Inl (env, w, a) \<Rightarrow> if bn_neg a then 1 else 0
                                     | Inr (env, w, a) \<Rightarrow> if bn_neg a then 1 else 0)") auto

declare BN_add_word.simps [simp del] BN_sub_word.simps [simp del]

section \<open>shift.c\<close>

text \<open>The word loop of \<open>BN_lshift\<close>, from the top word down.\<close>

definition lshift_words :: "wmem \<Rightarrow> wptr \<Rightarrow> wptr \<Rightarrow> nat \<Rightarrow> nat \<Rightarrow> nat \<Rightarrow> wmem" where
  "lshift_words m t f width nw lb =
     (let rb = BN_BITS2 - lb;
          m = wput m (padd t (width + nw)) 0;
          m = (if lb = 0 then
                 foldl (\<lambda>m i. wput m (padd t (nw + i)) (wget m (padd f i))) m (rev [0 ..< width])
               else
                 foldl (\<lambda>m i.
                     let l = wget m (padd f i);
                         m = wput m (padd t (nw + i + 1)) (wget m (padd t (nw + i + 1)) OR drop_bit rb l)
                     in wput m (padd t (nw + i)) (push_bit lb l)) m (rev [0 ..< width]))
      in wstore m t (replicate nw 0))"

definition BN_lshift :: "heap_env \<Rightarrow> nat \<Rightarrow> nat \<Rightarrow> int \<Rightarrow> (bn_store, unit) op" where
  "BN_lshift env r a n st =
     (if n < 0 then (None, st)
      else
        let st = set_neg r (bn_neg (st a)) st; nw = nat n div BN_BITS2; width = bn_width (st a)
        in case at_bn r (bn_wexpand env (width + nw + 1)) st of
             (None, st) \<Rightarrow> (None, st)
           | (Some _, st) \<Rightarrow>
               (let st = set_bn_words (lshift_words (bn_words st) (r, 0) (a, 0) width nw (nat n mod BN_BITS2)) st
                in (Some (), st(r := bn_set_minimal_width ((st r)\<lparr>bn_width := width + nw + 1\<rparr>)))))"

definition BN_lshift1 :: "heap_env \<Rightarrow> nat \<Rightarrow> nat \<Rightarrow> (bn_store, unit) op" where
  "BN_lshift1 env r a st =
     (let width = bn_width (st a);
          st1 = (if r \<noteq> a then set_neg r (bn_neg (st a)) st else st)
      in case at_bn r (bn_wexpand env (width + 1)) st1 of
           (None, st) \<Rightarrow> (None, st)
         | (Some _, st) \<Rightarrow>
             (let st = (if r \<noteq> a then st(r := (st r)\<lparr>bn_width := width\<rparr>) else st);
                  (m, c) = word_loop
                    (\<lambda>i (m, c).
                       let t = wget m (padd (a, 0) i)
                       in (wput m (padd (r, 0) i) (push_bit 1 t OR c), drop_bit (BN_BITS2 - 1) t))
                    0 width (bn_words st, 0);
                  st = set_bn_words m st
              in (Some (),
                  if c \<noteq> 0 then st(r := (st r)\<lparr>bn_d := (bn_d (st r))[width := 1], bn_width := bn_width (st r) + 1\<rparr>)
                  else st)))"

definition BN_rshift :: "heap_env \<Rightarrow> nat \<Rightarrow> nat \<Rightarrow> int \<Rightarrow> (bn_store, unit) op" where
  "BN_rshift env r a n st =
     (if n < 0 then (None, st)
      else
        let width = bn_width (st a)
        in case at_bn r (bn_wexpand env width) st of
             (None, st) \<Rightarrow> (None, st)
           | (Some _, st) \<Rightarrow>
               (let st = set_bn_words (bn_rshift_words (bn_words st) (r, 0) (a, 0) (nat n) width) st
                in (Some (), st(r := bn_set_minimal_width ((st r)\<lparr>bn_neg := bn_neg (st a), bn_width := width\<rparr>)))))"

definition BN_rshift1 :: "heap_env \<Rightarrow> nat \<Rightarrow> nat \<Rightarrow> (bn_store, unit) op" where
  "BN_rshift1 env r a st =
     (let width = bn_width (st a)
      in case at_bn r (bn_wexpand env width) st of
           (None, st) \<Rightarrow> (None, st)
         | (Some _, st) \<Rightarrow>
             (let st = set_bn_words (bn_rshift1_words (bn_words st) (r, 0) (a, 0) width) st
              in (Some (), st(r := bn_set_minimal_width ((st r)\<lparr>bn_width := width, bn_neg := bn_neg (st a)\<rparr>)))))"

definition BN_set_bit :: "heap_env \<Rightarrow> int \<Rightarrow> (BIGNUM, unit) op" where
  "BN_set_bit env n a =
     (if n < 0 then (None, a)
      else
        let i = nat n div BN_BITS2; j = nat n mod BN_BITS2;
            (ret, a) =
              (if bn_width a \<le> i then
                 case bn_wexpand env (i + 1) a of
                   (None, a) \<Rightarrow> (None, a)
                 | (Some _, a) \<Rightarrow>
                     (Some (), a\<lparr>bn_d := mem_write (bn_d a) (bn_width a) (replicate (i + 1 - bn_width a) 0), bn_width := i + 1\<rparr>)
               else (Some (), a))
        in case ret of
             None \<Rightarrow> (None, a)
           | Some _ \<Rightarrow> (Some (), a\<lparr>bn_d := (bn_d a)[i := bn_d a ! i OR push_bit j 1]\<rparr>))"

definition BN_clear_bit :: "int \<Rightarrow> (BIGNUM, unit) op" where
  "BN_clear_bit n a =
     (if n < 0 then (None, a)
      else
        let i = nat n div BN_BITS2; j = nat n mod BN_BITS2
        in if bn_width a \<le> i then (None, a)
           else (Some (), bn_set_minimal_width (a\<lparr>bn_d := (bn_d a)[i := bn_d a ! i AND NOT (push_bit j 1)]\<rparr>)))"

definition bn_is_bit_set_words :: "u64 list \<Rightarrow> nat \<Rightarrow> nat \<Rightarrow> bool" where
  "bn_is_bit_set_words a num k =
     (let i = k div BN_BITS2; j = k mod BN_BITS2
      in if num \<le> i then False else drop_bit j (a ! i) AND 1 \<noteq> 0)"

definition BN_is_bit_set :: "BIGNUM \<Rightarrow> int \<Rightarrow> bool" where
  "BN_is_bit_set a n = (if n < 0 then False else bn_is_bit_set_words (bn_d a) (bn_width a) (nat n))"

definition BN_mask_bits :: "int \<Rightarrow> (BIGNUM, unit) op" where
  "BN_mask_bits n a =
     (if n < 0 then (None, a)
      else
        let w = nat n div BN_BITS2; b = nat n mod BN_BITS2
        in if bn_width a \<le> w then (Some (), a)
           else
             let a = (if b = 0 then a\<lparr>bn_width := w\<rparr>
                      else a\<lparr>bn_width := w + 1, bn_d := (bn_d a)[w := bn_d a ! w AND NOT (push_bit b (- 1))]\<rparr>)
             in (Some (), bn_set_minimal_width a))"

text \<open>\<open>low_zeros_step k\<close> looks at the low \<open>k\<close> bits of a word.\<close>

definition low_zeros_step :: "nat \<Rightarrow> u32 \<times> u64 \<Rightarrow> u32 \<times> u64" where
  "low_zeros_step k bl =
     (let (bits, l) = bl; msk = constant_time_is_zero_w (push_bit (BN_BITS2 - k) l)
      in (bits + ucast (of_nat k AND msk), constant_time_select_w msk (drop_bit k l) l))"

definition bn_count_low_zero_bits_word :: "u64 \<Rightarrow> u32" where
  "bn_count_low_zero_bits_word l =
     (let bl = low_zeros_step 32 (0, l);
          bl = low_zeros_step 16 bl;
          bl = low_zeros_step 8 bl;
          bl = low_zeros_step 4 bl;
          (bits, l) = low_zeros_step 2 bl;
          msk = constant_time_is_zero_w (push_bit (BN_BITS2 - 1) l)
      in bits + ucast (1 AND msk))"

definition BN_count_low_zero_bits :: "BIGNUM \<Rightarrow> nat" where
  "BN_count_low_zero_bits bn =
     unat (fst (foldl
       (\<lambda>(ret, saw_nonzero) i.
          let nonzero = NOT (constant_time_is_zero_w (bn_d bn ! i));
              first_nonzero = NOT saw_nonzero AND nonzero;
              saw_nonzero = saw_nonzero OR nonzero;
              bits = bn_count_low_zero_bits_word (bn_d bn ! i)
          in (ret OR ucast (first_nonzero AND scast (of_nat (i * BN_BITS2) + bits)), saw_nonzero))
       (0 :: u32, 0) [0 ..< bn_width bn]))"

section \<open>Numbers\<close>

text \<open>
  \<open>bn_abs\<close> and \<open>bn_val\<close> read the number off a \<open>BIGNUM\<close>; \<open>bn_ok\<close> is the invariant of the struct:
  the words in use are inside the array, and the array is one \<open>bn_wexpand\<close> can make, so that
  every \<open>int\<close> computed from a width is far from \<open>INT_MAX\<close>. \<open>bn_signed\<close> excludes a negative zero.
\<close>

definition bn_abs :: "BIGNUM \<Rightarrow> nat" where
  "bn_abs b = wval (take (bn_width b) (bn_d b))"

definition bn_val :: "BIGNUM \<Rightarrow> int" where
  "bn_val b = (if bn_neg b then - int (bn_abs b) else int (bn_abs b))"

definition bn_ok :: "BIGNUM \<Rightarrow> bool" where
  "bn_ok b \<longleftrightarrow> bn_width b \<le> bn_dmax b \<and> bn_dmax b \<le> INT_MAX div (4 * BN_BITS2)"

definition bn_signed :: "BIGNUM \<Rightarrow> bool" where
  "bn_signed b \<longleftrightarrow> (bn_neg b \<longrightarrow> bn_abs b \<noteq> 0)"

text \<open>\<open>bn_room env n b\<close>: \<open>b\<close> has \<open>n\<close> words or can get them.\<close>

definition bn_room :: "heap_env \<Rightarrow> nat \<Rightarrow> BIGNUM \<Rightarrow> bool" where
  "bn_room env n b \<longleftrightarrow>
     n \<le> bn_dmax b \<or>
     n \<le> INT_MAX div (4 * BN_BITS2) \<and> bn_flags b AND BN_FLG_STATIC_DATA = 0 \<and> can_alloc env (8 * n + 8)"

definition bn_grow :: "heap_env \<Rightarrow> nat \<Rightarrow> BIGNUM \<Rightarrow> BIGNUM" where
  "bn_grow env n b = snd (bn_wexpand env n b)"

lemma bn_wexpand_eq: "bn_wexpand env n b = (if bn_room env n b then (Some (), bn_grow env n b) else (None, b))"
  by (auto simp: bn_grow_def bn_wexpand_def bn_room_def OPENSSL_malloc_eq Let_def ac_simps)

lemma bn_grow_same [simp]:
  "bn_width (bn_grow env n b) = bn_width b" "bn_neg (bn_grow env n b) = bn_neg b" "bn_flags (bn_grow env n b) = bn_flags b"
  by (auto simp: bn_grow_def bn_wexpand_def Let_def split: option.splits)

lemma bn_grow_d:
  assumes "bn_ok b" "bn_room env n b"
  shows "k \<le> bn_width b \<Longrightarrow> take k (bn_d (bn_grow env n b)) = take k (bn_d b)"
    and "bn_ok (bn_grow env n b)" "n \<le> bn_dmax (bn_grow env n b)" "bn_dmax b \<le> bn_dmax (bn_grow env n b)"
proof -
  have "OPENSSL_malloc env (8 * n) = Some (map (junk env) [0 ..< 8 * n])" 
    if "can_alloc env (8 * n + 8)" "n \<le> 8388607"
    using that by (auto simp: OPENSSL_malloc_eq Let_def split: if_splits)
  with assms show "k \<le> bn_width b \<Longrightarrow> take k (bn_d (bn_grow env n b)) = take k (bn_d b)"
    "bn_ok (bn_grow env n b)" "n \<le> bn_dmax (bn_grow env n b)" "bn_dmax b \<le> bn_dmax (bn_grow env n b)"
    by (auto simp: bn_grow_def bn_wexpand_def bn_ok_def bn_room_def Let_def mem_write_def min_def
        split: option.splits)
qed

lemma bn_grow_abs [simp]: "bn_ok b \<Longrightarrow> bn_room env n b \<Longrightarrow> bn_abs (bn_grow env n b) = bn_abs b"
  by (simp add: bn_abs_def bn_grow_d(1))

lemma bn_abs_bound: "bn_ok b \<Longrightarrow> bn_abs b < 2 ^ (64 * bn_width b)"
  using wval_bound [of "take (bn_width b) (bn_d b)"] by (simp add: bn_abs_def bn_ok_def min_absorb2)

section \<open>Widths and bit lengths\<close>

lemma minimal_width_loop_exact:
  "n \<le> length ws \<Longrightarrow> k = minimal_width_loop ws n \<Longrightarrow>
    k \<le> n \<and> wval (take k ws) = wval (take n ws) \<and> (0 < k \<longrightarrow> ws ! (k - 1) \<noteq> 0)"
proof (induction ws n arbitrary: k rule: minimal_width_loop.induct)
  case (1 ws n)
  show ?case
  proof (cases "0 < n \<and> ws ! (n - 1) = 0")
    case True
    then have "wval (take n ws) = wval (take (n - 1) ws)"
      using "1.prems"(1) wval_take_Suc [of "n - 1" ws] by (cases n) auto
    moreover have "k = minimal_width_loop ws (n - 1)"
      using "1.prems"(2) True by (simp add: minimal_width_loop.simps [of ws n])
    moreover have "n - 1 \<le> length ws" using "1.prems"(1) by simp
    ultimately show ?thesis using "1.IH" [OF True, of k] by auto
  next
    case False
    then have "k = n" using "1.prems"(2) by (simp only: minimal_width_loop.simps [of ws n] if_False)
    then show ?thesis using False by auto
  qed
qed

lemma bn_minimal_width_exact:
  assumes "bn_ok b"
  shows "bn_minimal_width b \<le> bn_width b" "wval (take (bn_minimal_width b) (bn_d b)) = bn_abs b"
    "0 < bn_minimal_width b \<Longrightarrow> bn_d b ! (bn_minimal_width b - 1) \<noteq> 0"
  using minimal_width_loop_exact [of "bn_width b" "bn_d b", OF _ refl] assms
  by (auto simp: bn_minimal_width_def bn_abs_def bn_ok_def)

lemma bn_minimal_width_0: "bn_ok b \<Longrightarrow> bn_minimal_width b = 0 \<longleftrightarrow> bn_abs b = 0"
proof
  assume b: "bn_ok b" and z: "bn_abs b = 0"
  show "bn_minimal_width b = 0"
  proof (rule ccontr)
    assume k: "bn_minimal_width b \<noteq> 0"
    have "\<forall>w \<in> set (take (bn_minimal_width b) (bn_d b)). w = 0"
      using bn_minimal_width_exact(2) [OF b] z by (simp add: wval_eq_0_iff)
    moreover have "bn_d b ! (bn_minimal_width b - 1) \<in> set (take (bn_minimal_width b) (bn_d b))"
      using k bn_minimal_width_exact(1) [OF b] b by (auto simp: in_set_conv_nth bn_ok_def intro!: exI [of _ "bn_minimal_width b - 1"])
    ultimately show False using bn_minimal_width_exact(3) [OF b] k by simp
  qed
qed (use bn_minimal_width_exact(2) in fastforce)

lemma bn_set_minimal_width_exact [simp]:
  assumes "bn_ok b"
  shows "bn_ok (bn_set_minimal_width b)" "bn_abs (bn_set_minimal_width b) = bn_abs b"
    "bn_val (bn_set_minimal_width b) = bn_val b" "bn_signed (bn_set_minimal_width b)"
    "bn_neg (bn_set_minimal_width b) = (bn_neg b \<and> bn_abs b \<noteq> 0)"
  using bn_minimal_width_exact [OF assms] bn_minimal_width_0 [OF assms] assms
  by (auto simp: bn_set_minimal_width_def Let_def bn_ok_def bn_abs_def bn_val_def bn_signed_def)

lemma bn_fits_in_words_exact: "bn_ok b \<Longrightarrow> bn_fits_in_words b n \<longleftrightarrow> bn_abs b < 2 ^ (64 * n)"
proof -
  assume b: "bn_ok b"
  have "bn_fits_in_words b n \<longleftrightarrow> wval (drop n (take (bn_width b) (bn_d b))) = 0"
    using b by (simp add: bn_fits_in_words_def bn_ok_def words_or_eq_0)
  also have "\<dots> \<longleftrightarrow> bn_abs b < 2 ^ (64 * n)"
  proof (cases "n \<le> bn_width b")
    case True
    then show ?thesis using b by (simp add: wval_drop bn_ok_def div_eq_0_iff flip: bn_abs_def)
  next
    case False
    then have "(2 :: nat) ^ (64 * bn_width b) \<le> 2 ^ (64 * n)" by (intro power_increasing) simp_all
    then show ?thesis using less_le_trans [OF bn_abs_bound [OF b]] False by simp
  qed
  finally show ?thesis .
qed

lemma BN_is_zero_exact: "bn_ok b \<Longrightarrow> BN_is_zero b \<longleftrightarrow> bn_abs b = 0"
  by (simp add: BN_is_zero_def bn_fits_in_words_exact)


text \<open>\<open>BN_num_bits_word\<close> halves the interval in which the top bit lies.\<close>

lemma num_bits_mask_exact:
  assumes "unat l < 2 ^ (2 * k)" "1 \<le> k" "k \<le> 32"
  shows "num_bits_mask k l = mask_of (2 ^ k \<le> unat l)"
proof -
  let ?x = "drop_bit k l"
  have x: "unat ?x = unat l div 2 ^ k" by (rule unat_drop_bit)
  have "unat l div 2 ^ k < 2 ^ k"
    using assms(1) by (intro less_mult_imp_div_less) (simp add: power_add [symmetric] mult_2)
  also have "\<dots> \<le> 2 ^ 32" using assms by (intro power_increasing) simp_all
  finally have xb: "unat ?x < 2 ^ 32" using x by simp
  have "num_bits_mask k l = constant_time_msb_w (0 - ?x)"
    by (simp add: num_bits_mask_def constant_time_msb_w_def)
  also have "\<dots> = mask_of (bit (0 - ?x) 63)" by (rule constant_time_msb_w_mask)
  also have "bit (0 - ?x) 63 \<longleftrightarrow> ?x \<noteq> 0"
  proof (cases "?x = 0")
    case False
    then have "0 < unat ?x" by (simp add: unat_gt_0)
    then have "unat (0 - ?x) = 2 ^ 64 - unat ?x" by (simp only: unat_sub_if') simp
    then show ?thesis using False xb unfolding msb_is_large by simp
  qed simp
  also have "?x \<noteq> 0 \<longleftrightarrow> 2 ^ k \<le> unat l"
    using x by (simp add: word_unat_eq_iff div_eq_0_iff not_less)
  finally show ?thesis .
qed

lemma floorlog_shift: "2 ^ k \<le> v \<Longrightarrow> floorlog 2 v = k + floorlog 2 (v div 2 ^ k)"
proof -
  assume "2 ^ k \<le> v"
  then have u: "0 < v div 2 ^ k" by (simp add: div_greater_zero_iff)
  define w where "w = floorlog 2 (v div 2 ^ k) - 1"
  have w: "floorlog 2 (v div 2 ^ k) = Suc w"
    using u floorlog_eq_zero_iff [of 2 "v div 2 ^ k"] by (simp add: w_def)
  have b: "2 ^ w \<le> v div 2 ^ k" "v div 2 ^ k < 2 ^ Suc w"
    using floorlog_bounds [OF u, of 2] unfolding w by simp_all
  have "2 ^ (k + Suc w - 1) \<le> v" using b(1) by (simp add: power_add less_eq_div_iff_mult_less_eq mult.commute)
  moreover have "v < 2 ^ (k + Suc w)" using b(2) by (simp add: power_add div_less_iff_less_mult mult.commute)
  ultimately show ?thesis unfolding w by (intro le_antisym floorlog_leI floorlog_geI) simp_all
qed

lemma num_bits_step_exact:
  assumes "unat l < 2 ^ (2 * k)" "1 \<le> k" "k \<le> 32" "num_bits_step k (bits, l) = (bits', l')"
  shows "unat bits \<le> 100 \<Longrightarrow> unat bits' = unat bits + (if 2 ^ k \<le> unat l then k else 0)" "unat l' < 2 ^ k"
    "floorlog 2 (unat l) = (if 2 ^ k \<le> unat l then k else 0) + floorlog 2 (unat l')" "l' = 0 \<longleftrightarrow> l = 0"
proof -
  have m: "num_bits_mask k l = mask_of (2 ^ k \<le> unat l)" by (rule num_bits_mask_exact [OF assms(1-3)])
  have "unat (ucast (of_nat k :: u64) :: u32) = k"
    using assms(3) by (simp add: unat_ucast_mod unat_of_nat)
  then show "unat bits' = unat bits + (if 2 ^ k \<le> unat l then k else 0)" if "unat bits \<le> 100"
    using assms(3,4) that by (auto simp: num_bits_step_def Let_def m mask_of_def unat_word_ariths)
  have "l XOR y XOR l = y" for y by (rule bit_word_eqI) (auto simp: bit_simps)
  then have l': "l' = (if 2 ^ k \<le> unat l then drop_bit k l else l)"
    using assms(4) by (auto simp: num_bits_step_def Let_def m mask_of_def)
  show "unat l' < 2 ^ k"
    using assms(1) unfolding l'
    by (auto simp: unat_drop_bit power_add [symmetric] mult_2 intro!: less_mult_imp_div_less)
  show "floorlog 2 (unat l) = (if 2 ^ k \<le> unat l then k else 0) + floorlog 2 (unat l')"
    unfolding l' by (auto simp: unat_drop_bit floorlog_shift)
  show "l' = 0 \<longleftrightarrow> l = 0"
    unfolding l' by (auto simp: word_unat_eq_iff unat_drop_bit div_eq_0_iff dest: less_le_trans [OF zero_less_power [OF zero_less_numeral]])
qed


lemma BN_num_bits_word_exact: "BN_num_bits_word l = floorlog 2 (unat l)"
proof -
  obtain b1 l1 where s1: "num_bits_step 32 (if l \<noteq> 0 then 1 else 0, l) = (b1, l1)" by fastforce
  obtain b2 l2 where s2: "num_bits_step 16 (b1, l1) = (b2, l2)" by fastforce
  obtain b3 l3 where s3: "num_bits_step 8 (b2, l2) = (b3, l3)" by fastforce
  obtain b4 l4 where s4: "num_bits_step 4 (b3, l3) = (b4, l4)" by fastforce
  obtain b5 l5 where s5: "num_bits_step 2 (b4, l4) = (b5, l5)" by fastforce
  obtain b6 l6 where s6: "num_bits_step 1 (b5, l5) = (b6, l6)" by fastforce
  have "unat l < 2 ^ (2 * 32)" using unat_u64_bound [of l] by simp
  note e1 = num_bits_step_exact [OF this _ _ s1, simplified]
  note e2 = num_bits_step_exact [OF _ _ _ s2, simplified, OF e1(2) [simplified]]
  note e3 = num_bits_step_exact [OF _ _ _ s3, simplified, OF e2(2) [simplified]]
  note e4 = num_bits_step_exact [OF _ _ _ s4, simplified, OF e3(2) [simplified]]
  note e5 = num_bits_step_exact [OF _ _ _ s5, simplified, OF e4(2) [simplified]]
  note e6 = num_bits_step_exact [OF _ _ _ s6, simplified, OF e5(2) [simplified]]
  have f6: "floorlog 2 (unat l6) = (if l = 0 then 0 else 1)"
  proof (cases "unat l6 = 0")
    case False
    then have "unat l6 = 1" using e6(2) by simp
    then show ?thesis using e1(4) e2(4) e3(4) e4(4) e5(4) e6(4) False
      by (auto simp: compute_floorlog)
  qed (use e1(4) e2(4) e3(4) e4(4) e5(4) e6(4) in \<open>auto simp: unat_eq_0 compute_floorlog\<close>)
  have "BN_num_bits_word l = unat (fst (num_bits_step 1 (num_bits_step 2 (num_bits_step 4 (num_bits_step 8
      (num_bits_step 16 (num_bits_step 32 (if l \<noteq> 0 then 1 else 0, l))))))))"
    by (simp only: BN_num_bits_word_def Let_def case_prod_beta num_bits_step_def [of 1] fst_conv of_nat_1)
  also have "\<dots> = unat b6" by (simp only: s1 s2 s3 s4 s5 s6 fst_conv)
  also have "\<dots> = floorlog 2 (unat l)"
  proof -
    have "unat (if l \<noteq> 0 then 1 else 0 :: u32) = floorlog 2 (unat l6)" by (simp add: f6)
    then show ?thesis
      using e1(1) e1(3) e2(1) e2(3) e3(1) e3(3) e4(1) e4(3) e5(1) e5(3) e6(1) e6(3) f6 by (simp split: if_split_asm)
  qed
  finally show ?thesis .
qed

lemma BN_num_bits_exact:
  assumes "bn_ok b"
  shows "BN_num_bits b = floorlog 2 (bn_abs b)"
proof (cases "bn_minimal_width b")
  case 0
  then show ?thesis using bn_minimal_width_0 [OF assms] by (simp add: BN_num_bits_def compute_floorlog)
next
  case (Suc k)
  let ?w = "bn_d b ! k"
  have w: "?w \<noteq> 0" using bn_minimal_width_exact(3) [OF assms] Suc by simp
  have k: "k < length (bn_d b)" using bn_minimal_width_exact(1) [OF assms] Suc assms by (simp add: bn_ok_def)
  have v: "bn_abs b = wval (take k (bn_d b)) + 2 ^ (64 * k) * unat ?w"
    using bn_minimal_width_exact(2) [OF assms] wval_take_Suc [OF k] Suc by simp
  have low: "wval (take k (bn_d b)) < 2 ^ (64 * k)" using wval_bound [of "take k (bn_d b)"] k by simp
  have d: "bn_abs b div 2 ^ (64 * k) = unat ?w" using low unfolding v by simp
  have "0 < unat ?w" using w by (simp add: unat_gt_0)
  then have "2 ^ (64 * k) \<le> bn_abs b" unfolding d [symmetric] by (simp add: div_greater_zero_iff)
  then have "floorlog 2 (bn_abs b) = 64 * k + floorlog 2 (unat ?w)" unfolding d [symmetric] by (rule floorlog_shift)
  then show ?thesis using Suc by (simp add: BN_num_bits_def BN_num_bits_word_exact)
qed

section \<open>Sums and differences\<close>

lemma words_of_add: "words_of (j + k) v = words_of j v @ words_of k (v div 2 ^ (64 * j))"
proof (induction j arbitrary: v)
  case (Suc j)
  have "v div 2 ^ 64 div 2 ^ (64 * j) = v div 2 ^ (64 * Suc j)"
    by (simp only: div_mult2_eq [symmetric] power_add [symmetric]) (simp add: ac_simps)
  then show ?case using Suc.IH [of "v div 2 ^ 64"] by simp
qed simp

lemma words_of_snoc: "words_of (Suc n) v = words_of n v @ [of_nat (v div 2 ^ (64 * n))]"
proof -
  have "words_of (n + Suc 0) v = words_of n v @ words_of (Suc 0) (v div 2 ^ (64 * n))" by (rule words_of_add)
  moreover have "words_of (Suc 0) u = [of_nat u]" for u by simp
  ultimately show ?thesis by (simp only: add_Suc_right add_0_right)
qed

lemma word_loop_words_scaled:
  assumes body: "\<And>i m c. body i (m, c) = (let (w, c') = f (wget m (padd a i)) c in (wput m (padd r i) w, c'))"
    and r: "ahead (padd r k) (padd a k) n" and valid: "wvalid m (padd r k) n" "wvalid m (padd a k) n"
    and step: "\<And>x c w c'. I c \<Longrightarrow> f x c = (w, c') \<Longrightarrow> I c' \<and> int (unat w) + 2 ^ 64 * C c' = l * int (unat x) + C c"
    and c: "I c" and v: "l * int (wval (wload m (padd a k) n)) + C c = v"
  shows "\<exists>c'. word_loop body k n (m, c) = (wstore m (padd r k) (words_of n (nat (v mod 2 ^ (64 * n)))), c') \<and>
    I c' \<and> C c' = v div 2 ^ (64 * n)"
  unfolding word_loop_from [of body k]
  unfolding word_loop4_eq [symmetric, of "\<lambda>i. body (i + k)"]
proof (rule word_loop_words [where f = "\<lambda>(x, y). f x" and g = "get2 (padd a k) (padd a k)" and X = "\<lambda>(x, y). l * int (unat x)"])
  show "digits_val (\<lambda>(x, y). l * int (unat x)) (map (get2 (padd a k) (padd a k) m) [0 ..< n]) + C c = v"
    using valid v by (subst digits_val_get2 [where k = l and l = 0]) simp_all
qed (use assms in \<open>auto simp: get2_def ac_simps\<close>)

lemmas word_loop_words_from = word_loop_words_scaled [where l = 1, simplified mult_1]

lemma carry_step:
  fixes x c :: u64
  assumes "unat c \<le> 1"
  shows "unat (if c + x < x then 1 else 0 :: u64) \<le> 1 \<and>
    int (unat (c + x)) + 2 ^ 64 * int (unat (if c + x < x then 1 else 0 :: u64)) = int (unat x) + int (unat c)"
proof -
  have "unat (c + x) = (if unat c + unat x < 2 ^ 64 then unat c + unat x else unat c + unat x - 2 ^ 64)"
    by (simp add: unat_plus_if')
  then have "unat (if c + x < x then 1 else 0 :: u64) \<le> 1 \<and>
      unat (c + x) + 2 ^ 64 * unat (if c + x < x then 1 else 0 :: u64) = unat x + unat c"
    using assms unat_u64_bound [of x] by (auto simp: word_less_nat_alt split: if_splits)
  then show ?thesis by (metis of_nat_add of_nat_mult of_nat_numeral of_nat_power)
qed

lemma borrow_step:
  fixes x c :: u64
  assumes "unat c \<le> 1"
  shows "unat (if x < x - c then 1 else 0 :: u64) \<le> 1 \<and>
    int (unat (x - c)) + 2 ^ 64 * (- int (unat (if x < x - c then 1 else 0 :: u64))) = int (unat x) + (- int (unat c))"
proof -
  have "unat (x - c) = (if unat c \<le> unat x then unat x - unat c else unat x + 2 ^ 64 - unat c)"
    by (simp add: unat_sub_if' word_le_nat_alt)
  then show ?thesis using assms unat_u64_bound [of x] by (auto simp: word_less_nat_alt split: if_splits)
qed

lemma wval_wload_split:
  "wvalid m a n \<Longrightarrow> k \<le> n \<Longrightarrow> wval (wload m a n) = wval (wload m a k) + 2 ^ (64 * k) * wval (wload m (padd a k) (n - k))"
proof -
  assume "wvalid m a n" "k \<le> n"
  then have "wload m a n = wload m a k @ wload m (padd a k) (n - k)" "length (wload m a k) = k"
    using wload_add [of m a k "n - k"] by (simp_all add: wvalid_def)
  then show ?thesis by (simp add: wval_append)
qed

lemma uadd_words_exact:
  assumes "wvalid m r (Suc mx)" "wvalid m a mx" "wvalid m b mn" "mn \<le> mx" "ahead r a mx" "ahead r b mn"
  shows "uadd_words m r a b mx mn = wstore m r (words_of (Suc mx) (wval (wload m a mx) + wval (wload m b mn)))"
proof -
  let ?A = "wval (wload m a mx)" and ?B = "wval (wload m b mn)"
  let ?lo = "wval (wload m a mn)" and ?hi = "wval (wload m (padd a mn) (mx - mn))" and ?k = "mx - mn"
  define s where "s = ?lo + ?B"
  define c :: u64 where "c = of_nat (s div 2 ^ (64 * mn))"
  have valid: "wvalid m r mn" "wvalid m a mn" "wvalid m (padd a mn) ?k" "wvalid m (padd r mn) ?k" "wvalid m r mx"
    using assms(1,2,4) by (auto simp: wvalid_def)
  have A: "?A = ?lo + 2 ^ (64 * mn) * ?hi" using assms by (intro wval_wload_split) auto
  have add: "bn_add_words m r a b mn = (wstore m r (words_of mn s), c)"
    unfolding c_def using assms valid by (intro bn_add_words_exact) (auto simp: ahead_def s_def)
  have bnd: "?lo < 2 ^ (64 * mn)" "?B < 2 ^ (64 * mn)"
    using wval_bound [of "wload m a mn"] wval_bound [of "wload m b mn"] valid assms(3) by simp_all
  then have c1: "s div 2 ^ (64 * mn) < 2" unfolding s_def by (intro less_mult_imp_div_less) simp
  then have cv: "unat c = s div 2 ^ (64 * mn)" unfolding c_def unat_of_nat_u64 by simp
  let ?m = "wstore m r (words_of mn s)"
  have hi: "wval (wload ?m (padd a mn) ?k) = ?hi"
    using assms valid by (subst wload_wstore_apart) (auto simp: apart_def ahead_def)
  let ?body = "\<lambda>i (m, carry). let tmp = carry + wget m (padd a i); carry = (if tmp < wget m (padd a i) then 1 else 0)
               in (wput m (padd r i) tmp, carry)"
  let ?f = "\<lambda>x c. (c + x, if c + x < x then 1 else 0 :: u64)"
  define t where "t = ?hi + unat c"
  have "\<exists>c'. word_loop ?body mn ?k (?m, c) = (wstore ?m (padd r mn) (words_of ?k (nat (int t mod 2 ^ (64 * ?k)))), c') \<and>
      unat c' \<le> 1 \<and> int (unat c') = int t div 2 ^ (64 * ?k)"
  proof (rule word_loop_words_from [where f = ?f])
    show "int (wval (wload ?m (padd a mn) ?k)) + int (unat c) = int t" unfolding hi t_def by simp
    show "unat c \<le> 1" using c1 cv by simp
    show "unat c' \<le> 1 \<and> int (unat w) + 2 ^ 64 * int (unat c') = int (unat x) + int (unat c)"
      if "unat c \<le> 1" "?f x c = (w, c')" for x w and c c' :: u64 using carry_step [OF that(1), of x] that(2) by auto
  qed (use assms valid in \<open>auto simp: ahead_def Let_def\<close>)
  then obtain c' :: u64 where loop: "word_loop ?body mn ?k (?m, c) = (wstore ?m (padd r mn) (words_of ?k t), c')"
    and c': "int (unat c') = int t div 2 ^ (64 * ?k)" by auto
  have c't: "c' = of_nat (t div 2 ^ (64 * ?k))" using c' by (intro uint_carry) simp
  have AB: "?A + ?B = s + 2 ^ (64 * mn) * ?hi" unfolding A s_def by simp
  then have tv: "(?A + ?B) div 2 ^ (64 * mn) = t" "(?A + ?B) mod 2 ^ (64 * mn) = s mod 2 ^ (64 * mn)"
    unfolding t_def cv by (simp_all add: add.commute)
  have mx: "(2 :: nat) ^ (64 * mx) = 2 ^ (64 * mn) * 2 ^ (64 * ?k)"
    using assms(4) by (simp flip: power_add distrib_left)
  have "words_of (Suc mx) (?A + ?B) = words_of mx (?A + ?B) @ [of_nat ((?A + ?B) div 2 ^ (64 * mx))]"
    by (rule words_of_snoc)
  also have "words_of mx (?A + ?B) = words_of mn (?A + ?B) @ words_of ?k t"
    using words_of_add [of mn ?k "?A + ?B"] assms(4) by (simp add: tv)
  also have "words_of mn (?A + ?B) = words_of mn s" using tv(2) by (metis words_of_mod)
  also have "(?A + ?B) div 2 ^ (64 * mx) = t div 2 ^ (64 * ?k)" unfolding mx by (simp add: div_mult2_eq tv)
  finally have w: "words_of (Suc mx) (?A + ?B) = (words_of mn s @ words_of ?k t) @ [c']" by (simp add: c't)
  have "uadd_words m r a b mx mn = wput (wstore ?m (padd r mn) (words_of ?k t)) (padd r mx) c'"
    using loop by (simp add: uadd_words_def add)
  also have "wstore ?m (padd r mn) (words_of ?k t) = wstore m r (words_of mn s @ words_of ?k t)"
    using valid assms(4) by (subst wstore_append) simp_all
  also have "wput \<dots> (padd r mx) c' = wstore m r ((words_of mn s @ words_of ?k t) @ [c'])"
    using assms(1,4) by (subst wstore_snoc) simp_all
  finally show ?thesis unfolding w .
qed


text \<open>The words of an integer, as \<open>words_of\<close> gives those of a natural number.\<close>

definition words_of_int :: "nat \<Rightarrow> int \<Rightarrow> u64 list" where
  "words_of_int n v = words_of n (nat (v mod 2 ^ (64 * n)))"

lemma length_words_of_int [simp]: "length (words_of_int n v) = n"
  by (simp add: words_of_int_def)

lemma words_of_int_nat [simp]: "words_of_int n (int v) = words_of n v"
  by (simp add: words_of_int_def)

lemma wval_words_of_int: "int (wval (words_of_int n v)) = v mod 2 ^ (64 * n)"
proof -
  have p: "(2 :: nat) ^ (64 * n) = nat (2 ^ (64 * n))" by (simp add: nat_power_eq)
  have "nat (v mod 2 ^ (64 * n)) < 2 ^ (64 * n)" unfolding p by (subst nat_less_eq_zless) simp_all
  then show ?thesis by (simp add: words_of_int_def)
qed

lemma words_of_intI: "length ws = n \<Longrightarrow> int (wval ws) = v mod 2 ^ (64 * n) \<Longrightarrow> ws = words_of_int n v"
  unfolding words_of_int_def using words_of_wval [of ws n] by (metis nat_int)

lemma words_of_int_add:
  "words_of_int (j + k) v = words_of_int j v @ words_of_int k (v div 2 ^ (64 * j))"
proof (rule words_of_intI [symmetric])
  have "v mod (2 ^ (64 * j) * 2 ^ (64 * k)) = 2 ^ (64 * j) * (v div 2 ^ (64 * j) mod 2 ^ (64 * k)) + v mod 2 ^ (64 * j)"
    by (rule zmod_zmult2_eq) simp
  then show "int (wval (words_of_int j v @ words_of_int k (v div 2 ^ (64 * j)))) = v mod 2 ^ (64 * (j + k))"
    by (simp add: wval_append wval_words_of_int distrib_left power_add)
qed simp

lemma words_of_int_mod_cong: "u mod 2 ^ (64 * n) = v mod 2 ^ (64 * n) \<Longrightarrow> words_of_int n u = words_of_int n v"
  by (simp add: words_of_int_def)

lemma usub_words_exact:
  assumes "wvalid m r n" "wvalid m a n" "wvalid m b k" "k \<le> n" "ahead r a n" "ahead r b k"
    and v: "v = int (wval (wload m a n)) - int (wval (wload m b k))"
  shows "usub_words m r a b n k = (wstore m r (words_of_int n v), if v < 0 then 1 else 0)"
proof -
  let ?A = "wval (wload m a n)" and ?B = "wval (wload m b k)"
  let ?lo = "wval (wload m a k)" and ?hi = "wval (wload m (padd a k) (n - k))" and ?j = "n - k"
  define s where "s = int ?lo - int ?B"
  define c :: u64 where "c = (if s < 0 then 1 else 0)"
  have valid: "wvalid m r k" "wvalid m a k" "wvalid m (padd a k) ?j" "wvalid m (padd r k) ?j"
    using assms(1,2,4) by (auto simp: wvalid_def)
  have A: "?A = ?lo + 2 ^ (64 * k) * ?hi" using assms by (intro wval_wload_split) auto
  have sub: "bn_sub_words m r a b k = (wstore m r (words_of_int k s), c)"
    unfolding c_def words_of_int_def using assms valid by (intro bn_sub_words_exact) (auto simp: ahead_def s_def)
  have bnd: "int ?lo < 2 ^ (64 * k)" "int ?B < 2 ^ (64 * k)"
    using wval_bound [of "wload m a k"] wval_bound [of "wload m b k"] valid assms(3) by simp_all
  have cv: "s div 2 ^ (64 * k) = - int (unat c)"
  proof (cases "s < 0")
    case True
    then have "s div 2 ^ (64 * k) = -1"
    proof (intro int_div_pos_eq [where r = "s + 2 ^ (64 * k)"])
      show "0 \<le> s + 2 ^ (64 * k)" using bnd unfolding s_def by linarith
    qed simp_all
    then show ?thesis using True by (simp add: c_def)
  next
    case False
    moreover have "s < 2 ^ (64 * k)" using bnd unfolding s_def by linarith
    ultimately have "s div 2 ^ (64 * k) = 0" by (intro div_pos_pos_trivial) simp_all
    then show ?thesis using False by (simp add: c_def)
  qed
  let ?m = "wstore m r (words_of_int k s)"
  have hi: "wval (wload ?m (padd a k) ?j) = ?hi"
    using assms valid by (subst wload_wstore_apart) (auto simp: apart_def ahead_def)
  let ?body = "\<lambda>i (m, borrow). let tmp = wget m (padd a i); r_i = wget m (padd a i) - borrow
              in (wput m (padd r i) r_i, if tmp < r_i then 1 else 0)"
  let ?f = "\<lambda>x c. (x - c, if x < x - c then 1 else 0 :: u64)"
  define t where "t = int ?hi + (- int (unat c))"
  have "\<exists>c'. word_loop ?body k ?j (?m, c) = (wstore ?m (padd r k) (words_of ?j (nat (t mod 2 ^ (64 * ?j)))), c') \<and>
      unat c' \<le> 1 \<and> - int (unat c') = t div 2 ^ (64 * ?j)"
  proof (rule word_loop_words_from [where f = ?f])
    show "int (wval (wload ?m (padd a k) ?j)) + (- int (unat c)) = t" unfolding hi t_def by simp
    show "unat c \<le> 1" by (simp add: c_def)
    show "unat c' \<le> 1 \<and> int (unat w) + 2 ^ 64 * (- int (unat c')) = int (unat x) + (- int (unat c))"
      if "unat c \<le> 1" "?f x c = (w, c')" for x w and c c' :: u64
      using borrow_step [OF that(1), of x] that(2) by auto
  qed (use assms valid in \<open>auto simp: ahead_def Let_def\<close>)
  then obtain c' :: u64 where loop: "word_loop ?body k ?j (?m, c) = (wstore ?m (padd r k) (words_of_int ?j t), c')"
    and c': "unat c' \<le> 1" "- int (unat c') = t div 2 ^ (64 * ?j)" unfolding words_of_int_def by blast
  have vs: "v = s + 2 ^ (64 * k) * int ?hi" unfolding v A s_def by simp
  then have tv: "v div 2 ^ (64 * k) = t" "v mod 2 ^ (64 * k) = s mod 2 ^ (64 * k)"
    unfolding t_def by (simp_all add: cv)
  have neg: "v < 0 \<longleftrightarrow> t < 0" unfolding tv(1) [symmetric] by (simp add: pos_imp_zdiv_neg_iff)
  have "c' = (if v < 0 then 1 else 0)"
  proof (cases "v < 0")
    case True
    then have "t div 2 ^ (64 * ?j) < 0" unfolding neg by (simp add: pos_imp_zdiv_neg_iff)
    then show ?thesis using c' True u64_le_1 [OF c'(1)] by auto
  next
    case False
    then have "0 \<le> t div 2 ^ (64 * ?j)" unfolding neg by (simp add: pos_imp_zdiv_nonneg_iff)
    then show ?thesis using c' False u64_le_1 [OF c'(1)] by auto
  qed
  moreover have "words_of_int n v = words_of_int k s @ words_of_int ?j t"
    using words_of_int_add [of k ?j v] assms(4) words_of_int_mod_cong [OF tv(2)] by (simp add: tv(1))
  moreover have "wstore ?m (padd r k) (words_of_int ?j t) = wstore m r (words_of_int k s @ words_of_int ?j t)"
    using valid assms(1,4) by (subst wstore_append) simp_all
  ultimately show ?thesis using loop by (simp add: usub_words_def sub)
qed


section \<open>Operations in the store\<close>

text \<open>
  Growing \<open>r\<close> leaves the number at every pointer as it was. Then an operation writes words to
  \<open>r\<close> alone.
\<close>

lemma at_bn_wexpand:
  "at_bn r (bn_wexpand env n) st =
    (if bn_room env n (st r) then (Some (), st(r := bn_grow env n (st r))) else (None, st))"
  by (simp add: at_bn_def bn_wexpand_eq)

lemma wload_bn: "bn_ok (st h) \<Longrightarrow> wload (bn_words st) (h, 0) (bn_width (st h)) = take (bn_width (st h)) (bn_d (st h))"
  by (simp add: wload_def bn_words_def)

lemma set_bn_words_store:
  "set_bn_words (wstore (bn_words st) (r, 0) ws) st = st(r := (st r)\<lparr>bn_d := mem_write (bn_d (st r)) 0 ws\<rparr>)"
  by (rule ext) (simp add: set_bn_words_def wstore_def bn_words_def)

definition bn_with :: "u64 list \<Rightarrow> BIGNUM \<Rightarrow> BIGNUM" where
  "bn_with ws b = b\<lparr>bn_width := length ws, bn_d := mem_write (bn_d b) 0 ws\<rparr>"

lemma bn_with_exact [simp]:
  assumes "bn_ok b" "length ws \<le> bn_dmax b"
  shows "bn_ok (bn_with ws b)" "bn_abs (bn_with ws b) = wval ws" "bn_neg (bn_with ws b) = bn_neg b"
    "bn_width (bn_with ws b) = length ws"
  using assms by (auto simp: bn_with_def bn_ok_def bn_abs_def mem_write_def)

text \<open>What the store holds for the operands once \<open>r\<close> has room.\<close>

lemma grown_operand:
  assumes "bn_ok (st r)" "bn_ok (st a)" "bn_room env n (st r)" "st' = st(r := (bn_grow env n (st r))\<lparr>bn_width := k\<rparr>)"
    "w = bn_width (st a)"
  shows "wvalid (bn_words st') (a, 0) w" "wval (wload (bn_words st') (a, 0) w) = bn_abs (st a)"
    "wvalid (bn_words st') (r, 0) n"
  using bn_grow_d [OF assms(1,3)] assms
  by (auto simp: wvalid_def bn_words_def wload_def bn_abs_def bn_ok_def)

lemma bn_uadd_consttime_exact:
  assumes "bn_ok (st r)" "bn_ok (st a)" "bn_ok (st b)"
    and n: "n = max (bn_width (st a)) (bn_width (st b)) + 1"
  shows "bn_uadd_consttime env r a b st =
    (if bn_room env n (st r)
     then (Some (), st(r := bn_with (words_of n (bn_abs (st a) + bn_abs (st b))) (bn_grow env n (st r))))
     else (None, st))"
proof -
  define a' where "a' = (if bn_width (st a) < bn_width (st b) then b else a)"
  define b' where "b' = (if bn_width (st a) < bn_width (st b) then a else b)"
  have ab: "(if bn_width (st a) < bn_width (st b) then (b, a) else (a, b)) = (a', b')"
    "bn_abs (st a) + bn_abs (st b) = bn_abs (st a') + bn_abs (st b')" "n = Suc (bn_width (st a'))"
    "bn_width (st b') \<le> bn_width (st a')" "bn_ok (st a')" "bn_ok (st b')"
    using assms by (auto simp: a'_def b'_def)
  show ?thesis
  proof (cases "bn_room env n (st r)")
    case True
    let ?st = "st(r := (bn_grow env n (st r))\<lparr>bn_width := n\<rparr>)"
    note a = grown_operand [OF assms(1) ab(5) True refl refl, of n]
    note b = grown_operand [OF assms(1) ab(6) True refl refl, of n]
    have "uadd_words (bn_words ?st) (r, 0) (a', 0) (b', 0) (bn_width (st a')) (bn_width (st b')) =
        wstore (bn_words ?st) (r, 0) (words_of n (bn_abs (st a) + bn_abs (st b)))"
      using a b ab by (subst uadd_words_exact) (simp_all add: ahead_def)
    then show ?thesis
      using True ab(3) by (simp add: bn_uadd_consttime_def ab(1) at_bn_wexpand set_bn_words_store bn_with_def Let_def del: words_of.simps)
  qed (use ab(3) in \<open>simp add: bn_uadd_consttime_def ab(1) at_bn_wexpand\<close>)
qed


lemma bn_d_width_update: "b\<lparr>bn_d := ws, bn_width := w\<rparr> = b\<lparr>bn_width := w, bn_d := ws\<rparr>"
  by (cases b) simp

lemma bn_usub_consttime_exact:
  assumes "bn_ok (st r)" "bn_ok (st a)" "bn_ok (st b)"
    and n: "n = bn_width (st a)" and le: "bn_abs (st b) \<le> bn_abs (st a)"
  shows "bn_usub_consttime env r a b st =
    (if bn_room env n (st r)
     then (Some (), st(r := (bn_with (words_of n (bn_abs (st a) - bn_abs (st b))) (bn_grow env n (st r)))\<lparr>bn_neg := False\<rparr>))
     else (None, st))"
proof -
  let ?k = "if n < bn_width (st b) then n else bn_width (st b)"
  have fits: "bn_abs (st b) < 2 ^ (64 * n)" using le bn_abs_bound [OF assms(2)] n by simp
  have guard: "\<not> (n < bn_width (st b) \<and> \<not> bn_fits_in_words (st b) n)"
    using fits by (simp add: bn_fits_in_words_exact assms)
  show ?thesis
  proof (cases "bn_room env n (st r)")
    case True
    let ?st = "st(r := bn_grow env n (st r))"
    have g: "?st = st(r := (bn_grow env n (st r))\<lparr>bn_width := bn_width (st r)\<rparr>)" by (rule ext) simp
    note a = grown_operand [OF assms(1,2) True g n]
    note b = grown_operand [OF assms(1,3) True g refl]
    have bk: "wvalid (bn_words ?st) (b, 0) ?k" "wval (wload (bn_words ?st) (b, 0) ?k) = bn_abs (st b)"
    proof -
      show "wvalid (bn_words ?st) (b, 0) ?k" using b(1) by (auto simp: wvalid_def)
      have "wload (bn_words ?st) (b, 0) ?k = take ?k (wload (bn_words ?st) (b, 0) (bn_width (st b)))"
        by (simp add: wload_def min_def)
      then show "wval (wload (bn_words ?st) (b, 0) ?k) = bn_abs (st b)"
        using b fits bn_abs_bound [OF assms(3)] by (simp add: wval_take)
    qed
    have d: "int (bn_abs (st a)) - int (bn_abs (st b)) = int (bn_abs (st a) - bn_abs (st b))" using le by simp
    have "usub_words (bn_words ?st) (r, 0) (a, 0) (b, 0) n ?k =
        (wstore (bn_words ?st) (r, 0) (words_of n (bn_abs (st a) - bn_abs (st b))), 0)"
      using a bk by (subst usub_words_exact [OF _ _ _ _ _ _ refl]) (simp_all add: ahead_def d)
    then show ?thesis
      using True guard by (simp add: bn_usub_consttime_def n [symmetric] at_bn_wexpand set_bn_words_store bn_with_def bn_d_width_update Let_def del: de_Morgan_conj)
  qed (use guard in \<open>simp add: bn_usub_consttime_def n [symmetric] at_bn_wexpand Let_def del: de_Morgan_conj\<close>)
qed

lemma BN_uadd_exact:
  assumes "bn_ok (st r)" "bn_ok (st a)" "bn_ok (st b)"
    and room: "bn_room env (max (bn_width (st a)) (bn_width (st b)) + 1) (st r)"
  shows "\<exists>b'. BN_uadd env r a b st = (Some (), st(r := b')) \<and> bn_ok b' \<and>
    bn_abs b' = bn_abs (st a) + bn_abs (st b)"
proof -
  let ?n = "max (bn_width (st a)) (bn_width (st b)) + 1"
  let ?b = "bn_with (words_of ?n (bn_abs (st a) + bn_abs (st b))) (bn_grow env ?n (st r))"
  have "bn_abs (st a) < 2 ^ (64 * (?n - 1))" "bn_abs (st b) < 2 ^ (64 * (?n - 1))"
    using bn_abs_bound [OF assms(2)] bn_abs_bound [OF assms(3)]
    by (auto elim!: less_le_trans intro!: power_increasing)
  then have "bn_abs (st a) + bn_abs (st b) < 2 ^ (64 * ?n)" by (simp add: power_add)
  then have "bn_abs ?b = bn_abs (st a) + bn_abs (st b)" "bn_ok ?b"
    using bn_grow_d [OF assms(1) room] by (simp_all del: words_of.simps)
  then show ?thesis
    using bn_uadd_consttime_exact [OF assms(1-3) refl, of env] room
    by (auto simp: BN_uadd_def simp del: words_of.simps)
qed

lemma BN_usub_exact:
  assumes "bn_ok (st r)" "bn_ok (st a)" "bn_ok (st b)" "bn_abs (st b) \<le> bn_abs (st a)"
    and room: "bn_room env (bn_width (st a)) (st r)"
  shows "\<exists>b'. BN_usub env r a b st = (Some (), st(r := b')) \<and> bn_ok b' \<and>
    bn_abs b' = bn_abs (st a) - bn_abs (st b) \<and> \<not> bn_neg b'"
proof -
  let ?n = "bn_width (st a)"
  let ?b = "(bn_with (words_of ?n (bn_abs (st a) - bn_abs (st b))) (bn_grow env ?n (st r)))"
  have "bn_abs (st a) - bn_abs (st b) < 2 ^ (64 * ?n)" using bn_abs_bound [OF assms(2)] by simp
  then have w: "bn_abs ?b = bn_abs (st a) - bn_abs (st b)" "bn_ok ?b"
    using bn_grow_d [OF assms(1) room] by simp_all
  then have "bn_abs (?b\<lparr>bn_neg := False\<rparr>) = bn_abs (st a) - bn_abs (st b)" "bn_ok (?b\<lparr>bn_neg := False\<rparr>)"
    by (simp_all add: bn_abs_def bn_ok_def)
  then show ?thesis
    using bn_usub_consttime_exact [OF assms(1-3) refl assms(4), of env] room
    by (auto simp: BN_usub_def)
qed


lemma BN_ucmp_exact: "bn_ok a \<Longrightarrow> bn_ok b \<Longrightarrow> BN_ucmp a b = compare_nat (bn_abs a) (bn_abs b)"
  by (simp add: BN_ucmp_def bn_ok_def bn_cmp_words_consttime_exact bn_abs_def)

text \<open>Room for an operation on \<open>n\<close> words: the result may have to grow to any size up to \<open>n\<close>.\<close>

definition bn_room_upto :: "heap_env \<Rightarrow> nat \<Rightarrow> BIGNUM \<Rightarrow> bool" where
  "bn_room_upto env n b \<longleftrightarrow> (\<forall>k \<le> n. bn_room env k b)"

lemma set_neg_store: "set_neg r s (st(r := b)) = st(r := b\<lparr>bn_neg := s\<rparr>)"
  by (simp add: set_neg_def)

lemma bn_neg_update [simp]:
  "bn_ok (b\<lparr>bn_neg := s\<rparr>) = bn_ok b" "bn_abs (b\<lparr>bn_neg := s\<rparr>) = bn_abs b"
  "bn_val (b\<lparr>bn_neg := s\<rparr>) = (if s then - int (bn_abs b) else int (bn_abs b))"
  "bn_signed (b\<lparr>bn_neg := s\<rparr>) = (s \<longrightarrow> bn_abs b \<noteq> 0)"
  by (simp_all add: bn_ok_def bn_abs_def bn_val_def bn_signed_def)

lemma BN_sub_signed_exact:
  assumes "bn_ok (st r)" "bn_ok (st a)" "bn_ok (st b)"
    and room: "bn_room_upto env (max (bn_width (st a)) (bn_width (st b))) (st r)"
  shows "\<exists>v. BN_sub_signed env r a b st = (Some (), st(r := v)) \<and> bn_ok v \<and>
    bn_val v = int (bn_abs (st a)) - int (bn_abs (st b)) \<and> bn_signed v"
proof (cases "bn_abs (st a) < bn_abs (st b)")
  case True
  have "bn_room env (bn_width (st b)) (st r)" using room by (simp add: bn_room_upto_def)
  from BN_usub_exact [OF assms(1,3,2) _ this] True
  obtain v where "BN_usub env r b a st = (Some (), st(r := v))" "bn_ok v" "bn_abs v = bn_abs (st b) - bn_abs (st a)"
    by auto
  then show ?thesis using True
    by (intro exI [of _ "v\<lparr>bn_neg := True\<rparr>"]) (simp add: BN_sub_signed_def BN_ucmp_exact assms compare_nat_def set_neg_store of_nat_diff)
next
  case False
  have "bn_room env (bn_width (st a)) (st r)" using room by (simp add: bn_room_upto_def)
  from BN_usub_exact [OF assms(1,2,3) _ this] False
  obtain v where "BN_usub env r a b st = (Some (), st(r := v))" "bn_ok v" "bn_abs v = bn_abs (st a) - bn_abs (st b)"
    by auto
  then show ?thesis using False
    by (intro exI [of _ "v\<lparr>bn_neg := False\<rparr>"]) (simp add: BN_sub_signed_def BN_ucmp_exact assms compare_nat_def set_neg_store of_nat_diff)
qed

text \<open>
  \<open>bn_holds v s r st res\<close>: the operation returned 1 and changed the \<open>BIGNUM\<close> at \<open>r\<close> alone, which
  now is the integer \<open>v\<close>, and no negative zero if \<open>s\<close>.
\<close>

definition bn_holds :: "int \<Rightarrow> bool \<Rightarrow> nat \<Rightarrow> bn_store \<Rightarrow> unit option \<times> bn_store \<Rightarrow> bool" where
  "bn_holds v s r st res \<longleftrightarrow>
     (\<exists>b. res = (Some (), st(r := b)) \<and> bn_ok b \<and> bn_val b = v \<and> (s \<longrightarrow> bn_signed b))"

text \<open>C34. \<open>BN_add\<close> and \<open>BN_sub\<close> compute on integers: whatever the widths and signs of the operands,
  and also when the result is one of them or both are the same number, the call succeeds if the
  result has room, \<open>r\<close> then holds the sum or the difference, and nothing else changes; a negative
  zero never arises from operands that are none.
\<close>

theorem BN_add_sub_exact:
  assumes "bn_ok (st r)" "bn_ok (st a)" "bn_ok (st b)"
    and room: "bn_room_upto env (max (bn_width (st a)) (bn_width (st b)) + 1) (st r)"
  shows "bn_holds (bn_val (st a) + bn_val (st b)) (bn_signed (st a) \<and> bn_signed (st b)) r st (BN_add env r a b st) \<and>
    bn_holds (bn_val (st a) - bn_val (st b)) (bn_signed (st a) \<and> bn_signed (st b)) r st (BN_sub env r a b st)"
proof -
  have room': "bn_room_upto env (max (bn_width (st a)) (bn_width (st b))) (st r)"
    "bn_room_upto env (max (bn_width (st b)) (bn_width (st a))) (st r)"
    "bn_room env (max (bn_width (st a)) (bn_width (st b)) + 1) (st r)"
    using room by (auto simp: bn_room_upto_def max.commute)
  obtain u where u: "BN_uadd env r a b st = (Some (), st(r := u))" "bn_ok u" "bn_abs u = bn_abs (st a) + bn_abs (st b)"
    using BN_uadd_exact [OF assms(1-3) room'(3)] by blast
  obtain v where v: "BN_sub_signed env r a b st = (Some (), st(r := v))" "bn_ok v"
      "bn_val v = int (bn_abs (st a)) - int (bn_abs (st b))" "bn_signed v"
    using BN_sub_signed_exact [OF assms(1-3) room'(1)] by blast
  obtain w where w: "BN_sub_signed env r b a st = (Some (), st(r := w))" "bn_ok w"
      "bn_val w = int (bn_abs (st b)) - int (bn_abs (st a))" "bn_signed w"
    using BN_sub_signed_exact [OF assms(1,3,2) room'(2)] by blast
  have vals: "bn_val (st h) = (if bn_neg (st h) then - int (bn_abs (st h)) else int (bn_abs (st h)))"
    "bn_signed (st h) = (bn_neg (st h) \<longrightarrow> bn_abs (st h) \<noteq> 0)" for h
    by (simp_all add: bn_val_def bn_signed_def)
  show ?thesis
    by (cases "bn_neg (st a)"; cases "bn_neg (st b)")
      (auto simp: bn_holds_def BN_add_def BN_sub_def u v w vals set_neg_store)
qed

section \<open>Comparisons and predicates\<close>

lemma bn_val_sgn: "bn_val b = (if bn_neg b then - 1 else 1) * int (bn_abs b)"
  by (simp add: bn_val_def)

lemma compare_nat_sgn: "compare_nat x y = sgn (int x - int y)"
  by (auto simp: compare_nat_def)

lemma BN_cmp_exact:
  assumes "bn_ok a" "bn_ok b" "bn_signed a" "bn_signed b"
  shows "BN_cmp (Some a) (Some b) = sgn (bn_val a - bn_val b)"
  using assms by (auto simp: BN_cmp_def BN_ucmp_exact compare_nat_def bn_val_def bn_signed_def Let_def)

lemma BN_cmp_word_exact:
  assumes "bn_ok a" "bn_signed a"
  shows "BN_cmp_word a w = sgn (bn_val a - int (unat w))"
proof -
  let ?b = "BN_init\<lparr>bn_d := [w], bn_width := (if 0 < w then 1 else 0), bn_flags := BN_FLG_STATIC_DATA\<rparr>"
  have "bn_ok ?b" "bn_signed ?b" "bn_val ?b = int (unat w)"
    by (cases "w = 0"; simp add: bn_ok_def bn_signed_def bn_val_def bn_abs_def BN_init_def word_neq_0_conv [symmetric])+
  then show ?thesis using assms by (simp add: BN_cmp_word_def BN_cmp_exact)
qed

lemma wval_nth_eq_0: "wval ws = 0 \<longleftrightarrow> (\<forall>i < length ws. ws ! i = 0)"
  by (simp add: wval_eq_0_iff all_set_conv_all_nth)

lemma BN_equal_consttime_exact:
  assumes "bn_ok a" "bn_ok b"
  shows "BN_equal_consttime a b \<longleftrightarrow> bn_neg a = bn_neg b \<and> bn_abs a = bn_abs b"
proof -
  let ?w = "bn_width a" and ?x = "bn_width b"
  have "BN_equal_consttime a b \<longleftrightarrow> bn_neg a = bn_neg b \<and>
      (\<forall>i < max ?w ?x. (if i < ?w then bn_d a ! i else 0) = (if i < ?x then bn_d b ! i else 0))"
    by (auto simp: BN_equal_consttime_def Let_def foldl_or_eq_0 or_eq_0_iff xor_eq_0_iff max_def not_less)
  also have "(\<forall>i < max ?w ?x. (if i < ?w then bn_d a ! i else 0) = (if i < ?x then bn_d b ! i else 0)) \<longleftrightarrow> bn_abs a = bn_abs b"
  proof -
    let ?p = "take ?w (bn_d a) @ replicate (max ?w ?x - ?w) 0" and ?q = "take ?x (bn_d b) @ replicate (max ?w ?x - ?x) 0"
    have len: "length ?p = max ?w ?x" "length ?q = max ?w ?x" using assms by (simp_all add: bn_ok_def)
    have "bn_abs a = bn_abs b \<longleftrightarrow> wval ?p = wval ?q" by (simp add: wval_append bn_abs_def)
    also have "\<dots> \<longleftrightarrow> ?p = ?q" using len by (intro wval_inj) simp
    also have "\<dots> \<longleftrightarrow> (\<forall>i < max ?w ?x. ?p ! i = ?q ! i)" using len by (simp only: list_eq_iff_nth_eq) simp
    also have "\<dots> \<longleftrightarrow> (\<forall>i < max ?w ?x. (if i < ?w then bn_d a ! i else 0) = (if i < ?x then bn_d b ! i else 0))"
      using assms by (intro all_cong) (auto simp: nth_append bn_ok_def min_def)
    finally show ?thesis by simp
  qed
  finally show ?thesis .
qed

lemma BN_abs_is_word_exact: "bn_ok b \<Longrightarrow> BN_abs_is_word b w \<longleftrightarrow> bn_abs b = unat w"
proof (cases "bn_width b")
  case (Suc k)
  assume b: "bn_ok b"
  then have d: "take (bn_width b) (bn_d b) = bn_d b ! 0 # drop 1 (take (bn_width b) (bn_d b))"
    using Suc by (cases "bn_d b") (auto simp: bn_ok_def)
  have a: "bn_abs b = unat (bn_d b ! 0) + 2 ^ 64 * wval (drop 1 (take (bn_width b) (bn_d b)))"
    unfolding bn_abs_def by (subst d) simp
  have "foldl (\<lambda>msk i. msk OR bn_d b ! i) (bn_d b ! 0 XOR w) [1 ..< bn_width b] = 0 \<longleftrightarrow>
      bn_d b ! 0 = w \<and> foldl (\<lambda>msk i. msk OR bn_d b ! i) 0 [1 ..< bn_width b] = 0"
    unfolding foldl_or_eq_0 by (simp add: xor_eq_0_iff)
  also have "foldl (\<lambda>msk i. msk OR bn_d b ! i) 0 [1 ..< bn_width b] = 0 \<longleftrightarrow> wval (drop 1 (take (bn_width b) (bn_d b))) = 0"
    using b by (intro words_or_eq_0) (simp add: bn_ok_def)
  finally show ?thesis
    using Suc unat_u64_bound [of w] unat_u64_bound [of "bn_d b ! 0"] unfolding a BN_abs_is_word_def
    by (cases "wval (drop 1 (take (bn_width b) (bn_d b)))") (auto simp: word_unat_eq_iff)
qed (auto simp: BN_abs_is_word_def bn_abs_def unat_eq_0)

lemma BN_is_odd_exact: "bn_ok b \<Longrightarrow> BN_is_odd b \<longleftrightarrow> odd (bn_abs b)"
proof (cases "bn_width b")
  case (Suc k)
  assume b: "bn_ok b"
  then have d: "take (bn_width b) (bn_d b) = bn_d b ! 0 # drop 1 (take (bn_width b) (bn_d b))"
    using Suc by (cases "bn_d b") (auto simp: bn_ok_def)
  have "odd (bn_abs b) \<longleftrightarrow> odd (unat (bn_d b ! 0))" unfolding bn_abs_def by (subst d) simp
  also have "\<dots> \<longleftrightarrow> bn_d b ! 0 AND 1 = 1"
    using bit_unsigned_iff [of "bn_d b ! 0" 0, where ?'a = nat] by (simp add: bit_0 and_one_eq mod2_eq_if)
  finally show ?thesis using Suc by (simp add: BN_is_odd_def)
qed (simp add: BN_is_odd_def bn_abs_def)

lemma and_pred_pow2: "0 < x \<Longrightarrow> x AND (x - 1) = 0 \<longleftrightarrow> (\<exists>k. x = 2 ^ k)" for x :: nat
proof (induction x rule: less_induct)
  case (less x)
  show ?case
  proof (cases "even x")
    case True
    then obtain y where y: "x = 2 * y" by blast
    then have "x AND (x - 1) = 2 * (y AND (y - 1))"
      using less.prems by (subst and_rec) (cases y, auto)
    also have "\<dots> = 0 \<longleftrightarrow> (\<exists>k. y = 2 ^ k)" using less y by simp
    also have "\<dots> \<longleftrightarrow> (\<exists>k. x = 2 ^ k)"
    proof
      assume "\<exists>k. x = 2 ^ k"
      then obtain k where k: "x = 2 ^ k" by blast
      show "\<exists>k. y = 2 ^ k" using k y True by (cases k) auto
    qed (use y in \<open>auto intro: exI [of _ "Suc _"]\<close>)
    finally show ?thesis .
  next
    case False
    then obtain y where y: "x = 2 * y + 1" by (metis oddE)
    then have "x AND (x - 1) = 2 * y" by (subst and_rec) simp
    also have "\<dots> = 0 \<longleftrightarrow> (\<exists>k. x = 2 ^ k)"
    proof
      assume "\<exists>k. x = 2 ^ k"
      then obtain k where "x = 2 ^ k" by blast
      then show "2 * y = 0" using y False by (cases k) auto
    qed (use y in \<open>auto intro: exI [of _ 0]\<close>)
    finally show ?thesis .
  qed
qed


lemma u64_pred_pow2: "w \<noteq> 0 \<Longrightarrow> 0 = w AND (w - 1) \<longleftrightarrow> (\<exists>k. unat (w :: u64) = 2 ^ k)"
proof -
  assume w: "w \<noteq> 0"
  then have u: "0 < unat w" "unat (w - 1) = unat w - 1" by (simp_all add: unat_gt_0 unat_minus_one)
  have "0 = w AND (w - 1) \<longleftrightarrow> unat (w AND (w - 1)) = 0" by (metis unat_eq_0)
  also have "\<dots> \<longleftrightarrow> unat w AND (unat w - 1) = 0" by (simp only: unsigned_and_eq u(2))
  finally show ?thesis using and_pred_pow2 [OF u(1)] by simp
qed

lemma pow2_digits:
  fixes x w :: nat
  assumes "x < 2 ^ (64 * k)" "0 < w"
  shows "(\<exists>j. x + 2 ^ (64 * k) * w = 2 ^ j) \<longleftrightarrow> x = 0 \<and> (\<exists>j. w = 2 ^ j)"
proof
  assume "\<exists>j. x + 2 ^ (64 * k) * w = 2 ^ j"
  then obtain j where j: "x + 2 ^ (64 * k) * w = 2 ^ j" by blast
  have "2 ^ (64 * k) * 1 \<le> 2 ^ (64 * k) * w" using assms(2) by (intro mult_le_mono2) simp
  then have "(2 :: nat) ^ (64 * k) \<le> 2 ^ j" using j by linarith
  then have "64 * k \<le> j" by simp
  then have p: "(2 :: nat) ^ j = 2 ^ (64 * k) * 2 ^ (j - 64 * k)" by (simp flip: power_add)
  have "x = (x + 2 ^ (64 * k) * w) mod 2 ^ (64 * k)" using assms(1) by simp
  also have "\<dots> = 0" unfolding j p by simp
  finally have "x = 0" .
  then show "x = 0 \<and> (\<exists>j. w = 2 ^ j)" using j p by auto
qed (auto simp flip: power_add)

lemma BN_is_pow2_exact:
  assumes "bn_ok b" "bn_signed b"
  shows "BN_is_pow2 b \<longleftrightarrow> (\<exists>k. bn_val b = 2 ^ k)"
proof (cases "bn_minimal_width b = 0 \<or> bn_neg b")
  case True
  have "bn_val b \<le> 0" using True bn_minimal_width_0 [OF assms(1)] by (auto simp: bn_val_def)
  moreover have "(0 :: int) < 2 ^ k" for k by simp
  ultimately have "bn_val b \<noteq> 2 ^ k" for k by (metis not_less)
  then show ?thesis using True by (auto simp: BN_is_pow2_def Let_def)
next
  case False
  then obtain k where k: "bn_minimal_width b = Suc k" by (cases "bn_minimal_width b") auto
  let ?w = "bn_d b ! k"
  have w: "?w \<noteq> 0" and len: "k < length (bn_d b)"
    using bn_minimal_width_exact(1,3) [OF assms(1)] k assms(1) by (auto simp: bn_ok_def)
  have v: "bn_abs b = wval (take k (bn_d b)) + 2 ^ (64 * k) * unat ?w"
    using bn_minimal_width_exact(2) [OF assms(1)] wval_take_Suc [OF len] k by simp
  have low: "wval (take k (bn_d b)) < 2 ^ (64 * k)" using wval_bound [of "take k (bn_d b)"] len by simp
  have "(\<exists>i \<in> set [0 ..< k]. bn_d b ! i \<noteq> 0) \<longleftrightarrow> wval (take k (bn_d b)) \<noteq> 0"
    using len by (auto simp: wval_nth_eq_0)
  then have "BN_is_pow2 b \<longleftrightarrow> wval (take k (bn_d b)) = 0 \<and> (\<exists>j. unat ?w = 2 ^ j)"
    using False k u64_pred_pow2 [OF w] by (simp add: BN_is_pow2_def Let_def)
  also have "\<dots> \<longleftrightarrow> (\<exists>j. bn_abs b = 2 ^ j)"
    using w unfolding v by (subst pow2_digits [OF low]) (simp_all add: unat_gt_0)
  also have "\<dots> \<longleftrightarrow> (\<exists>j. bn_val b = 2 ^ j)"
    using False by (simp add: bn_val_def)
  finally show ?thesis .
qed

text \<open>C37. The comparisons and the predicates are those of integers: \<open>BN_cmp\<close> and \<open>BN_cmp_word\<close> give
  the sign of the difference, the equality test that runs in constant time is equality, and the
  tests for zero, one, a word, an odd number and a power of two and the bit length say what they
  are named after. \<open>BN_cmp\<close>'s caller must not hand it a negative zero.
\<close>

theorem BN_compare_exact:
  assumes "bn_ok a" "bn_ok b" "bn_signed a" "bn_signed b"
  shows "BN_cmp (Some a) (Some b) = sgn (bn_val a - bn_val b) \<and>
    BN_cmp_word a w = sgn (bn_val a - int (unat w)) \<and>
    (BN_equal_consttime a b \<longleftrightarrow> bn_val a = bn_val b) \<and>
    (BN_is_zero a \<longleftrightarrow> bn_val a = 0) \<and> (BN_is_one a \<longleftrightarrow> bn_val a = 1) \<and>
    (BN_is_word a w \<longleftrightarrow> bn_val a = int (unat w)) \<and> (BN_is_odd a \<longleftrightarrow> odd (bn_val a)) \<and>
    (BN_is_pow2 a \<longleftrightarrow> (\<exists>k. bn_val a = 2 ^ k)) \<and> BN_num_bits a = floorlog 2 (nat \<bar>bn_val a\<bar>)"
proof (intro conjI)
  show "BN_equal_consttime a b \<longleftrightarrow> bn_val a = bn_val b"
    using assms by (auto simp: BN_equal_consttime_exact bn_val_def bn_signed_def)
  show "BN_is_one a \<longleftrightarrow> bn_val a = 1"
    using assms by (auto simp: BN_is_one_def BN_abs_is_word_exact bn_val_def)
  show "BN_is_word a w \<longleftrightarrow> bn_val a = int (unat w)"
  proof -
    define n where "n = unat w"
    have "w = 0 \<longleftrightarrow> n = 0" by (simp add: n_def unat_eq_0)
    then show ?thesis
      using assms unfolding BN_is_word_def BN_abs_is_word_exact [OF assms(1)] n_def [symmetric]
      by (auto simp: bn_val_def bn_signed_def)
  qed
  show "BN_is_odd a \<longleftrightarrow> odd (bn_val a)" using assms by (simp add: BN_is_odd_exact bn_val_def)
  show "BN_num_bits a = floorlog 2 (nat \<bar>bn_val a\<bar>)" using assms by (simp add: BN_num_bits_exact bn_val_def)
qed (use assms in \<open>auto simp: BN_cmp_exact BN_cmp_word_exact BN_is_pow2_exact BN_is_zero_exact bn_val_def\<close>)

section \<open>Adding and subtracting a word\<close>

lemma wval_update:
  "i < length ws \<Longrightarrow> wval (ws[i := w]) + 2 ^ (64 * i) * unat (ws ! i) = wval ws + 2 ^ (64 * i) * unat w"
proof (induction ws arbitrary: i)
  case (Cons x ws)
  show ?case
  proof (cases i)
    case (Suc j)
    have "wval (ws[j := w]) + 2 ^ (64 * j) * unat (ws ! j) = wval ws + 2 ^ (64 * j) * unat w"
      using Cons Suc by simp
    from arg_cong [OF this, where f = "\<lambda>n. 2 ^ 64 * n"] show ?thesis
      unfolding Suc by (simp add: distrib_left power_add ac_simps)
  qed simp
qed simp

lemma add_word_loop_exact:
  assumes "i \<le> n" "n \<le> length d" "add_word_loop n d i w = (d', i', w')"
  shows "length d' = length d \<and> (w' \<noteq> 0 \<longrightarrow> i' = n) \<and>
    wval (take n d') + 2 ^ (64 * n) * unat w' = wval (take n d) + 2 ^ (64 * i) * unat w"
  using assms
proof (induction n d i w rule: add_word_loop.induct)
  case (1 n d i w)
  show ?case
  proof (cases "w \<noteq> 0 \<and> i < n")
    case True
    let ?l = "d ! i + w" and ?c = "if d ! i + w < w then 1 else 0 :: u64"
    have next': "add_word_loop n (d[i := ?l]) (i + 1) ?c = (d', i', w')"
      using "1.prems"(3) True by (simp add: add_word_loop.simps [of n d] Let_def)
    have "unat ?l = (if unat (d ! i) + unat w < 2 ^ 64 then unat (d ! i) + unat w else unat (d ! i) + unat w - 2 ^ 64)"
      by (simp add: unat_plus_if')
    then have s: "unat ?l + 2 ^ 64 * unat ?c = unat (d ! i) + unat w"
      using unat_u64_bound [of w] unat_u64_bound [of "d ! i"] by (auto simp: word_less_nat_alt split: if_splits)
    have u: "wval (take n (d[i := ?l])) + 2 ^ (64 * i) * unat (d ! i) = wval (take n d) + 2 ^ (64 * i) * unat ?l"
      using wval_update [of i "take n d" ?l] "1.prems"(1,2) True by (simp add: take_update_swap)
    have "wval (take n (d[i := ?l])) + 2 ^ (64 * (i + 1)) * unat ?c + 2 ^ (64 * i) * unat (d ! i) =
        wval (take n d) + 2 ^ (64 * i) * (unat ?l + 2 ^ 64 * unat ?c)"
      using u by (simp add: distrib_left power_add)
    then have "wval (take n (d[i := ?l])) + 2 ^ (64 * (i + 1)) * unat ?c = wval (take n d) + 2 ^ (64 * i) * unat w"
      unfolding s by (simp add: distrib_left)
    then show ?thesis using "1.IH" [OF True refl _ _ next'] "1.prems" True by simp
  qed (use "1.prems" in \<open>auto simp: add_word_loop.simps [of n d]\<close>)
qed

lemma sub_word_loop_exact:
  assumes "n \<le> length d" "0 < unat w" "2 ^ (64 * i) * unat w \<le> 2 ^ (64 * i) * wval (drop i (take n d))" "sub_word_loop d i w = (d', i')"
  shows "length d' = length d \<and> i' < n \<and> wval (take n d') + 2 ^ (64 * i) * unat w = wval (take n d)"
  using assms
proof (induction d i w rule: sub_word_loop.induct)
  case (1 d i w)
  have le: "unat w \<le> wval (drop i (take n d))" using "1.prems"(3) by simp
  then have i: "i < n" using "1.prems"(1,2) by (cases "i < n") simp_all
  then have dr: "drop i (take n d) = d ! i # drop (Suc i) (take n d)"
    using "1.prems"(1) Cons_nth_drop_Suc [of i "take n d"] by simp
  let ?l = "d ! i - w"
  have u: "wval (take n (d[i := ?l])) + 2 ^ (64 * i) * unat (d ! i) = wval (take n d) + 2 ^ (64 * i) * unat ?l"
    using wval_update [of i "take n d" ?l] "1.prems"(1) i by (simp add: take_update_swap)
  show ?case
  proof (cases "w \<le> d ! i")
    case True
    then have "unat (d ! i) = unat ?l + unat w" by (simp add: unat_sub word_le_nat_alt)
    then have "wval (take n (d[i := ?l])) + 2 ^ (64 * i) * unat w = wval (take n d)" using u by (simp add: distrib_left)
    then show ?thesis using "1.prems" i True by (auto simp: sub_word_loop.simps [of d])
  next
    case False
    then have "unat ?l = unat (d ! i) + 2 ^ 64 - unat w"
      by (simp add: unat_sub_if' word_le_nat_alt)
    then have s: "unat ?l + unat w = unat (d ! i) + 2 ^ 64" using unat_u64_bound [of w] by simp
    have lt: "unat (d ! i) < unat w" using False by (simp add: word_le_nat_alt)
    then have "0 < wval (drop (Suc i) (take n d))" using le unfolding dr by (cases "wval (drop (Suc i) (take n d))") simp_all
    then have pre: "2 ^ (64 * (i + 1)) * unat (1 :: u64) \<le> 2 ^ (64 * (i + 1)) * wval (drop (i + 1) (take n (d[i := ?l])))"
      by (simp add: take_update_swap drop_update_cancel)
    have next': "sub_word_loop (d[i := ?l]) (i + 1) 1 = (d', i')"
      using "1.prems"(1,4) i False by (simp add: sub_word_loop.simps [of d])
    have "\<not> length d \<le> i" using "1.prems"(1) i by simp
    from "1.IH" [OF this False _ _ pre next'] "1.prems"(1)
    have r: "length d' = length d" "i' < n" "wval (take n d') + 2 ^ (64 * (i + 1)) = wval (take n (d[i := ?l]))" by simp_all
    have "wval (take n d') + 2 ^ (64 * i) * unat w + 2 ^ (64 * i) * unat (d ! i) + 2 ^ (64 * (i + 1)) =
        wval (take n d) + 2 ^ (64 * i) * (unat ?l + unat w)"
      using u r(3) by (simp add: distrib_left)
    then have "wval (take n d') + 2 ^ (64 * i) * unat w = wval (take n d)"
      unfolding s by (simp add: distrib_left power_add)
    then show ?thesis using r by simp
  qed
qed

lemma BN_set_word_exact:
  assumes "bn_ok a" "bn_room env 1 a"
  shows "\<exists>v. BN_set_word env w a = (Some (), v) \<and> bn_ok v \<and> bn_val v = int (unat w) \<and> bn_signed v \<and> bn_abs v = unat w"
proof (cases "w = 0")
  case True
  then show ?thesis using assms
    by (auto simp: BN_set_word_def BN_zero_def bn_ok_def bn_val_def bn_abs_def bn_signed_def)
next
  case False
  let ?g = "bn_grow env 1 a"
  have "1 \<le> bn_dmax ?g" using bn_grow_d [OF assms] by simp
  then have "take 1 ((bn_d ?g)[0 := w]) = [w]" by (cases "bn_d ?g") auto
  then show ?thesis using False bn_grow_d [OF assms] assms
    by (auto simp: BN_set_word_def bn_wexpand_eq bn_ok_def bn_val_def bn_abs_def bn_signed_def)
qed


lemma bn_abs_0_neg: "bn_abs a = 0 \<Longrightarrow> bn_val a = 0"
  by (simp add: bn_val_def)

lemma bn_val_pos: "0 < bn_val b \<Longrightarrow> \<not> bn_neg b \<and> int (bn_abs b) = bn_val b"
  by (auto simp: bn_val_def split: if_splits)

lemma BN_add_word_pos:
  assumes a: "bn_ok a" "\<not> bn_neg a" and room: "bn_room_upto env (bn_width a + 1) a"
  shows "\<exists>v. BN_add_word env w a = (Some (), v) \<and> bn_ok v \<and> bn_val v = bn_val a + int (unat w) \<and> bn_signed v"
proof -
  have room1: "bn_room env 1 a" and roomn: "bn_room env (bn_width a + 1) a" using room by (auto simp: bn_room_upto_def)
  consider "w = 0" | "w \<noteq> 0" "bn_abs a = 0" | "w \<noteq> 0" "bn_abs a \<noteq> 0" by blast
  then show ?thesis
  proof cases
    case 2
    then show ?thesis using a BN_set_word_exact [OF a(1) room1, of w]
      by (auto simp: BN_add_word.simps BN_is_zero_exact bn_abs_0_neg)
  next
    case 3
    obtain d i w' where l: "add_word_loop (bn_width a) (bn_d a) 0 w = (d, i, w')" by (metis prod_cases3)
    have e: "length d = length (bn_d a)" "w' \<noteq> 0 \<Longrightarrow> i = bn_width a"
      "wval (take (bn_width a) d) + 2 ^ (64 * bn_width a) * unat w' = bn_abs a + unat w"
      using add_word_loop_exact [OF _ _ l] a(1) by (simp_all add: bn_ok_def bn_abs_def)
    let ?a = "a\<lparr>bn_d := d\<rparr>"
    have ok: "bn_ok ?a" using a(1) e(1) by (simp add: bn_ok_def)
    show ?thesis
    proof (cases "w' = 0")
      case True
      then show ?thesis using 3 a e ok
        by (simp add: BN_add_word.simps [of env w a] BN_is_zero_exact l bn_val_def bn_abs_def bn_signed_def)
    next
      case False
      have r: "bn_room env (bn_width a + 1) ?a" using roomn e(1) by (simp add: bn_room_def)
      let ?g = "bn_grow env (bn_width a + 1) ?a"
      let ?v = "?g\<lparr>bn_width := bn_width a + 1, bn_d := (bn_d ?g)[bn_width a := w']\<rparr>"
      have g: "bn_ok ?g" "bn_width a + 1 \<le> bn_dmax ?g" "take (bn_width a) (bn_d ?g) = take (bn_width a) d"
        using bn_grow_d [OF ok r] by simp_all
      have "bn_abs ?v = wval (take (bn_width a) ((bn_d ?g)[bn_width a := w'])) + 2 ^ (64 * bn_width a) * unat w'"
        using g(2) by (simp add: bn_abs_def wval_take_Suc)
      also have "\<dots> = bn_abs a + unat w" using g(3) e(3) by simp
      finally have "bn_abs ?v = bn_abs a + unat w" .
      moreover have "bn_ok ?v" using g by (simp add: bn_ok_def)
      moreover have "BN_add_word env w a = (Some (), ?v)"
        using 3 a e(2) False r by (simp add: BN_add_word.simps [of env w a] BN_is_zero_exact l bn_wexpand_eq Let_def)
      ultimately show ?thesis using a by (auto simp: bn_val_def bn_signed_def)
    qed
  qed (use a in \<open>simp add: BN_add_word.simps bn_signed_def\<close>)
qed

lemma BN_sub_word_pos:
  assumes a: "bn_ok a" "\<not> bn_neg a" and room: "bn_room env 1 a"
  shows "\<exists>v. BN_sub_word env w a = (Some (), v) \<and> bn_ok v \<and> bn_val v = bn_val a - int (unat w) \<and> bn_signed v"
proof -
  consider "w = 0" | "w \<noteq> 0" "bn_abs a = 0" | "w \<noteq> 0" "bn_abs a \<noteq> 0" by blast
  then show ?thesis
  proof cases
    case 2
    obtain v where v: "BN_set_word env w a = (Some (), v)" "bn_ok v" "bn_val v = int (unat w)" "bn_signed v" "bn_abs v = unat w"
      using BN_set_word_exact [OF a(1) room, of w] by blast
    then show ?thesis using 2 a v
      by (simp add: BN_sub_word.simps BN_is_zero_exact bn_abs_0_neg BN_set_negative_def unat_gt_0)
  next
    case 3
    have mw: "0 < bn_minimal_width a" using 3 bn_minimal_width_0 [OF a(1)] by simp
    have le: "bn_minimal_width a \<le> bn_width a" "bn_width a \<le> bn_dmax a"
      using bn_minimal_width_exact(1) [OF a(1)] a(1) by (simp_all add: bn_ok_def)
    have "0 < length (bn_d a)" using le mw by linarith
    note one = wval_take_Suc [OF this]
    show ?thesis
    proof (cases "bn_minimal_width a = 1 \<and> bn_d a ! 0 < w")
      case True
      let ?v = "a\<lparr>bn_d := (bn_d a)[0 := w - bn_d a ! 0], bn_neg := True\<rparr>"
      have a0: "bn_abs a = unat (bn_d a ! 0)"
        using bn_minimal_width_exact(2) [OF a(1)] True one by simp
      have "unat (w - bn_d a ! 0) = unat w - unat (bn_d a ! 0)" using True by (simp add: unat_sub less_imp_le)
      moreover have "bn_abs ?v + unat (bn_d a ! 0) = bn_abs a + unat (w - bn_d a ! 0)"
        using wval_update [of 0 "take (bn_width a) (bn_d a)" "w - bn_d a ! 0"] le mw
        by (simp add: bn_abs_def take_update_swap)
      moreover have lt: "unat (bn_d a ! 0) < unat w" using True by (simp add: word_less_nat_alt)
      ultimately have v: "bn_abs ?v = unat w - bn_abs a" using a0 by simp
      have "bn_ok ?v" using a(1) by (simp add: bn_ok_def)
      moreover have "BN_sub_word env w a = (Some (), ?v)"
        using 3 True a by (simp add: BN_sub_word.simps [of env w a] BN_is_zero_exact)
      moreover have "bn_val ?v = bn_val a - int (unat w)" "bn_signed ?v"
        using v a lt a0 by (simp_all add: bn_val_def bn_signed_def of_nat_diff del: of_nat_unat)
      ultimately show ?thesis by blast
    next
      case False
      have big: "unat w \<le> bn_abs a"
      proof (cases "bn_minimal_width a = 1")
        case True
        then have "bn_abs a = unat (bn_d a ! 0)"
          using bn_minimal_width_exact(2) [OF a(1)] one by simp
        then show ?thesis using False True by (simp add: word_less_nat_alt)
      next
        case n1: False
        define k where "k = bn_minimal_width a - 1"
        have k: "bn_minimal_width a = Suc k" "1 \<le> k" "k < length (bn_d a)" using mw n1 le by (auto simp: k_def)
        have "bn_d a ! k \<noteq> 0" using bn_minimal_width_exact(3) [OF a(1)] k by simp
        then have "1 \<le> unat (bn_d a ! k)" by (simp add: unat_gt_0 Suc_le_eq)
        then have "2 ^ (64 * k) * 1 \<le> 2 ^ (64 * k) * unat (bn_d a ! k)" by (rule mult_le_mono2)
        also have "\<dots> \<le> bn_abs a"
          using bn_minimal_width_exact(2) [OF a(1)] wval_take_Suc [OF k(3)] k(1) by simp
        finally have "2 ^ (64 * k) \<le> bn_abs a" by simp
        moreover have "(2 :: nat) ^ 64 \<le> 2 ^ (64 * k)" using k(2) by (intro power_increasing) simp_all
        ultimately show ?thesis using unat_u64_bound [of w] by linarith
      qed
      obtain d i where l: "sub_word_loop (bn_d a) 0 w = (d, i)" by fastforce
      have e: "length d = length (bn_d a)" "i < bn_width a" "wval (take (bn_width a) d) + unat w = bn_abs a"
        using sub_word_loop_exact [OF le(2) _ _ l] big 3 by (simp_all add: bn_abs_def unat_gt_0)
      let ?a = "a\<lparr>bn_d := d\<rparr>"
      let ?v = "if d ! i = 0 \<and> i = bn_width a - 1 then ?a\<lparr>bn_width := bn_width a - 1\<rparr> else ?a"
      have "bn_abs ?v = wval (take (bn_width a) d)"
      proof (cases "d ! i = 0 \<and> i = bn_width a - 1")
        case True
        then have "Suc i = bn_width a" using e(2) by simp
        then show ?thesis using True wval_take_Suc [of i d] e(1,2) le by (simp add: bn_abs_def)
      qed (auto simp: bn_abs_def)
      then have v: "bn_abs ?v = bn_abs a - unat w" using e(3) by simp
      have "bn_ok ?v" using a(1) e(1) by (auto simp: bn_ok_def)
      moreover have "BN_sub_word env w a = (Some (), ?v)"
        using 3 a unfolding BN_sub_word.simps [of env w a] if_not_P [OF False]
        by (auto simp: BN_is_zero_exact l Let_def)
      moreover have "bn_val ?v = bn_val a - int (unat w)" "bn_signed ?v"
        using v a big by (simp_all add: bn_val_def bn_signed_def of_nat_diff del: of_nat_unat)
      ultimately show ?thesis by blast
    qed
  qed (use a in \<open>simp add: BN_sub_word.simps bn_signed_def\<close>)
qed

text \<open>C38. Adding or subtracting a word computes on integers too, through zero and through the change of
  sign: \<open>BN_add_word\<close> and \<open>BN_sub_word\<close>, which call each other on negative numbers, succeed when there is room
  and leave the sum or the difference, no negative zero; the borrow loop never leaves the number's words.
\<close>

theorem BN_add_sub_word_exact:
  assumes "bn_ok a" "bn_signed a" and room: "bn_room_upto env (bn_width a + 1) a"
  shows "(\<exists>v. BN_add_word env w a = (Some (), v) \<and> bn_ok v \<and> bn_signed v \<and> bn_val v = bn_val a + int (unat w)) \<and>
    (\<exists>v. BN_sub_word env w a = (Some (), v) \<and> bn_ok v \<and> bn_signed v \<and> bn_val v = bn_val a - int (unat w))"
proof (cases "bn_neg a \<and> w \<noteq> 0")
  case False
  have "bn_room env 1 a" using room by (simp add: bn_room_upto_def)
  then show ?thesis
    using assms(1) False BN_add_word_pos [OF assms(1) _ room, of w] BN_sub_word_pos [OF assms(1), of env w] assms(2)
      BN_add_word.simps [of env 0 a] BN_sub_word.simps [of env 0 a]
    by (cases "w = 0") auto
next
  case True
  let ?a = "a\<lparr>bn_neg := False\<rparr>"
  have a: "bn_ok ?a" "\<not> bn_neg ?a" "bn_val ?a = - bn_val a" using assms(1) True by (simp_all add: bn_val_def)
  have r: "bn_room env k ?a = bn_room env k a" for k by (simp add: bn_room_def)
  have r1: "bn_room env 1 ?a" "bn_room_upto env (bn_width ?a + 1) ?a"
    using room by (simp_all add: r bn_room_upto_def)
  have nz: "\<not> BN_is_zero a" using assms True by (simp add: BN_is_zero_exact bn_signed_def)
  obtain u where u: "BN_add_word env w ?a = (Some (), u)" "bn_ok u" "bn_val u = - bn_val a + int (unat w)" "bn_signed u"
    using BN_add_word_pos [OF a(1,2) r1(2), of w] unfolding a(3) by blast
  obtain v where v: "BN_sub_word env w ?a = (Some (), v)" "bn_ok v" "bn_val v = - bn_val a - int (unat w)" "bn_signed v"
    using BN_sub_word_pos [OF a(1,2) r1(1), of w] unfolding a(3) by blast
  have "BN_add_word env w a = (Some (), if bn_abs v \<noteq> 0 then v\<lparr>bn_neg := \<not> bn_neg v\<rparr> else v)"
    using True nz v(1,2) by (simp add: BN_add_word.simps [of env w a] BN_is_zero_exact)
  moreover have "BN_sub_word env w a = (Some (), u\<lparr>bn_neg := True\<rparr>)"
    using True nz u(1) by (simp add: BN_sub_word.simps [of env w a])
  moreover have neg: "bn_val a < 0" using True assms(2) by (auto simp: bn_val_def bn_signed_def)
  have "0 < bn_val u" using u(3) neg by linarith
  then have "int (bn_abs u) = - bn_val a + int (unat w)" "bn_abs u \<noteq> 0"
    using bn_val_pos [of u] u(3) by auto
  ultimately show ?thesis using u v
    by (auto simp: bn_val_def [of v] bn_signed_def [of v] split: if_splits)
qed

section \<open>Shifts\<close>

lemma or_disjoint_add: "push_bit k v OR drop_bit (64 - k) l = push_bit k v + drop_bit (64 - k) (l :: u64)"
proof (rule disjunctive_add [symmetric])
  show "\<not> bit (push_bit k v) i \<or> \<not> bit (drop_bit (64 - k) l) i" for i
    by (auto simp: bit_simps dest!: bit_imp_le_length)
qed

lemma lshift_step:
  assumes k: "k < 64" and w: "W = words_of (Suc n) (V * 2 ^ k)"
  shows "words_of (Suc (Suc n)) ((unat l + 2 ^ 64 * V) * 2 ^ k) =
    push_bit k l # (hd W OR (if k = 0 then 0 else drop_bit (64 - k) l)) # tl W"
proof -
  have p: "(2 :: nat) ^ 64 = 2 ^ k * 2 ^ (64 - k)" using k by (simp flip: power_add)
  define e where "e = unat l div 2 ^ (64 - k)"
  have "unat l * 2 ^ k div 2 ^ 64 = e" unfolding p e_def by (simp add: mult.commute [of "unat l"])
  then have d1: "(unat l + 2 ^ 64 * V) * 2 ^ k div 2 ^ 64 = V * 2 ^ k + e"
    by (simp add: distrib_right mult.assoc)
  have e: "e < 2 ^ k" using unat_u64_bound [of l] p unfolding e_def by (intro less_mult_imp_div_less) simp
  have d2: "(V * 2 ^ k + e) div 2 ^ 64 = V * 2 ^ k div 2 ^ 64"
    unfolding p using e by (simp add: div_mult2_eq)
  have w0: "of_nat ((unat l + 2 ^ 64 * V) * 2 ^ k) = push_bit k l"
  proof -
    have "of_nat (unat l * 2 ^ k + 2 ^ 64 * (V * 2 ^ k)) = (of_nat (unat l * 2 ^ k) :: u64)"
      by (simp only: word_unat_eq_iff unat_of_nat_u64 mod_mult_self2)
    moreover have "(unat l + 2 ^ 64 * V) * 2 ^ k = unat l * 2 ^ k + 2 ^ 64 * (V * 2 ^ k)"
      by (simp only: distrib_right mult.assoc)
    moreover have "of_nat (unat l * 2 ^ k) = push_bit k l" by (simp add: push_bit_eq_mult)
    ultimately show ?thesis by simp
  qed
  have w1: "of_nat (V * 2 ^ k + e) = (of_nat (V * 2 ^ k) OR (if k = 0 then 0 else drop_bit (64 - k) l) :: u64)"
  proof (cases "k = 0")
    case True
    then show ?thesis using e by simp
  next
    case False
    have "of_nat e = drop_bit (64 - k) l" by (rule unat_eq_of_nat [symmetric]) (simp add: e_def unat_drop_bit)
    moreover have "of_nat (V * 2 ^ k) = push_bit k (of_nat V :: u64)" by (simp add: push_bit_eq_mult)
    ultimately show ?thesis using False by (simp only: of_nat_add or_disjoint_add if_False)
  qed
  show ?thesis unfolding w words_of.simps list.sel d1 d2 w0 w1 ..
qed

lemma wget_hd: "wvalid m p (Suc (length ws)) \<Longrightarrow> wget (wstore m p (w # ws)) p = w"
  by (simp add: wget_def wstore_def wvalid_def mem_write_nth)

lemma wput_hd: "wvalid m p (Suc (length ws)) \<Longrightarrow> wput (wstore m p (w # ws)) p v = wstore m p (v # ws)"
  by (rule wmem_eqI) (auto simp: wstore_def wput_def wvalid_def mem_write_nth nth_Cons' nth_list_update)

lemma wput_before: "wvalid m p (Suc (length ws)) \<Longrightarrow> wput (wstore m (padd p 1) ws) p v = wstore m p (v # ws)"
  by (rule wmem_eqI) (auto simp: wstore_def wput_def wvalid_def mem_write_nth nth_Cons' nth_list_update)

text \<open>
  When the words from index \<open>k\<close> on have been shifted, the target holds the shifted rest of the
  number from there on.
\<close>

lemma lshift_loop:
  assumes valid: "wvalid m t (n + nw + 1)" "wvalid m f n" and same: "fst t \<noteq> fst f \<or> snd t = snd f"
    and lb: "lb < 64" and k: "k \<le> n"
  defines "step \<equiv> if lb = 0 then (\<lambda>m i. wput m (padd t (nw + i)) (wget m (padd f i)))
      else (\<lambda>m i. let l = wget m (padd f i);
                   m = wput m (padd t (nw + i + 1)) (wget m (padd t (nw + i + 1)) OR drop_bit (64 - lb) l)
               in wput m (padd t (nw + i)) (push_bit lb l))"
  shows "foldl step (wput m (padd t (n + nw)) 0) (rev [k ..< n]) =
    wstore m (padd t (nw + k)) (words_of (Suc (n - k)) (wval (drop k (wload m f n)) * 2 ^ lb))"
  using k
proof (induction "n - k" arbitrary: k)
  case 0
  then have "drop k (wload m f n) = []" using valid(2) by simp
  then show ?case using 0 valid(1) wstore_snoc [of m "padd t (n + nw)" "[]" 0]
    by (simp add: wvalid_def ac_simps)
next
  case (Suc j)
  then have k: "k < n" "j = n - Suc k" "Suc k \<le> n" by simp_all
  let ?F = "wload m f n" and ?p = "padd t (nw + Suc k)"
  define V where "V = wval (drop (Suc k) ?F)"
  define W where "W = words_of (Suc j) (V * 2 ^ lb)"
  let ?M = "wstore m ?p W"
  have IH: "foldl step (wput m (padd t (n + nw)) 0) (rev [Suc k ..< n]) = ?M"
    using Suc.hyps(1) [OF k(2,3)] unfolding k(2) [symmetric] V_def W_def by simp
  have len: "length ?F = n" using valid(2) by simp
  have lW: "length W = Suc j" by (simp add: W_def)
  obtain x xs where W: "W = x # xs" "length xs = j" using lW by (cases W) auto
  have vp: "wvalid m ?p (length W)" "wvalid m ?p (Suc (length xs))" "wvalid m (padd t (nw + k)) (Suc (length W))"
    using valid(1) k W by (auto simp: wvalid_def)
  define l where "l = wget ?M (padd f k)"
  have "l = wget m (padd f k)" unfolding l_def
    using same valid(2) k vp(1) by (intro wget_wstore_apart) (auto simp: apart_def wvalid_def)
  then have l: "l = ?F ! k" using valid(2) k by (simp add: wload_map)
  have dr: "drop k ?F = l # drop (Suc k) ?F" using len k l by (simp add: Cons_nth_drop_Suc)
  have goal: "words_of (Suc (n - k)) (wval (drop k ?F) * 2 ^ lb) =
      push_bit lb l # (x OR (if lb = 0 then 0 else drop_bit (64 - lb) l)) # xs"
    using lshift_step [OF lb W_def, of l] k W(1) unfolding dr by (simp add: V_def Suc_diff_Suc)
  have lM: "wget (wstore m ?p (x # xs)) (padd f k) = l" by (simp only: l_def W(1))
  have up: "[k ..< n] = k # [Suc k ..< n]" using k by (simp add: upt_conv_Cons)
  have "foldl step (wput m (padd t (n + nw)) 0) (rev [k ..< n]) = step ?M k"
    unfolding up by (simp add: IH)
  also have "\<dots> = wstore m (padd t (nw + k)) (push_bit lb l # (x OR (if lb = 0 then 0 else drop_bit (64 - lb) l)) # xs)"
  proof (cases "lb = 0")
    case True
    then show ?thesis using wput_before [OF vp(3), of l] W(1) lM by (simp add: step_def ac_simps)
  next
    case False
    have "wput (wstore m ?p (x # xs)) ?p (x OR drop_bit (64 - lb) l) = wstore m ?p ((x OR drop_bit (64 - lb) l) # xs)"
      by (rule wput_hd [OF vp(2)])
    moreover have "wget ?M ?p = x" unfolding W(1) by (rule wget_hd [OF vp(2)])
    moreover have "wput (wstore m (padd (padd t (nw + k)) 1) ((x OR drop_bit (64 - lb) l) # xs)) (padd t (nw + k)) (push_bit lb l) =
        wstore m (padd t (nw + k)) (push_bit lb l # (x OR drop_bit (64 - lb) l) # xs)"
      using vp(3) W by (intro wput_before) simp
    ultimately show ?thesis using False W(1) lM by (simp add: step_def Let_def ac_simps)
  qed
  finally show ?case unfolding goal .
qed

lemma lshift_words_exact:
  assumes valid: "wvalid m t (n + nw + 1)" "wvalid m f n" and same: "fst t \<noteq> fst f \<or> snd t = snd f"
    and lb: "lb < 64"
  shows "lshift_words m t f n nw lb = wstore m t (words_of (n + nw + 1) (wval (wload m f n) * 2 ^ (64 * nw + lb)))"
proof -
  let ?v = "wval (wload m f n)"
  have "lshift_words m t f n nw lb =
      wstore (wstore m (padd t nw) (words_of (Suc n) (?v * 2 ^ lb))) t (replicate nw 0)"
    using lshift_loop [OF assms, of 0] by (auto simp: lshift_words_def Let_def)
  also have "\<dots> = wstore m t (replicate nw 0 @ words_of (Suc n) (?v * 2 ^ lb))"
    using valid(1) by (intro wmem_eqI) (auto simp: wstore_def wvalid_def mem_write_nth nth_append)
  also have "replicate nw 0 @ words_of (Suc n) (?v * 2 ^ lb) = words_of (nw + Suc n) (?v * 2 ^ (64 * nw + lb))"
    unfolding words_of_add by (rule arg_cong2 [where f = append]) (simp_all add: power_add ac_simps words_ofI)
  finally show ?thesis by (simp add: ac_simps)
qed


lemma grown_operand0:
  assumes "bn_ok (st r)" "bn_ok (st a)" "bn_room env n (st r)" "st' = st(r := bn_grow env n (st r))"
    "w = bn_width (st a)"
  shows "wvalid (bn_words st') (a, 0) w" "wval (wload (bn_words st') (a, 0) w) = bn_abs (st a)"
    "wvalid (bn_words st') (r, 0) n"
proof -
  have "st' = st(r := (bn_grow env n (st r))\<lparr>bn_width := bn_width (st r)\<rparr>)"
    unfolding assms(4) by (rule ext) simp
  note g = grown_operand [OF assms(1-3) this assms(5)]
  show "wvalid (bn_words st') (a, 0) w" "wval (wload (bn_words st') (a, 0) w) = bn_abs (st a)"
    "wvalid (bn_words st') (r, 0) n" by (fact g)+
qed

lemma bn_room_neg [simp]: "bn_room env n (b\<lparr>bn_neg := s\<rparr>) = bn_room env n b"
  by (simp add: bn_room_def)

lemma bn_with_width: "b\<lparr>bn_d := mem_write (bn_d b) 0 ws, bn_width := n\<rparr> = bn_with ws b" if "length ws = n"
  using that by (simp add: bn_with_def bn_d_width_update)

lemma bn_with_words_of:
  assumes "bn_ok b" "n \<le> bn_dmax b" "v < 2 ^ (64 * n)"
  shows "bn_ok (bn_with (words_of n v) b)" "bn_abs (bn_with (words_of n v) b) = v"
    "bn_neg (bn_with (words_of n v) b) = bn_neg b" "bn_width (bn_with (words_of n v) b) = n"
  using assms by (simp_all add: bn_with_exact)

lemma BN_lshift_exact:
  assumes "bn_ok (st r)" "bn_ok (st a)" "0 \<le> n"
    and room: "bn_room env (bn_width (st a) + nat n div 64 + 1) (st r)"
  shows "bn_holds (bn_val (st a) * 2 ^ nat n) True r st (BN_lshift env r a n st)"
proof -
  let ?w = "bn_width (st a)" and ?nw = "nat n div 64" and ?lb = "nat n mod 64"
  let ?n = "?w + ?nw + 1"
  define s where "s = set_neg r (bn_neg (st a)) st"
  have ok0: "bn_ok (s r)" "bn_ok (s a)" "bn_room env ?n (s r)" and w0: "bn_width (s a) = ?w" "bn_abs (s a) = bn_abs (st a)"
    and s: "bn_neg (s r) = bn_neg (st a)" "s(r := b) = st(r := b)" for b
    using assms by (simp_all add: s_def set_neg_def)
  note g = grown_operand0 [OF ok0(1-3) refl w0(1) [symmetric]]
  have sh: "64 * ?nw + ?lb = nat n" by simp
  have run': "lshift_words (bn_words (s(r := bn_grow env ?n (s r)))) (r, 0) (a, 0) ?w ?nw ?lb =
      wstore (bn_words (s(r := bn_grow env ?n (s r)))) (r, 0) (words_of ?n (bn_abs (st a) * 2 ^ nat n))"
    using g w0 by (subst lshift_words_exact) (auto simp: sh)
  define b where "b = bn_with (words_of ?n (bn_abs (st a) * 2 ^ nat n)) (bn_grow env ?n (s r))"
  have run: "BN_lshift env r a n st = (Some (), st(r := bn_set_minimal_width b))"
    using assms(3) ok0(3) run'
    by (simp add: BN_lshift_def Let_def s_def [symmetric] w0(1) at_bn_wexpand set_bn_words_store bn_with_width s(2) b_def del: words_of.simps)
  have "bn_abs (st a) * 2 ^ nat n < 2 ^ (64 * ?n)"
  proof -
    have "bn_abs (st a) * 2 ^ nat n < 2 ^ (64 * ?w) * 2 ^ nat n" using bn_abs_bound [OF assms(2)] by simp
    also have "\<dots> = 2 ^ (64 * ?w + nat n)" by (simp add: power_add)
    also have "\<dots> \<le> 2 ^ (64 * ?n)"
    proof (rule power_increasing)
      have "64 * w + k \<le> 64 * (w + q + 1)" if "64 * q + l = k" "l < 64" for w k q l :: nat using that by simp
      from this [OF sh, of ?w] show "64 * ?w + nat n \<le> 64 * ?n" by simp
    qed simp
    finally show ?thesis .
  qed
  note b = bn_with_words_of [OF bn_grow_d(2,3) [OF ok0(1,3)] this, folded b_def]
  have "bn_neg b = bn_neg (st a)" using b(3) s(1) by simp
  moreover have "int (bn_abs (st a) * 2 ^ nat n) = int (bn_abs (st a)) * 2 ^ nat n" by simp
  ultimately show ?thesis using b(1,2) unfolding run bn_holds_def
    by (intro exI [of _ "bn_set_minimal_width b"]) (simp add: bn_val_def del: of_nat_mult)
qed


lemma double_step:
  fixes x c :: u64
  assumes "unat c \<le> 1"
  shows "unat (drop_bit 63 x) \<le> 1 \<and>
    int (unat (push_bit 1 x OR c)) + 2 ^ 64 * int (unat (drop_bit 63 x)) = 2 * int (unat x) + int (unat c)"
proof -
  have "unat x div 2 ^ 63 < 2" using unat_u64_bound [of x] by (intro less_mult_imp_div_less) simp
  then have d: "unat (drop_bit 63 x) \<le> 1" unfolding unat_drop_bit by simp
  have "unat (push_bit 1 x) = 2 * (unat x mod 2 ^ 63)"
    unfolding unat_push_bit by (simp add: mult_mod_right mult.commute)
  then have "unat (push_bit 1 x OR c) = push_bit 1 (unat x mod 2 ^ 63) OR unat c"
    by (simp only: unsigned_or_eq) (simp add: push_bit_eq_mult mult.commute)
  also have "\<dots> = unat x mod 2 ^ 63 * 2 ^ 1 + unat c" using assms by (intro push_bit_or_nat) simp
  finally have e: "unat (push_bit 1 x OR c) = unat x mod 2 ^ 63 * 2 ^ 1 + unat c" .
  have "unat (push_bit 1 x OR c) + 2 ^ 64 * unat (drop_bit 63 x) = 2 * unat x + unat c"
  proof -
    have "p + 2 ^ 64 * q = 2 * u + k" if "p = r * 2 ^ 1 + k" "r + 2 ^ 63 * q = u" for p q r u k :: nat
      using that by simp
    from this [OF e mod_mult_div_eq] show ?thesis unfolding unat_drop_bit .
  qed
  from arg_cong [OF this, where f = int] d show ?thesis by simp
qed

lemma BN_lshift1_exact:
  assumes "bn_ok (st r)" "bn_ok (st a)" and room: "bn_room env (bn_width (st a) + 1) (st r)"
  shows "bn_holds (bn_val (st a) * 2) (bn_signed (st a)) r st (BN_lshift1 env r a st)"
proof -
  let ?w = "bn_width (st a)" and ?n = "bn_width (st a) + 1"
  define s where "s = (if r \<noteq> a then set_neg r (bn_neg (st a)) st else st)"
  have ok0: "bn_ok (s r)" "bn_ok (s a)" "bn_room env ?n (s r)" and w0: "bn_width (s a) = ?w" "bn_abs (s a) = bn_abs (st a)"
    and s: "bn_neg (s r) = bn_neg (st a)" "s(r := b) = st(r := b)" for b
    using assms by (auto simp: s_def set_neg_def)
  define g where "g = bn_grow env ?n (s r)"
  define t where "t = s(r := (if r \<noteq> a then g\<lparr>bn_width := ?w\<rparr> else g))"
  have t: "t = s(r := g\<lparr>bn_width := ?w\<rparr>)"
    unfolding t_def using w0 by (intro ext) (auto simp: g_def)
  note gr = grown_operand [OF ok0(1-3) t [unfolded g_def] w0(1) [symmetric]]
  have gok: "bn_ok g" "?n \<le> bn_dmax g" using bn_grow_d [OF ok0(1,3)] by (simp_all add: g_def)
  let ?body = "\<lambda>i (m, c). let t = wget m (padd (a, 0) i) in (wput m (padd (r, 0) i) (push_bit 1 t OR c), drop_bit (BN_BITS2 - 1) t)"
  let ?v = "bn_abs (st a) * 2"
  have "\<exists>c'. word_loop ?body 0 ?w (bn_words t, 0) =
      (wstore (bn_words t) (padd (r, 0) 0) (words_of ?w (nat (int ?v mod 2 ^ (64 * ?w)))), c') \<and>
      unat c' \<le> 1 \<and> int (unat c') = int ?v div 2 ^ (64 * ?w)"
    unfolding word_loop4_eq [symmetric] padd_simps(3)
  proof (rule word_loop_words [where f = "\<lambda>(t, u). \<lambda>c. (push_bit 1 t OR c, drop_bit (BN_BITS2 - 1) t)" and g = "get2 (a, 0) (a, 0)"
        and X = "\<lambda>(t, u). 2 * int (unat t)"])
    show "digits_val (\<lambda>(t, u). 2 * int (unat t)) (map (get2 (a, 0) (a, 0) (bn_words t)) [0 ..< ?w]) + int (unat (0 :: u64)) = int ?v"
      using gr w0 by (subst digits_val_get2 [where k = 2 and l = 0]) simp_all
    show "unat c' \<le> 1 \<and> int (unat w) + 2 ^ 64 * int (unat c') = (case x of (t, u) \<Rightarrow> 2 * int (unat t)) + int (unat c)"
      if "unat c \<le> 1" "(case x of (t, u) \<Rightarrow> \<lambda>c. (push_bit 1 t OR c, drop_bit (BN_BITS2 - 1) t)) c = (w, c')" for x w and c c' :: u64
      using double_step [OF that(1), of "fst x"] that(2) by (auto split: prod.splits)
  qed (use gr in \<open>auto simp: get2_def Let_def ahead_def wvalid_def\<close>)
  then obtain c where loop: "word_loop ?body 0 ?w (bn_words t, 0) = (wstore (bn_words t) (r, 0) (words_of ?w ?v), c)"
    and c: "unat c \<le> 1" "int (unat c) = int ?v div 2 ^ (64 * ?w)" by (auto simp only: padd_simps words_of_int_mod)
  have "int (unat c) = int (?v div 2 ^ (64 * ?w))" using c(2) by (simp add: zdiv_int)
  then have cv: "unat c = ?v div 2 ^ (64 * ?w)" by (simp only: of_nat_eq_iff)
  define u where "u = t(r := bn_with (words_of ?w ?v) g)"
  have vb: "?v < 2 ^ (64 * ?n)"
    using bn_abs_bound [OF assms(2)] by (simp add: power_add)
  have g0: "t(r := (t r)\<lparr>bn_d := mem_write (bn_d (t r)) 0 (words_of ?w ?v)\<rparr>) = u"
    unfolding u_def by (simp add: t bn_with_def)
  have run0: "BN_lshift1 env r a st = (Some (), if c \<noteq> 0 then u(r := (u r)\<lparr>bn_d := (bn_d (u r))[?w := 1], bn_width := bn_width (u r) + 1\<rparr>) else u)"
  proof -
    have tt: "(if r \<noteq> a then (s(r := g))(r := ((s(r := g)) r)\<lparr>bn_width := ?w\<rparr>) else s(r := g)) = t"
      unfolding t_def by (auto simp: g_def)
    show ?thesis unfolding BN_lshift1_def Let_def s_def [symmetric] at_bn_wexpand if_P [OF ok0(3)] g_def [symmetric]
        prod.case option.case tt
      using loop g0 by (simp add: Let_def set_bn_words_store)
  qed
  show ?thesis
  proof (cases "c = 0")
    case True
    then have "?v < 2 ^ (64 * ?w)" using cv by (simp add: div_eq_0_iff)
    note b = bn_with_words_of [OF gok(1) _ this]
    have "u = st(r := bn_with (words_of ?w ?v) g)" using s(2) by (simp add: u_def t)
    then show ?thesis
      using b gok(2) True s(1) unfolding run0 bn_holds_def
      by (intro exI [of _ "bn_with (words_of ?w ?v) g"]) (simp add: bn_val_def bn_signed_def g_def)
  next
    case False
    then have c1: "?v div 2 ^ (64 * ?w) = 1" using c(1) cv u64_le_1 [OF c(1)] by auto
    have m: "?v = ?v mod 2 ^ (64 * ?w) + 2 ^ (64 * ?w) * 1" using mod_mult_div_eq [of ?v "2 ^ (64 * ?w)"] unfolding c1 by simp
    have ub: "u r = bn_with (words_of ?w ?v) g" by (simp add: u_def)
    let ?d = "(bn_d (u r))[?w := 1]"
    let ?b = "(u r)\<lparr>bn_d := ?d, bn_width := bn_width (u r) + 1\<rparr>"
    have w: "bn_width (u r) = ?w" "bn_d (u r) = mem_write (bn_d g) 0 (words_of ?w ?v)" "bn_neg (u r) = bn_neg (st a)"
      unfolding ub bn_with_def using s(1) by (simp_all add: g_def)
    have len: "?w < length (bn_d (u r))" "length (bn_d (u r)) = bn_dmax g" using gok(2) unfolding w by simp_all
    have "bn_abs ?b = wval (take (Suc ?w) ?d)" by (simp add: bn_abs_def w(1))
    also have "\<dots> = wval (take ?w ?d) + 2 ^ (64 * ?w) * 1" using len by (simp add: wval_take_Suc)
    also have "take ?w ?d = words_of ?w ?v" using gok(2) by (simp add: w(2) mem_write_def)
    finally have abs: "bn_abs ?b = ?v" using m by simp
    moreover have "bn_ok ?b" using len gok(1) by (simp add: bn_ok_def w(1))
    moreover have "u(r := b) = st(r := b)" for b using s(2) by (simp add: u_def t)
    ultimately show ?thesis using False w(3) unfolding run0 bn_holds_def
      by (intro exI [of _ ?b]) (simp add: bn_val_def bn_signed_def)
  qed
qed

lemma sgn_bn_val:
  "(bn_abs a = 0 \<Longrightarrow> k = 0) \<Longrightarrow> sgn (bn_val a) * int k = (if bn_neg a then - int k else int k)"
  by (cases "bn_abs a = 0") (simp_all add: bn_val_def)

lemma abs_bn_val: "\<bar>bn_val a\<bar> = int (bn_abs a)"
  by (simp add: bn_val_def)

lemma BN_rshift_exact:
  assumes "bn_ok (st r)" "bn_ok (st a)" "0 \<le> n" and room: "bn_room env (bn_width (st a)) (st r)"
  shows "bn_holds (sgn (bn_val (st a)) * (\<bar>bn_val (st a)\<bar> div 2 ^ nat n)) True r st (BN_rshift env r a n st)"
proof -
  let ?w = "bn_width (st a)"
  define s where "s = st(r := bn_grow env ?w (st r))"
  note g = grown_operand0 [OF assms(1,2) room s_def refl]
  have sh: "bn_rshift_words (bn_words s) (r, 0) (a, 0) (nat n) ?w = wstore (bn_words s) (r, 0) (words_of ?w (bn_abs (st a) div 2 ^ nat n))"
    using g by (subst bn_rshift_words_exact) auto
  define b where "b = bn_with (words_of ?w (bn_abs (st a) div 2 ^ nat n)) (bn_grow env ?w (st r))"
  define neg where "neg = bn_neg (s a)"
  have neg: "neg = bn_neg (st a)" by (auto simp: neg_def s_def)
  have run: "BN_rshift env r a n st = (Some (), st(r := bn_set_minimal_width (b\<lparr>bn_neg := neg\<rparr>)))"
  proof -
    let ?ws = "words_of ?w (bn_abs (st a) div 2 ^ nat n)"
    have x: "bn_neg ((s(r := (s r)\<lparr>bn_d := mem_write (bn_d (s r)) 0 ?ws\<rparr>)) a) = neg" by (simp add: neg_def)
    have e: "(s r)\<lparr>bn_d := mem_write (bn_d (s r)) 0 ?ws, bn_neg := neg, bn_width := ?w\<rparr> = b\<lparr>bn_neg := neg\<rparr>"
      by (rule BIGNUM.equality) (simp_all add: b_def bn_with_def s_def)
    show ?thesis
      using assms(3) room sh
      by (simp add: BN_rshift_def Let_def at_bn_wexpand s_def [symmetric] set_bn_words_store x e fun_upd_same del: fun_upd_apply)
        (simp add: s_def)
  qed
  have "bn_abs (st a) div 2 ^ nat n \<le> bn_abs (st a)" by simp
  then have "bn_abs (st a) div 2 ^ nat n < 2 ^ (64 * ?w)" using bn_abs_bound [OF assms(2)] by linarith
  note b = bn_with_words_of(1,2) [OF bn_grow_d(2,3) [OF assms(1) room] this, folded b_def]
  have "\<bar>bn_val (st a)\<bar> div 2 ^ nat n = int (bn_abs (st a) div 2 ^ nat n)" by (simp add: abs_bn_val zdiv_int)
  moreover have "sgn (bn_val (st a)) * int (bn_abs (st a) div 2 ^ nat n) =
      (if neg then - int (bn_abs (st a) div 2 ^ nat n) else int (bn_abs (st a) div 2 ^ nat n))"
    unfolding neg by (rule sgn_bn_val) simp
  ultimately show ?thesis using b unfolding run bn_holds_def
    by (intro exI [of _ "bn_set_minimal_width (b\<lparr>bn_neg := neg\<rparr>)"]) simp
qed


lemma bn_width_neg_update: "b\<lparr>bn_width := w, bn_neg := n\<rparr> = b\<lparr>bn_neg := n, bn_width := w\<rparr>"
  by (cases b) simp

lemma BN_rshift1_exact:
  assumes "bn_ok (st r)" "bn_ok (st a)" and room: "bn_room env (bn_width (st a)) (st r)"
  shows "bn_holds (sgn (bn_val (st a)) * (\<bar>bn_val (st a)\<bar> div 2)) True r st (BN_rshift1 env r a st)"
proof -
  let ?w = "bn_width (st a)"
  have "bn_rshift1_words m (r, 0) (a, 0) ?w = bn_rshift_words m (r, 0) (a, 0) 1 ?w"
    if "wvalid m (r, 0) ?w" "wvalid m (a, 0) ?w" for m
    using that by (simp add: bn_rshift1_words_exact bn_rshift_words_exact)
  moreover define s where "s = st(r := bn_grow env ?w (st r))"
  note g = grown_operand0 [OF assms(1,2) room s_def refl]
  ultimately have "bn_rshift1_words (bn_words s) (r, 0) (a, 0) ?w = bn_rshift_words (bn_words s) (r, 0) (a, 0) 1 ?w"
    using g by blast
  then have "BN_rshift1 env r a st = BN_rshift env r a 1 st"
    using room by (simp add: bn_width_neg_update BN_rshift1_def BN_rshift_def Let_def at_bn_wexpand s_def [symmetric])
  then show ?thesis using BN_rshift_exact [OF assms(1,2), of 1 env] room by simp
qed


text \<open>C36. The four shifts multiply and divide by powers of two: whatever the shift, the aliasing of \<open>r\<close>
  and \<open>a\<close> and the widths, when the result has room \<open>r\<close> holds the number times $2^n$, or the number
  divided by $2^n$ and rounded towards zero, and nothing else changes.
\<close>

theorem BN_shift_exact:
  assumes "bn_ok (st r)" "bn_ok (st a)" "0 \<le> n"
    and room: "bn_room_upto env (bn_width (st a) + nat n div 64 + 1) (st r)"
  shows "bn_holds (bn_val (st a) * 2 ^ nat n) True r st (BN_lshift env r a n st) \<and>
    bn_holds (bn_val (st a) * 2) (bn_signed (st a)) r st (BN_lshift1 env r a st) \<and>
    bn_holds (sgn (bn_val (st a)) * (\<bar>bn_val (st a)\<bar> div 2 ^ nat n)) True r st (BN_rshift env r a n st) \<and>
    bn_holds (sgn (bn_val (st a)) * (\<bar>bn_val (st a)\<bar> div 2)) True r st (BN_rshift1 env r a st)"
  using assms(1-3) room
  by (intro conjI BN_lshift_exact BN_lshift1_exact BN_rshift_exact BN_rshift1_exact)
    (simp_all add: bn_room_upto_def)

section \<open>Single bits\<close>

lemma bit_add_mult:
  fixes x y :: nat
  assumes "x < 2 ^ k"
  shows "bit (x + 2 ^ k * y) n \<longleftrightarrow> (if n < k then bit x n else bit y (n - k))"
proof (cases "n < k")
  case True
  have "bit (take_bit k (x + 2 ^ k * y)) n \<longleftrightarrow> bit (x + 2 ^ k * y) n" using True by (simp add: bit_take_bit_iff)
  moreover have "take_bit k (x + 2 ^ k * y) = x" using assms by (simp add: take_bit_nat_def)
  ultimately show ?thesis using True by simp
next
  case False
  then have "bit (x + 2 ^ k * y) n \<longleftrightarrow> bit (drop_bit k (x + 2 ^ k * y)) (n - k)" by (simp add: bit_drop_bit_eq)
  moreover have "drop_bit k (x + 2 ^ k * y) = y" using assms by (simp add: drop_bit_nat_def)
  ultimately show ?thesis using False by simp
qed

lemma bit_unat: "bit (unat (w :: u64)) n = bit w n"
  by (simp add: bit_unsigned_iff)

lemma bit_wval: "bit (wval ws) n \<longleftrightarrow> n div 64 < length ws \<and> bit (ws ! (n div 64)) (n mod 64)"
proof (induction ws arbitrary: n)
  case (Cons w ws)
  show ?case
  proof (cases "n < 64")
    case True
    then show ?thesis unfolding wval.simps bit_add_mult [OF unat_u64_bound] by (simp add: bit_unat)
  next
    case False
    then have "n div 64 = Suc ((n - 64) div 64)" "n mod 64 = (n - 64) mod 64"
      by (simp_all add: le_div_geq le_mod_geq)
    then show ?thesis using False Cons.IH [of "n - 64"] unfolding wval.simps bit_add_mult [OF unat_u64_bound] by simp
  qed
qed simp

lemma bit_bn_abs: "bn_ok b \<Longrightarrow> bit (bn_abs b) n \<longleftrightarrow> n div 64 < bn_width b \<and> bit (bn_d b ! (n div 64)) (n mod 64)"
  by (auto simp: bn_abs_def bit_wval bn_ok_def)

lemma drop_and_1: "drop_bit j w AND 1 \<noteq> 0 \<longleftrightarrow> bit (w :: 'a::len word) j"
  by (simp add: and_one_eq mod2_eq_if bit_iff_odd_drop_bit)

lemma BN_is_bit_set_exact: "bn_ok b \<Longrightarrow> BN_is_bit_set b n \<longleftrightarrow> 0 \<le> n \<and> bit (bn_abs b) (nat n)"
  by (simp add: BN_is_bit_set_def bn_is_bit_set_words_def Let_def drop_and_1 bit_bn_abs not_le)

lemma div_mod_64_eq: "n div 64 = m div 64 \<Longrightarrow> n mod 64 = m mod 64 \<Longrightarrow> n = (m :: nat)"
  by (metis div_mult_mod_eq)

lemma bit_u64_exp: "k < 64 \<Longrightarrow> bit (2 ^ k :: u64) j \<longleftrightarrow> j = k"
  by (auto simp: bit_exp_iff)

lemma less_by_words: "k < m \<longleftrightarrow> k div 64 < m div 64 \<or> k div 64 = m div 64 \<and> k mod 64 < m mod (64 :: nat)"
proof -
  have "64 * q + r < 64 * p + s \<longleftrightarrow> q < p \<or> q = p \<and> r < s" if "r < 64" "s < 64" for p q r s :: nat
    using that by auto
  from this [of "k mod 64" "m mod 64" "k div 64" "m div 64"] show ?thesis by simp
qed

lemma not_push_ones: "NOT (push_bit j (- 1)) = (mask j :: u64)"
  by (simp add: push_bit_minus_one_eq_not_mask)

lemma BN_set_bit_exact:
  assumes "bn_ok a" "0 \<le> n" and room: "bn_room env (nat n div 64 + 1) a"
  shows "\<exists>b. BN_set_bit env n a = (Some (), b) \<and> bn_ok b \<and> bn_neg b = bn_neg a \<and> bn_abs b = set_bit (nat n) (bn_abs a)"
proof -
  let ?i = "nat n div 64" and ?j = "nat n mod 64"
  define c where "c = (if bn_width a \<le> ?i
      then (bn_grow env (?i + 1) a)\<lparr>bn_d := mem_write (bn_d (bn_grow env (?i + 1) a)) (bn_width a) (replicate (?i + 1 - bn_width a) 0), bn_width := ?i + 1\<rparr>
      else a)"
  have c: "bn_ok c" "bn_neg c = bn_neg a" "?i < bn_width c" "bn_abs c = bn_abs a"
  proof -
    show "bn_ok c" "bn_neg c = bn_neg a" "?i < bn_width c"
      using bn_grow_d [OF assms(1) room] assms(1) by (auto simp: c_def bn_ok_def)
    show "bn_abs c = bn_abs a"
    proof (cases "bn_width a \<le> ?i")
      case True
      then have "take (?i + 1) (mem_write (bn_d (bn_grow env (?i + 1) a)) (bn_width a) (replicate (?i + 1 - bn_width a) 0)) =
          take (bn_width a) (bn_d a) @ replicate (?i + 1 - bn_width a) 0"
        using bn_grow_d [OF assms(1) room] assms(1) by (simp add: take_mem_write_all bn_ok_def del: replicate_Suc)
      then show ?thesis using True by (simp add: c_def bn_abs_def wval_append del: replicate_Suc)
    qed (simp add: c_def)
  qed
  let ?b = "c\<lparr>bn_d := (bn_d c)[?i := bn_d c ! ?i OR push_bit ?j 1]\<rparr>"
  have run: "BN_set_bit env n a = (Some (), ?b)"
    using assms(2) room by (auto simp: BN_set_bit_def Let_def bn_wexpand_eq c_def)
  have ok: "bn_ok ?b" using c(1) by (simp add: bn_ok_def)
  have "bn_abs ?b = set_bit (nat n) (bn_abs c)"
  proof (rule bit_eqI)
    fix k
    show "bit (bn_abs ?b) k = bit (set_bit (nat n) (bn_abs c)) k"
      using c(1,3) div_mod_64_eq [of k "nat n"] bit_bn_abs [OF ok] bit_bn_abs [OF c(1)]
      by (auto simp: bit_set_bit_iff bn_ok_def nth_list_update bit_or_iff bit_u64_exp)
  qed
  then show ?thesis using run ok c by auto
qed

lemma BN_clear_bit_exact:
  assumes "bn_ok a" "0 \<le> n" "nat n div 64 < bn_width a"
  shows "\<exists>b. BN_clear_bit n a = (Some (), b) \<and> bn_ok b \<and> bn_signed b \<and> bn_abs b = unset_bit (nat n) (bn_abs a) \<and>
    (bn_neg b \<longleftrightarrow> bn_neg a \<and> bn_abs b \<noteq> 0)"
proof -
  let ?i = "nat n div 64" and ?j = "nat n mod 64"
  let ?b = "a\<lparr>bn_d := (bn_d a)[?i := bn_d a ! ?i AND NOT (push_bit ?j 1)]\<rparr>"
  have ok: "bn_ok ?b" using assms(1) by (simp add: bn_ok_def)
  have "bn_abs ?b = unset_bit (nat n) (bn_abs a)"
  proof (rule bit_eqI)
    fix k
    show "bit (bn_abs ?b) k = bit (unset_bit (nat n) (bn_abs a)) k"
      using assms div_mod_64_eq [of k "nat n"] bit_bn_abs [OF ok] bit_bn_abs [OF assms(1)]
      by (auto simp: bit_unset_bit_iff bn_ok_def nth_list_update bit_and_iff bit_not_iff bit_u64_exp dest: bit_imp_le_length)
  qed
  then show ?thesis using assms ok by (simp add: BN_clear_bit_def Let_def)
qed

lemma BN_mask_bits_exact:
  assumes "bn_ok a" "0 \<le> n"
  shows "\<exists>b. BN_mask_bits n a = (Some (), b) \<and> bn_ok b \<and> bn_abs b = bn_abs a mod 2 ^ nat n \<and> (bn_neg b \<longrightarrow> bn_neg a)"
proof (cases "bn_width a \<le> nat n div 64")
  case True
  have "(2 :: nat) ^ (64 * bn_width a) \<le> 2 ^ nat n"
  proof (rule power_increasing)
    have "64 * bn_width a \<le> 64 * (nat n div 64)" using True by simp
    also have "\<dots> \<le> nat n" by simp
    finally show "64 * bn_width a \<le> nat n" .
  qed simp
  then have "bn_abs a < 2 ^ nat n" using less_le_trans [OF bn_abs_bound [OF assms(1)]] by blast
  then show ?thesis using assms True by (simp add: BN_mask_bits_def)
next
  case False
  let ?i = "nat n div 64" and ?j = "nat n mod 64"
  define c where "c = (if ?j = 0 then a\<lparr>bn_width := ?i\<rparr>
      else a\<lparr>bn_width := ?i + 1, bn_d := (bn_d a)[?i := bn_d a ! ?i AND mask ?j]\<rparr>)"
  have ok: "bn_ok c" using assms(1) False by (auto simp: c_def bn_ok_def)
  have run: "BN_mask_bits n a = (Some (), bn_set_minimal_width c)"
    using assms(2) False by (simp add: BN_mask_bits_def Let_def c_def not_push_ones)
  have "bn_abs c = take_bit (nat n) (bn_abs a)"
  proof (rule bit_eqI)
    fix k
    have k: "k < nat n \<longleftrightarrow> k div 64 < ?i \<or> k div 64 = ?i \<and> k mod 64 < ?j"
      by (rule less_by_words)
    show "bit (bn_abs c) k = bit (take_bit (nat n) (bn_abs a)) k"
      using assms(1) False bit_bn_abs [OF ok, of k] bit_bn_abs [OF assms(1), of k] k
      by (auto simp: c_def bit_take_bit_iff bn_ok_def nth_list_update bit_and_iff bit_mask_iff split: if_splits)
  qed
  then show ?thesis using ok run by (auto simp: take_bit_nat_def c_def split: if_splits)
qed

text \<open>
  The count of low zero bits: each step drops the low \<open>k\<close> bits when all of them are zero.
\<close>

lemma low_zeros_step_exact:
  assumes k: "1 \<le> k" "k \<le> 32" and s: "low_zeros_step k (bits, l) = (bits', l')"
  shows "unat bits \<le> 100 \<Longrightarrow> unat bits' = unat bits + (if 2 ^ k dvd unat l then k else 0)"
    "unat l = 2 ^ (if 2 ^ k dvd unat l then k else 0) * unat l'"
    "\<not> 2 ^ (2 * k) dvd unat l \<Longrightarrow> \<not> 2 ^ k dvd unat l'"
proof -
  have "push_bit (64 - k) l = 0 \<longleftrightarrow> unat l * 2 ^ (64 - k) mod 2 ^ 64 = 0"
  proof -
    have "push_bit (64 - k) l = 0 \<longleftrightarrow> unat (push_bit (64 - k) l) = 0" by (simp only: unat_eq_0)
    then show ?thesis by (simp add: unat_push_bit)
  qed
  also have "\<dots> \<longleftrightarrow> 2 ^ k dvd unat l"
  proof -
    have "(2 :: nat) ^ 64 = 2 ^ k * 2 ^ (64 - k)" using k by (simp flip: power_add)
    then have p: "(2 :: nat) ^ 64 = 2 ^ k * 2 ^ (64 - k)" .
    show ?thesis unfolding p mod_mult_mult2 by (simp add: mod_eq_0_iff_dvd)
  qed
  finally have z: "constant_time_is_zero_w (push_bit (64 - k) l) = mask_of (2 ^ k dvd unat l)"
    by (simp add: constant_time_is_zero_w_mask)
  have kb: "unat (ucast (of_nat k :: u64) :: u32) = k"
    using k by (simp add: unat_ucast_mod unat_of_nat)
  show "unat bits' = unat bits + (if 2 ^ k dvd unat l then k else 0)" if "unat bits \<le> 100"
    using s that k kb by (auto simp: low_zeros_step_def Let_def z mask_of_def unat_word_ariths)
  have l': "l' = (if 2 ^ k dvd unat l then drop_bit k l else l)"
    using s by (auto simp: low_zeros_step_def Let_def z constant_time_select_w_mask)
  show e: "unat l = 2 ^ (if 2 ^ k dvd unat l then k else 0) * unat l'"
    unfolding l' by (simp add: unat_drop_bit)
  show "\<not> 2 ^ k dvd unat l'" if "\<not> 2 ^ (2 * k) dvd unat l"
  proof
    assume "2 ^ k dvd unat l'"
    then show False using that e by (auto simp: l' power_mult_distrib mult_2 power_add split: if_splits)
  qed
qed

lemma dvd_pow2_steps:
  fixes l l' :: nat
  assumes "l = 2 ^ c * l'" "odd l'"
  shows "2 ^ c dvd l \<and> \<not> 2 ^ Suc c dvd l"
  using assms by auto

lemma bn_count_low_zero_bits_word_exact:
  shows "unat (bn_count_low_zero_bits_word l) \<le> 63"
    and "l \<noteq> 0 \<Longrightarrow> 2 ^ unat (bn_count_low_zero_bits_word l) dvd unat l \<and> \<not> 2 ^ Suc (unat (bn_count_low_zero_bits_word l)) dvd unat l"
proof -
  obtain b1 l1 where s1: "low_zeros_step 32 (0, l) = (b1, l1)" by fastforce
  obtain b2 l2 where s2: "low_zeros_step 16 (b1, l1) = (b2, l2)" by fastforce
  obtain b3 l3 where s3: "low_zeros_step 8 (b2, l2) = (b3, l3)" by fastforce
  obtain b4 l4 where s4: "low_zeros_step 4 (b3, l3) = (b4, l4)" by fastforce
  obtain b5 l5 where s5: "low_zeros_step 2 (b4, l4) = (b5, l5)" by fastforce
  obtain b6 l6 where s6: "low_zeros_step 1 (b5, l5) = (b6, l6)" by fastforce
  define c where "c k v = (if (2 :: nat) ^ k dvd v then k else 0)" for k v
  have cb: "c k v \<le> k" for k v by (simp add: c_def)
  note e1 = low_zeros_step_exact [OF _ _ s1, folded c_def, simplified]
  note e2 = low_zeros_step_exact [OF _ _ s2, folded c_def, simplified]
  note e3 = low_zeros_step_exact [OF _ _ s3, folded c_def, simplified]
  note e4 = low_zeros_step_exact [OF _ _ s4, folded c_def, simplified]
  note e5 = low_zeros_step_exact [OF _ _ s5, folded c_def, simplified]
  note e6 = low_zeros_step_exact [OF _ _ s6, folded c_def, simplified]
  let ?s = "c 32 (unat l) + c 16 (unat l1) + c 8 (unat l2) + c 4 (unat l3) + c 2 (unat l4) + c 1 (unat l5)"
  have b: "unat b6 = ?s" "?s \<le> 63"
    using e1(1) e2(1) e3(1) e4(1) e5(1) e6(1) cb [of 32 "unat l"] cb [of 16 "unat l1"] cb [of 8 "unat l2"]
      cb [of 4 "unat l3"] cb [of 2 "unat l4"] cb [of 1 "unat l5"] by simp_all
  have run: "bn_count_low_zero_bits_word l = b6"
  proof -
    have "bn_count_low_zero_bits_word l = fst (low_zeros_step 1 (low_zeros_step 2 (low_zeros_step 4 (low_zeros_step 8
        (low_zeros_step 16 (low_zeros_step 32 (0, l)))))))"
      by (simp only: bn_count_low_zero_bits_word_def Let_def case_prod_beta low_zeros_step_def [of 1] fst_conv of_nat_1)
    then show ?thesis by (simp only: s1 s2 s3 s4 s5 s6 fst_conv)
  qed
  show "unat (bn_count_low_zero_bits_word l) \<le> 63" using b run by simp
  assume l: "l \<noteq> 0"
  have "\<not> 2 ^ 64 dvd unat l" using l unat_u64_bound [of l] by (auto dest!: dvd_imp_le simp: unat_gt_0)
  then have odd: "odd (unat l6)"
    using e1(3) e2(3) e3(3) e4(3) e5(3) e6(3) by simp
  have "unat l = 2 ^ ?s * unat l6"
    by (subst e1(2), subst e2(2), subst e3(2), subst e4(2), subst e5(2), subst e6(2)) (simp add: power_add ac_simps)
  from dvd_pow2_steps [OF this odd]
  show "2 ^ unat (bn_count_low_zero_bits_word l) dvd unat l \<and> \<not> 2 ^ Suc (unat (bn_count_low_zero_bits_word l)) dvd unat l"
    unfolding run b(1) .
qed

lemma count_low_zeros_loop:
  assumes "n \<le> length d" "n \<le> INT_MAX div (4 * BN_BITS2)"
  defines "v \<equiv> wval (take n d)"
  defines "res \<equiv> foldl
       (\<lambda>(ret, saw_nonzero) i.
          let nonzero = NOT (constant_time_is_zero_w (d ! i));
              first_nonzero = NOT saw_nonzero AND nonzero;
              saw_nonzero = saw_nonzero OR nonzero;
              bits = bn_count_low_zero_bits_word (d ! i)
          in (ret OR ucast (first_nonzero AND scast (of_nat (i * BN_BITS2) + bits)), saw_nonzero))
       (0 :: u32, 0 :: u64) [0 ..< n]"
  shows "snd res = mask_of (v \<noteq> 0) \<and> (v = 0 \<longrightarrow> fst res = 0) \<and>
    (v \<noteq> 0 \<longrightarrow> 2 ^ unat (fst res) dvd v \<and> \<not> 2 ^ Suc (unat (fst res)) dvd v)"
  using assms(1,2) unfolding v_def res_def
proof (induction n)
  case (Suc n)
  let ?step = "\<lambda>(ret :: u32, saw_nonzero :: u64) i.
          let nonzero = NOT (constant_time_is_zero_w (d ! i));
              first_nonzero = NOT saw_nonzero AND nonzero;
              saw_nonzero = saw_nonzero OR nonzero;
              bits = bn_count_low_zero_bits_word (d ! i)
          in (ret OR ucast (first_nonzero AND scast (of_nat (i * BN_BITS2) + bits)), saw_nonzero)"
  obtain ret saw where f: "foldl ?step (0, 0) [0 ..< n] = (ret, saw)" by fastforce
  let ?v = "wval (take n d)" and ?w = "d ! n" and ?b = "bn_count_low_zero_bits_word (d ! n)"
  have IH: "saw = mask_of (?v \<noteq> 0)" "?v = 0 \<Longrightarrow> ret = 0"
    "?v \<noteq> 0 \<Longrightarrow> 2 ^ unat ret dvd ?v \<and> \<not> 2 ^ Suc (unat ret) dvd ?v"
    using Suc.IH Suc.prems unfolding f by simp_all
  have v': "wval (take (Suc n) d) = ?v + 2 ^ (64 * n) * unat ?w" using Suc.prems by (intro wval_take_Suc) simp
  have vb: "?v < 2 ^ (64 * n)" using wval_bound [of "take n d"] Suc.prems by simp
  have step: "foldl ?step (0, 0) [0 ..< Suc n] =
      (ret OR ucast (NOT saw AND mask_of (?w \<noteq> 0) AND scast (of_nat (n * BN_BITS2) + ?b)), saw OR mask_of (?w \<noteq> 0))"
  proof -
    have "NOT (mask_of (?w = 0)) = (mask_of (?w \<noteq> 0) :: u64)" by (simp add: mask_of_def)
    then show ?thesis using f by (simp add: constant_time_is_zero_w_mask Let_def and.assoc)
  qed
  show ?case
  proof (cases "?v = 0")
    case False
    have "2 ^ unat ret \<le> ?v" using IH(3) [OF False] False by (auto intro: dvd_imp_le)
    then have "(2 :: nat) ^ unat ret < 2 ^ (64 * n)" using vb by linarith
    then have "Suc (unat ret) \<le> 64 * n" by simp
    then have "(2 :: nat) ^ Suc (unat ret) dvd 2 ^ (64 * n)" by (rule le_imp_power_dvd)
    then have d: "2 ^ Suc (unat ret) dvd 2 ^ (64 * n) * unat ?w" by (rule dvd_mult2)
    then have "2 ^ unat ret dvd 2 ^ (64 * n) * unat ?w" by (metis dvd_trans le_imp_power_dvd le_SucI order_refl)
    then have "2 ^ unat ret dvd ?v + 2 ^ (64 * n) * unat ?w" "\<not> 2 ^ Suc (unat ret) dvd ?v + 2 ^ (64 * n) * unat ?w"
      using IH(3) [OF False] d by (auto simp: dvd_add_left_iff)
    then show ?thesis using False IH(1) unfolding step v' by (simp add: mask_of_def del: power_Suc)
  next
    case True
    show ?thesis
    proof (cases "?w = 0")
      case True
      then show ?thesis using \<open>?v = 0\<close> IH unfolding step v' by (simp add: mask_of_def)
    next
      case False
      have "unat (of_nat (n * 64) + ?b) = 64 * n + unat ?b"
        using Suc.prems(2) bn_count_low_zero_bits_word_exact(1) [of ?w] by (simp add: unat_word_ariths unat_of_nat)
      moreover have "ucast (scast (of_nat (n * 64) + ?b) :: u64) = (of_nat (n * 64) + ?b :: u32)"
        by (rule bit_word_eqI) (auto simp: bit_simps)
      moreover have "2 ^ (64 * n + k) dvd 2 ^ (64 * n) * x \<longleftrightarrow> 2 ^ k dvd x" for k x :: nat
        by (simp add: power_add)
      ultimately show ?thesis
        using True False IH(1,2) bn_count_low_zero_bits_word_exact(2) [OF False] unfolding step v'
        by (simp add: mask_of_def unat_eq_0 add_Suc_right [symmetric] del: upt_Suc power_Suc add_Suc_right)
    qed
  qed
qed (simp add: mask_of_def)

text \<open>The bit operations act on the binary expansion of the absolute value: testing, setting and
  clearing bit \<open>n\<close>, keeping the low \<open>n\<close> bits, and counting the zeros below the lowest one.
\<close>

theorem BN_bits_exact:
  assumes "bn_ok a" "0 \<le> n"
  shows "(BN_is_bit_set a n \<longleftrightarrow> bit (bn_abs a) (nat n)) \<and>
    (bn_room env (nat n div 64 + 1) a \<longrightarrow>
      (\<exists>b. BN_set_bit env n a = (Some (), b) \<and> bn_ok b \<and> bn_neg b = bn_neg a \<and> bn_abs b = set_bit (nat n) (bn_abs a))) \<and>
    (if nat n div 64 < bn_width a
     then \<exists>b. BN_clear_bit n a = (Some (), b) \<and> bn_ok b \<and> bn_signed b \<and> bn_abs b = unset_bit (nat n) (bn_abs a)
     else BN_clear_bit n a = (None, a)) \<and>
    (\<exists>b. BN_mask_bits n a = (Some (), b) \<and> bn_ok b \<and> bn_abs b = bn_abs a mod 2 ^ nat n) \<and>
    (bn_abs a = 0 \<longrightarrow> BN_count_low_zero_bits a = 0) \<and>
    (bn_abs a \<noteq> 0 \<longrightarrow>
      2 ^ BN_count_low_zero_bits a dvd bn_abs a \<and> \<not> 2 ^ Suc (BN_count_low_zero_bits a) dvd bn_abs a)"
proof (intro conjI impI)
  have w: "bn_width a \<le> length (bn_d a)" "bn_width a \<le> INT_MAX div (4 * BN_BITS2)" using assms(1) by (auto simp: bn_ok_def)
  note c = count_low_zeros_loop [OF w, folded bn_abs_def]
  show "BN_count_low_zero_bits a = 0" if "bn_abs a = 0"
    using c that by (simp add: BN_count_low_zero_bits_def)
  show "2 ^ BN_count_low_zero_bits a dvd bn_abs a" "\<not> 2 ^ Suc (BN_count_low_zero_bits a) dvd bn_abs a" if "bn_abs a \<noteq> 0"
    using c that by (simp_all add: BN_count_low_zero_bits_def)
  show "if nat n div 64 < bn_width a
     then \<exists>b. BN_clear_bit n a = (Some (), b) \<and> bn_ok b \<and> bn_signed b \<and> bn_abs b = unset_bit (nat n) (bn_abs a)
     else BN_clear_bit n a = (None, a)"
    using BN_clear_bit_exact [OF assms] assms(2) by (auto simp: BN_clear_bit_def)
qed (use BN_is_bit_set_exact [OF assms(1)] BN_set_bit_exact [OF assms] BN_mask_bits_exact [OF assms] assms in auto)

section \<open>Witnesses\<close>

text \<open>A heap that serves requests below one mebibyte and numbers of one and two words in it.\<close>

definition bn_heap :: heap_env where
  "bn_heap = \<lparr>can_alloc = (\<lambda>n. n < 0x100000), junk = (\<lambda>_. 0xaa)\<rparr>"

definition bn_sample :: "bool \<Rightarrow> u64 list \<Rightarrow> BIGNUM" where
  "bn_sample neg d = \<lparr>bn_d = d, bn_width = length d, bn_neg = neg, bn_flags = BN_FLG_MALLOCED\<rparr>"

definition bn_numbers :: bn_store where
  "bn_numbers = (\<lambda>h. if h = 1 then bn_sample True [0xffffffffffffffff] else bn_sample False [1, 0])"

lemma bn_sample_facts [simp]:
  "bn_ok (bn_sample neg d) \<longleftrightarrow> length d \<le> 8388607" "bn_abs (bn_sample neg d) = wval d"
  "bn_neg (bn_sample neg d) = neg" "bn_width (bn_sample neg d) = length d"
  "bn_room bn_heap n (bn_sample neg d) \<longleftrightarrow> n \<le> length d \<or> n \<le> 131070"
  by (auto simp: bn_sample_def bn_ok_def bn_abs_def bn_room_def bn_heap_def)

lemma bn_sample_val [simp]: "bn_val (bn_sample neg d) = (if neg then - int (wval d) else int (wval d))"
  by (simp add: bn_val_def)

theorem BN_add_sub_exact_witness:
  "bn_holds (- (2 ^ 64) + 2) True 1 bn_numbers (BN_add bn_heap 1 1 2 bn_numbers) \<and>
   bn_holds (- (2 ^ 64)) True 1 bn_numbers (BN_sub bn_heap 1 1 2 bn_numbers)"
  using BN_add_sub_exact [of bn_numbers 1 1 2 bn_heap]
  by (simp add: bn_numbers_def bn_room_upto_def bn_signed_def)

theorem BN_compare_exact_witness:
  "BN_cmp (Some (bn_sample True [7])) (Some (bn_sample False [1, 0])) = - 1 \<and> BN_cmp_word (bn_sample True [7]) 3 = - 1 \<and>
    \<not> BN_equal_consttime (bn_sample True [7]) (bn_sample False [1, 0]) \<and> BN_num_bits (bn_sample True [7]) = 3"
proof -
  have "floorlog 2 (nat \<bar>bn_val (bn_sample True [7])\<bar>) = 3" by (simp add: compute_floorlog)
  with BN_compare_exact [of "bn_sample True [7]" "bn_sample False [1, 0]" 3] show ?thesis
    by (simp add: bn_signed_def)
qed

theorem BN_add_sub_word_exact_witness:
  "(\<exists>v. BN_add_word bn_heap 9 (bn_sample True [7]) = (Some (), v) \<and> bn_ok v \<and> bn_signed v \<and> bn_val v = 2) \<and>
   (\<exists>v. BN_sub_word bn_heap 9 (bn_sample True [7]) = (Some (), v) \<and> bn_ok v \<and> bn_signed v \<and> bn_val v = - 16)"
  using BN_add_sub_word_exact [of "bn_sample True [7]" bn_heap 9] by (simp add: bn_room_upto_def bn_signed_def)

theorem BN_shift_exact_witness:
  "bn_holds ((- (2 ^ 64) + 1) * 2 ^ 65) True 2 bn_numbers (BN_lshift bn_heap 2 1 65 bn_numbers) \<and>
   bn_holds (- (2 ^ 63) + 1) True 2 bn_numbers (BN_rshift1 bn_heap 2 1 bn_numbers)"
  using BN_shift_exact [of bn_numbers 2 1 65 bn_heap] by (simp add: bn_numbers_def bn_room_upto_def)

theorem BN_bits_exact_witness:
  "BN_is_bit_set (bn_sample False [5]) 2 \<and> BN_count_low_zero_bits (bn_sample False [0]) = 0 \<and>
   (\<exists>b. BN_set_bit bn_heap 70 (bn_sample False [5]) = (Some (), b) \<and> bn_abs b = 5 + 2 ^ 70)"
  using BN_bits_exact [of "bn_sample False [5]" 2 bn_heap] BN_bits_exact [of "bn_sample False [5]" 70 bn_heap]
    BN_bits_exact [of "bn_sample False [0]" 0 bn_heap]
  by (simp add: bit_numeral_rec set_bit_eq bit_Suc_0_iff) blast

end
