(* ===== verification/Bn_Bytes.thy ===== *)
theory Bn_Bytes
  imports Bn Cbb
begin

text \<open>
  Numbers as byte strings: \<open>bytes.c\<close> (big-endian, little-endian and padded forms, single
  words) and, from \<open>crypto/bn_extra\<close>, the INTEGERs of \<open>bn_asn1.c\<close> and \<open>BN_bn2cbb_padded\<close>,
  which connect the numbers with the byte string readers and writers.
\<close>


section \<open>bytes.c\<close>

text \<open>
  \<open>BN_bin2bn\<close> packs the bytes into words from the most significant one down: \<open>m\<close> counts the
  bytes the current word still takes.
\<close>

fun bin2bn_loop :: "bytes \<Rightarrow> u64 \<Rightarrow> nat \<Rightarrow> nat \<Rightarrow> u64 list \<Rightarrow> u64 list" where
  "bin2bn_loop [] word m num_words d = d"
| "bin2bn_loop (b # bs) word m num_words d =
     (let word = push_bit 8 word OR ucast b
      in if m = 0 then bin2bn_loop bs 0 (8 - 1) (num_words - 1) (d[num_words - 1 := word])
         else bin2bn_loop bs word (m - 1) num_words d)"

text \<open>The body, on the \<open>BIGNUM\<close> that \<open>ret\<close> points to; a null \<open>ret\<close> stands for a new one.\<close>

definition bin2bn_into :: "heap_env \<Rightarrow> bytes \<Rightarrow> (BIGNUM, unit) op" where
  "bin2bn_into env data ret =
     (let len = length data
      in if len = 0 then (Some (), ret\<lparr>bn_width := 0\<rparr>)
         else
           let num_words = (len - 1) div 8 + 1; m = (len - 1) mod 8
           in case bn_wexpand env num_words ret of
                (None, ret) \<Rightarrow> (None, ret)
              | (Some _, ret) \<Rightarrow>
                  (Some (), ret\<lparr>bn_width := num_words, bn_neg := False, bn_d := bin2bn_loop data 0 m num_words (bn_d ret)\<rparr>))"

definition bn_result_in :: "heap_env \<Rightarrow> (BIGNUM, unit) op \<Rightarrow> BIGNUM option \<Rightarrow> BIGNUM option \<times> BIGNUM option" where
  "bn_result_in env f ret =
     (case ret of
        None \<Rightarrow>
          (case BN_new env of
             None \<Rightarrow> (None, None)
           | Some bn \<Rightarrow> (case f bn of (None, bn) \<Rightarrow> (None, None) | (Some _, bn) \<Rightarrow> (Some bn, None)))
      | Some ret \<Rightarrow> (case f ret of (None, ret) \<Rightarrow> (None, Some ret) | (Some _, ret) \<Rightarrow> (Some ret, Some ret)))"

definition BN_bin2bn :: "heap_env \<Rightarrow> bytes \<Rightarrow> BIGNUM option \<Rightarrow> BIGNUM option \<times> BIGNUM option" where
  "BN_bin2bn env data = bn_result_in env (bin2bn_into env data)"

text \<open>The array seen through a \<open>uint8_t *\<close>, on the little-endian platforms this file supports.\<close>

definition word_bytes :: "u64 list \<Rightarrow> bytes" where
  "word_bytes ws = concat (map (\<lambda>w. le_bytes 8 (unat w)) ws)"

definition bytes_words :: "bytes \<Rightarrow> u64 list" where
  "bytes_words bs = words_of (length bs div 8) (le_val bs)"

definition le2bn_into :: "heap_env \<Rightarrow> bytes \<Rightarrow> (BIGNUM, unit) op" where
  "le2bn_into env data ret =
     (let len = length data
      in if len = 0 then (Some (), ret\<lparr>bn_width := 0, bn_neg := False\<rparr>)
         else
           let num_words = (len - 1) div 8 + 1
           in case bn_wexpand env num_words ret of
                (None, ret) \<Rightarrow> (None, ret)
              | (Some _, ret) \<Rightarrow>
                  (let d = (bn_d ret)[num_words - 1 := 0]
                   in (Some (), ret\<lparr>bn_width := num_words, bn_d := bytes_words (mem_write (word_bytes d) 0 data)\<rparr>)))"

definition BN_le2bn :: "heap_env \<Rightarrow> bytes \<Rightarrow> BIGNUM option \<Rightarrow> BIGNUM option \<times> BIGNUM option" where
  "BN_le2bn env data = bn_result_in env (le2bn_into env data)"

definition BN_bn2bin :: "BIGNUM \<Rightarrow> bytes \<Rightarrow> nat \<times> bytes" where
  "BN_bn2bin bn out =
     (let n = BN_num_bytes bn
      in (n, mem_write out 0
               (map (\<lambda>i. ucast (drop_bit (8 * (i mod 8)) (bn_d bn ! (i div 8))) AND 0xff) (rev [0 ..< n]))))"

definition fits_in_bytes :: "bytes \<Rightarrow> nat \<Rightarrow> nat \<Rightarrow> bool" where
  "fits_in_bytes bs num_bytes len \<longleftrightarrow> foldl (\<lambda>msk i. msk OR bs ! i) 0 [len ..< num_bytes] = 0"

text \<open>The two padded forms fill the whole buffer of \<open>len\<close> bytes at \<open>out\<close>.\<close>

definition BN_bn2le_padded :: "nat \<Rightarrow> BIGNUM \<Rightarrow> (bytes, unit) op" where
  "BN_bn2le_padded len bn out =
     (let bs = word_bytes (bn_d bn); num_bytes = bn_width bn * 8
      in if len < num_bytes \<and> \<not> fits_in_bytes bs num_bytes len then (None, out)
         else
           let num_bytes = (if len < num_bytes then len else num_bytes);
               out = mem_write out 0 (take num_bytes bs)
           in (Some (), mem_write out num_bytes (replicate (len - num_bytes) 0)))"

definition BN_bn2bin_padded :: "nat \<Rightarrow> BIGNUM \<Rightarrow> (bytes, unit) op" where
  "BN_bn2bin_padded len bn out =
     (let bs = word_bytes (bn_d bn); num_bytes = bn_width bn * 8
      in if len < num_bytes \<and> \<not> fits_in_bytes bs num_bytes len then (None, out)
         else
           let num_bytes = (if len < num_bytes then len else num_bytes);
               out = foldl (\<lambda>out i. out[len - i - 1 := bs ! i]) out [0 ..< num_bytes]
           in (Some (), mem_write out 0 (replicate (len - num_bytes) 0)))"

definition BN_get_word :: "BIGNUM \<Rightarrow> u64" where
  "BN_get_word bn =
     (if bn_minimal_width bn = 0 then 0
      else if bn_minimal_width bn = 1 then bn_d bn ! 0
      else - 1)"

definition BN_get_u64 :: "BIGNUM \<Rightarrow> u64 option" where
  "BN_get_u64 bn =
     (if bn_minimal_width bn = 0 then Some 0
      else if bn_minimal_width bn = 1 then Some (bn_d bn ! 0)
      else None)"

section \<open>bn_asn1.c and convert.c\<close>

text \<open>\<open>CBB_add_space\<close> hands out the position of the new bytes, and the number is written there.\<close>

definition BN_bn2cbb_padded :: "heap_env \<Rightarrow> nat \<Rightarrow> nat \<Rightarrow> BIGNUM \<Rightarrow> unit writer" where
  "BN_bn2cbb_padded env d len bn =
     and_then (CBB_add_space env d len) (\<lambda>ptr. on_base d (\<lambda>base.
       case BN_bn2bin_padded len bn (take len (drop ptr (cb_buf base))) of
         (None, out) \<Rightarrow> (None, base\<lparr>cb_buf := mem_write (cb_buf base) ptr out\<rparr>)
       | (Some _, out) \<Rightarrow> (Some (), base\<lparr>cb_buf := mem_write (cb_buf base) ptr out\<rparr>)))"

definition BN_parse_asn1_unsigned :: "heap_env \<Rightarrow> cbs \<times> BIGNUM \<Rightarrow> unit option \<times> cbs \<times> BIGNUM" where
  "BN_parse_asn1_unsigned env s =
     (let (cbs, ret) = s
      in case CBS_get_asn1 CBS_ASN1_INTEGER cbs of
           (None, cbs) \<Rightarrow> (None, cbs, ret)
         | (Some child, cbs) \<Rightarrow>
             if length child = 0 then (None, cbs, ret)
             else if child ! 0 AND 0x80 \<noteq> 0 then (None, cbs, ret)
             else if child ! 0 = 0 \<and> 1 < length child \<and> child ! 1 AND 0x80 = 0 then (None, cbs, ret)
             else
               case BN_bin2bn env child (Some ret) of
                 (None, Some ret) \<Rightarrow> (None, cbs, ret)
               | (Some _, Some ret) \<Rightarrow> (Some (), cbs, ret)
               | (_, None) \<Rightarrow> (None, cbs, ret))"

definition BN_marshal_asn1 :: "heap_env \<Rightarrow> nat \<Rightarrow> BIGNUM \<Rightarrow> unit writer" where
  "BN_marshal_asn1 env d bn =
     (if BN_is_negative bn then fail
      else
        and_then (CBB_add_asn1 env d CBS_ASN1_INTEGER) (\<lambda>_.
        and_then (if BN_num_bits bn mod 8 = 0 then CBB_add_u8 env (Suc d) 0 else ok ()) (\<lambda>_.
        and_then (BN_bn2cbb_padded env (Suc d) (BN_num_bytes bn) bn) (\<lambda>_.
        CBB_flush env d))))"

section \<open>Words and bytes\<close>

lemma le_val_append: "le_val (xs @ ys) = le_val xs + 256 ^ length xs * le_val ys"
  by (induction xs) (simp_all add: algebra_simps)

lemma length_word_bytes [simp]: "length (word_bytes ws) = 8 * length ws"
  by (induction ws) (simp_all add: word_bytes_def)

lemma pow_256_8: "256 ^ n = (2 :: nat) ^ (8 * n)"
  by (simp add: power_mult)

lemma le_val_word_bytes: "le_val (word_bytes ws) = wval ws"
proof (induction ws)
  case (Cons w ws)
  have "le_val (word_bytes (w # ws)) = le_val (le_bytes 8 (unat w)) + 256 ^ 8 * wval ws"
    using Cons.IH by (simp only: word_bytes_def list.map concat.simps le_val_append length_le_bytes)
  then show ?case using unat_u64_bound [of w] by simp
qed (simp add: word_bytes_def)

lemma word_bytes_eq: "word_bytes ws = le_bytes (8 * length ws) (wval ws)"
  using le_bytes_le_val [of "word_bytes ws" "8 * length ws"] by (simp add: le_val_word_bytes)

lemma length_bytes_words: "length (bytes_words bs) = length bs div 8"
  by (simp add: bytes_words_def)

lemma le_val_bound: "le_val bs < 256 ^ length bs"
  using be_val_bound [of "rev bs"] by (simp add: le_val_def)

lemma wval_bytes_words: "8 dvd length bs \<Longrightarrow> wval (bytes_words bs) = le_val bs"
proof -
  assume "8 dvd length bs"
  then have "64 * (length bs div 8) = 8 * length bs" by auto
  then show ?thesis using le_val_bound [of bs] unfolding bytes_words_def wval_words_of pow_256_8 by (simp only: mod_less)
qed

lemma nth_le_bytes: "i < n \<Longrightarrow> le_bytes n v ! i = of_nat (v div 256 ^ i)"
proof (induction n arbitrary: v i)
  case (Suc n)
  then show ?case by (cases i) (simp_all add: div_mult2_eq)
qed simp

lemma take_le_bytes: "k \<le> n \<Longrightarrow> take k (le_bytes n v) = le_bytes k v"
  by (rule nth_equalityI) (simp_all add: nth_le_bytes)

lemma take_word_bytes: "take (8 * k) (word_bytes ws) = word_bytes (take k ws)"
proof (induction ws arbitrary: k)
  case (Cons w ws)
  show ?case
  proof (cases k)
    case (Suc j)
    then show ?thesis using Cons.IH [of j] by (simp add: word_bytes_def)
  qed (simp add: word_bytes_def)
qed (simp add: word_bytes_def)

lemma rev_le_bytes: "rev (le_bytes n v) = be_bytes n v"
  by (simp add: le_bytes_def)


lemma bin2bn_loop_exact:
  assumes "n \<le> length d" "m < 8" "unat word < 256 ^ (7 - m)"
    and "if n = 0 then bs = [] \<and> word = 0 else length bs = 8 * (n - 1) + m + 1"
    and "d' = bin2bn_loop bs word m n d"
  shows "length d' = length d \<and> drop n d' = drop n d \<and> wval (take n d') = unat word * 256 ^ length bs + be_val bs"
  using assms
proof (induction bs word m n d arbitrary: d' rule: bin2bn_loop.induct)
  case (1 word m n d)
  then show ?case by (auto split: if_splits)
next
  case (2 b bs word m n d)
  define word' where "word' = push_bit 8 word OR ucast b"
  have n: "0 < n" "length bs = 8 * (n - 1) + m" using "2.prems"(4) by (auto split: if_splits)
  have "(256 :: nat) ^ (7 - m) \<le> 256 ^ 7" by (intro power_increasing) simp_all
  then have wb: "unat word < 256 ^ 7" using "2.prems"(3) by linarith
  have ub: "unat (ucast b :: u64) = unat b" by simp
  have w': "unat word' = unat word * 256 + unat b"
  proof -
    have "unat (push_bit 8 word OR ucast b) = unat word * 2 ^ 8 + unat (ucast b :: u64)"
      using wb by (intro unat_or_shift) (simp_all add: ub del: unat_ucast_up)
    then show ?thesis by (simp add: word'_def ub)
  qed
  show ?case
  proof (cases "m = 0")
    case True
    let ?d = "d[n - 1 := word']"
    have d': "d' = bin2bn_loop bs 0 7 (n - 1) ?d"
      using "2.prems"(5) True by (simp add: word'_def Let_def)
    have c: "if n - 1 = 0 then bs = [] \<and> (0 :: u64) = 0 else length bs = 8 * (n - 1 - 1) + 7 + 1"
      using n True by (cases "n - 1") auto
    have "length d' = length ?d \<and> drop (n - 1) d' = drop (n - 1) ?d \<and>
        wval (take (n - 1) d') = unat (0 :: u64) * 256 ^ length bs + be_val bs"
      using "2.IH"(1) [OF refl, of d'] "2.prems"(1) c d' True unfolding word'_def [symmetric] by simp
    then have r: "length d' = length d" "drop (n - 1) d' = word' # drop n d" "wval (take (n - 1) d') = be_val bs"
      using n "2.prems"(1) by (simp_all add: drop_update_swap Cons_nth_drop_Suc [symmetric])
    have "d' ! (n - 1) = word'" using r(2) n(1) "2.prems"(1) r(1) by (metis nth_via_drop)
    then have "wval (take n d') = be_val bs + 2 ^ (64 * (n - 1)) * unat word'"
      using wval_take_Suc [of "n - 1" d'] r n(1) "2.prems"(1) by simp
    moreover have "(2 :: nat) ^ (64 * (n - 1)) = 256 ^ length bs"
      using n(2) True by (simp add: pow_256_8)
    moreover have "drop n d' = drop n d" using arg_cong [OF r(2), of "drop 1"] n(1) by simp
    ultimately show ?thesis using r(1) by (simp add: w' be_val_Cons algebra_simps)
  next
    case False
    have d': "d' = bin2bn_loop bs word' (m - 1) n d"
      using "2.prems"(5) False by (simp add: word'_def Let_def)
    have "unat word' < 256 ^ (7 - m) * 256" using "2.prems"(3) unat_u8_bound [of b] unfolding w' by linarith
    also have "\<dots> = 256 ^ Suc (7 - m)" by simp
    also have "Suc (7 - m) = 7 - (m - 1)" using False "2.prems"(2) by simp
    finally have "length d' = length d \<and> drop n d' = drop n d \<and>
        wval (take n d') = unat word' * 256 ^ length bs + be_val bs"
      using "2.IH"(2) [OF refl, of d'] "2.prems"(1,2) n d' False unfolding word'_def [symmetric] by simp
    then show ?thesis by (simp add: w' be_val_Cons algebra_simps)
  qed
qed


lemma bin2bn_into_exact:
  assumes "bn_ok b" "bn_room env ((length data + 7) div 8) b"
  shows "\<exists>v. bin2bn_into env data b = (Some (), v) \<and> bn_ok v \<and> bn_abs v = be_val data \<and> bn_neg v = (data = [] \<and> bn_neg b)"
proof (cases "data = []")
  case True
  then show ?thesis using assms by (simp add: bin2bn_into_def bn_ok_def bn_abs_def)
next
  case False
  let ?n = "(length data - 1) div 8 + 1" and ?m = "(length data - 1) mod 8"
  let ?g = "bn_grow env ?n b" and ?d = "bin2bn_loop data 0 ((length data - 1) mod 8) ((length data - 1) div 8 + 1)"
  have len: "length data = 8 * (?n - 1) + ?m + 1" using False by (cases data) simp_all
  have n: "(length data + 7) div 8 = ?n" using False by (cases data) (simp_all add: div_add_self2)
  note g = bn_grow_d [OF assms(1), of env ?n] assms(2) [unfolded n]
  have "length (?d (bn_d ?g)) = length (bn_d ?g) \<and> drop ?n (?d (bn_d ?g)) = drop ?n (bn_d ?g) \<and>
      wval (take ?n (?d (bn_d ?g))) = unat (0 :: u64) * 256 ^ length data + be_val data"
    using g len by (intro bin2bn_loop_exact [OF _ _ _ _ refl]) simp_all
  then show ?thesis using False g
    by (simp add: bin2bn_into_def Let_def bn_wexpand_eq bn_ok_def bn_abs_def)
qed

lemma word_bytes_bytes_words: "8 dvd length bs \<Longrightarrow> word_bytes (bytes_words bs) = bs"
  by (simp add: word_bytes_eq wval_bytes_words length_bytes_words le_bytes_le_val)

lemma le_bytes_zero: "le_bytes n 0 = replicate n 0"
  by (induction n) simp_all

lemma le_val_replicate_0 [simp]: "le_val (replicate n 0) = 0"
  by (induction n) simp_all

lemma le2bn_into_exact:
  assumes "bn_ok b" "bn_room env ((length data + 7) div 8) b"
  shows "\<exists>v. le2bn_into env data b = (Some (), v) \<and> bn_ok v \<and> bn_abs v = le_val data \<and> bn_neg v = (data \<noteq> [] \<and> bn_neg b)"
proof (cases "data = []")
  case True
  then show ?thesis using assms by (simp add: le2bn_into_def bn_ok_def bn_abs_def le_val_def)
next
  case False
  define n where "n = (length data - 1) div 8 + 1"
  have len: "8 * (n - 1) < length data" "length data \<le> 8 * n" "0 < n" "(length data + 7) div 8 = n"
    using False unfolding n_def by (cases data; simp; linarith)+
  let ?g = "bn_grow env n b"
  note g = bn_grow_d [OF assms(1), of env n] assms(2) [unfolded len(4)]
  let ?d = "(bn_d ?g)[n - 1 := 0]"
  let ?bs = "mem_write (word_bytes ?d) 0 data"
  have l: "length ?bs = 8 * length ?d" using g len by simp
  have "bn_abs (b\<lparr>bn_width := n, bn_d := bytes_words ?bs\<rparr>) = wval (take n (bytes_words ?bs))"
    by (simp add: bn_abs_def)
  also have "\<dots> = le_val (word_bytes (take n (bytes_words ?bs)))" by (simp add: le_val_word_bytes)
  also have "\<dots> = le_val (take (8 * n) (word_bytes (bytes_words ?bs)))" by (simp add: take_word_bytes)
  also have "word_bytes (bytes_words ?bs) = ?bs"
    using g len by (intro word_bytes_bytes_words) simp
  also have "take (8 * n) ?bs = data @ replicate (8 * n - length data) 0"
  proof -
    have "drop (length data) (take (8 * n) (word_bytes ?d)) = replicate (8 * n - length data) 0"
    proof -
      have t: "take n ?d = take (n - 1) ?d @ [0]"
        using len g by (cases n) (simp_all add: take_Suc_conv_app_nth)
      have "take (8 * n) (word_bytes ?d) = word_bytes (take (n - 1) ?d) @ replicate 8 0"
        unfolding take_word_bytes t by (simp add: word_bytes_def le_bytes_zero)
      moreover have "length (word_bytes (take (n - 1) ?d)) = 8 * (n - 1)" using len g by simp
      ultimately show ?thesis using len by (simp add: drop_replicate)
    qed
    then show ?thesis using len g by (simp add: mem_write_def min_absorb2 drop_take)
  qed
  finally have "bn_abs (b\<lparr>bn_width := n, bn_d := bytes_words ?bs\<rparr>) = le_val data" by (simp add: le_val_append le_val_replicate_0)
  moreover have "(length data - Suc 0) div 8 = n - Suc 0" by (simp add: n_def)
  ultimately show ?thesis using False g len
    by (simp add: le2bn_into_def Let_def bn_wexpand_eq bn_ok_def bn_abs_def length_bytes_words)
qed

lemma le_val_eq_0_iff: "le_val bs = 0 \<longleftrightarrow> (\<forall>b \<in> set bs. b = 0)"
  by (induction bs) (auto simp: unat_eq_0)

lemma fits_in_bytes_exact:
  assumes "num_bytes \<le> length bs"
  shows "fits_in_bytes bs num_bytes len \<longleftrightarrow> le_val (drop len (take num_bytes bs)) = 0"
  using assms by (auto simp: fits_in_bytes_def foldl_or_eq_0 set_drop_take le_val_eq_0_iff)

lemma le_val_drop: "k \<le> length bs \<Longrightarrow> le_val (drop k bs) = le_val bs div 256 ^ k"
  using le_val_append [of "take k bs" "drop k bs"] le_val_bound [of "take k bs"] by (simp add: min_absorb2)

lemma padded_exact:
  assumes "bn_ok b"
  shows "take (8 * bn_width b) (word_bytes (bn_d b)) = le_bytes (8 * bn_width b) (bn_abs b)"
    and "len < 8 * bn_width b \<Longrightarrow> fits_in_bytes (word_bytes (bn_d b)) (8 * bn_width b) len \<longleftrightarrow> bn_abs b < 256 ^ len"
    and "8 * bn_width b \<le> len \<Longrightarrow> bn_abs b < 256 ^ len"
proof -
  show t: "take (8 * bn_width b) (word_bytes (bn_d b)) = le_bytes (8 * bn_width b) (bn_abs b)"
    using assms by (simp only: take_word_bytes) (simp add: word_bytes_eq bn_abs_def bn_ok_def min_absorb2)
  have v: "le_val (le_bytes (8 * bn_width b) (bn_abs b)) = bn_abs b"
    using bn_abs_bound [OF assms] by (simp add: pow_256_8)
  show "fits_in_bytes (word_bytes (bn_d b)) (8 * bn_width b) len \<longleftrightarrow> bn_abs b < 256 ^ len" if "len < 8 * bn_width b"
    using assms that
    by (simp add: fits_in_bytes_exact bn_ok_def t le_val_drop v div_eq_0_iff del: le_val_le_bytes)
  show "bn_abs b < 256 ^ len" if "8 * bn_width b \<le> len"
  proof -
    have "(2 :: nat) ^ (64 * bn_width b) \<le> 256 ^ len"
      unfolding pow_256_8 using that by (intro power_increasing) simp_all
    then show ?thesis using bn_abs_bound [OF assms] by (rule less_le_trans [rotated])
  qed
qed

lemma padded_take':
  assumes "bn_ok b" "k \<le> 8 * bn_width b"
  shows "take k (word_bytes (bn_d b)) = le_bytes k (bn_abs b)"
proof -
  have "take k (word_bytes (bn_d b)) = take k (take (8 * bn_width b) (word_bytes (bn_d b)))"
    using assms(2) by (simp add: min_absorb1)
  then show ?thesis using assms(2) by (simp only: padded_exact(1) [OF assms(1)] take_le_bytes)
qed

lemma padded_take:
  "bn_ok b \<Longrightarrow> take (if len < bn_width b * 8 then len else bn_width b * 8) (word_bytes (bn_d b)) =
    le_bytes (if len < bn_width b * 8 then len else bn_width b * 8) (bn_abs b)"
  by (rule padded_take') simp_all

lemma le_bytes_pad: "v < 256 ^ k \<Longrightarrow> k \<le> n \<Longrightarrow> le_bytes k v @ replicate (n - k) 0 = le_bytes n v"
  using le_bytes_le_val [of "le_bytes k v @ replicate (n - k) 0" n]
    le_val_le_bytes [of "n - k" 0, unfolded le_bytes_zero]
  by (simp add: le_val_append)

lemma mem_write_whole: "length xs = length m \<Longrightarrow> mem_write m 0 xs = xs"
  by (simp add: mem_write_def)

lemma BN_bn2le_padded_exact:
  assumes "bn_ok b" "length out = len"
  shows "BN_bn2le_padded len b out = (if bn_abs b < 256 ^ len then (Some (), le_bytes len (bn_abs b)) else (None, out))"
proof (cases "bn_abs b < 256 ^ len")
  case True
  let ?k = "if len < bn_width b * 8 then len else bn_width b * 8"
  note k = padded_take [OF assms(1), of len]
  have "bn_abs b < 256 ^ ?k" using True padded_exact(3) [OF assms(1), of "8 * bn_width b"] by (auto simp: mult.commute)
  then have "mem_write (mem_write out 0 (le_bytes ?k (bn_abs b))) ?k (replicate (len - ?k) 0) = le_bytes len (bn_abs b)"
    using assms(2) le_bytes_pad [of "bn_abs b" ?k len] by (auto simp: mem_write_def)
  moreover have "\<not> (len < bn_width b * 8 \<and> \<not> fits_in_bytes (word_bytes (bn_d b)) (bn_width b * 8) len)"
    using padded_exact(2) [OF assms(1), of len] True by (auto simp: mult.commute)
  ultimately show ?thesis using True by (simp only: BN_bn2le_padded_def Let_def if_False k if_True)
next
  case False
  then have "len < bn_width b * 8 \<and> \<not> fits_in_bytes (word_bytes (bn_d b)) (bn_width b * 8) len"
    using padded_exact(2,3) [OF assms(1), of len] by (cases "len < bn_width b * 8") (simp_all add: mult.commute not_less)
  then show ?thesis using False by (simp add: BN_bn2le_padded_def Let_def)
qed

lemma foldl_reversed:
  "length out = len \<Longrightarrow> k \<le> length bs \<Longrightarrow> k \<le> len \<Longrightarrow>
    foldl (\<lambda>out i. out[len - i - 1 := bs ! i]) out [0 ..< k] = take (len - k) out @ rev (take k bs)"
proof (induction k)
  case (Suc k)
  have "take (len - k) out = take (len - Suc k) out @ [out ! (len - Suc k)]"
    using Suc.prems by (simp add: take_Suc_conv_app_nth [symmetric] Suc_diff_Suc)
  then show ?case using Suc by (simp add: take_Suc_conv_app_nth list_update_append min_absorb2)
qed simp

lemma BN_bn2bin_padded_exact:
  assumes "bn_ok b" "length out = len"
  shows "BN_bn2bin_padded len b out = (if bn_abs b < 256 ^ len then (Some (), be_bytes len (bn_abs b)) else (None, out))"
proof (cases "bn_abs b < 256 ^ len")
  case True
  let ?bs = "word_bytes (bn_d b)"
  define k where "k = (if len < bn_width b * 8 then len else bn_width b * 8)"
  have t: "take k ?bs = le_bytes k (bn_abs b)" unfolding k_def by (rule padded_take [OF assms(1)])
  have "bn_abs b < 256 ^ k" using True padded_exact(3) [OF assms(1), of "8 * bn_width b"] by (auto simp: k_def mult.commute)
  moreover have k: "k \<le> length ?bs" "k \<le> len" using assms by (auto simp: bn_ok_def k_def)
  ultimately have "rev (le_bytes k (bn_abs b) @ replicate (len - k) 0) = be_bytes len (bn_abs b)"
    by (subst le_bytes_pad) (simp_all add: rev_le_bytes)
  then have "mem_write (foldl (\<lambda>out i. out[len - i - 1 := ?bs ! i]) out [0 ..< k]) 0 (replicate (len - k) 0)
      = be_bytes len (bn_abs b)"
    using k by (simp only: foldl_reversed [OF assms(2) k] t) (simp add: mem_write_def assms(2))
  moreover have "\<not> (len < bn_width b * 8 \<and> \<not> fits_in_bytes ?bs (bn_width b * 8) len)"
    using padded_exact(2) [OF assms(1), of len] True by (auto simp: mult.commute)
  ultimately show ?thesis using True by (simp only: BN_bn2bin_padded_def Let_def if_False if_True k_def)
next
  case False
  then have "len < bn_width b * 8 \<and> \<not> fits_in_bytes (word_bytes (bn_d b)) (bn_width b * 8) len"
    using padded_exact(2,3) [OF assms(1), of len] by (cases "len < bn_width b * 8") (simp_all add: mult.commute not_less)
  then show ?thesis using False by (simp add: BN_bn2bin_padded_def Let_def)
qed

lemma BN_num_bytes_exact:
  assumes "bn_ok b"
  shows "bn_abs b < 256 ^ k \<longleftrightarrow> BN_num_bytes b \<le> k" "BN_num_bytes b \<le> 8 * bn_width b"
proof -
  have fl: "x < 2 ^ j \<longleftrightarrow> floorlog 2 x \<le> j" for x j :: nat
    by (simp add: floorlog_le_iff)
  show *: "bn_abs b < 256 ^ k \<longleftrightarrow> BN_num_bytes b \<le> k" for k
    unfolding pow_256_8 fl BN_num_bytes_def BN_num_bits_exact [OF assms] by linarith
  show "BN_num_bytes b \<le> 8 * bn_width b" using padded_exact(3) [OF assms] * by blast
qed

lemma nth_word_bytes:
  "i < 8 * length ws \<Longrightarrow> word_bytes ws ! i = ucast (drop_bit (8 * (i mod 8)) (ws ! (i div 8)))"
proof (induction ws arbitrary: i)
  case (Cons w ws)
  have wb: "word_bytes (w # ws) = le_bytes 8 (unat w) @ word_bytes ws" by (simp add: word_bytes_def)
  show ?case
  proof (cases "i < 8")
    case True
    have "(of_nat (unat w div 256 ^ i) :: u8) = ucast (drop_bit (8 * i) w)"
      by (simp add: pow_256_8 bit_eq_iff bit_simps bit_unat flip: drop_bit_eq_div)
    then show ?thesis using True by (simp only: wb nth_append length_le_bytes if_True nth_le_bytes) simp
  next
    case False
    then show ?thesis using Cons by (simp add: wb nth_append le_div_geq le_mod_geq)
  qed
qed simp

lemma and_u8_ff [simp]: "x AND 0xff = (x :: u8)"
proof -
  have "(0xff :: u8) = - 1" by simp
  show ?thesis unfolding \<open>(0xff :: u8) = - 1\<close> by (rule and.right_neutral)
qed

lemma BN_bn2bin_exact:
  assumes "bn_ok b"
  shows "BN_bn2bin b out = (BN_num_bytes b, mem_write out 0 (be_bytes (BN_num_bytes b) (bn_abs b)))"
proof -
  let ?n = "BN_num_bytes b"
  have n: "?n \<le> 8 * bn_width b" using BN_num_bytes_exact(2) [OF assms] .
  have "map (\<lambda>i. ucast (drop_bit (8 * (i mod 8)) (bn_d b ! (i div 8))) AND 0xff) [0 ..< ?n] = take ?n (word_bytes (bn_d b))"
    using n assms by (intro nth_equalityI) (auto simp: nth_word_bytes bn_ok_def)
  also have "\<dots> = le_bytes ?n (bn_abs b)" using padded_take' [OF assms n] .
  finally show ?thesis by (simp add: BN_bn2bin_def Let_def rev_map [symmetric] rev_le_bytes)
qed

lemma BN_get_u64_exact:
  assumes "bn_ok b"
  shows "BN_get_u64 b = (if bn_abs b < 2 ^ 64 then Some (of_nat (bn_abs b)) else None)"
proof -
  let ?k = "bn_minimal_width b"
  note k = bn_minimal_width_exact [OF assms]
  have len: "?k \<le> length (bn_d b)" using k(1) assms by (simp add: bn_ok_def)
  show ?thesis
  proof (cases "?k \<le> 1")
    case True
    then have "?k = 0 \<or> ?k = 1" by auto
    then show ?thesis
    proof
      assume "?k = 1"
      then have "bn_abs b = unat (bn_d b ! 0)" using k(2) len by (cases "bn_d b") simp_all
      then show ?thesis using \<open>?k = 1\<close> unat_u64_bound [of "bn_d b ! 0"] by (simp add: BN_get_u64_def)
    qed (use k(2) in \<open>simp add: BN_get_u64_def\<close>)
  next
    case False
    then have "wval (take (?k - 1) (bn_d b)) + 2 ^ (64 * (?k - 1)) * unat (bn_d b ! (?k - 1)) = bn_abs b"
      using wval_take_Suc [of "?k - 1" "bn_d b"] len k(2) by simp
    moreover have "0 < unat (bn_d b ! (?k - 1))" using k(3) False by (simp add: unat_gt_0)
    moreover have "(2 :: nat) ^ 64 \<le> 2 ^ (64 * (?k - 1))" using False by (intro power_increasing) simp_all
    moreover have "x \<le> v" if "w + p * u = v" "0 < u" "x \<le> p" for v u w p x :: nat
    proof -
      have "p * 1 \<le> p * u" using that by (intro mult_le_mono2) simp
      then show ?thesis using that by linarith
    qed
    ultimately have "2 ^ 64 \<le> bn_abs b" by blast
    then show ?thesis using False by (simp add: BN_get_u64_def)
  qed
qed

lemma BN_get_word_exact: "bn_ok b \<Longrightarrow> BN_get_word b = (if bn_abs b < 2 ^ 64 then of_nat (bn_abs b) else - 1)"
  using BN_get_u64_exact [of b] by (auto simp: BN_get_u64_def BN_get_word_def split: if_splits)


section \<open>Numbers and byte strings\<close>

text \<open>C39. Bytes and numbers correspond: reading a big-endian or a little-endian string gives its value,
  whatever the destination held, provided that it was not negative. What a negative
  destination leaves is its sign, on the empty string in \<open>BN_bin2bn\<close> and on every other one in
  \<open>BN_le2bn\<close> (C40); the absolute value is right then, too.
  The padded writers give the string of exactly \<open>len\<close> bytes when the absolute value fits and
  fail without a change when it does not, \<open>BN_bn2bin\<close> gives the shortest string, and reading it back gives
  the absolute value.
\<close>

theorem BN_bytes_exact:
  assumes "bn_ok a" "bn_ok b" "bn_room env ((length data + 7) div 8) b" "length out = len"
  shows "(\<exists>v. BN_bin2bn env data (Some b) = (Some v, Some v) \<and> bn_ok v \<and> bn_abs v = be_val data \<and>
      bn_neg v = (data = [] \<and> bn_neg b) \<and> (\<not> bn_neg b \<longrightarrow> bn_val v = int (be_val data))) \<and>
    (\<exists>v. BN_le2bn env data (Some b) = (Some v, Some v) \<and> bn_ok v \<and> bn_abs v = le_val data \<and>
      bn_neg v = (data \<noteq> [] \<and> bn_neg b) \<and> (\<not> bn_neg b \<longrightarrow> bn_val v = int (le_val data))) \<and>
    BN_bn2bin_padded len a out = (if bn_abs a < 256 ^ len then (Some (), be_bytes len (bn_abs a)) else (None, out)) \<and>
    BN_bn2le_padded len a out = (if bn_abs a < 256 ^ len then (Some (), le_bytes len (bn_abs a)) else (None, out)) \<and>
    (bn_abs a < 256 ^ len \<longleftrightarrow> BN_num_bytes a \<le> len) \<and>
    (len = BN_num_bytes a \<longrightarrow> BN_bn2bin a out = (len, be_bytes len (bn_abs a))) \<and>
    (data = be_bytes (BN_num_bytes a) (bn_abs a) \<longrightarrow>
      (\<exists>v. BN_bin2bn env data (Some b) = (Some v, Some v) \<and> bn_abs v = bn_abs a \<and>
        (bn_abs a \<noteq> 0 \<longrightarrow> \<not> bn_neg v))) \<and>
    BN_get_u64 a = (if bn_abs a < 2 ^ 64 then Some (of_nat (bn_abs a)) else None) \<and>
    BN_get_word a = (if bn_abs a < 2 ^ 64 then of_nat (bn_abs a) else - 1)"
proof -
  obtain v where v: "bin2bn_into env data b = (Some (), v)" "bn_ok v" "bn_abs v = be_val data" "bn_neg v = (data = [] \<and> bn_neg b)"
    using bin2bn_into_exact [OF assms(2,3)] by blast
  obtain w where w: "le2bn_into env data b = (Some (), w)" "bn_ok w" "bn_abs w = le_val data" "bn_neg w = (data \<noteq> [] \<and> bn_neg b)"
    using le2bn_into_exact [OF assms(2,3)] by blast
  have V: "BN_bin2bn env data (Some b) = (Some v, Some v)" and W: "BN_le2bn env data (Some b) = (Some w, Some w)"
    using v w by (simp_all add: BN_bin2bn_def BN_le2bn_def bn_result_in_def)
  have B: "BN_bn2bin a out = (len, be_bytes len (bn_abs a))" if "len = BN_num_bytes a"
    using that assms(4) by (simp add: BN_bn2bin_exact [OF assms(1)] mem_write_whole)
  have "bn_abs a < 256 ^ BN_num_bytes a" using BN_num_bytes_exact(1) [OF assms(1), of "BN_num_bytes a"] by simp
  then have R: "bn_abs v = bn_abs a \<and> (bn_abs a \<noteq> 0 \<longrightarrow> \<not> bn_neg v)" if "data = be_bytes (BN_num_bytes a) (bn_abs a)"
    using that v by auto
  have S: "\<not> bn_neg b \<longrightarrow> bn_val v = int (be_val data)" "\<not> bn_neg b \<longrightarrow> bn_val w = int (le_val data)"
    using v(3,4) w(3,4) by (simp_all add: bn_val_def)
  show ?thesis
    using V W B R S v(2-4) w(2-4) BN_num_bytes_exact(1) [OF assms(1), of len]
    by (simp only: BN_bn2bin_padded_exact [OF assms(1,4)] BN_bn2le_padded_exact [OF assms(1,4)]
        BN_get_u64_exact [OF assms(1)] BN_get_word_exact [OF assms(1)]) simp
qed

text \<open>C40. The sign that \<open>BN_bin2bn\<close> and \<open>BN_le2bn\<close> leave in a \<open>BIGNUM\<close> that was
  negative: \<open>BN_bin2bn\<close> clears it except on an empty string, where it leaves a negative zero that \<open>BN_cmp\<close> puts
  below zero, and \<open>BN_le2bn\<close> clears it only on an empty string, so that any other one is read as a
  negative number.
\<close>

theorem BN_read_keeps_sign:
  assumes "bn_ok b" "bn_neg b" "bn_room env ((length data + 7) div 8) b"
  shows "\<exists>v w. BN_bin2bn env data (Some b) = (Some v, Some v) \<and> BN_le2bn env data (Some b) = (Some w, Some w) \<and>
    bn_val w = - int (le_val data) \<and>
    (if data = [] then BN_is_zero v \<and> BN_is_negative v \<and> BN_cmp (Some v) (Some w) = - 1 \<and> bn_val v = bn_val w
     else bn_val v = int (be_val data))"
proof -
  obtain v where v: "bin2bn_into env data b = (Some (), v)" "bn_ok v" "bn_abs v = be_val data" "bn_neg v = (data = [] \<and> bn_neg b)"
    using bin2bn_into_exact [OF assms(1,3)] by blast
  obtain w where w: "le2bn_into env data b = (Some (), w)" "bn_ok w" "bn_abs w = le_val data" "bn_neg w = (data \<noteq> [] \<and> bn_neg b)"
    using le2bn_into_exact [OF assms(1,3)] by blast
  have "BN_bin2bn env data (Some b) = (Some v, Some v)" "BN_le2bn env data (Some b) = (Some w, Some w)"
    using v w by (simp_all add: BN_bin2bn_def BN_le2bn_def bn_result_in_def)
  moreover have "BN_cmp (Some v) (Some w) = - 1" if "data = []"
    using that v w assms(2) by (simp add: BN_cmp_def)
  ultimately show ?thesis using v w assms(2)
    by (intro exI [of _ v] exI [of _ w]) (auto simp: bn_val_def BN_is_zero_exact BN_is_negative_def)
qed

section \<open>INTEGERs of any size\<close>

text \<open>The contents octets of a number: as many as its bits and one sign bit take.\<close>

definition bn_octets :: "nat \<Rightarrow> bytes" where
  "bn_octets v = be_bytes (floorlog 2 v div 8 + 1) v"

lemma bn_octets_fact:
  "length c = Suc k \<Longrightarrow> floorlog 2 (be_val c) \<le> 8 * k + 7 \<longleftrightarrow> unat (hd c) < 128"
proof -
  assume l: "length c = Suc k"
  then obtain b bs where c: "c = b # bs" "length bs = k" by (cases c) auto
  have "be_val c < 2 ^ (8 * k + 7) \<longleftrightarrow> be_val c div 256 ^ k < 128"
    by (simp add: div_less_iff_less_mult power_add pow_256_8 mult.commute)
  also have "be_val c div 256 ^ k = unat b"
    using be_val_bound [of bs] by (simp add: c be_val_Cons)
  finally show ?thesis by (simp add: c floorlog_le_iff)
qed

lemma bn_octets_minimal:
  assumes "length c = Suc k" "unat (hd c) < 128"
  shows "int_octets c = c \<longleftrightarrow> k = 0 \<or> 8 * k \<le> floorlog 2 (be_val c)"
proof (cases k)
  case 0
  then show ?thesis using assms(1) by (cases c rule: int_octets.cases) auto
next
  case (Suc j)
  then obtain x y r where c: "c = x # y # r" "length r = j"
    using assms(1) by (cases c; cases "tl c") auto
  have "floorlog 2 (be_val c) < 8 * k \<longleftrightarrow> floorlog 2 (be_val c) \<le> 8 * j + 7" using Suc by linarith
  also have "\<dots> \<longleftrightarrow> be_val c < 2 ^ (8 * j + 7)" by (simp add: floorlog_le_iff)
  also have "\<dots> \<longleftrightarrow> be_val c div 256 ^ j < 128"
    by (simp add: div_less_iff_less_mult power_add pow_256_8 mult.commute)
  also have "be_val c div 256 ^ j = unat x * 256 + unat y"
  proof -
    have "be_val c = (unat x * 256 + unat y) * 256 ^ j + be_val r"
      using c by (simp add: be_val_Cons algebra_simps)
    then show ?thesis using be_val_bound [of r] c by simp
  qed
  also have "unat x * 256 + unat y < 128 \<longleftrightarrow> x = 0 \<and> unat y < 128"
    using unat_gt_0 [of x] by (cases "x = 0") auto
  finally have *: "8 * k \<le> floorlog 2 (be_val c) \<longleftrightarrow> \<not> (x = 0 \<and> unat y < 128)" by linarith
  have "x \<noteq> 0xff" using assms(2) c by auto
  then show ?thesis using Suc * unfolding minimal_int_iff by (auto simp: c u8_high_bit)
qed

lemma bn_octets_facts:
  "be_val (bn_octets v) = v" "bn_octets v \<noteq> []" "unat (hd (bn_octets v)) < 128" "int_octets (bn_octets v) = bn_octets v"
proof -
  have l: "length (bn_octets v) = Suc (floorlog 2 v div 8)" by (simp add: bn_octets_def)
  then show "bn_octets v \<noteq> []" by auto
  have d: "k \<le> 8 * Suc (k div 8)" "k \<le> 8 * (k div 8) + 7" "8 * (k div 8) \<le> k" for k :: nat by presburger+
  have "floorlog 2 v \<le> 8 * Suc (floorlog 2 v div 8)" by (rule d)
  then have "v < 256 ^ Suc (floorlog 2 v div 8)" unfolding pow_256_8 by (simp only: floorlog_le_iff) simp
  then show v: "be_val (bn_octets v) = v"
    unfolding bn_octets_def by (simp only: be_val_be_bytes Suc_eq_plus1 mod_less)
  have "floorlog 2 v \<le> 8 * (floorlog 2 v div 8) + 7" by (rule d)
  then show h: "unat (hd (bn_octets v)) < 128" using bn_octets_fact [OF l] v by simp
  have "8 * (floorlog 2 v div 8) \<le> floorlog 2 v" by (rule d)
  then show "int_octets (bn_octets v) = bn_octets v" using bn_octets_minimal [OF l h] v by simp
qed

lemma bn_octets_unique:
  assumes "c \<noteq> []" "unat (hd c) < 128" "int_octets c = c"
  shows "c = bn_octets (be_val c)"
proof -
  obtain k where k: "length c = Suc k" using assms(1) by (cases c) auto
  have "floorlog 2 (be_val c) \<le> 8 * k + 7" using bn_octets_fact [OF k] assms(2) by simp
  moreover have "k = 0 \<or> 8 * k \<le> floorlog 2 (be_val c)" using bn_octets_minimal [OF k] assms(2,3) by simp
  ultimately have "floorlog 2 (be_val c) div 8 = k" by linarith
  then show ?thesis using be_bytes_be_val [OF k] by (simp add: bn_octets_def del: be_bytes.simps)
qed

lemma BN_parse_asn1_unsigned_exact:
  assumes "bn_ok b" and "CBS_get_asn1 CBS_ASN1_INTEGER s = (c, s')"
  shows "case c of
      None \<Rightarrow> BN_parse_asn1_unsigned env (s, b) = (None, s', b)
    | Some c \<Rightarrow>
        if c = [] \<or> 128 \<le> unat (hd c) \<or> int_octets c \<noteq> c
        then BN_parse_asn1_unsigned env (s, b) = (None, s', b)
        else if bn_room env ((length c + 7) div 8) b
        then \<exists>v. BN_parse_asn1_unsigned env (s, b) = (Some (), s', v) \<and> bn_ok v \<and> bn_val v = int (be_val c)
        else BN_parse_asn1_unsigned env (s, b) = (None, s', b)"
proof (cases c)
  case (Some c)
  show ?thesis
  proof (cases "c = [] \<or> 128 \<le> unat (hd c) \<or> int_octets c \<noteq> c")
    case True
    then have "length c = 0 \<or> c ! 0 AND 0x80 \<noteq> 0 \<or> c ! 0 = 0 \<and> 1 < length c \<and> c ! 1 AND 0x80 = 0"
      using minimal_int_iff [of c] by (auto simp: u8_high_bit hd_conv_nth)
    then show ?thesis using Some True assms(2) by (auto simp: BN_parse_asn1_unsigned_def)
  next
    case False
    then have f: "length c \<noteq> 0" "c ! 0 AND 0x80 = 0" "\<not> (c ! 0 = 0 \<and> 1 < length c \<and> c ! 1 AND 0x80 = 0)"
      using minimal_int_iff [of c] by (auto simp: u8_high_bit hd_conv_nth)
    show ?thesis
    proof (cases "bn_room env ((length c + 7) div 8) b")
      case True
      from bin2bn_into_exact [OF assms(1) True]
      obtain v where v: "bin2bn_into env c b = (Some (), v)" "bn_ok v" "bn_abs v = be_val c" "bn_neg v = (c = [] \<and> bn_neg b)"
        by blast
      have "BN_parse_asn1_unsigned env (s, b) = (Some (), s', v)"
        using Some assms(2) f v unfolding BN_parse_asn1_unsigned_def
        by (simp only: prod.case option.case Let_def if_False not_True_eq_False simp_thms BN_bin2bn_def bn_result_in_def)
      then show ?thesis using Some v False True by (simp add: bn_val_def)
    next
      case no: False
      have "(length c + 7) div 8 = (length c - 1) div 8 + 1" using f(1) by (cases c) (simp_all add: div_add_self2)
      then have "bin2bn_into env c b = (None, b)"
        using no f(1) by (simp add: bin2bn_into_def bn_wexpand_eq Let_def)
      then have "BN_parse_asn1_unsigned env (s, b) = (None, s', b)"
        using Some assms(2) f unfolding BN_parse_asn1_unsigned_def
        by (simp only: prod.case option.case Let_def if_False not_True_eq_False simp_thms BN_bin2bn_def bn_result_in_def)
      then show ?thesis using Some False no by simp
    qed
  qed
qed (use assms(2) in \<open>simp add: BN_parse_asn1_unsigned_def\<close>)

lemma on_base_on_base:
  "and_then (on_base d m) (\<lambda>x. on_base d (f x)) = on_base d (and_then m f)"
  by (rule ext) (auto simp: and_then_def on_base_def base_of_def split: option.splits prod.splits)

lemma BN_bn2cbb_padded_writes:
  assumes h: "heap_bounded env" and b: "bn_ok b" "bn_abs b < 256 ^ len" and len: "len < 2 ^ 62"
  shows "writes env d (BN_bn2cbb_padded env d len b) (be_bytes len (bn_abs b))"
proof -
  let ?fill = "\<lambda>ptr base. case BN_bn2bin_padded len b (take len (drop ptr (cb_buf base))) of
      (None, out) \<Rightarrow> (None, base\<lparr>cb_buf := mem_write (cb_buf base) ptr out\<rparr>)
    | (Some _, out) \<Rightarrow> (Some (), base\<lparr>cb_buf := mem_write (cb_buf base) ptr out\<rparr>)"
  let ?m = "and_then (cbb_buffer_add env len) ?fill"
  have "?m base = and_then (cbb_buffer_add env len)
      (\<lambda>pos base. (Some (), base \<lparr> cb_buf := mem_write (cb_buf base) pos (be_bytes len (bn_abs b)) \<rparr>)) base"
    if "buffer_ok base" for base
  proof (cases rule: cbb_buffer_add_cases [OF that h len])
    case (1 b')
    then have "length (take len (drop (cb_len base) (cb_buf b'))) = len" by (auto simp: buffer_ok_def min_def)
    then show ?thesis using 1 by (simp add: BN_bn2bin_padded_exact [OF b(1)] b(2))
  qed simp
  then have "appends env ?m (be_bytes len (bn_abs b))"
    using appends_write [OF h, of "be_bytes len (bn_abs b)" "\<lambda>_ _. ()"] len by (simp add: appends_def)
  from writes_on_base [OF this h, of d] show ?thesis
    unfolding BN_bn2cbb_padded_def CBB_add_space_def and_then_assoc on_base_on_base .
qed

lemma be_bytes_pad: "v < 256 ^ n \<Longrightarrow> be_bytes (Suc n) v = 0 # be_bytes n v"
  using be_bytes_be_val [of "0 # be_bytes n v" "Suc n"] by (simp add: be_val_Cons del: be_bytes.simps)

lemma BN_marshal_asn1_writes:
  assumes h: "heap_bounded env" and b: "bn_ok b" "\<not> bn_neg b"
  shows "writes env d (BN_marshal_asn1 env d b) (der_element CBS_ASN1_INTEGER (bn_octets (bn_abs b)))"
    and "length (bn_octets (bn_abs b)) \<le> 0x4000000"
proof -
  let ?n = "BN_num_bytes b" and ?v = "bn_abs b"
  let ?body = "and_then (if BN_num_bits b mod 8 = 0 then CBB_add_u8 env (Suc d) 0 else ok ())
      (\<lambda>_. BN_bn2cbb_padded env (Suc d) ?n b)"
  note bits = BN_num_bits_exact [OF b(1)]
  have v: "?v < 256 ^ ?n" using BN_num_bytes_exact(1) [OF b(1), of ?n] by simp
  have "?n \<le> 8 * 8388607" using BN_num_bytes_exact(2) [OF b(1)] b(1) by (simp add: bn_ok_def)
  then have n: "?n < 0x4000000" "?n < 2 ^ 62" by simp_all
  note pad = BN_bn2cbb_padded_writes [OF h b(1) v n(2), of "Suc d"]
  have k: "floorlog 2 ?v div 8 + 1 = (if BN_num_bits b mod 8 = 0 then Suc ?n else ?n)"
    unfolding BN_num_bytes_def bits by (auto simp: mod_eq_0_iff_dvd) presburger?
  have w: "writes env (Suc d) ?body (bn_octets ?v)"
  proof (cases "BN_num_bits b mod 8 = 0")
    case True
    then have "bn_octets ?v = 0 # be_bytes ?n ?v" using k be_bytes_pad [OF v] by (simp add: bn_octets_def del: be_bytes.simps)
    then show ?thesis using writes_Cons [OF h pad, of 0] True by simp
  next
    case False
    then have "bn_octets ?v = be_bytes ?n ?v" using k by (simp add: bn_octets_def)
    then show ?thesis using pad False by simp
  qed
  show l: "length (bn_octets ?v) \<le> 0x4000000" using n(1) k by (simp add: bn_octets_def split: if_splits)
  then have "length (bn_octets ?v) \<le> 0xfffffffe" by simp
  from asn1_element_writes [OF h w this] b(2)
  show "writes env d (BN_marshal_asn1 env d b) (der_element CBS_ASN1_INTEGER (bn_octets ?v))"
    by (simp add: BN_marshal_asn1_def BN_is_negative_def and_then_assoc)
qed

text \<open>C35. INTEGERs of any size: with memory enough \<open>BN_marshal_asn1\<close> writes a number that is not negative as
  a DER INTEGER, \<open>BN_parse_asn1_unsigned\<close> reads the number back in front of any further bytes, and
  whatever it accepts for that number is byte for byte what was written.
\<close>

theorem BN_asn1_round_trip:
  assumes "heap_bounded env" and "cap < 2 ^ 62" and "bn_ok a" and "\<not> bn_neg a" and "bn_ok b"
    and "bn_room env (BN_num_bits a div 64 + 1) b"
    and "\<forall>n \<le> 2 * (BN_num_bits a div 8) + cap + 80. can_alloc env n"
  shows "\<exists>out. serialise env cap (BN_marshal_asn1 env 0 a) = Some out \<and>
    (\<forall>rest. \<exists>v. BN_parse_asn1_unsigned env (out @ rest, b) = (Some (), rest, v) \<and> bn_ok v \<and> bn_val v = bn_val a) \<and>
    (\<forall>s s' v. BN_parse_asn1_unsigned env (s, b) = (Some (), s', v) \<and> bn_val v = bn_val a \<longrightarrow> s = out @ s')"
proof -
  let ?c = "bn_octets (bn_abs a)"
  let ?out = "der_element CBS_ASN1_INTEGER ?c"
  note m = BN_marshal_asn1_writes [OF assms(1,3,4)] and bits = BN_num_bits_exact [OF assms(3)]
  have out: "length ?out \<le> BN_num_bits a div 8 + 20" "length ?out < 2 ^ 60"
    using m(2) length_tag_bytes [of CBS_ASN1_INTEGER] len_octets_range [of "length ?c"]
    by (simp_all add: der_element_def der_header_def der_length_def bn_octets_def bits)
  then have "serialise env cap (BN_marshal_asn1 env 0 a) = Some ?out"
    using assms(7) by (intro serialise_writes(2) [OF assms(1) m(1) assms(2)]) auto
  moreover have "\<exists>v. BN_parse_asn1_unsigned env (?out @ rest, b) = (Some (), rest, v) \<and> bn_ok v \<and> bn_val v = bn_val a" for rest
  proof -
    have g: "CBS_get_asn1 CBS_ASN1_INTEGER (?out @ rest) = (Some ?c, rest)" using m(2) by (intro asn1.rd_enc) simp
    have "(length ?c + 7) div 8 = BN_num_bits a div 64 + 1"
      by (simp add: bn_octets_def bits div_add_self2 flip: div_mult2_eq) 
    then show ?thesis
      using BN_parse_asn1_unsigned_exact [OF assms(5) g, of env] bn_octets_facts [of "bn_abs a"] assms(4,6)
      by (simp add: bn_val_def not_le)
  qed
  moreover have "s = ?out @ s'" if p: "BN_parse_asn1_unsigned env (s, b) = (Some (), s', v)" "bn_val v = bn_val a" for s s' v
  proof -
    obtain c t where g: "CBS_get_asn1 CBS_ASN1_INTEGER s = (c, t)" by (cases "CBS_get_asn1 CBS_ASN1_INTEGER s")
    note e = BN_parse_asn1_unsigned_exact [OF assms(5) g, of env]
    obtain c' where c: "c = Some c'" using e p by (cases c) auto
    then have f: "c' \<noteq> []" "unat (hd c') < 128" "int_octets c' = c'" "bn_val v = int (be_val c')" "t = s'"
      using e p by (auto split: if_splits)
    then have "c' = ?c" using bn_octets_unique [OF f(1-3)] p(2) assms(4) by (simp add: bn_val_def)
    then show ?thesis using asn1.rd_Some [OF g [unfolded c]] f(5) by simp
  qed
  ultimately show ?thesis by blast
qed

section \<open>Witnesses\<close>

theorem BN_bytes_exact_witness:
  "BN_bn2bin (bn_sample False [0x10203]) [0, 0, 0] = (3, be_bytes 3 0x10203) \<and>
   BN_bn2bin_padded 3 (bn_sample False [0x10203]) [0, 0, 0] = (Some (), be_bytes 3 0x10203) \<and>
   BN_bn2le_padded 3 (bn_sample False [0x10203]) [0, 0, 0] = (Some (), le_bytes 3 0x10203) \<and>
   (\<exists>v. BN_bin2bn bn_heap (be_bytes 3 0x10203) (Some (bn_sample True [9])) = (Some v, Some v) \<and>
      bn_abs v = 0x10203 \<and> \<not> bn_neg v) \<and>
   (\<exists>v. BN_le2bn bn_heap (be_bytes 3 0x10203) (Some (bn_sample False [9])) = (Some v, Some v) \<and> bn_val v = 0x30201)"
proof -
  let ?a = "bn_sample False [0x10203]" and ?b = "bn_sample True [9]" and ?data = "be_bytes 3 0x10203"
  have a: "bn_ok ?a" "bn_ok ?b" "bn_abs ?a = 0x10203" "(0x10203 :: nat) < 256 ^ 3" by simp_all
  have n: "BN_num_bytes ?a = 3" by (simp add: BN_num_bytes_def BN_num_bits_exact compute_floorlog)
  have r: "bn_room bn_heap ((length ?data + 7) div 8) ?b" by simp
  have le: "\<exists>v. BN_le2bn bn_heap ?data (Some (bn_sample False [9])) = (Some v, Some v) \<and> bn_val v = 0x30201"
  proof -
    have "bn_ok (bn_sample False [9])" "bn_room bn_heap ((length ?data + 7) div 8) (bn_sample False [9])" by simp_all
    moreover have "le_val ?data = 0x30201" by (simp add: le_val_def numeral_3_eq_3 be_val_def)
    moreover have "\<not> bn_neg (bn_sample False [9])" by (simp add: bn_sample_def)
    ultimately show ?thesis using BN_bytes_exact [OF a(1), of "bn_sample False [9]" bn_heap ?data "[]" 0] by auto
  qed
  show ?thesis
    using le BN_bytes_exact [OF a(1,2) r, of "[0, 0, 0]" 3] unfolding n a(3) by (simp only: a(4) if_True simp_thms list.size) simp
qed

theorem BN_read_keeps_sign_witness:
  "(\<exists>v w. BN_bin2bn bn_heap [] (Some (bn_sample True [9])) = (Some v, Some v) \<and>
     BN_le2bn bn_heap [] (Some (bn_sample True [9])) = (Some w, Some w) \<and> BN_is_negative v \<and> BN_cmp (Some v) (Some w) = - 1) \<and>
   (\<exists>w. BN_le2bn bn_heap [5] (Some (bn_sample True [9])) = (Some w, Some w) \<and> bn_val w = - 5)"
  using BN_read_keeps_sign [of "bn_sample True [9]" bn_heap "[]"] BN_read_keeps_sign [of "bn_sample True [9]" bn_heap "[5]"]
  by simp blast

theorem BN_asn1_round_trip_witness:
  "\<exists>out. serialise small_heap 16 (BN_marshal_asn1 small_heap 0 (bn_sample False [0x80])) = Some out \<and>
    (\<exists>v. BN_parse_asn1_unsigned small_heap (out @ [1, 2], bn_sample False [0]) = (Some (), [1, 2], v) \<and> bn_val v = 0x80)"
proof -
  let ?a = "bn_sample False [0x80]" and ?b = "bn_sample False [0]"
  have n: "BN_num_bits ?a = 8" by (simp add: BN_num_bits_exact compute_floorlog)
  have r: "bn_room small_heap (BN_num_bits ?a div 64 + 1) ?b" unfolding n by (simp add: bn_room_def) (simp add: bn_sample_def)
  have "bn_ok ?a" "\<not> bn_neg ?a" "bn_ok ?b" by simp_all
  from BN_asn1_round_trip [OF small_heap_bounded _ this r, of 16]
  obtain out where o: "serialise small_heap 16 (BN_marshal_asn1 small_heap 0 ?a) = Some out"
    "\<forall>rest. \<exists>v. BN_parse_asn1_unsigned small_heap (out @ rest, ?b) = (Some (), rest, v) \<and> bn_ok v \<and> bn_val v = bn_val ?a"
    by (auto simp: n)
  obtain v where "BN_parse_asn1_unsigned small_heap (out @ [1, 2], ?b) = (Some (), [1, 2], v)" "bn_val v = bn_val ?a"
    using o(2) by blast
  then show ?thesis using o(1) by auto
qed

end
