(* ===== verification/Spec2Isabelle.thy ===== *)
theory Spec2Isabelle
  imports Prelude Codec Mem Cbs Cbb Oid Unicode Ber Digest Md Sha Sha512 Schedule Sha1_Fips Fips_Constants Sha2_Fips Evp Hmac Buf Bio Bio_Pair Bio_Mem Bio_Api Bio_Joined Bio_Stream Lhash Stack Ctime Base64 Bn_Words Bn Bn_Bytes
begin

text \<open>
  A verification library for the C core of the repository. The repository is a collection of
  iOS training projects; the code with logic of its own is in the libraries the largest of
  them, \<open>FirebasePractise\<close>, carries as sources under \<open>Pods/\<close>. The library here models the
  cryptographic library \<open>BoringSSL-GRPC\<close> of gRPC, and of it the parts the others are built
  on. Paths are relative to \<open>src/FirebasePractise/Pods/BoringSSL-GRPC/src/\<close>; every definition
  has the name of the C function, type or macro it translates.

  \<^bold>\<open>How the code is modelled.\<close>
  The platform is the one of the build: 64-bit \<open>size_t\<close>, 32-bit \<open>int\<close>, no assembly. Fixed-width
  C integers are words of that width; sizes are natural numbers with \<open>mod 2 ^ 64\<close> written out
  wherever the code can wrap. An array is a list, and a write into one is \<open>mem_write\<close>, which
  keeps the length exactly when the write stays inside, so an invariant that fixes a length
  also shows the absence of out-of-bounds writes. A function that changes an object and may
  fail is an \<open>op\<close>: from the object to an optional result and the object afterwards, so what a
  failing call leaves behind is part of the model. Memory comes from a \<open>heap_env\<close>, which says
  what size can be allocated and what the fresh bytes hold; theorems are for every such
  environment, and those that promise success name the sizes they need. Loops are recursive
  functions proved to end; the few that may not (the callback loops of \<open>lh_doall_arg\<close>,
  \<open>BIO_write_all\<close>, the copying loops of the BIO pair) are partial functions into an option,
  and the theorems about them state that they return.

  \<^bold>\<open>The theories.\<close>
  \<^item> \<open>Prelude\<close>, \<open>Codec\<close>: words, byte arrays, fallible operations; the contract between a reader
    and an encoding (locales \<open>codec\<close> and \<open>element_codec\<close>), interpreted on the readers below.
  \<^item> \<open>Mem\<close> (\<open>crypto/mem.c\<close>): allocation, with the size header in front of every block, comparison, hashing, C strings; sorting as \<open>qsort\<close>
    promises it.
  \<^item> \<open>Cbs\<close>, \<open>Cbb\<close>, \<open>Oid\<close>, \<open>Unicode\<close>, \<open>Ber\<close> (\<open>crypto/bytestring\<close>): the reader \<open>CBS\<close>, whose state
    is the bytes left; the writer \<open>CBB\<close>, whose state is one buffer with the chain of pending
    children, abstracted to the frames still to be closed (\<open>writer_at\<close>, and the contracts
    \<open>writes\<close> and \<open>opens\<close> every writing operation keeps); object identifiers as text and as DER;
    code points in five encodings; BER, modelled as trees of elements, and its conversion to
    DER. The locales \<open>appender\<close> and \<open>serialiser\<close> join writers and readers to round trips.
  \<^item> \<open>Digest\<close>, \<open>Md\<close>, \<open>Sha\<close>, \<open>Sha512\<close>, \<open>Schedule\<close>, \<open>Sha1_Fips\<close>, \<open>Fips_Constants\<close>,
    \<open>Sha2_Fips\<close>
    (\<open>crypto/fipsmodule/digest\<close>, \<open>md4\<close>, \<open>md5\<close>, \<open>sha\<close>): the collectors of partial blocks and the
    unrolled block functions, proved equal to the digests of RFC 1320, RFC 1321 and FIPS 180-4
    written out independently of the code. The constants of SHA-2 are computed from the roots
    of the first primes, as the standard defines them, and the tables of the code proved equal.
  \<^item> \<open>Evp\<close>, \<open>Hmac\<close> (\<open>digest.c\<close>, \<open>digests.c\<close>, \<open>crypto/fipsmodule/hmac\<close>, \<open>crypto/hkdf\<close>): digest
    contexts over any of the digests, HMAC as RFC 2104 and HKDF as RFC 5869 define them.
  \<^item> \<open>Buf\<close>, \<open>Bio\<close>, \<open>Bio_Pair\<close>, \<open>Bio_Mem\<close>, \<open>Bio_Api\<close>, \<open>Bio_Joined\<close>, \<open>Bio_Stream\<close> (\<open>crypto/buf\<close>,
    \<open>crypto/bio\<close>): growable buffers; BIO objects in an explicit heap with reference counts and
    chains; the pair of ring buffers and the memory BIO behind one interface; the pair as two
    queues, and readers proved once over what every BIO promises.
  \<^item> \<open>Lhash\<close> (\<open>crypto/lhash\<close>): the chained hash table; items carry the address of their block,
    so that an iteration that follows a released item has no result. Abstracted to a map; the
    locale \<open>keyed_table\<close> states the three operations' contract and gives runs of operations.
  \<^item> \<open>Stack\<close> (\<open>crypto/stack\<close>): the array of pointers with its fill length and its sorted flag,
    abstracted to a list. The C library's \<open>qsort\<close> is a parameter, with what the C standard says
    of it as a hypothesis.
  \<^item> \<open>Ctime\<close>, \<open>Base64\<close> (\<open>crypto/internal.h\<close>, \<open>crypto/base64\<close>): the branch-free comparisons, and
    base64 over them, for whole blocks and for streams.
  \<^item> \<open>Bn_Words\<close>, \<open>Bn\<close>, \<open>Bn_Bytes\<close> (\<open>crypto/fipsmodule/bn\<close>, \<open>crypto/bn_extra\<close>): multi-precision
    integers. The word loops run on a memory of word arrays, so that a result that overlaps an
    operand is part of the model; a \<open>BIGNUM\<close> is its array, width and sign, and the functions of
    several work on a store of them, where the result may be an operand. \<open>bn_val\<close> abstracts a
    \<open>BIGNUM\<close> to an integer.

  \<^bold>\<open>What the theorems show.\<close>
  For data formats: each reader accepts exactly the encodings of the format, each writer
  writes them, and the two are inverse; errors are sticky and leave memory intact. For digests
  and codes: equality with the standard for every message, however it is cut. For containers:
  every sequence of operations gives what the abstract container gives, through every resize
  and every allocation failure. For BIOs: nothing is lost, duplicated or reordered, and loops
  over them end. For numbers: addition, subtraction, shifts, comparisons and single bits are
  those of the integers, and byte strings and INTEGERs of any size are read and written
  exactly, but for the sign a negative destination keeps. Where the code departs from what it is meant to do, a theorem exhibits it.

  \<^bold>\<open>Bounds.\<close>
  Theorems about DER are for contents below 2^32 bytes, the limit of the reader; conversions of
  BER for inputs below 2^31 bytes, which keeps the DER, at most twice as long, inside that
  limit. Allocators are taken to refuse blocks of 2^62 bytes and more (\<open>heap_bounded\<close>). Digest
  theorems are for messages whose bit length fits the counter of the standard. Numbers have at
  most 8388607 words, the bound of \<open>bn_wexpand\<close>, which keeps every \<open>int\<close> in range (\<open>bn_ok\<close>). The lengths of \<open>BIO_read\<close> and
  \<open>BIO_write\<close> are unbounded integers; a C caller cannot pass more than \<open>INT_MAX\<close>, so the theorems
  cover more calls than there are. \<open>read_all\<close> and
  the OID parser use the length of their input as fuel, and each step consumes a byte.

  \<^bold>\<open>Not modelled.\<close>
  Errors pushed on the thread-local error queue; the release of memory, where the model has no
  heap to return it to; timing. Of the library: the template-driven ASN.1 decoder and X.509 over
  it (they interpret tables of struct offsets), multiplication and division of numbers with
  the modular arithmetic over them, elliptic curves, ciphers and their modes, random numbers, PEM and configuration files, and the TLS state
  machine, which is C++. Of the repository: gRPC, Abseil, leveldb and Firestore, which are C++
  around threads and callbacks, and the applications, which are user interface code.
\<close>

end
